(* ===== verification/Prelude.thy ===== *)
theory Prelude
  imports Main "HOL-Library.Word"
begin

text \<open>
  Shared vocabulary of the development: the C integer types as words, a byte buffer as
  a list of bytes, \<open>size_t\<close> arithmetic with its wrap-around written out, and the
  values of big-endian and little-endian byte strings, with the lemmas the component
  theories share. Every fallible C operation that works on a cursor is a function from the
  cursor to a pair \<open>(result, cursor)\<close>: \<open>None\<close> is the C return value 0 (or false), and the
  second component is what the operation leaves behind in either case.
\<close>

unbundle bit_operations_syntax

section \<open>Machine types\<close>

type_synonym u8 = "8 word"
type_synonym u16 = "16 word"
type_synonym u32 = "32 word"
type_synonym u64 = "64 word"
type_synonym bytes = "u8 list"

text \<open>The targets of the application are 64-bit: \<open>size_t\<close> has 64 bits.\<close>

abbreviation size_limit :: nat where
  "size_limit \<equiv> 2 ^ 64"

definition size_add :: "nat \<Rightarrow> nat \<Rightarrow> nat" where
  "size_add a b = (a + b) mod size_limit"

definition size_mul :: "nat \<Rightarrow> nat \<Rightarrow> nat" where
  "size_mul a b = (a * b) mod size_limit"

text \<open>Facts that rewrite \<open>size_t\<close> arithmetic, and the byte-value equations.\<close>

named_theorems size_simps
named_theorems byte_value

lemma size_add_exact: "a + b < size_limit \<Longrightarrow> size_add a b = a + b"
  by (simp add: size_add_def)

lemma size_add_overflow:
  assumes "a < size_limit" and "b < size_limit"
  shows "size_add a b < a \<longleftrightarrow> size_limit \<le> a + b"
proof (cases "a + b < size_limit")
  case True
  then show ?thesis by (simp add: size_add_exact)
next
  case False
  with assms have "size_add a b = a + b - size_limit"
    by (simp add: size_add_def mod_if)
  with False assms show ?thesis by simp
qed

lemma size_mul_exact: "a * b < size_limit \<Longrightarrow> size_mul a b = a * b"
  by (simp add: size_mul_def)

section \<open>Byte strings as numbers\<close>

fun be_val :: "bytes \<Rightarrow> nat" where
  "be_val [] = 0"
| "be_val (b # bs) = unat b * 256 ^ length bs + be_val bs"

fun le_val :: "bytes \<Rightarrow> nat" where
  "le_val [] = 0"
| "le_val (b # bs) = unat b + 256 * le_val bs"

lemma unat_u8_less [simp]: "unat (b :: u8) < 256"
  using unsigned_less [of b] by simp

lemma unat_u8_le [simp]: "unat (b :: u8) \<le> 255"
  using unat_u8_less [of b] by linarith

lemma unat_ucast_up [simp]:
  "LENGTH('a) \<le> LENGTH('b) \<Longrightarrow> unat (ucast (x :: 'a :: len word) :: 'b :: len word) = unat x"
proof -
  assume "LENGTH('a) \<le> LENGTH('b)"
  then have "(2 :: nat) ^ LENGTH('a) \<le> 2 ^ LENGTH('b)" by (rule power_increasing) simp
  then have "unat x < 2 ^ LENGTH('b)" by (rule less_le_trans [OF unsigned_less])
  then show ?thesis by (simp add: unsigned_ucast_eq take_bit_nat_eq_self)
qed

lemma unat_less_pow: "unat (w :: 'a :: len word) < 2 ^ LENGTH('a)"
  by (rule unsigned_less)

lemma unat_of_nat_less: "m < 2 ^ LENGTH('a) \<Longrightarrow> unat (of_nat m :: 'a :: len word) = m"
  unfolding unat_of_nat by simp

lemma be_val_append [byte_value]:
  "be_val (xs @ ys) = be_val xs * 256 ^ length ys + be_val ys"
  by (induction xs) (simp_all add: algebra_simps power_add)

lemma le_val_append [byte_value]:
  "le_val (xs @ ys) = le_val xs + 256 ^ length xs * le_val ys"
  by (induction xs) (simp_all add: algebra_simps)

lemma be_val_rev: "be_val (rev bs) = le_val bs"
  by (induction bs) (simp_all add: be_val_append)

lemma le_val_rev: "le_val (rev bs) = be_val bs"
  using be_val_rev [of "rev bs"] by simp

lemma be_val_less: "be_val bs < 256 ^ length bs"
proof (induction bs)
  case (Cons b bs)
  have "unat b * 256 ^ length bs + be_val bs < (unat b + 1) * 256 ^ length bs"
    using Cons.IH by (simp add: algebra_simps)
  also have "\<dots> \<le> 256 * 256 ^ length bs"
    by (intro mult_right_mono) (simp_all add: Suc_le_eq)
  finally show ?case by simp
qed simp

lemma le_val_less: "le_val bs < 256 ^ length bs"
  using be_val_less [of "rev bs"] by (simp add: be_val_rev)

lemma be_val_replicate_0 [simp]: "be_val (replicate n 0 @ bs) = be_val bs"
  by (induction n) simp_all

text \<open>\<open>be_bytes n v\<close>: the \<open>n\<close> low-order bytes of \<open>v\<close>, most significant first.\<close>

fun be_bytes :: "nat \<Rightarrow> nat \<Rightarrow> bytes" where
  "be_bytes 0 v = []"
| "be_bytes (Suc n) v = be_bytes n (v div 256) @ [of_nat v]"

definition le_bytes :: "nat \<Rightarrow> nat \<Rightarrow> bytes" where
  "le_bytes n v = rev (be_bytes n v)"

lemma length_be_bytes [simp]: "length (be_bytes n v) = n"
  by (induction n arbitrary: v) simp_all

lemma length_le_bytes [simp]: "length (le_bytes n v) = n"
  by (simp add: le_bytes_def)

lemma unat_of_nat_u8: "unat (of_nat v :: u8) = v mod 256"
  by (simp add: unat_of_nat)

lemma mod_mult_div: "(v :: nat) mod (m * n) = v div n mod m * n + v mod n"
  by (metis add.commute mod_mult2_eq mult.commute)

lemma eq_mult_add_iff: "r < m \<Longrightarrow> (x :: nat) = q * m + r \<longleftrightarrow> x div m = q \<and> x mod m = r"
proof -
  assume r: "r < m"
  have "x div m = q \<and> x mod m = r" if "x = q * m + r" using r that by simp
  moreover have "x = q * m + r" if "x div m = q \<and> x mod m = r"
    using that div_mult_mod_eq [of x m] by simp
  ultimately show ?thesis by blast
qed

lemma be_val_be_bytes [byte_value]: "be_val (be_bytes n v) = v mod 256 ^ n"
proof (induction n arbitrary: v)
  case (Suc n)
  have "v mod 256 ^ Suc n = v div 256 mod 256 ^ n * 256 + v mod 256"
    using mod_mult_div [of v "256 ^ n" 256] by (simp add: mult.commute)
  then show ?case
    by (simp add: be_val_append Suc.IH unat_of_nat_u8)
qed simp

lemma le_val_le_bytes [byte_value]: "le_val (le_bytes n v) = v mod 256 ^ n"
  by (simp add: le_bytes_def le_val_rev be_val_be_bytes)

lemma be_bytes_be_val: "be_bytes (length bs) (be_val bs) = bs"
proof (induction bs rule: rev_induct)
  case (snoc b bs)
  have "(be_val bs * 256 + unat b) div 256 = be_val bs"
    by (simp add: div_add1_eq)
  moreover have "(of_nat (be_val bs * 256 + unat b) :: u8) = b"
    unfolding word_unat_eq_iff unat_of_nat_u8 by simp
  ultimately show ?case by (simp add: be_val_append snoc.IH)
qed simp

lemma be_val_inject:
  assumes "length xs = length ys" and "be_val xs = be_val ys"
  shows "xs = ys"
  by (metis assms be_bytes_be_val)

section \<open>Facts about single bytes\<close>

text \<open>A statement about every byte is decided by evaluating it at the 256 values.\<close>

lemma u8_forall: "(\<forall>b :: u8. P b) \<longleftrightarrow> list_all (\<lambda>n. P (of_nat n)) [0..<256]"
proof
  assume all: "list_all (\<lambda>n. P (of_nat n)) [0..<256]"
  show "\<forall>b. P b"
  proof
    fix b :: u8
    have "unat b \<in> set [0..<256]" by simp
    with all have "P (of_nat (unat b))" by (simp only: list_all_iff)
    then show "P b" by simp
  qed
qed (simp add: list_all_iff)

lemma u8_by_eval:
  assumes "list_all (\<lambda>n. P (of_nat n)) [0..<256]"
  shows "P (b :: u8)"
  using assms u8_forall by blast

lemma nat_below_by_eval:
  assumes "list_all P [0..<n]" and "k < n"
  shows "P k"
  using assms by (simp add: list_all_iff)

lemma u8_low7 [byte_value]: "unat (b AND 0x7f :: u8) = unat b mod 128"
  by (rule u8_by_eval [where P = "\<lambda>b. unat (b AND 0x7f) = unat b mod 128"]) code_simp

lemma u8_low5 [byte_value]: "unat (b AND 0x1f :: u8) = unat b mod 32"
  by (rule u8_by_eval [where P = "\<lambda>b. unat (b AND 0x1f) = unat b mod 32"]) code_simp

lemma u8_high_bit [byte_value]: "(b AND 0x80 = 0) = (unat (b :: u8) < 128)"
  by (rule u8_by_eval [where P = "\<lambda>b. (b AND 0x80 = 0) = (unat b < 128)"]) code_simp

lemma u8_set_high_bit: "k < 128 \<Longrightarrow> unat (of_nat k OR 0x80 :: u8) = k + 128"
  by (rule nat_below_by_eval [where n = 128 and P = "\<lambda>k. unat (of_nat k OR 0x80 :: u8) = k + 128"])
    code_simp

lemma u8_eq_iff: "(a :: u8) = b \<longleftrightarrow> unat a = unat b"
  by (rule word_unat_eq_iff)

section \<open>Shifting in low-order bits\<close>

lemma push_bit_or_add:
  fixes x y :: "'a :: len word"
  assumes "take_bit k y = y"
  shows "push_bit k x OR y = push_bit k x + y"
proof -
  have "push_bit k x AND take_bit k y = 0"
    by (rule bit_eqI) (auto simp: bit_simps)
  with assms show ?thesis
    by (simp add: disjunctive_add_eq_or)
qed

lemma take_bit_eq_self: "unat (y :: 'a :: len word) < 2 ^ k \<Longrightarrow> take_bit k y = y"
  by (simp add: word_unat_eq_iff unsigned_take_bit_eq take_bit_nat_eq_self)

lemma unat_push_or:
  fixes x y :: "'a :: len word"
  assumes "unat y < 2 ^ k" and "unat x * 2 ^ k + unat y < 2 ^ LENGTH('a)"
  shows "unat (push_bit k x OR y) = unat x * 2 ^ k + unat y"
proof -
  have "push_bit k x OR y = push_bit k x + y"
    by (rule push_bit_or_add [OF take_bit_eq_self [OF assms(1)]])
  also have "\<dots> = of_nat (unat x * 2 ^ k + unat y)"
    by (simp add: push_bit_eq_mult)
  finally show ?thesis
    using assms(2) by (simp only: unat_of_nat mod_less)
qed

lemma drop_bit_eq_0_iff: "drop_bit k (v :: 'a :: len word) = 0 \<longleftrightarrow> unat v < 2 ^ k"
  unfolding word_unat_eq_iff unat_drop_bit_eq by (simp add: drop_bit_eq_div div_eq_0_iff)

section \<open>Accumulating bytes into a word\<close>

text \<open>
  The loop \<open>result <<= 8; result |= data[i]\<close>, the way every big-endian reader of the
  sources assembles an integer.
\<close>

fun be_accum :: "u64 \<Rightarrow> bytes \<Rightarrow> u64" where
  "be_accum r [] = r"
| "be_accum r (b # bs) = be_accum (push_bit 8 r OR ucast b) bs"

lemma push_bit_8_or: "push_bit 8 (r :: u64) OR ucast (b :: u8) = r * 256 + ucast b"
proof -
  have "push_bit 8 r AND ucast b = 0"
    by (rule bit_eqI) (auto simp: bit_simps dest: bit_imp_le_length)
  then show ?thesis
    by (simp add: disjunctive_add_eq_or [symmetric] push_bit_eq_mult)
qed

lemma be_accum_of_nat:
  "be_accum r bs = r * 256 ^ length bs + of_nat (be_val bs)"
proof (induction r bs rule: be_accum.induct)
  case (2 r b bs)
  have "be_accum r (b # bs) = (r * 256 + of_nat (unat b)) * 256 ^ length bs + of_nat (be_val bs)"
    using 2 by (simp only: be_accum.simps push_bit_8_or of_nat_unat)
  also have "\<dots> = r * 256 ^ length (b # bs) + of_nat (be_val (b # bs))"
    unfolding be_val.simps of_nat_add of_nat_mult of_nat_power length_Cons power_Suc
    by (simp only: of_nat_numeral algebra_simps)
  finally show ?case .
qed simp

lemma be_accum_0: "be_accum 0 bs = of_nat (be_val bs)"
  by (simp add: be_accum_of_nat)

lemma pow_256_le_size:
  assumes "n \<le> 8"
  shows "(256 :: nat) ^ n \<le> size_limit"
proof -
  have "(256 :: nat) ^ n \<le> 256 ^ 8" using assms by (intro power_increasing) simp_all
  then show ?thesis by simp
qed

lemma unat_be_accum_0: "length bs \<le> 8 \<Longrightarrow> unat (be_accum 0 bs) = be_val bs"
proof -
  assume "length bs \<le> 8"
  then have "be_val bs < 2 ^ 64"
    using be_val_less [of bs] pow_256_le_size [of "length bs"] by linarith
  then show ?thesis
    unfolding be_accum_0 unat_of_nat by (simp add: take_bit_eq_mod)
qed

section \<open>Lists\<close>

lemma take_drop_decomp: "n \<le> length xs \<Longrightarrow> \<exists>ys zs. xs = ys @ zs \<and> length ys = n"
  by (metis append_take_drop_id length_take min.absorb2)

lemma take_append_exact [simp]: "length xs = n \<Longrightarrow> take n (xs @ ys) = xs"
  by simp

lemma drop_append_exact [simp]: "length xs = n \<Longrightarrow> drop n (xs @ ys) = ys"
  by simp

end
