(* ===== verification/Reader.thy ===== *)
theory Reader
  imports Prelude
begin

text \<open>
  The contract of a parsing operation. Every reader of the byte-string library takes a
  cursor, returns a value or fails, and leaves a cursor behind. A well-behaved one leaves
  a suffix of its input, whether it succeeds or not (it never reads before or past the
  slice), and what it accepts does not depend on bytes after the ones it consumed. Clients
  (the ASN.1 layers, the BER converter, the round-trip theorems) rest on these two laws
  only; each reader is shown to satisfy them by an interpretation in its own theory.
\<close>

locale prefix_reader =
  fixes rd :: "bytes \<Rightarrow> 'a option \<times> bytes"
  assumes leaves_suffix: "rd s = (r, s') \<Longrightarrow> \<exists>c. s = c @ s'"
    and extends: "rd s = (Some a, s') \<Longrightarrow> rd (s @ t) = (Some a, s' @ t)"
begin

lemma length_le: "rd s = (r, s') \<Longrightarrow> length s' \<le> length s"
  using leaves_suffix by fastforce

lemma set_subset: "rd s = (r, s') \<Longrightarrow> set s' \<subseteq> set s"
  using leaves_suffix by fastforce

text \<open>An encoding that is read back completely is read back in front of any other bytes.\<close>

lemma reads_in_context: "rd s = (Some a, []) \<Longrightarrow> rd (s @ t) = (Some a, t)"
  using extends by fastforce

text \<open>No accepted input is a proper prefix of another one with a different value.\<close>

lemma prefix_free:
  assumes "rd s = (Some a, [])" and "rd (s @ t) = (Some b, [])"
  shows "t = [] \<and> a = b"
  using reads_in_context [OF assms(1), of t] assms(2) by simp

end

text \<open>A reader that makes progress consumes at least one byte when it succeeds: what a
  loop that reads until the cursor is empty needs to stop.\<close>

locale progress_reader = prefix_reader +
  assumes consumes: "rd s = (Some a, s') \<Longrightarrow> length s' < length s"
begin

lemma fails_on_empty: "\<exists>s'. rd [] = (None, s')"
proof (cases "rd []")
  case (Pair r s')
  then show ?thesis using consumes [of "[]"] by (cases r) auto
qed

end

text \<open>
  Readers are composed by running one, failing if it fails, and passing its value on: the
  shape every compound reader of the sources has. The contract is closed under it.
\<close>

named_theorems reader_intros

lemma prefix_reader_return [reader_intros]: "prefix_reader (\<lambda>s. (Some a, s))"
  by unfold_locales auto

lemma prefix_reader_fail [reader_intros]: "prefix_reader (\<lambda>s. (None, s))"
  by unfold_locales auto

lemma prefix_reader_if [reader_intros]:
  "(b \<Longrightarrow> prefix_reader f) \<Longrightarrow> (\<not> b \<Longrightarrow> prefix_reader g) \<Longrightarrow>
     prefix_reader (\<lambda>s. if b then f s else g s)"
  by (cases b) simp_all

lemma prefix_reader_let [reader_intros]:
  "prefix_reader (f x) \<Longrightarrow> prefix_reader (\<lambda>s. let y = x in f y s)"
  by simp

lemma prefix_reader_case [reader_intros]:
  assumes "prefix_reader rd" and "\<And>a. prefix_reader (f a)"
  shows "prefix_reader (\<lambda>s. case rd s of (r, s1) \<Rightarrow> (case r of None \<Rightarrow> (None, s1) | Some a \<Rightarrow> f a s1))"
    (is "prefix_reader ?g")
proof
  show "\<exists>c. s = c @ s'" if "?g s = (r, s')" for s r s'
  proof (cases "rd s")
    case (Pair q s1)
    then obtain c where c: "s = c @ s1" using prefix_reader.leaves_suffix [OF assms(1)] by blast
    show ?thesis
    proof (cases q)
      case None
      with Pair that c show ?thesis by auto
    next
      case (Some a)
      with Pair that obtain c' where "s1 = c' @ s'"
        using prefix_reader.leaves_suffix [OF assms(2)] by fastforce
      with c show ?thesis by simp
    qed
  qed
  show "?g (s @ t) = (Some b, s' @ t)" if "?g s = (Some b, s')" for s b s' t
  proof -
    from that obtain a s1 where "rd s = (Some a, s1)" and "f a s1 = (Some b, s')"
      by (auto split: prod.splits option.splits)
    then show ?thesis
      by (simp add: prefix_reader.extends [OF assms(1)] prefix_reader.extends [OF assms(2)])
  qed
qed

lemma progress_reader_case [reader_intros]:
  assumes "progress_reader rd" and "\<And>a. prefix_reader (f a)"
  shows "progress_reader (\<lambda>s. case rd s of (r, s1) \<Rightarrow> (case r of None \<Rightarrow> (None, s1) | Some a \<Rightarrow> f a s1))"
proof (intro progress_reader.intro progress_reader_axioms.intro prefix_reader_case assms(2)
    progress_reader.axioms(1) [OF assms(1)])
  fix s b s'
  assume "(case rd s of (r, s1) \<Rightarrow> (case r of None \<Rightarrow> (None, s1) | Some a \<Rightarrow> f a s1)) = (Some b, s')"
  then obtain a s1 where "rd s = (Some a, s1)" and "f a s1 = (Some b, s')"
    by (auto split: prod.splits option.splits)
  then show "length s' < length s"
    using progress_reader.consumes [OF assms(1)] prefix_reader.length_le [OF assms(2)] by fastforce
qed

lemma prefix_reader_cong: "prefix_reader f \<Longrightarrow> (\<And>s. g s = f s) \<Longrightarrow> prefix_reader g"
  by (simp add: ext [of g f])

end
