(* ===== verification/Mem.thy ===== *)
theory Mem
  imports Prelude
begin

text \<open>
  \<open>crypto/mem.c\<close>: the allocator wrappers, the constant-time comparison and the C string
  helpers, with the byte swaps of \<open>crypto/internal.h\<close>. \<open>malloc\<close> is the C library's
  allocator, a parameter: whether a request of that many bytes succeeds. A C string is the
  list of its bytes with the terminating NUL.
\<close>

unbundle bit_operations_syntax

section \<open>Allocation\<close>

definition OPENSSL_MALLOC_PREFIX :: nat where
  "OPENSSL_MALLOC_PREFIX = 8"

text \<open>The result is the number of bytes of the block behind the size prefix.\<close>

definition OPENSSL_malloc :: "(nat \<Rightarrow> bool) \<Rightarrow> nat \<Rightarrow> nat option" where
  "OPENSSL_malloc malloc n =
     (let request = size_add n OPENSSL_MALLOC_PREFIX
      in if malloc request then Some (request - OPENSSL_MALLOC_PREFIX) else None)"

lemma OPENSSL_malloc_exact:
  "n + 8 < size_limit \<Longrightarrow> OPENSSL_malloc malloc n = (if malloc (n + 8) then Some n else None)"
  by (simp add: OPENSSL_malloc_def OPENSSL_MALLOC_PREFIX_def size_add_exact)

definition OPENSSL_memdup :: "(nat \<Rightarrow> bool) \<Rightarrow> bytes \<Rightarrow> nat \<Rightarrow> bytes option" where
  "OPENSSL_memdup malloc d n =
     (if n = 0 then None
      else case OPENSSL_malloc malloc n of None \<Rightarrow> None | Some _ \<Rightarrow> Some (take n d))"

section \<open>Comparison and hashing\<close>

fun memcmp_accum :: "u8 \<Rightarrow> bytes \<Rightarrow> bytes \<Rightarrow> nat \<Rightarrow> u8" where
  "memcmp_accum x (a # as) (b # bs) (Suc len) = memcmp_accum (x OR (a XOR b)) as bs len"
| "memcmp_accum x as bs len = x"

definition CRYPTO_memcmp :: "bytes \<Rightarrow> bytes \<Rightarrow> nat \<Rightarrow> u8" where
  "CRYPTO_memcmp a b len = memcmp_accum 0 a b len"

text \<open>\<open>OPENSSL_memcmp\<close> of \<open>crypto/internal.h\<close> is the C library's \<open>memcmp\<close>: the sign of the
  first difference.\<close>

fun OPENSSL_memcmp :: "bytes \<Rightarrow> bytes \<Rightarrow> nat \<Rightarrow> int" where
  "OPENSSL_memcmp (a # as) (b # bs) (Suc n) =
     (if a < b then -1 else if a > b then 1 else OPENSSL_memcmp as bs n)"
| "OPENSSL_memcmp as bs n = 0"

text \<open>FNV-1a.\<close>

fun hash32_loop :: "u32 \<Rightarrow> bytes \<Rightarrow> u32" where
  "hash32_loop h [] = h"
| "hash32_loop h (b # bs) = hash32_loop ((h XOR ucast b) * 16777619) bs"

definition OPENSSL_hash32 :: "bytes \<Rightarrow> nat \<Rightarrow> u32" where
  "OPENSSL_hash32 ptr len = hash32_loop 2166136261 (take len ptr)"

section \<open>C strings\<close>

fun OPENSSL_strnlen :: "bytes \<Rightarrow> nat \<Rightarrow> nat" where
  "OPENSSL_strnlen s 0 = 0"
| "OPENSSL_strnlen [] (Suc len) = 0"
| "OPENSSL_strnlen (c # s) (Suc len) = (if c = 0 then 0 else Suc (OPENSSL_strnlen s len))"

definition OPENSSL_strndup :: "(nat \<Rightarrow> bool) \<Rightarrow> bytes \<Rightarrow> nat \<Rightarrow> bytes option" where
  "OPENSSL_strndup malloc str sz =
     (let sz = OPENSSL_strnlen str sz; alloc_size = size_add sz 1
      in if alloc_size < sz then None
         else case OPENSSL_malloc malloc alloc_size of None \<Rightarrow> None
              | Some _ \<Rightarrow> Some (take sz str @ [0]))"

definition OPENSSL_tolower :: "int \<Rightarrow> int" where
  "OPENSSL_tolower c = (if 65 \<le> c \<and> c \<le> 90 then c + (97 - 65) else c)"

text \<open>\<open>char\<close> is signed on the targets of the application. The loops are only entered with
  characters left: a C string ends at its NUL.\<close>

fun OPENSSL_strcasecmp :: "bytes \<Rightarrow> bytes \<Rightarrow> int" where
  "OPENSSL_strcasecmp (a # as) (b # bs) =
     (let aa = OPENSSL_tolower (sint a); bb = OPENSSL_tolower (sint b)
      in if aa < bb then -1 else if aa > bb then 1 else if aa = 0 then 0
         else OPENSSL_strcasecmp as bs)"
| "OPENSSL_strcasecmp as bs = 0"

fun OPENSSL_strncasecmp :: "bytes \<Rightarrow> bytes \<Rightarrow> nat \<Rightarrow> int" where
  "OPENSSL_strncasecmp (a # as) (b # bs) (Suc n) =
     (let aa = OPENSSL_tolower (sint a); bb = OPENSSL_tolower (sint b)
      in if aa < bb then -1 else if aa > bb then 1 else if aa = 0 then 0
         else OPENSSL_strncasecmp as bs n)"
| "OPENSSL_strncasecmp as bs n = 0"

definition strlen :: "bytes \<Rightarrow> nat" where
  "strlen s = length (takeWhile (\<lambda>c. c \<noteq> 0) s)"

definition OPENSSL_strdup :: "(nat \<Rightarrow> bool) \<Rightarrow> bytes \<Rightarrow> bytes option" where
  "OPENSSL_strdup malloc s =
     (let len = size_add (strlen s) 1
      in case OPENSSL_malloc malloc len of None \<Rightarrow> None | Some _ \<Rightarrow> Some (take len s))"

text \<open>The bytes written at \<open>dst\<close> and the return value; the loop stops one byte before the
  end of the destination or at the NUL of the source.\<close>

fun strlcpy_loop :: "bytes \<Rightarrow> nat \<Rightarrow> bytes \<times> nat" where
  "strlcpy_loop (c # src) (Suc (Suc n)) =
     (if c = 0 then ([0], 0)
      else case strlcpy_loop src (Suc n) of (out, l) \<Rightarrow> (c # out, Suc l))"
| "strlcpy_loop src (Suc n) = ([0], 0)"
| "strlcpy_loop src 0 = ([], 0)"

definition OPENSSL_strlcpy :: "bytes \<Rightarrow> nat \<Rightarrow> bytes \<times> nat" where
  "OPENSSL_strlcpy src dst_size =
     (case strlcpy_loop src dst_size of (out, l) \<Rightarrow> (out, l + strlen (drop l src)))"

text \<open>\<open>dst\<close> is the destination with its present string; the result is what it holds up to the
  new NUL.\<close>

fun OPENSSL_strlcat :: "bytes \<Rightarrow> bytes \<Rightarrow> nat \<Rightarrow> bytes \<times> nat" where
  "OPENSSL_strlcat (c # dst) src (Suc n) =
     (if c = 0 then OPENSSL_strlcpy src (Suc n)
      else case OPENSSL_strlcat dst src n of (out, l) \<Rightarrow> (c # out, Suc l))"
| "OPENSSL_strlcat dst src n = OPENSSL_strlcpy src n"

section \<open>Byte swaps\<close>

definition CRYPTO_bswap2 :: "u16 \<Rightarrow> u16" where
  "CRYPTO_bswap2 x = drop_bit 8 x OR push_bit 8 x"

definition CRYPTO_bswap4 :: "u32 \<Rightarrow> u32" where
  "CRYPTO_bswap4 x =
     (let x = (drop_bit 16 x) OR (push_bit 16 x);
          x = (drop_bit 8 (x AND 0xff00ff00)) OR (push_bit 8 (x AND 0x00ff00ff))
      in x)"

definition CRYPTO_bswap8 :: "u64 \<Rightarrow> u64" where
  "CRYPTO_bswap8 x =
     ucast (CRYPTO_bswap4 (ucast (drop_bit 32 x))) OR
     push_bit 32 (ucast (CRYPTO_bswap4 (ucast x)))"

section \<open>Lemmas\<close>

lemma or_xor_eq_0_iff: "x OR (a XOR b) = 0 \<longleftrightarrow> x = 0 \<and> a = b" for x a b :: u8
  by (auto simp: bit_eq_iff bit_simps)

lemma memcmp_accum_0:
  "length a = n \<Longrightarrow> length b = n \<Longrightarrow> memcmp_accum x a b n = 0 \<longleftrightarrow> x = 0 \<and> a = b"
proof (induction x a b n rule: memcmp_accum.induct)
  case (1 x a as b bs len)
  then show ?case by (auto simp: or_xor_eq_0_iff)
qed auto

lemma CRYPTO_memcmp_0:
  "length a = n \<Longrightarrow> length b = n \<Longrightarrow> CRYPTO_memcmp a b n = 0 \<longleftrightarrow> a = b"
  by (simp add: CRYPTO_memcmp_def memcmp_accum_0)

end
