(* ===== verification/CBS.thy ===== *)
theory CBS
  imports Reader Mem
begin

text \<open>
  The byte-string reader, \<open>crypto/bytestring/cbs.c\<close>. A \<open>CBS\<close> is a pointer and a length;
  the model is the list of the bytes it points to. Each definition carries the name of the C
  function. It returns the pair of the result (\<open>None\<close> for a C return of 0) and the
  contents of \<open>*cbs\<close> afterwards, also when the function failed after it had moved the
  cursor. Output parameters that a failing function may have written are not part of the
  result: their contents are unspecified to callers.
\<close>

unbundle bit_operations_syntax

type_synonym cbs = bytes

section \<open>Cursor operations\<close>

definition CBS_init :: "bytes \<Rightarrow> nat \<Rightarrow> cbs" where
  "CBS_init d len = take len d"

definition cbs_get :: "cbs \<Rightarrow> nat \<Rightarrow> bytes option \<times> cbs" where
  "cbs_get cbs n =
     (if length cbs < n then (None, cbs) else (Some (take n cbs), drop n cbs))"

definition CBS_skip :: "cbs \<Rightarrow> nat \<Rightarrow> bool \<times> cbs" where
  "CBS_skip cbs len = (case cbs_get cbs len of (r, cbs) \<Rightarrow> (r \<noteq> None, cbs))"

definition CBS_data :: "cbs \<Rightarrow> bytes" where
  "CBS_data cbs = cbs"

definition CBS_len :: "cbs \<Rightarrow> nat" where
  "CBS_len cbs = length cbs"

text \<open>\<open>malloc\<close> is the C library's allocator: whether a request of that size succeeds. The
  result is the return value, the new \<open>*out_ptr\<close> (\<open>None\<close> is NULL) and \<open>*out_len\<close>.\<close>

definition CBS_stow :: "(nat \<Rightarrow> bool) \<Rightarrow> cbs \<Rightarrow> bool \<times> bytes option \<times> nat" where
  "CBS_stow malloc cbs =
     (if CBS_len cbs = 0 then (True, None, 0)
      else case OPENSSL_memdup malloc (CBS_data cbs) (CBS_len cbs) of
             None \<Rightarrow> (False, None, 0)
           | Some p \<Rightarrow> (True, Some p, CBS_len cbs))"

definition CBS_strdup :: "(nat \<Rightarrow> bool) \<Rightarrow> cbs \<Rightarrow> bytes option" where
  "CBS_strdup malloc cbs = OPENSSL_strndup malloc (CBS_data cbs) (CBS_len cbs)"

definition CBS_contains_zero_byte :: "cbs \<Rightarrow> bool" where
  "CBS_contains_zero_byte cbs = list_ex (\<lambda>b. b = 0) cbs"

definition CBS_mem_equal :: "cbs \<Rightarrow> bytes \<Rightarrow> nat \<Rightarrow> bool" where
  "CBS_mem_equal cbs d len =
     (if len \<noteq> CBS_len cbs then False else CRYPTO_memcmp (CBS_data cbs) d len = 0)"

section \<open>Fixed-width integers\<close>

definition cbs_get_u :: "cbs \<Rightarrow> nat \<Rightarrow> u64 option \<times> cbs" where
  "cbs_get_u cbs len =
     (case cbs_get cbs len of
        (None, cbs) \<Rightarrow> (None, cbs)
      | (Some d, cbs) \<Rightarrow> (Some (be_accum 0 d), cbs))"

definition CBS_get_u8 :: "cbs \<Rightarrow> u8 option \<times> cbs" where
  "CBS_get_u8 cbs =
     (case cbs_get cbs 1 of
        (None, cbs) \<Rightarrow> (None, cbs)
      | (Some v, cbs) \<Rightarrow> (Some (v ! 0), cbs))"

definition CBS_get_u16 :: "cbs \<Rightarrow> u16 option \<times> cbs" where
  "CBS_get_u16 cbs =
     (case cbs_get_u cbs 2 of
        (None, cbs) \<Rightarrow> (None, cbs)
      | (Some v, cbs) \<Rightarrow> (Some (ucast v), cbs))"

definition CBS_get_u24 :: "cbs \<Rightarrow> u32 option \<times> cbs" where
  "CBS_get_u24 cbs =
     (case cbs_get_u cbs 3 of
        (None, cbs) \<Rightarrow> (None, cbs)
      | (Some v, cbs) \<Rightarrow> (Some (ucast v), cbs))"

definition CBS_get_u32 :: "cbs \<Rightarrow> u32 option \<times> cbs" where
  "CBS_get_u32 cbs =
     (case cbs_get_u cbs 4 of
        (None, cbs) \<Rightarrow> (None, cbs)
      | (Some v, cbs) \<Rightarrow> (Some (ucast v), cbs))"

definition CBS_get_u64 :: "cbs \<Rightarrow> u64 option \<times> cbs" where
  "CBS_get_u64 cbs = cbs_get_u cbs 8"

definition CBS_get_u16le :: "cbs \<Rightarrow> u16 option \<times> cbs" where
  "CBS_get_u16le cbs =
     (case CBS_get_u16 cbs of
        (None, cbs) \<Rightarrow> (None, cbs)
      | (Some v, cbs) \<Rightarrow> (Some (CRYPTO_bswap2 v), cbs))"

definition CBS_get_u32le :: "cbs \<Rightarrow> u32 option \<times> cbs" where
  "CBS_get_u32le cbs =
     (case CBS_get_u32 cbs of
        (None, cbs) \<Rightarrow> (None, cbs)
      | (Some v, cbs) \<Rightarrow> (Some (CRYPTO_bswap4 v), cbs))"

definition CBS_get_u64le :: "cbs \<Rightarrow> u64 option \<times> cbs" where
  "CBS_get_u64le cbs =
     (case cbs_get_u cbs 8 of
        (None, cbs) \<Rightarrow> (None, cbs)
      | (Some v, cbs) \<Rightarrow> (Some (CRYPTO_bswap8 v), cbs))"

section \<open>Slices and length prefixes\<close>

definition CBS_get_last_u8 :: "cbs \<Rightarrow> u8 option \<times> cbs" where
  "CBS_get_last_u8 cbs =
     (if CBS_len cbs = 0 then (None, cbs)
      else (Some (cbs ! (CBS_len cbs - 1)), take (CBS_len cbs - 1) cbs))"

definition CBS_get_bytes :: "cbs \<Rightarrow> nat \<Rightarrow> cbs option \<times> cbs" where
  "CBS_get_bytes cbs len =
     (case cbs_get cbs len of
        (None, cbs) \<Rightarrow> (None, cbs)
      | (Some v, cbs) \<Rightarrow> (Some (CBS_init v len), cbs))"

definition CBS_copy_bytes :: "cbs \<Rightarrow> nat \<Rightarrow> bytes option \<times> cbs" where
  "CBS_copy_bytes cbs len =
     (case cbs_get cbs len of
        (None, cbs) \<Rightarrow> (None, cbs)
      | (Some v, cbs) \<Rightarrow> (Some (take len v), cbs))"

definition cbs_get_length_prefixed :: "cbs \<Rightarrow> nat \<Rightarrow> cbs option \<times> cbs" where
  "cbs_get_length_prefixed cbs len_len =
     (case cbs_get_u cbs len_len of
        (None, cbs) \<Rightarrow> (None, cbs)
      | (Some len, cbs) \<Rightarrow> CBS_get_bytes cbs (unat len))"

definition CBS_get_u8_length_prefixed :: "cbs \<Rightarrow> cbs option \<times> cbs" where
  "CBS_get_u8_length_prefixed cbs = cbs_get_length_prefixed cbs 1"

definition CBS_get_u16_length_prefixed :: "cbs \<Rightarrow> cbs option \<times> cbs" where
  "CBS_get_u16_length_prefixed cbs = cbs_get_length_prefixed cbs 2"

definition CBS_get_u24_length_prefixed :: "cbs \<Rightarrow> cbs option \<times> cbs" where
  "CBS_get_u24_length_prefixed cbs = cbs_get_length_prefixed cbs 3"

section \<open>What the readers return\<close>

lemma cbs_get_append [simp]: "length d = n \<Longrightarrow> cbs_get (d @ t) n = (Some d, t)"
  by (simp add: cbs_get_def)

lemma cbs_get_SomeE:
  assumes "cbs_get s n = (Some d, s')"
  obtains "s = d @ s'" and "length d = n"
  using assms by (auto simp: cbs_get_def split: if_splits)

lemma cbs_get_NoneE:
  assumes "cbs_get s n = (None, s')"
  obtains "s' = s" and "length s < n"
  using assms by (auto simp: cbs_get_def split: if_splits)

lemma CBS_get_u8_Nil [simp]: "CBS_get_u8 [] = (None, [])"
  by (simp add: CBS_get_u8_def cbs_get_def)

lemma CBS_get_u8_Cons [simp]: "CBS_get_u8 (b # s) = (Some b, s)"
  by (simp add: CBS_get_u8_def cbs_get_def)

lemma CBS_get_u8_eq: "CBS_get_u8 s = (case s of [] \<Rightarrow> (None, []) | b # s' \<Rightarrow> (Some b, s'))"
  by (cases s) simp_all

lemma CBS_get_bytes_eq: "CBS_get_bytes s n = cbs_get s n"
  by (auto simp: CBS_get_bytes_def CBS_init_def cbs_get_def)

lemma CBS_copy_bytes_eq: "CBS_copy_bytes s n = cbs_get s n"
  by (auto simp: CBS_copy_bytes_def cbs_get_def)

lemma cbs_get_u_append: "length d = n \<Longrightarrow> cbs_get_u (d @ t) n = (Some (be_accum 0 d), t)"
  by (simp add: cbs_get_u_def)

lemma cbs_get_u_cases:
  "cbs_get_u s n = (if length s < n then (None, s) else (Some (be_accum 0 (take n s)), drop n s))"
  by (simp add: cbs_get_u_def cbs_get_def)

lemma cbs_get_u_value:
  assumes "cbs_get_u s n = (Some v, s')" and "n \<le> 8"
  shows "unat v = be_val (take n s) \<and> s' = drop n s \<and> n \<le> length s"
  using assms by (auto simp: cbs_get_u_cases unat_be_accum_0 split: if_splits)

lemma cbs_get_u_bound:
  assumes "cbs_get_u s n = (Some v, s')" and "n \<le> 8"
  shows "unat v < 256 ^ n"
  using cbs_get_u_value [OF assms] be_val_less [of "take n s"] by simp

lemmas cbs_eqs = CBS_get_u8_eq CBS_get_bytes_eq CBS_copy_bytes_eq CBS_data_def CBS_len_def

section \<open>The readers satisfy the reader contract\<close>

interpretation get: prefix_reader "\<lambda>s. cbs_get s n" for n
proof unfold_locales
  show "\<exists>c. s = c @ s'" if "cbs_get s n = (r, s')" for s r s'
    using that by (cases r) (auto elim: cbs_get_SomeE cbs_get_NoneE)
  show "cbs_get (s @ t) n = (Some a, s' @ t)" if "cbs_get s n = (Some a, s')" for s a s' t
    using that by (auto elim: cbs_get_SomeE)
qed

interpretation get_u: prefix_reader "\<lambda>s. cbs_get_u s n" for n
proof unfold_locales
  show "\<exists>c. s = c @ s'" if "cbs_get_u s n = (r, s')" for s r s'
    using that by (auto simp: cbs_get_u_cases split: if_splits intro: exI [of _ "take n s"])
  show "cbs_get_u (s @ t) n = (Some a, s' @ t)" if "cbs_get_u s n = (Some a, s')" for s a s' t
    using that by (auto simp: cbs_get_u_cases split: if_splits)
qed

interpretation u8: progress_reader CBS_get_u8
proof unfold_locales
  show "\<exists>c. s = c @ s'" if "CBS_get_u8 s = (r, s')" for s r s'
    using that by (cases s) auto
  show "CBS_get_u8 (s @ t) = (Some a, s' @ t)" if "CBS_get_u8 s = (Some a, s')" for s a s' t
    using that by (cases s) auto
  show "length s' < length s" if "CBS_get_u8 s = (Some a, s')" for s a s'
    using that by (cases s) auto
qed

interpretation u16: prefix_reader CBS_get_u16
  unfolding CBS_get_u16_def [abs_def] by (intro reader_intros get_u.prefix_reader_axioms)

interpretation u24: prefix_reader CBS_get_u24
  unfolding CBS_get_u24_def [abs_def] by (intro reader_intros get_u.prefix_reader_axioms)

interpretation u32: prefix_reader CBS_get_u32
  unfolding CBS_get_u32_def [abs_def] by (intro reader_intros get_u.prefix_reader_axioms)

interpretation length_prefixed: prefix_reader "\<lambda>s. cbs_get_length_prefixed s n" for n
  unfolding cbs_get_length_prefixed_def CBS_get_bytes_eq
  by (intro reader_intros get_u.prefix_reader_axioms get.prefix_reader_axioms)

end
