(* ===== verification/CBS_ASN1.thy ===== *)
theory CBS_ASN1
  imports CBS
begin

text \<open>
  The ASN.1 layer of the byte-string reader (second half of \<open>crypto/bytestring/cbs.c\<close>):
  base-128 integers, tags, DER and BER element headers, and the readers for INTEGER,
  BOOLEAN, BIT STRING and optional elements. Tags are the 32-bit values of
  \<open>bytestring.h\<close>, with class and constructed bit on top and the tag number below.
  An element is returned as the slice holding header and contents, its tag and its
  header length.
\<close>

unbundle bit_operations_syntax

section \<open>Tags\<close>

definition CBS_ASN1_TAG_SHIFT :: nat where
  "CBS_ASN1_TAG_SHIFT = 24"

definition CBS_ASN1_CONSTRUCTED :: u32 where
  "CBS_ASN1_CONSTRUCTED = push_bit CBS_ASN1_TAG_SHIFT 0x20"

definition CBS_ASN1_TAG_NUMBER_MASK :: u32 where
  "CBS_ASN1_TAG_NUMBER_MASK = push_bit (5 + CBS_ASN1_TAG_SHIFT) 1 - 1"

definition CBS_ASN1_BOOLEAN :: u32 where
  "CBS_ASN1_BOOLEAN = 1"

definition CBS_ASN1_INTEGER :: u32 where
  "CBS_ASN1_INTEGER = 2"

definition CBS_ASN1_OCTETSTRING :: u32 where
  "CBS_ASN1_OCTETSTRING = 4"

text \<open>\<open>parse_base128_integer\<close>: the \<open>do\<close> loop, one byte per turn, from the value \<open>v\<close>
  accumulated so far.\<close>

fun parse_base128_loop :: "u64 \<Rightarrow> cbs \<Rightarrow> u64 option \<times> cbs" where
  "parse_base128_loop v [] = (None, [])"
| "parse_base128_loop v (b # cbs) =
     (if drop_bit (64 - 7) v \<noteq> 0 then (None, cbs)
      else if v = 0 \<and> b = 0x80 then (None, cbs)
      else let v' = push_bit 7 v OR (ucast b AND 0x7f)
           in if b AND 0x80 \<noteq> 0 then parse_base128_loop v' cbs else (Some v', cbs))"

definition parse_base128_integer :: "cbs \<Rightarrow> u64 option \<times> cbs" where
  "parse_base128_integer cbs = parse_base128_loop 0 cbs"

definition parse_asn1_tag :: "cbs \<Rightarrow> u32 option \<times> cbs" where
  "parse_asn1_tag cbs =
     (case CBS_get_u8 cbs of
        (None, cbs) \<Rightarrow> (None, cbs)
      | (Some tag_byte, cbs) \<Rightarrow>
          let tag = push_bit CBS_ASN1_TAG_SHIFT (ucast tag_byte AND 0xe0) :: u32;
              tag_number = ucast tag_byte AND 0x1f :: u32
          in if tag_number = 0x1f then
               (case parse_base128_integer cbs of
                  (None, cbs) \<Rightarrow> (None, cbs)
                | (Some v, cbs) \<Rightarrow>
                    if v > ucast CBS_ASN1_TAG_NUMBER_MASK \<or> v < 0x1f then (None, cbs)
                    else (Some (tag OR ucast v), cbs))
             else (Some (tag OR tag_number), cbs))"

section \<open>Elements\<close>

text \<open>The header is parsed from a copy of the cursor; the cursor itself moves only when the
  whole element is taken.\<close>

definition cbs_get_any_asn1_element :: "cbs \<Rightarrow> bool \<Rightarrow> (cbs \<times> u32 \<times> nat) option \<times> cbs" where
  "cbs_get_any_asn1_element cbs ber_ok =
     (case parse_asn1_tag cbs of
        (None, header) \<Rightarrow> (None, cbs)
      | (Some tag, header) \<Rightarrow>
     (case CBS_get_u8 header of
        (None, header) \<Rightarrow> (None, cbs)
      | (Some length_byte, header) \<Rightarrow>
     let header_len = CBS_len cbs - CBS_len header in
     if length_byte AND 0x80 = 0 then
       (case CBS_get_bytes cbs (unat length_byte + header_len) of
          (None, cbs) \<Rightarrow> (None, cbs)
        | (Some out, cbs) \<Rightarrow> (Some (out, tag, header_len), cbs))
     else
       let num_bytes = unat (length_byte AND 0x7f) in
       if ber_ok \<and> tag AND CBS_ASN1_CONSTRUCTED \<noteq> 0 \<and> num_bytes = 0 then
         (case CBS_get_bytes cbs header_len of
            (None, cbs) \<Rightarrow> (None, cbs)
          | (Some out, cbs) \<Rightarrow> (Some (out, tag, header_len), cbs))
       else if num_bytes = 0 \<or> num_bytes > 4 then (None, cbs)
       else
         (case cbs_get_u header num_bytes of
            (None, header) \<Rightarrow> (None, cbs)
          | (Some len64, header) \<Rightarrow>
              if len64 < 128 then (None, cbs)
              else if drop_bit ((num_bytes - 1) * 8) len64 = 0 then (None, cbs)
              else
                let len = unat len64 in
                if size_add (size_add len header_len) num_bytes < len then (None, cbs)
                else
                  (case CBS_get_bytes cbs (size_add len (header_len + num_bytes)) of
                     (None, cbs) \<Rightarrow> (None, cbs)
                   | (Some out, cbs) \<Rightarrow> (Some (out, tag, header_len + num_bytes), cbs)))))"

definition CBS_get_any_asn1_element :: "cbs \<Rightarrow> (cbs \<times> u32 \<times> nat) option \<times> cbs" where
  "CBS_get_any_asn1_element cbs = cbs_get_any_asn1_element cbs False"

definition CBS_get_any_ber_asn1_element :: "cbs \<Rightarrow> (cbs \<times> u32 \<times> nat) option \<times> cbs" where
  "CBS_get_any_ber_asn1_element cbs = cbs_get_any_asn1_element cbs True"

definition CBS_get_any_asn1 :: "cbs \<Rightarrow> (cbs \<times> u32) option \<times> cbs" where
  "CBS_get_any_asn1 cbs =
     (case CBS_get_any_asn1_element cbs of
        (None, cbs) \<Rightarrow> (None, cbs)
      | (Some (out, tag, header_len), cbs) \<Rightarrow>
          (case CBS_skip out header_len of
             (False, out) \<Rightarrow> (None, cbs)
           | (True, out) \<Rightarrow> (Some (out, tag), cbs)))"

definition cbs_get_asn1 :: "cbs \<Rightarrow> u32 \<Rightarrow> bool \<Rightarrow> cbs option \<times> cbs" where
  "cbs_get_asn1 cbs tag_value skip_header =
     (case CBS_get_any_asn1_element cbs of
        (None, cbs) \<Rightarrow> (None, cbs)
      | (Some (out, tag, header_len), cbs) \<Rightarrow>
          if tag \<noteq> tag_value then (None, cbs)
          else if skip_header then
            (case CBS_skip out header_len of
               (False, out) \<Rightarrow> (None, cbs)
             | (True, out) \<Rightarrow> (Some out, cbs))
          else (Some out, cbs))"

definition CBS_get_asn1 :: "cbs \<Rightarrow> u32 \<Rightarrow> cbs option \<times> cbs" where
  "CBS_get_asn1 cbs tag_value = cbs_get_asn1 cbs tag_value True"

definition CBS_get_asn1_element :: "cbs \<Rightarrow> u32 \<Rightarrow> cbs option \<times> cbs" where
  "CBS_get_asn1_element cbs tag_value = cbs_get_asn1 cbs tag_value False"

definition CBS_peek_asn1_tag :: "cbs \<Rightarrow> u32 \<Rightarrow> bool" where
  "CBS_peek_asn1_tag cbs tag_value =
     (if CBS_len cbs < 1 then False
      else case parse_asn1_tag cbs of
             (None, copy) \<Rightarrow> False
           | (Some actual_tag, copy) \<Rightarrow> tag_value = actual_tag)"

section \<open>Primitive types\<close>

text \<open>The loop of \<open>CBS_get_asn1_uint64\<close>: fails before a shift that would lose a byte.\<close>

fun asn1_uint64_loop :: "u64 \<Rightarrow> bytes \<Rightarrow> u64 option" where
  "asn1_uint64_loop out [] = Some out"
| "asn1_uint64_loop out (b # bs) =
     (if drop_bit 56 out \<noteq> 0 then None
      else asn1_uint64_loop (push_bit 8 out OR ucast b) bs)"

definition CBS_get_asn1_uint64 :: "cbs \<Rightarrow> u64 option \<times> cbs" where
  "CBS_get_asn1_uint64 cbs =
     (case CBS_get_asn1 cbs CBS_ASN1_INTEGER of
        (None, cbs) \<Rightarrow> (None, cbs)
      | (Some d, cbs) \<Rightarrow>
          if CBS_len d = 0 then (None, cbs)
          else if d ! 0 AND 0x80 \<noteq> 0 then (None, cbs)
          else if d ! 0 = 0 \<and> CBS_len d > 1 \<and> d ! 1 AND 0x80 = 0 then (None, cbs)
          else (asn1_uint64_loop 0 d, cbs))"

text \<open>The result of \<open>CBS_get_asn1_int64\<close> is the 64-bit pattern of the C \<open>int64_t\<close> (its
  value is the \<open>sint\<close> of it). The union holds the bytes of the integer from the least
  significant one up, as on the little-endian targets of the application, and is
  sign-extended by the \<open>memset\<close>.\<close>

definition CBS_get_asn1_int64 :: "cbs \<Rightarrow> u64 option \<times> cbs" where
  "CBS_get_asn1_int64 cbs =
     (case CBS_get_asn1 cbs CBS_ASN1_INTEGER of
        (None, cbs) \<Rightarrow> (None, cbs)
      | (Some d, cbs) \<Rightarrow>
          let len = CBS_len d in
          if len = 0 \<or> len > 8 then (None, cbs)
          else if len > 1 \<and> d ! 0 = 0 \<and> d ! 1 AND 0x80 = 0 then (None, cbs)
          else if len > 1 \<and> d ! 0 = 0xff \<and> d ! 1 AND 0x80 \<noteq> 0 then (None, cbs)
          else
            let is_negative = d ! 0 AND 0x80 \<noteq> 0;
                u_bytes = rev d @ replicate (8 - len) (if is_negative then 0xff else 0)
            in (Some (of_nat (le_val u_bytes)), cbs))"

definition CBS_get_asn1_bool :: "cbs \<Rightarrow> bool option \<times> cbs" where
  "CBS_get_asn1_bool cbs =
     (case CBS_get_asn1 cbs CBS_ASN1_BOOLEAN of
        (None, cbs) \<Rightarrow> (None, cbs)
      | (Some d, cbs) \<Rightarrow>
          if CBS_len d \<noteq> 1 then (None, cbs)
          else let v = d ! 0 in
               if v \<noteq> 0 \<and> v \<noteq> 0xff then (None, cbs) else (Some (v \<noteq> 0), cbs))"

section \<open>Optional elements\<close>

text \<open>The inner option is \<open>*out_present\<close> together with \<open>*out\<close>.\<close>

definition CBS_get_optional_asn1 :: "cbs \<Rightarrow> u32 \<Rightarrow> cbs option option \<times> cbs" where
  "CBS_get_optional_asn1 cbs tag =
     (if CBS_peek_asn1_tag cbs tag then
        (case CBS_get_asn1 cbs tag of
           (None, cbs) \<Rightarrow> (None, cbs)
         | (Some out, cbs) \<Rightarrow> (Some (Some out), cbs))
      else (Some None, cbs))"

definition CBS_get_optional_asn1_octet_string :: "cbs \<Rightarrow> u32 \<Rightarrow> (cbs \<times> bool) option \<times> cbs" where
  "CBS_get_optional_asn1_octet_string cbs tag =
     (case CBS_get_optional_asn1 cbs tag of
        (None, cbs) \<Rightarrow> (None, cbs)
      | (Some None, cbs) \<Rightarrow> (Some ([], False), cbs)
      | (Some (Some child), cbs) \<Rightarrow>
          (case CBS_get_asn1 child CBS_ASN1_OCTETSTRING of
             (None, child) \<Rightarrow> (None, cbs)
           | (Some out, child) \<Rightarrow>
               if CBS_len child \<noteq> 0 then (None, cbs) else (Some (out, True), cbs)))"

definition CBS_get_optional_asn1_uint64 :: "cbs \<Rightarrow> u32 \<Rightarrow> u64 \<Rightarrow> u64 option \<times> cbs" where
  "CBS_get_optional_asn1_uint64 cbs tag default_value =
     (case CBS_get_optional_asn1 cbs tag of
        (None, cbs) \<Rightarrow> (None, cbs)
      | (Some None, cbs) \<Rightarrow> (Some default_value, cbs)
      | (Some (Some child), cbs) \<Rightarrow>
          (case CBS_get_asn1_uint64 child of
             (None, child) \<Rightarrow> (None, cbs)
           | (Some out, child) \<Rightarrow>
               if CBS_len child \<noteq> 0 then (None, cbs) else (Some out, cbs)))"

definition CBS_get_optional_asn1_bool :: "cbs \<Rightarrow> u32 \<Rightarrow> bool \<Rightarrow> bool option \<times> cbs" where
  "CBS_get_optional_asn1_bool cbs tag default_value =
     (case CBS_get_optional_asn1 cbs tag of
        (None, cbs) \<Rightarrow> (None, cbs)
      | (Some None, cbs) \<Rightarrow> (Some default_value, cbs)
      | (Some (Some child), cbs) \<Rightarrow>
          (case CBS_get_asn1 child CBS_ASN1_BOOLEAN of
             (None, child) \<Rightarrow> (None, cbs)
           | (Some child2, child) \<Rightarrow>
               if CBS_len child2 \<noteq> 1 \<or> CBS_len child \<noteq> 0 then (None, cbs)
               else let boolean = child2 ! 0 in
                    if boolean = 0 then (Some False, cbs)
                    else if boolean = 0xff then (Some True, cbs)
                    else (None, cbs)))"

section \<open>Bit strings\<close>

definition CBS_is_valid_asn1_bitstring :: "cbs \<Rightarrow> bool" where
  "CBS_is_valid_asn1_bitstring cbs =
     (case CBS_get_u8 cbs of
        (None, i) \<Rightarrow> False
      | (Some num_unused_bits, i) \<Rightarrow>
          if num_unused_bits > 7 then False
          else if num_unused_bits = 0 then True
          else (case CBS_get_last_u8 i of
                 (None, i) \<Rightarrow> False
               | (Some last_byte, i) \<Rightarrow>
                   last_byte AND (push_bit (unat num_unused_bits) 1 - 1) = 0))"

definition CBS_asn1_bitstring_has_bit :: "cbs \<Rightarrow> u32 \<Rightarrow> bool" where
  "CBS_asn1_bitstring_has_bit cbs bit_no =
     (if \<not> CBS_is_valid_asn1_bitstring cbs then False
      else
        let byte_num = unat (drop_bit 3 bit_no + 1);
            bit_num = unat (7 - (bit_no AND 7))
        in byte_num < CBS_len cbs \<and> cbs ! byte_num AND push_bit bit_num 1 \<noteq> 0)"

end
