(* ===== verification/DER.thy ===== *)
theory DER
  imports CBS_ASN1
begin

text \<open>
  The contract of the ASN.1 reader. The distinguished encoding rules give every value one
  encoding; they are stated here as functions (\<open>der_tag\<close>, \<open>der_length\<close>, \<open>der_encode\<close>) and
  as the value and minimality of an INTEGER (\<open>tc_val\<close>, \<open>minimal_int\<close>). The readers of
  \<open>crypto/bytestring/cbs.c\<close> are shown to accept exactly these encodings: each \<open>_iff\<close> lemma
  says that a reader returns \<open>v\<close> and leaves \<open>s'\<close> if and only if its input is the encoding of
  \<open>v\<close> followed by \<open>s'\<close>. The readers are then instances of the reader contract.
\<close>

unbundle bit_operations_syntax

section \<open>Base-128 integers\<close>

text \<open>The base-128 digits of a number, most significant first, every digit but the last with
  the continuation bit; \<open>base128_hi\<close> are the digits before the last.\<close>

fun base128_hi :: "nat \<Rightarrow> bytes" where
  "base128_hi n = (if n = 0 then [] else base128_hi (n div 128) @ [of_nat (n mod 128) OR 0x80])"

declare base128_hi.simps [simp del]

definition base128 :: "nat \<Rightarrow> bytes" where
  "base128 n = base128_hi (n div 128) @ [of_nat (n mod 128)]"

lemma base128_hi_0 [simp]: "base128_hi 0 = []"
  by (simp add: base128_hi.simps)

lemma base128_hi_pos: "0 < n \<Longrightarrow> base128_hi n = base128_hi (n div 128) @ [of_nat (n mod 128) OR 0x80]"
  by (simp add: base128_hi.simps [of n])

lemma ucast_and_7f: "unat (ucast (b :: u8) AND 0x7f :: u64) = unat b mod 128"
proof -
  have "(ucast b AND 0x7f :: u64) = ucast (b AND 0x7f)"
    by (simp add: unsigned_and_eq)
  then show ?thesis by (simp add: u8_low7)
qed

lemma unat_shift7_or:
  fixes v :: u64 and b :: u8
  assumes "unat v < 2 ^ 57"
  shows "unat (push_bit 7 v OR (ucast b AND 0x7f)) = unat v * 128 + unat b mod 128"
  using assms unat_push_or [of "ucast b AND 0x7f :: u64" 7 v] by (simp add: ucast_and_7f)

lemma parse_base128_step:
  assumes "unat v < 2 ^ 57" and "\<not> (v = 0 \<and> b = 0x80)"
  shows "parse_base128_loop v (b # s) =
    (if 128 \<le> unat b then parse_base128_loop (push_bit 7 v OR (ucast b AND 0x7f)) s
     else (Some (push_bit 7 v OR (ucast b AND 0x7f)), s))"
  using assms by (auto simp: drop_bit_eq_0_iff u8_high_bit Let_def)

lemma parse_base128_hi:
  "m < 2 ^ 57 \<Longrightarrow> parse_base128_loop 0 (base128_hi m @ s) = parse_base128_loop (of_nat m) s"
proof (induction m arbitrary: s rule: base128_hi.induct)
  case (1 m)
  show ?case
  proof (cases "m = 0")
    case False
    let ?b = "of_nat (m mod 128) OR 0x80 :: u8" and ?v = "of_nat (m div 128) :: u64"
    have b: "unat ?b = m mod 128 + 128" by (simp add: u8_set_high_bit)
    have v: "unat ?v = m div 128" using "1.prems" by (simp add: unat_of_nat)
    have nz: "\<not> (?v = 0 \<and> ?b = 0x80)"
      using False by (auto simp: u8_eq_iff b word_unat_eq_iff v div_eq_0_iff)
    have "m div 128 < 2 ^ 57" "m div 128 < m" using "1.prems" False by auto
    then have "parse_base128_loop 0 (base128_hi m @ s) = parse_base128_loop ?v (?b # s)"
      using "1.IH" False by (simp add: base128_hi_pos)
    also have "\<dots> = parse_base128_loop (push_bit 7 ?v OR (ucast ?b AND 0x7f)) s"
      using nz \<open>m div 128 < 2 ^ 57\<close> by (subst parse_base128_step) (simp_all add: v b)
    also have "push_bit 7 ?v OR (ucast ?b AND 0x7f) = (of_nat m :: u64)"
      using "1.prems" by (simp add: word_unat_eq_iff unat_shift7_or v b unat_of_nat)
    finally show ?thesis .
  qed simp
qed

lemma parse_base128_base128:
  assumes "n < 2 ^ 64"
  shows "parse_base128_integer (base128 n @ s) = (Some (of_nat n), s)"
proof -
  let ?b = "of_nat (n mod 128) :: u8" and ?v = "of_nat (n div 128) :: u64"
  have b: "unat ?b = n mod 128" by (simp add: unat_of_nat)
  have lt: "n div 128 < 2 ^ 57" using assms by simp
  then have v: "unat ?v = n div 128" by (simp add: unat_of_nat)
  have "parse_base128_integer (base128 n @ s) = parse_base128_loop ?v (?b # s)"
    using lt by (simp add: parse_base128_integer_def base128_def parse_base128_hi)
  moreover have "?b \<noteq> 0x80" "\<not> 128 \<le> n mod 128" by (simp_all add: u8_eq_iff b not_le)
  moreover have "push_bit 7 ?v OR (ucast ?b AND 0x7f) = (of_nat n :: u64)"
    using assms lt by (simp add: word_unat_eq_iff unat_shift7_or v b unat_of_nat)
  ultimately show ?thesis
    using lt by (simp add: parse_base128_step v b del: parse_base128_loop.simps)
qed

lemma parse_base128_loop_sound:
  assumes "parse_base128_loop v s = (Some w, s')"
  shows "\<exists>c. s = c @ s' \<and> base128 (unat w) = base128_hi (unat v) @ c"
  using assms
proof (induction v s rule: parse_base128_loop.induct)
  case (2 v b s)
  let ?v' = "push_bit 7 v OR (ucast b AND 0x7f)"
  from "2.prems" have lt: "unat v < 2 ^ 57" and nz: "\<not> (v = 0 \<and> b = 0x80)"
    by (auto simp: drop_bit_eq_0_iff split: if_splits)
  have v': "unat ?v' = unat v * 128 + unat b mod 128"
    using lt by (rule unat_shift7_or)
  show ?case
  proof (cases "b AND 0x80 = 0")
    case True
    then have "unat b < 128" by (simp add: u8_high_bit)
    moreover have "w = ?v'" "s' = s" using "2.prems" lt nz True by (auto simp: drop_bit_eq_0_iff)
    ultimately show ?thesis
      by (simp add: base128_def v')
  next
    case False
    then have hb: "128 \<le> unat b" by (simp add: u8_high_bit)
    have "parse_base128_loop ?v' s = (Some w, s')"
      using "2.prems" hb by (simp add: parse_base128_step [OF lt nz] del: parse_base128_loop.simps)
    then obtain c where c: "s = c @ s'" "base128 (unat w) = base128_hi (unat ?v') @ c"
      using "2.IH" lt nz False by (auto simp: drop_bit_eq_0_iff)
    have "unat b - 128 < 128" using unat_u8_less [of b] hb by linarith
    with hb have e: "unat b mod 128 + 128 = unat b" by (simp add: le_mod_geq)
    then have "of_nat (unat b mod 128) OR 0x80 = b"
      by (simp add: u8_eq_iff u8_set_high_bit)
    moreover have "unat ?v' \<noteq> 0"
    proof
      assume "unat ?v' = 0"
      with v' e have "unat v = 0" "unat b = 128" by linarith+
      with nz show False by (simp add: u8_eq_iff word_unat_eq_iff)
    qed
    ultimately have "base128_hi (unat ?v') = base128_hi (unat v) @ [b]"
      by (simp add: base128_hi_pos v')
    with c show ?thesis by auto
  qed
qed simp

lemma parse_base128_iff:
  "parse_base128_integer s = (Some v, s') \<longleftrightarrow> s = base128 (unat v) @ s'"
proof
  assume "parse_base128_integer s = (Some v, s')"
  then show "s = base128 (unat v) @ s'"
    using parse_base128_loop_sound [of 0 s v s'] by (auto simp: parse_base128_integer_def)
next
  assume "s = base128 (unat v) @ s'"
  moreover have "unat v < 2 ^ 64" using unsigned_less [of v] by simp
  ultimately show "parse_base128_integer s = (Some v, s')"
    by (simp add: parse_base128_base128)
qed

section \<open>Identifier octets\<close>

lemma length_base128_hi: "n < 128 ^ k \<Longrightarrow> length (base128_hi n) \<le> k"
proof (induction k arbitrary: n)
  case (Suc k)
  show ?case
  proof (cases "n = 0")
    case False
    have "n div 128 < 128 ^ k" using Suc.prems by (simp add: less_mult_imp_div_less mult.commute)
    with Suc.IH False show ?thesis by (simp add: base128_hi_pos)
  qed simp
qed simp

text \<open>Tag numbers below 31 are in the identifier octet, larger ones follow in base 128.\<close>

definition der_tag :: "u32 \<Rightarrow> bytes" where
  "der_tag tag =
     (let c = unat tag div 2 ^ 29 * 32; n = unat tag mod 2 ^ 29
      in if n < 31 then [of_nat (c + n)] else of_nat (c + 31) # base128 n)"

lemma tag_class_bits:
  "push_bit CBS_ASN1_TAG_SHIFT (ucast (b :: u8) AND 0xe0) = push_bit 29 (of_nat (unat b div 32) :: u32)"
  unfolding CBS_ASN1_TAG_SHIFT_def
  by (rule u8_by_eval [where b = b and P = "\<lambda>b :: u8. push_bit 24 (ucast b AND 0xe0) = push_bit 29 (of_nat (unat b div 32) :: u32)"])
    code_simp

lemma tag_or:
  assumes "unat y < 2 ^ 29"
  shows "push_bit CBS_ASN1_TAG_SHIFT (ucast (b :: u8) AND 0xe0) OR y
    = (of_nat (unat b div 32 * 2 ^ 29 + unat y) :: u32)"
proof -
  have k: "unat b div 32 < 8" using unat_u8_less [of b] by (simp add: less_mult_imp_div_less)
  then have u: "unat (of_nat (unat b div 32) :: u32) = unat b div 32"
    by (intro unat_of_nat_less) simp
  have lt: "unat b div 32 * 2 ^ 29 + unat y < 2 ^ 32"
    using k assms by simp
  have "unat (push_bit 29 (of_nat (unat b div 32)) OR y :: u32) = unat b div 32 * 2 ^ 29 + unat y"
    using unat_push_or [of y 29 "of_nat (unat b div 32) :: u32"] assms lt u by simp
  then show ?thesis
    unfolding tag_class_bits word_unat_eq_iff using lt by (subst unat_of_nat_less) simp_all
qed

lemma tag_mask: "ucast CBS_ASN1_TAG_NUMBER_MASK = (2 ^ 29 - 1 :: u64)"
  by (simp add: CBS_ASN1_TAG_NUMBER_MASK_def CBS_ASN1_TAG_SHIFT_def push_bit_eq_mult)

definition tag_of :: "nat \<Rightarrow> nat \<Rightarrow> u32" where
  "tag_of c n = of_nat (c * 2 ^ 29 + n)"

lemma unat_tag_of: "c < 8 \<Longrightarrow> n < 2 ^ 29 \<Longrightarrow> unat (tag_of c n) = c * 2 ^ 29 + n"
  unfolding tag_of_def by (intro unat_of_nat_less) simp

lemma unat_ucast_low5: "unat (ucast (b :: u8) AND 0x1f :: u32) = unat b mod 32"
proof -
  have "(ucast b AND 0x1f :: u32) = ucast (b AND 0x1f)"
    by (simp add: unsigned_and_eq)
  then show ?thesis by (simp add: u8_low5)
qed

lemma parse_asn1_tag_Cons:
  "parse_asn1_tag (b # s) =
     (if unat b mod 32 \<noteq> 31 then (Some (tag_of (unat b div 32) (unat b mod 32)), s)
      else case parse_base128_integer s of
             (None, s1) \<Rightarrow> (None, s1)
           | (Some v, s1) \<Rightarrow>
               if 31 \<le> unat v \<and> unat v < 2 ^ 29 then (Some (tag_of (unat b div 32) (unat v)), s1)
               else (None, s1))"
proof -
  have n: "(ucast b AND 0x1f = (0x1f :: u32)) = (unat b mod 32 = 31)" for b :: u8
    unfolding word_unat_eq_iff unat_ucast_low5 by simp
  have lo: "push_bit CBS_ASN1_TAG_SHIFT (ucast b AND 0xe0) OR (ucast b AND 0x1f)
    = tag_of (unat b div 32) (unat b mod 32)" for b :: u8
  proof (subst tag_or)
    show "unat (ucast b AND 31 :: u32) < 2 ^ 29"
      unfolding unat_ucast_low5 by (rule less_trans [of _ 32]) simp_all
  qed (simp only: unat_ucast_low5 tag_of_def)
  have hi: "push_bit CBS_ASN1_TAG_SHIFT (ucast b AND 0xe0) OR ucast v
    = tag_of (unat b div 32) (unat v)" if "unat v < 2 ^ 29" for v :: u64 and b :: u8
  proof -
    have "unat (ucast v :: u32) = unat v"
      using that by (simp add: unsigned_ucast_eq take_bit_eq_mod)
    with that show ?thesis by (subst tag_or) (simp_all only: tag_of_def)
  qed
  have r: "(v > ucast CBS_ASN1_TAG_NUMBER_MASK \<or> v < 0x1f) = (\<not> (31 \<le> unat v \<and> unat v < 2 ^ 29))"
    for v :: u64
    by (auto simp: tag_mask word_less_nat_alt)
  show ?thesis
    unfolding parse_asn1_tag_def CBS_get_u8_Cons prod.case option.case Let_def r n
    by (auto simp: lo hi simp del: push_bit_and split: prod.splits option.splits)
qed

lemma tag_of_decomp: "tag_of (unat (t :: u32) div 2 ^ 29) (unat t mod 2 ^ 29) = t"
  by (simp add: tag_of_def)

lemma der_tag_tag_of:
  assumes "c < 8" and "n < 2 ^ 29"
  shows "der_tag (tag_of c n) = (if n < 31 then [of_nat (c * 32 + n)] else of_nat (c * 32 + 31) # base128 n)"
  using assms by (simp add: der_tag_def Let_def unat_tag_of)

lemma u8_split: "of_nat (unat (b :: u8) div 32 * 32 + unat b mod 32) = b"
  by simp

lemma parse_asn1_tag_iff:
  "parse_asn1_tag s = (Some t, s') \<longleftrightarrow> s = der_tag t @ s'"
proof
  assume p: "parse_asn1_tag s = (Some t, s')"
  then obtain b s1 where s: "s = b # s1"
    by (cases s) (auto simp: parse_asn1_tag_def)
  have k: "unat b div 32 < 8" using unat_u8_less [of b] by (simp add: less_mult_imp_div_less)
  have m: "unat b mod 32 < 2 ^ 29" by (rule less_trans [of _ 32]) simp_all
  show "s = der_tag t @ s'"
  proof (cases "unat b mod 32 = 31")
    case False
    moreover have "unat b mod 32 < 32" by simp
    ultimately have "unat b mod 32 < 31" by linarith
    with p s False show ?thesis
      using der_tag_tag_of [OF k m] u8_split [of b] by (auto simp: parse_asn1_tag_Cons)
  next
    case True
    with p s obtain v where "parse_base128_integer s1 = (Some v, s')" "31 \<le> unat v" "unat v < 2 ^ 29"
        and t: "t = tag_of (unat b div 32) (unat v)"
      by (auto simp: parse_asn1_tag_Cons split: prod.splits option.splits if_splits)
    then have v: "s1 = base128 (unat v) @ s'" "31 \<le> unat v" "unat v < 2 ^ 29"
      by (simp_all add: parse_base128_iff)
    with True s t show ?thesis
      using der_tag_tag_of [OF k v(3)] u8_split [of b] by simp
  qed
next
  assume s: "s = der_tag t @ s'"
  define c where "c = unat t div 2 ^ 29"
  define n where "n = unat t mod 2 ^ 29"
  have c: "c < 8" using unat_less_pow [of t] by (simp add: c_def less_mult_imp_div_less)
  have n: "n < 2 ^ 29" by (simp add: n_def)
  have t: "tag_of c n = t" unfolding c_def n_def by (rule tag_of_decomp)
  have byte: "unat (of_nat (c * 32 + r) :: u8) = c * 32 + r" if "r < 32" for r
    using c that by (intro unat_of_nat_less) simp
  show "parse_asn1_tag s = (Some t, s')"
  proof (cases "n < 31")
    case True
    then have "s = of_nat (c * 32 + n) # s'"
      using s der_tag_tag_of [OF c n] by (simp add: t)
    with True t byte [of n] show ?thesis
      by (simp only: parse_asn1_tag_Cons) simp
  next
    case False
    then have "s = of_nat (c * 32 + 31) # base128 n @ s'"
      using s der_tag_tag_of [OF c n] by (simp add: t)
    moreover have "unat (of_nat n :: u64) = n" using n by (intro unat_of_nat_less) simp
    ultimately show ?thesis
      using False t n byte [of 31] parse_base128_base128 [of n s']
      by (simp only: parse_asn1_tag_Cons) simp
  qed
qed

section \<open>Length octets and elements\<close>

text \<open>Definite lengths below \<open>2 ^ 32\<close>, in the shortest form.\<close>

definition len_bytes :: "nat \<Rightarrow> nat" where
  "len_bytes n = (if n < 2 ^ 8 then 1 else if n < 2 ^ 16 then 2 else if n < 2 ^ 24 then 3 else 4)"

definition der_length :: "nat \<Rightarrow> bytes" where
  "der_length n =
     (if n < 128 then [of_nat n] else of_nat (128 + len_bytes n) # be_bytes (len_bytes n) n)"

definition der_encode :: "u32 \<Rightarrow> bytes \<Rightarrow> bytes" where
  "der_encode tag c = der_tag tag @ der_length (length c) @ c"

lemma len_bytes_range: "1 \<le> len_bytes n" "len_bytes n \<le> 4"
  by (simp_all add: len_bytes_def)

lemma len_bytes_unique:
  assumes "1 \<le> k" and "k \<le> 4" and "256 ^ (k - 1) \<le> n" and "n < 256 ^ k" 
  shows "len_bytes n = k"
proof -
  from assms(1,2) have "k = 1 \<or> k = 2 \<or> k = 3 \<or> k = 4" by arith
  with assms(3,4) show ?thesis by (auto simp: len_bytes_def)
qed

lemma len_bytes_bounds:
  assumes "128 \<le> n" and "n < 2 ^ 32"
  shows "n < 256 ^ len_bytes n" and "256 ^ (len_bytes n - 1) \<le> n"
  using assms by (auto simp: len_bytes_def)

text \<open>The length octets as the parser reads them.\<close>

definition parse_length :: "bytes \<Rightarrow> nat option \<times> bytes" where
  "parse_length h =
     (case h of
        [] \<Rightarrow> (None, [])
      | lb # h1 \<Rightarrow>
          if unat lb < 128 then (Some (unat lb), h1)
          else if unat lb = 128 \<or> unat lb > 132 then (None, h1)
          else (case cbs_get_u h1 (unat lb - 128) of
                  (None, h2) \<Rightarrow> (None, h2)
                | (Some v, h2) \<Rightarrow>
                    if unat v < 128 \<or> unat v < 256 ^ (unat lb - 129) then (None, h2)
                    else (Some (unat v), h2)))"

lemma parse_length_iff:
  "parse_length h = (Some n, h') \<longleftrightarrow> h = der_length n @ h' \<and> n < 2 ^ 32"
proof
  assume p: "parse_length h = (Some n, h')"
  then obtain lb h1 where h: "h = lb # h1" by (cases h) (auto simp: parse_length_def)
  show "h = der_length n @ h' \<and> n < 2 ^ 32"
  proof (cases "unat lb < 128")
    case True
    with p h show ?thesis by (auto simp: parse_length_def der_length_def)
  next
    case False
    define k where "k = unat lb - 128"
    obtain r h2 where g: "cbs_get_u h1 (unat lb - 128) = (r, h2)" by (cases "cbs_get_u h1 (unat lb - 128)")
    have ne: "\<not> (unat lb = 128 \<or> unat lb > 132)"
      using p unfolding h parse_length_def by (simp add: False split: if_splits)
    then have k: "1 \<le> k" "k \<le> 4" using False by (auto simp: k_def)
    have "(case (r, h2) of (None, h2) \<Rightarrow> (None, h2)
       | (Some v, h2) \<Rightarrow> if unat v < 128 \<or> unat v < 256 ^ (unat lb - 129) then (None, h2)
                    else (Some (unat v), h2)) = (Some n, h')"
      using p False ne unfolding h parse_length_def list.case g by (simp only: if_False)
    then have c: "case r of None \<Rightarrow> False | Some v \<Rightarrow>
        \<not> (unat v < 128 \<or> unat v < 256 ^ (unat lb - 129)) \<and> n = unat v \<and> h2 = h'"
      by (cases r) (simp_all only: prod.case option.case prod.inject option.inject split: if_split_asm, simp_all)
    then obtain v where r: "r = Some v" by (cases r) simp_all
    have k1: "unat lb - 129 = k - 1" by (simp add: k_def)
    from c have v: "cbs_get_u h1 k = (Some v, h')" "128 \<le> unat v" "256 ^ (k - 1) \<le> unat v"
        and n: "n = unat v"
      using g unfolding r k1 k_def [symmetric] option.case by (simp_all only: not_less de_Morgan_disj)
    have d: "unat v = be_val (take k h1)" "h' = drop k h1" "k \<le> length h1"
      using cbs_get_u_value [OF v(1)] k by simp_all
    have lt: "unat v < 256 ^ k" using cbs_get_u_bound [OF v(1)] k by simp
    have lb: "len_bytes n = k" using len_bytes_unique [OF k v(3) lt] n by simp
    have "be_bytes k n = take k h1"
      using be_bytes_be_val [of "take k h1"] d n by simp
    moreover have "of_nat (128 + k) = lb"
      using False by (simp add: k_def)
    ultimately have "der_length n = lb # take k h1"
      using v(2) n lb by (simp add: der_length_def)
    moreover have "(256 :: nat) ^ k \<le> 256 ^ 4" using k by (intro power_increasing) simp_all
    ultimately show ?thesis using h d lt n by simp
  qed
next
  assume a: "h = der_length n @ h' \<and> n < 2 ^ 32"
  show "parse_length h = (Some n, h')"
  proof (cases "n < 128")
    case True
    then have "unat (of_nat n :: u8) = n" by (intro unat_of_nat_less) simp
    with True a show ?thesis by (simp add: parse_length_def der_length_def)
  next
    case False
    let ?k = "len_bytes n"
    have k: "1 \<le> ?k" "?k \<le> 4" by (rule len_bytes_range)+
    have b: "n < 256 ^ ?k" "256 ^ (?k - 1) \<le> n" using len_bytes_bounds False a by auto
    have lb: "unat (of_nat (128 + ?k) :: u8) = 128 + ?k"
      using k by (intro unat_of_nat_less) simp
    have h: "h = of_nat (128 + ?k) # be_bytes ?k n @ h'" using a False by (simp add: der_length_def)
    have "unat (be_accum 0 (be_bytes ?k n)) = n"
      using k b by (subst unat_be_accum_0) (simp_all add: be_val_be_bytes)
    moreover have "cbs_get_u (be_bytes ?k n @ h') ?k = (Some (be_accum 0 (be_bytes ?k n)), h')"
      by (rule cbs_get_u_append) simp
    ultimately show ?thesis
      using False k b by (simp only: h parse_length_def list.case lb) simp
  qed
qed

lemma length_der_tag: "length (der_tag t) \<le> 6"
proof -
  have "length (base128_hi (unat t mod 2 ^ 29 div 128)) \<le> 4"
    by (rule length_base128_hi) (simp add: less_mult_imp_div_less)
  then show ?thesis by (simp add: der_tag_def Let_def base128_def)
qed

lemma element_eq:
  "cbs_get_any_asn1_element s False =
     (case parse_asn1_tag s of
        (None, h) \<Rightarrow> (None, s)
      | (Some tag, h) \<Rightarrow>
          (case parse_length h of
             (None, h) \<Rightarrow> (None, s)
           | (Some n, h) \<Rightarrow>
               (case cbs_get s (n + (length s - length h)) of
                  (None, s) \<Rightarrow> (None, s)
                | (Some out, s) \<Rightarrow> (Some (out, tag, length (der_tag tag) + length (der_length n)), s))))"
proof (cases "parse_asn1_tag s")
  case (Pair r h)
  show ?thesis
  proof (cases r)
    case None
    with Pair show ?thesis by (simp add: cbs_get_any_asn1_element_def)
  next
    case (Some tag)
    with Pair have s: "s = der_tag tag @ h" by (simp add: parse_asn1_tag_iff)
    show ?thesis
    proof (cases h)
      case Nil
      with Pair Some show ?thesis by (simp add: cbs_get_any_asn1_element_def parse_length_def)
    next
      case (Cons lb h1)
      note unf = cbs_get_any_asn1_element_def Pair Some Cons prod.case option.case CBS_get_u8_Cons
        Let_def cbs_eqs parse_length_def list.case
      have hl: "length s - length h1 = length (der_tag tag) + 1" using s Cons by simp
      show ?thesis
      proof (cases "unat lb < 128")
        case True
        then have dl: "length (der_length (unat lb)) = 1" by (simp add: der_length_def)
        with True show ?thesis
          unfolding unf u8_high_bit by (auto simp: hl split: prod.splits option.splits)
      next
        case False
        define k where "k = unat lb - 128"
        have "unat lb - 128 < 128" using unat_u8_less [of lb] by linarith
        with False have m: "unat lb mod 128 = k" by (simp add: k_def le_mod_geq)
        have kc: "(unat lb = 128 \<or> unat lb > 132) = (k = 0 \<or> k > 4)"
          using False by (auto simp: k_def)
        show ?thesis
        proof (cases "k = 0 \<or> k > 4")
          case True
          with False show ?thesis
            unfolding unf kc by (auto simp: u8_high_bit u8_low7 m)
        next
          case k: False
          show ?thesis
          proof (cases "cbs_get_u h1 k")
            case g: (Pair v h2)
            show ?thesis
            proof (cases v)
              case None
              with k False g show ?thesis
                unfolding unf kc by (auto simp: u8_high_bit u8_low7 m k_def [symmetric])
            next
              case v: (Some w)
              have w: "unat w = be_val (take k h1)" "h2 = drop k h1" "k \<le> length h1"
                using cbs_get_u_value [of h1 k w h2] g v k by auto
              have wlt: "unat w < 256 ^ k" using cbs_get_u_bound [of h1 k w h2] g v k by simp
              moreover have "(256 :: nat) ^ k \<le> 256 ^ 4" using k by (intro power_increasing) simp_all
              ultimately have lt: "unat w < 2 ^ 32" by simp
              have db: "(drop_bit ((k - Suc 0) * 8) w = 0) = (unat w < 256 ^ (k - Suc 0))"
                by (simp add: drop_bit_eq_0_iff power_mult mult.commute [of _ 8])
              have w128: "(w < 128) = (unat w < 128)" by (simp add: word_less_nat_alt)
              have k1: "unat lb - 129 = k - Suc 0" by (simp add: k_def)
              define L where "L = length s - length h1"
              have L: "L \<le> 7" using hl length_der_tag [of tag] by (simp add: L_def)
              have exact: "size_add (size_add (unat w) L) k = unat w + (L + k)"
                "size_add (unat w) (L + k) = unat w + (L + k)"
                using lt k L by (simp_all add: size_add_exact)
              have h2: "length s - length h2 = L + k"
                using s Cons w by (simp add: L_def)
              show ?thesis
              proof (cases "unat w < 128 \<or> unat w < 256 ^ (k - Suc 0)")
                case True
                with k False show ?thesis
                  unfolding unf kc k_def [symmetric] k1 g v u8_low7 u8_high_bit w128 m L_def [symmetric]
                  by (auto simp: db exact)
              next
                case big: False
                then have "len_bytes (unat w) = k"
                  using len_bytes_unique [of k "unat w"] wlt k by auto
                with big have "length (der_tag tag) + length (der_length (unat w)) = L + k"
                  using hl by (simp add: der_length_def L_def)
                with k False big show ?thesis
                  unfolding unf kc k_def [symmetric] k1 g v m u8_low7 u8_high_bit w128 L_def [symmetric]
                  by (auto simp: db exact h2 split: prod.splits option.splits)
              qed
            qed
          qed
        qed
      qed
    qed
  qed
qed

section \<open>The element readers accept exactly the DER encodings\<close>

lemma any_element_iff:
  "CBS_get_any_asn1_element s = (Some (out, tag, hl), s') \<longleftrightarrow>
     (\<exists>c. s = out @ s' \<and> out = der_encode tag c \<and> length c < 2 ^ 32 \<and> hl = length out - length c)"
  (is "?L \<longleftrightarrow> ?R")
proof
  assume ?L
  then obtain h h2 n s2 where "parse_asn1_tag s = (Some tag, h)" "parse_length h = (Some n, h2)"
    and get: "cbs_get s (n + (length s - length h2)) = (Some out, s')"
    and hl: "hl = length (der_tag tag) + length (der_length n)"
    unfolding CBS_get_any_asn1_element_def element_eq by (auto split: prod.splits option.splits)
  then have "s = der_tag tag @ h" "h = der_length n @ h2" "n < 2 ^ 32"
    by (simp_all add: parse_asn1_tag_iff parse_length_iff)
  note s = this(1) [unfolded this(2)] and lt = this(3)
  from get have o: "s = out @ s'" "length out = n + length (der_tag tag) + length (der_length n)"
    using s by (auto elim!: cbs_get_SomeE)
  define p where "p = der_tag tag @ der_length n"
  have sp: "s = p @ h2" "length out = length p + n" using s o by (simp_all add: p_def)
  define c where "c = take n h2"
  have out: "out = take (length p + n) s" using o(1) sp(2) by simp
  have "length out \<le> length s" using o(1) by simp
  then have "length c = n" using sp by (simp add: c_def)
  moreover have "out = der_tag tag @ der_length n @ c"
    using out sp(1) by (simp add: c_def p_def)
  ultimately show ?R using o lt hl by (auto simp: der_encode_def intro!: exI [of _ c])
next
  assume ?R
  then obtain c where c: "s = der_encode tag c @ s'" "out = der_encode tag c" "length c < 2 ^ 32"
    "hl = length out - length c" by blast
  then have "parse_asn1_tag s = (Some tag, der_length (length c) @ c @ s')"
    by (simp add: parse_asn1_tag_iff der_encode_def)
  moreover have "parse_length (der_length (length c) @ c @ s') = (Some (length c), c @ s')"
    using c by (simp add: parse_length_iff)
  moreover have "cbs_get s (length c + (length (der_tag tag) + length (der_length (length c)))) = (Some out, s')"
    unfolding c(1,2) by (rule cbs_get_append) (simp add: der_encode_def)
  ultimately show ?L
    using c by (simp add: CBS_get_any_asn1_element_def element_eq der_encode_def)
qed

lemma any_element_fail: "CBS_get_any_asn1_element s = (None, s') \<Longrightarrow> s' = s"
  unfolding CBS_get_any_asn1_element_def element_eq
  by (auto split: prod.splits option.splits elim: cbs_get_NoneE)

lemma any_asn1_iff:
  "CBS_get_any_asn1 s = (Some (c, tag), s') \<longleftrightarrow> s = der_encode tag c @ s' \<and> length c < 2 ^ 32"
  (is "?L \<longleftrightarrow> ?R")
proof
  assume ?L
  then obtain out hl where e: "CBS_get_any_asn1_element s = (Some (out, tag, hl), s')"
    and c: "CBS_skip out hl = (True, c)"
    unfolding CBS_get_any_asn1_def by (auto split: prod.splits option.splits bool.splits)
  from e obtain d where "s = out @ s'" "out = der_encode tag d" "length d < 2 ^ 32" "hl = length out - length d"
    by (auto simp: any_element_iff)
  moreover from this c have "c = d"
    by (auto simp: CBS_skip_def cbs_get_def der_encode_def split: if_splits)
  ultimately show ?R by simp
next
  assume ?R
  then have "CBS_get_any_asn1_element s =
      (Some (der_encode tag c, tag, length (der_encode tag c) - length c), s')"
    by (auto simp: any_element_iff)
  then show ?L
    by (simp add: CBS_get_any_asn1_def CBS_skip_def cbs_get_def der_encode_def)
qed

lemma get_asn1_iff:
  "CBS_get_asn1 s tag = (Some c, s') \<longleftrightarrow> s = der_encode tag c @ s' \<and> length c < 2 ^ 32"
proof -
  have "CBS_get_asn1 s tag = (Some c, s') \<longleftrightarrow> CBS_get_any_asn1 s = (Some (c, tag), s')"
    unfolding CBS_get_asn1_def cbs_get_asn1_def CBS_get_any_asn1_def
    by (auto split: prod.splits option.splits bool.splits)
  then show ?thesis by (simp add: any_asn1_iff)
qed

lemma get_asn1_element_iff:
  "CBS_get_asn1_element s tag = (Some e, s') \<longleftrightarrow>
     s = e @ s' \<and> (\<exists>c. e = der_encode tag c \<and> length c < 2 ^ 32)"
proof -
  have "CBS_get_asn1_element s tag = (Some e, s') \<longleftrightarrow>
      (\<exists>hl. CBS_get_any_asn1_element s = (Some (e, tag, hl), s'))"
    unfolding CBS_get_asn1_element_def cbs_get_asn1_def
    by (auto split: prod.splits option.splits)
  then show ?thesis by (auto simp: any_element_iff)
qed

lemma peek_tag_iff: "CBS_peek_asn1_tag s tag \<longleftrightarrow> (\<exists>s'. s = der_tag tag @ s')"
proof -
  have ne: "der_tag tag \<noteq> []" by (simp add: der_tag_def Let_def)
  have "CBS_peek_asn1_tag s tag \<longleftrightarrow> s \<noteq> [] \<and> (\<exists>s'. parse_asn1_tag s = (Some tag, s'))"
    unfolding CBS_peek_asn1_tag_def cbs_eqs by (auto split: prod.splits option.splits)
  then show ?thesis using ne by (auto simp: parse_asn1_tag_iff)
qed

lemma der_encode_neq_Nil: "der_encode tag c \<noteq> []"
  by (simp add: der_encode_def der_tag_def Let_def)

interpretation any_element: progress_reader CBS_get_any_asn1_element
proof unfold_locales
  show "\<exists>c. s = c @ s'" if "CBS_get_any_asn1_element s = (r, s')" for s r s'
    using that by (cases r) (auto simp: any_element_iff dest!: any_element_fail)
  show "CBS_get_any_asn1_element (s @ t) = (Some a, s' @ t)"
    if "CBS_get_any_asn1_element s = (Some a, s')" for s a s' t
    using that by (cases a) (auto simp: any_element_iff)
  show "length s' < length s" if "CBS_get_any_asn1_element s = (Some a, s')" for s a s'
    using that by (cases a) (auto simp: any_element_iff der_encode_neq_Nil)
qed

interpretation any_asn1: progress_reader CBS_get_any_asn1
proof unfold_locales
  show "\<exists>c. s = c @ s'" if "CBS_get_any_asn1 s = (r, s')" for s r s'
    using that unfolding CBS_get_any_asn1_def
    by (auto split: prod.splits option.splits bool.splits dest!: any_element.leaves_suffix)
  show "CBS_get_any_asn1 (s @ t) = (Some a, s' @ t)"
    if "CBS_get_any_asn1 s = (Some a, s')" for s a s' t
    using that by (cases a) (auto simp: any_asn1_iff)
  show "length s' < length s" if "CBS_get_any_asn1 s = (Some a, s')" for s a s'
    using that by (cases a) (auto simp: any_asn1_iff der_encode_neq_Nil)
qed

interpretation asn1: progress_reader "\<lambda>s. CBS_get_asn1 s tag" for tag
proof unfold_locales
  show "\<exists>c. s = c @ s'" if "CBS_get_asn1 s tag = (r, s')" for s r s'
    using that unfolding CBS_get_asn1_def cbs_get_asn1_def
    by (auto split: prod.splits option.splits bool.splits if_splits dest!: any_element.leaves_suffix)
  show "CBS_get_asn1 (s @ t) tag = (Some a, s' @ t)"
    if "CBS_get_asn1 s tag = (Some a, s')" for s a s' t
    using that by (auto simp: get_asn1_iff)
  show "length s' < length s" if "CBS_get_asn1 s tag = (Some a, s')" for s a s'
    using that by (auto simp: get_asn1_iff der_encode_neq_Nil)
qed

section \<open>INTEGER contents\<close>

text \<open>The value of the contents octets of an INTEGER (two's complement, big-endian), and the
  rule of X.690 that the first nine bits are not all equal.\<close>

definition tc_val :: "bytes \<Rightarrow> int" where
  "tc_val d = int (be_val d) - (if d \<noteq> [] \<and> 128 \<le> unat (hd d) then 256 ^ length d else 0)"

fun minimal_int :: "bytes \<Rightarrow> bool" where
  "minimal_int [] = False"
| "minimal_int [b] = True"
| "minimal_int (a # b # bs) =
     (\<not> (a = 0 \<and> unat b < 128) \<and> \<not> (a = 0xff \<and> 128 \<le> unat b))"

lemma minimal_int_nth:
  "minimal_int d \<longleftrightarrow> d \<noteq> [] \<and> \<not> (length d > 1 \<and> d ! 0 = 0 \<and> unat (d ! 1) < 128)
     \<and> \<not> (length d > 1 \<and> d ! 0 = 0xff \<and> 128 \<le> unat (d ! 1))"
  by (cases d rule: minimal_int.cases) auto

lemma tc_val_nonneg: "d \<noteq> [] \<Longrightarrow> unat (hd d) < 128 \<Longrightarrow> tc_val d = int (be_val d)"
  by (simp add: tc_val_def)

lemma be_val_hd_less: "unat b < k \<Longrightarrow> be_val (b # bs) < k * 256 ^ length bs"
proof -
  assume "unat b < k"
  have "be_val (b # bs) < (unat b + 1) * 256 ^ length bs"
    using be_val_less [of bs] by (simp add: algebra_simps)
  also have "\<dots> \<le> k * 256 ^ length bs" using \<open>unat b < k\<close> by (intro mult_right_mono) simp_all
  finally show ?thesis .
qed

lemma be_val_hd_ge: "k \<le> unat b \<Longrightarrow> k * 256 ^ length bs \<le> be_val (b # bs)"
  by (simp add: mult_le_mono trans_le_add1)

lemma tc_val_range:
  assumes "d \<noteq> []"
  shows "2 * tc_val d < 256 ^ length d" and "- (256 ^ length d) \<le> 2 * tc_val d"
    and "0 \<le> tc_val d \<longleftrightarrow> unat (hd d) < 128"
proof -
  from assms obtain b bs where d: "d = b # bs" by (cases d) auto
  have *: "int (be_val d) < 256 ^ length d"
    using be_val_less [of d] by (metis of_nat_less_iff of_nat_numeral of_nat_power)
  have "2 * tc_val d < 256 ^ length d \<and> - (256 ^ length d) \<le> 2 * tc_val d
    \<and> (0 \<le> tc_val d \<longleftrightarrow> unat (hd d) < 128)"
  proof (cases "unat b < 128")
    case True
    then have "be_val d < 128 * 256 ^ length bs" unfolding d by (rule be_val_hd_less)
    then have "int (be_val d) < 128 * 256 ^ length bs"
      by (metis of_nat_less_iff of_nat_mult of_nat_numeral of_nat_power)
    with True show ?thesis
      by (simp_all add: tc_val_def d del: be_val.simps)
  next
    case False
    then have "128 * 256 ^ length bs \<le> be_val d" unfolding d by (intro be_val_hd_ge) simp
    then have "128 * 256 ^ length bs \<le> int (be_val d)"
      by (metis of_nat_le_iff of_nat_mult of_nat_numeral of_nat_power)
    with False * show ?thesis
      by (simp_all add: tc_val_def d del: be_val.simps)
  qed
  then show "2 * tc_val d < 256 ^ length d" "- (256 ^ length d) \<le> 2 * tc_val d"
    "0 \<le> tc_val d \<longleftrightarrow> unat (hd d) < 128" by simp_all
qed

lemma minimal_int_large:
  assumes "minimal_int d" and "length d = Suc (Suc n)"
  shows "128 * 256 ^ n \<le> tc_val d \<or> tc_val d < - (128 * 256 ^ n)"
proof -
  from assms(2) obtain a b bs where d: "d = a # b # bs" and n: "length bs = n"
    by (auto simp: length_Suc_conv)
  show ?thesis
  proof (cases "unat a < 128")
    case True
    have "128 * 256 ^ n \<le> be_val d"
    proof (cases "a = 0")
      case True
      with assms d have "128 \<le> unat b" by simp
      then show ?thesis using be_val_hd_ge [of 128 b bs] True by (simp add: d n)
    next
      case False
      then have "1 \<le> unat a" by (simp add: Suc_le_eq unat_gt_0)
      then have "1 * 256 ^ length (b # bs) \<le> be_val d" unfolding d by (rule be_val_hd_ge)
      then show ?thesis by (simp add: n)
    qed
    then have "128 * 256 ^ n \<le> int (be_val d)"
      by (metis of_nat_le_iff of_nat_mult of_nat_numeral of_nat_power)
    with True show ?thesis by (simp add: tc_val_def d del: be_val.simps)
  next
    case False
    have "be_val d < 256 ^ Suc (Suc n) - 128 * 256 ^ n"
    proof (cases "a = 0xff")
      case True
      with assms d have "unat b < 128" by simp
      then show ?thesis using be_val_hd_less [of b 128 bs] True by (simp add: d n)
    next
      case False
      then have "unat a < 255" using le_neq_implies_less [OF unat_u8_le [of a]] by (simp add: u8_eq_iff)
      then have "be_val d < 255 * 256 ^ length (b # bs)" unfolding d by (rule be_val_hd_less)
      moreover have "255 * 256 ^ length (b # bs) + 128 * 256 ^ n \<le> (256 :: nat) ^ Suc (Suc n)"
        by (simp add: n)
      ultimately show ?thesis by linarith
    qed
    then have "be_val d + 128 * 256 ^ n < 256 ^ Suc (Suc n)" by simp
    then have "int (be_val d + 128 * 256 ^ n) < int (256 ^ Suc (Suc n))"
      by (simp only: of_nat_less_iff)
    then have "int (be_val d) + 128 * 256 ^ n < 256 ^ Suc (Suc n)"
      by simp
    with False show ?thesis by (simp add: tc_val_def d n del: be_val.simps)
  qed
qed

lemma minimal_int_length:
  assumes "minimal_int d" and "- (2 ^ (8 * n - 1)) \<le> tc_val d" and "tc_val d < 2 ^ (8 * n - 1)" and "0 < n"
  shows "length d \<le> n"
proof (rule ccontr)
  assume "\<not> length d \<le> n"
  define m where "m = length d - 2"
  have m: "length d = Suc (Suc m)" "n \<le> Suc m"
    using \<open>\<not> length d \<le> n\<close> \<open>0 < n\<close> by (simp_all add: m_def)
  have "2 ^ (8 * n - 1) \<le> (2 :: int) ^ (8 * Suc m - 1)"
    using m by (intro power_increasing) simp_all
  also have "(2 :: int) ^ (8 * Suc m - 1) = 128 * 256 ^ m"
  proof -
    have "8 * Suc m - 1 = 7 + 8 * m" by simp
    then show ?thesis by (simp only: power_add power_mult) simp
  qed
  finally show False
    using minimal_int_large [OF assms(1) m(1)] assms(2,3) by linarith
qed

lemma minimal_int_unique:
  assumes "minimal_int d" and "minimal_int e" and v: "tc_val d = tc_val e"
  shows "d = e"
proof -
  have ne: "d \<noteq> []" "e \<noteq> []" using assms by auto
  have le: "length y \<le> length x" if "minimal_int y" "x \<noteq> []" "tc_val y = tc_val x" for x y
  proof (rule minimal_int_length [OF that(1)])
    have e: "(256 :: int) ^ length x = 2 * 2 ^ (8 * length x - 1)"
      using that(2) by (cases x) (simp_all add: power_add power_mult)
    show "tc_val y < 2 ^ (8 * length x - 1)" "- (2 ^ (8 * length x - 1)) \<le> tc_val y"
      using tc_val_range [OF that(2)] e that(3) by linarith+
    show "0 < length x" using that(2) by simp
  qed
  have len: "length d = length e"
    using le [of d e] le [of e d] assms ne by simp
  have "(unat (hd d) < 128) = (unat (hd e) < 128)"
    using tc_val_range(3) ne v by metis
  with v len ne have "be_val d = be_val e" by (simp add: tc_val_def split: if_splits)
  with len show ?thesis by (rule be_val_inject)
qed

section \<open>The readers for primitive types\<close>

lemma asn1_uint64_loop_eq:
  "asn1_uint64_loop r d =
     (if unat r * 256 ^ length d + be_val d < 2 ^ 64 then Some (be_accum r d) else None)"
proof (induction r d rule: asn1_uint64_loop.induct)
  case (1 out)
  then show ?case using unat_less_pow [of out] by simp
next
  case (2 out b bs)
  show ?case
  proof (cases "drop_bit 56 out = 0")
    case True
    then have lt: "unat out < 2 ^ 56" by (simp add: drop_bit_eq_0_iff)
    have "unat out * 256 + unat b < 2 ^ 64"
    proof -
      have "unat out \<le> 72057594037927935" using lt by simp
      with unat_u8_less [of b] have "unat out * 256 + unat b < 18446744073709551616" by linarith
      then show ?thesis by simp
    qed
    then have "unat (push_bit 8 out OR ucast b) = unat out * 2 ^ 8 + unat (ucast b :: u64)"
      by (intro unat_push_or) simp_all
    with 2 True show ?thesis by (simp add: algebra_simps)
  next
    case False
    then have "2 ^ 56 \<le> unat out" by (simp add: drop_bit_eq_0_iff)
    then have "2 ^ 56 * 256 ^ Suc (length bs) \<le> unat out * 256 ^ Suc (length bs)"
      by (rule mult_right_mono) simp
    moreover have "(2 :: nat) ^ 64 \<le> 2 ^ 56 * 256 ^ Suc (length bs)" by simp
    ultimately have "2 ^ 64 \<le> unat out * 256 ^ length (b # bs) + be_val (b # bs)"
      by (simp only: length_Cons)
    with False show ?thesis by simp
  qed
qed

lemma sign_bit: "(b AND 0x80 \<noteq> 0) = (128 \<le> unat (b :: u8))"
  by (simp add: u8_high_bit not_less)

lemma get_asn1_uint64_iff:
  "CBS_get_asn1_uint64 s = (Some v, s') \<longleftrightarrow>
     (\<exists>d. s = der_encode CBS_ASN1_INTEGER d @ s' \<and> minimal_int d \<and> tc_val d = int (unat v))"
  (is "?L \<longleftrightarrow> ?R")
proof
  assume ?L
  then obtain d where g: "CBS_get_asn1 s CBS_ASN1_INTEGER = (Some d, s')"
    and ne: "d \<noteq> []" and hd: "unat (d ! 0) < 128"
    and m: "\<not> (d ! 0 = 0 \<and> length d > 1 \<and> unat (d ! 1) < 128)"
    and loop: "asn1_uint64_loop 0 d = Some v"
    unfolding CBS_get_asn1_uint64_def
    by (auto simp: cbs_eqs u8_high_bit split: prod.splits option.splits if_splits)
  have "minimal_int d" using ne m hd by (auto simp: minimal_int_nth)
  moreover have "v = of_nat (be_val d)" "be_val d < 2 ^ 64"
    using loop by (auto simp: asn1_uint64_loop_eq be_accum_0 split: if_splits)
  then have "tc_val d = int (unat v)"
    using ne hd by (simp add: tc_val_nonneg hd_conv_nth unat_of_nat_less)
  ultimately show ?R using g by (auto simp: get_asn1_iff)
next
  assume ?R
  then obtain d where d: "s = der_encode CBS_ASN1_INTEGER d @ s'" "minimal_int d" "tc_val d = int (unat v)"
    by blast
  have ne: "d \<noteq> []" using d(2) by auto
  have "unat v < 2 ^ 64" using unat_less_pow [of v] by simp
  then have "int (unat v) < 2 ^ (8 * 9 - 1)" "- (2 ^ (8 * 9 - 1)) \<le> int (unat v)"
    by (simp_all del: of_nat_unat unat_eq_nat_uint)
  then have "length d \<le> 9" using d minimal_int_length [of d 9] by simp
  then have g: "CBS_get_asn1 s CBS_ASN1_INTEGER = (Some d, s')" using d by (simp add: get_asn1_iff)
  have hd: "unat (d ! 0) < 128" using tc_val_range(3) [OF ne] d(3) ne by (simp add: hd_conv_nth)
  then have "int (be_val d) = int (unat v)" using d(3) ne by (simp add: tc_val_nonneg hd_conv_nth)
  then have bv: "be_val d = unat v" by (simp only: of_nat_eq_iff)
  then have "asn1_uint64_loop 0 d = Some v"
    using \<open>unat v < 2 ^ 64\<close> by (simp add: asn1_uint64_loop_eq be_accum_0)
  then show ?L
    using g hd ne d(2) unfolding CBS_get_asn1_uint64_def
    by (auto simp: cbs_eqs u8_high_bit minimal_int_nth)
qed

lemma le_val_rev_sign:
  assumes "d \<noteq> []" and "length d \<le> 8" and "x = (if 128 \<le> unat (hd d) then 0xff else 0 :: u8)"
  shows "int (le_val (rev d @ replicate (8 - length d) x)) =
     tc_val d + (if 128 \<le> unat (hd d) then 2 ^ 64 else 0)"
proof -
  have r0: "le_val (replicate n 0) = 0" for n by (induction n) simp_all
  have rf: "le_val (replicate n 0xff) + 1 = 256 ^ n" for n by (induction n) simp_all
  have p: "(256 :: nat) ^ length d * 256 ^ (8 - length d) = 2 ^ 64"
    using assms(2) by (simp flip: power_add)
  show ?thesis
  proof (cases "128 \<le> unat (hd d)")
    case True
    have "256 ^ length d * (le_val (replicate (8 - length d) 0xff) + 1) = (2 :: nat) ^ 64"
      unfolding rf by (rule p)
    then have "256 ^ length d * le_val (replicate (8 - length d) 0xff) + 256 ^ length d = (2 :: nat) ^ 64"
      by (simp only: distrib_left mult_1_right)
    then have "int (256 ^ length d * le_val (replicate (8 - length d) 0xff) + 256 ^ length d) = int (2 ^ 64)"
      by (simp only:)
    with True assms show ?thesis
      by (simp add: le_val_append le_val_rev tc_val_def)
  next
    case False
    with assms r0 show ?thesis by (simp add: le_val_append le_val_rev tc_val_def)
  qed
qed

lemma sint_of_nat_64:
  assumes "n < 2 ^ 64"
  shows "sint (of_nat n :: u64) = (if n < 2 ^ 63 then int n else int n - 2 ^ 64)"
proof -
  have "sint (of_nat n :: u64) = signed_take_bit 63 (int n)"
    by (simp add: signed_of_nat)
  also have "\<dots> = (int n + 2 ^ 63) mod 2 ^ 64 - 2 ^ 63"
    by (simp add: signed_take_bit_eq_take_bit_shift take_bit_eq_mod)
  also have "\<dots> = (if n < 2 ^ 63 then int n else int n - 2 ^ 64)"
  proof (cases "n < 2 ^ 63")
    case True
    then show ?thesis by simp
  next
    case False
    then have "(int n + 2 ^ 63) mod 2 ^ 64 = int n + 2 ^ 63 - 2 ^ 64"
      using assms by (simp add: mod_pos_geq)
    with False show ?thesis by simp
  qed
  finally show ?thesis .
qed

lemma sint_sign_extended:
  assumes "d \<noteq> []" and "length d \<le> 8" and "x = (if 128 \<le> unat (hd d) then 0xff else 0 :: u8)"
  shows "sint (of_nat (le_val (rev d @ replicate (8 - length d) x)) :: u64) = tc_val d"
proof -
  let ?n = "le_val (rev d @ replicate (8 - length d) x)"
  note v = le_val_rev_sign [OF assms]
  have "?n < 256 ^ (length d + (8 - length d))" using le_val_less [of "rev d @ replicate (8 - length d) x"] by simp
  then have lt: "?n < 2 ^ 64" using assms(2) by simp
  have "(256 :: int) ^ length d \<le> 256 ^ 8" using assms(2) by (intro power_increasing) simp_all
  then have "tc_val d < 2 ^ 63" "- (2 ^ 63) \<le> tc_val d"
    using tc_val_range(1,2) [OF assms(1)] by simp_all
  then show ?thesis
    using v tc_val_range(3) [OF assms(1)] unfolding sint_of_nat_64 [OF lt]
    by (cases "128 \<le> unat (hd d)") auto
qed

lemma get_asn1_int64_iff:
  "CBS_get_asn1_int64 s = (Some v, s') \<longleftrightarrow>
     (\<exists>d. s = der_encode CBS_ASN1_INTEGER d @ s' \<and> minimal_int d \<and> tc_val d = sint v)"
  (is "?L \<longleftrightarrow> ?R")
proof
  assume ?L
  then obtain d where g: "CBS_get_asn1 s CBS_ASN1_INTEGER = (Some d, s')"
    and ne: "d \<noteq> []" and len: "length d \<le> 8" and m: "minimal_int d"
    and v: "v = of_nat (le_val (rev d @ replicate (8 - length d) (if 128 \<le> unat (hd d) then 0xff else 0)))"
    unfolding CBS_get_asn1_int64_def
    by (auto simp: cbs_eqs sign_bit u8_high_bit Let_def minimal_int_nth hd_conv_nth
        simp del: rev_append split: prod.splits option.splits if_splits)
  have "tc_val d = sint v" unfolding v by (rule sint_sign_extended [symmetric, OF ne len refl])
  with g m show ?R by (auto simp: get_asn1_iff)
next
  assume ?R
  then obtain d where d: "s = der_encode CBS_ASN1_INTEGER d @ s'" "minimal_int d" "tc_val d = sint v"
    by blast
  have ne: "d \<noteq> []" using d(2) by auto
  have "- (2 ^ 63) \<le> sint v" "sint v < 2 ^ 63"
    using sint_greater_eq [of v] sint_less [of v] by simp_all
  then have len: "length d \<le> 8" using d by (intro minimal_int_length) simp_all
  have g: "CBS_get_asn1 s CBS_ASN1_INTEGER = (Some d, s')" using d len by (simp add: get_asn1_iff)
  let ?w = "of_nat (le_val (rev d @ replicate (8 - length d) (if 128 \<le> unat (hd d) then 0xff else 0))) :: u64"
  have "sint ?w = sint v"
    using sint_sign_extended [OF ne len refl] d(3) by simp
  then have "?w = v" by (simp add: signed_word_eqI)
  with g len d(2) ne show ?L
    unfolding CBS_get_asn1_int64_def
    by (auto simp: cbs_eqs sign_bit u8_high_bit Let_def minimal_int_nth hd_conv_nth)
qed

lemma get_asn1_bool_iff:
  "CBS_get_asn1_bool s = (Some v, s') \<longleftrightarrow>
     s = der_encode CBS_ASN1_BOOLEAN [if v then 0xff else 0] @ s'"
proof -
  have "CBS_get_asn1_bool s = (Some v, s') \<longleftrightarrow>
      CBS_get_asn1 s CBS_ASN1_BOOLEAN = (Some [if v then 0xff else 0], s')"
    unfolding CBS_get_asn1_bool_def
    by (auto simp: cbs_eqs Let_def length_Suc_conv split: prod.splits option.splits if_splits)
  then show ?thesis by (simp add: get_asn1_iff)
qed

section \<open>Properties\<close>

text \<open>C1. \<open>CBS_get_any_asn1\<close> returns the contents \<open>c\<close> and the tag \<open>tag\<close> and leaves \<open>s'\<close> if and
  only if its input is the DER encoding of \<open>tag\<close> and \<open>c\<close> followed by \<open>s'\<close>, with contents
  shorter than \<open>2 ^ 32\<close>: every encoding it accepts is canonical and every canonical encoding
  is accepted.\<close>

theorem any_asn1_accepts_exactly_der:
  "CBS_get_any_asn1 s = (Some (c, tag), s') \<longleftrightarrow> s = der_encode tag c @ s' \<and> length c < 2 ^ 32"
  by (rule any_asn1_iff)

end
