(* ===== verification/Qsort.thy ===== *)
theory Qsort
  imports Prelude "HOL-Library.Multiset"
begin

text \<open>
  The C library's \<open>qsort\<close>: what its users may rely on, and one routine that meets it.
\<close>

section \<open>Sorting\<close>

text \<open>The C library's \<open>qsort\<close> with the comparison function it is given, as an insertion sort.\<close>

fun qsort_insert :: "('a \<Rightarrow> 'a \<Rightarrow> int) \<Rightarrow> 'a \<Rightarrow> 'a list \<Rightarrow> 'a list" where
  "qsort_insert cmp x [] = [x]"
| "qsort_insert cmp x (y # ys) = (if cmp x y \<le> 0 then x # y # ys else y # qsort_insert cmp x ys)"

definition qsort :: "('a \<Rightarrow> 'a \<Rightarrow> int) \<Rightarrow> 'a list \<Rightarrow> 'a list" where
  "qsort cmp xs = foldr (qsort_insert cmp) xs []"

text \<open>What the C standard says of a sort routine: a permutation, in ascending order when the
  comparison function is a total order on the elements up to equivalence.\<close>

definition total_cmp :: "('a \<Rightarrow> 'a \<Rightarrow> int) \<Rightarrow> bool" where
  "total_cmp cmp \<longleftrightarrow> (\<forall>x y. cmp x y < 0 \<longleftrightarrow> 0 < cmp y x) \<and>
     (\<forall>x y z. cmp x y \<le> 0 \<longrightarrow> cmp y z \<le> 0 \<longrightarrow> cmp x z \<le> 0)"

definition sort_routine :: "(('a \<Rightarrow> 'a \<Rightarrow> int) \<Rightarrow> 'a list \<Rightarrow> 'a list) \<Rightarrow> bool" where
  "sort_routine srt \<longleftrightarrow> (\<forall>cmp xs. mset (srt cmp xs) = mset xs \<and>
     (total_cmp cmp \<longrightarrow> sorted_wrt (\<lambda>x y. cmp x y \<le> 0) (srt cmp xs)))"

lemma total_cmp_linear: "total_cmp cmp \<Longrightarrow> \<not> cmp x y \<le> 0 \<Longrightarrow> cmp y x \<le> 0"
  unfolding total_cmp_def by (metis linorder_not_le order_less_imp_le)

lemma total_cmp_trans: "total_cmp cmp \<Longrightarrow> cmp x y \<le> 0 \<Longrightarrow> cmp y z \<le> 0 \<Longrightarrow> cmp x z \<le> 0"
  unfolding total_cmp_def by blast

lemma mset_qsort_insert: "mset (qsort_insert cmp x xs) = add_mset x (mset xs)"
  by (induction xs) auto

lemma mset_qsort: "mset (qsort cmp xs) = mset xs"
  by (induction xs) (simp_all add: qsort_def mset_qsort_insert)

lemma set_qsort_insert: "set (qsort_insert cmp x ys) = insert x (set ys)"
  by (induction ys) auto

lemma set_qsort: "set (qsort cmp xs) = set xs"
  by (induction xs) (simp_all add: qsort_def set_qsort_insert)

lemma sorted_qsort_insert:
  "total_cmp cmp \<Longrightarrow> sorted_wrt (\<lambda>x y. cmp x y \<le> 0) xs \<Longrightarrow> sorted_wrt (\<lambda>x y. cmp x y \<le> 0) (qsort_insert cmp x xs)"
  by (induction xs) (auto simp: set_qsort_insert intro: total_cmp_linear total_cmp_trans)

lemma sort_routine_qsort: "sort_routine qsort"
proof -
  have "sorted_wrt (\<lambda>x y. cmp x y \<le> 0) (qsort cmp xs)" if "total_cmp cmp" for cmp :: "'a \<Rightarrow> 'a \<Rightarrow> int" and xs
    by (induction xs) (simp_all add: qsort_def sorted_qsort_insert [OF that])
  then show ?thesis by (simp add: sort_routine_def mset_qsort)
qed

end
