(* ===== verification/CBB.thy ===== *)
theory CBB
  imports DER Qsort
begin

text \<open>
  The byte-string builder, \<open>crypto/bytestring/cbb.c\<close>: its state and operations. All the
  \<open>CBB\<close>s of one tree share a buffer. At any time the open ones form a chain from the
  top-level \<open>CBB\<close> over its pending child to the innermost one, so the state of a tree is the
  buffer and the list of the pending children, and a \<open>CBB *\<close> argument is the depth of the
  structure in the chain (0 is the top-level \<open>CBB\<close>). A depth beyond the chain is a child that
  was flushed or discarded: its \<open>base\<close> is NULL, as is the \<open>base\<close> of a finished tree. Every
  operation returns the C return value and the new state, also when it fails.

  \<open>buf\<close> holds the valid bytes, the first \<open>base->len\<close> of the buffer; \<open>fresh i\<close> is the
  unspecified content that memory which nobody has written yet has at position \<open>i\<close>.
\<close>

unbundle bit_operations_syntax

section \<open>State\<close>

record cbb_buffer_st =
  buf :: bytes
  cap :: nat
  can_resize :: bool
  error :: bool
  malloc :: "nat \<Rightarrow> bool"
  fresh :: "nat \<Rightarrow> u8"

record cbb_child =
  offset :: nat
  pending_len_len :: nat
  pending_is_asn1 :: bool

record cbb_st =
  base :: "cbb_buffer_st option"
  chain :: "cbb_child list"

abbreviation base_len :: "cbb_buffer_st \<Rightarrow> nat" where
  "base_len b \<equiv> length (buf b)"

section \<open>Memory\<close>

definition mem_write :: "bytes \<Rightarrow> nat \<Rightarrow> bytes \<Rightarrow> bytes" where
  "mem_write m off d = take off m @ d @ drop (off + length d) m"

definition OPENSSL_memmove :: "bytes \<Rightarrow> nat \<Rightarrow> nat \<Rightarrow> nat \<Rightarrow> bytes" where
  "OPENSSL_memmove m dst src n = mem_write m dst (take n (drop src m))"

text \<open>The loops that store an integer big-endian, from the last byte to the first: the bytes
  written and what is left of the value.\<close>

fun put_be_loop :: "nat \<Rightarrow> u64 \<Rightarrow> bytes \<Rightarrow> bytes \<times> u64" where
  "put_be_loop 0 v acc = (acc, v)"
| "put_be_loop (Suc n) v acc = put_be_loop n (drop_bit 8 v) (ucast v # acc)"

section \<open>The shared buffer\<close>

definition cbb_buffer_fail :: "cbb_buffer_st \<Rightarrow> bool \<times> cbb_buffer_st" where
  "cbb_buffer_fail b = (False, b\<lparr>error := True\<rparr>)"

definition cbb_buffer_reserve :: "cbb_buffer_st \<Rightarrow> nat \<Rightarrow> bool \<times> cbb_buffer_st" where
  "cbb_buffer_reserve b n =
     (let newlen = size_add (base_len b) n in
      if newlen < base_len b then cbb_buffer_fail b
      else if newlen > cap b then
        let newcap = size_mul (cap b) 2 in
        if \<not> can_resize b then cbb_buffer_fail b
        else
          let newcap = (if newcap < cap b \<or> newcap < newlen then newlen else newcap) in
          if OPENSSL_malloc (malloc b) newcap = None then cbb_buffer_fail b
          else (True, b\<lparr>cap := newcap\<rparr>)
      else (True, b))"

definition cbb_buffer_add :: "cbb_buffer_st \<Rightarrow> nat \<Rightarrow> bool \<times> cbb_buffer_st" where
  "cbb_buffer_add b n =
     (case cbb_buffer_reserve b n of
        (False, b) \<Rightarrow> (False, b)
      | (True, b) \<Rightarrow> (True, b\<lparr>buf := buf b @ map (fresh b) [base_len b..<base_len b + n]\<rparr>))"

text \<open>\<open>cbb_buffer_add\<close> followed by the caller's \<open>OPENSSL_memcpy\<close> or \<open>OPENSSL_memset\<close> to the
  pointer it returned.\<close>

definition cbb_buffer_add_write :: "cbb_buffer_st \<Rightarrow> bytes \<Rightarrow> bool \<times> cbb_buffer_st" where
  "cbb_buffer_add_write b d =
     (let off = base_len b in
      case cbb_buffer_add b (length d) of
        (False, b) \<Rightarrow> (False, b)
      | (True, b) \<Rightarrow> (True, b\<lparr>buf := mem_write (buf b) off d\<rparr>))"

definition cbb_buffer_add_u :: "cbb_buffer_st \<Rightarrow> u64 \<Rightarrow> nat \<Rightarrow> bool \<times> cbb_buffer_st" where
  "cbb_buffer_add_u b v len_len =
     (if len_len = 0 then (True, b)
      else
        case put_be_loop len_len v [] of (d, v) \<Rightarrow>
          (case cbb_buffer_add_write b d of
             (False, b) \<Rightarrow> (False, b)
           | (True, b) \<Rightarrow> if v \<noteq> 0 then cbb_buffer_fail b else (True, b)))"

section \<open>Creation and disposal\<close>

definition CBB_zero :: cbb_st where
  "CBB_zero = \<lparr>base = None, chain = []\<rparr>"

text \<open>\<open>cbb_init\<close> allocates the \<open>struct cbb_buffer_st\<close>, of 32 bytes.\<close>

definition cbb_init :: "(nat \<Rightarrow> bool) \<Rightarrow> (nat \<Rightarrow> u8) \<Rightarrow> nat \<Rightarrow> bool \<times> cbb_st" where
  "cbb_init m f c =
     (case OPENSSL_malloc m 32 of
        None \<Rightarrow> (False, CBB_zero)
      | Some _ \<Rightarrow>
          (True, CBB_zero\<lparr>base := Some \<lparr>buf = [], cap = c, can_resize = True, error = False,
                                        malloc = m, fresh = f\<rparr>\<rparr>))"

definition CBB_init :: "(nat \<Rightarrow> bool) \<Rightarrow> (nat \<Rightarrow> u8) \<Rightarrow> nat \<Rightarrow> bool \<times> cbb_st" where
  "CBB_init m f initial_capacity =
     (if initial_capacity > 0 \<and> OPENSSL_malloc m initial_capacity = None then (False, CBB_zero)
      else cbb_init m f initial_capacity)"

definition CBB_init_fixed :: "(nat \<Rightarrow> bool) \<Rightarrow> (nat \<Rightarrow> u8) \<Rightarrow> nat \<Rightarrow> bool \<times> cbb_st" where
  "CBB_init_fixed m f len =
     (case cbb_init m f len of
        (False, cbb) \<Rightarrow> (False, cbb)
      | (True, cbb) \<Rightarrow> (True, cbb\<lparr>base := map_option (\<lambda>b. b\<lparr>can_resize := False\<rparr>) (base cbb)\<rparr>))"

text \<open>\<open>CBB_cleanup\<close> only acts on a top-level \<open>CBB\<close>.\<close>

definition CBB_cleanup :: "nat \<Rightarrow> cbb_st \<Rightarrow> cbb_st" where
  "CBB_cleanup d cbb = (if d > 0 then cbb else cbb\<lparr>base := None\<rparr>)"

section \<open>Flushing\<close>

text \<open>The length prefix of the pending child: the number of bytes it takes (the contents move
  by all but one of them) and its first byte.\<close>

definition asn1_len_len :: "nat \<Rightarrow> (nat \<times> u8) option" where
  "asn1_len_len len =
     (if len > 0xfffffffe then None
      else if len > 0xffffff then Some (5, 0x80 OR 4)
      else if len > 0xffff then Some (4, 0x80 OR 3)
      else if len > 0xff then Some (3, 0x80 OR 2)
      else if len > 0x7f then Some (2, 0x80 OR 1)
      else Some (1, of_nat len))"

definition cbb_write_prefix :: "cbb_buffer_st \<Rightarrow> nat \<Rightarrow> nat \<Rightarrow> nat \<Rightarrow> bool \<times> cbb_buffer_st" where
  "cbb_write_prefix b off len_len len =
     (case put_be_loop len_len (of_nat len) [] of (d, rest) \<Rightarrow>
        let b = b\<lparr>buf := mem_write (buf b) off d\<rparr>
        in if rest \<noteq> 0 then cbb_buffer_fail b else (True, b))"

text \<open>The part of \<open>CBB_flush\<close> after the child was flushed: \<open>c\<close> is the pending child.\<close>

definition cbb_close_child :: "cbb_buffer_st \<Rightarrow> cbb_child \<Rightarrow> bool \<times> cbb_buffer_st" where
  "cbb_close_child b c =
     (let child_start = size_add (offset c) (pending_len_len c) in
      if child_start < offset c \<or> base_len b < child_start then cbb_buffer_fail b
      else
        let len = base_len b - child_start in
        if pending_is_asn1 c then
          (case asn1_len_len len of
             None \<Rightarrow> cbb_buffer_fail b
           | Some (len_len, initial_length_byte) \<Rightarrow>
               let extra_bytes = len_len - 1;
                   value = (if len_len = 1 then 0 else len) in
               case (if len_len \<noteq> 1 then
                       (case cbb_buffer_add b extra_bytes of
                          (False, b) \<Rightarrow> (False, b)
                        | (True, b) \<Rightarrow>
                            (True, b\<lparr>buf := OPENSSL_memmove (buf b) (child_start + extra_bytes)
                                              child_start len\<rparr>))
                     else (True, b)) of
                 (False, b) \<Rightarrow> cbb_buffer_fail b
               | (True, b) \<Rightarrow>
                   cbb_write_prefix (b\<lparr>buf := mem_write (buf b) (offset c) [initial_length_byte]\<rparr>)
                     (offset c + 1) (len_len - 1) value)
        else cbb_write_prefix b (offset c) (pending_len_len c) len)"

fun cbb_flush_chain :: "cbb_buffer_st \<Rightarrow> cbb_child list \<Rightarrow> bool \<times> cbb_buffer_st \<times> cbb_child list" where
  "cbb_flush_chain b [] = (\<not> error b, b, [])"
| "cbb_flush_chain b (c # cs) =
     (if error b then (False, b, c # cs)
      else if pending_len_len c = 0 then (True, b, c # cs)
      else
        case cbb_flush_chain b cs of
          (False, b, cs) \<Rightarrow> (False, b\<lparr>error := True\<rparr>, c # cs)
        | (True, b, cs) \<Rightarrow>
            (case cbb_close_child b c of
               (False, b) \<Rightarrow> (False, b, c # cs)
             | (True, b) \<Rightarrow> (True, b, [])))"

definition CBB_flush :: "nat \<Rightarrow> cbb_st \<Rightarrow> bool \<times> cbb_st" where
  "CBB_flush d cbb =
     (case base cbb of
        None \<Rightarrow> (False, cbb)
      | Some b \<Rightarrow>
          if length (chain cbb) < d then (False, cbb)
          else
            case cbb_flush_chain b (drop d (chain cbb)) of
              (ok, b, cs) \<Rightarrow> (ok, cbb\<lparr>base := Some b, chain := take d (chain cbb) @ cs\<rparr>))"

text \<open>The two shapes of the operations below: \<open>if (!CBB_flush(cbb)) return 0;\<close> before an
  operation on the base, and \<open>if (!f || !g) return 0;\<close>.\<close>

definition on_flushed ::
    "nat \<Rightarrow> (cbb_buffer_st \<Rightarrow> bool \<times> cbb_buffer_st) \<Rightarrow> cbb_st \<Rightarrow> bool \<times> cbb_st" where
  "on_flushed d f cbb =
     (case CBB_flush d cbb of
        (False, cbb) \<Rightarrow> (False, cbb)
      | (True, cbb) \<Rightarrow>
          (case base cbb of
             None \<Rightarrow> (False, cbb)
           | Some b \<Rightarrow> (case f b of (ok, b) \<Rightarrow> (ok, cbb\<lparr>base := Some b\<rparr>))))"

definition and_then ::
    "(cbb_st \<Rightarrow> bool \<times> cbb_st) \<Rightarrow> (cbb_st \<Rightarrow> bool \<times> cbb_st) \<Rightarrow> cbb_st \<Rightarrow> bool \<times> cbb_st" where
  "and_then f g cbb = (case f cbb of (False, cbb) \<Rightarrow> (False, cbb) | (True, cbb) \<Rightarrow> g cbb)"

text \<open>\<open>out\<close> says whether the caller passed \<open>out_data\<close> and \<open>out_len\<close>; the result is the
  finished contents.\<close>

definition CBB_finish :: "nat \<Rightarrow> bool \<Rightarrow> cbb_st \<Rightarrow> bytes option \<times> cbb_st" where
  "CBB_finish d out cbb =
     (if d > 0 then (None, cbb)
      else case CBB_flush d cbb of
        (False, cbb) \<Rightarrow> (None, cbb)
      | (True, cbb) \<Rightarrow>
          (case base cbb of
             None \<Rightarrow> (None, cbb)
           | Some b \<Rightarrow>
               if can_resize b \<and> \<not> out then (None, cbb)
               else (Some (buf b), CBB_cleanup d cbb)))"

text \<open>\<open>CBB_data\<close> and \<open>CBB_len\<close> assert that no child is pending. The contents of a child
  start after its own prefix.\<close>

definition contents_start :: "nat \<Rightarrow> cbb_st \<Rightarrow> nat" where
  "contents_start d cbb =
     (if d = 0 then 0
      else let c = chain cbb ! (d - 1) in offset c + pending_len_len c)"

definition CBB_len :: "nat \<Rightarrow> cbb_st \<Rightarrow> nat" where
  "CBB_len d cbb = (case base cbb of None \<Rightarrow> 0 | Some b \<Rightarrow> base_len b - contents_start d cbb)"

definition CBB_data :: "nat \<Rightarrow> cbb_st \<Rightarrow> bytes" where
  "CBB_data d cbb = (case base cbb of None \<Rightarrow> [] | Some b \<Rightarrow> drop (contents_start d cbb) (buf b))"

section \<open>Adding data\<close>

definition CBB_add_bytes :: "nat \<Rightarrow> bytes \<Rightarrow> cbb_st \<Rightarrow> bool \<times> cbb_st" where
  "CBB_add_bytes d data = on_flushed d (\<lambda>b. cbb_buffer_add_write b data)"

text \<open>The pointer that \<open>CBB_add_space\<close> and \<open>CBB_reserve\<close> return is to the position where
  the valid bytes ended.\<close>

definition CBB_add_space :: "nat \<Rightarrow> nat \<Rightarrow> cbb_st \<Rightarrow> bool \<times> cbb_st" where
  "CBB_add_space d len = on_flushed d (\<lambda>b. cbb_buffer_add b len)"

definition CBB_reserve :: "nat \<Rightarrow> nat \<Rightarrow> cbb_st \<Rightarrow> bool \<times> cbb_st" where
  "CBB_reserve d len = on_flushed d (\<lambda>b. cbb_buffer_reserve b len)"

text \<open>\<open>written\<close> is what the caller has stored in the reserved space.\<close>

definition CBB_did_write :: "nat \<Rightarrow> bytes \<Rightarrow> cbb_st \<Rightarrow> bool \<times> cbb_st" where
  "CBB_did_write d written cbb =
     (case base cbb of
        None \<Rightarrow> (False, cbb)
      | Some b \<Rightarrow>
          let newlen = size_add (base_len b) (length written) in
          if d < length (chain cbb) \<or> newlen < base_len b \<or> newlen > cap b then (False, cbb)
          else (True, cbb\<lparr>base := Some (b\<lparr>buf := buf b @ written\<rparr>)\<rparr>))"

definition CBB_add_u8 :: "nat \<Rightarrow> u8 \<Rightarrow> cbb_st \<Rightarrow> bool \<times> cbb_st" where
  "CBB_add_u8 d v = on_flushed d (\<lambda>b. cbb_buffer_add_u b (ucast v) 1)"

definition CBB_add_u16 :: "nat \<Rightarrow> u16 \<Rightarrow> cbb_st \<Rightarrow> bool \<times> cbb_st" where
  "CBB_add_u16 d v = on_flushed d (\<lambda>b. cbb_buffer_add_u b (ucast v) 2)"

definition CBB_add_u16le :: "nat \<Rightarrow> u16 \<Rightarrow> cbb_st \<Rightarrow> bool \<times> cbb_st" where
  "CBB_add_u16le d v = CBB_add_u16 d (CRYPTO_bswap2 v)"

definition CBB_add_u24 :: "nat \<Rightarrow> u32 \<Rightarrow> cbb_st \<Rightarrow> bool \<times> cbb_st" where
  "CBB_add_u24 d v = on_flushed d (\<lambda>b. cbb_buffer_add_u b (ucast v) 3)"

definition CBB_add_u32 :: "nat \<Rightarrow> u32 \<Rightarrow> cbb_st \<Rightarrow> bool \<times> cbb_st" where
  "CBB_add_u32 d v = on_flushed d (\<lambda>b. cbb_buffer_add_u b (ucast v) 4)"

definition CBB_add_u32le :: "nat \<Rightarrow> u32 \<Rightarrow> cbb_st \<Rightarrow> bool \<times> cbb_st" where
  "CBB_add_u32le d v = CBB_add_u32 d (CRYPTO_bswap4 v)"

definition CBB_add_u64 :: "nat \<Rightarrow> u64 \<Rightarrow> cbb_st \<Rightarrow> bool \<times> cbb_st" where
  "CBB_add_u64 d v = on_flushed d (\<lambda>b. cbb_buffer_add_u b v 8)"

definition CBB_add_u64le :: "nat \<Rightarrow> u64 \<Rightarrow> cbb_st \<Rightarrow> bool \<times> cbb_st" where
  "CBB_add_u64le d v = CBB_add_u64 d (CRYPTO_bswap8 v)"

section \<open>Children\<close>

text \<open>Opening a length-prefixed child: the flushed \<open>cbb\<close> at depth \<open>d\<close> gets the pending child, at depth
  \<open>d + 1\<close>, whose prefix starts where the valid bytes ended.\<close>

definition cbb_open_child :: "nat \<Rightarrow> cbb_st \<Rightarrow> bool \<times> cbb_st" where
  "cbb_open_child len_len cbb =
     (case base cbb of
        None \<Rightarrow> (False, cbb)
      | Some b \<Rightarrow>
          (case cbb_buffer_add_write b (replicate len_len 0) of
             (False, b') \<Rightarrow> (False, cbb\<lparr>base := Some b'\<rparr>)
           | (True, b') \<Rightarrow>
               (True, cbb\<lparr>base := Some b',
                          chain := chain cbb @ [\<lparr>offset = base_len b, pending_len_len = len_len,
                                                 pending_is_asn1 = False\<rparr>]\<rparr>)))"

definition cbb_add_length_prefixed :: "nat \<Rightarrow> nat \<Rightarrow> cbb_st \<Rightarrow> bool \<times> cbb_st" where
  "cbb_add_length_prefixed d len_len = and_then (CBB_flush d) (cbb_open_child len_len)"

definition CBB_add_u8_length_prefixed :: "nat \<Rightarrow> cbb_st \<Rightarrow> bool \<times> cbb_st" where
  "CBB_add_u8_length_prefixed d = cbb_add_length_prefixed d 1"

definition CBB_add_u16_length_prefixed :: "nat \<Rightarrow> cbb_st \<Rightarrow> bool \<times> cbb_st" where
  "CBB_add_u16_length_prefixed d = cbb_add_length_prefixed d 2"

definition CBB_add_u24_length_prefixed :: "nat \<Rightarrow> cbb_st \<Rightarrow> bool \<times> cbb_st" where
  "CBB_add_u24_length_prefixed d = cbb_add_length_prefixed d 3"

definition CBB_discard_child :: "nat \<Rightarrow> cbb_st \<Rightarrow> cbb_st" where
  "CBB_discard_child d cbb =
     (if length (chain cbb) \<le> d then cbb
      else cbb\<lparr>base := map_option (\<lambda>b. b\<lparr>buf := take (offset (chain cbb ! d)) (buf b)\<rparr>) (base cbb),
               chain := take d (chain cbb)\<rparr>)"

text \<open>The digit count of \<open>add_base128_integer\<close>, and its loop from digit \<open>i - 1\<close> down to 0.\<close>

function base128_len :: "u64 \<Rightarrow> nat" where
  "base128_len v = (if v = 0 then 0 else Suc (base128_len (drop_bit 7 v)))"
  by pat_completeness auto

termination
proof (relation "measure unat")
  fix v :: u64
  assume "v \<noteq> 0"
  then have "0 < unat v" by (simp add: unat_gt_0)
  then show "(drop_bit 7 v, v) \<in> measure unat"
  proof -
    have "unat (drop_bit 7 v) = unat v div 2 ^ 7"
      by (simp only: unat_drop_bit_eq) (simp only: drop_bit_eq_div)
    also have "\<dots> < unat v" using \<open>0 < unat v\<close> by (intro div_less_dividend) simp_all
    finally show ?thesis by (simp only: in_measure)
  qed
qed simp

declare base128_len.simps [simp del]

fun base128_loop :: "nat \<Rightarrow> u64 \<Rightarrow> nat \<Rightarrow> cbb_st \<Rightarrow> bool \<times> cbb_st" where
  "base128_loop d v 0 = Pair True"
| "base128_loop d v (Suc i) =
     (let byte = ucast (drop_bit (7 * i) v) AND 0x7f;
          byte = (if i \<noteq> 0 then byte OR 0x80 else byte)
      in and_then (CBB_add_u8 d byte) (base128_loop d v i))"

definition add_base128_integer :: "nat \<Rightarrow> u64 \<Rightarrow> cbb_st \<Rightarrow> bool \<times> cbb_st" where
  "add_base128_integer d v =
     base128_loop d v (if base128_len v = 0 then 1 else base128_len v)"

definition cbb_open_asn1 :: "nat \<Rightarrow> cbb_st \<Rightarrow> bool \<times> cbb_st" where
  "cbb_open_asn1 d cbb =
     (case base cbb of
        None \<Rightarrow> (False, cbb)
      | Some b \<Rightarrow>
          let off = base_len b in
          (case CBB_add_u8 d 0 cbb of
             (False, cbb) \<Rightarrow> (False, cbb)
           | (True, cbb) \<Rightarrow>
               (True, cbb\<lparr>chain := chain cbb @ [\<lparr>offset = off, pending_len_len = 1,
                                                 pending_is_asn1 = True\<rparr>]\<rparr>)))"

definition CBB_add_asn1 :: "nat \<Rightarrow> u32 \<Rightarrow> cbb_st \<Rightarrow> bool \<times> cbb_st" where
  "CBB_add_asn1 d tag =
     (let tag_bits = ucast (drop_bit CBS_ASN1_TAG_SHIFT tag) AND 0xe0 :: u8;
          tag_number = tag AND CBS_ASN1_TAG_NUMBER_MASK
      in and_then (CBB_flush d)
           (and_then
             (if tag_number \<ge> 0x1f then
                and_then (CBB_add_u8 d (tag_bits OR 0x1f))
                  (add_base128_integer d (ucast tag_number))
              else CBB_add_u8 d (tag_bits OR ucast tag_number))
             (cbb_open_asn1 d)))"

section \<open>Primitive types\<close>

text \<open>The loop of \<open>CBB_add_asn1_uint64\<close> over the bytes of the value, \<open>n\<close> of them left.\<close>

fun asn1_uint64_bytes :: "nat \<Rightarrow> u64 \<Rightarrow> bool \<Rightarrow> nat \<Rightarrow> cbb_st \<Rightarrow> bool \<times> cbb_st" where
  "asn1_uint64_bytes d v started 0 =
     (if \<not> started then CBB_add_u8 d 0 else Pair True)"
| "asn1_uint64_bytes d v started (Suc n) =
     (let byte = ucast (drop_bit (8 * n) v AND 0xff) :: u8
      in if \<not> started \<and> byte = 0 then asn1_uint64_bytes d v False n
         else and_then
           (if \<not> started \<and> byte AND 0x80 \<noteq> 0 then CBB_add_u8 d 0 else Pair True)
           (and_then (CBB_add_u8 d byte) (asn1_uint64_bytes d v True n)))"

definition CBB_add_asn1_uint64 :: "nat \<Rightarrow> u64 \<Rightarrow> cbb_st \<Rightarrow> bool \<times> cbb_st" where
  "CBB_add_asn1_uint64 d v =
     and_then (CBB_add_asn1 d CBS_ASN1_INTEGER)
       (and_then (asn1_uint64_bytes (d + 1) v False 8) (CBB_flush d))"

text \<open>\<open>value\<close> is the bit pattern of the \<open>int64_t\<close>; \<open>u_bytes\<close> are the bytes of the union, from
  the least significant one up, as on the little-endian targets of the application.\<close>

fun int64_start :: "bytes \<Rightarrow> nat \<Rightarrow> nat" where
  "int64_start u_bytes 0 = 0"
| "int64_start u_bytes (Suc i) =
     (if u_bytes ! Suc i = 0xff \<and> u_bytes ! i AND 0x80 \<noteq> 0 then int64_start u_bytes i
      else Suc i)"

fun add_bytes_down :: "nat \<Rightarrow> bytes \<Rightarrow> nat \<Rightarrow> cbb_st \<Rightarrow> bool \<times> cbb_st" where
  "add_bytes_down d u_bytes 0 = Pair True"
| "add_bytes_down d u_bytes (Suc i) =
     and_then (CBB_add_u8 d (u_bytes ! i)) (add_bytes_down d u_bytes i)"

definition CBB_add_asn1_int64 :: "nat \<Rightarrow> u64 \<Rightarrow> cbb_st \<Rightarrow> bool \<times> cbb_st" where
  "CBB_add_asn1_int64 d v =
     (if sint v \<ge> 0 then CBB_add_asn1_uint64 d v
      else
        let u_bytes = le_bytes 8 (unat v); start = int64_start u_bytes 7
        in and_then (CBB_add_asn1 d CBS_ASN1_INTEGER)
             (and_then (add_bytes_down (d + 1) u_bytes (start + 1)) (CBB_flush d)))"

definition CBB_add_asn1_octet_string :: "nat \<Rightarrow> bytes \<Rightarrow> cbb_st \<Rightarrow> bool \<times> cbb_st" where
  "CBB_add_asn1_octet_string d data =
     and_then (CBB_add_asn1 d CBS_ASN1_OCTETSTRING)
       (and_then (CBB_add_bytes (d + 1) data) (CBB_flush d))"

definition CBB_add_asn1_bool :: "nat \<Rightarrow> bool \<Rightarrow> cbb_st \<Rightarrow> bool \<times> cbb_st" where
  "CBB_add_asn1_bool d value =
     and_then (CBB_add_asn1 d CBS_ASN1_BOOLEAN)
       (and_then (CBB_add_u8 (d + 1) (if value then 0xff else 0)) (CBB_flush d))"

section \<open>Object identifiers\<close>

text \<open>\<open>parse_dotted_decimal\<close>: the loop, with the value so far and whether a digit was seen.\<close>

fun dotted_loop :: "u64 \<Rightarrow> bool \<Rightarrow> cbs \<Rightarrow> u64 option \<times> cbs" where
  "dotted_loop out seen_digit [] = (if seen_digit then Some out else None, [])"
| "dotted_loop out seen_digit (u # cbs) =
     (if u = 0x2e \<and> CBS_len cbs > 0 then (if seen_digit then Some out else None, cbs)
      else if u < 0x30 \<or> u > 0x39 \<or> (seen_digit \<and> out = 0) \<or> out > (- 1) div 10
              \<or> out * 10 > - 1 - ucast (u - 0x30)
           then (None, cbs)
      else dotted_loop (out * 10 + ucast (u - 0x30)) True cbs)"

definition parse_dotted_decimal :: "cbs \<Rightarrow> u64 option \<times> cbs" where
  "parse_dotted_decimal cbs = dotted_loop 0 False cbs"

lemma dotted_loop_length: "dotted_loop out seen s = (r, s') \<Longrightarrow> s \<noteq> [] \<Longrightarrow> length s' < length s"
proof (induction out seen s rule: dotted_loop.induct)
  case (2 out seen u s)
  then show ?case by (cases s) (auto split: if_splits)
qed simp

text \<open>The loop over the remaining components.\<close>

function oid_text_loop :: "nat \<Rightarrow> cbs \<Rightarrow> cbb_st \<Rightarrow> bool \<times> cbb_st" where
  "oid_text_loop d cbs cbb =
     (if CBS_len cbs = 0 then (True, cbb)
      else case parse_dotted_decimal cbs of
             (None, _) \<Rightarrow> (False, cbb)
           | (Some a, cbs') \<Rightarrow>
               (case add_base128_integer d a cbb of
                  (False, cbb) \<Rightarrow> (False, cbb)
                | (True, cbb) \<Rightarrow> oid_text_loop d cbs' cbb))"
  by pat_completeness auto

termination
  by (relation "measure (\<lambda>(d, cbs, cbb). length cbs)")
    (auto simp: parse_dotted_decimal_def CBS_len_def dest!: dotted_loop_length [OF sym])

declare oid_text_loop.simps [simp del]

definition CBB_add_asn1_oid_from_text :: "nat \<Rightarrow> bytes \<Rightarrow> nat \<Rightarrow> cbb_st \<Rightarrow> bool \<times> cbb_st" where
  "CBB_add_asn1_oid_from_text d text len =
     and_then (CBB_flush d)
       (\<lambda>cbb.
         case parse_dotted_decimal (CBS_init text len) of
           (None, _) \<Rightarrow> (False, cbb)
         | (Some a, cbs) \<Rightarrow>
         (case parse_dotted_decimal cbs of
            (None, _) \<Rightarrow> (False, cbb)
          | (Some b, cbs) \<Rightarrow>
              if a > 2 \<or> (a < 2 \<and> b > 39) \<or> b > - 1 - 80 then (False, cbb)
              else and_then (add_base128_integer d (40 * a + b)) (oid_text_loop d cbs) cbb))"

text \<open>\<open>add_decimal\<close> and \<open>CBS_asn1_oid_to_text\<close> are in \<open>cbs.c\<close>; \<open>BIO_snprintf\<close> with a
  64-bit decimal format writes the decimal digits.\<close>

fun decimal_digits :: "nat \<Rightarrow> bytes" where
  "decimal_digits n =
     (if n < 10 then [of_nat (48 + n)] else decimal_digits (n div 10) @ [of_nat (48 + n mod 10)])"

declare decimal_digits.simps [simp del]

definition add_decimal :: "nat \<Rightarrow> u64 \<Rightarrow> cbb_st \<Rightarrow> bool \<times> cbb_st" where
  "add_decimal d v = CBB_add_bytes d (decimal_digits (unat v))"

lemma parse_base128_length: "parse_base128_loop v s = (r, s') \<Longrightarrow> s \<noteq> [] \<Longrightarrow> length s' < length s"
proof (induction v s rule: parse_base128_loop.induct)
  case (2 v b s)
  then show ?case by (cases s) (auto simp: Let_def split: if_splits)
qed simp

function oid_to_text_loop :: "cbs \<Rightarrow> cbb_st \<Rightarrow> bool \<times> cbb_st" where
  "oid_to_text_loop copy cbb =
     (if CBS_len copy = 0 then (True, cbb)
      else case parse_base128_integer copy of
             (None, _) \<Rightarrow> (False, cbb)
           | (Some v, copy') \<Rightarrow>
               (case and_then (CBB_add_u8 0 0x2e) (add_decimal 0 v) cbb of
                  (False, cbb) \<Rightarrow> (False, cbb)
                | (True, cbb) \<Rightarrow> oid_to_text_loop copy' cbb))"
  by pat_completeness auto

termination
  by (relation "measure (\<lambda>(cbs, cbb). length cbs)")
    (auto simp: parse_base128_integer_def CBS_len_def dest!: parse_base128_length [OF sym])

declare oid_to_text_loop.simps [simp del]

definition CBS_asn1_oid_to_text :: "(nat \<Rightarrow> bool) \<Rightarrow> (nat \<Rightarrow> u8) \<Rightarrow> cbs \<Rightarrow> bytes option" where
  "CBS_asn1_oid_to_text m f cbs =
     (case CBB_init m f 32 of
        (False, cbb) \<Rightarrow> None
      | (True, cbb) \<Rightarrow>
     (case parse_base128_integer cbs of
        (None, _) \<Rightarrow> None
      | (Some v, copy) \<Rightarrow>
     (case and_then
             (if v \<ge> 80 then and_then (CBB_add_bytes 0 [0x32, 0x2e]) (add_decimal 0 (v - 80))
              else and_then (add_decimal 0 (v div 40))
                     (and_then (CBB_add_u8 0 0x2e) (add_decimal 0 (v mod 40))))
             (and_then (oid_to_text_loop copy) (CBB_add_u8 0 0)) cbb of
        (False, cbb) \<Rightarrow> None
      | (True, cbb) \<Rightarrow> fst (CBB_finish 0 True cbb))))"

section \<open>SET OF\<close>

definition compare_set_of_element :: "cbs \<Rightarrow> cbs \<Rightarrow> int" where
  "compare_set_of_element a b =
     (let a_len = CBS_len a; b_len = CBS_len b;
          min_len = (if a_len < b_len then a_len else b_len);
          ret = OPENSSL_memcmp (CBS_data a) (CBS_data b) min_len
      in if ret \<noteq> 0 then ret
         else if a_len = b_len then 0
         else if a_len < b_len then -1 else 1)"

text \<open>The loop that parses the contents into elements.\<close>

function set_of_children :: "cbs \<Rightarrow> cbs list option" where
  "set_of_children cbs =
     (if CBS_len cbs = 0 then Some []
      else case CBS_get_any_asn1_element cbs of
             (None, _) \<Rightarrow> None
           | (Some (child, _, _), cbs') \<Rightarrow> map_option ((#) child) (set_of_children cbs'))"
  by pat_completeness auto

termination
  by (relation "measure length") (auto dest: any_element.consumes [OF sym])

declare set_of_children.simps [simp del]

fun add_all_bytes :: "nat \<Rightarrow> cbs list \<Rightarrow> cbb_st \<Rightarrow> bool \<times> cbb_st" where
  "add_all_bytes d [] = Pair True"
| "add_all_bytes d (c # cs) = and_then (CBB_add_bytes d (CBS_data c)) (add_all_bytes d cs)"

text \<open>A \<open>CBS\<close> takes 16 bytes.\<close>

definition set_of_sort :: "nat \<Rightarrow> cbb_st \<Rightarrow> bool \<times> cbb_st" where
  "set_of_sort d cbb =
     (case set_of_children (CBB_data d cbb) of
        None \<Rightarrow> (False, cbb)
      | Some children \<Rightarrow>
          if length children < 2 then (True, cbb)
          else if length children > (size_limit - 1) div 16 then (False, cbb)
          else
            case base cbb of
              None \<Rightarrow> (False, cbb)
            | Some b \<Rightarrow>
                if OPENSSL_memdup (malloc b) (CBB_data d cbb) (CBB_len d cbb) = None
                   \<or> OPENSSL_malloc (malloc b) (length children * 16) = None
                then (False, cbb)
                else add_all_bytes d (qsort compare_set_of_element children)
                       (cbb\<lparr>base := Some (b\<lparr>buf := take (contents_start d cbb) (buf b)\<rparr>)\<rparr>))"

definition CBB_flush_asn1_set_of :: "nat \<Rightarrow> cbb_st \<Rightarrow> bool \<times> cbb_st" where
  "CBB_flush_asn1_set_of d = and_then (CBB_flush d) (set_of_sort d)"

end
