(* ===== verification/CBB_Refine.thy ===== *)
theory CBB_Refine
  imports CBB
begin

text \<open>
  What the builder of \<open>crypto/bytestring/cbb.c\<close> promises. The abstract state is the list of
  open frames, each with the kind of its length prefix and the contents it has so far; an
  abstract operation seals the frames inside the one it works on, then changes its contents.
  The locale \<open>cbb_operation\<close> states that a C operation implements an abstract one: when it
  succeeds the new buffer and chain represent the abstract result, and it succeeds whenever
  the abstract operation is defined and there is room. Every operation is shown to meet the
  contract; the round trips with the reader follow from it.
\<close>

unbundle bit_operations_syntax

section \<open>The buffer\<close>

definition wf_buffer :: "cbb_buffer_st \<Rightarrow> bool" where
  "wf_buffer b \<longleftrightarrow> base_len b \<le> cap b \<and> cap b < size_limit"

text \<open>\<open>grows_to b r b'\<close>: \<open>b'\<close> is \<open>b\<close> with the valid bytes \<open>r\<close>, and perhaps more capacity.\<close>

definition grows_to :: "cbb_buffer_st \<Rightarrow> bytes \<Rightarrow> cbb_buffer_st \<Rightarrow> bool" where
  "grows_to b r b' \<longleftrightarrow> buf b' = r \<and> wf_buffer b' \<and> error b' = error b \<and> can_resize b' = can_resize b
     \<and> malloc b' = malloc b \<and> fresh b' = fresh b \<and> cap b \<le> cap b' \<and> (\<not> can_resize b \<longrightarrow> cap b' = cap b)"

text \<open>There is room for \<open>n\<close> valid bytes: they fit, or the buffer may grow and memory is not
  exhausted.\<close>

definition fits :: "cbb_buffer_st \<Rightarrow> nat \<Rightarrow> bool" where
  "fits b n \<longleftrightarrow> n < size_limit \<and> (n \<le> cap b \<or> can_resize b \<and> (\<forall>m. malloc b m))"

lemma grows_to_refl: "wf_buffer b \<Longrightarrow> grows_to b (buf b) b"
  by (simp add: grows_to_def)

lemma grows_to_trans: "grows_to b r b1 \<Longrightarrow> grows_to b1 r' b2 \<Longrightarrow> grows_to b r' b2"
  by (auto simp: grows_to_def)

lemma grows_to_wf: "grows_to b r b' \<Longrightarrow> wf_buffer b'"
  and grows_to_buf: "grows_to b r b' \<Longrightarrow> buf b' = r"
  and grows_to_error: "grows_to b r b' \<Longrightarrow> error b' = error b"
  by (simp_all add: grows_to_def)

lemma grows_to_len: "grows_to b r b' \<Longrightarrow> length r < size_limit"
  by (auto simp: grows_to_def wf_buffer_def)

lemma fits_mono: "fits b n \<Longrightarrow> m \<le> n \<Longrightarrow> fits b m"
  by (auto simp: fits_def)

lemma fits_grows: "grows_to b r b' \<Longrightarrow> fits b n \<Longrightarrow> fits b' n"
  by (auto simp: grows_to_def fits_def)

lemma reserve_ok:
  assumes "cbb_buffer_reserve b n = (True, b')" and "wf_buffer b" and "n < size_limit"
  shows "grows_to b (buf b) b' \<and> base_len b + n \<le> cap b'"
proof -
  have len: "base_len b < size_limit" using assms(2) by (simp add: wf_buffer_def)
  have nl: "\<not> size_add (base_len b) n < base_len b"
    using assms(1) by (auto simp: cbb_buffer_reserve_def Let_def cbb_buffer_fail_def)
  then have lt: "base_len b + n < size_limit"
    using size_add_overflow [OF len assms(3)] by simp
  have m: "size_mul a c < size_limit" for a c by (simp add: size_mul_def)
  show ?thesis
    using assms(1,2) lt m [of "cap b" 2]
    by (auto simp: cbb_buffer_reserve_def Let_def cbb_buffer_fail_def size_add_exact grows_to_def
        wf_buffer_def split: if_splits)
qed

lemma reserve_fits:
  assumes "fits b (base_len b + n)"
  shows "fst (cbb_buffer_reserve b n)"
  using assms
  by (auto simp: cbb_buffer_reserve_def Let_def size_add_exact fits_def OPENSSL_malloc_def
      cbb_buffer_fail_def)

lemma reserve_fail: "cbb_buffer_reserve b n = (False, b') \<Longrightarrow> b' = b\<lparr>error := True\<rparr>"
  by (auto simp: cbb_buffer_reserve_def Let_def cbb_buffer_fail_def split: if_splits)

lemma mem_write_end: "length e = length d \<Longrightarrow> mem_write (x @ e) (length x) d = x @ d"
  by (simp add: mem_write_def)

lemma mem_write_mid: "length e = length d \<Longrightarrow> mem_write (x @ e @ y) (length x) d = x @ d @ y"
  by (simp add: mem_write_def)

lemma add_ok:
  assumes "cbb_buffer_add b n = (True, b')" and "wf_buffer b" and "n < size_limit"
  shows "\<exists>d. length d = n \<and> grows_to b (buf b @ d) b'"
proof -
  from assms(1) obtain b1 where r: "cbb_buffer_reserve b n = (True, b1)"
    and b': "b' = b1\<lparr>buf := buf b1 @ map (fresh b1) [base_len b1..<base_len b1 + n]\<rparr>"
    by (auto simp: cbb_buffer_add_def split: prod.splits bool.splits)
  from reserve_ok [OF r assms(2,3)] show ?thesis
    unfolding b' by (intro exI [of _ "map (fresh b1) [base_len b1..<base_len b1 + n]"])
      (auto simp: grows_to_def wf_buffer_def)
qed

lemma add_fits: "fits b (base_len b + n) \<Longrightarrow> fst (cbb_buffer_add b n)"
  using reserve_fits [of b n] by (auto simp: cbb_buffer_add_def split: prod.splits bool.splits)

lemma add_fail: "cbb_buffer_add b n = (False, b') \<Longrightarrow> b' = b\<lparr>error := True\<rparr>"
  by (auto simp: cbb_buffer_add_def dest: reserve_fail split: prod.splits bool.splits)

lemma add_write_ok:
  assumes "cbb_buffer_add_write b d = (True, b')" and "wf_buffer b" and "length d < size_limit"
  shows "grows_to b (buf b @ d) b'"
proof -
  from assms(1) obtain b1 where a: "cbb_buffer_add b (length d) = (True, b1)"
    and b': "b' = b1\<lparr>buf := mem_write (buf b1) (base_len b) d\<rparr>"
    by (auto simp: cbb_buffer_add_write_def Let_def split: prod.splits bool.splits)
  from add_ok [OF a assms(2,3)] obtain e where "length e = length d" "grows_to b (buf b @ e) b1" by blast
  then show ?thesis
    unfolding b' by (auto simp: grows_to_def wf_buffer_def mem_write_end)
qed

lemma add_write_fits: "fits b (base_len b + length d) \<Longrightarrow> fst (cbb_buffer_add_write b d)"
  using add_fits [of b "length d"] by (auto simp: cbb_buffer_add_write_def Let_def split: prod.splits bool.splits)

lemma add_write_fail: "cbb_buffer_add_write b d = (False, b') \<Longrightarrow> b' = b\<lparr>error := True\<rparr>"
  by (auto simp: cbb_buffer_add_write_def Let_def dest: add_fail split: prod.splits bool.splits)

lemma put_be_loop_eq: "put_be_loop n v acc = (be_bytes n (unat v) @ acc, drop_bit (8 * n) v)"
proof (induction n arbitrary: v acc)
  case (Suc n)
  have "(ucast v :: u8) = of_nat (unat v)"
    by (simp add: word_unat_eq_iff unat_of_nat unsigned_ucast_eq)
  moreover have "unat (drop_bit 8 v) = unat v div 256"
    unfolding unat_drop_bit_eq by (simp add: drop_bit_eq_div)
  ultimately show ?case using Suc by (simp add: drop_bit_drop_bit algebra_simps)
qed simp

lemma put_be_loop_value:
  "put_be_loop n v acc = (d, r) \<Longrightarrow> d = be_bytes n (unat v) @ acc \<and> (r = 0 \<longleftrightarrow> unat v < 256 ^ n)"
  by (auto simp: put_be_loop_eq drop_bit_eq_0_iff power_mult)

lemma add_u_ok:
  assumes "cbb_buffer_add_u b v n = (True, b')" and "wf_buffer b" and "0 < n" and "n \<le> 8"
  shows "grows_to b (buf b @ be_bytes n (unat v)) b' \<and> unat v < 256 ^ n"
proof -
  obtain d r where p: "put_be_loop n v [] = (d, r)" by (cases "put_be_loop n v []")
  then have d: "d = be_bytes n (unat v)" "(r = 0) = (unat v < 256 ^ n)"
    by (auto dest: put_be_loop_value)
  from assms(1) p \<open>0 < n\<close> have "cbb_buffer_add_write b d = (True, b')" "r = 0"
    by (auto simp: cbb_buffer_add_u_def cbb_buffer_fail_def split: prod.splits bool.splits if_splits)
  with d assms(2,4) add_write_ok [of b d b'] show ?thesis by simp
qed

lemma add_u_fits:
  assumes "fits b (base_len b + n)" and "unat v < 256 ^ n"
  shows "fst (cbb_buffer_add_u b v n)"
proof -
  obtain d r where p: "put_be_loop n v [] = (d, r)" by (cases "put_be_loop n v []")
  then have "d = be_bytes n (unat v)" "r = 0"
    using assms(2) by (auto dest: put_be_loop_value)
  with p assms add_write_fits [of b d] show ?thesis
    by (auto simp: cbb_buffer_add_u_def split: prod.splits bool.splits)
qed

lemma add_u_fail: "cbb_buffer_add_u b v n = (False, b') \<Longrightarrow> error b'"
  by (auto simp: cbb_buffer_add_u_def cbb_buffer_fail_def dest!: add_write_fail
      split: prod.splits bool.splits if_splits)

section \<open>Frames\<close>

text \<open>
  The abstract state: the open frames, from the top-level one to the innermost, each with the
  kind of its length prefix and the contents it has so far. \<open>seal\<close> is what a finished frame
  contributes to the one around it.
\<close>

datatype prefix = Fixed nat | Asn1

type_synonym frames = "(prefix \<times> bytes) list"

fun plen :: "prefix \<Rightarrow> nat" where
  "plen (Fixed n) = n"
| "plen Asn1 = 1"

fun seal :: "prefix \<Rightarrow> bytes \<Rightarrow> bytes option" where
  "seal (Fixed n) c = (if length c < 256 ^ n then Some (be_bytes n (length c) @ c) else None)"
| "seal Asn1 c = (if length c \<le> 0xfffffffe then Some (der_length (length c) @ c) else None)"

text \<open>\<open>flat c fs\<close>: the contents \<open>c\<close> of a frame once the frames \<open>fs\<close> inside it are sealed.\<close>

fun flat :: "bytes \<Rightarrow> frames \<Rightarrow> bytes option" where
  "flat c [] = Some c"
| "flat c ((k, d) # fs) =
     (case flat d fs of
        None \<Rightarrow> None
      | Some d' \<Rightarrow> (case seal k d' of None \<Rightarrow> None | Some e \<Rightarrow> Some (c @ e)))"

text \<open>How the frames lie in the buffer, prefixes still blank, and the chain of \<open>CBB\<close>s.\<close>

fun layout :: "frames \<Rightarrow> bytes" where
  "layout [] = []"
| "layout ((k, c) # fs) = replicate (plen k) 0 @ c @ layout fs"

fun children_of :: "nat \<Rightarrow> frames \<Rightarrow> cbb_child list" where
  "children_of n [] = []"
| "children_of n ((k, c) # fs) =
     \<lparr>offset = n, pending_len_len = plen k, pending_is_asn1 = (k = Asn1)\<rparr>
       # children_of (n + plen k + length c) fs"

definition child_frames :: "frames \<Rightarrow> bool" where
  "child_frames fs \<longleftrightarrow> list_all (\<lambda>(k, c). 1 \<le> plen k \<and> plen k \<le> 8) fs"

lemma child_frames_simps [simp]:
  "child_frames []"
  "child_frames ((k, c) # fs) \<longleftrightarrow> 1 \<le> plen k \<and> plen k \<le> 8 \<and> child_frames fs"
  "child_frames (xs @ ys) \<longleftrightarrow> child_frames xs \<and> child_frames ys"
  by (auto simp: child_frames_def)

lemma length_seal: "seal k c = Some e \<Longrightarrow> plen k + length c \<le> length e"
  by (cases k) (auto simp: der_length_def split: if_splits)

lemma length_flat: "flat c fs = Some c' \<Longrightarrow> length c + length (layout fs) \<le> length c'"
proof (induction c fs arbitrary: c' rule: flat.induct)
  case (2 c k d fs)
  then obtain d' e where "flat d fs = Some d'" "seal k d' = Some e" "c' = c @ e"
    by (auto split: option.splits)
  with 2(1) [of d'] length_seal [of k d' e] show ?case by simp
qed simp

lemma length_children_of [simp]: "length (children_of n fs) = length fs"
  by (induction n fs rule: children_of.induct) simp_all

lemma layout_append: "layout (xs @ ys) = layout xs @ layout ys"
  by (induction xs rule: layout.induct) simp_all

lemma children_of_append:
  "children_of n (xs @ ys) = children_of n xs @ children_of (n + length (layout xs)) ys"
  by (induction n xs rule: children_of.induct) (simp_all add: add.assoc)

section \<open>Closing a child\<close>

lemma asn1_len_len_der:
  assumes "asn1_len_len n = Some (l, b)"
  shows "1 \<le> l \<and> l \<le> 5 \<and> n \<le> 0xfffffffe
    \<and> der_length n = b # be_bytes (l - 1) (if l = 1 then 0 else n) \<and> (l \<noteq> 1 \<longrightarrow> n < 256 ^ (l - 1))"
  using assms unfolding asn1_len_len_def
  by (auto simp: der_length_def len_bytes_def split: if_splits)

lemma asn1_len_len_None: "asn1_len_len n = None \<longleftrightarrow> n > 0xfffffffe"
  by (simp add: asn1_len_len_def)

lemma write_prefix_ok:
  assumes "cbb_write_prefix b (length p) n len = (ok, b')" and "buf b = p @ e @ y" and "length e = n"
    and "len < size_limit" and "wf_buffer b"
  shows "if ok then len < 256 ^ n \<and> grows_to b (p @ be_bytes n len @ y) b' else \<not> len < 256 ^ n \<and> error b'"
proof -
  obtain d r where l: "put_be_loop n (of_nat len) [] = (d, r)" by (cases "put_be_loop n (of_nat len) []")
  have "unat (of_nat len :: u64) = len" using assms(4) by (simp add: unat_of_nat_less)
  with put_be_loop_value [OF l] have d: "d = be_bytes n len" "(r = 0) = (len < 256 ^ n)" by simp_all
  show ?thesis
    using assms l unfolding cbb_write_prefix_def d
    by (auto simp: Let_def cbb_buffer_fail_def mem_write_mid grows_to_def wf_buffer_def d(2)
        split: if_splits)
qed

lemma memmove_right:
  assumes "length e = n" and "length p = a"
  shows "OPENSSL_memmove (p @ y @ e) (a + n) a (length y) = p @ take n (y @ e) @ y"
  using assms by (simp add: OPENSSL_memmove_def mem_write_def)

lemma close_child:
  assumes r: "cbb_close_child b \<lparr>offset = length p, pending_len_len = plen k, pending_is_asn1 = (k = Asn1)\<rparr>
      = (ok, b')"
    and b: "buf b = p @ replicate (plen k) 0 @ y" and wf: "wf_buffer b" and k: "plen k \<le> 8"
  shows "(ok \<longrightarrow> (\<exists>e. seal k y = Some e \<and> grows_to b (p @ e) b'))
    \<and> (\<forall>e. seal k y = Some e \<and> fits b (length p + length e) \<longrightarrow> ok) \<and> (\<not> ok \<longrightarrow> error b')"
proof -
  have lt: "base_len b < size_limit" using wf by (simp add: wf_buffer_def)
  then have cs: "size_add (length p) (plen k) = length p + plen k"
    using b by (simp add: size_add_exact)
  have len: "base_len b - (length p + plen k) = length y" "\<not> base_len b < length p + plen k"
    using b by simp_all
  have ylt: "length y < size_limit" using lt b by simp
  note r1 = r [unfolded cbb_close_child_def cbb_child.simps cs Let_def len]
  show ?thesis
  proof (cases k)
    case (Fixed n)
    with r1 len have "cbb_write_prefix b (length p) n (length y) = (ok, b')" by simp
    from write_prefix_ok [OF this _ _ ylt wf, of "replicate n 0" y] Fixed b show ?thesis
      by (auto split: if_splits)
  next
    case Asn1
    show ?thesis
    proof (cases "asn1_len_len (length y)")
      case None
      with r1 len Asn1 have "cbb_buffer_fail b = (ok, b')" by simp
      moreover have "length y > 0xfffffffe" using None by (simp add: asn1_len_len_None)
      ultimately show ?thesis using Asn1 by (auto simp: cbb_buffer_fail_def)
    next
      case (Some lb)
      obtain l i where lb: "lb = (l, i)" by (cases lb)
      note a = asn1_len_len_der [OF Some [unfolded lb]]
      have sy: "seal Asn1 y = Some (der_length (length y) @ y)" using a by simp
      let ?v = "if l = 1 then 0 else length y"
      have final: "grows_to b (p @ der_length (length y) @ y) b' \<and> ok"
        if f: "cbb_write_prefix (b1\<lparr>buf := mem_write (buf b1) (length p) [i]\<rparr>)
           (length p + 1) (l - 1) ?v = (ok, b')"
          and b1: "grows_to b (p @ [x] @ e @ y) b1" and e: "length e = l - 1" for b1 x e
      proof -
        let ?b2 = "b1\<lparr>buf := mem_write (buf b1) (length p) [i]\<rparr>"
        have g: "grows_to b ((p @ [i]) @ e @ y) ?b2"
          using b1 by (auto simp: grows_to_def wf_buffer_def mem_write_mid [of "[x]" "[i]" p, simplified])
        then have b2: "buf ?b2 = (p @ [i]) @ e @ y" "wf_buffer ?b2"
          by (rule grows_to_buf, rule grows_to_wf)
        have "cbb_write_prefix ?b2 (length (p @ [i])) (l - 1) ?v = (ok, b')" using f by simp
        moreover have "?v < size_limit" using ylt by simp
        ultimately have *: "if ok then ?v < 256 ^ (l - 1) \<and> grows_to ?b2 ((p @ [i]) @ be_bytes (l - 1) ?v @ y) b'
          else \<not> ?v < 256 ^ (l - 1) \<and> error b'"
          using write_prefix_ok [OF _ b2(1) e _ b2(2)] by blast
        have "?v < 256 ^ (l - 1)" using a by auto
        with * have ok and "grows_to ?b2 ((p @ [i]) @ be_bytes (l - 1) ?v @ y) b'" by (auto split: if_splits)
        then show ?thesis using grows_to_trans [OF g] a by simp
      qed
      show ?thesis
      proof (cases "l = 1")
        case True
        have "grows_to b (p @ [0] @ [] @ y) b" using b wf Asn1 grows_to_refl [OF wf] by simp
        then have "grows_to b (p @ der_length (length y) @ y) b' \<and> ok"
          using r1 len Asn1 Some lb True by (intro final [of b 0 "[]"]) (simp_all add: )
        with sy Asn1 show ?thesis by auto
      next
        case False
        obtain add b1 where ad: "cbb_buffer_add b (l - 1) = (add, b1)" by (cases "cbb_buffer_add b (l - 1)")
        show ?thesis
        proof (cases add)
          case add: False
          have r2: "(ok, b') = cbb_buffer_fail b1"
            using r1 len Asn1 Some lb False ad add by simp
          have "\<not> fits b (base_len b + (l - 1))" using add_fits [of b "l - 1"] ad add by auto
          moreover have "base_len b + (l - 1) = length p + length (der_length (length y) @ y)"
            using b Asn1 a by simp
          ultimately show ?thesis using r2 sy Asn1 by (auto simp: cbb_buffer_fail_def)
        next
          case True
          have "l - 1 \<le> 4" using a by auto
          then have "l - 1 < size_limit" by simp
          then obtain e where e: "length e = l - 1" "grows_to b (buf b @ e) b1"
            using add_ok [OF _ wf, of "l - 1" b1] ad True by auto
          have b1: "buf b1 = (p @ [0]) @ y @ e" using grows_to_buf [OF e(2)] b Asn1 by simp
          let ?b1 = "b1\<lparr>buf := OPENSSL_memmove (buf b1) (length p + 1 + (l - 1)) (length p + 1) (length y)\<rparr>"
          have "OPENSSL_memmove (buf b1) (length p + 1 + (l - 1)) (length p + 1) (length y)
              = p @ [0] @ take (l - 1) (y @ e) @ y"
            unfolding b1 using memmove_right [OF e(1), of "p @ [0]" "length p + 1" y] by simp
          then have "grows_to b (p @ [0] @ take (l - 1) (y @ e) @ y) ?b1"
            using e b Asn1 by (auto simp: grows_to_def wf_buffer_def)
          then have "grows_to b (p @ der_length (length y) @ y) b' \<and> ok"
            using r1 len Asn1 Some lb False ad True e(1)
            by (intro final [of ?b1 0 "take (l - 1) (y @ e)"]) simp_all
          with sy Asn1 show ?thesis by auto
        qed
      qed
    qed
  qed
qed

lemma flush_chain:
  assumes "cbb_flush_chain b (children_of (length p + length c) fs) = (ok, b', cs)"
    and "buf b = p @ c @ layout fs" and "wf_buffer b" and "\<not> error b" and "child_frames fs"
  shows "(ok \<longrightarrow> cs = [] \<and> (\<exists>r. flat c fs = Some r \<and> grows_to b (p @ r) b'))
    \<and> (\<forall>r. flat c fs = Some r \<and> fits b (length p + length r) \<longrightarrow> ok) \<and> (\<not> ok \<longrightarrow> error b')"
  using assms
proof (induction c fs arbitrary: p ok b' cs rule: flat.induct)
  case (1 c)
  then show ?case using grows_to_refl [of b] by auto
next
  case (2 c k d fs)
  let ?p = "(p @ c) @ replicate (plen k) 0"
  let ?c = "\<lparr>offset = length (p @ c), pending_len_len = plen k, pending_is_asn1 = (k = Asn1)\<rparr>"
  obtain ok1 b1 cs1 where f: "cbb_flush_chain b (children_of (length ?p + length d) fs) = (ok1, b1, cs1)"
    by (cases "cbb_flush_chain b (children_of (length ?p + length d) fs)")
  have IH: "(ok1 \<longrightarrow> cs1 = [] \<and> (\<exists>r. flat d fs = Some r \<and> grows_to b (?p @ r) b1))
    \<and> (\<forall>r. flat d fs = Some r \<and> fits b (length ?p + length r) \<longrightarrow> ok1) \<and> (\<not> ok1 \<longrightarrow> error b1)"
    using 2(3-6) by (intro 2(1) [OF f]) simp_all
  have k: "plen k \<noteq> 0" "plen k \<le> 8" using 2(6) by simp_all
  have r: "(ok, b', cs) = (case (ok1, b1, cs1) of
          (False, b, cs) \<Rightarrow> (False, b\<lparr>error := True\<rparr>, ?c # cs)
        | (True, b, cs) \<Rightarrow>
            (case cbb_close_child b ?c of
               (False, b) \<Rightarrow> (False, b, ?c # cs)
             | (True, b) \<Rightarrow> (True, b, [])))"
    using 2(2) 2(5) k f
    by (cases ok1) (simp_all only: cbb_flush_chain.simps children_of.simps cbb_child.simps length_append
        length_replicate add.assoc prod.case bool.case if_False if_True simp_thms)
  show ?case
  proof (cases ok1)
    case False
    with r have "\<not> ok" "error b'" by simp_all
    moreover have False if "flat c ((k, d) # fs) = Some r" "fits b (length p + length r)" for r
    proof -
      from that obtain d' e where "flat d fs = Some d'" "seal k d' = Some e" "r = c @ e"
        by (auto split: option.splits)
      moreover from this that(2) have "fits b (length ?p + length d')"
        using length_seal [of k d' e] by (auto elim: fits_mono)
      ultimately show False using IH False by blast
    qed
    ultimately show ?thesis by auto
  next
    case True
    with IH obtain d' where d': "flat d fs = Some d'" "grows_to b (?p @ d') b1" "cs1 = []" by blast
    obtain ok2 b2 where c: "cbb_close_child b1 ?c = (ok2, b2)" by (cases "cbb_close_child b1 ?c")
    have "buf b1 = (p @ c) @ replicate (plen k) 0 @ d'" using grows_to_buf [OF d'(2)] by simp
    from close_child [OF c this grows_to_wf [OF d'(2)] k(2)]
    have cl: "(ok2 \<longrightarrow> (\<exists>e. seal k d' = Some e \<and> grows_to b1 ((p @ c) @ e) b2))
      \<and> (\<forall>e. seal k d' = Some e \<and> fits b1 (length (p @ c) + length e) \<longrightarrow> ok2) \<and> (\<not> ok2 \<longrightarrow> error b2)" .
    have o: "ok = ok2" "b' = b2" "ok \<longrightarrow> cs = []" using r True c by (auto split: bool.splits)
    show ?thesis
    proof (intro conjI impI allI)
      assume ok
      with o show "cs = []" by simp
      from cl o \<open>ok\<close> obtain e where "seal k d' = Some e" "grows_to b1 ((p @ c) @ e) b2" by blast
      with d' o show "\<exists>r. flat c ((k, d) # fs) = Some r \<and> grows_to b (p @ r) b'"
        by (auto intro: grows_to_trans)
    next
      fix r assume "flat c ((k, d) # fs) = Some r \<and> fits b (length p + length r)"
      then obtain e where "seal k d' = Some e" "fits b (length (p @ c) + length e)"
        using d'(1) by (auto split: option.splits simp: add.assoc)
      with cl o show ok using fits_grows [OF d'(2)] by blast
    next
      assume "\<not> ok"
      with cl o show "error b'" by blast
    qed
  qed
qed

section \<open>States and frames\<close>

definition wf_frames :: "frames \<Rightarrow> bool" where
  "wf_frames fs \<longleftrightarrow> fs \<noteq> [] \<and> fst (hd fs) = Fixed 0 \<and> child_frames (tl fs)"

definition represents :: "cbb_st \<Rightarrow> frames \<Rightarrow> bool" where
  "represents st fs \<longleftrightarrow>
     (case base st of
        None \<Rightarrow> False
      | Some b \<Rightarrow> \<not> error b \<and> wf_buffer b \<and> wf_frames fs \<and> buf b = layout fs
          \<and> chain st = tl (children_of 0 fs))"

definition env_kept :: "cbb_st \<Rightarrow> cbb_st \<Rightarrow> bool" where
  "env_kept st st' \<longleftrightarrow>
     (case (base st, base st') of (Some b, Some b') \<Rightarrow> grows_to b (buf b') b' | _ \<Rightarrow> False)"

definition room :: "cbb_st \<Rightarrow> nat \<Rightarrow> bool" where
  "room st n \<longleftrightarrow> (case base st of None \<Rightarrow> False | Some b \<Rightarrow> fits b n)"

text \<open>The operations on frames: seal the frames inside the one at depth \<open>d\<close>, then change its
  contents and perhaps open a new one in it.\<close>

definition edit :: "nat \<Rightarrow> (bytes \<Rightarrow> (bytes \<times> frames) option) \<Rightarrow> frames \<Rightarrow> frames option" where
  "edit d f fs =
     (if d < length fs then
        (case flat (snd (fs ! d)) (drop (Suc d) fs) of
           None \<Rightarrow> None
         | Some c \<Rightarrow>
             (case f c of
                None \<Rightarrow> None
              | Some (c', new) \<Rightarrow> Some (take d fs @ (fst (fs ! d), c') # new)))
      else None)"

definition spec_append :: "nat \<Rightarrow> bytes \<Rightarrow> frames \<Rightarrow> frames option" where
  "spec_append d data = edit d (\<lambda>c. Some (c @ data, []))"

definition spec_open :: "nat \<Rightarrow> bytes \<Rightarrow> prefix \<Rightarrow> frames \<Rightarrow> frames option" where
  "spec_open d data k = edit d (\<lambda>c. Some (c @ data, [(k, [])]))"

definition spec_seq ::
    "(frames \<Rightarrow> frames option) \<Rightarrow> (frames \<Rightarrow> frames option) \<Rightarrow> frames \<Rightarrow> frames option" where
  "spec_seq s t fs = (case s fs of None \<Rightarrow> None | Some fs' \<Rightarrow> t fs')"

lemma wf_frames_split:
  "wf_frames (xs @ (k, c) # ys) \<longleftrightarrow>
     (if xs = [] then k = Fixed 0 else wf_frames xs \<and> 1 \<le> plen k \<and> plen k \<le> 8) \<and> child_frames ys"
  by (cases xs) (auto simp: wf_frames_def)

lemma frame_split:
  assumes "d < length fs"
  obtains xs k c ys where "fs = xs @ (k, c) # ys" and "length xs = d"
  using assms by (metis id_take_nth_drop length_take min.absorb4 prod.exhaust_sel)

lemma edit_split:
  "length xs = d \<Longrightarrow> edit d f (xs @ (k, c) # ys) =
     (case flat c ys of None \<Rightarrow> None | Some c' \<Rightarrow>
        (case f c' of None \<Rightarrow> None | Some (c'', new) \<Rightarrow> Some (xs @ (k, c'') # new)))"
  by (auto simp: edit_def nth_append split: option.splits)

lemma spec_append_append:
  "spec_seq (spec_append d a) (spec_append d b) = spec_append d (a @ b)"
proof
  fix fs show "spec_seq (spec_append d a) (spec_append d b) fs = spec_append d (a @ b) fs"
  proof (cases "d < length fs")
    case True
    then obtain xs k c ys where "fs = xs @ (k, c) # ys" "length xs = d" by (rule frame_split)
    then show ?thesis
      by (auto simp: spec_seq_def spec_append_def edit_split split: option.splits)
  qed (simp add: spec_seq_def spec_append_def edit_def)
qed

lemma spec_append_open:
  "spec_seq (spec_append d a) (spec_open d b k) = spec_open d (a @ b) k"
proof
  fix fs show "spec_seq (spec_append d a) (spec_open d b k) fs = spec_open d (a @ b) k fs"
  proof (cases "d < length fs")
    case True
    then obtain xs k c ys where "fs = xs @ (k, c) # ys" "length xs = d" by (rule frame_split)
    then show ?thesis
      by (auto simp: spec_seq_def spec_append_def spec_open_def edit_split split: option.splits)
  qed (simp add: spec_seq_def spec_append_def spec_open_def edit_def)
qed

lemma spec_seq_assoc: "spec_seq (spec_seq s t) u = spec_seq s (spec_seq t u)"
  by (auto simp: spec_seq_def split: option.splits)

lemma spec_seq_Some [simp]: "spec_seq s Some = s" "spec_seq Some s = s"
  by (auto simp: spec_seq_def split: option.splits)

text \<open>Opening a frame, filling it and sealing it appends the sealed contents.\<close>

lemma spec_open_fill_close:
  assumes "seal k data = Some e"
  shows "spec_seq (spec_open d a k) (spec_seq (spec_append (Suc d) data) (spec_append d [])) =
    spec_append d (a @ e)"
proof
  fix fs show "spec_seq (spec_open d a k) (spec_seq (spec_append (Suc d) data) (spec_append d [])) fs =
    spec_append d (a @ e) fs"
  proof (cases "d < length fs")
    case True
    then obtain xs k' c ys where fs: "fs = xs @ (k', c) # ys" "length xs = d" by (rule frame_split)
    have e1: "edit (Suc d) f (xs @ (k', c') # ys') = edit (Suc d) f ((xs @ [(k', c')]) @ ys')" for c' ys' f
      by simp
    have e2: "edit (length xs) f ((xs @ [(k', c')]) @ [z]) = edit (length xs) f (xs @ (k', c') # [z])" for c' z f
      by simp
    from fs assms show ?thesis
      by (auto simp: spec_seq_def spec_append_def spec_open_def edit_split e1 e2 split: option.splits
          simp del: append_assoc)
  qed (simp add: spec_seq_def spec_append_def spec_open_def edit_def)
qed

section \<open>The contract of a builder operation\<close>

locale cbb_operation =
  fixes run :: "cbb_st \<Rightarrow> bool \<times> cbb_st" and spec :: "frames \<Rightarrow> frames option"
  assumes sound: "represents st fs \<Longrightarrow> run st = (True, st') \<Longrightarrow>
      \<exists>fs'. spec fs = Some fs' \<and> represents st' fs' \<and> env_kept st st'"
    and complete: "represents st fs \<Longrightarrow> spec fs = Some fs' \<Longrightarrow> room st (length (layout fs')) \<Longrightarrow>
      fst (run st)"
    and monotone: "spec fs = Some fs' \<Longrightarrow> length (layout fs) \<le> length (layout fs')"
begin

lemma runs:
  assumes "represents st fs" and "spec fs = Some fs'" and "room st (length (layout fs'))"
  obtains st' where "run st = (True, st')" and "represents st' fs'" and "env_kept st st'"
proof -
  obtain st' where r: "run st = (True, st')"
    using complete [OF assms] by (cases "run st") auto
  from sound [OF assms(1) this] assms(2) show thesis by (auto intro: that [OF r])
qed

lemma refuses: "represents st fs \<Longrightarrow> spec fs = None \<Longrightarrow> \<not> fst (run st)"
  using sound by (cases "run st") (auto, metis option.distinct(1))

end

named_theorems cbb_intros

lemma env_kept_trans: "env_kept st st1 \<Longrightarrow> env_kept st1 st2 \<Longrightarrow> env_kept st st2"
  by (auto simp: env_kept_def split: option.splits intro: grows_to_trans)

lemma env_kept_refl: "represents st fs \<Longrightarrow> env_kept st st"
  by (auto simp: env_kept_def represents_def grows_to_def split: option.splits)

lemma room_kept: "env_kept st st' \<Longrightarrow> room st n \<Longrightarrow> room st' n"
  by (auto simp: env_kept_def room_def split: option.splits intro: fits_grows)

lemma room_mono: "room st n \<Longrightarrow> m \<le> n \<Longrightarrow> room st m"
  by (auto simp: room_def split: option.splits intro: fits_mono)

lemma operation_return [cbb_intros]: "cbb_operation (Pair True) Some"
  by unfold_locales (auto intro: env_kept_refl)

lemma operation_and_then [cbb_intros]:
  assumes f: "cbb_operation f s" and g: "cbb_operation g t"
  shows "cbb_operation (and_then f g) (spec_seq s t)"
proof
  show "\<exists>fs'. spec_seq s t fs = Some fs' \<and> represents st' fs' \<and> env_kept st st'"
    if "represents st fs" "and_then f g st = (True, st')" for st fs st'
  proof -
    from that(2) obtain st1 where "f st = (True, st1)" "g st1 = (True, st')"
      by (auto simp: and_then_def split: prod.splits bool.splits)
    with cbb_operation.sound [OF f that(1)] cbb_operation.sound [OF g] show ?thesis
      by (fastforce simp: spec_seq_def intro: env_kept_trans)
  qed
  show "fst (and_then f g st)"
    if r: "represents st fs" and sp: "spec_seq s t fs = Some fs'" and rm: "room st (length (layout fs'))"
    for st fs fs'
  proof -
    from sp obtain fs1 where fs1: "s fs = Some fs1" "t fs1 = Some fs'"
      by (auto simp: spec_seq_def split: option.splits)
    then have "room st (length (layout fs1))"
      using rm cbb_operation.monotone [OF g] by (blast intro: room_mono)
    then obtain st1 where "f st = (True, st1)" "represents st1 fs1" "env_kept st st1"
      using cbb_operation.runs [OF f r fs1(1)] by blast
    moreover from this rm have "room st1 (length (layout fs'))" by (blast intro: room_kept)
    ultimately show ?thesis
      using cbb_operation.complete [OF g _ fs1(2), of st1] by (simp add: and_then_def)
  qed
  show "length (layout fs) \<le> length (layout fs')" if "spec_seq s t fs = Some fs'" for fs fs'
    using that cbb_operation.monotone [OF f] cbb_operation.monotone [OF g]
    by (fastforce simp: spec_seq_def split: option.splits intro: le_trans)
qed

lemma length_edit:
  assumes "edit d f fs = Some fs'" and "\<And>c c' new. f c = Some (c', new) \<Longrightarrow> length c \<le> length c'"
  shows "length (layout fs) \<le> length (layout fs')"
proof -
  have "d < length fs" using assms(1) by (auto simp: edit_def split: if_splits)
  then obtain xs k c ys where fs: "fs = xs @ (k, c) # ys" "length xs = d" by (rule frame_split)
  with assms(1) obtain c1 c2 new where "flat c ys = Some c1" "f c1 = Some (c2, new)"
    "fs' = xs @ (k, c2) # new"
    by (auto simp: edit_split split: option.splits)
  with fs length_flat [of c ys c1] assms(2) [of c1 c2 new] show ?thesis
    by (simp add: layout_append)
qed

section \<open>Flushing\<close>

lemma flush_represents:
  assumes r: "represents st fs" and f: "CBB_flush d st = (ok, st')"
  shows "(ok \<longrightarrow> (\<exists>xs k c ys c'. fs = xs @ (k, c) # ys \<and> length xs = d \<and> flat c ys = Some c'
      \<and> represents st' (xs @ [(k, c')]) \<and> env_kept st st'))
    \<and> (\<forall>fs'. spec_append d [] fs = Some fs' \<and> room st (length (layout fs')) \<longrightarrow> ok)"
proof -
  obtain b where b: "base st = Some b" "\<not> error b" "wf_buffer b" "wf_frames fs" "buf b = layout fs"
    "chain st = tl (children_of 0 fs)"
    using r by (auto simp: represents_def split: option.splits)
  then have len: "length (chain st) = length fs - 1" "fs \<noteq> []"
    by (simp_all add: wf_frames_def)
  show ?thesis
  proof (cases "d < length fs")
    case False
    with f b len show ?thesis
      by (cases fs) (auto simp: CBB_flush_def spec_append_def edit_def)
  next
    case True
    then obtain xs k c ys where fs: "fs = xs @ (k, c) # ys" "length xs = d" by (rule frame_split)
    let ?p = "layout xs @ replicate (plen k) 0"
    have dr: "drop d (chain st) = children_of (length ?p + length c) ys"
      unfolding b(6) fs(1) using fs(2)
      by (cases xs) (auto simp: children_of_append add_ac)
    have tk: "take d (chain st) = tl (children_of 0 (xs @ [(k, e)]))" for e
      unfolding b(6) fs(1) using fs(2)
      by (cases xs) (auto simp: children_of_append)
    obtain ok1 b1 cs where fc: "cbb_flush_chain b (children_of (length ?p + length c) ys) = (ok1, b1, cs)"
      by (cases "cbb_flush_chain b (children_of (length ?p + length c) ys)")
    have wfys: "child_frames ys" using b(4) by (simp add: fs wf_frames_split)
    have bl: "buf b = ?p @ c @ layout ys" using b(5) by (simp add: fs layout_append)
    note F = flush_chain [OF fc bl b(3,2) wfys]
    have "\<not> length (chain st) < d" using True len by simp
    then have st': "ok = ok1" "st' = st\<lparr>base := Some b1, chain := take d (chain st) @ cs\<rparr>"
      using f b(1) fc dr by (simp_all add: CBB_flush_def)
    show ?thesis
    proof (intro conjI impI allI)
      assume ok
      with F st'(1) obtain c' where c': "cs = []" "flat c ys = Some c'" "grows_to b (?p @ c') b1" by blast
      have "wf_frames (xs @ [(k, c')])" using b(4) by (auto simp: fs wf_frames_split)
      with c' b st' have "represents st' (xs @ [(k, c')])"
        by (simp add: represents_def grows_to_wf [OF c'(3)] grows_to_buf [OF c'(3)] grows_to_error [OF c'(3)]
            layout_append tk [of c', unfolded b(6)])
      moreover have "env_kept st st'"
        using c'(3) b(1) st'(2) by (simp add: env_kept_def grows_to_buf [OF c'(3)])
      ultimately show "\<exists>xs k c ys c'. fs = xs @ (k, c) # ys \<and> length xs = d \<and> flat c ys = Some c'
        \<and> represents st' (xs @ [(k, c')]) \<and> env_kept st st'"
        using fs c'(2) by blast
    next
      fix fs' assume "spec_append d [] fs = Some fs' \<and> room st (length (layout fs'))"
      moreover from this obtain c' where "flat c ys = Some c'" "fs' = xs @ [(k, c')]"
        using fs by (auto simp: spec_append_def edit_split split: option.splits)
      ultimately have "fits b (length ?p + length c')"
        using b(1) by (simp add: room_def layout_append add.assoc)
      with F st'(1) \<open>flat c ys = Some c'\<close> show ok by blast
    qed
  qed
qed

lemma spec_append_mono: "spec_append d data fs = Some fs' \<Longrightarrow> length (layout fs) \<le> length (layout fs')"
  unfolding spec_append_def by (erule length_edit) simp

interpretation flush: cbb_operation "CBB_flush d" "spec_append d []" for d
proof
  show "\<exists>fs'. spec_append d [] fs = Some fs' \<and> represents st' fs' \<and> env_kept st st'"
    if "represents st fs" "CBB_flush d st = (True, st')" for st fs st'
  proof -
    from flush_represents [OF that] obtain xs k c ys c' where "fs = xs @ (k, c) # ys" "length xs = d"
      "flat c ys = Some c'" "represents st' (xs @ [(k, c')])" "env_kept st st'" by blast
    then show ?thesis by (auto simp: spec_append_def edit_split)
  qed
  show "fst (CBB_flush d st)"
    if "represents st fs" "spec_append d [] fs = Some fs'" "room st (length (layout fs'))" for st fs fs'
    using that flush_represents [OF that(1)] by (cases "CBB_flush d st") auto
qed (rule spec_append_mono)

lemma represents_base: "represents st fs \<Longrightarrow> \<exists>b. base st = Some b \<and> wf_buffer b \<and> buf b = layout fs"
  by (auto simp: represents_def split: option.splits)

lemma children_of_last: "tl (children_of n (xs @ [(k, c)])) = tl (children_of n (xs @ [(k, c')]))"
  by (cases xs) (auto simp: children_of_append)

lemma represents_extend:
  assumes "represents st (xs @ [(k, c)])" and "base st = Some b" and "grows_to b (buf b @ data) b'"
  shows "represents (st\<lparr>base := Some b'\<rparr>) (xs @ [(k, c @ data)])"
    and "env_kept st (st\<lparr>base := Some b'\<rparr>)"
proof -
  have "wf_frames (xs @ [(k, c @ data)])"
    using assms(1,2) by (auto simp: represents_def wf_frames_split)
  then show "represents (st\<lparr>base := Some b'\<rparr>) (xs @ [(k, c @ data)])"
    using assms children_of_last [of 0 xs k c "c @ data"]
    by (simp add: represents_def grows_to_def layout_append)
  show "env_kept st (st\<lparr>base := Some b'\<rparr>)"
    using assms by (simp add: env_kept_def grows_to_buf [OF assms(3)])
qed

lemma represents_open:
  assumes "represents st (xs @ [(k, c)])" and "base st = Some b"
    and "grows_to b (buf b @ replicate (plen k') 0) b'" and "1 \<le> plen k'" and "plen k' \<le> 8"
    and "entry = \<lparr>offset = base_len b, pending_len_len = plen k', pending_is_asn1 = (k' = Asn1)\<rparr>"
  shows "represents (st\<lparr>base := Some b', chain := chain st @ [entry]\<rparr>) (xs @ [(k, c), (k', [])])"
    and "env_kept st (st\<lparr>base := Some b', chain := chain st @ [entry]\<rparr>)"
proof -
  have w: "wf_frames (xs @ (k, c) # [(k', [])])"
    using assms(1,2,4,5) unfolding wf_frames_split by (auto simp: represents_def wf_frames_split)
  have bl: "base_len b = length (layout (xs @ [(k, c)]))"
    using assms(1,2) by (simp add: represents_def)
  have e: "entry = \<lparr>offset = length (layout (xs @ [(k, c)])), pending_len_len = plen k', pending_is_asn1 = (k' = Asn1)\<rparr>"
    using assms(6) bl by simp
  have "children_of 0 ((xs @ [(k, c)]) @ [(k', [])]) = children_of 0 (xs @ [(k, c)]) @ [entry]"
    unfolding children_of_append [of 0 "xs @ [(k, c)]"] e by simp
  moreover have "children_of 0 (xs @ [(k, c)]) \<noteq> []" by (simp add: children_of_append)
  ultimately have ch: "tl (children_of 0 (xs @ [(k, c), (k', [])])) = tl (children_of 0 (xs @ [(k, c)])) @ [entry]"
    by simp
  show "represents (st\<lparr>base := Some b', chain := chain st @ [entry]\<rparr>) (xs @ [(k, c), (k', [])])"
    using assms(1,2,3) w ch
    by (simp add: represents_def grows_to_def layout_append)
  show "env_kept st (st\<lparr>base := Some b', chain := chain st @ [entry]\<rparr>)"
    using assms by (simp add: env_kept_def grows_to_buf [OF assms(3)])
qed

text \<open>The second half of an operation runs on the state that the flush left: a cursor at the
  innermost frame.\<close>

lemma operation_after_flush:
  assumes sound: "\<And>st xs k c st'. represents st (xs @ [(k, c)]) \<Longrightarrow> length xs = d \<Longrightarrow> g st = (True, st') \<Longrightarrow>
      \<exists>c' new. f c = Some (c', new) \<and> represents st' (xs @ (k, c') # new) \<and> env_kept st st'"
    and complete: "\<And>st xs k c c' new. represents st (xs @ [(k, c)]) \<Longrightarrow> length xs = d \<Longrightarrow> f c = Some (c', new) \<Longrightarrow>
      room st (length (layout (xs @ (k, c') # new))) \<Longrightarrow> fst (g st)"
    and mono: "\<And>c c' new. f c = Some (c', new) \<Longrightarrow> length c \<le> length c'"
  shows "cbb_operation (and_then (CBB_flush d) g) (edit d f)"
proof
  show "\<exists>fs'. edit d f fs = Some fs' \<and> represents st' fs' \<and> env_kept st st'"
    if "represents st fs" "and_then (CBB_flush d) g st = (True, st')" for st fs st'
  proof -
    from that(2) obtain st1 where "CBB_flush d st = (True, st1)" and g: "g st1 = (True, st')"
      by (auto simp: and_then_def split: prod.splits bool.splits)
    with flush_represents [OF that(1)] obtain xs k c ys c1 where fs: "fs = xs @ (k, c) # ys" "length xs = d"
      "flat c ys = Some c1" and r: "represents st1 (xs @ [(k, c1)])" "env_kept st st1" by blast
    from sound [OF r(1) fs(2) g] fs r(2) show ?thesis
      by (auto simp: edit_split intro: env_kept_trans)
  qed
  show "fst (and_then (CBB_flush d) g st)"
    if r: "represents st fs" and e: "edit d f fs = Some fs'" and rm: "room st (length (layout fs'))" for st fs fs'
  proof -
    have "d < length fs" using e by (auto simp: edit_def split: if_splits)
    then obtain xs k c ys where fs: "fs = xs @ (k, c) # ys" "length xs = d" by (rule frame_split)
    with e obtain c1 c2 new where c: "flat c ys = Some c1" "f c1 = Some (c2, new)" "fs' = xs @ (k, c2) # new"
      by (auto simp: edit_split split: option.splits)
    have s: "spec_append d [] fs = Some (xs @ [(k, c1)])" using fs c by (simp add: spec_append_def edit_split)
    have "room st (length (layout (xs @ [(k, c1)])))"
      by (rule room_mono [OF rm]) (use mono [OF c(2)] in \<open>simp add: c layout_append\<close>)
    with flush.runs [OF r s] obtain st1 where st1: "CBB_flush d st = (True, st1)"
      "represents st1 (xs @ [(k, c1)])" "env_kept st st1" by blast
    with complete [OF st1(2) fs(2) c(2)] rm c(3) show ?thesis
      by (simp add: and_then_def room_kept)
  qed
  show "length (layout fs) \<le> length (layout fs')" if "edit d f fs = Some fs'" for fs fs'
    using that mono by (rule length_edit)
qed

lemma operation_on_flushed:
  assumes ok: "\<And>b b'. f b = (True, b') \<Longrightarrow> wf_buffer b \<Longrightarrow> grows_to b (buf b @ data) b'"
    and fit: "\<And>b. fits b (base_len b + length data) \<Longrightarrow> fst (f b)"
  shows "cbb_operation (on_flushed d f) (spec_append d data)"
proof -
  let ?g = "\<lambda>cbb. case base cbb of None \<Rightarrow> (False, cbb)
     | Some b \<Rightarrow> (case f b of (ok, b) \<Rightarrow> (ok, cbb\<lparr>base := Some b\<rparr>))"
  have "cbb_operation (and_then (CBB_flush d) ?g) (edit d (\<lambda>c. Some (c @ data, [])))"
  proof (rule operation_after_flush)
    fix st st' xs and k :: prefix and c
    assume r: "represents st (xs @ [(k, c)])" "?g st = (True, st')"
    from represents_base [OF r(1)] obtain b where b: "base st = Some b" "wf_buffer b" by blast
    with r(2) obtain b' where "f b = (True, b')" "st' = st\<lparr>base := Some b'\<rparr>"
      by (auto split: prod.splits)
    with represents_extend [OF r(1) b(1) ok [OF _ b(2)]] 
    show "\<exists>c' new. Some (c @ data, []) = Some (c', new) \<and> represents st' (xs @ (k, c') # new) \<and> env_kept st st'"
      by auto
  next
    fix st xs and k :: prefix and c c' new
    assume r: "represents st (xs @ [(k, c)])" "Some (c @ data, []) = Some (c', new)"
      "room st (length (layout (xs @ (k, c') # new)))"
    from represents_base [OF r(1)] obtain b where b: "base st = Some b" "wf_buffer b" "buf b = layout (xs @ [(k, c)])"
      by blast
    then have "fits b (base_len b + length data)"
      using r by (auto simp: room_def layout_append add_ac)
    from fit [OF this] b show "fst (?g st)" by (auto split: prod.splits)
  qed auto
  moreover have "and_then (CBB_flush d) ?g = on_flushed d f"
    by (auto simp: on_flushed_def and_then_def)
  ultimately show ?thesis by (simp add: spec_append_def)
qed

section \<open>The operations meet the contract\<close>

lemma add_bytes_operation [cbb_intros]:
  assumes "length data < size_limit"
  shows "cbb_operation (CBB_add_bytes d data) (spec_append d data)"
  unfolding CBB_add_bytes_def
  by (rule operation_on_flushed) (use assms in \<open>auto intro: add_write_ok add_write_fits\<close>)

lemma add_u_operation:
  assumes "0 < n" and "n \<le> 8" and "unat v < 256 ^ n"
  shows "cbb_operation (on_flushed d (\<lambda>b. cbb_buffer_add_u b v n)) (spec_append d (be_bytes n (unat v)))"
  by (rule operation_on_flushed) (use assms in \<open>auto dest: add_u_ok intro: add_u_fits\<close>)

lemma unat_below_256: "unat (w :: 'a :: len word) < 256 ^ n" if "LENGTH('a) \<le> 8 * n"
proof -
  have "unat w < 2 ^ LENGTH('a)" by (rule unat_less_pow)
  also have "(2 :: nat) ^ LENGTH('a) \<le> 2 ^ (8 * n)" using that by (intro power_increasing) simp_all
  finally show ?thesis by (simp add: power_mult)
qed

lemma be_bytes_1: "be_bytes 1 (unat v) = [v :: u8]"
  by simp

lemma add_u8_operation [cbb_intros]: "cbb_operation (CBB_add_u8 d v) (spec_append d [v])"
proof -
  have "cbb_operation (CBB_add_u8 d v) (spec_append d (be_bytes 1 (unat (ucast v :: u64))))"
    unfolding CBB_add_u8_def by (rule add_u_operation) simp_all
  then show ?thesis by simp
qed

interpretation add_u8: cbb_operation "CBB_add_u8 d v" "spec_append d [v]" for d v
  by (rule add_u8_operation)

interpretation add_u16: cbb_operation "CBB_add_u16 d v" "spec_append d (be_bytes 2 (unat v))" for d v
proof -
  have "cbb_operation (CBB_add_u16 d v) (spec_append d (be_bytes 2 (unat (ucast v :: u64))))"
    unfolding CBB_add_u16_def by (rule add_u_operation) (simp_all add: unat_below_256 [of 2 v, simplified])
  then show "cbb_operation (CBB_add_u16 d v) (spec_append d (be_bytes 2 (unat v)))" by (simp del: be_bytes.simps)
qed

interpretation add_u32: cbb_operation "CBB_add_u32 d v" "spec_append d (be_bytes 4 (unat v))" for d v
proof -
  have "cbb_operation (CBB_add_u32 d v) (spec_append d (be_bytes 4 (unat (ucast v :: u64))))"
    unfolding CBB_add_u32_def by (rule add_u_operation) (simp_all add: unat_below_256 [of 4 v, simplified])
  then show "cbb_operation (CBB_add_u32 d v) (spec_append d (be_bytes 4 (unat v)))" by (simp del: be_bytes.simps)
qed

lemma add_u24_operation [cbb_intros]:
  assumes "unat v < 2 ^ 24"
  shows "cbb_operation (CBB_add_u24 d v) (spec_append d (be_bytes 3 (unat v)))"
proof -
  have "cbb_operation (CBB_add_u24 d v) (spec_append d (be_bytes 3 (unat (ucast v :: u64))))"
    unfolding CBB_add_u24_def by (rule add_u_operation) (use assms in simp_all)
  then show "cbb_operation (CBB_add_u24 d v) (spec_append d (be_bytes 3 (unat v)))" by (simp del: be_bytes.simps)
qed

interpretation add_u64: cbb_operation "CBB_add_u64 d v" "spec_append d (be_bytes 8 (unat v))" for d v
  unfolding CBB_add_u64_def by (rule add_u_operation) (simp_all add: unat_below_256 [of 8 v, simplified])

lemma open_child_operation:
  assumes "1 \<le> n" and "n \<le> 8"
  shows "cbb_operation (cbb_add_length_prefixed d n) (spec_open d [] (Fixed n))"
  unfolding cbb_add_length_prefixed_def spec_open_def append_Nil2
proof (rule operation_after_flush)
  fix st st' xs and k :: prefix and c
  assume r: "represents st (xs @ [(k, c)])" "cbb_open_child n st = (True, st')"
  from represents_base [OF r(1)] obtain b where b: "base st = Some b" "wf_buffer b" by blast
  with r(2) obtain b' where a: "cbb_buffer_add_write b (replicate n 0) = (True, b')"
    and st': "st' = st\<lparr>base := Some b', chain := chain st @ [\<lparr>offset = base_len b, pending_len_len = n,
       pending_is_asn1 = False\<rparr>]\<rparr>"
    by (auto simp: cbb_open_child_def split: prod.splits bool.splits)
  have "length (replicate n (0 :: u8)) < size_limit" using assms by simp
  from represents_open [OF r(1) b(1), of "Fixed n" b'] add_write_ok [OF a b(2) this] st' assms
  show "\<exists>c' new. Some (c, [(Fixed n, [])]) = Some (c', new) \<and> represents st' (xs @ (k, c') # new) \<and> env_kept st st'"
    by simp
next
  fix st xs and k :: prefix and c c' new
  assume r: "represents st (xs @ [(k, c)])" "Some (c, [(Fixed n, [])]) = Some (c', new)"
    "room st (length (layout (xs @ (k, c') # new)))"
  from represents_base [OF r(1)] obtain b where b: "base st = Some b" "buf b = layout (xs @ [(k, c)])" by blast
  then have "fits b (base_len b + length (replicate n (0 :: u8)))"
    using r by (auto simp: room_def layout_append add_ac)
  from add_write_fits [OF this] b show "fst (cbb_open_child n st)"
    by (auto simp: cbb_open_child_def split: prod.splits bool.splits)
qed auto

interpretation add_u8_prefixed: cbb_operation "CBB_add_u8_length_prefixed d" "spec_open d [] (Fixed 1)" for d
  unfolding CBB_add_u8_length_prefixed_def by (rule open_child_operation) simp_all

interpretation add_u16_prefixed: cbb_operation "CBB_add_u16_length_prefixed d" "spec_open d [] (Fixed 2)" for d
  unfolding CBB_add_u16_length_prefixed_def by (rule open_child_operation) simp_all

interpretation add_u24_prefixed: cbb_operation "CBB_add_u24_length_prefixed d" "spec_open d [] (Fixed 3)" for d
  unfolding CBB_add_u24_length_prefixed_def by (rule open_child_operation) simp_all

section \<open>Tags\<close>

fun hi_digits :: "nat \<Rightarrow> nat \<Rightarrow> bytes" where
  "hi_digits q 0 = []"
| "hi_digits q (Suc j) = (of_nat (q div 128 ^ j mod 128) OR 0x80) # hi_digits q j"

lemma hi_digits_snoc: "hi_digits q (Suc j) = hi_digits (q div 128) j @ [of_nat (q mod 128) OR 0x80]"
proof (induction j)
  case (Suc j)
  have "hi_digits q (Suc (Suc j)) = (of_nat (q div 128 ^ Suc j mod 128) OR 0x80) # hi_digits q (Suc j)"
    by simp
  also have "q div 128 ^ Suc j = q div 128 div 128 ^ j" by (simp add: div_mult2_eq)
  finally show ?case using Suc by simp
qed simp

lemma unat_drop_7: "unat (drop_bit 7 (v :: u64)) = unat v div 128"
  unfolding unat_drop_bit_eq by (simp add: drop_bit_eq_div)

lemma hi_digits_base128_hi: "hi_digits (unat v) (base128_len v) = base128_hi (unat v)"
proof (induction v rule: base128_len.induct)
  case (1 v)
  show ?case
  proof (cases "v = 0")
    case True
    then show ?thesis by (simp add: base128_len.simps [of 0])
  next
    case False
    then have "0 < unat v" by (simp add: unat_gt_0)
    then show ?thesis
      using 1 False hi_digits_snoc [of "unat v" "base128_len (drop_bit 7 v)"]
      by (simp add: base128_len.simps [of v] base128_hi_pos unat_drop_7 del: hi_digits.simps)
  qed
qed

lemma base128_byte:
  "ucast (drop_bit (7 * i) (v :: u64)) AND 0x7f = (of_nat (unat v div 128 ^ i mod 128) :: u8)"
proof -
  have "unat (drop_bit (7 * i) v) = unat v div 128 ^ i"
    unfolding unat_drop_bit_eq by (simp add: drop_bit_eq_div power_mult)
  then show ?thesis
    by (simp add: u8_eq_iff u8_low7 unsigned_ucast_eq take_bit_eq_mod unat_of_nat mod_mod_cancel)
qed

lemma base128_loop_operation:
  "cbb_operation (base128_loop d v (Suc n))
     (spec_append d (hi_digits (unat v div 128) n @ [of_nat (unat v mod 128)]))"
proof (induction n)
  case 0
  have "cbb_operation (and_then (CBB_add_u8 d (of_nat (unat v mod 128))) (Pair True))
      (spec_seq (spec_append d [of_nat (unat v mod 128)]) Some)"
    by (intro cbb_intros)
  then show ?case by (simp add: base128_byte [of 0, simplified])
next
  case (Suc n)
  let ?b = "of_nat (unat v div 128 ^ Suc n mod 128) OR 0x80 :: u8"
  have "cbb_operation (and_then (CBB_add_u8 d ?b) (base128_loop d v (Suc n)))
      (spec_seq (spec_append d [?b]) (spec_append d (hi_digits (unat v div 128) n @ [of_nat (unat v mod 128)])))"
    using Suc by (intro cbb_intros)
  moreover have "unat v div 128 ^ Suc n = unat v div 128 div 128 ^ n" by (simp add: div_mult2_eq)
  ultimately show ?case
    by (simp only: base128_loop.simps(2) [of d v "Suc n"] base128_byte Let_def spec_append_append
        hi_digits.simps append_Cons append_Nil nat.simps if_True simp_thms)
qed

lemma add_base128_operation [cbb_intros]:
  "cbb_operation (add_base128_integer d v) (spec_append d (base128 (unat v)))"
proof (cases "v = 0")
  case True
  then show ?thesis
    using base128_loop_operation [of d v 0]
    by (simp add: add_base128_integer_def base128_len.simps [of 0] base128_def del: base128_loop.simps)
next
  case False
  then have l: "base128_len v = Suc (base128_len (drop_bit 7 v))"
    by (simp add: base128_len.simps [of v])
  show ?thesis
    using base128_loop_operation [of d v "base128_len (drop_bit 7 v)"]
      hi_digits_base128_hi [of "drop_bit 7 v"]
    by (simp add: add_base128_integer_def l base128_def unat_drop_7 del: base128_loop.simps)
qed

lemma tag_bits_value: "unat (ucast (drop_bit CBS_ASN1_TAG_SHIFT (tag :: u32)) AND 0xe0 :: u8) = unat tag div 2 ^ 29 * 32"
proof -
  have e0: "unat (b AND 0xe0) = unat b div 32 * 32" for b :: u8
    by (rule u8_by_eval [where P = "\<lambda>b. unat (b AND 0xe0) = unat b div 32 * 32"]) code_simp
  have lt: "unat tag < 2 ^ 32" using unat_less_pow [of tag] by simp
  have "unat (drop_bit CBS_ASN1_TAG_SHIFT tag) = unat tag div 2 ^ 24"
    unfolding unat_drop_bit_eq CBS_ASN1_TAG_SHIFT_def by (simp add: drop_bit_eq_div)
  moreover have "unat tag div 2 ^ 24 < 256" using lt by (simp add: less_mult_imp_div_less)
  ultimately have "unat (ucast (drop_bit CBS_ASN1_TAG_SHIFT tag) :: u8) = unat tag div 2 ^ 24"
    by (simp add: unsigned_ucast_eq take_bit_eq_mod)
  then show ?thesis by (simp add: e0 div_mult2_eq [symmetric])
qed

lemma tag_number_value: "unat (tag AND CBS_ASN1_TAG_NUMBER_MASK) = unat tag mod 2 ^ 29"
proof -
  have "CBS_ASN1_TAG_NUMBER_MASK = mask 29"
    by (simp add: CBS_ASN1_TAG_NUMBER_MASK_def CBS_ASN1_TAG_SHIFT_def mask_eq_exp_minus_1 push_bit_eq_mult)
  then have "tag AND CBS_ASN1_TAG_NUMBER_MASK = take_bit 29 tag" by (simp only: take_bit_eq_mask)
  then show ?thesis by (simp only: unsigned_take_bit_eq) (simp only: take_bit_eq_mod)
qed

lemma low5_or: "c < 8 \<Longrightarrow> n < 32 \<Longrightarrow> (of_nat (c * 32) OR of_nat n :: u8) = of_nat (c * 32 + n)"
proof -
  have "list_all (\<lambda>c. list_all (\<lambda>n. (of_nat (c * 32) OR of_nat n :: u8) = of_nat (c * 32 + n)) [0..<32]) [0..<8]"
    by code_simp
  then show "c < 8 \<Longrightarrow> n < 32 \<Longrightarrow> (of_nat (c * 32) OR of_nat n :: u8) = of_nat (c * 32 + n)"
    by (simp add: list_all_iff)
qed

definition add_tag :: "nat \<Rightarrow> u32 \<Rightarrow> cbb_st \<Rightarrow> bool \<times> cbb_st" where
  "add_tag d tag =
     (let tag_bits = ucast (drop_bit CBS_ASN1_TAG_SHIFT tag) AND 0xe0 :: u8;
          tag_number = tag AND CBS_ASN1_TAG_NUMBER_MASK
      in if tag_number \<ge> 0x1f then
           and_then (CBB_add_u8 d (tag_bits OR 0x1f)) (add_base128_integer d (ucast tag_number))
         else CBB_add_u8 d (tag_bits OR ucast tag_number))"

lemma CBB_add_asn1_eq:
  "CBB_add_asn1 d tag = and_then (CBB_flush d) (and_then (add_tag d tag) (cbb_open_asn1 d))"
  by (simp add: CBB_add_asn1_def add_tag_def Let_def)

lemma add_tag_operation: "cbb_operation (add_tag d tag) (spec_append d (der_tag tag))"
proof -
  let ?c = "unat tag div 2 ^ 29" and ?n = "unat tag mod 2 ^ 29"
  let ?tb = "ucast (drop_bit CBS_ASN1_TAG_SHIFT tag) AND 0xe0 :: u8"
  let ?tn = "tag AND CBS_ASN1_TAG_NUMBER_MASK"
  have c: "?c < 8" using unat_less_pow [of tag] by (simp add: less_mult_imp_div_less)
  have tb: "?tb = of_nat (?c * 32)"
    unfolding u8_eq_iff tag_bits_value using c by (subst unat_of_nat_less) simp_all
  show ?thesis
  proof (cases "?n < 31")
    case True
    then have "ucast ?tn = (of_nat ?n :: u8)"
      by (simp add: u8_eq_iff unsigned_ucast_eq tag_number_value unat_of_nat take_bit_eq_mod)
    then have b: "?tb OR ucast ?tn = of_nat (?c * 32 + ?n)"
      using low5_or [OF c, of ?n] True tb by simp
    have "\<not> ?tn \<ge> 0x1f" using True by (simp add: word_le_nat_alt tag_number_value)
    then have "add_tag d tag = CBB_add_u8 d (of_nat (?c * 32 + ?n))"
      unfolding add_tag_def Let_def b by simp
    with True show ?thesis
      using add_u8_operation [of d "of_nat (?c * 32 + ?n)"] by (simp add: der_tag_def Let_def)
  next
    case False
    have b: "?tb OR 0x1f = of_nat (?c * 32 + 31)" using low5_or [OF c, of 31] tb by simp
    have u: "unat (ucast ?tn :: u64) = ?n" by (simp add: tag_number_value)
    have "?tn \<ge> 0x1f" using False by (simp add: word_le_nat_alt tag_number_value)
    then have "add_tag d tag = and_then (CBB_add_u8 d (of_nat (?c * 32 + 31)))
        (add_base128_integer d (ucast ?tn))"
      unfolding add_tag_def Let_def b by simp
    moreover have "cbb_operation (and_then (CBB_add_u8 d (of_nat (?c * 32 + 31))) (add_base128_integer d (ucast ?tn)))
      (spec_seq (spec_append d [of_nat (?c * 32 + 31)]) (spec_append d (base128 (unat (ucast ?tn :: u64)))))"
      by (intro cbb_intros)
    ultimately show ?thesis
      using False by (simp add: spec_append_append u der_tag_def Let_def)
  qed
qed

lemma spec_append_flushed: "spec_append (length xs) a (xs @ [(k, c)]) = Some (xs @ [(k, c @ a)])"
  by (simp add: spec_append_def edit_split)

lemma open_asn1_sound:
  assumes r: "represents st (xs @ [(k, c)])" and d: "length xs = d" and o: "cbb_open_asn1 d st = (True, st')"
  shows "represents st' (xs @ [(k, c), (Asn1, [])]) \<and> env_kept st st'"
proof -
  from represents_base [OF r] obtain b where b: "base st = Some b" "buf b = layout (xs @ [(k, c)])" by blast
  with o obtain st2 where a: "CBB_add_u8 d 0 st = (True, st2)"
    and st': "st' = st2\<lparr>chain := chain st2 @ [\<lparr>offset = base_len b, pending_len_len = 1, pending_is_asn1 = True\<rparr>]\<rparr>"
    by (auto simp: cbb_open_asn1_def Let_def split: prod.splits bool.splits)
  from add_u8.sound [OF r a] d have r2: "represents st2 (xs @ [(k, c @ [0])])" "env_kept st st2"
    by (auto simp: spec_append_flushed)
  from represents_base [OF r2(1)] obtain b2 where b2: "base st2 = Some b2" "buf b2 = layout (xs @ [(k, c @ [0])])"
    by blast
  then have g: "grows_to b (buf b @ replicate (plen Asn1) 0) b2"
    using r2(2) b by (simp add: env_kept_def layout_append)
  have "chain st2 = chain st"
    using r r2(1) b b2 children_of_last [of 0 xs k c "c @ [0]"] by (simp add: represents_def)
  then have "st' = st\<lparr>base := Some b2, chain := chain st @
      [\<lparr>offset = base_len b, pending_len_len = plen Asn1, pending_is_asn1 = (Asn1 = Asn1)\<rparr>]\<rparr>"
    using b2 st' by simp
  with represents_open [OF r b(1) g _ _ refl] show ?thesis by simp
qed

lemma open_asn1_complete:
  assumes r: "represents st (xs @ [(k, c)])" and d: "length xs = d"
    and rm: "room st (length (layout (xs @ [(k, c), (Asn1, [])])))"
  shows "fst (cbb_open_asn1 d st)"
proof -
  from represents_base [OF r] obtain b where b: "base st = Some b" by blast
  have "length (layout (xs @ [(k, c @ [0])])) \<le> length (layout (xs @ [(k, c), (Asn1, [])]))"
    by (simp add: layout_append)
  then have "fst (CBB_add_u8 d 0 st)"
    using add_u8.complete [OF r, of d 0 "xs @ [(k, c @ [0])]"] room_mono [OF rm] d
    by (simp add: spec_append_flushed [of xs, unfolded d])
  with b show ?thesis by (auto simp: cbb_open_asn1_def Let_def split: prod.splits bool.splits)
qed

lemma add_asn1_operation [cbb_intros]:
  "cbb_operation (CBB_add_asn1 d tag) (spec_open d (der_tag tag) Asn1)"
  unfolding CBB_add_asn1_eq spec_open_def
proof (rule operation_after_flush)
  fix st st' xs and k :: prefix and c
  assume r: "represents st (xs @ [(k, c)])" "length xs = d"
    and a: "and_then (add_tag d tag) (cbb_open_asn1 d) st = (True, st')"
  from a obtain st1 where t: "add_tag d tag st = (True, st1)" and o: "cbb_open_asn1 d st1 = (True, st')"
    by (auto simp: and_then_def split: prod.splits bool.splits)
  from cbb_operation.sound [OF add_tag_operation r(1) t] r(2)
  have "represents st1 (xs @ [(k, c @ der_tag tag)])" "env_kept st st1"
    by (auto simp: spec_append_flushed)
  with open_asn1_sound [OF this(1) r(2) o]
  show "\<exists>c' new. Some (c @ der_tag tag, [(Asn1, [])]) = Some (c', new) \<and> represents st' (xs @ (k, c') # new)
    \<and> env_kept st st'"
    by (auto intro: env_kept_trans)
next
  fix st xs and k :: prefix and c c' new
  assume r: "represents st (xs @ [(k, c)])" "length xs = d" "Some (c @ der_tag tag, [(Asn1, [])]) = Some (c', new)"
    "room st (length (layout (xs @ (k, c') # new)))"
  have s: "spec_append d (der_tag tag) (xs @ [(k, c)]) = Some (xs @ [(k, c @ der_tag tag)])"
    using r(2) by (auto simp: spec_append_flushed)
  have "room st (length (layout (xs @ [(k, c @ der_tag tag)])))"
    by (rule room_mono [OF r(4)]) (use r(3) in \<open>auto simp: layout_append\<close>)
  with cbb_operation.runs [OF add_tag_operation r(1) s] obtain st1 where st1: "add_tag d tag st = (True, st1)"
    "represents st1 (xs @ [(k, c @ der_tag tag)])" "env_kept st st1" by blast
  have "room st1 (length (layout (xs @ [(k, c @ der_tag tag), (Asn1, [])])))"
    using r(3,4) room_kept [OF st1(3)] by auto
  from open_asn1_complete [OF st1(2) r(2) this] st1(1) show "fst (and_then (add_tag d tag) (cbb_open_asn1 d) st)"
    by (simp add: and_then_def)
qed auto

text \<open>Opening an element, filling it at once and flushing it appends its DER encoding.\<close>

lemma element_operation:
  assumes "cbb_operation f (spec_append (Suc d) data)" and "length data \<le> 0xfffffffe"
  shows "cbb_operation (and_then (CBB_add_asn1 d tag) (and_then f (CBB_flush d)))
    (spec_append d (der_encode tag data))"
proof -
  have "cbb_operation (and_then (CBB_add_asn1 d tag) (and_then f (CBB_flush d)))
      (spec_seq (spec_open d (der_tag tag) Asn1) (spec_seq (spec_append (Suc d) data) (spec_append d [])))"
    by (intro cbb_intros assms(1) flush.cbb_operation_axioms)
  also have "spec_seq (spec_open d (der_tag tag) Asn1) (spec_seq (spec_append (Suc d) data) (spec_append d []))
      = spec_append d (der_encode tag data)"
    using assms(2) by (subst spec_open_fill_close [of _ _ "der_length (length data) @ data"]) (simp_all add: der_encode_def)
  finally show ?thesis .
qed

section \<open>Primitive types\<close>

text \<open>A run of single-byte writes; an empty one does not flush.\<close>

definition spec_bytes :: "nat \<Rightarrow> bytes \<Rightarrow> frames \<Rightarrow> frames option" where
  "spec_bytes d l = (if l = [] then Some else spec_append d l)"

lemma spec_bytes_append: "spec_seq (spec_bytes d a) (spec_bytes d b) = spec_bytes d (a @ b)"
  by (simp add: spec_bytes_def spec_append_append)

lemma byte_operation: "cbb_operation (CBB_add_u8 d b) (spec_bytes d [b])"
  using add_u8_operation [of d b] by (simp add: spec_bytes_def)

lemma no_byte_operation: "cbb_operation (Pair True) (spec_bytes d [])"
  using operation_return by (simp add: spec_bytes_def)

lemma bytes_then:
  "cbb_operation f (spec_bytes d a) \<Longrightarrow> cbb_operation g (spec_bytes d b) \<Longrightarrow>
     cbb_operation (and_then f g) (spec_bytes d (a @ b))"
  unfolding spec_bytes_append [symmetric] by (rule operation_and_then)

fun uint_bytes :: "nat \<Rightarrow> bool \<Rightarrow> nat \<Rightarrow> bytes" where
  "uint_bytes v started 0 = (if started then [] else [0])"
| "uint_bytes v started (Suc n) =
     (let byte = of_nat (v div 256 ^ n)
      in if \<not> started \<and> byte = (0 :: u8) then uint_bytes v False n
         else (if \<not> started \<and> byte AND 0x80 \<noteq> 0 then [0] else []) @ [byte] @ uint_bytes v True n)"

lemma uint64_byte: "ucast (drop_bit (8 * n) (v :: u64) AND 0xff) = (of_nat (unat v div 256 ^ n) :: u8)"
proof -
  have d: "unat (drop_bit (8 * n) v) = unat v div 256 ^ n"
    unfolding unat_drop_bit_eq by (simp add: drop_bit_eq_div power_mult)
  have "drop_bit (8 * n) v AND 0xff = take_bit 8 (drop_bit (8 * n) v)"
    by (simp add: take_bit_eq_mask mask_eq_exp_minus_1)
  moreover have "(ucast (take_bit 8 w) :: u8) = ucast w" for w :: u64
    by (simp add: word_unat_eq_iff unsigned_ucast_eq unsigned_take_bit_eq)
  ultimately have "ucast (drop_bit (8 * n) v AND 0xff) = (ucast (drop_bit (8 * n) v) :: u8)" by simp
  then show ?thesis by (simp add: word_unat_eq_iff unsigned_ucast_eq d unsigned_of_nat)
qed

lemma uint64_bytes_operation:
  "cbb_operation (asn1_uint64_bytes d v started n) (spec_bytes d (uint_bytes (unat v) started n))"
proof (induction n arbitrary: started)
  case 0
  then show ?case using byte_operation no_byte_operation by simp
next
  case (Suc n)
  let ?b = "of_nat (unat v div 256 ^ n) :: u8"
  show ?case
  proof (cases "\<not> started \<and> ?b = 0")
    case True
    then show ?thesis using Suc [of False] by (simp add: uint64_byte)
  next
    case False
    have "cbb_operation (if \<not> started \<and> ?b AND 0x80 \<noteq> 0 then CBB_add_u8 d 0 else Pair True)
        (spec_bytes d (if \<not> started \<and> ?b AND 0x80 \<noteq> 0 then [0] else []))"
      using byte_operation no_byte_operation by simp
    from bytes_then [OF this bytes_then [OF byte_operation Suc [of True]], of ?b] False show ?thesis
      by (simp only: asn1_uint64_bytes.simps(2) uint_bytes.simps(2) uint64_byte Let_def if_False)
  qed
qed

lemma uint_bytes_True: "uint_bytes v True n = be_bytes n v"
proof (induction n)
  case (Suc n)
  have "be_bytes (Suc n) v = of_nat (v div 256 ^ n) # be_bytes n v"
    by (induction n arbitrary: v) (simp_all add: div_mult2_eq)
  with Suc show ?case by simp
qed simp

lemma uint_bytes_minimal:
  assumes "v < 256 ^ n"
  shows "minimal_int (uint_bytes v False n) \<and> tc_val (uint_bytes v False n) = int v"
  using assms
proof (induction n)
  case 0
  then show ?case by (simp add: tc_val_def)
next
  case (Suc n)
  let ?b = "of_nat (v div 256 ^ n) :: u8"
  have lt: "v div 256 ^ n < 256" using Suc.prems by (simp add: less_mult_imp_div_less)
  then have b: "unat ?b = v div 256 ^ n" by (simp add: unat_of_nat_u8)
  have val: "be_val (?b # be_bytes n v) = v"
    using Suc.prems by (simp add: b be_val_be_bytes div_mult_mod_eq)
  show ?case
  proof (cases "?b = 0")
    case True
    then have "v < 256 ^ n" using b by (simp add: div_eq_0_iff)
    with Suc.IH True show ?thesis by simp
  next
    case nz: False
    show ?thesis
    proof (cases "?b AND 0x80 = 0")
      case True
      then have s: "unat ?b < 128" by (simp add: u8_high_bit)
      have "minimal_int (?b # be_bytes n v)"
        using s nz by (cases "be_bytes n v") (auto simp: u8_eq_iff)
      then show ?thesis
        using True nz s val tc_val_nonneg [of "?b # be_bytes n v"]
        by (simp add: uint_bytes_True del: be_val.simps)
    next
      case False
      then have s: "\<not> unat ?b < 128" by (simp add: u8_high_bit)
      then have "minimal_int (0 # ?b # be_bytes n v)" by (simp add: u8_eq_iff)
      then show ?thesis
        using False nz val tc_val_nonneg [of "0 # ?b # be_bytes n v"]
        by (simp add: uint_bytes_True)
    qed
  qed
qed

lemma length_uint_bytes: "length (uint_bytes v s n) \<le> Suc n"
  by (induction v s n rule: uint_bytes.induct) (auto simp: Let_def uint_bytes_True)

lemma add_asn1_uint64_operation [cbb_intros]:
  "\<exists>c. minimal_int c \<and> tc_val c = int (unat v) \<and>
     cbb_operation (CBB_add_asn1_uint64 d v) (spec_append d (der_encode CBS_ASN1_INTEGER c))"
proof (intro exI conjI)
  let ?c = "uint_bytes (unat v) False 8"
  have "unat v < 256 ^ 8" using unat_less_pow [of v] by simp
  from uint_bytes_minimal [OF this] show m: "minimal_int ?c" and "tc_val ?c = int (unat v)" by simp_all
  then have "?c \<noteq> []" by (metis minimal_int.simps(1))
  then have "cbb_operation (asn1_uint64_bytes (Suc d) v False 8) (spec_append (Suc d) ?c)"
    using uint64_bytes_operation [of "Suc d" v False 8] by (simp add: spec_bytes_def)
  then show "cbb_operation (CBB_add_asn1_uint64 d v) (spec_append d (der_encode CBS_ASN1_INTEGER ?c))"
    using length_uint_bytes [of "unat v" False 8]
    unfolding CBB_add_asn1_uint64_def by (simp add: element_operation)
qed

lemma add_bytes_down_operation:
  "n \<le> length u \<Longrightarrow> cbb_operation (add_bytes_down d u n) (spec_bytes d (rev (take n u)))"
proof (induction n)
  case 0
  then show ?case using no_byte_operation by simp
next
  case (Suc n)
  then have "rev (take (Suc n) u) = [u ! n] @ rev (take n u)"
    by (simp add: take_Suc_conv_app_nth)
  with bytes_then [OF byte_operation Suc.IH] Suc.prems show ?case by simp
qed

lemma int64_start:
  "int64_start u i \<le> i"
  "int64_start u i < j \<Longrightarrow> j \<le> i \<Longrightarrow> u ! j = 0xff"
  "int64_start u i < i \<Longrightarrow> 128 \<le> unat (u ! int64_start u i)"
  "0 < int64_start u i \<Longrightarrow> \<not> (u ! int64_start u i = 0xff \<and> 128 \<le> unat (u ! (int64_start u i - 1)))"
proof (induction i)
  case (Suc i)
  have "int64_start u i = i \<or> int64_start u i < i" using Suc.IH(1) by linarith
  {
    case 1
    show ?case using Suc.IH(1) by simp
  next
    case 2
    then show ?case using Suc.IH(2) by (auto simp: le_Suc_eq split: if_splits)
  next
    case 3
    then show ?case using Suc.IH(3) \<open>int64_start u i = i \<or> int64_start u i < i\<close>
      by (auto simp: sign_bit u8_high_bit not_less split: if_splits)
  next
    case 4
    then show ?case using Suc.IH(4) by (auto simp: sign_bit u8_high_bit not_less split: if_splits)
  }
qed simp_all

lemma le_bytes_64: "le_val (le_bytes 8 (unat (v :: u64))) = unat v"
  using unat_less_pow [of v] by (simp add: le_val_le_bytes)

lemma top_byte_negative:
  assumes "sint (v :: u64) < 0"
  shows "128 \<le> unat (le_bytes 8 (unat v) ! 7)"
proof -
  let ?u = "le_bytes 8 (unat v)"
  have "rev ?u \<noteq> []" by (metis length_le_bytes length_rev list.size(3) zero_neq_numeral)
  have v: "v = of_nat (unat v)" by simp
  have "2 ^ 63 \<le> unat v"
    using assms sint_of_nat_64 [of "unat v"] unat_less_pow [of v] by (auto split: if_splits)
  then have ge: "2 ^ 63 \<le> be_val (rev ?u)" by (simp only: be_val_rev le_bytes_64)
  obtain b bs where rb: "rev ?u = b # bs" using \<open>rev ?u \<noteq> []\<close> by (cases "rev ?u") auto
  have l: "length bs = 7" using arg_cong [OF rb, of length] by simp
  have "\<not> unat b < 128"
  proof
    assume "unat b < 128"
    then have "be_val (rev ?u) < 128 * 256 ^ length bs" unfolding rb by (rule be_val_hd_less)
    with ge l show False by simp
  qed
  moreover have "b = ?u ! 7"
    using arg_cong [OF rb, of hd] \<open>rev ?u \<noteq> []\<close> by (simp add: hd_rev last_conv_nth)
  ultimately show ?thesis by simp
qed

lemma sint_of_nat_nonneg:
  "n < 2 ^ 64 \<Longrightarrow> 0 \<le> sint (of_nat n :: u64) \<Longrightarrow> sint (of_nat n :: u64) = int n"
  by (auto simp: sint_of_nat_64 split: if_splits)

lemma add_asn1_int64_operation [cbb_intros]:
  "\<exists>c. minimal_int c \<and> tc_val c = sint v \<and>
     cbb_operation (CBB_add_asn1_int64 d v) (spec_append d (der_encode CBS_ASN1_INTEGER c))"
proof (cases "sint v \<ge> 0")
  case True
  then have "int (unat v) = sint v"
    using sint_of_nat_nonneg [of "unat v"] unat_less_pow [of v] by simp
  moreover have "CBB_add_asn1_int64 d v = CBB_add_asn1_uint64 d v"
    using True by (simp only: CBB_add_asn1_int64_def if_True)
  ultimately show ?thesis using add_asn1_uint64_operation [of v d] by (simp only:)
next
  case False
  let ?u = "le_bytes 8 (unat v)"
  define s where "s = int64_start ?u 7"
  define c where "c = rev (take (Suc s) ?u)"
  have s7: "s \<le> 7" unfolding s_def by (rule int64_start)
  have hi: "128 \<le> unat (?u ! s)"
    using int64_start(3) [where u = ?u and i = 7] top_byte_negative [of v] False s7
    by (cases "s = 7") (auto simp: s_def [symmetric])
  have tk: "take (Suc s) ?u = take s ?u @ [?u ! s]"
    using s7 by (simp add: take_Suc_conv_app_nth)
  then have hd: "hd c = ?u ! s" "c \<noteq> []" by (simp_all add: c_def)
  have len: "length c = Suc s" using s7 by (simp add: c_def)
  have "drop (Suc s) ?u = replicate (8 - Suc s) 0xff"
    using int64_start(2) [where u = ?u and i = 7] by (intro nth_equalityI) (auto simp: s_def [symmetric])
  then have u: "?u = rev c @ replicate (8 - length c) 0xff"
    unfolding len by (simp add: c_def) (metis append_take_drop_id)
  then have lv: "le_val (rev c @ replicate (8 - length c) 0xff) = unat v"
    using le_bytes_64 [of v] by (simp only:)
  have "0xff = (if 128 \<le> unat (hd c) then 0xff else 0 :: u8)" using hi by (simp add: hd(1))
  moreover have "length c \<le> 8" using len s7 by simp
  ultimately have "sint (of_nat (unat v) :: u64) = tc_val c"
    unfolding lv [symmetric] by (intro sint_sign_extended hd(2))
  then have val: "tc_val c = sint v" by simp
  have min: "minimal_int c"
  proof (cases s)
    case 0
    then have "length c = 1" using len by simp
    then show ?thesis by (auto simp: length_Suc_conv)
  next
    case (Suc t)
    then have "take (Suc s) ?u = take t ?u @ [?u ! t, ?u ! s]"
      using s7 tk by (simp add: take_Suc_conv_app_nth)
    then have "c = ?u ! s # ?u ! t # rev (take t ?u)" by (simp add: c_def)
    moreover have "\<not> (?u ! s = 0xff \<and> 128 \<le> unat (?u ! t))"
      using int64_start(4) [where u = ?u and i = 7] Suc by (simp add: s_def [symmetric])
    ultimately show ?thesis using hi by auto
  qed
  have "cbb_operation (add_bytes_down (Suc d) ?u (Suc s)) (spec_append (Suc d) c)"
    using add_bytes_down_operation [of "Suc s" ?u "Suc d"] s7 hd(2)
    by (simp add: spec_bytes_def c_def del: add_bytes_down.simps)
  then have "cbb_operation (CBB_add_asn1_int64 d v) (spec_append d (der_encode CBS_ASN1_INTEGER c))"
    using False s7 len unfolding CBB_add_asn1_int64_def Let_def s_def [symmetric]
    by (simp add: element_operation del: add_bytes_down.simps)
  with val min show ?thesis by blast
qed

interpretation add_bool: cbb_operation
  "CBB_add_asn1_bool d v" "spec_append d (der_encode CBS_ASN1_BOOLEAN [if v then 0xff else 0])" for d v
  unfolding CBB_add_asn1_bool_def Suc_eq_plus1 [symmetric]
  by (rule element_operation) (simp_all add: add_u8_operation)

lemma add_octet_string_operation [cbb_intros]:
  assumes "length data \<le> 0xfffffffe"
  shows "cbb_operation (CBB_add_asn1_octet_string d data)
    (spec_append d (der_encode CBS_ASN1_OCTETSTRING data))"
  unfolding CBB_add_asn1_octet_string_def Suc_eq_plus1 [symmetric]
  using assms by (intro element_operation add_bytes_operation) simp_all

section \<open>From creation to the finished bytes\<close>

lemma init_represents:
  assumes "CBB_init m f n = (True, st)" and "n < size_limit"
  shows "represents st [(Fixed 0, [])]" and "(\<forall>i. m i) \<Longrightarrow> k < size_limit \<Longrightarrow> room st k"
  using assms
  by (auto simp: CBB_init_def cbb_init_def CBB_zero_def represents_def wf_buffer_def wf_frames_def
      room_def fits_def split: if_splits option.splits)

lemma init_fixed_represents:
  assumes "CBB_init_fixed m f n = (True, st)" and "n < size_limit"
  shows "represents st [(Fixed 0, [])]" and "k \<le> n \<Longrightarrow> room st k"
  using assms
  by (auto simp: CBB_init_fixed_def cbb_init_def CBB_zero_def represents_def wf_buffer_def wf_frames_def
      room_def fits_def split: if_splits option.splits bool.splits prod.splits)

lemma init_succeeds: "(\<forall>i. m i) \<Longrightarrow> fst (CBB_init m f n)"
  by (simp add: CBB_init_def cbb_init_def OPENSSL_malloc_def)

lemma finish_sound:
  assumes "represents st fs" and "CBB_finish 0 out st = (Some x, st')"
  shows "flat (snd (hd fs)) (tl fs) = Some x"
proof -
  from assms(2) obtain st1 where f: "CBB_flush 0 st = (True, st1)"
    and "\<exists>b. base st1 = Some b \<and> buf b = x"
    by (auto simp: CBB_finish_def split: prod.splits bool.splits option.splits if_splits)
  moreover from flush_represents [OF assms(1) f] obtain k c ys c' where "fs = (k, c) # ys"
    "flat c ys = Some c'" "represents st1 [(k, c')]" by auto
  moreover from this have "k = Fixed 0" by (auto simp: represents_def wf_frames_def split: option.splits)
  ultimately show ?thesis by (auto simp: represents_def)
qed

lemma finish_complete:
  assumes "represents st fs" and "flat (snd (hd fs)) (tl fs) = Some x" and "room st (length x)"
  shows "fst (CBB_finish 0 True st) = Some x"
proof -
  have ne: "fs \<noteq> []" and k: "fst (hd fs) = Fixed 0"
    using assms(1) by (auto simp: represents_def wf_frames_def split: option.splits)
  then have "spec_append 0 [] fs = Some [(Fixed 0, x)]"
    using assms(2) by (cases fs) (auto simp: spec_append_def edit_def)
  moreover have "room st (length (layout [(Fixed 0, x)]))" using assms(3) by simp
  ultimately obtain st1 where st1: "CBB_flush 0 st = (True, st1)" "represents st1 [(Fixed 0, x)]"
    using flush.runs [OF assms(1)] by blast
  with represents_base [OF st1(2)] show ?thesis by (auto simp: CBB_finish_def)
qed

text \<open>A client that writes any tree of elements, children inside their parent.\<close>

datatype der_tree = Primitive u32 bytes | Constructed u32 "der_tree list"

fun tree_bytes :: "der_tree \<Rightarrow> bytes" where
  "tree_bytes (Primitive tag c) = der_encode tag c"
| "tree_bytes (Constructed tag ts) = der_encode tag (concat (map tree_bytes ts))"

fun tree_fits :: "der_tree \<Rightarrow> bool" where
  "tree_fits (Primitive tag c) \<longleftrightarrow> length c \<le> 0xfffffffe"
| "tree_fits (Constructed tag ts) \<longleftrightarrow>
     list_all tree_fits ts \<and> length (concat (map tree_bytes ts)) \<le> 0xfffffffe"

fun build_tree :: "nat \<Rightarrow> der_tree \<Rightarrow> cbb_st \<Rightarrow> bool \<times> cbb_st" where
  "build_tree d (Primitive tag c) =
     and_then (CBB_add_asn1 d tag) (and_then (CBB_add_bytes (Suc d) c) (CBB_flush d))"
| "build_tree d (Constructed tag ts) =
     and_then (CBB_add_asn1 d tag)
       (and_then (foldr (\<lambda>t. and_then (build_tree (Suc d) t)) ts (Pair True)) (CBB_flush d))"

lemma spec_open_close:
  assumes "seal k [] = Some e"
  shows "spec_seq (spec_open d a k) (spec_append d []) = spec_append d (a @ e)"
proof
  fix fs show "spec_seq (spec_open d a k) (spec_append d []) fs = spec_append d (a @ e) fs"
  proof (cases "d < length fs")
    case True
    then obtain xs k' c ys where "fs = xs @ (k', c) # ys" "length xs = d" by (rule frame_split)
    with assms show ?thesis
      by (auto simp: spec_seq_def spec_append_def spec_open_def edit_split split: option.splits)
  qed (simp add: spec_seq_def spec_append_def spec_open_def edit_def)
qed

lemma element_operation':
  assumes "cbb_operation f (spec_bytes (Suc d) data)" and "length data \<le> 0xfffffffe"
  shows "cbb_operation (and_then (CBB_add_asn1 d tag) (and_then f (CBB_flush d)))
    (spec_append d (der_encode tag data))"
proof (cases "data = []")
  case True
  have "cbb_operation (and_then (CBB_add_asn1 d tag) (and_then f (CBB_flush d)))
      (spec_seq (spec_open d (der_tag tag) Asn1) (spec_seq Some (spec_append d [])))"
    using assms(1) True by (intro cbb_intros flush.cbb_operation_axioms) (simp add: spec_bytes_def)
  then show ?thesis
    using True spec_open_close [of Asn1 "der_length 0" d "der_tag tag"] by (simp add: der_encode_def)
next
  case False
  with assms show ?thesis by (intro element_operation) (simp_all add: spec_bytes_def)
qed

lemma tree_bytes_neq_Nil: "tree_bytes t \<noteq> []"
  by (cases t) (simp_all add: der_encode_neq_Nil)

lemma build_tree_operation:
  "tree_fits t \<Longrightarrow> cbb_operation (build_tree d t) (spec_append d (tree_bytes t))"
proof (induction t arbitrary: d)
  case (Primitive tag c)
  then show ?case by (simp add: element_operation add_bytes_operation)
next
  case (Constructed tag ts)
  have "cbb_operation (foldr (\<lambda>t. and_then (build_tree (Suc d) t)) us (Pair True))
      (spec_bytes (Suc d) (concat (map tree_bytes us)))" if "set us \<subseteq> set ts" for us
    using that
  proof (induction us)
    case Nil
    then show ?case using no_byte_operation by simp
  next
    case (Cons u us)
    then have "cbb_operation (build_tree (Suc d) u) (spec_bytes (Suc d) (tree_bytes u))"
      using Constructed by (auto simp: spec_bytes_def tree_bytes_neq_Nil list_all_iff)
    from bytes_then [OF this Cons.IH] Cons.prems show ?case by simp
  qed
  from element_operation' [OF this [of ts], of tag] Constructed.prems show ?case by simp
qed

text \<open>What a client gets that runs one operation on a fresh builder.\<close>

lemma run_and_finish:
  assumes op: "cbb_operation f (spec_append 0 data)"
    and run: "CBB_init m fr n = (True, st)" "f st = (True, st1)" "CBB_finish 0 True st1 = (Some x, st2)"
    and n: "n < size_limit"
  shows "x = data"
proof -
  have r: "represents st [(Fixed 0, [])]" by (rule init_represents [OF run(1) n])
  from cbb_operation.sound [OF op r run(2)] have "represents st1 [(Fixed 0, data)]"
    by (auto simp: spec_append_def edit_def)
  from finish_sound [OF this run(3)] show ?thesis by simp
qed

lemma run_and_finish_exists:
  assumes op: "cbb_operation f (spec_append 0 data)" and "length data < size_limit"
    and m: "\<forall>i. m i" and n: "n < size_limit"
  shows "\<exists>st st1 st2. CBB_init m fr n = (True, st) \<and> f st = (True, st1)
    \<and> CBB_finish 0 True st1 = (Some data, st2)"
proof -
  obtain st where st: "CBB_init m fr n = (True, st)"
    using init_succeeds [OF m, of fr n] by (cases "CBB_init m fr n") auto
  have r: "represents st [(Fixed 0, [])]" by (rule init_represents [OF st n])
  have rm: "room st (length data)" using init_represents(2) [OF st n m assms(2)] .
  have "spec_append 0 data [(Fixed 0, [])] = Some [(Fixed 0, data)]"
    by (simp add: spec_append_def edit_def)
  moreover have "room st (length (layout [(Fixed 0, data)]))" using rm by simp
  ultimately obtain st1 where st1: "f st = (True, st1)" "represents st1 [(Fixed 0, data)]" "env_kept st st1"
    using cbb_operation.runs [OF op r] by blast
  from finish_complete [OF st1(2), of data] room_kept [OF st1(3) rm]
  obtain st2 where "CBB_finish 0 True st1 = (Some data, st2)" by (cases "CBB_finish 0 True st1") auto
  with st st1 show ?thesis by blast
qed

lemma run_and_finish_complete:
  assumes "cbb_operation f (spec_append 0 data)" and "length data < size_limit"
    and "\<forall>i. m i" and "n < size_limit"
  shows "fst (CBB_finish 0 True (snd (f (snd (CBB_init m fr n))))) = Some data"
  using run_and_finish_exists [OF assms, of fr] by auto

lemma minimal_int_short:
  assumes "minimal_int c" and "- (2 ^ 71) \<le> tc_val c" and "tc_val c < 2 ^ 71"
  shows "length (der_encode CBS_ASN1_INTEGER c) < size_limit"
proof -
  have "length c \<le> 9" using assms minimal_int_length [of c 9] by simp
  then show ?thesis
    using length_der_tag [of CBS_ASN1_INTEGER] len_bytes_range [of "length c"]
    by (simp add: der_encode_def der_length_def)
qed

lemma tree_bytes_length: "tree_fits t \<Longrightarrow> length (tree_bytes t) < size_limit"
proof -
  have l: "length (der_length n) \<le> 5" for n using len_bytes_range [of n] by (simp add: der_length_def)
  have "length (der_encode tag c) < size_limit" if "length c \<le> 0xfffffffe" for tag c
    using that length_der_tag [of tag] l [of "length c"] by (simp add: der_encode_def)
  then show "tree_fits t \<Longrightarrow> length (tree_bytes t) < size_limit" by (cases t) simp_all
qed

section \<open>Properties\<close>

text \<open>C2. For every tree of elements whose contents are short enough for the length encoding,
  opening, filling and flushing the builder along the tree and finishing it yields the DER
  encoding of the tree, when memory is not exhausted.\<close>

theorem builder_writes_der_tree:
  assumes "tree_fits t" and "\<forall>i. m i" and "n < size_limit"
  shows "fst (CBB_finish 0 True (snd (build_tree 0 t (snd (CBB_init m f n))))) = Some (tree_bytes t)"
  by (rule run_and_finish_complete [OF build_tree_operation tree_bytes_length]) (use assms in simp_all)

theorem builder_writes_der_tree_witness:
  "fst (CBB_finish 0 True (snd (build_tree 0
      (Constructed 0x20000010 [Primitive CBS_ASN1_INTEGER [5], Primitive CBS_ASN1_OCTETSTRING [1, 2]])
      (snd (CBB_init (\<lambda>_. True) (\<lambda>_. 0) 1))))) = Some [0x30, 7, 2, 1, 5, 4, 2, 1, 2]"
proof -
  let ?t = "Constructed 0x20000010 [Primitive CBS_ASN1_INTEGER [5], Primitive CBS_ASN1_OCTETSTRING [1, 2]]"
  have "tree_bytes ?t = [0x30, 7, 2, 1, 5, 4, 2, 1, 2]" and "tree_fits ?t"
    by (simp_all add: der_encode_def der_tag_def der_length_def CBS_ASN1_INTEGER_def CBS_ASN1_OCTETSTRING_def)
  with builder_writes_der_tree [of ?t "\<lambda>_. True" 1 "\<lambda>_. 0"] show ?thesis by simp
qed

text \<open>C5. What \<open>CBB_add_asn1_int64\<close> writes, whatever the allocator does, is read back by
  \<open>CBS_get_asn1_int64\<close> as the same integer, in front of any further bytes.\<close>

theorem asn1_int64_roundtrip:
  assumes "CBB_init m f n = (True, st)" and "CBB_add_asn1_int64 0 v st = (True, st1)"
    and "CBB_finish 0 True st1 = (Some x, st2)" and "n < size_limit"
  shows "CBS_get_asn1_int64 (x @ s) = (Some v, s)"
proof -
  from add_asn1_int64_operation [of v 0] obtain c where c: "minimal_int c" "tc_val c = sint v"
    "cbb_operation (CBB_add_asn1_int64 0 v) (spec_append 0 (der_encode CBS_ASN1_INTEGER c))" by blast
  from run_and_finish [OF c(3) assms] have "x = der_encode CBS_ASN1_INTEGER c" .
  with c show ?thesis by (auto simp: get_asn1_int64_iff)
qed

theorem asn1_int64_roundtrip_witness:
  "\<exists>st st1 st2 x. CBB_init (\<lambda>_. True) (\<lambda>_. 0) 0 = (True, st) \<and> CBB_add_asn1_int64 0 (- 129) st = (True, st1)
    \<and> CBB_finish 0 True st1 = (Some x, st2) \<and> CBS_get_asn1_int64 (x @ [7]) = (Some (- 129), [7])"
proof -
  have v: "sint (- 129 :: u64) = - 129" by simp
  from add_asn1_int64_operation [of "- 129" 0] obtain c where c: "minimal_int c" "tc_val c = - 129"
    "cbb_operation (CBB_add_asn1_int64 0 (- 129)) (spec_append 0 (der_encode CBS_ASN1_INTEGER c))"
    unfolding v by blast
  from run_and_finish_exists [OF c(3) minimal_int_short [OF c(1)], of "\<lambda>_. True" 0 "\<lambda>_. 0"] c(2)
  obtain st st1 st2 where r: "CBB_init (\<lambda>_. True) (\<lambda>_. 0) 0 = (True, st)" "CBB_add_asn1_int64 0 (- 129) st = (True, st1)"
    "CBB_finish 0 True st1 = (Some (der_encode CBS_ASN1_INTEGER c), st2)" by auto
  from asn1_int64_roundtrip [OF r, of "[7]"] r show ?thesis by auto
qed

text \<open>What \<open>CBB_add_asn1_uint64\<close> writes is read back by \<open>CBS_get_asn1_uint64\<close> as the
  same integer.\<close>

theorem asn1_uint64_roundtrip:
  assumes "CBB_init m f n = (True, st)" and "CBB_add_asn1_uint64 0 v st = (True, st1)"
    and "CBB_finish 0 True st1 = (Some x, st2)" and "n < size_limit"
  shows "CBS_get_asn1_uint64 (x @ s) = (Some v, s)"
proof -
  from add_asn1_uint64_operation [of v 0] obtain c where c: "minimal_int c" "tc_val c = int (unat v)"
    "cbb_operation (CBB_add_asn1_uint64 0 v) (spec_append 0 (der_encode CBS_ASN1_INTEGER c))" by blast
  from run_and_finish [OF c(3) assms] have "x = der_encode CBS_ASN1_INTEGER c" .
  with c show ?thesis by (auto simp: get_asn1_uint64_iff)
qed

theorem asn1_uint64_roundtrip_witness:
  "\<exists>st st1 st2 x. CBB_init (\<lambda>_. True) (\<lambda>_. 0) 0 = (True, st) \<and> CBB_add_asn1_uint64 0 (2 ^ 63) st = (True, st1)
    \<and> CBB_finish 0 True st1 = (Some x, st2) \<and> CBS_get_asn1_uint64 (x @ [7]) = (Some (2 ^ 63), [7])"
proof -
  have v: "int (unat (2 ^ 63 :: u64)) = 2 ^ 63" by simp
  from add_asn1_uint64_operation [of "2 ^ 63" 0] obtain c where c: "minimal_int c" "tc_val c = 2 ^ 63"
    "cbb_operation (CBB_add_asn1_uint64 0 (2 ^ 63)) (spec_append 0 (der_encode CBS_ASN1_INTEGER c))"
    unfolding v by blast
  from run_and_finish_exists [OF c(3) minimal_int_short [OF c(1)], of "\<lambda>_. True" 0 "\<lambda>_. 0"] c(2)
  obtain st st1 st2 where r: "CBB_init (\<lambda>_. True) (\<lambda>_. 0) 0 = (True, st)" "CBB_add_asn1_uint64 0 (2 ^ 63) st = (True, st1)"
    "CBB_finish 0 True st1 = (Some (der_encode CBS_ASN1_INTEGER c), st2)" by auto
  from asn1_uint64_roundtrip [OF r, of "[7]"] r show ?thesis by auto
qed

end
