(* ===== verification/CBB_Safety.thy ===== *)
theory CBB_Safety
  imports CBB_Refine
begin

text \<open>
  The builder under arbitrary use. The contracts \<open>cbb_keeps\<close> and \<open>cbb_safe\<close> say what an
  operation keeps in any state, whether it succeeds or fails; \<open>cbb_call\<close> is one call of the
  interface as a step relation, and the invariants hold in every reachable state.
\<close>

unbundle bit_operations_syntax

section \<open>Any sequence of calls\<close>

text \<open>
  What every operation keeps, whatever the state and the arguments, also when it fails and
  also for a state no correct client reaches: the valid bytes never exceed the capacity, the
  capacity of a fixed buffer never changes, and an error is never forgotten.
\<close>

definition chain_ok :: "cbb_child list \<Rightarrow> bool" where
  "chain_ok cs \<longleftrightarrow> list_all (\<lambda>c. offset c < size_limit \<and> pending_len_len c < 256) cs"

definition buffer_kept :: "cbb_buffer_st \<Rightarrow> cbb_buffer_st \<Rightarrow> bool" where
  "buffer_kept b b' \<longleftrightarrow> wf_buffer b' \<and> can_resize b' = can_resize b \<and> cap b \<le> cap b'
     \<and> (\<not> can_resize b \<longrightarrow> cap b' = cap b) \<and> (error b \<longrightarrow> error b')"

definition state_kept :: "cbb_st \<Rightarrow> cbb_st \<Rightarrow> bool" where
  "state_kept st st' \<longleftrightarrow>
     (case base st' of
        None \<Rightarrow> True
      | Some b' \<Rightarrow> (case base st of None \<Rightarrow> False | Some b \<Rightarrow> buffer_kept b b') \<and> chain_ok (chain st'))"

definition state_ok :: "cbb_st \<Rightarrow> bool" where
  "state_ok st \<longleftrightarrow> (case base st of None \<Rightarrow> True | Some b \<Rightarrow> wf_buffer b \<and> chain_ok (chain st))"

lemma chain_ok_simps [simp]:
  "chain_ok []"
  "chain_ok (c # cs) \<longleftrightarrow> offset c < size_limit \<and> pending_len_len c < 256 \<and> chain_ok cs"
  "chain_ok (xs @ ys) \<longleftrightarrow> chain_ok xs \<and> chain_ok ys"
  by (auto simp: chain_ok_def)

lemma chain_ok_take: "chain_ok cs \<Longrightarrow> chain_ok (take n cs)"
  and chain_ok_drop: "chain_ok cs \<Longrightarrow> chain_ok (drop n cs)"
  unfolding chain_ok_def by (auto simp: list_all_iff dest: in_set_takeD in_set_dropD)

lemma buffer_kept_refl: "wf_buffer b \<Longrightarrow> buffer_kept b b"
  by (simp add: buffer_kept_def)

lemma buffer_kept_trans: "buffer_kept b b1 \<Longrightarrow> buffer_kept b1 b2 \<Longrightarrow> buffer_kept b b2"
  by (auto simp: buffer_kept_def)

lemma buffer_kept_wf: "buffer_kept b b' \<Longrightarrow> wf_buffer b'"
  by (simp add: buffer_kept_def)

lemma buffer_kept_error: "wf_buffer b \<Longrightarrow> buffer_kept b (b\<lparr>error := True\<rparr>)"
  by (simp add: buffer_kept_def wf_buffer_def)

lemma grows_to_kept: "grows_to b r b' \<Longrightarrow> buffer_kept b b'"
  by (auto simp: buffer_kept_def grows_to_def)

lemma fail_kept: "wf_buffer b \<Longrightarrow> cbb_buffer_fail b = (ok, b') \<Longrightarrow> buffer_kept b b' \<and> \<not> ok"
  by (auto simp: cbb_buffer_fail_def buffer_kept_error)

lemma add_kept: "cbb_buffer_add b n = (ok, b') \<Longrightarrow> wf_buffer b \<Longrightarrow> n < size_limit \<Longrightarrow> buffer_kept b b'"
  by (cases ok) (auto dest!: add_ok add_fail intro: grows_to_kept buffer_kept_error)

lemma add_write_kept:
  "cbb_buffer_add_write b d = (ok, b') \<Longrightarrow> wf_buffer b \<Longrightarrow> length d < size_limit \<Longrightarrow> buffer_kept b b'"
  by (cases ok) (auto dest!: add_write_ok add_write_fail intro: grows_to_kept buffer_kept_error)

lemma reserve_kept: "cbb_buffer_reserve b n = (ok, b') \<Longrightarrow> wf_buffer b \<Longrightarrow> n < size_limit \<Longrightarrow> buffer_kept b b'"
  by (cases ok) (auto dest!: reserve_ok reserve_fail intro: grows_to_kept buffer_kept_error)

lemma add_u_kept:
  assumes "cbb_buffer_add_u b v n = (ok, b')" and wf: "wf_buffer b" and n: "n \<le> 8"
  shows "buffer_kept b b'"
proof (cases "n = 0")
  case False
  obtain d r where p: "put_be_loop n v [] = (d, r)" by (cases "put_be_loop n v []")
  then have "length d < size_limit" using n put_be_loop_value [OF p] by simp
  obtain ok1 b1 where a: "cbb_buffer_add_write b d = (ok1, b1)" by (cases "cbb_buffer_add_write b d")
  from add_write_kept [OF this wf \<open>length d < size_limit\<close>] have k: "buffer_kept b b1" .
  then have "buffer_kept b1 b'"
    using assms(1) False p a
    by (auto simp: cbb_buffer_add_u_def cbb_buffer_fail_def split: bool.splits if_splits
        intro: buffer_kept_refl buffer_kept_error buffer_kept_wf)
  with k show ?thesis by (rule buffer_kept_trans)
qed (use assms in \<open>simp add: cbb_buffer_add_u_def buffer_kept_refl\<close>)

lemma length_mem_write: "off + length d \<le> length m \<Longrightarrow> length (mem_write m off d) = length m"
  by (simp add: mem_write_def)

lemma write_kept: "off + length d \<le> base_len b \<Longrightarrow> wf_buffer b \<Longrightarrow> buffer_kept b (b\<lparr>buf := mem_write (buf b) off d\<rparr>)"
  by (simp add: buffer_kept_def wf_buffer_def length_mem_write)

lemma write_prefix_kept:
  assumes "cbb_write_prefix b off n len = (ok, b')" and "off + n \<le> base_len b" and "wf_buffer b"
  shows "buffer_kept b b'"
proof -
  obtain d r where p: "put_be_loop n (of_nat len) [] = (d, r)" by (cases "put_be_loop n (of_nat len) []")
  then have "length d = n" using put_be_loop_value [OF p] by simp
  let ?b = "b\<lparr>buf := mem_write (buf b) off d\<rparr>"
  have k: "buffer_kept b ?b" using write_kept assms \<open>length d = n\<close> by blast
  have "b' = ?b \<or> b' = ?b\<lparr>error := True\<rparr>"
    using assms(1) p by (auto simp: cbb_write_prefix_def cbb_buffer_fail_def Let_def split: if_splits)
  with k buffer_kept_trans [OF k buffer_kept_error [OF buffer_kept_wf [OF k]]] show ?thesis by auto
qed

lemma close_child_kept:
  assumes r: "cbb_close_child b c = (ok, b')" and wf: "wf_buffer b"
    and c: "offset c < size_limit" "pending_len_len c < 256" "pending_len_len c \<noteq> 0"
  shows "buffer_kept b b'"
proof -
  let ?cs = "size_add (offset c) (pending_len_len c)"
  show ?thesis
  proof (cases "?cs < offset c \<or> base_len b < ?cs")
    case True
    then show ?thesis using r fail_kept [OF wf] by (simp add: cbb_close_child_def Let_def)
  next
    case ok: False
    then have cs: "?cs = offset c + pending_len_len c"
      using size_add_overflow [of "offset c" "pending_len_len c"] c by (simp add: size_add_exact)
    then have le: "offset c + pending_len_len c \<le> base_len b" using ok by simp
    note r1 = r [unfolded cbb_close_child_def Let_def cs]
    show ?thesis
    proof (cases "pending_is_asn1 c")
      case False
      with r1 le have "cbb_write_prefix b (offset c) (pending_len_len c)
          (base_len b - (offset c + pending_len_len c)) = (ok, b')" by simp
      from write_prefix_kept [OF this le wf] show ?thesis .
    next
      case True
      let ?len = "base_len b - (offset c + pending_len_len c)"
      show ?thesis
      proof (cases "asn1_len_len ?len")
        case None
        with r1 le True fail_kept [OF wf] show ?thesis by simp
      next
        case (Some li)
        obtain l i where li: "li = (l, i)" by (cases li)
        have l: "1 \<le> l" "l \<le> 5" using asn1_len_len_der [OF Some [unfolded li]] by auto
        obtain add b1 where a: "(if l \<noteq> 1 then
             (case cbb_buffer_add b (l - 1) of (False, b) \<Rightarrow> (False, b)
              | (True, b) \<Rightarrow> (True, b\<lparr>buf := OPENSSL_memmove (buf b)
                  (offset c + pending_len_len c + (l - 1)) (offset c + pending_len_len c) ?len\<rparr>))
           else (True, b)) = (add, b1)" (is "?A = _") by (cases ?A)
        have k1: "buffer_kept b b1 \<and> (add \<longrightarrow> base_len b1 = base_len b + (l - 1))"
        proof (cases "l = 1")
          case True
          with a wf show ?thesis by (auto intro: buffer_kept_refl)
        next
          case ne: False
          have "l - 1 < size_limit" using l(2) by simp
          obtain ad b0 where ad: "cbb_buffer_add b (l - 1) = (ad, b0)" by (cases "cbb_buffer_add b (l - 1)")
          note k0 = add_kept [OF ad wf \<open>l - 1 < size_limit\<close>]
          show ?thesis
          proof (cases ad)
            case False
            with a ad ne k0 show ?thesis by auto
          next
            case True
            then obtain e where e: "length e = l - 1" "buf b0 = buf b @ e"
              using add_ok [OF _ wf \<open>l - 1 < size_limit\<close>, of b0] ad by (auto simp: grows_to_def)
            have b1: "add" "b1 = b0\<lparr>buf := OPENSSL_memmove (buf b0)
                (offset c + pending_len_len c + (l - 1)) (offset c + pending_len_len c) ?len\<rparr>"
              using a ad ne True by auto
            have "buffer_kept b0 b1"
              unfolding b1(2) OPENSSL_memmove_def
              by (rule write_kept [OF _ buffer_kept_wf [OF k0]]) (use e le l in simp)
            moreover have "base_len b1 = base_len b + (l - 1)"
              using e le l by (simp add: b1(2) OPENSSL_memmove_def length_mem_write)
            ultimately show ?thesis using k0 by (blast intro: buffer_kept_trans)
          qed
        qed
        note wf1 = buffer_kept_wf [OF conjunct1 [OF k1]]
        show ?thesis
        proof (cases add)
          case False
          with r1 le True Some li a have "cbb_buffer_fail b1 = (ok, b')" by simp
          with fail_kept [OF wf1] k1 show ?thesis by (blast intro: buffer_kept_trans)
        next
          case add: True
          let ?b2 = "b1\<lparr>buf := mem_write (buf b1) (offset c) [i]\<rparr>"
          have len1: "offset c + l \<le> base_len b1" using k1 add le c(3) l by simp
          have k2: "buffer_kept b1 ?b2" by (rule write_kept [OF _ wf1]) (use len1 l in simp)
          have "cbb_write_prefix ?b2 (offset c + 1) (l - 1) (if l = 1 then 0 else ?len) = (ok, b')"
            using r1 le True Some li a add by simp
          from write_prefix_kept [OF this _ buffer_kept_wf [OF k2]] len1 l
          have "buffer_kept ?b2 b'" by (simp add: length_mem_write)
          with k1 k2 show ?thesis by (blast intro: buffer_kept_trans)
        qed
      qed
    qed
  qed
qed

lemma flush_chain_kept:
  assumes "cbb_flush_chain b cs = (ok, b', cs')" and "wf_buffer b" and "chain_ok cs"
  shows "buffer_kept b b' \<and> chain_ok cs' \<and> (error b \<longrightarrow> \<not> ok)"
  using assms
proof (induction b cs arbitrary: ok b' cs' rule: cbb_flush_chain.induct)
  case (1 b)
  then show ?case by (auto intro: buffer_kept_refl)
next
  case (2 b c cs)
  show ?case
  proof (cases "error b \<or> pending_len_len c = 0")
    case True
    with 2 show ?thesis by (auto simp: buffer_kept_refl split: if_splits)
  next
    case False
    obtain ok1 b1 cs1 where f: "cbb_flush_chain b cs = (ok1, b1, cs1)" by (cases "cbb_flush_chain b cs")
    have IH: "buffer_kept b b1" "chain_ok cs1"
      using 2(1) [OF _ _ f] False 2(3,4) by simp_all
    show ?thesis
    proof (cases ok1)
      case nok: False
      with 2(2) False f have "b' = b1\<lparr>error := True\<rparr>" "\<not> ok" "cs' = c # cs1" by simp_all
      with IH 2(4) buffer_kept_error [OF buffer_kept_wf [OF IH(1)]] False show ?thesis
        by (auto intro: buffer_kept_trans)
    next
      case True
      obtain ok2 b2 where cl: "cbb_close_child b1 c = (ok2, b2)" by (cases "cbb_close_child b1 c")
      have "buffer_kept b1 b2"
        using close_child_kept [OF cl buffer_kept_wf [OF IH(1)]] 2(4) False by simp
      moreover have "b' = b2" "chain_ok cs'" using 2(2,4) False f True cl IH(2) by (auto split: bool.splits)
      ultimately show ?thesis using IH(1) False by (auto intro: buffer_kept_trans)
    qed
  qed
qed

text \<open>The contracts: an operation that keeps this, and one that also fails after an error.\<close>

locale cbb_keeps =
  fixes run :: "cbb_st \<Rightarrow> bool \<times> cbb_st"
  assumes keeps: "state_ok st \<Longrightarrow> run st = (ok, st') \<Longrightarrow> state_kept st st'"
begin

lemma keeps_ok: "state_ok st \<Longrightarrow> run st = (ok, st') \<Longrightarrow> state_ok st'"
  using keeps [of st ok st']
  by (auto simp: state_kept_def state_ok_def buffer_kept_def split: option.splits)

end

locale cbb_safe = cbb_keeps +
  assumes error_fails: "state_ok st \<Longrightarrow> base st = Some b \<Longrightarrow> error b \<Longrightarrow> \<not> fst (run st)"

named_theorems safe_intros
named_theorems keeps_intros

lemma state_kept_refl: "state_ok st \<Longrightarrow> state_kept st st"
  by (auto simp: state_ok_def state_kept_def buffer_kept_refl split: option.splits)

lemma state_kept_trans: "state_kept st st1 \<Longrightarrow> state_kept st1 st2 \<Longrightarrow> state_kept st st2"
  by (auto simp: state_kept_def split: option.splits intro: buffer_kept_trans)

lemma state_kept_ok: "state_ok st \<Longrightarrow> state_kept st st' \<Longrightarrow> state_ok st'"
  by (auto simp: state_kept_def state_ok_def buffer_kept_def split: option.splits)

lemma cbb_safe_keeps: "cbb_safe f \<Longrightarrow> cbb_keeps f"
  by (rule cbb_safe.axioms)

lemma keeps_return [keeps_intros]: "cbb_keeps (Pair r)"
  by unfold_locales (auto intro: state_kept_refl)

lemma keeps_and_then [keeps_intros]:
  assumes "cbb_keeps f" and "cbb_keeps g"
  shows "cbb_keeps (and_then f g)"
proof
  fix st ok st' assume "state_ok st" and a: "and_then f g st = (ok, st')"
  obtain r st1 where f: "f st = (r, st1)" by (cases "f st")
  with \<open>state_ok st\<close> have "state_kept st st1" "state_ok st1"
    using cbb_keeps.keeps [OF assms(1)] cbb_keeps.keeps_ok [OF assms(1)] by blast+
  moreover have "(\<not> r \<and> st' = st1) \<or> g st1 = (ok, st')"
    using a f by (cases r) (auto simp: and_then_def)
  ultimately show "state_kept st st'"
    using cbb_keeps.keeps [OF assms(2)] by (blast intro: state_kept_trans)
qed

lemma safe_and_then [safe_intros]:
  assumes "cbb_safe f" and "cbb_keeps g"
  shows "cbb_safe (and_then f g)"
proof (intro cbb_safe.intro cbb_safe_axioms.intro)
  show "cbb_keeps (and_then f g)"
    using assms by (intro keeps_and_then) (rule cbb_safe_keeps)
  fix st b assume "state_ok st" "base st = Some b" "error b"
  then have "\<not> fst (f st)" by (rule cbb_safe.error_fails [OF assms(1)])
  then show "\<not> fst (and_then f g st)" by (cases "f st") (auto simp: and_then_def split: bool.splits)
qed

lemma keeps_if [keeps_intros]: "cbb_keeps f \<Longrightarrow> cbb_keeps g \<Longrightarrow> cbb_keeps (if b then f else g)"
  by simp

lemma safe_if [safe_intros]: "cbb_safe f \<Longrightarrow> cbb_safe g \<Longrightarrow> cbb_safe (if b then f else g)"
  by simp

lemma safe_flush [safe_intros]: "cbb_safe (CBB_flush d)"
proof
  show "state_kept st st'" if ok: "state_ok st" and f: "CBB_flush d st = (r, st')" for st r st'
  proof (cases "base st")
    case None
    with f ok show ?thesis by (auto simp: CBB_flush_def intro: state_kept_refl)
  next
    case (Some b)
    show ?thesis
    proof (cases "length (chain st) < d")
      case True
      with Some f ok show ?thesis by (auto simp: CBB_flush_def intro: state_kept_refl)
    next
      case False
      obtain r1 b1 cs where fc: "cbb_flush_chain b (drop d (chain st)) = (r1, b1, cs)"
        by (cases "cbb_flush_chain b (drop d (chain st))")
      have "wf_buffer b" "chain_ok (chain st)" using ok Some by (simp_all add: state_ok_def)
      with flush_chain_kept [OF fc this(1)] f Some False fc show ?thesis
        by (auto simp: CBB_flush_def state_kept_def chain_ok_take chain_ok_drop)
    qed
  qed
  show "\<not> fst (CBB_flush d st)" if "state_ok st" "base st = Some b" "error b" for st b
  proof -
    obtain r1 b1 cs where fc: "cbb_flush_chain b (drop d (chain st)) = (r1, b1, cs)"
      by (cases "cbb_flush_chain b (drop d (chain st))")
    have "wf_buffer b" "chain_ok (chain st)" using that by (simp_all add: state_ok_def)
    with flush_chain_kept [OF fc this(1)] that fc show ?thesis
      by (auto simp: CBB_flush_def chain_ok_drop)
  qed
qed

text \<open>The step after a flush, on the base alone.\<close>

lemma safe_on_flushed:
  assumes f: "\<And>b ok b'. wf_buffer b \<Longrightarrow> f b = (ok, b') \<Longrightarrow> buffer_kept b b'"
  shows "cbb_safe (on_flushed d f)"
proof -
  let ?g = "\<lambda>cbb. case base cbb of None \<Rightarrow> (False, cbb)
     | Some b \<Rightarrow> (case f b of (ok, b) \<Rightarrow> (ok, cbb\<lparr>base := Some b\<rparr>))"
  have "cbb_keeps ?g"
  proof
    fix st ok st' assume s: "state_ok st" and g: "?g st = (ok, st')"
    show "state_kept st st'"
    proof (cases "base st")
      case None
      with g s show ?thesis by (auto intro: state_kept_refl)
    next
      case (Some b)
      then have "wf_buffer b" "chain_ok (chain st)" using s by (simp_all add: state_ok_def)
      with g Some f [of b] show ?thesis by (cases "f b") (auto simp: state_kept_def)
    qed
  qed
  moreover have "on_flushed d f = and_then (CBB_flush d) ?g"
    by (auto simp: on_flushed_def and_then_def)
  ultimately show ?thesis by (simp add: safe_and_then safe_flush)
qed

lemma safe_add_bytes [safe_intros]: "length data < size_limit \<Longrightarrow> cbb_safe (CBB_add_bytes d data)"
  unfolding CBB_add_bytes_def by (rule safe_on_flushed) (rule add_write_kept)

lemma safe_add_space [safe_intros]: "n < size_limit \<Longrightarrow> cbb_safe (CBB_add_space d n)"
  unfolding CBB_add_space_def by (rule safe_on_flushed) (rule add_kept)

lemma safe_reserve [safe_intros]: "n < size_limit \<Longrightarrow> cbb_safe (CBB_reserve d n)"
  unfolding CBB_reserve_def by (rule safe_on_flushed) (rule reserve_kept)

lemma safe_add_u [safe_intros]:
  "cbb_safe (CBB_add_u8 d v8)" "cbb_safe (CBB_add_u16 d v16)" "cbb_safe (CBB_add_u24 d v32)"
  "cbb_safe (CBB_add_u32 d v32)" "cbb_safe (CBB_add_u64 d v64)"
  unfolding CBB_add_u8_def CBB_add_u16_def CBB_add_u24_def CBB_add_u32_def CBB_add_u64_def
  by (rule safe_on_flushed, simp add: add_u_kept)+

lemmas keeps_flush [keeps_intros] = cbb_safe_keeps [OF safe_flush]
lemmas keeps_add_u [keeps_intros] = safe_add_u [THEN cbb_safe_keeps]

lemma keeps_open_child [keeps_intros]:
  assumes "n < 256"
  shows "cbb_keeps (cbb_open_child n)"
proof
  fix st ok st' assume s: "state_ok st" and o: "cbb_open_child n st = (ok, st')"
  show "state_kept st st'"
  proof (cases "base st")
    case None
    with o s show ?thesis by (auto simp: cbb_open_child_def intro: state_kept_refl)
  next
    case (Some b)
    then have b: "wf_buffer b" "chain_ok (chain st)" using s by (simp_all add: state_ok_def)
    then have "base_len b < size_limit" by (simp add: wf_buffer_def)
    moreover obtain r b1 where a: "cbb_buffer_add_write b (replicate n 0) = (r, b1)"
      by (cases "cbb_buffer_add_write b (replicate n 0)")
    moreover have "buffer_kept b b1" using add_write_kept [OF a b(1)] assms by simp
    ultimately show ?thesis
      using o Some b assms by (cases r) (auto simp: cbb_open_child_def state_kept_def)
  qed
qed

lemma keeps_open_asn1 [keeps_intros]: "cbb_keeps (cbb_open_asn1 d)"
proof
  fix st ok st' assume s: "state_ok st" and o: "cbb_open_asn1 d st = (ok, st')"
  show "state_kept st st'"
  proof (cases "base st")
    case None
    with o s show ?thesis by (auto simp: cbb_open_asn1_def intro: state_kept_refl)
  next
    case (Some b)
    then have "base_len b < size_limit" using s by (simp add: state_ok_def wf_buffer_def)
    moreover obtain r st1 where a: "CBB_add_u8 d 0 st = (r, st1)" by (cases "CBB_add_u8 d 0 st")
    moreover have "state_kept st st1"
      using s a by (rule cbb_keeps.keeps [OF cbb_safe_keeps [OF safe_add_u(1)]])
    ultimately show ?thesis
      using o Some by (cases r) (auto simp: cbb_open_asn1_def Let_def state_kept_def split: option.splits)
  qed
qed

lemma safe_add_length_prefixed [safe_intros]: "n < 256 \<Longrightarrow> cbb_safe (cbb_add_length_prefixed d n)"
  unfolding cbb_add_length_prefixed_def by (intro safe_intros keeps_intros)

lemma keeps_base128_loop [keeps_intros]: "cbb_keeps (base128_loop d v n)"
  by (induction n) (simp_all add: Let_def keeps_intros)

lemma safe_add_base128 [safe_intros]: "cbb_safe (add_base128_integer d v)"
proof -
  have "cbb_safe (base128_loop d v (Suc n))" for n
    unfolding base128_loop.simps Let_def by (intro safe_intros keeps_intros)
  from this [of "base128_len v - 1"] this [of 0] show ?thesis
    unfolding add_base128_integer_def by (cases "base128_len v") simp_all
qed

lemmas keeps_add_base128 [keeps_intros] = cbb_safe_keeps [OF safe_add_base128]

lemma safe_add_asn1 [safe_intros]: "cbb_safe (CBB_add_asn1 d tag)"
  unfolding CBB_add_asn1_def Let_def by (intro safe_intros keeps_intros)

lemma keeps_uint64_bytes [keeps_intros]: "cbb_keeps (asn1_uint64_bytes d v started n)"
proof (induction n arbitrary: started)
  case 0
  then show ?case by (simp add: keeps_intros)
next
  case (Suc n)
  show ?case unfolding asn1_uint64_bytes.simps Let_def by (intro keeps_intros Suc)
qed

lemma keeps_bytes_down [keeps_intros]: "cbb_keeps (add_bytes_down d u n)"
  by (induction n) (simp_all add: keeps_intros)

lemma safe_add_asn1_uint64 [safe_intros]: "cbb_safe (CBB_add_asn1_uint64 d v)"
  unfolding CBB_add_asn1_uint64_def by (intro safe_intros keeps_intros)

lemma safe_add_asn1_int64 [safe_intros]: "cbb_safe (CBB_add_asn1_int64 d v)"
  unfolding CBB_add_asn1_int64_def Let_def by (intro safe_intros keeps_intros)

lemma safe_add_asn1_bool [safe_intros]: "cbb_safe (CBB_add_asn1_bool d t)"
  unfolding CBB_add_asn1_bool_def by (intro safe_intros keeps_intros)

lemma safe_octet_string [safe_intros]:
  "length data < size_limit \<Longrightarrow> cbb_safe (CBB_add_asn1_octet_string d data)"
  unfolding CBB_add_asn1_octet_string_def
  by (intro safe_intros keeps_intros cbb_safe_keeps [OF safe_add_bytes])

lemma keeps_did_write [keeps_intros]:
  assumes "length w < size_limit"
  shows "cbb_keeps (CBB_did_write d w)"
proof
  fix st ok st' assume s: "state_ok st" and o: "CBB_did_write d w st = (ok, st')"
  show "state_kept st st'"
  proof (cases "base st")
    case None
    with o s show ?thesis by (auto simp: CBB_did_write_def intro: state_kept_refl)
  next
    case (Some b)
    then have b: "wf_buffer b" "chain_ok (chain st)" using s by (simp_all add: state_ok_def)
    then have lt: "base_len b < size_limit" by (simp add: wf_buffer_def)
    have "state_kept st st" using s by (rule state_kept_refl)
    moreover have "buffer_kept b (b\<lparr>buf := buf b @ w\<rparr>)"
      if "\<not> size_add (base_len b) (length w) < base_len b" "\<not> size_add (base_len b) (length w) > cap b"
      using that size_add_overflow [OF lt assms] b
      by (auto simp: buffer_kept_def wf_buffer_def size_add_exact)
    ultimately show ?thesis
      using o Some b by (auto simp: CBB_did_write_def Let_def state_kept_def split: if_splits)
  qed
qed

lemma discard_child_keeps: "state_ok st \<Longrightarrow> state_kept st (CBB_discard_child d st)"
  by (auto simp: CBB_discard_child_def state_ok_def state_kept_def buffer_kept_def wf_buffer_def chain_ok_take
      split: option.splits)

lemma keeps_oid_text_loop: "state_ok st \<Longrightarrow> oid_text_loop d cbs st = (ok, st') \<Longrightarrow> state_kept st st'"
proof (induction d cbs st rule: oid_text_loop.induct)
  case (1 d cbs st)
  show ?case
  proof (cases "CBS_len cbs = 0 \<or> fst (parse_dotted_decimal cbs) = None")
    case True
    with 1(2,3) show ?thesis
      by (auto simp: oid_text_loop.simps [of d cbs] state_kept_refl split: prod.splits option.splits if_splits)
  next
    case False
    then obtain a cbs' where p: "parse_dotted_decimal cbs = (Some a, cbs')"
      by (cases "parse_dotted_decimal cbs") auto
    obtain r st1 where a: "add_base128_integer d a st = (r, st1)" by (cases "add_base128_integer d a st")
    note k = cbb_keeps.keeps [OF keeps_add_base128 1(2) a]
    show ?thesis
    proof (cases r)
      case True
      with 1(3) False p a have "oid_text_loop d cbs' st1 = (ok, st')"
        by (simp add: oid_text_loop.simps [of d cbs])
      with 1(1) [OF _ p [symmetric] refl a [symmetric], unfolded True] False True
        state_kept_ok [OF 1(2) k] k show ?thesis
        by (auto intro: state_kept_trans)
    next
      case r: False
      with 1(3) False p a k show ?thesis by (simp add: oid_text_loop.simps [of d cbs])
    qed
  qed
qed

lemma safe_oid_from_text [safe_intros]: "cbb_safe (CBB_add_asn1_oid_from_text d text len)"
  unfolding CBB_add_asn1_oid_from_text_def
proof (rule safe_and_then [OF safe_flush])
  let ?g = "\<lambda>cbb. case parse_dotted_decimal (CBS_init text len) of
           (None, _) \<Rightarrow> (False, cbb)
         | (Some a, cbs) \<Rightarrow>
         (case parse_dotted_decimal cbs of
            (None, _) \<Rightarrow> (False, cbb)
          | (Some b, cbs) \<Rightarrow>
              if a > 2 \<or> (a < 2 \<and> b > 39) \<or> b > - 1 - 80 then (False, cbb)
              else and_then (add_base128_integer d (40 * a + b)) (oid_text_loop d cbs) cbb)"
  have "cbb_keeps (oid_text_loop d cbs)" for cbs
    by unfold_locales (rule keeps_oid_text_loop)
  then have k: "cbb_keeps (and_then (add_base128_integer d v) (oid_text_loop d cbs))" for v cbs
    by (intro keeps_intros)
  show "cbb_keeps ?g"
  proof
    fix st ok st' assume "state_ok st" "?g st = (ok, st')"
    then show "state_kept st st'"
      using cbb_keeps.keeps [OF k] by (auto simp: state_kept_refl split: prod.splits option.splits if_splits)
  qed
qed

lemma keeps_add_all_bytes: "list_all (\<lambda>c. length c < size_limit) cs \<Longrightarrow> cbb_keeps (add_all_bytes d cs)"
  by (induction cs) (auto simp: CBS_data_def intro!: keeps_intros cbb_safe_keeps [OF safe_add_bytes])

lemma set_of_children_concat: "set_of_children s = Some cs \<Longrightarrow> concat cs = s"
proof (induction s arbitrary: cs rule: set_of_children.induct)
  case (1 s)
  show ?case
  proof (cases "CBS_get_any_asn1_element s")
    case (Pair r s')
    with 1 show ?thesis
      by (cases r) (auto simp: set_of_children.simps [of s] CBS_len_def any_element_iff split: if_splits)
  qed
qed

lemma keeps_set_of_sort [keeps_intros]: "cbb_keeps (set_of_sort d)"
proof
  fix st ok st' assume s: "state_ok st" and o: "set_of_sort d st = (ok, st')"
  show "state_kept st st'"
  proof (cases "st' = st")
    case True
    with s show ?thesis by (simp add: state_kept_refl)
  next
    case False
    with o obtain cs b where cs: "set_of_children (CBB_data d st) = Some cs" and b: "base st = Some b"
      and a: "add_all_bytes d (qsort compare_set_of_element cs)
          (st\<lparr>base := Some (b\<lparr>buf := take (contents_start d st) (buf b)\<rparr>)\<rparr>) = (ok, st')"
      unfolding set_of_sort_def
      by (auto split: option.splits if_splits)
    let ?st = "st\<lparr>base := Some (b\<lparr>buf := take (contents_start d st) (buf b)\<rparr>)\<rparr>"
    have wf: "wf_buffer b" "chain_ok (chain st)" using s b by (simp_all add: state_ok_def)
    then have k: "state_kept st ?st" using b by (simp add: state_kept_def buffer_kept_def wf_buffer_def min.coboundedI1)
    have "length (CBB_data d st) \<le> base_len b" using b by (simp add: CBB_data_def)
    then have lt: "length (CBB_data d st) < size_limit" using wf by (simp add: wf_buffer_def)
    have "list_all (\<lambda>c. length c < size_limit) cs"
      unfolding list_all_iff
    proof (intro ballI)
      fix c assume "c \<in> set cs"
      then have "length c \<le> length (concat cs)" by (auto simp: in_set_conv_decomp)
      with lt set_of_children_concat [OF cs] show "length c < size_limit" by simp
    qed
    then have "cbb_keeps (add_all_bytes d (qsort compare_set_of_element cs))"
      by (intro keeps_add_all_bytes) (simp add: list_all_iff set_qsort)
    from cbb_keeps.keeps [OF this state_kept_ok [OF s k] a] k show ?thesis by (rule state_kept_trans [rotated])
  qed
qed

lemma safe_flush_set_of [safe_intros]: "cbb_safe (CBB_flush_asn1_set_of d)"
  unfolding CBB_flush_asn1_set_of_def by (intro safe_intros keeps_intros)

text \<open>The contracts hold of the operations.\<close>

interpretation safe_flush_op: cbb_safe "CBB_flush d" for d
  by (rule safe_flush)

interpretation safe_uint64_op: cbb_safe "CBB_add_asn1_uint64 d v" for d v
  by (rule safe_add_asn1_uint64)

interpretation safe_oid_op: cbb_safe "CBB_add_asn1_oid_from_text d s len" for d s len
  by (rule safe_oid_from_text)

interpretation safe_set_of_op: cbb_safe "CBB_flush_asn1_set_of d" for d
  by (rule safe_flush_set_of)

interpretation open_asn1_op: cbb_keeps "cbb_open_asn1 d" for d
  by (rule keeps_open_asn1)

text \<open>One call of the interface, with any arguments: the objects the caller passes are in
  memory, so they are shorter than \<open>2 ^ 64\<close>.\<close>

inductive cbb_call :: "cbb_st \<Rightarrow> cbb_st \<Rightarrow> bool" where
  flush: "cbb_call st (snd (CBB_flush d st))"
| add_bytes: "length data < size_limit \<Longrightarrow> cbb_call st (snd (CBB_add_bytes d data st))"
| add_space: "n < size_limit \<Longrightarrow> cbb_call st (snd (CBB_add_space d n st))"
| reserve: "n < size_limit \<Longrightarrow> cbb_call st (snd (CBB_reserve d n st))"
| did_write: "length w < size_limit \<Longrightarrow> cbb_call st (snd (CBB_did_write d w st))"
| add_u8: "cbb_call st (snd (CBB_add_u8 d v8 st))"
| add_u16: "cbb_call st (snd (CBB_add_u16 d v16 st))"
| add_u24: "cbb_call st (snd (CBB_add_u24 d v32 st))"
| add_u32: "cbb_call st (snd (CBB_add_u32 d v32 st))"
| add_u64: "cbb_call st (snd (CBB_add_u64 d v64 st))"
| add_u8_length_prefixed: "cbb_call st (snd (CBB_add_u8_length_prefixed d st))"
| add_u16_length_prefixed: "cbb_call st (snd (CBB_add_u16_length_prefixed d st))"
| add_u24_length_prefixed: "cbb_call st (snd (CBB_add_u24_length_prefixed d st))"
| add_asn1: "cbb_call st (snd (CBB_add_asn1 d tag st))"
| discard_child: "cbb_call st (CBB_discard_child d st)"
| add_asn1_uint64: "cbb_call st (snd (CBB_add_asn1_uint64 d v64 st))"
| add_asn1_int64: "cbb_call st (snd (CBB_add_asn1_int64 d v64 st))"
| add_asn1_octet_string:
    "length data < size_limit \<Longrightarrow> cbb_call st (snd (CBB_add_asn1_octet_string d data st))"
| add_asn1_bool: "cbb_call st (snd (CBB_add_asn1_bool d t st))"
| add_asn1_oid_from_text: "cbb_call st (snd (CBB_add_asn1_oid_from_text d text n st))"
| flush_asn1_set_of: "cbb_call st (snd (CBB_flush_asn1_set_of d st))"
| finish: "cbb_call st (snd (CBB_finish d out st))"
| cleanup: "cbb_call st (CBB_cleanup d st)"

lemma keeps_snd: "cbb_keeps f \<Longrightarrow> state_ok st \<Longrightarrow> state_kept st (snd (f st))"
  by (cases "f st") (auto intro: cbb_keeps.keeps)

lemma safe_snd: "cbb_safe f \<Longrightarrow> state_ok st \<Longrightarrow> state_kept st (snd (f st))"
  by (rule keeps_snd [OF cbb_safe_keeps])

lemma cleanup_keeps: "state_ok st \<Longrightarrow> state_kept st (CBB_cleanup d st)"
  using state_kept_refl [of st] by (auto simp: CBB_cleanup_def state_kept_def)

lemma finish_keeps: "state_ok st \<Longrightarrow> state_kept st (snd (CBB_finish d out st))"
proof -
  assume s: "state_ok st"
  have k: "state_kept st (snd (CBB_flush d st))" by (rule safe_snd [OF safe_flush s])
  from state_kept_trans [OF k cleanup_keeps [OF state_kept_ok [OF s k], of d]] k s show ?thesis
    by (auto simp: CBB_finish_def state_kept_refl split: prod.splits bool.splits option.splits)
qed

lemma cbb_call_keeps: "cbb_call st st' \<Longrightarrow> state_ok st \<Longrightarrow> state_kept st st'"
proof (induction rule: cbb_call.induct)
  case (did_write w st d)
  show ?case by (rule keeps_snd [OF keeps_did_write [OF did_write(1)] did_write(2)])
next
  case (discard_child st d)
  then show ?case by (rule discard_child_keeps)
next
  case (finish st d out)
  then show ?case by (rule finish_keeps)
next
  case (cleanup st d)
  then show ?case by (rule cleanup_keeps)
qed (simp_all add: safe_snd safe_intros CBB_add_u8_length_prefixed_def CBB_add_u16_length_prefixed_def
    CBB_add_u24_length_prefixed_def)

lemma cbb_calls_keep: "cbb_call\<^sup>*\<^sup>* st st' \<Longrightarrow> state_ok st \<Longrightarrow> state_kept st st'"
proof (induction rule: rtranclp_induct)
  case base
  then show ?case by (rule state_kept_refl)
next
  case (step st1 st2)
  then have k: "state_kept st st1" by blast
  from state_kept_trans [OF k cbb_call_keeps [OF step(2) state_kept_ok [OF step(4) k]]] show ?case .
qed

lemma init_fixed_ok: "CBB_init_fixed m f n = (True, st) \<Longrightarrow> n < size_limit \<Longrightarrow>
    \<exists>b. base st = Some b \<and> cap b = n \<and> \<not> can_resize b \<and> state_ok st"
  by (auto simp: CBB_init_fixed_def cbb_init_def CBB_zero_def state_ok_def wf_buffer_def
      split: option.splits prod.splits bool.splits)

lemma on_flushed_base: "\<exists>b. base st = Some b \<Longrightarrow> \<exists>b. base (snd (on_flushed d f st)) = Some b"
  by (auto simp: on_flushed_def CBB_flush_def split: prod.splits bool.splits if_splits option.splits)

section \<open>Failing calls report\<close>

text \<open>On a tree that has its buffer, and on a \<open>CBB\<close> at depth \<open>d\<close> that is open, an operation that
  returns failure has set the error flag; one that succeeds leaves depth \<open>d'\<close> open.\<close>

definition reports :: "nat \<Rightarrow> nat \<Rightarrow> (cbb_st \<Rightarrow> bool \<times> cbb_st) \<Rightarrow> bool" where
  "reports d d' f \<longleftrightarrow> (\<forall>st ok st'. base st \<noteq> None \<longrightarrow> d \<le> length (chain st) \<longrightarrow> f st = (ok, st') \<longrightarrow>
     (\<exists>b. base st' = Some b \<and> (\<not> ok \<longrightarrow> error b)) \<and> (ok \<longrightarrow> d' \<le> length (chain st')))"


named_theorems reports_intros


lemma reports_mono: "reports d d' f \<Longrightarrow> d'' \<le> d' \<Longrightarrow> reports d d'' f"
  unfolding reports_def by (meson order_trans)



lemma reports_Pair [reports_intros]: "reports d d (Pair True)"
  unfolding reports_def by auto



























section \<open>Properties\<close>

text \<open>C3. A builder over a fixed buffer of \<open>n\<close> bytes never holds more than \<open>n\<close> bytes, after any
  sequence of calls with any arguments, failed calls and calls after a failure included.\<close>

theorem fixed_buffer_never_overrun:
  assumes "CBB_init_fixed m f n = (True, st)" and "n < size_limit"
    and "cbb_call\<^sup>*\<^sup>* st st'" and "base st' = Some b"
  shows "base_len b \<le> n"
proof -
  obtain b0 where b0: "base st = Some b0" "cap b0 = n" "\<not> can_resize b0" "state_ok st"
    using init_fixed_ok [OF assms(1,2)] by blast
  from cbb_calls_keep [OF assms(3) b0(4)] b0 assms(4) show ?thesis
    by (auto simp: state_kept_def buffer_kept_def wf_buffer_def)
qed

theorem fixed_buffer_never_overrun_witness:
  "\<exists>st b. CBB_init_fixed (\<lambda>_. True) (\<lambda>_. 0) 4 = (True, st)
    \<and> base (snd (CBB_add_u64 0 9 (snd (CBB_add_u32 0 7 st)))) = Some b \<and> base_len b \<le> 4"
proof -
  let ?m = "\<lambda>_ :: nat. True" and ?f = "\<lambda>_ :: nat. 0 :: u8"
  obtain st where st: "CBB_init_fixed ?m ?f 4 = (True, st)"
    by (auto simp: CBB_init_fixed_def cbb_init_def OPENSSL_malloc_def)
  then obtain b0 where b0: "base st = Some b0" "state_ok st" using init_fixed_ok by fastforce
  let ?st' = "snd (CBB_add_u64 0 9 (snd (CBB_add_u32 0 7 st)))"
  have c: "cbb_call\<^sup>*\<^sup>* st ?st'"
    by (rule rtranclp.rtrancl_into_rtrancl [OF r_into_rtranclp]) (rule cbb_call.intros)+
  obtain b where b: "base ?st' = Some b"
    using on_flushed_base [OF on_flushed_base, of st] b0(1) unfolding CBB_add_u64_def CBB_add_u32_def by blast
  from fixed_buffer_never_overrun [OF st _ c b] st b show ?thesis by auto
qed



end
