(* ===== verification/CBB_Text.thy ===== *)
theory CBB_Text
  imports CBB_Refine "HOL-Library.Multiset"
begin

text \<open>
  The two clients inside the builder that compute on what they write:
  \<open>CBB_flush_asn1_set_of\<close>, which sorts the elements of a SET OF, and the conversions between
  an object identifier and its dotted text (\<open>CBB_add_asn1_oid_from_text\<close> and
  \<open>CBS_asn1_oid_to_text\<close>).
\<close>

unbundle bit_operations_syntax

section \<open>Sorting\<close>

text \<open>The order of X.690 11.6 is the lexicographic order on byte strings.\<close>

lemma memcmp_prefix:
  "n \<le> length a \<Longrightarrow> n \<le> length b \<Longrightarrow> OPENSSL_memcmp a b n = 0 \<longleftrightarrow> take n a = take n b"
proof (induction a b n rule: OPENSSL_memcmp.induct)
  case (1 a as b bs n)
  then show ?case by (auto simp: neq_iff)
qed auto

lemma compare_Cons:
  "compare_set_of_element (x # xs) (y # ys) =
     (if x < y then -1 else if x > y then 1 else compare_set_of_element xs ys)"
  by (auto simp: compare_set_of_element_def Let_def CBS_len_def CBS_data_def)

lemma compare_lexordp: "compare_set_of_element a b \<le> 0 \<longleftrightarrow> ord_class.lexordp_eq a b"
proof (induction a arbitrary: b)
  case Nil
  then show ?case
    by (cases b) (auto simp: compare_set_of_element_def Let_def CBS_len_def CBS_data_def)
next
  case (Cons x xs)
  show ?case
  proof (cases b)
    case Nil
    then show ?thesis by (simp add: compare_set_of_element_def Let_def CBS_len_def CBS_data_def)
  next
    case (Cons y ys)
    with Cons.IH [of ys] show ?thesis by (auto simp: compare_Cons)
  qed
qed

lemma sorted_qsort:
  assumes "\<And>x y. cmp x y \<le> 0 \<longleftrightarrow> le x y" and "\<And>x y z. le x y \<Longrightarrow> le y z \<Longrightarrow> le x z"
    and "\<And>x y. le x y \<or> le y x"
  shows "sorted_wrt le (qsort cmp xs)"
proof -
  have s: "set (qsort_insert cmp x ys) = insert x (set ys)" for x ys
    by (induction ys) auto
  have "sorted_wrt le (qsort_insert cmp x ys)" if "sorted_wrt le ys" for x ys
    using that
  proof (induction ys)
    case (Cons y ys)
    then show ?case
      using assms(2) assms(3) [of x y] by (auto simp: assms(1) s)
  qed simp
  then show ?thesis by (induction xs) (simp_all add: qsort_def)
qed

lemma sorted_set_of: "sorted_wrt ord_class.lexordp_eq (qsort compare_set_of_element xs)"
proof (rule sorted_qsort [OF compare_lexordp])
  show "ord_class.lexordp_eq x y \<or> ord_class.lexordp_eq y x" for x y :: bytes
    by (rule lexordp_eq_linear)
qed (rule lexordp_eq_trans)

lemma set_of_children_iff:
  "set_of_children s = Some es \<Longrightarrow>
     s = concat es \<and> (\<forall>e \<in> set es. \<exists>tag c. e = der_encode tag c \<and> length c < 2 ^ 32)"
proof (induction s arbitrary: es rule: set_of_children.induct)
  case (1 s)
  show ?case
  proof (cases "CBS_get_any_asn1_element s")
    case (Pair r s')
    with 1 show ?thesis
      by (cases r) (auto simp: set_of_children.simps [of s] CBS_len_def any_element_iff split: if_splits, blast+)
  qed
qed

lemma add_all_bytes_operation:
  assumes "\<forall>c \<in> set cs. c \<noteq> [] \<and> length c < size_limit"
  shows "cbb_operation (add_all_bytes d cs) (spec_bytes d (concat cs))"
  using assms
proof (induction cs)
  case Nil
  then show ?case using no_byte_operation by simp
next
  case (Cons c cs)
  then have "cbb_operation (CBB_add_bytes d c) (spec_bytes d c)"
    by (simp add: spec_bytes_def add_bytes_operation)
  from bytes_then [OF this Cons.IH] Cons.prems show ?case by (simp add: CBS_data_def)
qed

lemma contents_of_innermost:
  assumes r: "represents st (xs @ [(k, c)])"
  shows "contents_start (length xs) st = length (layout xs) + plen k"
proof (cases xs rule: rev_cases)
  case Nil
  with r show ?thesis
    by (auto simp: contents_start_def represents_def wf_frames_def split: option.splits)
next
  case (snoc ys y)
  have "chain st = tl (children_of 0 (xs @ [(k, c)]))"
    using r by (auto simp: represents_def split: option.splits)
  then have "chain st ! (length xs - 1) = children_of 0 (xs @ [(k, c)]) ! length xs"
    using snoc by (simp add: nth_tl)
  also have "\<dots> = \<lparr>offset = length (layout xs), pending_len_len = plen k, pending_is_asn1 = (k = Asn1)\<rparr>"
    by (simp add: children_of_append nth_append)
  finally show ?thesis using snoc by (simp add: contents_start_def Let_def)
qed

lemma represents_truncate:
  assumes r: "represents st (xs @ [(k, c)])" and b: "base st = Some b"
  shows "represents (st\<lparr>base := Some (b\<lparr>buf := take (length (layout xs) + plen k) (buf b)\<rparr>)\<rparr>) (xs @ [(k, [])])"
proof -
  have "wf_frames (xs @ [(k, [])])"
    using r b by (auto simp: represents_def wf_frames_split)
  moreover have shorter: "length (layout (xs @ [(k, [])])) \<le> length (layout (xs @ [(k, c)]))"
    by (simp add: layout_append)
  moreover have "take (length (layout xs) + plen k) (layout (xs @ [(k, c)])) = layout (xs @ [(k, [])])"
    by (simp add: layout_append)
  ultimately show ?thesis
    using r b children_of_last [of 0 xs k c "[]"]
    by (auto simp: represents_def wf_buffer_def intro: le_trans [OF shorter])
qed

lemma set_of_children_encode:
  "\<forall>e \<in> set es. \<exists>tag v. e = der_encode tag v \<and> length v < 2 ^ 32 \<Longrightarrow> set_of_children (concat es) = Some es"
proof (induction es)
  case Nil
  then show ?case by (simp add: set_of_children.simps CBS_len_def)
next
  case (Cons e es)
  then obtain tag v where e: "e = der_encode tag v" "length v < 2 ^ 32" by auto
  then have "CBS_get_any_asn1_element (concat (e # es)) = (Some (e, tag, length e - length v), concat es)"
    by (auto simp: any_element_iff)
  then show ?case
    using Cons e by (subst set_of_children.simps) (simp add: CBS_len_def der_encode_neq_Nil)
qed

text \<open>With memory left, the sort succeeds.\<close>

lemma flush_set_of_complete:
  assumes r: "represents st (xs @ [(k, concat es)])" and d: "length xs = d"
    and es: "\<forall>e \<in> set es. \<exists>tag v. e = der_encode tag v \<and> length v < 2 ^ 32" "length es < 2 ^ 59"
    and m: "\<forall>n < size_limit. room st n" and ma: "\<exists>b0. base st = Some b0 \<and> (\<forall>n. malloc b0 n)"
  shows "fst (CBB_flush_asn1_set_of d st)"
proof -
  obtain st1 where f: "CBB_flush d st = (True, st1)"
    and r1: "represents st1 (xs @ [(k, concat es)])" and e1: "env_kept st st1"
  proof (rule flush.runs [OF r])
    show "spec_append d [] (xs @ [(k, concat es)]) = Some (xs @ [(k, concat es)])"
      using d by (auto simp: spec_append_flushed)
    obtain b where "base st = Some b" "wf_buffer b" "buf b = layout (xs @ [(k, concat es)])"
      using represents_base [OF r] by blast
    then show "room st (length (layout (xs @ [(k, concat es)])))"
      using m by (auto simp: wf_buffer_def)
  qed blast
  obtain b where b: "base st1 = Some b" "wf_buffer b" "buf b = layout (xs @ [(k, concat es)])"
    using represents_base [OF r1] by blast
  have mb: "\<forall>n. malloc b n"
    using e1 b ma by (auto simp: env_kept_def grows_to_def split: option.splits)
  have cs: "contents_start d st1 = length (layout xs) + plen k"
    using contents_of_innermost [OF r1] d by simp
  have data: "CBB_data d st1 = concat es" using b by (simp add: CBB_data_def layout_append cs)
  have len: "CBB_len d st1 = length (concat es)" using b by (simp add: CBB_len_def layout_append cs)
  have lt: "length (concat es) < size_limit" using b by (simp add: wf_buffer_def layout_append)
  note so = set_of_children_encode [OF es(1)]
  have "fst (set_of_sort d st1)"
  proof (cases "length es < 2")
    case True
    then show ?thesis using so data by (simp add: set_of_sort_def)
  next
    case False
    let ?es = "qsort compare_set_of_element es"
    let ?st = "st1\<lparr>base := Some (b\<lparr>buf := take (contents_start d st1) (buf b)\<rparr>)\<rparr>"
    have se: "set ?es = set es" by (metis mset_qsort set_mset_mset)
    have ne: "\<forall>e \<in> set es. e \<noteq> []" using es(1) der_encode_neq_Nil by metis
    have "length e \<le> length (concat es)" if "e \<in> set es" for e
      using split_list [OF that] by auto
    then have "\<forall>e \<in> set es. length e < size_limit" using lt by fastforce
    then have op: "cbb_operation (add_all_bytes d ?es) (spec_bytes d (concat ?es))"
      using ne se by (intro add_all_bytes_operation) blast
    have "concat ?es \<noteq> []" using False ne se by (cases es) auto
    then have sp: "spec_bytes d (concat ?es) (xs @ [(k, [])]) = Some (xs @ [(k, concat ?es)])"
      using d by (simp only: spec_bytes_def if_False) (auto simp: spec_append_flushed)
    have "mset (map length ?es) = mset (map length es)" by (simp add: mset_qsort)
    then have "sum_list (map length ?es) = sum_list (map length es)"
      by (simp only: sum_mset_sum_list [symmetric])
    then have lc: "length (concat ?es) = length (concat es)"
      by (simp only: length_concat)
    have "room ?st (length (layout (xs @ [(k, concat ?es)])))"
    proof -
      have "fits b (base_len b)" using b by (simp add: fits_def wf_buffer_def)
      then show ?thesis
        unfolding room_def using b lc by (simp add: layout_append fits_def)
    qed
    from cbb_operation.complete [OF op represents_truncate [OF r1 b(1)] sp] this cs
    have a: "fst (add_all_bytes d ?es ?st)" by simp
    have mem: "OPENSSL_memdup (malloc b) (concat es) (length (concat es)) \<noteq> None"
      "OPENSSL_malloc (malloc b) (length es * 16) \<noteq> None"
      using False ne mb by (cases es; auto simp: OPENSSL_memdup_def OPENSSL_malloc_def)+
    have "\<not> length es > (size_limit - 1) div 16" using es(2) by simp
    with so data len b False mem a show ?thesis
      by (simp add: set_of_sort_def)
  qed
  with f show ?thesis by (simp add: CBB_flush_asn1_set_of_def and_then_def)
qed

text \<open>C7. When \<open>CBB_flush_asn1_set_of\<close> succeeds, the contents of the frame it is called on,
  once sealed, are a concatenation of DER elements, and are replaced by the concatenation of
  the same elements in ascending lexicographic order.\<close>

theorem flush_set_of_sorts_elements:
  assumes "represents st fs" and "CBB_flush_asn1_set_of d st = (True, st')"
  shows "\<exists>xs k c es es'. spec_append d [] fs = Some (xs @ [(k, c)]) \<and> c = concat es
    \<and> (\<forall>e \<in> set es. \<exists>tag v. e = der_encode tag v)
    \<and> mset es' = mset es \<and> sorted_wrt ord_class.lexordp_eq es' \<and> represents st' (xs @ [(k, concat es')])"
proof -
  from assms(2) obtain st1 where f: "CBB_flush d st = (True, st1)" and o: "set_of_sort d st1 = (True, st')"
    by (auto simp: CBB_flush_asn1_set_of_def and_then_def split: prod.splits bool.splits)
  from flush_represents [OF assms(1) f] obtain xs k c0 ys c where fs: "fs = xs @ (k, c0) # ys" "length xs = d"
    "flat c0 ys = Some c" and r: "represents st1 (xs @ [(k, c)])" by blast
  then have s: "spec_append d [] fs = Some (xs @ [(k, c)])" by (simp add: spec_append_def edit_split)
  from represents_base [OF r] obtain b where b: "base st1 = Some b" "wf_buffer b" "buf b = layout (xs @ [(k, c)])"
    by blast
  have cs: "contents_start d st1 = length (layout xs) + plen k"
    using contents_of_innermost [OF r] fs(2) by simp
  then have data: "CBB_data d st1 = c" using b by (simp add: CBB_data_def layout_append)
  from o obtain es where es: "set_of_children c = Some es"
    unfolding set_of_sort_def data by (auto split: option.splits)
  note E = set_of_children_iff [OF es]
  show ?thesis
  proof (cases "length es < 2")
    case True
    with o es data have "st' = st1" by (simp add: set_of_sort_def)
    moreover have "sorted_wrt ord_class.lexordp_eq es" using True by (cases es) auto
    ultimately show ?thesis using s E r by blast
  next
    case False
    let ?es = "qsort compare_set_of_element es"
    let ?st = "st1\<lparr>base := Some (b\<lparr>buf := take (contents_start d st1) (buf b)\<rparr>)\<rparr>"
    from o es data False b have a: "add_all_bytes d ?es ?st = (True, st')"
      by (auto simp: set_of_sort_def split: if_splits)
    have "length c < size_limit" using b by (simp add: wf_buffer_def layout_append)
    moreover have "length e \<le> length (concat es)" if "e \<in> set es" for e
      using split_list [OF that] by auto
    ultimately have "\<forall>e \<in> set es. length e < size_limit" using E by fastforce
    moreover have ne: "\<forall>e \<in> set es. e \<noteq> []" using E der_encode_neq_Nil by metis
    moreover have se: "set ?es = set es" by (metis mset_qsort set_mset_mset)
    ultimately have op: "cbb_operation (add_all_bytes d ?es) (spec_bytes d (concat ?es))"
      by (intro add_all_bytes_operation) blast
    have "?es \<noteq> []" using False by (metis list.size(3) mset_qsort size_mset zero_less_numeral)
    then have "concat ?es \<noteq> []"
      using ne se by (cases ?es) auto
    then have "spec_bytes d (concat ?es) (xs @ [(k, [])]) = Some (xs @ [(k, concat ?es)])"
      using fs(2) by (simp only: spec_bytes_def if_False) (auto simp: spec_append_flushed)
    then have "represents st' (xs @ [(k, concat ?es)])"
      using cbb_operation.sound [OF op represents_truncate [OF r b(1)] a [unfolded cs]] by auto
    moreover have "\<forall>e \<in> set es. \<exists>tag v. e = der_encode tag v" using E by blast
    ultimately show ?thesis using s E mset_qsort [of _ es] sorted_set_of [of es] by blast
  qed
qed

theorem flush_set_of_sorts_elements_witness:
  "\<exists>st st' xs k es'. CBB_add_bytes 0 [2, 1, 9, 2, 1, 5] (snd (CBB_init (\<lambda>_. True) (\<lambda>_. 0) 0)) = (True, st)
    \<and> CBB_flush_asn1_set_of 0 st = (True, st') \<and> sorted_wrt ord_class.lexordp_eq es'
    \<and> represents st' (xs @ [(k, concat es')])"
proof -
  let ?m = "\<lambda>_ :: nat. True" and ?f = "\<lambda>_ :: nat. 0 :: u8" and ?d = "[2, 1, 9, 2, 1, 5] :: bytes"
  obtain st0 where st0: "CBB_init ?m ?f 0 = (True, st0)"
    by (auto simp: CBB_init_def cbb_init_def OPENSSL_malloc_def)
  note r0 = init_represents(1) [OF st0] and m0 = init_represents(2) [OF st0]
  have sp: "spec_append 0 ?d [(Fixed 0, [])] = Some [(Fixed 0, ?d)]"
    by (simp add: spec_append_def edit_def)
  obtain st where st: "CBB_add_bytes 0 ?d st0 = (True, st)" "represents st [(Fixed 0, ?d)]" "env_kept st0 st"
    by (rule cbb_operation.runs [OF add_bytes_operation r0 sp]) (use m0 in simp_all)
  have e: "[2, 1, v] = der_encode 2 [v]" for v
    by (simp add: der_encode_def der_tag_def der_length_def)
  have c: "concat [[2, 1, 9], [2, 1, 5]] = ?d" by simp
  have "fst (CBB_flush_asn1_set_of 0 st)"
  proof (rule flush_set_of_complete [of st "[]" "Fixed 0" "[[2, 1, 9], [2, 1, 5]]"])
    show "represents st ([] @ [(Fixed 0, concat [[2, 1, 9], [2, 1, 5]])])" using st(2) by simp
    show "\<forall>e \<in> set [[2, 1, 9], [2, 1, 5]]. \<exists>tag v. e = der_encode tag v \<and> length v < 2 ^ 32"
    proof -
      have "\<exists>tag v. [2, 1, x] = der_encode tag v \<and> length v < 2 ^ 32" for x
        by (intro exI [of _ 2] exI [of _ "[x]"]) (simp add: e)
      then show ?thesis by simp
    qed
    show "\<forall>n < size_limit. room st n" using m0 room_kept [OF st(3)] by simp
    show "\<exists>b. base st = Some b \<and> (\<forall>n. malloc b n)"
      using st(3) st0
      by (auto simp: CBB_init_def cbb_init_def CBB_zero_def OPENSSL_malloc_def env_kept_def grows_to_def
          split: option.splits)
  qed simp_all
  then obtain st' where st': "CBB_flush_asn1_set_of 0 st = (True, st')"
    by (cases "CBB_flush_asn1_set_of 0 st") auto
  from flush_set_of_sorts_elements [OF st(2) st'] st(1) st0 st' show ?thesis by auto
qed

section \<open>Object identifiers\<close>

lemma decimal_digits_small: "n < 10 \<Longrightarrow> decimal_digits n = [of_nat (48 + n)]"
  by (simp add: decimal_digits.simps)

lemma decimal_digits_step:
  "0 < n \<Longrightarrow> k < 10 \<Longrightarrow> decimal_digits (n * 10 + k) = decimal_digits n @ [of_nat (48 + k)]"
  by (simp add: decimal_digits.simps [of "n * 10 + k"])

lemma decimal_digits_neq_Nil: "decimal_digits n \<noteq> []"
  by (simp add: decimal_digits.simps [of n])

lemma length_decimal_digits: "length (decimal_digits n) \<le> Suc (n div 10)"
proof (induction n rule: decimal_digits.induct)
  case (1 n)
  show ?case
  proof (cases "n < 10")
    case True
    then show ?thesis by (simp add: decimal_digits_small)
  next
    case False
    then have "length (decimal_digits n) = Suc (length (decimal_digits (n div 10)))"
      by (simp add: decimal_digits.simps [of n])
    also have "\<dots> \<le> Suc (Suc (n div 10 div 10))" using 1 False by simp
    also have "Suc (n div 10 div 10) \<le> n div 10" using False by simp
    finally show ?thesis by simp
  qed
qed

lemma dotted_digit:
  fixes u :: u8 and out :: u64
  assumes "\<not> u < 0x30" and "\<not> u > 0x39" and "\<not> out > (- 1) div 10"
    and "\<not> out * 10 > - 1 - ucast (u - 0x30)"
  shows "unat (out * 10 + ucast (u - 0x30)) = unat out * 10 + (unat u - 48)"
    and "unat u - 48 < 10" and "of_nat (48 + (unat u - 48)) = u"
proof -
  have u: "48 \<le> unat u" "unat u \<le> 57" using assms(1,2) by (auto simp: word_less_nat_alt)
  then have s: "unat (u - 0x30) = unat u - 48"
    by (simp add: unat_sub word_le_nat_alt)
  then have k: "unat (ucast (u - 0x30) :: u64) = unat u - 48" by simp
  show "unat u - 48 < 10" "of_nat (48 + (unat u - 48)) = u" using u by simp_all
  have "unat ((- 1) div 10 :: u64) = 1844674407370955161" by simp
  then have "unat out \<le> 1844674407370955161"
    using assms(3) by (simp only: word_less_nat_alt not_less)
  then have m: "unat (out * 10) = unat out * 10" by (subst unat_mult_lem [THEN iffD1]) simp_all
  have mx: "unat (- 1 :: u64) = 2 ^ 64 - 1" by (simp add: unsigned_minus_1_eq_mask mask_eq_exp_minus_1)
  have "ucast (u - 0x30) \<le> (- 1 :: u64)" by simp
  then have "unat (- 1 - ucast (u - 0x30) :: u64) = 2 ^ 64 - 1 - (unat u - 48)"
    by (simp only: unat_sub mx k)
  then have "unat out * 10 \<le> 2 ^ 64 - 1 - (unat u - 48)"
    using assms(4) by (simp only: word_less_nat_alt not_less m)
  then have "unat (out * 10) + unat (ucast (u - 0x30) :: u64) < 2 ^ 64"
    using u unfolding m k by simp
  then show "unat (out * 10 + ucast (u - 0x30)) = unat out * 10 + (unat u - 48)"
    by (subst unat_add_lem [THEN iffD1]) (simp_all add: m k)
qed

lemma dotted_loop_sound:
  "dotted_loop out seen s = (Some v, s') \<Longrightarrow> (seen \<or> out = 0) \<Longrightarrow>
     \<exists>ds. s = ds @ (if s' = [] then [] else 0x2e # s')
       \<and> decimal_digits (unat v) = (if seen then decimal_digits (unat out) else []) @ ds"
proof (induction out seen s rule: dotted_loop.induct)
  case (1 out seen)
  then show ?case by (auto split: if_splits)
next
  case (2 out seen u s)
  show ?case
  proof (cases "u = 0x2e \<and> CBS_len s > 0")
    case True
    with 2(2) show ?thesis by (auto simp: CBS_len_def split: if_splits)
  next
    case nd: False
    let ?o = "out * 10 + ucast (u - 0x30) :: u64"
    from 2(2) nd have c: "\<not> u < 0x30" "\<not> u > 0x39" "\<not> (seen \<and> out = 0)" "\<not> out > (- 1) div 10"
        "\<not> out * 10 > - 1 - ucast (u - 0x30)"
      and r: "dotted_loop ?o True s = (Some v, s')"
      by (auto split: if_splits)
    note dg = dotted_digit [OF c(1,2,4,5)]
    from 2(1) [OF nd _ r] c obtain ds where ds: "s = ds @ (if s' = [] then [] else 0x2e # s')"
      "decimal_digits (unat v) = decimal_digits (unat ?o) @ ds" by auto
    have "decimal_digits (unat ?o) = (if seen then decimal_digits (unat out) else []) @ [u]"
    proof (cases seen)
      case True
      then have "0 < unat out" using c(3) by (simp add: unat_gt_0)
      with True dg show ?thesis by (simp add: decimal_digits_step)
    next
      case False
      then have "out = 0" using 2(3) by simp
      with False dg show ?thesis by (simp add: decimal_digits_small)
    qed
    with ds show ?thesis by (intro exI [of _ "u # ds"]) simp
  qed
qed

lemma parse_dotted_sound:
  "parse_dotted_decimal s = (Some v, s') \<Longrightarrow>
     s = decimal_digits (unat v) @ (if s' = [] then [] else 0x2e # s')"
  using dotted_loop_sound [of 0 False s v s'] by (auto simp: parse_dotted_decimal_def)

fun dotted_text :: "nat list \<Rightarrow> bytes" where
  "dotted_text [] = []"
| "dotted_text (v # vs) = decimal_digits v @ concat (map (\<lambda>v. 0x2e # decimal_digits v) vs)"

definition oid_bytes :: "u64 list \<Rightarrow> bytes" where
  "oid_bytes vs = concat (map (\<lambda>v. base128 (unat v)) vs)"

lemma oid_bytes_simps [simp]: "oid_bytes [] = []" "oid_bytes (v # vs) = base128 (unat v) @ oid_bytes vs"
  by (simp_all add: oid_bytes_def)

lemma dotted_text_Cons_Cons: "vs \<noteq> [] \<Longrightarrow> dotted_text (v # vs) = decimal_digits v @ 0x2e # dotted_text vs"
  by (cases vs) simp_all

lemma dotted_text_neq_Nil: "dotted_text vs = [] \<longleftrightarrow> vs = []"
  by (cases vs) (simp_all add: decimal_digits_neq_Nil)

lemma append_one: "represents st [(Fixed 0, c)] \<Longrightarrow> cbb_operation f (spec_append 0 data) \<Longrightarrow>
    f st = (True, st') \<Longrightarrow> represents st' [(Fixed 0, c @ data)] \<and> env_kept st st'"
  using cbb_operation.sound [of f "spec_append 0 data" st "[(Fixed 0, c)]" st']
  by (auto simp: spec_append_def edit_def)

lemma append_one_complete:
  assumes "represents st [(Fixed 0, c)]" and "cbb_operation f (spec_append 0 data)"
    and "room st (length c + length data)"
  obtains st' where "f st = (True, st')" and "represents st' [(Fixed 0, c @ data)]" and "env_kept st st'"
proof -
  have "spec_append 0 data [(Fixed 0, c)] = Some [(Fixed 0, c @ data)]"
    by (simp add: spec_append_def edit_def)
  from cbb_operation.runs [OF assms(2,1) this] assms(3) that show thesis by auto
qed

lemma oid_text_loop_sound:
  "oid_text_loop d cbs st = (True, st') \<Longrightarrow> d = 0 \<Longrightarrow> represents st [(Fixed 0, c)] \<Longrightarrow>
     \<exists>vs. cbs = dotted_text (map unat vs) \<and> represents st' [(Fixed 0, c @ oid_bytes vs)]"
proof (induction d cbs st arbitrary: c rule: oid_text_loop.induct)
  case (1 d cbs st)
  show ?case
  proof (cases "CBS_len cbs = 0")
    case True
    with 1(2,4) show ?thesis
      by (intro exI [of _ "[]"]) (auto simp: oid_text_loop.simps [of d cbs] CBS_len_def)
  next
    case ne: False
    with 1(2) obtain a cbs' where p: "parse_dotted_decimal cbs = (Some a, cbs')"
      by (auto simp: oid_text_loop.simps [of d cbs] split: prod.splits option.splits)
    with 1(2) ne obtain st1 where a: "add_base128_integer d a st = (True, st1)"
      and l: "oid_text_loop d cbs' st1 = (True, st')"
      by (auto simp: oid_text_loop.simps [of d cbs] split: prod.splits bool.splits)
    have "represents st1 [(Fixed 0, c @ base128 (unat a))]"
      using append_one [OF 1(4) add_base128_operation a [unfolded 1(3)]] by simp
    from 1(1) [OF ne p [symmetric] refl a [symmetric] _ l 1(3) this]
    obtain vs where vs: "cbs' = dotted_text (map unat vs)" "represents st' [(Fixed 0, (c @ base128 (unat a)) @ oid_bytes vs)]"
      by auto
    moreover have "cbs = dotted_text (map unat (a # vs))"
      using parse_dotted_sound [OF p] vs(1) dotted_text_neq_Nil [of "map unat vs"]
      by (cases vs) (auto simp: dotted_text_Cons_Cons split: if_splits)
    ultimately show ?thesis by (intro exI [of _ "a # vs"]) simp
  qed
qed

lemma oid_from_text_sound:
  assumes t: "CBB_add_asn1_oid_from_text 0 text (length text) st = (True, st')"
    and r: "represents st [(Fixed 0, [])]"
  shows "\<exists>a b vs. text = dotted_text (map unat (a # b # vs)) \<and> (unat a < 2 \<and> unat b \<le> 39 \<or> unat a = 2)
    \<and> unat (40 * a + b) = 40 * unat a + unat b
    \<and> represents st' [(Fixed 0, oid_bytes ((40 * a + b) # vs))]"
proof -
  from t obtain st0 where f: "CBB_flush 0 st = (True, st0)"
    by (auto simp: CBB_add_asn1_oid_from_text_def and_then_def split: prod.splits bool.splits)
  with flush_represents [OF r f] have r0: "represents st0 [(Fixed 0, [])]" by (auto simp: Cons_eq_append_conv)
  have i: "CBS_init text (length text) = text" by (simp add: CBS_init_def)
  from t f obtain a cbs b cbs' st1 where p: "parse_dotted_decimal text = (Some a, cbs)"
    "parse_dotted_decimal cbs = (Some b, cbs')"
    and c: "\<not> (a > 2 \<or> (a < 2 \<and> b > 39) \<or> b > - 1 - 80)"
    and s: "add_base128_integer 0 (40 * a + b) st0 = (True, st1)" "oid_text_loop 0 cbs' st1 = (True, st')"
    by (auto simp: CBB_add_asn1_oid_from_text_def and_then_def i split: prod.splits option.splits bool.splits if_splits)
  have a2: "unat a \<le> 2" "unat a < 2 \<Longrightarrow> unat b \<le> 39" using c by (auto simp: word_less_nat_alt)
  have "unat (- 1 - 80 :: u64) = 18446744073709551535" by simp
  then have b: "unat b \<le> 18446744073709551535" using c by (simp only: word_less_nat_alt de_Morgan_disj not_less)
  have "unat (40 * a) = 40 * unat a" using a2 by (subst unat_mult_lem [THEN iffD1]) simp_all
  moreover have "unat (40 * a) + unat b < 2 ^ 64" using a2(1) b unfolding calculation by simp
  ultimately have v: "unat (40 * a + b) = 40 * unat a + unat b"
    by (subst unat_add_lem [THEN iffD1]) simp_all
  have "represents st1 [(Fixed 0, base128 (unat (40 * a + b)))]"
    using append_one [OF r0 add_base128_operation s(1)] by simp
  from oid_text_loop_sound [OF s(2) refl this] obtain vs where
    vs: "cbs' = dotted_text (map unat vs)" "represents st' [(Fixed 0, oid_bytes ((40 * a + b) # vs))]" by auto
  have cbs: "cbs = dotted_text (map unat (b # vs))"
    using parse_dotted_sound [OF p(2)] vs(1) dotted_text_neq_Nil [of "map unat vs"]
    by (cases vs) (auto simp: dotted_text_Cons_Cons split: if_splits)
  then have "text = dotted_text (map unat (a # b # vs))"
    using parse_dotted_sound [OF p(1)] decimal_digits_neq_Nil by auto
  with vs v a2 show ?thesis by (metis le_neq_implies_less)
qed

lemma add_decimal_operation: "cbb_operation (add_decimal d v) (spec_append d (decimal_digits (unat v)))"
proof -
  have "unat v < 2 ^ 64" using unat_less_pow [of v] by simp
  then have "length (decimal_digits (unat v)) < size_limit"
    using length_decimal_digits [of "unat v"] by simp
  then show ?thesis unfolding add_decimal_def by (rule add_bytes_operation)
qed

lemma dot_decimal_operation:
  "cbb_operation (and_then (CBB_add_u8 0 0x2e) (add_decimal 0 v)) (spec_append 0 (0x2e # decimal_digits (unat v)))"
  using operation_and_then [OF add_u8_operation [of 0 "0x2e"] add_decimal_operation [of 0 v]]
  by (simp add: spec_append_append)

lemma oid_to_text_loop_complete:
  "represents st [(Fixed 0, c)] \<Longrightarrow>
     room st (length c + length (concat (map (\<lambda>v. 0x2e # decimal_digits (unat v)) vs))) \<Longrightarrow>
     \<exists>st'. oid_to_text_loop (oid_bytes vs) st = (True, st') \<and> env_kept st st'
       \<and> represents st' [(Fixed 0, c @ concat (map (\<lambda>v. 0x2e # decimal_digits (unat v)) vs))]"
proof (induction vs arbitrary: st c)
  case Nil
  then show ?case by (simp add: oid_to_text_loop.simps CBS_len_def env_kept_refl)
next
  case (Cons v vs)
  have ne: "base128 (unat v) \<noteq> []" by (simp add: base128_def)
  have p: "parse_base128_integer (oid_bytes (v # vs)) = (Some v, oid_bytes vs)"
    by (simp add: parse_base128_iff)
  have "room st (length c + length (0x2e # decimal_digits (unat v)))"
    by (rule room_mono [OF Cons.prems(2)]) simp
  from append_one_complete [OF Cons.prems(1) dot_decimal_operation this] obtain st1 where
    s: "and_then (CBB_add_u8 0 0x2e) (add_decimal 0 v) st = (True, st1)"
    and r: "represents st1 [(Fixed 0, c @ 0x2e # decimal_digits (unat v))]" "env_kept st st1" by blast
  have "room st1 (length (c @ 0x2e # decimal_digits (unat v)) + length (concat (map (\<lambda>v. 0x2e # decimal_digits (unat v)) vs)))"
    using room_kept [OF r(2) Cons.prems(2)] by (simp add: add_ac)
  from Cons.IH [OF r(1) this] obtain st' where st': "oid_to_text_loop (oid_bytes vs) st1 = (True, st')"
    "env_kept st1 st'" "represents st' [(Fixed 0, (c @ 0x2e # decimal_digits (unat v)) @
       concat (map (\<lambda>v. 0x2e # decimal_digits (unat v)) vs))]" by blast
  have "oid_to_text_loop (oid_bytes (v # vs)) st = (True, st')"
    using p s st'(1) ne by (simp add: oid_to_text_loop.simps [of "oid_bytes (v # vs)"] CBS_len_def del: oid_bytes_simps)
      (simp add: ne)
  with st' r(2) show ?case by (auto intro: env_kept_trans)
qed

lemma first_components_operation:
  assumes v: "unat v = 40 * a + b" and ab: "a < 2 \<and> b \<le> 39 \<or> a = 2"
  shows "cbb_operation (if v \<ge> 80 then and_then (CBB_add_bytes 0 [0x32, 0x2e]) (add_decimal 0 (v - 80))
      else and_then (add_decimal 0 (v div 40)) (and_then (CBB_add_u8 0 0x2e) (add_decimal 0 (v mod 40))))
    (spec_append 0 (decimal_digits a @ 0x2e # decimal_digits b))"
proof (cases "a = 2")
  case True
  then have g: "v \<ge> 80" using v by (simp add: word_le_nat_alt)
  then have "unat (v - 80) = b" using v True by (simp add: unat_sub)
  moreover have "decimal_digits 2 = [0x32]" by (simp add: decimal_digits_small)
  moreover have "cbb_operation (and_then (CBB_add_bytes 0 [0x32, 0x2e]) (add_decimal 0 (v - 80)))
      (spec_seq (spec_append 0 [0x32, 0x2e]) (spec_append 0 (decimal_digits (unat (v - 80)))))"
    by (intro operation_and_then add_bytes_operation add_decimal_operation) simp
  ultimately show ?thesis using g True by (simp add: spec_append_append)
next
  case False
  then have "\<not> v \<ge> 80" using v ab by (simp add: word_le_nat_alt)
  moreover have "unat (v div 40) = a" "unat (v mod 40) = b"
    using v ab False by (simp_all add: unat_div unat_mod)
  moreover have "cbb_operation (and_then (add_decimal 0 (v div 40)) (and_then (CBB_add_u8 0 0x2e) (add_decimal 0 (v mod 40))))
      (spec_seq (spec_append 0 (decimal_digits (unat (v div 40)))) (spec_append 0 (0x2e # decimal_digits (unat (v mod 40)))))"
    by (intro operation_and_then[OF add_decimal_operation] dot_decimal_operation)
  ultimately show ?thesis by (simp add: spec_append_append)
qed

text \<open>C6. An object identifier that \<open>CBB_add_asn1_oid_from_text\<close> has encoded from a text is
  converted back by \<open>CBS_asn1_oid_to_text\<close> to exactly that text, NUL-terminated.\<close>

theorem oid_text_roundtrip:
  assumes "CBB_init m f n = (True, st)" and "n < size_limit"
    and "CBB_add_asn1_oid_from_text 0 text (length text) st = (True, st1)"
    and "CBB_finish 0 True st1 = (Some oid, st2)"
    and "length text + 1 < size_limit" and "\<forall>i. m' i"
  shows "CBS_asn1_oid_to_text m' f' oid = Some (text @ [0])"
proof -
  have "represents st [(Fixed 0, [])]" by (rule init_represents [OF assms(1,2)])
  from oid_from_text_sound [OF assms(3) this] obtain a b vs where
    tx: "text = dotted_text (map unat (a # b # vs))" and ab: "unat a < 2 \<and> unat b \<le> 39 \<or> unat a = 2"
    and v: "unat (40 * a + b) = 40 * unat a + unat b"
    and r1: "represents st1 [(Fixed 0, oid_bytes ((40 * a + b) # vs))]" by blast
  let ?v = "40 * a + b"
  have oid: "oid = base128 (unat ?v) @ oid_bytes vs" using finish_sound [OF r1 assms(4)] by simp
  obtain c where c: "CBB_init m' f' 32 = (True, c)"
    using init_succeeds [OF assms(6), of f' 32] by (cases "CBB_init m' f' 32") auto
  let ?d = "decimal_digits (unat a) @ 0x2e # decimal_digits (unat b)"
  let ?e = "concat (map (\<lambda>v. 0x2e # decimal_digits (unat v)) vs)"
  have td: "text = ?d @ ?e" by (simp add: tx comp_def)
  have rm: "room c (length ?d + length ?e + 1)"
    using init_represents(2) [OF c _ assms(6)] assms(5) by (simp add: td)
  have rc: "represents c [(Fixed 0, [])]" by (rule init_represents [OF c]) simp
  have p: "parse_base128_integer oid = (Some ?v, oid_bytes vs)"
    by (simp add: parse_base128_iff oid)
  let ?first = "if ?v \<ge> 80 then and_then (CBB_add_bytes 0 [0x32, 0x2e]) (add_decimal 0 (?v - 80))
      else and_then (add_decimal 0 (?v div 40)) (and_then (CBB_add_u8 0 0x2e) (add_decimal 0 (?v mod 40)))"
  obtain c1 where c1: "?first c = (True, c1)" "represents c1 [(Fixed 0, ?d)]" "env_kept c c1"
    by (rule append_one_complete [OF rc first_components_operation [OF v ab]])
      (use room_mono [OF rm, of "length ?d"] in auto)
  have rm1: "room c1 (length ?d + length ?e + 1)" by (rule room_kept [OF c1(3) rm])
  have "room c1 (length ?d + length ?e)" by (rule room_mono [OF rm1]) simp
  from oid_to_text_loop_complete [OF c1(2) this] obtain c2 where
    c2: "oid_to_text_loop (oid_bytes vs) c1 = (True, c2)" "env_kept c1 c2" "represents c2 [(Fixed 0, ?d @ ?e)]"
    by auto
  have rm2: "room c2 (length (?d @ ?e) + length [0 :: u8])" using room_kept [OF c2(2) rm1] by (simp add: add_ac)
  obtain c3 where c3: "CBB_add_u8 0 0 c2 = (True, c3)" "represents c3 [(Fixed 0, (?d @ ?e) @ [0])]" "env_kept c2 c3"
    by (rule append_one_complete [OF c2(3) add_u8_operation rm2])
  have "room c3 (length ((?d @ ?e) @ [0 :: u8]))" using room_kept [OF c3(3) rm2] by simp
  with finish_complete [OF c3(2)] have fin: "fst (CBB_finish 0 True c3) = Some (text @ [0])"
    by (simp add: td)
  have "and_then ?first (and_then (oid_to_text_loop (oid_bytes vs)) (CBB_add_u8 0 0)) c = (True, c3)"
    using c1(1) c2(1) c3(1) by (simp only: and_then_def prod.case bool.case)
  then show ?thesis
    unfolding CBS_asn1_oid_to_text_def c p by (simp only: prod.case option.case bool.case fin)
qed

text \<open>The text \<open>1.2.840\<close>.\<close>

theorem oid_text_roundtrip_witness:
  "\<exists>st st1 st2 oid. CBB_init (\<lambda>_. True) (\<lambda>_. 0) 0 = (True, st)
    \<and> CBB_add_asn1_oid_from_text 0 [0x31, 0x2e, 0x32, 0x2e, 0x38, 0x34, 0x30] 7 st = (True, st1)
    \<and> CBB_finish 0 True st1 = (Some oid, st2)
    \<and> CBS_asn1_oid_to_text (\<lambda>_. True) (\<lambda>_. 0) oid = Some [0x31, 0x2e, 0x32, 0x2e, 0x38, 0x34, 0x30, 0]"
proof -
  let ?m = "\<lambda>_ :: nat. True" and ?f = "\<lambda>_ :: nat. 0 :: u8"
  let ?t = "[0x31, 0x2e, 0x32, 0x2e, 0x38, 0x34, 0x30] :: bytes"
  obtain st where st: "CBB_init ?m ?f 0 = (True, st)"
    by (auto simp: CBB_init_def cbb_init_def OPENSSL_malloc_def)
  note r = init_represents(1) [OF st] and rm = init_represents(2) [OF st]
  obtain s0 where s0: "CBB_flush 0 st = (True, s0)" "represents s0 [(Fixed 0, [])]" "env_kept st s0"
    by (rule append_one_complete [OF r flush.cbb_operation_axioms]) (use rm in auto)
  let ?o = "oid_text_loop 0 [0x38, 0x34, 0x30]"
  have p: "parse_dotted_decimal ?t = (Some 1, [0x32, 0x2e, 0x38, 0x34, 0x30])"
    "parse_dotted_decimal [0x32, 0x2e, 0x38, 0x34, 0x30] = (Some 2, [0x38, 0x34, 0x30])"
    "parse_dotted_decimal [0x38, 0x34, 0x30] = (Some 840, [])"
    by (simp_all add: parse_dotted_decimal_def CBS_len_def)
  have b: "length (base128 (unat v)) \<le> 10" for v :: u64
  proof -
    have "length (base128_hi (unat v div 128)) \<le> 9"
      using unat_less_pow [of v] by (intro length_base128_hi) simp
    then show ?thesis by (simp add: base128_def)
  qed
  have small: "room s0 k" if "k < size_limit" for k
    using room_kept [OF s0(3)] rm that by simp
  obtain s1 where s1: "add_base128_integer 0 (40 * 1 + 2) s0 = (True, s1)"
      "represents s1 [(Fixed 0, base128 (unat (40 * 1 + 2 :: u64)))]" "env_kept s0 s1"
    by (rule append_one_complete [OF s0(2) add_base128_operation [of 0 "40 * 1 + 2"]])
      (use small b [of "40 * 1 + 2"] in auto)
  obtain s2 where s2: "add_base128_integer 0 840 s1 = (True, s2)"
      "represents s2 [(Fixed 0, base128 (unat (40 * 1 + 2 :: u64)) @ base128 (unat (840 :: u64)))]" "env_kept s1 s2"
    by (rule append_one_complete [OF s1(2) add_base128_operation [of 0 840]])
      (use room_kept [OF s1(3) small] b [of "40 * 1 + 2"] b [of 840] in auto)
  have "?o s1 = (True, s2)"
    using s2(1) p(3) by (simp add: oid_text_loop.simps CBS_len_def)
  then have t: "CBB_add_asn1_oid_from_text 0 ?t 7 st = (True, s2)"
    using s0(1) s1(1) p(1,2) by (simp add: CBB_add_asn1_oid_from_text_def and_then_def CBS_init_def)
  have l7: "length ?t = 7" by simp
  have t': "CBB_add_asn1_oid_from_text 0 ?t (length ?t) st = (True, s2)" unfolding l7 by (rule t)
  obtain oid where fin: "fst (CBB_finish 0 True s2) = Some oid"
    using finish_complete [OF s2(2)] room_kept [OF s2(3) room_kept [OF s1(3) small]]
      b [of "40 * 1 + 2"] b [of 840] by auto
  then obtain s3 where s3: "CBB_finish 0 True s2 = (Some oid, s3)" by (cases "CBB_finish 0 True s2") auto
  have "CBS_asn1_oid_to_text ?m ?f oid = Some (?t @ [0])"
    using oid_text_roundtrip [OF st _ t' s3, of ?m ?f] by simp
  with st t s3 show ?thesis by auto
qed

end
