(* ===== verification/Unicode.thy ===== *)
theory Unicode
  imports CBB_Refine
begin

text \<open>
  \<open>crypto/bytestring/unicode.c\<close>: one character at a time in UTF-8, Latin-1, UCS-2 and
  UTF-32. The four pairs of a \<open>cbs_get\<close> and a \<open>cbb_add\<close> function share the contract of the
  locale \<open>char_codec\<close>: they are inverse to each other and accept exactly one encoding of
  every character they can represent.
\<close>

unbundle bit_operations_syntax

section \<open>Code\<close>

definition is_valid_code_point :: "u32 \<Rightarrow> bool" where
  "is_valid_code_point v =
     (if v > 0x10ffff \<or> v AND 0xfffe = 0xfffe \<or> (v \<ge> 0xfdd0 \<and> v \<le> 0xfdef)
         \<or> (v \<ge> 0xd800 \<and> v \<le> 0xdfff)
      then False else True)"

definition BOTTOM_BITS :: "nat \<Rightarrow> u8" where
  "BOTTOM_BITS n = push_bit n 1 - 1"

definition TOP_BITS :: "nat \<Rightarrow> u8" where
  "TOP_BITS n = NOT (BOTTOM_BITS (8 - n))"

text \<open>The loop of \<open>cbs_get_utf8\<close> over the continuation bytes.\<close>

fun utf8_tail :: "nat \<Rightarrow> u32 \<Rightarrow> cbs \<Rightarrow> u32 option \<times> cbs" where
  "utf8_tail 0 v cbs = (Some v, cbs)"
| "utf8_tail (Suc len) v cbs =
     (case CBS_get_u8 cbs of
        (None, cbs) \<Rightarrow> (None, cbs)
      | (Some c, cbs) \<Rightarrow>
          if c AND TOP_BITS 2 \<noteq> TOP_BITS 1 then (None, cbs)
          else utf8_tail len (push_bit 6 v OR ucast (c AND BOTTOM_BITS 6)) cbs)"

definition utf8_multi :: "u8 \<Rightarrow> nat \<Rightarrow> u32 \<Rightarrow> cbs \<Rightarrow> u32 option \<times> cbs" where
  "utf8_multi v len lower_bound cbs =
     (case utf8_tail len (ucast v) cbs of
        (None, cbs) \<Rightarrow> (None, cbs)
      | (Some v, cbs) \<Rightarrow>
          if \<not> is_valid_code_point v \<or> v < lower_bound then (None, cbs) else (Some v, cbs))"

definition cbs_get_utf8 :: "cbs \<Rightarrow> u32 option \<times> cbs" where
  "cbs_get_utf8 cbs =
     (case CBS_get_u8 cbs of
        (None, cbs) \<Rightarrow> (None, cbs)
      | (Some c, cbs) \<Rightarrow>
          if c \<le> 0x7f then (Some (ucast c), cbs)
          else if c AND TOP_BITS 3 = TOP_BITS 2 then utf8_multi (c AND BOTTOM_BITS 5) 1 0x80 cbs
          else if c AND TOP_BITS 4 = TOP_BITS 3 then utf8_multi (c AND BOTTOM_BITS 4) 2 0x800 cbs
          else if c AND TOP_BITS 5 = TOP_BITS 4 then utf8_multi (c AND BOTTOM_BITS 3) 3 0x10000 cbs
          else (None, cbs))"

definition cbs_get_latin1 :: "cbs \<Rightarrow> u32 option \<times> cbs" where
  "cbs_get_latin1 cbs =
     (case CBS_get_u8 cbs of (None, cbs) \<Rightarrow> (None, cbs) | (Some c, cbs) \<Rightarrow> (Some (ucast c), cbs))"

definition cbs_get_ucs2_be :: "cbs \<Rightarrow> u32 option \<times> cbs" where
  "cbs_get_ucs2_be cbs =
     (case CBS_get_u16 cbs of
        (None, cbs) \<Rightarrow> (None, cbs)
      | (Some c, cbs) \<Rightarrow>
          if \<not> is_valid_code_point (ucast c) then (None, cbs) else (Some (ucast c), cbs))"

definition cbs_get_utf32_be :: "cbs \<Rightarrow> u32 option \<times> cbs" where
  "cbs_get_utf32_be cbs =
     (case CBS_get_u32 cbs of
        (None, cbs) \<Rightarrow> (None, cbs)
      | (Some v, cbs) \<Rightarrow> if is_valid_code_point v then (Some v, cbs) else (None, cbs))"

definition cbb_get_utf8_len :: "u32 \<Rightarrow> nat" where
  "cbb_get_utf8_len u = (if u \<le> 0x7f then 1 else if u \<le> 0x7ff then 2 else if u \<le> 0xffff then 3 else 4)"

text \<open>The bytes are computed as \<open>uint32_t\<close> and converted to \<open>uint8_t\<close> by the call.\<close>

definition utf8_lead :: "nat \<Rightarrow> u32 \<Rightarrow> u8" where
  "utf8_lead n u = ucast (ucast (TOP_BITS n) OR u)"

definition utf8_cont :: "u32 \<Rightarrow> u8" where
  "utf8_cont u = ucast (ucast (TOP_BITS 1) OR (u AND ucast (BOTTOM_BITS 6)))"

definition cbb_add_utf8 :: "nat \<Rightarrow> u32 \<Rightarrow> cbb_st \<Rightarrow> bool \<times> cbb_st" where
  "cbb_add_utf8 d u =
     (if \<not> is_valid_code_point u then Pair False
      else if u \<le> 0x7f then CBB_add_u8 d (ucast u)
      else if u \<le> 0x7ff then
        and_then (CBB_add_u8 d (utf8_lead 2 (drop_bit 6 u)))
          (CBB_add_u8 d (utf8_cont u))
      else if u \<le> 0xffff then
        and_then (CBB_add_u8 d (utf8_lead 3 (drop_bit 12 u)))
          (and_then (CBB_add_u8 d (utf8_cont (drop_bit 6 u)))
            (CBB_add_u8 d (utf8_cont u)))
      else if u \<le> 0x10ffff then
        and_then (CBB_add_u8 d (utf8_lead 4 (drop_bit 18 u)))
          (and_then (CBB_add_u8 d (utf8_cont (drop_bit 12 u)))
            (and_then (CBB_add_u8 d (utf8_cont (drop_bit 6 u)))
              (CBB_add_u8 d (utf8_cont u))))
      else Pair False)"

definition cbb_add_latin1 :: "nat \<Rightarrow> u32 \<Rightarrow> cbb_st \<Rightarrow> bool \<times> cbb_st" where
  "cbb_add_latin1 d u = (if u \<le> 0xff then CBB_add_u8 d (ucast u) else Pair False)"

definition cbb_add_ucs2_be :: "nat \<Rightarrow> u32 \<Rightarrow> cbb_st \<Rightarrow> bool \<times> cbb_st" where
  "cbb_add_ucs2_be d u =
     (if u \<le> 0xffff \<and> is_valid_code_point u then CBB_add_u16 d (ucast u) else Pair False)"

definition cbb_add_utf32_be :: "nat \<Rightarrow> u32 \<Rightarrow> cbb_st \<Rightarrow> bool \<times> cbb_st" where
  "cbb_add_utf32_be d u = (if is_valid_code_point u then CBB_add_u32 d u else Pair False)"

section \<open>The encoding as numbers\<close>

fun cont_bytes :: "nat \<Rightarrow> nat \<Rightarrow> bytes" where
  "cont_bytes 0 x = []"
| "cont_bytes (Suc n) x = of_nat (128 + x div 64 ^ n mod 64) # cont_bytes n x"

definition utf8_encode :: "nat \<Rightarrow> bytes" where
  "utf8_encode n =
     (if n < 0x80 then [of_nat n]
      else if n < 0x800 then of_nat (0xc0 + n div 64) # cont_bytes 1 n
      else if n < 0x10000 then of_nat (0xe0 + n div 4096) # cont_bytes 2 n
      else of_nat (0xf0 + n div 262144) # cont_bytes 3 n)"

lemma bits_consts [simp]:
  "TOP_BITS (Suc 0) = 0x80" "TOP_BITS 2 = 0xc0" "TOP_BITS 3 = 0xe0" "TOP_BITS 4 = 0xf0" "TOP_BITS 5 = 0xf8"
  "BOTTOM_BITS 6 = 0x3f" "BOTTOM_BITS 5 = 0x1f" "BOTTOM_BITS 4 = 0x0f" "BOTTOM_BITS 3 = 0x07"
  by code_simp+

lemma u8_classes:
  "(c AND 0xc0 = (0x80 :: u8)) = (unat c div 64 = 2)"
  "(c AND 0xe0 = (0xc0 :: u8)) = (unat c div 32 = 6)"
  "(c AND 0xf0 = (0xe0 :: u8)) = (unat c div 16 = 14)"
  "(c AND 0xf8 = (0xf0 :: u8)) = (unat c div 8 = 30)"
  by (rule u8_by_eval [where P = "\<lambda>c. (c AND 0xc0 = (0x80 :: u8)) = (unat c div 64 = 2)"], code_simp)
    (rule u8_by_eval [where P = "\<lambda>c. (c AND 0xe0 = (0xc0 :: u8)) = (unat c div 32 = 6)"], code_simp,
     rule u8_by_eval [where P = "\<lambda>c. (c AND 0xf0 = (0xe0 :: u8)) = (unat c div 16 = 14)"], code_simp,
     rule u8_by_eval [where P = "\<lambda>c. (c AND 0xf8 = (0xf0 :: u8)) = (unat c div 8 = 30)"], code_simp)

lemma u8_low_bits:
  "unat (c AND 0x3f :: u8) = unat c mod 64"
  "unat (c AND 0x0f :: u8) = unat c mod 16"
  "unat (c AND 0x07 :: u8) = unat c mod 8"
  by (rule u8_by_eval [where P = "\<lambda>c. unat (c AND 0x3f) = unat c mod 64"], code_simp)
    (rule u8_by_eval [where P = "\<lambda>c. unat (c AND 0x0f) = unat c mod 16"], code_simp,
     rule u8_by_eval [where P = "\<lambda>c. unat (c AND 0x07) = unat c mod 8"], code_simp)

text \<open>The continuation loop accepts exactly the base-64 digits of the result.\<close>

lemma utf8_tail_iff:
  "(unat v + 1) * 64 ^ n \<le> 2 ^ 32 \<Longrightarrow>
     utf8_tail n v s = (Some w, s') \<longleftrightarrow> unat w div 64 ^ n = unat v \<and> s = cont_bytes n (unat w) @ s'"
proof (induction n arbitrary: v s)
  case 0
  then show ?case by (auto simp: word_unat_eq_iff)
next
  case (Suc n)
  show ?case
  proof (cases s)
    case Nil
    then show ?thesis by simp
  next
    case (Cons c t)
    let ?v = "push_bit 6 v OR ucast (c AND 0x3f) :: u32"
    have m: "unat c mod 64 < 64" by simp
    have "unat v < 2 ^ 26"
    proof -
      have "(unat v + 1) * 64 * 1 \<le> (unat v + 1) * 64 * 64 ^ n" by (intro mult_left_mono) simp_all
      also have "\<dots> \<le> 2 ^ 32" using Suc.prems by (simp only: power_Suc mult.assoc)
      finally show ?thesis by simp
    qed
    then have "unat v * 2 ^ 6 + unat (ucast (c AND 0x3f) :: u32) < 2 ^ LENGTH(32)"
      using m by (simp add: u8_low_bits)
    then have v': "unat ?v = unat v * 64 + unat c mod 64"
      using unat_push_or [of "ucast (c AND 0x3f) :: u32" 6 v] m by (simp add: u8_low_bits)
    have "(unat ?v + 1) * 64 ^ n \<le> (unat v + 1) * 64 * 64 ^ n"
      unfolding v' using m by (intro mult_right_mono) simp_all
    also have "\<dots> \<le> 2 ^ 32" using Suc.prems by (simp only: power_Suc mult.assoc)
    finally have IH: "utf8_tail n ?v t = (Some w, s') \<longleftrightarrow> unat w div 64 ^ n = unat ?v \<and> t = cont_bytes n (unat w) @ s'"
      by (rule Suc.IH)
    have dm: "unat w div 64 ^ n = unat v * 64 + r \<longleftrightarrow> unat w div 64 ^ Suc n = unat v \<and> unat w div 64 ^ n mod 64 = r"
      if "r < 64" for r
      using eq_mult_add_iff [OF that, of "unat w div 64 ^ n" "unat v"]
      by (simp add: div_mult2_eq [symmetric] mult.commute [of 64])
    have c: "c = of_nat (128 + unat w div 64 ^ n mod 64) \<longleftrightarrow> unat c div 64 = 2 \<and> unat w div 64 ^ n mod 64 = unat c mod 64"
    proof -
      have "unat (of_nat (128 + unat w div 64 ^ n mod 64) :: u8) = 128 + unat w div 64 ^ n mod 64"
      proof (rule unat_of_nat_less)
        have "unat w div 64 ^ n mod 64 < 64" by simp
        then show "128 + unat w div 64 ^ n mod 64 < 2 ^ LENGTH(8)" by simp
      qed
      moreover have "unat w div 64 ^ n mod 64 < 64" by simp
      ultimately show ?thesis
        unfolding u8_eq_iff using eq_mult_add_iff [of "unat w div 64 ^ n mod 64" 64 "unat c" 2] by auto
    qed
    show ?thesis
      unfolding Cons utf8_tail.simps CBS_get_u8_Cons prod.case option.case cont_bytes.simps append_Cons list.inject c
      using IH dm [OF m] by (simp add: u8_classes v' del: power_Suc)
  qed
qed

lemma utf8_multi_iff:
  assumes "(unat c + 1) * 64 ^ n \<le> 2 ^ 32"
  shows "utf8_multi c n lb s = (Some w, s') \<longleftrightarrow>
    is_valid_code_point w \<and> lb \<le> w \<and> unat w div 64 ^ n = unat c \<and> s = cont_bytes n (unat w) @ s'"
proof -
  have "utf8_multi c n lb s = (Some w, s') \<longleftrightarrow>
      utf8_tail n (ucast c) s = (Some w, s') \<and> is_valid_code_point w \<and> lb \<le> w"
    by (auto simp: utf8_multi_def not_less split: prod.splits option.splits)
  also have "\<dots> \<longleftrightarrow> (unat w div 64 ^ n = unat c \<and> s = cont_bytes n (unat w) @ s') \<and> is_valid_code_point w \<and> lb \<le> w"
    using utf8_tail_iff [of "ucast c" n s w s'] assms by simp
  finally show ?thesis by blast
qed

lemma valid_le: "is_valid_code_point v \<Longrightarrow> unat v \<le> 0x10ffff"
  by (auto simp: is_valid_code_point_def word_less_nat_alt split: if_splits)

lemma small_valid: "unat v < 0xd800 \<Longrightarrow> is_valid_code_point v"
proof -
  assume lt: "unat v < 0xd800"
  have "v AND 0xfffe \<noteq> 0xfffe"
  proof
    assume e: "v AND 0xfffe = 0xfffe"
    have "v AND 0xfffe \<le> v" by (rule word_and_le2)
    then have "unat (v AND 0xfffe) \<le> unat v" by (simp only: word_le_nat_alt)
    with e lt show False by simp
  qed
  with lt show ?thesis
    by (simp add: is_valid_code_point_def word_less_nat_alt word_le_nat_alt)
qed

lemma div_bound: "x div m < k \<Longrightarrow> 0 < m \<Longrightarrow> x < k * m" for x m k :: nat
  by (simp add: div_less_iff_less_mult)

text \<open>The four classes of lead bytes, decided byte by byte.\<close>

lemma lead_classes:
  fixes c :: u8
  shows "unat c div 32 = 6 \<Longrightarrow> \<not> unat c < 128 \<and> unat c = 0xc0 + unat c mod 32"
    and "unat c div 16 = 14 \<Longrightarrow> \<not> unat c < 128 \<and> unat c div 32 \<noteq> 6 \<and> unat c = 0xe0 + unat c mod 16"
    and "unat c div 8 = 30 \<Longrightarrow> \<not> unat c < 128 \<and> unat c div 32 \<noteq> 6 \<and> unat c div 16 \<noteq> 14
      \<and> unat c = 0xf0 + unat c mod 8"
proof -
  let ?P = "\<lambda>n :: nat. (n div 32 = 6 \<longrightarrow> \<not> n < 128 \<and> n = 0xc0 + n mod 32)
    \<and> (n div 16 = 14 \<longrightarrow> \<not> n < 128 \<and> n div 32 \<noteq> 6 \<and> n = 0xe0 + n mod 16)
    \<and> (n div 8 = 30 \<longrightarrow> \<not> n < 128 \<and> n div 32 \<noteq> 6 \<and> n div 16 \<noteq> 14 \<and> n = 0xf0 + n mod 8)"
  have "list_all ?P [0..<256]" by code_simp
  then have "?P (unat c)" by (rule nat_below_by_eval) simp
  then show "unat c div 32 = 6 \<Longrightarrow> \<not> unat c < 128 \<and> unat c = 0xc0 + unat c mod 32"
    and "unat c div 16 = 14 \<Longrightarrow> \<not> unat c < 128 \<and> unat c div 32 \<noteq> 6 \<and> unat c = 0xe0 + unat c mod 16"
    and "unat c div 8 = 30 \<Longrightarrow> \<not> unat c < 128 \<and> unat c div 32 \<noteq> 6 \<and> unat c div 16 \<noteq> 14
      \<and> unat c = 0xf0 + unat c mod 8" by blast+
qed

lemma lead_values:
  "q < 32 \<Longrightarrow> \<not> (0xc0 + q :: nat) < 128 \<and> (0xc0 + q) div 32 = 6 \<and> (0xc0 + q) mod 32 = q"
  "q < 16 \<Longrightarrow> \<not> (0xe0 + q :: nat) < 128 \<and> (0xe0 + q) div 32 \<noteq> 6 \<and> (0xe0 + q) div 16 = 14 \<and> (0xe0 + q) mod 16 = q"
  "q < 8 \<Longrightarrow> \<not> (0xf0 + q :: nat) < 128 \<and> (0xf0 + q) div 32 \<noteq> 6 \<and> (0xf0 + q) div 16 \<noteq> 14
     \<and> (0xf0 + q) div 8 = 30 \<and> (0xf0 + q) mod 8 = q"
  by (rule nat_below_by_eval [where n = 32 and P = "\<lambda>q. \<not> (0xc0 + q) < 128 \<and> (0xc0 + q) div 32 = 6 \<and> (0xc0 + q) mod 32 = q"], code_simp, assumption)
    (rule nat_below_by_eval [where n = 16 and P = "\<lambda>q. \<not> (0xe0 + q) < 128 \<and> (0xe0 + q) div 32 \<noteq> 6 \<and> (0xe0 + q) div 16 = 14 \<and> (0xe0 + q) mod 16 = q"], code_simp, assumption,
     rule nat_below_by_eval [where n = 8 and P = "\<lambda>q. \<not> (0xf0 + q) < 128 \<and> (0xf0 + q) div 32 \<noteq> 6 \<and> (0xf0 + q) div 16 \<noteq> 14
       \<and> (0xf0 + q) div 8 = 30 \<and> (0xf0 + q) mod 8 = q"], code_simp, assumption)

lemma lead_byte:
  fixes c :: u8
  shows "k + x < 256 \<Longrightarrow> c = of_nat (k + x) \<longleftrightarrow> unat c = k + x"
  unfolding u8_eq_iff by (subst unat_of_nat_less) simp_all

text \<open>\<open>cbs_get_utf8\<close> accepts exactly the encodings of valid code points: no overlong forms,
  no surrogates, no truncated sequences.\<close>

lemma cbs_get_utf8_iff:
  "cbs_get_utf8 s = (Some v, s') \<longleftrightarrow> is_valid_code_point v \<and> s = utf8_encode (unat v) @ s'"
proof (cases s)
  case Nil
  then show ?thesis by (auto simp: cbs_get_utf8_def utf8_encode_def)
next
  case (Cons c t)
  have c256: "unat c < 256" by simp
  have ascii: "(c \<le> 0x7f) = (unat c < 128)" by (auto simp: word_le_nat_alt)
  have "cbs_get_utf8 s = (Some v, s') \<longleftrightarrow>
      (if unat c < 128 then v = ucast c \<and> t = s'
       else if unat c div 32 = 6 then utf8_multi (c AND 0x1f) 1 0x80 t = (Some v, s')
       else if unat c div 16 = 14 then utf8_multi (c AND 0x0f) 2 0x800 t = (Some v, s')
       else if unat c div 8 = 30 then utf8_multi (c AND 0x07) 3 0x10000 t = (Some v, s')
       else False)"
    unfolding cbs_get_utf8_def Cons by (simp add: u8_classes ascii eq_commute [of v])
  also have "\<dots> \<longleftrightarrow>
      (if unat c < 128 then unat v = unat c \<and> t = s'
       else if unat c div 32 = 6 then is_valid_code_point v \<and> 0x80 \<le> unat v
         \<and> unat v div 64 = unat c mod 32 \<and> t = cont_bytes 1 (unat v) @ s'
       else if unat c div 16 = 14 then is_valid_code_point v \<and> 0x800 \<le> unat v
         \<and> unat v div 4096 = unat c mod 16 \<and> t = cont_bytes 2 (unat v) @ s'
       else if unat c div 8 = 30 then is_valid_code_point v \<and> 0x10000 \<le> unat v
         \<and> unat v div 262144 = unat c mod 8 \<and> t = cont_bytes 3 (unat v) @ s'
       else False)" (is "_ \<longleftrightarrow> ?R")
  proof -
    have m: "unat c mod 32 < 32" "unat c mod 16 < 16" "unat c mod 8 < 8" by simp_all
    have "v = ucast c \<longleftrightarrow> unat v = unat c" by (simp add: word_unat_eq_iff)
    moreover have "utf8_multi (c AND 0x1f) 1 0x80 t = (Some v, s') \<longleftrightarrow> is_valid_code_point v \<and> 0x80 \<le> unat v
         \<and> unat v div 64 = unat c mod 32 \<and> t = cont_bytes 1 (unat v) @ s'"
      using m by (subst utf8_multi_iff) (simp_all add: u8_low5 word_le_nat_alt)
    moreover have "utf8_multi (c AND 0x0f) 2 0x800 t = (Some v, s') \<longleftrightarrow> is_valid_code_point v \<and> 0x800 \<le> unat v
         \<and> unat v div 4096 = unat c mod 16 \<and> t = cont_bytes 2 (unat v) @ s'"
      using m by (subst utf8_multi_iff) (simp_all add: u8_low_bits word_le_nat_alt)
    moreover have "utf8_multi (c AND 0x07) 3 0x10000 t = (Some v, s') \<longleftrightarrow> is_valid_code_point v \<and> 0x10000 \<le> unat v
         \<and> unat v div 262144 = unat c mod 8 \<and> t = cont_bytes 3 (unat v) @ s'"
      using m by (subst utf8_multi_iff) (simp_all add: u8_low_bits word_le_nat_alt)
    ultimately show ?thesis by (simp only:)
  qed
  also have "\<dots> \<longleftrightarrow> is_valid_code_point v \<and> s = utf8_encode (unat v) @ s'"
  proof
    assume r: ?R
    have val: "is_valid_code_point v" using r small_valid [of v] by (auto split: if_splits)
    note le = valid_le [OF val]
    consider "unat c < 128" | "unat c div 32 = 6" | "unat c div 16 = 14" | "unat c div 8 = 30"
      using r by (auto split: if_splits)
    then have "s = utf8_encode (unat v) @ s'"
    proof cases
      case 1
      with r show ?thesis by (simp add: Cons utf8_encode_def)
    next
      case 2
      note d = lead_classes(1) [OF 2]
      with r 2 have "unat v div 64 = unat c mod 32" "0x80 \<le> unat v" "t = cont_bytes 1 (unat v) @ s'" by simp_all
      moreover from this(1) have "unat v < 0x800" using div_bound [of "unat v" 64 32] by simp
      ultimately show ?thesis
        using d lead_byte [of "0xc0" "unat v div 64" c] by (simp add: Cons utf8_encode_def)
    next
      case 3
      note d = lead_classes(2) [OF 3]
      with 3 r have "unat v div 4096 = unat c mod 16" "0x800 \<le> unat v" "t = cont_bytes 2 (unat v) @ s'" by simp_all
      moreover from this(1) have "unat v < 0x10000" using div_bound [of "unat v" 4096 16] by simp
      ultimately show ?thesis
        using d lead_byte [of "0xe0" "unat v div 4096" c] by (simp add: Cons utf8_encode_def)
    next
      case 4
      note d = lead_classes(3) [OF 4]
      with 4 r have "unat v div 262144 = unat c mod 8" "0x10000 \<le> unat v" "t = cont_bytes 3 (unat v) @ s'" by simp_all
      then show ?thesis
        using d lead_byte [of "0xf0" "unat v div 262144" c] by (simp add: Cons utf8_encode_def)
    qed
    with val show "is_valid_code_point v \<and> s = utf8_encode (unat v) @ s'" ..
  next
    assume a: "is_valid_code_point v \<and> s = utf8_encode (unat v) @ s'"
    then have le: "unat v \<le> 0x10ffff" and val: "is_valid_code_point v" by (auto dest: valid_le)
    consider "unat v < 0x80" | "0x80 \<le> unat v" "unat v < 0x800" | "0x800 \<le> unat v" "unat v < 0x10000"
      | "0x10000 \<le> unat v" by linarith
    then show ?R
    proof cases
      case 1
      with a have c: "c = of_nat (unat v)" "t = s'" by (auto simp: Cons utf8_encode_def simp del: of_nat_unat)
      then have "unat c = unat v" using 1 by (simp only: unat_of_nat_u8) simp
      with c 1 show ?thesis by simp
    next
      case 2
      then have q: "unat v div 64 < 32" by (simp add: less_mult_imp_div_less)
      with a 2 have c: "unat c = 0xc0 + unat v div 64" "t = cont_bytes 1 (unat v) @ s'"
        using lead_byte [of "0xc0" "unat v div 64" c] by (simp_all add: Cons utf8_encode_def)
      then have "\<not> unat c < 128" "unat c div 32 = 6" "unat c mod 32 = unat v div 64"
        using lead_values(1) [OF q] by simp_all
      with c val 2 show ?thesis by simp
    next
      case 3
      then have q: "unat v div 4096 < 16" by (simp add: less_mult_imp_div_less)
      with a 3 have c: "unat c = 0xe0 + unat v div 4096" "t = cont_bytes 2 (unat v) @ s'"
        using lead_byte [of "0xe0" "unat v div 4096" c] by (simp_all add: Cons utf8_encode_def)
      then have "\<not> unat c < 128" "unat c div 32 \<noteq> 6" "unat c div 16 = 14" "unat c mod 16 = unat v div 4096"
        using lead_values(2) [OF q] by simp_all
      with c val 3 show ?thesis by simp
    next
      case 4
      have q: "unat v div 262144 < 8" using le by (simp add: less_mult_imp_div_less)
      with a 4 have c: "unat c = 0xf0 + unat v div 262144" "t = cont_bytes 3 (unat v) @ s'"
        using lead_byte [of "0xf0" "unat v div 262144" c] by (simp_all add: Cons utf8_encode_def)
      then have "\<not> unat c < 128" "unat c div 32 \<noteq> 6" "unat c div 16 \<noteq> 14" "unat c div 8 = 30"
        "unat c mod 8 = unat v div 262144"
        using lead_values(3) [OF q] by simp_all
      with c val 4 show ?thesis by simp
    qed
  qed
  finally show ?thesis .
qed

section \<open>The writers\<close>

lemma unat_ucast_u8: "unat (ucast (x :: u32) :: u8) = unat x mod 256"
  by (simp add: unsigned_ucast_eq take_bit_eq_mod)

lemma unat_or_u32:
  fixes x :: u32
  assumes "unat x < 2 ^ k" and "(c :: nat) * 2 ^ k + unat x < 2 ^ 32"
  shows "unat (of_nat (c * 2 ^ k) OR x) = c * 2 ^ k + unat x"
proof -
  have "c * 2 ^ k < 2 ^ 32" using assms(2) by linarith
  moreover have "c * 1 \<le> c * 2 ^ k" by (intro mult_left_mono) simp_all
  ultimately have "c < 2 ^ 32" by linarith
  then have c: "unat (of_nat c :: u32) = c" by (intro unat_of_nat_less) simp_all
  have "unat (push_bit k (of_nat c) OR x) = unat (of_nat c :: u32) * 2 ^ k + unat x"
    using assms c by (intro unat_push_or) simp_all
  moreover have "push_bit k (of_nat c) = (of_nat (c * 2 ^ k) :: u32)"
    by (simp add: push_bit_eq_mult)
  ultimately show ?thesis using c by simp
qed

lemma drop_u32: "unat (drop_bit k (u :: u32)) = unat u div 2 ^ k"
  by (simp only: unat_drop_bit_eq) (simp only: drop_bit_eq_div)

lemma utf8_cont_value: "utf8_cont u = of_nat (128 + unat u mod 64)"
proof -
  have "u AND ucast (0x3f :: u8) = take_bit 6 u"
    by (simp add: take_bit_eq_mask mask_eq_exp_minus_1)
  then have "unat (u AND ucast (0x3f :: u8)) = take_bit 6 (unat u)"
    by (simp only: unsigned_take_bit_eq)
  then have x: "unat (u AND ucast (0x3f :: u8)) = unat u mod 64"
    by (simp only: take_bit_eq_mod) simp
  then have x': "unat (u AND 0x3f) = unat u mod 64" by simp
  have "unat (of_nat (2 * 2 ^ 6) OR (u AND ucast (0x3f :: u8))) = 2 * 2 ^ 6 + unat (u AND ucast (0x3f :: u8))"
  proof (rule unat_or_u32)
    have "unat u mod 64 < 64" by simp
    then show "unat (u AND ucast (0x3f :: u8)) < 2 ^ 6"
      and "2 * 2 ^ 6 + unat (u AND ucast (0x3f :: u8)) < 2 ^ 32" by (simp_all only: x) simp_all
  qed
  then have "unat (ucast (0x80 :: u8) OR (u AND ucast (0x3f :: u8))) = 128 + unat u mod 64"
    by (simp add: x')
  then show ?thesis
    unfolding utf8_cont_def u8_eq_iff unat_ucast_u8 unat_of_nat_u8 by simp
qed

lemma utf8_lead_value:
  assumes "n = 2 \<and> unat x < 64 \<and> k = 0xc0 \<or> n = 3 \<and> unat x < 32 \<and> k = 0xe0 \<or> n = 4 \<and> unat x < 16 \<and> k = 0xf0"
  shows "utf8_lead n x = of_nat (k + unat x)"
proof -
  have "unat (ucast (TOP_BITS n) OR x) = k + unat x"
    using assms unat_or_u32 [of x 6 3] unat_or_u32 [of x 5 7] unat_or_u32 [of x 4 15] by auto
  then show ?thesis unfolding utf8_lead_def u8_eq_iff unat_ucast_u8 unat_of_nat_u8 by simp
qed

lemma cont_bytes_eqs:
  "cont_bytes 2 n = [of_nat (128 + n div 64 mod 64), of_nat (128 + n mod 64)]"
  "cont_bytes 3 n = [of_nat (128 + n div 4096 mod 64), of_nat (128 + n div 64 mod 64), of_nat (128 + n mod 64)]"
  by (simp_all add: numeral_2_eq_2 numeral_3_eq_3)

lemma two_bytes: "cbb_operation (and_then (CBB_add_u8 d a) (CBB_add_u8 d b)) (spec_append d [a, b])"
  using operation_and_then [OF add_u8_operation [of d a] add_u8_operation [of d b]]
  by (simp add: spec_append_append)

lemma three_bytes:
  "cbb_operation (and_then (CBB_add_u8 d a) (and_then (CBB_add_u8 d b) (CBB_add_u8 d c))) (spec_append d [a, b, c])"
  using operation_and_then [OF add_u8_operation [of d a] two_bytes [of d b c]]
  by (simp add: spec_append_append)

lemma four_bytes:
  "cbb_operation (and_then (CBB_add_u8 d a) (and_then (CBB_add_u8 d b) (and_then (CBB_add_u8 d c) (CBB_add_u8 d e))))
    (spec_append d [a, b, c, e])"
  using operation_and_then [OF add_u8_operation [of d a] three_bytes [of d b c e]]
  by (simp add: spec_append_append)

lemma add_utf8_operation:
  assumes "is_valid_code_point u"
  shows "cbb_operation (cbb_add_utf8 d u) (spec_append d (utf8_encode (unat u)))"
proof -
  note le = valid_le [OF assms]
  have c: "unat (drop_bit 6 u) = unat u div 64" "unat (drop_bit 12 u) = unat u div 4096"
    "unat (drop_bit 18 u) = unat u div 262144"
    by (simp_all add: drop_u32)
  consider "unat u < 0x80" | "0x80 \<le> unat u" "unat u < 0x800" | "0x800 \<le> unat u" "unat u < 0x10000"
    | "0x10000 \<le> unat u" by linarith
  then show ?thesis
  proof cases
    case 1
    then have "(ucast u :: u8) = of_nat (unat u)" by (simp add: u8_eq_iff unat_ucast_u8 unat_of_nat_u8 del: of_nat_unat)
    with 1 assms show ?thesis
      using add_u8_operation [of d "ucast u"]
      by (simp add: cbb_add_utf8_def utf8_encode_def word_le_nat_alt del: of_nat_unat)
  next
    case 2
    then have "unat u div 64 < 64" by (simp add: less_mult_imp_div_less)
    then have "utf8_lead 2 (drop_bit 6 u) = of_nat (0xc0 + unat u div 64)"
      using utf8_lead_value [of 2 "drop_bit 6 u" "0xc0"] c by simp
    with 2 assms two_bytes [of d "of_nat (0xc0 + unat u div 64)" "utf8_cont u"] show ?thesis
      by (simp add: cbb_add_utf8_def utf8_encode_def word_le_nat_alt utf8_cont_value)
  next
    case 3
    then have "unat u div 4096 < 32" by (simp add: less_mult_imp_div_less)
    then have "utf8_lead 3 (drop_bit 12 u) = of_nat (0xe0 + unat u div 4096)"
      using utf8_lead_value [of 3 "drop_bit 12 u" "0xe0"] c by simp
    with 3 assms three_bytes [of d "of_nat (0xe0 + unat u div 4096)" "utf8_cont (drop_bit 6 u)" "utf8_cont u"]
    show ?thesis
      by (simp add: cbb_add_utf8_def utf8_encode_def word_le_nat_alt utf8_cont_value c cont_bytes_eqs)
  next
    case 4
    have "unat u div 262144 < 16" using le by (simp add: less_mult_imp_div_less)
    then have "utf8_lead 4 (drop_bit 18 u) = of_nat (0xf0 + unat u div 262144)"
      using utf8_lead_value [of 4 "drop_bit 18 u" "0xf0"] c by simp
    with 4 le assms four_bytes [of d "of_nat (0xf0 + unat u div 262144)" "utf8_cont (drop_bit 12 u)"
        "utf8_cont (drop_bit 6 u)" "utf8_cont u"]
    show ?thesis
      by (simp add: cbb_add_utf8_def utf8_encode_def word_le_nat_alt utf8_cont_value c cont_bytes_eqs)
  qed
qed

section \<open>The contract of a character encoding\<close>

locale char_codec =
  fixes get :: "cbs \<Rightarrow> u32 option \<times> cbs"
    and add :: "nat \<Rightarrow> u32 \<Rightarrow> cbb_st \<Rightarrow> bool \<times> cbb_st"
    and enc :: "u32 \<Rightarrow> bytes option"
  assumes get_iff: "get s = (Some v, s') \<longleftrightarrow> (\<exists>e. enc v = Some e \<and> s = e @ s')"
    and enc_nonempty: "enc v = Some e \<Longrightarrow> e \<noteq> []"
    and add_operation: "enc v = Some e \<Longrightarrow> cbb_operation (add d v) (spec_append d e)"
    and add_fails: "enc v = None \<Longrightarrow> add d v st = (False, st)"
begin

text \<open>A character that was written is read back.\<close>

lemma add_get_roundtrip:
  assumes "CBB_init m f n = (True, st)" and "add 0 v st = (True, st1)"
    and "CBB_finish 0 True st1 = (Some x, st2)" and "n < size_limit"
  shows "get (x @ s) = (Some v, s)"
proof -
  obtain e where e: "enc v = Some e"
    using add_fails [of v 0 st] assms(2) by (cases "enc v") auto
  from run_and_finish [OF add_operation [OF e] assms] have "x = e" .
  with e show ?thesis by (auto simp: get_iff)
qed

text \<open>Two characters have no common encoding, and none is a prefix of another.\<close>

lemma enc_prefix_free: "enc v = Some e \<Longrightarrow> enc w = Some (e @ t) \<Longrightarrow> v = w \<and> t = []"
proof -
  assume "enc v = Some e" "enc w = Some (e @ t)"
  then have "get (e @ t) = (Some v, t)" "get (e @ t) = (Some w, [])" by (auto simp: get_iff)
  then show "v = w \<and> t = []" by simp
qed

end

interpretation utf8: char_codec cbs_get_utf8 cbb_add_utf8
  "\<lambda>v. if is_valid_code_point v then Some (utf8_encode (unat v)) else None"
proof (rule char_codec.intro)
  show "cbs_get_utf8 s = (Some v, s') \<longleftrightarrow>
      (\<exists>e. (if is_valid_code_point v then Some (utf8_encode (unat v)) else None) = Some e \<and> s = e @ s')" for s v s'
    by (auto simp: cbs_get_utf8_iff)
  show "e \<noteq> []" if "(if is_valid_code_point v then Some (utf8_encode (unat v)) else None) = Some e" for v e
    using that by (auto simp: utf8_encode_def split: if_splits)
  show "cbb_operation (cbb_add_utf8 d v) (spec_append d e)"
    if "(if is_valid_code_point v then Some (utf8_encode (unat v)) else None) = Some e" for v e d
    using that by (auto simp: add_utf8_operation split: if_splits)
  show "cbb_add_utf8 d v st = (False, st)"
    if "(if is_valid_code_point v then Some (utf8_encode (unat v)) else None) = None" for v d st
    using that by (simp add: cbb_add_utf8_def split: if_splits)
qed

interpretation latin1: char_codec cbs_get_latin1 cbb_add_latin1
  "\<lambda>v. if unat v < 256 then Some [of_nat (unat v)] else None"
proof (rule char_codec.intro)
  have u: "(ucast v :: u8) = of_nat (unat v)" for v :: u32
    by (simp add: u8_eq_iff unat_ucast_u8 unat_of_nat_u8 del: of_nat_unat)
  show "cbs_get_latin1 s = (Some v, s') \<longleftrightarrow> (\<exists>e. (if unat v < 256 then Some [of_nat (unat v)] else None) = Some e \<and> s = e @ s')"
    for s v s'
  proof (cases s)
    case Nil
    then show ?thesis by (auto simp: cbs_get_latin1_def split: if_splits)
  next
    case (Cons c t)
    have "ucast c = v \<longleftrightarrow> unat v < 256 \<and> c = of_nat (unat v)"
    proof
      assume v: "ucast c = v"
      then have "unat v = unat c" by auto
      then show "unat v < 256 \<and> c = of_nat (unat v)" by simp
    next
      assume a: "unat v < 256 \<and> c = of_nat (unat v)"
      then have "unat c = unat v" by (simp only: unat_of_nat_u8) simp
      then show "ucast c = v" by (simp add: word_unat_eq_iff)
    qed
    with Cons show ?thesis by (auto simp: cbs_get_latin1_def simp del: of_nat_unat split: if_splits)
  qed
  show "cbb_operation (cbb_add_latin1 d v) (spec_append d e)"
    if "(if unat v < 256 then Some [of_nat (unat v)] else None) = Some e" for v e d
    using that add_u8_operation [of d "ucast v"]
    by (auto simp: cbb_add_latin1_def u word_le_nat_alt simp del: of_nat_unat split: if_splits)
  show "cbb_add_latin1 d v st = (False, st)"
    if "(if unat v < 256 then Some [of_nat (unat v)] else None) = None" for v d st
    using that by (auto simp: cbb_add_latin1_def word_le_nat_alt split: if_splits)
qed (auto split: if_splits)

lemma get_u16_iff: "CBS_get_u16 s = (Some v, s') \<longleftrightarrow> s = be_bytes 2 (unat v) @ s'"
proof
  assume "CBS_get_u16 s = (Some v, s')"
  then obtain w where w: "cbs_get_u s 2 = (Some w, s')" "v = ucast w"
    by (auto simp: CBS_get_u16_def split: prod.splits option.splits)
  then have b: "unat w = be_val (take 2 s)" "s' = drop 2 s" "2 \<le> length s" "unat w < 256 ^ 2"
    using cbs_get_u_value [OF w(1)] cbs_get_u_bound [OF w(1)] by simp_all
  then have "unat v = be_val (take 2 s)" using w(2) by (simp add: unsigned_ucast_eq take_bit_eq_mod)
  then have "be_bytes 2 (unat v) = take 2 s" using be_bytes_be_val [of "take 2 s"] b(3) by simp
  then show "s = be_bytes 2 (unat v) @ s'" using b(2) by simp
next
  assume s: "s = be_bytes 2 (unat v) @ s'"
  have v: "unat v < 256 ^ 2" using unat_less_pow [of v] by simp
  have "unat (be_accum 0 (be_bytes 2 (unat v))) = unat v"
    using v by (subst unat_be_accum_0) (simp_all add: be_val_be_bytes del: be_bytes.simps)
  then have "ucast (be_accum 0 (be_bytes 2 (unat v))) = v"
    using v by (simp add: word_unat_eq_iff unsigned_ucast_eq take_bit_eq_mod)
  then show "CBS_get_u16 s = (Some v, s')"
    unfolding CBS_get_u16_def s by (subst cbs_get_u_append) simp_all
qed

lemma get_u32_iff: "CBS_get_u32 s = (Some v, s') \<longleftrightarrow> s = be_bytes 4 (unat v) @ s'"
proof
  assume "CBS_get_u32 s = (Some v, s')"
  then obtain w where w: "cbs_get_u s 4 = (Some w, s')" "v = ucast w"
    by (auto simp: CBS_get_u32_def split: prod.splits option.splits)
  then have b: "unat w = be_val (take 4 s)" "s' = drop 4 s" "4 \<le> length s" "unat w < 256 ^ 4"
    using cbs_get_u_value [OF w(1)] cbs_get_u_bound [OF w(1)] by simp_all
  then have "unat v = be_val (take 4 s)" using w(2) by (simp add: unsigned_ucast_eq take_bit_eq_mod)
  then have "be_bytes 4 (unat v) = take 4 s" using be_bytes_be_val [of "take 4 s"] b(3) by simp
  then show "s = be_bytes 4 (unat v) @ s'" using b(2) by simp
next
  assume s: "s = be_bytes 4 (unat v) @ s'"
  have v: "unat v < 256 ^ 4" using unat_less_pow [of v] by simp
  have "unat (be_accum 0 (be_bytes 4 (unat v))) = unat v"
    using v by (subst unat_be_accum_0) (simp_all add: be_val_be_bytes del: be_bytes.simps)
  then have "ucast (be_accum 0 (be_bytes 4 (unat v))) = v"
    using v by (simp add: word_unat_eq_iff unsigned_ucast_eq take_bit_eq_mod)
  then show "CBS_get_u32 s = (Some v, s')"
    unfolding CBS_get_u32_def s by (subst cbs_get_u_append) simp_all
qed

lemma be_bytes_neq_Nil: "0 < n \<Longrightarrow> be_bytes n v \<noteq> []"
  by (metis length_be_bytes list.size(3) less_irrefl)

interpretation ucs2: char_codec cbs_get_ucs2_be cbb_add_ucs2_be
  "\<lambda>v. if unat v < 0x10000 \<and> is_valid_code_point v then Some (be_bytes 2 (unat v)) else None"
proof (rule char_codec.intro)
  show "cbs_get_ucs2_be s = (Some v, s') \<longleftrightarrow>
     (\<exists>e. (if unat v < 0x10000 \<and> is_valid_code_point v then Some (be_bytes 2 (unat v)) else None) = Some e \<and> s = e @ s')"
    for s v s'
  proof -
    have "cbs_get_ucs2_be s = (Some v, s') \<longleftrightarrow>
        (\<exists>c. CBS_get_u16 s = (Some c, s') \<and> ucast c = v \<and> is_valid_code_point v)"
      by (auto simp: cbs_get_ucs2_be_def split: prod.splits option.splits)
    also have "\<dots> \<longleftrightarrow> unat v < 0x10000 \<and> is_valid_code_point v \<and> s = be_bytes 2 (unat v) @ s'"
    proof
      assume "\<exists>c. CBS_get_u16 s = (Some c, s') \<and> ucast c = v \<and> is_valid_code_point v"
      then obtain c where c: "CBS_get_u16 s = (Some c, s')" "ucast c = v" "is_valid_code_point v" by blast
      then have "unat v = unat c" by auto
      with c unat_less_pow [of c] show "unat v < 0x10000 \<and> is_valid_code_point v \<and> s = be_bytes 2 (unat v) @ s'"
        by (simp add: get_u16_iff del: be_bytes.simps)
    next
      assume a: "unat v < 0x10000 \<and> is_valid_code_point v \<and> s = be_bytes 2 (unat v) @ s'"
      then have "unat (of_nat (unat v) :: u16) = unat v" by (intro unat_of_nat_less) simp
      then have "CBS_get_u16 s = (Some (of_nat (unat v)), s')" "ucast (of_nat (unat v) :: u16) = v"
        using a by (simp_all add: get_u16_iff word_unat_eq_iff del: be_bytes.simps of_nat_unat)
      with a show "\<exists>c. CBS_get_u16 s = (Some c, s') \<and> ucast c = v \<and> is_valid_code_point v" by blast
    qed
    finally show ?thesis by auto
  qed
  show "cbb_operation (cbb_add_ucs2_be d v) (spec_append d e)"
    if "(if unat v < 0x10000 \<and> is_valid_code_point v then Some (be_bytes 2 (unat v)) else None) = Some e" for v e d
  proof -
    from that have v: "unat v < 0x10000" "is_valid_code_point v" "e = be_bytes 2 (unat v)"
      by (auto split: if_splits)
    then have "unat (ucast v :: u16) = unat v" by (simp add: unsigned_ucast_eq take_bit_eq_mod)
    with v add_u16.cbb_operation_axioms [of d "ucast v"] show ?thesis
      by (simp add: cbb_add_ucs2_be_def word_le_nat_alt del: be_bytes.simps)
  qed
  show "cbb_add_ucs2_be d v st = (False, st)"
    if "(if unat v < 0x10000 \<and> is_valid_code_point v then Some (be_bytes 2 (unat v)) else None) = None" for v d st
    using that by (auto simp: cbb_add_ucs2_be_def word_le_nat_alt split: if_splits)
qed (auto simp: be_bytes_neq_Nil simp del: be_bytes.simps split: if_splits)

interpretation utf32: char_codec cbs_get_utf32_be cbb_add_utf32_be
  "\<lambda>v. if is_valid_code_point v then Some (be_bytes 4 (unat v)) else None"
proof (rule char_codec.intro)
  show "cbs_get_utf32_be s = (Some v, s') \<longleftrightarrow>
     (\<exists>e. (if is_valid_code_point v then Some (be_bytes 4 (unat v)) else None) = Some e \<and> s = e @ s')" for s v s'
  proof -
    have "cbs_get_utf32_be s = (Some v, s') \<longleftrightarrow> CBS_get_u32 s = (Some v, s') \<and> is_valid_code_point v"
      by (auto simp: cbs_get_utf32_be_def split: prod.splits option.splits)
    then show ?thesis by (auto simp: get_u32_iff simp del: be_bytes.simps)
  qed
  show "cbb_operation (cbb_add_utf32_be d v) (spec_append d e)"
    if "(if is_valid_code_point v then Some (be_bytes 4 (unat v)) else None) = Some e" for v e d
    using that add_u32.cbb_operation_axioms [of d v]
    by (auto simp: cbb_add_utf32_be_def simp del: be_bytes.simps split: if_splits)
  show "cbb_add_utf32_be d v st = (False, st)"
    if "(if is_valid_code_point v then Some (be_bytes 4 (unat v)) else None) = None" for v d st
    using that by (auto simp: cbb_add_utf32_be_def split: if_splits)
qed (auto simp: be_bytes_neq_Nil simp del: be_bytes.simps split: if_splits)

section \<open>Properties\<close>

text \<open>The code points that Unicode lets text be made of: no surrogate and no noncharacter.\<close>

definition unicode_char :: "nat \<Rightarrow> bool" where
  "unicode_char n \<longleftrightarrow> n \<le> 0x10ffff \<and> n mod 0x10000 < 0xfffe \<and> \<not> (0xfdd0 \<le> n \<and> n \<le> 0xfdef) \<and> \<not> (0xd800 \<le> n \<and> n \<le> 0xdfff)"

lemma last_two: "v AND 0xfffe = 0xfffe \<longleftrightarrow> 0xfffe \<le> unat v mod 0x10000" for v :: u32
proof -
  have m: "(0xfffe :: u32) = push_bit 1 (mask 15)" by (simp add: mask_eq_exp_minus_1)
  have "v AND push_bit 1 (mask 15) = push_bit 1 (take_bit 15 (drop_bit 1 v))"
    by (rule bit_word_eqI) (auto simp: bit_simps simp del: push_bit_Suc push_bit_of_1 push_bit_numeral One_nat_def)
  then have "v AND 0xfffe = 0xfffe \<longleftrightarrow> push_bit 1 (take_bit 15 (drop_bit 1 v)) = push_bit 1 (mask 15 :: u32)"
    by (simp only: m)
  also have "\<dots> \<longleftrightarrow> unat (take_bit 15 (drop_bit 1 v)) * 2 = 0xfffe"
  proof -
    have "unat (push_bit 1 x) = unat x * 2" if "unat x < 2 ^ 15" for x :: u32
      using unat_push_or [of 0 1 x] that by (simp del: push_bit_Suc)
    moreover have "unat (take_bit 15 (drop_bit 1 v)) < 2 ^ 15"
      using take_bit_nat_less_exp [of 15 "unat (drop_bit 1 v)"] by (simp add: unsigned_take_bit_eq)
    moreover have "unat (mask 15 :: u32) = 32767" by (simp add: mask_eq_exp_minus_1)
    ultimately show ?thesis by (simp only: word_unat_eq_iff) simp
  qed
  also have "unat (take_bit 15 (drop_bit 1 v)) = unat v div 2 mod 2 ^ 15"
    by (simp only: unsigned_take_bit_eq unat_drop_bit_eq) (simp add: take_bit_eq_mod drop_bit_eq_div)
  also have "(n div 2 mod 2 ^ 15 * 2 = 0xfffe) = (0xfffe \<le> n mod 0x10000)" for n :: nat
  proof -
    have "n mod 0x10000 = 2 * (n div 2 mod 2 ^ 15) + n mod 2" using mod_mult2_eq [of n 2 "2 ^ 15"] by simp
    moreover have "n div 2 mod 2 ^ 15 < 2 ^ 15" "n mod 2 < 2" by simp_all
    ultimately show ?thesis by simp linarith
  qed
  finally show ?thesis .
qed

lemma is_valid_code_point_iff: "is_valid_code_point v \<longleftrightarrow> unicode_char (unat v)"
  by (auto simp: is_valid_code_point_def unicode_char_def last_two word_less_nat_alt word_le_nat_alt not_le not_less)

text \<open>C8. \<open>cbs_get_utf8\<close> returns the character \<open>v\<close> if and only if \<open>v\<close> is a Unicode character
  (in range, no surrogate, no noncharacter) and the input starts with its shortest UTF-8 encoding.\<close>

theorem get_utf8_accepts_exactly_utf8:
  "cbs_get_utf8 s = (Some v, s') \<longleftrightarrow> unicode_char (unat v) \<and> s = utf8_encode (unat v) @ s'"
  by (simp only: cbs_get_utf8_iff is_valid_code_point_iff)

text \<open>C9. A character written by one of the four encoders is read back by the matching decoder,
  in front of any further bytes.\<close>

theorem characters_roundtrip:
  assumes "CBB_init m f n = (True, st)" and "n < size_limit"
    and "(add, get) \<in> {(cbb_add_utf8, cbs_get_utf8), (cbb_add_latin1, cbs_get_latin1),
           (cbb_add_ucs2_be, cbs_get_ucs2_be), (cbb_add_utf32_be, cbs_get_utf32_be)}"
    and "add 0 v st = (True, st1)" and "CBB_finish 0 True st1 = (Some x, st2)"
  shows "get (x @ s) = (Some v, s)"
  using assms(3) utf8.add_get_roundtrip [OF assms(1) _ assms(5,2)] latin1.add_get_roundtrip [OF assms(1) _ assms(5,2)]
    ucs2.add_get_roundtrip [OF assms(1) _ assms(5,2)] utf32.add_get_roundtrip [OF assms(1) _ assms(5,2)] assms(4)
  by auto

text \<open>The euro sign, in UTF-8.\<close>

theorem characters_roundtrip_witness:
  "\<exists>st st1 st2 x. CBB_init (\<lambda>_. True) (\<lambda>_. 0) 0 = (True, st) \<and> cbb_add_utf8 0 0x20ac st = (True, st1)
    \<and> CBB_finish 0 True st1 = (Some x, st2) \<and> cbs_get_utf8 (x @ [7]) = (Some 0x20ac, [7])"
proof -
  have "is_valid_code_point 0x20ac" by (rule small_valid) simp
  from run_and_finish_exists [OF add_utf8_operation [OF this], of "\<lambda>_. True" 0 "\<lambda>_. 0"]
  obtain st st1 st2 where r: "CBB_init (\<lambda>_. True) (\<lambda>_. 0) 0 = (True, st)" "cbb_add_utf8 0 0x20ac st = (True, st1)"
    "CBB_finish 0 True st1 = (Some (utf8_encode (unat (0x20ac :: u32))), st2)"
    by (auto simp: utf8_encode_def cont_bytes_eqs)
  have "cbs_get_utf8 (utf8_encode (unat (0x20ac :: u32)) @ [7]) = (Some 0x20ac, [7])"
    by (rule characters_roundtrip [where add = cbb_add_utf8, OF r(1) _ _ r(2,3)]) simp_all
  with r show ?thesis by blast
qed

end
