(* ===== verification/ConstTime.thy ===== *)
theory ConstTime
  imports Prelude
begin

text \<open>
  The constant-time helpers of \<open>crypto/internal.h\<close>: masks of all ones or all zeros computed
  without branches. A mask is characterised by the condition it stands for, so that the
  clients (base64, the TLS CBC padding check) reason with \<open>if\<close> only. \<open>crypto_word_t\<close> has 64
  bits on the targets; \<open>value_barrier_w\<close> is the identity.
\<close>

unbundle bit_operations_syntax

type_synonym crypto_word_t = u64

section \<open>Definitions\<close>

definition CONSTTIME_TRUE_W :: crypto_word_t where
  "CONSTTIME_TRUE_W = NOT 0"

definition CONSTTIME_FALSE_W :: crypto_word_t where
  "CONSTTIME_FALSE_W = 0"

definition CONSTTIME_TRUE_8 :: u8 where
  "CONSTTIME_TRUE_8 = 0xff"

definition CONSTTIME_FALSE_8 :: u8 where
  "CONSTTIME_FALSE_8 = 0"

definition value_barrier_w :: "crypto_word_t \<Rightarrow> crypto_word_t" where
  "value_barrier_w a = a"

definition constant_time_msb_w :: "crypto_word_t \<Rightarrow> crypto_word_t" where
  "constant_time_msb_w a = 0 - drop_bit 63 a"

definition constant_time_lt_w :: "crypto_word_t \<Rightarrow> crypto_word_t \<Rightarrow> crypto_word_t" where
  "constant_time_lt_w a b = constant_time_msb_w (a XOR ((a XOR b) OR ((a - b) XOR a)))"

definition constant_time_lt_8 :: "crypto_word_t \<Rightarrow> crypto_word_t \<Rightarrow> u8" where
  "constant_time_lt_8 a b = ucast (constant_time_lt_w a b)"

definition constant_time_ge_w :: "crypto_word_t \<Rightarrow> crypto_word_t \<Rightarrow> crypto_word_t" where
  "constant_time_ge_w a b = NOT (constant_time_lt_w a b)"

definition constant_time_ge_8 :: "crypto_word_t \<Rightarrow> crypto_word_t \<Rightarrow> u8" where
  "constant_time_ge_8 a b = ucast (constant_time_ge_w a b)"

definition constant_time_is_zero_w :: "crypto_word_t \<Rightarrow> crypto_word_t" where
  "constant_time_is_zero_w a = constant_time_msb_w (NOT a AND (a - 1))"

definition constant_time_is_zero_8 :: "crypto_word_t \<Rightarrow> u8" where
  "constant_time_is_zero_8 a = ucast (constant_time_is_zero_w a)"

definition constant_time_eq_w :: "crypto_word_t \<Rightarrow> crypto_word_t \<Rightarrow> crypto_word_t" where
  "constant_time_eq_w a b = constant_time_is_zero_w (a XOR b)"

definition constant_time_eq_8 :: "crypto_word_t \<Rightarrow> crypto_word_t \<Rightarrow> u8" where
  "constant_time_eq_8 a b = ucast (constant_time_eq_w a b)"

text \<open>A C \<open>int\<close> is converted to the unsigned word by sign extension.\<close>

definition constant_time_eq_int :: "32 word \<Rightarrow> 32 word \<Rightarrow> crypto_word_t" where
  "constant_time_eq_int a b = constant_time_eq_w (scast a) (scast b)"

definition constant_time_eq_int_8 :: "32 word \<Rightarrow> 32 word \<Rightarrow> u8" where
  "constant_time_eq_int_8 a b = constant_time_eq_8 (scast a) (scast b)"

definition constant_time_select_w :: "crypto_word_t \<Rightarrow> crypto_word_t \<Rightarrow> crypto_word_t \<Rightarrow> crypto_word_t" where
  "constant_time_select_w m a b = (value_barrier_w m AND a) OR (value_barrier_w (NOT m) AND b)"

definition constant_time_select_8 :: "u8 \<Rightarrow> u8 \<Rightarrow> u8 \<Rightarrow> u8" where
  "constant_time_select_8 m a b = ucast (constant_time_select_w (ucast m) (ucast a) (ucast b))"

definition constant_time_select_int :: "crypto_word_t \<Rightarrow> 32 word \<Rightarrow> 32 word \<Rightarrow> 32 word" where
  "constant_time_select_int m a b = ucast (constant_time_select_w m (scast a) (scast b))"

section \<open>Masks and conditions\<close>

abbreviation mask_w :: "bool \<Rightarrow> crypto_word_t" where
  "mask_w c \<equiv> (if c then CONSTTIME_TRUE_W else CONSTTIME_FALSE_W)"

abbreviation mask_8 :: "bool \<Rightarrow> u8" where
  "mask_8 c \<equiv> (if c then CONSTTIME_TRUE_8 else CONSTTIME_FALSE_8)"

lemmas consttime_masks = CONSTTIME_TRUE_W_def CONSTTIME_FALSE_W_def
  CONSTTIME_TRUE_8_def CONSTTIME_FALSE_8_def

named_theorems consttime

lemma drop_63: "drop_bit 63 (a :: u64) = of_bool (bit a 63)"
proof (rule bit_eqI)
  fix n
  show "bit (drop_bit 63 a) n \<longleftrightarrow> bit (of_bool (bit a 63) :: u64) n"
    using bit_imp_le_length [of a "63 + n"] by (cases "n = 0") (auto simp: bit_simps)
qed

lemma msb_w [consttime]: "constant_time_msb_w a = mask_w (bit a 63)"
  unfolding constant_time_msb_w_def drop_63 consttime_masks by simp

lemma bit_63: "bit (a :: u64) 63 \<longleftrightarrow> 2 ^ 63 \<le> unat a"
proof -
  have "bit a 63 \<longleftrightarrow> drop_bit 63 a \<noteq> 0" by (simp add: drop_63)
  then show ?thesis unfolding drop_bit_eq_0_iff by linarith
qed

lemma unat_minus: "unat (a - b :: u64) = (if b \<le> a then unat a - unat b else unat a + 2 ^ 64 - unat b)"
  by (simp add: unat_sub_if_size word_size word_le_nat_alt)

lemma lt_w [consttime]: "constant_time_lt_w a b = mask_w (a < b)"
proof -
  have "bit (a XOR ((a XOR b) OR ((a - b) XOR a))) 63 \<longleftrightarrow>
      (if bit a 63 = bit b 63 then bit (a - b) 63 else bit b 63)"
    by (auto simp: bit_simps)
  also have "\<dots> \<longleftrightarrow> a < b"
    using unat_less_pow [of a] unat_less_pow [of b]
    unfolding bit_63 unat_minus word_less_nat_alt word_le_nat_alt by auto
  finally show ?thesis unfolding constant_time_lt_w_def msb_w by simp
qed

lemma ge_w [consttime]: "constant_time_ge_w a b = mask_w (b \<le> a)"
  unfolding constant_time_ge_w_def lt_w consttime_masks by (auto simp: not_less)

lemma is_zero_w [consttime]: "constant_time_is_zero_w a = mask_w (a = 0)"
proof -
  have "bit a 63 \<or> \<not> bit (a - 1) 63" if "a \<noteq> 0"
  proof -
    have "unat (a - 1) = unat a - 1"
      using that unat_minus [of a 1] by (simp add: word_le_nat_alt Suc_le_eq unat_gt_0)
    then have "\<not> 2 ^ 63 \<le> unat (a - 1)" if "\<not> 2 ^ 63 \<le> unat a"
      using that by linarith
    then show ?thesis by (auto simp only: bit_63)
  qed
  then have "bit (NOT a AND (a - 1)) 63 \<longleftrightarrow> a = 0"
    by (cases "a = 0") (auto simp: bit_simps)
  then show ?thesis unfolding constant_time_is_zero_w_def msb_w by simp
qed

lemma xor_0_iff: "(a :: 'a :: len word) XOR b = 0 \<longleftrightarrow> a = b"
  by (auto simp: bit_eq_iff bit_simps)

lemma eq_w [consttime]: "constant_time_eq_w a b = mask_w (a = b)"
  unfolding constant_time_eq_w_def is_zero_w by (simp add: xor_0_iff)

lemma ucast_mask [consttime]: "ucast (mask_w c) = mask_8 c"
  unfolding consttime_masks
  by (simp add: word_unat_eq_iff unsigned_ucast_eq unsigned_minus_1_eq_mask mask_eq_exp_minus_1)

lemma masks_8 [consttime]:
  "constant_time_lt_8 a b = mask_8 (a < b)"
  "constant_time_ge_8 a b = mask_8 (b \<le> a)"
  "constant_time_is_zero_8 a = mask_8 (a = 0)"
  "constant_time_eq_8 a b = mask_8 (a = b)"
  unfolding constant_time_lt_8_def constant_time_ge_8_def constant_time_is_zero_8_def
    constant_time_eq_8_def lt_w ge_w is_zero_w eq_w ucast_mask by (rule refl)+

lemma select_w [consttime]: "constant_time_select_w (mask_w c) a b = (if c then a else b)"
  by (simp add: constant_time_select_w_def value_barrier_w_def consttime_masks)

lemma select_8 [consttime]: "constant_time_select_8 (mask_8 c) a b = (if c then a else b)"
proof (cases c)
  case True
  have "bit (0xff :: u8) n" if "n < 8" for n
    using that by (rule nat_below_by_eval [rotated, where P = "bit (0xff :: u8)"]) code_simp
  with True show ?thesis
    unfolding constant_time_select_8_def constant_time_select_w_def value_barrier_w_def
      consttime_masks by (auto simp: bit_simps simp del: unsigned_numeral intro!: bit_eqI)
next
  case False
  then show ?thesis
    unfolding constant_time_select_8_def constant_time_select_w_def value_barrier_w_def
      consttime_masks by (auto simp: bit_simps intro!: bit_eqI)
qed

lemma ucast_scast_int: "ucast (scast (a :: 32 word) :: u64) = a"
  by (rule bit_eqI) (auto simp: bit_simps)

lemma select_int [consttime]: "constant_time_select_int (mask_w c) a b = (if c then a else b)"
  unfolding constant_time_select_int_def select_w by (simp add: ucast_scast_int)

lemma scast_int_eq: "(scast (a :: 32 word) :: u64) = scast b \<longleftrightarrow> a = b"
  by (metis ucast_scast_int)

lemma eq_int [consttime]:
  "constant_time_eq_int a b = mask_w (a = b)"
  "constant_time_eq_int_8 a b = mask_8 (a = b)"
  unfolding constant_time_eq_int_def constant_time_eq_int_8_def eq_w masks_8 scast_int_eq
  by (rule refl)+

text \<open>
  Each comparison helper returns the all-ones mask exactly when the comparison holds
  and the all-zeros mask otherwise, for all 64-bit words, and selecting with a mask takes
  the first value exactly when the mask's condition holds.
\<close>

theorem masks_are_conditions:
  "constant_time_lt_w a b = (if a < b then CONSTTIME_TRUE_W else CONSTTIME_FALSE_W) \<and>
   constant_time_ge_w a b = (if b \<le> a then CONSTTIME_TRUE_W else CONSTTIME_FALSE_W) \<and>
   constant_time_eq_w a b = (if a = b then CONSTTIME_TRUE_W else CONSTTIME_FALSE_W) \<and>
   constant_time_is_zero_w a = (if a = 0 then CONSTTIME_TRUE_W else CONSTTIME_FALSE_W) \<and>
   constant_time_select_w (constant_time_lt_w a b) x y = (if a < b then x else y) \<and>
   constant_time_select_8 (constant_time_eq_8 a b) c d = (if a = b then c else d) \<and>
   constant_time_select_int (constant_time_eq_int i j) k l = (if i = j then k else l)"
  unfolding lt_w ge_w eq_w is_zero_w masks_8 eq_int select_w select_8 select_int by simp

end
