(* ===== verification/Base64.thy ===== *)
theory Base64
  imports ConstTime
begin

text \<open>
  \<open>crypto/base64/base64.c\<close>: the constant-time alphabet conversions, the block encoder and
  decoder, and the streaming encoder and decoder over \<open>EVP_ENCODE_CTX\<close>. Output written
  through a pointer is the list of the bytes written; the NUL the encoders store at the
  final position of the pointer is part of it.
\<close>

unbundle bit_operations_syntax

section \<open>The alphabet\<close>

definition constant_time_lt_args_8 :: "u8 \<Rightarrow> u8 \<Rightarrow> u8" where
  "constant_time_lt_args_8 a b = ucast (constant_time_msb_w (ucast a - ucast b))"

definition constant_time_in_range_8 :: "u8 \<Rightarrow> u8 \<Rightarrow> u8 \<Rightarrow> u8" where
  "constant_time_in_range_8 a mn mx =
     (let a = a - mn in constant_time_lt_args_8 a (mx - mn + 1))"

text \<open>The characters are \<open>'+'\<close> 0x2b, \<open>'/'\<close> 0x2f, \<open>'0'\<close> 0x30, \<open>'='\<close> 0x3d, \<open>'A'\<close> 0x41, \<open>'a'\<close> 0x61.\<close>

definition conv_bin2ascii :: "u8 \<Rightarrow> u8" where
  "conv_bin2ascii a =
     (let a = a AND 0x3f;
          ret = constant_time_select_8 (constant_time_eq_8 (ucast a) 62) 0x2b 0x2f;
          ret = constant_time_select_8 (constant_time_lt_args_8 a 62) (a - 52 + 0x30) ret;
          ret = constant_time_select_8 (constant_time_lt_args_8 a 52) (a - 26 + 0x61) ret;
          ret = constant_time_select_8 (constant_time_lt_args_8 a 26) (a + 0x41) ret
      in ret)"

definition base64_ascii_to_bin :: "u8 \<Rightarrow> u8" where
  "base64_ascii_to_bin a =
     (let is_upper = constant_time_in_range_8 a 0x41 0x5a;
          is_lower = constant_time_in_range_8 a 0x61 0x7a;
          is_digit = constant_time_in_range_8 a 0x30 0x39;
          is_plus = constant_time_eq_8 (ucast a) 0x2b;
          is_slash = constant_time_eq_8 (ucast a) 0x2f;
          is_equals = constant_time_eq_8 (ucast a) 0x3d;
          ret = 0xff;
          ret = constant_time_select_8 is_upper (a - 0x41) ret;
          ret = constant_time_select_8 is_lower (a - 0x61 + 26) ret;
          ret = constant_time_select_8 is_digit (a - 0x30 + 52) ret;
          ret = constant_time_select_8 is_plus 62 ret;
          ret = constant_time_select_8 is_slash 63 ret;
          ret = constant_time_select_8 is_equals 0 ret
      in ret)"

section \<open>Lengths\<close>

definition INT_MAX :: nat where
  "INT_MAX = 2 ^ 31 - 1"

definition EVP_EncodedLength :: "nat \<Rightarrow> nat option" where
  "EVP_EncodedLength len =
     (if size_add len 2 < len then None
      else let len = size_add len 2 div 3
           in if size_mul len 4 div 4 \<noteq> len then None
              else let len = size_mul len 4
                   in if size_add len 1 < len then None else Some (size_add len 1))"

definition EVP_DecodedLength :: "nat \<Rightarrow> nat option" where
  "EVP_DecodedLength len = (if len mod 4 \<noteq> 0 then None else Some (len div 4 * 3))"

section \<open>Encoding a block\<close>

definition quad3 :: "u8 \<Rightarrow> u8 \<Rightarrow> u8 \<Rightarrow> bytes" where
  "quad3 a b c =
     (let l = push_bit 16 (ucast a) OR push_bit 8 (ucast b) OR ucast c :: u32
      in [conv_bin2ascii (ucast (drop_bit 18 l)), conv_bin2ascii (ucast (drop_bit 12 l)),
          conv_bin2ascii (ucast (drop_bit 6 l)), conv_bin2ascii (ucast l)])"

definition quad2 :: "u8 \<Rightarrow> u8 \<Rightarrow> bytes" where
  "quad2 a b =
     (let l = push_bit 16 (ucast a) OR push_bit 8 (ucast b) :: u32
      in [conv_bin2ascii (ucast (drop_bit 18 l)), conv_bin2ascii (ucast (drop_bit 12 l)),
          conv_bin2ascii (ucast (drop_bit 6 l)), 0x3d])"

definition quad1 :: "u8 \<Rightarrow> bytes" where
  "quad1 a =
     (let l = push_bit 16 (ucast a) :: u32
      in [conv_bin2ascii (ucast (drop_bit 18 l)), conv_bin2ascii (ucast (drop_bit 12 l)),
          0x3d, 0x3d])"

text \<open>The loop: \<open>src\<close> holds the remaining bytes, \<open>dst\<close> what has been written, \<open>ret\<close> the count.\<close>

fun encode_block_loop :: "bytes \<Rightarrow> bytes \<Rightarrow> nat \<Rightarrow> bytes \<times> nat" where
  "encode_block_loop (a # b # c # src) dst ret =
     encode_block_loop src (dst @ quad3 a b c) (size_add ret 4)"
| "encode_block_loop [a, b] dst ret = (dst @ quad2 a b, size_add ret 4)"
| "encode_block_loop [a] dst ret = (dst @ quad1 a, size_add ret 4)"
| "encode_block_loop [] dst ret = (dst, ret)"

definition EVP_EncodeBlock :: "bytes \<Rightarrow> bytes \<times> nat" where
  "EVP_EncodeBlock src =
     (case encode_block_loop src [] 0 of (dst, ret) \<Rightarrow> (dst @ [0], ret))"

section \<open>Decoding a block\<close>

text \<open>The number of bytes is the length of the result. \<open>None\<close> is failure.\<close>

definition base64_decode_quad :: "u8 \<Rightarrow> u8 \<Rightarrow> u8 \<Rightarrow> u8 \<Rightarrow> bytes option" where
  "base64_decode_quad in0 in1 in2 in3 =
     (let a = base64_ascii_to_bin in0; b = base64_ascii_to_bin in1;
          c = base64_ascii_to_bin in2; d = base64_ascii_to_bin in3
      in if a = 0xff \<or> b = 0xff \<or> c = 0xff \<or> d = 0xff then None
         else let v = push_bit 18 (ucast a) OR push_bit 12 (ucast b) OR push_bit 6 (ucast c)
                        OR ucast d :: u32;
                  padding_pattern = push_bit 3 (of_bool (in0 = 0x3d))
                    OR push_bit 2 (of_bool (in1 = 0x3d)) OR push_bit 1 (of_bool (in2 = 0x3d))
                    OR of_bool (in3 = 0x3d) :: u32
              in if padding_pattern = 0
                 then Some [ucast (drop_bit 16 v), ucast (drop_bit 8 v), ucast v]
                 else if padding_pattern = 1
                 then Some [ucast (drop_bit 16 v), ucast (drop_bit 8 v)]
                 else if padding_pattern = 3
                 then Some [ucast (drop_bit 16 v)]
                 else None)"

text \<open>The loop of \<open>EVP_DecodeBase64\<close>: a short quad must be the last one.\<close>

fun decode_base64_loop :: "bytes \<Rightarrow> bytes \<Rightarrow> bytes option" where
  "decode_base64_loop (a # b # c # d # inp) out =
     (case base64_decode_quad a b c d of
        None \<Rightarrow> None
      | Some bs \<Rightarrow> if length bs \<noteq> 3 \<and> inp \<noteq> [] then None
                   else decode_base64_loop inp (out @ bs))"
| "decode_base64_loop inp out = Some out"

definition EVP_DecodeBase64 :: "nat \<Rightarrow> bytes \<Rightarrow> bytes option" where
  "EVP_DecodeBase64 max_out inp =
     (if length inp mod 4 \<noteq> 0 then None
      else case EVP_DecodedLength (length inp) of
             None \<Rightarrow> None
           | Some max_len \<Rightarrow> if max_out < max_len then None else decode_base64_loop inp [])"

fun trim_front :: "bytes \<Rightarrow> bytes" where
  "trim_front [] = []"
| "trim_front (c # s) = (if c \<noteq> 0x20 \<and> c \<noteq> 0x09 then c # s else trim_front s)"

definition base64_space :: "u8 \<Rightarrow> bool" where
  "base64_space c = (c = 0x20 \<or> c = 0x09 \<or> c = 0x0d \<or> c = 0x0a)"

function trim_back :: "bytes \<Rightarrow> bytes" where
  "trim_back src =
     (if src = [] then []
      else if base64_space (List.last src) then trim_back (butlast src) else src)"
  by pat_completeness auto
termination by (relation "measure length") auto

declare trim_back.simps [simp del]

lemma pad_nul_variant:
  assumes "0 < l mod (3 :: nat)"
  shows "(3 - Suc l mod 3) mod 3 < 3 - l mod 3"
proof -
  have "l mod 3 = 1 \<or> l mod 3 = 2" using assms mod_less_divisor [of 3 l] by linarith
  then show ?thesis by (auto simp: mod_Suc)
qed

function pad_nul :: "bytes \<Rightarrow> bytes" where
  "pad_nul dst = (if length dst mod 3 \<noteq> 0 then pad_nul (dst @ [0]) else dst)"
  by pat_completeness auto
termination
  by (relation "measure (\<lambda>dst. (3 - length dst mod 3) mod 3)") (simp_all add: pad_nul_variant)

declare pad_nul.simps [simp del]

text \<open>\<open>None\<close> is the return value -1; otherwise the return value is the length of the output.\<close>

definition EVP_DecodeBlock :: "bytes \<Rightarrow> bytes option" where
  "EVP_DecodeBlock src =
     (let src = trim_back (trim_front src)
      in case EVP_DecodedLength (length src) of
           None \<Rightarrow> None
         | Some dst_len \<Rightarrow>
             if dst_len > INT_MAX then None
             else case EVP_DecodeBase64 dst_len src of
                    None \<Rightarrow> None
                  | Some dst \<Rightarrow> Some (pad_nul dst))"

section \<open>The streaming context\<close>

record evp_encode_ctx_st =
  data_used :: nat
  data :: bytes
  eof_seen :: bool
  error_encountered :: bool

definition sizeof_data :: nat where
  "sizeof_data = 48"

text \<open>\<open>memcpy(&buf[off], bs, |bs|)\<close>.\<close>

definition put_bytes :: "bytes \<Rightarrow> nat \<Rightarrow> bytes \<Rightarrow> bytes" where
  "put_bytes buf off bs = take off buf @ bs @ drop (off + length bs) buf"

definition EVP_EncodeInit :: evp_encode_ctx_st where
  "EVP_EncodeInit = \<lparr>data_used = 0, data = replicate sizeof_data 0, eof_seen = False,
     error_encountered = False\<rparr>"

definition EVP_DecodeInit :: evp_encode_ctx_st where
  "EVP_DecodeInit = \<lparr>data_used = 0, data = replicate sizeof_data 0, eof_seen = False,
     error_encountered = False\<rparr>"

text \<open>
  One encoded line: \<open>EVP_EncodeBlock\<close> at the output pointer, then a newline over the NUL it
  wrote and a NUL after it. \<open>out\<close> is what lies before the pointer; the NUL at the pointer is
  added when the function returns.
\<close>

definition put_line :: "bytes \<Rightarrow> bytes \<Rightarrow> bytes \<times> nat" where
  "put_line out block =
     (case EVP_EncodeBlock block of (dst, encoded) \<Rightarrow> (out @ take encoded dst @ [0x0a], encoded))"

text \<open>The flag is false when the loop returned because the count wrapped around.\<close>

function encode_lines :: "bytes \<Rightarrow> bytes \<Rightarrow> nat \<Rightarrow> bool \<times> bytes \<times> bytes \<times> nat" where
  "encode_lines inp out tot =
     (if length inp < sizeof_data then (True, inp, out, tot)
      else case put_line out (take sizeof_data inp) of
             (out, encoded) \<Rightarrow>
               if size_add (size_add tot encoded) 1 < tot
               then (False, drop sizeof_data inp, out, tot)
               else encode_lines (drop sizeof_data inp) out (size_add (size_add tot encoded) 1))"
  by pat_completeness auto
termination by (relation "measure (\<lambda>(inp, _, _). length inp)") (auto simp: sizeof_data_def)

declare encode_lines.simps [simp del]

definition end_line :: "bytes \<Rightarrow> bytes" where
  "end_line out = (if out = [] then [] else out @ [0])"

text \<open>The result: the context, the bytes written to \<open>out\<close> and \<open>*out_len\<close>.\<close>

definition EVP_EncodeUpdate ::
  "evp_encode_ctx_st \<Rightarrow> bytes \<Rightarrow> evp_encode_ctx_st \<times> bytes \<times> nat" where
  "EVP_EncodeUpdate ctx inp =
     (if inp = [] then (ctx, [], 0)
      else if sizeof_data - data_used ctx > length inp
      then (ctx\<lparr>data := put_bytes (data ctx) (data_used ctx) inp,
                data_used := data_used ctx + length inp\<rparr>, [], 0)
      else
        let (ctx, inp, out, tot) =
              (if data_used ctx \<noteq> 0
               then let todo = sizeof_data - data_used ctx;
                        ctx = ctx\<lparr>data := put_bytes (data ctx) (data_used ctx) (take todo inp)\<rparr>
                    in case put_line [] (data ctx) of
                         (out, encoded) \<Rightarrow>
                           (ctx\<lparr>data_used := 0\<rparr>, drop todo inp, out, size_add encoded 1)
               else (ctx, inp, [], 0))
        in case encode_lines inp out tot of
             (ok, inp, out, tot) \<Rightarrow>
               if \<not> ok then (ctx, end_line out, 0)
               else (ctx\<lparr>data := (if inp \<noteq> [] then put_bytes (data ctx) 0 inp else data ctx),
                         data_used := length inp\<rparr>,
                     end_line out,
                     if tot > INT_MAX then 0 else tot))"

definition EVP_EncodeFinal :: "evp_encode_ctx_st \<Rightarrow> evp_encode_ctx_st \<times> bytes \<times> nat" where
  "EVP_EncodeFinal ctx =
     (if data_used ctx = 0 then (ctx, [], 0)
      else case EVP_EncodeBlock (take (data_used ctx) (data ctx)) of
             (dst, encoded) \<Rightarrow>
               (ctx\<lparr>data_used := 0\<rparr>, take encoded dst @ [0x0a, 0], encoded + 1))"

section \<open>The streaming decoder\<close>

text \<open>
  The loop over the input: the output so far and the context; the flag is false when the
  loop returned -1 (after setting \<open>error_encountered\<close>).
\<close>

fun decode_update_loop ::
  "evp_encode_ctx_st \<Rightarrow> bytes \<Rightarrow> bytes \<Rightarrow> bool \<times> evp_encode_ctx_st \<times> bytes" where
  "decode_update_loop ctx out [] = (True, ctx, out)"
| "decode_update_loop ctx out (c # inp) =
     (if base64_space c then decode_update_loop ctx out inp
      else if eof_seen ctx then (False, ctx\<lparr>error_encountered := True\<rparr>, out)
      else
        let ctx = ctx\<lparr>data := (data ctx)[data_used ctx := c], data_used := data_used ctx + 1\<rparr>
        in if data_used ctx = 4
           then case base64_decode_quad (data ctx ! 0) (data ctx ! 1) (data ctx ! 2) (data ctx ! 3) of
                  None \<Rightarrow> (False, ctx\<lparr>error_encountered := True\<rparr>, out)
                | Some bs \<Rightarrow>
                    decode_update_loop
                      (ctx\<lparr>data_used := 0,
                           eof_seen := (if length bs < 3 then True else eof_seen ctx)\<rparr>)
                      (out @ bs) inp
           else decode_update_loop ctx out inp)"

text \<open>The result: the return value, the context, the bytes written and \<open>*out_len\<close>.\<close>

definition EVP_DecodeUpdate ::
  "evp_encode_ctx_st \<Rightarrow> bytes \<Rightarrow> int \<times> evp_encode_ctx_st \<times> bytes \<times> nat" where
  "EVP_DecodeUpdate ctx inp =
     (if error_encountered ctx then (-1, ctx, [], 0)
      else case decode_update_loop ctx [] inp of
             (ok, ctx, out) \<Rightarrow>
               if \<not> ok then (-1, ctx, out, 0)
               else if length out > INT_MAX
               then (-1, ctx\<lparr>error_encountered := True\<rparr>, out, 0)
               else (if eof_seen ctx then 0 else 1, ctx, out, length out))"

definition EVP_DecodeFinal :: "evp_encode_ctx_st \<Rightarrow> int" where
  "EVP_DecodeFinal ctx = (if error_encountered ctx \<or> data_used ctx \<noteq> 0 then -1 else 1)"

end
