(* ===== verification/Base64_Laws.thy ===== *)
theory Base64_Laws
  imports Base64
begin

text \<open>
  The base64 component against RFC 4648: the alphabet and the encoding of a byte string as
  a reference definition, the block encoder's equality with it, the decoder's inverse law,
  and the length functions. The streaming interface is in \<open>Base64_Stream\<close>.
\<close>

unbundle bit_operations_syntax

section \<open>The encoding of RFC 4648\<close>

definition b64_alphabet :: string where
  "b64_alphabet = ''ABCDEFGHIJKLMNOPQRSTUVWXYZabcdefghijklmnopqrstuvwxyz0123456789+/''"

definition b64_digit :: "nat \<Rightarrow> u8" where
  "b64_digit n = of_char (b64_alphabet ! (n mod 64))"

definition b64_group :: "nat \<Rightarrow> bytes" where
  "b64_group v = [b64_digit (v div 262144), b64_digit (v div 4096), b64_digit (v div 64), b64_digit v]"

fun b64 :: "bytes \<Rightarrow> bytes" where
  "b64 (a # b # c # s) = b64_group (be_val [a, b, c]) @ b64 s"
| "b64 [a, b] = take 3 (b64_group (be_val [a, b, 0])) @ [0x3d]"
| "b64 [a] = take 2 (b64_group (be_val [a, 0, 0])) @ [0x3d, 0x3d]"
| "b64 [] = []"

lemma length_b64_group [simp]: "length (b64_group v) = 4"
  by (simp add: b64_group_def)

lemma length_b64: "length (b64 s) = 4 * ((length s + 2) div 3)"
proof (induction s rule: b64.induct)
  case (1 a b c s)
  have "(length s + 5) div 3 = (length s + 2) div 3 + 1" by (simp add: div_add_self2 flip: add.assoc)
  with 1 show ?case by (simp add: algebra_simps)
qed simp_all

lemma b64_append: "length xs mod 3 = 0 \<Longrightarrow> b64 (xs @ ys) = b64 xs @ b64 ys"
  by (induction xs rule: b64.induct) simp_all

section \<open>The alphabet conversions\<close>

lemma unat_u8_word: "unat (ucast (a :: u8) :: u64) = unat a"
  by simp

lemma lt_args_8 [consttime]: "constant_time_lt_args_8 a b = mask_8 (a < b)"
proof -
  have "bit (ucast a - ucast b :: u64) 63 \<longleftrightarrow> a < b"
    using unat_u8_less [of a] unat_u8_less [of b]
    unfolding bit_63 unat_minus word_less_nat_alt word_le_nat_alt
    by (cases "unat b \<le> unat a") (auto simp del: unat_u8_less unat_u8_le)
  then show ?thesis unfolding constant_time_lt_args_8_def msb_w ucast_mask by simp
qed

lemma in_range_8 [consttime]:
  "constant_time_in_range_8 a mn mx = mask_8 (a - mn < mx - mn + 1)"
  by (simp add: constant_time_in_range_8_def lt_args_8)

lemma ucast_u8_eq: "(ucast (a :: u8) :: u64) = ucast b \<longleftrightarrow> a = b"
  by (simp add: word_unat_eq_iff)

lemma eq_8_u8 [consttime]: "constant_time_eq_8 (ucast (a :: u8)) (ucast b) = mask_8 (a = b)"
  unfolding masks_8 ucast_u8_eq by (rule refl)

lemma conv_bin2ascii_if:
  "conv_bin2ascii a =
     (let a = a AND 0x3f
      in if a < 26 then a + 0x41 else if a < 52 then a - 26 + 0x61
         else if a < 62 then a - 52 + 0x30 else if a = 62 then 0x2b else 0x2f)"
proof -
  have e: "constant_time_eq_8 (ucast (a AND 0x3f)) 62 = mask_8 (a AND 0x3f = 62)"
    using eq_8_u8 [of "a AND 0x3f" 62] by simp
  show ?thesis unfolding conv_bin2ascii_def Let_def lt_args_8 e select_8 by simp
qed

lemma ascii_to_bin_if:
  "base64_ascii_to_bin a =
     (if a = 0x3d then 0 else if a = 0x2f then 63 else if a = 0x2b then 62
      else if a - 0x30 < 10 then a - 0x30 + 52 else if a - 0x61 < 26 then a - 0x61 + 26
      else if a - 0x41 < 26 then a - 0x41 else 0xff)"
proof -
  have e: "constant_time_eq_8 (ucast a) 0x2b = mask_8 (a = 0x2b)"
    "constant_time_eq_8 (ucast a) 0x2f = mask_8 (a = 0x2f)"
    "constant_time_eq_8 (ucast a) 0x3d = mask_8 (a = 0x3d)"
    using eq_8_u8 [of a "0x2b"] eq_8_u8 [of a "0x2f"] eq_8_u8 [of a "0x3d"] by simp_all
  show ?thesis unfolding base64_ascii_to_bin_def Let_def in_range_8 e select_8 by simp
qed

lemma conv_bin2ascii_digit: "conv_bin2ascii b = b64_digit (unat b)"
  unfolding conv_bin2ascii_if
  by (rule u8_by_eval [where b = b]) code_simp

lemma ascii_to_bin_digit: "base64_ascii_to_bin (b64_digit n) = of_nat (n mod 64)"
proof -
  have "base64_ascii_to_bin (b64_digit k) = of_nat k" if "k < 64" for k
    using that unfolding ascii_to_bin_if
    by (rule nat_below_by_eval [rotated]) code_simp
  from this [of "n mod 64"] show ?thesis by (simp add: b64_digit_def)
qed

lemma digit_not_special:
  "b64_digit n \<noteq> 0x3d" "b64_digit n \<noteq> 0" "\<not> base64_space (b64_digit n)"
proof -
  have "b64_digit k \<noteq> 0x3d \<and> b64_digit k \<noteq> 0 \<and> \<not> base64_space (b64_digit k)" if "k < 64" for k
    using that by (rule nat_below_by_eval [rotated]) code_simp
  from this [of "n mod 64"] show "b64_digit n \<noteq> 0x3d" "b64_digit n \<noteq> 0"
    "\<not> base64_space (b64_digit n)"
    by (simp_all add: b64_digit_def)
qed

section \<open>Groups\<close>

lemma unat_ucast_drop_u32:
  "unat (ucast (drop_bit k (l :: u32)) :: u8) = unat l div 2 ^ k mod 256"
  unfolding unsigned_ucast_eq unat_drop_bit_eq by (simp add: drop_bit_eq_div take_bit_eq_mod)

lemma digit_mod: "b64_digit (n mod 256) = b64_digit n"
  by (simp add: b64_digit_def mod_mod_cancel)

lemma conv_drop: "conv_bin2ascii (ucast (drop_bit k (l :: u32))) = b64_digit (unat l div 2 ^ k)"
  unfolding conv_bin2ascii_digit unat_ucast_drop_u32 digit_mod by (rule refl)

lemma conv_low: "conv_bin2ascii (ucast (l :: u32)) = b64_digit (unat l)"
  using conv_drop [of 0 l] by simp

lemma unat_l3:
  "unat (push_bit 16 (ucast (a :: u8)) OR push_bit 8 (ucast (b :: u8)) OR ucast (c :: u8) :: u32) =
     be_val [a, b, c]"
proof -
  have small: "unat b * 256 + unat c < 65536" "unat a * 65536 + (unat b * 256 + unat c) < 16777216"
    using be_val_less [of "[b, c]"] be_val_less [of "[a, b, c]"] by simp_all
  then have bc: "unat (push_bit 8 (ucast b) OR ucast c :: u32) = unat b * 256 + unat c"
    by (subst unat_push_or) simp_all
  show ?thesis
    using small unfolding or.assoc by (subst unat_push_or) (simp_all add: bc)
qed

lemma quad3_group: "quad3 a b c = b64_group (be_val [a, b, c])"
  unfolding quad3_def Let_def conv_drop
  unfolding conv_low unat_l3 b64_group_def by simp

lemma quad2_group: "quad2 a b = take 3 (b64_group (be_val [a, b, 0])) @ [0x3d]"
  using unat_l3 [of a b 0] unfolding quad2_def Let_def conv_drop b64_group_def by simp

lemma quad1_group: "quad1 a = take 2 (b64_group (be_val [a, 0, 0])) @ [0x3d, 0x3d]"
  using unat_l3 [of a 0 0] unfolding quad1_def Let_def conv_drop b64_group_def by simp

lemma encode_loop_b64:
  "encode_block_loop src dst ret = (dst @ b64 src, (ret + length (b64 src)) mod size_limit)"
  if "ret < size_limit"
  using that
proof (induction src dst ret rule: encode_block_loop.induct)
  case (1 a b c src dst ret)
  have "(size_add ret 4 + length (b64 src)) mod size_limit =
      (ret + length (b64 (a # b # c # src))) mod size_limit"
    unfolding size_add_def by (simp add: mod_add_left_eq add.assoc del: length_b64)
  moreover have "size_add ret 4 < size_limit" by (simp add: size_add_def)
  ultimately show ?case using 1 by (simp add: quad3_group)
qed (simp_all add: quad2_group quad1_group size_add_def)

lemma EVP_EncodeBlock_b64:
  "EVP_EncodeBlock src = (b64 src @ [0], length (b64 src) mod size_limit)"
  unfolding EVP_EncodeBlock_def by (simp add: encode_loop_b64)

section \<open>Decoding groups\<close>

lemma unat_v4:
  assumes "i < 64" "j < 64" "k < 64" "l < 64"
  shows "unat (push_bit 18 (ucast (of_nat i :: u8)) OR push_bit 12 (ucast (of_nat j :: u8)) OR
      push_bit 6 (ucast (of_nat k :: u8)) OR ucast (of_nat l :: u8) :: u32) =
     i * 262144 + j * 4096 + k * 64 + l"
proof -
  have small: "unat (of_nat n :: u8) = n" if "n < 64" for n
    using that by (simp add: unat_of_nat_u8)
  note u = small [OF assms(1)] small [OF assms(2)] small [OF assms(3)] small [OF assms(4)]
  have kl: "unat (push_bit 6 (ucast (of_nat k :: u8)) OR ucast (of_nat l :: u8) :: u32) = k * 64 + l"
    using assms by (subst unat_push_or) (simp_all add: u)
  have jkl: "unat (push_bit 12 (ucast (of_nat j :: u8)) OR
      (push_bit 6 (ucast (of_nat k :: u8)) OR ucast (of_nat l :: u8)) :: u32) = j * 4096 + k * 64 + l"
    using assms by (subst unat_push_or) (simp_all add: u kl)
  show ?thesis
    unfolding or.assoc using assms by (subst unat_push_or) (simp_all add: u jkl)
qed

lemma be_bytes_3: "be_bytes 3 v = [of_nat (v div 65536), of_nat (v div 256), of_nat v]"
  by (simp add: numeral_3_eq_3 div_mult2_eq [symmetric])

lemma ucast_drop_of_unat: "(ucast (drop_bit k (v :: u32)) :: u8) = of_nat (unat v div 2 ^ k)"
  unfolding word_unat_eq_iff unat_ucast_drop_u32 unat_of_nat_u8 by (rule refl)

lemma ucast_low_of_unat: "(ucast (v :: u32) :: u8) = of_nat (unat v)"
  using ucast_drop_of_unat [of 0 v] by simp

lemma of_nat_sextet: "k < 64 \<Longrightarrow> (of_nat k :: u8) \<noteq> 0xff"
  unfolding word_unat_eq_iff unat_of_nat_u8 by simp

lemma pad_to_bin: "base64_ascii_to_bin 0x3d = 0"
  by (simp add: ascii_to_bin_if)

lemma decode_quad_bytes:
  assumes "i * 262144 + j * 4096 + k * 64 + l = v" and "i < 64" "j < 64" "k < 64" "l < 64"
    and "base64_ascii_to_bin c0 = of_nat i" "base64_ascii_to_bin c1 = of_nat j"
    and "base64_ascii_to_bin c2 = of_nat k" "base64_ascii_to_bin c3 = of_nat l"
    and "c0 \<noteq> 0x3d" "c1 \<noteq> 0x3d" "c2 = 0x3d \<longrightarrow> c3 = 0x3d"
  shows "base64_decode_quad c0 c1 c2 c3 =
    Some (take (if c2 = 0x3d then 1 else if c3 = 0x3d then 2 else 3) (be_bytes 3 v))"
  using assms(2-5) assms(10-)
  unfolding base64_decode_quad_def Let_def assms(6-9) ucast_drop_of_unat
  unfolding ucast_low_of_unat unat_v4 [OF assms(2-5)] be_bytes_3 assms(1)
  by (simp add: of_nat_sextet)

lemma digits_of_value:
  fixes v :: nat
  shows "v div 262144 mod 64 * 262144 + v div 4096 mod 64 * 4096 + v div 64 mod 64 * 64 + v mod 64
    = v mod 16777216"
proof -
  have "v mod (64 * 262144) = v div 262144 mod 64 * 262144 + v mod 262144" by (rule mod_mult_div)
  moreover have "v mod (64 * 4096) = v div 4096 mod 64 * 4096 + v mod 4096" by (rule mod_mult_div)
  moreover have "v mod (64 * 64) = v div 64 mod 64 * 64 + v mod 64" by (rule mod_mult_div)
  ultimately show ?thesis by simp
qed

lemma decode_group:
  assumes "v < 16777216"
  shows "base64_decode_quad (b64_digit (v div 262144)) (b64_digit (v div 4096))
      (b64_digit (v div 64)) (b64_digit v) = Some (be_bytes 3 v)"
proof -
  have "v div 262144 mod 64 * 262144 + v div 4096 mod 64 * 4096 + v div 64 mod 64 * 64 + v mod 64 = v"
    using digits_of_value [of v] assms by simp
  from decode_quad_bytes [OF this _ _ _ _ ascii_to_bin_digit ascii_to_bin_digit
      ascii_to_bin_digit ascii_to_bin_digit] show ?thesis
    by (simp add: digit_not_special)
qed

lemma decode_group_2:
  assumes "v < 16777216" and "v mod 64 = 0"
  shows "base64_decode_quad (b64_digit (v div 262144)) (b64_digit (v div 4096))
      (b64_digit (v div 64)) 0x3d = Some (take 2 (be_bytes 3 v))"
proof -
  have "v div 262144 mod 64 * 262144 + v div 4096 mod 64 * 4096 + v div 64 mod 64 * 64 + 0 = v"
    using digits_of_value [of v] assms by simp
  from decode_quad_bytes [OF this _ _ _ _ ascii_to_bin_digit ascii_to_bin_digit
      ascii_to_bin_digit] show ?thesis
    by (simp add: digit_not_special pad_to_bin)
qed

lemma decode_group_1:
  assumes "v < 16777216" and "v mod 4096 = 0"
  shows "base64_decode_quad (b64_digit (v div 262144)) (b64_digit (v div 4096)) 0x3d 0x3d =
    Some (take 1 (be_bytes 3 v))"
proof -
  have "v mod 4096 = v div 64 mod 64 * 64 + v mod 64"
    using mod_mult_div [of v 64 64] by simp
  then have "v div 262144 mod 64 * 262144 + v div 4096 mod 64 * 4096 + 0 * 64 + 0 = v"
    using digits_of_value [of v] assms by simp
  from decode_quad_bytes [OF this _ _ _ _ ascii_to_bin_digit ascii_to_bin_digit] show ?thesis
    by (simp add: digit_not_special pad_to_bin)
qed

lemma group_less: "be_val [a, b, c] < 16777216"
  using be_val_less [of "[a, b, c]"] by simp

lemma group_bytes: "be_bytes 3 (be_val [a, b, c]) = [a, b, c]"
  using be_bytes_be_val [of "[a, b, c]"] by (simp add: numeral_3_eq_3)

lemma group_low:
  "be_val [a, b, 0] mod 64 = 0" "be_val [a, 0, 0] mod 4096 = 0"
proof -
  have "be_val [a, b, 0] = 64 * (unat a * 1024 + unat b * 4)" by simp
  then show "be_val [a, b, 0] mod 64 = 0" by (simp only: mod_mult_self1_is_0)
  have "be_val [a, 0, 0] = 4096 * (unat a * 16)" by simp
  then show "be_val [a, 0, 0] mod 4096 = 0" by (simp only: mod_mult_self1_is_0)
qed

lemma decode_loop_b64: "decode_base64_loop (b64 s) out = Some (out @ s)"
proof (induction s arbitrary: out rule: b64.induct)
  case (1 a b c s)
  then show ?case
    using decode_group [OF group_less [of a b c]] unfolding b64.simps group_bytes b64_group_def by simp
next
  case (2 a b)
  then show ?case
    using decode_group_2 [OF group_less [of a b 0] group_low(1)]
    unfolding b64.simps group_bytes b64_group_def by simp
next
  case (3 a)
  then show ?case
    using decode_group_1 [OF group_less [of a 0 0] group_low(2)]
    unfolding b64.simps group_bytes b64_group_def by simp
qed simp

end
