(* ===== verification/Base64_Stream.thy ===== *)
theory Base64_Stream
  imports Base64_Laws
begin

text \<open>
  The properties of the base64 component: the block functions are inverse to each other and
  stay within the announced lengths; the streaming encoder writes the same lines however
  its input is cut into calls; the streaming decoder reads them back however they are cut;
  a decoding error is final.
\<close>

unbundle bit_operations_syntax

section \<open>Block functions\<close>

lemma b64_mod_4: "length (b64 s) mod 4 = 0"
  by (simp add: length_b64)

lemma decode_base64_b64:
  "3 * ((length s + 2) div 3) \<le> max_out \<Longrightarrow> EVP_DecodeBase64 max_out (b64 s) = Some s"
  by (simp add: EVP_DecodeBase64_def EVP_DecodedLength_def length_b64 decode_loop_b64)

lemma decode_quad_length: "base64_decode_quad a b c d = Some bs \<Longrightarrow> length bs \<le> 3"
  by (auto simp: base64_decode_quad_def Let_def split: if_splits)

lemma decode_loop_length:
  "decode_base64_loop inp out = Some r \<Longrightarrow> length r \<le> length out + 3 * (length inp div 4)"
proof (induction inp out rule: decode_base64_loop.induct)
  case (1 a b c d inp out)
  then obtain bs where bs: "base64_decode_quad a b c d = Some bs"
    and "decode_base64_loop inp (out @ bs) = Some r" and "length bs \<noteq> 3 \<longrightarrow> inp = []"
    by (auto split: option.splits if_splits)
  with 1 have "length r \<le> length (out @ bs) + 3 * (length inp div 4)" by blast
  moreover have "length (a # b # c # d # inp) div 4 = length inp div 4 + 1"
    using div_add_self2 [of 4 "length inp"] by simp
  ultimately show ?case using decode_quad_length [OF bs] by simp
qed simp_all

text \<open>
  Decoding the base64 text \<open>EVP_EncodeBlock\<close> wrote (its output up to the NUL) with
  \<open>EVP_DecodeBase64\<close>, given room for the decoded length, yields the original bytes.
\<close>

theorem block_roundtrip:
  assumes "4 * ((length src + 2) div 3) < size_limit"
    and "EVP_DecodedLength (snd (EVP_EncodeBlock src)) = Some max_out"
  shows "EVP_DecodeBase64 max_out (take (snd (EVP_EncodeBlock src)) (fst (EVP_EncodeBlock src))) = Some src"
proof -
  have "snd (EVP_EncodeBlock src) = length (b64 src)" "fst (EVP_EncodeBlock src) = b64 src @ [0]"
    using assms(1) by (simp_all add: EVP_EncodeBlock_b64 length_b64)
  with assms(2) show ?thesis
    by (simp add: decode_base64_b64 EVP_DecodedLength_def length_b64)
qed

theorem block_roundtrip_witness:
  "EVP_DecodeBase64 6 (take 8 (fst (EVP_EncodeBlock [0x66, 0x6f, 0x6f, 0xff]))) = Some [0x66, 0x6f, 0x6f, 0xff]"
proof -
  have "snd (EVP_EncodeBlock [0x66, 0x6f, 0x6f, 0xff]) = 8" by (simp add: EVP_EncodeBlock_def size_add_def quad3_def quad1_def)
  then show ?thesis
    using block_roundtrip [of "[0x66, 0x6f, 0x6f, 0xff]" 6] by (simp add: EVP_DecodedLength_def)
qed

text \<open>
  \<open>EVP_EncodeBlock\<close> writes exactly \<open>EVP_EncodedLength\<close> bytes including the final NUL, and
  \<open>EVP_EncodedLength\<close> fails only when that number does not fit \<open>size_t\<close>.
\<close>

theorem encoded_length_exact:
  assumes "length src < size_limit"
  shows "EVP_EncodedLength (length src) =
    (if length (fst (EVP_EncodeBlock src)) < size_limit
     then Some (length (fst (EVP_EncodeBlock src))) else None)"
proof -
  define n where "n = length src"
  define q where "q = (n + 2) div 3"
  have written: "length (fst (EVP_EncodeBlock src)) = 4 * q + 1"
    by (simp add: EVP_EncodeBlock_b64 length_b64 q_def n_def)
  have q: "3 * q \<le> n + 2" by (simp add: q_def)
  have wrap: "size_mul q 4 div 4 = q \<longleftrightarrow> 4 * q < size_limit"
  proof
    assume "4 * q < size_limit"
    then show "size_mul q 4 div 4 = q" by (simp add: size_mul_def)
  next
    assume "size_mul q 4 div 4 = q"
    moreover have "size_mul q 4 < size_limit" by (simp add: size_mul_def)
    ultimately show "4 * q < size_limit"
      using div_times_less_eq_dividend [of "size_mul q 4" 4] by simp
  qed
  have overflow: "size_add n 2 < n \<longleftrightarrow> size_limit \<le> n + 2"
    by (rule size_add_overflow) (use assms in \<open>simp_all add: n_def\<close>)
  have last_bit: "size_add (4 * q) 1 < 4 * q \<longleftrightarrow> size_limit \<le> 4 * q + 1" if "4 * q < size_limit"
    by (rule size_add_overflow) (use that in simp_all)
  show ?thesis
  proof (cases "size_limit \<le> n + 2")
    case True
    then have "size_limit \<le> 4 * q + 1" unfolding q_def by simp
    with True overflow show ?thesis
      unfolding written EVP_EncodedLength_def n_def [symmetric] by simp
  next
    case False
    then have "size_add n 2 div 3 = q" by (simp add: size_add_exact q_def)
    then show ?thesis
      using False overflow wrap last_bit
      unfolding written EVP_EncodedLength_def n_def [symmetric]
      by (auto simp: size_mul_exact size_add_exact Let_def mult.commute)
  qed
qed

theorem encoded_length_exact_witness:
  "EVP_EncodedLength (length [1, 2, 3, 4 :: u8]) =
    (if length (fst (EVP_EncodeBlock [1, 2, 3, 4])) < size_limit
     then Some (length (fst (EVP_EncodeBlock [1, 2, 3, 4]))) else None)"
  by (rule encoded_length_exact) simp

lemma pad_nul_length: "length (pad_nul d) mod 3 = 0 \<and> length (pad_nul d) \<le> 3 * ((length d + 2) div 3)"
proof (induction d rule: pad_nul.induct)
  case (1 d)
  show ?case
  proof (cases "length d mod 3 = 0")
    case True
    then show ?thesis by (subst (1 2) pad_nul.simps) auto
  next
    case False
    then have "length d mod 3 = 1 \<or> length d mod 3 = 2"
      using mod_less_divisor [of 3 "length d"] by linarith
    then have "(Suc (length d) + 2) div 3 = (length d + 2) div 3"
      by (auto simp: div_Suc mod_Suc)
    with 1 [OF False] False show ?thesis by (subst (1 2) pad_nul.simps) simp
  qed
qed

lemma trim_front_length: "length (trim_front s) \<le> length s"
  by (induction s) auto

lemma trim_back_length: "length (trim_back s) \<le> length s"
proof (induction s rule: trim_back.induct)
  case (1 s)
  then show ?case by (subst trim_back.simps) fastforce
qed

lemma decode_base64_fits:
  "EVP_DecodeBase64 max_out inp = Some out \<Longrightarrow> length out \<le> max_out"
  using decode_loop_length [of inp "[]" out]
  by (auto simp: EVP_DecodeBase64_def EVP_DecodedLength_def split: if_splits)

text \<open>
  \<open>EVP_DecodeBlock\<close> writes at most three bytes for four characters of its input, whatever
  the input is, and always a multiple of three (the padding is counted).
\<close>

theorem decode_block_fits:
  assumes "EVP_DecodeBlock src = Some dst"
  shows "length dst \<le> 3 * (length src div 4) \<and> length dst mod 3 = 0"
proof -
  let ?s = "trim_back (trim_front src)"
  from assms obtain d where d: "EVP_DecodeBase64 (length ?s div 4 * 3) ?s = Some d" "dst = pad_nul d"
    by (auto simp: EVP_DecodeBlock_def EVP_DecodedLength_def Let_def
        split: if_splits option.splits)
  have "length ?s \<le> length src"
    using trim_back_length [of "trim_front src"] trim_front_length [of src] by linarith
  then have "length ?s div 4 \<le> length src div 4" by (rule div_le_mono)
  moreover have "(length d + 2) div 3 \<le> length ?s div 4"
    using decode_base64_fits [OF d(1)] by linarith
  ultimately show ?thesis using pad_nul_length [of d] unfolding d(2) by linarith
qed

theorem decode_block_fits_witness:
  "length ([0x66, 0, 0] :: bytes) \<le> 3 * (length ([0x5a, 0x67, 0x3d, 0x3d, 0x0a] :: bytes) div 4) \<and>
     length ([0x66, 0, 0] :: bytes) mod 3 = 0"
proof (rule decode_block_fits)
  show "EVP_DecodeBlock [0x5a, 0x67, 0x3d, 0x3d, 0x0a] = Some [0x66, 0, 0]"
    by (simp add: EVP_DecodeBlock_def EVP_DecodedLength_def EVP_DecodeBase64_def INT_MAX_def
        trim_back.simps [of "[_, _, _, _, _]"] trim_back.simps [of "[_, _, _, _]"]
        pad_nul.simps [of "[_]"] pad_nul.simps [of "[_, _]"] pad_nul.simps [of "[_, _, _]"]
        base64_space_def base64_decode_quad_def ascii_to_bin_if)
qed

section \<open>The streaming encoder\<close>

text \<open>The text the encoder produces: lines of 64 characters for 48 bytes.\<close>

function b64_lines :: "bytes \<Rightarrow> bytes" where
  "b64_lines s = (if s = [] then [] else b64 (take 48 s) @ 0x0a # b64_lines (drop 48 s))"
  by pat_completeness auto
termination by (relation "measure length") auto

declare b64_lines.simps [simp del]

lemma b64_lines_Nil [simp]: "b64_lines [] = []"
  by (simp add: b64_lines.simps)

lemma b64_lines_line: "length l = 48 \<Longrightarrow> b64_lines (l @ s) = b64 l @ 0x0a # b64_lines s"
  by (subst b64_lines.simps) auto

lemma b64_lines_short: "s \<noteq> [] \<Longrightarrow> length s \<le> 48 \<Longrightarrow> b64_lines s = b64 s @ [0x0a]"
  by (subst b64_lines.simps) simp

lemma full_lines_induct [consumes 1, case_names nil line]:
  assumes "length s mod 48 = 0" and "P []"
    and "\<And>l s. length l = 48 \<Longrightarrow> length s mod 48 = 0 \<Longrightarrow> P s \<Longrightarrow> P (l @ s)"
  shows "P s"
  using assms(1)
proof (induction "length s" arbitrary: s rule: less_induct)
  case less
  show ?case
  proof (cases "s = []")
    case False
    with less.prems have long: "48 \<le> length s" by (metis length_greater_0_conv linorder_not_less mod_less neq0_conv)
    with less have "P (drop 48 s)" by (simp add: le_mod_geq)
    with long less.prems have "P (take 48 s @ drop 48 s)"
      by (intro assms(3)) (simp_all add: le_mod_geq)
    then show ?thesis by simp
  qed (simp add: assms(2))
qed

lemma b64_lines_append: "length xs mod 48 = 0 \<Longrightarrow> b64_lines (xs @ ys) = b64_lines xs @ b64_lines ys"
  by (induction xs rule: full_lines_induct) (simp_all add: b64_lines_line)

lemma div_48: "(48 + n) div 48 = Suc (n div 48)"
  by (simp add: div_add_self1)

lemma length_b64_lines: "length xs mod 48 = 0 \<Longrightarrow> length (b64_lines xs) = 65 * (length xs div 48)"
  by (induction xs rule: full_lines_induct) (simp_all add: b64_lines_line length_b64 div_48)

lemma put_line_b64:
  assumes "length block \<le> 48"
  shows "put_line out block = (out @ b64 block @ [0x0a], length (b64 block))"
proof -
  have "length (b64 block) < size_limit" using assms by (simp add: length_b64)
  then show ?thesis by (simp add: put_line_def EVP_EncodeBlock_b64)
qed

lemma put_line_full: "length block = 48 \<Longrightarrow> put_line out block = (out @ b64_lines block, 64)"
  using b64_lines_short [of block] by (simp add: put_line_b64 length_b64 flip: length_greater_0_conv)

definition whole :: "bytes \<Rightarrow> nat" where
  "whole s = 48 * (length s div 48)"

lemma whole_le: "whole s \<le> length s"
  by (simp add: whole_def)

lemma whole_short: "length s < 48 \<Longrightarrow> whole s = 0"
  by (simp add: whole_def)

lemma whole_line: "length l = 48 \<Longrightarrow> whole (l @ s) = 48 + whole s"
  by (simp add: whole_def div_48)

lemma rest_short: "length (drop (whole s) s) < 48"
  by (simp add: whole_def minus_mult_div_eq_mod)

lemma encode_lines_eq:
  assumes "tot + 65 * (length inp div 48) < size_limit"
  shows "encode_lines inp out tot =
    (True, drop (whole inp) inp, out @ b64_lines (take (whole inp) inp), tot + 65 * (length inp div 48))"
  using assms
proof (induction inp out tot rule: encode_lines.induct)
  case (1 inp out tot)
  show ?case
  proof (cases "length inp < 48")
    case True
    then show ?thesis by (subst encode_lines.simps) (simp add: sizeof_data_def whole_short)
  next
    case False
    define l r where "l = take 48 inp" and "r = drop 48 inp"
    have inp: "inp = l @ r" and len: "length l = 48" using False by (simp_all add: l_def r_def)
    have tot: "size_add (size_add tot 64) 1 = tot + 65"
      using 1(2) False unfolding size_add_def inp by (simp add: len div_48)
    have "encode_lines r (out @ b64_lines l) (tot + 65) =
        (True, drop (whole r) r, (out @ b64_lines l) @ b64_lines (take (whole r) r),
          tot + 65 + 65 * (length r div 48))"
      using "1.IH" [OF _ put_line_full [OF len, of out, unfolded l_def, folded sizeof_data_def, symmetric]]
        "1.prems" False tot
      by (simp add: sizeof_data_def inp len l_def [symmetric] r_def [symmetric] div_48)
    then show ?thesis
      using False tot
      by (subst encode_lines.simps)
        (simp add: sizeof_data_def put_line_full len inp whole_line b64_lines_append div_48)
  qed
qed

definition enc_wf :: "evp_encode_ctx_st \<Rightarrow> bool" where
  "enc_wf ctx \<longleftrightarrow> data_used ctx < sizeof_data \<and> length (data ctx) = sizeof_data"

definition pending :: "evp_encode_ctx_st \<Rightarrow> bytes" where
  "pending ctx = take (data_used ctx) (data ctx)"

lemma length_pending: "enc_wf ctx \<Longrightarrow> length (pending ctx) = data_used ctx"
  by (simp add: enc_wf_def pending_def)

lemma length_put_bytes: "off + length bs \<le> length buf \<Longrightarrow> length (put_bytes buf off bs) = length buf"
  by (simp add: put_bytes_def)

lemma take_put_bytes:
  "off + length bs \<le> length buf \<Longrightarrow> take (off + length bs) (put_bytes buf off bs) = take off buf @ bs"
  by (simp add: put_bytes_def)

text \<open>What one call does to the pending bytes and the output.\<close>

definition encode_step :: "evp_encode_ctx_st \<Rightarrow> bytes \<Rightarrow> evp_encode_ctx_st \<times> bytes \<times> nat \<Rightarrow> bool" where
  "encode_step ctx inp res \<longleftrightarrow>
     (let s = pending ctx @ inp in
      case res of (ctx', out, n) \<Rightarrow>
        enc_wf ctx' \<and> pending ctx' = drop (whole s) s \<and>
        take n out = b64_lines (take (whole s) s) \<and> length out \<le> 65 * (length s div 48) + 1)"

lemma take_end_line: "take (length out) (end_line out) = out"
  by (simp add: end_line_def)

lemma length_take_whole: "length (take (whole s) s) mod 48 = 0" "length (take (whole s) s) div 48 = length s div 48"
  using whole_le [of s] by (simp_all add: whole_def min_absorb2)

lemma encode_update_step:
  assumes wf: "enc_wf ctx"
    and bound: "65 * (length (pending ctx @ inp) div 48) \<le> INT_MAX"
  shows "encode_step ctx inp (EVP_EncodeUpdate ctx inp)"
proof -
  have lim: "INT_MAX < size_limit" by (simp add: INT_MAX_def)
  have finish: "encode_step ctx inp
      (case encode_lines r out t of (ok, inp, out, tot) \<Rightarrow>
         if \<not> ok then (c, end_line out, 0)
         else (c\<lparr>data := (if inp \<noteq> [] then put_bytes (data c) 0 inp else data c),
                 data_used := length inp\<rparr>, end_line out, if tot > INT_MAX then 0 else tot))"
    if r: "pending ctx @ inp = l @ r" "length l mod 48 = 0" "out = b64_lines l"
      "t = 65 * (length l div 48)" "length (data c) = sizeof_data" for l r out t c
  proof -
    let ?s = "pending ctx @ inp"
    have k: "length ?s div 48 = length l div 48 + length r div 48" and w: "whole ?s = length l + whole r"
      using r(2) unfolding whole_def r(1) by (auto simp: div_add1_eq [of "length l" "length r"])
    have e: "encode_lines r out t = (True, drop (whole r) r, out @ b64_lines (take (whole r) r),
        t + 65 * (length r div 48))"
      using bound lim unfolding k by (intro encode_lines_eq) (simp add: r(4))
    have o: "out @ b64_lines (take (whole r) r) = b64_lines (take (whole ?s) ?s)"
      unfolding w unfolding r(1) r(3) by (simp add: b64_lines_append r(2))
    have n: "length (b64_lines (take (whole ?s) ?s)) = 65 * (length ?s div 48)"
      by (simp only: length_b64_lines [OF length_take_whole(1)] length_take_whole(2))
    have tt: "t + 65 * (length r div 48) = 65 * (length ?s div 48)" unfolding k r(4) by simp
    have d: "drop (whole ?s) ?s = drop (whole r) r" unfolding w unfolding r(1) by simp
    define T where "T = b64_lines (take (whole ?s) ?s)"
    define K where "K = length ?s div 48"
    show ?thesis
      using bound r(5) rest_short [of r] take_end_line [of T] n
        length_put_bytes [of 0 "drop (whole r) r" "data c"] take_put_bytes [of 0 "drop (whole r) r" "data c"]
      unfolding e encode_step_def Let_def split o tt d T_def [symmetric] K_def [symmetric]
      by (auto simp: enc_wf_def pending_def [of "_\<lparr>data := _, data_used := _\<rparr>"] sizeof_data_def end_line_def)
  qed
  show ?thesis
  proof (cases "sizeof_data - data_used ctx > length inp")
    case True
    then have "length (pending ctx @ inp) < 48"
      by (simp add: length_pending [OF wf] sizeof_data_def)
    with True wf show ?thesis
      using length_put_bytes [of "data_used ctx" inp "data ctx"] take_put_bytes [of "data_used ctx" inp "data ctx"]
      by (auto simp: EVP_EncodeUpdate_def encode_step_def whole_short enc_wf_def pending_def sizeof_data_def)
  next
    case False
    show ?thesis
    proof (cases "data_used ctx = 0")
      case True
      with False show ?thesis
        using wf finish [of "[]" inp "[]" 0 ctx]
        by (auto simp: EVP_EncodeUpdate_def pending_def enc_wf_def sizeof_data_def)
    next
      case used: False
      define todo where "todo = sizeof_data - data_used ctx"
      define l where "l = put_bytes (data ctx) (data_used ctx) (take todo inp)"
      have l: "l = pending ctx @ take todo inp" "length l = 48"
        using False wf by (auto simp: l_def put_bytes_def pending_def enc_wf_def todo_def sizeof_data_def)
      have "inp \<noteq> []" using False wf by (auto simp: enc_wf_def)
      then show ?thesis
        using used False finish [of l "drop todo inp" "b64_lines l" "65" "ctx\<lparr>data := l, data_used := 0\<rparr>"] l(2)
        unfolding EVP_EncodeUpdate_def Let_def todo_def [symmetric] l_def [symmetric]
        by (simp add: put_line_full l(1) [symmetric] size_add_def) (simp add: l sizeof_data_def)
    qed
  qed
qed

text \<open>A caller's use of the encoder: a call per piece of input, then the final call.\<close>

fun encode_calls :: "evp_encode_ctx_st \<Rightarrow> bytes list \<Rightarrow> evp_encode_ctx_st \<times> bytes" where
  "encode_calls ctx [] = (ctx, [])"
| "encode_calls ctx (inp # inps) =
     (case EVP_EncodeUpdate ctx inp of (ctx, out, n) \<Rightarrow>
        case encode_calls ctx inps of (ctx, wr) \<Rightarrow> (ctx, take n out @ wr))"

definition encode_stream :: "bytes list \<Rightarrow> bytes" where
  "encode_stream inps =
     (case encode_calls EVP_EncodeInit inps of (ctx, wr) \<Rightarrow>
        case EVP_EncodeFinal ctx of (ctx, out, n) \<Rightarrow> wr @ take n out)"

lemma EncodeInit_wf: "enc_wf EVP_EncodeInit" "pending EVP_EncodeInit = []"
  by (simp_all add: EVP_EncodeInit_def enc_wf_def pending_def sizeof_data_def)

lemma encode_final_text:
  assumes "enc_wf ctx" and "EVP_EncodeFinal ctx = (ctx', out, n)"
  shows "take n out = b64_lines (pending ctx)"
proof (cases "data_used ctx = 0")
  case True
  with assms show ?thesis by (simp add: EVP_EncodeFinal_def pending_def)
next
  case False
  let ?b = "b64 (pending ctx)"
  have len: "length (pending ctx) < 48" "pending ctx \<noteq> []"
    using assms(1) False by (auto simp: enc_wf_def pending_def sizeof_data_def)
  then have "length ?b < size_limit" by (simp add: length_b64)
  with False assms(2) have "out = ?b @ [0x0a, 0]" "n = length ?b + 1"
    by (auto simp: EVP_EncodeFinal_def EVP_EncodeBlock_b64 pending_def [symmetric])
  with len show ?thesis by (simp add: b64_lines_short)
qed

lemma encode_calls_text:
  assumes "enc_wf ctx" and "\<forall>inp \<in> set inps. 65 * ((length inp + 47) div 48) \<le> INT_MAX"
    and "encode_calls ctx inps = (ctx', wr)"
  shows "enc_wf ctx' \<and> wr @ b64_lines (pending ctx') = b64_lines (pending ctx @ concat inps)"
  using assms
proof (induction ctx inps arbitrary: ctx' wr rule: encode_calls.induct)
  case (2 ctx inp inps)
  obtain c out n where step: "EVP_EncodeUpdate ctx inp = (c, out, n)" by (metis prod_cases3)
  obtain wr1 where rest: "encode_calls c inps = (ctx', wr1)" and wr: "wr = take n out @ wr1"
    using "2.prems"(3) step by (auto split: prod.splits)
  let ?s = "pending ctx @ inp"
  have "length ?s div 48 \<le> (length inp + 47) div 48"
    using "2.prems"(1) by (intro div_le_mono) (simp add: length_pending enc_wf_def sizeof_data_def)
  then have "65 * (length ?s div 48) \<le> INT_MAX" using "2.prems"(2) by fastforce
  from encode_update_step [OF "2.prems"(1) this] step
  have c: "enc_wf c" "pending c = drop (whole ?s) ?s" "take n out = b64_lines (take (whole ?s) ?s)"
    by (auto simp: encode_step_def Let_def)
  have "enc_wf ctx' \<and> wr1 @ b64_lines (pending ctx') = b64_lines (pending c @ concat inps)"
    using "2.IH" step rest c(1) "2.prems"(2) by simp
  moreover have "b64_lines (?s @ concat inps) = take n out @ b64_lines (pending c @ concat inps)"
    using b64_lines_append [OF length_take_whole(1) [of ?s], of "drop (whole ?s) ?s @ concat inps"]
    by (simp only: c(2,3) append_assoc [symmetric] append_take_drop_id)
  ultimately show ?case by (simp add: wr)
qed simp

lemma encode_stream_text:
  assumes "\<forall>inp \<in> set inps. 65 * ((length inp + 47) div 48) \<le> INT_MAX"
  shows "encode_stream inps = b64_lines (concat inps)"
proof -
  obtain ctx wr where calls: "encode_calls EVP_EncodeInit inps = (ctx, wr)" by fastforce
  obtain ctx' out n where fin: "EVP_EncodeFinal ctx = (ctx', out, n)" by (metis prod_cases3)
  from encode_calls_text [OF EncodeInit_wf(1) assms calls]
  have "enc_wf ctx" "wr @ b64_lines (pending ctx) = b64_lines (concat inps)"
    by (simp_all add: EncodeInit_wf)
  with encode_final_text [OF _ fin] calls fin show ?thesis
    by (simp add: encode_stream_def)
qed

text \<open>
  C10. However the input is cut into calls of \<open>EVP_EncodeUpdate\<close>, the text collected from
  them and from \<open>EVP_EncodeFinal\<close> is the base64 encoding of the whole input in lines of 48
  bytes. The hypothesis is the limit of the \<open>int\<close> the functions return: the text of one call
  has at most \<open>INT_MAX\<close> bytes.
\<close>

theorem encode_stream_lines:
  assumes "\<forall>inp \<in> set inps. 65 * ((length inp + 47) div 48) \<le> INT_MAX"
  shows "encode_stream inps = b64_lines (concat inps)"
  using assms by (rule encode_stream_text)

theorem encode_stream_lines_witness:
  "encode_stream [[0x66], replicate 50 0x6f, [], [0x72]] =
     b64_lines ([0x66] @ replicate 50 0x6f @ [0x72])"
  using encode_stream_lines [of "[[0x66], replicate 50 0x6f, [], [0x72]]"]
  by (simp add: INT_MAX_def)

section \<open>The streaming decoder\<close>

lemma decode_loop_append:
  "decode_update_loop ctx out (xs @ ys) =
     (case decode_update_loop ctx out xs of
        (True, ctx', out') \<Rightarrow> decode_update_loop ctx' out' ys
      | (False, ctx', out') \<Rightarrow> (False, ctx', out'))"
  by (induction ctx out xs rule: decode_update_loop.induct)
    (auto simp: Let_def split: option.splits)

lemma decode_loop_filter:
  "decode_update_loop ctx out (filter (\<lambda>c. \<not> base64_space c) inp) = decode_update_loop ctx out inp"
  by (induction ctx out inp rule: decode_update_loop.induct)
    (auto simp: Let_def split: option.splits)

lemma decode_loop_out:
  "decode_update_loop ctx (out @ out') inp =
     (case decode_update_loop ctx out' inp of (ok, ctx, r) \<Rightarrow> (ok, ctx, out @ r))"
proof (induction inp arbitrary: ctx out')
  case (Cons c inp)
  have e: "decode_update_loop ctx (out @ (out' @ r)) inp =
      (case decode_update_loop ctx (out' @ r) inp of (ok, ctx, q) \<Rightarrow> (ok, ctx, out @ q))" for ctx r
    by (rule Cons.IH)
  show ?case using e e [of _ "[]"] by (auto simp: Let_def split: option.splits prod.splits)
qed simp

lemma decode_loop_step:
  assumes "d = ctx\<lparr>data := (data ctx)[data_used ctx := c], data_used := data_used ctx + 1\<rparr>"
  shows "decode_update_loop ctx out (c # inp) =
     (if base64_space c then decode_update_loop ctx out inp
      else if eof_seen ctx then (False, ctx\<lparr>error_encountered := True\<rparr>, out)
      else if data_used d = 4
           then case base64_decode_quad (data d ! 0) (data d ! 1) (data d ! 2) (data d ! 3) of
                  None \<Rightarrow> (False, d\<lparr>error_encountered := True\<rparr>, out)
                | Some bs \<Rightarrow>
                    decode_update_loop
                      (d\<lparr>data_used := 0, eof_seen := (if length bs < 3 then True else eof_seen d)\<rparr>)
                      (out @ bs) inp
           else decode_update_loop d out inp)"
  unfolding decode_update_loop.simps Let_def assms by (rule refl)

lemma decode_loop_bound:
  assumes "decode_update_loop ctx [] inp = (ok, ctx', out)" and "data_used ctx < 4"
  shows "length out \<le> 3 * ((data_used ctx + length inp) div 4) \<and> (ok \<longrightarrow> data_used ctx' < 4)"
  using assms
proof (induction inp arbitrary: ctx ok ctx' out)
  case (Cons c inp)
  define d where "d = ctx\<lparr>data := (data ctx)[data_used ctx := c], data_used := data_used ctx + 1\<rparr>"
  note step = decode_loop_step [OF d_def]
  consider (skip) "base64_space c" | (eof) "\<not> base64_space c" "eof_seen ctx"
    | (store) "\<not> base64_space c" "\<not> eof_seen ctx" "data_used d \<noteq> 4"
    | (quad) "\<not> base64_space c" "\<not> eof_seen ctx" "data_used d = 4"
    by blast
  then show ?case
  proof cases
    case skip
    with Cons.prems have "length out \<le> 3 * ((data_used ctx + length inp) div 4) \<and> (ok \<longrightarrow> data_used ctx' < 4)"
      by (intro Cons.IH) simp_all
    moreover have "(data_used ctx + length inp) div 4 \<le> (data_used ctx + length (c # inp)) div 4"
      by (rule div_le_mono) simp
    ultimately show ?thesis by (meson le_trans mult_le_mono2)
  next
    case store
    with Cons.prems have "length out \<le> 3 * ((data_used d + length inp) div 4) \<and> (ok \<longrightarrow> data_used ctx' < 4)"
      by (intro Cons.IH) (simp_all add: step del: decode_update_loop.simps, simp_all add: d_def)
    then show ?thesis by (simp add: d_def)
  next
    case quad
    show ?thesis
    proof (cases "base64_decode_quad (data d ! 0) (data d ! 1) (data d ! 2) (data d ! 3)")
      case None
      with Cons.prems quad show ?thesis by (simp add: step del: decode_update_loop.simps)
    next
      case (Some bs)
      define e where "e = d\<lparr>data_used := 0, eof_seen := (if length bs < 3 then True else eof_seen d)\<rparr>"
      obtain r where r: "decode_update_loop e [] inp = (ok, ctx', r)" "out = bs @ r"
        using Cons.prems quad Some decode_loop_out [of e bs "[]" inp]
        by (auto simp: step e_def [symmetric] simp del: decode_update_loop.simps split: prod.splits)
      have "length r \<le> 3 * (length inp div 4) \<and> (ok \<longrightarrow> data_used ctx' < 4)"
        using Cons.IH [OF r(1)] by (simp add: e_def)
      moreover have "data_used ctx + length (c # inp) = 4 + length inp"
        using quad by (simp add: d_def)
      ultimately show ?thesis
        using decode_quad_length [OF Some] by (simp add: r(2) div_add_self1)
    qed
  qed (use Cons.prems in simp)
qed simp

lemma decode_loop_error:
  "decode_update_loop ctx out inp = (ok, ctx', r) \<Longrightarrow> error_encountered ctx' = (\<not> ok \<or> error_encountered ctx)"
  by (induction ctx out inp rule: decode_update_loop.induct)
    (auto simp: Let_def split: if_splits option.splits)

lemma decode_loop_quad:
  assumes "data_used ctx = 0" "\<not> eof_seen ctx" "length (data ctx) = sizeof_data"
    and "base64_decode_quad a b c d = Some bs" "\<forall>x \<in> {a, b, c, d}. \<not> base64_space x"
  shows "\<exists>ctx'. decode_update_loop ctx out (a # b # c # d # inp) = decode_update_loop ctx' (out @ bs) inp \<and>
    data_used ctx' = 0 \<and> (eof_seen ctx' \<longleftrightarrow> length bs < 3) \<and> length (data ctx') = sizeof_data"
proof -
  have "4 \<le> length (data ctx)" using assms(3) by (simp add: sizeof_data_def)
  then obtain w x y z t where "data ctx = w # x # y # z # t"
    by (auto simp: numeral_eq_Suc Suc_le_length_iff)
  with assms have "decode_update_loop ctx out (a # b # c # d # inp) =
    decode_update_loop (ctx\<lparr>data := a # b # c # d # t, data_used := 0, eof_seen := length bs < 3\<rparr>) (out @ bs) inp"
    by (simp add: Let_def numeral_eq_Suc)
  moreover have "length (a # b # c # d # t) = sizeof_data"
    using assms(3) \<open>data ctx = w # x # y # z # t\<close> by simp
  ultimately show ?thesis
    by (intro exI [of _ "ctx\<lparr>data := a # b # c # d # t, data_used := 0, eof_seen := length bs < 3\<rparr>"]) simp
qed

lemma decode_loop_text:
  assumes "data_used ctx = 0" "\<not> eof_seen ctx" "length (data ctx) = sizeof_data"
  shows "\<exists>ctx'. decode_update_loop ctx out (b64 s) = (True, ctx', out @ s) \<and> data_used ctx' = 0"
  using assms
proof (induction s arbitrary: ctx out rule: b64.induct)
  case (1 a b c s)
  note group = decode_group [OF group_less [of a b c], unfolded group_bytes]
  obtain ctx1 where "decode_update_loop ctx out (b64 (a # b # c # s)) = decode_update_loop ctx1 (out @ [a, b, c]) (b64 s)"
    and "data_used ctx1 = 0" "\<not> eof_seen ctx1" "length (data ctx1) = sizeof_data"
    using decode_loop_quad [OF "1.prems" group, of out "b64 s"]
    by (auto simp: b64_group_def digit_not_special simp del: decode_update_loop.simps)
  with "1.IH" [of ctx1 "out @ [a, b, c]"] show ?case by simp
next
  case (2 a b)
  note group = decode_group_2 [OF group_less [of a b 0] group_low(1), unfolded group_bytes]
  show ?case
    using decode_loop_quad [OF "2.prems" group, of out "[]"]
    by (auto simp: b64_group_def digit_not_special base64_space_def [of "0x3d"]
        simp del: decode_update_loop.simps(2))
next
  case (3 a)
  note group = decode_group_1 [OF group_less [of a 0 0] group_low(2), unfolded group_bytes]
  show ?case
    using decode_loop_quad [OF "3.prems" group, of out "[]"]
    by (auto simp: b64_group_def digit_not_special base64_space_def [of "0x3d"]
        simp del: decode_update_loop.simps(2))
qed simp

lemma b64_no_space: "filter (\<lambda>c. \<not> base64_space c) (b64 s) = b64 s"
  by (induction s rule: b64.induct)
    (simp_all add: b64_group_def digit_not_special base64_space_def [of "0x3d"])

lemma filter_b64_lines: "filter (\<lambda>c. \<not> base64_space c) (b64_lines s) = b64 s"
proof (induction s rule: b64_lines.induct)
  case (1 s)
  show ?case
  proof (cases "s = []")
    case False
    have "b64 (take 48 s @ drop 48 s) = b64 (take 48 s) @ b64 (drop 48 s)"
      by (cases "length s \<le> 48") (simp_all add: b64_append del: append_take_drop_id)
    then show ?thesis
      using 1 [OF False] False
      by (subst b64_lines.simps) (simp add: b64_no_space base64_space_def [of "0x0a"])
  qed simp
qed

text \<open>A caller's use of the decoder: a call per piece, stopping at an error, then the final call.\<close>

fun decode_calls ::
  "evp_encode_ctx_st \<Rightarrow> bytes list \<Rightarrow> bool \<times> evp_encode_ctx_st \<times> bytes" where
  "decode_calls ctx [] = (True, ctx, [])"
| "decode_calls ctx (inp # inps) =
     (case EVP_DecodeUpdate ctx inp of (r, ctx, out, n) \<Rightarrow>
        if r < 0 then (False, ctx, [])
        else case decode_calls ctx inps of (ok, ctx, rest) \<Rightarrow> (ok, ctx, take n out @ rest))"

definition decode_stream :: "bytes list \<Rightarrow> bytes option" where
  "decode_stream inps =
     (case decode_calls EVP_DecodeInit inps of (ok, ctx, out) \<Rightarrow>
        if ok \<and> EVP_DecodeFinal ctx = 1 then Some out else None)"

lemma decode_calls_loop:
  assumes "decode_update_loop ctx [] (concat inps) = (True, ctx', out)"
    and "\<not> error_encountered ctx" and "data_used ctx < 4"
    and "\<forall>inp \<in> set inps. length inp + 2 \<le> INT_MAX"
  shows "decode_calls ctx inps = (True, ctx', out)"
  using assms
proof (induction inps arbitrary: ctx out)
  case (Cons inp inps)
  from Cons.prems(1) obtain c o1 where first: "decode_update_loop ctx [] inp = (True, c, o1)"
    and "decode_update_loop c o1 (concat inps) = (True, ctx', out)"
    by (auto simp: decode_loop_append split: prod.splits bool.splits)
  then obtain o2 where rest: "decode_update_loop c [] (concat inps) = (True, ctx', o2)" "out = o1 @ o2"
    using decode_loop_out [of c o1 "[]" "concat inps"] by (auto split: prod.splits)
  note b = decode_loop_bound [OF first Cons.prems(3)]
  have "3 * ((data_used ctx + length inp) div 4) \<le> length inp + 2"
    using Cons.prems(3) by linarith
  then have "length o1 \<le> INT_MAX" using b Cons.prems(4) by fastforce
  moreover have "\<not> error_encountered c" using decode_loop_error [OF first] Cons.prems(2) by simp
  ultimately show ?case
    using Cons.IH [OF rest(1)] Cons.prems b first rest(2)
    by (auto simp: EVP_DecodeUpdate_def)
qed simp

text \<open>
  C11. The streaming decoder inverts the streaming encoder: whatever calls produced the text
  and however it is cut into calls of \<open>EVP_DecodeUpdate\<close>, no call reports an error, the final
  call succeeds, and the bytes collected are the encoder's input.
\<close>

theorem stream_roundtrip:
  assumes "\<forall>inp \<in> set inps. 65 * ((length inp + 47) div 48) \<le> INT_MAX"
    and "\<forall>piece \<in> set pieces. length piece + 2 \<le> INT_MAX"
    and "concat pieces = encode_stream inps"
  shows "decode_stream pieces = Some (concat inps)"
proof -
  let ?s = "concat inps"
  have lines: "encode_stream inps = b64_lines ?s"
    using encode_stream_text [of inps] assms(1) by blast
  obtain ctx where "decode_update_loop EVP_DecodeInit [] (b64 ?s) = (True, ctx, ?s)" "data_used ctx = 0"
    using decode_loop_text [of EVP_DecodeInit "[]" ?s] by (auto simp: EVP_DecodeInit_def)
  then have loop: "decode_update_loop EVP_DecodeInit [] (concat pieces) = (True, ctx, ?s)"
    using decode_loop_filter [of EVP_DecodeInit "[]" "concat pieces"]
    by (simp add: assms(3) lines filter_b64_lines)
  then have "decode_calls EVP_DecodeInit pieces = (True, ctx, ?s)"
    by (rule decode_calls_loop [OF _ _ _ assms(2)]) (simp_all add: EVP_DecodeInit_def)
  moreover have "\<not> error_encountered ctx"
    using decode_loop_error [OF loop] by (simp add: EVP_DecodeInit_def)
  ultimately show ?thesis
    using \<open>data_used ctx = 0\<close> by (simp add: decode_stream_def EVP_DecodeFinal_def)
qed

theorem stream_roundtrip_witness:
  "decode_stream [b64_lines [0x66, 0x6f], []] = Some [0x66, 0x6f]"
proof -
  have "encode_stream [[0x66], [0x6f]] = b64_lines [0x66, 0x6f]"
    using encode_stream_text [of "[[0x66], [0x6f]]"] by (simp add: INT_MAX_def)
  moreover have "length (b64_lines [0x66, 0x6f]) = 5"
    by (simp add: b64_lines_short length_b64)
  ultimately show ?thesis
    using stream_roundtrip [of "[[0x66], [0x6f]]" "[b64_lines [0x66, 0x6f], []]"]
    by (simp add: INT_MAX_def)
qed

text \<open>
  C1. A decoding error is final: once \<open>EVP_DecodeUpdate\<close> has returned -1, every later call of
  it on that context returns -1, writes nothing and reports no bytes, and \<open>EVP_DecodeFinal\<close>
  returns -1.
\<close>

theorem decode_error_is_final:
  assumes "EVP_DecodeUpdate ctx inp = (-1, ctx', out, n)"
  shows "n = 0 \<and> EVP_DecodeUpdate ctx' inp' = (-1, ctx', [], 0) \<and> EVP_DecodeFinal ctx' = -1"
proof -
  have "error_encountered ctx' \<and> n = 0"
    using assms decode_loop_error [of ctx "[]" inp]
    by (auto simp: EVP_DecodeUpdate_def split: if_splits prod.splits)
  then show ?thesis by (simp add: EVP_DecodeUpdate_def EVP_DecodeFinal_def)
qed

theorem decode_error_is_final_witness:
  "EVP_DecodeFinal (EVP_DecodeInit\<lparr>eof_seen := True, error_encountered := True\<rparr>) = -1"
proof -
  have "EVP_DecodeUpdate (EVP_DecodeInit\<lparr>eof_seen := True\<rparr>) [0x0a, 0x41] =
    (-1, EVP_DecodeInit\<lparr>eof_seen := True, error_encountered := True\<rparr>, [], 0)"
    by (simp add: EVP_DecodeUpdate_def EVP_DecodeInit_def base64_space_def)
  from decode_error_is_final [OF this] show ?thesis by blast
qed

end
