(* ===== verification/BER.thy ===== *)
theory BER
  imports CBB_Refine
begin

text \<open>
  \<open>crypto/bytestring/ber.c\<close>: the search for BER-only encodings, the conversion to DER and
  the reader of implicitly tagged strings. The two walks recurse over nested elements and
  loop over the elements of one level; the loop is a recursive call at the same depth.
\<close>

unbundle bit_operations_syntax

section \<open>BER element headers\<close>

text \<open>What \<open>CBS_get_any_ber_asn1_element\<close> accepts beyond DER: a constructed tag followed by
  the indefinite length octet, returned as an element that is all header.\<close>

lemma ber_element_cases:
  "CBS_get_any_ber_asn1_element s =
     (case parse_asn1_tag s of
        (Some tag, lb # h) \<Rightarrow>
          if lb = 0x80 \<and> tag AND CBS_ASN1_CONSTRUCTED \<noteq> 0
          then (Some (der_tag tag @ [0x80], tag, length (der_tag tag) + 1), h)
          else CBS_get_any_asn1_element s
      | _ \<Rightarrow> CBS_get_any_asn1_element s)"
proof (cases "parse_asn1_tag s")
  case (Pair r h)
  show ?thesis
  proof (cases "\<exists>tag lb h1. r = Some tag \<and> h = lb # h1")
    case True
    then obtain tag and lb :: u8 and h1 where r: "r = Some tag" "h = lb # h1" by blast
    with Pair have s: "s = der_tag tag @ lb # h1" by (simp add: parse_asn1_tag_iff)
    have n0: "(unat (lb AND 0x7f) = 0 \<and> lb AND 0x80 \<noteq> 0) = (lb = 0x80)"
      by (rule u8_by_eval [where b = lb]) code_simp
    note unf = CBS_get_any_ber_asn1_element_def CBS_get_any_asn1_element_def
      cbs_get_any_asn1_element_def Pair r prod.case option.case CBS_get_u8_Cons Let_def cbs_eqs
      list.case
    have get: "cbs_get s (length s - length h1) = (Some (der_tag tag @ [lb]), h1)"
      using cbs_get_append [of "der_tag tag @ [lb]" "length s - length h1" h1] s by simp
    show ?thesis
    proof (cases "lb = 0x80")
      case True
      with n0 have n: "unat (lb AND 0x7f) = 0" "lb AND 0x80 \<noteq> 0" by simp_all
      show ?thesis unfolding unf
        using n True get s by (auto simp: cbs_eqs)
    next
      case False
      with n0 show ?thesis unfolding unf by auto
    qed
  next
    case False
    with Pair show ?thesis
      by (cases r; cases h) (simp_all add: CBS_get_any_ber_asn1_element_def
          CBS_get_any_asn1_element_def cbs_get_any_asn1_element_def)
  qed
qed

definition indefinite :: "u32 \<Rightarrow> bytes" where
  "indefinite tag = der_tag tag @ [0x80]"

lemma der_length_Cons:
  obtains lb r where "der_length n = lb # r" and "lb \<noteq> 0x80"
proof (cases "n < 128")
  case True
  then have "unat (of_nat n :: u8) \<noteq> 128" by (simp add: unat_of_nat_u8)
  then have "(of_nat n :: u8) \<noteq> 0x80" by auto
  with True that show thesis by (simp add: der_length_def)
next
  case False
  have "unat (of_nat (128 + len_bytes n) :: u8) \<noteq> 128"
    using len_bytes_range [of n] unfolding unat_of_nat_u8 by simp
  then have "(of_nat (128 + len_bytes n) :: u8) \<noteq> 0x80" by auto
  with False that show thesis by (simp add: der_length_def)
qed

lemma any_ber_element_iff:
  "CBS_get_any_ber_asn1_element s = (Some (out, tag, hl), s') \<longleftrightarrow>
     s = out @ s' \<and>
     ((\<exists>c. out = der_encode tag c \<and> length c < 2 ^ 32 \<and> hl = length out - length c) \<or>
      (tag AND CBS_ASN1_CONSTRUCTED \<noteq> 0 \<and> out = indefinite tag \<and> hl = length out))"
  (is "?L \<longleftrightarrow> ?R")
proof
  assume l: ?L
  have "CBS_get_any_asn1_element s = (Some (out, tag, hl), s') \<or>
      (\<exists>h. parse_asn1_tag s = (Some tag, 0x80 # h) \<and> tag AND CBS_ASN1_CONSTRUCTED \<noteq> 0 \<and>
         out = indefinite tag \<and> hl = length out \<and> s' = h)"
    using l unfolding ber_element_cases
    by (auto simp: indefinite_def split: prod.splits option.splits list.splits if_splits)
  then show ?R
    by (auto simp: any_element_iff parse_asn1_tag_iff indefinite_def)
next
  assume r: ?R
  then consider (definite) c where "s = der_encode tag c @ s'" "out = der_encode tag c"
      "length c < 2 ^ 32" "hl = length out - length c"
    | (indefinite) "s = der_tag tag @ 0x80 # s'" "tag AND CBS_ASN1_CONSTRUCTED \<noteq> 0"
      "out = indefinite tag" "hl = length out"
    by (auto simp: indefinite_def)
  then show ?L
  proof cases
    case definite
    obtain lb t where lb: "der_length (length c) = lb # t" "lb \<noteq> 0x80" by (rule der_length_Cons)
    have "parse_asn1_tag s = (Some tag, lb # t @ c @ s')"
      using definite lb by (simp add: parse_asn1_tag_iff der_encode_def)
    then have "CBS_get_any_ber_asn1_element s = CBS_get_any_asn1_element s"
      unfolding ber_element_cases using lb(2) by simp
    with definite show ?thesis by (auto simp: any_element_iff)
  next
    case indefinite
    then have "parse_asn1_tag s = (Some tag, 0x80 # s')" by (simp add: parse_asn1_tag_iff)
    then show ?thesis unfolding ber_element_cases using indefinite by (simp add: indefinite_def)
  qed
qed

lemma ber_element_shrinks:
  assumes "CBS_get_any_ber_asn1_element s = (Some (out, tag, hl), s')"
  shows "length s' < length s \<and> length out \<le> length s \<and> 0 < hl \<and> hl \<le> length out"
proof -
  have "der_tag tag \<noteq> []" by (simp add: der_tag_def Let_def)
  with assms show ?thesis
    by (auto simp: any_ber_element_iff indefinite_def der_encode_def)
qed

interpretation any_ber_element: progress_reader CBS_get_any_ber_asn1_element
proof unfold_locales
  show "\<exists>c. s = c @ s'" if "CBS_get_any_ber_asn1_element s = (r, s')" for s r s'
  proof (cases r)
    case None
    with that have "CBS_get_any_asn1_element s = (None, s')"
      unfolding ber_element_cases by (auto split: prod.splits option.splits list.splits if_splits)
    then have "s' = s" by (rule any_element_fail)
    then show ?thesis by simp
  next
    case (Some a)
    with that show ?thesis by (cases a) (auto simp: any_ber_element_iff)
  qed
  show "CBS_get_any_ber_asn1_element (s @ t) = (Some a, s' @ t)"
    if "CBS_get_any_ber_asn1_element s = (Some a, s')" for s a s' t
    using that by (cases a) (auto simp: any_ber_element_iff)
  show "length s' < length s" if "CBS_get_any_ber_asn1_element s = (Some a, s')" for s a s'
    using that ber_element_shrinks by (cases a) blast
qed

section \<open>Definitions\<close>

definition kMaxDepth :: nat where
  "kMaxDepth = 2048"

definition CBS_ASN1_BITSTRING :: u32 where "CBS_ASN1_BITSTRING = 0x3"
definition CBS_ASN1_UTF8STRING :: u32 where "CBS_ASN1_UTF8STRING = 0xc"
definition CBS_ASN1_NUMERICSTRING :: u32 where "CBS_ASN1_NUMERICSTRING = 0x12"
definition CBS_ASN1_PRINTABLESTRING :: u32 where "CBS_ASN1_PRINTABLESTRING = 0x13"
definition CBS_ASN1_T61STRING :: u32 where "CBS_ASN1_T61STRING = 0x14"
definition CBS_ASN1_VIDEOTEXSTRING :: u32 where "CBS_ASN1_VIDEOTEXSTRING = 0x15"
definition CBS_ASN1_IA5STRING :: u32 where "CBS_ASN1_IA5STRING = 0x16"
definition CBS_ASN1_GRAPHICSTRING :: u32 where "CBS_ASN1_GRAPHICSTRING = 0x19"
definition CBS_ASN1_VISIBLESTRING :: u32 where "CBS_ASN1_VISIBLESTRING = 0x1a"
definition CBS_ASN1_GENERALSTRING :: u32 where "CBS_ASN1_GENERALSTRING = 0x1b"
definition CBS_ASN1_UNIVERSALSTRING :: u32 where "CBS_ASN1_UNIVERSALSTRING = 0x1c"
definition CBS_ASN1_BMPSTRING :: u32 where "CBS_ASN1_BMPSTRING = 0x1e"

definition is_string_type :: "u32 \<Rightarrow> bool" where
  "is_string_type tag \<longleftrightarrow>
     (tag AND NOT CBS_ASN1_CONSTRUCTED) \<in>
       {CBS_ASN1_BITSTRING, CBS_ASN1_OCTETSTRING, CBS_ASN1_UTF8STRING, CBS_ASN1_NUMERICSTRING,
        CBS_ASN1_PRINTABLESTRING, CBS_ASN1_T61STRING, CBS_ASN1_VIDEOTEXSTRING,
        CBS_ASN1_IA5STRING, CBS_ASN1_GRAPHICSTRING, CBS_ASN1_VISIBLESTRING,
        CBS_ASN1_GENERALSTRING, CBS_ASN1_UNIVERSALSTRING, CBS_ASN1_BMPSTRING}"

text \<open>The test both walks make on an element: all header, ending in the indefinite length.\<close>

definition is_indefinite :: "cbs \<Rightarrow> nat \<Rightarrow> bool" where
  "is_indefinite contents header_len \<longleftrightarrow>
     CBS_len contents = header_len \<and> header_len > 0 \<and> CBS_data contents ! (header_len - 1) = 0x80"

text \<open>
  The loop of \<open>cbs_find_ber\<close> at one depth, with the value of \<open>*ber_found\<close>; the result is the
  return value and \<open>*ber_found\<close>. The nested call clears \<open>*ber_found\<close> first.
\<close>

function find_ber_loop :: "cbs \<Rightarrow> bool \<Rightarrow> nat \<Rightarrow> bool \<times> bool" where
  "find_ber_loop inp ber_found depth =
     (if CBS_len inp = 0 then (True, ber_found)
      else case CBS_get_any_ber_asn1_element inp of
             (None, inp) \<Rightarrow> (False, ber_found)
           | (Some (contents, tag, header_len), inp) \<Rightarrow>
               if is_indefinite contents header_len then (True, True)
               else if tag AND CBS_ASN1_CONSTRUCTED \<noteq> 0 then
                 if is_string_type tag then (True, True)
                 else (case CBS_skip contents header_len of
                         (False, contents) \<Rightarrow> (False, ber_found)
                       | (True, contents) \<Rightarrow>
                           if depth + 1 > kMaxDepth then (False, ber_found)
                           else (case find_ber_loop contents False (depth + 1) of
                                   (False, ber_found) \<Rightarrow> (False, ber_found)
                                 | (True, ber_found) \<Rightarrow> find_ber_loop inp ber_found depth))
               else find_ber_loop inp ber_found depth)"
  by pat_completeness auto
termination
  by (relation "measure (\<lambda>(inp, _, _). length inp)")
    (auto dest!: ber_element_shrinks [OF sym] simp: CBS_skip_def cbs_get_def split: if_splits)

declare find_ber_loop.simps [simp del]

definition cbs_find_ber :: "cbs \<Rightarrow> nat \<Rightarrow> bool \<times> bool" where
  "cbs_find_ber orig_in depth =
     (if depth > kMaxDepth then (False, False) else find_ber_loop orig_in False depth)"

definition is_eoc :: "nat \<Rightarrow> cbs \<Rightarrow> bool" where
  "is_eoc header_len contents \<longleftrightarrow>
     header_len = 2 \<and> CBS_len contents = 2 \<and> OPENSSL_memcmp (CBS_data contents) [0, 0] 2 = 0"

text \<open>
  Where the contents of an element go: with a string tag, to \<open>out\<close> itself, if the tag
  matches up to the constructed bit; otherwise to a new child of \<open>out\<close>, whose tag loses the
  constructed bit if it is a constructed string. The result: the depth of the target builder
  and the string tag for the children.
\<close>

definition convert_target ::
  "nat \<Rightarrow> u32 \<Rightarrow> u32 \<Rightarrow> cbb_st \<Rightarrow> (nat \<times> u32) option \<times> cbb_st" where
  "convert_target d string_tag tag st =
     (if string_tag \<noteq> 0 then
        if tag AND NOT CBS_ASN1_CONSTRUCTED \<noteq> string_tag then (None, st)
        else (Some (d, string_tag), st)
      else
        let constructed_string = (tag AND CBS_ASN1_CONSTRUCTED \<noteq> 0 \<and> is_string_type tag);
            out_tag = (if constructed_string then tag AND NOT CBS_ASN1_CONSTRUCTED else tag);
            child_string_tag = (if constructed_string then out_tag else string_tag)
        in case CBB_add_asn1 d out_tag st of
             (False, st) \<Rightarrow> (None, st)
           | (True, st) \<Rightarrow> (Some (Suc d, child_string_tag), st))"

text \<open>\<open>cbs_convert_ber\<close>: the return value, what is left of \<open>in\<close>, and the builder.\<close>

function cbs_convert_ber ::
  "cbs \<Rightarrow> nat \<Rightarrow> u32 \<Rightarrow> bool \<Rightarrow> nat \<Rightarrow> cbb_st \<Rightarrow> bool \<times> cbs \<times> cbb_st" where
  "cbs_convert_ber inp d string_tag looking_for_eoc depth st =
     (if depth > kMaxDepth then (False, inp, st)
      else if CBS_len inp = 0 then (\<not> looking_for_eoc, inp, st)
      else case CBS_get_any_ber_asn1_element inp of
             (None, inp) \<Rightarrow> (False, inp, st)
           | (Some (contents, tag, header_len), inp) \<Rightarrow>
               if is_eoc header_len contents then (looking_for_eoc, inp, st)
               else (case convert_target d string_tag tag st of
                       (None, st) \<Rightarrow> (False, inp, st)
                     | (Some (dc, child_string_tag), st) \<Rightarrow>
                         if is_indefinite contents header_len then
                           (case cbs_convert_ber inp dc child_string_tag True (depth + 1) st of
                              (False, inp, st) \<Rightarrow> (False, inp, st)
                            | (True, inp, st) \<Rightarrow>
                                (case CBB_flush d st of
                                   (False, st) \<Rightarrow> (False, inp, st)
                                 | (True, st) \<Rightarrow>
                                     cbs_convert_ber inp d string_tag looking_for_eoc depth st))
                         else
                           (case CBS_skip contents header_len of
                              (False, contents) \<Rightarrow> (False, inp, st)
                            | (True, contents) \<Rightarrow>
                                (case (if tag AND CBS_ASN1_CONSTRUCTED \<noteq> 0
                                       then (case cbs_convert_ber contents dc child_string_tag False (depth + 1) st of
                                               (ok, contents, st) \<Rightarrow> (ok, st))
                                       else CBB_add_bytes dc (CBS_data contents) st) of
                                   (False, st) \<Rightarrow> (False, inp, st)
                                 | (True, st) \<Rightarrow>
                                     (case CBB_flush d st of
                                        (False, st) \<Rightarrow> (False, inp, st)
                                      | (True, st) \<Rightarrow>
                                          cbs_convert_ber inp d string_tag looking_for_eoc depth st)))))"
  by pat_completeness auto

text \<open>No call leaves more input than it was given.\<close>

lemma convert_ber_shrinks:
  "cbs_convert_ber_dom (inp, d, string_tag, looking_for_eoc, depth, st) \<Longrightarrow>
     cbs_convert_ber inp d string_tag looking_for_eoc depth st = (ok, inp', st') \<Longrightarrow>
     length inp' \<le> length inp"
proof (induction arbitrary: ok inp' st' rule: cbs_convert_ber.pinduct)
  case (1 inp d string_tag looking_for_eoc depth st)
  note step = cbs_convert_ber.psimps [OF 1(1)]
  obtain r inp1 where e: "CBS_get_any_ber_asn1_element inp = (r, inp1)" by fastforce
  have le: "length inp1 \<le> length inp" by (rule any_ber_element.length_le [OF e])
  show ?case
  proof (cases "depth > kMaxDepth \<or> CBS_len inp = 0 \<or> r = None")
    case True
    with "1.prems" le show ?thesis unfolding step by (auto simp: e split: if_splits)
  next
    case False
    then obtain contents tag header_len where r: "r = Some (contents, tag, header_len)" by auto
    obtain tgt st1 where t: "convert_target d string_tag tag st = (tgt, st1)" by fastforce
    show ?thesis
    proof (cases "is_eoc header_len contents \<or> tgt = None")
      case True
      with "1.prems" le False show ?thesis unfolding step by (auto simp: e r t split: if_splits)
    next
      case cont: False
      then obtain dc cst where tgt: "tgt = Some (dc, cst)" by auto
      from False have g: "\<not> depth > kMaxDepth" "CBS_len inp \<noteq> 0" "\<not> is_eoc header_len contents"
        using cont by auto
      note IH = "1.IH" [OF g(1,2) e [symmetric] r refl refl g(3) t [symmetric] tgt refl]
      show ?thesis
      proof (cases "is_indefinite contents header_len")
        case True
        obtain ok1 inp2 st2 where n: "cbs_convert_ber inp1 dc cst True (depth + 1) st1 = (ok1, inp2, st2)"
          by (metis prod_cases3)
        have n_le: "length inp2 \<le> length inp1" by (rule IH(1) [OF True n])
        obtain ok2 st3 where f: "CBB_flush d st2 = (ok2, st3)" by fastforce
        show ?thesis
          using "1.prems" IH(2) [OF True n [symmetric] _ refl f [symmetric]] n_le le True g
          unfolding step by (auto simp: e r t tgt n [simplified] f split: if_splits bool.splits)
      next
        case def: False
        obtain ok1 c1 where sk: "CBS_skip contents header_len = (ok1, c1)" by fastforce
        define body where "body = (if tag AND CBS_ASN1_CONSTRUCTED \<noteq> 0
          then (case cbs_convert_ber c1 dc cst False (depth + 1) st1 of (ok, contents, st) \<Rightarrow> (ok, st))
          else CBB_add_bytes dc (CBS_data c1) st1)"
        obtain ok2 st2 where b: "body = (ok2, st2)" by fastforce
        obtain ok3 st3 where f: "CBB_flush d st2 = (ok3, st3)" by fastforce
        show ?thesis
          using "1.prems" IH(4) [OF def sk [symmetric] _ b [unfolded body_def, symmetric] _ f [symmetric]]
            le def g b [unfolded body_def]
          unfolding step by (auto simp: e r t tgt sk f split: if_splits bool.splits)
      qed
    qed
  qed
qed

termination cbs_convert_ber
proof (relation "measure (\<lambda>(inp, _). length inp)")
qed (auto dest!: ber_element_shrinks [OF sym] convert_ber_shrinks [OF _ sym]
    simp: CBS_skip_def cbs_get_def split: if_splits)

declare cbs_convert_ber.simps [simp del]

text \<open>
  The result of \<open>CBS_asn1_ber_to_der\<close> is \<open>out\<close> and \<open>*out_storage\<close>; \<open>m\<close> is the allocator and \<open>f\<close>
  the contents of fresh memory, as for \<open>CBB_init\<close>.
\<close>

definition CBS_asn1_ber_to_der ::
  "(nat \<Rightarrow> bool) \<Rightarrow> (nat \<Rightarrow> u8) \<Rightarrow> cbs \<Rightarrow> (cbs \<times> bytes option) option \<times> cbs" where
  "CBS_asn1_ber_to_der m f inp =
     (case cbs_find_ber inp 0 of
        (False, _) \<Rightarrow> (None, inp)
      | (True, conversion_needed) \<Rightarrow>
          if \<not> conversion_needed then
            (case CBS_get_any_asn1_element inp of
               (None, inp) \<Rightarrow> (None, inp)
             | (Some (out, _, _), inp) \<Rightarrow> (Some (out, None), inp))
          else
            (case CBB_init m f (CBS_len inp) of
               (False, cbb) \<Rightarrow> (None, inp)
             | (True, cbb) \<Rightarrow>
                 (case cbs_convert_ber inp 0 0 False 0 cbb of
                    (False, inp, cbb) \<Rightarrow> (None, inp)
                  | (True, inp, cbb) \<Rightarrow>
                      (case CBB_finish 0 True cbb of
                         (None, cbb) \<Rightarrow> (None, inp)
                       | (Some out_storage, cbb) \<Rightarrow> (Some (out_storage, Some out_storage), inp)))))"

function implicit_string_loop :: "cbs \<Rightarrow> u32 \<Rightarrow> cbb_st \<Rightarrow> bool \<times> cbb_st" where
  "implicit_string_loop child inner_tag result =
     (if CBS_len child = 0 then (True, result)
      else case CBS_get_asn1 child inner_tag of
             (None, child) \<Rightarrow> (False, result)
           | (Some chunk, child) \<Rightarrow>
               (case CBB_add_bytes 0 (CBS_data chunk) result of
                  (False, result) \<Rightarrow> (False, result)
                | (True, result) \<Rightarrow> implicit_string_loop child inner_tag result))"
  by pat_completeness auto
termination
  by (relation "measure (\<lambda>(child, _). length child)") (auto dest!: asn1.consumes [OF sym])

declare implicit_string_loop.simps [simp del]

definition CBS_get_asn1_implicit_string ::
  "(nat \<Rightarrow> bool) \<Rightarrow> (nat \<Rightarrow> u8) \<Rightarrow> cbs \<Rightarrow> u32 \<Rightarrow> u32 \<Rightarrow> (cbs \<times> bytes option) option \<times> cbs" where
  "CBS_get_asn1_implicit_string m f inp outer_tag inner_tag =
     (if CBS_peek_asn1_tag inp outer_tag then
        (case CBS_get_asn1 inp outer_tag of
           (None, inp) \<Rightarrow> (None, inp)
         | (Some out, inp) \<Rightarrow> (Some (out, None), inp))
      else
        (case CBB_init m f (CBS_len inp) of
           (False, result) \<Rightarrow> (None, inp)
         | (True, result) \<Rightarrow>
             (case CBS_get_asn1 inp (outer_tag OR CBS_ASN1_CONSTRUCTED) of
                (None, inp) \<Rightarrow> (None, inp)
              | (Some child, inp) \<Rightarrow>
                  (case implicit_string_loop child inner_tag result of
                     (False, result) \<Rightarrow> (None, inp)
                   | (True, result) \<Rightarrow>
                       (case CBB_finish 0 True result of
                          (None, result) \<Rightarrow> (None, inp)
                        | (Some d, result) \<Rightarrow> (Some (d, Some d), inp))))))"

end
