(* ===== verification/BER_Laws.thy ===== *)
theory BER_Laws
  imports BER
begin

text \<open>
  What the BER converter computes. A BER encoding is a forest of elements with definite or
  indefinite lengths and constructed strings; its DER form makes one primitive string of the
  segments of each constructed string and re-encodes every length. Whenever \<open>cbs_convert_ber\<close>
  succeeds, its input was such a forest, and the builder holds its DER form if no BIT STRING is
  in segments.
\<close>

unbundle bit_operations_syntax

section \<open>BER forests and their DER form\<close>

datatype ber = Prim u32 bytes | Con u32 bool "ber list"

fun ber_bytes :: "ber \<Rightarrow> bytes" where
  "ber_bytes (Prim tag c) = der_encode tag c"
| "ber_bytes (Con tag False ts) = der_encode tag (concat (map ber_bytes ts))"
| "ber_bytes (Con tag True ts) = indefinite tag @ concat (map ber_bytes ts) @ [0, 0]"

definition child_tag :: "u32 \<Rightarrow> u32 \<Rightarrow> u32" where
  "child_tag stag tag =
     (if stag \<noteq> 0 then stag
      else if is_string_type tag then tag AND NOT CBS_ASN1_CONSTRUCTED else 0)"

text \<open>\<open>ber_wf stag t\<close>: the tags say which elements are constructed, and within a string of
  type \<open>stag\<close> (if not 0) every element has that type.\<close>

fun ber_wf :: "u32 \<Rightarrow> ber \<Rightarrow> bool" where
  "ber_wf stag (Prim tag c) \<longleftrightarrow>
     tag AND CBS_ASN1_CONSTRUCTED = 0 \<and>
     (stag \<noteq> 0 \<longrightarrow> tag AND NOT CBS_ASN1_CONSTRUCTED = stag)"
| "ber_wf stag (Con tag indef ts) \<longleftrightarrow>
     tag AND CBS_ASN1_CONSTRUCTED \<noteq> 0 \<and>
     (stag \<noteq> 0 \<longrightarrow> tag AND NOT CBS_ASN1_CONSTRUCTED = stag) \<and>
     list_all (ber_wf (child_tag stag tag)) ts"

fun fragments :: "ber \<Rightarrow> bytes" where
  "fragments (Prim tag c) = c"
| "fragments (Con tag indef ts) = concat (map fragments ts)"

text \<open>What the code makes of an element: the contents of all segments of a constructed string, one
  after the other.\<close>

fun code_der :: "ber \<Rightarrow> der_tree" where
  "code_der (Prim tag c) = Primitive tag c"
| "code_der (Con tag indef ts) =
     (if is_string_type tag
      then Primitive (tag AND NOT CBS_ASN1_CONSTRUCTED) (concat (map fragments ts))
      else Constructed tag (map code_der ts))"

text \<open>The DER form of X.690: a BIT STRING starts with the number of unused bits of its last octet, so
  joining its segments keeps that octet of the last segment and drops those of the others
  (8.6.4); the segments of the other strings are put together as they are (8.7.3, 8.23.3).\<close>

fun segments :: "ber \<Rightarrow> bytes list" where
  "segments (Prim tag c) = [c]"
| "segments (Con tag indef ts) = concat (map segments ts)"

definition join_segments :: "u32 \<Rightarrow> bytes list \<Rightarrow> bytes" where
  "join_segments stag cs =
     (if stag = CBS_ASN1_BITSTRING then (if cs = [] then [0] else hd (List.last cs) # concat (map tl cs))
      else concat cs)"

fun to_der :: "ber \<Rightarrow> der_tree" where
  "to_der (Prim tag c) = Primitive tag c"
| "to_der (Con tag indef ts) =
     (if is_string_type tag
      then let stag = tag AND NOT CBS_ASN1_CONSTRUCTED in
        Primitive stag (join_segments stag (concat (map segments ts)))
      else Constructed tag (map to_der ts))"

fun no_split_bits :: "ber \<Rightarrow> bool" where
  "no_split_bits (Prim tag c) \<longleftrightarrow> True"
| "no_split_bits (Con tag indef ts) \<longleftrightarrow>
     tag AND NOT CBS_ASN1_CONSTRUCTED \<noteq> CBS_ASN1_BITSTRING \<and> list_all no_split_bits ts"

lemma concat_of_concat: "concat (concat xss) = concat (map concat xss)"
  by (induction xss) simp_all

lemma concat_segments: "concat (segments t) = fragments t"
  by (induction t) (simp_all add: concat_of_concat comp_def cong: map_cong)

lemma code_der_is_der: "no_split_bits t \<Longrightarrow> code_der t = to_der t"
proof (induction t)
  case (Con tag indef ts)
  have "concat (concat (map segments ts)) = concat (map fragments ts)"
    by (simp add: concat_of_concat comp_def concat_segments)
  with Con show ?case by (auto simp: join_segments_def Let_def list_all_iff)
qed simp

definition der_form :: "u32 \<Rightarrow> ber \<Rightarrow> bytes" where
  "der_form stag t = (if stag \<noteq> 0 then fragments t else tree_bytes (code_der t))"

section \<open>Elements\<close>

lemma memcmp_zeros: "length c = 2 \<Longrightarrow> OPENSSL_memcmp c [0, 0] 2 = 0 \<longleftrightarrow> c = [0, 0 :: u8]"
proof -
  assume "length c = 2"
  then obtain a b where c: "c = [a, b]" by (auto simp: length_Suc_conv numeral_2_eq_2)
  have "(a :: u8) < 0 \<longleftrightarrow> False" "(b :: u8) < 0 \<longleftrightarrow> False" by simp_all
  then show ?thesis unfolding c numeral_2_eq_2 by (auto simp: word_gt_0)
qed

lemma is_eoc_iff: "is_eoc hl c \<longleftrightarrow> hl = 2 \<and> c = [0, 0]"
  by (auto simp: is_eoc_def CBS_len_def CBS_data_def memcmp_zeros)

lemma element_view:
  assumes "CBS_get_any_ber_asn1_element s = (Some (out, tag, hl), s')"
  obtains (definite) c where "s = der_encode tag c @ s'" "out = der_encode tag c" "length c < 2 ^ 32"
      "CBS_skip out hl = (True, c)" "\<not> is_indefinite out hl"
  | (indefinite) "s = indefinite tag @ s'" "tag AND CBS_ASN1_CONSTRUCTED \<noteq> 0"
      "is_indefinite out hl" "\<not> is_eoc hl out"
proof -
  from assms consider (d) c where "s = out @ s'" "out = der_encode tag c" "length c < 2 ^ 32" "hl = length out - length c"
    | (i) "s = out @ s'" "tag AND CBS_ASN1_CONSTRUCTED \<noteq> 0" "out = indefinite tag" "hl = length out"
    by (auto simp: any_ber_element_iff)
  then show thesis
  proof cases
    case d
    have len: "length c \<le> length out" by (simp add: d(2) der_encode_def)
    have "\<not> is_indefinite out hl"
    proof
      assume i: "is_indefinite out hl"
      then have "length c = 0" using d(4) len unfolding is_indefinite_def CBS_len_def by linarith
      then have "c = []" by simp
      then have "out = der_tag tag @ [0]" using d(2) by (simp add: der_encode_def der_length_def)
      with i show False by (auto simp: is_indefinite_def CBS_len_def CBS_data_def nth_append)
    qed
    moreover have "CBS_skip out hl = (True, c)"
      using d(4) by (simp add: CBS_skip_def cbs_get_def d(2) der_encode_def)
    ultimately show thesis using d(1-3) by (intro definite) simp_all
  next
    case i
    then show thesis
      by (intro indefinite)
        (auto simp: is_indefinite_def is_eoc_iff CBS_len_def CBS_data_def indefinite_def nth_append)
  qed
qed

section \<open>Filling a child\<close>

text \<open>What a level of the walk does to the frames: nothing if it has no element, otherwise
  it appends and flushes.\<close>

definition spec_level :: "nat \<Rightarrow> u32 \<Rightarrow> ber list \<Rightarrow> frames \<Rightarrow> frames option" where
  "spec_level d stag ts =
     (if ts = [] then Some else spec_append d (concat (map (der_form stag) ts)))"

definition effect :: "(frames \<Rightarrow> frames option) \<Rightarrow> cbb_st \<Rightarrow> cbb_st \<Rightarrow> bool" where
  "effect sp st st' \<longleftrightarrow>
     (\<forall>fs. represents st fs \<longrightarrow>
       (\<exists>fs'. sp fs = Some fs' \<and> represents st' fs' \<and> env_kept st st'))"

lemma effect_refl: "effect Some st st"
  by (auto simp: effect_def intro: env_kept_refl)

lemma effect_operation:
  assumes "cbb_operation run sp" and "run st = (True, st')"
  shows "effect sp st st'"
  using cbb_operation.sound [OF assms(1) _ assms(2)] by (simp add: effect_def)

lemma effect_trans:
  assumes "effect s st st1" and "effect t st1 st2"
  shows "effect (spec_seq s t) st st2"
  unfolding effect_def
proof (intro allI impI)
  fix fs assume "represents st fs"
  with assms obtain fs1 fs2 where "s fs = Some fs1" "env_kept st st1" "t fs1 = Some fs2"
    "represents st2 fs2" "env_kept st1 st2" unfolding effect_def by blast
  then show "\<exists>fs'. spec_seq s t fs = Some fs' \<and> represents st2 fs' \<and> env_kept st st2"
    by (auto simp: spec_seq_def intro: env_kept_trans)
qed

lemma effect_mono:
  assumes "effect s st st'" and "\<And>fs fs'. s fs = Some fs' \<Longrightarrow> t fs = Some fs'"
  shows "effect t st st'"
  using assms unfolding effect_def by blast

lemma spec_fill_child:
  assumes "spec_seq (spec_open d (der_tag tag) Asn1)
      (spec_seq (if data = [] \<and> b then Some else spec_append (Suc d) data) (spec_append d [])) fs = Some fs'"
  shows "spec_append d (der_encode tag data) fs = Some fs'"
proof (cases "length data \<le> 0xfffffffe")
  case True
  then have seal: "seal Asn1 data = Some (der_length (length data) @ data)" by simp
  show ?thesis
  proof (cases "data = [] \<and> b")
    case True
    have "seal Asn1 [] = Some (der_length 0)" by simp
    with True assms show ?thesis
      by (simp add: spec_open_close der_encode_def del: seal.simps)
  next
    case False
    with assms show ?thesis
      by (simp add: spec_open_fill_close [OF seal] der_encode_def del: seal.simps)
  qed
next
  case False
  then have ne: "data \<noteq> []" by auto
  show ?thesis
  proof (cases "d < length fs")
    case True
    then obtain xs k c ys where fs: "fs = xs @ (k, c) # ys" "length xs = d" by (rule frame_split)
    have e1: "edit (Suc (length xs)) f (xs @ (k, c') # ys') = edit (Suc (length xs)) f ((xs @ [(k, c')]) @ ys')" for c' ys' f
      by simp
    have e2: "edit (length xs) f ((xs @ [(k, c')]) @ [z]) = edit (length xs) f (xs @ (k, c') # [z])" for c' z f
      by simp
    from assms fs False ne show ?thesis
      by (auto simp: spec_seq_def spec_append_def spec_open_def edit_split e1 e2 split: option.splits
          simp del: append_assoc)
  qed (use assms in \<open>simp add: spec_seq_def spec_append_def spec_open_def edit_def\<close>)
qed

section \<open>Soundness of the conversion\<close>

definition eoc_bytes :: "bool \<Rightarrow> bytes" where
  "eoc_bytes looking_for_eoc = (if looking_for_eoc then [0, 0] else [])"

lemma target_effect:
  assumes "convert_target d stag tag st = (Some (dc, cst), st1)"
    and "effect (if data = [] \<and> b then Some else spec_append dc data) st1 st2"
    and "CBB_flush d st2 = (True, st3)"
  shows "(stag \<noteq> 0 \<longrightarrow> tag AND NOT CBS_ASN1_CONSTRUCTED = stag) \<and>
    effect (spec_append d (if stag \<noteq> 0 then data else
      der_encode (if tag AND CBS_ASN1_CONSTRUCTED \<noteq> 0 \<and> is_string_type tag
                  then tag AND NOT CBS_ASN1_CONSTRUCTED else tag) data)) st st3"
proof (cases "stag = 0")
  case False
  with assms(1) have "tag AND NOT CBS_ASN1_CONSTRUCTED = stag" "dc = d" "st1 = st"
    by (auto simp: convert_target_def split: if_splits)
  moreover have "effect (spec_append d []) st2 st3"
    using effect_operation [OF flush.cbb_operation_axioms assms(3)] .
  ultimately show ?thesis
    using False effect_trans [OF assms(2)] spec_append_append [of d data "[]"]
    by (cases "data = [] \<and> b") fastforce+
next
  case True
  let ?t = "if tag AND CBS_ASN1_CONSTRUCTED \<noteq> 0 \<and> is_string_type tag
    then tag AND NOT CBS_ASN1_CONSTRUCTED else tag"
  from True assms(1) have a: "CBB_add_asn1 d ?t st = (True, st1)" and dc: "dc = Suc d"
    by (auto simp: convert_target_def Let_def split: prod.splits bool.splits)
  have "effect (spec_seq (spec_open d (der_tag ?t) Asn1)
      (spec_seq (if data = [] \<and> b then Some else spec_append (Suc d) data) (spec_append d []))) st st3"
    using effect_trans [OF effect_operation [OF add_asn1_operation a]
        effect_trans [OF assms(2) [unfolded dc] effect_operation [OF flush.cbb_operation_axioms assms(3)]]] .
  from effect_mono [OF this spec_fill_child] True show ?thesis by simp
qed

lemma target_child_tag:
  "convert_target d stag tag st = (Some (dc, cst), st1) \<Longrightarrow> tag AND CBS_ASN1_CONSTRUCTED \<noteq> 0 \<Longrightarrow>
     cst = child_tag stag tag"
  by (auto simp: convert_target_def child_tag_def Let_def split: if_splits prod.splits bool.splits)

lemma string_type_nonzero: "is_string_type tag \<Longrightarrow> tag AND NOT CBS_ASN1_CONSTRUCTED \<noteq> 0"
  by (auto simp: is_string_type_def CBS_ASN1_BITSTRING_def CBS_ASN1_OCTETSTRING_def
      CBS_ASN1_UTF8STRING_def CBS_ASN1_NUMERICSTRING_def CBS_ASN1_PRINTABLESTRING_def
      CBS_ASN1_T61STRING_def CBS_ASN1_VIDEOTEXSTRING_def CBS_ASN1_IA5STRING_def
      CBS_ASN1_GRAPHICSTRING_def CBS_ASN1_VISIBLESTRING_def CBS_ASN1_GENERALSTRING_def
      CBS_ASN1_UNIVERSALSTRING_def CBS_ASN1_BMPSTRING_def)

lemma der_form_Con:
  "tag AND CBS_ASN1_CONSTRUCTED \<noteq> 0 \<Longrightarrow> der_form stag (Con tag indef us) =
     (if stag \<noteq> 0 then concat (map (der_form (child_tag stag tag)) us)
      else der_encode (if tag AND CBS_ASN1_CONSTRUCTED \<noteq> 0 \<and> is_string_type tag
                       then tag AND NOT CBS_ASN1_CONSTRUCTED else tag)
             (concat (map (der_form (child_tag stag tag)) us)))"
  using string_type_nonzero [of tag]
  by (auto simp: der_form_def [abs_def] child_tag_def comp_def)

lemma der_form_Prim:
  "tag AND CBS_ASN1_CONSTRUCTED = 0 \<Longrightarrow> der_form stag (Prim tag c) =
     (if stag \<noteq> 0 then c
      else der_encode (if tag AND CBS_ASN1_CONSTRUCTED \<noteq> 0 \<and> is_string_type tag
                       then tag AND NOT CBS_ASN1_CONSTRUCTED else tag) c)"
  by (simp add: der_form_def)

lemma spec_level_Cons:
  assumes "effect (spec_append d (der_form stag t)) st st1" and "effect (spec_level d stag ts) st1 st2"
  shows "effect (spec_level d stag (t # ts)) st st2"
  using effect_trans [OF assms]
  by (cases "ts = []") (simp_all add: spec_level_def spec_append_append)

lemma level_data:
  "effect (spec_level d stag us) st st' \<Longrightarrow>
     effect (if concat (map (der_form stag) us) = [] \<and> us = [] then Some
             else spec_append d (concat (map (der_form stag) us))) st st'"
  by (simp add: spec_level_def split: if_splits)

text \<open>\<open>sound_run inp d stag eoc st inp' st'\<close>: the claim about one successful call.\<close>

definition sound_run ::
  "cbs \<Rightarrow> nat \<Rightarrow> u32 \<Rightarrow> bool \<Rightarrow> cbb_st \<Rightarrow> cbs \<Rightarrow> cbb_st \<Rightarrow> bool" where
  "sound_run inp d stag eoc st inp' st' \<longleftrightarrow>
     (\<exists>ts. list_all (ber_wf stag) ts \<and> inp = concat (map ber_bytes ts) @ eoc_bytes eoc @ inp' \<and>
        (\<not> eoc \<longrightarrow> inp' = []) \<and> effect (spec_level d stag ts) st st')"

lemma sound_run_Nil: "inp = eoc_bytes eoc @ inp' \<Longrightarrow> (\<not> eoc \<longrightarrow> inp' = []) \<Longrightarrow> sound_run inp d stag eoc st inp' st"
  unfolding sound_run_def by (intro exI [of _ "[]"]) (simp add: spec_level_def effect_refl)

lemma sound_run_Cons:
  assumes "ber_wf stag t" and "effect (spec_append d (der_form stag t)) st st1"
    and "sound_run inp1 d stag eoc st1 inp' st'" and "inp = ber_bytes t @ inp1"
  shows "sound_run inp d stag eoc st inp' st'"
proof -
  from assms(3) obtain ts where ts: "list_all (ber_wf stag) ts"
    "inp1 = concat (map ber_bytes ts) @ eoc_bytes eoc @ inp'" "\<not> eoc \<longrightarrow> inp' = []"
    "effect (spec_level d stag ts) st1 st'" unfolding sound_run_def by blast
  show ?thesis unfolding sound_run_def
    using ts assms(1,4) spec_level_Cons [OF assms(2) ts(4)] by (intro exI [of _ "t # ts"]) simp
qed

lemma convert_sound:
  "cbs_convert_ber inp d stag eoc depth st = (True, inp', st') \<Longrightarrow> sound_run inp d stag eoc st inp' st'"
proof (induction inp d stag eoc depth st arbitrary: inp' st' rule: cbs_convert_ber.induct)
  case (1 inp d stag eoc depth st)
  note step = cbs_convert_ber.simps [of inp d stag eoc depth st]
  obtain r inp1 where e: "CBS_get_any_ber_asn1_element inp = (r, inp1)" by fastforce
  show ?case
  proof (cases "depth > kMaxDepth \<or> CBS_len inp = 0 \<or> r = None")
    case True
    with "1.prems" have "inp = eoc_bytes eoc @ inp' \<and> (\<not> eoc \<longrightarrow> inp' = []) \<and> st' = st"
      unfolding step by (auto simp: e eoc_bytes_def CBS_len_def split: if_splits)
    then show ?thesis by (auto intro: sound_run_Nil)
  next
    case False
    then obtain contents tag header_len where r: "r = Some (contents, tag, header_len)" by auto
    note el = e [unfolded r]
    obtain tgt st1 where t: "convert_target d stag tag st = (tgt, st1)" by fastforce
    show ?thesis
    proof (cases "is_eoc header_len contents")
      case True
      from "1.prems" True False have "eoc" "inp' = inp1" "st' = st"
        unfolding step by (auto simp: e r)
      moreover have "inp = [0, 0] @ inp1"
        using True el by (auto simp: is_eoc_iff any_ber_element_iff)
      ultimately show ?thesis by (auto intro: sound_run_Nil simp: eoc_bytes_def)
    next
      case ne: False
      from "1.prems" False ne obtain dc cst where tgt: "tgt = Some (dc, cst)"
        unfolding step by (cases tgt) (auto simp: e r t)
      from False have g: "\<not> depth > kMaxDepth" "CBS_len inp \<noteq> 0" by auto
      note IH = "1.IH" [OF g(1,2) e [symmetric] r refl refl ne t [symmetric] tgt refl]
      from el show ?thesis
      proof (cases rule: element_view)
        case indefinite
        obtain ok1 inp2 st2 where n: "cbs_convert_ber inp1 dc cst True (depth + 1) st1 = (ok1, inp2, st2)"
          by (metis prod_cases3)
        obtain ok2 st3 where f: "CBB_flush d st2 = (ok2, st3)" by fastforce
        from "1.prems" False ne indefinite(3) have ok: "ok1" "ok2"
          and rest: "cbs_convert_ber inp2 d stag eoc depth st3 = (True, inp', st')"
          unfolding step by (auto simp: e r t tgt n [simplified] f split: if_splits bool.splits)
        have "sound_run inp1 dc cst True st1 inp2 st2"
          using IH(1) [OF indefinite(3)] n ok by simp
        then obtain us where us: "list_all (ber_wf cst) us" "inp1 = concat (map ber_bytes us) @ [0, 0] @ inp2"
          "effect (spec_level dc cst us) st1 st2" unfolding sound_run_def eoc_bytes_def by auto
        have cst: "cst = child_tag stag tag" using target_child_tag t tgt indefinite(2) by blast
        have "sound_run inp2 d stag eoc st3 inp' st'"
          by (rule IH(2) [OF indefinite(3) n [symmetric] _ refl f [symmetric] _ rest]) (use ok in simp_all)
        moreover have "ber_wf stag (Con tag True us)" "effect (spec_append d (der_form stag (Con tag True us))) st st3"
          using target_effect [OF t [unfolded tgt] level_data [OF us(3)]] f ok indefinite(2) us(1)
          by (auto simp: cst der_form_Con)
        moreover have "inp = ber_bytes (Con tag True us) @ inp2" using indefinite(1) us(2) by simp
        ultimately show ?thesis by (blast intro: sound_run_Cons)
      next
        case (definite c)
        define body where "body = (if tag AND CBS_ASN1_CONSTRUCTED \<noteq> 0
          then (case cbs_convert_ber c dc cst False (depth + 1) st1 of (ok, contents, st) \<Rightarrow> (ok, st))
          else CBB_add_bytes dc (CBS_data c) st1)"
        obtain ok2 st2 where b: "body = (ok2, st2)" by fastforce
        obtain ok3 st3 where f: "CBB_flush d st2 = (ok3, st3)" by fastforce
        from "1.prems" False ne definite(4,5) b [unfolded body_def] have ok: "ok2" "ok3"
          and rest: "cbs_convert_ber inp1 d stag eoc depth st3 = (True, inp', st')"
          unfolding step by (auto simp: e r t tgt f split: if_splits bool.splits)
        have run: "sound_run inp1 d stag eoc st3 inp' st'"
          by (rule IH(4) [OF definite(5) definite(4) [symmetric] _ b [unfolded body_def, symmetric] _ f [symmetric] _ rest])
            (use ok in simp_all)
        show ?thesis
        proof (cases "tag AND CBS_ASN1_CONSTRUCTED = 0")
          case True
          with b ok have "CBB_add_bytes dc c st1 = (True, st2)" by (simp add: body_def CBS_data_def)
          then have "effect (spec_append dc c) st1 st2"
            by (rule effect_operation [OF add_bytes_operation, rotated]) (use definite(3) in simp)
          then have "effect (if c = [] \<and> False then Some else spec_append dc c) st1 st2" by simp
          with target_effect [OF t [unfolded tgt] this] f ok True
          have "ber_wf stag (Prim tag c)" "effect (spec_append d (der_form stag (Prim tag c))) st st3"
            by (auto simp: der_form_Prim)
          with run definite(1) ber_bytes.simps(1) [of tag c] show ?thesis
            by (metis sound_run_Cons)
        next
          case False
          obtain ok1 c1 st1' where n: "cbs_convert_ber c dc cst False (depth + 1) st1 = (ok1, c1, st1')"
            by (metis prod_cases3)
          with b ok False have "ok1" "st1' = st2" by (auto simp: body_def)
          with n have "cbs_convert_ber c dc cst False (depth + 1) st1 = (True, c1, st2)" by simp
          from IH(3) [OF definite(5) definite(4) [symmetric] _ _ this] False
          have "sound_run c dc cst False st1 c1 st2" by simp
          then obtain us where us: "list_all (ber_wf cst) us" "c = concat (map ber_bytes us)"
            "effect (spec_level dc cst us) st1 st2" unfolding sound_run_def eoc_bytes_def by auto
          have cst: "cst = child_tag stag tag" using target_child_tag t tgt False by blast
          have "ber_wf stag (Con tag False us)" "effect (spec_append d (der_form stag (Con tag False us))) st st3"
            using target_effect [OF t [unfolded tgt] level_data [OF us(3)]] f ok False us(1)
            by (auto simp: cst der_form_Con)
          moreover have "inp = ber_bytes (Con tag False us) @ inp1" using definite(1) us(2) by simp
          ultimately show ?thesis using run by (blast intro: sound_run_Cons)
        qed
      qed
    qed
  qed
qed

section \<open>Completeness of the conversion\<close>

text \<open>\<open>ber_fits n stag t\<close>: nesting at most \<open>n\<close>, lengths in the range of the length octets, and
  no element that looks like an end-of-contents mark.\<close>

fun ber_fits :: "nat \<Rightarrow> u32 \<Rightarrow> ber \<Rightarrow> bool" where
  "ber_fits n stag (Prim tag c) \<longleftrightarrow> (tag \<noteq> 0 \<or> c \<noteq> []) \<and> length c \<le> 0xfffffffe"
| "ber_fits 0 stag (Con tag indef us) \<longleftrightarrow> False"
| "ber_fits (Suc n) stag (Con tag indef us) \<longleftrightarrow>
     list_all (ber_fits n (child_tag stag tag)) us \<and> length (concat (map ber_bytes us)) < 2 ^ 32 \<and>
     length (concat (map (der_form (child_tag stag tag)) us)) \<le> 0xfffffffe"

definition element_converts :: "nat \<Rightarrow> u32 \<Rightarrow> nat \<Rightarrow> ber \<Rightarrow> bool" where
  "element_converts d stag depth t \<longleftrightarrow>
     (\<exists>run. cbb_operation run (spec_append d (der_form stag t)) \<and>
       (\<forall>st st' s eoc. run st = (True, st') \<longrightarrow>
          cbs_convert_ber (ber_bytes t @ s) d stag eoc depth st = cbs_convert_ber s d stag eoc depth st'))"

definition level_converts :: "nat \<Rightarrow> u32 \<Rightarrow> nat \<Rightarrow> ber list \<Rightarrow> bool" where
  "level_converts d stag depth ts \<longleftrightarrow>
     (\<exists>run. cbb_operation run (spec_level d stag ts) \<and>
       (\<forall>st st' eoc rest. run st = (True, st') \<longrightarrow> (\<not> eoc \<longrightarrow> rest = []) \<longrightarrow>
          cbs_convert_ber (concat (map ber_bytes ts) @ eoc_bytes eoc @ rest) d stag eoc depth st = (True, rest, st')))"

lemma der_encode_zeros: "der_encode tag c = [0, 0] \<Longrightarrow> tag = 0 \<and> c = []"
proof -
  assume a: "der_encode tag c = [0, 0]"
  then have "length c < 2 ^ 32" by (auto simp: der_encode_def dest: arg_cong [of _ _ length])
  with a have "CBS_get_any_asn1 [0, 0] = (Some (c, tag), [])" by (simp add: any_asn1_iff)
  moreover have "der_encode 0 [] = [0, 0]" by (simp add: der_encode_def der_tag_def der_length_def)
  then have "CBS_get_any_asn1 [0, 0] = (Some ([], 0), [])" by (simp add: any_asn1_iff)
  ultimately show ?thesis by simp
qed

lemma end_of_contents:
  "depth \<le> kMaxDepth \<Longrightarrow> (\<not> eoc \<longrightarrow> rest = []) \<Longrightarrow>
     cbs_convert_ber (eoc_bytes eoc @ rest) d stag eoc depth st = (True, rest, st)"
proof (cases eoc)
  case True
  have "der_encode 0 [] = [0, 0]" by (simp add: der_encode_def der_tag_def der_length_def)
  then have "CBS_get_any_ber_asn1_element ([0, 0] @ rest) = (Some ([0, 0], 0, 2), rest)"
    unfolding any_ber_element_iff by (auto intro!: exI [of _ "[]"])
  moreover assume "depth \<le> kMaxDepth"
  ultimately show ?thesis using True
    by (subst cbs_convert_ber.simps) (simp add: eoc_bytes_def CBS_len_def is_eoc_iff)
next
  case False
  moreover assume "depth \<le> kMaxDepth" and "\<not> eoc \<longrightarrow> rest = []"
  ultimately show ?thesis by (subst cbs_convert_ber.simps) (simp add: eoc_bytes_def CBS_len_def)
qed

lemma level_of_elements:
  assumes "depth \<le> kMaxDepth" and "list_all (element_converts d stag depth) ts"
  shows "level_converts d stag depth ts"
  using assms(2)
proof (induction ts)
  case Nil
  have "cbb_operation (Pair True) (spec_level d stag [])" by (simp add: spec_level_def operation_return)
  then show ?case unfolding level_converts_def
    using end_of_contents [OF assms(1)] by (auto intro!: exI [of _ "Pair True"])
next
  case (Cons t ts)
  from Cons.prems obtain run1 where 1: "cbb_operation run1 (spec_append d (der_form stag t))"
    "\<And>st st' s eoc. run1 st = (True, st') \<Longrightarrow>
       cbs_convert_ber (ber_bytes t @ s) d stag eoc depth st = cbs_convert_ber s d stag eoc depth st'"
    by (auto simp: element_converts_def)
  from Cons obtain run2 where 2: "cbb_operation run2 (spec_level d stag ts)"
    "\<And>st st' eoc rest. run2 st = (True, st') \<Longrightarrow> (\<not> eoc \<longrightarrow> rest = []) \<Longrightarrow>
       cbs_convert_ber (concat (map ber_bytes ts) @ eoc_bytes eoc @ rest) d stag eoc depth st = (True, rest, st')"
    by (auto simp: level_converts_def)
  have "spec_seq (spec_append d (der_form stag t)) (spec_level d stag ts) = spec_level d stag (t # ts)"
    by (cases "ts = []") (simp_all add: spec_level_def spec_append_append)
  then have op: "cbb_operation (and_then run1 run2) (spec_level d stag (t # ts))"
    using operation_and_then [OF 1(1) 2(1)] by simp
  show ?case unfolding level_converts_def
  proof (intro exI [of _ "and_then run1 run2"] conjI op allI impI)
    fix st st' eoc and rest :: bytes
    assume r: "and_then run1 run2 st = (True, st')" and e: "\<not> eoc \<longrightarrow> rest = []"
    then obtain st1 where "run1 st = (True, st1)" "run2 st1 = (True, st')"
      by (auto simp: and_then_def split: prod.splits bool.splits)
    with 1(2) 2(2) [OF _ e]
    show "cbs_convert_ber (concat (map ber_bytes (t # ts)) @ eoc_bytes eoc @ rest) d stag eoc depth st = (True, rest, st')"
      by simp
  qed
qed

text \<open>The element: choose the target, run the body in it, flush.\<close>

lemma target_operation:
  assumes "stag \<noteq> 0 \<longrightarrow> tag AND NOT CBS_ASN1_CONSTRUCTED = stag"
    and "length data \<le> 0xfffffffe"
    and "cbb_operation body (if data = [] \<and> b then Some else spec_append (if stag \<noteq> 0 then d else Suc d) data)"
  shows "\<exists>run.
    cbb_operation run (spec_append d (if stag \<noteq> 0 then data else
       der_encode (if tag AND CBS_ASN1_CONSTRUCTED \<noteq> 0 \<and> is_string_type tag
                   then tag AND NOT CBS_ASN1_CONSTRUCTED else tag) data)) \<and>
    (\<forall>st st3. run st = (True, st3) \<longrightarrow> (\<exists>st1 st2 cst. (tag AND CBS_ASN1_CONSTRUCTED \<noteq> 0 \<longrightarrow> cst = child_tag stag tag) \<and>
      convert_target d stag tag st = (Some (if stag \<noteq> 0 then d else Suc d, cst), st1) \<and>
      body st1 = (True, st2) \<and> CBB_flush d st2 = (True, st3)))"
proof (cases "stag = 0")
  case False
  have eq: "spec_seq (if data = [] \<and> b then Some else spec_append d data) (spec_append d []) = spec_append d data"
    by (simp add: spec_append_append)
  have "cbb_operation (and_then body (CBB_flush d)) (spec_append d data)"
  proof -
    have "cbb_operation body (if data = [] \<and> b then Some else spec_append d data)"
      using assms(3) unfolding if_P [OF False] .
    from operation_and_then [OF this flush.cbb_operation_axioms [of d]] show ?thesis unfolding eq .
  qed
  moreover have "\<exists>st1 st2 cst. (tag AND CBS_ASN1_CONSTRUCTED \<noteq> 0 \<longrightarrow> cst = child_tag stag tag) \<and>
      convert_target d stag tag st = (Some (d, cst), st1) \<and> body st1 = (True, st2) \<and> CBB_flush d st2 = (True, st3)"
    if "and_then body (CBB_flush d) st = (True, st3)" for st st3
    using that False assms(1)
    by (auto simp: and_then_def convert_target_def child_tag_def split: prod.splits bool.splits)
  ultimately show ?thesis using False by (intro exI [of _ "and_then body (CBB_flush d)"]) simp
next
  case True
  let ?t = "if tag AND CBS_ASN1_CONSTRUCTED \<noteq> 0 \<and> is_string_type tag
    then tag AND NOT CBS_ASN1_CONSTRUCTED else tag"
  let ?run = "and_then (CBB_add_asn1 d ?t) (and_then body (CBB_flush d))"
  have "cbb_operation ?run (spec_append d (der_encode ?t data))"
    using assms(2,3) True
    by (cases "data = [] \<and> b") (auto intro: element_operation element_operation' simp: spec_bytes_def)
  moreover have "\<exists>st1 st2 cst. (tag AND CBS_ASN1_CONSTRUCTED \<noteq> 0 \<longrightarrow> cst = child_tag stag tag) \<and>
      convert_target d stag tag st = (Some (Suc d, cst), st1) \<and> body st1 = (True, st2) \<and> CBB_flush d st2 = (True, st3)"
    if "?run st = (True, st3)" for st st3
    using that True
    by (cases "tag AND CBS_ASN1_CONSTRUCTED \<noteq> 0 \<and> is_string_type tag"; auto simp: and_then_def convert_target_def child_tag_def Let_def split: prod.splits bool.splits)
  ultimately show ?thesis using True by (intro exI [of _ ?run]) simp
qed

lemma definite_element:
  assumes "length c < 2 ^ 32"
  shows "CBS_get_any_ber_asn1_element (der_encode tag c @ s) =
      (Some (der_encode tag c, tag, length (der_encode tag c) - length c), s)"
    and "CBS_skip (der_encode tag c) (length (der_encode tag c) - length c) = (True, c)"
    and "\<not> is_indefinite (der_encode tag c) (length (der_encode tag c) - length c)"
proof -
  show e: "CBS_get_any_ber_asn1_element (der_encode tag c @ s) =
      (Some (der_encode tag c, tag, length (der_encode tag c) - length c), s)" for s
    unfolding any_ber_element_iff using assms by auto
  show "CBS_skip (der_encode tag c) (length (der_encode tag c) - length c) = (True, c)"
    by (simp add: CBS_skip_def cbs_get_def der_encode_def)
  have ne: "der_encode tag c \<noteq> indefinite tag"
  proof
    assume i: "der_encode tag c = indefinite tag"
    obtain lb t where "der_length (length c) = lb # t" "lb \<noteq> 0x80" by (rule der_length_Cons)
    with i show False by (simp add: der_encode_def indefinite_def)
  qed
  from e [of "[]"] show "\<not> is_indefinite (der_encode tag c) (length (der_encode tag c) - length c)"
  proof (cases rule: element_view)
    case indefinite
    with ne show ?thesis by simp
  qed simp
qed

lemma indefinite_element:
  assumes "tag AND CBS_ASN1_CONSTRUCTED \<noteq> 0"
  shows "CBS_get_any_ber_asn1_element (indefinite tag @ s) = (Some (indefinite tag, tag, length (indefinite tag)), s)"
    and "is_indefinite (indefinite tag) (length (indefinite tag))"
    and "\<not> is_eoc (length (indefinite tag)) (indefinite tag)"
  using assms by (auto simp: any_ber_element_iff is_indefinite_def is_eoc_iff CBS_len_def CBS_data_def
      indefinite_def nth_append)

lemma element_nonempty: "CBS_len (der_encode tag c @ s) \<noteq> 0" "CBS_len (indefinite tag @ s) \<noteq> 0"
  using der_encode_neq_Nil [of tag c] by (simp_all add: CBS_len_def indefinite_def)

lemma prim_converts:
  assumes "ber_wf stag (Prim tag c)" and "ber_fits n stag (Prim tag c)" and "depth \<le> kMaxDepth"
  shows "element_converts d stag depth (Prim tag c)"
proof -
  let ?e = "der_encode tag c"
  have len: "length c < 2 ^ 32" and prim: "tag AND CBS_ASN1_CONSTRUCTED = 0" using assms by auto
  have op: "cbb_operation (CBB_add_bytes (if stag \<noteq> 0 then d else Suc d) c)
      (if c = [] \<and> False then Some else spec_append (if stag \<noteq> 0 then d else Suc d) c)"
    using len by (simp add: add_bytes_operation)
  have mt: "stag \<noteq> 0 \<longrightarrow> tag AND NOT CBS_ASN1_CONSTRUCTED = stag" and le: "length c \<le> 0xfffffffe"
    using assms(1,2) by simp_all
  obtain run where run: "cbb_operation run (spec_append d (der_form stag (Prim tag c)))"
    "\<And>st st3. run st = (True, st3) \<Longrightarrow> \<exists>st1 st2 cst. (tag AND CBS_ASN1_CONSTRUCTED \<noteq> 0 \<longrightarrow> cst = child_tag stag tag) \<and>
      convert_target d stag tag st = (Some (if stag \<noteq> 0 then d else Suc d, cst), st1) \<and>
      CBB_add_bytes (if stag \<noteq> 0 then d else Suc d) c st1 = (True, st2) \<and> CBB_flush d st2 = (True, st3)"
    using target_operation [OF mt le op] unfolding der_form_Prim [OF prim] by blast
  have "\<not> is_eoc (length ?e - length c) ?e"
    using der_encode_zeros [of tag c] assms(2) by (auto simp: is_eoc_iff)
  then have "cbs_convert_ber (?e @ s) d stag eoc depth st = cbs_convert_ber s d stag eoc depth st3"
    if "run st = (True, st3)" for st st3 s eoc
    using run(2) [OF that] assms(3) prim
    by (subst cbs_convert_ber.simps)
      (auto simp: element_nonempty definite_element [OF len] CBS_data_def)
  with run(1) show ?thesis by (auto simp: element_converts_def)
qed

lemma con_converts:
  assumes "ber_wf stag (Con tag indef us)" and "ber_fits (Suc n) stag (Con tag indef us)"
    and "depth < kMaxDepth"
    and "\<And>d. level_converts d (child_tag stag tag) (Suc depth) us"
  shows "element_converts d stag depth (Con tag indef us)"
proof -
  define dc where "dc = (if stag \<noteq> 0 then d else Suc d)"
  let ?c = "concat (map ber_bytes us)" and ?cst = "child_tag stag tag"
  let ?data = "concat (map (der_form ?cst) us)"
  have len: "length ?c < 2 ^ 32" "length ?data \<le> 0xfffffffe" and con: "tag AND CBS_ASN1_CONSTRUCTED \<noteq> 0"
    using assms by auto
  obtain body where body: "cbb_operation body (spec_level dc ?cst us)"
    "\<And>st st' eoc rest. body st = (True, st') \<Longrightarrow> (\<not> eoc \<longrightarrow> rest = []) \<Longrightarrow>
       cbs_convert_ber (?c @ eoc_bytes eoc @ rest) dc ?cst eoc (Suc depth) st = (True, rest, st')"
    using assms(4) [of dc] by (auto simp: level_converts_def)
  have op: "cbb_operation body (if ?data = [] \<and> us = [] then Some else spec_append dc ?data)"
    using body(1) by (simp add: spec_level_def split: if_splits)
  have mt: "stag \<noteq> 0 \<longrightarrow> tag AND NOT CBS_ASN1_CONSTRUCTED = stag" using assms(1) by simp
  obtain run where run: "cbb_operation run (spec_append d (der_form stag (Con tag indef us)))"
    "\<And>st st3. run st = (True, st3) \<Longrightarrow> \<exists>st1 st2 cst. (tag AND CBS_ASN1_CONSTRUCTED \<noteq> 0 \<longrightarrow> cst = ?cst) \<and>
      convert_target d stag tag st = (Some (dc, cst), st1) \<and> body st1 = (True, st2) \<and> CBB_flush d st2 = (True, st3)"
    using target_operation [OF mt len(2) op [unfolded dc_def]] unfolding dc_def [symmetric] der_form_Con [OF con] by blast
  have nested: "cbs_convert_ber (?c @ 0 # 0 # s) dc ?cst True (Suc depth) st = (True, s, st')"
    "cbs_convert_ber ?c dc ?cst False (Suc depth) st = (True, [], st')" if "body st = (True, st')" for st st' s
    using body(2) [OF that, of True s] body(2) [OF that, of False "[]"] by (simp_all add: eoc_bytes_def)
  have "\<not> is_eoc (length (der_encode tag ?c) - length ?c) (der_encode tag ?c)"
    using der_encode_zeros [of tag ?c] con by (auto simp: is_eoc_iff)
  then have "cbs_convert_ber (ber_bytes (Con tag indef us) @ s) d stag eoc depth st = cbs_convert_ber s d stag eoc depth st3"
    if "run st = (True, st3)" for st st3 s eoc
    using run(2) [OF that] assms(3) con
    by (cases indef; subst cbs_convert_ber.simps)
      (auto simp: element_nonempty definite_element [OF len(1)] indefinite_element [OF con] nested)
  with run(1) show ?thesis by (auto simp: element_converts_def)
qed

lemma elements_convert:
  "ber_wf stag t \<Longrightarrow> ber_fits n stag t \<Longrightarrow> depth + n \<le> kMaxDepth \<Longrightarrow> element_converts d stag depth t"
proof (induction t arbitrary: n stag depth d)
  case (Prim tag c)
  then show ?case by (intro prim_converts) simp_all
next
  case (Con tag indef us)
  then obtain k where n: "n = Suc k" by (cases n) auto
  have "level_converts d' (child_tag stag tag) (Suc depth) us" for d'
  proof (rule level_of_elements)
    show "Suc depth \<le> kMaxDepth" using Con.prems n by simp
    show "list_all (element_converts d' (child_tag stag tag) (Suc depth)) us"
      using Con.prems unfolding n by (auto simp: list_all_iff intro: Con.IH)
  qed
  with Con.prems n show ?case by (intro con_converts [where n = k]) simp_all
qed

section \<open>The search for BER\<close>

lemma find_ber_definite:
  assumes "length c < 2 ^ 32"
  shows "find_ber_loop (der_encode tag c @ s) found depth =
     (if tag AND CBS_ASN1_CONSTRUCTED \<noteq> 0 then
        if is_string_type tag then (True, True)
        else if depth + 1 > kMaxDepth then (False, found)
        else (case find_ber_loop c False (depth + 1) of
                (False, b) \<Rightarrow> (False, b) | (True, b) \<Rightarrow> find_ber_loop s b depth)
      else find_ber_loop s found depth)"
  by (subst find_ber_loop.simps) (simp add: element_nonempty definite_element [OF assms])

lemma find_ber_indefinite:
  assumes "tag AND CBS_ASN1_CONSTRUCTED \<noteq> 0"
  shows "find_ber_loop (indefinite tag @ s) found depth = (True, True)"
  by (subst find_ber_loop.simps) (simp add: element_nonempty indefinite_element [OF assms])

lemma find_ber_Nil: "find_ber_loop [] found depth = (True, found)"
  by (subst find_ber_loop.simps) (simp add: CBS_len_def)

text \<open>Elements that are already DER: definite lengths and no constructed strings.\<close>

fun der_only :: "ber \<Rightarrow> bool" where
  "der_only (Prim tag c) \<longleftrightarrow> True"
| "der_only (Con tag indef us) \<longleftrightarrow> \<not> indef \<and> \<not> is_string_type tag \<and> list_all der_only us"

lemma child_tag_plain: "\<not> is_string_type tag \<Longrightarrow> child_tag 0 tag = 0"
  by (simp add: child_tag_def)

lemma find_ber_der_level:
  assumes "\<And>t s. t \<in> set ts \<Longrightarrow> find_ber_loop (ber_bytes t @ s) False depth = find_ber_loop s False depth"
  shows "find_ber_loop (concat (map ber_bytes ts)) False depth = (True, False)"
  using assms by (induction ts) (simp_all add: find_ber_Nil)

lemma find_ber_der:
  "der_only t \<Longrightarrow> ber_wf 0 t \<Longrightarrow> ber_fits n 0 t \<Longrightarrow> depth + n \<le> kMaxDepth \<Longrightarrow>
     find_ber_loop (ber_bytes t @ s) False depth = find_ber_loop s False depth"
proof (induction t arbitrary: n depth s)
  case (Prim tag c)
  then have "length c < 2 ^ 32" by simp
  with Prim show ?case using find_ber_definite [of c tag s False depth] by simp
next
  case (Con tag indef us)
  then obtain k where n: "n = Suc k" by (cases n) auto
  have plain: "\<not> indef" "\<not> is_string_type tag" using Con.prems by auto
  have len: "length (concat (map ber_bytes us)) < 2 ^ 32" using Con.prems n by simp
  have "find_ber_loop (concat (map ber_bytes us)) False (Suc depth) = (True, False)"
  proof (rule find_ber_der_level)
    fix t s assume "t \<in> set us"
    with Con.prems show "find_ber_loop (ber_bytes t @ s) False (Suc depth) = find_ber_loop s False (Suc depth)"
      unfolding n by (intro Con.IH [where n = k]) (auto simp: list_all_iff child_tag_plain)
  qed
  with Con.prems plain n show ?case
    using find_ber_definite [OF len, of tag s False depth] by simp
qed

section \<open>Properties\<close>

lemma ber_to_der_forest:
  assumes "CBS_asn1_ber_to_der m f inp = (Some (out, Some out_storage), rest)"
    and "length inp < size_limit"
  shows "\<exists>ts. list_all (ber_wf 0) ts \<and> ts \<noteq> [] \<and> inp = concat (map ber_bytes ts) \<and>
    out = concat (map (\<lambda>t. tree_bytes (code_der t)) ts) \<and> out_storage = out \<and> rest = []"
proof -
  from assms(1) obtain st st1 st2 where i: "CBB_init m f (CBS_len inp) = (True, st)"
    and c: "cbs_convert_ber inp 0 0 False 0 st = (True, rest, st1)"
    and fin: "CBB_finish 0 True st1 = (Some out, st2)" and o: "out_storage = out"
    and found: "cbs_find_ber inp 0 = (True, True)"
    by (auto simp: CBS_asn1_ber_to_der_def split: prod.splits option.splits bool.splits if_splits)
  have rep: "represents st [(Fixed 0, [])]"
    using init_represents(1) [OF i] assms(2) by (simp add: CBS_len_def)
  from convert_sound [OF c] obtain ts where ts: "list_all (ber_wf 0) ts"
    "inp = concat (map ber_bytes ts)" "rest = []" and eff: "effect (spec_level 0 0 ts) st st1"
    by (auto simp: sound_run_def eoc_bytes_def)
  have "ts \<noteq> []" using found ts(2) by (auto simp: cbs_find_ber_def find_ber_Nil)
  from eff rep obtain fs where fs: "spec_level 0 0 ts [(Fixed 0, [])] = Some fs" "represents st1 fs"
    by (auto simp: effect_def)
  have "fs = [(Fixed 0, concat (map (der_form 0) ts))]"
    using fs(1) by (auto simp: spec_level_def spec_append_def edit_def split: if_splits)
  with finish_sound [OF fs(2) fin] have "out = concat (map (der_form 0) ts)" by simp
  with ts o \<open>ts \<noteq> []\<close> show ?thesis by (auto simp: der_form_def [abs_def])
qed

lemma ber_bytes_nonempty: "ber_bytes t \<noteq> []"
proof -
  have "der_encode tag c \<noteq> []" for tag c by (simp add: der_encode_def der_length_def)
  then show ?thesis by (cases t rule: ber_bytes.cases) (simp_all add: indefinite_def)
qed

text \<open>
  C13. Whenever \<open>CBS_asn1_ber_to_der\<close> converts its input (and hands out a new buffer), the input
  starts with a well-formed BER element; if nothing follows the element, the code advances over it,
  and the new buffer holds its DER form, provided the element has no BIT STRING in segments:
  indefinite lengths resolved, the segments of each constructed string joined in a primitive one,
  the contents of primitive elements kept. An input with something behind the element is converted
  as a whole (lemma \<open>ber_to_der_forest\<close>).
\<close>

theorem ber_to_der_sound:
  assumes "CBS_asn1_ber_to_der m f inp = (Some (out, Some out_storage), rest)"
    and "length inp < size_limit"
  shows "\<exists>t behind. ber_wf 0 t \<and> inp = ber_bytes t @ behind \<and> out_storage = out \<and>
    (behind = [] \<longrightarrow> rest = []) \<and> (behind = [] \<and> no_split_bits t \<longrightarrow> out = tree_bytes (to_der t))"
proof -
  from ber_to_der_forest [OF assms] obtain t ts where t: "ber_wf 0 t" "inp = ber_bytes t @ concat (map ber_bytes ts)"
    "out = tree_bytes (code_der t) @ concat (map (\<lambda>t. tree_bytes (code_der t)) ts)" "out_storage = out" "rest = []"
    by (auto simp: neq_Nil_conv)
  moreover have "concat (map ber_bytes ts) = [] \<longrightarrow> ts = []" by (cases ts) (simp_all add: ber_bytes_nonempty)
  ultimately show ?thesis
    by (intro exI [of _ t] exI [of _ "concat (map ber_bytes ts)"]) (auto simp: code_der_is_der)
qed

lemma level_result:
  assumes "level_converts 0 0 0 ts" and "\<forall>i. m i" and "n < size_limit"
    and "length (concat (map (der_form 0) ts)) < size_limit"
  obtains st st1 st2 where "CBB_init m f n = (True, st)"
    and "cbs_convert_ber (concat (map ber_bytes ts)) 0 0 False 0 st = (True, [], st1)"
    and "CBB_finish 0 True st1 = (Some (concat (map (der_form 0) ts)), st2)"
proof -
  let ?x = "concat (map (der_form 0) ts)"
  from assms(1) obtain run where op: "cbb_operation run (spec_level 0 0 ts)"
    and "\<forall>st st' eoc rest. run st = (True, st') \<longrightarrow> (\<not> eoc \<longrightarrow> rest = []) \<longrightarrow>
       cbs_convert_ber (concat (map ber_bytes ts) @ eoc_bytes eoc @ rest) 0 0 eoc 0 st = (True, rest, st')"
    unfolding level_converts_def by blast
  from this(2) [rule_format, of _ _ False "[]"] have run:
    "run st = (True, st') \<Longrightarrow> cbs_convert_ber (concat (map ber_bytes ts)) 0 0 False 0 st = (True, [], st')"
    for st st' by (simp add: eoc_bytes_def)
  obtain st where st: "CBB_init m f n = (True, st)"
    using init_succeeds [OF assms(2), of f n] by (cases "CBB_init m f n") auto
  have r: "represents st [(Fixed 0, [])]" by (rule init_represents [OF st assms(3)])
  have rm: "room st (length ?x)" using init_represents(2) [OF st assms(3,2,4)] .
  have "spec_level 0 0 ts [(Fixed 0, [])] = Some [(Fixed 0, ?x)]"
    by (simp add: spec_level_def spec_append_def edit_def)
  moreover have "room st (length (layout [(Fixed 0, ?x)]))" using rm by simp
  ultimately obtain st1 where st1: "run st = (True, st1)" "represents st1 [(Fixed 0, ?x)]" "env_kept st st1"
    using cbb_operation.runs [OF op r] by blast
  from finish_complete [OF st1(2), of ?x] room_kept [OF st1(3) rm]
  obtain st2 where "CBB_finish 0 True st1 = (Some ?x, st2)" by (cases "CBB_finish 0 True st1") auto
  with st run [OF st1(1)] that show thesis by blast
qed

lemma ber_to_der_converts:
  assumes "\<forall>i. m i" and "list_all (ber_wf 0) ts" and "list_all (ber_fits kMaxDepth 0) ts"
    and "inp = concat (map ber_bytes ts)" and "length inp < size_limit"
    and "length (concat (map (\<lambda>t. tree_bytes (code_der t)) ts)) < size_limit"
    and "cbs_find_ber inp 0 = (True, True)"
  shows "CBS_asn1_ber_to_der m f inp =
    (Some (concat (map (\<lambda>t. tree_bytes (code_der t)) ts), Some (concat (map (\<lambda>t. tree_bytes (code_der t)) ts))), [])"
proof -
  let ?x = "concat (map (\<lambda>t. tree_bytes (code_der t)) ts)"
  have x: "?x = concat (map (der_form 0) ts)" by (simp add: der_form_def [abs_def])
  have "list_all (element_converts 0 0 0) ts"
    using assms(2,3) by (auto simp: list_all_iff intro!: elements_convert [where n = kMaxDepth])
  then have "level_converts 0 0 0 ts" by (intro level_of_elements) simp_all
  from level_result [OF this assms(1,5) assms(6) [unfolded x]] obtain st st1 st2 where
    "CBB_init m f (length inp) = (True, st)" "cbs_convert_ber inp 0 0 False 0 st = (True, [], st1)"
    "CBB_finish 0 True st1 = (Some ?x, st2)" unfolding x assms(4) by metis
  with assms(7) show ?thesis by (simp add: CBS_asn1_ber_to_der_def CBS_len_def)
qed


definition sample_ber :: ber where
  "sample_ber = Con 0x20000004 True [Prim 4 [0xaa], Prim 4 [0xbb]]"

lemma ber_fits_top:
  "ber_fits kMaxDepth stag (Con tag indef us) \<longleftrightarrow>
     list_all (ber_fits 2047 (child_tag stag tag)) us \<and> length (concat (map ber_bytes us)) < 2 ^ 32 \<and>
     length (concat (map (der_form (child_tag stag tag)) us)) \<le> 0xfffffffe"
  using ber_fits.simps(3) [of 2047 stag tag indef us] by (simp add: kMaxDepth_def)

lemma CONSTRUCTED_value: "CBS_ASN1_CONSTRUCTED = 0x20000000"
  by (simp add: CBS_ASN1_CONSTRUCTED_def CBS_ASN1_TAG_SHIFT_def push_bit_eq_mult)

lemma sample_ber_facts:
  "ber_bytes sample_ber = [0x24, 0x80, 0x04, 0x01, 0xaa, 0x04, 0x01, 0xbb, 0, 0]"
  "tree_bytes (to_der sample_ber) = [0x04, 0x02, 0xaa, 0xbb]"
  "ber_wf 0 sample_ber" "ber_fits kMaxDepth 0 sample_ber" "no_split_bits sample_ber"
  "cbs_find_ber [0x24, 0x80, 0x04, 0x01, 0xaa, 0x04, 0x01, 0xbb, 0, 0] 0 = (True, True)"
proof -
  show b: "ber_bytes sample_ber = [0x24, 0x80, 0x04, 0x01, 0xaa, 0x04, 0x01, 0xbb, 0, 0]"
    by (simp add: sample_ber_def indefinite_def der_tag_def der_encode_def der_length_def)
  have str: "is_string_type 0x20000004"
    by (simp add: is_string_type_def CONSTRUCTED_value CBS_ASN1_OCTETSTRING_def)
  show "tree_bytes (to_der sample_ber) = [0x04, 0x02, 0xaa, 0xbb]"
    by (simp add: sample_ber_def str join_segments_def CBS_ASN1_BITSTRING_def CONSTRUCTED_value der_tag_def der_encode_def der_length_def)
  show "no_split_bits sample_ber" by (simp add: sample_ber_def CONSTRUCTED_value CBS_ASN1_BITSTRING_def)
  show "ber_wf 0 sample_ber" "ber_fits kMaxDepth 0 sample_ber"
    by (simp_all add: sample_ber_def str child_tag_def CONSTRUCTED_value ber_fits_top der_form_def
        der_tag_def der_encode_def der_length_def)
  have "find_ber_loop (ber_bytes sample_ber) False 0 = (True, True)"
    using find_ber_indefinite [of "0x20000004"]
    by (simp add: sample_ber_def CONSTRUCTED_value)
  then show "cbs_find_ber [0x24, 0x80, 0x04, 0x01, 0xaa, 0x04, 0x01, 0xbb, 0, 0] 0 = (True, True)"
    unfolding b by (simp add: cbs_find_ber_def)
qed


theorem ber_to_der_sound_witness:
  "\<exists>t behind. ber_wf 0 t \<and> [0x24, 0x80, 0x04, 0x01, 0xaa, 0x04, 0x01, 0xbb, 0, 0] = ber_bytes t @ behind
    \<and> [0x04, 0x02, 0xaa, 0xbb :: u8] = [0x04, 0x02, 0xaa, 0xbb] \<and> (behind = [] \<longrightarrow> ([] :: bytes) = [])
    \<and> (behind = [] \<and> no_split_bits t \<longrightarrow> [0x04, 0x02, 0xaa, 0xbb] = tree_bytes (to_der t))"
proof (rule ber_to_der_sound)
  have "code_der sample_ber = to_der sample_ber" by (rule code_der_is_der) (rule sample_ber_facts)
  then show "CBS_asn1_ber_to_der (\<lambda>_. True) (\<lambda>_. 0) [0x24, 0x80, 0x04, 0x01, 0xaa, 0x04, 0x01, 0xbb, 0, 0] =
    (Some ([0x04, 0x02, 0xaa, 0xbb], Some [0x04, 0x02, 0xaa, 0xbb]), [])"
    using ber_to_der_converts [of "\<lambda>_. True" "[sample_ber]"] by (simp add: sample_ber_facts)
qed simp

text \<open>Two cases the theorems leave out. Of two elements both are converted and taken from the input.
  A BIT STRING in two segments keeps the first octet of both: the eight bits \<open>0xaa\<close> and the four bits
  \<open>0xb0\<close> come out as 24 bits with \<open>0x04\<close> in the middle.\<close>

definition split_bits :: ber where
  "split_bits = Con 0x20000003 True [Prim 3 [0, 0xaa], Prim 3 [4, 0xb0]]"

lemma bits_string: "is_string_type 0x20000003"
  by (simp add: is_string_type_def CONSTRUCTED_value CBS_ASN1_BITSTRING_def)

lemma converts_beyond_first:
  "CBS_asn1_ber_to_der (\<lambda>_. True) f (ber_bytes sample_ber @ [0x02, 0x01, 0x05]) =
    (Some ([0x04, 0x02, 0xaa, 0xbb, 0x02, 0x01, 0x05], Some [0x04, 0x02, 0xaa, 0xbb, 0x02, 0x01, 0x05]), [])"
proof -
  have "code_der sample_ber = to_der sample_ber" by (rule code_der_is_der) (rule sample_ber_facts)
  moreover have "ber_bytes (Prim 2 [5]) = [0x02, 0x01, 0x05]" by (simp add: der_encode_def der_tag_def der_length_def)
  moreover have "find_ber_loop (ber_bytes sample_ber @ [0x02, 0x01, 0x05]) False 0 = (True, True)"
    using find_ber_indefinite [of "0x20000004"] by (simp add: sample_ber_def CONSTRUCTED_value)
  then have "cbs_find_ber (ber_bytes sample_ber @ [0x02, 0x01, 0x05]) 0 = (True, True)" by (simp add: cbs_find_ber_def)
  ultimately show ?thesis
    using ber_to_der_converts [of "\<lambda>_. True" "[sample_ber, Prim 2 [5]]"]
    by (simp add: sample_ber_facts CONSTRUCTED_value ber_fits_top der_form_def)
qed

lemma split_bits_diverge:
  "CBS_asn1_ber_to_der (\<lambda>_. True) f (ber_bytes split_bits) =
      (Some ([0x03, 0x04, 0x00, 0xaa, 0x04, 0xb0], Some [0x03, 0x04, 0x00, 0xaa, 0x04, 0xb0]), [])
    \<and> tree_bytes (to_der split_bits) = [0x03, 0x03, 0x04, 0xaa, 0xb0]"
proof
  show "tree_bytes (to_der split_bits) = [0x03, 0x03, 0x04, 0xaa, 0xb0]"
    by (simp add: split_bits_def bits_string join_segments_def CBS_ASN1_BITSTRING_def CONSTRUCTED_value
        der_tag_def der_encode_def der_length_def)
  have "tree_bytes (code_der split_bits) = [0x03, 0x04, 0x00, 0xaa, 0x04, 0xb0]"
    by (simp add: split_bits_def bits_string CONSTRUCTED_value der_tag_def der_encode_def der_length_def)
  moreover have "ber_wf 0 split_bits" "ber_fits kMaxDepth 0 split_bits"
    by (simp_all add: split_bits_def bits_string child_tag_def CONSTRUCTED_value ber_fits_top der_form_def
        der_tag_def der_encode_def der_length_def)
  moreover have "length (ber_bytes split_bits) = 12"
    by (simp add: split_bits_def indefinite_def der_tag_def der_encode_def der_length_def)
  moreover have "cbs_find_ber (ber_bytes split_bits) 0 = (True, True)"
    using find_ber_indefinite [of "0x20000003"] by (simp add: split_bits_def CONSTRUCTED_value cbs_find_ber_def)
  ultimately show "CBS_asn1_ber_to_der (\<lambda>_. True) f (ber_bytes split_bits) =
      (Some ([0x03, 0x04, 0x00, 0xaa, 0x04, 0xb0], Some [0x03, 0x04, 0x00, 0xaa, 0x04, 0xb0]), [])"
    using ber_to_der_converts [of "\<lambda>_. True" "[split_bits]"] by simp
qed

text \<open>
  C15. An element that is DER already (definite lengths, no constructed strings, at most 2048
  levels) is returned as it is, without allocating anything: \<open>*out_storage\<close> is \<open>NULL\<close>.
\<close>

theorem der_is_returned_unchanged:
  assumes "der_only t" and "ber_wf 0 t" and "ber_fits kMaxDepth 0 t"
  shows "CBS_asn1_ber_to_der m f (ber_bytes t) = (Some (ber_bytes t, None), [])"
proof -
  have "cbs_find_ber (ber_bytes t) 0 = (True, False)"
    using find_ber_der [OF assms, of 0 "[]"] by (simp add: cbs_find_ber_def find_ber_Nil)
  moreover obtain tag c where "ber_bytes t = der_encode tag c" "length c < 2 ^ 32"
    using assms by (cases t) (auto simp: ber_fits_top)
  then have "\<exists>hl. CBS_get_any_asn1_element (ber_bytes t) = (Some (ber_bytes t, tag, hl), [])"
    by (auto simp: any_element_iff)
  ultimately show ?thesis by (auto simp: CBS_asn1_ber_to_der_def)
qed

theorem der_is_returned_unchanged_witness:
  "CBS_asn1_ber_to_der (\<lambda>_. False) (\<lambda>_. 0) (ber_bytes (Con 0x20000010 False [Prim 2 [5]])) =
    (Some (ber_bytes (Con 0x20000010 False [Prim 2 [5]]), None), [])"
  by (rule der_is_returned_unchanged)
    (simp_all add: is_string_type_def CONSTRUCTED_value child_tag_def ber_fits_top der_form_def
      der_tag_def der_encode_def der_length_def CBS_ASN1_BITSTRING_def CBS_ASN1_OCTETSTRING_def
      CBS_ASN1_UTF8STRING_def CBS_ASN1_NUMERICSTRING_def CBS_ASN1_PRINTABLESTRING_def
      CBS_ASN1_T61STRING_def CBS_ASN1_VIDEOTEXSTRING_def CBS_ASN1_IA5STRING_def
      CBS_ASN1_GRAPHICSTRING_def CBS_ASN1_VISIBLESTRING_def CBS_ASN1_GENERALSTRING_def
      CBS_ASN1_UNIVERSALSTRING_def CBS_ASN1_BMPSTRING_def)

text \<open>
  A later constructed element makes the search forget what it found in an earlier one: the
  nested call starts by clearing \<open>*ber_found\<close>, and its caller goes on with the loop. A SEQUENCE
  that holds a SEQUENCE with a constructed OCTET STRING, followed by an empty SEQUENCE, is
  reported to need no conversion and is returned as it is, although its DER form differs.
\<close>

definition overlooked :: ber where
  "overlooked = Con 0x20000010 False
     [Con 0x20000010 False [Con 0x20000004 False []], Con 0x20000010 False []]"

lemma sequence_not_string: "\<not> is_string_type 0x20000010"
  by (simp add: is_string_type_def CONSTRUCTED_value CBS_ASN1_BITSTRING_def CBS_ASN1_OCTETSTRING_def
      CBS_ASN1_UTF8STRING_def CBS_ASN1_NUMERICSTRING_def CBS_ASN1_PRINTABLESTRING_def
      CBS_ASN1_T61STRING_def CBS_ASN1_VIDEOTEXSTRING_def CBS_ASN1_IA5STRING_def
      CBS_ASN1_GRAPHICSTRING_def CBS_ASN1_VISIBLESTRING_def CBS_ASN1_GENERALSTRING_def
      CBS_ASN1_UNIVERSALSTRING_def CBS_ASN1_BMPSTRING_def)

lemma octets_string: "is_string_type 0x20000004"
  by (simp add: is_string_type_def CONSTRUCTED_value CBS_ASN1_OCTETSTRING_def)

theorem find_ber_overlooks_ber:
  "ber_bytes overlooked = [0x30, 6, 0x30, 2, 0x24, 0, 0x30, 0] \<and>
   cbs_find_ber (ber_bytes overlooked) 0 = (True, False) \<and>
   CBS_asn1_ber_to_der m f (ber_bytes overlooked) = (Some (ber_bytes overlooked, None), []) \<and>
   ber_bytes overlooked \<noteq> tree_bytes (to_der overlooked)"
proof -
  have enc: "der_encode 0x20000004 [] = [0x24, 0]" "der_encode 0x20000010 [] = [0x30, 0]"
    "der_encode 0x20000010 [0x24, 0] = [0x30, 2, 0x24, 0]"
    "der_encode 0x20000010 [0x30, 2, 0x24, 0, 0x30, 0] = [0x30, 6, 0x30, 2, 0x24, 0, 0x30, 0]"
    by (simp_all add: der_encode_def der_tag_def der_length_def)
  then have b: "ber_bytes overlooked = [0x30, 6, 0x30, 2, 0x24, 0, 0x30, 0]"
    by (simp add: overlooked_def)
  have "find_ber_loop [0x24, 0] False (Suc (Suc 0)) = (True, True)"
    using find_ber_definite [of "[]" "0x20000004" "[]" False "Suc (Suc 0)"]
    by (simp add: enc octets_string CONSTRUCTED_value)
  moreover have "find_ber_loop [0x30, 0] True 1 = (True, False)"
    using find_ber_definite [of "[]" "0x20000010" "[]" True 1]
    by (simp add: enc sequence_not_string CONSTRUCTED_value find_ber_Nil kMaxDepth_def)
  ultimately have "find_ber_loop [0x30, 2, 0x24, 0, 0x30, 0] False 1 = (True, False)"
    using find_ber_definite [of "[0x24, 0]" "0x20000010" "[0x30, 0]" False 1]
    by (simp add: enc sequence_not_string CONSTRUCTED_value kMaxDepth_def)
  then have "find_ber_loop (ber_bytes overlooked) False 0 = (True, False)"
    using find_ber_definite [of "[0x30, 2, 0x24, 0, 0x30, 0]" "0x20000010" "[]" False 0]
    by (simp add: b enc sequence_not_string CONSTRUCTED_value kMaxDepth_def find_ber_Nil)
  then have found: "cbs_find_ber (ber_bytes overlooked) 0 = (True, False)"
    by (simp add: cbs_find_ber_def)
  moreover have "\<exists>hl. CBS_get_any_asn1_element (ber_bytes overlooked) = (Some (ber_bytes overlooked, 0x20000010, hl), [])"
    unfolding any_element_iff
    by (intro exI [of _ 2] exI [of _ "[0x30, 2, 0x24, 0, 0x30, 0]"]) (simp add: b enc)
  moreover have "tree_bytes (to_der overlooked) = [0x30, 6, 0x30, 2, 0x04, 0, 0x30, 0]"
    by (simp add: overlooked_def octets_string sequence_not_string CONSTRUCTED_value der_encode_def
        der_tag_def der_length_def join_segments_def CBS_ASN1_BITSTRING_def)
  ultimately show ?thesis using b by (auto simp: CBS_asn1_ber_to_der_def)
qed

section \<open>Implicitly tagged strings\<close>

lemma implicit_loop_sound:
  "implicit_string_loop child tag st = (True, st') \<Longrightarrow>
     \<exists>chunks. child = concat (map (der_encode tag) chunks) \<and> list_all (\<lambda>c. length c < 2 ^ 32) chunks \<and>
       effect (if chunks = [] then Some else spec_append 0 (concat chunks)) st st'"
proof (induction child tag st arbitrary: st' rule: implicit_string_loop.induct)
  case (1 child tag st)
  note step = implicit_string_loop.simps [of child tag st]
  show ?case
  proof (cases "CBS_len child = 0")
    case True
    with "1.prems" have "child = []" "st' = st" unfolding step by (auto simp: CBS_len_def)
    then show ?thesis by (intro exI [of _ "[]"]) (simp add: effect_refl)
  next
    case False
    with "1.prems" obtain c child1 st1 where get: "CBS_get_asn1 child tag = (Some c, child1)"
      and add: "CBB_add_bytes 0 (CBS_data c) st = (True, st1)"
      and rest: "implicit_string_loop child1 tag st1 = (True, st')"
      unfolding step by (auto split: prod.splits option.splits bool.splits)
    from get have c: "child = der_encode tag c @ child1" "length c < 2 ^ 32" by (simp_all add: get_asn1_iff)
    from "1.IH" [OF False get [symmetric] refl add [symmetric] _ rest] obtain chunks where
      ch: "child1 = concat (map (der_encode tag) chunks)" "list_all (\<lambda>c. length c < 2 ^ 32) chunks"
      "effect (if chunks = [] then Some else spec_append 0 (concat chunks)) st1 st'" by auto
    have "effect (spec_append 0 c) st st1"
      by (rule effect_operation [OF add_bytes_operation]) (use c(2) add in \<open>simp_all add: CBS_data_def\<close>)
    from effect_trans [OF this ch(3)] have "effect (spec_append 0 (concat (c # chunks))) st st'"
      by (cases "chunks = []") (simp_all add: spec_append_append)
    with c ch(1,2) show ?thesis by (intro exI [of _ "c # chunks"]) simp
  qed
qed

text \<open>
  C16. What \<open>CBS_get_asn1_implicit_string\<close> accepts and returns: either one element with the
  outer tag, whose contents are the string, or one constructed element with that tag that
  holds only primitive chunks with the inner tag, whose contents are concatenated.
\<close>

theorem implicit_string_sound:
  assumes "CBS_get_asn1_implicit_string m f inp outer_tag inner_tag = (Some (out, storage), rest)"
    and "length inp < size_limit"
  shows "(inp = der_encode outer_tag out @ rest \<and> storage = None) \<or>
    (\<exists>chunks. inp = der_encode (outer_tag OR CBS_ASN1_CONSTRUCTED) (concat (map (der_encode inner_tag) chunks)) @ rest
       \<and> out = concat chunks \<and> storage = Some out)"
proof (cases "CBS_peek_asn1_tag inp outer_tag")
  case True
  with assms(1) have "CBS_get_asn1 inp outer_tag = (Some out, rest)" "storage = None"
    by (auto simp: CBS_get_asn1_implicit_string_def split: prod.splits option.splits)
  then show ?thesis by (simp add: get_asn1_iff)
next
  case False
  with assms(1) obtain st child st1 st2 where i: "CBB_init m f (CBS_len inp) = (True, st)"
    and get: "CBS_get_asn1 inp (outer_tag OR CBS_ASN1_CONSTRUCTED) = (Some child, rest)"
    and loop: "implicit_string_loop child inner_tag st = (True, st1)"
    and fin: "CBB_finish 0 True st1 = (Some out, st2)" and storage: "storage = Some out"
    by (auto simp: CBS_get_asn1_implicit_string_def split: prod.splits option.splits bool.splits)
  have rep: "represents st [(Fixed 0, [])]"
    using init_represents(1) [OF i] assms(2) by (simp add: CBS_len_def)
  from implicit_loop_sound [OF loop] obtain chunks where ch: "child = concat (map (der_encode inner_tag) chunks)"
    and eff: "effect (if chunks = [] then Some else spec_append 0 (concat chunks)) st st1" by blast
  from eff rep obtain fs where fs: "(if chunks = [] then Some else spec_append 0 (concat chunks)) [(Fixed 0, [])] = Some fs"
    "represents st1 fs" by (auto simp: effect_def)
  have "fs = [(Fixed 0, concat chunks)]"
    using fs(1) by (auto simp: spec_append_def edit_def split: if_splits)
  with finish_sound [OF fs(2) fin] have "out = concat chunks" by simp
  with get ch storage show ?thesis by (auto simp: get_asn1_iff)
qed

theorem implicit_string_sound_witness:
  "\<exists>out storage rest. CBS_get_asn1_implicit_string (\<lambda>_. True) (\<lambda>_. 0) [0x80, 2, 7, 8, 9] 0x80000000 4 =
      (Some (out, storage), rest) \<and> out = [7, 8] \<and> rest = [9]"
proof -
  have enc: "[0x80, 2, 7, 8, 9] = der_encode 0x80000000 [7, 8] @ [9]"
    by (simp add: der_encode_def der_tag_def der_length_def)
  have peek: "CBS_peek_asn1_tag [0x80, 2, 7, 8, 9] 0x80000000"
    unfolding peek_tag_iff by (simp add: der_tag_def)
  have "CBS_get_asn1 [0x80, 2, 7, 8, 9] 0x80000000 = (Some [7, 8], [9])"
    unfolding get_asn1_iff using enc by simp
  with peek have r: "CBS_get_asn1_implicit_string (\<lambda>_. True) (\<lambda>_. 0) [0x80, 2, 7, 8, 9] 0x80000000 4 = (Some ([7, 8], None), [9])"
    by (simp add: CBS_get_asn1_implicit_string_def)
  from implicit_string_sound [OF r] r show ?thesis by simp
qed

end
