(* ===== verification/Nanopb.thy ===== *)
theory Nanopb
  imports Prelude
begin

text \<open>
  nanopb's input and output streams and its codecs for single values: \<open>pb_decode.c\<close> and
  \<open>pb_encode.c\<close> below the level of messages. A stream's \<open>state\<close> is the memory its state
  pointer designates: the bytes still to come for an input stream, the bytes written so far
  for an output stream. A callback other than the library's buffer callbacks belongs to the
  caller and is a function stored in the stream, as in the code.
\<close>

unbundle bit_operations_syntax

section \<open>Input streams\<close>

text \<open>A caller's callback gets the state and a count; it returns the bytes it read (or
  failure) and the new state. \<open>Buf_read\<close> is the library's own callback.\<close>

datatype pb_callback = Buf_read | Custom "bytes \<Rightarrow> nat \<Rightarrow> bytes option \<times> bytes"

record pb_istream_t =
  callback :: pb_callback
  state :: bytes
  bytes_left :: nat
  errmsg :: "string option"

definition PB_SET_ERROR :: "string option \<Rightarrow> string \<Rightarrow> string option" where
  "PB_SET_ERROR old msg = (case old of None \<Rightarrow> Some msg | Some m \<Rightarrow> Some m)"

definition in_error :: "string \<Rightarrow> pb_istream_t \<Rightarrow> 'a option \<times> pb_istream_t" where
  "in_error msg stream = (None, stream\<lparr>errmsg := PB_SET_ERROR (errmsg stream) msg\<rparr>)"

definition buf_read :: "bytes \<Rightarrow> nat \<Rightarrow> bytes option \<times> bytes" where
  "buf_read source count = (Some (take count source), drop count source)"

definition run_callback :: "pb_istream_t \<Rightarrow> nat \<Rightarrow> bytes option \<times> bytes" where
  "run_callback stream count =
     (case callback stream of
        Buf_read \<Rightarrow> buf_read (state stream) count
      | Custom f \<Rightarrow> f (state stream) count)"

text \<open>The part of \<open>pb_read\<close> behind the skipping of input: the bounds check and the callback.\<close>

definition pb_read_checked :: "pb_istream_t \<Rightarrow> nat \<Rightarrow> bytes option \<times> pb_istream_t" where
  "pb_read_checked stream count =
     (if bytes_left stream < count then in_error ''end-of-stream'' stream
      else case run_callback stream count of
             (None, s) \<Rightarrow> in_error ''io error'' (stream\<lparr>state := s\<rparr>)
           | (Some d, s) \<Rightarrow>
               (Some d, stream\<lparr>state := s, bytes_left := bytes_left stream - count\<rparr>))"

text \<open>Skipping input of a caller's stream, in pieces of 16 bytes.\<close>

function pb_skip_pieces :: "pb_istream_t \<Rightarrow> nat \<Rightarrow> bytes option \<times> pb_istream_t" where
  "pb_skip_pieces stream count =
     (if count > 16 then
        case pb_read_checked stream 16 of
          (None, stream) \<Rightarrow> (None, stream)
        | (Some _, stream) \<Rightarrow> pb_skip_pieces stream (count - 16)
      else if count = 0 then (Some [], stream)
      else pb_read_checked stream count)"
  by pat_completeness auto
termination by (relation "measure snd") auto

declare pb_skip_pieces.simps [simp del]

text \<open>\<open>has_buf\<close> is \<open>buf != NULL\<close>; the bytes read into it are the result.\<close>

definition pb_read :: "pb_istream_t \<Rightarrow> bool \<Rightarrow> nat \<Rightarrow> bytes option \<times> pb_istream_t" where
  "pb_read stream has_buf count =
     (if count = 0 then (Some [], stream)
      else if \<not> has_buf \<and> (case callback stream of Buf_read \<Rightarrow> False | Custom _ \<Rightarrow> True)
      then pb_skip_pieces stream count
      else pb_read_checked stream count)"

definition pb_readbyte :: "pb_istream_t \<Rightarrow> u8 option \<times> pb_istream_t" where
  "pb_readbyte stream =
     (if bytes_left stream = 0 then in_error ''end-of-stream'' stream
      else case run_callback stream 1 of
             (None, s) \<Rightarrow> in_error ''io error'' (stream\<lparr>state := s\<rparr>)
           | (Some d, s) \<Rightarrow>
               (Some (d ! 0), stream\<lparr>state := s, bytes_left := bytes_left stream - 1\<rparr>))"

definition pb_istream_from_buffer :: "bytes \<Rightarrow> nat \<Rightarrow> pb_istream_t" where
  "pb_istream_from_buffer buf bufsize =
     \<lparr>callback = Buf_read, state = buf, bytes_left = bufsize, errmsg = None\<rparr>"

lemma readbyte_bytes_left:
  "pb_readbyte stream = (Some b, stream') \<Longrightarrow> bytes_left stream' < bytes_left stream"
  by (auto simp: pb_readbyte_def in_error_def split: if_splits prod.splits option.splits)

section \<open>Varints\<close>

text \<open>
  The multibyte loop of \<open>pb_decode_varint32_eof\<close>; \<open>bitpos\<close> is an 8-bit integer
  (\<open>uint_fast8_t\<close> of the targets) and wraps around. The result carries the last byte and the
  final \<open>bitpos\<close>, which the check behind the loop reads.
\<close>

function varint32_loop ::
  "pb_istream_t \<Rightarrow> u32 \<Rightarrow> u8 \<Rightarrow> (u32 \<times> u8 \<times> u8) option \<times> pb_istream_t" where
  "varint32_loop stream result bitpos =
     (case pb_readbyte stream of
        (None, stream) \<Rightarrow> (None, stream)
      | (Some byte, stream) \<Rightarrow>
          if bitpos \<ge> 32 \<and> byte AND 0x7F \<noteq> 0 \<and>
             (drop_bit 31 result = 0 \<or> byte \<noteq> (if bitpos < 63 then 0xFF else 0x01))
          then in_error ''varint overflow'' stream
          else
            let result = (if bitpos \<ge> 32 then result
                          else result OR push_bit (unat bitpos) (ucast (byte AND 0x7F)));
                bitpos = bitpos + 7
            in if byte AND 0x80 \<noteq> 0 then varint32_loop stream result bitpos
               else (Some (result, bitpos, byte), stream))"
  by pat_completeness auto
termination
  by (relation "measure (\<lambda>(stream, _). bytes_left stream)") (auto dest!: readbyte_bytes_left [OF sym])

declare varint32_loop.simps [simp del]

text \<open>The result, \<open>*eof\<close> as the function leaves it, and the stream; \<open>eof\<close> may be \<open>NULL\<close>, then
  the caller ignores the flag.\<close>

definition pb_decode_varint32_eof ::
  "pb_istream_t \<Rightarrow> bool \<Rightarrow> u32 option \<times> bool \<times> pb_istream_t" where
  "pb_decode_varint32_eof stream eof =
     (case pb_readbyte stream of
        (None, stream) \<Rightarrow> (None, (if bytes_left stream = 0 then True else eof), stream)
      | (Some byte, stream) \<Rightarrow>
          if byte AND 0x80 = 0 then (Some (ucast byte), eof, stream)
          else
            case varint32_loop stream (ucast (byte AND 0x7F)) 7 of
              (None, stream) \<Rightarrow> (None, eof, stream)
            | (Some (result, bitpos, byte), stream) \<Rightarrow>
                if bitpos = 35 \<and> byte AND 0x70 \<noteq> 0
                then (case in_error ''varint overflow'' stream of (r, stream) \<Rightarrow> (r, eof, stream))
                else (Some result, eof, stream))"

definition pb_decode_varint32 :: "pb_istream_t \<Rightarrow> u32 option \<times> pb_istream_t" where
  "pb_decode_varint32 stream =
     (case pb_decode_varint32_eof stream False of (r, _, stream) \<Rightarrow> (r, stream))"

function varint_loop :: "pb_istream_t \<Rightarrow> u64 \<Rightarrow> u8 \<Rightarrow> u64 option \<times> pb_istream_t" where
  "varint_loop stream result bitpos =
     (if bitpos \<ge> 64 then in_error ''varint overflow'' stream
      else case pb_readbyte stream of
             (None, stream) \<Rightarrow> (None, stream)
           | (Some byte, stream) \<Rightarrow>
               let result = result OR push_bit (unat bitpos) (ucast (byte AND 0x7F));
                   bitpos = bitpos + 7
               in if byte AND 0x80 \<noteq> 0 then varint_loop stream result bitpos
                  else (Some result, stream))"
  by pat_completeness auto
termination
  by (relation "measure (\<lambda>(stream, _). bytes_left stream)") (auto dest!: readbyte_bytes_left [OF sym])

declare varint_loop.simps [simp del]

definition pb_decode_varint :: "pb_istream_t \<Rightarrow> u64 option \<times> pb_istream_t" where
  "pb_decode_varint stream = varint_loop stream 0 0"

lemma read_checked_bytes_left:
  "pb_read_checked stream count = (Some d, stream') \<Longrightarrow>
     bytes_left stream = bytes_left stream' + count"
  by (auto simp: pb_read_checked_def in_error_def split: if_splits prod.splits option.splits)

lemma read_one_bytes_left:
  "pb_read stream True (Suc 0) = (Some d, stream') \<Longrightarrow> bytes_left stream' < bytes_left stream"
  by (auto simp: pb_read_def dest!: read_checked_bytes_left)

function pb_skip_varint :: "pb_istream_t \<Rightarrow> bool \<times> pb_istream_t" where
  "pb_skip_varint stream =
     (case pb_read stream True 1 of
        (None, stream) \<Rightarrow> (False, stream)
      | (Some d, stream) \<Rightarrow>
          if d ! 0 AND 0x80 \<noteq> 0 then pb_skip_varint stream else (True, stream))"
  by pat_completeness auto
termination
  by (relation "measure bytes_left") (auto dest!: read_one_bytes_left [OF sym])

declare pb_skip_varint.simps [simp del]

section \<open>Tags and skipping\<close>

definition PB_WT_VARINT :: u32 where "PB_WT_VARINT = 0"
definition PB_WT_64BIT :: u32 where "PB_WT_64BIT = 1"
definition PB_WT_STRING :: u32 where "PB_WT_STRING = 2"
definition PB_WT_32BIT :: u32 where "PB_WT_32BIT = 5"

definition pb_skip_string :: "pb_istream_t \<Rightarrow> bool \<times> pb_istream_t" where
  "pb_skip_string stream =
     (case pb_decode_varint32 stream of
        (None, stream) \<Rightarrow> (False, stream)
      | (Some len, stream) \<Rightarrow>
          (case pb_read stream False (unat len) of (r, stream) \<Rightarrow> (r \<noteq> None, stream)))"

text \<open>The result: wire type and tag, then \<open>*eof\<close>.\<close>

definition pb_decode_tag :: "pb_istream_t \<Rightarrow> (u32 \<times> u32) option \<times> bool \<times> pb_istream_t" where
  "pb_decode_tag stream =
     (case pb_decode_varint32_eof stream False of
        (None, eof, stream) \<Rightarrow> (None, eof, stream)
      | (Some temp, eof, stream) \<Rightarrow>
          if temp = 0 then (None, True, stream)
          else (Some (temp AND 7, drop_bit 3 temp), eof, stream))"

definition pb_skip_field :: "pb_istream_t \<Rightarrow> u32 \<Rightarrow> bool \<times> pb_istream_t" where
  "pb_skip_field stream wire_type =
     (if wire_type = PB_WT_VARINT then pb_skip_varint stream
      else if wire_type = PB_WT_64BIT then
        (case pb_read stream False 8 of (r, stream) \<Rightarrow> (r \<noteq> None, stream))
      else if wire_type = PB_WT_STRING then pb_skip_string stream
      else if wire_type = PB_WT_32BIT then
        (case pb_read stream False 4 of (r, stream) \<Rightarrow> (r \<noteq> None, stream))
      else (False, snd (in_error ''invalid wire_type'' stream :: unit option \<times> _)))"

text \<open>\<open>read_raw_value\<close>: the varint loop copies at most \<open>max_size\<close> bytes.\<close>

function raw_varint_loop :: "pb_istream_t \<Rightarrow> nat \<Rightarrow> bytes \<Rightarrow> bytes option \<times> pb_istream_t" where
  "raw_varint_loop stream max_size buf =
     (if length buf + 1 > max_size then (None, stream)
      else case pb_read stream True 1 of
             (None, stream) \<Rightarrow> (None, stream)
           | (Some d, stream) \<Rightarrow>
               if d ! 0 AND 0x80 \<noteq> 0 then raw_varint_loop stream max_size (buf @ [d ! 0])
               else (Some (buf @ [d ! 0]), stream))"
  by pat_completeness auto
termination
  by (relation "measure (\<lambda>(stream, _). bytes_left stream)") (auto dest!: read_one_bytes_left [OF sym])

declare raw_varint_loop.simps [simp del]

definition read_raw_value :: "pb_istream_t \<Rightarrow> u32 \<Rightarrow> nat \<Rightarrow> bytes option \<times> pb_istream_t" where
  "read_raw_value stream wire_type max_size =
     (if wire_type = PB_WT_VARINT then raw_varint_loop stream max_size []
      else if wire_type = PB_WT_64BIT then pb_read stream True 8
      else if wire_type = PB_WT_32BIT then pb_read stream True 4
      else in_error ''invalid wire_type'' stream)"

section \<open>Substreams\<close>

definition pb_make_string_substream ::
  "pb_istream_t \<Rightarrow> pb_istream_t option \<times> pb_istream_t" where
  "pb_make_string_substream stream =
     (case pb_decode_varint32 stream of
        (None, stream) \<Rightarrow> (None, stream)
      | (Some len, stream) \<Rightarrow>
          if bytes_left stream < unat len then in_error ''parent stream too short'' stream
          else (Some (stream\<lparr>bytes_left := unat len\<rparr>),
                stream\<lparr>bytes_left := bytes_left stream - unat len\<rparr>))"

definition pb_close_string_substream ::
  "pb_istream_t \<Rightarrow> pb_istream_t \<Rightarrow> bool \<times> pb_istream_t \<times> pb_istream_t" where
  "pb_close_string_substream stream substream =
     (let (ok, substream) =
            (if bytes_left substream \<noteq> 0 then
               (case pb_read substream False (bytes_left substream) of
                  (r, substream) \<Rightarrow> (r \<noteq> None, substream))
             else (True, substream))
      in if \<not> ok then (False, stream, substream)
         else (True, stream\<lparr>state := state substream, errmsg := errmsg substream\<rparr>, substream))"

section \<open>Decoding single values\<close>

definition pb_decode_svarint :: "pb_istream_t \<Rightarrow> u64 option \<times> pb_istream_t" where
  "pb_decode_svarint stream =
     (case pb_decode_varint stream of
        (None, stream) \<Rightarrow> (None, stream)
      | (Some v, stream) \<Rightarrow>
          (Some (if v AND 1 \<noteq> 0 then NOT (drop_bit 1 v) else drop_bit 1 v), stream))"

definition pb_decode_fixed32 :: "pb_istream_t \<Rightarrow> u32 option \<times> pb_istream_t" where
  "pb_decode_fixed32 stream =
     (case pb_read stream True 4 of
        (None, stream) \<Rightarrow> (None, stream)
      | (Some d, stream) \<Rightarrow>
          (Some (push_bit 0 (ucast (d ! 0)) OR push_bit 8 (ucast (d ! 1)) OR
                 push_bit 16 (ucast (d ! 2)) OR push_bit 24 (ucast (d ! 3))), stream))"

definition pb_decode_fixed64 :: "pb_istream_t \<Rightarrow> u64 option \<times> pb_istream_t" where
  "pb_decode_fixed64 stream =
     (case pb_read stream True 8 of
        (None, stream) \<Rightarrow> (None, stream)
      | (Some d, stream) \<Rightarrow>
          (Some (push_bit 0 (ucast (d ! 0)) OR push_bit 8 (ucast (d ! 1)) OR
                 push_bit 16 (ucast (d ! 2)) OR push_bit 24 (ucast (d ! 3)) OR
                 push_bit 32 (ucast (d ! 4)) OR push_bit 40 (ucast (d ! 5)) OR
                 push_bit 48 (ucast (d ! 6)) OR push_bit 56 (ucast (d ! 7))), stream))"

definition pb_dec_bool :: "pb_istream_t \<Rightarrow> bool option \<times> pb_istream_t" where
  "pb_dec_bool stream =
     (case pb_decode_varint32 stream of
        (None, stream) \<Rightarrow> (None, stream)
      | (Some v, stream) \<Rightarrow> (Some (v \<noteq> 0), stream))"

definition pb_decode_bool :: "pb_istream_t \<Rightarrow> bool option \<times> pb_istream_t" where
  "pb_decode_bool stream = pb_dec_bool stream"

section \<open>Output streams\<close>

text \<open>\<open>None\<close> is the \<open>NULL\<close> callback of a sizing stream; \<open>buf_write\<close> appends to the state.\<close>

datatype pb_write_callback = Buf_write | Custom_write "bytes \<Rightarrow> bytes \<Rightarrow> bool \<times> bytes"

record pb_ostream_t =
  wcallback :: "pb_write_callback option"
  wstate :: bytes
  max_size :: nat
  bytes_written :: nat
  werrmsg :: "string option"

definition out_error :: "string \<Rightarrow> pb_ostream_t \<Rightarrow> bool \<times> pb_ostream_t" where
  "out_error msg stream = (False, stream\<lparr>werrmsg := PB_SET_ERROR (werrmsg stream) msg\<rparr>)"

definition buf_write :: "bytes \<Rightarrow> bytes \<Rightarrow> bool \<times> bytes" where
  "buf_write dest buf = (True, dest @ buf)"

definition pb_ostream_from_buffer :: "nat \<Rightarrow> pb_ostream_t" where
  "pb_ostream_from_buffer bufsize =
     \<lparr>wcallback = Some Buf_write, wstate = [], max_size = bufsize, bytes_written = 0, werrmsg = None\<rparr>"

definition PB_OSTREAM_SIZING :: pb_ostream_t where
  "PB_OSTREAM_SIZING =
     \<lparr>wcallback = None, wstate = [], max_size = 0, bytes_written = 0, werrmsg = None\<rparr>"

definition run_write :: "pb_write_callback \<Rightarrow> bytes \<Rightarrow> bytes \<Rightarrow> bool \<times> bytes" where
  "run_write cb s buf = (case cb of Buf_write \<Rightarrow> buf_write s buf | Custom_write f \<Rightarrow> f s buf)"

definition pb_write :: "pb_ostream_t \<Rightarrow> bytes \<Rightarrow> bool \<times> pb_ostream_t" where
  "pb_write stream buf =
     (let count = length buf;
          counted = (\<lambda>stream. (True, stream\<lparr>bytes_written := size_add (bytes_written stream) count\<rparr>))
      in case wcallback stream of
           None \<Rightarrow> counted stream
         | Some cb \<Rightarrow>
             if count > 0 then
               if size_add (bytes_written stream) count < bytes_written stream \<or>
                  size_add (bytes_written stream) count > max_size stream
               then out_error ''stream full'' stream
               else (case run_write cb (wstate stream) buf of
                       (False, s) \<Rightarrow> out_error ''io error'' (stream\<lparr>wstate := s\<rparr>)
                     | (True, s) \<Rightarrow> counted (stream\<lparr>wstate := s\<rparr>))
             else counted stream)"

section \<open>Encoding single values\<close>

function varint_bytes :: "u64 \<Rightarrow> bytes" where
  "varint_bytes v = (if v = 0 then [] else ucast ((v AND 0x7F) OR 0x80) # varint_bytes (drop_bit 7 v))"
  by pat_completeness auto
termination
proof (relation "measure unat")
  fix v :: u64 assume "v \<noteq> 0"
  then have "0 < unat v" by (simp add: unat_gt_0)
  then show "(drop_bit 7 v, v) \<in> measure unat"
    unfolding in_measure unat_drop_bit_eq by (simp add: drop_bit_eq_div)
qed simp

declare varint_bytes.simps [simp del]

definition pb_encode_varint :: "pb_ostream_t \<Rightarrow> u64 \<Rightarrow> bool \<times> pb_ostream_t" where
  "pb_encode_varint stream v =
     (if v \<le> 0x7F then pb_write stream [ucast v]
      else let buffer = varint_bytes v; i = length buffer
           in pb_write stream (buffer[i - 1 := buffer ! (i - 1) AND 0x7F]))"

definition pb_encode_svarint :: "pb_ostream_t \<Rightarrow> u64 \<Rightarrow> bool \<times> pb_ostream_t" where
  "pb_encode_svarint stream v =
     (let zigzagged = (if sint v < 0 then NOT (push_bit 1 v) else push_bit 1 v)
      in pb_encode_varint stream zigzagged)"

definition pb_encode_fixed32 :: "pb_ostream_t \<Rightarrow> u32 \<Rightarrow> bool \<times> pb_ostream_t" where
  "pb_encode_fixed32 stream val =
     pb_write stream [ucast (val AND 0xFF), ucast (drop_bit 8 val AND 0xFF),
       ucast (drop_bit 16 val AND 0xFF), ucast (drop_bit 24 val AND 0xFF)]"

definition pb_encode_fixed64 :: "pb_ostream_t \<Rightarrow> u64 \<Rightarrow> bool \<times> pb_ostream_t" where
  "pb_encode_fixed64 stream val =
     pb_write stream [ucast (val AND 0xFF), ucast (drop_bit 8 val AND 0xFF),
       ucast (drop_bit 16 val AND 0xFF), ucast (drop_bit 24 val AND 0xFF),
       ucast (drop_bit 32 val AND 0xFF), ucast (drop_bit 40 val AND 0xFF),
       ucast (drop_bit 48 val AND 0xFF), ucast (drop_bit 56 val AND 0xFF)]"

definition pb_encode_tag :: "pb_ostream_t \<Rightarrow> u32 \<Rightarrow> u32 \<Rightarrow> bool \<times> pb_ostream_t" where
  "pb_encode_tag stream wiretype field_number =
     pb_encode_varint stream (push_bit 3 (ucast field_number) OR ucast wiretype)"

definition pb_encode_string :: "pb_ostream_t \<Rightarrow> bytes \<Rightarrow> bool \<times> pb_ostream_t" where
  "pb_encode_string stream buffer =
     (case pb_encode_varint stream (of_nat (length buffer)) of
        (False, stream) \<Rightarrow> (False, stream)
      | (True, stream) \<Rightarrow> pb_write stream buffer)"

end
