(* ===== verification/Nanopb_Fields.thy ===== *)
theory Nanopb_Fields
  imports Nanopb
begin

text \<open>
  nanopb's field descriptors, the field iterator of \<open>pb_common.c\<close>, and the codecs that move
  one field value between a stream and the message structure. A value in the structure is
  the little-endian bytes at its address; storage that \<open>pb_realloc\<close> provides is a parameter
  that says which requests succeed.
\<close>

unbundle bit_operations_syntax

section \<open>Descriptors\<close>

definition PB_LTYPE_BOOL :: u8 where "PB_LTYPE_BOOL = 0x00"
definition PB_LTYPE_VARINT :: u8 where "PB_LTYPE_VARINT = 0x01"
definition PB_LTYPE_UVARINT :: u8 where "PB_LTYPE_UVARINT = 0x02"
definition PB_LTYPE_SVARINT :: u8 where "PB_LTYPE_SVARINT = 0x03"
definition PB_LTYPE_FIXED32 :: u8 where "PB_LTYPE_FIXED32 = 0x04"
definition PB_LTYPE_FIXED64 :: u8 where "PB_LTYPE_FIXED64 = 0x05"
definition PB_LTYPE_LAST_PACKABLE :: u8 where "PB_LTYPE_LAST_PACKABLE = 0x05"
definition PB_LTYPE_BYTES :: u8 where "PB_LTYPE_BYTES = 0x06"
definition PB_LTYPE_STRING :: u8 where "PB_LTYPE_STRING = 0x07"
definition PB_LTYPE_SUBMESSAGE :: u8 where "PB_LTYPE_SUBMESSAGE = 0x08"
definition PB_LTYPE_EXTENSION :: u8 where "PB_LTYPE_EXTENSION = 0x09"
definition PB_LTYPE_FIXED_LENGTH_BYTES :: u8 where "PB_LTYPE_FIXED_LENGTH_BYTES = 0x0A"
definition PB_LTYPE_MASK :: u8 where "PB_LTYPE_MASK = 0x0F"

definition PB_HTYPE_REQUIRED :: u8 where "PB_HTYPE_REQUIRED = 0x00"
definition PB_HTYPE_OPTIONAL :: u8 where "PB_HTYPE_OPTIONAL = 0x10"
definition PB_HTYPE_REPEATED :: u8 where "PB_HTYPE_REPEATED = 0x20"
definition PB_HTYPE_ONEOF :: u8 where "PB_HTYPE_ONEOF = 0x30"
definition PB_HTYPE_MASK :: u8 where "PB_HTYPE_MASK = 0x30"

definition PB_ATYPE_STATIC :: u8 where "PB_ATYPE_STATIC = 0x00"
definition PB_ATYPE_POINTER :: u8 where "PB_ATYPE_POINTER = 0x80"
definition PB_ATYPE_CALLBACK :: u8 where "PB_ATYPE_CALLBACK = 0x40"
definition PB_ATYPE_MASK :: u8 where "PB_ATYPE_MASK = 0xC0"

lemmas ltype_values = PB_LTYPE_BOOL_def PB_LTYPE_VARINT_def PB_LTYPE_UVARINT_def PB_LTYPE_SVARINT_def
  PB_LTYPE_FIXED32_def PB_LTYPE_FIXED64_def PB_LTYPE_BYTES_def PB_LTYPE_STRING_def PB_LTYPE_SUBMESSAGE_def
  PB_LTYPE_EXTENSION_def PB_LTYPE_FIXED_LENGTH_BYTES_def

lemmas atype_values = PB_ATYPE_STATIC_def PB_ATYPE_POINTER_def PB_ATYPE_CALLBACK_def
lemmas htype_values = PB_HTYPE_REQUIRED_def PB_HTYPE_OPTIONAL_def PB_HTYPE_REPEATED_def PB_HTYPE_ONEOF_def

definition PB_ATYPE :: "u8 \<Rightarrow> u8" where "PB_ATYPE x = x AND PB_ATYPE_MASK"
definition PB_HTYPE :: "u8 \<Rightarrow> u8" where "PB_HTYPE x = x AND PB_HTYPE_MASK"
definition PB_LTYPE :: "u8 \<Rightarrow> u8" where "PB_LTYPE x = x AND PB_LTYPE_MASK"

lemma htype_cases:
  "PB_HTYPE t = PB_HTYPE_REQUIRED \<or> PB_HTYPE t = PB_HTYPE_OPTIONAL \<or> PB_HTYPE t = PB_HTYPE_REPEATED \<or>
   PB_HTYPE t = PB_HTYPE_ONEOF"
  unfolding PB_HTYPE_def PB_HTYPE_MASK_def htype_values by (rule u8_by_eval [where b = t]) code_simp

definition PB_SIZE_MAX :: u32 where "PB_SIZE_MAX = - 1"

text \<open>
  \<open>ptr\<close> of a descriptor is \<open>NULL\<close>, points to the default value of the field, or points to the
  descriptor table of a submessage; tables are numbered, since they may refer to each other.
\<close>

datatype pb_ptr = Ptr_null | Ptr_default bytes | Ptr_fields nat

record pb_field_t =
  ftag :: u32
  ftype :: u8
  data_offset :: u32
  size_offset :: "32 word"
  data_size :: u32
  array_size :: u32
  fptr :: pb_ptr

section \<open>The field iterator (pb_common.c)\<close>

text \<open>
  A descriptor table is the list of its entries, the terminator (tag 0) last; \<open>pos\<close> is an
  index into it. \<open>pData\<close> and \<open>pSize\<close> are addresses.
\<close>

record pb_field_iter_t =
  ftable :: "pb_field_t list"
  pos :: nat
  required_field_index :: nat
  dest_struct :: int
  pData :: int
  pSize :: int

definition cur :: "pb_field_iter_t \<Rightarrow> pb_field_t" where
  "cur iter = ftable iter ! pos iter"

definition pb_field_iter_begin :: "pb_field_t list \<Rightarrow> int \<Rightarrow> bool \<times> pb_field_iter_t" where
  "pb_field_iter_begin fs dest =
     (let f = fs ! 0; d = dest + uint (data_offset f)
      in (ftag f \<noteq> 0,
          \<lparr>ftable = fs, pos = 0, required_field_index = 0, dest_struct = dest,
           pData = d, pSize = d + sint (size_offset f)\<rparr>))"

text \<open>\<open>sizeof(void *)\<close> is 8 on the targets.\<close>

definition pb_field_iter_next :: "pb_field_iter_t \<Rightarrow> bool \<times> pb_field_iter_t" where
  "pb_field_iter_next iter =
     (let prev_field = cur iter
      in if ftag prev_field = 0 then (False, iter)
         else
           let iter = iter\<lparr>pos := pos iter + 1\<rparr>
           in if ftag (cur iter) = 0
              then (False, snd (pb_field_iter_begin (ftable iter) (dest_struct iter)))
              else if PB_HTYPE (ftype prev_field) = PB_HTYPE_ONEOF \<and>
                      PB_HTYPE (ftype (cur iter)) = PB_HTYPE_ONEOF \<and>
                      data_offset (cur iter) = PB_SIZE_MAX
              then (True, iter)
              else
                let prev_size =
                      (if PB_ATYPE (ftype prev_field) = PB_ATYPE_STATIC \<and>
                          PB_HTYPE (ftype prev_field) = PB_HTYPE_REPEATED
                       then uint (data_size prev_field) * uint (array_size prev_field)
                       else if PB_ATYPE (ftype prev_field) = PB_ATYPE_POINTER then 8
                       else uint (data_size prev_field));
                    required =
                      (if PB_HTYPE (ftype prev_field) = PB_HTYPE_REQUIRED
                       then required_field_index iter + 1 else required_field_index iter);
                    d = pData iter + prev_size + uint (data_offset (cur iter))
                in (True, iter\<lparr>required_field_index := required, pData := d,
                               pSize := d + sint (size_offset (cur iter))\<rparr>))"

text \<open>
  The loop of \<open>pb_field_iter_find\<close> from the position \<open>start\<close>. \<open>fuel\<close> bounds the number of
  turns; \<open>None\<close> is a run that does not end within it.
\<close>

fun iter_find_loop :: "nat \<Rightarrow> pb_field_iter_t \<Rightarrow> nat \<Rightarrow> u32 \<Rightarrow> (bool \<times> pb_field_iter_t) option" where
  "iter_find_loop 0 iter start t = None"
| "iter_find_loop (Suc fuel) iter start t =
     (if ftag (cur iter) = t \<and> PB_LTYPE (ftype (cur iter)) \<noteq> PB_LTYPE_EXTENSION
      then Some (True, iter)
      else let iter = snd (pb_field_iter_next iter)
           in if pos iter \<noteq> start then iter_find_loop fuel iter start t else Some (False, iter))"

definition pb_field_iter_find :: "pb_field_iter_t \<Rightarrow> u32 \<Rightarrow> (bool \<times> pb_field_iter_t) option" where
  "pb_field_iter_find iter t = iter_find_loop (length (ftable iter)) iter (pos iter) t"

section \<open>Integers in the structure\<close>

text \<open>The value of a signed field of \<open>n\<close> bytes, sign-extended to 64 bits, and the two
  truncating stores followed by a read back.\<close>

definition sext :: "nat \<Rightarrow> u64 \<Rightarrow> u64" where
  "sext n v = signed_take_bit (8 * n - 1) v"

definition zext :: "nat \<Rightarrow> u64 \<Rightarrow> u64" where
  "zext n v = take_bit (8 * n) v"

definition int_size :: "u32 \<Rightarrow> bool" where
  "int_size n \<longleftrightarrow> n \<in> {1, 2, 4, 8}"

text \<open>
  Each decoder's result is the bytes stored at \<open>dest\<close>; \<open>None\<close> in it means nothing was stored,
  the flag is the return value.
\<close>

definition pb_dec_varint :: "pb_istream_t \<Rightarrow> pb_field_t \<Rightarrow> bool \<times> bytes option \<times> pb_istream_t" where
  "pb_dec_varint stream field =
     (case pb_decode_varint stream of
        (None, stream) \<Rightarrow> (False, None, stream)
      | (Some v, stream) \<Rightarrow>
          let svalue = (if data_size field = 8 then v else scast (ucast v :: 32 word))
          in if int_size (data_size field) then
               let clamped = sext (unat (data_size field)) svalue;
                   dest = le_bytes (unat (data_size field)) (unat svalue)
               in if clamped \<noteq> svalue
                  then (case in_error ''integer too large'' stream :: unit option \<times> _ of
                          (_, stream) \<Rightarrow> (False, Some dest, stream))
                  else (True, Some dest, stream)
             else (case in_error ''invalid data_size'' stream :: unit option \<times> _ of
                     (_, stream) \<Rightarrow> (False, None, stream)))"

definition pb_dec_uvarint :: "pb_istream_t \<Rightarrow> pb_field_t \<Rightarrow> bool \<times> bytes option \<times> pb_istream_t" where
  "pb_dec_uvarint stream field =
     (case pb_decode_varint stream of
        (None, stream) \<Rightarrow> (False, None, stream)
      | (Some v, stream) \<Rightarrow>
          if int_size (data_size field) then
            let clamped = zext (unat (data_size field)) v;
                dest = le_bytes (unat (data_size field)) (unat v)
            in if clamped \<noteq> v
               then (case in_error ''integer too large'' stream :: unit option \<times> _ of
                       (_, stream) \<Rightarrow> (False, Some dest, stream))
               else (True, Some dest, stream)
          else (case in_error ''invalid data_size'' stream :: unit option \<times> _ of
                  (_, stream) \<Rightarrow> (False, None, stream)))"

definition pb_dec_svarint :: "pb_istream_t \<Rightarrow> pb_field_t \<Rightarrow> bool \<times> bytes option \<times> pb_istream_t" where
  "pb_dec_svarint stream field =
     (case pb_decode_svarint stream of
        (None, stream) \<Rightarrow> (False, None, stream)
      | (Some v, stream) \<Rightarrow>
          if int_size (data_size field) then
            let clamped = sext (unat (data_size field)) v;
                dest = le_bytes (unat (data_size field)) (unat v)
            in if clamped \<noteq> v
               then (case in_error ''integer too large'' stream :: unit option \<times> _ of
                       (_, stream) \<Rightarrow> (False, Some dest, stream))
               else (True, Some dest, stream)
          else (case in_error ''invalid data_size'' stream :: unit option \<times> _ of
                  (_, stream) \<Rightarrow> (False, None, stream)))"

definition pb_dec_fixed32 :: "pb_istream_t \<Rightarrow> pb_field_t \<Rightarrow> u32 option \<times> pb_istream_t" where
  "pb_dec_fixed32 stream field = pb_decode_fixed32 stream"

definition pb_dec_fixed64 :: "pb_istream_t \<Rightarrow> pb_field_t \<Rightarrow> u64 option \<times> pb_istream_t" where
  "pb_dec_fixed64 stream field = pb_decode_fixed64 stream"

section \<open>Byte strings in the structure\<close>

text \<open>\<open>realloc n\<close>: whether a request for \<open>n\<close> bytes succeeds. The multiplication is guarded by
  the check on \<open>size_max / array_size\<close>.\<close>

definition allocate_field :: "(nat \<Rightarrow> bool) \<Rightarrow> pb_istream_t \<Rightarrow> nat \<Rightarrow> nat \<Rightarrow> bool \<times> pb_istream_t" where
  "allocate_field realloc stream dsize asize =
     (let fail = (\<lambda>msg. (False, snd (in_error msg stream :: unit option \<times> _)))
      in if dsize = 0 \<or> asize = 0 then fail ''invalid size''
         else if (dsize \<ge> 2 ^ 32 \<or> asize \<ge> 2 ^ 32) \<and> (size_limit - 1) div asize < dsize
         then fail ''size too large''
         else if \<not> realloc (size_mul asize dsize) then fail ''realloc failed''
         else (True, stream))"

definition PB_BYTES_ARRAY_T_ALLOCSIZE :: "nat \<Rightarrow> nat" where
  "PB_BYTES_ARRAY_T_ALLOCSIZE n = size_add n 4"

definition dec_error :: "string \<Rightarrow> pb_istream_t \<Rightarrow> bytes option \<times> pb_istream_t" where
  "dec_error = in_error"

text \<open>The result of the three decoders is the byte string stored, without the length word of
  a bytes array and without the terminator of a string.\<close>

definition pb_dec_bytes ::
  "(nat \<Rightarrow> bool) \<Rightarrow> pb_istream_t \<Rightarrow> pb_field_t \<Rightarrow> bytes option \<times> pb_istream_t" where
  "pb_dec_bytes realloc stream field =
     (case pb_decode_varint32 stream of
        (None, stream) \<Rightarrow> (None, stream)
      | (Some n, stream) \<Rightarrow>
          if n > PB_SIZE_MAX then dec_error ''bytes overflow'' stream
          else
            let alloc_size = PB_BYTES_ARRAY_T_ALLOCSIZE (unat n)
            in if unat n > alloc_size then dec_error ''size too large'' stream
               else if PB_ATYPE (ftype field) = PB_ATYPE_POINTER then
                 (case allocate_field realloc stream alloc_size 1 of
                    (False, stream) \<Rightarrow> (None, stream)
                  | (True, stream) \<Rightarrow> pb_read stream True (unat n))
               else if alloc_size > unat (data_size field) then dec_error ''bytes overflow'' stream
               else pb_read stream True (unat n))"

text \<open>\<open>alloc_size\<close> is computed in 32 bits before it is widened.\<close>

definition pb_dec_string ::
  "(nat \<Rightarrow> bool) \<Rightarrow> pb_istream_t \<Rightarrow> pb_field_t \<Rightarrow> bytes option \<times> pb_istream_t" where
  "pb_dec_string realloc stream field =
     (case pb_decode_varint32 stream of
        (None, stream) \<Rightarrow> (None, stream)
      | (Some n, stream) \<Rightarrow>
          let alloc_size = unat (n + 1)
          in if alloc_size < unat n then dec_error ''size too large'' stream
             else if PB_ATYPE (ftype field) = PB_ATYPE_POINTER then
               (case allocate_field realloc stream alloc_size 1 of
                  (False, stream) \<Rightarrow> (None, stream)
                | (True, stream) \<Rightarrow> pb_read stream True (unat n))
             else if alloc_size > unat (data_size field) then dec_error ''string overflow'' stream
             else pb_read stream True (unat n))"

definition pb_dec_fixed_length_bytes ::
  "pb_istream_t \<Rightarrow> pb_field_t \<Rightarrow> bytes option \<times> pb_istream_t" where
  "pb_dec_fixed_length_bytes stream field =
     (case pb_decode_varint32 stream of
        (None, stream) \<Rightarrow> (None, stream)
      | (Some n, stream) \<Rightarrow>
          if n > PB_SIZE_MAX then dec_error ''bytes overflow'' stream
          else if n = 0 then (Some (replicate (unat (data_size field)) 0), stream)
          else if n \<noteq> data_size field then dec_error ''incorrect fixed length bytes size'' stream
          else pb_read stream True (unat (data_size field)))"

section \<open>Encoding field values\<close>

definition safe_read_bool :: "bytes \<Rightarrow> bool" where
  "safe_read_bool p \<longleftrightarrow> p ! 0 \<noteq> 0"

definition pb_enc_bool :: "pb_ostream_t \<Rightarrow> bytes \<Rightarrow> bool \<times> pb_ostream_t" where
  "pb_enc_bool stream src = pb_encode_varint stream (if safe_read_bool src then 1 else 0)"

definition pb_enc_varint :: "pb_ostream_t \<Rightarrow> pb_field_t \<Rightarrow> bytes \<Rightarrow> bool \<times> pb_ostream_t" where
  "pb_enc_varint stream field src =
     (if int_size (data_size field)
      then pb_encode_varint stream (sext (unat (data_size field)) (of_nat (le_val src)))
      else out_error ''invalid data_size'' stream)"

definition pb_enc_uvarint :: "pb_ostream_t \<Rightarrow> pb_field_t \<Rightarrow> bytes \<Rightarrow> bool \<times> pb_ostream_t" where
  "pb_enc_uvarint stream field src =
     (if int_size (data_size field)
      then pb_encode_varint stream (of_nat (le_val src))
      else out_error ''invalid data_size'' stream)"

definition pb_enc_svarint :: "pb_ostream_t \<Rightarrow> pb_field_t \<Rightarrow> bytes \<Rightarrow> bool \<times> pb_ostream_t" where
  "pb_enc_svarint stream field src =
     (if int_size (data_size field)
      then pb_encode_svarint stream (sext (unat (data_size field)) (of_nat (le_val src)))
      else out_error ''invalid data_size'' stream)"

definition pb_enc_fixed32 :: "pb_ostream_t \<Rightarrow> pb_field_t \<Rightarrow> u32 \<Rightarrow> bool \<times> pb_ostream_t" where
  "pb_enc_fixed32 stream field src = pb_encode_fixed32 stream src"

definition pb_enc_fixed64 :: "pb_ostream_t \<Rightarrow> pb_field_t \<Rightarrow> u64 \<Rightarrow> bool \<times> pb_ostream_t" where
  "pb_enc_fixed64 stream field src = pb_encode_fixed64 stream src"

text \<open>The source is the contents of the bytes array; \<open>None\<close> is a \<open>NULL\<close> pointer.\<close>

definition pb_enc_bytes :: "pb_ostream_t \<Rightarrow> pb_field_t \<Rightarrow> bytes option \<Rightarrow> bool \<times> pb_ostream_t" where
  "pb_enc_bytes stream field src =
     (case src of
        None \<Rightarrow> pb_encode_string stream []
      | Some d \<Rightarrow>
          let allocsize = PB_BYTES_ARRAY_T_ALLOCSIZE (length d)
          in if allocsize < length d \<or>
                (PB_ATYPE (ftype field) = PB_ATYPE_STATIC \<and> allocsize > unat (data_size field))
             then out_error ''bytes size exceeded'' stream
             else pb_encode_string stream d)"

fun string_size :: "nat \<Rightarrow> bytes \<Rightarrow> nat" where
  "string_size 0 p = 0"
| "string_size (Suc n) [] = 0"
| "string_size (Suc n) (c # p) = (if c \<noteq> 0 then Suc (string_size n p) else 0)"

definition pb_enc_string :: "pb_ostream_t \<Rightarrow> pb_field_t \<Rightarrow> bytes option \<Rightarrow> bool \<times> pb_ostream_t" where
  "pb_enc_string stream field src =
     (let mx = (if PB_ATYPE (ftype field) = PB_ATYPE_POINTER then size_limit - 1
                else unat (data_size field))
      in case src of
           None \<Rightarrow> pb_encode_string stream []
         | Some p \<Rightarrow> pb_encode_string stream (take (string_size mx p) p))"

definition pb_enc_fixed_length_bytes ::
  "pb_ostream_t \<Rightarrow> pb_field_t \<Rightarrow> bytes \<Rightarrow> bool \<times> pb_ostream_t" where
  "pb_enc_fixed_length_bytes stream field src =
     pb_encode_string stream (take (unat (data_size field)) src)"

definition pb_encode_tag_for_field :: "pb_ostream_t \<Rightarrow> pb_field_t \<Rightarrow> bool \<times> pb_ostream_t" where
  "pb_encode_tag_for_field stream field =
     (let lt = PB_LTYPE (ftype field)
      in if lt \<in> {PB_LTYPE_BOOL, PB_LTYPE_VARINT, PB_LTYPE_UVARINT, PB_LTYPE_SVARINT}
         then pb_encode_tag stream PB_WT_VARINT (ftag field)
         else if lt = PB_LTYPE_FIXED32 then pb_encode_tag stream PB_WT_32BIT (ftag field)
         else if lt = PB_LTYPE_FIXED64 then pb_encode_tag stream PB_WT_64BIT (ftag field)
         else if lt \<in> {PB_LTYPE_BYTES, PB_LTYPE_STRING, PB_LTYPE_SUBMESSAGE, PB_LTYPE_FIXED_LENGTH_BYTES}
         then pb_encode_tag stream PB_WT_STRING (ftag field)
         else out_error ''invalid field type'' stream)"

end
