(* ===== verification/Nanopb_Memory.thy ===== *)
theory Nanopb_Memory
  imports Nanopb_Fields
begin

text \<open>
  The memory that nanopb's message functions work on: bytes at integer addresses, with the
  blocks that \<open>realloc\<close> has handed out. Structures of the caller, blocks of the heap and the one
  local variable whose address is taken live in it. Numbers and pointers are stored little
  endian; \<open>NULL\<close> is the address 0.
\<close>

section \<open>Loads and stores\<close>

record pb_heap =
  mem :: "int \<Rightarrow> u8"
  live :: "int \<rightharpoonup> nat"

definition load :: "pb_heap \<Rightarrow> int \<Rightarrow> nat \<Rightarrow> bytes" where
  "load h a n = map (\<lambda>i. mem h (a + int i)) [0..<n]"

definition store :: "pb_heap \<Rightarrow> int \<Rightarrow> bytes \<Rightarrow> pb_heap" where
  "store h a d =
     h\<lparr>mem := \<lambda>x. if a \<le> x \<and> x < a + int (length d) then d ! nat (x - a) else mem h x\<rparr>"

definition load_num :: "pb_heap \<Rightarrow> int \<Rightarrow> nat \<Rightarrow> nat" where
  "load_num h a n = le_val (load h a n)"

text \<open>\<open>pb_size_t\<close> has 4 bytes, a pointer 8.\<close>

definition load_size :: "pb_heap \<Rightarrow> int \<Rightarrow> u32" where
  "load_size h a = of_nat (load_num h a 4)"

definition store_size :: "pb_heap \<Rightarrow> int \<Rightarrow> u32 \<Rightarrow> pb_heap" where
  "store_size h a n = store h a (le_bytes 4 (unat n))"

definition load_ptr :: "pb_heap \<Rightarrow> int \<Rightarrow> int" where
  "load_ptr h a = int (load_num h a 8)"

definition store_ptr :: "pb_heap \<Rightarrow> int \<Rightarrow> int \<Rightarrow> pb_heap" where
  "store_ptr h a p = store h a (le_bytes 8 (nat p))"

definition store_bool :: "pb_heap \<Rightarrow> int \<Rightarrow> bool \<Rightarrow> pb_heap" where
  "store_bool h a b = store h a [if b then 1 else 0]"

section \<open>The allocator\<close>

text \<open>
  The C library's \<open>realloc\<close> and \<open>free\<close>. \<open>place h p n\<close> is the address the library chooses for
  a block of \<open>n\<close> bytes that replaces the block \<open>p\<close> (which it may extend in place), \<open>None\<close>
  when it has none; the old contents are moved, as far as they fit.
\<close>

type_synonym pb_place = "pb_heap \<Rightarrow> int \<Rightarrow> nat \<Rightarrow> int option"

definition block_size :: "pb_heap \<Rightarrow> int \<Rightarrow> nat" where
  "block_size h p = (case live h p of None \<Rightarrow> 0 | Some n \<Rightarrow> n)"

definition pb_free :: "pb_heap \<Rightarrow> int \<Rightarrow> pb_heap" where
  "pb_free h p = (if p = 0 then h else h\<lparr>live := (live h)(p := None)\<rparr>)"

definition pb_realloc :: "pb_place \<Rightarrow> pb_heap \<Rightarrow> int \<Rightarrow> nat \<Rightarrow> int \<times> pb_heap" where
  "pb_realloc place h p n =
     (case place h p n of
        None \<Rightarrow> (0, h)
      | Some a \<Rightarrow>
          let old = load h p (min n (block_size h p));
              h = store (pb_free h p) a old
          in (a, h\<lparr>live := (live h)(a \<mapsto> n)\<rparr>))"

section \<open>The caller's side\<close>

text \<open>
  What the library is given besides the memory: the descriptor tables by number, the
  allocator, the functions behind the function pointers of callback fields, and the
  extension types behind their addresses. A function pointer is its address.
\<close>

type_synonym pb_dec_callback =
  "pb_istream_t \<Rightarrow> pb_field_t \<Rightarrow> int \<Rightarrow> pb_heap \<Rightarrow> bool \<times> pb_istream_t \<times> pb_heap"

type_synonym pb_enc_callback =
  "pb_ostream_t \<Rightarrow> pb_field_t \<Rightarrow> int \<Rightarrow> pb_heap \<Rightarrow> bool \<times> pb_ostream_t"

record pb_extension_type_t =
  ext_decode :: "(pb_istream_t \<Rightarrow> int \<Rightarrow> u32 \<Rightarrow> u32 \<Rightarrow> pb_heap \<Rightarrow> bool \<times> pb_istream_t \<times> pb_heap) option"
  ext_encode :: "(pb_ostream_t \<Rightarrow> int \<Rightarrow> pb_heap \<Rightarrow> bool \<times> pb_ostream_t) option"
  ext_arg :: nat

record pb_env =
  tables :: "nat \<Rightarrow> pb_field_t list"
  place :: pb_place
  dec_callback :: "int \<Rightarrow> pb_dec_callback"
  enc_callback :: "int \<Rightarrow> pb_enc_callback"
  ext_types :: "int \<Rightarrow> pb_extension_type_t"

text \<open>Members of \<open>pb_extension_t\<close> (\<open>type\<close>, \<open>dest\<close>, \<open>next\<close>, \<open>found\<close>), of \<open>pb_callback_t\<close>
  (\<open>funcs\<close>, \<open>arg\<close>) and of \<open>pb_bytes_array_t\<close> (\<open>size\<close>, \<open>bytes\<close>).\<close>

definition extension_type :: "pb_env \<Rightarrow> pb_heap \<Rightarrow> int \<Rightarrow> pb_extension_type_t" where
  "extension_type E h e = ext_types E (load_ptr h e)"

definition extension_dest :: "int \<Rightarrow> int" where "extension_dest e = e + 8"
definition extension_next :: "pb_heap \<Rightarrow> int \<Rightarrow> int" where "extension_next h e = load_ptr h (e + 16)"
definition extension_found :: "int \<Rightarrow> int" where "extension_found e = e + 24"
definition callback_arg :: "int \<Rightarrow> int" where "callback_arg c = c + 8"
definition bytes_of_array :: "int \<Rightarrow> int" where "bytes_of_array b = b + 4"

section \<open>Allocated fields\<close>

text \<open>\<open>allocate_field\<close> with its store of the new pointer at \<open>pData\<close>.\<close>

definition allocate_field_at ::
  "pb_env \<Rightarrow> pb_istream_t \<Rightarrow> int \<Rightarrow> nat \<Rightarrow> nat \<Rightarrow> pb_heap \<Rightarrow> bool \<times> pb_istream_t \<times> pb_heap" where
  "allocate_field_at E stream pd dsize asize h =
     (let p = load_ptr h pd;
          fail = (\<lambda>msg h. (False, snd (in_error msg stream :: unit option \<times> _), h))
      in if dsize = 0 \<or> asize = 0 then fail ''invalid size'' h
         else if (dsize \<ge> 2 ^ 32 \<or> asize \<ge> 2 ^ 32) \<and> (size_limit - 1) div asize < dsize
         then fail ''size too large'' h
         else case pb_realloc (place E) h p (size_mul asize dsize) of
                (q, h) \<Rightarrow> if q = 0 then fail ''realloc failed'' h else (True, stream, store_ptr h pd q))"

text \<open>The address of an array entry: the product of the two 32-bit numbers has 32 bits.\<close>

definition item_at :: "int \<Rightarrow> pb_field_t \<Rightarrow> u32 \<Rightarrow> int" where
  "item_at base field i = base + uint (data_size field * i)"

definition submsg_fields :: "pb_field_t \<Rightarrow> nat option" where
  "submsg_fields field = (case fptr field of Ptr_fields t \<Rightarrow> Some t | _ \<Rightarrow> None)"

end
