(* ===== verification/Nanopb_Encode.thy ===== *)
theory Nanopb_Encode
  imports Nanopb_Memory
begin

text \<open>
  nanopb's encoding of a message in memory (\<open>pb_encode.c\<close>): basic and callback fields,
  arrays, extensions, submessages, and \<open>pb_encode\<close>. As in the decoder, \<open>None\<close> is a run that
  does not end within the fuel or that calls through a null function pointer, and the encoder
  of a submessage is a parameter until the recursion is closed in \<open>pb_encode\<close>.
\<close>

type_synonym enc_result = "(bool \<times> pb_ostream_t) option"

definition enc_fail :: "string \<Rightarrow> pb_ostream_t \<Rightarrow> enc_result" where
  "enc_fail msg stream = Some (out_error msg stream)"

text \<open>The first steps of a sequence, and the others when they succeed.\<close>

definition enc_then :: "enc_result \<Rightarrow> (pb_ostream_t \<Rightarrow> enc_result) \<Rightarrow> enc_result" where
  "enc_then r f =
     (case r of None \<Rightarrow> None | Some (False, stream) \<Rightarrow> Some (False, stream) | Some (True, stream) \<Rightarrow> f stream)"

text \<open>\<open>pb_write(stream, NULL, size)\<close> on a stream without a callback.\<close>

definition write_sizing :: "pb_ostream_t \<Rightarrow> nat \<Rightarrow> bool \<times> pb_ostream_t" where
  "write_sizing stream n = (True, stream\<lparr>bytes_written := size_add (bytes_written stream) n\<rparr>)"

section \<open>Submessages\<close>

type_synonym sub_encoder = "pb_ostream_t \<Rightarrow> nat \<Rightarrow> int \<Rightarrow> enc_result"

type_synonym item_encoder = "pb_ostream_t \<Rightarrow> pb_field_t \<Rightarrow> int \<Rightarrow> enc_result"

text \<open>The size is computed first, by an encoding that writes nothing; the second encoding goes
  through a stream limited to that size.\<close>

definition pb_encode_submessage :: "sub_encoder \<Rightarrow> pb_ostream_t \<Rightarrow> nat \<Rightarrow> int \<Rightarrow> enc_result" where
  "pb_encode_submessage enc stream m src =
     (case enc PB_OSTREAM_SIZING m src of
        None \<Rightarrow> None
      | Some (False, substream) \<Rightarrow> Some (False, stream\<lparr>werrmsg := werrmsg substream\<rparr>)
      | Some (True, substream) \<Rightarrow>
          let n = bytes_written substream
          in enc_then (Some (pb_encode_varint stream (of_nat n))) (\<lambda>stream.
               if wcallback stream = None then Some (write_sizing stream n)
               else if size_add (bytes_written stream) n > max_size stream
               then enc_fail ''stream full'' stream
               else
                 let substream = \<lparr>wcallback = wcallback stream, wstate = wstate stream, max_size = n,
                                  bytes_written = 0, werrmsg = None\<rparr>
                 in case enc substream m src of
                      None \<Rightarrow> None
                    | Some (status, substream) \<Rightarrow>
                        let stream = stream\<lparr>bytes_written := size_add (bytes_written stream) (bytes_written substream),
                                            wstate := wstate substream, werrmsg := werrmsg substream\<rparr>
                        in if bytes_written substream \<noteq> n then enc_fail ''submsg size changed'' stream
                           else Some (status, stream)))"

definition pb_enc_submessage :: "sub_encoder \<Rightarrow> item_encoder" where
  "pb_enc_submessage enc stream field src =
     (case submsg_fields field of
        None \<Rightarrow> enc_fail ''invalid field descriptor'' stream
      | Some m \<Rightarrow> pb_encode_submessage enc stream m src)"

section \<open>Encoding one value\<close>

text \<open>The length of the C string at \<open>a\<close>, at most the first argument.\<close>

fun c_strnlen :: "nat \<Rightarrow> pb_heap \<Rightarrow> int \<Rightarrow> nat" where
  "c_strnlen 0 h a = 0"
| "c_strnlen (Suc k) h a = (if mem h a \<noteq> 0 then Suc (c_strnlen k h (a + 1)) else 0)"

definition pb_enc_string_at :: "pb_heap \<Rightarrow> item_encoder" where
  "pb_enc_string_at h stream field src =
     (let mx = (if PB_ATYPE (ftype field) = PB_ATYPE_POINTER then size_limit - 1 else unat (data_size field));
          n = (if src = 0 then 0 else c_strnlen mx h src)
      in Some (pb_encode_string stream (load h src n)))"

definition pb_enc_bytes_at :: "pb_heap \<Rightarrow> item_encoder" where
  "pb_enc_bytes_at h stream field src =
     Some (pb_enc_bytes stream field
             (if src = 0 then None else Some (load h (bytes_of_array src) (unat (load_size h src)))))"

text \<open>The table \<open>PB_ENCODERS\<close>.\<close>

definition PB_ENCODERS :: "pb_heap \<Rightarrow> sub_encoder \<Rightarrow> u8 \<Rightarrow> item_encoder option" where
  "PB_ENCODERS h enc lt =
     (let number = (\<lambda>f :: pb_ostream_t \<Rightarrow> pb_field_t \<Rightarrow> bytes \<Rightarrow> bool \<times> pb_ostream_t.
            Some (\<lambda>stream field src. Some (f stream field (load h src (unat (data_size field))))))
      in if lt = PB_LTYPE_BOOL then Some (\<lambda>stream field src. Some (pb_enc_bool stream (load h src 1)))
         else if lt = PB_LTYPE_VARINT then number pb_enc_varint
         else if lt = PB_LTYPE_UVARINT then number pb_enc_uvarint
         else if lt = PB_LTYPE_SVARINT then number pb_enc_svarint
         else if lt = PB_LTYPE_FIXED32 then
           Some (\<lambda>stream field src. Some (pb_enc_fixed32 stream field (of_nat (load_num h src 4))))
         else if lt = PB_LTYPE_FIXED64 then
           Some (\<lambda>stream field src. Some (pb_enc_fixed64 stream field (of_nat (load_num h src 8))))
         else if lt = PB_LTYPE_BYTES then Some (pb_enc_bytes_at h)
         else if lt = PB_LTYPE_STRING then Some (pb_enc_string_at h)
         else if lt = PB_LTYPE_SUBMESSAGE then Some (pb_enc_submessage enc)
         else if lt = PB_LTYPE_FIXED_LENGTH_BYTES then number pb_enc_fixed_length_bytes
         else None)"

definition run_encoder :: "pb_heap \<Rightarrow> sub_encoder \<Rightarrow> item_encoder" where
  "run_encoder h enc stream field src =
     (case PB_ENCODERS h enc (PB_LTYPE (ftype field)) of
        None \<Rightarrow> None
      | Some f \<Rightarrow> f stream field src)"

section \<open>Arrays\<close>

text \<open>The entries of a packed array.\<close>

fun packed_loop :: "nat \<Rightarrow> item_encoder \<Rightarrow> pb_field_t \<Rightarrow> pb_ostream_t \<Rightarrow> int \<Rightarrow> enc_result" where
  "packed_loop 0 f field stream p = Some (True, stream)"
| "packed_loop (Suc k) f field stream p =
     enc_then (f stream field p) (\<lambda>stream. packed_loop k f field stream (p + uint (data_size field)))"

text \<open>The entries of an array that is not packed, each with its tag; entries of type string or
  bytes in an allocated array are pointers.\<close>

fun unpacked_loop :: "nat \<Rightarrow> pb_heap \<Rightarrow> item_encoder \<Rightarrow> pb_field_t \<Rightarrow> pb_ostream_t \<Rightarrow> int \<Rightarrow> enc_result" where
  "unpacked_loop 0 h f field stream p = Some (True, stream)"
| "unpacked_loop (Suc k) h f field stream p =
     enc_then (Some (pb_encode_tag_for_field stream field)) (\<lambda>stream.
     enc_then (f stream field
       (if PB_ATYPE (ftype field) = PB_ATYPE_POINTER \<and>
           (PB_LTYPE (ftype field) = PB_LTYPE_STRING \<or> PB_LTYPE (ftype field) = PB_LTYPE_BYTES)
        then load_ptr h p else p)) (\<lambda>stream.
     unpacked_loop k h f field stream (p + uint (data_size field))))"

definition encode_array ::
  "pb_heap \<Rightarrow> sub_encoder \<Rightarrow> pb_ostream_t \<Rightarrow> pb_field_t \<Rightarrow> int \<Rightarrow> nat \<Rightarrow> enc_result" where
  "encode_array h enc stream field pd count =
     (let lt = PB_LTYPE (ftype field); f = run_encoder h enc
      in if count = 0 then Some (True, stream)
         else if PB_ATYPE (ftype field) \<noteq> PB_ATYPE_POINTER \<and> count > unat (array_size field)
         then enc_fail ''array max size exceeded'' stream
         else if lt \<le> PB_LTYPE_LAST_PACKABLE then
           enc_then (Some (pb_encode_tag stream PB_WT_STRING (ftag field))) (\<lambda>stream.
             case (if lt = PB_LTYPE_FIXED32 then Some (True, 4 * count)
                   else if lt = PB_LTYPE_FIXED64 then Some (True, 8 * count)
                   else map_option (\<lambda>(ok, sizestream). (ok, bytes_written sizestream))
                          (packed_loop count f field PB_OSTREAM_SIZING pd)) of
               None \<Rightarrow> None
             | Some (False, _) \<Rightarrow> Some (False, stream)
             | Some (True, n) \<Rightarrow>
                 enc_then (Some (pb_encode_varint stream (of_nat n))) (\<lambda>stream.
                   if wcallback stream = None then Some (write_sizing stream n)
                   else packed_loop count f field stream pd))
         else unpacked_loop count h f field stream pd)"

section \<open>Fields\<close>

text \<open>Whether a field of a proto3 message has its default value.\<close>

fun all_default ::
  "nat \<Rightarrow> (pb_field_t \<Rightarrow> int \<Rightarrow> bool option) \<Rightarrow> pb_field_iter_t \<Rightarrow> bool option" where
  "all_default 0 f iter = None"
| "all_default (Suc n) f iter =
     (case f (cur iter) (pData iter) of
        None \<Rightarrow> None
      | Some False \<Rightarrow> Some False
      | Some True \<Rightarrow> (case pb_field_iter_next iter of
                        (True, iter) \<Rightarrow> all_default n f iter
                      | (False, _) \<Rightarrow> Some True))"

definition zero_bytes :: "pb_heap \<Rightarrow> int \<Rightarrow> u32 \<Rightarrow> bool" where
  "zero_bytes h a n \<longleftrightarrow> list_all (\<lambda>b. b = 0) (load h a (unat n))"

fun pb_check_proto3_default_value :: "nat \<Rightarrow> pb_env \<Rightarrow> pb_heap \<Rightarrow> pb_field_t \<Rightarrow> int \<Rightarrow> bool option" where
  "pb_check_proto3_default_value 0 E h field pd = None"
| "pb_check_proto3_default_value (Suc n) E h field pd =
     (let t = ftype field; lt = PB_LTYPE t; ps = pd + sint (size_offset field)
      in if PB_HTYPE t = PB_HTYPE_REQUIRED then Some False
         else if PB_HTYPE t = PB_HTYPE_REPEATED \<and> size_offset field \<noteq> 0 then Some (load_size h ps = 0)
         else if PB_HTYPE t = PB_HTYPE_REPEATED \<and> PB_ATYPE t = PB_ATYPE_STATIC then Some False
         else if PB_HTYPE t = PB_HTYPE_ONEOF then Some (load_size h ps = 0)
         else if PB_HTYPE t = PB_HTYPE_OPTIONAL \<and> size_offset field \<noteq> 0
         then Some (\<not> safe_read_bool (load h ps 1))
         else if PB_ATYPE t = PB_ATYPE_STATIC \<and> lt = PB_LTYPE_BYTES then Some (load_size h pd = 0)
         else if PB_ATYPE t = PB_ATYPE_STATIC \<and> lt = PB_LTYPE_STRING then Some (mem h pd = 0)
         else if PB_ATYPE t = PB_ATYPE_STATIC \<and> lt = PB_LTYPE_FIXED_LENGTH_BYTES
         then Some (data_size field = 0)
         else if PB_ATYPE t = PB_ATYPE_STATIC \<and> lt = PB_LTYPE_SUBMESSAGE then
           (case submsg_fields field of
              None \<Rightarrow> None
            | Some m \<Rightarrow>
                (case pb_field_iter_begin (tables E m) pd of
                   (False, _) \<Rightarrow> Some True
                 | (True, iter) \<Rightarrow> all_default n (pb_check_proto3_default_value n E h) iter))
         else if PB_ATYPE t = PB_ATYPE_POINTER \<and> lt > PB_LTYPE_LAST_PACKABLE
         then Some (load_ptr h pd = 0)
         else Some (zero_bytes h pd (data_size field)))"

text \<open>\<open>implicit_has\<close> is a local variable: \<open>None\<close> for \<open>pSize\<close> stands for its address.\<close>

definition encode_basic_field ::
  "nat \<Rightarrow> pb_env \<Rightarrow> pb_heap \<Rightarrow> sub_encoder \<Rightarrow> pb_ostream_t \<Rightarrow> pb_field_t \<Rightarrow> int \<Rightarrow> enc_result" where
  "encode_basic_field n E h enc stream field pd =
     (let t = ftype field; f = run_encoder h enc;
          ps = (if size_offset field \<noteq> 0 then Some (pd + sint (size_offset field)) else None)
      in case (if size_offset field \<noteq> 0 then Some True
               else if PB_HTYPE t = PB_HTYPE_OPTIONAL
               then map_option Not (pb_check_proto3_default_value n E h field pd)
               else Some True) of
           None \<Rightarrow> None
         | Some implicit_has \<Rightarrow>
             let pd = (if PB_ATYPE t = PB_ATYPE_POINTER then load_ptr h pd else pd);
                 implicit_has = (if PB_ATYPE t = PB_ATYPE_POINTER then pd \<noteq> 0 else implicit_has);
                 with_tag = (\<lambda>stream. enc_then (Some (pb_encode_tag_for_field stream field)) (\<lambda>stream. f stream field pd))
             in if PB_HTYPE t = PB_HTYPE_REQUIRED then
                  (if pd = 0 then enc_fail ''missing required field'' stream else with_tag stream)
                else if PB_HTYPE t = PB_HTYPE_OPTIONAL then
                  (if (case ps of None \<Rightarrow> implicit_has | Some a \<Rightarrow> safe_read_bool (load h a 1))
                   then with_tag stream else Some (True, stream))
                else if PB_HTYPE t = PB_HTYPE_REPEATED then
                  encode_array h enc stream field pd
                    (case ps of None \<Rightarrow> unat (array_size field) | Some a \<Rightarrow> unat (load_size h a))
                else
                  (case ps of
                     None \<Rightarrow> None
                   | Some a \<Rightarrow> if load_size h a = ftag field then with_tag stream else Some (True, stream)))"

definition encode_callback_field ::
  "pb_env \<Rightarrow> pb_heap \<Rightarrow> pb_ostream_t \<Rightarrow> pb_field_t \<Rightarrow> int \<Rightarrow> enc_result" where
  "encode_callback_field E h stream field pd =
     (let func = load_ptr h pd
      in if func \<noteq> 0 then
           (case enc_callback E func stream field (callback_arg pd) h of
              (False, stream) \<Rightarrow> enc_fail ''callback error'' stream
            | (True, stream) \<Rightarrow> Some (True, stream))
         else Some (True, stream))"

definition encode_field ::
  "nat \<Rightarrow> pb_env \<Rightarrow> pb_heap \<Rightarrow> sub_encoder \<Rightarrow> pb_ostream_t \<Rightarrow> pb_field_t \<Rightarrow> int \<Rightarrow> enc_result" where
  "encode_field n E h enc stream field pd =
     (let at = PB_ATYPE (ftype field)
      in if at = PB_ATYPE_STATIC \<or> at = PB_ATYPE_POINTER then encode_basic_field n E h enc stream field pd
         else if at = PB_ATYPE_CALLBACK then encode_callback_field E h stream field pd
         else enc_fail ''invalid field type'' stream)"

section \<open>Extensions\<close>

definition default_extension_encoder ::
  "nat \<Rightarrow> pb_env \<Rightarrow> pb_heap \<Rightarrow> sub_encoder \<Rightarrow> pb_ostream_t \<Rightarrow> int \<Rightarrow> enc_result" where
  "default_extension_encoder n E h enc stream e =
     (let field = tables E (ext_arg (extension_type E h e)) ! 0
      in encode_field n E h enc stream field
           (if PB_ATYPE (ftype field) = PB_ATYPE_POINTER then extension_dest e
            else load_ptr h (extension_dest e)))"

fun encode_extensions :: "nat \<Rightarrow> pb_env \<Rightarrow> pb_heap \<Rightarrow> sub_encoder \<Rightarrow> pb_ostream_t \<Rightarrow> int \<Rightarrow> enc_result" where
  "encode_extensions 0 E h enc stream e = None"
| "encode_extensions (Suc n) E h enc stream e =
     (if e = 0 then Some (True, stream)
      else enc_then
        (case ext_encode (extension_type E h e) of
           Some f \<Rightarrow> Some (f stream e h)
         | None \<Rightarrow> default_extension_encoder n E h enc stream e)
        (\<lambda>stream. encode_extensions n E h enc stream (extension_next h e)))"

definition encode_extension_field ::
  "nat \<Rightarrow> pb_env \<Rightarrow> pb_heap \<Rightarrow> sub_encoder \<Rightarrow> pb_ostream_t \<Rightarrow> int \<Rightarrow> enc_result" where
  "encode_extension_field n E h enc stream pd = encode_extensions n E h enc stream (load_ptr h pd)"

section \<open>A whole message\<close>

fun encode_loop ::
  "nat \<Rightarrow> (pb_field_t \<Rightarrow> int \<Rightarrow> pb_ostream_t \<Rightarrow> enc_result) \<Rightarrow> pb_field_iter_t \<Rightarrow> pb_ostream_t \<Rightarrow> enc_result" where
  "encode_loop 0 f iter stream = None"
| "encode_loop (Suc n) f iter stream =
     enc_then (f (cur iter) (pData iter) stream) (\<lambda>stream.
       case pb_field_iter_next iter of
         (True, iter) \<Rightarrow> encode_loop n f iter stream
       | (False, _) \<Rightarrow> Some (True, stream))"

fun pb_encode :: "nat \<Rightarrow> pb_env \<Rightarrow> pb_heap \<Rightarrow> pb_ostream_t \<Rightarrow> nat \<Rightarrow> int \<Rightarrow> enc_result" where
  "pb_encode 0 E h stream m src = None"
| "pb_encode (Suc n) E h stream m src =
     (case pb_field_iter_begin (tables E m) src of
        (False, _) \<Rightarrow> Some (True, stream)
      | (True, iter) \<Rightarrow>
          encode_loop n (\<lambda>field pd stream.
            if PB_LTYPE (ftype field) = PB_LTYPE_EXTENSION
            then encode_extension_field n E h (pb_encode n E h) stream pd
            else encode_field n E h (pb_encode n E h) stream field pd) iter stream)"

definition pb_encode_delimited :: "nat \<Rightarrow> pb_env \<Rightarrow> pb_heap \<Rightarrow> pb_ostream_t \<Rightarrow> nat \<Rightarrow> int \<Rightarrow> enc_result" where
  "pb_encode_delimited n E h stream m src = pb_encode_submessage (pb_encode n E h) stream m src"

definition pb_encode_nullterminated :: "nat \<Rightarrow> pb_env \<Rightarrow> pb_heap \<Rightarrow> pb_ostream_t \<Rightarrow> nat \<Rightarrow> int \<Rightarrow> enc_result" where
  "pb_encode_nullterminated n E h stream m src =
     enc_then (pb_encode n E h stream m src) (\<lambda>stream. Some (pb_write stream [0]))"

definition pb_get_encoded_size :: "nat \<Rightarrow> pb_env \<Rightarrow> pb_heap \<Rightarrow> nat \<Rightarrow> int \<Rightarrow> nat option option" where
  "pb_get_encoded_size n E h m src =
     (case pb_encode n E h PB_OSTREAM_SIZING m src of
        None \<Rightarrow> None
      | Some (False, _) \<Rightarrow> Some None
      | Some (True, stream) \<Rightarrow> Some (Some (bytes_written stream)))"

end
