(* ===== verification/Nanopb_Laws.thy ===== *)
theory Nanopb_Laws
  imports Nanopb
begin

text \<open>
  nanopb's buffer streams and varints: what a stream over a buffer may still read, and the
  base-128 encoding as a function of the number, which the encoder writes and both decoders
  take off the front of a stream.
\<close>

unbundle bit_operations_syntax

section \<open>Buffer streams\<close>

text \<open>A stream over a buffer: the bytes it may still read are in memory.\<close>

definition buffered :: "pb_istream_t \<Rightarrow> bool" where
  "buffered stream \<longleftrightarrow> callback stream = Buf_read \<and> bytes_left stream \<le> length (state stream)"

definition view :: "pb_istream_t \<Rightarrow> bytes" where
  "view stream = take (bytes_left stream) (state stream)"

definition advance :: "pb_istream_t \<Rightarrow> nat \<Rightarrow> pb_istream_t" where
  "advance stream k =
     stream\<lparr>state := drop k (state stream), bytes_left := bytes_left stream - k\<rparr>"

lemma advance_0 [simp]: "advance stream 0 = stream"
  by (simp add: advance_def)

lemma advance_advance [simp]: "advance (advance stream j) k = advance stream (j + k)"
  by (simp add: advance_def add.commute)

lemma advance_simps [simp]:
  "callback (advance stream k) = callback stream" "errmsg (advance stream k) = errmsg stream"
  "bytes_left (advance stream k) = bytes_left stream - k" "state (advance stream k) = drop k (state stream)"
  by (simp_all add: advance_def)

lemma length_view: "buffered stream \<Longrightarrow> length (view stream) = bytes_left stream"
  by (simp add: buffered_def view_def)

lemma buffered_advance: "buffered stream \<Longrightarrow> buffered (advance stream k)"
  by (auto simp: buffered_def)

lemma view_advance: "view (advance stream k) = drop k (view stream)"
  by (simp add: view_def advance_def drop_take)

lemma from_buffer_view:
  "buffered (pb_istream_from_buffer s (length s))" "view (pb_istream_from_buffer s (length s)) = s"
  by (simp_all add: pb_istream_from_buffer_def buffered_def view_def)

lemma readbyte_view:
  assumes "buffered stream" and "view stream = b # s"
  shows "pb_readbyte stream = (Some b, advance stream 1)"
proof -
  have "bytes_left stream \<noteq> 0" using assms by (cases "bytes_left stream") (auto simp: view_def)
  moreover have "take 1 (state stream) ! 0 = b"
    using assms by (cases "state stream"; cases "bytes_left stream") (auto simp: view_def)
  ultimately show ?thesis
    using assms(1) by (simp add: pb_readbyte_def run_callback_def buf_read_def buffered_def advance_def)
qed

lemma read_view:
  assumes "buffered stream" and "view stream = d @ s"
  shows "pb_read stream has_buf (length d) = (Some d, advance stream (length d))"
proof (cases "d = []")
  case True
  then show ?thesis by (simp add: pb_read_def)
next
  case False
  have left: "bytes_left stream = length d + length s"
    using length_view [OF assms(1)] assms(2) by simp
  have "take (length d) (state stream) = take (length d) (view stream)"
    unfolding view_def left by simp
  with assms(2) have "take (length d) (state stream) = d" by simp
  with False left assms(1) show ?thesis
    by (simp add: pb_read_def pb_read_checked_def run_callback_def buf_read_def buffered_def advance_def)
qed

section \<open>The varint encoding\<close>

fun leb128 :: "nat \<Rightarrow> bytes" where
  "leb128 n = (if n < 128 then [of_nat n] else of_nat (n mod 128 + 128) # leb128 (n div 128))"

declare leb128.simps [simp del]

lemma leb128_small: "n < 128 \<Longrightarrow> leb128 n = [of_nat n]"
  by (simp add: leb128.simps)

lemma leb128_large: "128 \<le> n \<Longrightarrow> leb128 n = of_nat (n mod 128 + 128) # leb128 (n div 128)"
  by (simp add: leb128.simps)

lemma low7_of_nat: "unat (of_nat (k mod 128) AND 0x7f :: u8) = k mod 128"
  "unat (of_nat (k mod 128 + 128) AND 0x7f :: u8) = k mod 128"
  "of_nat (k mod 128) AND 0x80 = (0 :: u8)" "of_nat (k mod 128 + 128) AND 0x80 \<noteq> (0 :: u8)"
proof -
  have l: "k mod 128 + 128 < 256" "k mod 128 < 256" using mod_less_divisor [of 128 k] by linarith+
  then show "unat (of_nat (k mod 128) AND 0x7f :: u8) = k mod 128"
    "unat (of_nat (k mod 128 + 128) AND 0x7f :: u8) = k mod 128"
    unfolding u8_low7 unat_of_nat_u8 by simp_all
  from l show "of_nat (k mod 128) AND 0x80 = (0 :: u8)" "of_nat (k mod 128 + 128) AND 0x80 \<noteq> (0 :: u8)"
    unfolding u8_high_bit unat_of_nat_u8 by simp_all
qed

lemma varint_bytes_leb128:
  "0 < unat v \<Longrightarrow> (varint_bytes v)[length (varint_bytes v) - 1 :=
      varint_bytes v ! (length (varint_bytes v) - 1) AND 0x7F] = leb128 (unat v)"
proof (induction v rule: varint_bytes.induct)
  case (1 v)
  have byte: "ucast ((v AND 0x7F) OR 0x80) = (of_nat (unat v mod 128 + 128) :: u8)"
  proof -
    have m: "unat (v AND 0x7F) = unat v mod 128"
      using unsigned_take_bit_eq [of 7 v] take_bit_eq_mask [of 7 v]
      by (simp add: mask_eq_exp_minus_1 take_bit_eq_mod)
    have "unat (push_bit 7 1 OR (v AND 0x7F)) = 1 * 2 ^ 7 + unat (v AND 0x7F)"
      using mod_less_divisor [of 128 "unat v"] unat_push_or [of "v AND 0x7F" 7 1] by (simp add: m)
    then have "unat ((v AND 0x7F) OR 0x80) = unat v mod 128 + 128"
      by (simp add: m or.commute push_bit_eq_mult)
    then show ?thesis
      unfolding word_unat_eq_iff unat_of_nat_u8 by (simp add: unsigned_ucast_eq take_bit_eq_mod)
  qed
  have d: "unat (drop_bit 7 v) = unat v div 128"
    unfolding unat_drop_bit_eq by (simp add: drop_bit_eq_div)
  have v: "v \<noteq> 0" using 1(2) by auto
  show ?case
  proof (cases "unat v < 128")
    case True
    then have z: "varint_bytes (drop_bit 7 v) = []"
      by (subst varint_bytes.simps) (simp add: drop_bit_eq_0_iff)
    have "(of_nat (unat v mod 128 + 128) :: u8) AND 0x7F = of_nat (unat v)"
      unfolding word_unat_eq_iff low7_of_nat(2) unat_of_nat_u8 using True by simp
    with True v z byte show ?thesis
      by (simp add: varint_bytes.simps [of v] leb128_small)
  next
    case False
    then have pos: "0 < unat (drop_bit 7 v)" unfolding d by (simp add: div_greater_zero_iff)
    then have "varint_bytes (drop_bit 7 v) \<noteq> []" by (subst varint_bytes.simps) auto
    then obtain n where n: "length (varint_bytes (drop_bit 7 v)) = Suc n" by (cases "varint_bytes (drop_bit 7 v)") auto
    show ?thesis
      using 1(1) [OF v pos] False v byte
      by (simp add: varint_bytes.simps [of v] n d leb128_large)
  qed
qed

lemma encode_varint_leb128: "pb_encode_varint stream v = pb_write stream (leb128 (unat v))"
proof (cases "v \<le> 0x7F")
  case True
  then have "unat v < 128" by (simp add: word_le_nat_alt)
  moreover have "(ucast v :: u8) = of_nat (unat v)" by simp
  ultimately show ?thesis using True by (simp add: pb_encode_varint_def leb128_small)
next
  case False
  then have "0 < unat v" by (simp add: word_le_nat_alt)
  from varint_bytes_leb128 [OF this] False show ?thesis
    by (simp add: pb_encode_varint_def Let_def)
qed

lemma or_shifted:
  fixes r :: "'a :: len word"
  assumes "unat r < 2 ^ k" and "unat b * 2 ^ k + unat r < 2 ^ LENGTH('a)"
  shows "unat (r OR push_bit k b) = unat r + unat b * 2 ^ k"
  using unat_push_or [OF assms] by (simp add: or.commute add.commute)

lemma word_of_nat_eqI: "unat x = n \<Longrightarrow> x = of_nat n"
  by auto

lemma unat_ucast_low7: "unat (ucast (b AND 0x7F :: u8) :: u64) = unat (b AND 0x7F)"
  "unat (ucast (b AND 0x7F :: u8) :: u32) = unat (b AND 0x7F)"
  by simp_all

lemma leb128_step:
  fixes r n :: nat
  shows "r + n mod 128 * 2 ^ (7 * i) + n div 128 * 2 ^ (7 * Suc i) = r + n * 2 ^ (7 * i)"
proof -
  have "(2 :: nat) ^ (7 * Suc i) = 128 * 2 ^ (7 * i)" by (simp add: power_add)
  moreover have "n * 2 ^ (7 * i) = (n div 128 * 128 + n mod 128) * 2 ^ (7 * i)" by simp
  ultimately show ?thesis by (simp only: distrib_right mult.assoc add.assoc add.commute)
qed

text \<open>One turn of a loop: reading the byte of a continued or of a final digit.\<close>

lemma read_final:
  assumes "buffered stream" and "view stream = leb128 n @ s" and "n < 128"
  obtains b where "pb_readbyte stream = (Some b, advance stream (length (leb128 n)))"
    and "b AND 0x80 = 0" and "unat (b AND 0x7F) = n"
proof -
  have m: "n mod 128 = n" using assms(3) by simp
  have "pb_readbyte stream = (Some (of_nat n), advance stream 1)"
    using assms by (intro readbyte_view) (simp_all add: leb128_small)
  with low7_of_nat(1,3) [of n] m assms(3) show thesis by (intro that [of "of_nat n"]) (simp_all add: leb128_small)
qed

lemma read_continued:
  assumes "buffered stream" and "view stream = leb128 n @ s" and "\<not> n < 128"
  obtains b where "pb_readbyte stream = (Some b, advance stream 1)"
    and "b AND 0x80 \<noteq> 0" and "unat (b AND 0x7F) = n mod 128"
    and "buffered (advance stream 1)" and "view (advance stream 1) = leb128 (n div 128) @ s"
    and "length (leb128 n) = 1 + length (leb128 (n div 128))"
proof -
  have "pb_readbyte stream = (Some (of_nat (n mod 128 + 128)), advance stream 1)"
    using assms by (intro readbyte_view) (simp_all add: leb128_large)
  moreover have "view (advance stream 1) = leb128 (n div 128) @ s"
    using assms(2,3) by (simp add: view_advance leb128_large)
  ultimately show thesis
    using low7_of_nat(2,4) [of n] assms(1,3)
    by (intro that [of "of_nat (n mod 128 + 128)"]) (simp_all only: buffered_advance leb128_large not_less length_Cons Suc_eq_plus1_left not_False_eq_True)
qed

lemma digit_less:
  fixes r n :: nat
  assumes "r < 2 ^ (7 * i)"
  shows "r + n mod 128 * 2 ^ (7 * i) < 2 ^ (7 * Suc i)"
proof -
  have "r + n mod 128 * 2 ^ (7 * i) < (n mod 128 + 1) * 2 ^ (7 * i)"
    using assms by (simp add: algebra_simps)
  also have "\<dots> \<le> 128 * 2 ^ (7 * i)" by (intro mult_right_mono) (simp_all add: Suc_le_eq)
  finally show ?thesis by (simp add: power_add)
qed

lemma bitpos_step: "unat (bp :: u8) = 7 * i \<Longrightarrow> i \<le> 9 \<Longrightarrow> unat (bp + 7) = 7 * Suc i"
  by (simp add: unat_word_ariths)

lemma varint_loop_leb128:
  assumes "buffered stream" and "view stream = leb128 n @ s" and "i \<le> 9" and "unat bp = 7 * i"
    and "unat r < 2 ^ (7 * i)" and "unat r + n * 2 ^ (7 * i) < 2 ^ 64"
  shows "\<exists>w. varint_loop stream r bp = (Some w, advance stream (length (leb128 n))) \<and>
    unat w = unat r + n * 2 ^ (7 * i)"
  using assms
proof (induction n arbitrary: stream r i bp rule: leb128.induct)
  case (1 n)
  have lt: "\<not> bp \<ge> 64" using "1.prems"(3,4) by (simp add: word_le_nat_alt)
  show ?case
  proof (cases "n < 128")
    case True
    from read_final [OF "1.prems"(1,2) True] obtain b where b:
      "pb_readbyte stream = (Some b, advance stream (length (leb128 n)))" "b AND 0x80 = 0" "unat (b AND 0x7F) = n" .
    have "unat (r OR push_bit (unat bp) (ucast (b AND 0x7F))) = unat r + n * 2 ^ (7 * i)"
      using "1.prems"(4,5,6) b(3) by (subst or_shifted) simp_all
    with b(1,2) lt show ?thesis by (subst varint_loop.simps) simp
  next
    case False
    from read_continued [OF "1.prems"(1,2) False] obtain b where b:
      "pb_readbyte stream = (Some b, advance stream 1)" "b AND 0x80 \<noteq> 0" "unat (b AND 0x7F) = n mod 128"
      "buffered (advance stream 1)" "view (advance stream 1) = leb128 (n div 128) @ s"
      "length (leb128 n) = 1 + length (leb128 (n div 128))" .
    note total = leb128_step [of "unat r" n i]
    define r' where "r' = r OR push_bit (unat bp) (ucast (b AND 0x7F))"
    have r': "unat r' = unat r + n mod 128 * 2 ^ (7 * i)"
      unfolding r'_def using "1.prems"(4,5,6) total b(3) by (subst or_shifted) simp_all
    have i9: "Suc i \<le> 9"
    proof (rule ccontr)
      assume "\<not> Suc i \<le> 9"
      with "1.prems"(3) have "i = 9" by simp
      with "1.prems"(6) False show False by simp
    qed
    have "\<exists>w. varint_loop (advance stream 1) r' (bp + 7) = (Some w, advance (advance stream 1) (length (leb128 (n div 128)))) \<and>
        unat w = unat r' + n div 128 * 2 ^ (7 * Suc i)"
    proof (rule "1.IH" [OF False b(4,5) i9])
      show "unat (bp + 7) = 7 * Suc i" using "1.prems"(3,4) by (rule bitpos_step [rotated])
      show "unat r' < 2 ^ (7 * Suc i)" unfolding r' by (rule digit_less [OF "1.prems"(5)])
      show "unat r' + n div 128 * 2 ^ (7 * Suc i) < 2 ^ 64" unfolding r' total by (rule "1.prems"(6))
    qed
    then obtain w where w: "varint_loop (advance stream 1) r' (bp + 7) = (Some w, advance stream (length (leb128 n)))"
      "unat w = unat r + n * 2 ^ (7 * i)"
      unfolding r' total b(6) by auto
    with b(1,2) lt show ?thesis
      by (subst varint_loop.simps) (simp add: Let_def r'_def [symmetric])
  qed
qed

text \<open>The 32-bit loop, from the second byte on.\<close>

lemma final_digit_top: "unat (b AND 0x7F :: u8) < 16 \<Longrightarrow> b AND 0x70 = 0"
proof -
  have "unat (b AND 0x7F) < 16 \<longrightarrow> b AND 0x70 = 0"
    by (rule u8_by_eval [where b = b]) code_simp
  then show "unat (b AND 0x7F :: u8) < 16 \<Longrightarrow> b AND 0x70 = 0" by blast
qed

lemma varint32_loop_leb128:
  assumes "buffered stream" and "view stream = leb128 n @ s" and "i \<le> 4" and "unat bp = 7 * i"
    and "unat r < 2 ^ (7 * i)" and "unat r + n * 2 ^ (7 * i) < 2 ^ 32"
  shows "\<exists>w bp' b. varint32_loop stream r bp = (Some (w, bp', b), advance stream (length (leb128 n))) \<and>
    unat w = unat r + n * 2 ^ (7 * i) \<and> \<not> (bp' = 35 \<and> b AND 0x70 \<noteq> 0)"
  using assms
proof (induction n arbitrary: stream r i bp rule: leb128.induct)
  case (1 n)
  have lt: "\<not> bp \<ge> 32" using "1.prems"(3,4) by (simp add: word_le_nat_alt)
  have step: "unat (bp + 7) = 7 * Suc i" using "1.prems"(3,4) by (intro bitpos_step) simp_all
  show ?case
  proof (cases "n < 128")
    case True
    from read_final [OF "1.prems"(1,2) True] obtain b where b:
      "pb_readbyte stream = (Some b, advance stream (length (leb128 n)))" "b AND 0x80 = 0" "unat (b AND 0x7F) = n" .
    have w: "unat (r OR push_bit (unat bp) (ucast (b AND 0x7F))) = unat r + n * 2 ^ (7 * i)"
      using "1.prems"(4,5,6) b(3) by (subst or_shifted) simp_all
    have "\<not> (bp + 7 = 35 \<and> b AND 0x70 \<noteq> 0)"
    proof
      assume a: "bp + 7 = 35 \<and> b AND 0x70 \<noteq> 0"
      then have "unat (bp + 7) = unat (35 :: u8)" by simp
      with step have "i = 4" by simp
      with "1.prems"(6) b(3) have "unat (b AND 0x7F) < 16" by simp
      with a final_digit_top show False by blast
    qed
    with b(1,2) lt w show ?thesis by (subst varint32_loop.simps) simp
  next
    case False
    from read_continued [OF "1.prems"(1,2) False] obtain b where b:
      "pb_readbyte stream = (Some b, advance stream 1)" "b AND 0x80 \<noteq> 0" "unat (b AND 0x7F) = n mod 128"
      "buffered (advance stream 1)" "view (advance stream 1) = leb128 (n div 128) @ s"
      "length (leb128 n) = 1 + length (leb128 (n div 128))" .
    note total = leb128_step [of "unat r" n i]
    define r' where "r' = r OR push_bit (unat bp) (ucast (b AND 0x7F))"
    have r': "unat r' = unat r + n mod 128 * 2 ^ (7 * i)"
      unfolding r'_def using "1.prems"(4,5,6) total b(3) by (subst or_shifted) simp_all
    have i4: "Suc i \<le> 4"
    proof (rule ccontr)
      assume "\<not> Suc i \<le> 4"
      with "1.prems"(3) have "i = 4" by simp
      with "1.prems"(6) False show False by simp
    qed
    have "\<exists>w bp' c. varint32_loop (advance stream 1) r' (bp + 7) =
        (Some (w, bp', c), advance (advance stream 1) (length (leb128 (n div 128)))) \<and>
        unat w = unat r' + n div 128 * 2 ^ (7 * Suc i) \<and> \<not> (bp' = 35 \<and> c AND 0x70 \<noteq> 0)"
    proof (rule "1.IH" [OF False b(4,5) i4 step])
      show "unat r' < 2 ^ (7 * Suc i)" unfolding r' by (rule digit_less [OF "1.prems"(5)])
      show "unat r' + n div 128 * 2 ^ (7 * Suc i) < 2 ^ 32" unfolding r' total by (rule "1.prems"(6))
    qed
    then obtain w bp' c where w: "varint32_loop (advance stream 1) r' (bp + 7) = (Some (w, bp', c), advance stream (length (leb128 n)))"
      "unat w = unat r + n * 2 ^ (7 * i)" "\<not> (bp' = 35 \<and> c AND 0x70 \<noteq> 0)"
      unfolding r' total b(6) by auto
    with b(1,2) lt show ?thesis
      by (subst varint32_loop.simps) (simp add: Let_def r'_def [symmetric])
  qed
qed

lemma decode_varint_leb128:
  assumes "buffered stream" and "view stream = leb128 n @ s" and "n < 2 ^ 64"
  shows "pb_decode_varint stream = (Some (of_nat n), advance stream (length (leb128 n)))"
proof -
  obtain w where "varint_loop stream 0 0 = (Some w, advance stream (length (leb128 n)))" "unat w = n"
    using varint_loop_leb128 [OF assms(1,2), of 0 0 0] assms(3) by auto
  then show ?thesis by (auto simp: pb_decode_varint_def)
qed

lemma decode_varint32_eof_leb128:
  assumes "buffered stream" and "view stream = leb128 n @ s" and "n < 2 ^ 32"
  shows "pb_decode_varint32_eof stream eof = (Some (of_nat n), eof, advance stream (length (leb128 n)))"
proof (cases "n < 128")
  case True
  from read_final [OF assms(1,2) True] obtain b where b:
    "pb_readbyte stream = (Some b, advance stream (length (leb128 n)))" "b AND 0x80 = 0" "unat (b AND 0x7F) = n" .
  have "unat b < 128" using b(2) u8_high_bit [of b] by simp
  with b(3) have "unat b = n" unfolding u8_low7 by simp
  then have "(ucast b :: u32) = of_nat n" by (intro word_of_nat_eqI) simp
  with b(1,2) show ?thesis by (simp add: pb_decode_varint32_eof_def)
next
  case False
  from read_continued [OF assms(1,2) False] obtain b where b:
    "pb_readbyte stream = (Some b, advance stream 1)" "b AND 0x80 \<noteq> 0" "unat (b AND 0x7F) = n mod 128"
    "buffered (advance stream 1)" "view (advance stream 1) = leb128 (n div 128) @ s"
    "length (leb128 n) = 1 + length (leb128 (n div 128))" .
  have "unat (ucast (b AND 0x7F) :: u32) = n mod 128" using b(3) by simp
  with varint32_loop_leb128 [OF b(4,5), of 1 7 "ucast (b AND 0x7F)"] assms(3)
  obtain w bp' c where w: "varint32_loop (advance stream 1) (ucast (b AND 0x7F)) 7 =
      (Some (w, bp', c), advance (advance stream 1) (length (leb128 (n div 128))))"
    "unat w = n" "\<not> (bp' = 35 \<and> c AND 0x70 \<noteq> 0)" by auto
  have "w = of_nat n" using w(2) by auto
  with b(1,2,6) w(1,3) show ?thesis by (auto simp: pb_decode_varint32_eof_def)
qed

lemma decode_varint32_leb128:
  assumes "buffered stream" and "view stream = leb128 n @ s" and "n < 2 ^ 32"
  shows "pb_decode_varint32 stream = (Some (of_nat n), advance stream (length (leb128 n)))"
  by (simp add: pb_decode_varint32_def decode_varint32_eof_leb128 [OF assms])

end
