(* ===== verification/Nanopb_Codec.thy ===== *)
theory Nanopb_Codec
  imports Nanopb_Laws Nanopb_Fields
begin

text \<open>
  The contract of a pair of a writer and a reader of nanopb as a locale: the writer appends
  the encoding of a value when there is room and refuses it when there is none, and the
  reader takes exactly that encoding off any buffer stream that starts with it. Every pair
  of the library is shown to satisfy it by an interpretation; the round trips are its lemmas.
\<close>

unbundle bit_operations_syntax

section \<open>Writing to a buffer\<close>

definition pb_put :: "pb_ostream_t \<Rightarrow> bytes \<Rightarrow> pb_ostream_t" where
  "pb_put stream d = stream\<lparr>wstate := wstate stream @ d, bytes_written := bytes_written stream + length d\<rparr>"

text \<open>A stream over a buffer, and that there is room for \<open>n\<close> more bytes in it.\<close>

definition to_buffer :: "pb_ostream_t \<Rightarrow> bool" where
  "to_buffer stream \<longleftrightarrow> wcallback stream = Some Buf_write \<and>
     bytes_written stream \<le> max_size stream \<and> max_size stream < size_limit"

definition has_room :: "pb_ostream_t \<Rightarrow> nat \<Rightarrow> bool" where
  "has_room stream n \<longleftrightarrow> bytes_written stream + n \<le> max_size stream"

lemma put_put [simp]: "pb_put (pb_put stream d) e = pb_put stream (d @ e)"
  by (simp add: pb_put_def add.assoc)

lemma put_simps [simp]:
  "wstate (pb_put stream d) = wstate stream @ d" "max_size (pb_put stream d) = max_size stream"
  "bytes_written (pb_put stream d) = bytes_written stream + length d"
  "wcallback (pb_put stream d) = wcallback stream"
  by (simp_all add: pb_put_def)

lemma to_buffer_put: "to_buffer stream \<Longrightarrow> has_room stream (length d) \<Longrightarrow> to_buffer (pb_put stream d)"
  by (simp add: to_buffer_def has_room_def)

lemma has_room_put: "has_room (pb_put stream d) n \<longleftrightarrow> has_room stream (length d + n)"
  by (simp add: has_room_def add.assoc)

lemma from_buffer_room:
  "n < size_limit \<Longrightarrow> to_buffer (pb_ostream_from_buffer n)" "has_room (pb_ostream_from_buffer n) k \<longleftrightarrow> k \<le> n"
  "wstate (pb_ostream_from_buffer n) = []"
  by (simp_all add: pb_ostream_from_buffer_def to_buffer_def has_room_def)

lemma write_room:
  assumes "to_buffer stream" and "has_room stream (length d)"
  shows "pb_write stream d = (True, pb_put stream d)"
proof -
  have "size_add (bytes_written stream) (length d) = bytes_written stream + length d"
    using assms by (intro size_add_exact) (simp add: to_buffer_def has_room_def)
  with assms show ?thesis
    by (cases stream; cases d)
      (simp_all add: pb_write_def pb_put_def run_write_def buf_write_def to_buffer_def has_room_def Let_def)
qed

lemma write_full:
  assumes "to_buffer stream" and "\<not> has_room stream (length d)" and "length d < size_limit"
  shows "fst (pb_write stream d) = False" and "wstate (snd (pb_write stream d)) = wstate stream"
proof -
  have "size_add (bytes_written stream) (length d) < bytes_written stream \<or>
      size_add (bytes_written stream) (length d) > max_size stream"
    using assms size_add_overflow [of "bytes_written stream" "length d"] size_add_exact [of "bytes_written stream" "length d"]
    by (auto simp: to_buffer_def has_room_def not_less)
  moreover have "0 < length d" using assms by (cases d) (auto simp: has_room_def to_buffer_def)
  ultimately show "fst (pb_write stream d) = False" "wstate (snd (pb_write stream d)) = wstate stream"
    using assms(1) by (auto simp: pb_write_def to_buffer_def out_error_def Let_def)
qed

section \<open>The contract\<close>

locale pb_codec =
  fixes wr :: "pb_ostream_t \<Rightarrow> 'a \<Rightarrow> bool \<times> pb_ostream_t"
    and rd :: "pb_istream_t \<Rightarrow> 'a option \<times> pb_istream_t"
    and enc :: "'a \<Rightarrow> bytes"
    and valid :: "'a \<Rightarrow> bool"
  assumes write_fits: "valid v \<Longrightarrow> to_buffer stream \<Longrightarrow> has_room stream (length (enc v)) \<Longrightarrow>
      wr stream v = (True, pb_put stream (enc v))"
    and write_refused: "valid v \<Longrightarrow> to_buffer stream \<Longrightarrow> \<not> has_room stream (length (enc v)) \<Longrightarrow>
      fst (wr stream v) = False"
    and read_encoded: "valid v \<Longrightarrow> buffered s \<Longrightarrow> view s = enc v @ rest \<Longrightarrow>
      rd s = (Some v, advance s (length (enc v)))"
begin

lemma written:
  assumes "valid v" and "to_buffer stream" and "wr stream v = (True, stream')"
  shows "stream' = pb_put stream (enc v)" and "to_buffer stream'"
proof -
  have room: "has_room stream (length (enc v))"
    using assms write_refused [of v stream] by auto
  with assms write_fits [of v stream] show "stream' = pb_put stream (enc v)" by simp
  with assms(2) room show "to_buffer stream'" by (simp add: to_buffer_put)
qed

lemma roundtrip:
  assumes "valid v" and "n < size_limit" and "wr (pb_ostream_from_buffer n) v = (True, out)"
  shows "rd (pb_istream_from_buffer (wstate out @ rest) (length (wstate out @ rest))) =
    (Some v, pb_istream_from_buffer rest (length rest))"
proof -
  have out: "wstate out = enc v"
    using written [OF assms(1) from_buffer_room(1) [OF assms(2)] assms(3)] by (simp add: from_buffer_room(3))
  have "rd (pb_istream_from_buffer (enc v @ rest) (length (enc v @ rest))) =
      (Some v, advance (pb_istream_from_buffer (enc v @ rest) (length (enc v @ rest))) (length (enc v)))"
    using assms(1) by (intro read_encoded) (simp_all add: from_buffer_view del: length_append)
  then show ?thesis by (simp add: out advance_def pb_istream_from_buffer_def)
qed

end

text \<open>Most writers hand one byte string to \<open>pb_write\<close>.\<close>

lemma one_write_codec:
  fixes wr :: "pb_ostream_t \<Rightarrow> 'a \<Rightarrow> bool \<times> pb_ostream_t"
  assumes "\<And>v stream. valid v \<Longrightarrow> wr stream v = pb_write stream (enc v)"
    and "\<And>v. valid v \<Longrightarrow> length (enc v) < size_limit"
    and "\<And>v s rest. valid v \<Longrightarrow> buffered s \<Longrightarrow> view s = enc v @ rest \<Longrightarrow>
      rd s = (Some v, advance s (length (enc v)))"
  shows "pb_codec wr rd enc valid"
proof (rule pb_codec.intro)
  fix v stream
  assume v: "valid v" and s: "to_buffer stream" "\<not> has_room stream (length (enc v))"
  show "fst (wr stream v) = False"
    unfolding assms(1) [OF v] by (rule write_full(1) [OF s assms(2) [OF v]])
qed (simp_all only: assms write_room)

section \<open>Varints\<close>

lemma leb128_length: "n < 2 ^ (7 * k) \<Longrightarrow> 0 < k \<Longrightarrow> length (leb128 n) \<le> k"
proof (induction k arbitrary: n)
  case (Suc k)
  show ?case
  proof (cases "n < 128")
    case False
    then have "k \<noteq> 0" using Suc.prems by (cases k) auto
    moreover have "n div 128 < 2 ^ (7 * k)" using Suc.prems(1) by (simp add: power_add less_mult_imp_div_less)
    ultimately show ?thesis using Suc.IH [of "n div 128"] False by (simp add: leb128_large)
  qed (simp add: leb128_small)
qed simp

lemma leb128_u64: "length (leb128 (unat (v :: u64))) \<le> 10"
proof -
  have "unat v < 2 ^ 64" using unat_less_pow [of v] by simp
  also have "\<dots> \<le> 2 ^ (7 * 10)" by simp
  finally have "unat v < 2 ^ (7 * 10)" .
  then show ?thesis by (intro leb128_length) simp_all
qed

lemma leb128_u64_fits: "length (leb128 (unat (v :: u64))) < size_limit"
  using leb128_u64 [of v] by (rule le_less_trans) simp

interpretation varint: pb_codec pb_encode_varint pb_decode_varint "\<lambda>v. leb128 (unat v)" "\<lambda>_. True"
proof (rule one_write_codec)
  fix v :: u64 and s rest
  assume "buffered s" and "view s = leb128 (unat v) @ rest"
  from decode_varint_leb128 [OF this] show "pb_decode_varint s = (Some v, advance s (length (leb128 (unat v))))"
    using unat_less_pow [of v] by simp
qed (simp_all only: encode_varint_leb128 leb128_u64_fits)

section \<open>Signed varints\<close>

definition zigzag :: "u64 \<Rightarrow> u64" where
  "zigzag v = (if sint v < 0 then NOT (push_bit 1 v) else push_bit 1 v)"

lemma bit_zigzag:
  "bit (zigzag v) n \<longleftrightarrow> n < 64 \<and> (sint v < 0 \<longleftrightarrow> \<not> (1 \<le> n \<and> bit v (n - 1)))"
  by (cases "sint v < 0")
    (simp_all only: zigzag_def if_True if_False bit_not_iff bit_push_bit_iff possible_bit_word len_bit0 len_num1, auto)

lemma zigzag_back: "(if zigzag v AND 1 \<noteq> 0 then NOT (drop_bit 1 (zigzag v)) else drop_bit 1 (zigzag v)) = v"
proof -
  have sign: "sint v < 0 \<longleftrightarrow> bit v 63"
    using bit_last_iff [of v] by simp
  have odd: "zigzag v AND 1 \<noteq> 0 \<longleftrightarrow> sint v < 0"
    using bit_zigzag [of v 0] by (simp add: and_one_eq bit_0 odd_iff_mod_2_eq_one)
  have top: "n < 64 \<Longrightarrow> \<not> Suc n < 64 \<Longrightarrow> n = 63" for n :: nat by simp
  show ?thesis
    unfolding odd by (rule bit_eqI) (auto simp: bit_not_iff bit_drop_bit_eq bit_zigzag sign dest: top)
qed

interpretation svarint: pb_codec pb_encode_svarint pb_decode_svarint "\<lambda>v. leb128 (unat (zigzag v))" "\<lambda>_. True"
proof (rule one_write_codec)
  fix v stream
  show "pb_encode_svarint stream v = pb_write stream (leb128 (unat (zigzag v)))"
    by (simp only: pb_encode_svarint_def zigzag_def encode_varint_leb128 Let_def)
next
  fix v :: u64 and s rest
  assume "buffered s" and "view s = leb128 (unat (zigzag v)) @ rest"
  from varint.read_encoded [OF TrueI this] show "pb_decode_svarint s = (Some v, advance s (length (leb128 (unat (zigzag v)))))"
    by (simp only: pb_decode_svarint_def zigzag_back prod.case option.case)
qed (rule leb128_u64_fits)

section \<open>Fixed-size numbers\<close>

fun le_accum :: "'a :: len word \<Rightarrow> nat \<Rightarrow> bytes \<Rightarrow> 'a word" where
  "le_accum r k [] = r"
| "le_accum r k (b # bs) = le_accum (r OR push_bit k (ucast b)) (k + 8) bs"

lemma unat_le_accum:
  fixes r :: "'a :: len word"
  assumes "unat r < 2 ^ k" and "k + 8 * length bs \<le> LENGTH('a)" and "8 \<le> LENGTH('a)"
  shows "unat (le_accum r k bs) = unat r + le_val bs * 2 ^ k"
  using assms(1,2)
proof (induction bs arbitrary: r k)
  case (Cons b bs)
  have u: "unat (ucast b :: 'a word) = unat b" using assms(3) by simp
  have "unat b * 2 ^ k + unat r < (unat b + 1) * 2 ^ k" using Cons.prems(1) by simp
  also have "\<dots> \<le> 2 ^ (k + 8)" by (simp add: power_add Suc_le_eq)
  finally have lt: "unat b * 2 ^ k + unat r < 2 ^ (k + 8)" .
  also have "\<dots> \<le> 2 ^ LENGTH('a)" using Cons.prems(2) by (intro power_increasing) simp_all
  finally have r: "unat (r OR push_bit k (ucast b)) = unat r + unat b * 2 ^ k"
    using or_shifted [OF Cons.prems(1), of "ucast b"] by (simp only: u)
  have "unat (le_accum (r OR push_bit k (ucast b)) (k + 8) bs) =
      unat (r OR push_bit k (ucast b)) + le_val bs * 2 ^ (k + 8)"
    using Cons.prems(2) lt by (intro Cons.IH) (simp_all add: r add.commute)
  then show ?case by (simp add: r power_add algebra_simps)
qed simp

lemma list_of_4: "length d = 4 \<Longrightarrow> [d ! 0, d ! 1, d ! 2, d ! 3] = d"
  by (auto simp: numeral_eq_Suc length_Suc_conv)

lemma list_of_8: "length d = 8 \<Longrightarrow> [d ! 0, d ! 1, d ! 2, d ! 3, d ! 4, d ! 5, d ! 6, d ! 7] = d"
  by (auto simp: numeral_eq_Suc length_Suc_conv)

lemma le_bytes_Suc: "le_bytes (Suc n) v = of_nat v # le_bytes n (v div 256)"
  by (simp add: le_bytes_def)

lemma le_bytes_0: "le_bytes 0 v = []"
  by (simp add: le_bytes_def)

lemma Suc_4: "4 = Suc (Suc (Suc (Suc 0)))" and Suc_8: "8 = Suc (Suc (Suc (Suc 4)))"
  by simp_all

lemma le_bytes_4: "le_bytes 4 n = [of_nat n, of_nat (n div 2 ^ 8), of_nat (n div 2 ^ 16), of_nat (n div 2 ^ 24)]"
  by (simp only: Suc_4 le_bytes_Suc le_bytes_0) (simp add: div_mult2_eq [symmetric])

lemma le_bytes_8: "le_bytes 8 n = [of_nat n, of_nat (n div 2 ^ 8), of_nat (n div 2 ^ 16), of_nat (n div 2 ^ 24),
    of_nat (n div 2 ^ 32), of_nat (n div 2 ^ 40), of_nat (n div 2 ^ 48), of_nat (n div 2 ^ 56)]"
  by (simp only: Suc_8 Suc_4 le_bytes_Suc le_bytes_0) (simp add: div_mult2_eq [symmetric])

lemma byte_of_word: "ucast (drop_bit k v AND 0xFF) = (of_nat (unat v div 2 ^ k) :: u8)"
proof -
  have m: "drop_bit k v AND 0xFF = take_bit 8 (drop_bit k v)"
    by (simp add: take_bit_eq_mask mask_eq_exp_minus_1)
  have b: "unat (ucast (take_bit 8 (drop_bit k v)) :: u8) = unat (drop_bit k v) mod 256"
    by (simp only: unsigned_ucast_eq unsigned_take_bit_eq take_bit_nat_eq take_bit_take_bit len_bit0 len_num1 mult_1_right min.idem) (simp add: take_bit_eq_mod)
  have d: "unat (drop_bit k v) = unat v div 2 ^ k"
    unfolding unat_drop_bit_eq by (simp add: drop_bit_eq_div)
  show ?thesis
    unfolding word_unat_eq_iff unat_of_nat_u8 m b d ..
qed

lemma encode_fixed32_le: "pb_encode_fixed32 stream v = pb_write stream (le_bytes 4 (unat v))"
  unfolding pb_encode_fixed32_def byte_of_word le_bytes_4
  using byte_of_word [of 0 v] by simp

lemma encode_fixed64_le: "pb_encode_fixed64 stream v = pb_write stream (le_bytes 8 (unat v))"
  unfolding pb_encode_fixed64_def byte_of_word le_bytes_8
  using byte_of_word [of 0 v] by simp

lemma assemble_4:
  assumes "length d = 4"
  shows "push_bit 0 (ucast (d ! 0)) OR push_bit 8 (ucast (d ! 1)) OR push_bit 16 (ucast (d ! 2)) OR
    push_bit 24 (ucast (d ! 3)) = (of_nat (le_val d) :: u32)"
proof -
  have "unat (le_accum 0 0 d :: u32) = le_val d"
    using unat_le_accum [of "0 :: u32" 0 d] assms by simp
  then have "le_accum 0 0 [d ! 0, d ! 1, d ! 2, d ! 3] = (of_nat (le_val d) :: u32)"
    unfolding list_of_4 [OF assms] by (rule word_of_nat_eqI)
  then show ?thesis by (simp add: or.assoc)
qed

lemma assemble_8:
  assumes "length d = 8"
  shows "push_bit 0 (ucast (d ! 0)) OR push_bit 8 (ucast (d ! 1)) OR push_bit 16 (ucast (d ! 2)) OR
    push_bit 24 (ucast (d ! 3)) OR push_bit 32 (ucast (d ! 4)) OR push_bit 40 (ucast (d ! 5)) OR
    push_bit 48 (ucast (d ! 6)) OR push_bit 56 (ucast (d ! 7)) = (of_nat (le_val d) :: u64)"
proof -
  have "unat (le_accum 0 0 d :: u64) = le_val d"
    using unat_le_accum [of "0 :: u64" 0 d] assms by simp
  then have "le_accum 0 0 [d ! 0, d ! 1, d ! 2, d ! 3, d ! 4, d ! 5, d ! 6, d ! 7] = (of_nat (le_val d) :: u64)"
    unfolding list_of_8 [OF assms] by (rule word_of_nat_eqI)
  then show ?thesis by (simp add: or.assoc)
qed

interpretation fixed32: pb_codec pb_encode_fixed32 pb_decode_fixed32 "\<lambda>v. le_bytes 4 (unat v)" "\<lambda>_. True"
proof (rule one_write_codec)
  fix v :: u32 and s rest
  assume s: "buffered s" and "view s = le_bytes 4 (unat v) @ rest"
  from read_view [OF this, of True] have "pb_read s True 4 = (Some (le_bytes 4 (unat v)), advance s 4)" by simp
  moreover have "unat v mod 256 ^ 4 = unat v" using unat_less_pow [of v] by simp
  ultimately show "pb_decode_fixed32 s = (Some v, advance s (length (le_bytes 4 (unat v))))"
    by (simp only: pb_decode_fixed32_def prod.case option.case assemble_4 length_le_bytes le_val_le_bytes of_nat_unat ucast_id)
qed (simp_all add: encode_fixed32_le)

interpretation fixed64: pb_codec pb_encode_fixed64 pb_decode_fixed64 "\<lambda>v. le_bytes 8 (unat v)" "\<lambda>_. True"
proof (rule one_write_codec)
  fix v :: u64 and s rest
  assume s: "buffered s" and "view s = le_bytes 8 (unat v) @ rest"
  from read_view [OF this, of True] have "pb_read s True 8 = (Some (le_bytes 8 (unat v)), advance s 8)" by simp
  moreover have "unat v mod 256 ^ 8 = unat v" using unat_less_pow [of v] by simp
  ultimately show "pb_decode_fixed64 s = (Some v, advance s (length (le_bytes 8 (unat v))))"
    by (simp only: pb_decode_fixed64_def prod.case option.case assemble_8 length_le_bytes le_val_le_bytes of_nat_unat ucast_id)
qed (simp_all add: encode_fixed64_le)

section \<open>Tags\<close>

definition tag_bytes :: "u32 \<times> u32 \<Rightarrow> bytes" where
  "tag_bytes = (\<lambda>(wt, t). leb128 (unat t * 8 + unat wt))"

definition valid_tag :: "u32 \<times> u32 \<Rightarrow> bool" where
  "valid_tag = (\<lambda>(wt, t). unat wt < 8 \<and> unat t < 2 ^ 29 \<and> 0 < unat t * 8 + unat wt)"

lemma tag_word:
  assumes "unat wt < 8"
  shows "unat (push_bit 3 (ucast t) OR ucast wt :: u64) = unat (t :: u32) * 8 + unat (wt :: u32)"
proof -
  have t: "unat (ucast t :: u64) = unat t" and w: "unat (ucast wt :: u64) = unat wt" by simp_all
  have "unat (ucast wt :: u64) < 2 ^ 3" using assms by (simp only: w) simp
  moreover have "unat (ucast t :: u64) * 2 ^ 3 + unat (ucast wt :: u64) < 2 ^ LENGTH(64)"
    using assms unat_less_pow [of t] by (simp only: t w) simp
  ultimately show ?thesis
    using unat_push_or [of "ucast wt :: u64" 3 "ucast t"] by (simp only: t w) simp
qed

lemma tag_parts:
  assumes "unat wt < 8" and "unat t < 2 ^ 29"
  shows "of_nat (unat t * 8 + unat wt) AND 7 = (wt :: u32)" and "drop_bit 3 (of_nat (unat t * 8 + unat wt)) = (t :: u32)"
proof -
  have u: "unat (of_nat (unat t * 8 + unat wt) :: u32) = unat t * 8 + unat wt"
    using assms by (intro unat_of_nat_less) simp
  have "(of_nat (unat t * 8 + unat wt) :: u32) AND 7 = take_bit 3 (of_nat (unat t * 8 + unat wt))"
    by (simp add: take_bit_eq_mask mask_eq_exp_minus_1)
  moreover have "unat (take_bit 3 (of_nat (unat t * 8 + unat wt) :: u32)) = unat wt"
    unfolding unsigned_take_bit_eq u using assms(1) by (simp add: take_bit_eq_mod)
  ultimately show "of_nat (unat t * 8 + unat wt) AND 7 = wt"
    unfolding word_unat_eq_iff by (simp only:)
  show "drop_bit 3 (of_nat (unat t * 8 + unat wt)) = t"
    unfolding word_unat_eq_iff unat_drop_bit_eq u using assms(1) by (simp add: drop_bit_eq_div)
qed

definition decode_tag :: "pb_istream_t \<Rightarrow> (u32 \<times> u32) option \<times> pb_istream_t" where
  "decode_tag s = (case pb_decode_tag s of (r, _, s) \<Rightarrow> (r, s))"

interpretation tag: pb_codec "\<lambda>stream (wt, t). pb_encode_tag stream wt t" decode_tag tag_bytes valid_tag
proof (rule one_write_codec)
  fix v stream assume v: "valid_tag v"
  show "(case v of (wt, t) \<Rightarrow> pb_encode_tag stream wt t) = pb_write stream (tag_bytes v)"
    using v by (cases v) (simp only: prod.case pb_encode_tag_def encode_varint_leb128 tag_word valid_tag_def tag_bytes_def)
next
  fix v assume "valid_tag v"
  then have "length (tag_bytes v) \<le> 5"
    by (auto simp: tag_bytes_def valid_tag_def intro!: leb128_length)
  then show "length (tag_bytes v) < size_limit" by simp
next
  fix v s rest assume v: "valid_tag v" and s: "buffered s" "view s = tag_bytes v @ rest"
  obtain wt t where wt: "v = (wt, t)" by force
  from v have b: "unat wt < 8" "unat t < 2 ^ 29" "0 < unat t * 8 + unat wt" by (simp_all add: valid_tag_def wt)
  define k where "k = unat t * 8 + unat wt"
  have lt: "k < 2 ^ 32" using b by (simp add: k_def)
  note parts = tag_parts [OF b(1,2), folded k_def]
  have "(of_nat k :: u32) \<noteq> 0"
    using b(3) lt unat_of_nat_less [of k, where 'a = 32] by (auto simp: k_def [symmetric])
  moreover have k: "tag_bytes v = leb128 k" by (simp add: tag_bytes_def wt k_def)
  moreover have "view s = leb128 k @ rest" using s(2) by (simp add: k)
  ultimately show "decode_tag s = (Some v, advance s (length (tag_bytes v)))"
    using decode_varint32_eof_leb128 [OF s(1) _ lt, of rest False]
    by (simp add: decode_tag_def pb_decode_tag_def k wt parts)
qed

section \<open>Length-prefixed strings\<close>

definition string_bytes :: "bytes \<Rightarrow> bytes" where
  "string_bytes d = leb128 (length d) @ d"

lemma encode_string_fits:
  assumes "to_buffer stream" and "has_room stream (length (string_bytes d))" 
  shows "pb_encode_string stream d = (True, pb_put stream (string_bytes d))"
proof -
  have l: "length d < 2 ^ 64" using assms by (simp add: to_buffer_def has_room_def string_bytes_def)
  have u: "unat (of_nat (length d) :: u64) = length d" using l by (intro unat_of_nat_less) simp
  have r: "has_room stream (length (leb128 (length d)))" using assms(2) by (simp add: has_room_def string_bytes_def)
  have "to_buffer (pb_put stream (leb128 (length d)))" by (rule to_buffer_put [OF assms(1) r])
  then show ?thesis
    using assms r write_room [OF assms(1) r] write_room [of "pb_put stream (leb128 (length d))" d]
    by (simp add: pb_encode_string_def encode_varint_leb128 u string_bytes_def has_room_put)
qed

lemma encode_string_refused:
  assumes "to_buffer stream" and "\<not> has_room stream (length (string_bytes d))" and "length d < 2 ^ 64"
  shows "fst (pb_encode_string stream d) = False"
proof -
  have u: "unat (of_nat (length d) :: u64) = length d" using assms(3) by (intro unat_of_nat_less) simp
  have l: "length (leb128 (length d)) < size_limit" using leb128_u64_fits [of "of_nat (length d)"] by (simp only: u)
  show ?thesis
  proof (cases "has_room stream (length (leb128 (length d)))")
    case True
    note buf = to_buffer_put [OF assms(1) True]
    have "\<not> has_room (pb_put stream (leb128 (length d))) (length d)"
      using assms(2) by (simp add: has_room_put string_bytes_def)
    from write_full(1) [OF buf this] assms(3) write_room [OF assms(1) True] show ?thesis
      by (simp add: pb_encode_string_def encode_varint_leb128 u)
  next
    case False
    from write_full(1) [OF assms(1) False l] show ?thesis
      by (auto simp: pb_encode_string_def encode_varint_leb128 u split: prod.splits bool.splits)
  qed
qed

lemma string_codec:
  assumes "\<And>v stream. valid v \<Longrightarrow> wr stream v = pb_encode_string stream v"
    and "\<And>v. valid v \<Longrightarrow> length v < 2 ^ 32"
    and "\<And>v s rest. valid v \<Longrightarrow> buffered s \<Longrightarrow>
      pb_decode_varint32 s = (Some (of_nat (length v)), advance s (length (leb128 (length v)))) \<Longrightarrow>
      pb_read (advance s (length (leb128 (length v)))) True (length v) = (Some v, advance s (length (string_bytes v))) \<Longrightarrow>
      unat (of_nat (length v) :: u32) = length v \<Longrightarrow>
      rd s = (Some v, advance s (length (string_bytes v)))"
  shows "pb_codec wr rd string_bytes valid"
proof (rule pb_codec.intro)
  fix v stream assume v: "valid v" and s: "to_buffer stream" "\<not> has_room stream (length (string_bytes v))"
  have "length v < 2 ^ 64" using assms(2) [OF v] by simp
  with encode_string_refused [OF s] show "fst (wr stream v) = False" by (simp only: assms(1) [OF v])
next
  fix v s rest assume v: "valid v" and s: "buffered s" "view s = string_bytes v @ rest"
  have w: "view s = leb128 (length v) @ (v @ rest)" using s(2) by (simp add: string_bytes_def)
  have "buffered (advance s (length (leb128 (length v))))" "view (advance s (length (leb128 (length v)))) = v @ rest"
    using s(1) w by (simp_all add: buffered_advance view_advance)
  from read_view [OF this] decode_varint32_leb128 [OF s(1) w assms(2) [OF v]] assms(3) [OF v s(1)]
  show "rd s = (Some v, advance s (length (string_bytes v)))"
    using assms(2) [OF v] by (simp add: string_bytes_def unat_of_nat_less)
qed (simp only: assms encode_string_fits)

definition bytes_fit :: "(nat \<Rightarrow> bool) \<Rightarrow> pb_field_t \<Rightarrow> bytes \<Rightarrow> bool" where
  "bytes_fit realloc field d \<longleftrightarrow> length d < 2 ^ 32 \<and>
     (if PB_ATYPE (ftype field) = PB_ATYPE_POINTER then realloc (length d + 4)
      else length d + 4 \<le> unat (data_size field))"

definition string_fits :: "(nat \<Rightarrow> bool) \<Rightarrow> pb_field_t \<Rightarrow> bytes \<Rightarrow> bool" where
  "string_fits realloc field d \<longleftrightarrow> 0 \<notin> set d \<and> length d + 1 < 2 ^ 32 \<and>
     (if PB_ATYPE (ftype field) = PB_ATYPE_POINTER then realloc (length d + 1)
      else length d + 1 \<le> unat (data_size field))"

lemma allocate_one: "0 < n \<Longrightarrow> n < size_limit \<Longrightarrow> realloc n \<Longrightarrow> allocate_field realloc s n 1 = (True, s)"
  by (simp add: allocate_field_def size_mul_def)

lemma string_size_all: "0 \<notin> set d \<Longrightarrow> length d \<le> n \<Longrightarrow> string_size n (d @ [0]) = length d"
  by (induction n d rule: string_size.induct) (auto split: if_splits)

interpretation bytes_field: pb_codec "\<lambda>stream d. pb_enc_bytes stream field (Some d)"
  "\<lambda>s. pb_dec_bytes realloc s field" string_bytes "bytes_fit realloc field" for field realloc
proof (rule string_codec)
  fix v s rest stream
  assume v: "bytes_fit realloc field v"
  then have l: "length v < 2 ^ 32" by (simp add: bytes_fit_def)
  then show "length v < 2 ^ 32" .
  have a: "PB_BYTES_ARRAY_T_ALLOCSIZE (length v) = length v + 4"
    using l by (simp add: PB_BYTES_ARRAY_T_ALLOCSIZE_def size_add_def)
  have p: "PB_ATYPE_POINTER \<noteq> PB_ATYPE_STATIC" by (simp add: PB_ATYPE_POINTER_def PB_ATYPE_STATIC_def)
  show "pb_enc_bytes stream field (Some v) = pb_encode_string stream v"
    using v p by (auto simp: pb_enc_bytes_def a bytes_fit_def Let_def split: if_splits)
  assume "pb_decode_varint32 s = (Some (of_nat (length v)), advance s (length (leb128 (length v))))"
    and "pb_read (advance s (length (leb128 (length v)))) True (length v) = (Some v, advance s (length (string_bytes v)))"
    and "unat (of_nat (length v) :: u32) = length v"
  then show "pb_dec_bytes realloc s field = (Some v, advance s (length (string_bytes v)))"
    using v allocate_one [of "length v + 4"] l
    by (simp add: pb_dec_bytes_def a bytes_fit_def PB_SIZE_MAX_def not_less [symmetric] Let_def split: if_splits)
qed

interpretation string_field: pb_codec "\<lambda>stream d. pb_enc_string stream field (Some (d @ [0]))"
  "\<lambda>s. pb_dec_string realloc s field" string_bytes "string_fits realloc field" for field realloc
proof (rule string_codec)
  fix v s rest stream
  assume v: "string_fits realloc field v"
  then have l: "length v + 1 < 2 ^ 32" by (simp add: string_fits_def)
  then show "length v < 2 ^ 32" by simp
  have "string_size (size_limit - 1) (v @ [0]) = length v"
    using v l by (intro string_size_all) (simp_all add: string_fits_def)
  moreover have "PB_ATYPE (ftype field) \<noteq> PB_ATYPE_POINTER \<Longrightarrow> string_size (unat (data_size field)) (v @ [0]) = length v"
    using v by (intro string_size_all) (simp_all add: string_fits_def)
  ultimately show "pb_enc_string stream field (Some (v @ [0])) = pb_encode_string stream v"
    by (simp add: pb_enc_string_def Let_def)
  assume u: "unat (of_nat (length v) :: u32) = length v"
  have "unat (of_nat (length v + 1) :: u32) = length v + 1" using l by (intro unat_of_nat_less) simp
  then have "unat (of_nat (length v) + 1 :: u32) = length v + 1" by (simp add: add.commute)
  moreover assume "pb_decode_varint32 s = (Some (of_nat (length v)), advance s (length (leb128 (length v))))"
    and "pb_read (advance s (length (leb128 (length v)))) True (length v) = (Some v, advance s (length (string_bytes v)))"
  ultimately show "pb_dec_string realloc s field = (Some v, advance s (length (string_bytes v)))"
    using v u allocate_one [of "length v + 1"] l
    by (simp add: pb_dec_string_def string_fits_def Let_def split: if_splits)
qed

interpretation fixed_length_field: pb_codec "\<lambda>stream d. pb_enc_fixed_length_bytes stream field d"
  "\<lambda>s. pb_dec_fixed_length_bytes s field" string_bytes "\<lambda>d. length d = unat (data_size field)" for field
proof (rule string_codec)
  fix v :: bytes and s rest stream
  assume v: "length v = unat (data_size field)"
  then show "length v < 2 ^ 32" using unat_less_pow [of "data_size field"] by simp
  show "pb_enc_fixed_length_bytes stream field v = pb_encode_string stream v"
    using v by (simp add: pb_enc_fixed_length_bytes_def)
  assume "pb_decode_varint32 s = (Some (of_nat (length v)), advance s (length (leb128 (length v))))"
    and "pb_read (advance s (length (leb128 (length v)))) True (length v) = (Some v, advance s (length (string_bytes v)))"
  then show "pb_dec_fixed_length_bytes s field = (Some v, advance s (length (string_bytes v)))"
    using v by (auto simp: pb_dec_fixed_length_bytes_def PB_SIZE_MAX_def not_less [symmetric] string_bytes_def)
qed

section \<open>Integers of the structure\<close>

definition int_fits :: "pb_field_t \<Rightarrow> bytes \<Rightarrow> bool" where
  "int_fits field d \<longleftrightarrow> int_size (data_size field) \<and> length d = unat (data_size field)"

definition stored :: "bool \<times> bytes option \<times> pb_istream_t \<Rightarrow> bytes option \<times> pb_istream_t" where
  "stored = (\<lambda>(done, dest, stream). (if done then dest else None, stream))"

lemma int_size_cases: "int_size n \<Longrightarrow> unat n \<in> {1, 2, 4, 8}"
  by (auto simp: int_size_def)

lemma le_bytes_le_val: "le_bytes (length d) (le_val d) = d"
  by (metis le_bytes_def be_bytes_be_val be_val_rev length_rev rev_rev_ident)

lemma le_bytes_mod: "le_bytes n (k mod 256 ^ n) = le_bytes n k"
  using le_bytes_le_val [of "le_bytes n k"] by (simp add: le_val_le_bytes)

lemma bits_256: "(256 :: nat) ^ n = 2 ^ (8 * n)"
  by (simp add: power_mult)

lemma unat_mod_256: "unat (v :: u64) mod 256 ^ n = unat (take_bit (8 * n) v)"
  unfolding bits_256 unsigned_take_bit_eq by (rule take_bit_eq_mod [symmetric])

lemma sext_bytes:
  assumes "unat n \<in> {1, 2, 4, 8}" and "length d = unat n"
  shows "le_bytes (unat n) (unat (sext (unat n) (of_nat (le_val d)))) = d"
proof -
  have "take_bit (8 * unat n) (signed_take_bit (8 * unat n - 1) (of_nat (le_val d) :: u64)) =
      take_bit (8 * unat n) (of_nat (le_val d))"
    by (rule take_bit_signed_take_bit) simp
  then have "unat (sext (unat n) (of_nat (le_val d))) mod 256 ^ unat n = unat (of_nat (le_val d) :: u64) mod 256 ^ unat n"
    by (simp only: unat_mod_256 sext_def)
  moreover have lt: "le_val d < 2 ^ 64"
    using le_val_less [of d] pow_256_le_size [of "length d"] assms by (simp only: insert_iff) auto
  then have "unat (of_nat (le_val d) :: u64) = le_val d"
    by (intro unat_of_nat_less) simp
  ultimately have "unat (sext (unat n) (of_nat (le_val d))) mod 256 ^ unat n = le_val d mod 256 ^ unat n"
    by (simp only:)
  then have "le_bytes (unat n) (unat (sext (unat n) (of_nat (le_val d)))) = le_bytes (unat n) (le_val d)"
    by (metis le_bytes_mod)
  then show ?thesis using le_bytes_le_val [of d] assms(2) by (simp only:)
qed

lemma sext_idem: "unat n \<in> {1, 2, 4, 8} \<Longrightarrow> sext (unat n) (sext (unat n) v) = sext (unat n) v"
  unfolding sext_def by (simp add: signed_take_bit_signed_take_bit)

lemma sext_through_32:
  assumes "unat n \<in> {1, 2, 4}"
  shows "scast (ucast (sext (unat n) v) :: 32 word) = sext (unat n) v"
proof -
  have "scast (ucast w :: 32 word) = signed_take_bit 31 w" for w :: u64
    by (rule bit_eqI) (auto simp: bit_signed_take_bit_iff bit_simps min_def)
  with assms show ?thesis
    unfolding sext_def by (auto simp: signed_take_bit_signed_take_bit)
qed

lemma int_data_size: "int_size n \<Longrightarrow> n \<noteq> 8 \<Longrightarrow> unat n \<in> {1, 2, 4}"
  by (auto simp: int_size_def)

lemma le_val_u64: "int_fits field d \<Longrightarrow> unat (of_nat (le_val d) :: u64) = le_val d"
proof -
  assume "int_fits field d"
  then have "length d \<le> 8" using int_size_cases [of "data_size field"] by (auto simp: int_fits_def)
  then have "le_val d < 2 ^ 64" using le_val_less [of d] pow_256_le_size [of "length d"] by linarith
  then show ?thesis by (intro unat_of_nat_less) simp
qed

text \<open>The 64-bit value of a signed field.\<close>

abbreviation signed_value :: "pb_field_t \<Rightarrow> bytes \<Rightarrow> u64" where
  "signed_value field d \<equiv> sext (unat (data_size field)) (of_nat (le_val d))"

interpretation varint_field: pb_codec "\<lambda>stream d. pb_enc_varint stream field d"
  "\<lambda>s. stored (pb_dec_varint s field)" "\<lambda>d. leb128 (unat (signed_value field d))" "int_fits field" for field
proof (rule one_write_codec)
  fix v stream assume "int_fits field v"
  then show "pb_enc_varint stream field v = pb_write stream (leb128 (unat (signed_value field v)))"
    by (simp add: pb_enc_varint_def int_fits_def encode_varint_leb128)
next
  fix v s rest
  assume v: "int_fits field v" and s: "buffered s" "view s = leb128 (unat (signed_value field v)) @ rest"
  define n where "n = data_size field"
  define x where "x = sext (unat n) (of_nat (le_val v))"
  have n: "int_size n" "length v = unat n" using v by (simp_all add: int_fits_def n_def)
  have same: "le_bytes (unat n) (unat x) = v" "sext (unat n) x = x"
    unfolding x_def using sext_bytes [OF int_size_cases [OF n(1)] n(2)] sext_idem [OF int_size_cases [OF n(1)]]
    by simp_all
  have sv: "(if n = 8 then x else scast (ucast x :: 32 word)) = x"
    using sext_through_32 [OF int_data_size [OF n(1)]] by (simp add: x_def)
  from varint.read_encoded [OF TrueI s [folded n_def, folded x_def]]
  show "stored (pb_dec_varint s field) = (Some v, advance s (length (leb128 (unat (signed_value field v)))))"
    unfolding pb_dec_varint_def n_def [symmetric] unfolding x_def [symmetric]
    by (simp only: prod.case option.case sv Let_def n(1) if_True same not_True_eq_False simp_thms if_False stored_def)
qed (rule leb128_u64_fits)

interpretation svarint_field: pb_codec "\<lambda>stream d. pb_enc_svarint stream field d"
  "\<lambda>s. stored (pb_dec_svarint s field)" "\<lambda>d. leb128 (unat (zigzag (signed_value field d)))" "int_fits field" for field
proof (rule one_write_codec)
  fix v stream assume "int_fits field v"
  then show "pb_enc_svarint stream field v = pb_write stream (leb128 (unat (zigzag (signed_value field v))))"
    by (simp add: pb_enc_svarint_def int_fits_def pb_encode_svarint_def encode_varint_leb128 zigzag_def Let_def)
next
  fix v s rest
  assume v: "int_fits field v" and s: "buffered s" "view s = leb128 (unat (zigzag (signed_value field v))) @ rest"
  define n where "n = data_size field"
  define x where "x = sext (unat n) (of_nat (le_val v))"
  have n: "int_size n" "length v = unat n" using v by (simp_all add: int_fits_def n_def)
  have same: "le_bytes (unat n) (unat x) = v" "sext (unat n) x = x"
    unfolding x_def using sext_bytes [OF int_size_cases [OF n(1)] n(2)] sext_idem [OF int_size_cases [OF n(1)]]
    by simp_all
  from svarint.read_encoded [OF TrueI s [folded n_def, folded x_def]]
  show "stored (pb_dec_svarint s field) = (Some v, advance s (length (leb128 (unat (zigzag (signed_value field v))))))"
    unfolding pb_dec_svarint_def n_def [symmetric] unfolding x_def [symmetric]
    by (simp only: prod.case option.case Let_def n(1) if_True same simp_thms if_False stored_def)
qed (rule leb128_u64_fits)

interpretation uvarint_field: pb_codec "\<lambda>stream d. pb_enc_uvarint stream field d"
  "\<lambda>s. stored (pb_dec_uvarint s field)" "\<lambda>d. leb128 (unat (of_nat (le_val d) :: u64))" "int_fits field" for field
proof (rule one_write_codec)
  fix v stream assume "int_fits field v"
  then show "pb_enc_uvarint stream field v = pb_write stream (leb128 (unat (of_nat (le_val v) :: u64)))"
    by (simp only: pb_enc_uvarint_def int_fits_def encode_varint_leb128 if_True simp_thms)
next
  fix v s rest
  assume v: "int_fits field v" and s: "buffered s" "view s = leb128 (unat (of_nat (le_val v) :: u64)) @ rest"
  define n where "n = data_size field"
  define x :: u64 where "x = of_nat (le_val v)"
  have n: "int_size n" "length v = unat n" using v by (simp_all add: int_fits_def n_def)
  have x: "unat x = le_val v" unfolding x_def by (rule le_val_u64 [OF v])
  have "unat x < 2 ^ (8 * unat n)" using le_val_less [of v] by (simp add: x n(2) bits_256)
  then have "zext (unat n) x = x" unfolding zext_def by (rule take_bit_eq_self)
  moreover have "le_bytes (unat n) (unat x) = v" unfolding x n(2) [symmetric] by (rule le_bytes_le_val)
  moreover note varint.read_encoded [OF TrueI s [folded n_def, folded x_def]]
  ultimately show "stored (pb_dec_uvarint s field) = (Some v, advance s (length (leb128 (unat (of_nat (le_val v) :: u64)))))"
    unfolding pb_dec_uvarint_def n_def [symmetric] unfolding x_def [symmetric]
    by (simp only: prod.case option.case Let_def n(1) if_True simp_thms if_False stored_def)
qed (rule leb128_u64_fits)

interpretation bool_field: pb_codec "\<lambda>stream b. pb_enc_bool stream [if b then 1 else 0]"
  pb_decode_bool "\<lambda>b. leb128 (if b then 1 else 0)" "\<lambda>_. True"
proof (rule one_write_codec)
  fix b :: bool and s rest
  assume "buffered s" and "view s = leb128 (if b then 1 else 0) @ rest"
  from decode_varint32_leb128 [OF this]
  show "pb_decode_bool s = (Some b, advance s (length (leb128 (if b then 1 else 0))))"
    by (cases b) (simp_all add: pb_decode_bool_def pb_dec_bool_def)
qed (auto simp: pb_enc_bool_def safe_read_bool_def encode_varint_leb128 leb128_small)

end
