(* ===== verification/Nanopb_Safety.thy ===== *)
theory Nanopb_Safety
  imports Nanopb_Encode Nanopb_Codec
begin

text \<open>
  Output streams over buffers and sizing streams: that no sequence of calls of the encoder, whole
  messages included, writes more than the buffer holds, and that a sizing stream counts the bytes.
  The state of a stream over a buffer is the bytes before the pointer through which \<open>buf_write\<close>
  stores and which it advances.
\<close>

section \<open>Writers as sequences of writes\<close>

datatype out_call =
    Write bytes
  | Varint u64 | Svarint u64 | Fixed32 u32 | Fixed64 u64
  | Tag u32 u32
  | String bytes
  | Tag_for_field pb_field_t
  | Enc_bool bytes
  | Enc_varint pb_field_t bytes | Enc_uvarint pb_field_t bytes | Enc_svarint pb_field_t bytes
  | Enc_bytes pb_field_t "bytes option" | Enc_string pb_field_t "bytes option"
  | Enc_fixed_length_bytes pb_field_t bytes

fun run_call :: "out_call \<Rightarrow> pb_ostream_t \<Rightarrow> bool \<times> pb_ostream_t" where
  "run_call (Write d) s = pb_write s d"
| "run_call (Varint v) s = pb_encode_varint s v"
| "run_call (Svarint v) s = pb_encode_svarint s v"
| "run_call (Fixed32 v) s = pb_encode_fixed32 s v"
| "run_call (Fixed64 v) s = pb_encode_fixed64 s v"
| "run_call (Tag wt t) s = pb_encode_tag s wt t"
| "run_call (String d) s = pb_encode_string s d"
| "run_call (Tag_for_field f) s = pb_encode_tag_for_field s f"
| "run_call (Enc_bool p) s = pb_enc_bool s p"
| "run_call (Enc_varint f p) s = pb_enc_varint s f p"
| "run_call (Enc_uvarint f p) s = pb_enc_uvarint s f p"
| "run_call (Enc_svarint f p) s = pb_enc_svarint s f p"
| "run_call (Enc_bytes f p) s = pb_enc_bytes s f p"
| "run_call (Enc_string f p) s = pb_enc_string s f p"
| "run_call (Enc_fixed_length_bytes f p) s = pb_enc_fixed_length_bytes s f p"

fun run_calls :: "out_call list \<Rightarrow> pb_ostream_t \<Rightarrow> bool \<times> pb_ostream_t" where
  "run_calls [] s = (True, s)"
| "run_calls (c # cs) s = (case run_call c s of (False, s) \<Rightarrow> (False, s) | (True, s) \<Rightarrow> run_calls cs s)"

fun write_all :: "bytes list \<Rightarrow> pb_ostream_t \<Rightarrow> bool \<times> pb_ostream_t" where
  "write_all [] s = (True, s)"
| "write_all (d # ds) s = (case pb_write s d of (False, s) \<Rightarrow> (False, s) | (True, s) \<Rightarrow> write_all ds s)"

lemma write_all_one: "write_all [d] s = pb_write s d"
  by (auto split: prod.splits bool.splits)

lemma write_all_append:
  "write_all (ds @ es) s = (case write_all ds s of (False, s) \<Rightarrow> (False, s) | (True, s) \<Rightarrow> write_all es s)"
  by (induction ds arbitrary: s) (auto split: prod.splits bool.splits)

text \<open>The byte strings a caller passes are objects in memory, shorter than \<open>size_limit\<close>.\<close>

fun call_ok :: "out_call \<Rightarrow> bool" where
  "call_ok (Write d) = (length d < size_limit)"
| "call_ok (String d) = (length d < size_limit)"
| "call_ok (Enc_bytes f (Some d)) = (length d < size_limit)"
| "call_ok (Enc_string f (Some d)) = (length d < size_limit)"
| "call_ok (Enc_fixed_length_bytes f d) = (length d < size_limit)"
| "call_ok c = True"

text \<open>Every call either fails before it writes, whatever the stream, or is a sequence of
  writes that does not depend on the stream.\<close>

definition is_writes :: "(pb_ostream_t \<Rightarrow> bool \<times> pb_ostream_t) \<Rightarrow> bool" where
  "is_writes f \<longleftrightarrow>
     (\<exists>ds. f = write_all ds \<and> (\<forall>d \<in> set ds. length d < size_limit)) \<or> (\<exists>msg. f = out_error msg)"

lemma writes_write: "length d < size_limit \<Longrightarrow> is_writes (\<lambda>s. pb_write s d)"
proof -
  assume "length d < size_limit"
  moreover have "(\<lambda>s. pb_write s d) = write_all [d]" by (rule ext) (simp only: write_all_one)
  ultimately show ?thesis unfolding is_writes_def by (intro disjI1 exI [of _ "[d]"]) simp
qed

lemma writes_error: "is_writes (out_error msg)"
  unfolding is_writes_def by blast

lemma writes_varint: "is_writes (\<lambda>s. pb_encode_varint s v)"
  unfolding encode_varint_leb128 by (rule writes_write [OF leb128_u64_fits])

lemma writes_svarint: "is_writes (\<lambda>s. pb_encode_svarint s v)"
  unfolding pb_encode_svarint_def Let_def by (rule writes_varint)

lemma writes_fixed: "is_writes (\<lambda>s. pb_encode_fixed32 s v)" "is_writes (\<lambda>s. pb_encode_fixed64 s w)"
  unfolding encode_fixed32_le encode_fixed64_le by (rule writes_write; simp)+

lemma writes_string: "length d < size_limit \<Longrightarrow> is_writes (\<lambda>s. pb_encode_string s d)"
proof -
  assume "length d < size_limit"
  moreover have "(\<lambda>s. pb_encode_string s d) = write_all [leb128 (unat (of_nat (length d) :: u64)), d]"
    by (rule ext) (auto simp: pb_encode_string_def encode_varint_leb128 split: prod.splits bool.splits)
  ultimately show ?thesis
    unfolding is_writes_def by (intro disjI1 exI [of _ "[leb128 (unat (of_nat (length d) :: u64)), d]"])
      (simp add: leb128_u64_fits [simplified])
qed

lemma writes_tag: "is_writes (\<lambda>s. pb_encode_tag s wt t)"
  unfolding pb_encode_tag_def by (rule writes_varint)

lemma writes_if: "is_writes f \<Longrightarrow> is_writes g \<Longrightarrow> is_writes (\<lambda>s. if b then f s else g s)"
  by (cases b) simp_all

lemmas writes_intros = writes_error writes_varint writes_svarint writes_fixed writes_tag writes_if

lemma writes_tag_for_field: "is_writes (\<lambda>s. pb_encode_tag_for_field s f)"
  unfolding pb_encode_tag_for_field_def Let_def by (intro writes_intros)

lemma writes_enc_int: "is_writes (\<lambda>s. pb_enc_varint s f p)" "is_writes (\<lambda>s. pb_enc_uvarint s f p)"
  "is_writes (\<lambda>s. pb_enc_svarint s f p)" "is_writes (\<lambda>s. pb_enc_bool s p)"
  unfolding pb_enc_varint_def pb_enc_uvarint_def pb_enc_svarint_def pb_enc_bool_def by (intro writes_intros)+

lemma writes_enc_bytes: "call_ok (Enc_bytes f p) \<Longrightarrow> is_writes (\<lambda>s. pb_enc_bytes s f p)"
  unfolding pb_enc_bytes_def Let_def by (cases p) (simp_all add: writes_intros writes_string)

lemma writes_enc_string: "call_ok (Enc_string f p) \<Longrightarrow> is_writes (\<lambda>s. pb_enc_string s f p)"
  unfolding pb_enc_string_def Let_def
  by (cases p) (simp_all add: writes_string min.strict_coboundedI1)

lemma writes_call: "call_ok c \<Longrightarrow> is_writes (run_call c)"
  by (cases c)
    (auto simp only: run_call.simps [abs_def] call_ok.simps pb_enc_fixed_length_bytes_def length_take min_less_iff_disj
      intro!: writes_write writes_string writes_tag_for_field writes_enc_int writes_enc_bytes writes_enc_string writes_intros)

section \<open>Output stays inside the buffer\<close>

text \<open>A stream over a buffer of at most \<open>2 ^ 63\<close> bytes, and what a call may do to it.\<close>

definition out_ok :: "pb_ostream_t \<Rightarrow> bool" where
  "out_ok s \<longleftrightarrow> to_buffer s \<and> max_size s \<le> 2 ^ 63"

definition moves :: "pb_ostream_t \<Rightarrow> pb_ostream_t \<Rightarrow> bool" where
  "moves s s' \<longleftrightarrow> out_ok s' \<and> max_size s' = max_size s \<and>
     (\<exists>d. wstate s' = wstate s @ d \<and> bytes_written s' = bytes_written s + length d)"

definition keeps :: "(pb_ostream_t \<Rightarrow> enc_result) \<Rightarrow> bool" where
  "keeps f \<longleftrightarrow> (\<forall>s r s'. out_ok s \<longrightarrow> f s = Some (r, s') \<longrightarrow> moves s s')"

named_theorems keeps_rules

lemma moves_refl: "out_ok s \<Longrightarrow> moves s s"
  by (simp add: moves_def)

lemma moves_trans: "moves s s' \<Longrightarrow> moves s' s'' \<Longrightarrow> moves s s''"
  by (auto simp: moves_def)

lemma moves_ok: "moves s s' \<Longrightarrow> out_ok s'"
  by (simp add: moves_def)

lemma moves_error: "out_ok s \<Longrightarrow> moves s (s\<lparr>werrmsg := e\<rparr>)"
  by (simp add: moves_def out_ok_def to_buffer_def)

lemma keepsD: "keeps f \<Longrightarrow> out_ok s \<Longrightarrow> f s = Some (r, s') \<Longrightarrow> moves s s'"
  unfolding keeps_def by blast

lemma keepsI: "(\<And>s r s'. out_ok s \<Longrightarrow> f s = Some (r, s') \<Longrightarrow> moves s s') \<Longrightarrow> keeps f"
  unfolding keeps_def by blast

lemma write_moves:
  assumes "out_ok s" and "length d < size_limit"
  shows "moves s (snd (pb_write s d))"
proof (cases "has_room s (length d)")
  case True
  with assms write_room [of s d] show ?thesis
    by (auto simp: out_ok_def moves_def to_buffer_put)
next
  case False
  have s: "to_buffer s" using assms by (simp add: out_ok_def)
  have "snd (pb_write s d) = snd (out_error ''stream full'' s)"
  proof -
    have "fst (pb_write s d) = False" by (rule write_full(1) [OF s False assms(2)])
    with s show ?thesis
      by (auto simp: pb_write_def to_buffer_def run_write_def buf_write_def Let_def split: if_splits)
  qed
  then show ?thesis using moves_error [OF assms(1)] by (simp add: out_error_def)
qed

lemma write_all_moves:
  assumes "out_ok s" and "\<forall>d \<in> set ds. length d < size_limit"
  shows "moves s (snd (write_all ds s))"
  using assms
proof (induction ds arbitrary: s)
  case (Cons d ds)
  have k: "moves s (snd (pb_write s d))" using Cons.prems by (intro write_moves) simp_all
  show ?case
  proof (cases "pb_write s d")
    case (Pair r s')
    show ?thesis
      using k Cons.IH [of s'] Cons.prems(2) moves_trans [of s s'] moves_ok [of s s'] by (cases r) (simp_all add: Pair)
  qed
qed (simp add: moves_refl)

lemma keeps_writes: "is_writes f \<Longrightarrow> keeps (\<lambda>s. Some (f s))"
proof (rule keepsI)
  fix s r s' assume w: "is_writes f" and s: "out_ok s" and "Some (f s) = Some (r, s')"
  then have s': "s' = snd (f s)" by simp
  from w show "moves s s'"
    unfolding is_writes_def s' using write_all_moves [OF s] moves_error [OF s] by (auto simp: out_error_def)
qed

text \<open>The ways to put encoders together.\<close>

lemma keeps_None [keeps_rules]: "keeps (\<lambda>s. None)"
  by (simp add: keeps_def)

lemma keeps_skip [keeps_rules]: "keeps (\<lambda>s. Some (r, s))"
  by (simp add: keeps_def moves_refl)

lemma keeps_fail [keeps_rules]: "keeps (\<lambda>s. enc_fail msg s)"
  using moves_error by (auto simp: keeps_def enc_fail_def out_error_def)

lemma keeps_cond [keeps_rules]: "keeps f \<Longrightarrow> keeps g \<Longrightarrow> keeps (\<lambda>s. if b then f s else g s)"
  by (cases b) simp_all

lemma keeps_then [keeps_rules]:
  assumes "keeps f" and "keeps g"
  shows "keeps (\<lambda>s. enc_then (f s) g)"
proof (rule keepsI)
  fix s r s' assume s: "out_ok s" and r: "enc_then (f s) g = Some (r, s')"
  from r obtain ok s1 where f: "f s = Some (ok, s1)" by (auto simp: enc_then_def split: option.splits)
  have m: "moves s s1" by (rule keepsD [OF assms(1) s f])
  show "moves s s'"
  proof (cases ok)
    case True
    with r f have "g s1 = Some (r, s')" by (simp add: enc_then_def)
    from moves_trans [OF m keepsD [OF assms(2) moves_ok [OF m] this]] show ?thesis .
  next
    case False
    with r f m show ?thesis by (simp add: enc_then_def)
  qed
qed

lemma keeps_writing [keeps_rules]: "keeps f \<Longrightarrow> keeps (\<lambda>s. if wcallback s = None then g s else f s)"
  unfolding keeps_def by (simp add: out_ok_def to_buffer_def)

lemma keeps_tag [keeps_rules]: "keeps (\<lambda>s. Some (pb_encode_tag s wt t))"
  by (rule keeps_writes [OF writes_tag])

lemma keeps_varint [keeps_rules]: "keeps (\<lambda>s. Some (pb_encode_varint s v))"
  by (rule keeps_writes [OF writes_varint])

lemma keeps_field_tag [keeps_rules]: "keeps (\<lambda>s. Some (pb_encode_tag_for_field s f))"
  by (rule keeps_writes [OF writes_tag_for_field])

text \<open>A submessage: the stream for its second pass is limited to the size of the first one, so it
  stays in the room that was checked before; sizes below \<open>2 ^ 63\<close> keep that check from wrapping.\<close>

lemma keeps_submessage:
  assumes e: "keeps (\<lambda>s. enc s m src)"
    and small: "\<And>ss. enc PB_OSTREAM_SIZING m src = Some (True, ss) \<Longrightarrow> bytes_written ss < 2 ^ 63"
  shows "keeps (\<lambda>s. pb_encode_submessage enc s m src)"
proof (cases "enc PB_OSTREAM_SIZING m src")
  case None
  then show ?thesis by (simp add: pb_encode_submessage_def keeps_None)
next
  case (Some p)
  obtain ok ss where p: "p = (ok, ss)" by fastforce
  show ?thesis
  proof (cases ok)
    case False
    with Some p moves_error show ?thesis by (auto simp: pb_encode_submessage_def keeps_def)
  next
    case True
    let ?n = "bytes_written ss"
    have n: "?n < 2 ^ 63" using small Some p True by simp
    have "keeps (\<lambda>s. if size_add (bytes_written s) ?n > max_size s then enc_fail ''stream full'' s
        else case enc \<lparr>wcallback = wcallback s, wstate = wstate s, max_size = ?n, bytes_written = 0, werrmsg = None\<rparr> m src of
               None \<Rightarrow> None
             | Some (status, sub) \<Rightarrow>
                 let s = s\<lparr>bytes_written := size_add (bytes_written s) (bytes_written sub), wstate := wstate sub,
                           werrmsg := werrmsg sub\<rparr>
                 in if bytes_written sub \<noteq> ?n then enc_fail ''submsg size changed'' s else Some (status, s))" (is "keeps ?g")
    proof (rule keepsI)
      fix s r s' assume s: "out_ok s" and r: "?g s = Some (r, s')"
      let ?o = "\<lparr>wcallback = wcallback s, wstate = wstate s, max_size = ?n, bytes_written = 0, werrmsg = None\<rparr>"
      have b: "bytes_written s \<le> max_size s" "max_size s \<le> 2 ^ 63" "wcallback s = Some Buf_write"
        using s by (simp_all add: out_ok_def to_buffer_def)
      have add: "size_add (bytes_written s) k = bytes_written s + k" if "k \<le> ?n" for k
        using b n that by (simp add: size_add_def)
      show "moves s s'"
      proof (cases "size_add (bytes_written s) ?n > max_size s")
        case True
        with r keepsD [OF keeps_fail s] show ?thesis by auto
      next
        case False
        have o: "out_ok ?o" using b(3) n by (simp add: out_ok_def to_buffer_def)
        from r False obtain status sub where sub: "enc ?o m src = Some (status, sub)" by (auto split: option.splits)
        have m: "moves ?o sub" by (rule keepsD [OF e o sub])
        then obtain d where d: "wstate sub = wstate s @ d" "bytes_written sub = length d" "length d \<le> ?n"
          by (auto simp: moves_def out_ok_def to_buffer_def)
        let ?s = "s\<lparr>bytes_written := bytes_written s + length d, wstate := wstate s @ d, werrmsg := werrmsg sub\<rparr>"
        have k: "moves s ?s" using s False add d(3) by (simp add: moves_def out_ok_def to_buffer_def)
        have "?g s = (if length d \<noteq> ?n then enc_fail ''submsg size changed'' ?s else Some (status, ?s))"
          using False by (simp add: sub d add Let_def)
        with r have "s' = ?s \<or> enc_fail ''submsg size changed'' ?s = Some (r, s')" by (auto split: if_splits)
        then show ?thesis using k moves_trans [OF k keepsD [OF keeps_fail moves_ok [OF k]]] by blast
      qed
    qed
    then have "keeps (\<lambda>s. enc_then (Some (pb_encode_varint s (of_nat ?n))) (\<lambda>s. if wcallback s = None
        then Some (write_sizing s ?n) else ?g s))"
      by (intro keeps_then keeps_varint keeps_writing)
    then show ?thesis using True unfolding pb_encode_submessage_def Some p Let_def by simp
  qed
qed

section \<open>The message encoder stays inside the buffer\<close>

lemma length_load [simp]: "length (load h a n) = n"
  by (simp add: load_def)

lemma strnlen_le: "c_strnlen n h a \<le> n"
  by (induction n arbitrary: a) auto

lemma keeps_enc_string: "keeps (\<lambda>s. pb_enc_string_at h s f a)"
proof -
  let ?mx = "if PB_ATYPE (ftype f) = PB_ATYPE_POINTER then size_limit - 1 else unat (data_size f)"
  have "?mx < size_limit" using unat_less_pow [of "data_size f"] by simp
  with strnlen_le [of ?mx h a] have "(if a = 0 then 0 else c_strnlen ?mx h a) < size_limit" by simp
  then have "is_writes (\<lambda>s. pb_encode_string s (load h a (if a = 0 then 0 else c_strnlen ?mx h a)))"
    by (intro writes_string) simp
  then show ?thesis unfolding pb_enc_string_at_def Let_def by (rule keeps_writes)
qed

lemma keeps_enc_bytes: "keeps (\<lambda>s. pb_enc_bytes_at h s f a)"
proof -
  have "unat (load_size h a) < size_limit" using unat_less_pow [of "load_size h a"] by simp
  then have "is_writes (\<lambda>s. pb_enc_bytes s f (if a = 0 then None else Some (load h (bytes_of_array a) (unat (load_size h a)))))"
    by (intro writes_enc_bytes) simp
  then show ?thesis unfolding pb_enc_bytes_at_def by (rule keeps_writes)
qed

lemma keeps_enc_fixed: "keeps (\<lambda>s. Some (pb_enc_fixed32 s f v))" "keeps (\<lambda>s. Some (pb_enc_fixed64 s f w))"
  unfolding pb_enc_fixed32_def pb_enc_fixed64_def by (intro keeps_writes writes_fixed)+

lemma keeps_enc_fixed_length: "keeps (\<lambda>s. Some (pb_enc_fixed_length_bytes s f d))"
proof -
  have "length (take (unat (data_size f)) d) < size_limit"
    using unat_less_pow [of "data_size f"] by simp
  then show ?thesis unfolding pb_enc_fixed_length_bytes_def by (intro keeps_writes writes_string)
qed

lemmas keeps_values = keeps_writes [OF writes_enc_int(1)] keeps_writes [OF writes_enc_int(2)] keeps_writes [OF writes_enc_int(3)]
  keeps_writes [OF writes_enc_int(4)] keeps_enc_string keeps_enc_bytes keeps_enc_fixed keeps_enc_fixed_length

text \<open>What is required of the encoder of submessages, and of the functions of the caller: those write
  to the stream through the library only.\<close>

definition sub_keeps :: "sub_encoder \<Rightarrow> bool" where
  "sub_keeps enc \<longleftrightarrow> (\<forall>m src. keeps (\<lambda>s. enc s m src) \<and>
     (\<forall>ss. enc PB_OSTREAM_SIZING m src = Some (True, ss) \<longrightarrow> bytes_written ss < 2 ^ 63))"

definition callbacks_keep :: "pb_env \<Rightarrow> bool" where
  "callbacks_keep E \<longleftrightarrow> (\<forall>func field arg h. keeps (\<lambda>s. Some (enc_callback E func s field arg h))) \<and>
     (\<forall>a f e h. ext_encode (ext_types E a) = Some f \<longrightarrow> keeps (\<lambda>s. Some (f s e h)))"

lemma keeps_enc_submessage: "sub_keeps enc \<Longrightarrow> keeps (\<lambda>s. pb_enc_submessage enc s f a)"
  unfolding pb_enc_submessage_def sub_keeps_def
  by (cases "submsg_fields f") (simp_all add: keeps_fail keeps_submessage)

lemma keeps_encoder:
  assumes "sub_keeps enc"
  shows "keeps (\<lambda>s. run_encoder h enc s f a)"
proof (cases "PB_ENCODERS h enc (PB_LTYPE (ftype f))")
  case None
  then show ?thesis by (simp add: run_encoder_def keeps_None)
next
  case (Some g)
  then have "keeps (\<lambda>s. g s f a)"
    using keeps_values keeps_enc_submessage [OF assms]
    by (auto simp: PB_ENCODERS_def Let_def split: if_splits)
  then show ?thesis by (simp add: run_encoder_def Some)
qed

lemma keeps_packed: "(\<And>a. keeps (\<lambda>s. f s field a)) \<Longrightarrow> keeps (\<lambda>s. packed_loop k f field s p)"
  by (induction k arbitrary: p) (simp_all add: keeps_skip keeps_then)

lemma keeps_unpacked: "(\<And>a. keeps (\<lambda>s. f s field a)) \<Longrightarrow> keeps (\<lambda>s. unpacked_loop k h f field s p)"
  by (induction k arbitrary: p) (simp_all only: unpacked_loop.simps keeps_skip keeps_then keeps_field_tag)

lemma keeps_array:
  assumes "sub_keeps enc"
  shows "keeps (\<lambda>s. encode_array h enc s f a count)"
proof -
  have sized: "keeps (\<lambda>s. case r of None \<Rightarrow> None | Some (False, _) \<Rightarrow> Some (False, s)
      | Some (True, n) \<Rightarrow> enc_then (Some (pb_encode_varint s (of_nat n)))
          (\<lambda>s. if wcallback s = None then Some (write_sizing s n) else packed_loop count (run_encoder h enc) f s a))"
    for r :: "(bool \<times> nat) option"
  proof (cases r)
    case (Some p)
    obtain ok n where p: "p = (ok, n)" by fastforce
    have "keeps (\<lambda>s. enc_then (Some (pb_encode_varint s (of_nat n)))
        (\<lambda>s. if wcallback s = None then Some (write_sizing s n) else packed_loop count (run_encoder h enc) f s a))"
      by (intro keeps_rules keeps_packed keeps_encoder [OF assms])
    then show ?thesis using keeps_skip [of False] by (cases ok) (simp_all add: Some p)
  qed (simp add: keeps_None)
  show ?thesis
    unfolding encode_array_def Let_def
    by (intro keeps_rules keeps_unpacked keeps_encoder [OF assms] sized)
qed

lemma keeps_basic:
  assumes "sub_keeps enc"
  shows "keeps (\<lambda>s. encode_basic_field n E h enc s f pd)"
proof (cases "if size_offset f \<noteq> 0 then Some True
    else if PB_HTYPE (ftype f) = PB_HTYPE_OPTIONAL then map_option Not (pb_check_proto3_default_value n E h f pd) else Some True")
  case None
  then show ?thesis by (simp add: encode_basic_field_def Let_def keeps_None)
next
  case (Some b)
  show ?thesis
    unfolding encode_basic_field_def Let_def Some option.case
    by (intro keeps_rules keeps_array keeps_encoder assms)
      (auto intro!: keeps_rules keeps_encoder assms split: option.split)
qed

lemma keeps_field:
  assumes "sub_keeps enc" and "callbacks_keep E"
  shows "keeps (\<lambda>s. encode_field n E h enc s f pd)"
proof -
  have "keeps (\<lambda>s. case enc_callback E func s f (callback_arg pd) h of
      (False, s) \<Rightarrow> enc_fail ''callback error'' s | (True, s) \<Rightarrow> Some (True, s))" for func
  proof (rule keepsI)
    fix s r s' assume s: "out_ok s" and r: "(case enc_callback E func s f (callback_arg pd) h of
      (False, s) \<Rightarrow> enc_fail ''callback error'' s | (True, s) \<Rightarrow> Some (True, s)) = Some (r, s')"
    obtain ok s1 where c: "enc_callback E func s f (callback_arg pd) h = (ok, s1)" by fastforce
    have m: "moves s s1" using assms(2) s c unfolding callbacks_keep_def keeps_def by blast
    show "moves s s'"
    proof (cases ok)
      case True
      with r c m show ?thesis by simp
    next
      case False
      with r c have "enc_fail ''callback error'' s1 = Some (r, s')" by simp
      from moves_trans [OF m keepsD [OF keeps_fail moves_ok [OF m] this]] show ?thesis .
    qed
  qed
  then show ?thesis
    unfolding encode_field_def encode_callback_field_def Let_def
    by (intro keeps_cond keeps_basic keeps_fail keeps_skip assms)
qed

lemma keeps_extensions:
  assumes "sub_keeps enc" and "callbacks_keep E"
  shows "keeps (\<lambda>s. encode_extensions n E h enc s e)"
proof (induction n arbitrary: e)
  case (Suc n)
  have "keeps (\<lambda>s. case ext_encode (extension_type E h e) of
       Some f \<Rightarrow> Some (f s e h) | None \<Rightarrow> default_extension_encoder n E h enc s e)"
  proof (cases "ext_encode (extension_type E h e)")
    case None
    then show ?thesis by (simp add: default_extension_encoder_def Let_def keeps_field [OF assms])
  next
    case (Some f)
    with assms(2) show ?thesis by (simp add: callbacks_keep_def extension_type_def)
  qed
  then show ?case
    unfolding encode_extensions.simps by (intro keeps_cond keeps_skip keeps_then Suc.IH)
qed (simp add: keeps_None)

lemma keeps_loop:
  assumes "\<And>f pd. keeps (\<lambda>s. g f pd s)"
  shows "keeps (\<lambda>s. encode_loop n g iter s)"
proof (induction n arbitrary: iter)
  case (Suc n)
  have "keeps (\<lambda>s. case pb_field_iter_next iter of (True, iter) \<Rightarrow> encode_loop n g iter s | (False, _) \<Rightarrow> Some (True, s))"
    using Suc.IH by (cases "pb_field_iter_next iter"; cases "fst (pb_field_iter_next iter)") (simp_all add: keeps_skip)
  with assms show ?case by (simp add: keeps_then)
qed (simp add: keeps_def)

text \<open>A memory whose messages have sizes below \<open>2 ^ 63\<close>.\<close>

definition small_messages :: "pb_env \<Rightarrow> pb_heap \<Rightarrow> bool" where
  "small_messages E h \<longleftrightarrow>
     (\<forall>k m src s. pb_encode k E h PB_OSTREAM_SIZING m src = Some (True, s) \<longrightarrow> bytes_written s < 2 ^ 63)"

lemma keeps_message:
  assumes "callbacks_keep E" and "small_messages E h"
  shows "keeps (\<lambda>s. pb_encode k E h s m src)"
proof (induction k arbitrary: m src)
  case (Suc k)
  have sub: "sub_keeps (pb_encode k E h)"
    using Suc.IH assms(2) unfolding sub_keeps_def small_messages_def by blast
  have "keeps (\<lambda>s. encode_loop k (\<lambda>f pd s. if PB_LTYPE (ftype f) = PB_LTYPE_EXTENSION
        then encode_extension_field k E h (pb_encode k E h) s pd
        else encode_field k E h (pb_encode k E h) s f pd) iter s)" for iter
    unfolding encode_extension_field_def
    by (intro keeps_loop keeps_cond keeps_extensions keeps_field sub assms(1))
  then show ?case
    by (cases "pb_field_iter_begin (tables E m) src"; cases "fst (pb_field_iter_begin (tables E m) src)")
      (simp_all add: keeps_skip)
qed (simp add: keeps_None)

section \<open>Sequences of calls\<close>

text \<open>The calls on a stream: values, tags and strings, and whole messages, plain, with their length
  before them, or with a zero byte behind them.\<close>

inductive out_step :: "pb_env \<Rightarrow> pb_ostream_t \<Rightarrow> pb_ostream_t \<Rightarrow> bool" for E where
  call: "call_ok c \<Longrightarrow> out_step E s (snd (run_call c s))"
| message: "small_messages E h \<Longrightarrow> pb_encode k E h s m src = Some (r, s') \<Longrightarrow> out_step E s s'"
| delimited: "small_messages E h \<Longrightarrow> pb_encode_delimited k E h s m src = Some (r, s') \<Longrightarrow> out_step E s s'"
| nullterminated: "small_messages E h \<Longrightarrow> pb_encode_nullterminated k E h s m src = Some (r, s') \<Longrightarrow> out_step E s s'"

lemma out_step_moves:
  assumes "callbacks_keep E" and "out_step E s s'" and "out_ok s"
  shows "moves s s'"
  using assms(2)
proof cases
  case (call c)
  from keepsD [OF keeps_writes [OF writes_call [OF call(2)]] assms(3), of "fst (run_call c s)" "snd (run_call c s)"]
  show ?thesis unfolding call(1) by simp
next
  case (message h k m src r)
  from keepsD [OF keeps_message [OF assms(1) message(1)] assms(3) message(2)] show ?thesis .
next
  case (delimited h k m src r)
  have "keeps (\<lambda>s. pb_encode_delimited k E h s m src)"
    unfolding pb_encode_delimited_def
    using delimited(1) by (intro keeps_submessage keeps_message assms(1)) (auto simp: small_messages_def)
  from keepsD [OF this assms(3) delimited(2)] show ?thesis .
next
  case (nullterminated h k m src r)
  have "keeps (\<lambda>s. pb_encode_nullterminated k E h s m src)"
    unfolding pb_encode_nullterminated_def
    by (intro keeps_then keeps_message keeps_writes writes_write assms(1) nullterminated(1)) simp
  from keepsD [OF this assms(3) nullterminated(2)] show ?thesis .
qed

text \<open>A message of one required \<open>bool\<close>.\<close>

definition switch_field :: pb_field_t where
  "switch_field = \<lparr>ftag = 1, ftype = 0, data_offset = 0, size_offset = 0, data_size = 1, array_size = 0, fptr = Ptr_null\<rparr>"

definition switch_env :: pb_env where
  "switch_env =
     \<lparr>tables = \<lambda>m. [switch_field, switch_field\<lparr>ftag := 0\<rparr>], place = \<lambda>h p k. None,
      dec_callback = \<lambda>f s field arg h. (False, s, h), enc_callback = \<lambda>f s field arg h. (False, s),
      ext_types = \<lambda>e. \<lparr>ext_decode = None, ext_encode = None, ext_arg = 0\<rparr>\<rparr>"

lemma switch_types:
  "PB_ATYPE (ftype switch_field) = PB_ATYPE_STATIC" "PB_HTYPE (ftype switch_field) = PB_HTYPE_REQUIRED"
  "PB_LTYPE (ftype switch_field) = PB_LTYPE_BOOL" "PB_LTYPE_BOOL \<noteq> PB_LTYPE_EXTENSION" "size_offset switch_field = 0"
  "ftag switch_field = 1" "data_offset switch_field = 0"
  by code_simp+

lemma switch_encode:
  "pb_encode (Suc (Suc k)) switch_env h s m src = (if src = 0 then enc_fail ''missing required field'' s
     else enc_then (Some (pb_encode_tag s PB_WT_VARINT 1)) (\<lambda>s. Some (pb_enc_bool s (load h src 1))))"
proof -
  define it where "it = snd (pb_field_iter_begin [switch_field, switch_field\<lparr>ftag := 0\<rparr>] src)"
  have start: "pb_field_iter_begin [switch_field, switch_field\<lparr>ftag := 0\<rparr>] src = (True, it)"
    unfolding it_def by (simp add: pb_field_iter_begin_def switch_types Let_def)
  have it: "cur it = switch_field" "pData it = src" and nxt: "fst (pb_field_iter_next it) = False"
    unfolding it_def by (simp_all add: pb_field_iter_begin_def pb_field_iter_next_def cur_def switch_types Let_def)
  obtain it' where n: "pb_field_iter_next it = (False, it')" using nxt by (cases "pb_field_iter_next it") auto
  have finish: "enc_then r (\<lambda>s. Some (True, s)) = r" for r
    by (cases r) (auto simp: enc_then_def split: bool.split)
  have tag: "pb_encode_tag_for_field s switch_field = pb_encode_tag s PB_WT_VARINT 1" for s
    by (simp add: pb_encode_tag_for_field_def switch_types Let_def)
  have run: "run_encoder h enc s switch_field src = Some (pb_enc_bool s (load h src (Suc 0)))" for enc s
    by (simp add: run_encoder_def PB_ENCODERS_def switch_types Let_def)
  have "encode_field (Suc k) switch_env h enc s switch_field src = (if src = 0 then enc_fail ''missing required field'' s
     else enc_then (Some (pb_encode_tag s PB_WT_VARINT 1)) (\<lambda>s. Some (pb_enc_bool s (load h src 1))))" for enc
    by (simp add: encode_field_def encode_basic_field_def Let_def switch_types run tag) (simp add: htype_values atype_values run)
  then show ?thesis
    by (simp add: switch_env_def start it n switch_types finish)
qed

lemma switch_small: "small_messages switch_env h"
  unfolding small_messages_def
proof (intro allI impI)
  fix k m src s assume e: "pb_encode k switch_env h PB_OSTREAM_SIZING m src = Some (True, s)"
  have one: "pb_write s [b] = (True, s\<lparr>bytes_written := size_add (bytes_written s) 1\<rparr>)" if "wcallback s = None" for s and b :: u8
    using that by (simp add: pb_write_def)
  show "bytes_written s < 2 ^ 63"
  proof (cases k)
    case 0
    with e show ?thesis by simp
  next
    case (Suc k')
    show ?thesis
    proof (cases k')
      case 0
      with e Suc show ?thesis by (simp add: switch_env_def pb_field_iter_begin_def switch_types Let_def)
    next
      case (Suc k'')
      have v: "pb_encode_varint s (if b then 1 else 0) = pb_write s [if b then 1 else 0]" "pb_encode_varint s 8 = pb_write s [8]"
        for s b by (simp_all add: pb_encode_varint_def)
      have t: "pb_encode_tag s PB_WT_VARINT 1 = pb_write s [8]" for s
        by (simp add: pb_encode_tag_def PB_WT_VARINT_def push_bit_eq_mult v)
      from e show ?thesis unfolding \<open>k = Suc k'\<close> Suc switch_encode
        by (simp add: t pb_enc_bool_def v one PB_OSTREAM_SIZING_def enc_then_def enc_fail_def out_error_def size_add_def split: if_splits)
           (auto simp: size_add_def)
    qed
  qed
qed

text \<open>C17. An output stream over a buffer of \<open>n\<close> bytes never writes outside it, whatever calls of
  the encoder are made, in whatever order and whether they succeed or not, whole messages with
  submessages, arrays, callbacks and extensions included: the bytes written are exactly as many as
  \<open>bytes_written\<close> says and at most \<open>n\<close>. Callbacks of the caller write through the library only, and
  sizes (of the buffer and of messages) are at most \<open>2 ^ 63\<close>, so that \<open>bytes_written + size\<close> does not
  wrap around in \<open>pb_encode_submessage\<close>.\<close>

theorem output_within_buffer:
  assumes "n \<le> 2 ^ 63" and "callbacks_keep E" and "(out_step E)\<^sup>*\<^sup>* (pb_ostream_from_buffer n) s"
  shows "length (wstate s) = bytes_written s \<and> bytes_written s \<le> n"
proof -
  have "out_ok (pb_ostream_from_buffer n)"
    using from_buffer_room(1) [of n] assms(1) by (simp add: out_ok_def pb_ostream_from_buffer_def)
  with assms(3) have "moves (pb_ostream_from_buffer n) s"
    by (induction rule: rtranclp_induct)
      (auto intro: moves_refl moves_trans out_step_moves [OF assms(2)] moves_ok)
  then show ?thesis by (auto simp: moves_def out_ok_def to_buffer_def pb_ostream_from_buffer_def)
qed

lemma output_within_buffer_witness:
  "\<exists>r s. pb_encode 2 switch_env \<lparr>mem = \<lambda>_. 7, live = Map.empty\<rparr>
     (snd (run_call (Varint 300) (pb_ostream_from_buffer 3))) 0 64 = Some (r, s) \<and>
     length (wstate s) = bytes_written s \<and> bytes_written s \<le> 3"
proof -
  let ?h = "\<lparr>mem = \<lambda>_. 7, live = Map.empty\<rparr> :: pb_heap"
  let ?s0 = "pb_ostream_from_buffer 3"
  let ?s1 = "snd (run_call (Varint 300) ?s0)"
  have "callbacks_keep switch_env" by (simp add: callbacks_keep_def switch_env_def keeps_skip)
  moreover have "pb_encode 2 switch_env ?h ?s1 0 64 =
      enc_then (Some (pb_encode_tag ?s1 PB_WT_VARINT 1)) (\<lambda>s. Some (pb_enc_bool s (load ?h 64 1)))"
    unfolding numeral_2_eq_2 switch_encode by simp
  then have "pb_encode 2 switch_env ?h ?s1 0 64 \<noteq> None" by (simp add: enc_then_def split: prod.split bool.split)
  then obtain r s where e: "pb_encode 2 switch_env ?h ?s1 0 64 = Some (r, s)" by fastforce
  moreover have "out_step switch_env ?s0 ?s1" by (rule out_step.call) simp
  then have "(out_step switch_env)\<^sup>*\<^sup>* ?s0 s"
    using out_step.message [OF switch_small e] by (meson converse_rtranclp_into_rtranclp r_into_rtranclp)
  ultimately show ?thesis using output_within_buffer [of 3 switch_env s] by (intro exI [of _ r] exI [of _ s]) simp
qed

section \<open>Sizing streams\<close>

lemma write_all_iff:
  assumes "to_buffer s" and "\<forall>d \<in> set ds. length d < size_limit"
  shows "write_all ds s = (True, out) \<longleftrightarrow> has_room s (length (concat ds)) \<and> out = pb_put s (concat ds)"
  using assms
proof (induction ds arbitrary: s)
  case Nil
  then show ?case by (cases s) (auto simp: pb_put_def has_room_def to_buffer_def)
next
  case (Cons d ds)
  show ?case
  proof (cases "has_room s (length d)")
    case True
    have "to_buffer (pb_put s d)" by (rule to_buffer_put [OF Cons.prems(1) True])
    with Cons.IH [of "pb_put s d"] Cons.prems(2) write_room [OF Cons.prems(1) True] show ?thesis
      by (simp add: has_room_put)
  next
    case False
    then have "fst (pb_write s d) = False"
      using Cons.prems by (intro write_full(1)) simp_all
    moreover have "\<not> has_room s (length (concat (d # ds)))" using False by (simp add: has_room_def)
    ultimately show ?thesis by (cases "pb_write s d") simp
  qed
qed

lemma write_all_sizing:
  "wcallback s = None \<Longrightarrow> bytes_written s + length (concat ds) < size_limit \<Longrightarrow>
     write_all ds s = (True, s\<lparr>bytes_written := bytes_written s + length (concat ds)\<rparr>)"
  by (induction ds arbitrary: s) (simp_all add: pb_write_def size_add_def add.assoc)

lemma calls_are_writes:
  assumes "\<forall>c \<in> set cs. call_ok c"
  shows "\<exists>ds. (\<forall>d \<in> set ds. length d < size_limit) \<and>
    (run_calls cs = write_all ds \<or> (\<forall>s. fst (run_calls cs s) = False))"
  using assms
proof (induction cs)
  case Nil
  have "run_calls [] = write_all []" by (rule ext) simp
  then show ?case by (intro exI [of _ "[]"]) simp
next
  case (Cons c cs)
  then obtain ds where ds: "\<forall>d \<in> set ds. length d < size_limit"
    "run_calls cs = write_all ds \<or> (\<forall>s. fst (run_calls cs s) = False)" by auto
  from Cons.prems have "is_writes (run_call c)" by (intro writes_call) simp
  then show ?case
    unfolding is_writes_def
  proof (elim disjE exE conjE)
    fix es assume es: "run_call c = write_all es" "\<forall>d \<in> set es. length d < size_limit"
    from ds(2) show ?thesis
    proof
      assume "run_calls cs = write_all ds"
      then have "run_calls (c # cs) = write_all (es @ ds)"
        by (intro ext) (simp add: es(1) write_all_append split: prod.splits bool.splits)
      with es ds(1) show ?thesis by (intro exI [of _ "es @ ds"]) auto
    next
      assume "\<forall>s. fst (run_calls cs s) = False"
      then show ?thesis by (intro exI [of _ "[]"]) (auto split: prod.splits bool.splits)
    qed
  next
    fix msg assume "run_call c = out_error msg"
    then show ?thesis by (intro exI [of _ "[]"]) (simp add: out_error_def)
  qed
qed

text \<open>A sizing stream predicts the output: if a sequence of calls succeeds on a buffer of some
  size, then it succeeds on a sizing stream, which counts exactly the bytes of the output, and
  it succeeds on a buffer of just that size and writes the same bytes there.\<close>

theorem sizing_stream_counts:
  assumes "\<forall>c \<in> set cs. call_ok c" and "n < size_limit"
    and "run_calls cs (pb_ostream_from_buffer n) = (True, out)"
  shows "fst (run_calls cs PB_OSTREAM_SIZING) \<and>
    bytes_written (snd (run_calls cs PB_OSTREAM_SIZING)) = length (wstate out) \<and>
    run_calls cs (pb_ostream_from_buffer (length (wstate out))) = (True, out\<lparr>max_size := length (wstate out)\<rparr>)"
proof -
  obtain ds where ds: "\<forall>d \<in> set ds. length d < size_limit"
    "run_calls cs = write_all ds \<or> (\<forall>s. fst (run_calls cs s) = False)"
    using calls_are_writes [OF assms(1)] by blast
  have eq: "run_calls cs = write_all ds" using ds(2) assms(3) by (auto dest: spec [of _ "pb_ostream_from_buffer n"])
  have r: "length (concat ds) \<le> n" and out: "out = pb_put (pb_ostream_from_buffer n) (concat ds)"
    using assms(3) from_buffer_room(1) [OF assms(2)] ds(1) unfolding eq
    by (simp_all only: write_all_iff from_buffer_room simp_thms)
  have w: "wstate out = concat ds" by (simp add: out from_buffer_room)
  have lt: "length (concat ds) < size_limit" using r assms(2) by linarith
  have "write_all ds PB_OSTREAM_SIZING = (True, PB_OSTREAM_SIZING\<lparr>bytes_written := length (concat ds)\<rparr>)"
    using write_all_sizing [of PB_OSTREAM_SIZING ds] lt by (simp add: PB_OSTREAM_SIZING_def)
  moreover have "write_all ds (pb_ostream_from_buffer (length (concat ds))) =
      (True, pb_put (pb_ostream_from_buffer (length (concat ds))) (concat ds))"
    using write_all_iff [OF from_buffer_room(1) [OF lt] ds(1)] by (simp only: from_buffer_room order_refl simp_thms)
  ultimately show ?thesis
    by (simp add: eq w) (simp add: out pb_put_def pb_ostream_from_buffer_def)
qed

lemma sizing_stream_counts_witness:
  "fst (run_calls [Tag 0 1, Varint 5] PB_OSTREAM_SIZING) \<and>
   bytes_written (snd (run_calls [Tag 0 1, Varint 5] PB_OSTREAM_SIZING)) =
     length (wstate (snd (run_calls [Tag 0 1, Varint 5] (pb_ostream_from_buffer 16)))) \<and>
   run_calls [Tag 0 1, Varint 5] (pb_ostream_from_buffer (length (wstate (snd (run_calls [Tag 0 1, Varint 5] (pb_ostream_from_buffer 16)))))) =
     (True, snd (run_calls [Tag 0 1, Varint 5] (pb_ostream_from_buffer 16))
       \<lparr>max_size := length (wstate (snd (run_calls [Tag 0 1, Varint 5] (pb_ostream_from_buffer 16))))\<rparr>)"
proof (rule sizing_stream_counts [where n = 16])
  show "run_calls [Tag 0 1, Varint 5] (pb_ostream_from_buffer 16) =
      (True, snd (run_calls [Tag 0 1, Varint 5] (pb_ostream_from_buffer 16)))"
    by (simp add: pb_encode_tag_def pb_encode_varint_def pb_ostream_from_buffer_def pb_write_def run_write_def
      buf_write_def size_add_def Let_def)
qed simp_all

end
