(* ===== verification/Nanopb_Input.thy ===== *)
theory Nanopb_Input
  imports Nanopb_Codec
begin

text \<open>
  Properties of nanopb's input side: no sequence of decoder calls reads outside the bytes of
  a stream, substreams included; what the decoders of integers store; skipping of unknown
  fields; and inputs on which the 32-bit varint decoder departs from the encoding.
\<close>

unbundle bit_operations_syntax

section \<open>Input stays inside the stream\<close>

text \<open>\<open>within s s'\<close>: what \<open>s'\<close> may read is part of what \<open>s\<close> may read.\<close>

definition within :: "pb_istream_t \<Rightarrow> pb_istream_t \<Rightarrow> bool" where
  "within s s' \<longleftrightarrow> callback s' = callback s \<and>
     (callback s = Buf_read \<longrightarrow>
        (\<exists>j. state s' = drop j (state s) \<and> j + bytes_left s' \<le> bytes_left s))"

named_theorems within_rules

lemma within_refl [within_rules]: "within s s"
  by (auto simp: within_def)

lemma within_trans: "within s s' \<Longrightarrow> within s' s'' \<Longrightarrow> within s s''"
proof -
  assume a: "within s s'" "within s' s''"
  have "\<exists>j. state s'' = drop j (state s) \<and> j + bytes_left s'' \<le> bytes_left s" if "callback s = Buf_read"
  proof -
    from a that obtain j k where "state s' = drop j (state s)" "j + bytes_left s' \<le> bytes_left s"
      "state s'' = drop k (state s')" "k + bytes_left s'' \<le> bytes_left s'"
      by (auto simp: within_def)
    then show ?thesis by (intro exI [of _ "k + j"]) simp
  qed
  with a show ?thesis by (auto simp: within_def)
qed

lemma within_errmsg: "within s (s'\<lparr>errmsg := e\<rparr>) = within s s'"
  by (simp add: within_def)

lemma within_error: "within s (snd (in_error msg s))"
  by (simp add: in_error_def within_errmsg within_refl)

lemma within_in_error: "in_error msg s = (r, s') \<Longrightarrow> within s s'"
  using within_error [of s msg] by (metis snd_conv)

lemma within_readbyte: "pb_readbyte s = (r, s') \<Longrightarrow> within s s'"
  by (auto simp: pb_readbyte_def run_callback_def buf_read_def within_def in_error_def
    split: if_splits pb_callback.splits prod.splits option.splits intro!: exI [of _ "Suc 0"])

lemma within_read_checked: "pb_read_checked s n = (r, s') \<Longrightarrow> within s s'"
proof (cases "bytes_left s < n")
  case True
  then show "pb_read_checked s n = (r, s') \<Longrightarrow> within s s'"
    by (simp add: pb_read_checked_def within_in_error)
next
  case False
  then show "pb_read_checked s n = (r, s') \<Longrightarrow> within s s'"
    by (auto simp: pb_read_checked_def run_callback_def buf_read_def within_def in_error_def
      split: pb_callback.splits prod.splits option.splits intro!: exI [of _ n])
qed

lemma within_skip_pieces: "pb_skip_pieces s n = (r, s') \<Longrightarrow> within s s'"
proof (induction s n arbitrary: r s' rule: pb_skip_pieces.induct)
  case (1 s n)
  show ?case
  proof (cases "n > 16")
    case True
    obtain q t where q: "pb_read_checked s 16 = (q, t)" by force
    show ?thesis
      using "1.prems" "1.IH" [OF True q [symmetric]] within_read_checked [OF q] within_trans [of s t s'] True q
      by (subst (asm) pb_skip_pieces.simps) (auto split: option.splits)
  next
    case False
    then show ?thesis
      using "1.prems" within_read_checked [of s n r s'] within_refl [of s]
      by (subst (asm) pb_skip_pieces.simps) (auto split: if_splits)
  qed
qed

lemma within_read: "pb_read s b n = (r, s') \<Longrightarrow> within s s'"
  by (auto simp: pb_read_def split: if_splits
    dest: within_read_checked within_skip_pieces intro: within_refl)

lemma within_varint32_loop: "varint32_loop s w b = (r, s') \<Longrightarrow> within s s'"
proof (induction s w b arbitrary: r s' rule: varint32_loop.induct)
  case (1 s w b)
  obtain q t where q: "pb_readbyte s = (q, t)" by force
  show ?case
  proof (cases q)
    case None
    then show ?thesis using "1.prems" within_readbyte [OF q] q by (subst (asm) varint32_loop.simps) simp
  next
    case (Some c)
    show ?thesis
      using "1.prems" "1.IH" [OF q [symmetric] Some] within_readbyte [OF q] within_trans [of s t s']
        within_in_error [of "''varint overflow''" t r s'] q Some
      by (subst (asm) varint32_loop.simps) (auto simp: Let_def split: if_splits)
  qed
qed

lemma within_varint_loop: "varint_loop s w b = (r, s') \<Longrightarrow> within s s'"
proof (induction s w b arbitrary: r s' rule: varint_loop.induct)
  case (1 s w b)
  obtain q t where q: "pb_readbyte s = (q, t)" by force
  show ?case
    using "1.prems" "1.IH" [OF _ q [symmetric]] within_readbyte [OF q] within_trans [of s t s']
      within_in_error [of "''varint overflow''" s r s'] q
    by (subst (asm) varint_loop.simps) (auto simp: Let_def split: if_splits option.splits)
qed

lemma within_skip_varint: "pb_skip_varint s = (r, s') \<Longrightarrow> within s s'"
proof (induction s arbitrary: r s' rule: pb_skip_varint.induct)
  case (1 s)
  obtain q t where q: "pb_read s True 1 = (q, t)" by force
  show ?case
    using "1.prems" "1.IH" [OF q [symmetric]] within_read [OF q] within_trans [of s t s'] q
    by (subst (asm) pb_skip_varint.simps) (auto split: if_splits option.splits)
qed

lemma within_raw_varint_loop: "raw_varint_loop s n buf = (r, s') \<Longrightarrow> within s s'"
proof (induction s n buf arbitrary: r s' rule: raw_varint_loop.induct)
  case (1 s n buf)
  obtain q t where q: "pb_read s True 1 = (q, t)" by force
  show ?case
    using "1.prems" "1.IH" [OF _ q [symmetric]] within_read [OF q] within_trans [of s t s'] within_refl [of s] q
    by (subst (asm) raw_varint_loop.simps) (auto split: if_splits option.splits)
qed

lemma within_varint: "pb_decode_varint s = (r, s') \<Longrightarrow> within s s'"
  unfolding pb_decode_varint_def by (rule within_varint_loop)

lemma within_svarint: "pb_decode_svarint s = (r, s') \<Longrightarrow> within s s'"
  by (auto simp: pb_decode_svarint_def split: prod.splits option.splits dest: within_varint)

lemma within_varint32_eof: "pb_decode_varint32_eof s eof = (r, e, s') \<Longrightarrow> within s s'"
  by (auto simp: pb_decode_varint32_eof_def split: prod.splits option.splits if_splits
    dest!: within_readbyte within_varint32_loop within_in_error intro: within_trans)

lemma within_varint32: "pb_decode_varint32 s = (r, s') \<Longrightarrow> within s s'"
  by (auto simp: pb_decode_varint32_def split: prod.splits dest: within_varint32_eof)

lemma within_tag: "pb_decode_tag s = (r, e, s') \<Longrightarrow> within s s'"
  by (auto simp: pb_decode_tag_def split: prod.splits option.splits if_splits dest: within_varint32_eof)

lemma within_skip_string: "pb_skip_string s = (r, s') \<Longrightarrow> within s s'"
  by (auto simp: pb_skip_string_def split: prod.splits option.splits
    dest!: within_varint32 within_read intro: within_trans)

lemma within_skip_field: "pb_skip_field s wt = (r, s') \<Longrightarrow> within s s'"
  by (auto simp: pb_skip_field_def split: prod.splits if_splits
    dest: within_skip_varint within_read within_skip_string intro: within_error)

lemma within_raw_value: "read_raw_value s wt n = (r, s') \<Longrightarrow> within s s'"
  by (auto simp: read_raw_value_def split: if_splits
    dest: within_raw_varint_loop within_read within_in_error)

lemma within_fixed:
  "pb_decode_fixed32 s = (r, s') \<Longrightarrow> within s s'" "pb_decode_fixed64 s = (q, s') \<Longrightarrow> within s s'"
  by (auto simp: pb_decode_fixed32_def pb_decode_fixed64_def split: prod.splits option.splits dest: within_read)

lemma within_bool: "pb_decode_bool s = (r, s') \<Longrightarrow> within s s'"
  by (auto simp: pb_decode_bool_def pb_dec_bool_def split: prod.splits option.splits dest: within_varint32)

lemma within_dec_int:
  "pb_dec_varint s f = (r, d, s') \<Longrightarrow> within s s'" "pb_dec_uvarint s f = (r, d, s') \<Longrightarrow> within s s'"
  "pb_dec_svarint s f = (r, d, s') \<Longrightarrow> within s s'"
  by (auto simp: pb_dec_varint_def pb_dec_uvarint_def pb_dec_svarint_def Let_def
    split: prod.splits option.splits if_splits
    dest!: within_varint within_svarint within_in_error intro: within_trans)

lemma within_allocate: "allocate_field realloc s m n = (r, s') \<Longrightarrow> within s s'"
  by (auto simp: allocate_field_def Let_def split: if_splits intro: within_refl within_error)

lemma within_dec_bytes: "pb_dec_bytes realloc s f = (r, s') \<Longrightarrow> within s s'"
  by (auto simp: pb_dec_bytes_def dec_error_def Let_def split: prod.splits option.splits if_splits bool.splits
    dest!: within_varint32 within_in_error within_allocate within_read intro: within_trans)

lemma within_dec_string: "pb_dec_string realloc s f = (r, s') \<Longrightarrow> within s s'"
  by (auto simp: pb_dec_string_def dec_error_def Let_def split: prod.splits option.splits if_splits bool.splits
    dest!: within_varint32 within_in_error within_allocate within_read intro: within_trans)

lemma within_dec_fixed_length_bytes: "pb_dec_fixed_length_bytes s f = (r, s') \<Longrightarrow> within s s'"
  by (auto simp: pb_dec_fixed_length_bytes_def dec_error_def split: prod.splits option.splits if_splits
    dest!: within_varint32 within_in_error within_read intro: within_trans)

text \<open>Substreams: making one, and closing it after the substream has moved on.\<close>

lemma within_make: "pb_make_string_substream s = (r, s') \<Longrightarrow> within s s'"
  by (auto simp: pb_make_string_substream_def split: prod.splits option.splits if_splits
      dest!: within_varint32 within_in_error intro: within_trans) (auto simp: within_def)

lemma make_substream:
  assumes "pb_make_string_substream s = (Some sub, s')"
  obtains t where "within s t" and "sub = t\<lparr>bytes_left := bytes_left sub\<rparr>"
    and "s' = t\<lparr>bytes_left := bytes_left s'\<rparr>" and "bytes_left t = bytes_left sub + bytes_left s'"
proof -
  obtain q t where q: "pb_decode_varint32 s = (q, t)" by force
  with assms obtain n where n: "q = Some n" "\<not> bytes_left t < unat n"
    by (auto simp: pb_make_string_substream_def in_error_def split: option.splits if_splits)
  with q assms within_varint32 [OF q] show thesis
    by (intro that [of t]) (auto simp: pb_make_string_substream_def)
qed

lemma within_less: "within s t \<Longrightarrow> n \<le> bytes_left t \<Longrightarrow> within s (t\<lparr>bytes_left := n\<rparr>)"
  by (auto simp: within_def)

lemma within_close:
  assumes "pb_make_string_substream s = (Some sub, s1)" and "within sub sub'"
    and "pb_close_string_substream s1 sub' = (r, s2, sub'')"
  shows "within s s2" and "within s sub''"
proof -
  from make_substream [OF assms(1)] obtain t where t: "within s t" "sub = t\<lparr>bytes_left := bytes_left sub\<rparr>"
    "s1 = t\<lparr>bytes_left := bytes_left s1\<rparr>" "bytes_left t = bytes_left sub + bytes_left s1" .
  have sub: "within s sub"
    using within_less [OF t(1), of "bytes_left sub"] t(2,4) by simp
  obtain q u where q: "pb_read sub' False (bytes_left sub') = (q, u)" by force
  have c: "within sub sub'' \<and> (s2 = s1 \<or> s2 = s1\<lparr>state := state sub'', errmsg := errmsg sub''\<rparr>)"
    using assms(3) q within_trans [OF assms(2) within_read [OF q]] assms(2)
    by (auto simp: pb_close_string_substream_def Let_def split: if_splits)
  then show "within s sub''" using within_trans [OF sub] by blast
  from c show "within s s2"
  proof (elim conjE disjE)
    assume w: "within sub sub''" and s2: "s2 = s1\<lparr>state := state sub'', errmsg := errmsg sub''\<rparr>"
    have "callback sub = callback t" "state sub = state t" by (subst t(2), simp)+
    moreover have "callback s1 = callback t" by (subst t(3), simp)
    ultimately have "within t s2"
      using w t(4) unfolding within_def s2 by auto
    then show ?thesis by (rule within_trans [OF t(1)])
  next
    assume "s2 = s1" then show ?thesis using within_make [OF assms(1)] by simp
  qed
qed

text \<open>The calls a decoder makes on a stream. A substream is entered, used by the same calls,
  and closed, or left open after an error.\<close>

inductive in_step :: "pb_istream_t \<Rightarrow> pb_istream_t \<Rightarrow> bool" where
  read: "pb_read s has_buf n = (r, s') \<Longrightarrow> in_step s s'"
| varint: "pb_decode_varint s = (r, s') \<Longrightarrow> in_step s s'"
| varint32: "pb_decode_varint32_eof s e = (r, e', s') \<Longrightarrow> in_step s s'"
| svarint: "pb_decode_svarint s = (r, s') \<Longrightarrow> in_step s s'"
| tag: "pb_decode_tag s = (t, e, s') \<Longrightarrow> in_step s s'"
| skip_field: "pb_skip_field s wt = (ok, s') \<Longrightarrow> in_step s s'"
| raw_value: "read_raw_value s wt n = (r, s') \<Longrightarrow> in_step s s'"
| fixed32: "pb_decode_fixed32 s = (v, s') \<Longrightarrow> in_step s s'"
| fixed64: "pb_decode_fixed64 s = (w, s') \<Longrightarrow> in_step s s'"
| bool: "pb_decode_bool s = (b, s') \<Longrightarrow> in_step s s'"
| dec_varint: "pb_dec_varint s f = (ok, d, s') \<Longrightarrow> in_step s s'"
| dec_uvarint: "pb_dec_uvarint s f = (ok, d, s') \<Longrightarrow> in_step s s'"
| dec_svarint: "pb_dec_svarint s f = (ok, d, s') \<Longrightarrow> in_step s s'"
| dec_bytes: "pb_dec_bytes realloc s f = (r, s') \<Longrightarrow> in_step s s'"
| dec_string: "pb_dec_string realloc s f = (r, s') \<Longrightarrow> in_step s s'"
| dec_fixed_length_bytes: "pb_dec_fixed_length_bytes s f = (r, s') \<Longrightarrow> in_step s s'"
| enter: "pb_make_string_substream s = (Some sub, s') \<Longrightarrow> in_step s sub"
| leave: "pb_make_string_substream s = (r, s') \<Longrightarrow> in_step s s'"
| close: "pb_make_string_substream s = (Some sub, s1) \<Longrightarrow> in_step\<^sup>*\<^sup>* sub sub' \<Longrightarrow>
    pb_close_string_substream s1 sub' = (ok, s2, sub'') \<Longrightarrow> in_step s s2"

lemmas within_calls = within_read within_varint within_varint32_eof within_svarint within_tag within_skip_field
  within_raw_value within_fixed within_bool within_dec_int within_dec_bytes within_dec_string
  within_dec_fixed_length_bytes within_make

lemma within_enter: "pb_make_string_substream s = (Some sub, s') \<Longrightarrow> within s sub"
  by (erule make_substream) (metis le_add1 within_less)

lemma in_step_within: "in_step s s' \<Longrightarrow> within s s'"
proof (induction rule: in_step.induct)
  case (close s sub s1 sub' ok s2 sub'')
  from close.IH have "within sub sub'"
    by (induction rule: rtranclp_induct) (auto intro: within_refl within_trans)
  then show ?case using close.hyps within_close(1) by blast
qed (blast intro: within_calls within_enter)+

text \<open>C18. No sequence of decoder calls on a stream over a buffer reads outside it, and no call on a
  substream reads outside the substream or its parent: at every moment what a stream may
  still read is a window of the bytes it started with.\<close>

theorem input_stays_inside:
  assumes "in_step\<^sup>*\<^sup>* (pb_istream_from_buffer buf (length buf)) s"
  shows "\<exists>j. view s = take (bytes_left s) (drop j buf) \<and> j + bytes_left s \<le> length buf"
proof -
  have "within (pb_istream_from_buffer buf (length buf)) s"
    using assms by (induction rule: rtranclp_induct) (auto intro: within_refl within_trans in_step_within)
  then obtain j where "state s = drop j buf" "j + bytes_left s \<le> length buf"
    by (auto simp: within_def pb_istream_from_buffer_def)
  then show ?thesis by (auto simp: view_def)
qed

lemma input_stays_inside_witness:
  "\<exists>j. view (snd (pb_skip_field (pb_istream_from_buffer [2, 9, 8, 7] (length [2 :: u8, 9, 8, 7])) PB_WT_STRING)) =
     take (bytes_left (snd (pb_skip_field (pb_istream_from_buffer [2, 9, 8, 7] (length [2 :: u8, 9, 8, 7])) PB_WT_STRING)))
       (drop j [2, 9, 8, 7]) \<and>
   j + bytes_left (snd (pb_skip_field (pb_istream_from_buffer [2, 9, 8, 7] (length [2 :: u8, 9, 8, 7])) PB_WT_STRING)) \<le>
     length [2 :: u8, 9, 8, 7]"
  by (rule input_stays_inside, rule r_into_rtranclp, rule in_step.skip_field, rule prod.collapse [symmetric])

section \<open>What the integer decoders store\<close>

lemma sext_le_bytes: "int_size n \<Longrightarrow> sext (unat n) (of_nat (le_val (le_bytes (unat n) (unat v)))) = sext (unat n) v"
proof -
  assume "int_size n"
  then have n: "unat n \<in> {1, 2, 4, 8}" by (rule int_size_cases)
  have "(of_nat (le_val (le_bytes (unat n) (unat v))) :: u64) = take_bit (8 * unat n) v"
    unfolding le_val_le_bytes unat_mod_256 by simp
  then show ?thesis
    unfolding sext_def using n by (auto simp only: signed_take_bit_take_bit split: if_splits)
qed

lemma sext_4: "scast (ucast v :: 32 word) = sext 4 v"
  unfolding sext_def by (rule bit_eqI) (auto simp: bit_signed_take_bit_iff bit_simps min_def)

lemma zext_value: "zext (unat n) v = v \<Longrightarrow> le_val (le_bytes (unat n) (unat v)) = unat v"
  unfolding le_val_le_bytes unat_mod_256 zext_def by simp

text \<open>C19. Whatever bytes arrive, a successful integer decoder stores a value of exactly the size of
  its field. The decoders of unsigned and of zigzag numbers and the decoder of plain signed numbers
  for a field of 8 bytes store the number received. The decoder of plain signed numbers for a smaller
  field stores the number received cast to \<open>int32_t\<close>: numbers beyond 32 bits are accepted and lose
  their upper bits, the cast number is stored as it is.\<close>

theorem decoded_integer_is_exact:
  shows "(pb_dec_uvarint s field = (True, dest, s') \<longrightarrow> (\<exists>v d. pb_decode_varint s = (Some v, s') \<and>
      dest = Some d \<and> int_fits field d \<and> le_val d = unat v)) \<and>
    (pb_dec_svarint s field = (True, dest, s') \<longrightarrow> (\<exists>v d. pb_decode_svarint s = (Some v, s') \<and>
      dest = Some d \<and> int_fits field d \<and> signed_value field d = v)) \<and>
    (pb_dec_varint s field = (True, dest, s') \<longrightarrow> (\<exists>v d. pb_decode_varint s = (Some v, s') \<and>
      dest = Some d \<and> int_fits field d \<and> signed_value field d = (if data_size field = 8 then v else sext 4 v)))"
proof (intro conjI impI)
  assume "pb_dec_uvarint s field = (True, dest, s')"
  then show "\<exists>v d. pb_decode_varint s = (Some v, s') \<and> dest = Some d \<and> int_fits field d \<and> le_val d = unat v"
    by (auto simp: pb_dec_uvarint_def in_error_def int_fits_def Let_def zext_value int_size_cases
      split: option.splits prod.splits if_splits)
next
  assume "pb_dec_svarint s field = (True, dest, s')"
  then show "\<exists>v d. pb_decode_svarint s = (Some v, s') \<and> dest = Some d \<and> int_fits field d \<and> signed_value field d = v"
    by (auto simp: pb_dec_svarint_def in_error_def int_fits_def Let_def sext_le_bytes int_size_cases
      split: option.splits prod.splits if_splits)
next
  assume "pb_dec_varint s field = (True, dest, s')"
  then show "\<exists>v d. pb_decode_varint s = (Some v, s') \<and> dest = Some d \<and> int_fits field d \<and>
      signed_value field d = (if data_size field = 8 then v else sext 4 v)"
    unfolding pb_dec_varint_def sext_4
    by (auto simp: in_error_def int_fits_def Let_def sext_le_bytes sext_le_bytes [of 8, simplified] int_size_cases
      split: option.splits prod.splits if_splits)
qed

lemma decoded_integer_is_exact_witness:
  "\<exists>s' v d. pb_dec_uvarint (pb_istream_from_buffer [5] 1)
      \<lparr>ftag = 1, ftype = 2, data_offset = 0, size_offset = 0, data_size = 1, array_size = 0, fptr = Ptr_null\<rparr> = (True, Some d, s') \<and>
    pb_decode_varint (pb_istream_from_buffer [5] 1) = (Some v, s') \<and> le_val d = unat v"
proof -
  define s where "s = pb_istream_from_buffer [5] 1"
  define f :: pb_field_t where
    "f = \<lparr>ftag = 1, ftype = 2, data_offset = 0, size_offset = 0, data_size = 1, array_size = 0, fptr = Ptr_null\<rparr>"
  have "fst (pb_dec_uvarint s f)" unfolding s_def f_def by code_simp
  then obtain dest s' where d: "pb_dec_uvarint s f = (True, dest, s')"
    by (cases "pb_dec_uvarint s f") auto
  from mp [OF conjunct1 [OF decoded_integer_is_exact] d] d show ?thesis
    unfolding s_def [symmetric] f_def [symmetric] by auto
qed

section \<open>Round trips of field values\<close>

lemma stored_some: "stored x = (Some d, s) \<Longrightarrow> x = (True, Some d, s)"
  by (auto simp: stored_def split: prod.splits if_splits)

text \<open>C20. An integer field of 1, 2, 4 or 8 bytes that was encoded into a buffer, as a plain signed,
  a zigzag or an unsigned integer, is decoded to the same bytes, and the decoder stops right
  behind it.\<close>

theorem integer_field_roundtrip:
  assumes "int_fits field d" and "n < size_limit"
  shows "(pb_enc_varint (pb_ostream_from_buffer n) field d = (True, out) \<longrightarrow>
      pb_dec_varint (pb_istream_from_buffer (wstate out @ rest) (length (wstate out @ rest))) field =
        (True, Some d, pb_istream_from_buffer rest (length rest))) \<and>
    (pb_enc_svarint (pb_ostream_from_buffer n) field d = (True, out) \<longrightarrow>
      pb_dec_svarint (pb_istream_from_buffer (wstate out @ rest) (length (wstate out @ rest))) field =
        (True, Some d, pb_istream_from_buffer rest (length rest))) \<and>
    (pb_enc_uvarint (pb_ostream_from_buffer n) field d = (True, out) \<longrightarrow>
      pb_dec_uvarint (pb_istream_from_buffer (wstate out @ rest) (length (wstate out @ rest))) field =
        (True, Some d, pb_istream_from_buffer rest (length rest)))"
  by (intro conjI impI; rule stored_some)
    (rule varint_field.roundtrip [OF assms] svarint_field.roundtrip [OF assms] uvarint_field.roundtrip [OF assms]; assumption)+

lemma enc_byte: "k < 128 \<Longrightarrow> pb_encode_varint (pb_ostream_from_buffer 16) (of_nat k) =
    (True, pb_put (pb_ostream_from_buffer 16) [of_nat k])"
proof -
  assume k: "k < 128"
  then have u: "unat (of_nat k :: u64) = k" by (intro unat_of_nat_less) simp
  show ?thesis
    unfolding encode_varint_leb128 u leb128_small [OF k]
    by (rule write_room) (simp_all add: from_buffer_room)
qed

lemma integer_field_roundtrip_witness:
  "pb_dec_uvarint (pb_istream_from_buffer ([5] @ [7]) (length ([5] @ [7 :: u8])))
     \<lparr>ftag = 1, ftype = 2, data_offset = 0, size_offset = 0, data_size = 1, array_size = 0, fptr = Ptr_null\<rparr> =
   (True, Some [5], pb_istream_from_buffer [7] (length [7 :: u8]))"
proof -
  define field :: pb_field_t where
    "field = \<lparr>ftag = 1, ftype = 2, data_offset = 0, size_offset = 0, data_size = 1, array_size = 0, fptr = Ptr_null\<rparr>"
  have "pb_enc_uvarint (pb_ostream_from_buffer 16) field [5] = (True, pb_put (pb_ostream_from_buffer 16) [5])"
    using enc_byte [of 5] by (simp add: pb_enc_uvarint_def int_size_def field_def)
  moreover have "int_fits field [5]" by (simp add: int_fits_def int_size_def field_def)
  moreover have "wstate (pb_put (pb_ostream_from_buffer 16) [5]) = [5]" by (simp add: from_buffer_room)
  ultimately show ?thesis
    using integer_field_roundtrip [of field "[5]" 16 "pb_put (pb_ostream_from_buffer 16) [5]" "[7]"]
    unfolding field_def [symmetric] by simp
qed

text \<open>A bytes or string field that fits its structure is decoded to the contents that were
  encoded, whether it is stored in place or behind a pointer.\<close>

theorem string_field_roundtrip:
  assumes "n < size_limit"
  shows "(bytes_fit realloc field d \<longrightarrow>
      pb_enc_bytes (pb_ostream_from_buffer n) field (Some d) = (True, out) \<longrightarrow>
      pb_dec_bytes realloc (pb_istream_from_buffer (wstate out @ rest) (length (wstate out @ rest))) field =
        (Some d, pb_istream_from_buffer rest (length rest))) \<and>
    (string_fits realloc field d \<longrightarrow>
      pb_enc_string (pb_ostream_from_buffer n) field (Some (d @ [0])) = (True, out) \<longrightarrow>
      pb_dec_string realloc (pb_istream_from_buffer (wstate out @ rest) (length (wstate out @ rest))) field =
        (Some d, pb_istream_from_buffer rest (length rest)))"
  using bytes_field.roundtrip [OF _ assms] string_field.roundtrip [OF _ assms] by blast

lemma string_field_roundtrip_witness:
  "pb_dec_bytes (\<lambda>_. True) (pb_istream_from_buffer ([1, 9] @ [7]) (length ([1, 9] @ [7 :: u8])))
     \<lparr>ftag = 1, ftype = 0x86, data_offset = 0, size_offset = 0, data_size = 0, array_size = 0, fptr = Ptr_null\<rparr> =
   (Some [9], pb_istream_from_buffer [7] (length [7 :: u8]))"
proof -
  define field :: pb_field_t where
    "field = \<lparr>ftag = 1, ftype = 0x86, data_offset = 0, size_offset = 0, data_size = 0, array_size = 0, fptr = Ptr_null\<rparr>"
  have b: "to_buffer (pb_ostream_from_buffer 16)" by (simp add: from_buffer_room)
  have fit: "bytes_fit (\<lambda>_. True) field [9]"
    by (simp add: bytes_fit_def field_def PB_ATYPE_def PB_ATYPE_MASK_def PB_ATYPE_POINTER_def)
  have "pb_enc_bytes (pb_ostream_from_buffer 16) field (Some [9]) =
      (True, pb_put (pb_ostream_from_buffer 16) (string_bytes [9]))"
    by (rule bytes_field.write_fits [OF fit b]) (simp add: from_buffer_room string_bytes_def leb128_small)
  with fit show ?thesis
    using string_field_roundtrip [of 16 "\<lambda>_. True" field "[9]" "pb_put (pb_ostream_from_buffer 16) (string_bytes [9])" "[7]"]
    unfolding field_def [symmetric] by (simp add: from_buffer_room string_bytes_def leb128_small)
qed

section \<open>Unknown fields\<close>

datatype wire_value = WVarint u64 | W64bit u64 | WString bytes | W32bit u32

fun wire_type :: "wire_value \<Rightarrow> u32" where
  "wire_type (WVarint _) = PB_WT_VARINT"
| "wire_type (W64bit _) = PB_WT_64BIT"
| "wire_type (WString _) = PB_WT_STRING"
| "wire_type (W32bit _) = PB_WT_32BIT"

fun encode_wire :: "pb_ostream_t \<Rightarrow> wire_value \<Rightarrow> bool \<times> pb_ostream_t" where
  "encode_wire s (WVarint v) = pb_encode_varint s v"
| "encode_wire s (W64bit v) = pb_encode_fixed64 s v"
| "encode_wire s (WString d) = pb_encode_string s d"
| "encode_wire s (W32bit v) = pb_encode_fixed32 s v"

fun wire_bytes :: "wire_value \<Rightarrow> bytes" where
  "wire_bytes (WVarint v) = leb128 (unat v)"
| "wire_bytes (W64bit v) = le_bytes 8 (unat v)"
| "wire_bytes (WString d) = string_bytes d"
| "wire_bytes (W32bit v) = le_bytes 4 (unat v)"

fun wire_ok :: "wire_value \<Rightarrow> bool" where
  "wire_ok (WString d) \<longleftrightarrow> length d < 2 ^ 32"
| "wire_ok _ \<longleftrightarrow> True"

lemma skip_varint_leb128:
  assumes "buffered s" and "view s = leb128 n @ rest"
  shows "pb_skip_varint s = (True, advance s (length (leb128 n)))"
  using assms
proof (induction n arbitrary: s rule: leb128.induct)
  case (1 n)
  show ?case
  proof (cases "n < 128")
    case True
    have "pb_read s True 1 = (Some [of_nat n], advance s 1)"
      using "1.prems" read_view [of s "[of_nat n]"] True by (simp add: leb128_small)
    with True low7_of_nat(3) [of n] show ?thesis
      by (subst pb_skip_varint.simps) (simp add: leb128_small)
  next
    case False
    have v: "view s = [of_nat (n mod 128 + 128)] @ (leb128 (n div 128) @ rest)"
      using "1.prems"(2) False by (simp add: leb128_large)
    have r: "pb_read s True 1 = (Some [of_nat (n mod 128 + 128)], advance s 1)"
      using read_view [OF "1.prems"(1) v] by simp
    have "pb_skip_varint (advance s 1) = (True, advance (advance s 1) (length (leb128 (n div 128))))"
      using "1.prems" False v by (intro "1.IH") (simp_all add: buffered_advance view_advance)
    with r low7_of_nat(4) [of n] False show ?thesis
      by (subst pb_skip_varint.simps) (simp add: leb128_large)
  qed
qed

lemma skip_wire:
  assumes "wire_ok v" and "buffered s" and "view s = wire_bytes v @ rest"
  shows "pb_skip_field s (wire_type v) = (True, advance s (length (wire_bytes v)))"
proof (cases v)
  case (WVarint w)
  with assms skip_varint_leb128 [of s "unat w" rest] show ?thesis by (simp add: pb_skip_field_def PB_WT_VARINT_def)
next
  case (W64bit w)
  with assms read_view [of s "le_bytes 8 (unat w)" rest False] show ?thesis
    by (simp add: pb_skip_field_def PB_WT_VARINT_def PB_WT_64BIT_def)
next
  case (WString d)
  with assms have d: "length d < 2 ^ 32" "view s = leb128 (length d) @ (d @ rest)" by (simp_all add: string_bytes_def)
  have "buffered (advance s (length (leb128 (length d))))" "view (advance s (length (leb128 (length d)))) = d @ rest"
    using assms(2) d(2) by (simp_all add: buffered_advance view_advance)
  from read_view [OF this, of False] decode_varint32_leb128 [OF assms(2) d(2) d(1)] d(1) show ?thesis
    by (simp add: WString pb_skip_field_def pb_skip_string_def PB_WT_VARINT_def PB_WT_64BIT_def PB_WT_STRING_def
      string_bytes_def unat_of_nat_less)
next
  case (W32bit w)
  with assms read_view [of s "le_bytes 4 (unat w)" rest False] show ?thesis
    by (simp add: pb_skip_field_def PB_WT_VARINT_def PB_WT_64BIT_def PB_WT_32BIT_def PB_WT_STRING_def)
qed

text \<open>C21. A field that the decoder does not know is skipped exactly: behind a tag of its wire type
  the stream stands at the first byte of the value, and \<open>pb_skip_field\<close> moves it to the first
  byte behind the value, for every wire type.\<close>

theorem unknown_field_is_skipped:
  assumes "valid_tag (wire_type v, t)" and "wire_ok v"
    and "buffered s" and "view s = tag_bytes (wire_type v, t) @ wire_bytes v @ rest"
  shows "\<exists>s1 s2 eof. pb_decode_tag s = (Some (wire_type v, t), eof, s1) \<and> view s1 = wire_bytes v @ rest \<and>
    pb_skip_field s1 (wire_type v) = (True, s2) \<and> view s2 = rest \<and> errmsg s2 = errmsg s"
proof -
  define k where "k = length (tag_bytes (wire_type v, t))"
  have "decode_tag s = (Some (wire_type v, t), advance s k)"
    unfolding k_def by (rule tag.read_encoded [OF assms(1,3,4)])
  then obtain eof where "pb_decode_tag s = (Some (wire_type v, t), eof, advance s k)"
    by (auto simp: decode_tag_def split: prod.splits)
  moreover have s1: "buffered (advance s k)" "view (advance s k) = wire_bytes v @ rest"
    using assms(3,4) by (simp_all add: buffered_advance view_advance k_def)
  moreover have "pb_skip_field (advance s k) (wire_type v) = (True, advance (advance s k) (length (wire_bytes v)))"
    by (rule skip_wire [OF assms(2) s1])
  moreover have "view (advance (advance s k) (length (wire_bytes v))) = rest"
    using s1 by (simp only: view_advance) simp
  ultimately show ?thesis by auto
qed

lemma unknown_field_is_skipped_witness:
  "\<exists>s1 s2 eof. pb_decode_tag (pb_istream_from_buffer ([10] @ string_bytes [8, 9] @ [7]) (length ([10] @ string_bytes [8, 9] @ [7 :: u8]))) =
     (Some (wire_type (WString [8, 9]), 1), eof, s1) \<and> view s1 = wire_bytes (WString [8, 9]) @ [7] \<and>
   pb_skip_field s1 (wire_type (WString [8, 9])) = (True, s2) \<and> view s2 = [7] \<and>
   errmsg s2 = errmsg (pb_istream_from_buffer ([10] @ string_bytes [8, 9] @ [7]) (length ([10] @ string_bytes [8, 9] @ [7 :: u8])))"
  by (rule unknown_field_is_skipped)
    (simp_all only: from_buffer_view, simp_all add: valid_tag_def tag_bytes_def PB_WT_STRING_def leb128_small)

section \<open>Overlong 32-bit varints\<close>

text \<open>The wrap-around of the 8-bit \<open>bitpos\<close>: after 37 continued bytes it is 2 again, and the
  next byte is shifted into the result.\<close>

lemma varint32_bitpos_wraps:
  "fst (pb_decode_varint32 (pb_istream_from_buffer (replicate 37 0x80 @ [1]) 38)) = Some 8"
  by code_simp

lemma varint32_drops_bits:
  "fst (pb_decode_varint32 (pb_istream_from_buffer [0x80, 0x80, 0x80, 0x80, 0xF0, 0x00] 6)) = Some 0"
  by code_simp

end
