(* ===== verification/Nanopb_Iter.thy ===== *)
theory Nanopb_Iter
  imports Nanopb_Fields
begin

text \<open>
  The field iterator: where the fields of a structure are by the descriptor table, that the code's
  walk over the table arrives at these addresses, and that a search from any position ends and
  finds a field exactly when the table has it, at its address.
\<close>

text \<open>A table of \<open>n\<close> fields and its terminator.\<close>

definition table :: "pb_field_t list \<Rightarrow> nat \<Rightarrow> bool" where
  "table fs n \<longleftrightarrow> length fs = Suc n \<and> (\<forall>i < n. ftag (fs ! i) \<noteq> 0) \<and> ftag (fs ! n) = 0"

text \<open>
  Where the fields of a structure are, from what \<open>pb.h\<close> says of the members of a descriptor: the
  data of a field starts \<open>data_offset\<close> bytes behind the end of the data of the previous field, its
  count or presence flag is \<open>size_offset\<close> bytes from its data, an array in the structure has
  \<open>array_size\<close> entries of \<open>data_size\<close> bytes, an allocated field is a pointer, and the members of a
  union behind the first one (their \<open>data_offset\<close> is \<open>PB_SIZE_MAX\<close>) are at the place of the first.
\<close>

definition same_union :: "pb_field_t list \<Rightarrow> nat \<Rightarrow> bool" where
  "same_union fs j \<longleftrightarrow> 0 < j \<and> PB_HTYPE (ftype (fs ! (j - 1))) = PB_HTYPE_ONEOF \<and>
     PB_HTYPE (ftype (fs ! j)) = PB_HTYPE_ONEOF \<and> data_offset (fs ! j) = PB_SIZE_MAX"

definition bytes_in_struct :: "pb_field_t \<Rightarrow> int" where
  "bytes_in_struct f =
     (if PB_ATYPE (ftype f) = PB_ATYPE_POINTER then 8
      else uint (data_size f) *
        (if PB_ATYPE (ftype f) = PB_ATYPE_STATIC \<and> PB_HTYPE (ftype f) = PB_HTYPE_REPEATED then uint (array_size f) else 1))"

definition data_addr :: "pb_field_t list \<Rightarrow> int \<Rightarrow> nat \<Rightarrow> int" where
  "data_addr fs dest k = dest
     + sum_list (map (\<lambda>j. if same_union fs j then 0 else uint (data_offset (fs ! j))) [0..<Suc k])
     + sum_list (map (\<lambda>j. if same_union fs (Suc j) then 0 else bytes_in_struct (fs ! j)) [0..<k])"

fun first_member :: "pb_field_t list \<Rightarrow> nat \<Rightarrow> nat" where
  "first_member fs 0 = 0"
| "first_member fs (Suc k) = (if same_union fs (Suc k) then first_member fs k else Suc k)"

definition size_addr :: "pb_field_t list \<Rightarrow> int \<Rightarrow> nat \<Rightarrow> int" where
  "size_addr fs dest k = data_addr fs dest k + sint (size_offset (fs ! first_member fs k))"

text \<open>The iterator at field \<open>k\<close> of a structure at \<open>dest\<close>.\<close>

definition field_at :: "pb_field_t list \<Rightarrow> int \<Rightarrow> nat \<Rightarrow> pb_field_iter_t" where
  "field_at fs dest k =
     \<lparr>ftable = fs, pos = k,
      required_field_index = length (filter (\<lambda>f. PB_HTYPE (ftype f) = PB_HTYPE_REQUIRED) (take k fs)),
      dest_struct = dest, pData = data_addr fs dest k, pSize = size_addr fs dest k\<rparr>"

definition wanted :: "u32 \<Rightarrow> pb_field_t \<Rightarrow> bool" where
  "wanted t f \<longleftrightarrow> ftag f = t \<and> PB_LTYPE (ftype f) \<noteq> PB_LTYPE_EXTENSION"

lemma begin_simps [simp]:
  "ftable (snd (pb_field_iter_begin fs dest)) = fs" "pos (snd (pb_field_iter_begin fs dest)) = 0"
  "dest_struct (snd (pb_field_iter_begin fs dest)) = dest"
  by (simp_all add: pb_field_iter_begin_def Let_def)

lemma field_at_0: "field_at fs dest 0 = snd (pb_field_iter_begin fs dest)"
  by (simp add: field_at_def data_addr_def size_addr_def same_union_def pb_field_iter_begin_def Let_def)

lemma field_at_fields [simp]:
  "ftable (field_at fs dest k) = fs" "pos (field_at fs dest k) = k" "dest_struct (field_at fs dest k) = dest"
  by (simp_all add: field_at_def)

lemma field_at_addr:
  "pData (field_at fs dest k) = data_addr fs dest k" "pSize (field_at fs dest k) = size_addr fs dest k"
  by (simp_all add: field_at_def)

lemma data_addr_Suc:
  "data_addr fs dest (Suc k) = data_addr fs dest k +
     (if same_union fs (Suc k) then 0 else bytes_in_struct (fs ! k) + uint (data_offset (fs ! Suc k)))"
  by (simp add: data_addr_def)

lemma size_addr_Suc:
  "size_addr fs dest (Suc k) =
     (if same_union fs (Suc k) then size_addr fs dest k else data_addr fs dest (Suc k) + sint (size_offset (fs ! Suc k)))"
  by (simp add: size_addr_def data_addr_Suc)

text \<open>The code walks from one field to the next by adding up sizes and offsets; it arrives there.\<close>

lemma field_at_Suc:
  assumes "table fs n" and "Suc i < n"
  shows "snd (pb_field_iter_next (field_at fs dest i)) = field_at fs dest (Suc i)"
proof -
  have t: "ftag (fs ! i) \<noteq> 0" "ftag (fs ! Suc i) \<noteq> 0" using assms by (simp_all add: table_def)
  have r: "take (Suc i) fs = take i fs @ [fs ! i]" using assms by (simp add: table_def take_Suc_conv_app_nth)
  let ?it = "field_at fs dest i"
  have q: "PB_ATYPE (ftype (fs ! i)) = PB_ATYPE_STATIC \<Longrightarrow> PB_ATYPE (ftype (fs ! i)) \<noteq> PB_ATYPE_POINTER"
    by (simp add: atype_values)
  show ?thesis
  proof (cases "same_union fs (Suc i)")
    case True
    then have "PB_HTYPE (ftype (fs ! i)) = PB_HTYPE_ONEOF" "PB_HTYPE (ftype (fs ! Suc i)) = PB_HTYPE_ONEOF"
      "data_offset (fs ! Suc i) = PB_SIZE_MAX" by (simp_all add: same_union_def)
    with t have "snd (pb_field_iter_next ?it) = ?it\<lparr>pos := Suc i\<rparr>"
      by (simp add: pb_field_iter_next_def cur_def Let_def)
    moreover have "PB_HTYPE (ftype (fs ! i)) \<noteq> PB_HTYPE_REQUIRED"
      using True by (simp add: same_union_def htype_values)
    ultimately show ?thesis using True r by (simp add: field_at_def data_addr_Suc size_addr_Suc)
  next
    case False
    then have c: "(PB_HTYPE (ftype (fs ! i)) = PB_HTYPE_ONEOF \<and> PB_HTYPE (ftype (fs ! Suc i)) = PB_HTYPE_ONEOF \<and>
      data_offset (fs ! Suc i) = PB_SIZE_MAX) = False" by (simp add: same_union_def)
    define d where "d = data_addr fs dest i + bytes_in_struct (fs ! i) + uint (data_offset (fs ! Suc i))"
    have "(if PB_ATYPE (ftype (fs ! i)) = PB_ATYPE_STATIC \<and> PB_HTYPE (ftype (fs ! i)) = PB_HTYPE_REPEATED
        then uint (data_size (fs ! i)) * uint (array_size (fs ! i))
        else if PB_ATYPE (ftype (fs ! i)) = PB_ATYPE_POINTER then 8 else uint (data_size (fs ! i))) = bytes_in_struct (fs ! i)"
      using q by (auto simp: bytes_in_struct_def)
    with t have "snd (pb_field_iter_next ?it) = ?it\<lparr>pos := Suc i,
        required_field_index := (if PB_HTYPE (ftype (fs ! i)) = PB_HTYPE_REQUIRED
          then required_field_index ?it + 1 else required_field_index ?it),
        pData := d, pSize := d + sint (size_offset (fs ! Suc i))\<rparr>"
      by (simp add: pb_field_iter_next_def cur_def Let_def c d_def field_at_addr cong: if_cong split del: if_split)
    then show ?thesis using False r by (simp add: field_at_def data_addr_Suc size_addr_Suc d_def)
  qed
qed

lemma next_inside:
  assumes "ftag (cur iter) \<noteq> 0" and "ftag (ftable iter ! (pos iter + 1)) \<noteq> 0"
  shows "ftable (snd (pb_field_iter_next iter)) = ftable iter" "pos (snd (pb_field_iter_next iter)) = pos iter + 1"
    "dest_struct (snd (pb_field_iter_next iter)) = dest_struct iter"
  using assms by (auto simp: pb_field_iter_next_def cur_def Let_def)

lemma next_last:
  assumes "ftag (cur iter) \<noteq> 0" and "ftag (ftable iter ! (pos iter + 1)) = 0"
  shows "pb_field_iter_next iter = (False, snd (pb_field_iter_begin (ftable iter) (dest_struct iter)))"
  using assms by (simp add: pb_field_iter_next_def cur_def Let_def)

lemma field_at_simps:
  assumes "table fs n" and "i < n"
  shows "ftable (field_at fs dest i) = fs \<and> pos (field_at fs dest i) = i \<and> dest_struct (field_at fs dest i) = dest"
  by simp

lemma next_field_at:
  assumes "table fs n" and "i < n"
  shows "snd (pb_field_iter_next (field_at fs dest i)) = field_at fs dest (Suc i mod n)"
proof (cases "Suc i < n")
  case True
  then show ?thesis using field_at_Suc [OF assms(1) True] by simp
next
  case False
  with assms(2) have i: "Suc i = n" by simp
  from assms field_at_simps [OF assms, of dest] i next_last [of "field_at fs dest i"] show ?thesis
    by (simp add: table_def cur_def field_at_0)
qed

lemma next_field_at_fst:
  assumes "table fs n" and "i < n"
  shows "fst (pb_field_iter_next (field_at fs d i)) \<longleftrightarrow> Suc i < n"
proof -
  note at = field_at_simps [OF assms, of d]
  have c: "ftag (cur (field_at fs d i)) \<noteq> 0" using assms at by (simp add: cur_def table_def)
  show ?thesis
  proof (cases "Suc i < n")
    case True
    then have "ftag (fs ! Suc i) \<noteq> 0" using assms(1) by (simp add: table_def)
    with c at True show ?thesis by (simp add: pb_field_iter_next_def cur_def Let_def)
  next
    case False
    then have "ftag (fs ! Suc i) = 0" using assms by (simp add: table_def less_Suc_eq not_less_eq)
    with c at False next_last [of "field_at fs d i"] show ?thesis by simp
  qed
qed

lemma next_field_at_eq:
  assumes "table fs n" and "i < n"
  shows "pb_field_iter_next (field_at fs d i) = (Suc i < n, field_at fs d (Suc i mod n))"
  using next_field_at_fst [OF assms, of d] next_field_at [OF assms, of d] by (simp add: prod_eq_iff)

lemma begin_field_at: "table fs n \<Longrightarrow> 0 < n \<Longrightarrow> pb_field_iter_begin fs d = (True, field_at fs d 0)"
  by (simp add: field_at_0 prod_eq_iff) (simp add: pb_field_iter_begin_def table_def Let_def)

text \<open>The loop from position \<open>i\<close>, \<open>k\<close> turns after the start.\<close>

lemma find_loop:
  assumes "table fs n" and "start < n" and "k < n"
  shows "iter_find_loop (Suc n - k) (field_at fs dest ((start + k) mod n)) start t =
    (case List.find (\<lambda>j. wanted t (fs ! ((start + j) mod n))) [k..<n] of
       Some j \<Rightarrow> Some (True, field_at fs dest ((start + j) mod n))
     | None \<Rightarrow> Some (False, field_at fs dest start))"
  using assms(3)
proof (induction "n - k" arbitrary: k)
  case (Suc m)
  define i where "i = (start + k) mod n"
  have i: "i < n" using assms(2) by (simp add: i_def)
  note at = field_at_simps [OF assms(1) i, of dest]
  have "cur (field_at fs dest i) = fs ! i" using at by (simp add: cur_def)
  moreover have "Suc n - k = Suc (n - k)" using Suc.prems by simp
  moreover have nxt: "snd (pb_field_iter_next (field_at fs dest i)) = field_at fs dest ((start + Suc k) mod n)"
    using next_field_at [OF assms(1) i, of dest] by (simp add: i_def mod_Suc_eq)
  moreover have "[k..<n] = k # [Suc k..<n]" using Suc.prems by (rule upt_conv_Cons)
  moreover have pos: "pos (field_at fs dest ((start + Suc k) mod n)) = (start + Suc k) mod n"
    using field_at_simps [OF assms(1), of "(start + Suc k) mod n" dest] assms(2) by simp
  moreover have "(start + Suc k) mod n = start \<longleftrightarrow> Suc k = n"
  proof
    assume "(start + Suc k) mod n = start"
    then show "Suc k = n"
      using assms(2) Suc.prems by (cases "start + Suc k < n") (simp_all add: le_mod_geq)
  qed (use assms(2) in simp)
  moreover have "Suc k < n \<Longrightarrow> iter_find_loop (n - k) (field_at fs dest ((start + Suc k) mod n)) start t =
    (case List.find (\<lambda>j. wanted t (fs ! ((start + j) mod n))) [Suc k..<n] of
       Some j \<Rightarrow> Some (True, field_at fs dest ((start + j) mod n))
     | None \<Rightarrow> Some (False, field_at fs dest start))"
    using Suc.hyps(1) [of "Suc k"] Suc.hyps(2) by simp
  ultimately show ?case
    using Suc.prems unfolding i_def [symmetric]
    by (cases "Suc k = n") (auto simp: wanted_def i_def Let_def)
qed simp

lemma find_Some: "List.find P xs = Some x \<Longrightarrow> x \<in> set xs \<and> P x"
  by (auto simp: find_Some_iff)

lemma around: "start < n \<Longrightarrow> i < (n :: nat) \<Longrightarrow> \<exists>j < n. (start + j) mod n = i"
proof (cases "start \<le> i")
  case True
  then show "i < n \<Longrightarrow> \<exists>j < n. (start + j) mod n = i" by (intro exI [of _ "i - start"]) simp
next
  case False
  assume "start < n" "i < n"
  with False show ?thesis by (intro exI [of _ "n - start + i"]) simp
qed

lemma find_ends:
  assumes "table fs n" and "start < n"
  shows "\<exists>found i. pb_field_iter_find (field_at fs dest start) t = Some (found, field_at fs dest i) \<and> i < n \<and>
    (found \<longleftrightarrow> (\<exists>j < n. wanted t (fs ! j))) \<and> (if found then wanted t (fs ! i) else i = start)"
proof -
  define P where "P j \<longleftrightarrow> wanted t (fs ! ((start + j) mod n))" for j
  have n: "0 < n" using assms(2) by simp
  have loop: "pb_field_iter_find (field_at fs dest start) t =
      (case List.find P [0..<n] of
         Some j \<Rightarrow> Some (True, field_at fs dest ((start + j) mod n))
       | None \<Rightarrow> Some (False, field_at fs dest start))"
    using find_loop [OF assms n, of dest t] field_at_simps [OF assms, of dest] assms
    by (simp add: pb_field_iter_find_def table_def P_def [abs_def])
  have ex: "(\<exists>j < n. wanted t (fs ! j)) \<longleftrightarrow> (\<exists>j < n. P j)"
    using around [OF assms(2)] n unfolding P_def by (metis mod_less_divisor)
  show ?thesis
  proof (cases "List.find P [0..<n]")
    case None
    then have "\<not> (\<exists>j < n. P j)" by (auto simp: find_None_iff)
    with None loop ex assms(2) show ?thesis by (intro exI [of _ False] exI [of _ start]) simp
  next
    case (Some j)
    from find_Some [OF Some] have "j < n" "P j" by simp_all
    with Some loop ex n show ?thesis
      by (intro exI [of _ True] exI [of _ "(start + j) mod n"]) (auto simp: P_def)
  qed
qed

text \<open>C22. A search of the field iterator ends within one turn around the table from whatever field
  it starts at: it finds a field exactly when the table has one of that tag that is not an
  extension placeholder; its data and size pointers are then the addresses of that field in the
  structure, as the offsets and sizes of the table give them, and its count of required fields is
  that of the fields before it; a search that fails leaves the iterator where it was.\<close>

theorem field_iter_find_ends:
  assumes "table fs n" and "start < n"
  shows "\<exists>found i. pb_field_iter_find (field_at fs dest start) t = Some (found, field_at fs dest i) \<and> i < n \<and>
    (found \<longleftrightarrow> (\<exists>j < n. wanted t (fs ! j))) \<and> (if found then wanted t (fs ! i) else i = start)"
  by (rule find_ends [OF assms])

lemma field_iter_find_ends_witness:
  "\<exists>found i. pb_field_iter_find (field_at [
      \<lparr>ftag = 1, ftype = 1, data_offset = 0, size_offset = 0, data_size = 4, array_size = 0, fptr = Ptr_null\<rparr>,
      \<lparr>ftag = 3, ftype = 0, data_offset = 0, size_offset = 0, data_size = 1, array_size = 0, fptr = Ptr_null\<rparr>,
      \<lparr>ftag = 0, ftype = 0, data_offset = 0, size_offset = 0, data_size = 0, array_size = 0, fptr = Ptr_null\<rparr>] 64 1) 1 =
    Some (found, field_at [
      \<lparr>ftag = 1, ftype = 1, data_offset = 0, size_offset = 0, data_size = 4, array_size = 0, fptr = Ptr_null\<rparr>,
      \<lparr>ftag = 3, ftype = 0, data_offset = 0, size_offset = 0, data_size = 1, array_size = 0, fptr = Ptr_null\<rparr>,
      \<lparr>ftag = 0, ftype = 0, data_offset = 0, size_offset = 0, data_size = 0, array_size = 0, fptr = Ptr_null\<rparr>] 64 i) \<and> i < 2 \<and>
    (found \<longleftrightarrow> (\<exists>j < 2. wanted 1 ([
      \<lparr>ftag = 1, ftype = 1, data_offset = 0, size_offset = 0, data_size = 4, array_size = 0, fptr = Ptr_null\<rparr>,
      \<lparr>ftag = 3, ftype = 0, data_offset = 0, size_offset = 0, data_size = 1, array_size = 0, fptr = Ptr_null\<rparr>,
      \<lparr>ftag = 0, ftype = 0, data_offset = 0, size_offset = 0, data_size = 0, array_size = 0, fptr = Ptr_null\<rparr>] ! j))) \<and>
    (if found then wanted 1 ([
      \<lparr>ftag = 1, ftype = 1, data_offset = 0, size_offset = 0, data_size = 4, array_size = 0, fptr = Ptr_null\<rparr>,
      \<lparr>ftag = 3, ftype = 0, data_offset = 0, size_offset = 0, data_size = 1, array_size = 0, fptr = Ptr_null\<rparr>,
      \<lparr>ftag = 0, ftype = 0, data_offset = 0, size_offset = 0, data_size = 0, array_size = 0, fptr = Ptr_null\<rparr>] ! i) else i = 1)"
  by (rule field_iter_find_ends) (auto simp: table_def less_2_cases_iff)

end
