(* ===== verification/Nanopb_Decode.thy ===== *)
theory Nanopb_Decode
  imports Nanopb_Memory
begin

text \<open>
  nanopb's walk over a message (\<open>pb_decode.c\<close>): default values, static, pointer and callback
  fields, extensions, submessages, release, and \<open>pb_decode\<close>. A result \<open>None\<close> is a run that does
  not end within the fuel, or that calls through a null function pointer; fuel counts the
  iterations of loops and the nesting of messages. A decoder of submessages is the parameter
  \<open>sub\<close> of the definitions, the recursion is closed in \<open>pb_decode_noinit\<close>.
\<close>

unbundle bit_operations_syntax

type_synonym dec_result = "(bool \<times> pb_istream_t \<times> pb_heap) option"

definition dec_fail :: "string \<Rightarrow> pb_istream_t \<Rightarrow> pb_heap \<Rightarrow> dec_result" where
  "dec_fail msg stream h = Some (False, snd (in_error msg stream :: unit option \<times> _), h)"

section \<open>Extensions\<close>

definition iter_from_extension :: "pb_env \<Rightarrow> pb_heap \<Rightarrow> int \<Rightarrow> pb_field_iter_t" where
  "iter_from_extension E h e =
     (let fs = tables E (ext_arg (extension_type E h e));
          iter = snd (pb_field_iter_begin fs (load_ptr h (extension_dest e)));
          iter = iter\<lparr>pData := load_ptr h (extension_dest e), pSize := extension_found e\<rparr>
      in if PB_ATYPE (ftype (fs ! 0)) = PB_ATYPE_POINTER then iter\<lparr>pData := extension_dest e\<rparr> else iter)"

text \<open>The loop over the list of extensions, and the loop of an iterator over its table.\<close>

fun for_extensions ::
  "nat \<Rightarrow> (int \<Rightarrow> pb_heap \<Rightarrow> pb_heap option) \<Rightarrow> int \<Rightarrow> pb_heap \<Rightarrow> pb_heap option" where
  "for_extensions 0 f e h = None"
| "for_extensions (Suc n) f e h =
     (if e = 0 then Some h
      else case f e h of None \<Rightarrow> None | Some h \<Rightarrow> for_extensions n f (extension_next h e) h)"

fun for_fields ::
  "nat \<Rightarrow> (pb_field_iter_t \<Rightarrow> pb_heap \<Rightarrow> pb_heap option) \<Rightarrow> pb_field_iter_t \<Rightarrow> pb_heap \<Rightarrow> pb_heap option" where
  "for_fields 0 f iter h = None"
| "for_fields (Suc n) f iter h =
     (case f iter h of
        None \<Rightarrow> None
      | Some h \<Rightarrow> (case pb_field_iter_next iter of
                    (True, iter) \<Rightarrow> for_fields n f iter h
                  | (False, _) \<Rightarrow> Some h))"

section \<open>Default values\<close>

text \<open>\<open>msg\<close> initialises a submessage, \<open>exts\<close> a list of extensions.\<close>

definition field_to_default ::
  "(nat \<Rightarrow> int \<Rightarrow> pb_heap \<Rightarrow> pb_heap option) \<Rightarrow> (int \<Rightarrow> pb_heap \<Rightarrow> pb_heap option) \<Rightarrow>
     pb_field_iter_t \<Rightarrow> pb_heap \<Rightarrow> pb_heap option" where
  "field_to_default msg exts iter h =
     (let field = cur iter; t = ftype field
      in if PB_LTYPE t = PB_LTYPE_EXTENSION then exts (load_ptr h (pData iter)) h
         else if PB_ATYPE t = PB_ATYPE_STATIC then
           case (if PB_HTYPE t = PB_HTYPE_OPTIONAL \<and> pSize iter \<noteq> pData iter
                 then (store_bool h (pSize iter) False, True)
                 else if PB_HTYPE t = PB_HTYPE_REPEATED \<or> PB_HTYPE t = PB_HTYPE_ONEOF
                 then (store_size h (pSize iter) 0, False)
                 else (h, True)) of
             (h, False) \<Rightarrow> Some h
           | (h, True) \<Rightarrow>
               if PB_LTYPE t = PB_LTYPE_SUBMESSAGE then
                 (case submsg_fields field of None \<Rightarrow> None | Some m \<Rightarrow> msg m (pData iter) h)
               else (case fptr field of
                       Ptr_default d \<Rightarrow> Some (store h (pData iter) (take (unat (data_size field)) d))
                     | _ \<Rightarrow> Some (store h (pData iter) (replicate (unat (data_size field)) 0)))
         else if PB_ATYPE t = PB_ATYPE_POINTER then
           let h = store_ptr h (pData iter) 0
           in Some (if PB_HTYPE t = PB_HTYPE_REPEATED \<or> PB_HTYPE t = PB_HTYPE_ONEOF
                    then store_size h (pSize iter) 0 else h)
         else Some h)"

fun pb_field_set_to_default :: "nat \<Rightarrow> pb_env \<Rightarrow> pb_field_iter_t \<Rightarrow> pb_heap \<Rightarrow> pb_heap option"
  and pb_message_set_to_defaults :: "nat \<Rightarrow> pb_env \<Rightarrow> nat \<Rightarrow> int \<Rightarrow> pb_heap \<Rightarrow> pb_heap option"
where
  "pb_field_set_to_default 0 E iter h = None"
| "pb_field_set_to_default (Suc n) E iter h =
     field_to_default (pb_message_set_to_defaults n E)
       (for_extensions n (\<lambda>e h.
          let h = store_bool h (extension_found e) False
          in pb_field_set_to_default n E (iter_from_extension E h e) h)) iter h"
| "pb_message_set_to_defaults 0 E m dest h = None"
| "pb_message_set_to_defaults (Suc n) E m dest h =
     (case pb_field_iter_begin (tables E m) dest of
        (False, _) \<Rightarrow> Some h
      | (True, iter) \<Rightarrow> for_fields n (pb_field_set_to_default n E) iter h)"

section \<open>Release\<close>

text \<open>The entries of an array of strings or bytes, and the submessages of an array.\<close>

fun free_entries :: "nat \<Rightarrow> int \<Rightarrow> pb_heap \<Rightarrow> pb_heap" where
  "free_entries 0 p h = h"
| "free_entries (Suc k) p h = free_entries k (p + 8) (store_ptr (pb_free h (load_ptr h p)) p 0)"

fun release_items ::
  "(int \<Rightarrow> pb_heap \<Rightarrow> pb_heap option) \<Rightarrow> nat \<Rightarrow> int \<Rightarrow> int \<Rightarrow> pb_heap \<Rightarrow> pb_heap option" where
  "release_items rel 0 item step h = Some h"
| "release_items rel (Suc k) item step h =
     (case rel item h of None \<Rightarrow> None | Some h \<Rightarrow> release_items rel k (item + step) step h)"

text \<open>The second half of \<open>pb_release_single_field\<close>, for pointers.\<close>

definition release_pointer :: "pb_field_iter_t \<Rightarrow> pb_heap \<Rightarrow> pb_heap" where
  "release_pointer iter h =
     (let t = ftype (cur iter)
      in if PB_ATYPE t = PB_ATYPE_POINTER then
           let h = (if PB_HTYPE t = PB_HTYPE_REPEATED \<and>
                       (PB_LTYPE t = PB_LTYPE_STRING \<or> PB_LTYPE t = PB_LTYPE_BYTES)
                    then free_entries (unat (load_size h (pSize iter))) (load_ptr h (pData iter)) h else h);
               h = (if PB_HTYPE t = PB_HTYPE_REPEATED then store_size h (pSize iter) 0 else h);
               h = pb_free h (load_ptr h (pData iter))
           in store_ptr h (pData iter) 0
         else h)"

definition release_count :: "pb_field_iter_t \<Rightarrow> pb_heap \<Rightarrow> u32" where
  "release_count iter h =
     (let field = cur iter; t = ftype field
      in if PB_HTYPE t = PB_HTYPE_REPEATED then
           let count = (if PB_ATYPE t = PB_ATYPE_STATIC \<and> pSize iter = pData iter
                        then array_size field else load_size h (pSize iter))
           in if PB_ATYPE t = PB_ATYPE_STATIC \<and> count > array_size field then array_size field else count
         else 1)"

definition release_field ::
  "(nat \<Rightarrow> int \<Rightarrow> pb_heap \<Rightarrow> pb_heap option) \<Rightarrow> (int \<Rightarrow> pb_heap \<Rightarrow> pb_heap option) \<Rightarrow>
     pb_field_iter_t \<Rightarrow> pb_heap \<Rightarrow> pb_heap option" where
  "release_field msg exts iter h =
     (let field = cur iter; t = ftype field
      in if PB_HTYPE t = PB_HTYPE_ONEOF \<and> load_size h (pSize iter) \<noteq> ftag field then Some h
         else if PB_LTYPE t = PB_LTYPE_EXTENSION then
           map_option (release_pointer iter) (exts (load_ptr h (pData iter)) h)
         else if PB_LTYPE t = PB_LTYPE_SUBMESSAGE \<and> PB_ATYPE t \<noteq> PB_ATYPE_CALLBACK then
           let item = (if PB_ATYPE t = PB_ATYPE_POINTER then load_ptr h (pData iter) else pData iter)
           in if item = 0 then Some (release_pointer iter h)
              else (case submsg_fields field of
                      None \<Rightarrow> None
                    | Some m \<Rightarrow>
                        map_option (release_pointer iter)
                          (release_items (msg m) (unat (release_count iter h)) item (uint (data_size field)) h))
         else Some (release_pointer iter h))"

fun pb_release_single_field :: "nat \<Rightarrow> pb_env \<Rightarrow> pb_field_iter_t \<Rightarrow> pb_heap \<Rightarrow> pb_heap option"
  and pb_release :: "nat \<Rightarrow> pb_env \<Rightarrow> nat \<Rightarrow> int \<Rightarrow> pb_heap \<Rightarrow> pb_heap option"
where
  "pb_release_single_field 0 E iter h = None"
| "pb_release_single_field (Suc n) E iter h =
     release_field (pb_release n E)
       (for_extensions n (\<lambda>e h. pb_release_single_field n E (iter_from_extension E h e) h)) iter h"
| "pb_release 0 E m dest h = None"
| "pb_release (Suc n) E m dest h =
     (if dest = 0 then Some h
      else case pb_field_iter_begin (tables E m) dest of
             (False, _) \<Rightarrow> Some h
           | (True, iter) \<Rightarrow> for_fields n (pb_release_single_field n E) iter h)"

section \<open>Decoding one value\<close>

text \<open>
  The decoders with their stores. \<open>sub\<close> decodes a submessage; its flag says whether the
  structure is initialised first (\<open>pb_decode\<close>) or not (\<open>pb_decode_noinit\<close>). When a read
  fails, the destination keeps its contents.
\<close>

type_synonym sub_decoder = "bool \<Rightarrow> pb_istream_t \<Rightarrow> nat \<Rightarrow> int \<Rightarrow> pb_heap \<Rightarrow> dec_result"

type_synonym item_decoder = "pb_istream_t \<Rightarrow> pb_field_t \<Rightarrow> int \<Rightarrow> pb_heap \<Rightarrow> dec_result"

definition store_opt :: "pb_heap \<Rightarrow> int \<Rightarrow> bytes option \<Rightarrow> pb_heap" where
  "store_opt h dest d = (case d of None \<Rightarrow> h | Some d \<Rightarrow> store h dest d)"

definition pb_dec_bytes_at :: "pb_env \<Rightarrow> item_decoder" where
  "pb_dec_bytes_at E stream field dest h =
     (case pb_decode_varint32 stream of
        (None, stream) \<Rightarrow> Some (False, stream, h)
      | (Some n, stream) \<Rightarrow>
          if n > PB_SIZE_MAX then dec_fail ''bytes overflow'' stream h
          else
            let alloc_size = PB_BYTES_ARRAY_T_ALLOCSIZE (unat n);
                read_into = (\<lambda>stream bdest h.
                  let h = store_size h bdest n
                  in case pb_read stream True (unat n) of
                       (d, stream) \<Rightarrow> Some (d \<noteq> None, stream, store_opt h (bytes_of_array bdest) d))
            in if unat n > alloc_size then dec_fail ''size too large'' stream h
               else if PB_ATYPE (ftype field) = PB_ATYPE_POINTER then
                 (case allocate_field_at E stream dest alloc_size 1 h of
                    (False, stream, h) \<Rightarrow> Some (False, stream, h)
                  | (True, stream, h) \<Rightarrow> read_into stream (load_ptr h dest) h)
               else if alloc_size > unat (data_size field) then dec_fail ''bytes overflow'' stream h
               else read_into stream dest h)"

definition pb_dec_string_at :: "pb_env \<Rightarrow> item_decoder" where
  "pb_dec_string_at E stream field dest h =
     (case pb_decode_varint32 stream of
        (None, stream) \<Rightarrow> Some (False, stream, h)
      | (Some n, stream) \<Rightarrow>
          let alloc_size = unat (n + 1);
              read_into = (\<lambda>stream dest h.
                case pb_read stream True (unat n) of
                  (d, stream) \<Rightarrow> Some (d \<noteq> None, stream, store (store_opt h dest d) (dest + uint n) [0]))
          in if alloc_size < unat n then dec_fail ''size too large'' stream h
             else if PB_ATYPE (ftype field) = PB_ATYPE_POINTER then
               (case allocate_field_at E stream dest alloc_size 1 h of
                  (False, stream, h) \<Rightarrow> Some (False, stream, h)
                | (True, stream, h) \<Rightarrow> read_into stream (load_ptr h dest) h)
             else if alloc_size > unat (data_size field) then dec_fail ''string overflow'' stream h
             else read_into stream dest h)"

definition pb_dec_submessage :: "sub_decoder \<Rightarrow> item_decoder" where
  "pb_dec_submessage sub stream field dest h =
     (case pb_make_string_substream stream of
        (None, stream) \<Rightarrow> Some (False, stream, h)
      | (Some substream, stream) \<Rightarrow>
          (case submsg_fields field of
             None \<Rightarrow> dec_fail ''invalid field descriptor'' stream h
           | Some m \<Rightarrow>
               (case sub (PB_HTYPE (ftype field) = PB_HTYPE_REPEATED) substream m dest h of
                  None \<Rightarrow> None
                | Some (status, substream, h) \<Rightarrow>
                    (case pb_close_string_substream stream substream of
                       (False, stream, _) \<Rightarrow> Some (False, stream, h)
                     | (True, stream, _) \<Rightarrow> Some (status, stream, h)))))"

text \<open>The table \<open>PB_DECODERS\<close>; it has no function for extensions.\<close>

definition PB_DECODERS :: "pb_env \<Rightarrow> sub_decoder \<Rightarrow> u8 \<Rightarrow> item_decoder option" where
  "PB_DECODERS E sub lt =
     (let number = (\<lambda>dec :: pb_istream_t \<Rightarrow> pb_field_t \<Rightarrow> bool \<times> bytes option \<times> pb_istream_t.
            Some (\<lambda>stream field dest h.
              case dec stream field of (ok, d, stream) \<Rightarrow> Some (ok, stream, store_opt h dest d)))
      in if lt = PB_LTYPE_BOOL then
           Some (\<lambda>stream field dest h.
             case pb_dec_bool stream of
               (None, stream) \<Rightarrow> Some (False, stream, h)
             | (Some b, stream) \<Rightarrow> Some (True, stream, store_bool h dest b))
         else if lt = PB_LTYPE_VARINT then number pb_dec_varint
         else if lt = PB_LTYPE_UVARINT then number pb_dec_uvarint
         else if lt = PB_LTYPE_SVARINT then number pb_dec_svarint
         else if lt = PB_LTYPE_FIXED32 then
           Some (\<lambda>stream field dest h.
             case pb_dec_fixed32 stream field of
               (None, stream) \<Rightarrow> Some (False, stream, h)
             | (Some v, stream) \<Rightarrow> Some (True, stream, store h dest (le_bytes 4 (unat v))))
         else if lt = PB_LTYPE_FIXED64 then
           Some (\<lambda>stream field dest h.
             case pb_dec_fixed64 stream field of
               (None, stream) \<Rightarrow> Some (False, stream, h)
             | (Some v, stream) \<Rightarrow> Some (True, stream, store h dest (le_bytes 8 (unat v))))
         else if lt = PB_LTYPE_BYTES then Some (pb_dec_bytes_at E)
         else if lt = PB_LTYPE_STRING then Some (pb_dec_string_at E)
         else if lt = PB_LTYPE_SUBMESSAGE then Some (pb_dec_submessage sub)
         else if lt = PB_LTYPE_FIXED_LENGTH_BYTES then
           Some (\<lambda>stream field dest h.
             case pb_dec_fixed_length_bytes stream field of
               (d, stream) \<Rightarrow> Some (d \<noteq> None, stream, store_opt h dest d))
         else None)"

definition run_decoder :: "pb_env \<Rightarrow> sub_decoder \<Rightarrow> item_decoder" where
  "run_decoder E sub stream field dest h =
     (case PB_DECODERS E sub (PB_LTYPE (ftype field)) of
        None \<Rightarrow> None
      | Some f \<Rightarrow> f stream field dest h)"

section \<open>Static fields\<close>

text \<open>The entries of a packed array, as long as there is input and room.\<close>

fun static_array_loop ::
  "nat \<Rightarrow> item_decoder \<Rightarrow> pb_field_iter_t \<Rightarrow> pb_istream_t \<Rightarrow> pb_heap \<Rightarrow> dec_result" where
  "static_array_loop 0 f iter substream h = None"
| "static_array_loop (Suc n) f iter substream h =
     (let count = load_size h (pSize iter)
      in if bytes_left substream > 0 \<and> count < array_size (cur iter) then
           (case f substream (cur iter) (item_at (pData iter) (cur iter) count) h of
              None \<Rightarrow> None
            | Some (False, substream, h) \<Rightarrow> Some (False, substream, h)
            | Some (True, substream, h) \<Rightarrow>
                static_array_loop n f iter substream
                  (store_size h (pSize iter) (load_size h (pSize iter) + 1)))
         else Some (True, substream, h))"

definition decode_static_field ::
  "nat \<Rightarrow> pb_env \<Rightarrow> sub_decoder \<Rightarrow> pb_istream_t \<Rightarrow> u32 \<Rightarrow> pb_field_iter_t \<Rightarrow> pb_heap \<Rightarrow> dec_result" where
  "decode_static_field n E sub stream wire_type iter h =
     (let field = cur iter; t = ftype field; f = run_decoder E sub
      in if PB_HTYPE t = PB_HTYPE_REQUIRED then f stream field (pData iter) h
         else if PB_HTYPE t = PB_HTYPE_OPTIONAL then
           (let h = (if pSize iter \<noteq> pData iter then store_bool h (pSize iter) True else h)
            in f stream field (pData iter) h)
         else if PB_HTYPE t = PB_HTYPE_REPEATED then
           if wire_type = PB_WT_STRING \<and> PB_LTYPE t \<le> PB_LTYPE_LAST_PACKABLE then
             (case pb_make_string_substream stream of
                (None, stream) \<Rightarrow> Some (False, stream, h)
              | (Some substream, stream) \<Rightarrow>
                  (case static_array_loop n f iter substream h of
                     None \<Rightarrow> None
                   | Some (status, substream, h) \<Rightarrow>
                       if bytes_left substream \<noteq> 0 then dec_fail ''array overflow'' stream h
                       else (case pb_close_string_substream stream substream of
                               (False, stream, _) \<Rightarrow> Some (False, stream, h)
                             | (True, stream, _) \<Rightarrow> Some (status, stream, h))))
           else
             (let count = load_size h (pSize iter);
                  item = item_at (pData iter) field count;
                  h = store_size h (pSize iter) (count + 1)
              in if count \<ge> array_size field then dec_fail ''array overflow'' stream h
                 else f stream field item h)
         else
           let h = store_size h (pSize iter) (ftag field)
           in if PB_LTYPE t = PB_LTYPE_SUBMESSAGE then
                let h = store h (pData iter) (replicate (unat (data_size field)) 0)
                in case submsg_fields field of
                     None \<Rightarrow> None
                   | Some m \<Rightarrow>
                       (case pb_message_set_to_defaults n E m (pData iter) h of
                          None \<Rightarrow> None
                        | Some h \<Rightarrow> f stream field (pData iter) h)
              else f stream field (pData iter) h)"

section \<open>Pointer fields\<close>

definition initialize_pointer_field ::
  "nat \<Rightarrow> pb_env \<Rightarrow> int \<Rightarrow> pb_field_iter_t \<Rightarrow> pb_heap \<Rightarrow> pb_heap option" where
  "initialize_pointer_field n E item iter h =
     (let field = cur iter; lt = PB_LTYPE (ftype field)
      in if lt = PB_LTYPE_STRING \<or> lt = PB_LTYPE_BYTES then Some (store_ptr h item 0)
         else if lt = PB_LTYPE_SUBMESSAGE then
           (let h = store h item (replicate (unat (data_size field)) 0)
            in case submsg_fields field of
                 None \<Rightarrow> None
               | Some m \<Rightarrow> pb_message_set_to_defaults n E m item h)
         else Some h)"

text \<open>The entries of a packed array: before an entry that does not fit, the array is extended to
  the number of entries that the rest of the input may hold.\<close>

fun pointer_array_loop ::
  "nat \<Rightarrow> pb_env \<Rightarrow> sub_decoder \<Rightarrow> pb_field_iter_t \<Rightarrow> nat \<Rightarrow> pb_istream_t \<Rightarrow> pb_istream_t \<Rightarrow> pb_heap \<Rightarrow>
     (bool \<times> pb_istream_t \<times> pb_istream_t \<times> pb_heap) option" where
  "pointer_array_loop 0 E sub iter allocated_size stream substream h = None"
| "pointer_array_loop (Suc n) E sub iter allocated_size stream substream h =
     (let field = cur iter; count = load_size h (pSize iter)
      in if bytes_left substream = 0 then Some (True, stream, substream, h)
         else if count = PB_SIZE_MAX
         then Some (False, stream\<lparr>errmsg := Some ''too many array entries''\<rparr>, substream, h)
         else
           let grow = (unat count + 1 > allocated_size);
               remain = (bytes_left substream - 1) div unat (data_size field) + 1;
               allocated_size = (if \<not> grow then allocated_size
                                 else if remain < unat PB_SIZE_MAX - allocated_size then allocated_size + remain
                                 else allocated_size + 1)
           in case (if grow then allocate_field_at E substream (pData iter) (unat (data_size field)) allocated_size h
                    else (True, substream, h)) of
                (False, substream, h) \<Rightarrow> Some (False, stream, substream, h)
              | (True, substream, h) \<Rightarrow>
                  let item = item_at (load_ptr h (pData iter)) field count
                  in case initialize_pointer_field n E item iter h of
                       None \<Rightarrow> None
                     | Some h \<Rightarrow>
                         (case run_decoder E sub substream field item h of
                            None \<Rightarrow> None
                          | Some (False, substream, h) \<Rightarrow> Some (False, stream, substream, h)
                          | Some (True, substream, h) \<Rightarrow>
                              pointer_array_loop n E sub iter allocated_size stream substream
                                (store_size h (pSize iter) (load_size h (pSize iter) + 1))))"

definition decode_pointer_field ::
  "nat \<Rightarrow> pb_env \<Rightarrow> sub_decoder \<Rightarrow> pb_istream_t \<Rightarrow> u32 \<Rightarrow> pb_field_iter_t \<Rightarrow> pb_heap \<Rightarrow> dec_result" where
  "decode_pointer_field n E sub stream wire_type iter h =
     (let field = cur iter; t = ftype field; f = run_decoder E sub
      in if PB_HTYPE t \<noteq> PB_HTYPE_REPEATED then
           case (if PB_LTYPE t = PB_LTYPE_SUBMESSAGE \<and> load_ptr h (pData iter) \<noteq> 0
                 then pb_release_single_field n E iter h else Some h) of
             None \<Rightarrow> None
           | Some h \<Rightarrow>
               let h = (if PB_HTYPE t = PB_HTYPE_ONEOF then store_size h (pSize iter) (ftag field) else h)
               in if PB_LTYPE t = PB_LTYPE_STRING \<or> PB_LTYPE t = PB_LTYPE_BYTES
                  then f stream field (pData iter) h
                  else (case allocate_field_at E stream (pData iter) (unat (data_size field)) 1 h of
                          (False, stream, h) \<Rightarrow> Some (False, stream, h)
                        | (True, stream, h) \<Rightarrow>
                            (case initialize_pointer_field n E (load_ptr h (pData iter)) iter h of
                               None \<Rightarrow> None
                             | Some h \<Rightarrow> f stream field (load_ptr h (pData iter)) h))
         else if wire_type = PB_WT_STRING \<and> PB_LTYPE t \<le> PB_LTYPE_LAST_PACKABLE then
           (case pb_make_string_substream stream of
              (None, stream) \<Rightarrow> Some (False, stream, h)
            | (Some substream, stream) \<Rightarrow>
                (case pointer_array_loop n E sub iter (unat (load_size h (pSize iter))) stream substream h of
                   None \<Rightarrow> None
                 | Some (status, stream, substream, h) \<Rightarrow>
                     (case pb_close_string_substream stream substream of
                        (False, stream, _) \<Rightarrow> Some (False, stream, h)
                      | (True, stream, _) \<Rightarrow> Some (status, stream, h))))
         else
           (let count = load_size h (pSize iter)
            in if count = PB_SIZE_MAX then dec_fail ''too many array entries'' stream h
               else (case allocate_field_at E stream (pData iter) (unat (data_size field)) (unat (count + 1)) h of
                       (False, stream, h) \<Rightarrow> Some (False, stream, h)
                     | (True, stream, h) \<Rightarrow>
                         let item = item_at (load_ptr h (pData iter)) field count;
                             h = store_size h (pSize iter) (count + 1)
                         in case initialize_pointer_field n E item iter h of
                              None \<Rightarrow> None
                            | Some h \<Rightarrow> f stream field item h)))"

section \<open>Callback fields\<close>

fun callback_loop ::
  "nat \<Rightarrow> (pb_istream_t \<Rightarrow> pb_heap \<Rightarrow> bool \<times> pb_istream_t \<times> pb_heap) \<Rightarrow> pb_istream_t \<Rightarrow> pb_heap \<Rightarrow> dec_result" where
  "callback_loop 0 f substream h = None"
| "callback_loop (Suc n) f substream h =
     (case f substream h of
        (False, substream, h) \<Rightarrow> Some (False, substream, h)
      | (True, substream, h) \<Rightarrow>
          if bytes_left substream \<noteq> 0 then callback_loop n f substream h else Some (True, substream, h))"

definition decode_callback_field ::
  "nat \<Rightarrow> pb_env \<Rightarrow> pb_istream_t \<Rightarrow> u32 \<Rightarrow> pb_field_iter_t \<Rightarrow> pb_heap \<Rightarrow> dec_result" where
  "decode_callback_field n E stream wire_type iter h =
     (let func = load_ptr h (pData iter);
          f = (\<lambda>substream h. dec_callback E func substream (cur iter) (callback_arg (pData iter)) h)
      in if pData iter = 0 \<or> func = 0 then
           (case pb_skip_field stream wire_type of (ok, stream) \<Rightarrow> Some (ok, stream, h))
         else if wire_type = PB_WT_STRING then
           (case pb_make_string_substream stream of
              (None, stream) \<Rightarrow> Some (False, stream, h)
            | (Some substream, stream) \<Rightarrow>
                (case callback_loop n f substream h of
                   None \<Rightarrow> None
                 | Some (False, _, h) \<Rightarrow> dec_fail ''callback failed'' stream h
                 | Some (True, substream, h) \<Rightarrow>
                     (case pb_close_string_substream stream substream of
                        (ok, stream, _) \<Rightarrow> Some (ok, stream, h))))
         else
           (case read_raw_value stream wire_type 10 of
              (None, stream) \<Rightarrow> Some (False, stream, h)
            | (Some buffer, stream) \<Rightarrow>
                (case f (pb_istream_from_buffer buffer (length buffer)) h of
                   (ok, _, h) \<Rightarrow> Some (ok, stream, h))))"

section \<open>One field\<close>

text \<open>The iterator is part of the result, since releasing the old member of a union moves it.\<close>

definition pb_release_union_field ::
  "nat \<Rightarrow> pb_env \<Rightarrow> pb_istream_t \<Rightarrow> pb_field_iter_t \<Rightarrow> pb_heap \<Rightarrow>
     (bool \<times> pb_istream_t \<times> pb_field_iter_t \<times> pb_heap) option" where
  "pb_release_union_field n E stream iter h =
     (let old_tag = load_size h (pSize iter); new_tag = ftag (cur iter);
          fail = (\<lambda>msg iter h. Some (False, snd (in_error msg stream :: unit option \<times> _), iter, h))
      in if old_tag = 0 \<or> old_tag = new_tag then Some (True, stream, iter, h)
         else case pb_field_iter_find iter old_tag of
                None \<Rightarrow> None
              | Some (False, iter) \<Rightarrow> fail ''invalid union tag'' iter h
              | Some (True, iter) \<Rightarrow>
                  (case pb_release_single_field n E iter h of
                     None \<Rightarrow> None
                   | Some h \<Rightarrow>
                       (case pb_field_iter_find iter new_tag of
                          None \<Rightarrow> None
                        | Some (False, iter) \<Rightarrow> fail ''iterator error'' iter h
                        | Some (True, iter) \<Rightarrow> Some (True, stream, iter, h))))"

definition decode_field ::
  "nat \<Rightarrow> pb_env \<Rightarrow> sub_decoder \<Rightarrow> pb_istream_t \<Rightarrow> u32 \<Rightarrow> pb_field_iter_t \<Rightarrow> pb_heap \<Rightarrow>
     (bool \<times> pb_istream_t \<times> pb_field_iter_t \<times> pb_heap) option" where
  "decode_field n E sub stream wire_type iter h =
     (case (if PB_HTYPE (ftype (cur iter)) = PB_HTYPE_ONEOF
            then pb_release_union_field n E stream iter h else Some (True, stream, iter, h)) of
        None \<Rightarrow> None
      | Some (False, stream, iter, h) \<Rightarrow> Some (False, stream, iter, h)
      | Some (True, stream, iter, h) \<Rightarrow>
          let at = PB_ATYPE (ftype (cur iter));
              r = (if at = PB_ATYPE_STATIC then decode_static_field n E sub stream wire_type iter h
                   else if at = PB_ATYPE_POINTER then decode_pointer_field n E sub stream wire_type iter h
                   else if at = PB_ATYPE_CALLBACK then decode_callback_field n E stream wire_type iter h
                   else dec_fail ''invalid field type'' stream h)
          in map_option (\<lambda>(ok, stream, h). (ok, stream, iter, h)) r)"

definition default_extension_decoder ::
  "nat \<Rightarrow> pb_env \<Rightarrow> sub_decoder \<Rightarrow> pb_istream_t \<Rightarrow> int \<Rightarrow> u32 \<Rightarrow> u32 \<Rightarrow> pb_heap \<Rightarrow> dec_result" where
  "default_extension_decoder n E sub stream e t wire_type h =
     (let iter = iter_from_extension E h e
      in if ftag (cur iter) \<noteq> t then Some (True, stream, h)
         else
           let h = store_bool h (extension_found e) True
           in map_option (\<lambda>(ok, stream, _, h). (ok, stream, h))
                (decode_field n E sub stream wire_type iter h))"

fun extension_loop ::
  "nat \<Rightarrow> pb_env \<Rightarrow> sub_decoder \<Rightarrow> nat \<Rightarrow> pb_istream_t \<Rightarrow> int \<Rightarrow> u32 \<Rightarrow> u32 \<Rightarrow> pb_heap \<Rightarrow> dec_result" where
  "extension_loop 0 E sub left stream e t wire_type h = None"
| "extension_loop (Suc n) E sub left stream e t wire_type h =
     (if e \<noteq> 0 \<and> left = bytes_left stream then
        case (case ext_decode (extension_type E h e) of
                Some f \<Rightarrow> Some (f stream e t wire_type h)
              | None \<Rightarrow> default_extension_decoder n E sub stream e t wire_type h) of
          None \<Rightarrow> None
        | Some (False, stream, h) \<Rightarrow> Some (False, stream, h)
        | Some (True, stream, h) \<Rightarrow> extension_loop n E sub left stream (extension_next h e) t wire_type h
      else Some (True, stream, h))"

definition decode_extension ::
  "nat \<Rightarrow> pb_env \<Rightarrow> sub_decoder \<Rightarrow> pb_istream_t \<Rightarrow> u32 \<Rightarrow> u32 \<Rightarrow> pb_field_iter_t \<Rightarrow> pb_heap \<Rightarrow> dec_result" where
  "decode_extension n E sub stream t wire_type iter h =
     extension_loop n E sub (bytes_left stream) stream (load_ptr h (pData iter)) t wire_type h"

text \<open>The loop from the position \<open>start\<close>; as in \<open>pb_field_iter_find\<close>, one turn around the
  table is enough.\<close>

fun extension_field_loop :: "nat \<Rightarrow> pb_field_iter_t \<Rightarrow> nat \<Rightarrow> (bool \<times> pb_field_iter_t) option" where
  "extension_field_loop 0 iter start = None"
| "extension_field_loop (Suc fuel) iter start =
     (if PB_LTYPE (ftype (cur iter)) = PB_LTYPE_EXTENSION then Some (True, iter)
      else let iter = snd (pb_field_iter_next iter)
           in if pos iter \<noteq> start then extension_field_loop fuel iter start else Some (False, iter))"

definition find_extension_field :: "pb_field_iter_t \<Rightarrow> (bool \<times> pb_field_iter_t) option" where
  "find_extension_field iter = extension_field_loop (length (ftable iter)) iter (pos iter)"

section \<open>A whole message\<close>

text \<open>
  The local variables of \<open>pb_decode_noinit\<close>; \<open>fixed_count_field\<close> is an index into the table.
  \<open>fixed_count_size\<close>, whose address is taken, lives in memory at the address \<open>sp\<close>.
\<close>

record dec_locals =
  dl_iter :: pb_field_iter_t
  fields_seen :: "u32 list"
  extension_range_start :: u32
  fixed_count_field :: "nat option"

definition PB_MAX_REQUIRED_FIELDS :: nat where "PB_MAX_REQUIRED_FIELDS = 64"

definition fixed_count_incomplete :: "int \<Rightarrow> dec_locals \<Rightarrow> nat option \<Rightarrow> pb_heap \<Rightarrow> bool" where
  "fixed_count_incomplete sp l f h \<longleftrightarrow>
     (case f of None \<Rightarrow> False | Some i \<Rightarrow> load_size h sp \<noteq> array_size (ftable (dl_iter l) ! i))"

text \<open>A field without a descriptor: an extension, or skipped.\<close>

definition unknown_field ::
  "nat \<Rightarrow> pb_env \<Rightarrow> sub_decoder \<Rightarrow> pb_istream_t \<Rightarrow> u32 \<Rightarrow> u32 \<Rightarrow> dec_locals \<Rightarrow> pb_heap \<Rightarrow>
     (bool \<times> pb_istream_t \<times> dec_locals \<times> pb_heap) option" where
  "unknown_field n E sub stream t wire_type l h =
     (let skip = (\<lambda>stream l h. case pb_skip_field stream wire_type of (ok, stream) \<Rightarrow> Some (ok, stream, l, h))
      in if t \<ge> extension_range_start l then
           case find_extension_field (dl_iter l) of
             None \<Rightarrow> None
           | Some (found, iter) \<Rightarrow>
               let l = l\<lparr>dl_iter := iter, extension_range_start := (if found then ftag (cur iter) else - 1)\<rparr>
               in if t \<ge> extension_range_start l then
                    (case decode_extension n E sub stream t wire_type iter h of
                       None \<Rightarrow> None
                     | Some (False, stream, h) \<Rightarrow> Some (False, stream, l, h)
                     | Some (True, stream', h) \<Rightarrow>
                         if bytes_left stream \<noteq> bytes_left stream' then Some (True, stream', l, h)
                         else skip stream' l h)
                  else skip stream l h
         else skip stream l h)"

text \<open>A field with a descriptor, which the iterator has found.\<close>

definition known_field ::
  "nat \<Rightarrow> pb_env \<Rightarrow> sub_decoder \<Rightarrow> int \<Rightarrow> pb_istream_t \<Rightarrow> u32 \<Rightarrow> dec_locals \<Rightarrow> pb_heap \<Rightarrow>
     (bool \<times> pb_istream_t \<times> dec_locals \<times> pb_heap) option" where
  "known_field n E sub sp stream wire_type l h =
     (let iter = dl_iter l; t = ftype (cur iter);
          fixed = (PB_HTYPE t = PB_HTYPE_REPEATED \<and> pSize iter = pData iter);
          other = (fixed_count_field l \<noteq> Some (pos iter))
      in if fixed \<and> other \<and> fixed_count_incomplete sp l (fixed_count_field l) h
         then Some (False, snd (in_error ''wrong size for fixed count field'' stream :: unit option \<times> _), l, h)
         else
           let h = (if fixed \<and> other then store_size h sp 0 else h);
               l = (if fixed then l\<lparr>fixed_count_field := Some (pos iter), dl_iter := iter\<lparr>pSize := sp\<rparr>\<rparr> else l);
               i = required_field_index (dl_iter l);
               l = (if PB_HTYPE t = PB_HTYPE_REQUIRED \<and> i < PB_MAX_REQUIRED_FIELDS
                    then l\<lparr>fields_seen := (fields_seen l)
                             [i div 32 := fields_seen l ! (i div 32) OR push_bit (i mod 32) 1]\<rparr>
                    else l)
           in map_option (\<lambda>(ok, stream, iter, h). (ok, stream, l\<lparr>dl_iter := iter\<rparr>, h))
                (decode_field n E sub stream wire_type (dl_iter l) h))"

fun decode_loop ::
  "nat \<Rightarrow> pb_env \<Rightarrow> sub_decoder \<Rightarrow> int \<Rightarrow> pb_istream_t \<Rightarrow> dec_locals \<Rightarrow> pb_heap \<Rightarrow>
     (bool \<times> pb_istream_t \<times> dec_locals \<times> pb_heap) option" where
  "decode_loop 0 E sub sp stream l h = None"
| "decode_loop (Suc n) E sub sp stream l h =
     (if bytes_left stream = 0 then Some (True, stream, l, h)
      else case pb_decode_tag stream of
        (None, eof, stream) \<Rightarrow> Some (eof, stream, l, h)
      | (Some (wire_type, t), _, stream) \<Rightarrow>
          (case pb_field_iter_find (dl_iter l) t of
             None \<Rightarrow> None
           | Some (found, iter) \<Rightarrow>
               let l = l\<lparr>dl_iter := iter\<rparr>
               in case (if found then known_field n E sub sp stream wire_type l h
                        else unknown_field n E sub stream t wire_type l h) of
                    None \<Rightarrow> None
                  | Some (False, stream, l, h) \<Rightarrow> Some (False, stream, l, h)
                  | Some (True, stream, l, h) \<Rightarrow> decode_loop n E sub sp stream l h))"

text \<open>The iterator walks to the end of the table to count the required fields.\<close>

fun last_required :: "nat \<Rightarrow> pb_field_iter_t \<Rightarrow> (nat \<times> u8 \<times> pb_field_iter_t) option" where
  "last_required 0 iter = None"
| "last_required (Suc fuel) iter =
     (case pb_field_iter_next iter of
        (True, iter') \<Rightarrow> last_required fuel iter'
      | (False, iter') \<Rightarrow> Some (required_field_index iter, ftype (cur iter), iter'))"

definition required_missing :: "u32 list \<Rightarrow> nat \<Rightarrow> bool" where
  "required_missing seen count \<longleftrightarrow>
     count > 0 \<and>
     ((\<exists>i < count div 32. seen ! i \<noteq> - 1) \<or>
      (count mod 32 \<noteq> 0 \<and> seen ! (count div 32) \<noteq> drop_bit (32 - count mod 32) (- 1)))"

definition check_required :: "pb_istream_t \<Rightarrow> dec_locals \<Rightarrow> pb_heap \<Rightarrow> dec_result" where
  "check_required stream l h =
     (case last_required (length (ftable (dl_iter l))) (dl_iter l) of
        None \<Rightarrow> None
      | Some (count, last_type, iter) \<Rightarrow>
          let count = (if PB_HTYPE last_type = PB_HTYPE_REQUIRED \<and> ftag (cur iter) \<noteq> 0 then count + 1 else count);
              count = (if count > PB_MAX_REQUIRED_FIELDS then PB_MAX_REQUIRED_FIELDS else count)
          in if required_missing (fields_seen l) count then dec_fail ''missing required field'' stream h
             else Some (True, stream, h))"

definition decode_message ::
  "nat \<Rightarrow> pb_env \<Rightarrow> sub_decoder \<Rightarrow> int \<Rightarrow> pb_istream_t \<Rightarrow> nat \<Rightarrow> int \<Rightarrow> pb_heap \<Rightarrow> dec_result" where
  "decode_message n E sub sp stream m dest h =
     (let l = \<lparr>dl_iter = snd (pb_field_iter_begin (tables E m) dest), fields_seen = [0, 0],
               extension_range_start = 0, fixed_count_field = None\<rparr>
      in case decode_loop n E sub sp stream l (store_size h sp 0) of
           None \<Rightarrow> None
         | Some (False, stream, l, h) \<Rightarrow> Some (False, stream, h)
         | Some (True, stream, l, h) \<Rightarrow>
             if fixed_count_incomplete sp l (fixed_count_field l) h
             then dec_fail ''wrong size for fixed count field'' stream h
             else check_required stream l h)"

definition decode_initialised ::
  "nat \<Rightarrow> pb_env \<Rightarrow> (pb_istream_t \<Rightarrow> nat \<Rightarrow> int \<Rightarrow> pb_heap \<Rightarrow> dec_result) \<Rightarrow>
     pb_istream_t \<Rightarrow> nat \<Rightarrow> int \<Rightarrow> pb_heap \<Rightarrow> dec_result" where
  "decode_initialised n E noinit stream m dest h =
     (case pb_message_set_to_defaults n E m dest h of
        None \<Rightarrow> None
      | Some h \<Rightarrow>
          (case noinit stream m dest h of
             None \<Rightarrow> None
           | Some (True, stream, h) \<Rightarrow> Some (True, stream, h)
           | Some (False, stream, h) \<Rightarrow> map_option (\<lambda>h. (False, stream, h)) (pb_release n E m dest h)))"

text \<open>The stack grows down: the frame of a nested call is below that of its caller.\<close>

fun pb_decode_noinit ::
  "nat \<Rightarrow> pb_env \<Rightarrow> int \<Rightarrow> pb_istream_t \<Rightarrow> nat \<Rightarrow> int \<Rightarrow> pb_heap \<Rightarrow> dec_result" where
  "pb_decode_noinit 0 E sp stream m dest h = None"
| "pb_decode_noinit (Suc n) E sp stream m dest h =
     decode_message n E
       (\<lambda>initialise.
          if initialise then decode_initialised n E (pb_decode_noinit n E (sp - 4))
          else pb_decode_noinit n E (sp - 4))
       sp stream m dest h"

definition pb_decode :: "nat \<Rightarrow> pb_env \<Rightarrow> int \<Rightarrow> pb_istream_t \<Rightarrow> nat \<Rightarrow> int \<Rightarrow> pb_heap \<Rightarrow> dec_result" where
  "pb_decode n E sp = decode_initialised n E (pb_decode_noinit n E sp)"

definition decode_delimited ::
  "(pb_istream_t \<Rightarrow> nat \<Rightarrow> int \<Rightarrow> pb_heap \<Rightarrow> dec_result) \<Rightarrow> pb_istream_t \<Rightarrow> nat \<Rightarrow> int \<Rightarrow> pb_heap \<Rightarrow> dec_result" where
  "decode_delimited dec stream m dest h =
     (case pb_make_string_substream stream of
        (None, stream) \<Rightarrow> Some (False, stream, h)
      | (Some substream, stream) \<Rightarrow>
          (case dec substream m dest h of
             None \<Rightarrow> None
           | Some (status, substream, h) \<Rightarrow>
               (case pb_close_string_substream stream substream of
                  (False, stream, _) \<Rightarrow> Some (False, stream, h)
                | (True, stream, _) \<Rightarrow> Some (status, stream, h))))"

definition pb_decode_delimited_noinit ::
  "nat \<Rightarrow> pb_env \<Rightarrow> int \<Rightarrow> pb_istream_t \<Rightarrow> nat \<Rightarrow> int \<Rightarrow> pb_heap \<Rightarrow> dec_result" where
  "pb_decode_delimited_noinit n E sp = decode_delimited (pb_decode_noinit n E sp)"

definition pb_decode_delimited ::
  "nat \<Rightarrow> pb_env \<Rightarrow> int \<Rightarrow> pb_istream_t \<Rightarrow> nat \<Rightarrow> int \<Rightarrow> pb_heap \<Rightarrow> dec_result" where
  "pb_decode_delimited n E sp = decode_delimited (pb_decode n E sp)"

definition pb_decode_nullterminated ::
  "nat \<Rightarrow> pb_env \<Rightarrow> int \<Rightarrow> pb_istream_t \<Rightarrow> nat \<Rightarrow> int \<Rightarrow> pb_heap \<Rightarrow> dec_result" where
  "pb_decode_nullterminated n E sp = pb_decode n E sp"

end
