(* ===== verification/Nanopb_Static.thy ===== *)
theory Nanopb_Static
  imports Nanopb_Decode Nanopb_Input Nanopb_Iter
begin

text \<open>
  Decoding into structures without pointers and callbacks: whatever the input, the decoder
  returns, and it writes only to the structure and to its stack frames. The descriptor tables
  are those of a set of messages whose fields lie inside their structures; nested structures
  have a smaller rank.
\<close>

section \<open>Memory outside a region\<close>

definition same_outside :: "int set \<Rightarrow> pb_heap \<Rightarrow> pb_heap \<Rightarrow> bool" where
  "same_outside A h h' \<longleftrightarrow> live h' = live h \<and> (\<forall>x. x \<notin> A \<longrightarrow> mem h' x = mem h x)"

named_theorems region_rules

lemma same_refl [simp, region_rules]: "same_outside A h h"
  by (simp add: same_outside_def)

lemma same_trans: "same_outside A h h' \<Longrightarrow> same_outside A h' h'' \<Longrightarrow> same_outside A h h''"
  by (simp add: same_outside_def)

lemma same_mono: "same_outside A h h' \<Longrightarrow> A \<subseteq> B \<Longrightarrow> same_outside B h h'"
  by (auto simp: same_outside_def)

lemma same_store [region_rules]:
  "same_outside A h h' \<Longrightarrow> {a..<a + int (length d)} \<subseteq> A \<Longrightarrow> same_outside A h (store h' a d)"
  by (auto simp: same_outside_def store_def subset_iff)

lemma same_store_size [region_rules]:
  "same_outside A h h' \<Longrightarrow> {a..<a + 4} \<subseteq> A \<Longrightarrow> same_outside A h (store_size h' a n)"
  by (simp add: store_size_def same_store)

lemma same_store_bool [region_rules]:
  "same_outside A h h' \<Longrightarrow> a \<in> A \<Longrightarrow> same_outside A h (store_bool h' a b)"
  by (auto simp: same_outside_def store_bool_def store_def)

lemma same_stored [region_rules]:
  "same_outside A h h' \<Longrightarrow> (\<And>d. r = Some d \<Longrightarrow> {a..<a + int (length d)} \<subseteq> A) \<Longrightarrow> same_outside A h (store_opt h' a r)"
  by (cases r) (simp_all add: store_opt_def same_store)

section \<open>The iterator and the address of the structure\<close>

definition moved :: "int \<Rightarrow> pb_field_iter_t \<Rightarrow> pb_field_iter_t" where
  "moved d iter = iter\<lparr>dest_struct := dest_struct iter + d, pData := pData iter + d, pSize := pSize iter + d\<rparr>"

lemma cur_moved [simp]: "cur (moved d iter) = cur iter"
  by (simp add: cur_def moved_def)

lemma addr_moved: "data_addr fs d i = data_addr fs 0 i + d" "size_addr fs d i = size_addr fs 0 i + d"
  by (simp_all add: data_addr_def size_addr_def)

lemma field_at_moved: "field_at fs d i = moved d (field_at fs 0 i)"
  using addr_moved [of fs d i] by (simp add: field_at_def moved_def)

lemma pData_field_at: "pData (field_at fs d i) = pData (field_at fs 0 i) + d"
  by (subst field_at_moved) (simp add: moved_def)

lemma pSize_field_at: "pSize (field_at fs d i) = pSize (field_at fs 0 i) + d"
  by (subst field_at_moved) (simp add: moved_def)

section \<open>Descriptors of static messages\<close>

text \<open>The bytes of a field: an array has \<open>array_size\<close> entries.\<close>

definition extent :: "pb_field_t \<Rightarrow> int" where
  "extent f = (if PB_HTYPE (ftype f) = PB_HTYPE_REPEATED
     then uint (data_size f) * uint (array_size f) else uint (data_size f))"

definition value_ok :: "nat set \<Rightarrow> (nat \<Rightarrow> int) \<Rightarrow> (nat \<Rightarrow> nat) \<Rightarrow> nat \<Rightarrow> pb_field_t \<Rightarrow> bool" where
  "value_ok M S rk m f \<longleftrightarrow>
     (let lt = PB_LTYPE (ftype f)
      in lt = PB_LTYPE_BOOL \<and> 1 \<le> data_size f \<or>
         lt \<in> {PB_LTYPE_VARINT, PB_LTYPE_UVARINT, PB_LTYPE_SVARINT} \<or>
         lt = PB_LTYPE_FIXED32 \<and> 4 \<le> data_size f \<or> lt = PB_LTYPE_FIXED64 \<and> 8 \<le> data_size f \<or>
         lt \<in> {PB_LTYPE_BYTES, PB_LTYPE_STRING, PB_LTYPE_FIXED_LENGTH_BYTES} \<or>
         lt = PB_LTYPE_SUBMESSAGE \<and>
           (\<exists>m' \<in> M. fptr f = Ptr_fields m' \<and> rk m' < rk m \<and> S m' \<le> uint (data_size f)))"

text \<open>The cell at \<open>pSize\<close>: the flag of an optional field, the count of an array, or the tag of a
  union. An array of fixed count has none: its \<open>size_offset\<close> is 0 and \<open>pSize\<close> is its data.\<close>

definition cell_ok :: "int \<Rightarrow> pb_field_t \<Rightarrow> int \<Rightarrow> int \<Rightarrow> bool" where
  "cell_ok k f d s \<longleftrightarrow>
     (let ht = PB_HTYPE (ftype f)
      in (ht = PB_HTYPE_OPTIONAL \<and> s \<noteq> d \<longrightarrow> 0 \<le> s \<and> s < k) \<and>
         (ht = PB_HTYPE_REPEATED \<and> s \<noteq> d \<or> ht = PB_HTYPE_ONEOF \<longrightarrow> 0 \<le> s \<and> s + 4 \<le> k))"

definition field_ok ::
  "nat set \<Rightarrow> (nat \<Rightarrow> int) \<Rightarrow> (nat \<Rightarrow> nat) \<Rightarrow> nat \<Rightarrow> pb_field_iter_t \<Rightarrow> bool" where
  "field_ok M S rk m iter \<longleftrightarrow>
     (let f = cur iter
      in PB_ATYPE (ftype f) = PB_ATYPE_STATIC \<and> value_ok M S rk m f \<and>
         0 \<le> pData iter \<and> pData iter + extent f \<le> S m \<and> extent f < 2 ^ 32 \<and>
         cell_ok (S m) f (pData iter) (pSize iter))"

text \<open>The messages \<open>M\<close> have static fields that lie in their structures, with their cells.\<close>

definition static_env :: "pb_env \<Rightarrow> nat set \<Rightarrow> (nat \<Rightarrow> int) \<Rightarrow> (nat \<Rightarrow> nat) \<Rightarrow> nat \<Rightarrow> bool" where
  "static_env E M S rk L \<longleftrightarrow>
     (\<forall>m \<in> M. \<exists>n. 0 < n \<and> n \<le> L \<and> table (tables E m) n \<and>
        (\<forall>i < n. field_ok M S rk m (field_at (tables E m) 0 i)))"

text \<open>The code clears four bytes at \<open>pSize\<close> for an array of fixed count too, which are the first of
  its data. They are in the structure unless the array is shorter and at the end of it.\<close>

definition fixed_counts_fit :: "pb_env \<Rightarrow> nat set \<Rightarrow> (nat \<Rightarrow> int) \<Rightarrow> bool" where
  "fixed_counts_fit E M S \<longleftrightarrow>
     (\<forall>m \<in> M. \<forall>i < length (tables E m) - 1.
        PB_HTYPE (ftype (tables E m ! i)) = PB_HTYPE_REPEATED \<and> size_offset (tables E m ! i) = 0 \<longrightarrow>
        data_addr (tables E m) 0 i + 4 \<le> S m)"

definition clear_ok :: "int \<Rightarrow> pb_field_t \<Rightarrow> int \<Rightarrow> int \<Rightarrow> bool" where
  "clear_ok k f d s \<longleftrightarrow>
     (let ht = PB_HTYPE (ftype f)
      in (ht = PB_HTYPE_OPTIONAL \<and> s \<noteq> d \<longrightarrow> 0 \<le> s \<and> s < k) \<and>
         (ht = PB_HTYPE_REPEATED \<or> ht = PB_HTYPE_ONEOF \<longrightarrow> 0 \<le> s \<and> s + 4 \<le> k))"

definition field_fine ::
  "nat set \<Rightarrow> (nat \<Rightarrow> int) \<Rightarrow> (nat \<Rightarrow> nat) \<Rightarrow> nat \<Rightarrow> pb_field_iter_t \<Rightarrow> bool" where
  "field_fine M S rk m iter \<longleftrightarrow>
     (let f = cur iter
      in PB_ATYPE (ftype f) = PB_ATYPE_STATIC \<and> value_ok M S rk m f \<and>
         0 \<le> pData iter \<and> pData iter + extent f \<le> S m \<and> extent f < 2 ^ 32 \<and>
         clear_ok (S m) f (pData iter) (pSize iter))"

definition static_fine :: "pb_env \<Rightarrow> nat set \<Rightarrow> (nat \<Rightarrow> int) \<Rightarrow> (nat \<Rightarrow> nat) \<Rightarrow> nat \<Rightarrow> bool" where
  "static_fine E M S rk L \<longleftrightarrow>
     (\<forall>m \<in> M. \<exists>n. 0 < n \<and> n \<le> L \<and> table (tables E m) n \<and>
        (\<forall>i < n. field_fine M S rk m (field_at (tables E m) 0 i)))"

lemma static_env_fine:
  assumes "static_env E M S rk L" and "fixed_counts_fit E M S"
  shows "static_fine E M S rk L"
  unfolding static_fine_def
proof
  fix m assume m: "m \<in> M"
  let ?fs = "tables E m"
  obtain n where n: "0 < n" "n \<le> L" "table ?fs n" "\<And>i. i < n \<Longrightarrow> field_ok M S rk m (field_at ?fs 0 i)"
    using assms(1) m unfolding static_env_def by blast
  have "field_fine M S rk m (field_at ?fs 0 i)" if i: "i < n" for i
  proof -
    have cur: "cur (field_at ?fs 0 i) = ?fs ! i" by (simp add: cur_def)
    have "data_addr ?fs 0 i + 4 \<le> S m" if r: "PB_HTYPE (ftype (?fs ! i)) = PB_HTYPE_REPEATED"
      and same: "size_addr ?fs 0 i = data_addr ?fs 0 i"
    proof -
      have "\<not> same_union ?fs i" using r by (simp add: same_union_def htype_values)
      then have "first_member ?fs i = i" by (cases i) simp_all
      with same have "sint (size_offset (?fs ! i)) = 0" by (simp add: size_addr_def)
      then have "size_offset (?fs ! i) = 0" by (metis signed_word_eqI sint_0)
      with assms(2) m r n(3) i show ?thesis by (simp add: fixed_counts_fit_def table_def)
    qed
    with n(4) [OF i] show ?thesis
      by (auto simp: field_ok_def field_fine_def cell_ok_def clear_ok_def cur field_at_addr Let_def)
  qed
  with n show "\<exists>n. 0 < n \<and> n \<le> L \<and> table ?fs n \<and> (\<forall>i < n. field_fine M S rk m (field_at ?fs 0 i))" by blast
qed

section \<open>Decoding one value\<close>

text \<open>The contract of a step: it returns, stays in its input, and writes only to \<open>A\<close>.\<close>

definition fine :: "int set \<Rightarrow> pb_istream_t \<Rightarrow> pb_heap \<Rightarrow> dec_result \<Rightarrow> bool" where
  "fine A s h r \<longleftrightarrow> (\<exists>ok s' h'. r = Some (ok, s', h') \<and> within s s' \<and> same_outside A h h')"

lemma fine_Some [simp]: "fine A s h (Some (ok, s', h')) \<longleftrightarrow> within s s' \<and> same_outside A h h'"
  by (simp add: fine_def)

lemma fine_mono: "fine A s h r \<Longrightarrow> A \<subseteq> B \<Longrightarrow> fine B s h r"
  unfolding fine_def by (elim exE conjE) (intro exI conjI, assumption+, rule same_mono)

lemma fine_after: "fine A s1 h1 r \<Longrightarrow> within s s1 \<Longrightarrow> same_outside A h h1 \<Longrightarrow> fine A s h r"
  unfolding fine_def
  by (elim exE conjE) (intro exI conjI, assumption, rule within_trans, assumption+, rule same_trans)

lemma fine_fail: "within s s1 \<Longrightarrow> same_outside A h h1 \<Longrightarrow> fine A s h (dec_fail msg s1 h1)"
  unfolding dec_fail_def using within_error [of s1 msg] within_trans by simp

lemma within_callback: "within s s' \<Longrightarrow> callback s' = callback s"
  by (simp add: within_def)

lemma within_bytes_left: "within s s' \<Longrightarrow> callback s = Buf_read \<Longrightarrow> bytes_left s' \<le> bytes_left s"
  by (auto simp: within_def)

lemma read_length: "callback s = Buf_read \<Longrightarrow> pb_read s b n = (Some d, s') \<Longrightarrow> length d \<le> n"
  by (auto simp: pb_read_def pb_read_checked_def run_callback_def buf_read_def in_error_def split: if_splits)

lemma int_data_length:
  "pb_dec_varint s f = (ok, Some d, s') \<Longrightarrow> int (length d) = uint (data_size f)"
  "pb_dec_uvarint s f = (ok, Some d, s') \<Longrightarrow> int (length d) = uint (data_size f)"
  "pb_dec_svarint s f = (ok, Some d, s') \<Longrightarrow> int (length d) = uint (data_size f)"
  by (auto simp: pb_dec_varint_def pb_dec_uvarint_def pb_dec_svarint_def Let_def in_error_def
      split: prod.splits option.splits if_splits)

lemma int_le_uint: "int n \<le> uint w \<longleftrightarrow> n \<le> unat w"
proof -
  have "int (unat w) = uint w" by simp
  then show ?thesis by (metis of_nat_le_iff)
qed

lemma fixed_data_length:
  assumes "callback s = Buf_read" and "pb_dec_fixed_length_bytes s f = (Some d, s')"
  shows "int (length d) \<le> uint (data_size f)"
proof -
  obtain r s1 where v: "pb_decode_varint32 s = (r, s1)" by force
  have "callback s1 = Buf_read" using within_callback [OF within_varint32 [OF v]] assms(1) by simp
  note l = read_length [OF this, of True "unat (data_size f)" d s']
  show ?thesis
    using assms(2) l v by (auto simp: int_le_uint pb_dec_fixed_length_bytes_def dec_error_def in_error_def
      split: option.splits if_splits)
qed

text \<open>A decoder of submessages of rank below \<open>r\<close>, on inputs of at most \<open>k\<close> bytes; \<open>B\<close> is what it
  writes besides the structure.\<close>

definition sub_fine ::
  "nat set \<Rightarrow> (nat \<Rightarrow> int) \<Rightarrow> (nat \<Rightarrow> nat) \<Rightarrow> nat \<Rightarrow> int set \<Rightarrow> nat \<Rightarrow> sub_decoder \<Rightarrow> bool" where
  "sub_fine M S rk r B k sub \<longleftrightarrow>
     (\<forall>i s m dest h. m \<in> M \<and> rk m < r \<and> callback s = Buf_read \<and> bytes_left s \<le> k \<longrightarrow>
        fine ({dest..<dest + S m} \<union> B) s h (sub i s m dest h))"

lemma bytes_at_fine:
  assumes "PB_ATYPE (ftype f) = PB_ATYPE_STATIC" and "callback s = Buf_read"
  shows "fine ({dest..<dest + uint (data_size f)} \<union> B) s h (pb_dec_bytes_at E s f dest h)"
proof -
  let ?A = "{dest..<dest + uint (data_size f)} \<union> B"
  obtain q s1 where v: "pb_decode_varint32 s = (q, s1)" by force
  note w = within_varint32 [OF v]
  show ?thesis
  proof (cases q)
    case None
    then show ?thesis using w by (simp add: pb_dec_bytes_at_def v)
  next
    case (Some n)
    obtain d s2 where r: "pb_read s1 True (unat n) = (d, s2)" by force
    have bl: "int (length b) \<le> uint n" if "d = Some b" for b
      using read_length [of s1 True "unat n" b s2] r that within_callback [OF w] assms(2) by (simp add: int_le_uint)
    have pos: "0 \<le> uint n" by simp
    have a: "PB_BYTES_ARRAY_T_ALLOCSIZE (unat n) = unat n + 4"
      using unat_less_pow [of n] by (simp add: PB_BYTES_ARRAY_T_ALLOCSIZE_def size_add_exact)
    have "same_outside ?A h (store_opt (store_size h dest n) (bytes_of_array dest) d)"
      if "unat n + 4 \<le> unat (data_size f)"
    proof -
      have "int (unat n + 4) \<le> uint (data_size f)" using that by (simp only: int_le_uint)
      then have n4: "uint n + 4 \<le> uint (data_size f)" by simp
      with pos have "4 \<le> uint (data_size f)" by linarith
      with n4 show ?thesis unfolding bytes_of_array_def by (intro region_rules) (auto dest!: bl)
    qed
    then show ?thesis
      using Some w within_read [OF r] within_trans [of s s1 s2] assms
      by (auto simp: pb_dec_bytes_at_def v r a Let_def fine_fail int_le_uint not_less PB_ATYPE_STATIC_def
          PB_ATYPE_POINTER_def)
  qed
qed

lemma string_at_fine:
  assumes "PB_ATYPE (ftype f) = PB_ATYPE_STATIC" and "callback s = Buf_read"
  shows "fine ({dest..<dest + uint (data_size f)} \<union> B) s h (pb_dec_string_at E s f dest h)"
proof -
  let ?A = "{dest..<dest + uint (data_size f)} \<union> B"
  obtain q s1 where v: "pb_decode_varint32 s = (q, s1)" by force
  note w = within_varint32 [OF v]
  show ?thesis
  proof (cases q)
    case None
    then show ?thesis using w by (simp add: pb_dec_string_at_def v)
  next
    case (Some n)
    obtain d s2 where r: "pb_read s1 True (unat n) = (d, s2)" by force
    have bl: "int (length b) \<le> uint n" if "d = Some b" for b
      using read_length [of s1 True "unat n" b s2] r that within_callback [OF w] assms(2) by (simp add: int_le_uint)
    have pos: "0 \<le> uint n" by simp
    have a: "unat (n + 1) = unat n + 1" if "\<not> unat (n + 1) < unat n"
    proof -
      have "unat (n + 1) = (unat n + 1) mod 2 ^ 32" by (simp add: unat_word_ariths)
      with that unat_less_pow [of n] show ?thesis by (cases "unat n + 1 = 2 ^ 32") simp_all
    qed
    have "same_outside ?A h (store (store_opt h dest d) (dest + uint n) [0])"
      if "Suc (unat n) \<le> unat (data_size f)"
    proof -
      have "int (unat n + 1) \<le> uint (data_size f)" using that by (simp only: int_le_uint Suc_eq_plus1)
      then have "uint n + 1 \<le> uint (data_size f)" by simp
      then show ?thesis using pos by (intro region_rules) (auto dest!: bl)
    qed
    then show ?thesis
      using Some w within_read [OF r] within_trans [of s s1 s2] assms a
      by (auto simp: pb_dec_string_at_def v r Let_def fine_fail int_le_uint not_less PB_ATYPE_STATIC_def
          PB_ATYPE_POINTER_def)
  qed
qed

lemma submessage_fine:
  assumes "sub_fine M S rk r B k sub" and "m' \<in> M" and "rk m' < r" and "fptr f = Ptr_fields m'"
    and "S m' \<le> uint (data_size f)" and "callback s = Buf_read" and "bytes_left s \<le> k"
  shows "fine ({dest..<dest + uint (data_size f)} \<union> B) s h (pb_dec_submessage sub s f dest h)"
proof -
  let ?A = "{dest..<dest + uint (data_size f)} \<union> B"
  obtain q s1 where mk: "pb_make_string_substream s = (q, s1)" by force
  note w = within_make [OF mk]
  show ?thesis
  proof (cases q)
    case None
    then show ?thesis using w by (simp add: pb_dec_submessage_def mk)
  next
    case (Some ss)
    from make_substream [OF mk [unfolded Some]] obtain t where t: "within s t" "ss = t\<lparr>bytes_left := bytes_left ss\<rparr>"
      "bytes_left t = bytes_left ss + bytes_left s1" by blast
    have cb: "callback ss = Buf_read" using t(1,2) within_callback assms(6) by (metis pb_istream_t.select_convs(1) pb_istream_t.surjective pb_istream_t.update_convs(3))
    have bl: "bytes_left ss \<le> k" using within_bytes_left [OF t(1) assms(6)] t(3) assms(7) by simp
    obtain ok ss' h' where sub: "sub (PB_HTYPE (ftype f) = PB_HTYPE_REPEATED) ss m' dest h = Some (ok, ss', h')"
      and ws: "within ss ss'" and o: "same_outside ({dest..<dest + S m'} \<union> B) h h'"
      using assms(1-3) cb bl unfolding sub_fine_def fine_def by blast
    obtain c s2 s3 where cl: "pb_close_string_substream s1 ss' = (c, s2, s3)" by (metis prod_cases3)
    have "same_outside ?A h h'" by (rule same_mono [OF o]) (use assms(5) in auto)
    with within_close(1) [OF mk [unfolded Some] ws cl] show ?thesis
      using assms(4) sub by (simp add: pb_dec_submessage_def mk Some submsg_fields_def cl split: bool.splits)
  qed
qed

lemma run_decoder_cases:
  "PB_LTYPE (ftype f) = PB_LTYPE_BOOL \<Longrightarrow> run_decoder E sub s f dest h =
     (case pb_dec_bool s of (None, s) \<Rightarrow> Some (False, s, h) | (Some b, s) \<Rightarrow> Some (True, s, store_bool h dest b))"
  "PB_LTYPE (ftype f) = PB_LTYPE_VARINT \<Longrightarrow> run_decoder E sub s f dest h =
     (case pb_dec_varint s f of (ok, d, s) \<Rightarrow> Some (ok, s, store_opt h dest d))"
  "PB_LTYPE (ftype f) = PB_LTYPE_UVARINT \<Longrightarrow> run_decoder E sub s f dest h =
     (case pb_dec_uvarint s f of (ok, d, s) \<Rightarrow> Some (ok, s, store_opt h dest d))"
  "PB_LTYPE (ftype f) = PB_LTYPE_SVARINT \<Longrightarrow> run_decoder E sub s f dest h =
     (case pb_dec_svarint s f of (ok, d, s) \<Rightarrow> Some (ok, s, store_opt h dest d))"
  "PB_LTYPE (ftype f) = PB_LTYPE_FIXED32 \<Longrightarrow> run_decoder E sub s f dest h =
     (case pb_dec_fixed32 s f of (None, s) \<Rightarrow> Some (False, s, h)
      | (Some v, s) \<Rightarrow> Some (True, s, store h dest (le_bytes 4 (unat v))))"
  "PB_LTYPE (ftype f) = PB_LTYPE_FIXED64 \<Longrightarrow> run_decoder E sub s f dest h =
     (case pb_dec_fixed64 s f of (None, s) \<Rightarrow> Some (False, s, h)
      | (Some v, s) \<Rightarrow> Some (True, s, store h dest (le_bytes 8 (unat v))))"
  "PB_LTYPE (ftype f) = PB_LTYPE_BYTES \<Longrightarrow> run_decoder E sub s f dest h = pb_dec_bytes_at E s f dest h"
  "PB_LTYPE (ftype f) = PB_LTYPE_STRING \<Longrightarrow> run_decoder E sub s f dest h = pb_dec_string_at E s f dest h"
  "PB_LTYPE (ftype f) = PB_LTYPE_SUBMESSAGE \<Longrightarrow> run_decoder E sub s f dest h = pb_dec_submessage sub s f dest h"
  "PB_LTYPE (ftype f) = PB_LTYPE_FIXED_LENGTH_BYTES \<Longrightarrow> run_decoder E sub s f dest h =
     (case pb_dec_fixed_length_bytes s f of (d, s) \<Rightarrow> Some (d \<noteq> None, s, store_opt h dest d))"
  by (simp_all add: run_decoder_def PB_DECODERS_def ltype_values)

lemma word_le_int: "n \<le> unat w \<Longrightarrow> int n \<le> uint w"
  by (simp only: int_le_uint)

lemma run_decoder_fine:
  assumes static: "PB_ATYPE (ftype f) = PB_ATYPE_STATIC" and v: "value_ok M S rk m f"
    and sub: "sub_fine M S rk (rk m) B k sub" and cb: "callback s = Buf_read" and k: "bytes_left s \<le> k"
  shows "fine ({dest..<dest + uint (data_size f)} \<union> B) s h (run_decoder E sub s f dest h)"
    (is "fine ?A s h _")
proof -
  have num: "fine ?A s h (case r of (ok, d, s) \<Rightarrow> Some (ok, s, store_opt h dest d))"
    if "\<And>ok d s'. r = (ok, d, s') \<Longrightarrow> within s s'"
      and "\<And>ok d s'. r = (ok, Some d, s') \<Longrightarrow> int (length d) = uint (data_size f)"
    for r :: "bool \<times> bytes option \<times> pb_istream_t"
  proof -
    obtain ok d s' where r: "r = (ok, d, s')" by (cases r)
    have "same_outside ?A h (store_opt h dest d)"
      using that(2) [of ok _ s'] r by (intro region_rules) auto
    with r that(1) [OF r] show ?thesis by simp
  qed
  from v consider (b) "PB_LTYPE (ftype f) = PB_LTYPE_BOOL" "1 \<le> data_size f"
    | (v1) "PB_LTYPE (ftype f) = PB_LTYPE_VARINT" | (v2) "PB_LTYPE (ftype f) = PB_LTYPE_UVARINT"
    | (v3) "PB_LTYPE (ftype f) = PB_LTYPE_SVARINT"
    | (f4) "PB_LTYPE (ftype f) = PB_LTYPE_FIXED32" "4 \<le> data_size f"
    | (f8) "PB_LTYPE (ftype f) = PB_LTYPE_FIXED64" "8 \<le> data_size f"
    | (ba) "PB_LTYPE (ftype f) = PB_LTYPE_BYTES" | (st) "PB_LTYPE (ftype f) = PB_LTYPE_STRING"
    | (fl) "PB_LTYPE (ftype f) = PB_LTYPE_FIXED_LENGTH_BYTES"
    | (sm) m' where "PB_LTYPE (ftype f) = PB_LTYPE_SUBMESSAGE" "m' \<in> M" "fptr f = Ptr_fields m'"
        "rk m' < rk m" "S m' \<le> uint (data_size f)"
    unfolding value_ok_def Let_def by blast
  then show ?thesis
  proof cases
    case b
    have "1 \<le> uint (data_size f)" using word_le_int [of 1 "data_size f"] b(2) by (simp add: word_le_nat_alt)
    then have "same_outside ?A h (store_bool h dest x)" for x by (intro region_rules) auto
    with b(1) show ?thesis
      using within_bool [of s] by (auto simp: run_decoder_cases pb_decode_bool_def split: prod.splits option.splits)
  next
    case v1
    then show ?thesis
      unfolding run_decoder_cases(2) [OF v1] by (intro num) (auto dest: within_dec_int int_data_length)
  next
    case v2
    then show ?thesis
      unfolding run_decoder_cases(3) [OF v2] by (intro num) (auto dest: within_dec_int int_data_length)
  next
    case v3
    then show ?thesis
      unfolding run_decoder_cases(4) [OF v3] by (intro num) (auto dest: within_dec_int int_data_length)
  next
    case f4
    have "4 \<le> uint (data_size f)" using word_le_int [of 4 "data_size f"] f4(2) by (simp add: word_le_nat_alt)
    then have "same_outside ?A h (store h dest (le_bytes 4 x))" for x by (intro region_rules) auto
    with f4(1) show ?thesis
      using within_fixed(1) [of s] by (auto simp: run_decoder_cases pb_dec_fixed32_def split: prod.splits option.splits)
  next
    case f8
    have "8 \<le> uint (data_size f)" using word_le_int [of 8 "data_size f"] f8(2) by (simp add: word_le_nat_alt)
    then have "same_outside ?A h (store h dest (le_bytes 8 x))" for x by (intro region_rules) auto
    with f8(1) show ?thesis
      using within_fixed(2) [of s] by (auto simp: run_decoder_cases pb_dec_fixed64_def split: prod.splits option.splits)
  next
    case ba
    then show ?thesis using bytes_at_fine [OF static cb] by (simp add: run_decoder_cases)
  next
    case st
    then show ?thesis using string_at_fine [OF static cb] by (simp add: run_decoder_cases)
  next
    case fl
    obtain d s' where r: "pb_dec_fixed_length_bytes s f = (d, s')" by force
    have "same_outside ?A h (store_opt h dest d)"
      using fixed_data_length [OF cb, of f _ s'] r by (intro region_rules) fastforce+
    with fl show ?thesis using within_dec_fixed_length_bytes [OF r] by (simp add: run_decoder_cases r)
  next
    case sm
    then show ?thesis using submessage_fine [OF sub sm(2,4,3,5) cb k] by (simp add: run_decoder_cases)
  qed
qed

section \<open>Walks over a table\<close>

lemma for_fields_same:
  assumes "table fs n" and "i < n" and "n - i \<le> k"
    and "\<And>j h. j < n \<Longrightarrow> \<exists>h'. f (field_at fs d j) h = Some h' \<and> same_outside A h h'"
  shows "\<exists>h'. for_fields k f (field_at fs d i) h = Some h' \<and> same_outside A h h'"
  using assms(2,3)
proof (induction k arbitrary: i h)
  case (Suc k)
  obtain h1 where h1: "f (field_at fs d i) h = Some h1" "same_outside A h h1" using assms(4) Suc.prems(1) by blast
  show ?case
  proof (cases "Suc i < n")
    case True
    moreover have "n - Suc i \<le> k" using Suc.prems(2) by simp
    ultimately obtain h' where
      "for_fields k f (field_at fs d (Suc i)) h1 = Some h'" "same_outside A h1 h'" using Suc.IH [of "Suc i" h1] by blast
    with h1 True same_trans [OF h1(2)] show ?thesis
      by (simp add: next_field_at_eq [OF assms(1) Suc.prems(1)])
  next
    case False
    then show ?thesis using h1 by (simp add: next_field_at_eq [OF assms(1) Suc.prems(1)])
  qed
qed simp

section \<open>Default values and release\<close>

lemma static_fineD:
  assumes "static_fine E M S rk L" and "m \<in> M"
  obtains n where "0 < n" and "n \<le> L" and "table (tables E m) n"
    and "\<And>i d. i < n \<Longrightarrow> field_fine M S rk m (field_at (tables E m) 0 i)"
  using assms unfolding static_fine_def by blast

text \<open>What \<open>field_fine\<close> says of the field of a structure at \<open>d\<close>.\<close>

lemma field_fine_at:
  assumes "field_fine M S rk m (field_at fs 0 i)" and "iter = field_at fs d i"
  shows "PB_ATYPE (ftype (cur iter)) = PB_ATYPE_STATIC" and "value_ok M S rk m (cur iter)"
    and "d \<le> pData iter" and "pData iter + extent (cur iter) \<le> d + S m" and "extent (cur iter) < 2 ^ 32"
    and "clear_ok (S m) (cur iter) (pData iter - d) (pSize iter - d)"
proof -
  have iter: "iter = moved d (field_at fs 0 i)" using assms(2) field_at_moved [of fs d i] by simp
  have c: "cur iter = cur (field_at fs 0 i)" unfolding iter by simp
  have p: "pData iter = pData (field_at fs 0 i) + d" "pSize iter = pSize (field_at fs 0 i) + d"
    unfolding iter by (simp_all add: moved_def)
  show "PB_ATYPE (ftype (cur iter)) = PB_ATYPE_STATIC" "value_ok M S rk m (cur iter)"
    "d \<le> pData iter" "pData iter + extent (cur iter) \<le> d + S m" "extent (cur iter) < 2 ^ 32"
    "clear_ok (S m) (cur iter) (pData iter - d) (pSize iter - d)"
    using assms(1) unfolding field_fine_def Let_def c p by simp_all
qed

lemma extent_single: "PB_HTYPE (ftype f) \<noteq> PB_HTYPE_REPEATED \<Longrightarrow> extent f = uint (data_size f)"
  by (simp add: extent_def)

lemma extent_nonneg: "0 \<le> extent f"
  by (simp add: extent_def)

text \<open>The bytes of a structure of message \<open>m\<close> at \<open>d\<close>.\<close>

definition bytes_of :: "(nat \<Rightarrow> int) \<Rightarrow> nat \<Rightarrow> int \<Rightarrow> int set" where
  "bytes_of S m d = {d..<d + S m}"

lemma submsg_value_ok:
  assumes "value_ok M S rk m f" and "PB_LTYPE (ftype f) = PB_LTYPE_SUBMESSAGE"
  obtains m' where "submsg_fields f = Some m'" and "m' \<in> M" and "rk m' < rk m" and "S m' \<le> uint (data_size f)"
  using assms by (auto simp: value_ok_def submsg_fields_def Let_def ltype_values)

lemma static_not_extension:
  "value_ok M S rk m f \<Longrightarrow> PB_LTYPE (ftype f) \<noteq> PB_LTYPE_EXTENSION"
  by (auto simp: value_ok_def Let_def ltype_values)


lemma static_field_default:
  assumes "field_fine M S rk m (field_at fs 0 i)" and "iter = field_at fs d i"
    and msg: "\<And>m' dest h. m' \<in> M \<Longrightarrow> rk m' < rk m \<Longrightarrow>
      \<exists>h'. msg m' dest h = Some h' \<and> same_outside (bytes_of S m' dest) h h'"
  shows "\<exists>h'. field_to_default msg exts iter h = Some h' \<and> same_outside (bytes_of S m d) h h'"
proof -
  note ok = field_fine_at [OF assms(1,2)]
  let ?f = "cur iter"
  have flag: "same_outside (bytes_of S m d) h (store_bool h (pSize iter) x)"
    if "PB_HTYPE (ftype ?f) = PB_HTYPE_OPTIONAL" "pSize iter \<noteq> pData iter" for x
    using ok(6) that by (intro region_rules) (auto simp: clear_ok_def bytes_of_def)
  have count: "same_outside (bytes_of S m d) h (store_size h (pSize iter) x)"
    if "PB_HTYPE (ftype ?f) = PB_HTYPE_REPEATED \<or> PB_HTYPE (ftype ?f) = PB_HTYPE_ONEOF" for x
    using ok(6) that by (intro region_rules) (auto simp: clear_ok_def bytes_of_def)
  have body: "\<exists>h'. (if PB_LTYPE (ftype ?f) = PB_LTYPE_SUBMESSAGE then
        (case submsg_fields ?f of None \<Rightarrow> None | Some m \<Rightarrow> msg m (pData iter) h1)
      else (case fptr ?f of
              Ptr_default d \<Rightarrow> Some (store h1 (pData iter) (take (unat (data_size ?f)) d))
            | _ \<Rightarrow> Some (store h1 (pData iter) (replicate (unat (data_size ?f)) 0)))) = Some h' \<and>
      same_outside (bytes_of S m d) h h'"
    if h1: "same_outside (bytes_of S m d) h h1"
      and ht: "PB_HTYPE (ftype ?f) \<noteq> PB_HTYPE_REPEATED" for h1
  proof (cases "PB_LTYPE (ftype ?f) = PB_LTYPE_SUBMESSAGE")
    case True
    from submsg_value_ok [OF ok(2) True] obtain m' where m': "submsg_fields ?f = Some m'" "m' \<in> M" "rk m' < rk m"
      "S m' \<le> uint (data_size ?f)" by blast
    obtain h' where h': "msg m' (pData iter) h1 = Some h'" "same_outside (bytes_of S m' (pData iter)) h1 h'"
      using msg [OF m'(2,3)] by blast
    have "bytes_of S m' (pData iter) \<subseteq> bytes_of S m d"
      using ok(3,4) m'(4) extent_single [OF ht] by (auto simp: bytes_of_def)
    from same_trans [OF h1 same_mono [OF h'(2) this]] show ?thesis using True m'(1) h'(1) by simp
  next
    case False
    have st: "same_outside (bytes_of S m d) h (store h1 (pData iter) x)" if "length x \<le> unat (data_size ?f)" for x
      using that ok(3,4) extent_single [OF ht] word_le_int [OF that]
      by (intro region_rules h1) (auto simp: bytes_of_def)
    show ?thesis using False by (cases "fptr ?f") (auto intro!: st)
  qed
  show ?thesis
    using ok(1) static_not_extension [OF ok(2)] flag count body
    by (auto simp: field_to_default_def Let_def htype_values)
qed

lemma static_defaults:
  assumes "static_fine E M S rk L" and "m \<in> M" and "L + 2 * rk m + 2 \<le> fuel"
  shows "\<exists>h'. pb_message_set_to_defaults fuel E m dest h = Some h' \<and> same_outside (bytes_of S m dest) h h'"
  using assms(2,3)
proof (induction "rk m" arbitrary: m fuel dest h rule: less_induct)
  case less
  obtain n where n: "0 < n" "n \<le> L" "table (tables E m) n"
    "\<And>i d. i < n \<Longrightarrow> field_fine M S rk m (field_at (tables E m) 0 i)" using static_fineD [OF assms(1) less.prems(1)] by blast
  obtain k where k: "fuel = Suc (Suc k)" using less.prems(2) by (metis add_2_eq_Suc' less_eqE plus_nat.simps(2) add.assoc)
  have "\<exists>h'. for_fields (Suc k) (pb_field_set_to_default (Suc k) E) (field_at (tables E m) dest 0) h = Some h' \<and>
      same_outside (bytes_of S m dest) h h'"
  proof (rule for_fields_same [OF n(3,1)])
    show "n - 0 \<le> Suc k" using n(2) less.prems(2) k by simp
    show "\<exists>h'. pb_field_set_to_default (Suc k) E (field_at (tables E m) dest j) h = Some h' \<and>
        same_outside (bytes_of S m dest) h h'" if "j < n" for j h
      unfolding pb_field_set_to_default.simps
    proof (rule static_field_default [OF n(4) [OF that] refl])
      fix m' dest' h' assume "m' \<in> M" "rk m' < rk m"
      then show "\<exists>h''. pb_message_set_to_defaults k E m' dest' h' = Some h'' \<and> same_outside (bytes_of S m' dest') h' h''"
        using less.prems(2) k by (intro less.hyps) simp_all
    qed
  qed
  then show ?case by (simp add: k begin_field_at [OF n(3,1)])
qed

lemma release_items_same: "(\<And>item. rel item h = Some h) \<Longrightarrow> release_items rel k item step h = Some h"
  by (induction k arbitrary: item) auto

lemma release_field_same:
  assumes "field_fine M S rk m (field_at fs 0 i)" and "iter = field_at fs d i"
    and msg: "\<And>m' item. m' \<in> M \<Longrightarrow> rk m' < rk m \<Longrightarrow> msg m' item h = Some h"
  shows "release_field msg exts iter h = Some h"
proof -
  note ok = field_fine_at [OF assms(1,2)]
  have p: "release_pointer iter h = h" using ok(1) by (simp add: release_pointer_def Let_def atype_values)
  have sub: "\<exists>m'. submsg_fields (cur iter) = Some m' \<and> release_items (msg m') c item step h = Some h"
    if lt: "PB_LTYPE (ftype (cur iter)) = PB_LTYPE_SUBMESSAGE" for c item step
  proof -
    from submsg_value_ok [OF ok(2) lt] obtain m' where m': "submsg_fields (cur iter) = Some m'" "m' \<in> M" "rk m' < rk m"
      by blast
    with msg [OF m'(2,3)] show ?thesis by (simp add: release_items_same)
  qed
  show ?thesis
    unfolding release_field_def Let_def
    using static_not_extension [OF ok(2)] p sub by (auto split: option.splits)
qed

lemma static_release:
  assumes "static_fine E M S rk L" and "m \<in> M" and "L + 2 * rk m + 2 \<le> fuel"
  shows "pb_release fuel E m dest h = Some h"
  using assms(2,3)
proof (induction "rk m" arbitrary: m fuel dest h rule: less_induct)
  case less
  obtain n where n: "0 < n" "n \<le> L" "table (tables E m) n"
    "\<And>i d. i < n \<Longrightarrow> field_fine M S rk m (field_at (tables E m) 0 i)" using static_fineD [OF assms(1) less.prems(1)] by blast
  obtain k where k: "fuel = Suc (Suc k)" using less.prems(2) by (metis add_2_eq_Suc' less_eqE plus_nat.simps(2) add.assoc)
  have "pb_release_single_field (Suc k) E (field_at (tables E m) dest j) h = Some h" if "j < n" for j h
    unfolding pb_release_single_field.simps
    using less.prems(2) k by (intro release_field_same [OF n(4) [OF that] refl] less.hyps) simp_all
  then have "\<exists>h'. for_fields (Suc k) (pb_release_single_field (Suc k) E) (field_at (tables E m) dest 0) h = Some h' \<and>
      same_outside {} h h'"
    using n(2) less.prems(2) k by (intro for_fields_same [OF n(3,1)]) auto
  then obtain h' where h': "for_fields (Suc k) (pb_release_single_field (Suc k) E) (field_at (tables E m) dest 0) h = Some h'"
    "same_outside {} h h'" by blast
  from h'(2) have "h' = h" by (intro pb_heap.equality) (auto simp: same_outside_def)
  with h'(1) show ?case by (simp add: k begin_field_at [OF n(3,1)])
qed

lemma static_release_field:
  assumes "static_fine E M S rk L" and "m \<in> M" and "field_fine M S rk m (field_at (tables E m) 0 i)"
    and "L + 2 * rk m + 2 \<le> fuel"
  shows "pb_release_single_field fuel E (field_at (tables E m) dest i) h = Some h"
proof -
  obtain k where k: "fuel = Suc k" using assms(4) by (cases fuel) auto
  show ?thesis
    unfolding k pb_release_single_field.simps
    using assms(4) k by (intro release_field_same [OF assms(3) refl] static_release [OF assms(1)]) simp_all
qed

section \<open>Static fields\<close>

text \<open>A field whose entries and size cell are in \<open>A\<close>.\<close>

definition field_in ::
  "nat set \<Rightarrow> (nat \<Rightarrow> int) \<Rightarrow> (nat \<Rightarrow> nat) \<Rightarrow> nat \<Rightarrow> int set \<Rightarrow> pb_field_iter_t \<Rightarrow> bool" where
  "field_in M S rk m A iter \<longleftrightarrow>
     (let f = cur iter; ht = PB_HTYPE (ftype f)
      in PB_ATYPE (ftype f) = PB_ATYPE_STATIC \<and> value_ok M S rk m f \<and> extent f < 2 ^ 32 \<and>
         {pData iter..<pData iter + extent f} \<subseteq> A \<and>
         (ht = PB_HTYPE_OPTIONAL \<and> pSize iter \<noteq> pData iter \<longrightarrow> pSize iter \<in> A) \<and>
         (ht = PB_HTYPE_REPEATED \<or> ht = PB_HTYPE_ONEOF \<longrightarrow> {pSize iter..<pSize iter + 4} \<subseteq> A))"

lemma field_in_struct:
  assumes "field_fine M S rk m (field_at fs 0 i)" and "iter = field_at fs d i" and "bytes_of S m d \<subseteq> A"
  shows "field_in M S rk m A iter"
  unfolding field_in_def Let_def
  using field_fine_at [OF assms(1,2)] assms(3) by (auto simp: bytes_of_def clear_ok_def subset_iff)

lemma uint_mult_exact: "uint x * uint y < 2 ^ 32 \<Longrightarrow> uint (x * y) = uint x * uint y" for x y :: u32
  by (simp add: uint_word_ariths)

lemma item_in_array:
  assumes "PB_HTYPE (ftype f) = PB_HTYPE_REPEATED" and "count < array_size f" and "extent f < 2 ^ 32"
  shows "{item_at pd f count..<item_at pd f count + uint (data_size f)} \<subseteq> {pd..<pd + extent f}"
proof -
  have c: "uint count + 1 \<le> uint (array_size f)" using assms(2) by (simp add: word_less_def)
  have "uint (data_size f) * (uint count + 1) \<le> uint (data_size f) * uint (array_size f)"
    using c by (intro mult_left_mono) simp_all
  then have le: "uint (data_size f) * uint count + uint (data_size f) \<le> extent f"
    using assms(1) by (simp add: extent_def distrib_left)
  moreover have "0 \<le> uint (data_size f)" by simp
  ultimately have "uint (data_size f) * uint count < 2 ^ 32" using assms(3) by linarith
  then have "uint (data_size f * count) = uint (data_size f) * uint count" by (rule uint_mult_exact)
  with le show ?thesis by (auto simp: item_at_def)
qed

text \<open>Decoders of packable types take at least one byte.\<close>

lemma varint32_consumes:
  assumes "pb_decode_varint32 s = (Some v, s')" and "callback s = Buf_read"
  shows "bytes_left s' < bytes_left s"
proof -
  obtain q t where q: "pb_readbyte s = (q, t)" by force
  with assms(1) obtain b where b: "q = Some b"
    by (cases q) (auto simp: pb_decode_varint32_def pb_decode_varint32_eof_def split: prod.splits)
  have "callback t = Buf_read" using within_callback [OF within_readbyte [OF q]] assms(2) by simp
  then have "bytes_left s' \<le> bytes_left t"
    using assms(1) q b within_bytes_left [of t s'] within_varint32_loop [of t "ucast (b AND 0x7F)" 7]
    by (auto simp: pb_decode_varint32_def pb_decode_varint32_eof_def in_error_def split: prod.splits option.splits if_splits)
  with readbyte_bytes_left [OF q [unfolded b]] show ?thesis by simp
qed

lemma varint_consumes:
  assumes "pb_decode_varint s = (Some v, s')" and "callback s = Buf_read"
  shows "bytes_left s' < bytes_left s"
proof -
  obtain q t where q: "pb_readbyte s = (q, t)" by force
  note step = varint_loop.simps [of s 0 0]
  with assms(1) q obtain b where b: "q = Some b" by (cases q) (auto simp: pb_decode_varint_def)
  have "callback t = Buf_read" using within_callback [OF within_readbyte [OF q]] assms(2) by simp
  then have "bytes_left s' \<le> bytes_left t"
    using assms(1) q b step within_bytes_left [of t s'] within_varint_loop
    by (auto simp: pb_decode_varint_def Let_def split: if_splits)
  with readbyte_bytes_left [OF q [unfolded b]] show ?thesis by simp
qed

lemma run_decoder_consumes:
  assumes "run_decoder E sub s f dest h = Some (True, s', h')" and "PB_LTYPE (ftype f) \<le> PB_LTYPE_LAST_PACKABLE"
    and "value_ok M S rk m f" and "callback s = Buf_read"
  shows "bytes_left s' < bytes_left s"
proof -
  from assms(2,3) consider (b) "PB_LTYPE (ftype f) = PB_LTYPE_BOOL" | (v1) "PB_LTYPE (ftype f) = PB_LTYPE_VARINT"
    | (v2) "PB_LTYPE (ftype f) = PB_LTYPE_UVARINT" | (v3) "PB_LTYPE (ftype f) = PB_LTYPE_SVARINT"
    | (f4) "PB_LTYPE (ftype f) = PB_LTYPE_FIXED32" | (f8) "PB_LTYPE (ftype f) = PB_LTYPE_FIXED64"
    unfolding value_ok_def Let_def by (auto simp: PB_LTYPE_LAST_PACKABLE_def ltype_values)
  then show ?thesis
  proof cases
    case b
    with assms(1) show ?thesis using varint32_consumes [OF _ assms(4)]
      by (auto simp: run_decoder_cases pb_dec_bool_def split: prod.splits option.splits)
  next
    case v1
    with assms(1) show ?thesis using varint_consumes [OF _ assms(4)]
      by (auto simp: run_decoder_cases pb_dec_varint_def Let_def in_error_def split: prod.splits option.splits if_splits)
  next
    case v2
    with assms(1) show ?thesis using varint_consumes [OF _ assms(4)]
      by (auto simp: run_decoder_cases pb_dec_uvarint_def Let_def in_error_def split: prod.splits option.splits if_splits)
  next
    case v3
    with assms(1) show ?thesis using varint_consumes [OF _ assms(4)]
      by (auto simp: run_decoder_cases pb_dec_svarint_def pb_decode_svarint_def Let_def in_error_def
          split: prod.splits option.splits if_splits)
  next
    case f4
    with assms(1) show ?thesis
      by (auto simp: run_decoder_cases pb_dec_fixed32_def pb_decode_fixed32_def pb_read_def
          split: prod.splits option.splits if_splits dest: read_checked_bytes_left)
  next
    case f8
    with assms(1) show ?thesis
      by (auto simp: run_decoder_cases pb_dec_fixed64_def pb_decode_fixed64_def pb_read_def
          split: prod.splits option.splits if_splits dest: read_checked_bytes_left)
  qed
qed

lemma array_loop_fine:
  assumes "field_in M S rk m A iter" and "PB_HTYPE (ftype (cur iter)) = PB_HTYPE_REPEATED" and "B \<subseteq> A"
    and "PB_LTYPE (ftype (cur iter)) \<le> PB_LTYPE_LAST_PACKABLE" and "sub_fine M S rk (rk m) B k sub"
    and "callback s = Buf_read" and "bytes_left s \<le> k" and "bytes_left s < n"
  shows "fine A s h (static_array_loop n (run_decoder E sub) iter s h)"
  using assms(6-8)
proof (induction n arbitrary: s h)
  case (Suc n)
  let ?f = "cur iter"
  define count where "count = load_size h (pSize iter)"
  show ?case
  proof (cases "0 < bytes_left s \<and> count < array_size ?f")
    case True
    have fi: "PB_ATYPE (ftype ?f) = PB_ATYPE_STATIC" "value_ok M S rk m ?f" "extent ?f < 2 ^ 32"
      "{pData iter..<pData iter + extent ?f} \<subseteq> A" "{pSize iter..<pSize iter + 4} \<subseteq> A"
      using assms(1,2) by (simp_all add: field_in_def Let_def)
    have "{item_at (pData iter) ?f count..<item_at (pData iter) ?f count + uint (data_size ?f)} \<union> B \<subseteq> A"
      using item_in_array [OF assms(2) _ fi(3), of count "pData iter"] fi(4) assms(3) True by blast
    from fine_mono [OF run_decoder_fine [OF fi(1,2) assms(5) Suc.prems(1,2)] this]
    obtain ok s1 h1 where r: "run_decoder E sub s ?f (item_at (pData iter) ?f count) h = Some (ok, s1, h1)"
      "within s s1" "same_outside A h h1" by (force simp: fine_def)
    show ?thesis
    proof (cases ok)
      case True
      define h2 where "h2 = store_size h1 (pSize iter) (load_size h1 (pSize iter) + 1)"
      have h2: "same_outside A h h2" unfolding h2_def by (intro region_rules r(3) fi(5))
      have less: "bytes_left s1 < bytes_left s"
        using r(1) True by (intro run_decoder_consumes [OF _ assms(4) fi(2) Suc.prems(1)]) simp
      have "fine A s1 h2 (static_array_loop n (run_decoder E sub) iter s1 h2)"
        using Suc.prems less within_callback [OF r(2)] by (intro Suc.IH) simp_all
      from fine_after [OF this r(2) h2] show ?thesis
        using \<open>0 < bytes_left s \<and> count < array_size ?f\<close> r(1) True by (simp add: Let_def count_def h2_def)
    next
      case False
      then show ?thesis using \<open>0 < bytes_left s \<and> count < array_size ?f\<close> r by (simp add: Let_def count_def)
    qed
  next
    case False
    then show ?thesis by (auto simp: Let_def count_def within_refl)
  qed
qed simp

lemma static_field_fine:
  assumes fi: "field_in M S rk m A iter" and B: "B \<subseteq> A" and sub: "sub_fine M S rk (rk m) B k sub"
    and cb: "callback s = Buf_read" and k: "bytes_left s \<le> k" and n: "bytes_left s < n" "L + 2 * rk m + 2 \<le> n"
    and env: "static_fine E M S rk L"
  shows "fine A s h (decode_static_field n E sub s wt iter h)"
proof -
  let ?f = "cur iter"
  have f: "PB_ATYPE (ftype ?f) = PB_ATYPE_STATIC" "value_ok M S rk m ?f" "extent ?f < 2 ^ 32"
    "{pData iter..<pData iter + extent ?f} \<subseteq> A"
    using fi by (simp_all add: field_in_def Let_def)
  have one: "fine A s h (run_decoder E sub s ?f (pData iter) h1)"
    if "PB_HTYPE (ftype ?f) \<noteq> PB_HTYPE_REPEATED" "same_outside A h h1" for h1
  proof -
    have "{pData iter..<pData iter + uint (data_size ?f)} \<union> B \<subseteq> A"
      using f(4) B extent_single [OF that(1)] by simp
    from fine_after [OF fine_mono [OF run_decoder_fine [OF f(1,2) sub cb k] this] within_refl that(2)]
    show ?thesis .
  qed
  consider (req) "PB_HTYPE (ftype ?f) = PB_HTYPE_REQUIRED" | (opt) "PB_HTYPE (ftype ?f) = PB_HTYPE_OPTIONAL"
    | (packed) "PB_HTYPE (ftype ?f) = PB_HTYPE_REPEATED" "wt = PB_WT_STRING" "PB_LTYPE (ftype ?f) \<le> PB_LTYPE_LAST_PACKABLE"
    | (array) "PB_HTYPE (ftype ?f) = PB_HTYPE_REPEATED" "\<not> (wt = PB_WT_STRING \<and> PB_LTYPE (ftype ?f) \<le> PB_LTYPE_LAST_PACKABLE)"
    | (oneof) "PB_HTYPE (ftype ?f) \<notin> {PB_HTYPE_REQUIRED, PB_HTYPE_OPTIONAL, PB_HTYPE_REPEATED}" by blast
  then show ?thesis
  proof cases
    case req
    then show ?thesis using one [of h] by (simp add: decode_static_field_def Let_def htype_values)
  next
    case opt
    have "same_outside A h (store_bool h (pSize iter) True)" if "pSize iter \<noteq> pData iter"
      using fi opt that by (intro region_rules) (simp add: field_in_def Let_def)
    then show ?thesis using opt one by (auto simp: decode_static_field_def Let_def htype_values)
  next
    case packed
    obtain q s1 where mk: "pb_make_string_substream s = (q, s1)" by force
    note w = within_make [OF mk]
    show ?thesis
    proof (cases q)
      case None
      then show ?thesis using w packed by (simp add: decode_static_field_def Let_def htype_values mk)
    next
      case (Some ss)
      from make_substream [OF mk [unfolded Some]] obtain t where t: "within s t" "ss = t\<lparr>bytes_left := bytes_left ss\<rparr>"
        "bytes_left t = bytes_left ss + bytes_left s1" by blast
      have "callback ss = callback t" using t(2) by (metis pb_istream_t.select_convs(1) pb_istream_t.surjective pb_istream_t.update_convs(3))
      then have cb': "callback ss = Buf_read" using within_callback [OF t(1)] cb by simp
      have "bytes_left ss \<le> bytes_left s" using within_bytes_left [OF t(1) cb] t(3) by simp
      then have "fine A ss h (static_array_loop n (run_decoder E sub) iter ss h)"
        using n k by (intro array_loop_fine [OF fi packed(1) B packed(3) sub cb']) simp_all
      then obtain ok ss' h' where l: "static_array_loop n (run_decoder E sub) iter ss h = Some (ok, ss', h')"
        "within ss ss'" "same_outside A h h'" by (auto simp: fine_def)
      obtain c s2 s3 where cl: "pb_close_string_substream s1 ss' = (c, s2, s3)" by (metis prod_cases3)
      from within_close(1) [OF mk [unfolded Some] l(2) cl] l show ?thesis
        using packed w by (auto simp: decode_static_field_def Let_def htype_values mk Some cl fine_fail split: bool.splits)
    qed
  next
    case array
    define count where "count = load_size h (pSize iter)"
    have cell: "{pSize iter..<pSize iter + 4} \<subseteq> A" using fi array(1) by (simp add: field_in_def Let_def)
    then have st: "same_outside A h (store_size h (pSize iter) x)" for x by (intro region_rules)
    have "fine A s h (run_decoder E sub s ?f (item_at (pData iter) ?f count) (store_size h (pSize iter) (count + 1)))"
      if "count < array_size ?f"
    proof -
      have "{item_at (pData iter) ?f count..<item_at (pData iter) ?f count + uint (data_size ?f)} \<union> B \<subseteq> A"
        using item_in_array [OF array(1) that f(3), of "pData iter"] f(4) B by blast
      from fine_after [OF fine_mono [OF run_decoder_fine [OF f(1,2) sub cb k] this] within_refl st] show ?thesis .
    qed
    then show ?thesis
      using array st by (auto simp: decode_static_field_def Let_def htype_values count_def fine_fail within_refl not_less)
  next
    case oneof
    then have ht: "PB_HTYPE (ftype ?f) = PB_HTYPE_ONEOF" using htype_cases [of "ftype ?f"] by blast
    define h1 where "h1 = store_size h (pSize iter) (ftag ?f)"
    have h1: "same_outside A h h1"
      unfolding h1_def using fi ht by (intro region_rules) (simp add: field_in_def Let_def)
    have rep: "PB_HTYPE (ftype ?f) \<noteq> PB_HTYPE_REPEATED" using ht by (simp add: htype_values)
    show ?thesis
    proof (cases "PB_LTYPE (ftype ?f) = PB_LTYPE_SUBMESSAGE")
      case True
      define h2 where "h2 = store h1 (pData iter) (replicate (unat (data_size ?f)) 0)"
      have h2: "same_outside A h h2"
        unfolding h2_def using f(4) extent_single [OF rep] by (intro region_rules h1) simp
      from submsg_value_ok [OF f(2) True] obtain m' where m': "submsg_fields ?f = Some m'" "m' \<in> M" "rk m' < rk m"
        "S m' \<le> uint (data_size ?f)" by blast
      have "L + 2 * rk m' + 2 \<le> n" using n(2) m'(3) by simp
      from static_defaults [OF env m'(2) this, of "pData iter" h2] obtain h3 where
        h3: "pb_message_set_to_defaults n E m' (pData iter) h2 = Some h3" "same_outside (bytes_of S m' (pData iter)) h2 h3"
        by blast
      have "bytes_of S m' (pData iter) \<subseteq> A"
        using f(4) m'(4) extent_single [OF rep] by (auto simp: bytes_of_def subset_iff)
      from one [OF rep same_trans [OF h2 same_mono [OF h3(2) this]]] show ?thesis
        using True m'(1) h3(1) by (simp add: decode_static_field_def Let_def ht htype_values h1_def [symmetric]
            h2_def [symmetric])
    next
      case False
      from one [OF rep h1] show ?thesis
        using False by (simp add: decode_static_field_def Let_def ht htype_values h1_def [symmetric])
    qed
  qed
qed

section \<open>The iterator in the decoder\<close>

text \<open>At a field of the table; in an array of fixed length \<open>pSize\<close> may point to the local count.\<close>

definition iter_at :: "pb_field_t list \<Rightarrow> nat \<Rightarrow> int \<Rightarrow> int \<Rightarrow> pb_field_iter_t \<Rightarrow> bool" where
  "iter_at fs n d sp iter \<longleftrightarrow> pos iter < n \<and>
     (iter = field_at fs d (pos iter) \<or>
      PB_HTYPE (ftype (cur iter)) = PB_HTYPE_REPEATED \<and> iter = (field_at fs d (pos iter))\<lparr>pSize := sp\<rparr>)"

lemma iter_at_field_at: "table fs n \<Longrightarrow> i < n \<Longrightarrow> iter_at fs n d sp (field_at fs d i)"
  using field_at_simps [of fs n i d] by (simp add: iter_at_def)

lemma iter_at_simps:
  assumes "table fs n" and "iter_at fs n d sp iter"
  shows "ftable iter = fs" and "cur iter = fs ! pos iter" and "ftag (cur iter) \<noteq> 0"
proof -
  from assms(2) consider "iter = field_at fs d (pos iter)" | "iter = (field_at fs d (pos iter))\<lparr>pSize := sp\<rparr>"
    unfolding iter_at_def by blast
  then show t: "ftable iter = fs"
  proof cases
    case 1
    from arg_cong [OF this, of ftable] show ?thesis by simp
  next
    case 2
    from arg_cong [OF this, of ftable] show ?thesis by simp
  qed
  then show c: "cur iter = fs ! pos iter" by (simp add: cur_def)
  show "ftag (cur iter) \<noteq> 0" using assms by (simp add: c iter_at_def table_def)
qed

lemma cur_pSize [simp]: "cur (iter\<lparr>pSize := x\<rparr>) = cur iter"
  by (simp add: cur_def)

lemma next_pSize:
  assumes "PB_HTYPE (ftype (cur iter)) \<noteq> PB_HTYPE_ONEOF" and "ftag (cur iter) \<noteq> 0"
  shows "pb_field_iter_next (iter\<lparr>pSize := x\<rparr>) = pb_field_iter_next iter"
proof -
  have c: "cur (iter\<lparr>pSize := x, pos := k\<rparr>) = cur (iter\<lparr>pos := k\<rparr>)" for k by (simp add: cur_def)
  show ?thesis
    using assms by (simp add: pb_field_iter_next_def Let_def c)
qed

lemma next_iter_at:
  assumes "table fs n" and "iter_at fs n d sp iter"
  shows "pb_field_iter_next iter = (Suc (pos iter) < n, field_at fs d (Suc (pos iter) mod n))"
proof -
  have i: "pos iter < n" using assms(2) by (simp add: iter_at_def)
  from assms(2) consider "iter = field_at fs d (pos iter)"
    | "PB_HTYPE (ftype (cur iter)) = PB_HTYPE_REPEATED" "iter = (field_at fs d (pos iter))\<lparr>pSize := sp\<rparr>"
    by (auto simp: iter_at_def)
  then show ?thesis
  proof cases
    case 1
    then show ?thesis using next_field_at_eq [OF assms(1) i, of d] by simp
  next
    case 2
    have c: "cur iter = cur (field_at fs d (pos iter))" by (subst 2(2)) simp
    have "pb_field_iter_next iter = pb_field_iter_next (field_at fs d (pos iter))"
      using next_pSize [of "field_at fs d (pos iter)" sp] 2 c iter_at_simps(3) [OF assms] by (simp add: htype_values)
    then show ?thesis using next_field_at_eq [OF assms(1) i, of d] by simp
  qed
qed

lemma iter_at_next:
  assumes "table fs n" and "iter_at fs n d sp iter"
  shows "iter_at fs n d sp (snd (pb_field_iter_next iter))"
  using assms next_iter_at [OF assms] by (simp add: iter_at_field_at iter_at_def [of fs n d sp iter])

end
