(* ===== verification/Nanopb_Sample.thy ===== *)
theory Nanopb_Sample
  imports Nanopb_Memory Nanopb_Iter
begin

text \<open>
  A pair of message types for the concrete inputs of the other theories: the tables, and an
  environment without callbacks, extensions and memory to allocate.
\<close>

text \<open>Two nested messages: a number and an array of up to three numbers; such a message with a
  presence flag and a string.\<close>

definition point_x :: pb_field_t where
  "point_x = \<lparr>ftag = 1, ftype = 0x02, data_offset = 0, size_offset = 0, data_size = 4, array_size = 0, fptr = Ptr_null\<rparr>"

definition point_w :: pb_field_t where
  "point_w = \<lparr>ftag = 2, ftype = 0x22, data_offset = 4, size_offset = - 4, data_size = 4, array_size = 3, fptr = Ptr_null\<rparr>"

definition label_at :: pb_field_t where
  "label_at = \<lparr>ftag = 1, ftype = 0x18, data_offset = 4, size_offset = - 4, data_size = 20, array_size = 0, fptr = Ptr_fields 0\<rparr>"

definition label_name :: pb_field_t where
  "label_name = \<lparr>ftag = 2, ftype = 0x07, data_offset = 0, size_offset = 0, data_size = 8, array_size = 0, fptr = Ptr_null\<rparr>"

definition last_entry :: pb_field_t where
  "last_entry = \<lparr>ftag = 0, ftype = 0, data_offset = 0, size_offset = 0, data_size = 0, array_size = 0, fptr = Ptr_null\<rparr>"

definition sample_env :: pb_env where
  "sample_env =
     \<lparr>tables = \<lambda>m. if m = 0 then [point_x, point_w, last_entry] else [label_at, label_name, last_entry], place = \<lambda>h p k. None,
      dec_callback = \<lambda>f s field arg h. (False, s, h), enc_callback = \<lambda>f s field arg h. (False, s),
      ext_types = \<lambda>e. \<lparr>ext_decode = None, ext_encode = None, ext_arg = 0\<rparr>\<rparr>"

lemma sample_tables:
  "table [point_x, point_w, last_entry] 2" "table [label_at, label_name, last_entry] 2"
  by (auto simp: table_def point_x_def point_w_def label_at_def label_name_def last_entry_def less_2_cases_iff)

end
