(* ===== verification/Nanopb_Message.thy ===== *)
theory Nanopb_Message
  imports Nanopb_Static Nanopb_Sample
begin

text \<open>
  The loop of the decoder over a message of static fields, and \<open>pb_decode\<close> on it: it returns,
  with fuel for the bytes of the input and the nesting of the message, and memory changes only
  in the structure and in the frames on the stack.
\<close>

section \<open>Searches from the iterator of the decoder\<close>

lemma find_iter_at:
  assumes "table fs n" and "iter_at fs n d sp iter"
  shows "\<exists>found iter'. pb_field_iter_find iter t = Some (found, iter') \<and> iter_at fs n d sp iter'"
proof -
  have i: "pos iter < n" using assms(2) by (simp add: iter_at_def)
  note it = iter_at_simps [OF assms]
  note at = field_at_simps [OF assms(1) i, of d]
  from find_ends [OF assms(1) i, of d t] obtain found j where
    f: "pb_field_iter_find (field_at fs d (pos iter)) t = Some (found, field_at fs d j)" "j < n" by blast
  show ?thesis
  proof (cases "wanted t (cur iter)")
    case True
    then show ?thesis
      using assms(2) assms(1) it by (intro exI [of _ True] exI [of _ iter]) (simp add: pb_field_iter_find_def wanted_def table_def)
  next
    case False
    have c: "cur (field_at fs d (pos iter)) = cur iter" using at it by (simp add: cur_def)
    have "pb_field_iter_next iter = pb_field_iter_next (field_at fs d (pos iter))"
      using next_iter_at [OF assms] next_field_at_eq [OF assms(1) i, of d] by simp
    then have "pb_field_iter_find iter t = pb_field_iter_find (field_at fs d (pos iter)) t"
      using False at it(1) c assms(1) by (auto simp: pb_field_iter_find_def wanted_def table_def Let_def)
    with f iter_at_field_at [OF assms(1) f(2)] show ?thesis by auto
  qed
qed

lemma extension_loop_find:
  assumes "table fs n" and "\<And>i. i < n \<Longrightarrow> PB_LTYPE (ftype (fs ! i)) \<noteq> PB_LTYPE_EXTENSION"
    and "iter_at fs n d sp iter"
  shows "extension_field_loop k iter start = iter_find_loop k iter start 0"
  using assms(3)
proof (induction k arbitrary: iter)
  case (Suc k)
  have i: "pos iter < n" using Suc.prems by (simp add: iter_at_def)
  from Suc.IH [OF iter_at_next [OF assms(1) Suc.prems]] show ?case
    using iter_at_simps [OF assms(1) Suc.prems] assms(2) [OF i] by (simp add: Let_def)
qed simp

lemma no_extension_field:
  assumes "table fs n" and "\<And>i. i < n \<Longrightarrow> PB_LTYPE (ftype (fs ! i)) \<noteq> PB_LTYPE_EXTENSION"
    and "iter_at fs n d sp iter"
  shows "\<exists>iter'. find_extension_field iter = Some (False, iter') \<and> iter_at fs n d sp iter'"
proof -
  have e: "find_extension_field iter = pb_field_iter_find iter 0"
    by (simp add: find_extension_field_def pb_field_iter_find_def extension_loop_find [OF assms])
  from find_iter_at [OF assms(1,3)] obtain found iter' where
    f: "pb_field_iter_find iter 0 = Some (found, iter')" "iter_at fs n d sp iter'" by blast
  have "\<not> found" if "iter_find_loop k it start 0 = Some (found, iter')" "iter_at fs n d sp it" for k it start
    using that
  proof (induction k arbitrary: it)
    case (Suc k)
    from Suc.IH [OF _ iter_at_next [OF assms(1) Suc.prems(2)]] Suc.prems(1) show ?case
      using iter_at_simps(3) [OF assms(1) Suc.prems(2)] by (auto simp: Let_def split: if_splits)
  qed simp
  with f have "\<not> found" using assms(3) by (simp add: pb_field_iter_find_def)
  with f e show ?thesis by simp
qed

lemma tag_bound: "pb_decode_tag s = (Some (wt, t), e, s') \<Longrightarrow> \<not> (- 1 \<le> t)"
proof -
  assume a: "pb_decode_tag s = (Some (wt, t), e, s')"
  then obtain temp where "t = drop_bit 3 temp" by (auto simp: pb_decode_tag_def split: prod.splits option.splits if_splits)
  then have "unat t = unat temp div 8" by (simp add: unat_div drop_bit_eq_div)
  then have "unat t < 2 ^ 29" using unat_less_pow [of temp] by simp
  moreover have "unat (- 1 :: u32) = 2 ^ 32 - 1" by (simp add: unsigned_minus_1_eq_mask mask_eq_exp_minus_1)
  ultimately show ?thesis by (simp add: word_le_nat_alt)
qed

lemma tag_consumes:
  assumes "pb_decode_tag s = (Some x, e, s')" and "callback s = Buf_read"
  shows "bytes_left s' < bytes_left s"
proof -
  obtain v e' where v: "pb_decode_varint32_eof s False = (Some v, e', s')"
    using assms(1) by (auto simp: pb_decode_tag_def split: prod.splits option.splits if_splits)
  have "pb_decode_varint32 s = (Some v, s')" by (simp add: pb_decode_varint32_def v)
  from varint32_consumes [OF this assms(2)] show ?thesis .
qed

lemma last_required_ends:
  assumes "table fs n" and "iter_at fs n d sp iter" and "n - pos iter \<le> k"
  shows "\<exists>count lt iter'. last_required k iter = Some (count, lt, iter')"
  using assms(2,3)
proof (induction k arbitrary: iter)
  case 0
  then show ?case by (simp add: iter_at_def)
next
  case (Suc k)
  have i: "pos iter < n" using Suc.prems by (simp add: iter_at_def)
  show ?case
  proof (cases "Suc (pos iter) < n")
    case True
    have p: "pos (field_at fs d (Suc (pos iter))) = Suc (pos iter)" using field_at_simps [OF assms(1) True, of d] by simp
    have "n - pos (field_at fs d (Suc (pos iter))) \<le> k" using Suc.prems(2) p True by simp
    from Suc.IH [OF iter_at_field_at [OF assms(1) True] this] show ?thesis
      using True by (simp add: next_iter_at [OF assms(1) Suc.prems(1)])
  next
    case False
    then show ?thesis by (simp add: next_iter_at [OF assms(1) Suc.prems(1)])
  qed
qed

lemma check_required_fine:
  assumes "table fs n" and "iter_at fs n d sp (dl_iter l)"
  shows "fine A s h (check_required s l h)"
proof -
  have "length (ftable (dl_iter l)) = Suc n" using iter_at_simps(1) [OF assms] assms(1) by (simp add: table_def)
  moreover have "\<exists>count lt iter'. last_required (Suc n) (dl_iter l) = Some (count, lt, iter')"
    by (rule last_required_ends [OF assms]) simp
  ultimately obtain count lt iter' where
    "last_required (length (ftable (dl_iter l))) (dl_iter l) = Some (count, lt, iter')" by metis
  then show ?thesis by (simp add: check_required_def Let_def fine_fail within_refl)
qed

section \<open>One field of the message\<close>

definition fine_iter ::
  "int set \<Rightarrow> pb_istream_t \<Rightarrow> pb_heap \<Rightarrow> (pb_field_iter_t \<Rightarrow> bool) \<Rightarrow> ('l \<Rightarrow> pb_field_iter_t) \<Rightarrow>
     (bool \<times> pb_istream_t \<times> 'l \<times> pb_heap) option \<Rightarrow> bool" where
  "fine_iter A s h P it r \<longleftrightarrow>
     (\<exists>ok s' l' h'. r = Some (ok, s', l', h') \<and> within s s' \<and> P (it l') \<and> same_outside A h h')"

lemma fine_iter_Some [simp]:
  "fine_iter A s h P it (Some (ok, s', l', h')) \<longleftrightarrow> within s s' \<and> P (it l') \<and> same_outside A h h'"
  by (simp add: fine_iter_def)

lemma fine_iter_after:
  "fine_iter A s1 h1 P it r \<Longrightarrow> within s s1 \<Longrightarrow> same_outside A h h1 \<Longrightarrow> fine_iter A s h P it r"
  unfolding fine_iter_def by (blast intro: within_trans same_trans)

lemma fine_iter_map:
  "fine A s h r \<Longrightarrow> P (it l) \<Longrightarrow> fine_iter A s h P it (map_option (\<lambda>(ok, s, h). (ok, s, l, h)) r)"
  by (auto simp: fine_def)

lemma fine_iter_local:
  "fine_iter A s h P id r \<Longrightarrow> (\<And>iter. P iter \<Longrightarrow> P' (it (f iter))) \<Longrightarrow>
     fine_iter A s h P' it (map_option (\<lambda>(ok, s, iter, h). (ok, s, f iter, h)) r)"
  by (auto simp: fine_iter_def)

lemma field_in_pSize:
  "field_in M S rk m A iter \<Longrightarrow> PB_HTYPE (ftype (cur iter)) = PB_HTYPE_REPEATED \<Longrightarrow> {sp..<sp + 4} \<subseteq> A \<Longrightarrow>
     field_in M S rk m A (iter\<lparr>pSize := sp\<rparr>)"
  by (simp add: field_in_def Let_def htype_values)

lemma iter_at_sized:
  assumes "iter_at fs n d sp iter" and "PB_HTYPE (ftype (cur iter)) = PB_HTYPE_REPEATED"
  shows "iter_at fs n d sp (iter\<lparr>pSize := sp\<rparr>)"
proof -
  define it where "it = field_at fs d (pos iter)"
  have "iter = it \<or> iter = it\<lparr>pSize := sp\<rparr>" and i: "pos iter < n" using assms(1) by (auto simp: iter_at_def it_def)
  from this(1) have "iter\<lparr>pSize := sp\<rparr> = it\<lparr>pSize := sp\<rparr>" by (elim disjE) simp_all
  moreover have "pos (iter\<lparr>pSize := sp\<rparr>) = pos iter" by simp
  ultimately show ?thesis using i assms(2) unfolding iter_at_def cur_pSize it_def by simp
qed

text \<open>The setting of a message \<open>m\<close> in a structure at \<open>d\<close>: the frame of the decoder is at \<open>sp\<close>, and
  \<open>B\<close> is below it.\<close>

definition static_message ::
  "pb_env \<Rightarrow> nat set \<Rightarrow> (nat \<Rightarrow> int) \<Rightarrow> (nat \<Rightarrow> nat) \<Rightarrow> nat \<Rightarrow> nat \<Rightarrow> pb_field_t list \<Rightarrow> nat \<Rightarrow> int \<Rightarrow> int \<Rightarrow>
     int set \<Rightarrow> int set \<Rightarrow> nat \<Rightarrow> sub_decoder \<Rightarrow> bool" where
  "static_message E M S rk L m fs n d sp A B k sub \<longleftrightarrow>
     static_fine E M S rk L \<and> m \<in> M \<and> tables E m = fs \<and>
     0 < n \<and> n \<le> L \<and> table fs n \<and> (\<forall>i < n. field_fine M S rk m (field_at fs 0 i)) \<and>
     sub_fine M S rk (rk m) B k sub \<and> B \<subseteq> A \<and> bytes_of S m d \<subseteq> A \<and> {sp..<sp + 4} \<subseteq> A"

lemma static_messageD:
  assumes "static_message E M S rk L m fs n d sp A B k sub"
  shows "static_fine E M S rk L" "m \<in> M" "tables E m = fs" "0 < n" "n \<le> L" "table fs n"
    "\<And>i. i < n \<Longrightarrow> field_fine M S rk m (field_at fs 0 i)" "sub_fine M S rk (rk m) B k sub"
    "B \<subseteq> A" "bytes_of S m d \<subseteq> A" "{sp..<sp + 4} \<subseteq> A"
  using assms by (simp_all add: static_message_def)


lemma field_in_at:
  assumes static: "static_message E M S rk L m fs n d sp A B k sub"
    and "iter_at fs n d sp iter"
  shows "field_in M S rk m A iter"
proof -
  note sm = static_messageD [OF static]
  have i: "pos iter < n" using assms(2) by (simp add: iter_at_def)
  have f: "field_in M S rk m A (field_at fs d (pos iter))" by (rule field_in_struct [OF sm(7) [OF i] refl sm(10)])
  from assms(2) consider "iter = field_at fs d (pos iter)"
    | "PB_HTYPE (ftype (cur iter)) = PB_HTYPE_REPEATED" "iter = (field_at fs d (pos iter))\<lparr>pSize := sp\<rparr>"
    by (auto simp: iter_at_def)
  then show ?thesis
  proof cases
    case 1
    with f show ?thesis by simp
  next
    case 2
    then have "PB_HTYPE (ftype (cur (field_at fs d (pos iter)))) = PB_HTYPE_REPEATED" by (metis cur_pSize)
    from field_in_pSize [OF f this sm(11)] show ?thesis using 2(2) by simp
  qed
qed

lemma oneof_at:
  "iter_at fs n d sp iter \<Longrightarrow> PB_HTYPE (ftype (cur iter)) = PB_HTYPE_ONEOF \<Longrightarrow> iter = field_at fs d (pos iter)"
  by (auto simp: iter_at_def htype_values)

lemma union_fine:
  assumes static: "static_message E M S rk L m fs n d sp A B k sub"
    and it: "iter_at fs n d sp iter" and ht: "PB_HTYPE (ftype (cur iter)) = PB_HTYPE_ONEOF"
    and f: "L + 2 * rk m + 2 \<le> fuel"
  shows "fine_iter A s h (iter_at fs n d sp) id (pb_release_union_field fuel E s iter h)"
proof -
  note sm = static_messageD [OF static]
  have e: "iter = field_at fs d (pos iter)" by (rule oneof_at [OF it ht])
  have i: "pos iter < n" using it by (simp add: iter_at_def)
  have find: "\<exists>found j. pb_field_iter_find (field_at fs d i') t = Some (found, field_at fs d j) \<and> j < n"
    if "i' < n" for i' t
    using find_ends [OF sm(6) that, of d t] by blast
  have rel: "pb_release_single_field fuel E (field_at fs d j) h = Some h" if "j < n" for j
    using static_release_field [OF sm(1,2), unfolded sm(3), OF sm(7) [OF that] f] .
  obtain f1 j1 where f1: "pb_field_iter_find iter (load_size h (pSize iter)) = Some (f1, field_at fs d j1)" "j1 < n"
    using find [OF i] e by metis
  obtain f2 j2 where f2: "pb_field_iter_find (field_at fs d j1) (ftag (cur iter)) = Some (f2, field_at fs d j2)" "j2 < n"
    using find [OF f1(2)] by blast
  show ?thesis
    using it f1 f2 rel [OF f1(2)] iter_at_field_at [OF sm(6)] 
    by (cases f1; cases f2) (simp_all add: pb_release_union_field_def Let_def within_refl within_error)
qed

lemma decode_field_fine:
  assumes static: "static_message E M S rk L m fs n d sp A B k sub"
    and it: "iter_at fs n d sp iter" and cb: "callback s = Buf_read" and k: "bytes_left s \<le> k"
    and f: "bytes_left s < fuel" "L + 2 * rk m + 2 \<le> fuel"
  shows "fine_iter A s h (iter_at fs n d sp) id (decode_field fuel E sub s wt iter h)"
proof -
  note sm = static_messageD [OF static]
  let ?u = "if PB_HTYPE (ftype (cur iter)) = PB_HTYPE_ONEOF
    then pb_release_union_field fuel E s iter h else Some (True, s, iter, h)"
  have "fine_iter A s h (iter_at fs n d sp) id ?u"
    using union_fine [OF static it _ f(2)] it within_refl by auto
  then obtain ok s1 it1 h1 where u: "?u = Some (ok, s1, it1, h1)" "within s s1" "iter_at fs n d sp it1" "same_outside A h h1"
    by (auto simp: fine_iter_def)
  have fi: "field_in M S rk m A it1" by (rule field_in_at [OF static u(3)])
  have st: "PB_ATYPE (ftype (cur it1)) = PB_ATYPE_STATIC" using fi by (simp add: field_in_def Let_def)
  have "callback s1 = Buf_read" "bytes_left s1 \<le> bytes_left s"
    using within_callback [OF u(2)] within_bytes_left [OF u(2) cb] cb by simp_all
  then have "fine A s1 h1 (decode_static_field fuel E sub s1 wt it1 h1)"
    using k f by (intro static_field_fine [OF fi sm(9) sm(8) _ _ _ f(2) sm(1)]) simp_all
  then have "fine A s h (decode_static_field fuel E sub s1 wt it1 h1)"
    by (rule fine_after [OF _ u(2,4)])
  then have "fine_iter A s h (iter_at fs n d sp) id (map_option (\<lambda>(ok, s, h). (ok, s, it1, h))
      (decode_static_field fuel E sub s1 wt it1 h1))"
    by (rule fine_iter_map) (simp add: u(3))
  then show ?thesis
    unfolding decode_field_def u(1) using u(2-4) st by (cases ok) (simp_all add: Let_def)
qed

lemma skip_fine:
  assumes "iter_at fs n d sp (dl_iter l)"
  shows "fine_iter A s h (iter_at fs n d sp) dl_iter
    (case pb_skip_field s wt of (ok, s) \<Rightarrow> Some (ok, s, l, h))"
proof -
  obtain ok s' where r: "pb_skip_field s wt = (ok, s')" by force
  with within_skip_field [OF r] assms show ?thesis by simp
qed

lemma unknown_fine:
  assumes static: "static_message E M S rk L m fs n d sp A B k sub"
    and it: "iter_at fs n d sp (dl_iter l)" and t: "\<not> - 1 \<le> t"
  shows "fine_iter A s h (iter_at fs n d sp) dl_iter (unknown_field fuel E sub s t wt l h)"
proof -
  note sm = static_messageD [OF static]
  have "PB_LTYPE (ftype (fs ! i)) \<noteq> PB_LTYPE_EXTENSION" if "i < n" for i
    using static_not_extension field_fine_at(2) [OF sm(7) [OF that] refl, of 0] field_at_simps [OF sm(6) that, of 0]
    by (auto simp: cur_def)
  from no_extension_field [OF sm(6) this it] obtain iter' where
    f: "find_extension_field (dl_iter l) = Some (False, iter')" "iter_at fs n d sp iter'" by blast
  show ?thesis
    using f t skip_fine [where l = "l\<lparr>dl_iter := iter', extension_range_start := - 1\<rparr>"] skip_fine [OF it]
    by (simp add: unknown_field_def Let_def)
qed

lemma known_fine:
  assumes static: "static_message E M S rk L m fs n d sp A B k sub"
    and it: "iter_at fs n d sp (dl_iter l)" and cb: "callback s = Buf_read" and k: "bytes_left s \<le> k"
    and f: "bytes_left s < fuel" "L + 2 * rk m + 2 \<le> fuel"
  shows "fine_iter A s h (iter_at fs n d sp) dl_iter (known_field fuel E sub sp s wt l h)"
proof -
  note sm = static_messageD [OF static]
  let ?it = "dl_iter l"
  have i: "pos ?it < n" using it by (simp add: iter_at_def)
  have sized: "iter_at fs n d sp (?it\<lparr>pSize := sp\<rparr>)"
    if "PB_HTYPE (ftype (cur ?it)) = PB_HTYPE_REPEATED"
    by (rule iter_at_sized [OF it that])
  have go: "fine_iter A s h (iter_at fs n d sp) dl_iter (map_option (\<lambda>(ok, s, iter, h). (ok, s, l'\<lparr>dl_iter := iter\<rparr>, h))
      (decode_field fuel E sub s wt (dl_iter l') h1))"
    if "iter_at fs n d sp (dl_iter l')" "same_outside A h h1" for l' :: dec_locals and h1
    using decode_field_fine [OF static that(1) cb k f]
    by (intro fine_iter_after [OF _ within_refl that(2)] fine_iter_local) simp_all
  have clear: "same_outside A h (store_size h sp 0)" using sm(11) by (intro region_rules) simp
  define l1 where "l1 = (if PB_HTYPE (ftype (cur ?it)) = PB_HTYPE_REPEATED \<and> pSize ?it = pData ?it
    then l\<lparr>fixed_count_field := Some (pos ?it), dl_iter := ?it\<lparr>pSize := sp\<rparr>\<rparr> else l)"
  have l1: "iter_at fs n d sp (dl_iter l1)" using it sized by (auto simp: l1_def)
  have seen: "iter_at fs n d sp (dl_iter (if b then l1\<lparr>fields_seen := x\<rparr> else l1))" for b x using l1 by simp
  show ?thesis
    unfolding known_field_def Let_def l1_def [symmetric]
    using go [OF seen] clear it within_error [of s] by (auto split del: if_split simp: if_distrib [of "same_outside A h"] split: if_split)
qed

lemma loop_fine:
  assumes static: "static_message E M S rk L m fs n d sp A B k sub"
    and "iter_at fs n d sp (dl_iter l)" and "callback s = Buf_read" and "bytes_left s \<le> k"
    and "bytes_left s + L + 2 * rk m + 3 \<le> fuel"
  shows "fine_iter A s h (iter_at fs n d sp) dl_iter (decode_loop fuel E sub sp s l h)"
  using assms(2-)
proof (induction fuel arbitrary: s l h)
  case (Suc fuel)
  show ?case
  proof (cases "bytes_left s = 0")
    case True
    then show ?thesis using Suc.prems by (simp add: within_refl)
  next
    case more: False
    obtain q e s1 where tag: "pb_decode_tag s = (q, e, s1)" by (metis prod_cases3)
    note w = within_tag [OF tag]
    show ?thesis
    proof (cases q)
      case None
      then show ?thesis using more tag w Suc.prems(1) by simp
    next
      case (Some x)
      obtain wt t where x: "x = (wt, t)" by (cases x)
      from find_iter_at [OF static_messageD(6) [OF static] Suc.prems(1), of t] obtain found iter where
        f: "pb_field_iter_find (dl_iter l) t = Some (found, iter)" "iter_at fs n d sp iter" by blast
      have less: "bytes_left s1 < bytes_left s" by (rule tag_consumes [OF tag [unfolded Some] Suc.prems(2)])
      have cb: "callback s1 = Buf_read" using within_callback [OF w] Suc.prems(2) by simp
      let ?l = "l\<lparr>dl_iter := iter\<rparr>"
      let ?r = "if found then known_field fuel E sub sp s1 wt ?l h else unknown_field fuel E sub s1 t wt ?l h"
      have "fine_iter A s1 h (iter_at fs n d sp) dl_iter ?r"
        using known_fine [OF static, where l = ?l] unknown_fine [OF static, where l = ?l] f(2) cb less Suc.prems(3,4)
          tag_bound [OF tag [unfolded Some x]] by simp
      then obtain ok s2 l2 h2 where r: "?r = Some (ok, s2, l2, h2)" "within s1 s2" "iter_at fs n d sp (dl_iter l2)"
        "same_outside A h h2" by (auto simp: fine_iter_def)
      have "fine_iter A s2 h2 (iter_at fs n d sp) dl_iter (decode_loop fuel E sub sp s2 l2 h2)"
        using r(3) within_callback [OF r(2)] within_bytes_left [OF r(2) cb] cb less Suc.prems(3,4)
        by (intro Suc.IH) simp_all
      from fine_iter_after [OF this within_trans [OF w r(2)] r(4)] show ?thesis
        using more r within_trans [OF w r(2)] by (cases ok) (simp_all add: tag Some x f(1) Let_def)
    qed
  qed
qed simp

lemma message_fine:
  assumes static: "static_message E M S rk L m fs n d sp A B k sub"
    and "callback s = Buf_read" and "bytes_left s \<le> k" and "bytes_left s + L + 2 * rk m + 3 \<le> fuel"
  shows "fine A s h (decode_message fuel E sub sp s m d h)"
proof -
  note sm = static_messageD [OF static]
  define l where "l = \<lparr>dl_iter = snd (pb_field_iter_begin fs d), fields_seen = [0, 0],
               extension_range_start = 0, fixed_count_field = None\<rparr>"
  have it: "iter_at fs n d sp (dl_iter l)"
    using iter_at_field_at [OF sm(6,4), of d sp] by (simp add: l_def field_at_0)
  have clear: "same_outside A h (store_size h sp 0)" using sm(11) by (intro region_rules) simp
  from fine_iter_after [OF loop_fine [OF static it assms(2-4)] within_refl clear] obtain ok s' l' h' where
    r: "decode_loop fuel E sub sp s l (store_size h sp 0) = Some (ok, s', l', h')" "within s s'"
      "iter_at fs n d sp (dl_iter l')" "same_outside A h h'" by (auto simp: fine_iter_def)
  show ?thesis
    using r fine_after [OF check_required_fine [OF sm(6) r(3)] r(2,4)] fine_fail [OF r(2,4)]
    by (cases ok) (simp_all add: decode_message_def sm(3) l_def [symmetric] Let_def)
qed

section \<open>The whole message\<close>

lemma initialised_fine:
  assumes "static_fine E M S rk L" and "m \<in> M" and "L + 2 * rk m + 2 \<le> fuel" and "bytes_of S m d \<subseteq> A"
    and "\<And>h. fine A s h (noinit s m d h)"
  shows "fine A s h (decode_initialised fuel E noinit s m d h)"
proof -
  obtain h1 where h1: "pb_message_set_to_defaults fuel E m d h = Some h1" "same_outside (bytes_of S m d) h h1"
    using static_defaults [OF assms(1-3)] by blast
  have "fine A s h (noinit s m d h1)"
    by (rule fine_after [OF assms(5) within_refl same_mono [OF h1(2) assms(4)]])
  then obtain ok s' h' where "noinit s m d h1 = Some (ok, s', h')" "within s s'" "same_outside A h h'"
    by (auto simp: fine_def)
  with h1(1) static_release [OF assms(1-3)] show ?thesis by (cases ok) (simp_all add: decode_initialised_def)
qed

lemma noinit_fine:
  assumes "static_fine E M S rk L" and "m \<in> M" and "callback s = Buf_read"
    and "bytes_left s + L + 2 * rk m + 4 \<le> fuel"
  shows "fine (bytes_of S m d \<union> {sp - 4 * int (rk m)..<sp + 4}) s h (pb_decode_noinit fuel E sp s m d h)"
  using assms(2-4)
proof (induction "rk m" arbitrary: m s d h sp fuel rule: less_induct)
  case less
  obtain g where g: "fuel = Suc g" using less.prems(3) by (cases fuel) auto
  obtain n where n: "0 < n" "n \<le> L" "table (tables E m) n"
    "\<And>i d. i < n \<Longrightarrow> field_fine M S rk m (field_at (tables E m) 0 i)" using static_fineD [OF assms(1) less.prems(1)] by blast
  define B where "B = {sp - 4 * int (rk m)..<sp}"
  define A where "A = bytes_of S m d \<union> {sp - 4 * int (rk m)..<sp + 4}"
  let ?sub = "\<lambda>initialise. if initialise then decode_initialised g E (pb_decode_noinit g E (sp - 4))
    else pb_decode_noinit g E (sp - 4)"
  have "sub_fine M S rk (rk m) B (bytes_left s) ?sub"
    unfolding sub_fine_def
  proof (intro allI impI, elim conjE)
    fix i m' d' h' and s' :: pb_istream_t assume a: "m' \<in> M" "rk m' < rk m" "callback s' = Buf_read" "bytes_left s' \<le> bytes_left s"
    let ?A' = "{d'..<d' + S m'} \<union> B"
    have go: "fine ?A' s' h (pb_decode_noinit g E (sp - 4) s' m' d' h)" for h
    proof (rule fine_mono [OF less.hyps [OF a(2,1,3)]])
      show "bytes_left s' + L + 2 * rk m' + 4 \<le> g" using less.prems(3) a(2,4) g by simp
      show "bytes_of S m' d' \<union> {sp - 4 - 4 * int (rk m')..<sp - 4 + 4} \<subseteq> ?A'" using a(2) by (auto simp: bytes_of_def B_def)
    qed
    have "L + 2 * rk m' + 2 \<le> g" using less.prems(3) a(2) g by simp
    then have "fine ?A' s' h (decode_initialised g E (pb_decode_noinit g E (sp - 4)) s' m' d' h)" for h
      by (rule initialised_fine [OF assms(1) a(1)]) (simp_all add: bytes_of_def go)
    with go show "fine ?A' s' h' (?sub i s' m' d' h')"
      by (simp add: bytes_of_def)
  qed
  moreover have "B \<subseteq> A" "bytes_of S m d \<subseteq> A" "{sp..<sp + 4} \<subseteq> A" by (auto simp: A_def B_def)
  ultimately have "static_message E M S rk L m (tables E m) n d sp A B (bytes_left s) ?sub"
    using n less.prems(1) assms(1) by (simp add: static_message_def)
  from message_fine [OF this less.prems(2) order_refl] less.prems(3) show ?case
    by (simp add: g A_def)
qed

text \<open>C23. Decoding a message of static fields, nested in any depth, from a buffer returns for every
  input and every contents of memory. The fields lie in their structures, and so do, by the second
  hypothesis, the four bytes at the start of every array of fixed count, which the code clears.
  Fuel of the length of the input, the longest table and two
  per level of nesting (plus a constant) is enough. The stream that is left lies inside the
  input, no memory is allocated or freed, and memory changes only in the bytes of the structure
  and in the stack frames of the decoder, four bytes per level.\<close>

theorem decode_static_message:
  assumes "static_env E M S rk L" and "fixed_counts_fit E M S" and "m \<in> M" and "callback s = Buf_read"
    and "bytes_left s + L + 2 * rk m + 4 \<le> fuel"
  shows "\<exists>ok s' h'. pb_decode fuel E sp s m d h = Some (ok, s', h') \<and> within s s' \<and> live h' = live h \<and>
    (\<forall>x. \<not> (d \<le> x \<and> x < d + S m) \<and> \<not> (sp - 4 * int (rk m) \<le> x \<and> x < sp + 4) \<longrightarrow> mem h' x = mem h x)"
proof -
  let ?A = "bytes_of S m d \<union> {sp - 4 * int (rk m)..<sp + 4}"
  have env: "static_fine E M S rk L" by (rule static_env_fine [OF assms(1,2)])
  have "fine ?A s h (pb_decode fuel E sp s m d h)"
    unfolding pb_decode_def
    using assms(5) by (intro initialised_fine [OF env assms(3)] noinit_fine [OF env assms(3-5)]) auto
  then show ?thesis by (auto simp: fine_def same_outside_def bytes_of_def)
qed

definition label_size :: "nat \<Rightarrow> int" where "label_size m = (if m = 0 then 20 else 32)"

lemma label_static: "static_env sample_env {0, 1} label_size id 2"
proof -
  note sample_tables
  moreover have "field_ok {0, 1} label_size id 0 (field_at [point_x, point_w, last_entry] 0 0)"
    "field_ok {0, 1} label_size id 0 (field_at [point_x, point_w, last_entry] 0 1)"
    "field_ok {0, 1} label_size id 1 (field_at [label_at, label_name, last_entry] 0 0)"
    "field_ok {0, 1} label_size id 1 (field_at [label_at, label_name, last_entry] 0 1)"
    by code_simp+
  ultimately show ?thesis
    unfolding static_env_def by (auto simp: sample_env_def intro!: exI [of _ 2] dest!: less_2_cases)
qed

lemma label_counts: "fixed_counts_fit sample_env {0, 1} label_size"
proof -
  have "\<forall>i \<in> {0, 1}. \<not> (PB_HTYPE (ftype ([point_x, point_w, last_entry] ! i)) = PB_HTYPE_REPEATED \<and>
      size_offset ([point_x, point_w, last_entry] ! i) = 0)"
    "\<forall>i \<in> {0, 1}. \<not> (PB_HTYPE (ftype ([label_at, label_name, last_entry] ! i)) = PB_HTYPE_REPEATED \<and>
      size_offset ([label_at, label_name, last_entry] ! i) = 0)"
    by code_simp+
  then have "i < 2 \<Longrightarrow> \<not> (PB_HTYPE (ftype (tables sample_env m ! i)) = PB_HTYPE_REPEATED \<and>
      size_offset (tables sample_env m ! i) = 0)" for i m
    by (auto simp: sample_env_def less_2_cases_iff)
  moreover have "length (tables sample_env m) - 1 = 2" for m by (simp add: sample_env_def)
  ultimately show ?thesis unfolding fixed_counts_fit_def by metis
qed

lemma decode_static_message_witness:
  "\<exists>ok s' h'. pb_decode 20 sample_env 4096 (pb_istream_from_buffer [0x0A, 5, 8, 5, 0x12, 1, 7, 0x12, 2, 65, 66] 11) 1 64
      \<lparr>mem = \<lambda>a. 7, live = Map.empty\<rparr> = Some (ok, s', h') \<and>
    within (pb_istream_from_buffer [0x0A, 5, 8, 5, 0x12, 1, 7, 0x12, 2, 65, 66] 11) s' \<and>
    live h' = live \<lparr>mem = \<lambda>a. 7, live = Map.empty\<rparr> \<and>
    (\<forall>x. \<not> (64 \<le> x \<and> x < 64 + label_size 1) \<and> \<not> (4096 - 4 * int (id 1) \<le> x \<and> x < 4096 + 4) \<longrightarrow>
       mem h' x = mem \<lparr>mem = \<lambda>a. 7, live = Map.empty\<rparr> x)"
  by (rule decode_static_message [OF label_static label_counts]) (simp_all add: pb_istream_from_buffer_def)

end
