(* ===== verification/Nanopb_Wire.thy ===== *)
theory Nanopb_Wire
  imports Nanopb_Encode Nanopb_Safety Nanopb_Iter Nanopb_Sample
begin

text \<open>
  The wire format of a message in memory as a function to bytes, and that the encoder writes
  exactly these bytes: on a sizing stream it counts them, in a buffer it writes them or reports
  that there is no room, and it fails where the format has no encoding.
\<close>

unbundle bit_operations_syntax

section \<open>Writers of optional byte strings\<close>

definition sizing :: "pb_ostream_t \<Rightarrow> bool" where
  "sizing s \<longleftrightarrow> wcallback s = None \<and> bytes_written s < size_limit"

definition counted :: "pb_ostream_t \<Rightarrow> nat \<Rightarrow> pb_ostream_t" where
  "counted s n = s\<lparr>bytes_written := bytes_written s + n\<rparr>"

text \<open>A submessage replaces the error message of its stream.\<close>

definition put_to :: "pb_ostream_t \<Rightarrow> bytes \<Rightarrow> pb_ostream_t \<Rightarrow> bool" where
  "put_to s d s' \<longleftrightarrow> (\<exists>e. s' = (pb_put s d)\<lparr>werrmsg := e\<rparr>)"

text \<open>The writer returns and keeps the kind of its stream; the specification is \<open>None\<close> where it
  always fails.\<close>

definition steady :: "(pb_ostream_t \<Rightarrow> enc_result) \<Rightarrow> bool" where
  "steady f \<longleftrightarrow>
     (\<forall>s. to_buffer s \<longrightarrow> (\<exists>ok s'. f s = Some (ok, s') \<and> (ok \<longrightarrow> to_buffer s'))) \<and>
     (\<forall>s. sizing s \<longrightarrow> (\<exists>ok s'. f s = Some (ok, s') \<and> sizing s'))"

definition emits :: "(pb_ostream_t \<Rightarrow> enc_result) \<Rightarrow> bytes option \<Rightarrow> bool" where
  "emits f r \<longleftrightarrow> steady f \<and>
     (case r of
        None \<Rightarrow> \<forall>s. to_buffer s \<or> sizing s \<longrightarrow> (\<exists>s'. f s = Some (False, s'))
      | Some d \<Rightarrow>
          (\<forall>s. to_buffer s \<and> bytes_written s + length d < size_limit \<longrightarrow>
             (\<exists>s'. f s = Some (has_room s (length d), s') \<and> (has_room s (length d) \<longrightarrow> put_to s d s'))) \<and>
          (\<forall>s. sizing s \<and> bytes_written s + length d < size_limit \<longrightarrow>
             f s = Some (True, counted s (length d))))"

definition both :: "bytes option \<Rightarrow> bytes option \<Rightarrow> bytes option" where
  "both r t = (case r of None \<Rightarrow> None | Some d \<Rightarrow> map_option ((@) d) t)"

named_theorems emits_rules

lemma put_to_simps:
  assumes "put_to s d s'"
  shows "wcallback s' = wcallback s" "wstate s' = wstate s @ d" "max_size s' = max_size s"
    "bytes_written s' = bytes_written s + length d"
  using assms by (auto simp: put_to_def pb_put_def)

lemma put_to_new: "put_to s d (s\<lparr>bytes_written := bytes_written s + length d, wstate := wstate s @ d, werrmsg := e\<rparr>)"
  unfolding put_to_def by (intro exI [of _ e]) (cases s, simp add: pb_put_def)

lemma put_to_trans: "put_to s d s' \<Longrightarrow> put_to s' e s'' \<Longrightarrow> put_to s (d @ e) s''"
  by (auto simp: put_to_def pb_put_def add.assoc)

lemma to_buffer_put_to: "to_buffer s \<Longrightarrow> has_room s (length d) \<Longrightarrow> put_to s d s' \<Longrightarrow> to_buffer s'"
  by (simp add: to_buffer_def has_room_def put_to_simps)

lemma counted_simps [simp]:
  "wcallback (counted s n) = wcallback s" "bytes_written (counted s n) = bytes_written s + n"
  "counted (counted s m) n = counted s (m + n)"
  by (simp_all add: counted_def add.assoc)

lemma emitsD:
  assumes "emits f (Some d)" and "bytes_written s + length d < size_limit"
  shows "to_buffer s \<Longrightarrow> has_room s (length d) \<Longrightarrow> \<exists>s'. f s = Some (True, s') \<and> put_to s d s'"
    and "to_buffer s \<Longrightarrow> \<not> has_room s (length d) \<Longrightarrow> \<exists>s'. f s = Some (False, s')"
    and "sizing s \<Longrightarrow> f s = Some (True, counted s (length d))"
  using assms by (auto simp: emits_def)

lemma emits_None: "emits f None \<Longrightarrow> to_buffer s \<or> sizing s \<Longrightarrow> \<exists>s'. f s = Some (False, s')"
  by (auto simp: emits_def)

lemma emits_steady: "emits f r \<Longrightarrow> steady f"
  by (simp add: emits_def)

lemma steady_then:
  assumes "steady f" and "steady g"
  shows "steady (\<lambda>s. enc_then (f s) g)"
  unfolding steady_def
proof (intro conjI allI impI)
  fix s :: pb_ostream_t assume "to_buffer s"
  with assms(1) obtain ok s' where f: "f s = Some (ok, s')" "ok \<longrightarrow> to_buffer s'" unfolding steady_def by blast
  with assms(2) show "\<exists>ok s'. enc_then (f s) g = Some (ok, s') \<and> (ok \<longrightarrow> to_buffer s')"
    by (cases ok) (auto simp: enc_then_def steady_def)
next
  fix s :: pb_ostream_t assume "sizing s"
  with assms(1) obtain ok s' where f: "f s = Some (ok, s')" "sizing s'" unfolding steady_def by blast
  with assms(2) show "\<exists>ok s'. enc_then (f s) g = Some (ok, s') \<and> sizing s'"
    by (cases ok) (auto simp: enc_then_def steady_def)
qed

lemma sizing_counted: "sizing s \<Longrightarrow> bytes_written s + n < size_limit \<Longrightarrow> sizing (counted s n)"
  by (simp add: sizing_def)

lemma emits_then [emits_rules]:
  assumes f: "emits f r" and g: "emits g t"
  shows "emits (\<lambda>s. enc_then (f s) g) (both r t)"
proof (cases r)
  case None
  have "\<exists>s'. enc_then (f s) g = Some (False, s')" if "to_buffer s \<or> sizing s" for s
    using emits_None [OF f [unfolded None] that] by (auto simp: enc_then_def)
  with steady_then [OF emits_steady [OF f] emits_steady [OF g]] show ?thesis
    by (simp add: emits_def both_def None)
next
  case (Some d)
  note f = f [unfolded Some]
  show ?thesis
  proof (cases t)
    case None
    have "\<exists>s'. enc_then (f s) g = Some (False, s')" if "to_buffer s \<or> sizing s" for s
    proof -
      obtain ok s' where s': "f s = Some (ok, s')" "ok \<longrightarrow> to_buffer s' \<or> sizing s'"
        using emits_steady [OF f] \<open>to_buffer s \<or> sizing s\<close> unfolding steady_def by blast
      with emits_None [OF g [unfolded None], of s'] show ?thesis by (cases ok) (auto simp: enc_then_def)
    qed
    with steady_then [OF emits_steady [OF f] emits_steady [OF g]] show ?thesis
      by (simp add: emits_def both_def None Some)
  next
    case (Some e)
    note g = g [unfolded Some]
    have "\<exists>s'. enc_then (f s) g = Some (has_room s (length (d @ e)), s') \<and>
        (has_room s (length (d @ e)) \<longrightarrow> put_to s (d @ e) s')"
      if s: "to_buffer s" "bytes_written s + length (d @ e) < size_limit" for s
    proof (cases "has_room s (length d)")
      case True
      have l: "bytes_written s + length d < size_limit" using s(2) by simp
      obtain s1 where s1: "f s = Some (True, s1)" "put_to s d s1" using emitsD(1) [OF f l s(1) True] by blast
      have b: "to_buffer s1" by (rule to_buffer_put_to [OF s(1) True s1(2)])
      have l: "bytes_written s1 + length e < size_limit" using s(2) put_to_simps(4) [OF s1(2)] by simp
      have r: "has_room s1 (length e) \<longleftrightarrow> has_room s (length (d @ e))"
        by (simp add: has_room_def put_to_simps [OF s1(2)] add.assoc)
      from emitsD(1,2) [OF g l b] s1 r put_to_trans [OF s1(2)] show ?thesis
        by (cases "has_room s1 (length e)") (auto simp: enc_then_def)
    next
      case False
      then have "\<not> has_room s (length (d @ e))" by (simp add: has_room_def)
      with emitsD(2) [OF f _ s(1) False] s(2) show ?thesis by (auto simp: enc_then_def)
    qed
    moreover have "enc_then (f s) g = Some (True, counted s (length (d @ e)))"
      if s: "sizing s" "bytes_written s + length (d @ e) < size_limit" for s
      using emitsD(3) [OF f _ s(1)] emitsD(3) [OF g _ sizing_counted [OF s(1)], of "length d"] s(2)
      by (simp add: enc_then_def add.assoc)
    ultimately show ?thesis
      using steady_then [OF emits_steady [OF f] emits_steady [OF g]] \<open>r = Some d\<close> \<open>t = Some e\<close>
      by (simp add: emits_def both_def)
  qed
qed

lemma size_add_less: "size_add a b < size_limit"
  by (simp add: size_add_def)

lemma write_sizing_stream: "sizing s \<Longrightarrow> pb_write s d = (True, s\<lparr>bytes_written := size_add (bytes_written s) (length d)\<rparr>)"
  by (simp add: sizing_def pb_write_def)

lemma steady_write: "steady (\<lambda>s. Some (pb_write s d))"
  unfolding steady_def
proof (intro conjI allI impI)
  fix s :: pb_ostream_t assume s: "to_buffer s"
  obtain ok s' where w: "pb_write s d = (ok, s')" by force
  have "ok \<longrightarrow> to_buffer s'"
    using s w by (cases "d = []") (auto simp: pb_write_def to_buffer_def run_write_def buf_write_def out_error_def Let_def
        size_add_def mod_less split: if_splits)
  with w show "\<exists>ok s'. Some (pb_write s d) = Some (ok, s') \<and> (ok \<longrightarrow> to_buffer s')" by simp
next
  fix s :: pb_ostream_t assume "sizing s"
  then show "\<exists>ok s'. Some (pb_write s d) = Some (ok, s') \<and> sizing s'"
    by (intro exI [of _ True]) (simp add: write_sizing_stream sizing_def size_add_def)
qed

lemma emits_write [emits_rules]:
  assumes "length d < size_limit"
  shows "emits (\<lambda>s. Some (pb_write s d)) (Some d)"
proof -
  have "\<exists>s'. Some (pb_write s d) = Some (has_room s (length d), s') \<and> (has_room s (length d) \<longrightarrow> put_to s d s')"
    if "to_buffer s" for s
  proof (cases "has_room s (length d)")
    case True
    with write_room [OF that True] show ?thesis by (auto simp: put_to_def intro!: exI [of _ "werrmsg s"]) (simp add: pb_put_def)
  next
    case False
    with write_full(1) [OF that False assms] show ?thesis by (cases "pb_write s d") simp
  qed
  moreover have "pb_write s d = (True, counted s (length d))" if "sizing s" "bytes_written s + length d < size_limit" for s
    using that by (simp add: write_sizing_stream counted_def size_add_exact)
  ultimately show ?thesis by (simp add: emits_def steady_write)
qed

lemma emits_nothing [emits_rules]: "emits (\<lambda>s. Some (True, s)) (Some [])"
proof -
  have "put_to s [] s" for s by (cases s) (auto simp: put_to_def pb_put_def)
  then show ?thesis by (auto simp: emits_def steady_def has_room_def to_buffer_def counted_def)
qed

lemma emits_error [emits_rules]: "emits (\<lambda>s. Some (out_error msg s)) None"
  by (auto simp: emits_def steady_def out_error_def sizing_def)

lemma emits_fail [emits_rules]: "emits (\<lambda>s. enc_fail msg s) None"
  unfolding enc_fail_def by (rule emits_error)

lemma emits_if: "emits f r \<Longrightarrow> emits g t \<Longrightarrow> emits (\<lambda>s. if b then f s else g s) (if b then r else t)"
  by simp

section \<open>Two passes\<close>

lemma sizing_start: "sizing PB_OSTREAM_SIZING" "bytes_written PB_OSTREAM_SIZING = 0"
  by (simp_all add: sizing_def PB_OSTREAM_SIZING_def)

lemma sizing_run:
  assumes "emits f r"
  shows "r = None \<Longrightarrow> \<exists>s'. f PB_OSTREAM_SIZING = Some (False, s')"
    and "r = Some d \<Longrightarrow> length d < size_limit \<Longrightarrow> f PB_OSTREAM_SIZING = Some (True, counted PB_OSTREAM_SIZING (length d))"
    and "\<exists>ok s'. f PB_OSTREAM_SIZING = Some (ok, s') \<and> bytes_written s' < size_limit"
proof -
  show "r = None \<Longrightarrow> \<exists>s'. f PB_OSTREAM_SIZING = Some (False, s')"
    using emits_None [of f PB_OSTREAM_SIZING] assms sizing_start by simp
  show "r = Some d \<Longrightarrow> length d < size_limit \<Longrightarrow> f PB_OSTREAM_SIZING = Some (True, counted PB_OSTREAM_SIZING (length d))"
    using emitsD(3) [of f d PB_OSTREAM_SIZING] assms sizing_start by simp
  show "\<exists>ok s'. f PB_OSTREAM_SIZING = Some (ok, s') \<and> bytes_written s' < size_limit"
    using emits_steady [OF assms] sizing_start(1) unfolding steady_def sizing_def by blast
qed

text \<open>A step that writes the length \<open>n\<close> and then \<open>n\<close> bytes.\<close>

definition with_length :: "nat \<Rightarrow> (pb_ostream_t \<Rightarrow> enc_result) \<Rightarrow> pb_ostream_t \<Rightarrow> enc_result" where
  "with_length n f s =
     enc_then (Some (pb_encode_varint s (of_nat n)))
       (\<lambda>s. if wcallback s = None then Some (write_sizing s n) else f s)"

lemma emits_varint [emits_rules]: "emits (\<lambda>s. Some (pb_encode_varint s v)) (Some (leb128 (unat v)))"
  unfolding encode_varint_leb128 by (rule emits_write [OF leb128_u64_fits])

lemma steady_length:
  assumes "n < size_limit" and "\<And>s. to_buffer s \<Longrightarrow> \<exists>ok s'. f s = Some (ok, s') \<and> (ok \<longrightarrow> to_buffer s')"
  shows "steady (with_length n f)"
  unfolding with_length_def
proof (rule steady_then [OF emits_steady [OF emits_varint]])
  show "steady (\<lambda>s. if wcallback s = None then Some (write_sizing s n) else f s)"
    using assms by (auto simp: steady_def to_buffer_def sizing_def write_sizing_def size_add_def)
qed

lemma emits_length:
  assumes "n < size_limit" and "length d < size_limit \<Longrightarrow> n = length d"
    and "\<And>s. to_buffer s \<Longrightarrow> \<exists>ok s'. f s = Some (ok, s') \<and> (ok \<longrightarrow> to_buffer s')"
    and "\<And>s. to_buffer s \<Longrightarrow> bytes_written s + length d < size_limit \<Longrightarrow>
      \<exists>s'. f s = Some (has_room s (length d), s') \<and> (has_room s (length d) \<longrightarrow> put_to s d s')"
  shows "emits (with_length n f) (Some (string_bytes d))"
proof (cases "length d < size_limit")
  case True
  note n = assms(2) [OF True]
  have u: "unat (of_nat (length d) :: u64) = length d" using True by (intro unat_of_nat_less) simp
  have "emits (\<lambda>s. if wcallback s = None then Some (write_sizing s n) else f s) (Some d)"
    using assms(3,4) True by (auto simp: emits_def steady_def to_buffer_def sizing_def write_sizing_def n size_add_def counted_def)
  from emits_then [OF emits_varint [of "of_nat n"] this] show ?thesis
    unfolding with_length_def by (simp add: both_def string_bytes_def n u)
next
  case False
  with steady_length [OF assms(1,3)] show ?thesis by (simp add: emits_def string_bytes_def)
qed

lemma submessage_length:
  assumes "enc PB_OSTREAM_SIZING m src = Some (True, ss)"
  shows "pb_encode_submessage enc s m src = with_length (bytes_written ss) (\<lambda>s.
    if size_add (bytes_written s) (bytes_written ss) > max_size s then enc_fail ''stream full'' s
    else case enc \<lparr>wcallback = wcallback s, wstate = wstate s, max_size = bytes_written ss,
                   bytes_written = 0, werrmsg = None\<rparr> m src of
           None \<Rightarrow> None
         | Some (status, sub) \<Rightarrow>
             let s = s\<lparr>bytes_written := size_add (bytes_written s) (bytes_written sub),
                       wstate := wstate sub, werrmsg := werrmsg sub\<rparr>
             in if bytes_written sub \<noteq> bytes_written ss then enc_fail ''submsg size changed'' s
                else Some (status, s)) s"
  unfolding pb_encode_submessage_def with_length_def assms Let_def option.case prod.case bool.case by (rule refl)

lemma emits_submessage [emits_rules]:
  assumes e: "emits (\<lambda>s. enc s m src) r"
  shows "emits (\<lambda>s. pb_encode_submessage enc s m src) (map_option string_bytes r)"
proof (cases r)
  case None
  with sizing_run(1) [OF e] obtain ss where "enc PB_OSTREAM_SIZING m src = Some (False, ss)" by blast
  then have "pb_encode_submessage enc s m src = Some (False, s\<lparr>werrmsg := werrmsg ss\<rparr>)" for s
    by (simp add: pb_encode_submessage_def)
  then show ?thesis by (auto simp: None emits_def steady_def sizing_def)
next
  case (Some d)
  obtain ok ss where ss: "enc PB_OSTREAM_SIZING m src = Some (ok, ss)" "bytes_written ss < size_limit"
    using sizing_run(3) [OF e] by blast
  have small: "ok \<and> bytes_written ss = length d" if "length d < size_limit"
    using sizing_run(2) [OF e Some that] ss(1) by (simp add: sizing_start)
  show ?thesis
  proof (cases ok)
    case False
    then have r: "pb_encode_submessage enc s m src = Some (False, s\<lparr>werrmsg := werrmsg ss\<rparr>)" for s
      using ss by (simp add: pb_encode_submessage_def)
    have "\<not> length d < size_limit" using small False by blast
    with r show ?thesis by (auto simp: Some emits_def steady_def sizing_def string_bytes_def)
  next
    case True
    let ?n = "bytes_written ss"
    define g where "g = (\<lambda>s. if size_add (bytes_written s) ?n > max_size s then enc_fail ''stream full'' s
      else case enc \<lparr>wcallback = wcallback s, wstate = wstate s, max_size = ?n, bytes_written = 0, werrmsg = None\<rparr> m src of
             None \<Rightarrow> None
           | Some (status, sub) \<Rightarrow>
               let s = s\<lparr>bytes_written := size_add (bytes_written s) (bytes_written sub),
                         wstate := wstate sub, werrmsg := werrmsg sub\<rparr>
               in if bytes_written sub \<noteq> ?n then enc_fail ''submsg size changed'' s else Some (status, s))"
    have eq: "(\<lambda>s. pb_encode_submessage enc s m src) = with_length ?n g"
      by (rule ext) (simp only: g_def submessage_length [of enc m src ss, OF ss(1) [unfolded eqTrueI [OF True]]])
    define open_sub where "open_sub s = \<lparr>wcallback = wcallback s, wstate = wstate s, max_size = ?n, bytes_written = 0, werrmsg = None\<rparr>"
      for s :: pb_ostream_t
    have buf: "to_buffer (open_sub s)" if "to_buffer s" for s
      using that ss(2) by (simp add: to_buffer_def open_sub_def)
    have g_steady: "\<exists>ok s'. g s = Some (ok, s') \<and> (ok \<longrightarrow> to_buffer s')" if s: "to_buffer s" for s
    proof -
      obtain ok' sub where sub: "enc (open_sub s) m src = Some (ok', sub)"
        using emits_steady [OF e] buf [OF s] unfolding steady_def by blast
      then show ?thesis
        using s unfolding g_def open_sub_def [symmetric] sub
        by (auto simp: enc_fail_def out_error_def Let_def to_buffer_def)
    qed
    have g_emits: "\<exists>s'. g s = Some (has_room s (length d), s') \<and> (has_room s (length d) \<longrightarrow> put_to s d s')"
      if s: "to_buffer s" "bytes_written s + length d < size_limit" for s
    proof -
      have n: "?n = length d" using small s(2) by simp
      have room: "has_room (open_sub s) (length d)" by (simp add: has_room_def open_sub_def n)
      have "bytes_written (open_sub s) + length d < size_limit" using s(2) by (simp add: open_sub_def)
      from emitsD(1) [OF e [unfolded Some] this buf [OF s(1)] room] obtain sub where
        sub: "enc (open_sub s) m src = Some (True, sub)" "put_to (open_sub s) d sub" by blast
      have a: "size_add (bytes_written s) ?n = bytes_written s + length d" using s(2) n by (simp add: size_add_exact)
      have w: "bytes_written sub = length d" "wstate sub = wstate s @ d"
        using put_to_simps [OF sub(2)] by (simp_all add: open_sub_def)
      show ?thesis
        unfolding g_def open_sub_def [symmetric] sub(1)
        using a w n by (auto simp: has_room_def enc_fail_def out_error_def put_to_new)
    qed
    show ?thesis
      unfolding eq Some option.map by (rule emits_length [OF ss(2) _ g_steady g_emits]) (use small in auto)
  qed
qed

text \<open>The entries of an array.\<close>

fun all_of :: "bytes option list \<Rightarrow> bytes option" where
  "all_of [] = Some []"
| "all_of (r # rs) = both r (all_of rs)"

lemma emits_packed_loop:
  assumes "\<And>p. emits (\<lambda>s. f s field p) (v p)"
  shows "emits (\<lambda>s. packed_loop k f field s p) (all_of (map (\<lambda>i. v (p + int i * uint (data_size field))) [0..<k]))"
proof (induction k arbitrary: p)
  case (Suc k)
  have "map (\<lambda>i. v (p + int i * uint (data_size field))) [0..<Suc k] =
      v p # map (\<lambda>i. v ((p + uint (data_size field)) + int i * uint (data_size field))) [0..<k]"
    by (simp only: upt_rec [of 0 "Suc k"] map_Suc_upt [symmetric]) (simp add: algebra_simps)
  with emits_then [OF assms [of p] Suc.IH [of "p + uint (data_size field)"]] show ?case by simp
qed (simp add: emits_nothing)

section \<open>The wire format\<close>

text \<open>The zigzag number of a signed number, and the string at \<open>a\<close> in \<open>n\<close> bytes.\<close>

definition zigzag_number :: "u64 \<Rightarrow> nat" where
  "zigzag_number v = nat (if sint v < 0 then - 2 * sint v - 1 else 2 * sint v)"

definition c_string :: "pb_heap \<Rightarrow> int \<Rightarrow> nat \<Rightarrow> bytes" where
  "c_string h a n = takeWhile (\<lambda>b. b \<noteq> 0) (load h a n)"

text \<open>The bytes of one value at \<open>a\<close>; \<open>sub\<close> gives those of a submessage.\<close>

definition value_bytes ::
  "pb_heap \<Rightarrow> (nat \<Rightarrow> int \<Rightarrow> bytes option) \<Rightarrow> pb_field_t \<Rightarrow> int \<Rightarrow> bytes option" where
  "value_bytes h sub f a =
     (let lt = PB_LTYPE (ftype f); n = unat (data_size f); d = load h a n;
          integer = (\<lambda>v. if int_size (data_size f) then Some (leb128 v) else None)
      in if lt = PB_LTYPE_BOOL then Some [if mem h a \<noteq> 0 then 1 else 0]
         else if lt = PB_LTYPE_VARINT then integer (unat (signed_value f d))
         else if lt = PB_LTYPE_UVARINT then integer (unat (of_nat (le_val d) :: u64))
         else if lt = PB_LTYPE_SVARINT then integer (zigzag_number (signed_value f d))
         else if lt = PB_LTYPE_FIXED32 then Some (load h a 4)
         else if lt = PB_LTYPE_FIXED64 then Some (load h a 8)
         else if lt = PB_LTYPE_BYTES then
           if a = 0 then Some (string_bytes [])
           else let k = unat (load_size h a)
                in if PB_ATYPE (ftype f) = PB_ATYPE_STATIC \<and> k + 4 > n then None
                   else Some (string_bytes (load h (bytes_of_array a) k))
         else if lt = PB_LTYPE_STRING then
           Some (string_bytes (if a = 0 then []
             else c_string h a (if PB_ATYPE (ftype f) = PB_ATYPE_POINTER then size_limit - 1 else n)))
         else if lt = PB_LTYPE_FIXED_LENGTH_BYTES then Some (string_bytes d)
         else (case submsg_fields f of None \<Rightarrow> None | Some m \<Rightarrow> map_option string_bytes (sub m a)))"

definition wire_type :: "u8 \<Rightarrow> u32" where
  "wire_type lt =
     (if lt \<le> PB_LTYPE_SVARINT then PB_WT_VARINT else if lt = PB_LTYPE_FIXED32 then PB_WT_32BIT
      else if lt = PB_LTYPE_FIXED64 then PB_WT_64BIT else PB_WT_STRING)"

text \<open>Arrays of numbers are packed; the others have an entry with a tag for each item.\<close>

definition array_bytes ::
  "pb_heap \<Rightarrow> (nat \<Rightarrow> int \<Rightarrow> bytes option) \<Rightarrow> pb_field_t \<Rightarrow> int \<Rightarrow> nat \<Rightarrow> bytes option" where
  "array_bytes h sub f a count =
     (let lt = PB_LTYPE (ftype f); pointer = (PB_ATYPE (ftype f) = PB_ATYPE_POINTER);
          item = (\<lambda>i. a + int i * uint (data_size f));
          item' = (\<lambda>i. if pointer \<and> (lt = PB_LTYPE_STRING \<or> lt = PB_LTYPE_BYTES) then load_ptr h (item i) else item i)
      in if count = 0 then Some []
         else if \<not> pointer \<and> count > unat (array_size f) then None
         else if lt \<le> PB_LTYPE_LAST_PACKABLE then
           both (Some (tag_bytes (PB_WT_STRING, ftag f)))
             (map_option string_bytes (all_of (map (\<lambda>i. value_bytes h sub f (item i)) [0..<count])))
         else all_of (map (\<lambda>i. both (Some (tag_bytes (wire_type lt, ftag f))) (value_bytes h sub f (item' i))) [0..<count]))"

text \<open>
  Whether a field at \<open>pd\<close> holds anything: what a flag, a count or the tag of a union says, that a
  pointer is not \<open>NULL\<close>, and for a field in the structure without a flag, that its number is not 0,
  its string or byte string is not empty, or any field of its submessage holds something. Required
  fields and arrays of fixed count always do. The first argument bounds the nesting.
\<close>

fun field_set :: "nat \<Rightarrow> pb_env \<Rightarrow> pb_heap \<Rightarrow> pb_field_t \<Rightarrow> int \<Rightarrow> bool" where
  "field_set 0 E h f pd = False"
| "field_set (Suc k) E h f pd =
     (let t = ftype f; lt = PB_LTYPE t; pointer = (PB_ATYPE t = PB_ATYPE_POINTER); cell = pd + sint (size_offset f)
      in if PB_HTYPE t = PB_HTYPE_REQUIRED then True
         else if PB_HTYPE t = PB_HTYPE_ONEOF \<or> PB_HTYPE t = PB_HTYPE_REPEATED \<and> size_offset f \<noteq> 0
         then load_size h cell \<noteq> 0
         else if PB_HTYPE t = PB_HTYPE_OPTIONAL \<and> size_offset f \<noteq> 0 then mem h cell \<noteq> 0
         else if pointer then load_ptr h pd \<noteq> 0
         else if PB_HTYPE t = PB_HTYPE_REPEATED then True
         else if lt = PB_LTYPE_BYTES then load_size h pd \<noteq> 0
         else if lt = PB_LTYPE_STRING then mem h pd \<noteq> 0
         else if lt = PB_LTYPE_FIXED_LENGTH_BYTES then data_size f \<noteq> 0
         else if lt = PB_LTYPE_SUBMESSAGE then
           (case fptr f of
              Ptr_fields m \<Rightarrow>
                \<exists>i \<in> {0..<length (tables E m) - 1}. field_set k E h (tables E m ! i) (data_addr (tables E m) pd i)
            | _ \<Rightarrow> False)
         else load_num h pd (unat (data_size f)) \<noteq> 0)"

text \<open>A field whose descriptor is \<open>f\<close> and whose address is \<open>pd\<close>; \<open>given\<close> says which optional fields
  hold something.\<close>

definition field_bytes ::
  "(pb_field_t \<Rightarrow> int \<Rightarrow> bool) \<Rightarrow> pb_heap \<Rightarrow> (nat \<Rightarrow> int \<Rightarrow> bytes option) \<Rightarrow> pb_field_t \<Rightarrow> int \<Rightarrow> bytes option" where
  "field_bytes given h sub f pd =
     (let t = ftype f; pointer = (PB_ATYPE t = PB_ATYPE_POINTER); a = (if pointer then load_ptr h pd else pd);
          cell = pd + sint (size_offset f);
          one = both (Some (tag_bytes (wire_type (PB_LTYPE t), ftag f))) (value_bytes h sub f a)
      in if PB_HTYPE t = PB_HTYPE_REQUIRED then if a = 0 then None else one
         else if PB_HTYPE t = PB_HTYPE_OPTIONAL then if given f pd then one else Some []
         else if PB_HTYPE t = PB_HTYPE_REPEATED then
           array_bytes h sub f a (if size_offset f \<noteq> 0 then unat (load_size h cell) else unat (array_size f))
         else if load_size h cell = ftag f then one else Some [])"

text \<open>A message: its fields in the order of the table, each at its address in the structure. The
  first argument bounds the nesting.\<close>

fun message_bytes :: "nat \<Rightarrow> pb_env \<Rightarrow> pb_heap \<Rightarrow> nat \<Rightarrow> int \<Rightarrow> bytes option" where
  "message_bytes 0 E h m a = None"
| "message_bytes (Suc k) E h m a =
     all_of (map (\<lambda>i. field_bytes (field_set k E h) h (message_bytes k E h) (tables E m ! i) (data_addr (tables E m) a i))
       [0..<length (tables E m) - 1])"

section \<open>The encoder writes the wire format\<close>

lemma emits_string [emits_rules]:
  assumes "length d < size_limit"
  shows "emits (\<lambda>s. Some (pb_encode_string s d)) (Some (string_bytes d))"
proof -
  have u: "unat (of_nat (length d) :: u64) = length d" using assms by (intro unat_of_nat_less) simp
  have "(\<lambda>s. Some (pb_encode_string s d)) =
      (\<lambda>s. enc_then (Some (pb_encode_varint s (of_nat (length d)))) (\<lambda>s. Some (pb_write s d)))"
    by (rule ext) (auto simp: pb_encode_string_def enc_then_def split: prod.splits bool.splits)
  with emits_then [OF emits_varint [of "of_nat (length d)"] emits_write [OF assms]] show ?thesis
    by (simp add: both_def string_bytes_def u)
qed

lemma emits_tag [emits_rules]:
  "unat wt < 8 \<Longrightarrow> emits (\<lambda>s. Some (pb_encode_tag s wt t)) (Some (tag_bytes (wt, t)))"
  using emits_varint [of "push_bit 3 (ucast t) OR ucast wt"] tag_word [of wt t]
  by (simp add: pb_encode_tag_def tag_bytes_def)

lemmas wire_types = PB_WT_VARINT_def PB_WT_64BIT_def PB_WT_STRING_def PB_WT_32BIT_def

definition basic_type :: "u8 \<Rightarrow> bool" where
  "basic_type lt \<longleftrightarrow> lt \<le> PB_LTYPE_FIXED_LENGTH_BYTES \<and> lt \<noteq> PB_LTYPE_EXTENSION"

lemma basic_type_cases:
  assumes "basic_type lt"
  shows "lt = PB_LTYPE_BOOL \<or> lt = PB_LTYPE_VARINT \<or> lt = PB_LTYPE_UVARINT \<or> lt = PB_LTYPE_SVARINT \<or>
    lt = PB_LTYPE_FIXED32 \<or> lt = PB_LTYPE_FIXED64 \<or> lt = PB_LTYPE_BYTES \<or> lt = PB_LTYPE_STRING \<or>
    lt = PB_LTYPE_SUBMESSAGE \<or> lt = PB_LTYPE_FIXED_LENGTH_BYTES"
proof -
  have "unat lt \<le> 10" "lt \<noteq> 9" using assms by (auto simp: basic_type_def ltype_values word_le_nat_alt)
  moreover have "unat lt \<noteq> 9" using \<open>lt \<noteq> 9\<close> by (simp add: word_unat_eq_iff)
  ultimately have "unat lt = 0 \<or> unat lt = 1 \<or> unat lt = 2 \<or> unat lt = 3 \<or> unat lt = 4 \<or> unat lt = 5 \<or>
      unat lt = 6 \<or> unat lt = 7 \<or> unat lt = 8 \<or> unat lt = 10" by presburger
  then show ?thesis unfolding ltype_values word_unat_eq_iff by simp
qed

lemma emits_field_tag [emits_rules]:
  assumes "basic_type (PB_LTYPE (ftype f))"
  shows "emits (\<lambda>s. Some (pb_encode_tag_for_field s f)) (Some (tag_bytes (wire_type (PB_LTYPE (ftype f)), ftag f)))"
  using basic_type_cases [OF assms] emits_tag [of _ "ftag f"]
  by (auto simp: pb_encode_tag_for_field_def wire_type_def ltype_values wire_types Let_def)

lemma load_one: "load h a (Suc 0) = [mem h a]"
  by (simp add: load_def)

lemma le_bytes_load: "le_bytes n (unat (of_nat (load_num h a n) :: 'a :: len word)) = load h a n"
  if "8 * n \<le> LENGTH('a)"
proof -
  have "load_num h a n < 2 ^ (8 * n)" using le_val_less [of "load h a n"] by (simp add: load_num_def bits_256)
  moreover have "(2 :: nat) ^ (8 * n) \<le> 2 ^ LENGTH('a)" using that by (intro power_increasing) simp_all
  ultimately have "unat (of_nat (load_num h a n) :: 'a word) = load_num h a n"
    by (intro unat_of_nat_less) linarith
  then show ?thesis using le_bytes_le_val [of "load h a n"] by (simp add: load_num_def)
qed

lemma allocsize_fits: "n < 2 ^ 32 \<Longrightarrow> PB_BYTES_ARRAY_T_ALLOCSIZE n = n + 4"
  by (simp add: PB_BYTES_ARRAY_T_ALLOCSIZE_def size_add_exact)

lemma emits_bytes_at:
  "emits (\<lambda>s. pb_enc_bytes_at h s f a)
     (if a = 0 then Some (string_bytes [])
      else let k = unat (load_size h a)
           in if PB_ATYPE (ftype f) = PB_ATYPE_STATIC \<and> k + 4 > unat (data_size f) then None
              else Some (string_bytes (load h (bytes_of_array a) k)))"
proof -
  have k: "unat (load_size h a) < 2 ^ 32" using unat_less_pow [of "load_size h a"] by simp
  then have "unat (load_size h a) < size_limit" by simp
  then have d: "emits (\<lambda>s. Some (pb_encode_string s (load h (bytes_of_array a) (unat (load_size h a)))))
      (Some (string_bytes (load h (bytes_of_array a) (unat (load_size h a)))))"
    by (intro emits_string) simp
  define big where "big \<longleftrightarrow> PB_ATYPE (ftype f) = PB_ATYPE_STATIC \<and> unat (data_size f) < unat (load_size h a) + 4"
  show ?thesis
    using d emits_string [of "[]"] emits_error
    unfolding pb_enc_bytes_at_def pb_enc_bytes_def Let_def big_def [symmetric]
    by (cases big) (simp_all add: allocsize_fits [OF k] big_def [symmetric])
qed

lemma zigzag_exact: "unat (zigzag v) = zigzag_number v"
proof -
  have r: "- (2 ^ 63) \<le> sint v" "sint v < 2 ^ 63" using sint_greater_eq [of v] sint_less [of v] by simp_all
  have two: "push_bit 1 v = word_of_int (2 * sint v)" by (simp add: push_bit_eq_mult)
  have exact: "unat (word_of_int k :: u64) = nat k" if "0 \<le> k" "k < 2 ^ 64" for k
    using that by (simp add: unsigned_of_int take_bit_int_eq_self)
  show ?thesis
  proof (cases "sint v < 0")
    case True
    have "zigzag v = word_of_int (- 2 * sint v - 1)"
      using True unfolding zigzag_def two not_eq_complement by simp
    with True r exact [of "- 2 * sint v - 1"] show ?thesis by (simp only: zigzag_number_def if_True) simp
  next
    case False
    then have "zigzag v = word_of_int (2 * sint v)" unfolding zigzag_def two by simp
    with False r exact [of "2 * sint v"] show ?thesis by (simp only: zigzag_number_def if_False) simp
  qed
qed

lemma load_Suc: "load h a (Suc n) = mem h a # load h (a + 1) n"
  unfolding load_def upt_rec [of 0 "Suc n"] map_Suc_upt [symmetric] by (simp add: comp_def ac_simps)

lemma strnlen_string: "load h a (c_strnlen n h a) = c_string h a n"
proof (induction n arbitrary: a)
  case (Suc n)
  then show ?case by (simp add: c_string_def load_Suc) (simp add: load_def)
qed (simp add: c_string_def load_def)

lemma length_c_string: "length (c_string h a n) \<le> n"
  unfolding c_string_def using length_takeWhile_le [of _ "load h a n"] by simp

lemma emits_value:
  assumes "basic_type (PB_LTYPE (ftype f))" and "\<And>m a. PB_LTYPE (ftype f) = PB_LTYPE_SUBMESSAGE \<Longrightarrow> submsg_fields f = Some m \<Longrightarrow> emits (\<lambda>s. enc s m a) (sub m a)"
  shows "emits (\<lambda>s. run_encoder h enc s f a) (value_bytes h sub f a)"
proof -
  have w: "emits (\<lambda>s. Some (pb_write s d)) (Some d)" if "length d \<le> 8" for d
    using that by (intro emits_write) simp
  have str: "emits (\<lambda>s. Some (pb_encode_string s d)) (Some (string_bytes d))" if "length d < size_limit" for d
    using that by (rule emits_string)
  have sz: "unat (data_size f) < size_limit" using unat_less_pow [of "data_size f"] by simp
  from basic_type_cases [OF assms(1)] show ?thesis
  proof (elim disjE)
    assume "PB_LTYPE (ftype f) = PB_LTYPE_BOOL"
    then show ?thesis
      using emits_varint [of 0] emits_varint [of 1]
      by (simp add: run_encoder_def PB_ENCODERS_def value_bytes_def ltype_values Let_def load_one pb_enc_bool_def
          safe_read_bool_def leb128_small)
  next
    assume "PB_LTYPE (ftype f) = PB_LTYPE_VARINT"
    then show ?thesis
      using emits_varint emits_error
      by (simp add: run_encoder_def PB_ENCODERS_def value_bytes_def ltype_values Let_def pb_enc_varint_def)
  next
    assume "PB_LTYPE (ftype f) = PB_LTYPE_UVARINT"
    then show ?thesis
      using emits_varint emits_error
      by (simp add: run_encoder_def PB_ENCODERS_def value_bytes_def ltype_values Let_def pb_enc_uvarint_def)
  next
    assume "PB_LTYPE (ftype f) = PB_LTYPE_SVARINT"
    then show ?thesis
      using emits_varint [of "zigzag (signed_value f (load h a (unat (data_size f))))"] emits_error
      by (simp add: run_encoder_def PB_ENCODERS_def value_bytes_def ltype_values Let_def pb_enc_svarint_def
          pb_encode_svarint_def zigzag_def [symmetric] zigzag_exact)
  next
    assume "PB_LTYPE (ftype f) = PB_LTYPE_FIXED32"
    then show ?thesis
      using w [of "load h a 4"]
      by (simp add: run_encoder_def PB_ENCODERS_def value_bytes_def ltype_values Let_def pb_enc_fixed32_def
          encode_fixed32_le le_bytes_load)
  next
    assume "PB_LTYPE (ftype f) = PB_LTYPE_FIXED64"
    then show ?thesis
      using w [of "load h a 8"]
      by (simp add: run_encoder_def PB_ENCODERS_def value_bytes_def ltype_values Let_def pb_enc_fixed64_def
          encode_fixed64_le le_bytes_load)
  next
    assume "PB_LTYPE (ftype f) = PB_LTYPE_BYTES"
    then show ?thesis
      using emits_bytes_at [of h f a] by (simp add: run_encoder_def PB_ENCODERS_def value_bytes_def ltype_values Let_def)
  next
    assume "PB_LTYPE (ftype f) = PB_LTYPE_STRING"
    moreover have "length (c_string h a (if PB_ATYPE (ftype f) = PB_ATYPE_POINTER then size_limit - 1 else unat (data_size f)))
        < size_limit"
      using length_c_string [of h a "size_limit - 1"] length_c_string [of h a "unat (data_size f)"] sz by simp
    moreover have "pb_enc_string_at h s f a = Some (pb_encode_string s (if a = 0 then []
        else c_string h a (if PB_ATYPE (ftype f) = PB_ATYPE_POINTER then size_limit - 1 else unat (data_size f))))" for s
      unfolding pb_enc_string_at_def Let_def strnlen_string [symmetric] by (simp add: load_def)
    ultimately show ?thesis
      using str [of "c_string h a (if PB_ATYPE (ftype f) = PB_ATYPE_POINTER then size_limit - 1 else unat (data_size f))"]
        str [of "[]"]
      by (simp add: run_encoder_def PB_ENCODERS_def value_bytes_def ltype_values Let_def)
  next
    assume "PB_LTYPE (ftype f) = PB_LTYPE_SUBMESSAGE"
    then show ?thesis
      using assms(2) emits_submessage [of enc _ a] emits_fail
      by (cases "submsg_fields f") (simp_all add: run_encoder_def PB_ENCODERS_def value_bytes_def ltype_values Let_def
          pb_enc_submessage_def)
  next
    assume "PB_LTYPE (ftype f) = PB_LTYPE_FIXED_LENGTH_BYTES"
    then show ?thesis
      using str [of "load h a (unat (data_size f))"] sz
      by (simp add: run_encoder_def PB_ENCODERS_def value_bytes_def ltype_values Let_def pb_enc_fixed_length_bytes_def)
  qed
qed

subsection \<open>Arrays\<close>

lemma all_of_length:
  "all_of rs = Some d \<Longrightarrow> \<forall>r \<in> set rs. \<forall>e. r = Some e \<longrightarrow> length e = k \<Longrightarrow> length d = k * length rs"
  by (induction rs arbitrary: d) (auto simp: both_def split: option.splits)

lemma all_of_Some: "\<forall>r \<in> set rs. r \<noteq> None \<Longrightarrow> \<exists>d. all_of rs = Some d"
  by (induction rs) (auto simp: both_def)

lemma packable_types:
  assumes "basic_type lt" and "lt \<le> PB_LTYPE_LAST_PACKABLE"
  shows "wire_type lt \<in> {PB_WT_VARINT, PB_WT_32BIT, PB_WT_64BIT}"
  using assms basic_type_cases [OF assms(1)]
  by (auto simp: wire_type_def wire_types ltype_values PB_LTYPE_LAST_PACKABLE_def)

lemma emits_unpacked_loop:
  assumes "basic_type (PB_LTYPE (ftype f))" and "\<And>a. emits (\<lambda>s. g s f a) (v a)"
  shows "emits (\<lambda>s. unpacked_loop k h g f s p)
    (all_of (map (\<lambda>i. both (Some (tag_bytes (wire_type (PB_LTYPE (ftype f)), ftag f)))
       (v (if PB_ATYPE (ftype f) = PB_ATYPE_POINTER \<and>
              (PB_LTYPE (ftype f) = PB_LTYPE_STRING \<or> PB_LTYPE (ftype f) = PB_LTYPE_BYTES)
           then load_ptr h (p + int i * uint (data_size f)) else p + int i * uint (data_size f)))) [0..<k]))"
proof (induction k arbitrary: p)
  case (Suc k)
  define item where "item a = (if PB_ATYPE (ftype f) = PB_ATYPE_POINTER \<and>
      (PB_LTYPE (ftype f) = PB_LTYPE_STRING \<or> PB_LTYPE (ftype f) = PB_LTYPE_BYTES) then load_ptr h a else a)" for a
  define w where "w a = both (Some (tag_bytes (wire_type (PB_LTYPE (ftype f)), ftag f))) (v (item a))" for a
  have split: "map (\<lambda>i. w (p + int i * uint (data_size f))) [0..<Suc k] =
      w p # map (\<lambda>i. w ((p + uint (data_size f)) + int i * uint (data_size f))) [0..<k]"
    by (simp only: upt_rec [of 0 "Suc k"] map_Suc_upt [symmetric]) (simp add: algebra_simps)
  have assoc: "both (Some x) (both y z) = both (both (Some x) y) z" for x y z
    by (cases z) (auto simp: both_def split: option.splits)
  from emits_then [OF emits_field_tag [OF assms(1)] emits_then [OF assms(2) Suc.IH [folded item_def, folded w_def]],
      of "item p" "p + uint (data_size f)"]
  show ?case
    unfolding item_def [symmetric] w_def [symmetric] split unpacked_loop.simps all_of.simps
    by (simp add: w_def assoc)
qed (simp add: emits_nothing)

lemma emits_array:
  assumes b: "basic_type (PB_LTYPE (ftype f))" and v: "\<And>a. emits (\<lambda>s. run_encoder h enc s f a) (value_bytes h sub f a)"
    and count: "count < 2 ^ 32"
  shows "emits (\<lambda>s. encode_array h enc s f a count) (array_bytes h sub f a count)"
proof -
  let ?lt = "PB_LTYPE (ftype f)"
  let ?items = "all_of (map (\<lambda>i. value_bytes h sub f (a + int i * uint (data_size f))) [0..<count])"
  have loop: "emits (\<lambda>s. packed_loop count (run_encoder h enc) f s a) ?items"
    using v by (rule emits_packed_loop)
  have tag: "emits (\<lambda>s. Some (pb_encode_tag s PB_WT_STRING (ftag f))) (Some (tag_bytes (PB_WT_STRING, ftag f)))"
    by (rule emits_tag) (simp add: wire_types)
  have steady_loop: "\<exists>ok s'. packed_loop count (run_encoder h enc) f s a = Some (ok, s') \<and> (ok \<longrightarrow> to_buffer s')"
    if "to_buffer s" for s
    using emits_steady [OF loop] that unfolding steady_def by blast
  have go: "emits (with_length n (\<lambda>s. packed_loop count (run_encoder h enc) f s a)) (Some (string_bytes d))"
    if "?items = Some d" "n < size_limit" "length d < size_limit \<Longrightarrow> n = length d" for n d
    using loop that(1) steady_loop by (intro emits_length that(2,3)) (auto simp: emits_def)
  define r where "r = (if ?lt = PB_LTYPE_FIXED32 then Some (True, 4 * count)
      else if ?lt = PB_LTYPE_FIXED64 then Some (True, 8 * count)
      else map_option (\<lambda>(ok, s). (ok, bytes_written s)) (packed_loop count (run_encoder h enc) f PB_OSTREAM_SIZING a))"
  have packed: "emits (\<lambda>s. case r of None \<Rightarrow> None | Some (False, _) \<Rightarrow> Some (False, s)
      | Some (True, n) \<Rightarrow> with_length n (\<lambda>s. packed_loop count (run_encoder h enc) f s a) s)
    (map_option string_bytes ?items)"
  proof (cases "?lt = PB_LTYPE_FIXED32 \<or> ?lt = PB_LTYPE_FIXED64")
    case True
    define k where "k = (if ?lt = PB_LTYPE_FIXED32 then 4 else 8 :: nat)"
    have val: "\<exists>e. value_bytes h sub f p = Some e \<and> length e = k" for p
      using True by (auto simp: value_bytes_def ltype_values k_def Let_def)
    then have "\<forall>r \<in> set (map (\<lambda>i. value_bytes h sub f (a + int i * uint (data_size f))) [0..<count]). r \<noteq> None" by force
    from all_of_Some [OF this] obtain d where d: "?items = Some d" by blast
    have len: "length e = k" if "value_bytes h sub f p = Some e" for p e using val [of p] that by auto
    have "length d = k * count" using all_of_length [OF d, of k] len by auto
    moreover have "r = Some (True, k * count)" using True by (auto simp: r_def k_def)
    moreover have "k * count < size_limit" using count by (simp add: k_def)
    ultimately show ?thesis using go [OF d] by (simp add: d)
  next
    case False
    from sizing_run(3) [OF loop] obtain ok ss where
      ss: "packed_loop count (run_encoder h enc) f PB_OSTREAM_SIZING a = Some (ok, ss)" "bytes_written ss < size_limit" by blast
    then have r: "r = Some (ok, bytes_written ss)" using False by (simp add: r_def)
    show ?thesis
    proof (cases ?items)
      case None
      with sizing_run(1) [OF loop] ss(1) have "\<not> ok" by simp
      then show ?thesis by (auto simp: r None emits_def steady_def)
    next
      case (Some d)
      have small: "ok \<and> bytes_written ss = length d" if "length d < size_limit"
        using sizing_run(2) [OF loop Some that] ss(1) by (simp add: sizing_start)
      show ?thesis
      proof (cases ok)
        case True
        then show ?thesis using go [OF Some ss(2)] small by (simp add: r Some)
      next
        case False
        then have "\<not> length d < size_limit" using small by blast
        with False show ?thesis by (auto simp: r Some emits_def steady_def string_bytes_def)
      qed
    qed
  qed
  have e: "encode_array h enc s f a count = (if count = 0 then Some (True, s)
      else if PB_ATYPE (ftype f) \<noteq> PB_ATYPE_POINTER \<and> count > unat (array_size f)
      then enc_fail ''array max size exceeded'' s
      else if ?lt \<le> PB_LTYPE_LAST_PACKABLE then
        enc_then (Some (pb_encode_tag s PB_WT_STRING (ftag f)))
          (\<lambda>s. case r of None \<Rightarrow> None | Some (False, _) \<Rightarrow> Some (False, s)
             | Some (True, n) \<Rightarrow> with_length n (\<lambda>s. packed_loop count (run_encoder h enc) f s a) s)
      else unpacked_loop count h (run_encoder h enc) f s a)" for s
    unfolding encode_array_def Let_def r_def [symmetric] with_length_def by (rule refl)
  show ?thesis
    unfolding e array_bytes_def Let_def
    by (intro emits_if emits_nothing emits_fail emits_then [OF tag packed] emits_unpacked_loop b v)
qed

subsection \<open>Fields\<close>

text \<open>The message types of \<open>M\<close>: basic fields, submessages of a smaller rank, and a tag cell in every
  union.\<close>

definition encodable_field :: "nat set \<Rightarrow> (nat \<Rightarrow> nat) \<Rightarrow> nat \<Rightarrow> pb_field_t \<Rightarrow> bool" where
  "encodable_field M rk m f \<longleftrightarrow>
     (PB_ATYPE (ftype f) = PB_ATYPE_STATIC \<or> PB_ATYPE (ftype f) = PB_ATYPE_POINTER) \<and>
     basic_type (PB_LTYPE (ftype f)) \<and>
     (PB_LTYPE (ftype f) = PB_LTYPE_SUBMESSAGE \<longrightarrow> (\<exists>m' \<in> M. fptr f = Ptr_fields m' \<and> rk m' < rk m)) \<and>
     (PB_HTYPE (ftype f) = PB_HTYPE_ONEOF \<longrightarrow> size_offset f \<noteq> 0)"

definition encodable :: "pb_env \<Rightarrow> nat set \<Rightarrow> (nat \<Rightarrow> nat) \<Rightarrow> nat \<Rightarrow> bool" where
  "encodable E M rk L \<longleftrightarrow>
     (\<forall>m \<in> M. \<exists>n \<le> L. table (tables E m) n \<and> (\<forall>i < n. encodable_field M rk m (tables E m ! i)))"

lemma encodableD:
  assumes "encodable E M rk L" and "m \<in> M"
  obtains n where "n \<le> L" and "table (tables E m) n" and "\<And>i. i < n \<Longrightarrow> encodable_field M rk m (tables E m ! i)"
  using assms unfolding encodable_def by blast

lemma begin_empty: "table fs 0 \<Longrightarrow> \<exists>it. pb_field_iter_begin fs d = (False, it)"
  by (auto simp: table_def pb_field_iter_begin_def Let_def)

lemma cur_field_at: "table fs n \<Longrightarrow> i < n \<Longrightarrow> cur (field_at fs d i) = fs ! i"
  using field_at_simps [of fs n i d] by (simp add: cur_def)

text \<open>An allocated number that is not as wide as a pointer: the code's test for default values looks
  at the first bytes of the pointer only. The test is applied to the fields of messages that are part
  of a structure and have no flag; those are to have none of these fields.\<close>

definition wide_field :: "pb_field_t \<Rightarrow> bool" where
  "wide_field f \<longleftrightarrow>
     (PB_ATYPE (ftype f) = PB_ATYPE_POINTER \<and> PB_LTYPE (ftype f) \<le> PB_LTYPE_LAST_PACKABLE \<longrightarrow> data_size f = 8)"

definition embedded_wide :: "pb_env \<Rightarrow> pb_field_t \<Rightarrow> bool" where
  "embedded_wide E f \<longleftrightarrow>
     (PB_ATYPE (ftype f) = PB_ATYPE_STATIC \<and> PB_LTYPE (ftype f) = PB_LTYPE_SUBMESSAGE \<and>
      PB_HTYPE (ftype f) = PB_HTYPE_OPTIONAL \<and> size_offset f = 0 \<longrightarrow>
      (\<forall>m. fptr f = Ptr_fields m \<longrightarrow> (\<forall>i < length (tables E m) - 1. wide_field (tables E m ! i))))"

definition flagless_wide :: "pb_env \<Rightarrow> nat set \<Rightarrow> bool" where
  "flagless_wide E M \<longleftrightarrow> (\<forall>m \<in> M. \<forall>i < length (tables E m) - 1. embedded_wide E (tables E m ! i))"

lemma all_default_exact:
  assumes "table fs n" and "i < n" and "n - i \<le> k"
    and "\<And>j p. j < n \<Longrightarrow> f (fs ! j) p = Some (\<not> g (fs ! j) p)"
  shows "all_default k f (field_at fs d i) = Some (\<not> (\<exists>j \<in> {i..<n}. g (fs ! j) (data_addr fs d j)))"
  using assms(2,3)
proof (induction k arbitrary: i)
  case (Suc k)
  have split: "{i..<n} = insert i {Suc i..<n}" using Suc.prems(1) by auto
  have f: "f (cur (field_at fs d i)) (pData (field_at fs d i)) = Some (\<not> g (fs ! i) (data_addr fs d i))"
    using assms(4) Suc.prems(1) by (simp add: cur_field_at [OF assms(1)] field_at_addr)
  note nxt = next_field_at_eq [OF assms(1) Suc.prems(1), of d]
  show ?case
  proof (cases "Suc i < n")
    case True
    with Suc.IH [of "Suc i"] Suc.prems show ?thesis by (cases "g (fs ! i) (data_addr fs d i)") (simp_all add: f nxt split)
  next
    case False
    then show ?thesis by (cases "g (fs ! i) (data_addr fs d i)") (simp_all add: f nxt split)
  qed
qed simp

lemma le_val_zero: "le_val d = 0 \<longleftrightarrow> list_all (\<lambda>b. b = 0) d"
  by (induction d) (auto simp: unat_eq_zero)

lemma zero_bytes_num: "zero_bytes h a n \<longleftrightarrow> load_num h a (unat n) = 0"
  by (simp add: zero_bytes_def load_num_def le_val_zero)

lemma default_check_exact:
  assumes "encodable E M rk L" and "flagless_wide E M"
    and "encodable_field M rk m f" and "wide_field f" and "embedded_wide E f" and "L + rk m + 1 \<le> n"
  shows "pb_check_proto3_default_value n E h f pd = Some (\<not> field_set n E h f pd)"
  using assms(3-6)
proof (induction n arbitrary: m f pd)
  case (Suc n)
  let ?t = "ftype f"
  have at: "PB_ATYPE ?t = PB_ATYPE_POINTER \<or> PB_ATYPE ?t = PB_ATYPE_STATIC" and distinct: "PB_ATYPE_POINTER \<noteq> PB_ATYPE_STATIC"
    using Suc.prems(1) by (auto simp: encodable_field_def atype_values)
  have flag: "safe_read_bool (load h p (Suc 0)) \<longleftrightarrow> mem h p \<noteq> 0" for p by (simp add: safe_read_bool_def load_one)
  have sub: "(case submsg_fields f of None \<Rightarrow> None
      | Some m \<Rightarrow> (case pb_field_iter_begin (tables E m) pd of
           (False, _) \<Rightarrow> Some True
         | (True, iter) \<Rightarrow> all_default n (pb_check_proto3_default_value n E h) iter)) =
      Some (\<not> (case fptr f of Ptr_fields m \<Rightarrow>
          \<exists>i \<in> {0..<length (tables E m) - 1}. field_set n E h (tables E m ! i) (data_addr (tables E m) pd i) | _ \<Rightarrow> False))"
    if "PB_LTYPE ?t = PB_LTYPE_SUBMESSAGE" "PB_HTYPE ?t = PB_HTYPE_OPTIONAL" "size_offset f = 0" "PB_ATYPE ?t = PB_ATYPE_STATIC"
  proof -
    from Suc.prems(1) that(1) obtain m' where m': "m' \<in> M" "fptr f = Ptr_fields m'" "rk m' < rk m"
      by (auto simp: encodable_field_def)
    from encodableD [OF assms(1) m'(1)] obtain k where k: "k \<le> L" "table (tables E m') k"
      "\<And>i. i < k \<Longrightarrow> encodable_field M rk m' (tables E m' ! i)" by blast
    have len: "length (tables E m') - 1 = k" using k(2) by (simp add: table_def)
    show ?thesis
    proof (cases "k = 0")
      case True
      with begin_empty [of "tables E m'" pd] k(2) m'(2) len show ?thesis by (auto simp: submsg_fields_def)
    next
      case False
      have "all_default n (pb_check_proto3_default_value n E h) (field_at (tables E m') pd 0) =
          Some (\<not> (\<exists>j \<in> {0..<k}. field_set n E h (tables E m' ! j) (data_addr (tables E m') pd j)))"
      proof (rule all_default_exact [OF k(2)])
        fix j p assume j: "j < k"
        have "wide_field (tables E m' ! j)" "embedded_wide E (tables E m' ! j)"
          using Suc.prems(3) assms(2) that m'(1,2) j len by (simp_all add: embedded_wide_def flagless_wide_def)
        then show "pb_check_proto3_default_value n E h (tables E m' ! j) p = Some (\<not> field_set n E h (tables E m' ! j) p)"
          using Suc.prems(4) m'(3) by (intro Suc.IH [OF k(3) [OF j]]) simp_all
      qed (use False k(1) Suc.prems(4) in simp_all)
      with begin_field_at [OF k(2)] False m'(2) len show ?thesis by (simp add: submsg_fields_def)
    qed
  qed
  have ptr: "zero_bytes h pd (data_size f) \<longleftrightarrow> load_ptr h pd = 0"
    if "PB_ATYPE ?t = PB_ATYPE_POINTER" "PB_LTYPE ?t \<le> PB_LTYPE_LAST_PACKABLE"
    using that Suc.prems(2) by (simp add: wide_field_def zero_bytes_num load_ptr_def)
  consider (req) "PB_HTYPE ?t = PB_HTYPE_REQUIRED" | (rep) "PB_HTYPE ?t = PB_HTYPE_REPEATED"
    | (one) "PB_HTYPE ?t = PB_HTYPE_ONEOF" | (opt) "PB_HTYPE ?t = PB_HTYPE_OPTIONAL" using htype_cases [of ?t] by blast
  then show ?case
  proof cases
    case req
    then show ?thesis by simp
  next
    case one
    then show ?thesis by (simp add: htype_values Let_def)
  next
    case rep
    show ?thesis
    proof (cases "PB_ATYPE ?t = PB_ATYPE_POINTER")
      case True
      with rep distinct ptr show ?thesis
        by (simp add: htype_values Let_def atype_values not_le [symmetric] del: word_not_simps)
    next
      case False
      with at rep show ?thesis by (simp add: htype_values Let_def)
    qed
  next
    case opt
    show ?thesis
    proof (cases "size_offset f = 0 \<and> PB_ATYPE ?t = PB_ATYPE_STATIC \<and> PB_LTYPE ?t = PB_LTYPE_SUBMESSAGE")
      case True
      with opt sub distinct show ?thesis by (simp add: htype_values Let_def ltype_values atype_values flag)
    next
      case False
      show ?thesis
      proof (cases "PB_ATYPE ?t = PB_ATYPE_POINTER")
        case True
        with opt ptr show ?thesis by (auto simp: htype_values Let_def atype_values flag not_le)
      next
        case stat: False
        with at opt False show ?thesis
          by (auto simp: htype_values Let_def atype_values flag zero_bytes_num)
      qed
    qed
  qed
qed simp

lemma emits_field:
  assumes f: "encodable_field M rk m f" and w: "flagless_wide E M" "embedded_wide E f"
    and n: "encodable E M rk L" "L + rk m + 1 \<le> n"
    and sub: "\<And>m' a. m' \<in> M \<Longrightarrow> rk m' < rk m \<Longrightarrow> emits (\<lambda>s. enc s m' a) (sub m' a)"
  shows "emits (\<lambda>s. encode_field n E h enc s f pd)
    (field_bytes (field_set n E h) h sub f pd)"
proof -
  let ?t = "ftype f"
  define a where "a = (if PB_ATYPE ?t = PB_ATYPE_POINTER then load_ptr h pd else pd)"
  define cell where "cell = pd + sint (size_offset f)"
  have b: "basic_type (PB_LTYPE ?t)" and at: "PB_ATYPE ?t = PB_ATYPE_STATIC \<or> PB_ATYPE ?t = PB_ATYPE_POINTER"
    using f by (auto simp: encodable_field_def)
  have v: "emits (\<lambda>s. run_encoder h enc s f p) (value_bytes h sub f p)" for p
    using f sub by (intro emits_value [OF b]) (auto simp: encodable_field_def submsg_fields_def)
  have one: "emits (\<lambda>s. enc_then (Some (pb_encode_tag_for_field s f)) (\<lambda>s. run_encoder h enc s f a))
      (both (Some (tag_bytes (wire_type (PB_LTYPE ?t), ftag f))) (value_bytes h sub f a))"
    by (rule emits_then [OF emits_field_tag [OF b] v])
  obtain k where k: "n = Suc k" using n(2) by (cases n) simp_all
  have d: "pb_check_proto3_default_value n E h f pd = Some (\<not> field_set n E h f pd)" if "PB_ATYPE ?t = PB_ATYPE_STATIC"
    using that by (intro default_check_exact [OF n(1) w(1) f _ w(2) n(2)]) (simp add: wide_field_def atype_values)
  have d_ends: "\<exists>b. pb_check_proto3_default_value n E h f pd = Some b"
    if "PB_ATYPE ?t = PB_ATYPE_POINTER" "PB_HTYPE ?t = PB_HTYPE_OPTIONAL"
    using that unfolding k by (simp add: htype_values atype_values Let_def)
  have flag: "safe_read_bool (load h p 1) \<longleftrightarrow> mem h p \<noteq> 0" for p by (simp add: safe_read_bool_def load_one)
  have arr: "emits (\<lambda>s. encode_array h enc s f a c) (array_bytes h sub f a c)" if "c < 2 ^ 32" for c
    using b v that by (rule emits_array)
  have count: "(if size_offset f \<noteq> 0 then unat (load_size h cell) else unat (array_size f)) < 2 ^ 32"
    using unat_less_pow [of "load_size h cell"] unat_less_pow [of "array_size f"] by simp
  let ?one = "\<lambda>s. enc_then (Some (pb_encode_tag_for_field s f)) (\<lambda>s. run_encoder h enc s f a)"
  have enc: "encode_field n E h enc s f pd =
    (if PB_HTYPE ?t = PB_HTYPE_REQUIRED then if a = 0 then enc_fail ''missing required field'' s else ?one s
     else if PB_HTYPE ?t = PB_HTYPE_OPTIONAL then if field_set n E h f pd then ?one s else Some (True, s)
     else if PB_HTYPE ?t = PB_HTYPE_REPEATED then
       encode_array h enc s f a (if size_offset f \<noteq> 0 then unat (load_size h cell) else unat (array_size f))
     else if load_size h cell = ftag f then ?one s else Some (True, s))" for s
  proof -
    have basic: "encode_field n E h enc s f pd = encode_basic_field n E h enc s f pd"
      using at by (auto simp: encode_field_def Let_def)
    have cellv: "size_offset f \<noteq> 0" if "PB_HTYPE ?t \<noteq> PB_HTYPE_REQUIRED" "PB_HTYPE ?t \<noteq> PB_HTYPE_OPTIONAL"
      "PB_HTYPE ?t \<noteq> PB_HTYPE_REPEATED"
      using f htype_cases [of ?t] that by (auto simp: encodable_field_def)
    show ?thesis
    proof (cases "PB_HTYPE ?t = PB_HTYPE_OPTIONAL")
      case opt: True
      show ?thesis
      proof (cases "size_offset f = 0")
        case flagless: True
        from at show ?thesis
        proof
          assume st: "PB_ATYPE ?t = PB_ATYPE_STATIC"
          have na: "PB_ATYPE ?t \<noteq> PB_ATYPE_POINTER" using st by (simp add: atype_values)
          show ?thesis
            unfolding basic encode_basic_field_def Let_def d [OF st] using opt flagless na
            by (simp add: htype_values a_def)
        next
          assume pt: "PB_ATYPE ?t = PB_ATYPE_POINTER"
          have "field_set n E h f pd \<longleftrightarrow> a \<noteq> 0" using opt flagless pt by (simp add: k a_def htype_values Let_def)
          then show ?thesis
            unfolding basic encode_basic_field_def Let_def using d_ends [OF pt opt] opt flagless pt
            by (auto simp: htype_values a_def)
        qed
      next
        case False
        then have "field_set n E h f pd \<longleftrightarrow> mem h cell \<noteq> 0" using opt by (simp add: k cell_def htype_values Let_def)
        then show ?thesis
          unfolding basic encode_basic_field_def Let_def a_def [symmetric] cell_def [symmetric] flag
          using False opt by (simp add: htype_values)
      qed
    next
      case False
      then show ?thesis
        unfolding basic encode_basic_field_def Let_def a_def [symmetric] cell_def [symmetric] flag
        using cellv by (cases "size_offset f = 0") auto
    qed
  qed
  show ?thesis
    unfolding enc field_bytes_def Let_def a_def [symmetric] cell_def [symmetric]
    by (intro emits_if emits_fail emits_nothing one arr count)
qed

section \<open>The message\<close>

lemma emits_loop:
  assumes "table fs n" and "i < n" and "n - i \<le> k"
    and "\<And>j p. j < n \<Longrightarrow> emits (\<lambda>s. f (fs ! j) p s) (v (fs ! j) p)"
  shows "emits (\<lambda>s. encode_loop k f (field_at fs d i) s)
    (all_of (map (\<lambda>j. v (fs ! j) (data_addr fs d j)) [i..<n]))"
  using assms(2,3)
proof (induction k arbitrary: i)
  case (Suc k)
  note c = cur_field_at [OF assms(1) Suc.prems(1), of d]
  note nxt = next_field_at_eq [OF assms(1) Suc.prems(1), of d]
  have list: "[i..<n] = i # [Suc i..<n]" using Suc.prems(1) by (rule upt_conv_Cons)
  have rest: "emits (\<lambda>s. case pb_field_iter_next (field_at fs d i) of
        (True, iter) \<Rightarrow> encode_loop k f iter s | (False, _) \<Rightarrow> Some (True, s))
      (all_of (map (\<lambda>j. v (fs ! j) (data_addr fs d j)) [Suc i..<n]))"
  proof (cases "Suc i < n")
    case True
    with Suc.IH [of "Suc i"] Suc.prems show ?thesis by (simp add: nxt)
  next
    case False
    then show ?thesis by (simp add: nxt emits_nothing)
  qed
  from emits_then [OF assms(4) [OF Suc.prems(1)] rest] show ?case by (simp add: c list field_at_addr)
qed simp

lemma emits_message:
  assumes "encodable E M rk L" and "flagless_wide E M" and "m \<in> M" and "L + rk m + 2 \<le> fuel"
  shows "emits (\<lambda>s. pb_encode fuel E h s m a) (message_bytes fuel E h m a)"
  using assms(3,4)
proof (induction fuel arbitrary: m a)
  case (Suc k)
  let ?fs = "tables E m"
  let ?v = "field_bytes (field_set k E h) h (message_bytes k E h)"
  let ?f = "\<lambda>field pd s. if PB_LTYPE (ftype field) = PB_LTYPE_EXTENSION
            then encode_extension_field k E h (pb_encode k E h) s pd
            else encode_field k E h (pb_encode k E h) s field pd"
  from encodableD [OF assms(1) Suc.prems(1)] obtain n where n: "n \<le> L" "table ?fs n"
    "\<And>i. i < n \<Longrightarrow> encodable_field M rk m (?fs ! i)" by blast
  have len: "length ?fs - 1 = n" using n(2) by (simp add: table_def)
  have field: "emits (\<lambda>s. ?f (?fs ! j) p s) (?v (?fs ! j) p)" if "j < n" for j p
  proof -
    have "PB_LTYPE (ftype (?fs ! j)) \<noteq> PB_LTYPE_EXTENSION"
      using n(3) [OF that] by (simp add: encodable_field_def basic_type_def)
    moreover have "emits (\<lambda>s. encode_field k E h (pb_encode k E h) s (?fs ! j) p) (?v (?fs ! j) p)"
      using Suc.prems(2) assms(2) Suc.prems(1) len that
      by (intro emits_field [OF n(3) [OF that] assms(2) _ assms(1)] Suc.IH) (simp_all add: flagless_wide_def)
    ultimately show ?thesis by simp
  qed
  show ?case
  proof (cases "n = 0")
    case True
    with begin_empty [of ?fs a] n(2) obtain it where "pb_field_iter_begin ?fs a = (False, it)" by auto
    then show ?thesis unfolding message_bytes.simps len by (simp add: True emits_nothing)
  next
    case False
    have "emits (\<lambda>s. encode_loop k ?f (field_at ?fs a 0) s) (all_of (map (\<lambda>j. ?v (?fs ! j) (data_addr ?fs a j)) [0..<n]))"
      using False n(1) Suc.prems(2) by (intro emits_loop [where f = ?f and v = ?v, OF n(2) _ _ field]) simp_all
    then show ?thesis
      unfolding message_bytes.simps len pb_encode.simps using begin_field_at [OF n(2), of a] False by simp
  qed
qed simp

text \<open>C24. \<open>pb_encode\<close> writes the wire format: for message types of static and allocated fields it
  returns on every memory, fails when the message has no encoding (a missing required field, an
  array longer than its descriptor, an integer of an unknown size), and otherwise
  \<open>pb_get_encoded_size\<close> is exactly the length of the encoding and \<open>pb_encode\<close> into a buffer
  succeeds exactly when the encoding fits, and then the buffer holds it. In particular the
  sizes of nested messages agree between the sizing pass and the writing pass, and the fields left
  out are those that hold nothing. The second hypothesis excludes allocated numbers narrower than a
  pointer from messages that are part of a structure without a flag, where the code's test for
  default values overlooks some of them (lemma \<open>narrow_pointer_overlooked\<close>).\<close>

theorem encode_writes_wire_format:
  assumes "encodable E M rk L" and "flagless_wide E M" and "m \<in> M" and "L + rk m + 2 \<le> fuel" and "n < size_limit"
  shows "case message_bytes fuel E h m src of
      None \<Rightarrow> pb_get_encoded_size fuel E h m src = Some None \<and>
        (\<exists>out. pb_encode fuel E h (pb_ostream_from_buffer n) m src = Some (False, out))
    | Some d \<Rightarrow> length d < size_limit \<longrightarrow>
        pb_get_encoded_size fuel E h m src = Some (Some (length d)) \<and>
        (\<exists>out. pb_encode fuel E h (pb_ostream_from_buffer n) m src = Some (length d \<le> n, out) \<and>
          (length d \<le> n \<longrightarrow> wstate out = d \<and> bytes_written out = length d))"
proof -
  let ?s = "pb_ostream_from_buffer n"
  note e = emits_message [OF assms(1-4), of h src]
  have buf: "to_buffer ?s" by (rule from_buffer_room(1) [OF assms(5)])
  have s: "bytes_written ?s = 0" "max_size ?s = n" "wstate ?s = []" by (simp_all add: pb_ostream_from_buffer_def)
  show ?thesis
  proof (cases "message_bytes fuel E h m src")
    case None
    note e = e [unfolded None]
    have "pb_get_encoded_size fuel E h m src = Some None"
      using sizing_run(1) [OF e refl] by (auto simp: pb_get_encoded_size_def)
    with emits_None [OF e, of ?s] buf show ?thesis by (simp add: None)
  next
    case (Some d)
    note e = e [unfolded Some]
    show ?thesis
      unfolding Some option.case
    proof (intro impI conjI)
      assume l: "length d < size_limit"
      show "pb_get_encoded_size fuel E h m src = Some (Some (length d))"
        using sizing_run(2) [OF e refl l] by (simp add: pb_get_encoded_size_def sizing_start)
      show "\<exists>out. pb_encode fuel E h ?s m src = Some (length d \<le> n, out) \<and>
          (length d \<le> n \<longrightarrow> wstate out = d \<and> bytes_written out = length d)"
      proof (cases "length d \<le> n")
        case True
        with emitsD(1) [OF e _ buf] l s obtain out where
          "pb_encode fuel E h ?s m src = Some (True, out)" "put_to ?s d out" by (auto simp: has_room_def)
        with True put_to_simps [of ?s d out] s show ?thesis by simp
      next
        case False
        with emitsD(2) [OF e _ buf] l s show ?thesis by (auto simp: has_room_def)
      qed
    qed
  qed
qed

text \<open>The presence flag at 64, the number 5 at 68, the count 1 at 72, its entry 7 at 76, and the
  string \<open>AB\<close> at 88.\<close>

definition sample_heap :: pb_heap where
  "sample_heap =
     \<lparr>mem = \<lambda>a. if a = 64 then 1 else if a = 68 then 5 else if a = 72 then 1 else if a = 76 then 7
               else if a = 88 then 65 else if a = 89 then 66 else 0, live = Map.empty\<rparr>"

lemma sample_encodable: "encodable sample_env {0, 1} id 2"
proof -
  note sample_tables
  moreover have "encodable_field {0, 1} id 0 point_x" "encodable_field {0, 1} id 0 point_w"
    "encodable_field {0, 1} id 1 label_at" "encodable_field {0, 1} id 1 label_name"
    by code_simp+
  ultimately show ?thesis
    unfolding encodable_def by (auto simp: sample_env_def intro!: exI [of _ 2] dest!: less_2_cases)
qed

lemma sample_flagless: "flagless_wide sample_env {0, 1}"
proof -
  have "PB_ATYPE (ftype point_x) \<noteq> PB_ATYPE_POINTER" "PB_ATYPE (ftype point_w) \<noteq> PB_ATYPE_POINTER"
    "PB_ATYPE (ftype label_at) \<noteq> PB_ATYPE_POINTER" "PB_ATYPE (ftype label_name) \<noteq> PB_ATYPE_POINTER"
    by code_simp+
  then have "i < 2 \<Longrightarrow> wide_field (tables sample_env m ! i)" for i m
    by (auto simp: sample_env_def wide_field_def less_2_cases_iff)
  moreover have "length (tables sample_env m) - 1 = 2" for m by (simp add: sample_env_def)
  ultimately show ?thesis unfolding flagless_wide_def embedded_wide_def by metis
qed

lemma sample_fields:
  "field_bytes given sample_heap sub point_x 68 = Some [8, 5]"
  "field_bytes given sample_heap sub label_name 88 = Some [0x12, 2, 65, 66]"
  by code_simp+

lemma sample_array: "field_bytes given sample_heap sub point_w 76 = Some [0x12, 1, 7]"
proof -
  have t: "PB_HTYPE (ftype point_w) = PB_HTYPE_REPEATED" "PB_ATYPE (ftype point_w) = PB_ATYPE_STATIC"
    "PB_LTYPE (ftype point_w) = PB_LTYPE_UVARINT" "size_offset point_w = - 4"
    "load_size sample_heap 72 = 1" "ftag point_w = 2" "array_size point_w = 3"
    "value_bytes sample_heap sub point_w 76 = Some [7]"
    by code_simp+
  have "array_bytes sample_heap sub point_w 76 1 =
      both (Some (tag_bytes (PB_WT_STRING, 2))) (map_option string_bytes (all_of [value_bytes sample_heap sub point_w 76]))"
    by (simp add: array_bytes_def Let_def t atype_values ltype_values PB_LTYPE_LAST_PACKABLE_def)
  also have "\<dots> = Some [0x12, 1, 7]" unfolding t by code_simp
  finally show ?thesis by (simp add: field_bytes_def Let_def t atype_values htype_values)
qed

lemma sample_addresses:
  "data_addr [point_x, point_w, last_entry] 68 0 = 68" "data_addr [point_x, point_w, last_entry] 68 (Suc 0) = 76"
  "data_addr [label_at, label_name, last_entry] 64 0 = 68" "data_addr [label_at, label_name, last_entry] 64 (Suc 0) = 88"
  by code_simp+

lemma sample_point: "message_bytes (Suc k) sample_env sample_heap 0 68 = Some [8, 5, 0x12, 1, 7]"
  using sample_addresses sample_fields sample_array by (simp add: sample_env_def both_def)

lemma sample_nested:
  assumes "sub 0 68 = Some [8, 5, 0x12, 1, 7]" and "given label_at 68"
  shows "field_bytes given sample_heap sub label_at 68 = Some [0x0A, 5, 8, 5, 0x12, 1, 7]"
proof -
  have t: "PB_HTYPE (ftype label_at) = PB_HTYPE_OPTIONAL" "PB_ATYPE (ftype label_at) = PB_ATYPE_STATIC"
    "PB_LTYPE (ftype label_at) = PB_LTYPE_SUBMESSAGE" "size_offset label_at = - 4" "submsg_fields label_at = Some 0"
    "tag_bytes (wire_type PB_LTYPE_SUBMESSAGE, ftag label_at) = [0x0A]" "mem sample_heap 64 = 1"
    by code_simp+
  then show ?thesis
    using assms by (simp add: field_bytes_def value_bytes_def Let_def atype_values htype_values ltype_values both_def
        string_bytes_def leb128_small)
qed

lemma sample_given: "field_set (Suc k) sample_env sample_heap label_at 68"
proof -
  have "PB_HTYPE (ftype label_at) = PB_HTYPE_OPTIONAL" "size_offset label_at = - 4" "mem sample_heap 64 = 1"
    by code_simp+
  then show ?thesis by (simp add: Let_def htype_values)
qed

lemma sample_label: "message_bytes (Suc (Suc k)) sample_env sample_heap 1 64 = Some [0x0A, 5, 8, 5, 0x12, 1, 7, 0x12, 2, 65, 66]"
  using sample_addresses sample_fields
    sample_nested [where sub = "message_bytes (Suc k) sample_env sample_heap" and given = "field_set (Suc k) sample_env sample_heap", OF sample_point sample_given]
  by (simp del: message_bytes.simps field_set.simps add: message_bytes.simps(2) [of "Suc k"] sample_env_def both_def)

text \<open>The field that the second hypothesis excludes: an allocated number of four bytes at an address
  whose low half is 0 counts as a default value.\<close>

lemma narrow_pointer_overlooked:
  fixes h :: pb_heap
  defines "f \<equiv> \<lparr>ftag = 1, ftype = 0x92, data_offset = 0, size_offset = 0, data_size = 4, array_size = 0, fptr = Ptr_null\<rparr>"
  shows "load_ptr (store_ptr h 64 0x100000000) 64 = 0x100000000 \<and>
    pb_check_proto3_default_value (Suc n) E (store_ptr h 64 0x100000000) f 64 = Some True \<and>
    field_set (Suc n) E (store_ptr h 64 0x100000000) f 64"
proof -
  have l: "load (store_ptr h 64 0x100000000) 64 8 = [0, 0, 0, 0, 1, 0, 0, 0]"
    by (simp add: load_def store_ptr_def store_def le_bytes_8 upt_rec)
  have l4: "load (store_ptr h 64 0x100000000) 64 4 = [0, 0, 0, 0]"
    by (simp add: load_def store_ptr_def store_def le_bytes_8 upt_rec)
  have p: "load_ptr (store_ptr h 64 0x100000000) 64 = 0x100000000" by (simp add: load_ptr_def load_num_def l)
  have t: "PB_HTYPE (ftype f) = PB_HTYPE_OPTIONAL" "PB_ATYPE (ftype f) = PB_ATYPE_POINTER" "PB_LTYPE (ftype f) = PB_LTYPE_UVARINT"
    "size_offset f = 0" "data_size f = 4"
    unfolding f_def by code_simp+
  then show ?thesis
    by (simp add: p Let_def htype_values atype_values ltype_values PB_LTYPE_LAST_PACKABLE_def zero_bytes_def l4)
qed

lemma encode_writes_wire_format_witness:
  "pb_get_encoded_size 5 sample_env sample_heap 1 64 = Some (Some 11) \<and>
   (\<exists>out. pb_encode 5 sample_env sample_heap (pb_ostream_from_buffer 16) 1 64 = Some (True, out) \<and>
      wstate out = [0x0A, 5, 8, 5, 0x12, 1, 7, 0x12, 2, 65, 66])"
proof -
  have "message_bytes 5 sample_env sample_heap 1 64 = Some [0x0A, 5, 8, 5, 0x12, 1, 7, 0x12, 2, 65, 66]"
    using sample_label [of 3] by (simp only: arith_simps numeral_eq_Suc pred_numeral_simps)
  with encode_writes_wire_format [OF sample_encodable sample_flagless, of 1 5 16 sample_heap 64] show ?thesis by auto
qed

end
