(* ===== verification/Stack.thy ===== *)
theory Stack
  imports Qsort
begin

text \<open>
  \<open>crypto/stack/stack.c\<close>: the growable array of pointers. A pointer is \<open>None\<close> for \<open>NULL\<close> or
  \<open>Some\<close> of what it points to; the comparison function is called on two elements. \<open>data\<close> has
  \<open>num_alloc\<close> entries, those from \<open>num\<close> on are not read. \<open>alloc\<close> says which requests of the
  allocator succeed, \<open>fresh\<close> is the contents of memory it hands out.
\<close>

section \<open>The stack\<close>

type_synonym 'a ptr = "'a option"
type_synonym 'a stack_cmp_func = "'a ptr \<Rightarrow> 'a ptr \<Rightarrow> int"

record 'a stack_st =
  num :: nat
  data :: "'a ptr list"
  sk_sorted :: bool
  num_alloc :: nat
  cmp_func :: "'a stack_cmp_func option"

definition kMinSize :: nat where
  "kMinSize = 4"

definition sk_new :: "(nat \<Rightarrow> bool) \<Rightarrow> 'a stack_cmp_func option \<Rightarrow> 'a stack_st option" where
  "sk_new alloc c =
     (if \<not> alloc 40 then None
      else if \<not> alloc (8 * kMinSize) then None
      else Some \<lparr>num = 0, data = replicate kMinSize None, sk_sorted = False,
                 num_alloc = kMinSize, cmp_func = c\<rparr>)"

definition sk_new_null :: "(nat \<Rightarrow> bool) \<Rightarrow> 'a stack_st option" where
  "sk_new_null alloc = sk_new alloc None"

definition sk_num :: "'a stack_st option \<Rightarrow> nat" where
  "sk_num s = (case s of None \<Rightarrow> 0 | Some sk \<Rightarrow> num sk)"

definition sk_zero :: "'a stack_st option \<Rightarrow> 'a stack_st option" where
  "sk_zero s = (case s of None \<Rightarrow> None
     | Some sk \<Rightarrow>
         if num sk = 0 then s
         else Some (sk\<lparr>data := replicate (num sk) None @ drop (num sk) (data sk), num := 0, sk_sorted := False\<rparr>))"

definition sk_value :: "'a stack_st option \<Rightarrow> nat \<Rightarrow> 'a ptr" where
  "sk_value s i = (case s of None \<Rightarrow> None | Some sk \<Rightarrow> if i \<ge> num sk then None else data sk ! i)"

definition sk_set :: "'a stack_st option \<Rightarrow> nat \<Rightarrow> 'a ptr \<Rightarrow> 'a ptr \<times> 'a stack_st option" where
  "sk_set s i v = (case s of None \<Rightarrow> (None, None)
     | Some sk \<Rightarrow> if i \<ge> num sk then (None, s) else (v, Some (sk\<lparr>data := (data sk)[i := v]\<rparr>)))"

text \<open>\<open>sk_pop_free_ex\<close> frees the stack; the result is the elements \<open>free_func\<close> is called on, in
  order.\<close>

definition sk_pop_free_ex :: "'a stack_st option \<Rightarrow> 'a list" where
  "sk_pop_free_ex s = (case s of None \<Rightarrow> []
     | Some sk \<Rightarrow> map the (filter (\<lambda>e. e \<noteq> None) (take (num sk) (data sk))))"

definition sk_pop_free :: "'a stack_st option \<Rightarrow> 'a list" where
  "sk_pop_free s = sk_pop_free_ex s"

section \<open>Insertion and deletion\<close>

text \<open>\<open>memmove\<close> on an array of pointers.\<close>

definition move_ptrs :: "'a list \<Rightarrow> nat \<Rightarrow> nat \<Rightarrow> nat \<Rightarrow> 'a list" where
  "move_ptrs d dst src n = take dst d @ take n (drop src d) @ drop (dst + n) d"

text \<open>\<open>realloc\<close> to \<open>n\<close> entries.\<close>

definition resize_ptrs :: "'a ptr \<Rightarrow> 'a ptr list \<Rightarrow> nat \<Rightarrow> 'a ptr list" where
  "resize_ptrs fresh d n = take n d @ replicate (n - length d) fresh"

text \<open>The size the array grows to; \<open>None\<close> when it cannot.\<close>

definition sk_new_alloc :: "nat \<Rightarrow> nat option" where
  "sk_new_alloc n_alloc =
     (let bad = (\<lambda>new_alloc. new_alloc < n_alloc \<or> size_mul new_alloc 8 div 8 \<noteq> new_alloc);
          new_alloc = size_mul n_alloc 2;
          new_alloc = (if bad new_alloc then size_add n_alloc 1 else new_alloc)
      in if bad new_alloc then None else Some new_alloc)"

definition sk_grow :: "(nat \<Rightarrow> bool) \<Rightarrow> 'a ptr \<Rightarrow> 'a stack_st \<Rightarrow> 'a stack_st option" where
  "sk_grow alloc fresh sk =
     (if num_alloc sk \<le> num sk + 1 then
        case sk_new_alloc (num_alloc sk) of
          None \<Rightarrow> None
        | Some new_alloc \<Rightarrow>
            if \<not> alloc (size_mul new_alloc 8) then None
            else Some (sk\<lparr>data := resize_ptrs fresh (data sk) new_alloc, num_alloc := new_alloc\<rparr>)
      else Some sk)"

definition sk_insert ::
  "(nat \<Rightarrow> bool) \<Rightarrow> 'a ptr \<Rightarrow> 'a stack_st option \<Rightarrow> 'a ptr \<Rightarrow> nat \<Rightarrow> nat \<times> 'a stack_st option" where
  "sk_insert alloc fresh s p w = (case s of None \<Rightarrow> (0, None)
     | Some sk \<Rightarrow>
         (case sk_grow alloc fresh sk of
            None \<Rightarrow> (0, s)
          | Some sk \<Rightarrow>
              let d = (if w \<ge> num sk then (data sk)[num sk := p]
                       else (move_ptrs (data sk) (w + 1) w (num sk - w))[w := p])
              in (num sk + 1, Some (sk\<lparr>data := d, num := num sk + 1, sk_sorted := False\<rparr>))))"

definition sk_delete :: "'a stack_st option \<Rightarrow> nat \<Rightarrow> 'a ptr \<times> 'a stack_st option" where
  "sk_delete s w = (case s of None \<Rightarrow> (None, None)
     | Some sk \<Rightarrow>
         if w \<ge> num sk then (None, s)
         else
           let ret = data sk ! w;
               d = (if w \<noteq> num sk - 1 then move_ptrs (data sk) w (w + 1) (num sk - w - 1) else data sk)
           in (ret, Some (sk\<lparr>data := d, num := num sk - 1\<rparr>)))"

text \<open>The index of the first of \<open>n\<close> entries that satisfies a test, from \<open>i\<close> on.\<close>

fun first_index :: "('a \<Rightarrow> bool) \<Rightarrow> 'a list \<Rightarrow> nat \<Rightarrow> nat option" where
  "first_index test [] i = None"
| "first_index test (e # es) i = (if test e then Some i else first_index test es (i + 1))"

definition sk_delete_ptr :: "'a stack_st option \<Rightarrow> 'a ptr \<Rightarrow> 'a ptr \<times> 'a stack_st option" where
  "sk_delete_ptr s p = (case s of None \<Rightarrow> (None, None)
     | Some sk \<Rightarrow>
         (case first_index (\<lambda>e. e = p) (take (num sk) (data sk)) 0 of
            None \<Rightarrow> (None, s) | Some i \<Rightarrow> sk_delete s i))"

definition sk_shift :: "'a stack_st option \<Rightarrow> 'a ptr \<times> 'a stack_st option" where
  "sk_shift s = (case s of None \<Rightarrow> (None, None) | Some sk \<Rightarrow> if num sk = 0 then (None, s) else sk_delete s 0)"

definition sk_push :: "(nat \<Rightarrow> bool) \<Rightarrow> 'a ptr \<Rightarrow> 'a stack_st option \<Rightarrow> 'a ptr \<Rightarrow> nat \<times> 'a stack_st option" where
  "sk_push alloc fresh s p = sk_insert alloc fresh s p (sk_num s)"

definition sk_pop :: "'a stack_st option \<Rightarrow> 'a ptr \<times> 'a stack_st option" where
  "sk_pop s = (case s of None \<Rightarrow> (None, None)
     | Some sk \<Rightarrow> if num sk = 0 then (None, s) else sk_delete s (num sk - 1))"

section \<open>Searching and sorting\<close>

definition sk_is_sorted :: "'a stack_st option \<Rightarrow> bool" where
  "sk_is_sorted s = (case s of None \<Rightarrow> True | Some sk \<Rightarrow> sk_sorted sk)"

text \<open>The binary search; \<open>c\<close> compares the element sought with an entry.\<close>

function find_loop :: "('a \<Rightarrow> int) \<Rightarrow> 'a list \<Rightarrow> nat \<Rightarrow> nat \<Rightarrow> nat option" where
  "find_loop c d lo hi =
     (if lo < hi then
        let mid = lo + (hi - lo - 1) div 2; r = c (d ! mid)
        in if r > 0 then find_loop c d (mid + 1) hi
           else if r < 0 then find_loop c d lo mid
           else if hi - lo = 1 then Some mid
           else find_loop c d lo (mid + 1)
      else None)"
  by pat_completeness auto
termination by (relation "measure (\<lambda>(_, _, lo, hi). hi - lo)") (auto simp: less_diff_conv)

declare find_loop.simps [simp del]

definition sk_find :: "'a stack_st option \<Rightarrow> 'a ptr \<Rightarrow> nat option" where
  "sk_find s p = (case s of None \<Rightarrow> None
     | Some sk \<Rightarrow>
         (case cmp_func sk of
            None \<Rightarrow> first_index (\<lambda>e. e = p) (take (num sk) (data sk)) 0
          | Some cmp \<Rightarrow>
              if p = None then None
              else if \<not> sk_is_sorted s then first_index (\<lambda>e. cmp p e = 0) (take (num sk) (data sk)) 0
              else find_loop (\<lambda>e. cmp p e) (data sk) 0 (num sk)))"

definition sk_dup :: "(nat \<Rightarrow> bool) \<Rightarrow> 'a ptr \<Rightarrow> 'a stack_st option \<Rightarrow> 'a stack_st option" where
  "sk_dup alloc fresh s = (case s of None \<Rightarrow> None
     | Some sk \<Rightarrow>
         (case sk_new alloc (cmp_func sk) of
            None \<Rightarrow> None
          | Some ret \<Rightarrow>
              if \<not> alloc (size_mul 8 (num_alloc sk)) then None
              else
                let d = resize_ptrs fresh (data ret) (num_alloc sk)
                in Some (ret\<lparr>data := take (num sk) (data sk) @ drop (num sk) d, num := num sk,
                             sk_sorted := sk_sorted sk, num_alloc := num_alloc sk, cmp_func := cmp_func sk\<rparr>)))"

text \<open>\<open>srt\<close> is the C library's \<open>qsort\<close>.\<close>

definition sk_sort ::
  "(('a ptr \<Rightarrow> 'a ptr \<Rightarrow> int) \<Rightarrow> 'a ptr list \<Rightarrow> 'a ptr list) \<Rightarrow> 'a stack_st option \<Rightarrow> 'a stack_st option" where
  "sk_sort srt s = (case s of None \<Rightarrow> None
     | Some sk \<Rightarrow>
         (case cmp_func sk of
            None \<Rightarrow> s
          | Some cmp \<Rightarrow>
              if sk_sorted sk then s
              else
                let d = (if num sk \<ge> 2 then srt cmp (take (num sk) (data sk)) @ drop (num sk) (data sk)
                         else data sk)
                in Some (sk\<lparr>data := d, sk_sorted := True\<rparr>)))"

text \<open>Function pointers are compared by \<open>same\<close>: whether the new one is the old one.\<close>

definition sk_set_cmp_func ::
  "bool \<Rightarrow> 'a stack_st \<Rightarrow> 'a stack_cmp_func option \<Rightarrow> 'a stack_cmp_func option \<times> 'a stack_st" where
  "sk_set_cmp_func same sk c =
     (cmp_func sk, (if same then sk else sk\<lparr>sk_sorted := False\<rparr>)\<lparr>cmp_func := c\<rparr>)"

text \<open>The copies made so far are freed when one fails: the second component lists them.\<close>

fun deep_copy_loop :: "('a \<Rightarrow> 'a ptr) \<Rightarrow> 'a ptr list \<Rightarrow> 'a ptr list \<Rightarrow> 'a ptr list option \<times> 'a list" where
  "deep_copy_loop copy done [] = (Some done, [])"
| "deep_copy_loop copy done (None # es) = deep_copy_loop copy (done @ [None]) es"
| "deep_copy_loop copy done (Some e # es) =
     (case copy e of
        None \<Rightarrow> (None, map the (filter (\<lambda>e. e \<noteq> None) done))
      | Some e' \<Rightarrow> deep_copy_loop copy (done @ [Some e']) es)"

definition sk_deep_copy ::
  "(nat \<Rightarrow> bool) \<Rightarrow> 'a ptr \<Rightarrow> 'a stack_st option \<Rightarrow> ('a \<Rightarrow> 'a ptr) \<Rightarrow> 'a stack_st option \<times> 'a list" where
  "sk_deep_copy alloc fresh s copy =
     (case sk_dup alloc fresh s of
        None \<Rightarrow> (None, [])
      | Some ret \<Rightarrow>
          (case deep_copy_loop copy [] (take (num ret) (data ret)) of
             (None, freed) \<Rightarrow> (None, freed)
           | (Some d, freed) \<Rightarrow> (Some (ret\<lparr>data := d @ drop (num ret) (data ret)\<rparr>), freed)))"

end
