(* ===== verification/Stack_Laws.thy ===== *)
theory Stack_Laws
  imports Stack
begin

text \<open>
  The stack as a list of pointers: every operation computes the list operation it is named
  after and keeps the array within its allocation, the \<open>sorted\<close> flag is true to its meaning
  under all operations but \<open>sk_set\<close>, and a search finds the first equal element.
\<close>

section \<open>The array\<close>

definition elems :: "'a stack_st \<Rightarrow> 'a ptr list" where
  "elems sk = take (num sk) (data sk)"

text \<open>The array has its allocated size, a slot behind the last element, and a byte count that
  \<open>size_t\<close> can hold.\<close>

definition sk_ok :: "'a stack_st \<Rightarrow> bool" where
  "sk_ok sk \<longleftrightarrow> num sk < num_alloc sk \<and> length (data sk) = num_alloc sk \<and> 8 * num_alloc sk < size_limit"

lemma length_elems: "sk_ok sk \<Longrightarrow> length (elems sk) = num sk"
  by (simp add: elems_def sk_ok_def)

lemma elems_nth: "sk_ok sk \<Longrightarrow> i < num sk \<Longrightarrow> elems sk ! i = data sk ! i"
  by (simp add: elems_def)

lemma new_ok: "sk_new alloc c = Some sk \<Longrightarrow> sk_ok sk \<and> elems sk = [] \<and> cmp_func sk = c \<and> \<not> sk_sorted sk"
  by (auto simp: sk_new_def sk_ok_def elems_def kMinSize_def split: if_splits)

lemma fits_iff: "n < size_limit \<Longrightarrow> size_mul n 8 div 8 = n \<longleftrightarrow> 8 * n < size_limit"
proof
  assume eq: "size_mul n 8 div 8 = n"
  have "size_mul n 8 < size_limit" by (simp add: size_mul_def)
  then have "size_mul n 8 div 8 < 2 ^ 61" by (simp add: less_mult_imp_div_less)
  then show "8 * n < size_limit" unfolding eq by simp
qed (simp add: size_mul_def mult.commute)

lemma new_alloc_grows:
  assumes "sk_new_alloc n = Some m" and "8 * n < size_limit" and "0 < n"
  shows "n < m \<and> 8 * m < size_limit"
proof -
  have d: "size_mul n 2 = 2 * n" "size_add n 1 = n + 1" "2 * n < size_limit" "n + 1 < size_limit"
    using assms(2) by (simp_all add: size_mul_def size_add_def)
  show ?thesis
    using assms fits_iff [of m] d by (auto simp: sk_new_alloc_def Let_def split: if_splits)
qed

lemma grow_ok:
  assumes "sk_ok sk" and "sk_grow alloc fresh sk = Some sk'"
  shows "sk_ok sk' \<and> elems sk' = elems sk \<and> num sk' = num sk \<and> num sk' + 1 < num_alloc sk' \<and>
    cmp_func sk' = cmp_func sk"
  using assms new_alloc_grows [of "num_alloc sk"]
  by (auto simp: sk_grow_def sk_ok_def elems_def resize_ptrs_def split: if_splits option.splits)

lemma split_array:
  assumes "w < n" and "n < length d"
  obtains a x b y c where "d = a @ x # b @ y # c" and "length a = w" and "n = w + 1 + length b"
proof -
  have "d = take w d @ d ! w # take (n - w - 1) (drop (w + 1) d) @ d ! n # drop (n + 1) d"
  proof -
    have "d = take w d @ d ! w # drop (w + 1) d" using assms by (simp add: id_take_nth_drop)
    moreover have "drop (w + 1) d = take (n - w - 1) (drop (w + 1) d) @ drop n d"
      using assms append_take_drop_id [of "n - w - 1" "drop (w + 1) d"] by (simp add: add.commute)
    moreover have "drop n d = d ! n # drop (n + 1) d" using assms by (simp add: Cons_nth_drop_Suc)
    ultimately show ?thesis by simp
  qed
  with assms show thesis by (intro that [of "take w d" "d ! w" "take (n - w - 1) (drop (w + 1) d)" "d ! n"]) simp_all
qed

lemma insert_array:
  assumes "n < length d" and "w < n"
  shows "take (n + 1) ((move_ptrs d (w + 1) w (n - w))[w := p]) = take w (take n d) @ [p] @ drop w (take n d)"
    and "length (move_ptrs d (w + 1) w (n - w)) = length d"
proof -
  obtain a x b y c where "d = a @ x # b @ y # c" "length a = w" "n = w + 1 + length b"
    using split_array [OF assms(2,1)] .
  then show "take (n + 1) ((move_ptrs d (w + 1) w (n - w))[w := p]) = take w (take n d) @ [p] @ drop w (take n d)"
    and "length (move_ptrs d (w + 1) w (n - w)) = length d"
    by (simp_all add: move_ptrs_def list_update_append)
qed

lemma delete_array:
  assumes "w + 1 < n" and "n < length d"
  shows "take (n - 1) (move_ptrs d w (w + 1) (n - w - 1)) = take w (take n d) @ drop (w + 1) (take n d)"
    and "length (move_ptrs d w (w + 1) (n - w - 1)) = length d"
proof -
  obtain a x b y c where "d = a @ x # b @ y # c" "length a = w" "n = w + 1 + length b"
    by (rule split_array [of w n d]) (use assms in simp_all)
  with assms(1) show "take (n - 1) (move_ptrs d w (w + 1) (n - w - 1)) = take w (take n d) @ drop (w + 1) (take n d)"
    and "length (move_ptrs d w (w + 1) (n - w - 1)) = length d"
    by (cases b; simp add: move_ptrs_def)+
qed

section \<open>The operations on the list\<close>

lemma insert_ok:
  assumes "sk_ok sk" and "sk_insert alloc fresh (Some sk) p w = (r, s')"
  shows "\<exists>sk'. s' = Some sk' \<and> sk_ok sk' \<and> cmp_func sk' = cmp_func sk \<and>
    (if r = 0 then sk' = sk
     else r = num sk + 1 \<and> num sk' = r \<and> elems sk' = take w (elems sk) @ [p] @ drop w (elems sk) \<and> \<not> sk_sorted sk')"
proof (cases "sk_grow alloc fresh sk")
  case None
  with assms show ?thesis by (auto simp: sk_insert_def)
next
  case (Some g)
  note g = grow_ok [OF assms(1) Some]
  have len: "num g < length (data g)" using g by (simp add: sk_ok_def)
  show ?thesis
  proof (cases "w \<ge> num g")
    case True
    have "take (num g + 1) ((data g)[num g := p]) = elems g @ [p]"
      using len by (simp add: elems_def take_Suc_conv_app_nth)
    moreover have "take w (elems g) = elems g" "drop w (elems g) = []"
      using True length_elems [of g] g by simp_all
    ultimately show ?thesis
      using assms(2) g True by (auto simp: sk_insert_def Some sk_ok_def elems_def Let_def)
  next
    case False
    then have w: "w < num g" by simp
    have e: "elems g = elems sk" using g by blast
    have "take (num g + 1) ((move_ptrs (data g) (w + 1) w (num g - w))[w := p]) =
        take w (elems sk) @ [p] @ drop w (elems sk)"
      using insert_array(1) [OF len w, of p] by (simp only: elems_def [of g, symmetric] e)
    with False show ?thesis
      using assms(2) g insert_array(2) [OF len w] by (auto simp: sk_insert_def Some sk_ok_def elems_def Let_def)
  qed
qed

text \<open>When an insertion may be refused: the array has no spare slot behind the next element, and the
  array of twice the entries (of one more if that many bytes are beyond \<open>size_t\<close>) is beyond
  \<open>size_t\<close> as well or is refused by the allocator.\<close>

definition grown :: "nat \<Rightarrow> nat" where
  "grown n = (if 16 * n < size_limit then 2 * n else n + 1)"

definition refused :: "(nat \<Rightarrow> bool) \<Rightarrow> 'a stack_st \<Rightarrow> bool" where
  "refused alloc sk \<longleftrightarrow> num_alloc sk = num sk + 1 \<and>
     (8 * grown (num_alloc sk) \<ge> size_limit \<or> \<not> alloc (8 * grown (num_alloc sk)))"

lemma new_alloc_grown:
  assumes "8 * n < size_limit"
  shows "sk_new_alloc n = (if 8 * grown n < size_limit then Some (grown n) else None)"
proof -
  have d: "size_mul n 2 = 2 * n" "size_add n 1 = n + 1" "2 * n < size_limit" "n + 1 < size_limit"
    using assms by (simp_all add: size_mul_def size_add_def)
  show ?thesis
    using fits_iff [OF d(3)] fits_iff [OF d(4)] d by (simp add: sk_new_alloc_def grown_def Let_def)
qed

lemma grow_refused: "sk_ok sk \<Longrightarrow> sk_grow alloc fresh sk = None \<longleftrightarrow> refused alloc sk"
  using new_alloc_grown [of "num_alloc sk"]
  by (auto simp: sk_grow_def sk_ok_def refused_def size_mul_def mult.commute split: option.splits if_splits)

lemma insert_result:
  assumes "sk_ok sk"
  shows "fst (sk_insert alloc fresh (Some sk) p w) = (if refused alloc sk then 0 else num sk + 1)"
proof (cases "sk_grow alloc fresh sk")
  case None
  then show ?thesis using grow_refused [OF assms, of alloc fresh] by (simp add: sk_insert_def)
next
  case (Some g)
  then show ?thesis using grow_refused [OF assms, of alloc fresh] grow_ok [OF assms Some] by (simp add: sk_insert_def Let_def)
qed

lemma delete_ok:
  assumes "sk_ok sk" and "w < num sk"
  shows "\<exists>sk'. sk_delete (Some sk) w = (elems sk ! w, Some sk') \<and> sk_ok sk' \<and> cmp_func sk' = cmp_func sk \<and>
    sk_sorted sk' = sk_sorted sk \<and> elems sk' = take w (elems sk) @ drop (w + 1) (elems sk)"
proof (cases "w = num sk - 1")
  case True
  have "take (num sk - 1) (data sk) = take w (elems sk) @ drop (w + 1) (elems sk)"
    using True assms by (simp add: elems_def)
  with True assms show ?thesis
    by (auto simp: sk_delete_def sk_ok_def elems_def Let_def)
next
  case False
  with assms(2) have w: "w + 1 < num sk" by simp
  from False assms delete_array [OF w, of "data sk"] show ?thesis
    by (auto simp: sk_delete_def sk_ok_def elems_def Let_def)
qed

lemma first_index_less: "first_index test es i = Some j \<Longrightarrow> i \<le> j \<and> j < i + length es \<and> test (es ! (j - i)) \<and> (\<forall>k < j - i. \<not> test (es ! k))"
proof (induction test es i rule: first_index.induct)
  case (2 test e es i)
  show ?case
  proof (cases "test e")
    case False
    with 2 have "i + 1 \<le> j \<and> j < i + 1 + length es \<and> test (es ! (j - (i + 1))) \<and> (\<forall>k < j - (i + 1). \<not> test (es ! k))" by simp
    moreover from this have "j - i = Suc (j - (i + 1))" by linarith
    ultimately show ?thesis using False by (auto simp: less_Suc_eq_0_disj)
  qed (use 2 in simp)
qed simp

lemma first_index_none: "first_index test es i = None \<longleftrightarrow> (\<forall>e \<in> set es. \<not> test e)"
  by (induction test es i rule: first_index.induct) auto

section \<open>Refinement of lists\<close>

datatype 'a stack_op =
    Insert "'a ptr" nat | Push "'a ptr" | Set_value nat "'a ptr"
  | Delete nat | Delete_ptr "'a ptr" | Shift | Pop | Zero

text \<open>What a call returns: the new number of elements (0 for a failure), a pointer, or nothing.\<close>

datatype 'a stack_result = Count nat | Pointer "'a ptr" | Nothing

fun run_op :: "(nat \<Rightarrow> bool) \<Rightarrow> 'a ptr \<Rightarrow> 'a stack_op \<Rightarrow> 'a stack_st option \<Rightarrow> 'a stack_result \<times> 'a stack_st option" where
  "run_op alloc fresh (Insert p w) s = map_prod Count id (sk_insert alloc fresh s p w)"
| "run_op alloc fresh (Push p) s = map_prod Count id (sk_push alloc fresh s p)"
| "run_op alloc fresh (Set_value i p) s = map_prod Pointer id (sk_set s i p)"
| "run_op alloc fresh (Delete w) s = map_prod Pointer id (sk_delete s w)"
| "run_op alloc fresh (Delete_ptr p) s = map_prod Pointer id (sk_delete_ptr s p)"
| "run_op alloc fresh Shift s = map_prod Pointer id (sk_shift s)"
| "run_op alloc fresh Pop s = map_prod Pointer id (sk_pop s)"
| "run_op alloc fresh Zero s = (Nothing, sk_zero s)"

fun inserts :: "'a stack_op \<Rightarrow> bool" where
  "inserts (Insert p w) = True"
| "inserts (Push p) = True"
| "inserts _ = False"

text \<open>The same operations on a list, with what they return.\<close>

fun list_op :: "'a stack_op \<Rightarrow> 'a ptr list \<Rightarrow> 'a stack_result \<times> 'a ptr list" where
  "list_op (Insert p w) xs = (Count (length xs + 1), take w xs @ [p] @ drop w xs)"
| "list_op (Push p) xs = (Count (length xs + 1), xs @ [p])"
| "list_op (Set_value i p) xs = (if i < length xs then (Pointer p, xs[i := p]) else (Pointer None, xs))"
| "list_op (Delete w) xs =
     (if w < length xs then (Pointer (xs ! w), take w xs @ drop (w + 1) xs) else (Pointer None, xs))"
| "list_op (Delete_ptr p) xs = (if p \<in> set xs then (Pointer p, remove1 p xs) else (Pointer None, xs))"
| "list_op Shift xs = (case xs of [] \<Rightarrow> (Pointer None, []) | x # xs \<Rightarrow> (Pointer x, xs))"
| "list_op Pop xs = (if xs = [] then (Pointer None, []) else (Pointer (last xs), butlast xs))"
| "list_op Zero xs = (Nothing, [])"

lemma remove1_at: "xs ! j = x \<Longrightarrow> j < length xs \<Longrightarrow> \<forall>k < j. xs ! k \<noteq> x \<Longrightarrow> remove1 x xs = take j xs @ drop (j + 1) xs"
proof (induction xs arbitrary: j)
  case (Cons y ys)
  show ?case
  proof (cases j)
    case (Suc i)
    with Cons.prems have "y \<noteq> x" by force
    moreover have "remove1 x ys = take i ys @ drop (i + 1) ys"
      using Cons.prems Suc by (intro Cons.IH) auto
    ultimately show ?thesis using Suc by simp
  qed (use Cons.prems in simp)
qed simp

lemma delete_at_end: "xs \<noteq> [] \<Longrightarrow> take (length xs - 1) xs @ drop (length xs - 1 + 1) xs = butlast xs"
  by (simp add: butlast_conv_take)

lemma delete_ptr_ok:
  assumes "sk_ok sk"
  shows "\<exists>r sk'. sk_delete_ptr (Some sk) p = (r, Some sk') \<and> Pointer r = fst (list_op (Delete_ptr p) (elems sk)) \<and> sk_ok sk' \<and>
    cmp_func sk' = cmp_func sk \<and> sk_sorted sk' = sk_sorted sk \<and> elems sk' = snd (list_op (Delete_ptr p) (elems sk))"
proof (cases "first_index (\<lambda>e. e = p) (elems sk) 0")
  case None
  then have "p \<notin> set (elems sk)" by (auto simp: first_index_none)
  with None assms show ?thesis by (auto simp: sk_delete_ptr_def elems_def)
next
  case (Some j)
  from first_index_less [OF Some] have j: "j < num sk" "elems sk ! j = p" "\<forall>k < j. elems sk ! k \<noteq> p"
    by (simp_all add: length_elems [OF assms])
  then have "p \<in> set (elems sk)" using length_elems [OF assms] by (metis nth_mem)
  moreover have "remove1 p (elems sk) = take j (elems sk) @ drop (j + 1) (elems sk)"
    using j length_elems [OF assms] by (intro remove1_at) simp_all
  ultimately show ?thesis
    using delete_ok [OF assms j(1)] j(2) Some by (auto simp: sk_delete_ptr_def elems_def)
qed

lemma set_ok:
  assumes "sk_ok sk"
  shows "\<exists>r sk'. sk_set (Some sk) i p = (r, Some sk') \<and> Pointer r = fst (list_op (Set_value i p) (elems sk)) \<and> sk_ok sk' \<and>
    cmp_func sk' = cmp_func sk \<and> elems sk' = snd (list_op (Set_value i p) (elems sk))"
  using assms length_elems [OF assms]
  by (auto simp: sk_set_def sk_ok_def elems_def take_update_swap)

lemma zero_ok: "sk_ok sk \<Longrightarrow> \<exists>sk'. sk_zero (Some sk) = Some sk' \<and> sk_ok sk' \<and> cmp_func sk' = cmp_func sk \<and>
    elems sk' = [] \<and> (sk_sorted sk' \<longrightarrow> sk_sorted sk)"
  by (auto simp: sk_zero_def sk_ok_def elems_def)

lemma delete_list_ok:
  assumes "sk_ok sk"
  shows "\<exists>r sk'. sk_delete (Some sk) w = (r, Some sk') \<and> Pointer r = fst (list_op (Delete w) (elems sk)) \<and> sk_ok sk' \<and>
    cmp_func sk' = cmp_func sk \<and> sk_sorted sk' = sk_sorted sk \<and> elems sk' = snd (list_op (Delete w) (elems sk))"
proof (cases "w < num sk")
  case True
  then show ?thesis using delete_ok [OF assms True] length_elems [OF assms] by auto
next
  case False
  then show ?thesis using assms length_elems [OF assms] by (auto simp: sk_delete_def)
qed

lemma shift_pop_delete:
  assumes "sk_ok sk"
  shows "sk_shift (Some sk) = (if elems sk = [] then (None, Some sk) else sk_delete (Some sk) 0)"
    and "sk_pop (Some sk) = (if elems sk = [] then (None, Some sk) else sk_delete (Some sk) (length (elems sk) - 1))"
  using length_elems [OF assms] by (auto simp: sk_shift_def sk_pop_def simp flip: length_0_conv)

lemma stack_refines:
  assumes "sk_ok sk"
  shows "\<exists>r sk'. run_op alloc fresh op (Some sk) = (r, Some sk') \<and> sk_ok sk' \<and>
    (if inserts op \<and> refused alloc sk then r = Count 0 \<and> sk' = sk else (r, elems sk') = list_op op (elems sk))"
proof (cases op)
  case (Insert p w)
  obtain r s' where i: "sk_insert alloc fresh (Some sk) p w = (r, s')" by force
  have "r = (if refused alloc sk then 0 else num sk + 1)" using insert_result [OF assms, of alloc fresh p w] i by simp
  with insert_ok [OF assms i] i Insert length_elems [OF assms] show ?thesis by (auto split: if_splits)
next
  case (Push p)
  obtain r s' where i: "sk_insert alloc fresh (Some sk) p (num sk) = (r, s')" by force
  have "r = (if refused alloc sk then 0 else num sk + 1)" using insert_result [OF assms, of alloc fresh p "num sk"] i by simp
  with insert_ok [OF assms i] i Push length_elems [OF assms] show ?thesis
    by (auto simp: sk_push_def sk_num_def split: if_splits)
next
  case Shift
  with shift_pop_delete(1) [OF assms] delete_list_ok [OF assms, of 0] assms show ?thesis
    by (cases "elems sk") auto
next
  case Pop
  with shift_pop_delete(2) [OF assms] delete_list_ok [OF assms, of "length (elems sk) - 1"] assms
    delete_at_end [of "elems sk"] show ?thesis
    by (cases "elems sk = []") (auto simp: last_conv_nth)
next
  case (Set_value i p)
  with set_ok [OF assms, of i p] show ?thesis by auto
next
  case (Delete w)
  with delete_list_ok [OF assms, of w] show ?thesis by auto
next
  case (Delete_ptr p)
  with delete_ptr_ok [OF assms, of p] show ?thesis by auto
next
  case Zero
  with zero_ok [OF assms] show ?thesis by auto
qed

text \<open>C25. The stack is a list of pointers: every operation on an intact array leaves it intact and
  returns and stores what the list operation gives. The one exception is an insertion for which the
  array must grow and its memory is refused (or beyond \<open>size_t\<close>): it returns 0 and changes nothing.\<close>

theorem stack_refines_list:
  assumes "sk_ok sk"
  shows "\<exists>r sk'. run_op alloc fresh op (Some sk) = (r, Some sk') \<and> sk_ok sk' \<and>
    (if inserts op \<and> refused alloc sk then r = Count 0 \<and> sk' = sk else (r, elems sk') = list_op op (elems sk))"
  by (rule stack_refines [OF assms])

lemma stack_refines_list_witness:
  "\<exists>sk r sk'. sk_new (\<lambda>_. True) None = Some sk \<and> run_op (\<lambda>_. False) None (Push (Some (7 :: nat))) (Some sk) = (r, Some sk')
    \<and> sk_ok sk' \<and> (r, elems sk') = (Count 1, [Some 7])"
proof -
  have n: "sk_new (\<lambda>_. True) None = Some (the (sk_new (\<lambda>_. True) None) :: nat stack_st)" by (simp add: sk_new_def)
  have r: "\<not> refused (\<lambda>_. False) (the (sk_new (\<lambda>_. True) None) :: nat stack_st)"
    by (simp add: refused_def sk_new_def kMinSize_def)
  note ok = new_ok [OF n]
  from stack_refines_list [OF conjunct1 [OF ok], of "\<lambda>_. False" None "Push (Some 7)"] n r ok
  show ?thesis by (intro exI [of _ "the (sk_new (\<lambda>_. True) None) :: nat stack_st"]) simp
qed

section \<open>Binary search\<close>

lemma find_loop_first:
  assumes mono: "\<And>i j. i \<le> j \<Longrightarrow> j < n \<Longrightarrow> (c (d ! i) \<le> 0 \<longrightarrow> c (d ! j) \<le> 0) \<and> (c (d ! i) < 0 \<longrightarrow> c (d ! j) < 0)"
  shows "hi \<le> n \<Longrightarrow> (\<And>i. i < lo \<Longrightarrow> c (d ! i) > 0) \<Longrightarrow> case find_loop c d lo hi of
      Some k \<Rightarrow> lo \<le> k \<and> k < hi \<and> c (d ! k) = 0 \<and> (\<forall>i < k. c (d ! i) > 0)
    | None \<Rightarrow> \<forall>i. lo \<le> i \<and> i < hi \<longrightarrow> c (d ! i) \<noteq> 0"
proof (induction "hi - lo" arbitrary: lo hi rule: less_induct)
  case less
  show ?case
  proof (cases "lo < hi")
    case False
    then show ?thesis by (subst find_loop.simps) simp
  next
    case True
    define mid where "mid = lo + (hi - lo - 1) div 2"
    have m: "lo \<le> mid" "mid < hi" using True unfolding mid_def by linarith+
    consider (high) "c (d ! mid) > 0" | (low) "c (d ! mid) < 0" | (one) "c (d ! mid) = 0" "hi - lo = 1"
      | (more) "c (d ! mid) = 0" "hi - lo \<noteq> 1" by linarith
    then show ?thesis
    proof cases
      case high
      have up: "c (d ! i) > 0" if "i < mid + 1" for i
        using mono [of i mid] that m less.prems(1) high by force
      have eq: "find_loop c d lo hi = find_loop c d (mid + 1) hi"
        using True high by (subst find_loop.simps) (simp add: mid_def Let_def)
      have lt: "hi - (mid + 1) < hi - lo" using m by linarith
      note IH = less.hyps [OF lt less.prems(1) up]
      have "c (d ! i) \<noteq> 0" if "find_loop c d (mid + 1) hi = None" "lo \<le> i" "i < hi" for i
        using IH that up [of i] by (cases "i < mid + 1") auto
      with IH m show ?thesis unfolding eq by (auto split: option.splits)
    next
      case low
      have down: "c (d ! i) < 0" if "mid \<le> i" "i < hi" for i
        using mono [of mid i] that less.prems(1) low by force
      have eq: "find_loop c d lo hi = find_loop c d lo mid"
        using True low by (subst find_loop.simps) (simp add: mid_def Let_def)
      have lt: "mid - lo < hi - lo" "mid \<le> n" using m less.prems(1) by linarith+
      note IH = less.hyps [OF lt less.prems(2)]
      have "c (d ! i) \<noteq> 0" if "find_loop c d lo mid = None" "lo \<le> i" "i < hi" for i
        using IH that down [of i] by (cases "i < mid") auto
      with IH m show ?thesis unfolding eq by (auto split: option.splits)
    next
      case one
      then have "mid = lo" using True by (simp add: mid_def)
      with one True less.prems(2) show ?thesis
        by (subst find_loop.simps) (simp add: mid_def Let_def)
    next
      case more
      have lt: "mid + 1 < hi" using True more(2) unfolding mid_def by linarith
      have eq: "find_loop c d lo hi = find_loop c d lo (mid + 1)"
        using True more by (subst find_loop.simps) (simp add: mid_def Let_def)
      have le: "mid + 1 - lo < hi - lo" "mid + 1 \<le> n" using m lt less.prems(1) by linarith+
      note IH = less.hyps [OF le less.prems(2)]
      with more(1) m lt show ?thesis unfolding eq by (auto split: option.splits)
    qed
  qed
qed

lemma first_index_found:
  "j < length es \<Longrightarrow> test (es ! j) \<Longrightarrow> \<forall>k < j. \<not> test (es ! k) \<Longrightarrow> first_index test es i = Some (i + j)"
proof (induction test es i arbitrary: j rule: first_index.induct)
  case (2 test e es i)
  show ?case
  proof (cases j)
    case (Suc k)
    with "2.prems"(3) have "\<not> test e" by force
    moreover have "first_index test es (i + 1) = Some (i + 1 + k)"
      using 2 Suc calculation by (intro "2.IH") auto
    ultimately show ?thesis using Suc by simp
  qed (use 2 in simp)
qed simp

lemma find_loop_is_first_index:
  assumes "total_cmp cmp" and "sorted_wrt (\<lambda>x y. cmp x y \<le> 0) (take n d)" and "n \<le> length d"
  shows "find_loop (\<lambda>e. cmp p e) d 0 n = first_index (\<lambda>e. cmp p e = 0) (take n d) 0"
proof -
  have le: "cmp (d ! i) (d ! j) \<le> 0" if "i < j" "j < n" for i j
    using sorted_wrt_nth_less [OF assms(2) that(1)] that assms(3) by simp
  have mono: "(cmp p (d ! i) \<le> 0 \<longrightarrow> cmp p (d ! j) \<le> 0) \<and> (cmp p (d ! i) < 0 \<longrightarrow> cmp p (d ! j) < 0)"
    if "i \<le> j" "j < n" for i j
  proof (cases "i = j")
    case False
    then have ij: "cmp (d ! i) (d ! j) \<le> 0" using that by (intro le) simp_all
    have "cmp p (d ! j) < 0" if l: "cmp p (d ! i) < 0"
    proof (rule ccontr)
      assume "\<not> cmp p (d ! j) < 0"
      then have "cmp (d ! j) p \<le> 0" using assms(1) unfolding total_cmp_def by (metis linorder_not_le)
      from total_cmp_trans [OF assms(1) ij this] l show False
        using assms(1) unfolding total_cmp_def by (metis linorder_not_le)
    qed
    then show ?thesis using total_cmp_trans [OF assms(1) _ ij, of p] by blast
  qed simp
  note r = find_loop_first [where c = "\<lambda>e. cmp p e" and d = d and n = n and lo = 0 and hi = n, OF mono]
  show ?thesis
  proof (cases "find_loop (\<lambda>e. cmp p e) d 0 n")
    case None
    with r have "\<forall>e \<in> set (take n d). cmp p e \<noteq> 0" by (auto simp: in_set_conv_nth)
    then show ?thesis using None first_index_none [of "\<lambda>e. cmp p e = 0" "take n d" 0] by simp
  next
    case (Some k)
    with r have "k < n" "cmp p (d ! k) = 0" "\<forall>i < k. cmp p (d ! i) > 0" by auto
    then have "first_index (\<lambda>e. cmp p e = 0) (take n d) 0 = Some (0 + k)"
      using assms(3) by (intro first_index_found) auto
    then show ?thesis using Some by simp
  qed
qed

section \<open>The sorted flag\<close>

definition sorted_ok :: "'a stack_st \<Rightarrow> bool" where
  "sorted_ok sk \<longleftrightarrow> (\<forall>cmp. cmp_func sk = Some cmp \<longrightarrow> total_cmp cmp \<and>
     (sk_sorted sk \<longrightarrow> sorted_wrt (\<lambda>x y. cmp x y \<le> 0) (elems sk)))"

fun is_set :: "'a stack_op \<Rightarrow> bool" where
  "is_set (Set_value _ _) = True"
| "is_set _ = False"

definition copied :: "('a \<Rightarrow> 'a ptr) \<Rightarrow> 'a ptr \<Rightarrow> 'a ptr" where
  "copied copy e = (case e of None \<Rightarrow> None | Some x \<Rightarrow> copy x)"

definition copies :: "('a \<Rightarrow> 'a ptr) \<Rightarrow> 'a ptr \<Rightarrow> bool" where
  "copies copy e \<longleftrightarrow> (case e of None \<Rightarrow> True | Some x \<Rightarrow> copy x \<noteq> None)"

definition pointers :: "'a ptr list \<Rightarrow> 'a list" where
  "pointers es = map the (filter (\<lambda>e. e \<noteq> None) es)"

lemma copied_simps [simp]:
  "copied copy None = None" "copied copy (Some x) = copy x"
  "copies copy None" "copies copy (Some x) \<longleftrightarrow> copy x \<noteq> None"
  by (simp_all add: copied_def copies_def)

lemma deep_copy_loop_spec:
  "deep_copy_loop copy acc es =
     (if list_all (copies copy) es then (Some (acc @ map (copied copy) es), [])
      else (None, pointers (acc @ map (copied copy) (takeWhile (copies copy) es))))"
  by (induction copy acc es rule: deep_copy_loop.induct)
    (auto simp: pointers_def split: option.splits)

text \<open>The copies of two elements that are in order are in order.\<close>

definition copies_in_order :: "('a \<Rightarrow> 'a ptr) \<Rightarrow> 'a stack_st \<Rightarrow> bool" where
  "copies_in_order copy sk \<longleftrightarrow> (\<forall>cmp. cmp_func sk = Some cmp \<longrightarrow>
     (\<forall>x \<in> set (elems sk). \<forall>y \<in> set (elems sk). cmp x y \<le> 0 \<longrightarrow> cmp (copied copy x) (copied copy y) \<le> 0))"

text \<open>One call on a stack: any operation but \<open>sk_set\<close>, a sort with any sort routine, a change of
  the comparison function to a total order, or going on with a copy or with a deep copy made by a
  function that keeps the order of the elements.\<close>

inductive sk_step :: "'a stack_st \<Rightarrow> 'a stack_st \<Rightarrow> bool" where
  op: "\<not> is_set op \<Longrightarrow> run_op alloc fresh op (Some sk) = (r, Some sk') \<Longrightarrow> sk_step sk sk'"
| sort: "sort_routine srt \<Longrightarrow> sk_sort srt (Some sk) = Some sk' \<Longrightarrow> sk_step sk sk'"
| set_cmp: "(same \<longrightarrow> c = cmp_func sk) \<Longrightarrow> (\<forall>cmp. c = Some cmp \<longrightarrow> total_cmp cmp) \<Longrightarrow>
    sk_step sk (snd (sk_set_cmp_func same sk c))"
| dup: "sk_dup alloc fresh (Some sk) = Some sk' \<Longrightarrow> sk_step sk sk'"
| deep_copy: "copies_in_order copy sk \<Longrightarrow> sk_deep_copy alloc fresh (Some sk) copy = (Some sk', freed) \<Longrightarrow> sk_step sk sk'"

inductive_cases sk_stepE: "sk_step sk sk'"

lemma map_result: "map_prod f id x = (r, s) \<longleftrightarrow> (\<exists>y. x = (y, s) \<and> r = f y)"
  by (cases x) auto

lemma sorted_sub: "sorted_wrt P xs \<Longrightarrow> sorted_wrt P (take i xs @ drop (Suc i) xs)"
proof (cases "i < length xs")
  case True
  assume "sorted_wrt P xs"
  then have "sorted_wrt P (take i xs @ xs ! i # drop (Suc i) xs)"
    by (simp only: id_take_nth_drop [OF True, symmetric])
  then show ?thesis by (simp add: sorted_wrt_append)
qed simp

lemma delete_keeps_sorted:
  assumes "sk_ok sk" and "sorted_ok sk" and "sk_delete (Some sk) w = (r, Some sk')"
  shows "sorted_ok sk'"
proof (cases "w < num sk")
  case True
  from delete_ok [OF assms(1) True] assms(3) have "cmp_func sk' = cmp_func sk" "sk_sorted sk' = sk_sorted sk"
    "elems sk' = take w (elems sk) @ drop (Suc w) (elems sk)" by auto
  with assms(2) show ?thesis by (auto simp: sorted_ok_def sorted_sub)
next
  case False
  with assms show ?thesis by (simp add: sk_delete_def)
qed

lemma op_keeps_sorted:
  assumes "sk_ok sk" and "sorted_ok sk" and "\<not> is_set op" and "run_op alloc fresh op (Some sk) = (r, Some sk')"
  shows "sorted_ok sk'"
proof -
  have ins: "sorted_ok sk'" if "sk_insert alloc fresh (Some sk) p w = (k, Some sk')" for p w k
    using insert_ok [OF assms(1) that] assms(2) by (auto simp: sorted_ok_def split: if_splits)
  show ?thesis
  proof (cases op)
    case (Insert p w)
    then show ?thesis using assms(4) ins by (auto simp: map_result)
  next
    case (Push p)
    then show ?thesis using assms(4) ins by (auto simp: map_result sk_push_def sk_num_def)
  next
    case (Delete w)
    with assms show ?thesis using delete_keeps_sorted [OF assms(1,2)] by (auto simp: map_result)
  next
    case (Delete_ptr p)
    with assms show ?thesis
      by (auto simp: map_result sk_delete_ptr_def split: option.splits intro: delete_keeps_sorted)
  next
    case Zero
    with assms zero_ok [OF assms(1)] show ?thesis by (auto simp: sorted_ok_def)
  qed (use assms shift_pop_delete [OF assms(1)] delete_keeps_sorted in \<open>auto simp: map_result split: if_splits\<close>)
qed

lemma sort_ok:
  assumes "sk_ok sk" and "sorted_ok sk" and "sort_routine srt" and "sk_sort srt (Some sk) = Some sk'"
  shows "sk_ok sk'" and "sorted_ok sk'" and "mset (elems sk') = mset (elems sk)"
proof -
  have p: "mset (srt cmp (elems sk)) = mset (elems sk)"
    "total_cmp cmp \<Longrightarrow> sorted_wrt (\<lambda>x y. cmp x y \<le> 0) (srt cmp (elems sk))" for cmp
    using assms(3) by (simp_all add: sort_routine_def)
  have l: "length (srt cmp (take (num sk) (data sk))) = num sk" for cmp
    using p(1) [of cmp] length_elems [OF assms(1)] by (metis elems_def size_mset)
  have one: "sorted_wrt P xs" if "length xs < 2" for P :: "'a ptr \<Rightarrow> _" and xs
    using that by (cases xs; cases "tl xs") auto
  show "sk_ok sk'" "mset (elems sk') = mset (elems sk)"
    using assms(1,4) l p(1) by (auto simp: sk_sort_def sk_ok_def elems_def split: option.splits if_splits)
  show "sorted_ok sk'"
    using assms(2,4) l p(2) one [of "elems sk"] length_elems [OF assms(1)]
    by (auto simp: sk_sort_def sorted_ok_def elems_def Let_def split: option.splits if_splits)
qed

lemma dup_ok:
  assumes "sk_ok sk" and "sk_dup alloc fresh (Some sk) = Some sk'"
  shows "sk_ok sk' \<and> elems sk' = elems sk \<and> cmp_func sk' = cmp_func sk \<and> sk_sorted sk' = sk_sorted sk"
  using assms
  by (auto simp: sk_dup_def sk_new_def sk_ok_def elems_def resize_ptrs_def Let_def split: if_splits)

lemma deep_copy_ok:
  assumes "sk_ok sk" and "sk_deep_copy alloc fresh (Some sk) copy = (Some sk', freed)"
  shows "sk_ok sk' \<and> elems sk' = map (copied copy) (elems sk) \<and> cmp_func sk' = cmp_func sk \<and> sk_sorted sk' = sk_sorted sk \<and>
    list_all (copies copy) (elems sk) \<and> freed = []"
proof -
  from assms(2) obtain ret where r: "sk_dup alloc fresh (Some sk) = Some ret"
    by (auto simp: sk_deep_copy_def split: option.splits)
  note d = dup_ok [OF assms(1) r]
  have take: "take (num ret) (data ret) = elems sk" using d by (simp add: elems_def)
  have len: "length (elems sk) = num ret" using d length_elems [of ret] by simp
  show ?thesis
    using assms(2) d len by (auto simp: sk_deep_copy_def r take deep_copy_loop_spec sk_ok_def elems_def split: if_splits)
qed

lemma deep_copy_sorted:
  assumes "sk_ok sk" and "sorted_ok sk" and "copies_in_order copy sk"
    and "sk_deep_copy alloc fresh (Some sk) copy = (Some sk', freed)"
  shows "sorted_ok sk'"
  using deep_copy_ok [OF assms(1,4)] assms(2,3)
  by (auto simp: sorted_ok_def copies_in_order_def sorted_wrt_map intro: sorted_wrt_mono_rel [rotated])

lemma stack_step_keeps: "sk_step sk sk' \<Longrightarrow> sk_ok sk \<Longrightarrow> sorted_ok sk \<Longrightarrow> sk_ok sk' \<and> sorted_ok sk'"
proof (induction rule: sk_step.induct)
  case (op op alloc fresh sk r sk')
  then show ?case
    using op_keeps_sorted [OF op.prems op.hyps] stack_refines [OF op.prems(1), of alloc fresh op] by auto
next
  case (sort srt sk sk')
  then show ?case using sort_ok by blast
next
  case (set_cmp same c sk)
  then show ?case by (auto simp: sk_set_cmp_func_def sk_ok_def sorted_ok_def elems_def)
next
  case (dup alloc fresh sk sk')
  then show ?case using dup_ok [OF dup.prems(1) dup.hyps] by (auto simp: sorted_ok_def)
next
  case (deep_copy copy sk alloc fresh sk' freed)
  then show ?case
    using deep_copy_ok [OF deep_copy.prems(1) deep_copy.hyps(2)]
      deep_copy_sorted [OF deep_copy.prems deep_copy.hyps] by blast
qed

definition total_or_none :: "'a stack_cmp_func option \<Rightarrow> bool" where
  "total_or_none c \<longleftrightarrow> (case c of None \<Rightarrow> True | Some cmp \<Rightarrow> total_cmp cmp)"

text \<open>The elements a search looks for.\<close>

definition matches :: "'a stack_st \<Rightarrow> 'a ptr \<Rightarrow> 'a ptr \<Rightarrow> bool" where
  "matches sk p e = (case cmp_func sk of None \<Rightarrow> e = p | Some cmp \<Rightarrow> p \<noteq> None \<and> cmp p e = 0)"

text \<open>C26. After any sequence of operations other than \<open>sk_set\<close>, sorts with any correct sort routine,
  changes of the comparison function, copies, and deep copies whose copy function keeps the order of
  the elements, a search gives the index of the first equal
  element, or none exactly when there is none, by binary search as by linear search.\<close>

theorem find_gives_first:
  assumes "sk_new alloc c = Some sk0" and "total_or_none c" and "sk_step\<^sup>*\<^sup>* sk0 sk"
  shows "sk_find (Some sk) p = first_index (matches sk p) (elems sk) 0"
proof -
  have "sk_ok sk0 \<and> sorted_ok sk0"
    using new_ok [OF assms(1)] assms(2) by (auto simp: sorted_ok_def total_or_none_def)
  with assms(3) have ok: "sk_ok sk" "sorted_ok sk"
    by (induction rule: rtranclp_induct) (auto dest: stack_step_keeps)
  show ?thesis
  proof (cases "cmp_func sk")
    case None
    then show ?thesis by (simp add: sk_find_def elems_def matches_def [abs_def])
  next
    case (Some cmp)
    with ok have "total_cmp cmp" "sk_sorted sk \<Longrightarrow> sorted_wrt (\<lambda>x y. cmp x y \<le> 0) (elems sk)"
      by (simp_all add: sorted_ok_def)
    moreover have "first_index (\<lambda>e. False) es 0 = None" for es :: "'a ptr list"
      by (simp add: first_index_none)
    ultimately show ?thesis
      using Some ok(1) find_loop_is_first_index [of cmp "num sk" "data sk" p]
      by (auto simp: sk_find_def sk_is_sorted_def elems_def matches_def [abs_def] sk_ok_def)
  qed
qed

text \<open>A total order on pointers to numbers, for the instances below.\<close>

definition nat_cmp :: "nat stack_cmp_func" where
  "nat_cmp a b = (case (a, b) of
     (None, None) \<Rightarrow> 0 | (None, Some _) \<Rightarrow> -1 | (Some _, None) \<Rightarrow> 1
   | (Some x, Some y) \<Rightarrow> int x - int y)"

lemma total_nat_cmp: "total_cmp nat_cmp"
  unfolding total_cmp_def nat_cmp_def by (auto split: option.splits)

lemma find_gives_first_witness:
  "\<exists>sk. sk_find (Some sk) (Some (3 :: nat)) = first_index (matches sk (Some 3)) (elems sk) 0 \<and>
     elems sk = [Some 3, Some 5] \<and> sk_sorted sk"
proof -
  define s0 where "s0 = the (sk_new (\<lambda>_. True) (Some nat_cmp))"
  define s1 where "s1 = the (snd (run_op (\<lambda>_. True) None (Push (Some 5)) (Some s0)))"
  define s2 where "s2 = the (snd (run_op (\<lambda>_. True) None (Push (Some 3)) (Some s1)))"
  define s3 where "s3 = the (sk_sort qsort (Some s2))"
  note defs = s3_def s2_def s1_def s0_def sk_push_def sk_insert_def sk_grow_def sk_new_def sk_num_def kMinSize_def
    sk_sort_def Let_def numeral_eq_Suc
  have new: "sk_new (\<lambda>_. True) (Some nat_cmp) = Some s0" by (simp add: defs)
  have "sk_step s0 s1" by (rule sk_step.op [of "Push (Some 5)" "\<lambda>_. True" None s0 "Count 1"]) (simp_all add: defs)
  moreover have "sk_step s1 s2" by (rule sk_step.op [of "Push (Some 3)" "\<lambda>_. True" None s1 "Count 2"]) (simp_all add: defs)
  moreover have "sk_step s2 s3" by (rule sk_step.sort [OF sort_routine_qsort]) (simp add: defs)
  ultimately have steps: "sk_step\<^sup>*\<^sup>* s0 s3" by simp
  have "elems s3 = [Some 3, Some 5]" "sk_sorted s3"
    by (simp_all add: defs elems_def qsort_def nat_cmp_def)
  moreover have "sk_find (Some s3) (Some 3) = first_index (matches s3 (Some 3)) (elems s3) 0"
    by (rule find_gives_first [OF new _ steps]) (simp add: total_or_none_def total_nat_cmp)
  ultimately show ?thesis by blast
qed

text \<open>\<open>sk_set\<close> leaves the flag of a sorted stack set, and a search may then miss an element.\<close>

lemma set_breaks_find:
  "sk_find (snd (sk_set (Some \<lparr>num = 3, data = [Some 1, Some 2, Some 3, None], sk_sorted = True, num_alloc = 4,
      cmp_func = Some nat_cmp\<rparr>) 0 (Some 9))) (Some 2) = None"
  by (simp add: sk_set_def sk_find_def sk_is_sorted_def find_loop.simps nat_cmp_def Let_def)

text \<open>So may a search after a deep copy whose copies are in another order than the elements.\<close>

lemma deep_copy_breaks_find:
  "sk_find (fst (sk_deep_copy (\<lambda>_. True) None (Some \<lparr>num = 3, data = [Some 1, Some 2, Some 3, None], sk_sorted = True,
      num_alloc = 4, cmp_func = Some nat_cmp\<rparr>) (\<lambda>x. Some (10 - x)))) (Some 9) = None"
  by (simp add: sk_deep_copy_def sk_dup_def sk_new_def kMinSize_def resize_ptrs_def sk_find_def sk_is_sorted_def
      find_loop.simps nat_cmp_def Let_def)

section \<open>Deep copies\<close>

text \<open>C27. A deep copy succeeds with a copy of every element, or fails and frees exactly the copies
  it had made: nothing leaks and nothing of the original is freed.\<close>

theorem deep_copy_all_or_nothing:
  assumes "sk_ok sk"
  shows "case sk_deep_copy alloc fresh (Some sk) copy of
      (Some sk', freed) \<Rightarrow> freed = [] \<and> sk_ok sk' \<and> list_all (copies copy) (elems sk) \<and>
        elems sk' = map (copied copy) (elems sk)
    | (None, freed) \<Rightarrow> (sk_dup alloc fresh (Some sk) = None \<and> freed = []) \<or>
        (\<not> list_all (copies copy) (elems sk) \<and>
         freed = pointers (map (copied copy) (takeWhile (copies copy) (elems sk))))"
proof (cases "sk_dup alloc fresh (Some sk)")
  case None
  then show ?thesis by (simp add: sk_deep_copy_def)
next
  case (Some ret)
  note d = dup_ok [OF assms Some]
  have take: "take (num ret) (data ret) = elems sk" using d by (simp add: elems_def)
  have len: "length (elems sk) = num ret" using d length_elems [of ret] by simp
  show ?thesis
  proof (cases "list_all (copies copy) (elems sk)")
    case True
    then show ?thesis
      using d len by (simp add: sk_deep_copy_def Some take deep_copy_loop_spec) (simp add: sk_ok_def elems_def)
  next
    case False
    then show ?thesis by (simp add: sk_deep_copy_def Some take deep_copy_loop_spec)
  qed
qed

lemma deep_copy_all_or_nothing_witness:
  "case sk_deep_copy (\<lambda>_. True) None (Some (\<lparr>num = 2, data = [Some 1, Some 0, None, None], sk_sorted = False,
      num_alloc = 4, cmp_func = None\<rparr> :: nat stack_st)) (\<lambda>x. if x = 0 then None else Some (x + 10)) of
      (Some sk', freed) \<Rightarrow> freed = [] \<and> sk_ok sk' \<and>
        list_all (copies (\<lambda>x. if x = 0 then None else Some (x + 10))) (elems (\<lparr>num = 2,
          data = [Some 1, Some 0, None, None], sk_sorted = False, num_alloc = 4, cmp_func = None\<rparr> :: nat stack_st)) \<and>
        elems sk' = map (copied (\<lambda>x. if x = 0 then None else Some (x + 10))) (elems \<lparr>num = 2,
          data = [Some 1, Some 0, None, None], sk_sorted = False, num_alloc = 4, cmp_func = None\<rparr>)
    | (None, freed) \<Rightarrow>
        (sk_dup (\<lambda>_. True) None (Some (\<lparr>num = 2, data = [Some 1, Some 0, None, None], sk_sorted = False,
           num_alloc = 4, cmp_func = None\<rparr> :: nat stack_st)) = None \<and> freed = []) \<or>
        (\<not> list_all (copies (\<lambda>x. if x = 0 then None else Some (x + 10))) (elems (\<lparr>num = 2,
           data = [Some 1, Some 0, None, None], sk_sorted = False, num_alloc = 4, cmp_func = None\<rparr> :: nat stack_st)) \<and>
         freed = pointers (map (copied (\<lambda>x. if x = 0 then None else Some (x + 10)))
           (takeWhile (copies (\<lambda>x. if x = 0 then None else Some (x + 10))) (elems \<lparr>num = 2,
             data = [Some 1, Some 0, None, None], sk_sorted = False, num_alloc = 4, cmp_func = None\<rparr>))))"
  by (rule deep_copy_all_or_nothing) (simp add: sk_ok_def)

end
