(* ===== verification/Lhash.thy ===== *)
theory Lhash
  imports Mem
begin

text \<open>
  \<open>crypto/lhash/lhash.c\<close>: the hash table with chaining. A chain is the list of its items from
  the head, an item is its data and its hash; the pointer to a pointer that the searches
  return is a bucket and a position in its chain, the length of the chain for the final
  \<open>NULL\<close>. \<open>alloc\<close> says which requests of the allocator succeed. The callback of \<open>lh_doall_arg\<close>
  folds over a state of its own; a callback that changes the table itself is not modelled.
\<close>

definition kMinNumBuckets :: nat where "kMinNumBuckets = 16"
definition kMaxAverageChainLength :: nat where "kMaxAverageChainLength = 2"
definition kMinAverageChainLength :: nat where "kMinAverageChainLength = 1"

type_synonym 'a lhash_item = "'a \<times> u32"

record 'a lhash_st =
  num_items :: nat
  buckets :: "'a lhash_item list list"
  num_buckets :: nat
  callback_depth :: nat
  comp_func :: "'a \<Rightarrow> 'a \<Rightarrow> int"
  hash_func :: "'a \<Rightarrow> u32"

definition UINT_MAX :: nat where "UINT_MAX = 2 ^ 32 - 1"

definition lh_new :: "(nat \<Rightarrow> bool) \<Rightarrow> ('a \<Rightarrow> u32) \<Rightarrow> ('a \<Rightarrow> 'a \<Rightarrow> int) \<Rightarrow> 'a lhash_st option" where
  "lh_new alloc h c =
     (if \<not> alloc 48 then None
      else if \<not> alloc (8 * kMinNumBuckets) then None
      else Some \<lparr>num_items = 0, buckets = replicate kMinNumBuckets [], num_buckets = kMinNumBuckets,
                 callback_depth = 0, comp_func = c, hash_func = h\<rparr>)"

text \<open>The items \<open>lh_free\<close> frees, in order.\<close>

definition lh_free :: "'a lhash_st option \<Rightarrow> 'a lhash_item list" where
  "lh_free lh = (case lh of None \<Rightarrow> [] | Some lh \<Rightarrow> concat (buckets lh))"

definition lh_num_items :: "'a lhash_st \<Rightarrow> nat" where
  "lh_num_items lh = num_items lh"

section \<open>Searching\<close>

fun chain_pos :: "('a \<Rightarrow> bool) \<Rightarrow> 'a lhash_item list \<Rightarrow> nat" where
  "chain_pos eq [] = 0"
| "chain_pos eq (item # items) = (if eq (fst item) then 0 else Suc (chain_pos eq items))"

definition get_next_ptr_and_hash :: "'a lhash_st \<Rightarrow> 'a \<Rightarrow> (nat \<times> nat) \<times> u32" where
  "get_next_ptr_and_hash lh x =
     (let h = hash_func lh x; b = unat h mod num_buckets lh
      in ((b, chain_pos (\<lambda>d. comp_func lh d x = 0) (buckets lh ! b)), h))"

definition get_next_ptr_by_key :: "'a lhash_st \<Rightarrow> 'k \<Rightarrow> u32 \<Rightarrow> ('k \<Rightarrow> 'a \<Rightarrow> int) \<Rightarrow> nat \<times> nat" where
  "get_next_ptr_by_key lh key key_hash cmp_key =
     (let b = unat key_hash mod num_buckets lh
      in (b, chain_pos (\<lambda>d. cmp_key key d = 0) (buckets lh ! b)))"

text \<open>\<open>*next_ptr\<close>.\<close>

definition item_at :: "'a lhash_st \<Rightarrow> nat \<times> nat \<Rightarrow> 'a lhash_item option" where
  "item_at lh p = (case p of (b, i) \<Rightarrow>
     if i < length (buckets lh ! b) then Some (buckets lh ! b ! i) else None)"

definition lh_retrieve :: "'a lhash_st \<Rightarrow> 'a \<Rightarrow> 'a option" where
  "lh_retrieve lh x = (case get_next_ptr_and_hash lh x of (p, _) \<Rightarrow> map_option fst (item_at lh p))"

definition lh_retrieve_key :: "'a lhash_st \<Rightarrow> 'k \<Rightarrow> u32 \<Rightarrow> ('k \<Rightarrow> 'a \<Rightarrow> int) \<Rightarrow> 'a option" where
  "lh_retrieve_key lh key key_hash cmp_key =
     map_option fst (item_at lh (get_next_ptr_by_key lh key key_hash cmp_key))"

section \<open>Resizing\<close>

text \<open>The two loops of \<open>lh_rebucket\<close> move every item to the head of its new chain.\<close>

definition rebucket_item :: "nat \<Rightarrow> 'a lhash_item \<Rightarrow> 'a lhash_item list list \<Rightarrow> 'a lhash_item list list" where
  "rebucket_item n item bs = (let b = unat (snd item) mod n in bs[b := item # bs ! b])"

definition lh_rebucket :: "(nat \<Rightarrow> bool) \<Rightarrow> 'a lhash_st \<Rightarrow> nat \<Rightarrow> 'a lhash_st" where
  "lh_rebucket alloc lh new_num_buckets =
     (let alloc_size = size_mul 8 new_num_buckets
      in if alloc_size div 8 \<noteq> new_num_buckets then lh
         else if \<not> alloc alloc_size then lh
         else lh\<lparr>buckets := fold (fold (rebucket_item new_num_buckets)) (buckets lh) (replicate new_num_buckets []),
                 num_buckets := new_num_buckets\<rparr>)"

definition lh_maybe_resize :: "(nat \<Rightarrow> bool) \<Rightarrow> 'a lhash_st \<Rightarrow> 'a lhash_st" where
  "lh_maybe_resize alloc lh =
     (if callback_depth lh > 0 then lh
      else
        let avg_chain_length = num_items lh div num_buckets lh
        in if avg_chain_length > kMaxAverageChainLength then
             (let new_num_buckets = size_mul (num_buckets lh) 2
              in if new_num_buckets > num_buckets lh then lh_rebucket alloc lh new_num_buckets else lh)
           else if avg_chain_length < kMinAverageChainLength \<and> num_buckets lh > kMinNumBuckets then
             (let new_num_buckets = num_buckets lh div 2;
                  new_num_buckets = (if new_num_buckets < kMinNumBuckets then kMinNumBuckets else new_num_buckets)
              in lh_rebucket alloc lh new_num_buckets)
           else lh)"

section \<open>Insertion and deletion\<close>

text \<open>The return value, \<open>*old_data\<close>, and the table.\<close>

definition lh_insert :: "(nat \<Rightarrow> bool) \<Rightarrow> 'a lhash_st \<Rightarrow> 'a \<Rightarrow> bool \<times> 'a option \<times> 'a lhash_st" where
  "lh_insert alloc lh x =
     (case get_next_ptr_and_hash lh x of
        ((b, i), h) \<Rightarrow>
          let chain = buckets lh ! b
          in case item_at lh (b, i) of
               Some (old, old_hash) \<Rightarrow>
                 (True, Some old, lh\<lparr>buckets := (buckets lh)[b := chain[i := (x, old_hash)]]\<rparr>)
             | None \<Rightarrow>
                 if \<not> alloc 24 then (False, None, lh)
                 else (True, None,
                       lh_maybe_resize alloc
                         (lh\<lparr>buckets := (buckets lh)[b := chain @ [(x, h)]], num_items := num_items lh + 1\<rparr>)))"

definition lh_delete :: "(nat \<Rightarrow> bool) \<Rightarrow> 'a lhash_st \<Rightarrow> 'a \<Rightarrow> 'a option \<times> 'a lhash_st" where
  "lh_delete alloc lh x =
     (case get_next_ptr_and_hash lh x of
        ((b, i), _) \<Rightarrow>
          let chain = buckets lh ! b
          in case item_at lh (b, i) of
               None \<Rightarrow> (None, lh)
             | Some (ret, _) \<Rightarrow>
                 (Some ret,
                  lh_maybe_resize alloc
                    (lh\<lparr>buckets := (buckets lh)[b := take i chain @ drop (i + 1) chain],
                        num_items := num_items lh - 1\<rparr>)))"

section \<open>Iteration\<close>

definition lh_doall_arg ::
  "(nat \<Rightarrow> bool) \<Rightarrow> 'a lhash_st option \<Rightarrow> ('a \<Rightarrow> 's \<Rightarrow> 's) \<Rightarrow> 's \<Rightarrow> 's \<times> 'a lhash_st option" where
  "lh_doall_arg alloc lh func arg =
     (case lh of
        None \<Rightarrow> (arg, None)
      | Some lh \<Rightarrow>
          let lh = (if callback_depth lh < UINT_MAX then lh\<lparr>callback_depth := callback_depth lh + 1\<rparr> else lh);
              arg = fold (\<lambda>chain arg. fold (\<lambda>item arg. func (fst item) arg) chain arg) (buckets lh) arg;
              lh = (if callback_depth lh < UINT_MAX then lh\<lparr>callback_depth := callback_depth lh - 1\<rparr> else lh)
          in (arg, Some (lh_maybe_resize alloc lh)))"

text \<open>\<open>c\<close> is \<open>None\<close> for \<open>NULL\<close>.\<close>

definition lh_strhash :: "bytes option \<Rightarrow> u32" where
  "lh_strhash c = (case c of None \<Rightarrow> 0 | Some s \<Rightarrow> OPENSSL_hash32 s (strlen s))"

end
