(* ===== verification/Lhash_Laws.thy ===== *)
theory Lhash_Laws
  imports Lhash
begin

text \<open>
  The hash table as a set of items that are pairwise different under the comparison function.
  The locale \<open>keyed_table\<close> is the contract of such a table: what a lookup returns after an
  insertion and after a deletion; \<open>lhash.c\<close> is shown to provide it.
\<close>

section \<open>The contract\<close>

locale keyed_table =
  fixes good :: "'s \<Rightarrow> bool"
    and lookup :: "'s \<Rightarrow> 'a \<Rightarrow> 'a option"
    and put :: "'s \<Rightarrow> 'a \<Rightarrow> 's"
    and remove :: "'s \<Rightarrow> 'a \<Rightarrow> 's"
    and same :: "'a \<Rightarrow> 'a \<Rightarrow> bool"
  assumes good_put: "good s \<Longrightarrow> good (put s x)"
    and good_remove: "good s \<Longrightarrow> good (remove s x)"
    and lookup_put: "good s \<Longrightarrow> lookup (put s x) k = (if same x k then Some x else lookup s k)"
    and lookup_remove: "good s \<Longrightarrow> lookup (remove s x) k = (if same x k then None else lookup s k)"
begin

lemma lookup_puts:
  "good s \<Longrightarrow> good (fold (\<lambda>x s. put s x) xs s) \<and>
    lookup (fold (\<lambda>x s. put s x) xs s) k =
      (case List.find (\<lambda>x. same x k) (rev xs) of Some x \<Rightarrow> Some x | None \<Rightarrow> lookup s k)"
proof (induction xs rule: rev_induct)
  case (snoc x xs)
  then show ?case by (simp add: good_put lookup_put)
qed simp

lemma lookup_removes:
  "good s \<Longrightarrow> good (fold (\<lambda>x s. remove s x) xs s) \<and>
    lookup (fold (\<lambda>x s. remove s x) xs s) k = (if \<exists>x \<in> set xs. same x k then None else lookup s k)"
proof (induction xs rule: rev_induct)
  case (snoc x xs)
  then show ?case by (auto simp: good_remove lookup_remove)
qed simp

end

section \<open>The table of the code\<close>

text \<open>What the client's functions must satisfy: comparing equal is an equivalence, and equal
  elements have equal hashes.\<close>

definition lh_contract :: "('a \<Rightarrow> 'a \<Rightarrow> int) \<Rightarrow> ('a \<Rightarrow> u32) \<Rightarrow> bool" where
  "lh_contract c h \<longleftrightarrow> (\<forall>x. c x x = 0) \<and> (\<forall>x y. c x y = 0 \<longrightarrow> c y x = 0) \<and>
     (\<forall>x y z. c x y = 0 \<longrightarrow> c y z = 0 \<longrightarrow> c x z = 0) \<and> (\<forall>x y. c x y = 0 \<longrightarrow> h x = h y)"

definition apart :: "('a \<Rightarrow> 'a \<Rightarrow> int) \<Rightarrow> 'a lhash_item list \<Rightarrow> bool" where
  "apart c = sorted_wrt (\<lambda>x y. c (fst x) (fst y) \<noteq> 0)"

definition lh_items :: "'a lhash_st \<Rightarrow> 'a lhash_item list" where
  "lh_items lh = concat (buckets lh)"

definition content :: "'a lhash_st \<Rightarrow> 'a set" where
  "content lh = fst ` set (lh_items lh)"

text \<open>A chain that may be chain \<open>b\<close> of \<open>n\<close>.\<close>

definition chain_ok :: "('a \<Rightarrow> 'a \<Rightarrow> int) \<Rightarrow> ('a \<Rightarrow> u32) \<Rightarrow> nat \<Rightarrow> nat \<Rightarrow> 'a lhash_item list \<Rightarrow> bool" where
  "chain_ok c h n b chain \<longleftrightarrow> apart c chain \<and>
     (\<forall>(d, x) \<in> set chain. x = h d \<and> unat x mod n = b)"

definition lh_ok :: "'a lhash_st \<Rightarrow> bool" where
  "lh_ok lh \<longleftrightarrow> lh_contract (comp_func lh) (hash_func lh) \<and> kMinNumBuckets \<le> num_buckets lh \<and>
     length (buckets lh) = num_buckets lh \<and> num_items lh = length (lh_items lh) \<and>
     (\<forall>b < num_buckets lh. chain_ok (comp_func lh) (hash_func lh) (num_buckets lh) b (buckets lh ! b))"

lemma chain_okD: "chain_ok c h n b chain \<Longrightarrow> item \<in> set chain \<Longrightarrow> unat (h (fst item)) mod n = b"
  by (cases item) (force simp: chain_ok_def)

lemma contract_sym: "lh_contract c h \<Longrightarrow> c x y = 0 \<longleftrightarrow> c y x = 0"
  unfolding lh_contract_def by blast

lemma contract_trans: "lh_contract c h \<Longrightarrow> c x y = 0 \<Longrightarrow> c y z = 0 \<Longrightarrow> c x z = 0"
  unfolding lh_contract_def by blast

lemma contract_refl: "lh_contract c h \<Longrightarrow> c x x = 0"
  unfolding lh_contract_def by blast

lemma contract_hash: "lh_contract c h \<Longrightarrow> c x y = 0 \<Longrightarrow> h x = h y"
  unfolding lh_contract_def by blast

lemma chain_pos_le: "chain_pos eq chain \<le> length chain"
  by (induction chain) auto

lemma chain_pos_found: "chain_pos eq chain < length chain \<Longrightarrow> eq (fst (chain ! chain_pos eq chain))"
  by (induction chain) auto

lemma chain_pos_end: "chain_pos eq chain = length chain \<longleftrightarrow> (\<forall>item \<in> set chain. \<not> eq (fst item))"
  by (induction chain) auto

lemma in_concat: "item \<in> set (concat bs) \<longleftrightarrow> (\<exists>b < length bs. item \<in> set (bs ! b))"
  by (auto simp: in_set_conv_nth [of _ bs] intro: nth_mem)

lemma in_items: "length (buckets lh) = n \<Longrightarrow> item \<in> set (lh_items lh) \<longleftrightarrow> (\<exists>b < n. item \<in> set (buckets lh ! b))"
  unfolding lh_items_def in_concat by blast

lemma content_in:
  "length (buckets lh) = n \<Longrightarrow> d \<in> content lh \<longleftrightarrow> (\<exists>b < n. \<exists>item \<in> set (buckets lh ! b). d = fst item)"
  unfolding content_def image_iff Bex_def by (simp only: in_items) blast

text \<open>An item that compares equal to \<open>x\<close> is in the chain of \<open>x\<close>, and there is at most one.\<close>

definition bucket_of :: "'a lhash_st \<Rightarrow> 'a \<Rightarrow> nat" where
  "bucket_of lh x = unat (hash_func lh x) mod num_buckets lh"

lemma bucket_less: "lh_ok lh \<Longrightarrow> bucket_of lh x < num_buckets lh"
  by (simp add: lh_ok_def bucket_of_def kMinNumBuckets_def)

lemma content_iff:
  assumes "lh_ok lh"
  shows "d \<in> content lh \<longleftrightarrow> (d, hash_func lh d) \<in> set (buckets lh ! bucket_of lh d)"
proof
  assume "d \<in> content lh"
  then obtain y where "(d, y) \<in> set (lh_items lh)" by (auto simp: content_def)
  with assms obtain b where b: "b < num_buckets lh" "(d, y) \<in> set (buckets lh ! b)"
    using in_items [of lh "num_buckets lh" "(d, y)"] by (auto simp: lh_ok_def)
  moreover have "chain_ok (comp_func lh) (hash_func lh) (num_buckets lh) b (buckets lh ! b)"
    using assms b(1) by (simp add: lh_ok_def)
  ultimately have "y = hash_func lh d" "b = bucket_of lh d" by (auto simp: chain_ok_def bucket_of_def)
  with b(2) show "(d, hash_func lh d) \<in> set (buckets lh ! bucket_of lh d)" by simp
next
  assume "(d, hash_func lh d) \<in> set (buckets lh ! bucket_of lh d)"
  then have "(d, hash_func lh d) \<in> set (lh_items lh)"
    using assms bucket_less [OF assms, of d] in_items [of lh "num_buckets lh"] by (auto simp: lh_ok_def)
  then show "d \<in> content lh" by (force simp: content_def)
qed

lemma bucket_same: "lh_ok lh \<Longrightarrow> comp_func lh d x = 0 \<Longrightarrow> bucket_of lh d = bucket_of lh x"
  using contract_hash [of "comp_func lh" "hash_func lh" d x] by (simp add: lh_ok_def bucket_of_def)

lemma chain_unique:
  assumes "lh_contract c h" and "apart c chain" and "(d, y) \<in> set chain" and "(e, z) \<in> set chain"
    and "c d x = 0" and "c e x = 0"
  shows "d = e"
proof -
  have "c d e = 0" using assms(1,5,6) contract_sym contract_trans by metis
  moreover have "c e d = 0" using calculation contract_sym [OF assms(1)] by metis
  moreover obtain i j where "i < length chain" "chain ! i = (d, y)" "j < length chain" "chain ! j = (e, z)"
    using assms(3,4) by (meson in_set_conv_nth)
  ultimately show ?thesis
    using assms(2) unfolding apart_def sorted_wrt_iff_nth_less
    by (metis fst_conv linorder_neqE_nat)
qed

lemma content_unique:
  assumes "lh_ok lh" and "d \<in> content lh" and "e \<in> content lh" and "comp_func lh d x = 0" and "comp_func lh e x = 0"
  shows "d = e"
proof -
  have "(d, hash_func lh d) \<in> set (buckets lh ! bucket_of lh x)" "(e, hash_func lh e) \<in> set (buckets lh ! bucket_of lh x)"
    using assms bucket_same [OF assms(1)] by (simp_all add: content_iff)
  moreover have "chain_ok (comp_func lh) (hash_func lh) (num_buckets lh) (bucket_of lh x) (buckets lh ! bucket_of lh x)"
    using assms(1) bucket_less [OF assms(1)] by (simp add: lh_ok_def)
  ultimately show ?thesis
    using assms chain_unique [of "comp_func lh" "hash_func lh"] by (auto simp: chain_ok_def lh_ok_def)
qed

lemma get_next: "get_next_ptr_and_hash lh x =
    ((bucket_of lh x, chain_pos (\<lambda>d. comp_func lh d x = 0) (buckets lh ! bucket_of lh x)), hash_func lh x)"
  by (simp add: get_next_ptr_and_hash_def bucket_of_def Let_def)

text \<open>Where a search ends: at an equal item, or at the end of the chain when the table has none.\<close>

lemma search_found:
  assumes "lh_ok lh" and "get_next_ptr_and_hash lh x = ((b, i), y)" and "i < length (buckets lh ! b)"
  shows "fst (buckets lh ! b ! i) \<in> content lh \<and> comp_func lh (fst (buckets lh ! b ! i)) x = 0"
proof -
  have b: "b = bucket_of lh x" "i = chain_pos (\<lambda>d. comp_func lh d x = 0) (buckets lh ! b)"
    using assms(2) by (auto simp: get_next)
  have c: "comp_func lh (fst (buckets lh ! b ! i)) x = 0"
    using chain_pos_found [of "\<lambda>d. comp_func lh d x = 0" "buckets lh ! b"] assms(3) b(2) by simp
  have "buckets lh ! b ! i \<in> set (lh_items lh)"
    using assms(1,3) bucket_less [OF assms(1), of x] in_items [of lh "num_buckets lh" "buckets lh ! b ! i"] b(1)
    by (auto simp: lh_ok_def intro!: exI [of _ b])
  with c show ?thesis by (simp add: content_def)
qed

lemma search_end:
  assumes "lh_ok lh" and "get_next_ptr_and_hash lh x = ((b, i), y)" and "\<not> i < length (buckets lh ! b)"
  shows "i = length (buckets lh ! b) \<and> (\<forall>d \<in> content lh. comp_func lh d x \<noteq> 0)"
proof -
  have b: "b = bucket_of lh x" "i = chain_pos (\<lambda>d. comp_func lh d x = 0) (buckets lh ! b)"
    using assms(2) by (auto simp: get_next)
  then have "i = length (buckets lh ! b)"
    using assms(3) chain_pos_le [of "\<lambda>d. comp_func lh d x = 0" "buckets lh ! b"] by simp
  moreover from this b have "\<forall>item \<in> set (buckets lh ! bucket_of lh x). comp_func lh (fst item) x \<noteq> 0"
    using chain_pos_end [of "\<lambda>d. comp_func lh d x = 0" "buckets lh ! b"] by simp
  moreover have "d \<in> content lh \<Longrightarrow> comp_func lh d x = 0 \<Longrightarrow> (d, hash_func lh d) \<in> set (buckets lh ! bucket_of lh x)" for d
    using content_iff [OF assms(1), of d] bucket_same [OF assms(1), of d x] by simp
  ultimately show ?thesis by force
qed

lemma retrieve_iff:
  assumes "lh_ok lh"
  shows "lh_retrieve lh x = Some d \<longleftrightarrow> d \<in> content lh \<and> comp_func lh d x = 0"
proof -
  obtain b i y where g: "get_next_ptr_and_hash lh x = ((b, i), y)" by (cases "get_next_ptr_and_hash lh x") auto
  show ?thesis
  proof (cases "i < length (buckets lh ! b)")
    case True
    note f = search_found [OF assms g True]
    have "lh_retrieve lh x = Some (fst (buckets lh ! b ! i))"
      using True by (simp add: lh_retrieve_def g item_at_def)
    with f content_unique [OF assms, of d "fst (buckets lh ! b ! i)" x] show ?thesis by auto
  next
    case False
    with search_end [OF assms g False] show ?thesis by (auto simp: lh_retrieve_def g item_at_def)
  qed
qed

lemma retrieve_none: "lh_ok lh \<Longrightarrow> lh_retrieve lh x = None \<longleftrightarrow> (\<forall>d \<in> content lh. comp_func lh d x \<noteq> 0)"
  using retrieve_iff [of lh x] by (metis not_Some_eq)

section \<open>Resizing\<close>

lemma length_rebucket_items [simp]: "length (fold (rebucket_item n) items bs) = length bs"
  by (induction items arbitrary: bs) (simp_all add: rebucket_item_def Let_def)

lemma rebucket_chain:
  assumes "0 < n" and "length bs = n" and "b < n"
  shows "fold (rebucket_item n) items bs ! b = rev (filter (\<lambda>item. unat (snd item) mod n = b) items) @ bs ! b"
  using assms(2)
proof (induction items arbitrary: bs)
  case (Cons item items)
  then show ?case using assms(1,3) by (simp add: rebucket_item_def Let_def nth_list_update)
qed simp

lemma fold_chains: "fold (fold f) xss s = fold f (concat xss) s"
  by (induction xss arbitrary: s) simp_all

lemma sorted_concat:
  assumes "\<And>b. b < length bs \<Longrightarrow> sorted_wrt P (bs ! b)"
    and "\<And>b b' x y. b < b' \<Longrightarrow> b' < length bs \<Longrightarrow> x \<in> set (bs ! b) \<Longrightarrow> y \<in> set (bs ! b') \<Longrightarrow> P x y"
  shows "sorted_wrt P (concat bs)"
  using assms
proof (induction bs)
  case (Cons ch bs)
  have "sorted_wrt P ch" using Cons.prems(1) [of 0] by simp
  moreover have "sorted_wrt P (concat bs)"
    using Cons.prems(1) [of "Suc _"] Cons.prems(2) [of "Suc _" "Suc _"] by (intro Cons.IH) force+
  moreover have "P x y" if "x \<in> set ch" "y \<in> set (concat bs)" for x y
  proof -
    from that(2) obtain j where "j < length bs" "y \<in> set (bs ! j)" by (auto simp: in_set_conv_nth [of _ bs])
    then show ?thesis using Cons.prems(2) [of 0 "Suc j"] that(1) by simp
  qed
  ultimately show ?case by (simp add: sorted_wrt_append)
qed simp

lemma items_apart:
  assumes "lh_ok lh"
  shows "apart (comp_func lh) (lh_items lh)"
  unfolding apart_def lh_items_def
proof (rule sorted_concat)
  fix b assume "b < length (buckets lh)"
  with assms show "sorted_wrt (\<lambda>x y. comp_func lh (fst x) (fst y) \<noteq> 0) (buckets lh ! b)"
    by (simp add: lh_ok_def chain_ok_def apart_def)
next
  fix b b' x y
  assume b: "b < b'" "b' < length (buckets lh)" and x: "x \<in> set (buckets lh ! b)" and y: "y \<in> set (buckets lh ! b')"
  have "chain_ok (comp_func lh) (hash_func lh) (num_buckets lh) b (buckets lh ! b)"
    "chain_ok (comp_func lh) (hash_func lh) (num_buckets lh) b' (buckets lh ! b')"
    using assms b by (simp_all add: lh_ok_def)
  then have "unat (hash_func lh (fst x)) mod num_buckets lh \<noteq> unat (hash_func lh (fst y)) mod num_buckets lh"
    using chain_okD [OF _ x] chain_okD [OF _ y] b(1) by (metis less_irrefl)
  then show "comp_func lh (fst x) (fst y) \<noteq> 0"
    using contract_hash [of "comp_func lh" "hash_func lh" "fst x" "fst y"] assms by (auto simp: lh_ok_def)
qed

lemma sum_length_update:
  "b < length bs \<Longrightarrow> length (concat (bs[b := ch])) + length (bs ! b) = length (concat bs) + length ch"
proof (induction bs arbitrary: b)
  case (Cons x bs)
  then show ?case by (cases b) auto
qed simp

lemma length_rebucket:
  "0 < n \<Longrightarrow> length bs = n \<Longrightarrow> length (concat (fold (rebucket_item n) items bs)) = length items + length (concat bs)"
proof (induction items arbitrary: bs)
  case (Cons item items)
  define b where "b = unat (snd item) mod n"
  have "b < length bs" using Cons.prems by (simp add: b_def)
  from sum_length_update [OF this, of "item # bs ! b"]
  have "length (concat (rebucket_item n item bs)) = Suc (length (concat bs))"
    by (simp add: rebucket_item_def b_def [symmetric] Let_def)
  then show ?case using Cons by (simp add: rebucket_item_def Let_def)
qed simp

lemma rebucket_ok:
  assumes "lh_ok lh" and "kMinNumBuckets \<le> n"
  shows "lh_ok (lh_rebucket alloc lh n) \<and> content (lh_rebucket alloc lh n) = content lh"
proof -
  define bs where "bs = fold (rebucket_item n) (lh_items lh) (replicate n [])"
  have n: "0 < n" using assms(2) by (simp add: kMinNumBuckets_def)
  have nth: "bs ! b = rev (filter (\<lambda>item. unat (snd item) mod n = b) (lh_items lh))" if "b < n" for b
    using rebucket_chain [OF n _ that, of "replicate n []" "lh_items lh"] that by (simp add: bs_def)
  have len: "length bs = n" "length (concat bs) = length (lh_items lh)"
    using length_rebucket [OF n, of "replicate n []" "lh_items lh"] by (simp_all add: bs_def)
  have set: "set (concat bs) = set (lh_items lh)"
  proof (rule equalityI; rule subsetI)
    fix item assume "item \<in> set (lh_items lh)"
    then have "item \<in> set (bs ! (unat (snd item) mod n))" using n by (simp add: nth)
    then show "item \<in> set (concat bs)" using n len(1) unfolding in_concat
      by (intro exI [of _ "unat (snd item) mod n"]) auto
  next
    fix item assume "item \<in> set (concat bs)"
    then show "item \<in> set (lh_items lh)" unfolding in_concat len(1) by (auto simp: nth)
  qed
  have hash: "y = hash_func lh d" if "(d, y) \<in> set (lh_items lh)" for d y
    using that assms(1) in_items [of lh "num_buckets lh" "(d, y)"] by (force simp: lh_ok_def chain_ok_def)
  have chain: "chain_ok (comp_func lh) (hash_func lh) n b (bs ! b)" if "b < n" for b
  proof -
    have "apart (comp_func lh) (filter (\<lambda>item. unat (snd item) mod n = b) (lh_items lh))"
      using items_apart [OF assms(1)] by (simp add: apart_def sorted_wrt_filter)
    then have "apart (comp_func lh) (bs ! b)"
      using assms(1) contract_sym [of "comp_func lh" "hash_func lh"]
      by (simp add: nth [OF that] apart_def sorted_wrt_rev lh_ok_def)
    then show ?thesis using hash by (auto simp: chain_ok_def nth [OF that])
  qed
  have "lh_ok (lh\<lparr>buckets := bs, num_buckets := n\<rparr>)"
    using assms len chain by (simp add: lh_ok_def lh_items_def)
  moreover have "content (lh\<lparr>buckets := bs, num_buckets := n\<rparr>) = content lh"
    using set by (simp add: content_def lh_items_def)
  ultimately show ?thesis
    using assms(1) by (simp add: lh_rebucket_def fold_chains bs_def lh_items_def Let_def)
qed

lemma rebucket_funcs [simp]:
  "comp_func (lh_rebucket alloc lh n) = comp_func lh" "hash_func (lh_rebucket alloc lh n) = hash_func lh"
  "num_items (lh_rebucket alloc lh n) = num_items lh" "callback_depth (lh_rebucket alloc lh n) = callback_depth lh"
  by (simp_all add: lh_rebucket_def Let_def)

lemma resize_ok:
  assumes "lh_ok lh"
  shows "lh_ok (lh_maybe_resize alloc lh) \<and> content (lh_maybe_resize alloc lh) = content lh"
proof -
  have "kMinNumBuckets \<le> num_buckets lh" using assms by (simp add: lh_ok_def)
  then show ?thesis
    using rebucket_ok [OF assms, of _ alloc] assms by (auto simp: lh_maybe_resize_def Let_def)
qed

lemma resize_funcs [simp]:
  "comp_func (lh_maybe_resize alloc lh) = comp_func lh" "hash_func (lh_maybe_resize alloc lh) = hash_func lh"
  "num_items (lh_maybe_resize alloc lh) = num_items lh"
  by (simp_all add: lh_maybe_resize_def Let_def)

section \<open>Insertion and deletion\<close>

text \<open>Replacing one chain by one whose items are in order.\<close>

lemma update_ok:
  assumes "lh_ok lh" and "b < num_buckets lh"
    and "chain_ok (comp_func lh) (hash_func lh) (num_buckets lh) b ch"
    and "k + length (buckets lh ! b) = num_items lh + length ch"
  shows "lh_ok (lh\<lparr>buckets := (buckets lh)[b := ch], num_items := k\<rparr>)"
  using assms sum_length_update [of b "buckets lh" ch]
  by (auto simp: lh_ok_def lh_items_def nth_list_update)

lemma update_content:
  assumes "lh_ok lh" and "b < num_buckets lh"
  shows "content (lh\<lparr>buckets := (buckets lh)[b := ch], num_items := k\<rparr>) =
    {d \<in> content lh. bucket_of lh d \<noteq> b} \<union> fst ` set ch"
proof -
  have len: "length (buckets lh) = num_buckets lh" using assms(1) by (simp add: lh_ok_def)
  have in_bucket: "bucket_of lh (fst item) = c" if "c < num_buckets lh" "item \<in> set (buckets lh ! c)" for c item
    using chain_okD [OF _ that(2), of "comp_func lh" "hash_func lh" "num_buckets lh" c] assms(1) that(1)
    by (simp add: lh_ok_def bucket_of_def)
  have new: "d \<in> content (lh\<lparr>buckets := (buckets lh)[b := ch], num_items := k\<rparr>) \<longleftrightarrow>
      (\<exists>c < num_buckets lh. \<exists>item \<in> set ((buckets lh)[b := ch] ! c). d = fst item)" for d
    using content_in [of "lh\<lparr>buckets := (buckets lh)[b := ch], num_items := k\<rparr>" "num_buckets lh" d] len by simp
  show ?thesis
  proof (rule set_eqI, rule iffI)
    fix d assume "d \<in> content (lh\<lparr>buckets := (buckets lh)[b := ch], num_items := k\<rparr>)"
    then obtain c item where c: "c < num_buckets lh" "item \<in> set ((buckets lh)[b := ch] ! c)" "d = fst item"
      unfolding new by blast
    show "d \<in> {d \<in> content lh. bucket_of lh d \<noteq> b} \<union> fst ` set ch"
      using c in_bucket [of c item] content_in [OF len, of d] len by (cases "c = b") auto
  next
    fix d assume d: "d \<in> {d \<in> content lh. bucket_of lh d \<noteq> b} \<union> fst ` set ch"
    then show "d \<in> content (lh\<lparr>buckets := (buckets lh)[b := ch], num_items := k\<rparr>)"
    proof
      assume "d \<in> fst ` set ch"
      then show ?thesis unfolding new using assms(2) len by (intro exI [of _ b]) auto
    next
      assume d: "d \<in> {d \<in> content lh. bucket_of lh d \<noteq> b}"
      then obtain c item where c: "c < num_buckets lh" "item \<in> set (buckets lh ! c)" "d = fst item"
        using content_in [OF len, of d] by blast
      with in_bucket [OF c(1,2)] d have "c \<noteq> b" by auto
      with c show ?thesis unfolding new by (intro exI [of _ c]) auto
    qed
  qed
qed

lemma search_split:
  assumes "lh_ok lh" and "get_next_ptr_and_hash lh x = ((b, i), y)" and "i < length (buckets lh ! b)"
  obtains xs old ys where "buckets lh ! b = xs @ (old, hash_func lh x) # ys" and "length xs = i"
    and "comp_func lh old x = 0" and "\<forall>d \<in> fst ` set xs \<union> fst ` set ys. comp_func lh d x \<noteq> 0"
proof -
  let ?c = "comp_func lh"
  have con: "lh_contract ?c (hash_func lh)" using assms(1) by (simp add: lh_ok_def)
  have b: "b = bucket_of lh x" using assms(2) by (simp add: get_next)
  obtain xs old z ys where ch: "buckets lh ! b = xs @ (old, z) # ys" "length xs = i"
    using id_take_nth_drop [OF assms(3)] assms(3) by (metis length_take min.absorb4 prod.exhaust)
  have cok: "chain_ok ?c (hash_func lh) (num_buckets lh) b (buckets lh ! b)"
    using assms(1) bucket_less [OF assms(1), of x] b by (simp add: lh_ok_def)
  have old: "?c old x = 0" using search_found [OF assms] ch by (simp add: nth_append)
  have z: "z = hash_func lh x"
    using cok ch(1) contract_hash [OF con old] by (simp add: chain_ok_def)
  have "?c d x \<noteq> 0" if "d \<in> fst ` set xs \<union> fst ` set ys" for d
  proof
    assume d: "?c d x = 0"
    have "?c d old = 0" "?c old d = 0"
      using contract_trans [OF con d] contract_sym [OF con, of old x] contract_sym [OF con, of old d] old by auto
    then show False using that cok ch(1) by (auto simp: chain_ok_def apart_def sorted_wrt_append)
  qed
  then show thesis using that [of xs old ys] ch old z by blast
qed

lemma chain_bucket:
  assumes "lh_ok lh" and "b < num_buckets lh" and "item \<in> set (buckets lh ! b)"
  shows "bucket_of lh (fst item) = b"
  using chain_okD [OF _ assms(3), of "comp_func lh" "hash_func lh" "num_buckets lh" b] assms(1,2)
  by (simp add: lh_ok_def bucket_of_def)

lemma content_at:
  assumes "lh_ok lh" and "b < num_buckets lh" and "bucket_of lh d = b"
  shows "d \<in> content lh \<longleftrightarrow> d \<in> fst ` set (buckets lh ! b)"
proof
  assume "d \<in> content lh"
  with content_iff [OF assms(1), of d] assms(3) show "d \<in> fst ` set (buckets lh ! b)" by force
next
  assume "d \<in> fst ` set (buckets lh ! b)"
  moreover have "length (buckets lh) = num_buckets lh" using assms(1) by (simp add: lh_ok_def)
  ultimately show "d \<in> content lh" using content_in [of lh "num_buckets lh" d] assms(2) by auto
qed

text \<open>The content after a chain was replaced by one whose items belong there.\<close>

lemma replace_content:
  assumes "lh_ok lh" and "b < num_buckets lh" and "\<forall>item \<in> set ch. bucket_of lh (fst item) = b"
  shows "d \<in> content (lh\<lparr>buckets := (buckets lh)[b := ch], num_items := k\<rparr>) \<longleftrightarrow>
    (if bucket_of lh d = b then d \<in> fst ` set ch else d \<in> content lh)"
  unfolding update_content [OF assms(1,2)] using assms(3) by auto

lemma lh_insert_ok:
  assumes "lh_ok lh" and "lh_insert alloc lh x = (r, old, lh')"
  shows "lh_ok lh' \<and> comp_func lh' = comp_func lh \<and> hash_func lh' = hash_func lh \<and>
    old = lh_retrieve lh x \<and>
    (if r then content lh' = {d \<in> content lh. comp_func lh d x \<noteq> 0} \<union> {x} else lh' = lh \<and> \<not> alloc 24 \<and> old = None)"
proof -
  let ?c = "comp_func lh" and ?h = "hash_func lh" and ?n = "num_buckets lh"
  obtain b i where g: "get_next_ptr_and_hash lh x = ((b, i), ?h x)" and b: "b = bucket_of lh x"
    by (simp add: get_next)
  have bn: "b < ?n" using bucket_less [OF assms(1)] b by simp
  have con: "lh_contract ?c ?h" using assms(1) by (simp add: lh_ok_def)
  have cok: "chain_ok ?c ?h ?n b (buckets lh ! b)" using assms(1) bn by (simp add: lh_ok_def)
  have other: "?c d x \<noteq> 0" if "bucket_of lh d \<noteq> b" for d
    using that bucket_same [OF assms(1), of d x] b by auto
  show ?thesis
  proof (cases "i < length (buckets lh ! b)")
    case True
    obtain xs o' ys where ch: "buckets lh ! b = xs @ (o', ?h x) # ys" "length xs = i" "?c o' x = 0"
      "\<forall>d \<in> fst ` set xs \<union> fst ` set ys. ?c d x \<noteq> 0" using search_split [OF assms(1) g True] .
    let ?ch = "xs @ (x, ?h x) # ys"
    have "chain_ok ?c ?h ?n b ?ch"
      using cok ch(1,4) contract_sym [OF con, of x] by (auto simp: chain_ok_def apart_def sorted_wrt_append)
    then have ok: "lh_ok (lh\<lparr>buckets := (buckets lh)[b := ?ch], num_items := num_items lh\<rparr>)"
      using ch(1) by (intro update_ok [OF assms(1) bn]) simp_all
    have "\<forall>item \<in> set ?ch. bucket_of lh (fst item) = b"
      using chain_bucket [OF assms(1) bn] ch(1) b by auto
    note new = replace_content [OF assms(1) bn this]
    have "d \<in> content (lh\<lparr>buckets := (buckets lh)[b := ?ch], num_items := num_items lh\<rparr>) \<longleftrightarrow>
        d \<in> {d \<in> content lh. ?c d x \<noteq> 0} \<union> {x}" for d
      unfolding new using content_at [OF assms(1) bn, of d] ch other [of d] b by (cases "bucket_of lh d = b") auto
    then have "content (lh\<lparr>buckets := (buckets lh)[b := ?ch], num_items := num_items lh\<rparr>) =
        {d \<in> content lh. ?c d x \<noteq> 0} \<union> {x}" by blast
    moreover have "lh_insert alloc lh x = (True, Some o', lh\<lparr>buckets := (buckets lh)[b := ?ch], num_items := num_items lh\<rparr>)"
      using ch(1,2) by (simp add: lh_insert_def g item_at_def Let_def nth_append list_update_append)
    moreover have "lh_retrieve lh x = Some o'"
      using ch(1,2) by (simp add: lh_retrieve_def g item_at_def nth_append)
    ultimately show ?thesis using assms(2) ok by auto
  next
    case False
    note e = search_end [OF assms(1) g False]
    have none: "lh_retrieve lh x = None" using False by (simp add: lh_retrieve_def g item_at_def)
    let ?ch = "buckets lh ! b @ [(x, ?h x)]"
    let ?lh = "lh\<lparr>buckets := (buckets lh)[b := ?ch], num_items := num_items lh + 1\<rparr>"
    have "?c (fst item) x \<noteq> 0" if "item \<in> set (buckets lh ! b)" for item
      using e that content_at [OF assms(1) bn chain_bucket [OF assms(1) bn that]] by auto
    then have "chain_ok ?c ?h ?n b ?ch"
      using cok b by (auto simp: chain_ok_def apart_def sorted_wrt_append bucket_of_def)
    then have ok: "lh_ok ?lh" by (intro update_ok [OF assms(1) bn]) simp_all
    have "\<forall>item \<in> set ?ch. bucket_of lh (fst item) = b"
      using chain_bucket [OF assms(1) bn] b by auto
    note new = replace_content [OF assms(1) bn this]
    have "d \<in> content ?lh \<longleftrightarrow> d \<in> content lh \<union> {x}" for d
      unfolding new using content_at [OF assms(1) bn, of d] b by (cases "bucket_of lh d = b") auto
    then have "content ?lh = content lh \<union> {x}" by blast
    moreover have "{d \<in> content lh. ?c d x \<noteq> 0} = content lh" using e by auto
    moreover have "lh_insert alloc lh x = (if alloc 24 then (True, None, lh_maybe_resize alloc ?lh) else (False, None, lh))"
      using False by (simp add: lh_insert_def g item_at_def Let_def)
    ultimately show ?thesis
      using assms(1,2) resize_ok [OF ok, of alloc] none by (auto split: if_splits)
  qed
qed

lemma lh_delete_ok:
  assumes "lh_ok lh" and "lh_delete alloc lh x = (ret, lh')"
  shows "lh_ok lh' \<and> comp_func lh' = comp_func lh \<and> hash_func lh' = hash_func lh \<and>
    ret = lh_retrieve lh x \<and> content lh' = {d \<in> content lh. comp_func lh d x \<noteq> 0}"
proof -
  let ?c = "comp_func lh" and ?h = "hash_func lh" and ?n = "num_buckets lh"
  obtain b i where g: "get_next_ptr_and_hash lh x = ((b, i), ?h x)" and b: "b = bucket_of lh x"
    by (simp add: get_next)
  have bn: "b < ?n" using bucket_less [OF assms(1)] b by simp
  have cok: "chain_ok ?c ?h ?n b (buckets lh ! b)" using assms(1) bn by (simp add: lh_ok_def)
  have other: "?c d x \<noteq> 0" if "bucket_of lh d \<noteq> b" for d
    using that bucket_same [OF assms(1), of d x] b by auto
  show ?thesis
  proof (cases "i < length (buckets lh ! b)")
    case True
    obtain xs o' ys where ch: "buckets lh ! b = xs @ (o', ?h x) # ys" "length xs = i" "?c o' x = 0"
      "\<forall>d \<in> fst ` set xs \<union> fst ` set ys. ?c d x \<noteq> 0" using search_split [OF assms(1) g True] .
    let ?lh = "lh\<lparr>buckets := (buckets lh)[b := xs @ ys], num_items := num_items lh - 1\<rparr>"
    have "chain_ok ?c ?h ?n b (xs @ ys)"
      using cok ch(1) by (auto simp: chain_ok_def apart_def sorted_wrt_append)
    moreover have "0 < num_items lh"
    proof -
      have "length (buckets lh ! b) \<le> length (concat (buckets lh))"
        using sum_length_update [of b "buckets lh" "[]"] assms(1) bn by (simp only: lh_ok_def) simp
      moreover have "num_items lh = length (concat (buckets lh))" using assms(1) by (simp only: lh_ok_def lh_items_def)
      moreover have "0 < length (buckets lh ! b)" using ch(1) by simp
      ultimately show ?thesis by linarith
    qed
    ultimately have ok: "lh_ok ?lh" using ch(1) by (intro update_ok [OF assms(1) bn]) simp_all
    have "\<forall>item \<in> set (xs @ ys). bucket_of lh (fst item) = b"
      using chain_bucket [OF assms(1) bn] ch(1) by auto
    note new = replace_content [OF assms(1) bn this]
    have "d \<in> content ?lh \<longleftrightarrow> d \<in> {d \<in> content lh. ?c d x \<noteq> 0}" for d
      unfolding new using content_at [OF assms(1) bn, of d] ch other [of d] by (cases "bucket_of lh d = b") auto
    then have "content ?lh = {d \<in> content lh. ?c d x \<noteq> 0}" by blast
    moreover have "lh_delete alloc lh x = (Some o', lh_maybe_resize alloc ?lh)"
      using ch(1,2) by (simp add: lh_delete_def g item_at_def Let_def nth_append)
    moreover have "lh_retrieve lh x = Some o'"
      using ch(1,2) by (simp add: lh_retrieve_def g item_at_def nth_append)
    ultimately show ?thesis using assms(2) resize_ok [OF ok, of alloc] by auto
  next
    case False
    then have "lh_delete alloc lh x = (None, lh)" "lh_retrieve lh x = None"
      by (simp_all add: lh_delete_def lh_retrieve_def g item_at_def Let_def)
    with search_end [OF assms(1) g False] assms show ?thesis by auto
  qed
qed

section \<open>The table as a map\<close>

lemma retrieve_put:
  assumes "lh_ok lh" and "lh_ok lh'" and "comp_func lh' = comp_func lh"
    and "content lh' = {d \<in> content lh. comp_func lh d x \<noteq> 0} \<union> {x}"
  shows "lh_retrieve lh' k = (if comp_func lh x k = 0 then Some x else lh_retrieve lh k)"
proof -
  let ?c = "comp_func lh"
  have con: "lh_contract ?c (hash_func lh)" using assms(1) by (simp add: lh_ok_def)
  have "?c d x = 0" if "?c d k = 0" "?c x k = 0" for d
    using that contract_trans [OF con that(1), of x] contract_sym [OF con] by metis
  moreover have "?c x k = 0" if "?c d k = 0" "?c d x = 0" for d
    using that contract_trans [OF con _ that(1), of x] contract_sym [OF con, of d x] by simp
  ultimately have "lh_retrieve lh' k = Some d \<longleftrightarrow> (if ?c x k = 0 then Some x else lh_retrieve lh k) = Some d" for d
    using retrieve_iff [OF assms(2), of k d] retrieve_iff [OF assms(1), of k d] assms(3,4) by auto
  then show ?thesis by (metis not_Some_eq)
qed

lemma retrieve_removed:
  assumes "lh_ok lh" and "lh_ok lh'" and "comp_func lh' = comp_func lh"
    and "content lh' = {d \<in> content lh. comp_func lh d x \<noteq> 0}"
  shows "lh_retrieve lh' k = (if comp_func lh x k = 0 then None else lh_retrieve lh k)"
proof -
  let ?c = "comp_func lh"
  have con: "lh_contract ?c (hash_func lh)" using assms(1) by (simp add: lh_ok_def)
  have "?c d x = 0" if "?c d k = 0" "?c x k = 0" for d
    using that contract_trans [OF con that(1), of x] contract_sym [OF con] by metis
  moreover have "?c x k = 0" if "?c d k = 0" "?c d x = 0" for d
    using that contract_trans [OF con _ that(1), of x] contract_sym [OF con, of d x] by simp
  ultimately have "lh_retrieve lh' k = Some d \<longleftrightarrow> (if ?c x k = 0 then None else lh_retrieve lh k) = Some d" for d
    using retrieve_iff [OF assms(2), of k d] retrieve_iff [OF assms(1), of k d] assms(3,4) by auto
  then show ?thesis by (metis not_Some_eq)
qed

lemma insert_map:
  assumes "lh_ok lh" and "lh_insert alloc lh x = (r, old, lh')"
  shows "lh_retrieve lh' k = (if r \<and> comp_func lh x k = 0 then Some x else lh_retrieve lh k)"
  using lh_insert_ok [OF assms] retrieve_put [OF assms(1), of lh' x k] by (cases r) auto

lemma delete_map:
  assumes "lh_ok lh" and "lh_delete alloc lh x = (ret, lh')"
  shows "lh_retrieve lh' k = (if comp_func lh x k = 0 then None else lh_retrieve lh k)"
  using lh_delete_ok [OF assms] retrieve_removed [OF assms(1), of lh' x k] by auto

definition put_item :: "'a lhash_st \<Rightarrow> 'a \<Rightarrow> 'a lhash_st" where
  "put_item lh x = snd (snd (lh_insert (\<lambda>_. True) lh x))"

definition remove_item :: "'a lhash_st \<Rightarrow> 'a \<Rightarrow> 'a lhash_st" where
  "remove_item lh x = snd (lh_delete (\<lambda>_. True) lh x)"

interpretation lhash_table: keyed_table "\<lambda>lh. lh_ok lh \<and> comp_func lh = c" lh_retrieve put_item remove_item
  "\<lambda>x k. c x k = 0" for c
proof
  fix lh :: "'a lhash_st" and x k
  assume g: "lh_ok lh \<and> comp_func lh = c"
  obtain r old lh' where i: "lh_insert (\<lambda>_. True) lh x = (r, old, lh')" by (cases "lh_insert (\<lambda>_. True) lh x") auto
  obtain ret lh'' where d: "lh_delete (\<lambda>_. True) lh x = (ret, lh'')" by force
  from lh_insert_ok [OF conjunct1 [OF g] i] have r: "r" by (auto split: if_splits)
  show "lh_ok (put_item lh x) \<and> comp_func (put_item lh x) = c"
    using lh_insert_ok [OF conjunct1 [OF g] i] g i by (simp add: put_item_def)
  show "lh_ok (remove_item lh x) \<and> comp_func (remove_item lh x) = c"
    using lh_delete_ok [OF conjunct1 [OF g] d] g d by (simp add: remove_item_def)
  show "lh_retrieve (put_item lh x) k = (if c x k = 0 then Some x else lh_retrieve lh k)"
    using insert_map [OF conjunct1 [OF g] i, of k] g i r by (simp add: put_item_def)
  show "lh_retrieve (remove_item lh x) k = (if c x k = 0 then None else lh_retrieve lh k)"
    using delete_map [OF conjunct1 [OF g] d, of k] g d by (simp add: remove_item_def)
qed

lemma lh_new_ok:
  assumes "lh_new alloc h c = Some lh" and "lh_contract c h"
  shows "lh_ok lh \<and> comp_func lh = c \<and> hash_func lh = h \<and> content lh = {}"
  using assms by (auto simp: lh_new_def lh_ok_def lh_items_def content_def chain_ok_def apart_def split: if_splits)

text \<open>C28. The hash table is a map: an insertion that succeeds returns the equal element that was
  there and changes the lookups of equal keys only, a refused one changes nothing, a deletion
  returns what the lookup gave and removes it, whether the table is resized or not.\<close>

theorem lhash_is_a_map:
  assumes "lh_ok lh"
  shows "(lh_insert alloc lh x = (r, old, lh') \<longrightarrow> lh_ok lh' \<and> (r \<or> \<not> alloc 24) \<and> old = lh_retrieve lh x \<and>
      (\<forall>k. lh_retrieve lh' k = (if r \<and> comp_func lh x k = 0 then Some x else lh_retrieve lh k))) \<and>
    (lh_delete alloc lh x = (old, lh') \<longrightarrow> lh_ok lh' \<and> old = lh_retrieve lh x \<and>
      (\<forall>k. lh_retrieve lh' k = (if comp_func lh x k = 0 then None else lh_retrieve lh k)))"
proof (intro conjI; intro impI)
  assume i: "lh_insert alloc lh x = (r, old, lh')"
  from lh_insert_ok [OF assms i] show "lh_ok lh' \<and> (r \<or> \<not> alloc 24) \<and> old = lh_retrieve lh x \<and>
      (\<forall>k. lh_retrieve lh' k = (if r \<and> comp_func lh x k = 0 then Some x else lh_retrieve lh k))"
    using insert_map [OF assms i] by (cases r) auto
next
  assume d: "lh_delete alloc lh x = (old, lh')"
  from lh_delete_ok [OF assms d] show "lh_ok lh' \<and> old = lh_retrieve lh x \<and>
      (\<forall>k. lh_retrieve lh' k = (if comp_func lh x k = 0 then None else lh_retrieve lh k))"
    using delete_map [OF assms d] by simp
qed

text \<open>A table of numbers for the instances: the comparison looks at the last digit.\<close>

definition digit_cmp :: "nat \<Rightarrow> nat \<Rightarrow> int" where
  "digit_cmp x y = int (x mod 10) - int (y mod 10)"

definition digit_hash :: "nat \<Rightarrow> u32" where
  "digit_hash x = of_nat (x mod 10)"

lemma digit_contract: "lh_contract digit_cmp digit_hash"
  by (auto simp: lh_contract_def digit_cmp_def digit_hash_def)

lemma digit_table_ok:
  "lh_ok \<lparr>num_items = 0, buckets = replicate 16 [], num_buckets = 16, callback_depth = 0,
     comp_func = digit_cmp, hash_func = digit_hash\<rparr>"
  using lh_new_ok [of "\<lambda>_. True" digit_hash digit_cmp, OF _ digit_contract] by (simp add: lh_new_def kMinNumBuckets_def)

lemma lhash_is_a_map_witness:
  "\<exists>lh lh'. lh_ok lh \<and> lh_insert (\<lambda>_. True) lh (13 :: nat) = (True, None, lh') \<and>
     lh_retrieve lh' 43 = Some 13 \<and> lh_retrieve lh' 44 = lh_retrieve lh 44"
proof -
  define lh where "lh = \<lparr>num_items = 0, buckets = replicate 16 [], num_buckets = 16, callback_depth = 0,
     comp_func = digit_cmp, hash_func = digit_hash\<rparr>"
  have ok: "lh_ok lh" unfolding lh_def by (rule digit_table_ok)
  obtain r old lh' where i: "lh_insert (\<lambda>_. True) lh 13 = (r, old, lh')" by (cases "lh_insert (\<lambda>_. True) lh 13") auto
  note m = mp [OF conjunct1 [OF lhash_is_a_map [OF ok]] i]
  have "lh_retrieve lh k = None" for k
    using lh_new_ok [of "\<lambda>_. True" digit_hash digit_cmp, OF _ digit_contract] retrieve_none [OF ok, of k]
    by (simp add: lh_new_def kMinNumBuckets_def lh_def)
  with m i ok show ?thesis
    by (intro exI [of _ lh] exI [of _ lh']) (simp add: lh_def digit_cmp_def)
qed

text \<open>Of the elements inserted into a new table the last equal one is found, however many there
  are and however often the table grew.\<close>

theorem lookup_finds_last_insert:
  assumes "lh_new alloc h c = Some lh" and "lh_contract c h"
  shows "lh_retrieve (fold (\<lambda>x lh. put_item lh x) xs lh) k = List.find (\<lambda>x. c x k = 0) (rev xs)"
proof -
  note new = lh_new_ok [OF assms]
  then have "lh_retrieve lh k = None" using retrieve_none [of lh k] by simp
  with new lhash_table.lookup_puts [of lh c xs k] show ?thesis by (auto split: option.splits)
qed

lemma lookup_finds_last_insert_witness:
  "lh_retrieve (fold (\<lambda>x lh. put_item lh x) [13, 24, 33] \<lparr>num_items = 0, buckets = replicate 16 [],
      num_buckets = 16, callback_depth = 0, comp_func = digit_cmp, hash_func = digit_hash\<rparr>) 3 =
    List.find (\<lambda>x. digit_cmp x 3 = 0) (rev [13, 24, 33])"
  by (rule lookup_finds_last_insert [of "\<lambda>_. True" digit_hash digit_cmp, OF _ digit_contract])
    (simp add: lh_new_def kMinNumBuckets_def)

section \<open>The length of the chains\<close>

definition load_ok :: "'a lhash_st \<Rightarrow> bool" where
  "load_ok lh \<longleftrightarrow> callback_depth lh = 0 \<and> num_items lh < 3 * num_buckets lh \<and>
     8 * num_buckets lh < size_limit"

lemma resize_load:
  assumes "lh_ok lh" and "callback_depth lh = 0" and "num_items lh \<le> 3 * num_buckets lh" and "num_items lh < 2 ^ 60"
    and "8 * num_buckets lh < size_limit"
  shows "load_ok (lh_maybe_resize (\<lambda>_. True) lh)"
proof -
  have nb: "16 \<le> num_buckets lh" using assms(1) by (simp add: lh_ok_def kMinNumBuckets_def)
  have rb: "load_ok (lh_rebucket (\<lambda>_. True) lh n)" if "num_items lh < 3 * n" "8 * n < size_limit" for n
    using that assms(2) by (simp add: lh_rebucket_def size_mul_def load_ok_def)
  consider (more) "num_items lh = 3 * num_buckets lh" | (less) "num_items lh < num_buckets lh" "16 < num_buckets lh"
    | (same) "num_items lh < 3 * num_buckets lh" "\<not> (num_items lh < num_buckets lh \<and> 16 < num_buckets lh)"
    using assms(3) by linarith
  then show ?thesis
  proof cases
    case more
    have "num_items lh div num_buckets lh = 3" using more nb by simp
    moreover have "size_mul (num_buckets lh) 2 = 2 * num_buckets lh"
      using more assms(4) by (simp add: size_mul_def)
    moreover have "8 * (2 * num_buckets lh) < size_limit" using more assms(4) by simp
    ultimately show ?thesis
      using rb [of "2 * num_buckets lh"] more nb assms(2)
      by (simp add: lh_maybe_resize_def kMaxAverageChainLength_def)
  next
    case same
    have "num_items lh div num_buckets lh \<le> 2"
      using less_mult_imp_div_less [OF same(1)] by simp
    moreover have "num_items lh div num_buckets lh < 1 \<longleftrightarrow> num_items lh < num_buckets lh"
      using nb by (simp add: div_eq_0_iff)
    ultimately show ?thesis
      using same assms(2,5)
      by (auto simp: lh_maybe_resize_def kMaxAverageChainLength_def kMinAverageChainLength_def kMinNumBuckets_def load_ok_def)
  next
    case less
    define n where "n = (if num_buckets lh div 2 < 16 then 16 else num_buckets lh div 2)"
    have n: "num_items lh < 3 * n" "n \<le> num_buckets lh" using less unfolding n_def by auto
    have "num_items lh div num_buckets lh = 0" using less(1) by simp
    then have "lh_maybe_resize (\<lambda>_. True) lh = lh_rebucket (\<lambda>_. True) lh n"
      using less(2) assms(2)
      by (simp add: lh_maybe_resize_def kMaxAverageChainLength_def kMinAverageChainLength_def kMinNumBuckets_def n_def Let_def)
    moreover have "8 * n < size_limit" using n(2) assms(5) by linarith
    ultimately show ?thesis using rb [OF n(1)] by simp
  qed
qed

lemma insert_load:
  assumes "lh_ok lh" and "load_ok lh" and "num_items lh + 1 < 2 ^ 60"
  shows "load_ok (put_item lh x)"
proof -
  obtain b i y where g: "get_next_ptr_and_hash lh x = ((b, i), y)" by (cases "get_next_ptr_and_hash lh x") auto
  show ?thesis
  proof (cases "i < length (buckets lh ! b)")
    case True
    with assms(2) show ?thesis
      by (simp add: put_item_def lh_insert_def g item_at_def load_ok_def Let_def split: prod.splits)
  next
    case False
    let ?lh = "lh\<lparr>buckets := (buckets lh)[b := buckets lh ! b @ [(x, y)]], num_items := num_items lh + 1\<rparr>"
    have "lh_ok (lh_maybe_resize (\<lambda>_. True) ?lh)" and put: "put_item lh x = lh_maybe_resize (\<lambda>_. True) ?lh"
      using lh_insert_ok [OF assms(1), of "\<lambda>_. True" x] False
      by (simp_all add: put_item_def lh_insert_def g item_at_def Let_def)
    have "lh_ok ?lh"
    proof -
      have "b < num_buckets lh" using g bucket_less [OF assms(1), of x] by (simp add: get_next)
      moreover from this have "chain_ok (comp_func lh) (hash_func lh) (num_buckets lh) b (buckets lh ! b)"
        using assms(1) by (simp add: lh_ok_def)
      moreover have "comp_func lh (fst item) x \<noteq> 0" if "item \<in> set (buckets lh ! b)" for item
        using search_end [OF assms(1) g False] content_at [OF assms(1) calculation(1) chain_bucket [OF assms(1) calculation(1) that]] that
        by auto
      ultimately have "chain_ok (comp_func lh) (hash_func lh) (num_buckets lh) b (buckets lh ! b @ [(x, y)])"
        using g by (auto simp: chain_ok_def apart_def sorted_wrt_append get_next bucket_of_def)
      then show ?thesis using \<open>b < num_buckets lh\<close> by (intro update_ok [OF assms(1)]) simp_all
    qed
    from resize_load [OF this] assms(2,3) show ?thesis unfolding put by (simp add: load_ok_def)
  qed
qed

text \<open>C29. While no allocation fails and no iteration is running, the table holds fewer than three
  elements per bucket on average after any sequence of insertions into a new table.\<close>

theorem chains_stay_short:
  assumes "lh_new alloc h c = Some lh" and "lh_contract c h" and "length xs < 2 ^ 60"
  shows "lh_num_items (fold (\<lambda>x lh. put_item lh x) xs lh) < 3 * num_buckets (fold (\<lambda>x lh. put_item lh x) xs lh)"
proof -
  have "lh_ok (fold (\<lambda>x lh. put_item lh x) xs lh) \<and> load_ok (fold (\<lambda>x lh. put_item lh x) xs lh) \<and>
      num_items (fold (\<lambda>x lh. put_item lh x) xs lh) \<le> length xs"
    using assms(3)
  proof (induction xs rule: rev_induct)
    case Nil
    have "load_ok lh \<and> num_items lh = 0"
      using assms(1) by (auto simp: lh_new_def load_ok_def kMinNumBuckets_def split: if_splits)
    then show ?case using lh_new_ok [OF assms(1,2)] by simp
  next
    case (snoc x xs)
    define t where "t = fold (\<lambda>x lh. put_item lh x) xs lh"
    have t: "lh_ok t" "load_ok t" "num_items t \<le> length xs" using snoc by (simp_all add: t_def)
    have "num_items t + 1 < 2 ^ 60" using t(3) snoc.prems by simp
    from insert_load [OF t(1,2) this, of x] have "load_ok (put_item t x)" .
    moreover have "lh_ok (put_item t x)" using lhash_table.good_put [of t "comp_func t" x] t(1) by simp
    moreover have "num_items (put_item t x) \<le> num_items t + 1"
      by (simp add: put_item_def lh_insert_def Let_def split: prod.splits option.splits)
    ultimately show ?case using t(3) by (simp add: t_def)
  qed
  then show ?thesis by (simp add: load_ok_def lh_num_items_def)
qed

lemma chains_stay_short_witness:
  "lh_num_items (fold (\<lambda>x lh. put_item lh x) [1, 2, 3] \<lparr>num_items = 0, buckets = replicate 16 [],
      num_buckets = 16, callback_depth = 0, comp_func = digit_cmp, hash_func = digit_hash\<rparr>) <
    3 * num_buckets (fold (\<lambda>x lh. put_item lh x) [1, 2, 3] \<lparr>num_items = 0, buckets = replicate 16 [],
      num_buckets = 16, callback_depth = 0, comp_func = digit_cmp, hash_func = digit_hash\<rparr>)"
  by (rule chains_stay_short [of "\<lambda>_. True" digit_hash digit_cmp, OF _ digit_contract])
    (simp_all add: lh_new_def kMinNumBuckets_def)

end
