(* ===== verification/Bio_Pair.thy ===== *)
theory Bio_Pair
  imports Prelude
begin

text \<open>
  \<open>crypto/bio/pair.c\<close>: two BIOs connected by two ring buffers. A BIO is an address in a
  store; each owns the ring buffer of what it writes, and reads from the buffer of its peer.
  The copying loops are partial functions: \<open>None\<close> is a loop that never ends. \<open>malloc\<close> says
  which requests of the allocator succeed, \<open>junk\<close> is the contents of memory it hands out.
\<close>

section \<open>State\<close>

record bio_bio_st =
  peer :: "nat option"
  closed :: bool
  len :: nat
  offset :: nat
  bsize :: nat
  buf :: "bytes option"
  request :: nat

datatype retry = No_retry | Retry_read | Retry_write

record bio_st =
  init :: bool
  shutdown :: int
  flags :: retry
  ptr :: "bio_bio_st option"
  num_read :: nat
  num_write :: nat

type_synonym bios = "nat \<Rightarrow> bio_st"

definition bio_b :: "bios \<Rightarrow> nat \<Rightarrow> bio_bio_st" where
  "bio_b h a = the (ptr (h a))"

definition set_b :: "bios \<Rightarrow> nat \<Rightarrow> bio_bio_st \<Rightarrow> bios" where
  "set_b h a b = h(a := (h a)\<lparr>ptr := Some b\<rparr>)"

definition set_flags :: "bios \<Rightarrow> nat \<Rightarrow> retry \<Rightarrow> bios" where
  "set_flags h a f = h(a := (h a)\<lparr>flags := f\<rparr>)"

text \<open>Conversions between \<open>int\<close> and \<open>size_t\<close>.\<close>

definition size_of_int :: "int \<Rightarrow> nat" where
  "size_of_int n = nat (n mod 2 ^ 64)"

definition int_of_size :: "nat \<Rightarrow> int" where
  "int_of_size n = sint (of_nat n :: 32 word)"

definition bio_new :: "(nat \<Rightarrow> bool) \<Rightarrow> bios \<Rightarrow> nat \<Rightarrow> bool \<times> bios" where
  "bio_new malloc h a =
     (if \<not> malloc 56 then (False, h)
      else (True, set_b h a \<lparr>peer = None, closed = False, len = 0, offset = 0, bsize = 17 * 1024,
                            buf = None, request = 0\<rparr>))"

definition bio_destroy_pair :: "bios \<Rightarrow> nat \<Rightarrow> bios" where
  "bio_destroy_pair h a =
     (case ptr (h a) of
        None \<Rightarrow> h
      | Some b \<Rightarrow>
          (case peer b of
             None \<Rightarrow> h
           | Some pa \<Rightarrow>
               let h = h(pa := (h pa)\<lparr>init := False, ptr := Some ((bio_b h pa)\<lparr>peer := None, len := 0, offset := 0\<rparr>)\<rparr>)
               in h(a := (h a)\<lparr>init := False, ptr := Some ((bio_b h a)\<lparr>peer := None, len := 0, offset := 0\<rparr>)\<rparr>)))"

definition bio_free :: "bios \<Rightarrow> nat option \<Rightarrow> bool \<times> bios" where
  "bio_free h bio =
     (case bio of
        None \<Rightarrow> (False, h)
      | Some a \<Rightarrow>
          let h = (if peer (bio_b h a) \<noteq> None then bio_destroy_pair h a else h)
          in (True, h(a := (h a)\<lparr>ptr := None\<rparr>)))"

section \<open>Reading\<close>

partial_function (option) read_loop ::
  "bio_bio_st \<Rightarrow> nat \<Rightarrow> bytes \<Rightarrow> (bio_bio_st \<times> bytes) option" where
  "read_loop peer_b rest out =
     (let chunk = (if offset peer_b + rest \<le> bsize peer_b then rest else bsize peer_b - offset peer_b);
          out = out @ take chunk (drop (offset peer_b) (the (buf peer_b)));
          peer_b = peer_b\<lparr>len := len peer_b - chunk\<rparr>;
          peer_b = (if len peer_b \<noteq> 0 then
                      (let off = offset peer_b + chunk
                       in peer_b\<lparr>offset := if off = bsize peer_b then 0 else off\<rparr>)
                    else peer_b\<lparr>offset := 0\<rparr>);
          rest = rest - chunk
      in if rest \<noteq> 0 then read_loop peer_b rest out else Some (peer_b, out))"

text \<open>The return value, the bytes stored at \<open>buf\<close>, and the store.\<close>

definition bio_read :: "bios \<Rightarrow> nat \<Rightarrow> bool \<Rightarrow> int \<Rightarrow> (int \<times> bytes \<times> bios) option" where
  "bio_read h a has_buf sz =
     (let n = size_of_int sz; h = set_flags h a No_retry
      in if \<not> init (h a) then Some (0, [], h)
         else
           let pa = the (peer (bio_b h a));
               h = set_b h pa ((bio_b h pa)\<lparr>request := 0\<rparr>);
               peer_b = bio_b h pa
           in if \<not> has_buf \<or> n = 0 then Some (0, [], h)
              else if len peer_b = 0 then
                if closed peer_b then Some (0, [], h)
                else
                  let h = set_flags h a Retry_read
                  in Some (-1, [], set_b h pa (peer_b\<lparr>request := if n \<le> bsize peer_b then n else bsize peer_b\<rparr>))
              else
                let n = (if len peer_b < n then len peer_b else n)
                in case read_loop peer_b n [] of
                     None \<Rightarrow> None
                   | Some (peer_b, out) \<Rightarrow> Some (int_of_size n, out, set_b h pa peer_b))"

section \<open>Writing\<close>

partial_function (option) write_loop ::
  "bio_bio_st \<Rightarrow> nat \<Rightarrow> bytes \<Rightarrow> bio_bio_st option" where
  "write_loop b rest inp =
     (let write_offset = offset b + len b;
          write_offset = (if write_offset \<ge> bsize b then write_offset - bsize b else write_offset);
          chunk = (if write_offset + rest \<le> bsize b then rest else bsize b - write_offset);
          m = the (buf b);
          b = b\<lparr>buf := Some (take write_offset m @ take chunk inp @ drop (write_offset + chunk) m),
                len := len b + chunk\<rparr>;
          rest = rest - chunk;
          inp = drop chunk inp
      in if rest \<noteq> 0 then write_loop b rest inp else Some b)"

text \<open>\<open>inp\<close> is \<open>None\<close> for \<open>NULL\<close>.\<close>

definition bio_write :: "bios \<Rightarrow> nat \<Rightarrow> bytes option \<Rightarrow> int \<Rightarrow> (int \<times> bios) option" where
  "bio_write h a inp n_in =
     (let num = size_of_int n_in; h = set_flags h a No_retry
      in if \<not> init (h a) \<or> inp = None \<or> num = 0 then Some (0, h)
         else
           let h = set_b h a ((bio_b h a)\<lparr>request := 0\<rparr>); b = bio_b h a
           in if closed b then Some (-1, h)
              else if len b = bsize b then Some (-1, set_flags h a Retry_write)
              else
                let num = (if num > bsize b - len b then bsize b - len b else num)
                in case write_loop b num (the inp) of
                     None \<Rightarrow> None
                   | Some b \<Rightarrow> Some (int_of_size num, set_b h a b))"

section \<open>Connecting\<close>

definition alloc_buf :: "(nat \<Rightarrow> bool) \<Rightarrow> (nat \<Rightarrow> bytes) \<Rightarrow> bio_bio_st \<Rightarrow> nat \<Rightarrow> bool \<times> bio_bio_st" where
  "alloc_buf malloc junk b writebuf_len =
     (if buf b = None then
        let b = (if writebuf_len \<noteq> 0 then b\<lparr>bsize := writebuf_len\<rparr> else b)
        in if \<not> malloc (bsize b) then (False, b)
           else (True, b\<lparr>buf := Some (junk (bsize b)), len := 0, offset := 0\<rparr>)
      else (True, b))"

definition bio_make_pair ::
  "(nat \<Rightarrow> bool) \<Rightarrow> (nat \<Rightarrow> bytes) \<Rightarrow> bios \<Rightarrow> nat \<Rightarrow> nat \<Rightarrow> nat \<Rightarrow> nat \<Rightarrow> bool \<times> bios" where
  "bio_make_pair malloc junk h bio1 bio2 writebuf1_len writebuf2_len =
     (if peer (bio_b h bio1) \<noteq> None \<or> peer (bio_b h bio2) \<noteq> None then (False, h)
      else case alloc_buf malloc junk (bio_b h bio1) writebuf1_len of
        (False, b1) \<Rightarrow> (False, set_b h bio1 b1)
      | (True, b1) \<Rightarrow>
          let h = set_b h bio1 b1
          in case alloc_buf malloc junk (bio_b h bio2) writebuf2_len of
               (False, b2) \<Rightarrow> (False, set_b h bio2 b2)
             | (True, b2) \<Rightarrow>
                 let h = set_b h bio2 b2;
                     h = set_b h bio1 ((bio_b h bio1)\<lparr>peer := Some bio2, closed := False, request := 0\<rparr>);
                     h = set_b h bio2 ((bio_b h bio2)\<lparr>peer := Some bio1, closed := False, request := 0\<rparr>);
                     h = h(bio1 := (h bio1)\<lparr>init := True\<rparr>)
                 in (True, h(bio2 := (h bio2)\<lparr>init := True\<rparr>)))"

section \<open>Control\<close>

datatype bio_ctrl_cmd =
    BIO_C_GET_WRITE_BUF_SIZE | BIO_C_GET_WRITE_GUARANTEE | BIO_C_GET_READ_REQUEST
  | BIO_C_RESET_READ_REQUEST | BIO_C_SHUTDOWN_WR | BIO_CTRL_GET_CLOSE | BIO_CTRL_SET_CLOSE int
  | BIO_CTRL_PENDING | BIO_CTRL_WPENDING | BIO_CTRL_FLUSH | BIO_CTRL_EOF "nat option" | BIO_CTRL_OTHER

definition bool_long :: "bool \<Rightarrow> int" where
  "bool_long b = (if b then 1 else 0)"

fun bio_ctrl :: "bios \<Rightarrow> nat \<Rightarrow> bio_ctrl_cmd \<Rightarrow> int \<times> bios" where
  "bio_ctrl h a BIO_C_GET_WRITE_BUF_SIZE = (int (bsize (bio_b h a)), h)"
| "bio_ctrl h a BIO_C_GET_WRITE_GUARANTEE =
     (if peer (bio_b h a) = None \<or> closed (bio_b h a) then (0, h)
      else (int (bsize (bio_b h a)) - int (len (bio_b h a)), h))"
| "bio_ctrl h a BIO_C_GET_READ_REQUEST = (int (request (bio_b h a)), h)"
| "bio_ctrl h a BIO_C_RESET_READ_REQUEST = (1, set_b h a ((bio_b h a)\<lparr>request := 0\<rparr>))"
| "bio_ctrl h a BIO_C_SHUTDOWN_WR = (1, set_b h a ((bio_b h a)\<lparr>closed := True\<rparr>))"
| "bio_ctrl h a BIO_CTRL_GET_CLOSE = (shutdown (h a), h)"
| "bio_ctrl h a (BIO_CTRL_SET_CLOSE num) = (1, h(a := (h a)\<lparr>shutdown := num\<rparr>))"
| "bio_ctrl h a BIO_CTRL_PENDING =
     (case peer (bio_b h a) of None \<Rightarrow> (0, h) | Some pa \<Rightarrow> (int (len (bio_b h pa)), h))"
| "bio_ctrl h a BIO_CTRL_WPENDING =
     (if buf (bio_b h a) \<noteq> None then (int (len (bio_b h a)), h) else (0, h))"
| "bio_ctrl h a BIO_CTRL_FLUSH = (1, h)"
| "bio_ctrl h a (BIO_CTRL_EOF other) =
     (case other of
        None \<Rightarrow> (1, h)
      | Some oa \<Rightarrow> (bool_long (len (bio_b h oa) = 0 \<and> closed (bio_b h oa)), h))"
| "bio_ctrl h a BIO_CTRL_OTHER = (0, h)"

definition BIO_ctrl_get_read_request :: "bios \<Rightarrow> nat \<Rightarrow> int" where
  "BIO_ctrl_get_read_request h a = fst (bio_ctrl h a BIO_C_GET_READ_REQUEST)"

definition BIO_ctrl_get_write_guarantee :: "bios \<Rightarrow> nat \<Rightarrow> int" where
  "BIO_ctrl_get_write_guarantee h a = fst (bio_ctrl h a BIO_C_GET_WRITE_GUARANTEE)"

definition BIO_shutdown_wr :: "bios \<Rightarrow> nat \<Rightarrow> int \<times> bios" where
  "BIO_shutdown_wr h a = bio_ctrl h a BIO_C_SHUTDOWN_WR"

section \<open>The callers in bio.c\<close>

text \<open>\<open>crypto/bio/bio.c\<close> for a BIO of this method: the new BIO is placed at the address \<open>a\<close>;
  \<open>BIO_write_all\<close> goes on until everything is written or a write makes no progress.\<close>

definition BIO_new :: "(nat \<Rightarrow> bool) \<Rightarrow> bios \<Rightarrow> nat \<Rightarrow> bool \<times> bios" where
  "BIO_new malloc h a =
     (if \<not> malloc 64 then (False, h)
      else bio_new malloc (h(a := \<lparr>init = False, shutdown = 1, flags = No_retry, ptr = None,
                                   num_read = 0, num_write = 0\<rparr>)) a)"

definition BIO_new_bio_pair ::
  "(nat \<Rightarrow> bool) \<Rightarrow> (nat \<Rightarrow> bytes) \<Rightarrow> bios \<Rightarrow> nat \<Rightarrow> nat \<Rightarrow> nat \<Rightarrow> nat \<Rightarrow> bool \<times> bios" where
  "BIO_new_bio_pair malloc junk h bio1 bio2 writebuf1_len writebuf2_len =
     (case BIO_new malloc h bio1 of (ok1, h) \<Rightarrow>
      case BIO_new malloc h bio2 of (ok2, h) \<Rightarrow>
      case (if ok1 \<and> ok2 then bio_make_pair malloc junk h bio1 bio2 writebuf1_len writebuf2_len
            else (False, h)) of
        (True, h) \<Rightarrow> (True, h)
      | (False, h) \<Rightarrow>
          let h = (if ok1 then snd (bio_free h (Some bio1)) else h)
          in (False, if ok2 then snd (bio_free h (Some bio2)) else h))"

definition BIO_read :: "bios \<Rightarrow> nat \<Rightarrow> bool \<Rightarrow> int \<Rightarrow> (int \<times> bytes \<times> bios) option" where
  "BIO_read h a has_buf n =
     (if \<not> init (h a) then Some (-2, [], h)
      else if n \<le> 0 then Some (0, [], h)
      else case bio_read h a has_buf n of
             None \<Rightarrow> None
           | Some (ret, out, h) \<Rightarrow>
               Some (ret, out, if ret > 0 then h(a := (h a)\<lparr>num_read := size_add (num_read (h a)) (nat ret)\<rparr>) else h))"

definition BIO_write :: "bios \<Rightarrow> nat \<Rightarrow> bytes option \<Rightarrow> int \<Rightarrow> (int \<times> bios) option" where
  "BIO_write h a inp n =
     (if \<not> init (h a) then Some (-2, h)
      else if n \<le> 0 then Some (0, h)
      else case bio_write h a inp n of
             None \<Rightarrow> None
           | Some (ret, h) \<Rightarrow>
               Some (ret, if ret > 0 then h(a := (h a)\<lparr>num_write := size_add (num_write (h a)) (nat ret)\<rparr>) else h))"

definition max_int :: int where "max_int = 2147483647"

partial_function (option) BIO_write_all :: "bios \<Rightarrow> nat \<Rightarrow> bytes \<Rightarrow> (bool \<times> bios) option" where
  "BIO_write_all h a d =
     (if d = [] then Some (True, h)
      else case BIO_write h a (Some d) (if int (length d) > max_int then max_int else int (length d)) of
             None \<Rightarrow> None
           | Some (ret, h) \<Rightarrow> if ret \<le> 0 then Some (False, h) else BIO_write_all h a (drop (nat ret) d))"

end
