(* ===== verification/Bio_Pair_Laws.thy ===== *)
theory Bio_Pair_Laws
  imports Bio_Pair
begin

text \<open>
  A BIO pair is two queues of bytes: the ring buffer of one side, read through its offset, is
  the list of the bytes written and not yet read. Reading takes a prefix off it and writing
  appends one, the copying loops end, and no sequence of calls loses, repeats or reorders a
  byte.
\<close>

section \<open>The ring buffer\<close>

definition ring :: "bytes \<Rightarrow> nat \<Rightarrow> nat \<Rightarrow> nat \<Rightarrow> u8" where
  "ring m n off i = m ! ((off + i) mod n)"

definition contents :: "bio_bio_st \<Rightarrow> bytes" where
  "contents b = map (ring (the (buf b)) (bsize b) (offset b)) [0..<len b]"

definition ring_ok :: "bio_bio_st \<Rightarrow> bool" where
  "ring_ok b \<longleftrightarrow> (\<exists>m. buf b = Some m \<and> length m = bsize b) \<and> offset b < bsize b \<and> len b \<le> bsize b"

lemma length_contents [simp]: "length (contents b) = len b"
  by (simp add: contents_def)

lemma mod_once: "x < 2 * n \<Longrightarrow> x mod n = (if x < n then x else x - n)" for x n :: nat
  by (simp add: mod_if)

text \<open>One turn of each loop.\<close>

definition read_chunk :: "bio_bio_st \<Rightarrow> nat \<Rightarrow> bio_bio_st" where
  "read_chunk b chunk =
     (let b = b\<lparr>len := len b - chunk\<rparr>
      in if len b \<noteq> 0 then (let off = offset b + chunk in b\<lparr>offset := if off = bsize b then 0 else off\<rparr>)
         else b\<lparr>offset := 0\<rparr>)"

definition write_at :: "bio_bio_st \<Rightarrow> nat" where
  "write_at b = (let w = offset b + len b in if w \<ge> bsize b then w - bsize b else w)"

definition write_chunk :: "bio_bio_st \<Rightarrow> nat \<Rightarrow> bytes \<Rightarrow> bio_bio_st" where
  "write_chunk b chunk inp =
     b\<lparr>buf := Some (take (write_at b) (the (buf b)) @ take chunk inp @ drop (write_at b + chunk) (the (buf b))),
       len := len b + chunk\<rparr>"

lemma read_chunk_ok:
  assumes "ring_ok b" and "c \<le> len b" and "offset b + c \<le> bsize b"
  shows "ring_ok (read_chunk b c)" and "contents (read_chunk b c) = drop c (contents b)"
    and "take c (drop (offset b) (the (buf b))) = take c (contents b)"
proof -
  obtain m where m: "buf b = Some m" "length m = bsize b" using assms(1) by (auto simp: ring_ok_def)
  show "ring_ok (read_chunk b c)"
    using assms m by (auto simp: ring_ok_def read_chunk_def Let_def)
  show "contents (read_chunk b c) = drop c (contents b)"
  proof (rule nth_equalityI)
    fix i assume "i < length (contents (read_chunk b c))"
    then have i: "i < len b - c" by (simp add: read_chunk_def Let_def split: if_splits)
    have "(if offset b + c = bsize b then 0 else offset b + c) = (offset b + c) mod bsize b"
      using assms(3) by auto
    then have "((if offset b + c = bsize b then 0 else offset b + c) + i) mod bsize b = (offset b + (c + i)) mod bsize b"
      by (simp add: mod_simps add.assoc)
    then show "contents (read_chunk b c) ! i = drop c (contents b) ! i"
      using i by (simp add: contents_def read_chunk_def ring_def Let_def)
  qed (simp add: read_chunk_def Let_def)
  show "take c (drop (offset b) (the (buf b))) = take c (contents b)"
  proof (rule nth_equalityI)
    fix i assume "i < length (take c (drop (offset b) (the (buf b))))"
    then have "i < c" "i < bsize b - offset b" using m by simp_all
    then have "i < c" "offset b + i < bsize b" by linarith+
    then show "take c (drop (offset b) (the (buf b))) ! i = take c (contents b) ! i"
      using assms(2) m by (simp add: contents_def ring_def)
  qed (use assms m in simp)
qed

lemma write_chunk_ok:
  assumes "ring_ok b" and "len b + c \<le> bsize b" and "write_at b + c \<le> bsize b" and "c \<le> length inp"
  shows "ring_ok (write_chunk b c inp)" and "contents (write_chunk b c inp) = contents b @ take c inp"
proof -
  obtain m where m: "buf b = Some m" "length m = bsize b" using assms(1) by (auto simp: ring_ok_def)
  have o: "offset b < bsize b" using assms(1) by (simp add: ring_ok_def)
  show "ring_ok (write_chunk b c inp)"
    using assms m o by (auto simp: ring_ok_def write_chunk_def)
  show "contents (write_chunk b c inp) = contents b @ take c inp"
  proof (rule nth_equalityI)
    fix i assume "i < length (contents (write_chunk b c inp))"
    then have i: "i < len b + c" by (simp add: write_chunk_def)
    let ?m = "take (write_at b) m @ take c inp @ drop (write_at b + c) m"
    have "offset b + i < 2 * bsize b" using o i assms(2) by linarith
    note md = mod_once [OF this]
    show "contents (write_chunk b c inp) ! i = (contents b @ take c inp) ! i"
    proof (cases "i < len b")
      case True
      have "?m ! ((offset b + i) mod bsize b) = m ! ((offset b + i) mod bsize b)"
        using True assms(2,3,4) m o unfolding md write_at_def Let_def
        by (auto simp: nth_append min_def)
      then show ?thesis using True i by (simp add: contents_def write_chunk_def ring_def m nth_append)
    next
      case False
      have "?m ! ((offset b + i) mod bsize b) = inp ! (i - len b)"
        using False i assms(2,3,4) m o unfolding md write_at_def Let_def
        by (auto simp: nth_append min_def)
      then show ?thesis using False i assms(4) by (simp add: contents_def write_chunk_def ring_def m nth_append)
    qed
  qed (use assms(4) in \<open>simp add: write_chunk_def\<close>)
qed

section \<open>The loops\<close>

text \<open>What a turn of a loop leaves alone.\<close>

definition same_link :: "bio_bio_st \<Rightarrow> bio_bio_st \<Rightarrow> bool" where
  "same_link b b' \<longleftrightarrow> peer b' = peer b \<and> closed b' = closed b \<and> bsize b' = bsize b \<and> request b' = request b"

lemma same_link_chunk: "same_link b (read_chunk b c)" "same_link b (write_chunk b c inp)"
  by (simp_all add: same_link_def read_chunk_def write_chunk_def Let_def)

lemma same_link_trans: "same_link b b' \<Longrightarrow> same_link b' b'' \<Longrightarrow> same_link b b''"
  by (simp add: same_link_def)

lemma read_loop_step:
  "read_loop b rest out =
     (let c = (if offset b + rest \<le> bsize b then rest else bsize b - offset b);
          out = out @ take c (drop (offset b) (the (buf b)))
      in if rest - c \<noteq> 0 then read_loop (read_chunk b c) (rest - c) out else Some (read_chunk b c, out))"
  by (subst read_loop.simps) (simp add: read_chunk_def Let_def)

lemma read_loop_ok:
  assumes "ring_ok b" and "rest \<le> len b"
  shows "\<exists>b'. read_loop b rest out = Some (b', out @ take rest (contents b)) \<and>
    ring_ok b' \<and> contents b' = drop rest (contents b) \<and> same_link b b'"
proof (cases "offset b + rest \<le> bsize b")
  case True
  then show ?thesis
    using read_chunk_ok [OF assms True] same_link_chunk(1) [of b rest]
    by (subst read_loop_step) (simp add: Let_def)
next
  case False
  define c where "c = bsize b - offset b"
  have c: "c \<le> len b" "offset b + c \<le> bsize b" "c < rest" "0 < c"
    using False assms by (auto simp: c_def ring_ok_def)
  note one = read_chunk_ok [OF assms(1) c(1,2)]
  have off: "offset (read_chunk b c) = 0" "len (read_chunk b c) = len b - c" "bsize (read_chunk b c) = bsize b"
    using c False by (auto simp: read_chunk_def c_def Let_def)
  have "rest - c \<le> len (read_chunk b c)" "offset (read_chunk b c) + (rest - c) \<le> bsize (read_chunk b c)"
    using off assms c by (auto simp: ring_ok_def)
  note two = read_chunk_ok [OF one(1) this]
  have "read_loop (read_chunk b c) (rest - c) (out @ take c (contents b)) =
      Some (read_chunk (read_chunk b c) (rest - c), (out @ take c (contents b)) @ take (rest - c) (contents (read_chunk b c)))"
    using two(3) off assms(2) c(3) assms(1) by (subst read_loop_step) (auto simp: Let_def ring_ok_def)
  moreover have "take c (contents b) @ take (rest - c) (drop c (contents b)) = take rest (contents b)"
    using c(3) by (metis add_diff_inverse_nat less_imp_not_less take_add)
  ultimately have "read_loop b rest out = Some (read_chunk (read_chunk b c) (rest - c), out @ take rest (contents b))"
    using False c one(2,3) by (subst read_loop_step) (simp add: c_def [symmetric] Let_def)
  with two one(2) c(3) same_link_chunk(1) same_link_trans show ?thesis
    by (intro exI [of _ "read_chunk (read_chunk b c) (rest - c)"]) (auto intro: same_link_trans)
qed

lemma write_loop_step:
  "write_loop b rest inp =
     (let c = (if write_at b + rest \<le> bsize b then rest else bsize b - write_at b)
      in if rest - c \<noteq> 0 then write_loop (write_chunk b c inp) (rest - c) (drop c inp)
         else Some (write_chunk b c inp))"
  by (subst write_loop.simps) (simp only: write_chunk_def write_at_def Let_def)

lemma write_loop_ok:
  assumes "ring_ok b" and "len b + rest \<le> bsize b" and "rest \<le> length inp"
  shows "\<exists>b'. write_loop b rest inp = Some b' \<and>
    ring_ok b' \<and> contents b' = contents b @ take rest inp \<and> same_link b b'"
proof (cases "write_at b + rest \<le> bsize b")
  case True
  then show ?thesis
    using write_chunk_ok [OF assms(1,2) True assms(3)] same_link_chunk(2) [of b rest inp]
    by (subst write_loop_step) (simp add: Let_def)
next
  case False
  define c where "c = bsize b - write_at b"
  have at: "write_at b < bsize b" using assms(1) False by (auto simp: write_at_def ring_ok_def Let_def split: if_splits)
  have c: "len b + c \<le> bsize b" "write_at b + c \<le> bsize b" "c \<le> length inp" "c < rest"
    using False assms at by (auto simp: c_def)
  note one = write_chunk_ok [OF assms(1) c(1,2,3)]
  let ?b = "write_chunk b c inp"
  have "write_at b + c = bsize b" using at by (simp add: c_def)
  then have off: "len ?b = len b + c" "bsize ?b = bsize b" "offset ?b = offset b" "write_at ?b = 0"
    using assms(1,2) c(4) False by (auto simp: write_chunk_def write_at_def ring_ok_def Let_def split: if_splits)
  have "len ?b + (rest - c) \<le> bsize ?b" "write_at ?b + (rest - c) \<le> bsize ?b" "rest - c \<le> length (drop c inp)"
    using off assms c by auto
  note two = write_chunk_ok [OF one(1) this]
  have "write_loop ?b (rest - c) (drop c inp) = Some (write_chunk ?b (rest - c) (drop c inp))"
    using off assms(2) c(4) by (subst write_loop_step) (simp add: Let_def)
  then have "write_loop b rest inp = Some (write_chunk ?b (rest - c) (drop c inp))"
    using False c by (subst write_loop_step) (simp add: c_def [symmetric] Let_def)
  moreover have "take c inp @ take (rest - c) (drop c inp) = take rest inp"
    using c(4) by (metis add_diff_inverse_nat less_imp_not_less take_add)
  ultimately show ?thesis
    using two one(2) same_link_chunk(2) by (auto intro: same_link_trans)
qed

section \<open>A connected pair\<close>

definition end_ok :: "bios \<Rightarrow> nat \<Rightarrow> nat \<Rightarrow> bool" where
  "end_ok h x y \<longleftrightarrow> init (h x) \<and> ptr (h x) \<noteq> None \<and> peer (bio_b h x) = Some y \<and> ring_ok (bio_b h x)"

definition linked :: "bios \<Rightarrow> nat \<Rightarrow> nat \<Rightarrow> bool" where
  "linked h x y \<longleftrightarrow> x \<noteq> y \<and> end_ok h x y \<and> end_ok h y x"

lemma linked_sym: "linked h x y \<Longrightarrow> linked h y x"
  by (auto simp: linked_def)

lemma size_of_int_exact: "0 \<le> n \<Longrightarrow> n \<le> max_int \<Longrightarrow> size_of_int n = nat n"
  by (simp add: size_of_int_def max_int_def)

lemma int_of_size_exact: "int n \<le> max_int \<Longrightarrow> int_of_size n = int n"
proof -
  assume n: "int n \<le> max_int"
  have "(of_nat n :: 32 word) = word_of_int (int n)" by simp
  then have "int_of_size n = (int n + 2 ^ 31) mod 2 ^ 32 - 2 ^ 31"
    unfolding int_of_size_def using int_word_sint [of "int n", where 'a = 32] by simp
  with n show ?thesis by (simp add: max_int_def)
qed

lemma bio_b_upd [simp]:
  "bio_b (set_b h a b) x = (if x = a then b else bio_b h x)"
  "bio_b (set_flags h a f) x = bio_b h x"
  by (simp_all add: bio_b_def set_b_def set_flags_def)

lemma init_upd [simp]:
  "init (set_b h a b x) = init (h x)" "init (set_flags h a f x) = init (h x)"
  "ptr (set_flags h a f x) = ptr (h x)" "ptr (set_b h a b x) = (if x = a then Some b else ptr (h x))"
  by (simp_all add: set_b_def set_flags_def)

text \<open>Room left in the buffer of one side.\<close>

definition room :: "bio_bio_st \<Rightarrow> nat" where
  "room b = bsize b - len b"

lemma contents_request [simp]: "contents (b\<lparr>request := r\<rparr>) = contents b" "ring_ok (b\<lparr>request := r\<rparr>) = ring_ok b"
  by (simp_all add: contents_def ring_ok_def)

lemma write_pair:
  assumes "linked h x y" and "0 < length d" and "int (length d) \<le> max_int"
  shows "\<exists>ret h'. bio_write h x (Some d) (int (length d)) = Some (ret, h') \<and> linked h' x y \<and>
    contents (bio_b h' y) = contents (bio_b h y) \<and>
    contents (bio_b h' x) = contents (bio_b h x) @ take (nat ret) d \<and> closed (bio_b h' x) = closed (bio_b h x) \<and>
    closed (bio_b h' y) = closed (bio_b h y) \<and>
    ret = (if closed (bio_b h x) \<or> room (bio_b h x) = 0 then -1 else int (min (length d) (room (bio_b h x)))) \<and>
    flags (h' x) = (if \<not> closed (bio_b h x) \<and> room (bio_b h x) = 0 then Retry_write else No_retry) \<and>
    bsize (bio_b h' x) = bsize (bio_b h x)"
proof -
  let ?b = "(bio_b h x)\<lparr>request := 0\<rparr>"
  have n: "size_of_int (int (length d)) = length d" using assms(3) by (simp add: size_of_int_exact)
  have ok: "ring_ok ?b" "len (bio_b h x) \<le> bsize (bio_b h x)" using assms(1) by (simp_all add: linked_def end_ok_def ring_ok_def)
  define k where "k = min (length d) (room (bio_b h x))"
  have k: "(if length d > bsize (bio_b h x) - len (bio_b h x) then bsize (bio_b h x) - len (bio_b h x) else length d) = k"
    by (auto simp: k_def room_def)
  have "k \<le> length d" by (simp add: k_def)
  then have ik: "int_of_size k = int k" using assms(3) by (intro int_of_size_exact) simp
  have le: "len ?b + k \<le> bsize ?b" using ok(2) unfolding k_def room_def by simp
  obtain b' where b': "write_loop ?b k d = Some b'" "ring_ok b'" "contents b' = contents ?b @ take k d" "same_link ?b b'"
    using write_loop_ok [OF ok(1) le \<open>k \<le> length d\<close>] by blast
  show ?thesis
  proof (cases "closed (bio_b h x)")
    case True
    then show ?thesis
      using assms by (auto simp: bio_write_def n linked_def end_ok_def Let_def) (simp_all add: set_flags_def set_b_def)
  next
    case opn: False
    show ?thesis
    proof (cases "room (bio_b h x) = 0")
      case True
      then have "len (bio_b h x) = bsize (bio_b h x)" using ok(2) by (simp add: room_def)
      with opn True assms show ?thesis
        by (auto simp: bio_write_def n linked_def end_ok_def Let_def) (simp_all add: set_flags_def set_b_def)
    next
      case False
      then have "len (bio_b h x) \<noteq> bsize (bio_b h x)" by (auto simp: room_def)
      with opn False assms b' k ik show ?thesis
        by (auto simp: bio_write_def n linked_def end_ok_def same_link_def Let_def k_def [symmetric])
          (simp_all add: set_flags_def set_b_def)
    qed
  qed
qed

lemma read_pair:
  assumes "linked h x y" and "0 < n" and "n \<le> max_int"
  shows "\<exists>ret out h'. bio_read h x True n = Some (ret, out, h') \<and> linked h' x y \<and>
    contents (bio_b h' x) = contents (bio_b h x) \<and> contents (bio_b h y) = out @ contents (bio_b h' y) \<and>
    out = take (nat n) (contents (bio_b h y)) \<and> closed (bio_b h' x) = closed (bio_b h x) \<and>
    closed (bio_b h' y) = closed (bio_b h y) \<and>
    ret = (if contents (bio_b h y) \<noteq> [] then int (length out) else if closed (bio_b h y) then 0 else -1) \<and>
    flags (h' x) = (if contents (bio_b h y) = [] \<and> \<not> closed (bio_b h y) then Retry_read else No_retry) \<and>
    request (bio_b h' y) = (if contents (bio_b h y) = [] \<and> \<not> closed (bio_b h y) then min (nat n) (bsize (bio_b h y)) else 0)"
proof -
  let ?b = "(bio_b h y)\<lparr>request := 0\<rparr>"
  have n: "size_of_int n = nat n" "nat n \<noteq> 0" using assms(2,3) by (simp_all add: size_of_int_exact)
  have py: "peer (bio_b h x) = Some y" and xy: "x \<noteq> y" and ok: "ring_ok ?b"
    using assms(1) by (simp_all add: linked_def end_ok_def)
  have empty: "contents (bio_b h y) = [] \<longleftrightarrow> len (bio_b h y) = 0" by (metis length_0_conv length_contents)
  define k where "k = (if len (bio_b h y) < nat n then len (bio_b h y) else nat n)"
  have "k \<le> nat n" unfolding k_def by simp
  then have "int k \<le> max_int" using assms(2,3) by linarith
  then have ik: "int_of_size k = int k" by (rule int_of_size_exact)
  have tk: "take k (contents (bio_b h y)) = take (nat n) (contents (bio_b h y))" "k \<le> len (bio_b h y)"
    by (simp_all add: k_def)
  obtain b' where b': "read_loop ?b k [] = Some (b', take k (contents ?b))" "ring_ok b'"
    "contents b' = drop k (contents ?b)" "same_link ?b b'"
    using read_loop_ok [OF ok, of k "[]"] tk(2) by auto
  show ?thesis
  proof (cases "len (bio_b h y) = 0")
    case True
    with assms(1) n py xy empty show ?thesis
      by (auto simp: bio_read_def linked_def end_ok_def Let_def) (simp_all add: set_flags_def set_b_def)
  next
    case False
    have l: "length (take (nat n) (contents (bio_b h y))) = k" by (simp add: k_def)
    have s: "contents (bio_b h y) = take (nat n) (contents (bio_b h y)) @ drop k (contents (bio_b h y))"
      unfolding tk(1) [symmetric] by simp
    show ?thesis
      using False assms(1) n py xy empty b' ik l s tk(1)
      by (auto simp: bio_read_def linked_def end_ok_def same_link_def Let_def k_def [symmetric])
        (simp_all add: set_flags_def set_b_def)
  qed
qed

section \<open>Streams of bytes\<close>

text \<open>Everything that can be done to a pair, with what has been handed to writes and accepted
  (\<open>S x\<close> by the end \<open>x\<close>) and what reads have returned (\<open>R x\<close> to the end \<open>x\<close>).\<close>

inductive pair_run :: "nat \<Rightarrow> nat \<Rightarrow> bios \<Rightarrow> (nat \<Rightarrow> bytes) \<Rightarrow> (nat \<Rightarrow> bytes) \<Rightarrow> bool" for a c where
  start: "BIO_new_bio_pair malloc junk h0 a c n m = (True, h) \<Longrightarrow> (\<forall>k. length (junk k) = k) \<Longrightarrow>
    pair_run a c h (\<lambda>_. []) (\<lambda>_. [])"
| writes: "pair_run a c h S R \<Longrightarrow> x \<in> {a, c} \<Longrightarrow> int (length d) \<le> max_int \<Longrightarrow>
    BIO_write h x (Some d) (int (length d)) = Some (ret, h') \<Longrightarrow>
    pair_run a c h' (S(x := S x @ take (nat ret) d)) R"
| reads: "pair_run a c h S R \<Longrightarrow> x \<in> {a, c} \<Longrightarrow> n \<le> max_int \<Longrightarrow>
    BIO_read h x True n = Some (ret, out, h') \<Longrightarrow> pair_run a c h' S (R(x := R x @ out))"
| ctrl: "pair_run a c h S R \<Longrightarrow> x \<in> {a, c} \<Longrightarrow> bio_ctrl h x cmd = (r, h') \<Longrightarrow> pair_run a c h' S R"

definition pair_inv :: "nat \<Rightarrow> nat \<Rightarrow> bios \<Rightarrow> (nat \<Rightarrow> bytes) \<Rightarrow> (nat \<Rightarrow> bytes) \<Rightarrow> bool" where
  "pair_inv a c h S R \<longleftrightarrow> linked h a c \<and> S a = R c @ contents (bio_b h a) \<and> S c = R a @ contents (bio_b h c)"

lemma pair_inv_sym: "pair_inv a c h S R \<Longrightarrow> pair_inv c a h S R"
  by (auto simp: pair_inv_def dest: linked_sym)

lemma bio_b_count [simp]:
  "bio_b (h(a := (h a)\<lparr>num_read := k\<rparr>)) x = bio_b h x" "bio_b (h(a := (h a)\<lparr>num_write := k\<rparr>)) x = bio_b h x"
  "bio_b (h(a := (h a)\<lparr>shutdown := i\<rparr>)) x = bio_b h x"
  by (simp_all add: bio_b_def)

lemma linked_count [simp]:
  "linked (h(z := (h z)\<lparr>num_read := k\<rparr>)) x y = linked h x y" "linked (h(z := (h z)\<lparr>num_write := k\<rparr>)) x y = linked h x y"
  "linked (h(z := (h z)\<lparr>shutdown := i\<rparr>)) x y = linked h x y"
  by (auto simp: linked_def end_ok_def)

lemma write_inv:
  assumes "pair_inv x y h S R" and "int (length d) \<le> max_int"
  shows "\<exists>ret h'. BIO_write h x (Some d) (int (length d)) = Some (ret, h') \<and>
    pair_inv x y h' (S(x := S x @ take (nat ret) d)) R"
proof (cases "d = []")
  case True
  then show ?thesis using assms by (auto simp: BIO_write_def pair_inv_def linked_def end_ok_def)
next
  case False
  have l: "linked h x y" using assms(1) by (simp add: pair_inv_def)
  from write_pair [OF l _ assms(2)] False obtain ret h' where w:
    "bio_write h x (Some d) (int (length d)) = Some (ret, h')" "linked h' x y"
    "contents (bio_b h' y) = contents (bio_b h y)" "contents (bio_b h' x) = contents (bio_b h x) @ take (nat ret) d" by auto
  have "x \<noteq> y" using l by (simp add: linked_def)
  with w assms(1) False l show ?thesis
    by (auto simp: BIO_write_def pair_inv_def linked_def end_ok_def)
qed

lemma read_inv:
  assumes "pair_inv x y h S R" and "n \<le> max_int"
  shows "\<exists>ret out h'. BIO_read h x True n = Some (ret, out, h') \<and> pair_inv x y h' S (R(x := R x @ out))"
proof (cases "n \<le> 0")
  case True
  then show ?thesis using assms by (auto simp: BIO_read_def pair_inv_def linked_def end_ok_def)
next
  case False
  have l: "linked h x y" using assms(1) by (simp add: pair_inv_def)
  from read_pair [OF l _ assms(2)] False obtain ret out h' where w:
    "bio_read h x True n = Some (ret, out, h')" "linked h' x y"
    "contents (bio_b h' x) = contents (bio_b h x)" "contents (bio_b h y) = out @ contents (bio_b h' y)" by auto
  have "x \<noteq> y" using l by (simp add: linked_def)
  with w assms(1) False l show ?thesis
    by (auto simp: BIO_read_def pair_inv_def linked_def end_ok_def)
qed

lemma ctrl_inv:
  assumes "pair_inv x y h S R" and "bio_ctrl h x cmd = (r, h')"
  shows "pair_inv x y h' S R"
proof -
  have c: "contents (b\<lparr>closed := True\<rparr>) = contents b" "ring_ok (b\<lparr>closed := True\<rparr>) = ring_ok b" for b
    by (simp_all add: contents_def ring_ok_def)
  show ?thesis
    using assms by (cases cmd) (auto simp: pair_inv_def linked_def end_ok_def c split: if_splits option.splits)
qed

lemma start_inv:
  assumes "BIO_new_bio_pair malloc junk h0 a c n m = (True, h)" and "\<forall>k. length (junk k) = k" and "a \<noteq> c"
  shows "pair_inv a c h (\<lambda>_. []) (\<lambda>_. [])"
  using assms
  by (auto simp: BIO_new_bio_pair_def BIO_new_def bio_new_def bio_make_pair_def alloc_buf_def pair_inv_def linked_def
      end_ok_def ring_ok_def contents_def bio_b_def set_b_def Let_def split: if_splits)

lemma write_inv_eq:
  "pair_inv x y h S R \<Longrightarrow> int (length d) \<le> max_int \<Longrightarrow> BIO_write h x (Some d) (int (length d)) = Some (ret, h') \<Longrightarrow>
     pair_inv x y h' (S(x := S x @ take (nat ret) d)) R"
  using write_inv [of x y h S R d] by auto

lemma read_inv_eq:
  "pair_inv x y h S R \<Longrightarrow> n \<le> max_int \<Longrightarrow> BIO_read h x True n = Some (ret, out, h') \<Longrightarrow>
     pair_inv x y h' S (R(x := R x @ out))"
  using read_inv [of x y h S R n] by auto

lemma run_inv:
  assumes "pair_run a c h S R" and "a \<noteq> c"
  shows "pair_inv a c h S R"
  using assms(1)
proof (induction rule: pair_run.induct)
  case (start malloc junk h0 n m h)
  then show ?case using assms(2) by (intro start_inv)
next
  case (writes h S R x d ret h')
  from writes.hyps(2) show ?case
  proof (elim insertE emptyE)
    assume "x = a"
    with write_inv_eq [OF writes.IH writes.hyps(3)] writes.hyps(4) show ?case by blast
  next
    assume "x = c"
    with write_inv_eq [OF pair_inv_sym [OF writes.IH] writes.hyps(3)] writes.hyps(4) show ?case
      by (blast intro: pair_inv_sym)
  qed
next
  case (reads h S R x n ret out h')
  from reads.hyps(2) show ?case
  proof (elim insertE emptyE)
    assume "x = a"
    with read_inv_eq [OF reads.IH reads.hyps(3)] reads.hyps(4) show ?case by blast
  next
    assume "x = c"
    with read_inv_eq [OF pair_inv_sym [OF reads.IH] reads.hyps(3)] reads.hyps(4) show ?case
      by (blast intro: pair_inv_sym)
  qed
next
  case (ctrl h S R x cmd r h')
  from ctrl.hyps(2) show ?case
  proof (elim insertE emptyE)
    assume "x = a"
    with ctrl_inv [OF ctrl.IH] ctrl.hyps(3) show ?case by blast
  next
    assume "x = c"
    with ctrl_inv [OF pair_inv_sym [OF ctrl.IH]] ctrl.hyps(3) show ?case by (blast intro: pair_inv_sym)
  qed
qed

text \<open>A run of one write, for the instances below: two ends with buffers of four bytes.\<close>

text \<open>\<open>BIO_write_all\<close> writes while there is room.\<close>

lemma write_all_loop:
  assumes "linked h x y" and "int (length d) \<le> max_int"
  shows "\<exists>h'. BIO_write_all h x d = Some (d = [] \<or> \<not> closed (bio_b h x) \<and> length d \<le> room (bio_b h x), h') \<and>
    contents (bio_b h' x) = contents (bio_b h x) @ (if closed (bio_b h x) then [] else take (room (bio_b h x)) d)"
  using assms
proof (induction "length d" arbitrary: d h rule: less_induct)
  case less
  show ?case
  proof (cases "d = []")
    case True
    then show ?thesis by (subst BIO_write_all.simps) simp
  next
    case False
    then have pos: "0 < length d" by simp
    obtain ret h1 where w: "bio_write h x (Some d) (int (length d)) = Some (ret, h1)" and l1: "linked h1 x y"
      and c1: "contents (bio_b h1 x) = contents (bio_b h x) @ take (nat ret) d" and cl1: "closed (bio_b h1 x) = closed (bio_b h x)"
      and bs: "bsize (bio_b h1 x) = bsize (bio_b h x)"
      and ret: "ret = (if closed (bio_b h x) \<or> room (bio_b h x) = 0 then -1 else int (min (length d) (room (bio_b h x))))"
      using write_pair [OF less.prems(1) pos less.prems(2)] by blast
    have i: "init (h x)" using less.prems(1) by (simp add: linked_def end_ok_def)
    show ?thesis
    proof (cases "closed (bio_b h x) \<or> room (bio_b h x) = 0")
      case True
      with less.prems(2) i w ret c1 False show ?thesis
        by (subst BIO_write_all.simps) (auto simp: BIO_write_def)
    next
      case False
      define h2 where "h2 = h1(x := (h1 x)\<lparr>num_write := size_add (num_write (h1 x)) (nat ret)\<rparr>)"
      have l2: "linked h2 x y" and b2: "bio_b h2 x = bio_b h1 x" using l1 by (simp_all add: h2_def)
      from False ret have r: "0 < ret" "nat ret = min (length d) (room (bio_b h x))" using pos by simp_all
      have "BIO_write h x (Some d) (int (length d)) = Some (ret, h2)"
        using i w pos r(1) by (simp add: BIO_write_def h2_def)
      then have step: "BIO_write_all h x d = BIO_write_all h2 x (drop (nat ret) d)"
        using less.prems(2) \<open>d \<noteq> []\<close> r(1) by (subst BIO_write_all.simps) simp
      have room2: "room (bio_b h2 x) = room (bio_b h x) - nat ret"
      proof -
        have "len (bio_b h2 x) = len (bio_b h x) + nat ret"
          using arg_cong [OF c1, of length] b2 r(2) by simp
        then show ?thesis using bs b2 by (simp add: room_def)
      qed
      have "length (drop (nat ret) d) < length d" using r pos by simp
      from less.hyps [OF this l2] less.prems(2) obtain h' where
        "BIO_write_all h2 x (drop (nat ret) d) =
           Some (drop (nat ret) d = [] \<or> \<not> closed (bio_b h2 x) \<and> length (drop (nat ret) d) \<le> room (bio_b h2 x), h')"
        "contents (bio_b h' x) = contents (bio_b h2 x) @
           (if closed (bio_b h2 x) then [] else take (room (bio_b h2 x)) (drop (nat ret) d))" by fastforce
      with step False b2 cl1 c1 room2 r(2) show ?thesis
        by (auto simp: min_def split: if_splits)
    qed
  qed
qed

lemma sample_run:
  "\<exists>h S R. pair_run 0 1 h S R \<and> S 0 = [1, 2, 3] \<and> contents (bio_b h 0) = [1, 2, 3] \<and> \<not> closed (bio_b h 0)"
proof -
  define h0 :: bios where "h0 = (\<lambda>_. \<lparr>init = False, shutdown = 0, flags = No_retry, ptr = None, num_read = 0, num_write = 0\<rparr>)"
  define h where "h = snd (BIO_new_bio_pair (\<lambda>_. True) (\<lambda>k. replicate k 0) h0 0 1 4 4)"
  have new: "BIO_new_bio_pair (\<lambda>_. True) (\<lambda>k. replicate k 0) h0 0 1 4 4 = (True, h)"
    unfolding h_def by (simp add: BIO_new_bio_pair_def BIO_new_def bio_new_def bio_make_pair_def alloc_buf_def bio_b_def set_b_def Let_def)
  have run: "pair_run 0 1 h (\<lambda>_. []) (\<lambda>_. [])" by (rule pair_run.start [OF new]) simp
  have b: "contents (bio_b h 0) = []" "\<not> closed (bio_b h 0)" "room (bio_b h 0) = 4" "linked h 0 1"
    using start_inv [OF new] unfolding h_def
    by (simp_all add: BIO_new_bio_pair_def BIO_new_def bio_new_def bio_make_pair_def alloc_buf_def bio_b_def set_b_def
        contents_def room_def pair_inv_def Let_def)
  obtain ret h' where w: "bio_write h 0 (Some [1, 2, 3]) (int (length [1 :: u8, 2, 3])) = Some (ret, h')" "ret = 3"
    "contents (bio_b h' 0) = [] @ take (nat ret) [1, 2, 3]" "\<not> closed (bio_b h' 0)"
    using write_pair [OF b(4), of "[1, 2, 3]"] b by (auto simp: max_int_def)
  have "BIO_write h 0 (Some [1, 2, 3]) (int (length [1 :: u8, 2, 3])) =
      Some (3, h'(0 := (h' 0)\<lparr>num_write := size_add (num_write (h' 0)) 3\<rparr>))"
    using w b(4) by (simp add: BIO_write_def linked_def end_ok_def)
  from pair_run.writes [OF run _ _ this] w show ?thesis
    by (intro exI [of _ "h'(0 := (h' 0)\<lparr>num_write := size_add (num_write (h' 0)) 3\<rparr>)"]
        exI [of _ "(\<lambda>_. [])(0 := [1, 2, 3])"] exI [of _ "\<lambda>_. []"]) (simp add: max_int_def bio_b_def)
qed

text \<open>C30. A BIO pair is two queues: whatever calls are made on its ends, in whatever order, the bytes
  that writes to one end accepted are the bytes that reads at the other end returned, in the
  same order, followed by those still in the buffer, which never holds more than its size.\<close>

theorem pair_is_two_queues:
  assumes "pair_run a c h S R" and "a \<noteq> c"
  shows "S a = R c @ contents (bio_b h a) \<and> S c = R a @ contents (bio_b h c) \<and>
    len (bio_b h a) \<le> bsize (bio_b h a) \<and> len (bio_b h c) \<le> bsize (bio_b h c)"
  using run_inv [OF assms] by (simp add: pair_inv_def linked_def end_ok_def ring_ok_def)

lemma pair_is_two_queues_witness:
  "\<exists>h (S :: nat \<Rightarrow> bytes) (R :: nat \<Rightarrow> bytes). S 0 = [1, 2, 3] \<and> S 0 = R 1 @ contents (bio_b h 0) \<and> S 1 = R 0 @ contents (bio_b h 1) \<and>
    len (bio_b h 0) \<le> bsize (bio_b h 0) \<and> len (bio_b h 1) \<le> bsize (bio_b h 1)"
proof -
  obtain h S R where run: "pair_run 0 1 h S R" and S: "S 0 = [1, 2, 3]" using sample_run by blast
  have "(0 :: nat) \<noteq> 1" by simp
  with S pair_is_two_queues [OF run] show ?thesis by blast
qed

lemma counted_read:
  assumes "init (h x)" and "0 < n" and "bio_read h x b n = Some (ret, out, h2)"
  shows "\<exists>h'. BIO_read h x b n = Some (ret, out, h') \<and> flags (h' x) = flags (h2 x) \<and> (\<forall>z. bio_b h' z = bio_b h2 z)"
  using assms by (simp add: BIO_read_def)

lemma counted_write:
  assumes "init (h x)" and "0 < n" and "bio_write h x inp n = Some (ret, h2)"
  shows "\<exists>h'. BIO_write h x inp n = Some (ret, h') \<and> flags (h' x) = flags (h2 x) \<and> (\<forall>z. bio_b h' z = bio_b h2 z)"
  using assms by (simp add: BIO_write_def)

text \<open>C31. Calls on a pair always return. A write takes as much as there is room for; it returns -1 with
  the retry flag for writing when the buffer is full, and -1 without a retry flag when the end was
  shut down. A read returns what there is up to the number asked for; with nothing there it returns 0
  when the other end was shut down, and else -1 with the retry flag for reading, and leaves its
  request to the writer. A call with a size that is not positive returns 0 and changes nothing.\<close>

theorem pair_calls_return:
  assumes "pair_run a c h S R" and "a \<noteq> c" and "(x, y) = (a, c) \<or> (x, y) = (c, a)"
    and "0 < length d" and "int (length d) \<le> max_int" and "0 < n" and "n \<le> max_int" and "k \<le> 0"
  shows "(\<exists>h'. BIO_write h x (Some d) (int (length d)) =
      Some (if closed (bio_b h x) \<or> room (bio_b h x) = 0 then -1 else int (min (length d) (room (bio_b h x))), h') \<and>
      flags (h' x) = (if \<not> closed (bio_b h x) \<and> room (bio_b h x) = 0 then Retry_write else No_retry) \<and>
      contents (bio_b h' x) = contents (bio_b h x) @ (if closed (bio_b h x) then [] else take (room (bio_b h x)) d)) \<and>
    (\<exists>h'. BIO_read h x True n =
      Some (if contents (bio_b h y) \<noteq> [] then int (min (nat n) (len (bio_b h y)))
            else if closed (bio_b h y) then 0 else -1,
            take (nat n) (contents (bio_b h y)), h') \<and>
      flags (h' x) = (if contents (bio_b h y) = [] \<and> \<not> closed (bio_b h y) then Retry_read else No_retry) \<and>
      request (bio_b h' y) =
        (if contents (bio_b h y) = [] \<and> \<not> closed (bio_b h y) then min (nat n) (bsize (bio_b h y)) else 0) \<and>
      contents (bio_b h' y) = drop (nat n) (contents (bio_b h y))) \<and>
    BIO_write h x inp k = Some (0, h) \<and> BIO_read h x has_buf k = Some (0, [], h)"
proof -
  have l: "linked h x y"
    using run_inv [OF assms(1,2)] assms(3) linked_sym by (auto simp: pair_inv_def)
  then have i: "init (h x)" by (simp add: linked_def end_ok_def)
  obtain ret h1 where w: "bio_write h x (Some d) (int (length d)) = Some (ret, h1)"
    "contents (bio_b h1 x) = contents (bio_b h x) @ take (nat ret) d"
    "ret = (if closed (bio_b h x) \<or> room (bio_b h x) = 0 then -1 else int (min (length d) (room (bio_b h x))))"
    "flags (h1 x) = (if \<not> closed (bio_b h x) \<and> room (bio_b h x) = 0 then Retry_write else No_retry)"
    using write_pair [OF l assms(4,5)] by blast
  obtain ret' out h2 where r: "bio_read h x True n = Some (ret', out, h2)"
    "contents (bio_b h y) = out @ contents (bio_b h2 y)" "out = take (nat n) (contents (bio_b h y))"
    "ret' = (if contents (bio_b h y) \<noteq> [] then int (length out) else if closed (bio_b h y) then 0 else -1)"
    "flags (h2 x) = (if contents (bio_b h y) = [] \<and> \<not> closed (bio_b h y) then Retry_read else No_retry)"
    "request (bio_b h2 y) = (if contents (bio_b h y) = [] \<and> \<not> closed (bio_b h y) then min (nat n) (bsize (bio_b h y)) else 0)"
    using read_pair [OF l assms(6,7)] by blast
  have d: "contents (bio_b h2 y) = drop (nat n) (contents (bio_b h y))"
    using r(2,3) append_take_drop_id [of "nat n" "contents (bio_b h y)"] by (metis same_append_eq)
  have ol: "int (length out) = int (min (nat n) (len (bio_b h y)))" unfolding r(3) by (simp add: min.commute)
  have t: "take (nat ret) d = (if closed (bio_b h x) then [] else take (room (bio_b h x)) d)"
    unfolding w(3) by (simp add: min_def)
  have p: "0 < int (length d)" using assms(4) by simp
  have wr: "\<exists>h'. BIO_write h x (Some d) (int (length d)) = Some (ret, h') \<and> flags (h' x) = flags (h1 x) \<and>
      contents (bio_b h' x) = contents (bio_b h1 x)"
    using counted_write [OF i p w(1)] by metis
  have rd: "\<exists>h'. BIO_read h x True n = Some (ret', out, h') \<and> flags (h' x) = flags (h2 x) \<and>
      request (bio_b h' y) = request (bio_b h2 y) \<and> contents (bio_b h' y) = contents (bio_b h2 y)"
    using counted_read [OF i assms(6) r(1)] by metis
  show ?thesis
  proof (intro conjI)
    show "BIO_write h x inp k = Some (0, h)" "BIO_read h x has_buf k = Some (0, [], h)"
      using i assms(8) by (simp_all add: BIO_write_def BIO_read_def)
  qed (use wr [unfolded w(2,4) t] rd [unfolded r(5,6) d] in \<open>simp_all only: w(3) r(3,4) ol [unfolded r(3)]\<close>)
qed

lemma pair_calls_return_witness:
  "\<exists>h. \<exists>h'. BIO_read h 1 True 2 = Some (2, [1, 2], h') \<and> flags (h' 1) = No_retry \<and> contents (bio_b h' 0) = [3]"
proof -
  obtain h S R where run: "pair_run 0 1 h S R" and c: "contents (bio_b h 0) = [1, 2, 3]" using sample_run by blast
  have "len (bio_b h 0) = 3" using arg_cong [OF c, of length] by simp
  moreover have "(\<exists>h'. BIO_read h 1 True 2 =
      Some (if contents (bio_b h 0) \<noteq> [] then int (min (nat 2) (len (bio_b h 0)))
            else if closed (bio_b h 0) then 0 else -1,
            take (nat 2) (contents (bio_b h 0)), h') \<and>
      flags (h' 1) = (if contents (bio_b h 0) = [] \<and> \<not> closed (bio_b h 0) then Retry_read else No_retry) \<and>
      request (bio_b h' 0) =
        (if contents (bio_b h 0) = [] \<and> \<not> closed (bio_b h 0) then min (nat 2) (bsize (bio_b h 0)) else 0) \<and>
      contents (bio_b h' 0) = drop (nat 2) (contents (bio_b h 0)))"
    using pair_calls_return [OF run, of 1 0 "[7]" 2 0 None True] by (simp add: max_int_def)
  ultimately show ?thesis using c by - (rule exI [of _ h], auto)
qed

text \<open>On an end of a pair \<open>BIO_write_all\<close> returns, and succeeds exactly when nothing is to be written
  or the end is open and everything fits; when it fails, the buffer has been filled with what
  did fit.\<close>

theorem write_all_fills_room:
  assumes "pair_run a c h S R" and "a \<noteq> c" and "x \<in> {a, c}" and "int (length d) \<le> max_int"
  shows "\<exists>h'. BIO_write_all h x d = Some (d = [] \<or> \<not> closed (bio_b h x) \<and> length d \<le> room (bio_b h x), h') \<and>
    contents (bio_b h' x) = contents (bio_b h x) @ (if closed (bio_b h x) then [] else take (room (bio_b h x)) d)"
proof -
  have "linked h a c" using run_inv [OF assms(1,2)] by (simp add: pair_inv_def)
  with assms(3) obtain y where "linked h x y" using linked_sym by blast
  from write_all_loop [OF this assms(4)] show ?thesis .
qed

lemma write_all_fills_room_witness:
  "\<exists>h. (\<exists>h'. BIO_write_all h 0 [4, 5] =
      Some ([4, 5 :: u8] = [] \<or> \<not> closed (bio_b h 0) \<and> length [4, 5 :: u8] \<le> room (bio_b h 0), h') \<and>
    contents (bio_b h' 0) = contents (bio_b h 0) @ (if closed (bio_b h 0) then [] else take (room (bio_b h 0)) [4, 5])) \<and>
    contents (bio_b h 0) = [1, 2, 3] \<and> \<not> closed (bio_b h 0)"
proof -
  obtain h S R where run: "pair_run 0 1 h S R" "contents (bio_b h 0) = [1, 2, 3] \<and> \<not> closed (bio_b h 0)"
    using sample_run by blast
  have "(0 :: nat) \<in> {0, 1}" "int (length [4, 5 :: u8]) \<le> max_int" by (simp_all add: max_int_def)
  note all = conjI [OF write_all_fills_room [OF run(1) zero_neq_one this] run(2)]
  show ?thesis by (rule exI [of _ h], rule all)
qed

end
