(* ===== verification/Md32.thy ===== *)
theory Md32
  imports Prelude
begin

text \<open>
  Iterated hashes: the template \<open>fipsmodule/digest/md32_common.h\<close> from which MD4, MD5, SHA-1 and
  SHA-256 are made, over its parameter \<open>HASH_BLOCK_DATA_ORDER\<close>, and what it computes whatever the
  pieces are in which the message arrives. The block function's contract is the locale
  \<open>block_function\<close>, which SHA-512 shares.
\<close>

unbundle bit_operations_syntax

section \<open>The template\<close>

record md32_ctx =
  ctx_h :: "u32 list"
  Nl :: u32
  Nh :: u32
  ctx_data :: bytes
  ctx_num :: nat

text \<open>\<open>OPENSSL_memcpy(p + n, d, |d|)\<close>.\<close>

definition copy_to :: "bytes \<Rightarrow> nat \<Rightarrow> bytes \<Rightarrow> bytes" where
  "copy_to p n d = take n p @ d @ drop (n + length d) p"

text \<open>The four bytes of a word at \<open>c\<close>, and the word made of the four bytes at \<open>c\<close>; the first
  argument says whether the data order is big endian.\<close>

definition HOST_l2c :: "bool \<Rightarrow> u32 \<Rightarrow> bytes" where
  "HOST_l2c big l =
     (let d = [ucast (drop_bit 24 l AND 0xff), ucast (drop_bit 16 l AND 0xff), ucast (drop_bit 8 l AND 0xff), ucast (l AND 0xff)]
      in if big then d else rev d)"

definition HOST_c2l :: "bool \<Rightarrow> bytes \<Rightarrow> nat \<Rightarrow> u32" where
  "HOST_c2l big c i =
     (let b = (\<lambda>j. ucast (c ! (i + j)))
      in if big then push_bit 24 (b 0) OR push_bit 16 (b 1) OR push_bit 8 (b 2) OR b 3
         else b 0 OR push_bit 8 (b 1) OR push_bit 16 (b 2) OR push_bit 24 (b 3))"

definition HASH_CBLOCK :: nat where "HASH_CBLOCK = 64"

type_synonym 's block_fn = "'s \<Rightarrow> bytes \<Rightarrow> nat \<Rightarrow> 's"

definition hash_count :: "'a md32_ctx_scheme \<Rightarrow> nat \<Rightarrow> 'a md32_ctx_scheme" where
  "hash_count c len =
     (let l = Nl c + push_bit 3 (of_nat len);
          c = (if l < Nl c then c\<lparr>Nh := Nh c + 1\<rparr> else c)
      in c\<lparr>Nh := Nh c + of_nat (len div 2 ^ 29), Nl := l\<rparr>)"

definition HASH_UPDATE :: "u32 list block_fn \<Rightarrow> 'a md32_ctx_scheme \<Rightarrow> bytes \<Rightarrow> 'a md32_ctx_scheme" where
  "HASH_UPDATE blk c d =
     (let len = length d
      in if len = 0 then c
         else
           let c = hash_count c len; n = ctx_num c
           in if n \<noteq> 0 \<and> \<not> (len \<ge> HASH_CBLOCK \<or> size_add len n \<ge> HASH_CBLOCK)
              then c\<lparr>ctx_data := copy_to (ctx_data c) n d, ctx_num := n + len\<rparr>
              else
                let (c, d) =
                      (if n \<noteq> 0
                       then (c\<lparr>ctx_h := blk (ctx_h c) (copy_to (ctx_data c) n (take (HASH_CBLOCK - n) d)) 1,
                               ctx_num := 0, ctx_data := replicate HASH_CBLOCK 0\<rparr>,
                             drop (HASH_CBLOCK - n) d)
                       else (c, d));
                    n = length d div HASH_CBLOCK;
                    (c, d) = (if n > 0 then (c\<lparr>ctx_h := blk (ctx_h c) d n\<rparr>, drop (n * HASH_CBLOCK) d) else (c, d))
                in if length d \<noteq> 0 then c\<lparr>ctx_num := length d, ctx_data := copy_to (ctx_data c) 0 d\<rparr> else c)"

definition HASH_TRANSFORM :: "u32 list block_fn \<Rightarrow> 'a md32_ctx_scheme \<Rightarrow> bytes \<Rightarrow> 'a md32_ctx_scheme" where
  "HASH_TRANSFORM blk c d = c\<lparr>ctx_h := blk (ctx_h c) d 1\<rparr>"

text \<open>\<open>out\<close> is \<open>HASH_MAKE_STRING\<close>.\<close>

definition HASH_FINAL ::
  "bool \<Rightarrow> u32 list block_fn \<Rightarrow> ('a md32_ctx_scheme \<Rightarrow> 'b) \<Rightarrow> 'a md32_ctx_scheme \<Rightarrow> 'b \<times> 'a md32_ctx_scheme" where
  "HASH_FINAL big blk out c =
     (let d = (ctx_data c)[ctx_num c := 0x80];
          n = ctx_num c + 1;
          (c, d, n) =
            (if n > HASH_CBLOCK - 8
             then let d = copy_to d n (replicate (HASH_CBLOCK - n) 0)
                  in (c\<lparr>ctx_h := blk (ctx_h c) d 1\<rparr>, d, 0)
             else (c, d, n));
          d = copy_to d n (replicate (HASH_CBLOCK - 8 - n) 0);
          d = copy_to d (HASH_CBLOCK - 8)
                (if big then HOST_l2c big (Nh c) @ HOST_l2c big (Nl c) else HOST_l2c big (Nl c) @ HOST_l2c big (Nh c));
          c = c\<lparr>ctx_h := blk (ctx_h c) d 1, ctx_num := 0, ctx_data := replicate HASH_CBLOCK 0\<rparr>
      in (out c, c))"

section \<open>Block functions\<close>

text \<open>Whole blocks are taken one after the other, and one step reads its own block only.\<close>

locale block_function =
  fixes B :: nat and blk :: "'s block_fn" and step :: "'s \<Rightarrow> bytes \<Rightarrow> 's"
  assumes block_pos: "0 < B"
    and blk_0: "blk s d 0 = s"
    and blk_Suc: "blk s d (Suc n) = blk (step s d) (drop B d) n"
    and step_prefix: "B \<le> length d \<Longrightarrow> step s (d @ e) = step s d"
begin

lemma blk_add: "blk s d (i + j) = blk (blk s d i) (drop (B * i) d) j"
  by (induction i arbitrary: s d) (simp_all add: blk_0 blk_Suc add.commute)

lemma blk_prefix: "B * n \<le> length d \<Longrightarrow> blk s (d @ e) n = blk s d n"
  by (induction n arbitrary: s d) (simp_all add: blk_0 blk_Suc step_prefix)

text \<open>The state after all whole blocks of a message, and the rest of it.\<close>

definition absorb :: "'s \<Rightarrow> bytes \<Rightarrow> 's" where
  "absorb s m = blk s m (length m div B)"

definition rest :: "bytes \<Rightarrow> bytes" where
  "rest m = drop (B * (length m div B)) m"

lemma length_rest: "length (rest m) = length m mod B"
  by (simp add: rest_def minus_mult_div_eq_mod)

lemma rest_less: "length (rest m) < B"
  using block_pos by (simp add: length_rest)

lemma blk_take: "B * n \<le> length d \<Longrightarrow> blk s (take (B * n) d) n = blk s d n"
  using blk_prefix [of n "take (B * n) d" s "drop (B * n) d"] by simp

lemma absorb_split:
  assumes "length x = B * k"
  shows "absorb s (x @ y) = absorb (blk s x k) y" and "rest (x @ y) = rest y"
proof -
  have d: "length (x @ y) div B = k + length y div B" using assms block_pos by simp
  have "blk s (x @ y) (k + length y div B) = blk (blk s (x @ y) k) (drop (B * k) (x @ y)) (length y div B)"
    by (rule blk_add)
  then show "absorb s (x @ y) = absorb (blk s x k) y"
    unfolding absorb_def d using assms blk_prefix [of k x s y] by simp
  show "rest (x @ y) = rest y"
    unfolding rest_def d using assms by (simp add: distrib_left)
qed

lemma absorb_rest: "absorb s (m @ d) = absorb (absorb s m) (rest m @ d)" and rest_rest: "rest (m @ d) = rest (rest m @ d)"
proof -
  let ?k = "length m div B"
  have l: "length (take (B * ?k) m) = B * ?k" by (simp add: mult.commute div_times_less_eq_dividend)
  have m: "m @ d = take (B * ?k) m @ (rest m @ d)" by (simp add: rest_def)
  show "absorb s (m @ d) = absorb (absorb s m) (rest m @ d)"
    unfolding m absorb_split(1) [OF l] using blk_take [of ?k m s] by (simp add: absorb_def mult.commute div_times_less_eq_dividend)
  show "rest (m @ d) = rest (rest m @ d)"
    unfolding m absorb_split(2) [OF l] by (rule refl)
qed

lemma absorb_short: "length d < B \<Longrightarrow> absorb s d = s" and rest_short: "length d < B \<Longrightarrow> rest d = d"
  by (simp_all add: absorb_def rest_def blk_0)

end

section \<open>Padding and blocks\<close>

text \<open>The padded message: a bit 1, zeros up to a whole number of blocks, and the length in bits in
  \<open>L\<close> bytes, in the given order.\<close>

definition hash_pad :: "nat \<Rightarrow> nat \<Rightarrow> (nat \<Rightarrow> bytes) \<Rightarrow> bytes \<Rightarrow> bytes" where
  "hash_pad B L len m = m @ 0x80 # replicate ((B - (length m + 1 + L) mod B) mod B) 0 @ len (8 * length m)"

definition length_bytes :: "bool \<Rightarrow> nat \<Rightarrow> bytes" where
  "length_bytes big n = (if big then be_bytes 8 n else le_bytes 8 n)"

text \<open>The hash computation: a step on every block of the padded message.\<close>

definition hash_blocks :: "nat \<Rightarrow> ('s \<Rightarrow> bytes \<Rightarrow> 's) \<Rightarrow> 's \<Rightarrow> bytes \<Rightarrow> 's" where
  "hash_blocks B f s m = fold (\<lambda>i s. f s (take B (drop (B * i) m))) [0..<length m div B] s"

lemma hash_blocks_cong:
  assumes "\<And>s d. P s \<Longrightarrow> length d = B \<Longrightarrow> f s d = g s d \<and> P (g s d)" and "P s" and "0 < B"
  shows "hash_blocks B f s m = hash_blocks B g s m \<and> P (hash_blocks B g s m)"
proof -
  have "fold (\<lambda>i s. f s (take B (drop (B * i) m))) [0..<n] s = fold (\<lambda>i s. g s (take B (drop (B * i) m))) [0..<n] s \<and>
      P (fold (\<lambda>i s. g s (take B (drop (B * i) m))) [0..<n] s)" if "B * n \<le> length m" for n
    using that by (induction n) (use assms in simp_all)
  then show ?thesis
    unfolding hash_blocks_def by (simp add: mult.commute div_times_less_eq_dividend)
qed

lemma hash_blocks_hom: "(\<And>s d. f (C s) d = C (g s d)) \<Longrightarrow> hash_blocks B f (C s) m = C (hash_blocks B g s m)"
proof -
  assume h: "\<And>s d. f (C s) d = C (g s d)"
  have "fold (\<lambda>i s. f s (take B (drop (B * i) m))) is (C s) = C (fold (\<lambda>i s. g s (take B (drop (B * i) m))) is s)" for "is"
    by (induction "is" arbitrary: s) (simp_all add: h)
  then show ?thesis unfolding hash_blocks_def by simp
qed

text \<open>The blocks of \<open>x\<close>, of which there are \<open>n\<close>, and then those of \<open>y\<close>.\<close>

lemma hash_blocks_append:
  assumes "length x = B * n" and "0 < B"
  shows "hash_blocks B f s (x @ y) = hash_blocks B f (hash_blocks B f s x) y"
proof -
  let ?F = "\<lambda>m i s. f s (take B (drop (B * i) m))"
  have x: "fold (?F (x @ y)) [0..<n] s = fold (?F x) [0..<n] s"
  proof (rule fold_cong)
    fix i assume "i \<in> set [0..<n]"
    then have "B * (i + 1) \<le> B * n" by (intro mult_le_mono2) simp
    then show "?F (x @ y) i = ?F x i" using assms(1) by simp
  qed simp_all
  have y: "fold (?F (x @ y)) [n..<n + k] t = fold (?F y) [0..<k] t" for k t
  proof -
    have "[n..<n + k] = map (\<lambda>j. n + j) [0..<k]" using map_add_upt [of n k] by (simp add: add.commute)
    moreover have "B * (n + j) - B * n = B * j" for j by (simp add: distrib_left)
    ultimately show ?thesis using assms(1) by (simp add: fold_map comp_def)
  qed
  have "length (x @ y) div B = n + length y div B" using assms by simp
  then have "hash_blocks B f s (x @ y) = fold (?F (x @ y)) ([0..<n] @ [n..<n + length y div B]) s"
    unfolding hash_blocks_def by (simp only: upt_add_eq_append [OF le0])
  also have "\<dots> = fold (?F y) [0..<length y div B] (fold (?F x) [0..<n] s)" by (simp only: fold_append comp_apply x y)
  also have "\<dots> = hash_blocks B f (hash_blocks B f s x) y" using assms by (simp add: hash_blocks_def)
  finally show ?thesis .
qed

lemma hash_blocks_one: "length x = B \<Longrightarrow> 0 < B \<Longrightarrow> hash_blocks B f s x = f s x"
  by (simp add: hash_blocks_def)

context block_function
begin

lemma step_take: "B \<le> length d \<Longrightarrow> step s (take B d) = step s d"
  using step_prefix [of "take B d" s "drop B d"] by simp

lemma blk_blocks: "B * n \<le> length d \<Longrightarrow> blk s d n = fold (\<lambda>i s. step s (take B (drop (B * i) d))) [0..<n] s"
proof (induction n)
  case (Suc n)
  then show ?case
    using blk_add [of s d n 1] step_take [of "drop (B * n) d"] by (simp add: blk_0 blk_Suc)
qed (simp add: blk_0)

lemma absorb_blocks: "absorb s m = hash_blocks B step s m"
  unfolding absorb_def hash_blocks_def by (rule blk_blocks) (simp add: mult.commute div_times_less_eq_dividend)

end

lemma length_bytes_be: "length_bytes True = be_bytes 8" and length_bytes_le: "length_bytes False = le_bytes 8"
  by (simp_all add: length_bytes_def fun_eq_iff)

section \<open>Byte order\<close>

lemma take_concat: "(\<And>x. length (f x) = n) \<Longrightarrow> take (k * n) (concat (map f xs)) = concat (map f (take k xs))"
proof (induction xs arbitrary: k)
  case (Cons x xs)
  then show ?case by (cases k) simp_all
qed simp

lemma concat_words:
  assumes "\<And>x. length (f x) = n" and "k \<le> length xs"
  shows "concat (map (\<lambda>i. f (xs ! i)) [0..<k]) = take (k * n) (concat (map f xs))"
proof -
  have "map (\<lambda>i. f (xs ! i)) [0..<k] = map f (take k xs)" using assms(2) by (intro nth_equalityI) simp_all
  then show ?thesis using take_concat [of f n k xs] assms(1) by simp
qed

lemma low_byte: "unat (ucast (x :: 'a :: len word) :: u8) = unat x mod 256"
  by (simp add: unsigned_ucast_eq take_bit_eq_mod)

lemma drop_byte: "unat (ucast (drop_bit n (x :: 'a :: len word)) :: u8) = unat x div 2 ^ n mod 256"
  unfolding low_byte by (subst unat_drop_bit_eq) (simp only: drop_bit_nat_def)

lemma mask_byte: "ucast (x AND 0xff :: u32) = (ucast x :: u8)"
proof (rule bit_eqI)
  fix n
  assume "possible_bit TYPE(u8) n"
  then have n: "n < 8" by simp
  have "bit (0xff :: u32) n" using n by (rule nat_below_by_eval [rotated]) code_simp
  then show "bit (ucast (x AND 0xff :: u32) :: u8) n = bit (ucast x :: u8) n" using n by (simp add: bit_simps)
qed

lemma be_bytes_eqI: "length d = n \<Longrightarrow> be_val d = v mod 256 ^ n \<Longrightarrow> d = be_bytes n v"
  by (rule be_val_inject) (simp_all add: be_val_be_bytes)

lemma be_bytes_mod: "be_bytes n (v mod 256 ^ n) = be_bytes n v"
  by (rule be_bytes_eqI) (simp_all add: be_val_be_bytes)

lemma be_bytes_append: "be_bytes i h @ be_bytes j l = be_bytes (i + j) (h * 256 ^ j + l mod 256 ^ j)"
proof (rule be_bytes_eqI)
  have "(h * 256 ^ j + l mod 256 ^ j) mod 256 ^ (i + j) = h mod 256 ^ i * 256 ^ j + l mod 256 ^ j"
    using mod_mult_div [of "h * 256 ^ j + l mod 256 ^ j" "256 ^ i" "256 ^ j"] by (simp add: power_add)
  then show "be_val (be_bytes i h @ be_bytes j l) = (h * 256 ^ j + l mod 256 ^ j) mod 256 ^ (i + j)"
    by (simp add: be_val_append be_val_be_bytes)
qed simp

lemma be_bytes_4: "be_bytes 4 v = [of_nat (v div 2 ^ 24), of_nat (v div 2 ^ 16), of_nat (v div 2 ^ 8), of_nat v]"
proof -
  have "(4 :: nat) = Suc (Suc (Suc (Suc 0)))" by simp
  then have "be_bytes 4 v = be_bytes (Suc (Suc (Suc (Suc 0)))) v" by (rule arg_cong)
  also have "\<dots> = [of_nat (v div 256 div 256 div 256), of_nat (v div 256 div 256), of_nat (v div 256), of_nat v]"
    unfolding be_bytes.simps by simp
  finally show ?thesis by (simp add: div_mult2_eq [symmetric])
qed

lemma ucast_drop: "(ucast (drop_bit n (x :: 'a :: len word)) :: u8) = of_nat (unat x div 2 ^ n)"
  unfolding u8_eq_iff drop_byte unat_of_nat_u8 by (rule refl)

lemma ucast_low: "(ucast (x :: 'a :: len word) :: u8) = of_nat (unat x)"
  unfolding u8_eq_iff low_byte unat_of_nat_u8 by (rule refl)

lemma word_be_bytes: "[ucast (drop_bit 24 x), ucast (drop_bit 16 x), ucast (drop_bit 8 x), ucast x] = be_bytes 4 (unat (x :: 'a :: len word))"
  by (simp only: be_bytes_4 ucast_drop ucast_low [of x])

lemma l2c_bytes: "HOST_l2c big l = (if big then be_bytes 4 (unat l) else le_bytes 4 (unat l))"
  unfolding HOST_l2c_def mask_byte word_be_bytes Let_def le_bytes_def by (rule refl)

lemma list_4: "length x = 4 \<Longrightarrow> x = [x ! 0, x ! 1, x ! 2, x ! 3]"
  using map_nth [of x] by (simp add: numeral_eq_Suc)

lemma or_bytes: "unat (push_bit 24 (ucast (a :: u8)) OR push_bit 16 (ucast (b :: u8)) OR push_bit 8 (ucast (c :: u8)) OR ucast (e :: u8) :: u32) = be_val [a, b, c, e]"
proof -
  note [simp del] = unat_u8_less unat_u8_le
  note bound = unat_u8_less [of a] unat_u8_less [of b] unat_u8_less [of c] unat_u8_less [of e]
  let ?y = "push_bit 8 (ucast c) OR ucast e :: u32"
  have y: "unat ?y = unat c * 2 ^ 8 + unat e" using bound by (subst unat_push_or) simp_all
  let ?z = "push_bit 16 (ucast b) OR ?y"
  have z: "unat ?z = unat b * 2 ^ 16 + (unat c * 2 ^ 8 + unat e)" using bound by (subst unat_push_or) (simp_all add: y)
  have "unat (push_bit 24 (ucast a) OR ?z) = unat a * 2 ^ 24 + (unat b * 2 ^ 16 + (unat c * 2 ^ 8 + unat e))"
    using bound by (subst unat_push_or) (simp_all add: z)
  then show ?thesis by simp
qed

lemma c2l_word: "i + 4 \<le> length d \<Longrightarrow> HOST_c2l True d i = of_nat (be_val (take 4 (drop i d)))"
proof -
  assume l: "i + 4 \<le> length d"
  then have "take 4 (drop i d) = [d ! (i + 0), d ! (i + 1), d ! (i + 2), d ! (i + 3)]"
    using list_4 [of "take 4 (drop i d)"] by simp
  then have "unat (HOST_c2l True d i) = be_val (take 4 (drop i d))"
    unfolding HOST_c2l_def Let_def if_True or_bytes by (rule arg_cong [OF sym])
  then show ?thesis by (metis of_nat_unat ucast_id)
qed

section \<open>What the template computes\<close>

text \<open>Adding \<open>8 * n\<close> to a count kept in two words, with the carry the way the code takes it.\<close>

lemma count_words:
  fixes l h :: "'a :: len word"
  assumes w: "LENGTH('a) = w + 3"
  shows "unat (h + (if l + push_bit 3 (of_nat n) < l then 1 else 0) + of_nat (n div 2 ^ w)) * 2 ^ (w + 3) + unat (l + push_bit 3 (of_nat n)) =
     (unat h * 2 ^ (w + 3) + unat l + 8 * n) mod (2 ^ (w + 3) * 2 ^ (w + 3))"
proof -
  define N :: nat where "N = 2 ^ (w + 3)"
  define M :: nat where "M = 2 ^ w"
  have N: "N = 8 * M" "0 < M" "0 < N" and len: "2 ^ LENGTH('a) = N" by (simp_all add: N_def M_def w power_add)
  define lo where "lo = unat l + 8 * (n mod M)"
  define carry where "carry = (if N \<le> lo then 1 else 0 :: nat)"
  define q where "q = n div M"
  have r: "8 * (n mod M) < N" using mod_less_divisor [OF N(2), of n] N(1) by simp
  have "push_bit 3 (of_nat n) = (of_nat (8 * n) :: 'a word)" by (simp add: push_bit_eq_mult mult.commute)
  then have "unat (push_bit 3 (of_nat n) :: 'a word) = 8 * n mod N" by (simp only: unat_of_nat take_bit_eq_mod len)
  also have "\<dots> = 8 * (n mod M)" using mult_mod_right [of 8 n M] N(1) by simp
  finally have l: "unat (l + push_bit 3 (of_nat n)) = lo mod N" by (simp only: unat_word_ariths len lo_def)
  have small: "lo < 2 * N" using unat_less_pow [of l] r by (simp add: lo_def len)
  have lo: "lo = carry * N + lo mod N" using small by (simp add: carry_def le_mod_geq)
  have c: "l + push_bit 3 (of_nat n) < l \<longleftrightarrow> carry = 1"
  proof -
    have "lo mod N < unat l \<longleftrightarrow> N \<le> lo"
    proof (cases "N \<le> lo")
      case True
      then have "lo mod N = lo - N" using small by (simp add: le_mod_geq)
      with True r show ?thesis by (simp add: lo_def)
    next
      case False
      then show ?thesis by (simp add: lo_def)
    qed
    then show ?thesis unfolding word_less_nat_alt l by (simp add: carry_def)
  qed
  have "h + (if l + push_bit 3 (of_nat n) < l then 1 else 0) + of_nat (n div 2 ^ w) = of_nat (unat h + carry + q)"
    using c by (simp add: carry_def q_def M_def)
  then have h: "unat (h + (if l + push_bit 3 (of_nat n) < l then 1 else 0) + of_nat (n div 2 ^ w)) = (unat h + carry + q) mod N"
    by (simp only: unat_of_nat take_bit_eq_mod len)
  define v where "v = unat h * N + unat l + 8 * n"
  have e: "n = M * q + n mod M" by (simp add: q_def)
  have "8 * n = 8 * (n mod M) + q * N" by (subst (1) e) (simp add: N(1))
  then have "v = unat h * N + lo + q * N" by (simp add: v_def lo_def)
  also have "\<dots> = (unat h + carry + q) * N + lo mod N" using lo by (simp add: algebra_simps)
  finally have "v div N = unat h + carry + q \<and> v mod N = lo mod N"
    by (subst (asm) eq_mult_add_iff) (simp_all only: mod_less_divisor N(3))
  then have v: "v div N = unat h + carry + q" "v mod N = lo mod N" by blast+
  show ?thesis
    unfolding h l N_def [symmetric] using mod_mult_div [of v N N] v by (simp add: v_def)
qed

lemma count_value:
  "unat (Nh (hash_count c len)) * 2 ^ 32 + unat (Nl (hash_count c len)) =
     (unat (Nh c) * 2 ^ 32 + unat (Nl c) + 8 * len) mod 2 ^ 64"
  using count_words [where 'a = 32 and w = 29, of "Nh c" "Nl c" len]
  by (cases "Nl c + push_bit 3 (of_nat len) < Nl c") (simp_all add: hash_count_def Let_def)

lemma count_simps [simp]:
  "ctx_h (hash_count c n) = ctx_h c" "ctx_data (hash_count c n) = ctx_data c" "ctx_num (hash_count c n) = ctx_num c"
  by (simp_all add: hash_count_def Let_def)

text \<open>The fields that a context has beyond the template's.\<close>

lemma update_more [simp]: "md32_ctx.more (HASH_UPDATE blk c d) = md32_ctx.more c"
  by (simp add: HASH_UPDATE_def Let_def hash_count_def)

lemma more_fold [simp]: "md32_ctx.more (fold (\<lambda>d c. HASH_UPDATE blk c d) ds c) = md32_ctx.more c"
  by (induction ds arbitrary: c) simp_all

lemma length_copy: "n + length d \<le> length p \<Longrightarrow> length (copy_to p n d) = length p"
  by (simp add: copy_to_def)

lemma copy_start: "length p = length d \<Longrightarrow> copy_to p 0 d = d"
  by (simp add: copy_to_def)

lemma take_copy: "n \<le> length p \<Longrightarrow> k = n + length d \<Longrightarrow> take k (copy_to p n d) = take n p @ d"
  by (simp add: copy_to_def)

locale md32_function = block_function HASH_CBLOCK blk step for blk :: "u32 list block_fn" and step
begin

text \<open>The context after the pieces of \<open>m\<close>.\<close>

definition absorbed :: "u32 list \<Rightarrow> 'a md32_ctx_scheme \<Rightarrow> bytes \<Rightarrow> bool" where
  "absorbed iv c m \<longleftrightarrow>
     ctx_h c = absorb iv m \<and> ctx_num c = length (rest m) \<and> length (ctx_data c) = HASH_CBLOCK \<and>
     take (ctx_num c) (ctx_data c) = rest m \<and>
     unat (Nh c) * 2 ^ 32 + unat (Nl c) = 8 * length m mod 2 ^ 64"

lemma absorbed_start:
  "ctx_h c = iv \<Longrightarrow> ctx_num c = 0 \<Longrightarrow> length (ctx_data c) = HASH_CBLOCK \<Longrightarrow> Nl c = 0 \<Longrightarrow> Nh c = 0 \<Longrightarrow> absorbed iv c []"
  by (simp add: absorbed_def absorb_def rest_def blk_0)

lemma absorbed_count:
  assumes "absorbed iv c m"
  shows "unat (Nh (hash_count c n)) * 2 ^ 32 + unat (Nl (hash_count c n)) = 8 * (length m + n) mod 2 ^ 64"
  unfolding count_value using assms by (simp add: absorbed_def mod_simps distrib_left)

lemma absorbed_update:
  assumes c: "absorbed iv c m"
  shows "absorbed iv (HASH_UPDATE blk c d) (m @ d)"
proof (cases "d = []")
  case True
  with c show ?thesis by (simp add: HASH_UPDATE_def)
next
  case d: False
  define n where "n = ctx_num c"
  have n: "n = length (rest m)" "n < HASH_CBLOCK" "length (ctx_data c) = HASH_CBLOCK" "take n (ctx_data c) = rest m"
    "ctx_h c = absorb iv m"
    using c rest_less [of m] by (auto simp: absorbed_def n_def)
  note count = absorbed_count [OF c, of "length d"]
  show ?thesis
  proof (cases "n \<noteq> 0 \<and> \<not> (length d \<ge> HASH_CBLOCK \<or> size_add (length d) n \<ge> HASH_CBLOCK)")
    case True
    then have s: "length d + n < HASH_CBLOCK"
      using size_add_exact [of "length d" n] n(2) by (auto simp: not_le HASH_CBLOCK_def)
    then have short: "absorb iv (m @ d) = absorb iv m" "rest (m @ d) = rest m @ d"
      using absorb_rest [of iv m d] rest_rest [of m d] n(1) by (simp_all add: absorb_short rest_short)
    have "HASH_UPDATE blk c d = (hash_count c (length d))\<lparr>ctx_data := copy_to (ctx_data c) n d, ctx_num := n + length d\<rparr>"
      using True d by (simp add: HASH_UPDATE_def Let_def n_def)
    then show ?thesis
      using n s count by (simp add: absorbed_def short length_copy take_copy)
  next
    case False
    define d1 where "d1 = (if n \<noteq> 0 then drop (HASH_CBLOCK - n) d else d)"
    define h1 where "h1 = (if n \<noteq> 0 then blk (absorb iv m) (rest m @ take (HASH_CBLOCK - n) d) 1 else absorb iv m)"
    have fill: "n = 0 \<or> HASH_CBLOCK \<le> n + length d"
      using False size_add_exact [of "length d" n] n(2) by (auto simp: not_le HASH_CBLOCK_def)
    have split: "absorb iv (m @ d) = absorb h1 d1" "rest (m @ d) = rest d1"
    proof -
      have "absorb (absorb iv m) (rest m @ d) = absorb h1 d1 \<and> rest (rest m @ d) = rest d1"
      proof (cases "n = 0")
        case True
        with n(1) show ?thesis by (simp add: h1_def d1_def)
      next
        case False
        with fill have l: "length (rest m @ take (HASH_CBLOCK - n) d) = HASH_CBLOCK * 1" using n(1,2) by simp
        from absorb_split(1) [OF l, of "absorb iv m" d1] absorb_split(2) [OF l, of d1] False show ?thesis by (simp add: h1_def d1_def)
      qed
      then show "absorb iv (m @ d) = absorb h1 d1" "rest (m @ d) = rest d1"
        using absorb_rest [of iv m d] rest_rest [of m d] by simp_all
    qed
    define c1 where "c1 = (if n \<noteq> 0 then (hash_count c (length d))\<lparr>ctx_h := h1, ctx_num := 0, ctx_data := replicate HASH_CBLOCK 0\<rparr>
      else hash_count c (length d))"
    have first: "copy_to (ctx_data c) n (take (HASH_CBLOCK - n) d) = rest m @ take (HASH_CBLOCK - n) d" if "n \<noteq> 0"
      using fill that n by (simp add: copy_to_def)
    have c1: "ctx_h c1 = h1" "ctx_num c1 = 0" "length (ctx_data c1) = HASH_CBLOCK"
      "unat (Nh c1) * 2 ^ 32 + unat (Nl c1) = 8 * (length m + length d) mod 2 ^ 64"
      using n count by (auto simp: c1_def h1_def n_def)
    define k where "k = length d1 div HASH_CBLOCK"
    have r: "rest d1 = drop (k * HASH_CBLOCK) d1" "absorb h1 d1 = blk h1 d1 k"
      by (simp_all add: rest_def absorb_def k_def mult.commute)
    let ?fin = "\<lambda>c. if length (rest d1) \<noteq> 0 then c\<lparr>ctx_num := length (rest d1), ctx_data := copy_to (ctx_data c) 0 (rest d1)\<rparr> else c"
    have "HASH_UPDATE blk c d = ?fin (if k > 0 then c1\<lparr>ctx_h := blk h1 d1 k\<rparr> else c1)"
    proof (cases "n = 0")
      case True
      then have e: "ctx_num c = 0" "c1 = hash_count c (length d)" "d1 = d" "h1 = absorb iv m"
        by (simp_all add: c1_def d1_def h1_def n_def)
      show ?thesis using d n(5) e k_def r(1) by (cases "k = 0") (simp_all add: HASH_UPDATE_def Let_def)
    next
      case False
      note nz = this
      have e: "ctx_num c \<noteq> 0" "c1 = (hash_count c (length d))\<lparr>ctx_h := h1, ctx_num := 0, ctx_data := replicate HASH_CBLOCK 0\<rparr>"
        "d1 = drop (HASH_CBLOCK - ctx_num c) d" "h1 = blk (absorb iv m) (copy_to (ctx_data c) (ctx_num c) (take (HASH_CBLOCK - ctx_num c) d)) 1"
        using nz first by (simp_all add: c1_def d1_def h1_def n_def)
      have g: "\<not> (ctx_num c \<noteq> 0 \<and> \<not> (length d \<ge> HASH_CBLOCK \<or> size_add (length d) (ctx_num c) \<ge> HASH_CBLOCK))"
        using \<open>\<not> (n \<noteq> 0 \<and> \<not> (length d \<ge> HASH_CBLOCK \<or> size_add (length d) n \<ge> HASH_CBLOCK))\<close> by (simp add: n_def)
      have u: "HASH_UPDATE blk c d = ?fin (if k > 0 then c1\<lparr>ctx_h := blk (ctx_h c1) d1 k\<rparr> else c1)"
        if "k = 0"
        using d e(1) that unfolding HASH_UPDATE_def Let_def count_simps if_not_P [OF g] n(5) e(3) [symmetric]
        by (simp add: k_def r(1) e(2) e(4) flip: e(3))
      have u': "HASH_UPDATE blk c d = ?fin (if k > 0 then c1\<lparr>ctx_h := blk (ctx_h c1) d1 k\<rparr> else c1)"
        if "k \<noteq> 0"
        using d e(1) that unfolding HASH_UPDATE_def Let_def count_simps if_not_P [OF g] n(5) e(3) [symmetric]
        by (simp add: k_def r(1) e(2) e(4) flip: e(3))
      have "ctx_h c1 = h1" by (simp add: e(2))
      with u u' show ?thesis by metis
    qed
    then show ?thesis
      using c1 rest_less [of d1] split r(2) blk_0 [of h1 d1]
      by (auto simp: absorbed_def Let_def length_copy take_copy)
  qed
qed

lemma absorbed_fold: "absorbed iv c m \<Longrightarrow> absorbed iv (fold (\<lambda>d c. HASH_UPDATE blk c d) ds c) (m @ concat ds)"
  by (induction ds arbitrary: c m) (simp, metis absorbed_update append.assoc concat.simps(2) fold_simps(2))

lemma absorb_block: "length x = HASH_CBLOCK \<Longrightarrow> absorb s x = blk s x 1"
  using block_pos by (simp add: absorb_def)

lemma count_bytes:
  assumes "absorbed iv c m"
  shows "(if big then HOST_l2c big (Nh c) @ HOST_l2c big (Nl c) else HOST_l2c big (Nl c) @ HOST_l2c big (Nh c)) =
    length_bytes big (8 * length m)"
proof -
  have "unat (Nl c) mod 256 ^ 4 = unat (Nl c)" using unat_less_pow [of "Nl c"] by simp
  then have "unat (Nh c) * 256 ^ 4 + unat (Nl c) mod 256 ^ 4 = 8 * length m mod 256 ^ 8"
    using assms by (simp add: absorbed_def)
  then have "be_bytes 4 (unat (Nh c)) @ be_bytes 4 (unat (Nl c)) = be_bytes 8 (8 * length m)"
    using be_bytes_append [of 4 "unat (Nh c)" 4 "unat (Nl c)"] be_bytes_mod [of 8 "8 * length m"] by simp
  then show ?thesis by (simp add: l2c_bytes length_bytes_def le_bytes_def flip: rev_append)
qed

lemma absorbed_final:
  fixes big
  assumes c: "absorbed iv c m"
  defines "c' \<equiv> c\<lparr>ctx_h := absorb iv (hash_pad HASH_CBLOCK 8 (length_bytes big) m), ctx_num := 0, ctx_data := replicate HASH_CBLOCK 0\<rparr>"
  shows "HASH_FINAL big blk out c = (out c', c')"
proof -
  define n where "n = ctx_num c"
  define lb where "lb = length_bytes big (8 * length m)"
  have n: "n = length (rest m)" "n < 64" "length (ctx_data c) = 64" "take n (ctx_data c) = rest m"
    "ctx_h c = absorb iv m" "n = length m mod 64"
    using c rest_less [of m] length_rest [of m] by (auto simp: absorbed_def n_def HASH_CBLOCK_def)
  have lb8: "length lb = 8" by (simp add: lb_def length_bytes_def)
  define z where "z = (64 - (9 + length m) mod 64) mod 64"
  define tl where "tl = 0x80 # replicate z 0 @ lb"
  have nz: "z = (64 - (9 + n) mod 64) mod 64" unfolding z_def n(6) by (simp add: mod_simps)
  have h: "absorb iv (hash_pad HASH_CBLOCK 8 (length_bytes big) m) = absorb (ctx_h c) (rest m @ tl)"
    using absorb_rest [of iv m tl] n(5) by (simp add: hash_pad_def HASH_CBLOCK_def tl_def z_def lb_def)
  have first: "(ctx_data c)[n := 0x80] = rest m @ 0x80 # drop (Suc n) (ctx_data c)"
    using n(2-4) by (simp add: upd_conv_take_nth_drop)
  define d1 where "d1 = rest m @ 0x80 # replicate (63 - n) 0"
  have d1: "length d1 = 64" "copy_to ((ctx_data c)[n := 0x80]) (n + 1) (replicate (64 - (n + 1)) 0) = d1"
    using n(1-3) unfolding first by (simp_all add: d1_def copy_to_def)
  note F = HASH_FINAL_def Let_def HASH_CBLOCK_def n_def [symmetric]
  have cb: "(if big then HOST_l2c big (Nh c0) @ HOST_l2c big (Nl c0) else HOST_l2c big (Nl c0) @ HOST_l2c big (Nh c0)) = lb"
    if "Nh c0 = Nh c" "Nl c0 = Nl c" for c0
    unfolding that lb_def by (rule count_bytes [OF c])
  show ?thesis
  proof (cases "n + 1 > 56")
    case True
    then have "(9 + n) mod 64 = n - 55" using n(2) by (simp add: le_mod_geq)
    then have z: "z = (63 - n) + 56" using True n(2) unfolding nz by simp
    have e: "rest m @ tl = d1 @ replicate 56 0 @ lb" by (simp add: tl_def d1_def z replicate_add)
    have "absorb (ctx_h c) (rest m @ tl) = blk (blk (ctx_h c) d1 1) (replicate 56 0 @ lb) 1"
      using absorb_split(1) [of d1 1 "ctx_h c"] d1(1) lb8 absorb_block [of "replicate 56 0 @ lb"]
      unfolding e by (simp add: HASH_CBLOCK_def)
    moreover have "copy_to (copy_to d1 0 (replicate 56 0)) 56 lb = replicate 56 0 @ lb"
      using d1(1) lb8 by (simp add: copy_to_def)
    ultimately show ?thesis
      using True d1(2) unfolding F c'_def h [unfolded HASH_CBLOCK_def] by (simp add: cb del: One_nat_def)
  next
    case False
    then have z: "z = 55 - n" unfolding nz by (cases "n = 55") simp_all
    have "absorb (ctx_h c) (rest m @ tl) = blk (ctx_h c) (rest m @ 0x80 # replicate (55 - n) 0 @ lb) 1"
      using absorb_block [of "rest m @ tl"] n(1) lb8 False by (simp add: HASH_CBLOCK_def tl_def z)
    moreover have "copy_to (copy_to ((ctx_data c)[n := 0x80]) (n + 1) (replicate (56 - (n + 1)) 0)) 56 lb =
        rest m @ 0x80 # replicate (55 - n) 0 @ lb"
      using n(1-3) lb8 False Suc_diff_le [of n 55] unfolding first by (simp add: copy_to_def)
    ultimately show ?thesis
      using False unfolding F c'_def h [unfolded HASH_CBLOCK_def] by (simp add: cb del: One_nat_def)
  qed
qed

end

end
