(* ===== verification/Sha2.thy ===== *)
theory Sha2
  imports Md32
begin

text \<open>
  The rounds that SHA-256 and SHA-512 share, over the width of the words: the hash computation of
  FIPS 180-4 (the message schedule, the round on the working variables, the compression), and the
  correspondence between that round and the way the C code writes it, with the eight variables
  renamed from round to round instead of moved, and a ring of sixteen schedule words.
\<close>

unbundle bit_operations_syntax

section \<open>FIPS 180-4\<close>

definition Ch :: "'a :: len word \<Rightarrow> 'a word \<Rightarrow> 'a word \<Rightarrow> 'a word" where
  "Ch x y z = (x AND y) XOR ((NOT x) AND z)"

definition Maj :: "'a :: len word \<Rightarrow> 'a word \<Rightarrow> 'a word \<Rightarrow> 'a word" where
  "Maj x y z = (x AND y) XOR (x AND z) XOR (y AND z)"

text \<open>A schedule: the sixteen words of the block, and \<open>n\<close> more, each made of the ones before it.\<close>

fun grow :: "('a list \<Rightarrow> nat \<Rightarrow> 'a) \<Rightarrow> 'a list \<Rightarrow> nat \<Rightarrow> 'a list" where
  "grow g M 0 = M"
| "grow g M (Suc n) = (let W = grow g M n in W @ [g W n])"

definition schedule :: "('a :: len word \<Rightarrow> 'a word) \<Rightarrow> ('a word \<Rightarrow> 'a word) \<Rightarrow> 'a word list \<Rightarrow> nat \<Rightarrow> 'a word list" where
  "schedule s0 s1 = grow (\<lambda>W n. s1 (W ! (n + 14)) + W ! (n + 9) + s0 (W ! (n + 1)) + W ! n)"

text \<open>The working variables are the list \<open>[a, b, c, d, e, f, g, h]\<close>.\<close>

definition fips_round ::
  "('a :: len word \<Rightarrow> 'a word) \<Rightarrow> ('a word \<Rightarrow> 'a word) \<Rightarrow> 'a word \<Rightarrow> 'a word \<Rightarrow> 'a word list \<Rightarrow> 'a word list" where
  "fips_round S0 S1 k w v =
     (let T1 = v ! 7 + S1 (v ! 4) + Ch (v ! 4) (v ! 5) (v ! 6) + k + w;
          T2 = S0 (v ! 0) + Maj (v ! 0) (v ! 1) (v ! 2)
      in [T1 + T2, v ! 0, v ! 1, v ! 2, v ! 3 + T1, v ! 4, v ! 5, v ! 6])"

definition fips_rounds where
  "fips_rounds S0 S1 K W n v = fold (\<lambda>t. fips_round S0 S1 (K ! t) (W ! t)) [0..<n] v"

definition fips_compress where
  "fips_compress S0 S1 s0 s1 K H M =
     map2 (+) H (fips_rounds S0 S1 K (schedule s0 s1 M (length K - 16)) (length K) H)"

text \<open>The sixteen words of a block, of \<open>b\<close> bytes each.\<close>

definition be_words :: "nat \<Rightarrow> bytes \<Rightarrow> 'a :: len word list" where
  "be_words b d = map (\<lambda>i. of_nat (be_val (take b (drop (b * i) d)))) [0..<16]"

lemma length_be_words [simp]: "length (be_words b d) = 16"
  by (simp add: be_words_def)

lemma be_words_nth: "i < 16 \<Longrightarrow> be_words b d ! i = of_nat (be_val (take b (drop (b * i) d)))"
  by (simp add: be_words_def)

lemma length_fips_rounds: "length v = 8 \<Longrightarrow> length (fips_rounds S0 S1 K W n v) = 8"
  by (induction n) (simp_all add: fips_rounds_def fips_round_def Let_def)

lemma length_fips_compress: "length H = 8 \<Longrightarrow> length (fips_compress S0 S1 s0 s1 K H M) = 8"
  by (simp add: fips_compress_def length_fips_rounds)

lemma rotate_word: "0 < n \<Longrightarrow> n \<le> LENGTH('a) \<Longrightarrow> push_bit n x OR drop_bit (LENGTH('a) - n) x = word_rotr (LENGTH('a) - n) (x :: 'a :: len word)"
proof (rule bit_word_eqI)
  fix i
  assume n: "0 < n" "n \<le> LENGTH('a)" and i: "i < LENGTH('a)"
  show "bit (push_bit n x OR drop_bit (LENGTH('a) - n) x) i \<longleftrightarrow> bit (word_rotr (LENGTH('a) - n) x) i"
  proof (cases "n \<le> i")
    case True
    then have "(i + (LENGTH('a) - n)) mod LENGTH('a) = i - n" using n i by (simp add: le_mod_geq)
    moreover have "\<not> bit x (LENGTH('a) - n + i)" using True n bit_imp_le_length [of x "LENGTH('a) - n + i"] by linarith
    ultimately show ?thesis using True i by (simp add: bit_simps)
  next
    case False
    then have "(i + (LENGTH('a) - n)) mod LENGTH('a) = LENGTH('a) - n + i" using n i by simp
    then show ?thesis using False i by (simp add: bit_simps add.commute)
  qed
qed

section \<open>The variables of a round\<close>

text \<open>The C code passes its variables \<open>a, b, c, d, e, f, g, h\<close> in the order \<open>h, a, b, ...\<close> in the
  second round, \<open>g, h, a, ...\<close> in the third, and so on: \<open>reg8 i j\<close> is the variable that round
  \<open>i\<close> has as its \<open>j\<close>-th argument.\<close>

definition reg8 :: "nat \<Rightarrow> nat \<Rightarrow> nat" where
  "reg8 i j = (j + (8 - i mod 8)) mod 8"

definition view8 :: "nat \<Rightarrow> 'a list \<Rightarrow> 'a list" where
  "view8 i v = map (\<lambda>j. v ! reg8 i j) [0..<8]"

definition sha2_step where
  "sha2_step S0 S1 k i T1 v =
     (let a = v ! reg8 i 0; b = v ! reg8 i 1; c = v ! reg8 i 2; d = v ! reg8 i 3;
          e = v ! reg8 i 4; f = v ! reg8 i 5; g = v ! reg8 i 6; h = v ! reg8 i 7;
          T1 = T1 + (h + S1 e + Ch e f g + k)
      in v[reg8 i 3 := d + T1, reg8 i 7 := S0 a + Maj a b c + T1])"

lemma length_sha2_step [simp]: "length (sha2_step S0 S1 k i T1 v) = length v"
  by (simp add: sha2_step_def Let_def)

lemma upt_8: "[0..<8] = [0, 1, 2, 3, 4, 5, 6, 7 :: nat]"
  by code_simp

lemma list_8: "length v = 8 \<Longrightarrow> v = [v ! 0, v ! 1, v ! 2, v ! 3, v ! 4, v ! 5, v ! 6, v ! 7]"
  using map_nth [of v] by (simp add: upt_8)

lemma view8_0: "length v = 8 \<Longrightarrow> i mod 8 = 0 \<Longrightarrow> view8 i v = v"
  using list_8 [of v] by (simp add: view8_def reg8_def upt_8)

lemma view8_step:
  assumes "length v = 8"
  shows "view8 (Suc i) (sha2_step S0 S1 k i w v) = fips_round S0 S1 k w (view8 i v)"
proof -
  obtain a b c d e f g h where v: "v = [a, b, c, d, e, f, g, h]" using list_8 [OF assms] by blast
  have "i mod 8 < 8" by simp
  then have m: "i mod 8 \<in> {0, 1, 2, 3, 4, 5, 6, 7}" by auto
  have s: "Suc i mod 8 = (if i mod 8 = 7 then 0 else Suc (i mod 8))" by (simp add: mod_Suc)
  from m show ?thesis
    by (auto simp: v view8_def upt_8 reg8_def s sha2_step_def fips_round_def Let_def ac_simps)
qed

section \<open>The ring of schedule words\<close>

lemma length_grow [simp]: "length (grow g M n) = length M + n"
  by (induction n) (simp_all add: Let_def)

lemma length_schedule [simp]: "length (schedule s0 s1 M n) = length M + n"
  by (simp add: schedule_def)

lemma grow_less: "i < length M + n \<Longrightarrow> n \<le> m \<Longrightarrow> grow g M m ! i = grow g M n ! i"
proof (induction m)
  case (Suc m)
  then show ?case by (cases "n = Suc m") (auto simp: Let_def nth_append)
qed simp

lemma grow_first: "length M = 16 \<Longrightarrow> i < 16 \<Longrightarrow> grow g M n ! i = M ! i"
  using grow_less [of i M 0 n] by simp

lemma schedule_first: "length M = 16 \<Longrightarrow> i < 16 \<Longrightarrow> schedule s0 s1 M n ! i = M ! i"
  by (simp add: schedule_def grow_first)

lemma grow_rec:
  assumes "length M = 16" and "k < n"
    and "\<And>W. (\<And>i. i < 16 + k \<Longrightarrow> W ! i = grow g M k ! i) \<Longrightarrow> g W k = g (grow g M k) k"
  shows "grow g M n ! (16 + k) = g (grow g M n) k"
proof -
  have w: "grow g M n ! i = grow g M k ! i" if "i < 16 + k" for i
    by (rule grow_less) (use that assms in simp_all)
  have "grow g M n ! (16 + k) = grow g M (Suc k) ! (16 + k)"
    by (rule grow_less) (use assms in simp_all)
  also have "\<dots> = g (grow g M k) k" using assms(1) by (simp add: Let_def nth_append)
  finally show ?thesis using assms(3) [of "grow g M n"] w by simp
qed

lemma schedule_rec:
  fixes s0 s1
  assumes "length M = 16" and "16 \<le> t" and "t < 16 + n"
  defines "W \<equiv> schedule s0 s1 M n"
  shows "W ! t = s1 (W ! (t - 2)) + W ! (t - 7) + s0 (W ! (t - 15)) + W ! (t - 16)"
proof -
  obtain k where k: "t = 16 + k" using assms(2) le_Suc_ex by blast
  have "W ! (16 + k) = s1 (W ! (k + 14)) + W ! (k + 9) + s0 (W ! (k + 1)) + W ! k"
    unfolding W_def schedule_def by (rule grow_rec) (use assms k in simp_all)
  then show ?thesis by (simp add: k numeral_eq_Suc)
qed

definition ring :: "'a list \<Rightarrow> nat \<Rightarrow> 'a list \<Rightarrow> bool" where
  "ring X i W \<longleftrightarrow> length X = 16 \<and> (\<forall>j < 16. X ! ((i + j) mod 16) = W ! (i - 16 + j))"

lemma ring_start: "length W = 16 + n \<Longrightarrow> length X = 16 \<Longrightarrow> (\<And>j. j < 16 \<Longrightarrow> X ! j = W ! j) \<Longrightarrow> ring X 16 W"
  by (simp add: ring_def)

lemma ring_nth: "ring X i W \<Longrightarrow> 16 \<le> i \<Longrightarrow> j < 16 \<Longrightarrow> X ! ((i + j) mod 16) = W ! (i + j - 16)"
  by (simp add: ring_def)

lemma ring_distinct: "0 < k \<Longrightarrow> k < 16 \<Longrightarrow> (i + k) mod 16 \<noteq> i mod (16 :: nat)"
proof -
  assume k: "0 < k" "k < 16"
  have "(i + k) mod 16 = (i mod 16 + k) mod 16" by (simp add: mod_simps)
  moreover have "(i mod 16 + k) mod 16 \<noteq> i mod 16"
    using k mod_less_divisor [of 16 i] by (cases "i mod 16 + k < 16") (auto simp: le_mod_geq not_less)
  ultimately show ?thesis by simp
qed

lemma ring_next:
  assumes "ring X i W" and "16 \<le> i"
  shows "ring (X[i mod 16 := W ! i]) (Suc i) W"
proof -
  have l: "length X = 16" using assms by (simp add: ring_def)
  have "X[i mod 16 := W ! i] ! ((Suc i + j) mod 16) = W ! (Suc i - 16 + j)" if j: "j < 16" for j
  proof (cases "j = 15")
    case True
    then show ?thesis using l assms(2) by simp
  next
    case False
    then have "(i + Suc j) mod 16 \<noteq> i mod 16"
      using j by (intro ring_distinct) simp_all
    then show ?thesis using ring_nth [OF assms, of "Suc j"] j False assms(2) by (simp add: Suc_diff_le)
  qed
  then show ?thesis using l by (simp add: ring_def)
qed

lemma ring_word:
  assumes "ring X i (schedule s0 s1 M n)" and "length M = 16" and "16 \<le> i" and "i < 16 + n"
  shows "X ! (i mod 16) + (s0 (X ! ((i + 1) mod 16)) + s1 (X ! ((i + 14) mod 16)) + X ! ((i + 9) mod 16)) = schedule s0 s1 M n ! i"
  using ring_nth [OF assms(1,3), of 0] ring_nth [OF assms(1,3), of 1] ring_nth [OF assms(1,3), of 9]
    ring_nth [OF assms(1,3), of 14] schedule_rec [OF assms(2-4), of s0 s1] assms(3)
  by (simp add: ac_simps numeral_2_eq_2)

section \<open>All rounds of a block\<close>

definition sha2_load where
  "sha2_load S0 S1 K M i = (\<lambda>(X, v). (X[i := M ! i], sha2_step S0 S1 (K ! i) i (M ! i) v))"

definition sha2_expand where
  "sha2_expand S0 S1 s0 s1 K i =
     (\<lambda>(X, v). let T = X ! (i mod 16) + (s0 (X ! ((i + 1) mod 16)) + s1 (X ! ((i + 14) mod 16)) + X ! ((i + 9) mod 16))
       in (X[i mod 16 := T], sha2_step S0 S1 (K ! i) i T v))"

lemma fips_rounds_Suc: "fips_rounds S0 S1 K W (Suc n) v = fips_round S0 S1 (K ! n) (W ! n) (fips_rounds S0 S1 K W n v)"
  by (simp add: fips_rounds_def)

lemma load_rounds:
  fixes S0 S1 K s0 s1
  assumes "length v = 8" and "length X = 16" and "length M = 16" and "n \<le> 16"
  defines "r \<equiv> fold (sha2_load S0 S1 K M) [0..<n] (X, v)"
  shows "length (fst r) = 16 \<and> (\<forall>j < n. fst r ! j = M ! j) \<and> length (snd r) = 8 \<and>
    view8 n (snd r) = fips_rounds S0 S1 K (schedule s0 s1 M N) n v"
  using assms(4) unfolding r_def
proof (induction n)
  case 0
  then show ?case using assms(1-3) by (simp add: view8_0 fips_rounds_def)
next
  case (Suc n)
  obtain X' v' where r: "fold (sha2_load S0 S1 K M) [0..<n] (X, v) = (X', v')" by fastforce
  with Suc have "length X' = 16" "\<forall>j < n. X' ! j = M ! j" "length v' = 8"
    "view8 n v' = fips_rounds S0 S1 K (schedule s0 s1 M N) n v" by simp_all
  moreover have "fold (sha2_load S0 S1 K M) [0..<Suc n] (X, v) = (X'[n := M ! n], sha2_step S0 S1 (K ! n) n (M ! n) v')"
    using r by (simp add: sha2_load_def)
  ultimately show ?case
    using Suc.prems assms(3) schedule_first [of M n s0 s1 N]
    by (simp add: view8_step fips_rounds_Suc nth_list_update less_Suc_eq)
qed

lemma expand_rounds:
  fixes S0 S1 K s0 s1
  assumes "ring X 16 W" and "length v = 8" and "length M = 16" and "W = schedule s0 s1 M N"
    and "view8 16 v = fips_rounds S0 S1 K W 16 v0" and "n \<le> N"
  defines "r \<equiv> fold (sha2_expand S0 S1 s0 s1 K) [16..<16 + n] (X, v)"
  shows "ring (fst r) (16 + n) W \<and> length (snd r) = 8 \<and> view8 (16 + n) (snd r) = fips_rounds S0 S1 K W (16 + n) v0"
  using assms(6) unfolding r_def
proof (induction n)
  case 0
  then show ?case using assms(1-5) by simp
next
  case (Suc n)
  obtain X' v' where r: "fold (sha2_expand S0 S1 s0 s1 K) [16..<16 + n] (X, v) = (X', v')" by fastforce
  with Suc have h: "ring X' (16 + n) W" "length v' = 8" "view8 (16 + n) v' = fips_rounds S0 S1 K W (16 + n) v0" by simp_all
  have t: "X' ! ((16 + n) mod 16) + (s0 (X' ! ((16 + n + 1) mod 16)) + s1 (X' ! ((16 + n + 14) mod 16)) + X' ! ((16 + n + 9) mod 16)) = W ! (16 + n)"
    using ring_word [OF h(1) [unfolded assms(4)] assms(3)] Suc.prems unfolding assms(4) by simp
  have "fold (sha2_expand S0 S1 s0 s1 K) [16..<16 + Suc n] (X, v) =
      (X'[(16 + n) mod 16 := W ! (16 + n)], sha2_step S0 S1 (K ! (16 + n)) (16 + n) (W ! (16 + n)) v')"
  proof -
    have "[16..<16 + Suc n] = [16..<16 + n] @ [16 + n]" by (simp only: add_Suc_right upt_Suc_append le_add1)
    then have "fold (sha2_expand S0 S1 s0 s1 K) [16..<16 + Suc n] (X, v) = sha2_expand S0 S1 s0 s1 K (16 + n) (X', v')"
      using r by (simp only: fold_append comp_apply fold.simps id_apply)
    then show ?thesis by (simp only: sha2_expand_def split_conv t Let_def)
  qed
  moreover have "ring (X'[(16 + n) mod 16 := W ! (16 + n)]) (16 + Suc n) W"
    using ring_next [OF h(1)] by simp
  moreover have "view8 (16 + Suc n) (sha2_step S0 S1 (K ! (16 + n)) (16 + n) (W ! (16 + n)) v') = fips_rounds S0 S1 K W (16 + Suc n) v0"
    unfolding add_Suc_right view8_step [OF h(2)] fips_rounds_Suc h(3) by (rule refl)
  ultimately show ?case using h(2) by (simp only: fst_conv snd_conv length_sha2_step)
qed

theorem sha2_rounds:
  assumes "length v = 8" and "length X = 16" and "length M = 16" and "(16 + n) mod 8 = 0"
  shows "snd (fold (sha2_expand S0 S1 s0 s1 K) [16..<16 + n] (fold (sha2_load S0 S1 K M) [0..<16] (X, v))) =
    fips_rounds S0 S1 K (schedule s0 s1 M n) (16 + n) v"
proof -
  let ?W = "schedule s0 s1 M n"
  obtain X' v' where r: "fold (sha2_load S0 S1 K M) [0..<16] (X, v) = (X', v')" by fastforce
  from load_rounds [OF assms(1-3), of 16 S0 S1 K s0 s1 n] have l: "length X' = 16" "\<forall>j < 16. X' ! j = M ! j" "length v' = 8"
    "view8 16 v' = fips_rounds S0 S1 K ?W 16 v" unfolding r by simp_all
  have "ring X' 16 ?W"
    using l assms(3) schedule_first [OF assms(3), of _ s0 s1 n] by (intro ring_start [of _ n]) simp_all
  note e = expand_rounds [OF this l(3) assms(3) refl l(4) order_refl]
  show ?thesis
    unfolding r using view8_0 [OF conjunct1 [OF conjunct2 [OF e]] assms(4)] conjunct2 [OF conjunct2 [OF e]] by (rule trans [OF sym])
qed

end
