(* ===== verification/Md5.thy ===== *)
theory Md5
  imports Sha2
begin

text \<open>
  MD4 and MD5, \<open>fipsmodule/md4/md4.c\<close> and \<open>fipsmodule/md5/md5.c\<close>: the macros and the arguments of
  the unrolled rounds, the block functions (the portable ones), and the functions the template
  \<open>md32_common.h\<close> makes of them, in little-endian order; then the hashes of RFC 1320 and RFC 1321
  and the proof that the code computes them, in whatever pieces the message arrives.
\<close>

unbundle bit_operations_syntax

section \<open>The code\<close>

definition MD5_DIGEST_LENGTH :: nat where "MD5_DIGEST_LENGTH = 16"
definition MD4_DIGEST_LENGTH :: nat where "MD4_DIGEST_LENGTH = 16"

definition MD5_Init :: md32_ctx where
  "MD5_Init =
     \<lparr>ctx_h = [0x67452301, 0xefcdab89, 0x98badcfe, 0x10325476],
      Nl = 0, Nh = 0, ctx_data = replicate HASH_CBLOCK 0, ctx_num = 0\<rparr>"

definition MD4_Init :: md32_ctx where
  "MD4_Init =
     \<lparr>ctx_h = [0x67452301, 0xefcdab89, 0x98badcfe, 0x10325476],
      Nl = 0, Nh = 0, ctx_data = replicate HASH_CBLOCK 0, ctx_num = 0\<rparr>"

definition md5_ROTATE :: "u32 \<Rightarrow> nat \<Rightarrow> u32" where
  "md5_ROTATE a n = push_bit n a OR drop_bit (32 - n) a"

definition md5_F :: "u32 \<Rightarrow> u32 \<Rightarrow> u32 \<Rightarrow> u32" where "md5_F b c d = ((c XOR d) AND b) XOR d"
definition md5_G :: "u32 \<Rightarrow> u32 \<Rightarrow> u32 \<Rightarrow> u32" where "md5_G b c d = ((b XOR c) AND d) XOR c"
definition md5_H :: "u32 \<Rightarrow> u32 \<Rightarrow> u32 \<Rightarrow> u32" where "md5_H b c d = b XOR c XOR d"
definition md5_I :: "u32 \<Rightarrow> u32 \<Rightarrow> u32 \<Rightarrow> u32" where "md5_I b c d = ((NOT d) OR b) XOR c"

definition md4_F :: "u32 \<Rightarrow> u32 \<Rightarrow> u32 \<Rightarrow> u32" where "md4_F b c d = ((c XOR d) AND b) XOR d"
definition md4_G :: "u32 \<Rightarrow> u32 \<Rightarrow> u32 \<Rightarrow> u32" where "md4_G b c d = (b AND c) OR (b AND d) OR (c AND d)"
definition md4_H :: "u32 \<Rightarrow> u32 \<Rightarrow> u32 \<Rightarrow> u32" where "md4_H b c d = b XOR c XOR d"

text \<open>
  The variables \<open>A, B, C, D\<close> are the list \<open>v\<close>; every round passes them shifted by one place:
  \<open>reg4 i j\<close> is the one that round \<open>i\<close> has as its \<open>j\<close>-th argument of \<open>a, b, c, d\<close>. The other
  arguments of the rounds are the tables below: which of \<open>XX0\<close> to \<open>XX15\<close>, the shift, the constant.
\<close>

definition reg4 :: "nat \<Rightarrow> nat \<Rightarrow> nat" where
  "reg4 i j = (j + (4 - i mod 4)) mod 4"

definition md5_calls :: "(nat \<times> nat \<times> u32) list" where
  "md5_calls = [
    (0, 7, 0xd76aa478), (1, 12, 0xe8c7b756), (2, 17, 0x242070db), (3, 22, 0xc1bdceee),
    (4, 7, 0xf57c0faf), (5, 12, 0x4787c62a), (6, 17, 0xa8304613), (7, 22, 0xfd469501),
    (8, 7, 0x698098d8), (9, 12, 0x8b44f7af), (10, 17, 0xffff5bb1), (11, 22, 0x895cd7be),
    (12, 7, 0x6b901122), (13, 12, 0xfd987193), (14, 17, 0xa679438e), (15, 22, 0x49b40821),
    (1, 5, 0xf61e2562), (6, 9, 0xc040b340), (11, 14, 0x265e5a51), (0, 20, 0xe9b6c7aa),
    (5, 5, 0xd62f105d), (10, 9, 0x02441453), (15, 14, 0xd8a1e681), (4, 20, 0xe7d3fbc8),
    (9, 5, 0x21e1cde6), (14, 9, 0xc33707d6), (3, 14, 0xf4d50d87), (8, 20, 0x455a14ed),
    (13, 5, 0xa9e3e905), (2, 9, 0xfcefa3f8), (7, 14, 0x676f02d9), (12, 20, 0x8d2a4c8a),
    (5, 4, 0xfffa3942), (8, 11, 0x8771f681), (11, 16, 0x6d9d6122), (14, 23, 0xfde5380c),
    (1, 4, 0xa4beea44), (4, 11, 0x4bdecfa9), (7, 16, 0xf6bb4b60), (10, 23, 0xbebfbc70),
    (13, 4, 0x289b7ec6), (0, 11, 0xeaa127fa), (3, 16, 0xd4ef3085), (6, 23, 0x04881d05),
    (9, 4, 0xd9d4d039), (12, 11, 0xe6db99e5), (15, 16, 0x1fa27cf8), (2, 23, 0xc4ac5665),
    (0, 6, 0xf4292244), (7, 10, 0x432aff97), (14, 15, 0xab9423a7), (5, 21, 0xfc93a039),
    (12, 6, 0x655b59c3), (3, 10, 0x8f0ccc92), (10, 15, 0xffeff47d), (1, 21, 0x85845dd1),
    (8, 6, 0x6fa87e4f), (15, 10, 0xfe2ce6e0), (6, 15, 0xa3014314), (13, 21, 0x4e0811a1),
    (4, 6, 0xf7537e82), (11, 10, 0xbd3af235), (2, 15, 0x2ad7d2bb), (9, 21, 0xeb86d391)]"

definition md4_calls :: "(nat \<times> nat \<times> u32) list" where
  "md4_calls = [
    (0, 3, 0), (1, 7, 0), (2, 11, 0), (3, 19, 0), (4, 3, 0), (5, 7, 0),
    (6, 11, 0), (7, 19, 0), (8, 3, 0), (9, 7, 0), (10, 11, 0), (11, 19, 0),
    (12, 3, 0), (13, 7, 0), (14, 11, 0), (15, 19, 0), (0, 3, 0x5a827999), (4, 5, 0x5a827999),
    (8, 9, 0x5a827999), (12, 13, 0x5a827999), (1, 3, 0x5a827999), (5, 5, 0x5a827999), (9, 9, 0x5a827999), (13, 13, 0x5a827999),
    (2, 3, 0x5a827999), (6, 5, 0x5a827999), (10, 9, 0x5a827999), (14, 13, 0x5a827999), (3, 3, 0x5a827999), (7, 5, 0x5a827999),
    (11, 9, 0x5a827999), (15, 13, 0x5a827999), (0, 3, 0x6ed9eba1), (8, 9, 0x6ed9eba1), (4, 11, 0x6ed9eba1), (12, 15, 0x6ed9eba1),
    (2, 3, 0x6ed9eba1), (10, 9, 0x6ed9eba1), (6, 11, 0x6ed9eba1), (14, 15, 0x6ed9eba1), (1, 3, 0x6ed9eba1), (9, 9, 0x6ed9eba1),
    (5, 11, 0x6ed9eba1), (13, 15, 0x6ed9eba1), (3, 3, 0x6ed9eba1), (11, 9, 0x6ed9eba1), (7, 11, 0x6ed9eba1), (15, 15, 0x6ed9eba1)]"

text \<open>\<open>R0\<close> to \<open>R3\<close>, over the function \<open>f\<close> they differ in.\<close>

definition md5_R :: "(u32 \<Rightarrow> u32 \<Rightarrow> u32 \<Rightarrow> u32) \<Rightarrow> u32 list \<Rightarrow> nat \<Rightarrow> u32 list \<Rightarrow> u32 list" where
  "md5_R f X i v =
     (let (k, s, t) = md5_calls ! i;
          a = v ! reg4 i 0; b = v ! reg4 i 1; c = v ! reg4 i 2; d = v ! reg4 i 3;
          a = a + (X ! k + t + f b c d);
          a = md5_ROTATE a s;
          a = a + b
      in v[reg4 i 0 := a])"

definition md4_R :: "(u32 \<Rightarrow> u32 \<Rightarrow> u32 \<Rightarrow> u32) \<Rightarrow> u32 list \<Rightarrow> nat \<Rightarrow> u32 list \<Rightarrow> u32 list" where
  "md4_R f X i v =
     (let (k, s, t) = md4_calls ! i;
          a = v ! reg4 i 0; b = v ! reg4 i 1; c = v ! reg4 i 2; d = v ! reg4 i 3;
          a = a + (X ! k + t + f b c d);
          a = md5_ROTATE a s
      in v[reg4 i 0 := a])"

text \<open>The bodies of the loops. The code loads each word one round ahead of its use.\<close>

definition md5_block :: "u32 list \<Rightarrow> bytes \<Rightarrow> u32 list" where
  "md5_block state d =
     (let X = map (\<lambda>i. HOST_c2l False d (4 * i)) [0..<16];
          v = fold (md5_R md5_F X) [0..<16] state;
          v = fold (md5_R md5_G X) [16..<32] v;
          v = fold (md5_R md5_H X) [32..<48] v;
          v = fold (md5_R md5_I X) [48..<64] v
      in map2 (+) state v)"

definition md4_block :: "u32 list \<Rightarrow> bytes \<Rightarrow> u32 list" where
  "md4_block state d =
     (let X = map (\<lambda>i. HOST_c2l False d (4 * i)) [0..<16];
          v = fold (md4_R md4_F X) [0..<16] state;
          v = fold (md4_R md4_G X) [16..<32] v;
          v = fold (md4_R md4_H X) [32..<48] v
      in map2 (+) state v)"

fun md5_block_data_order :: "u32 list block_fn" where
  "md5_block_data_order state d 0 = state"
| "md5_block_data_order state d (Suc num) = md5_block_data_order (md5_block state d) (drop HASH_CBLOCK d) num"

fun md4_block_data_order :: "u32 list block_fn" where
  "md4_block_data_order state d 0 = state"
| "md4_block_data_order state d (Suc num) = md4_block_data_order (md4_block state d) (drop HASH_CBLOCK d) num"

text \<open>\<open>HASH_MAKE_STRING\<close>, the same in both files.\<close>

definition HASH_MAKE_STRING_5 :: "md32_ctx \<Rightarrow> bytes" where
  "HASH_MAKE_STRING_5 c =
     HOST_l2c False (ctx_h c ! 0) @ HOST_l2c False (ctx_h c ! 1) @ HOST_l2c False (ctx_h c ! 2) @ HOST_l2c False (ctx_h c ! 3)"

definition MD5_Update :: "md32_ctx \<Rightarrow> bytes \<Rightarrow> md32_ctx" where
  "MD5_Update = HASH_UPDATE md5_block_data_order"

definition MD5_Transform :: "md32_ctx \<Rightarrow> bytes \<Rightarrow> md32_ctx" where
  "MD5_Transform = HASH_TRANSFORM md5_block_data_order"

definition MD5_Final :: "md32_ctx \<Rightarrow> bytes \<times> md32_ctx" where
  "MD5_Final = HASH_FINAL False md5_block_data_order HASH_MAKE_STRING_5"

definition MD5 :: "bytes \<Rightarrow> bytes" where
  "MD5 d = fst (MD5_Final (MD5_Update MD5_Init d))"

definition MD4_Update :: "md32_ctx \<Rightarrow> bytes \<Rightarrow> md32_ctx" where
  "MD4_Update = HASH_UPDATE md4_block_data_order"

definition MD4_Transform :: "md32_ctx \<Rightarrow> bytes \<Rightarrow> md32_ctx" where
  "MD4_Transform = HASH_TRANSFORM md4_block_data_order"

definition MD4_Final :: "md32_ctx \<Rightarrow> bytes \<times> md32_ctx" where
  "MD4_Final = HASH_FINAL False md4_block_data_order HASH_MAKE_STRING_5"

definition MD4 :: "bytes \<Rightarrow> bytes" where
  "MD4 d = fst (MD4_Final (MD4_Update MD4_Init d))"

section \<open>The hashes of RFC 1320 and RFC 1321\<close>

text \<open>Step \<open>t\<close> on \<open>[a, b, c, d]\<close>. The sine table of RFC 1321 is taken from the code.\<close>

definition rfc1321_f :: "nat \<Rightarrow> u32 \<Rightarrow> u32 \<Rightarrow> u32 \<Rightarrow> u32" where
  "rfc1321_f t x y z =
     (if t < 16 then (x AND y) OR (NOT x AND z)
      else if t < 32 then (x AND z) OR (y AND NOT z)
      else if t < 48 then x XOR y XOR z
      else y XOR (x OR NOT z))"

definition rfc1321_k :: "nat \<Rightarrow> nat" where
  "rfc1321_k t = (if t < 16 then t else if t < 32 then (5 * t + 1) mod 16 else if t < 48 then (3 * t + 5) mod 16 else 7 * t mod 16)"

definition rfc1321_s :: "nat \<Rightarrow> nat" where
  "rfc1321_s t = [[7, 12, 17, 22], [5, 9, 14, 20], [4, 11, 16, 23], [6, 10, 15, 21]] ! (t div 16) ! (t mod 4)"

definition rfc1321_step :: "u32 list \<Rightarrow> nat \<Rightarrow> u32 list \<Rightarrow> u32 list" where
  "rfc1321_step M t v =
     [v ! 3,
      v ! 1 + word_rotl (rfc1321_s t) (v ! 0 + rfc1321_f t (v ! 1) (v ! 2) (v ! 3) + M ! rfc1321_k t + snd (snd (md5_calls ! t))),
      v ! 1, v ! 2]"

definition rfc1320_f :: "nat \<Rightarrow> u32 \<Rightarrow> u32 \<Rightarrow> u32 \<Rightarrow> u32" where
  "rfc1320_f t x y z =
     (if t < 16 then (x AND y) OR (NOT x AND z)
      else if t < 32 then (x AND y) OR (x AND z) OR (y AND z)
      else x XOR y XOR z)"

definition rfc1320_k :: "nat \<Rightarrow> nat" where
  "rfc1320_k t =
     (if t < 16 then t else if t < 32 then 4 * (t mod 4) + (t - 16) div 4
      else [0, 8, 4, 12, 2, 10, 6, 14, 1, 9, 5, 13, 3, 11, 7, 15] ! (t - 32))"

definition rfc1320_s :: "nat \<Rightarrow> nat" where
  "rfc1320_s t = [[3, 7, 11, 19], [3, 5, 9, 13], [3, 9, 11, 15]] ! (t div 16) ! (t mod 4)"

definition rfc1320_t :: "nat \<Rightarrow> u32" where
  "rfc1320_t t = (if t < 16 then 0 else if t < 32 then 0x5a827999 else 0x6ed9eba1)"

definition rfc1320_step :: "u32 list \<Rightarrow> nat \<Rightarrow> u32 list \<Rightarrow> u32 list" where
  "rfc1320_step M t v =
     [v ! 3,
      word_rotl (rfc1320_s t) (v ! 0 + rfc1320_f t (v ! 1) (v ! 2) (v ! 3) + M ! rfc1320_k t + rfc1320_t t),
      v ! 1, v ! 2]"

text \<open>The sixteen little-endian words of a block; the block is added to the state.\<close>

definition le_words :: "bytes \<Rightarrow> u32 list" where
  "le_words d = map (\<lambda>i. of_nat (le_val (take 4 (drop (4 * i) d)))) [0..<16]"

definition rfc_compress :: "(u32 list \<Rightarrow> nat \<Rightarrow> u32 list \<Rightarrow> u32 list) \<Rightarrow> nat \<Rightarrow> u32 list \<Rightarrow> bytes \<Rightarrow> u32 list" where
  "rfc_compress f n H d = map2 (+) H (fold (f (le_words d)) [0..<n] H)"

definition rfc_hash :: "(u32 list \<Rightarrow> nat \<Rightarrow> u32 list \<Rightarrow> u32 list) \<Rightarrow> nat \<Rightarrow> u32 list \<Rightarrow> bytes \<Rightarrow> bytes" where
  "rfc_hash f n iv m =
     concat (map (\<lambda>w. le_bytes 4 (unat w))
       (hash_blocks HASH_CBLOCK (rfc_compress f n) iv (hash_pad HASH_CBLOCK 8 (le_bytes 8) m)))"

section \<open>The rounds\<close>

lemma md5_rotl: "0 < n \<Longrightarrow> n < 32 \<Longrightarrow> md5_ROTATE x n = word_rotl n x"
  using rotate_word [of n x] by (simp add: md5_ROTATE_def word_rotl_eq_word_rotr)

lemma rfc_fs:
  "t < 16 \<Longrightarrow> md5_F b c d = rfc1321_f t b c d"
  "16 \<le> t \<Longrightarrow> t < 32 \<Longrightarrow> md5_G b c d = rfc1321_f t b c d"
  "32 \<le> t \<Longrightarrow> t < 48 \<Longrightarrow> md5_H b c d = rfc1321_f t b c d"
  "48 \<le> t \<Longrightarrow> md5_I b c d = rfc1321_f t b c d"
  "t < 16 \<Longrightarrow> md4_F b c d = rfc1320_f t b c d"
  "16 \<le> t \<Longrightarrow> t < 32 \<Longrightarrow> md4_G b c d = rfc1320_f t b c d"
  "32 \<le> t \<Longrightarrow> md4_H b c d = rfc1320_f t b c d"
  by (rule bit_eqI; auto simp: md5_F_def md5_G_def md5_H_def md5_I_def rfc1321_f_def md4_F_def md4_G_def md4_H_def rfc1320_f_def bit_simps)+

lemma md5_args:
  assumes "t < 64"
  shows "md5_calls ! t = (rfc1321_k t, rfc1321_s t, snd (snd (md5_calls ! t)))" and "0 < rfc1321_s t \<and> rfc1321_s t < 32"
proof -
  have "list_all (\<lambda>t. fst (md5_calls ! t) = rfc1321_k t \<and> fst (snd (md5_calls ! t)) = rfc1321_s t \<and> 0 < rfc1321_s t \<and> rfc1321_s t < 32) [0..<64]"
    by code_simp
  with assms show "md5_calls ! t = (rfc1321_k t, rfc1321_s t, snd (snd (md5_calls ! t)))" and "0 < rfc1321_s t \<and> rfc1321_s t < 32"
    by (auto simp: list_all_iff prod_eq_iff)
qed

lemma md4_args:
  assumes "t < 48"
  shows "md4_calls ! t = (rfc1320_k t, rfc1320_s t, rfc1320_t t)" and "0 < rfc1320_s t \<and> rfc1320_s t < 32"
proof -
  have "list_all (\<lambda>t. md4_calls ! t = (rfc1320_k t, rfc1320_s t, rfc1320_t t) \<and> 0 < rfc1320_s t \<and> rfc1320_s t < 32) [0..<48]"
    by code_simp
  with assms show "md4_calls ! t = (rfc1320_k t, rfc1320_s t, rfc1320_t t)" and "0 < rfc1320_s t \<and> rfc1320_s t < 32"
    by (auto simp: list_all_iff)
qed

definition view4 :: "nat \<Rightarrow> u32 list \<Rightarrow> u32 list" where
  "view4 i v = map (\<lambda>j. v ! reg4 i j) [0, 1, 2, 3]"

lemma view4_0: "length v = 4 \<Longrightarrow> i mod 4 = 0 \<Longrightarrow> view4 i v = v"
  using list_4 [of v] by (simp add: view4_def reg4_def)

lemma view4_step:
  assumes "length v = 4"
  shows "view4 (Suc i) (v[reg4 i 0 := x]) = [view4 i v ! 3, x, view4 i v ! 1, view4 i v ! 2]"
proof -
  obtain a b c d where v: "v = [a, b, c, d]" using list_4 [OF assms] by blast
  have "i mod 4 < 4" by simp
  then have m: "i mod 4 \<in> {0, 1, 2, 3}" by auto
  have s: "Suc i mod 4 = (if i mod 4 = 3 then 0 else Suc (i mod 4))" by (simp add: mod_Suc)
  from m show ?thesis by (auto simp: v view4_def reg4_def s)
qed

lemma view4_nth: "view4 t v ! 0 = v ! reg4 t 0" "view4 t v ! 1 = v ! reg4 t 1" "view4 t v ! 2 = v ! reg4 t 2" "view4 t v ! 3 = v ! reg4 t 3"
  by (simp_all add: view4_def)

lemma md5_R_step:
  assumes "length v = 4" and "t < 64" and "\<And>b c d. f b c d = rfc1321_f t b c d"
  shows "view4 (Suc t) (md5_R f M t v) = rfc1321_step M t (view4 t v) \<and> length (md5_R f M t v) = 4"
proof -
  have "md5_R f M t v = v[reg4 t 0 := v ! reg4 t 1 +
      word_rotl (rfc1321_s t) (v ! reg4 t 0 + rfc1321_f t (v ! reg4 t 1) (v ! reg4 t 2) (v ! reg4 t 3) + M ! rfc1321_k t + snd (snd (md5_calls ! t)))]"
    unfolding md5_R_def by (subst md5_args(1) [OF assms(2)]) (simp add: Let_def assms(3) md5_rotl md5_args(2) [OF assms(2)] ac_simps)
  then show ?thesis using assms(1) by (simp only: view4_step [OF assms(1)] rfc1321_step_def view4_nth length_list_update)
qed

lemma md4_R_step:
  assumes "length v = 4" and "t < 48" and "\<And>b c d. f b c d = rfc1320_f t b c d"
  shows "view4 (Suc t) (md4_R f M t v) = rfc1320_step M t (view4 t v) \<and> length (md4_R f M t v) = 4"
proof -
  have "md4_R f M t v = v[reg4 t 0 :=
      word_rotl (rfc1320_s t) (v ! reg4 t 0 + rfc1320_f t (v ! reg4 t 1) (v ! reg4 t 2) (v ! reg4 t 3) + M ! rfc1320_k t + rfc1320_t t)]"
    unfolding md4_R_def by (subst md4_args(1) [OF assms(2)]) (simp add: Let_def assms(3) md5_rotl md4_args(2) [OF assms(2)] ac_simps)
  then show ?thesis using assms(1) by (simp only: view4_step [OF assms(1)] rfc1320_step_def view4_nth length_list_update)
qed

text \<open>Steps of the code that are steps of the standard, one after the other.\<close>

lemma fold_view4:
  assumes "\<And>t v. a \<le> t \<Longrightarrow> t < b \<Longrightarrow> length v = 4 \<Longrightarrow> view4 (Suc t) (R t v) = f t (view4 t v) \<and> length (R t v) = 4"
    and "a \<le> b" and "length v = 4"
  shows "view4 b (fold R [a..<b] v) = fold f [a..<b] (view4 a v) \<and> length (fold R [a..<b] v) = 4"
proof -
  have "view4 n (fold R [a..<n] v) = fold f [a..<n] (view4 a v) \<and> length (fold R [a..<n] v) = 4" if "a \<le> n" "n \<le> b" for n
    using that
  proof (induction n)
    case (Suc n)
    then show ?case using assms(1) [of n "fold R [a..<n] v"] assms(3) by (cases "a = Suc n") auto
  qed (use assms(3) in simp)
  with assms(2) show ?thesis by blast
qed

lemma c2l_le: "i + 4 \<le> length d \<Longrightarrow> HOST_c2l False d i = of_nat (le_val (take 4 (drop i d)))"
proof -
  assume l: "i + 4 \<le> length d"
  then have e: "take 4 (drop i d) = [d ! (i + 0), d ! (i + 1), d ! (i + 2), d ! (i + 3)]"
    using list_4 [of "take 4 (drop i d)"] by simp
  have "HOST_c2l False d i =
      push_bit 24 (ucast (d ! (i + 3))) OR push_bit 16 (ucast (d ! (i + 2))) OR push_bit 8 (ucast (d ! (i + 1))) OR ucast (d ! (i + 0))"
    unfolding HOST_c2l_def Let_def by (simp add: or.commute or.left_commute or.assoc)
  then have "unat (HOST_c2l False d i) = be_val (rev (take 4 (drop i d)))"
    unfolding e by (simp only: or_bytes rev.simps append_Nil append_Cons)
  then show ?thesis unfolding be_val_rev by (metis of_nat_unat ucast_id)
qed

lemma loads: "HASH_CBLOCK \<le> length d \<Longrightarrow> map (\<lambda>i. HOST_c2l False d (4 * i)) [0..<16] = le_words d"
  unfolding le_words_def by (rule map_cong) (auto simp: HASH_CBLOCK_def c2l_le)

lemma upt_join: "a \<le> b \<Longrightarrow> b \<le> c \<Longrightarrow> fold f [b..<c] (fold f [a..<b] x) = fold f [a..<c] x"
  using upt_add_eq_append [of a b "c - b"] by (metis comp_apply fold_append le_add_diff_inverse)

lemma md5_block_rfc:
  assumes "length H = 4" and "HASH_CBLOCK \<le> length d"
  shows "md5_block H d = rfc_compress rfc1321_step 64 H d"
proof -
  define M where "M = le_words d"
  define v1 where "v1 = fold (md5_R md5_F M) [0..<16] H"
  define v2 where "v2 = fold (md5_R md5_G M) [16..<32] v1"
  define v3 where "v3 = fold (md5_R md5_H M) [32..<48] v2"
  define v4 where "v4 = fold (md5_R md5_I M) [48..<64] v3"
  have 1: "view4 16 v1 = fold (rfc1321_step M) [0..<16] (view4 0 H) \<and> length v1 = 4"
    unfolding v1_def by (rule fold_view4) (use assms in \<open>simp_all add: md5_R_step rfc_fs\<close>)
  then have 2: "view4 32 v2 = fold (rfc1321_step M) [16..<32] (view4 16 v1) \<and> length v2 = 4"
    unfolding v2_def by (intro fold_view4) (simp_all add: md5_R_step rfc_fs)
  then have 3: "view4 48 v3 = fold (rfc1321_step M) [32..<48] (view4 32 v2) \<and> length v3 = 4"
    unfolding v3_def by (intro fold_view4) (simp_all add: md5_R_step rfc_fs)
  then have 4: "view4 64 v4 = fold (rfc1321_step M) [48..<64] (view4 48 v3) \<and> length v4 = 4"
    unfolding v4_def by (intro fold_view4) (simp_all add: md5_R_step rfc_fs)
  have "v4 = fold (rfc1321_step M) [0..<64] H"
    using 1 2 3 4 view4_0 [OF assms(1), of 0] view4_0 [of v4 64] by (simp add: upt_join del: upt_rec_numeral)
  then show ?thesis
    unfolding md5_block_def loads [OF assms(2)] Let_def rfc_compress_def M_def [symmetric] v1_def [symmetric] v2_def [symmetric] v3_def [symmetric] v4_def [symmetric]
    by (rule arg_cong)
qed

lemma md4_block_rfc:
  assumes "length H = 4" and "HASH_CBLOCK \<le> length d"
  shows "md4_block H d = rfc_compress rfc1320_step 48 H d"
proof -
  define M where "M = le_words d"
  define v1 where "v1 = fold (md4_R md4_F M) [0..<16] H"
  define v2 where "v2 = fold (md4_R md4_G M) [16..<32] v1"
  define v3 where "v3 = fold (md4_R md4_H M) [32..<48] v2"
  have 1: "view4 16 v1 = fold (rfc1320_step M) [0..<16] (view4 0 H) \<and> length v1 = 4"
    unfolding v1_def by (rule fold_view4) (use assms in \<open>simp_all add: md4_R_step rfc_fs\<close>)
  then have 2: "view4 32 v2 = fold (rfc1320_step M) [16..<32] (view4 16 v1) \<and> length v2 = 4"
    unfolding v2_def by (intro fold_view4) (simp_all add: md4_R_step rfc_fs)
  then have 3: "view4 48 v3 = fold (rfc1320_step M) [32..<48] (view4 32 v2) \<and> length v3 = 4"
    unfolding v3_def by (intro fold_view4) (simp_all add: md4_R_step rfc_fs)
  have "v3 = fold (rfc1320_step M) [0..<48] H"
    using 1 2 3 view4_0 [OF assms(1), of 0] view4_0 [of v3 48] by (simp add: upt_join del: upt_rec_numeral)
  then show ?thesis
    unfolding md4_block_def loads [OF assms(2)] Let_def rfc_compress_def M_def [symmetric] v1_def [symmetric] v2_def [symmetric] v3_def [symmetric]
    by (rule arg_cong)
qed

lemma loads_prefix:
  "HASH_CBLOCK \<le> length d \<Longrightarrow> map (\<lambda>i. HOST_c2l False (d @ e) (4 * i)) [0..<16] = map (\<lambda>i. HOST_c2l False d (4 * i)) [0..<16]"
  by (simp add: loads) (simp add: le_words_def HASH_CBLOCK_def)

interpretation md5: md32_function md5_block_data_order md5_block
proof
  show "md5_block s (d @ e) = md5_block s d" if "HASH_CBLOCK \<le> length d" for s d e
    unfolding md5_block_def loads_prefix [OF that] by (rule refl)
qed (simp_all add: HASH_CBLOCK_def)

interpretation md4: md32_function md4_block_data_order md4_block
proof
  show "md4_block s (d @ e) = md4_block s d" if "HASH_CBLOCK \<le> length d" for s d e
    unfolding md4_block_def loads_prefix [OF that] by (rule refl)
qed (simp_all add: HASH_CBLOCK_def)

lemma length_rfc_compress:
  assumes "\<And>M t v. length (f M t v) = 4" and "length H = 4"
  shows "length (rfc_compress f n H d) = 4"
proof -
  have "length (fold (f M) [0..<n] H) = 4" for M
    using assms by (induction n) simp_all
  then show ?thesis using assms(2) by (simp add: rfc_compress_def)
qed

lemma length_rfc_steps: "length (rfc1321_step M t v) = 4" "length (rfc1320_step M t v) = 4"
  by (simp_all add: rfc1321_step_def rfc1320_step_def)

lemma md5_blocks:
  assumes "length H = 4"
  shows "md5.absorb H m = hash_blocks HASH_CBLOCK (rfc_compress rfc1321_step 64) H m \<and> length (hash_blocks HASH_CBLOCK (rfc_compress rfc1321_step 64) H m) = 4"
  unfolding md5.absorb_blocks
  by (rule hash_blocks_cong) (use assms in \<open>simp_all add: md5_block_rfc length_rfc_compress length_rfc_steps HASH_CBLOCK_def\<close>)

lemma md4_blocks:
  assumes "length H = 4"
  shows "md4.absorb H m = hash_blocks HASH_CBLOCK (rfc_compress rfc1320_step 48) H m \<and> length (hash_blocks HASH_CBLOCK (rfc_compress rfc1320_step 48) H m) = 4"
  unfolding md4.absorb_blocks
  by (rule hash_blocks_cong) (use assms in \<open>simp_all add: md4_block_rfc length_rfc_compress length_rfc_steps HASH_CBLOCK_def\<close>)

section \<open>The context after the pieces of a message\<close>

lemma make_string_5:
  assumes "length (ctx_h c) = 4"
  shows "HASH_MAKE_STRING_5 c = concat (map (\<lambda>w. le_bytes 4 (unat w)) (ctx_h c))"
proof -
  have "concat (map (\<lambda>w. le_bytes 4 (unat w)) (ctx_h c)) =
      concat (map (\<lambda>w. le_bytes 4 (unat w)) [ctx_h c ! 0, ctx_h c ! 1, ctx_h c ! 2, ctx_h c ! 3])"
    by (rule arg_cong [OF list_4 [OF assms]])
  then show ?thesis by (simp add: HASH_MAKE_STRING_5_def l2c_bytes)
qed

lemma md5_start: "md5.absorbed (ctx_h MD5_Init) MD5_Init []"
  by (rule md5.absorbed_start) (simp_all add: MD5_Init_def)

lemma md5_final:
  assumes "md5.absorbed (ctx_h MD5_Init) c m"
  shows "fst (MD5_Final c) = rfc_hash rfc1321_step 64 (ctx_h MD5_Init) m"
proof -
  have "length (ctx_h MD5_Init) = 4" by (simp add: MD5_Init_def)
  then show ?thesis
    using md5_blocks [of "ctx_h MD5_Init" "hash_pad HASH_CBLOCK 8 (length_bytes False) m"]
    unfolding MD5_Final_def md5.absorbed_final [OF assms] fst_conv
    by (subst make_string_5) (simp_all add: rfc_hash_def length_bytes_le)
qed

lemma length_md5: "length (rfc_hash rfc1321_step 64 (ctx_h MD5_Init) m) = 16"
proof -
  have "length (ctx_h MD5_Init) = 4" by (simp add: MD5_Init_def)
  from md5_blocks [OF this] show ?thesis by (simp add: rfc_hash_def length_concat comp_def sum_list_triv)
qed

lemma md4_start: "md4.absorbed (ctx_h MD4_Init) MD4_Init []"
  by (rule md4.absorbed_start) (simp_all add: MD4_Init_def)

lemma md4_final:
  assumes "md4.absorbed (ctx_h MD4_Init) c m"
  shows "fst (MD4_Final c) = rfc_hash rfc1320_step 48 (ctx_h MD4_Init) m"
proof -
  have "length (ctx_h MD4_Init) = 4" by (simp add: MD4_Init_def)
  then show ?thesis
    using md4_blocks [of "ctx_h MD4_Init" "hash_pad HASH_CBLOCK 8 (length_bytes False) m"]
    unfolding MD4_Final_def md4.absorbed_final [OF assms] fst_conv
    by (subst make_string_5) (simp_all add: rfc_hash_def length_bytes_le)
qed

lemma length_md4: "length (rfc_hash rfc1320_step 48 (ctx_h MD4_Init) m) = 16"
proof -
  have "length (ctx_h MD4_Init) = 4" by (simp add: MD4_Init_def)
  from md4_blocks [OF this] show ?thesis by (simp add: rfc_hash_def length_concat comp_def sum_list_triv)
qed

end
