(* ===== verification/Sha1.thy ===== *)
theory Sha1
  imports Sha2
begin

text \<open>
  SHA-1, \<open>fipsmodule/sha/sha1.c\<close>: the context, the macros of the unrolled rounds, the block function
  (the portable one), and the functions the template \<open>md32_common.h\<close> makes of it; then the hash of
  FIPS 180-4 and the proof that the code computes it, in whatever pieces the message arrives.
\<close>

unbundle bit_operations_syntax

section \<open>The code\<close>

type_synonym sha1_ctx = md32_ctx

definition SHA_DIGEST_LENGTH :: nat where "SHA_DIGEST_LENGTH = 20"

definition SHA1_Init :: sha1_ctx where
  "SHA1_Init =
     \<lparr>ctx_h = [0x67452301, 0xefcdab89, 0x98badcfe, 0x10325476, 0xc3d2e1f0],
      Nl = 0, Nh = 0, ctx_data = replicate HASH_CBLOCK 0, ctx_num = 0\<rparr>"

definition ROTATE_1 :: "u32 \<Rightarrow> nat \<Rightarrow> u32" where
  "ROTATE_1 a n = push_bit n a OR drop_bit (32 - n) a"

definition K_00_19 :: u32 where "K_00_19 = 0x5a827999"
definition K_20_39 :: u32 where "K_20_39 = 0x6ed9eba1"
definition K_40_59 :: u32 where "K_40_59 = 0x8f1bbcdc"
definition K_60_79 :: u32 where "K_60_79 = 0xca62c1d6"

definition F_00_19 :: "u32 \<Rightarrow> u32 \<Rightarrow> u32 \<Rightarrow> u32" where "F_00_19 b c d = ((c XOR d) AND b) XOR d"
definition F_20_39 :: "u32 \<Rightarrow> u32 \<Rightarrow> u32 \<Rightarrow> u32" where "F_20_39 b c d = b XOR c XOR d"
definition F_40_59 :: "u32 \<Rightarrow> u32 \<Rightarrow> u32 \<Rightarrow> u32" where "F_40_59 b c d = (b AND c) OR ((b OR c) AND d)"
definition F_60_79 :: "u32 \<Rightarrow> u32 \<Rightarrow> u32 \<Rightarrow> u32" where "F_60_79 b c d = F_20_39 b c d"

text \<open>
  The variables \<open>A, B, C, D, E, T\<close> are the list \<open>v\<close>; every round passes them shifted by one place:
  \<open>reg6 i j\<close> is the one that round \<open>i\<close> has as its \<open>j\<close>-th argument of \<open>a, b, c, d, e, f\<close>. The
  variables \<open>XX0\<close> to \<open>XX15\<close> are the list \<open>X\<close>; round \<open>i\<close> passes the ones at \<open>i\<close>, \<open>i + 2\<close>, \<open>i + 8\<close>
  and \<open>i + 13\<close>, by 16.
\<close>

definition reg6 :: "nat \<Rightarrow> nat \<Rightarrow> nat" where
  "reg6 i j = (j + (6 - i mod 6)) mod 6"

definition Xupdate :: "nat \<Rightarrow> u32 list \<Rightarrow> u32 \<times> u32 list" where
  "Xupdate i X =
     (let a = X ! (i mod 16) XOR X ! ((i + 2) mod 16) XOR X ! ((i + 8) mod 16) XOR X ! ((i + 13) mod 16);
          a = ROTATE_1 a 1
      in (a, X[i mod 16 := a]))"

definition BODY_00_15 :: "nat \<Rightarrow> u32 \<Rightarrow> u32 list \<Rightarrow> u32 list" where
  "BODY_00_15 i xi v =
     (let a = v ! reg6 i 0; b = v ! reg6 i 1; c = v ! reg6 i 2; d = v ! reg6 i 3; e = v ! reg6 i 4;
          f = xi + e + K_00_19 + ROTATE_1 a 5 + F_00_19 b c d
      in v[reg6 i 5 := f, reg6 i 1 := ROTATE_1 b 30])"

definition BODY_16_19 :: "nat \<Rightarrow> u32 list \<times> u32 list \<Rightarrow> u32 list \<times> u32 list" where
  "BODY_16_19 i = (\<lambda>(X, v).
     let a = v ! reg6 i 0; b = v ! reg6 i 1; c = v ! reg6 i 2; d = v ! reg6 i 3; e = v ! reg6 i 4;
         (f, X) = Xupdate i X;
         f = f + (e + K_00_19 + ROTATE_1 a 5 + F_00_19 b c d)
     in (X, v[reg6 i 5 := f, reg6 i 1 := ROTATE_1 b 30]))"

definition BODY_20_31 :: "nat \<Rightarrow> u32 list \<times> u32 list \<Rightarrow> u32 list \<times> u32 list" where
  "BODY_20_31 i = (\<lambda>(X, v).
     let a = v ! reg6 i 0; b = v ! reg6 i 1; c = v ! reg6 i 2; d = v ! reg6 i 3; e = v ! reg6 i 4;
         (f, X) = Xupdate i X;
         f = f + (e + K_20_39 + ROTATE_1 a 5 + F_20_39 b c d)
     in (X, v[reg6 i 5 := f, reg6 i 1 := ROTATE_1 b 30]))"

definition BODY_32_39 :: "nat \<Rightarrow> u32 list \<times> u32 list \<Rightarrow> u32 list \<times> u32 list" where
  "BODY_32_39 i = (\<lambda>(X, v).
     let a = v ! reg6 i 0; b = v ! reg6 i 1; c = v ! reg6 i 2; d = v ! reg6 i 3; e = v ! reg6 i 4;
         (f, X) = Xupdate i X;
         f = f + (e + K_20_39 + ROTATE_1 a 5 + F_20_39 b c d)
     in (X, v[reg6 i 5 := f, reg6 i 1 := ROTATE_1 b 30]))"

definition BODY_40_59 :: "nat \<Rightarrow> u32 list \<times> u32 list \<Rightarrow> u32 list \<times> u32 list" where
  "BODY_40_59 i = (\<lambda>(X, v).
     let a = v ! reg6 i 0; b = v ! reg6 i 1; c = v ! reg6 i 2; d = v ! reg6 i 3; e = v ! reg6 i 4;
         (f, X) = Xupdate i X;
         f = f + (e + K_40_59 + ROTATE_1 a 5 + F_40_59 b c d)
     in (X, v[reg6 i 5 := f, reg6 i 1 := ROTATE_1 b 30]))"

definition BODY_60_79 :: "nat \<Rightarrow> u32 list \<times> u32 list \<Rightarrow> u32 list \<times> u32 list" where
  "BODY_60_79 i = (\<lambda>(X, v).
     let a = v ! reg6 i 0; b = v ! reg6 i 1; c = v ! reg6 i 2; d = v ! reg6 i 3; e = v ! reg6 i 4;
         (f, X) = Xupdate i X;
         f = X ! (i mod 16) + e + K_60_79 + ROTATE_1 a 5 + F_60_79 b c d
     in (X, v[reg6 i 5 := f, reg6 i 1 := ROTATE_1 b 30]))"

text \<open>One turn of the loop. The code loads each word one round ahead of its use; \<open>X\<close> and \<open>T\<close> are
  written before they are read.\<close>

definition sha1_block :: "u32 list \<Rightarrow> bytes \<Rightarrow> u32 list" where
  "sha1_block state d =
     (let v = [state ! 0, state ! 1, state ! 2, state ! 3, state ! 4, 0];
          r = fold (\<lambda>i (X, v). let l = HOST_c2l True d (4 * i) in (X[i := l], BODY_00_15 i l v))
                [0..<16] (replicate 16 0, v);
          r = fold BODY_16_19 [16..<20] r;
          r = fold BODY_20_31 [20..<32] r;
          r = fold BODY_32_39 [32..<40] r;
          r = fold BODY_40_59 [40..<60] r;
          (X, v) = fold BODY_60_79 [60..<80] r;
          A = v ! 0; B = v ! 1; C = v ! 2; E = v ! 4; T = v ! 5
      in [state ! 0 + E, state ! 1 + T, state ! 2 + A, state ! 3 + B, state ! 4 + C])"

text \<open>The loop ends when \<open>--num\<close> is 0; no caller passes 0, for which it would not.\<close>

fun sha1_block_data_order :: "u32 list block_fn" where
  "sha1_block_data_order state d 0 = state"
| "sha1_block_data_order state d (Suc num) =
     sha1_block_data_order (sha1_block state d) (drop HASH_CBLOCK d) num"

definition HASH_MAKE_STRING_1 :: "sha1_ctx \<Rightarrow> bytes" where
  "HASH_MAKE_STRING_1 c =
     HOST_l2c True (ctx_h c ! 0) @ HOST_l2c True (ctx_h c ! 1) @ HOST_l2c True (ctx_h c ! 2) @
     HOST_l2c True (ctx_h c ! 3) @ HOST_l2c True (ctx_h c ! 4)"

definition SHA1_Update :: "sha1_ctx \<Rightarrow> bytes \<Rightarrow> sha1_ctx" where
  "SHA1_Update = HASH_UPDATE sha1_block_data_order"

definition SHA1_Transform :: "sha1_ctx \<Rightarrow> bytes \<Rightarrow> sha1_ctx" where
  "SHA1_Transform = HASH_TRANSFORM sha1_block_data_order"

definition SHA1_Final :: "sha1_ctx \<Rightarrow> bytes \<times> sha1_ctx" where
  "SHA1_Final = HASH_FINAL True sha1_block_data_order HASH_MAKE_STRING_1"

definition SHA1 :: "bytes \<Rightarrow> bytes" where
  "SHA1 d = fst (SHA1_Final (SHA1_Update SHA1_Init d))"

section \<open>The hash of FIPS 180-4\<close>

definition Parity :: "u32 \<Rightarrow> u32 \<Rightarrow> u32 \<Rightarrow> u32" where "Parity x y z = x XOR y XOR z"

definition fips_f :: "nat \<Rightarrow> u32 \<Rightarrow> u32 \<Rightarrow> u32 \<Rightarrow> u32" where
  "fips_f t = (if t < 20 then Ch else if t < 40 then Parity else if t < 60 then Maj else Parity)"

definition fips_K1 :: "nat \<Rightarrow> u32" where
  "fips_K1 t = (if t < 20 then 0x5a827999 else if t < 40 then 0x6ed9eba1 else if t < 60 then 0x8f1bbcdc else 0xca62c1d6)"

definition fips_round_1 :: "nat \<Rightarrow> u32 \<Rightarrow> u32 list \<Rightarrow> u32 list" where
  "fips_round_1 t w v =
     (let T = word_rotl 5 (v ! 0) + fips_f t (v ! 1) (v ! 2) (v ! 3) + v ! 4 + fips_K1 t + w
      in [T, v ! 0, word_rotl 30 (v ! 1), v ! 2, v ! 3])"

definition schedule_1 :: "u32 list \<Rightarrow> nat \<Rightarrow> u32 list" where
  "schedule_1 = grow (\<lambda>W n. word_rotl 1 (W ! (n + 13) XOR W ! (n + 8) XOR W ! (n + 2) XOR W ! n))"

definition fips_rounds_1 :: "u32 list \<Rightarrow> nat \<Rightarrow> u32 list \<Rightarrow> u32 list" where
  "fips_rounds_1 W n v = fold (\<lambda>t. fips_round_1 t (W ! t)) [0..<n] v"

definition fips_compress_1 :: "u32 list \<Rightarrow> bytes \<Rightarrow> u32 list" where
  "fips_compress_1 H d = map2 (+) H (fips_rounds_1 (schedule_1 (be_words 4 d) 64) 80 H)"

definition fips_sha1 :: "u32 list \<Rightarrow> bytes \<Rightarrow> bytes" where
  "fips_sha1 iv m =
     concat (map (\<lambda>w. be_bytes 4 (unat w))
       (hash_blocks HASH_CBLOCK fips_compress_1 iv (hash_pad HASH_CBLOCK 8 (be_bytes 8) m)))"

section \<open>The rounds\<close>

lemma ROTATE_rotl: "0 < n \<Longrightarrow> n < 32 \<Longrightarrow> ROTATE_1 x n = word_rotl n x"
  using rotate_word [of n x] by (simp add: ROTATE_1_def word_rotl_eq_word_rotr)

lemma fips_fs: "F_00_19 b c d = Ch b c d" "F_20_39 b c d = Parity b c d" "F_40_59 b c d = Maj b c d" "F_60_79 b c d = Parity b c d"
  by (simp_all add: Parity_def F_20_39_def F_60_79_def, rule_tac [!] bit_eqI) (auto simp: F_00_19_def F_40_59_def Ch_def Maj_def bit_simps)

definition view6 :: "nat \<Rightarrow> u32 list \<Rightarrow> u32 list" where
  "view6 i v = map (\<lambda>j. v ! reg6 i j) [0, 1, 2, 3, 4]"

text \<open>The round of all macros: \<open>w\<close> is the schedule word.\<close>

definition sha1_step :: "nat \<Rightarrow> u32 \<Rightarrow> u32 list \<Rightarrow> u32 list" where
  "sha1_step i w v =
     v[reg6 i 5 := w + (v ! reg6 i 4 + fips_K1 i + word_rotl 5 (v ! reg6 i 0) + fips_f i (v ! reg6 i 1) (v ! reg6 i 2) (v ! reg6 i 3)),
       reg6 i 1 := word_rotl 30 (v ! reg6 i 1)]"

definition sha1_expand :: "nat \<Rightarrow> u32 list \<times> u32 list \<Rightarrow> u32 list \<times> u32 list" where
  "sha1_expand i = (\<lambda>(X, v). let (w, X) = Xupdate i X in (X, sha1_step i w v))"

lemma length_sha1_step [simp]: "length (sha1_step i w v) = length v"
  by (simp add: sha1_step_def)

lemma list_6: "length v = 6 \<Longrightarrow> v = [v ! 0, v ! 1, v ! 2, v ! 3, v ! 4, v ! 5]"
proof -
  have "[0..<6] = [0, 1, 2, 3, 4, 5 :: nat]" by code_simp
  then show "length v = 6 \<Longrightarrow> ?thesis" using map_nth [of v] by simp
qed

lemma view6_step:
  assumes "length v = 6"
  shows "view6 (Suc i) (sha1_step i w v) = fips_round_1 i w (view6 i v)"
proof -
  obtain a b c d e f where v: "v = [a, b, c, d, e, f]" using list_6 [OF assms] by blast
  have "i mod 6 < 6" by simp
  then have m: "i mod 6 \<in> {0, 1, 2, 3, 4, 5}" by auto
  have s: "Suc i mod 6 = (if i mod 6 = 5 then 0 else Suc (i mod 6))" by (simp add: mod_Suc)
  from m show ?thesis
    by (auto simp: v view6_def reg6_def s sha1_step_def fips_round_1_def Let_def ac_simps)
qed

lemma bodies:
  "i < 16 \<Longrightarrow> BODY_00_15 i w v = sha1_step i w v"
  "16 \<le> i \<Longrightarrow> i < 20 \<Longrightarrow> BODY_16_19 i = sha1_expand i"
  "20 \<le> i \<Longrightarrow> i < 32 \<Longrightarrow> BODY_20_31 i = sha1_expand i"
  "32 \<le> i \<Longrightarrow> i < 40 \<Longrightarrow> BODY_32_39 i = sha1_expand i"
  "40 \<le> i \<Longrightarrow> i < 60 \<Longrightarrow> BODY_40_59 i = sha1_expand i"
  by (auto simp: fun_eq_iff BODY_00_15_def BODY_16_19_def BODY_20_31_def BODY_32_39_def BODY_40_59_def
      sha1_expand_def sha1_step_def Let_def fips_fs fips_f_def fips_K1_def ROTATE_rotl
      K_00_19_def K_20_39_def K_40_59_def ac_simps split: prod.splits)

lemma body_60: "60 \<le> i \<Longrightarrow> length X = 16 \<Longrightarrow> BODY_60_79 i (X, v) = sha1_expand i (X, v)"
  by (auto simp: BODY_60_79_def sha1_expand_def sha1_step_def Xupdate_def Let_def fips_fs fips_f_def fips_K1_def ROTATE_rotl
      K_60_79_def ac_simps)

lemma fold_60: "\<forall>i \<in> set is. 60 \<le> i \<Longrightarrow> length (fst r) = 16 \<Longrightarrow> fold BODY_60_79 is r = fold sha1_expand is r"
proof (induction "is" arbitrary: r)
  case (Cons i "is")
  obtain X v where r: "r = (X, v)" by fastforce
  with Cons show ?case by (simp add: body_60) (simp add: sha1_expand_def Xupdate_def Let_def)
qed simp

lemma fold_bodies:
  assumes "length (fst r) = 16"
  shows "fold BODY_60_79 [60..<80] (fold BODY_40_59 [40..<60] (fold BODY_32_39 [32..<40] (fold BODY_20_31 [20..<32] (fold BODY_16_19 [16..<20] r)))) =
    fold sha1_expand [16..<80] r"
proof -
  have c: "fold BODY_16_19 [16..<20] r = fold sha1_expand [16..<20] r"
    "fold BODY_20_31 [20..<32] r = fold sha1_expand [20..<32] r"
    "fold BODY_32_39 [32..<40] r = fold sha1_expand [32..<40] r"
    "fold BODY_40_59 [40..<60] r = fold sha1_expand [40..<60] r" for r
    by (rule fold_cong; simp add: bodies del: upt_rec_numeral)+
  have len: "length (fst (fold sha1_expand is r)) = 16" for "is"
    using assms by (induction "is" arbitrary: r) (auto simp: sha1_expand_def Xupdate_def Let_def split: prod.splits)
  have "[16..<80] = [16..<20] @ [20..<32] @ [32..<40] @ [40..<60] @ [60..<80 :: nat]" by code_simp
  moreover have "fold BODY_60_79 [60..<80] (fold sha1_expand is r) = fold sha1_expand [60..<80] (fold sha1_expand is r)" for "is"
    by (rule fold_60) (simp_all add: len del: upt_rec_numeral)
  from this [of "[16..<20] @ [20..<32] @ [32..<40] @ [40..<60]"] calculation show ?thesis
    by (simp only: c fold_append comp_apply)
qed

definition sha1_load :: "u32 list \<Rightarrow> nat \<Rightarrow> u32 list \<times> u32 list \<Rightarrow> u32 list \<times> u32 list" where
  "sha1_load M i = (\<lambda>(X, v). (X[i := M ! i], sha1_step i (M ! i) v))"

lemma fips_rounds_1_Suc: "fips_rounds_1 W (Suc n) v = fips_round_1 n (W ! n) (fips_rounds_1 W n v)"
  by (simp add: fips_rounds_1_def)

lemma schedule_1_first: "length M = 16 \<Longrightarrow> i < 16 \<Longrightarrow> schedule_1 M n ! i = M ! i"
  by (simp add: schedule_1_def grow_first)

lemma schedule_1_rec:
  assumes "length M = 16" and "16 \<le> t" and "t < 16 + n"
  defines "W \<equiv> schedule_1 M n"
  shows "W ! t = word_rotl 1 (W ! (t - 3) XOR W ! (t - 8) XOR W ! (t - 14) XOR W ! (t - 16))"
proof -
  obtain k where k: "t = 16 + k" using assms(2) le_Suc_ex by blast
  have "W ! (16 + k) = word_rotl 1 (W ! (k + 13) XOR W ! (k + 8) XOR W ! (k + 2) XOR W ! k)"
    unfolding W_def schedule_1_def by (rule grow_rec) (use assms k in simp_all)
  then show ?thesis by (simp add: k add.commute)
qed

lemma Xupdate_word:
  assumes "ring X i (schedule_1 M n)" and "length M = 16" and "16 \<le> i" and "i < 16 + n"
  shows "Xupdate i X = (schedule_1 M n ! i, X[i mod 16 := schedule_1 M n ! i])"
proof -
  have "ROTATE_1 (X ! (i mod 16) XOR X ! ((i + 2) mod 16) XOR X ! ((i + 8) mod 16) XOR X ! ((i + 13) mod 16)) 1 = schedule_1 M n ! i"
    using ring_nth [OF assms(1,3), of 0] ring_nth [OF assms(1,3), of 2] ring_nth [OF assms(1,3), of 8]
      ring_nth [OF assms(1,3), of 13] schedule_1_rec [OF assms(2-4)] assms(3)
    by (simp add: ROTATE_rotl xor.assoc xor.commute xor.left_commute)
  then show ?thesis by (simp add: Xupdate_def Let_def)
qed

lemma sha1_loads:
  assumes "length v = 6" and "length X = 16" and "length M = 16" and "n \<le> 16" and "view6 0 v = v0"
  defines "r \<equiv> fold (sha1_load M) [0..<n] (X, v)"
  shows "length (fst r) = 16 \<and> (\<forall>j < n. fst r ! j = M ! j) \<and> length (snd r) = 6 \<and>
    view6 n (snd r) = fips_rounds_1 (schedule_1 M N) n v0"
  using assms(4) unfolding r_def
proof (induction n)
  case 0
  then show ?case using assms(1-3,5) by (simp add: fips_rounds_1_def)
next
  case (Suc n)
  obtain X' v' where r: "fold (sha1_load M) [0..<n] (X, v) = (X', v')" by fastforce
  with Suc have "length X' = 16" "\<forall>j < n. X' ! j = M ! j" "length v' = 6"
    "view6 n v' = fips_rounds_1 (schedule_1 M N) n v0" by simp_all
  moreover have "fold (sha1_load M) [0..<Suc n] (X, v) = (X'[n := M ! n], sha1_step n (M ! n) v')"
    using r by (simp add: sha1_load_def)
  ultimately show ?case
    using Suc.prems assms(3) schedule_1_first [of M n N]
    by (simp add: view6_step fips_rounds_1_Suc nth_list_update less_Suc_eq)
qed

lemma sha1_expands:
  assumes "ring X 16 W" and "length v = 6" and "length M = 16" and "W = schedule_1 M N"
    and "view6 16 v = fips_rounds_1 W 16 v0" and "n \<le> N"
  defines "r \<equiv> fold sha1_expand [16..<16 + n] (X, v)"
  shows "ring (fst r) (16 + n) W \<and> length (snd r) = 6 \<and> view6 (16 + n) (snd r) = fips_rounds_1 W (16 + n) v0"
  using assms(6) unfolding r_def
proof (induction n)
  case 0
  then show ?case using assms(1-5) by simp
next
  case (Suc n)
  obtain X' v' where r: "fold sha1_expand [16..<16 + n] (X, v) = (X', v')" by fastforce
  with Suc have h: "ring X' (16 + n) W" "length v' = 6" "view6 (16 + n) v' = fips_rounds_1 W (16 + n) v0" by simp_all
  have x: "Xupdate (16 + n) X' = (W ! (16 + n), X'[(16 + n) mod 16 := W ! (16 + n)])"
    using Xupdate_word [OF h(1) [unfolded assms(4)] assms(3)] Suc.prems unfolding assms(4) by simp
  have "[16..<16 + Suc n] = [16..<16 + n] @ [16 + n]" by (simp only: add_Suc_right upt_Suc_append le_add1)
  then have "fold sha1_expand [16..<16 + Suc n] (X, v) = sha1_expand (16 + n) (X', v')"
    using r by (simp only: fold_append comp_apply fold.simps id_apply)
  then have "fold sha1_expand [16..<16 + Suc n] (X, v) = (X'[(16 + n) mod 16 := W ! (16 + n)], sha1_step (16 + n) (W ! (16 + n)) v')"
    by (simp only: sha1_expand_def split_conv x Let_def)
  moreover have "ring (X'[(16 + n) mod 16 := W ! (16 + n)]) (16 + Suc n) W"
    using ring_next [OF h(1)] by simp
  moreover have "view6 (16 + Suc n) (sha1_step (16 + n) (W ! (16 + n)) v') = fips_rounds_1 W (16 + Suc n) v0"
    unfolding add_Suc_right view6_step [OF h(2)] fips_rounds_1_Suc h(3) by (rule refl)
  ultimately show ?case using h(2) by (simp only: fst_conv snd_conv length_sha1_step)
qed

lemma view6_first: "view6 0 [a, b, c, d, e, t] = [a, b, c, d, e]"
  by (simp add: view6_def reg6_def)

lemma view6_last: "length v = 6 \<Longrightarrow> view6 80 v = [v ! 4, v ! 5, v ! 0, v ! 1, v ! 2]"
  by (simp add: view6_def reg6_def)

lemma sha1_block_fips:
  assumes "length H = 5" and "HASH_CBLOCK \<le> length d"
  shows "sha1_block H d = fips_compress_1 H d"
proof -
  define M :: "u32 list" where "M = be_words 4 d"
  define v where "v = [H ! 0, H ! 1, H ! 2, H ! 3, H ! 4, 0]"
  let ?W = "schedule_1 M 64"
  have H: "H = [H ! 0, H ! 1, H ! 2, H ! 3, H ! 4]"
    using map_nth [of H] assms(1) by (simp add: eval_nat_numeral)
  have M: "length M = 16" by (simp add: M_def)
  have load: "fold (\<lambda>i (X, v). let l = HOST_c2l True d (4 * i) in (X[i := l], BODY_00_15 i l v)) [0..<16] r =
      fold (sha1_load M) [0..<16] r" for r
  proof (rule fold_cong)
    fix i assume i: "i \<in> set [0..<16]"
    then have "HOST_c2l True d (4 * i) = M ! i"
      using assms(2) c2l_word [of "4 * i" d] by (simp add: HASH_CBLOCK_def M_def be_words_nth)
    then show "(\<lambda>(X, v). let l = HOST_c2l True d (4 * i) in (X[i := l], BODY_00_15 i l v)) = sha1_load M i"
      using i by (auto simp: sha1_load_def bodies Let_def)
  qed simp_all
  obtain X' v' where r: "fold (sha1_load M) [0..<16] (replicate 16 0, v) = (X', v')" by fastforce
  have "view6 0 v = H" using H unfolding v_def view6_first by simp
  from sha1_loads [of v "replicate 16 0" M 16, OF _ _ M _ this, of 64]
  have l: "length X' = 16" "\<forall>j < 16. X' ! j = M ! j" "length v' = 6" "view6 16 v' = fips_rounds_1 ?W 16 H"
    unfolding r by (simp_all add: v_def)
  have "ring X' 16 ?W"
    using l M schedule_1_first [OF M, of _ 64] by (intro ring_start [of _ 64]) (simp_all add: schedule_1_def)
  note e = sha1_expands [OF this l(3) M refl l(4) order_refl]
  obtain X'' v'' where r': "fold sha1_expand [16..<80] (X', v') = (X'', v'')" by fastforce
  have len: "length v'' = 6" and w: "view6 80 v'' = fips_rounds_1 ?W 80 H"
    using e r' by (simp_all del: upt_rec_numeral)
  have "sha1_block H d = [H ! 0 + v'' ! 4, H ! 1 + v'' ! 5, H ! 2 + v'' ! 0, H ! 3 + v'' ! 1, H ! 4 + v'' ! 2]"
    unfolding sha1_block_def load v_def [symmetric] using r r' fold_bodies [of "(X', v')"] l(1)
    by (simp add: Let_def del: upt_rec_numeral)
  also have "\<dots> = map2 (+) H (view6 80 v'')"
    unfolding view6_last [OF len] by (subst (6) H) simp
  finally show ?thesis by (simp only: w fips_compress_1_def M_def)
qed

interpretation sha1: md32_function sha1_block_data_order sha1_block
proof
  show "sha1_block s (d @ e) = sha1_block s d" if "HASH_CBLOCK \<le> length d" for s d e
  proof -
    have "fold (\<lambda>i (X, v). let l = HOST_c2l True (d @ e) (4 * i) in (X[i := l], BODY_00_15 i l v)) [0..<16] r =
        fold (\<lambda>i (X, v). let l = HOST_c2l True d (4 * i) in (X[i := l], BODY_00_15 i l v)) [0..<16] r" for r
      by (rule fold_cong) (use that in \<open>auto simp: HASH_CBLOCK_def HOST_c2l_def nth_append\<close>)
    then show ?thesis by (simp only: sha1_block_def)
  qed
qed (simp_all add: HASH_CBLOCK_def)

lemma length_fips_compress_1: "length H = 5 \<Longrightarrow> length (fips_compress_1 H d) = 5"
proof -
  have "length v = 5 \<Longrightarrow> length (fips_rounds_1 W n v) = 5" for W n v
    by (induction n) (simp_all add: fips_rounds_1_def fips_round_1_def Let_def)
  then show "length H = 5 \<Longrightarrow> ?thesis" by (simp add: fips_compress_1_def)
qed

lemma sha1_blocks:
  assumes "length H = 5"
  shows "sha1.absorb H m = hash_blocks HASH_CBLOCK fips_compress_1 H m \<and> length (hash_blocks HASH_CBLOCK fips_compress_1 H m) = 5"
  unfolding sha1.absorb_blocks
  by (rule hash_blocks_cong) (use assms in \<open>simp_all add: sha1_block_fips length_fips_compress_1 HASH_CBLOCK_def\<close>)

section \<open>The context after the pieces of a message\<close>

lemma make_string_1:
  assumes "length (ctx_h c) = 5"
  shows "HASH_MAKE_STRING_1 c = concat (map (\<lambda>w. be_bytes 4 (unat w)) (ctx_h c))"
proof -
  have "[0..<5] = [0, 1, 2, 3, 4 :: nat]" by code_simp
  then have "ctx_h c = [ctx_h c ! 0, ctx_h c ! 1, ctx_h c ! 2, ctx_h c ! 3, ctx_h c ! 4]"
    using map_nth [of "ctx_h c"] assms by simp
  then have "concat (map (\<lambda>w. be_bytes 4 (unat w)) (ctx_h c)) =
      concat (map (\<lambda>w. be_bytes 4 (unat w)) [ctx_h c ! 0, ctx_h c ! 1, ctx_h c ! 2, ctx_h c ! 3, ctx_h c ! 4])" by (rule arg_cong)
  then show ?thesis by (simp add: HASH_MAKE_STRING_1_def l2c_bytes)
qed

lemma sha1_start: "sha1.absorbed (ctx_h SHA1_Init) SHA1_Init []"
  by (rule sha1.absorbed_start) (simp_all add: SHA1_Init_def)

lemma sha1_final:
  assumes "sha1.absorbed (ctx_h SHA1_Init) c m"
  shows "fst (SHA1_Final c) = fips_sha1 (ctx_h SHA1_Init) m"
proof -
  have "length (ctx_h SHA1_Init) = 5" by (simp add: SHA1_Init_def)
  then show ?thesis
    using sha1_blocks [of "ctx_h SHA1_Init" "hash_pad HASH_CBLOCK 8 (length_bytes True) m"]
    unfolding SHA1_Final_def sha1.absorbed_final [OF assms] fst_conv
    by (subst make_string_1) (simp_all add: fips_sha1_def length_bytes_be)
qed

lemma length_fips_sha1: "length (fips_sha1 (ctx_h SHA1_Init) m) = 20"
proof -
  have "length (ctx_h SHA1_Init) = 5" by (simp add: SHA1_Init_def)
  from sha1_blocks [OF this] show ?thesis by (simp add: fips_sha1_def length_concat comp_def sum_list_triv)
qed

end
