(* ===== verification/Sha256.thy ===== *)
theory Sha256
  imports Sha2
begin

text \<open>
  SHA-224 and SHA-256, \<open>fipsmodule/sha/sha256.c\<close>: the context, the tables and macros, the block
  function (the portable one: the pod is built without assembly), and the functions the template
  \<open>md32_common.h\<close> makes of it; then the hash of FIPS 180-4 and the proof that the code computes
  it, in whatever pieces the message arrives.
\<close>

unbundle bit_operations_syntax

section \<open>The code\<close>

record sha256_ctx = md32_ctx +
  sha256_md_len :: nat

definition SHA224_DIGEST_LENGTH :: nat where "SHA224_DIGEST_LENGTH = 28"
definition SHA256_DIGEST_LENGTH :: nat where "SHA256_DIGEST_LENGTH = 32"

definition SHA224_Init :: sha256_ctx where
  "SHA224_Init =
     \<lparr>ctx_h = [0xc1059ed8, 0x367cd507, 0x3070dd17, 0xf70e5939, 0xffc00b31, 0x68581511, 0x64f98fa7, 0xbefa4fa4],
      Nl = 0, Nh = 0, ctx_data = replicate HASH_CBLOCK 0, ctx_num = 0, sha256_md_len = SHA224_DIGEST_LENGTH\<rparr>"

definition SHA256_Init :: sha256_ctx where
  "SHA256_Init =
     \<lparr>ctx_h = [0x6a09e667, 0xbb67ae85, 0x3c6ef372, 0xa54ff53a, 0x510e527f, 0x9b05688c, 0x1f83d9ab, 0x5be0cd19],
      Nl = 0, Nh = 0, ctx_data = replicate HASH_CBLOCK 0, ctx_num = 0, sha256_md_len = SHA256_DIGEST_LENGTH\<rparr>"

definition K256 :: "u32 list" where
  "K256 = concat [
    [0x428a2f98, 0x71374491, 0xb5c0fbcf, 0xe9b5dba5, 0x3956c25b, 0x59f111f1],
    [0x923f82a4, 0xab1c5ed5, 0xd807aa98, 0x12835b01, 0x243185be, 0x550c7dc3],
    [0x72be5d74, 0x80deb1fe, 0x9bdc06a7, 0xc19bf174, 0xe49b69c1, 0xefbe4786],
    [0x0fc19dc6, 0x240ca1cc, 0x2de92c6f, 0x4a7484aa, 0x5cb0a9dc, 0x76f988da],
    [0x983e5152, 0xa831c66d, 0xb00327c8, 0xbf597fc7, 0xc6e00bf3, 0xd5a79147],
    [0x06ca6351, 0x14292967, 0x27b70a85, 0x2e1b2138, 0x4d2c6dfc, 0x53380d13],
    [0x650a7354, 0x766a0abb, 0x81c2c92e, 0x92722c85, 0xa2bfe8a1, 0xa81a664b],
    [0xc24b8b70, 0xc76c51a3, 0xd192e819, 0xd6990624, 0xf40e3585, 0x106aa070],
    [0x19a4c116, 0x1e376c08, 0x2748774c, 0x34b0bcb5, 0x391c0cb3, 0x4ed8aa4a],
    [0x5b9cca4f, 0x682e6ff3, 0x748f82ee, 0x78a5636f, 0x84c87814, 0x8cc70208],
    [0x90befffa, 0xa4506ceb, 0xbef9a3f7, 0xc67178f2]]"

definition ROTATE :: "u32 \<Rightarrow> nat \<Rightarrow> u32" where
  "ROTATE a n = push_bit n a OR drop_bit (32 - n) a"

definition Sigma0_256 :: "u32 \<Rightarrow> u32" where "Sigma0_256 x = ROTATE x 30 XOR ROTATE x 19 XOR ROTATE x 10"
definition Sigma1_256 :: "u32 \<Rightarrow> u32" where "Sigma1_256 x = ROTATE x 26 XOR ROTATE x 21 XOR ROTATE x 7"
definition sigma0_256 :: "u32 \<Rightarrow> u32" where "sigma0_256 x = ROTATE x 25 XOR ROTATE x 14 XOR drop_bit 3 x"
definition sigma1_256 :: "u32 \<Rightarrow> u32" where "sigma1_256 x = ROTATE x 15 XOR ROTATE x 13 XOR drop_bit 10 x"

text \<open>The eight variables are the list \<open>v\<close>; \<open>reg8 i j\<close> is the one that round \<open>i\<close> has as its
  \<open>j\<close>-th argument. The index \<open>& 0x0f\<close> is the remainder by 16.\<close>

definition ROUND_00_15_256 :: "nat \<Rightarrow> u32 \<Rightarrow> u32 list \<Rightarrow> u32 list" where
  "ROUND_00_15_256 i T1 v =
     (let a = v ! reg8 i 0; b = v ! reg8 i 1; c = v ! reg8 i 2; d = v ! reg8 i 3;
          e = v ! reg8 i 4; f = v ! reg8 i 5; g = v ! reg8 i 6; h = v ! reg8 i 7;
          T1 = T1 + (h + Sigma1_256 e + Ch e f g + K256 ! i);
          h = Sigma0_256 a + Maj a b c;
          d = d + T1;
          h = h + T1
      in v[reg8 i 3 := d, reg8 i 7 := h])"

definition ROUND_16_63_256 :: "nat \<Rightarrow> u32 list \<times> u32 list \<Rightarrow> u32 list \<times> u32 list" where
  "ROUND_16_63_256 i = (\<lambda>(X, v).
     let s0 = sigma0_256 (X ! ((i + 1) mod 16));
         s1 = sigma1_256 (X ! ((i + 14) mod 16));
         T1 = X ! (i mod 16) + (s0 + s1 + X ! ((i + 9) mod 16))
     in (X[i mod 16 := T1], ROUND_00_15_256 i T1 v))"

text \<open>The body of the \<open>while (num--)\<close> loop; \<open>X\<close> is written before it is read.\<close>

definition sha256_block :: "u32 list \<Rightarrow> bytes \<Rightarrow> u32 list" where
  "sha256_block state d =
     (let r = fold (\<lambda>i (X, v). let l = HOST_c2l True d (4 * i) in (X[i := l], ROUND_00_15_256 i l v))
                [0..<16] (replicate 16 0, state);
          (X, v) = fold ROUND_16_63_256 [16..<64] r
      in map2 (+) state v)"

fun sha256_block_data_order :: "u32 list block_fn" where
  "sha256_block_data_order state d 0 = state"
| "sha256_block_data_order state d (Suc num) =
     sha256_block_data_order (sha256_block state d) (drop HASH_CBLOCK d) num"

definition SHA256_TransformBlocks :: "u32 list block_fn" where
  "SHA256_TransformBlocks state d num_blocks = sha256_block_data_order state d num_blocks"

text \<open>\<open>HASH_MAKE_STRING\<close>: \<open>None\<close> is the early return of 0.\<close>

definition HASH_MAKE_STRING_256 :: "sha256_ctx \<Rightarrow> bytes option" where
  "HASH_MAKE_STRING_256 c =
     (if sha256_md_len c = SHA224_DIGEST_LENGTH
      then Some (concat (map (\<lambda>nn. HOST_l2c True (ctx_h c ! nn)) [0..<SHA224_DIGEST_LENGTH div 4]))
      else if sha256_md_len c = SHA256_DIGEST_LENGTH
      then Some (concat (map (\<lambda>nn. HOST_l2c True (ctx_h c ! nn)) [0..<SHA256_DIGEST_LENGTH div 4]))
      else if sha256_md_len c > SHA256_DIGEST_LENGTH then None
      else Some (concat (map (\<lambda>nn. HOST_l2c True (ctx_h c ! nn)) [0..<sha256_md_len c div 4])))"

definition SHA256_Update :: "sha256_ctx \<Rightarrow> bytes \<Rightarrow> sha256_ctx" where
  "SHA256_Update = HASH_UPDATE sha256_block_data_order"

definition SHA256_Transform :: "sha256_ctx \<Rightarrow> bytes \<Rightarrow> sha256_ctx" where
  "SHA256_Transform = HASH_TRANSFORM sha256_block_data_order"

definition SHA256_Final :: "sha256_ctx \<Rightarrow> bytes option \<times> sha256_ctx" where
  "SHA256_Final = HASH_FINAL True sha256_block_data_order HASH_MAKE_STRING_256"

definition SHA224_Update :: "sha256_ctx \<Rightarrow> bytes \<Rightarrow> sha256_ctx" where
  "SHA224_Update ctx d = SHA256_Update ctx d"

definition SHA224_Final :: "sha256_ctx \<Rightarrow> bytes option \<times> sha256_ctx" where
  "SHA224_Final ctx = SHA256_Final ctx"

definition SHA224 :: "bytes \<Rightarrow> bytes option" where
  "SHA224 d = fst (SHA224_Final (SHA224_Update SHA224_Init d))"

definition SHA256 :: "bytes \<Rightarrow> bytes option" where
  "SHA256 d = fst (SHA256_Final (SHA256_Update SHA256_Init d))"

section \<open>The hash of FIPS 180-4\<close>

definition fips_compress_256 :: "u32 list \<Rightarrow> bytes \<Rightarrow> u32 list" where
  "fips_compress_256 H d =
     fips_compress
       (\<lambda>x. word_rotr 2 x XOR word_rotr 13 x XOR word_rotr 22 x)
       (\<lambda>x. word_rotr 6 x XOR word_rotr 11 x XOR word_rotr 25 x)
       (\<lambda>x. word_rotr 7 x XOR word_rotr 18 x XOR drop_bit 3 x)
       (\<lambda>x. word_rotr 17 x XOR word_rotr 19 x XOR drop_bit 10 x)
       K256 H (be_words 4 d)"

definition fips_sha256 :: "u32 list \<Rightarrow> nat \<Rightarrow> bytes \<Rightarrow> bytes" where
  "fips_sha256 iv n m =
     take n (concat (map (\<lambda>w. be_bytes 4 (unat w))
       (hash_blocks HASH_CBLOCK fips_compress_256 iv (hash_pad HASH_CBLOCK 8 (be_bytes 8) m))))"

section \<open>The block function\<close>

lemma ROTATE_rotr: "0 < n \<Longrightarrow> n \<le> 32 \<Longrightarrow> ROTATE x n = word_rotr (32 - n) x"
  using rotate_word [of n x] by (simp add: ROTATE_def)

lemma sigmas_256:
  "Sigma0_256 = (\<lambda>x. word_rotr 2 x XOR word_rotr 13 x XOR word_rotr 22 x)"
  "Sigma1_256 = (\<lambda>x. word_rotr 6 x XOR word_rotr 11 x XOR word_rotr 25 x)"
  "sigma0_256 = (\<lambda>x. word_rotr 7 x XOR word_rotr 18 x XOR drop_bit 3 x)"
  "sigma1_256 = (\<lambda>x. word_rotr 17 x XOR word_rotr 19 x XOR drop_bit 10 x)"
  by (auto simp: Sigma0_256_def Sigma1_256_def sigma0_256_def sigma1_256_def ROTATE_rotr)

lemma length_K256: "length K256 = 64"
  by (simp add: K256_def)

lemma round_256: "ROUND_00_15_256 i T1 v = sha2_step Sigma0_256 Sigma1_256 (K256 ! i) i T1 v"
  by (simp add: ROUND_00_15_256_def sha2_step_def Let_def)

lemma expand_256: "ROUND_16_63_256 = sha2_expand Sigma0_256 Sigma1_256 sigma0_256 sigma1_256 K256"
  by (intro ext) (simp add: ROUND_16_63_256_def sha2_expand_def round_256)

lemma sha256_block_fips:
  assumes "length H = 8" and "HASH_CBLOCK \<le> length d"
  shows "sha256_block H d = fips_compress_256 H d"
proof -
  define M :: "u32 list" where "M = be_words 4 d"
  have load: "fold (\<lambda>i (X, v). let l = HOST_c2l True d (4 * i) in (X[i := l], ROUND_00_15_256 i l v)) [0..<16] r =
      fold (sha2_load Sigma0_256 Sigma1_256 K256 M) [0..<16] r" for r
  proof (rule fold_cong)
    fix i assume "i \<in> set [0..<16]"
    then have "HOST_c2l True d (4 * i) = M ! i"
      using assms(2) c2l_word [of "4 * i" d] by (simp add: HASH_CBLOCK_def M_def be_words_nth)
    then show "(\<lambda>(X, v). let l = HOST_c2l True d (4 * i) in (X[i := l], ROUND_00_15_256 i l v)) = sha2_load Sigma0_256 Sigma1_256 K256 M i"
      by (simp add: sha2_load_def round_256 Let_def)
  qed simp_all
  have "snd (fold ROUND_16_63_256 [16..<64] (fold (sha2_load Sigma0_256 Sigma1_256 K256 M) [0..<16] (replicate 16 0, H))) =
      fips_rounds Sigma0_256 Sigma1_256 K256 (schedule sigma0_256 sigma1_256 M 48) 64 H"
    using sha2_rounds [of H "replicate 16 0" M 48 Sigma0_256 Sigma1_256 sigma0_256 sigma1_256 K256] assms(1)
    unfolding expand_256 M_def by (simp del: upt_rec_numeral)
  then show ?thesis
    unfolding sha256_block_def load fips_compress_256_def fips_compress_def length_K256 sigmas_256 [symmetric] M_def [symmetric]
    by (simp add: split_beta Let_def del: upt_rec_numeral)
qed

interpretation sha256: md32_function sha256_block_data_order sha256_block
proof
  show "sha256_block s (d @ e) = sha256_block s d" if "HASH_CBLOCK \<le> length d" for s d e
  proof -
    have "fold (\<lambda>i (X, v). let l = HOST_c2l True (d @ e) (4 * i) in (X[i := l], ROUND_00_15_256 i l v)) [0..<16] r =
        fold (\<lambda>i (X, v). let l = HOST_c2l True d (4 * i) in (X[i := l], ROUND_00_15_256 i l v)) [0..<16] r" for r
      by (rule fold_cong) (use that in \<open>auto simp: HASH_CBLOCK_def HOST_c2l_def nth_append\<close>)
    then show ?thesis by (simp add: sha256_block_def)
  qed
qed (simp_all add: HASH_CBLOCK_def)

lemma sha256_blocks:
  assumes "length H = 8"
  shows "sha256.absorb H m = hash_blocks HASH_CBLOCK fips_compress_256 H m \<and> length (hash_blocks HASH_CBLOCK fips_compress_256 H m) = 8"
  unfolding sha256.absorb_blocks
  by (rule hash_blocks_cong)
    (use assms in \<open>simp_all add: sha256_block_fips length_fips_compress fips_compress_256_def HASH_CBLOCK_def\<close>)

section \<open>The context after the pieces of a message\<close>

lemma md_len_more: "md32_ctx.more c = \<lparr>sha256_md_len = n\<rparr> \<Longrightarrow> sha256_md_len c = n"
  by (cases c) simp

lemma make_string_256:
  assumes "length (ctx_h c) = 8" and "sha256_md_len c = 28 \<or> sha256_md_len c = 32"
  shows "HASH_MAKE_STRING_256 c = Some (take (sha256_md_len c) (concat (map (\<lambda>w. be_bytes 4 (unat w)) (ctx_h c))))"
  using assms concat_words [of "\<lambda>w :: u32. be_bytes 4 (unat w)" 4 7 "ctx_h c"] concat_words [of "\<lambda>w :: u32. be_bytes 4 (unat w)" 4 8 "ctx_h c"]
  by (auto simp: HASH_MAKE_STRING_256_def SHA224_DIGEST_LENGTH_def SHA256_DIGEST_LENGTH_def l2c_bytes simp del: upt_Suc)

definition sha256_iv :: "sha256_ctx \<Rightarrow> bool" where
  "sha256_iv c \<longleftrightarrow> length (ctx_h c) = 8 \<and> Nl c = 0 \<and> Nh c = 0 \<and> ctx_num c = 0 \<and> length (ctx_data c) = HASH_CBLOCK \<and>
     (sha256_md_len c = 28 \<or> sha256_md_len c = 32)"

lemma sha256_inits: "sha256_iv SHA256_Init" "sha256_iv SHA224_Init"
  by (simp_all add: sha256_iv_def SHA256_Init_def SHA224_Init_def SHA224_DIGEST_LENGTH_def SHA256_DIGEST_LENGTH_def)

text \<open>A context of the hash with initial value \<open>iv\<close> and output of \<open>n\<close> bytes, after \<open>m\<close>.\<close>

definition sha256_at :: "u32 list \<Rightarrow> nat \<Rightarrow> sha256_ctx \<Rightarrow> bytes \<Rightarrow> bool" where
  "sha256_at iv n c m \<longleftrightarrow> length iv = 8 \<and> (n = 28 \<or> n = 32) \<and> sha256_md_len c = n \<and> sha256.absorbed iv c m"

lemma md_len_update [simp]: "sha256_md_len (HASH_UPDATE blk c d) = sha256_md_len c"
  by (simp add: HASH_UPDATE_def Let_def hash_count_def)

lemma sha256_at_init: "sha256_at (ctx_h SHA256_Init) 32 SHA256_Init []" "sha256_at (ctx_h SHA224_Init) 28 SHA224_Init []"
  using sha256_inits by (simp_all add: sha256_at_def sha256_iv_def sha256.absorbed_start SHA256_Init_def SHA224_Init_def SHA224_DIGEST_LENGTH_def SHA256_DIGEST_LENGTH_def)

lemma sha256_at_update: "sha256_at iv n c m \<Longrightarrow> sha256_at iv n (SHA256_Update c d) (m @ d)"
  by (simp add: sha256_at_def SHA256_Update_def sha256.absorbed_update)

lemma sha256_at_final:
  assumes "sha256_at iv n c m"
  shows "fst (SHA256_Final c) = Some (fips_sha256 iv n m)"
proof -
  have c: "sha256.absorbed iv c m" using assms by (simp add: sha256_at_def)
  show ?thesis
    using sha256_blocks [of iv "hash_pad HASH_CBLOCK 8 (length_bytes True) m"] assms
    unfolding SHA256_Final_def sha256.absorbed_final [OF c] fst_conv
    by (subst make_string_256) (auto simp: sha256_at_def fips_sha256_def length_bytes_be)
qed

lemma length_fips_sha256:
  assumes "length iv = 8" and "n \<le> 32"
  shows "length (fips_sha256 iv n m) = n"
proof -
  let ?h = "hash_blocks HASH_CBLOCK fips_compress_256 iv (hash_pad HASH_CBLOCK 8 (be_bytes 8) m)"
  have "length ?h = 8" using sha256_blocks [OF assms(1)] by blast
  then have "length (concat (map (\<lambda>w. be_bytes 4 (unat w)) ?h)) = 32" by (simp add: length_concat comp_def sum_list_triv)
  with assms(2) show ?thesis by (simp add: fips_sha256_def)
qed

lemma sha256_fold: "sha256_at iv n c m \<Longrightarrow> sha256_at iv n (fold (\<lambda>d c. SHA256_Update c d) ds c) (m @ concat ds)"
  by (induction ds arbitrary: c m) (simp, metis sha256_at_update append.assoc concat.simps(2) fold_simps(2))

lemma sha256_hashes:
  "fst (SHA256_Final (fold (\<lambda>d c. SHA256_Update c d) ds SHA256_Init)) = Some (fips_sha256 (ctx_h SHA256_Init) 32 (concat ds)) \<and>
   fst (SHA224_Final (fold (\<lambda>d c. SHA224_Update c d) ds SHA224_Init)) = Some (fips_sha256 (ctx_h SHA224_Init) 28 (concat ds))"
  using sha256_at_final [OF sha256_fold [OF sha256_at_init(1), of ds]] sha256_at_final [OF sha256_fold [OF sha256_at_init(2), of ds]]
  by (simp add: SHA224_Final_def SHA224_Update_def)

end
