(* ===== verification/Sha512.thy ===== *)
theory Sha512
  imports Sha2 Mem
begin

text \<open>
  SHA-384 and SHA-512, \<open>fipsmodule/sha/sha512.c\<close>: the context, the tables and macros, the block
  function (the portable 64-bit one), and the file's own update and final functions; then the hash
  of FIPS 180-4 and the proof that the code computes it, in whatever pieces the message arrives.
\<close>

unbundle bit_operations_syntax

section \<open>The code\<close>

record sha512_ctx =
  sha_h :: "u64 list"
  sha_Nl :: u64
  sha_Nh :: u64
  sha_p :: bytes
  sha_num :: nat
  sha512_md_len :: nat

definition SHA512_CBLOCK :: nat where "SHA512_CBLOCK = 128"
definition SHA384_DIGEST_LENGTH :: nat where "SHA384_DIGEST_LENGTH = 48"
definition SHA512_DIGEST_LENGTH :: nat where "SHA512_DIGEST_LENGTH = 64"

text \<open>The initialisers leave the buffer as it is.\<close>

definition SHA384_Init :: "sha512_ctx \<Rightarrow> sha512_ctx" where
  "SHA384_Init sha = sha
     \<lparr>sha_h := [0xcbbb9d5dc1059ed8, 0x629a292a367cd507, 0x9159015a3070dd17, 0x152fecd8f70e5939,
                0x67332667ffc00b31, 0x8eb44a8768581511, 0xdb0c2e0d64f98fa7, 0x47b5481dbefa4fa4],
      sha_Nl := 0, sha_Nh := 0, sha_num := 0, sha512_md_len := SHA384_DIGEST_LENGTH\<rparr>"

definition SHA512_Init :: "sha512_ctx \<Rightarrow> sha512_ctx" where
  "SHA512_Init sha = sha
     \<lparr>sha_h := [0x6a09e667f3bcc908, 0xbb67ae8584caa73b, 0x3c6ef372fe94f82b, 0xa54ff53a5f1d36f1,
                0x510e527fade682d1, 0x9b05688c2b3e6c1f, 0x1f83d9abfb41bd6b, 0x5be0cd19137e2179],
      sha_Nl := 0, sha_Nh := 0, sha_num := 0, sha512_md_len := SHA512_DIGEST_LENGTH\<rparr>"

definition K512 :: "u64 list" where
  "K512 = concat [
    [0x428a2f98d728ae22, 0x7137449123ef65cd, 0xb5c0fbcfec4d3b2f, 0xe9b5dba58189dbbc],
    [0x3956c25bf348b538, 0x59f111f1b605d019, 0x923f82a4af194f9b, 0xab1c5ed5da6d8118],
    [0xd807aa98a3030242, 0x12835b0145706fbe, 0x243185be4ee4b28c, 0x550c7dc3d5ffb4e2],
    [0x72be5d74f27b896f, 0x80deb1fe3b1696b1, 0x9bdc06a725c71235, 0xc19bf174cf692694],
    [0xe49b69c19ef14ad2, 0xefbe4786384f25e3, 0x0fc19dc68b8cd5b5, 0x240ca1cc77ac9c65],
    [0x2de92c6f592b0275, 0x4a7484aa6ea6e483, 0x5cb0a9dcbd41fbd4, 0x76f988da831153b5],
    [0x983e5152ee66dfab, 0xa831c66d2db43210, 0xb00327c898fb213f, 0xbf597fc7beef0ee4],
    [0xc6e00bf33da88fc2, 0xd5a79147930aa725, 0x06ca6351e003826f, 0x142929670a0e6e70],
    [0x27b70a8546d22ffc, 0x2e1b21385c26c926, 0x4d2c6dfc5ac42aed, 0x53380d139d95b3df],
    [0x650a73548baf63de, 0x766a0abb3c77b2a8, 0x81c2c92e47edaee6, 0x92722c851482353b],
    [0xa2bfe8a14cf10364, 0xa81a664bbc423001, 0xc24b8b70d0f89791, 0xc76c51a30654be30],
    [0xd192e819d6ef5218, 0xd69906245565a910, 0xf40e35855771202a, 0x106aa07032bbd1b8],
    [0x19a4c116b8d2d0c8, 0x1e376c085141ab53, 0x2748774cdf8eeb99, 0x34b0bcb5e19b48a8],
    [0x391c0cb3c5c95a63, 0x4ed8aa4ae3418acb, 0x5b9cca4f7763e373, 0x682e6ff3d6b2b8a3],
    [0x748f82ee5defb2fc, 0x78a5636f43172f60, 0x84c87814a1f0ab72, 0x8cc702081a6439ec],
    [0x90befffa23631e28, 0xa4506cebde82bde9, 0xbef9a3f7b2c67915, 0xc67178f2e372532b],
    [0xca273eceea26619c, 0xd186b8c721c0c207, 0xeada7dd6cde0eb1e, 0xf57d4f7fee6ed178],
    [0x06f067aa72176fba, 0x0a637dc5a2c898a6, 0x113f9804bef90dae, 0x1b710b35131c471b],
    [0x28db77f523047d84, 0x32caab7b40c72493, 0x3c9ebe0a15c9bebc, 0x431d67c49c100d4c],
    [0x4cc5d4becb3e42b6, 0x597f299cfc657e2a, 0x5fcb6fab3ad6faec, 0x6c44198c4a475817]]"

definition ROTR :: "u64 \<Rightarrow> nat \<Rightarrow> u64" where
  "ROTR x s = drop_bit s x OR push_bit (64 - s) x"

text \<open>The host is little endian: the word in memory, its bytes reversed.\<close>

definition load_u64_be :: "bytes \<Rightarrow> nat \<Rightarrow> u64" where
  "load_u64_be d i = (let ret = of_nat (le_val (take 8 (drop i d))) in CRYPTO_bswap8 ret)"

definition Sigma0_512 :: "u64 \<Rightarrow> u64" where "Sigma0_512 x = ROTR x 28 XOR ROTR x 34 XOR ROTR x 39"
definition Sigma1_512 :: "u64 \<Rightarrow> u64" where "Sigma1_512 x = ROTR x 14 XOR ROTR x 18 XOR ROTR x 41"
definition sigma0_512 :: "u64 \<Rightarrow> u64" where "sigma0_512 x = ROTR x 1 XOR ROTR x 8 XOR drop_bit 7 x"
definition sigma1_512 :: "u64 \<Rightarrow> u64" where "sigma1_512 x = ROTR x 19 XOR ROTR x 61 XOR drop_bit 6 x"

text \<open>The eight variables are the list \<open>v\<close>; \<open>reg8 i j\<close> is the one that round \<open>i\<close> has as its
  \<open>j\<close>-th argument. The round of the loop is \<open>i + j\<close>, with \<open>i\<close> a multiple of 16.\<close>

definition ROUND_00_15_512 :: "nat \<Rightarrow> u64 \<Rightarrow> u64 list \<Rightarrow> u64 list" where
  "ROUND_00_15_512 i T1 v =
     (let a = v ! reg8 i 0; b = v ! reg8 i 1; c = v ! reg8 i 2; d = v ! reg8 i 3;
          e = v ! reg8 i 4; f = v ! reg8 i 5; g = v ! reg8 i 6; h = v ! reg8 i 7;
          T1 = T1 + (h + Sigma1_512 e + Ch e f g + K512 ! i);
          h = Sigma0_512 a + Maj a b c;
          d = d + T1;
          h = h + T1
      in v[reg8 i 3 := d, reg8 i 7 := h])"

definition ROUND_16_80 :: "nat \<Rightarrow> nat \<Rightarrow> u64 list \<times> u64 list \<Rightarrow> u64 list \<times> u64 list" where
  "ROUND_16_80 i j = (\<lambda>(X, v).
     let s0 = sigma0_512 (X ! ((j + 1) mod 16));
         s1 = sigma1_512 (X ! ((j + 14) mod 16));
         T1 = X ! (j mod 16) + (s0 + s1 + X ! ((j + 9) mod 16))
     in (X[j mod 16 := T1], ROUND_00_15_512 (i + j) T1 v))"

text \<open>The body of the \<open>while (num--)\<close> loop; \<open>X\<close> is written before it is read.\<close>

definition sha512_block :: "u64 list \<Rightarrow> bytes \<Rightarrow> u64 list" where
  "sha512_block state d =
     (let r = fold (\<lambda>i (X, v). let T1 = load_u64_be d (i * 8) in (X[i := T1], ROUND_00_15_512 i T1 v))
                [0..<16] (replicate 16 0, state);
          (X, v) = fold (\<lambda>i. fold (ROUND_16_80 i) [0..<16]) [16, 32, 48, 64] r
      in map2 (+) state v)"

fun sha512_block_data_order :: "u64 list block_fn" where
  "sha512_block_data_order state d 0 = state"
| "sha512_block_data_order state d (Suc num) =
     sha512_block_data_order (sha512_block state d) (drop (16 * 8) d) num"

definition SHA512_Transform :: "sha512_ctx \<Rightarrow> bytes \<Rightarrow> sha512_ctx" where
  "SHA512_Transform c block = c\<lparr>sha_h := sha512_block_data_order (sha_h c) block 1\<rparr>"

definition SHA512_Update :: "sha512_ctx \<Rightarrow> bytes \<Rightarrow> sha512_ctx" where
  "SHA512_Update c d =
     (let len = length d
      in if len = 0 then c
         else
           let l = sha_Nl c + push_bit 3 (of_nat len);
               c = (if l < sha_Nl c then c\<lparr>sha_Nh := sha_Nh c + 1\<rparr> else c);
               c = c\<lparr>sha_Nh := sha_Nh c + of_nat (len div 2 ^ 61), sha_Nl := l\<rparr>;
               n = SHA512_CBLOCK - sha_num c
           in if sha_num c \<noteq> 0 \<and> len < n
              then c\<lparr>sha_p := copy_to (sha_p c) (sha_num c) d, sha_num := sha_num c + len\<rparr>
              else
                let (c, d) =
                      (if sha_num c \<noteq> 0
                       then let p = copy_to (sha_p c) (sha_num c) (take n d)
                            in (c\<lparr>sha_p := p, sha_num := 0, sha_h := sha512_block_data_order (sha_h c) p 1\<rparr>, drop n d)
                       else (c, d));
                    len = length d;
                    (c, d) =
                      (if len \<ge> SHA512_CBLOCK
                       then (c\<lparr>sha_h := sha512_block_data_order (sha_h c) d (len div SHA512_CBLOCK)\<rparr>,
                             drop (len - len mod SHA512_CBLOCK) d)
                       else (c, d))
                in if length d \<noteq> 0 then c\<lparr>sha_p := copy_to (sha_p c) 0 d, sha_num := length d\<rparr> else c)"

text \<open>The eight bytes of a word, as the final function stores them.\<close>

definition u64_store :: "u64 \<Rightarrow> bytes" where
  "u64_store t =
     [ucast (drop_bit 56 t), ucast (drop_bit 48 t), ucast (drop_bit 40 t), ucast (drop_bit 32 t),
      ucast (drop_bit 24 t), ucast (drop_bit 16 t), ucast (drop_bit 8 t), ucast t]"

text \<open>\<open>out\<close>: whether the output pointer is not \<open>NULL\<close>. \<open>None\<close> is the return value 0.\<close>

definition SHA512_Final :: "bool \<Rightarrow> sha512_ctx \<Rightarrow> bytes option \<times> sha512_ctx" where
  "SHA512_Final out sha =
     (let p = (sha_p sha)[sha_num sha := 0x80];
          n = sha_num sha + 1;
          (h, p, n) =
            (if n > SHA512_CBLOCK - 16
             then let p = copy_to p n (replicate (SHA512_CBLOCK - n) 0)
                  in (sha512_block_data_order (sha_h sha) p 1, p, 0)
             else (sha_h sha, p, n));
          p = copy_to p n (replicate (SHA512_CBLOCK - 16 - n) 0);
          p = copy_to p (SHA512_CBLOCK - 16) (u64_store (sha_Nh sha) @ u64_store (sha_Nl sha));
          h = sha512_block_data_order h p 1;
          sha = sha\<lparr>sha_h := h, sha_p := p\<rparr>
      in (if \<not> out then None
          else if sha512_md_len sha = SHA384_DIGEST_LENGTH
          then Some (concat (map (\<lambda>n. u64_store (h ! n)) [0..<SHA384_DIGEST_LENGTH div 8]))
          else if sha512_md_len sha = SHA512_DIGEST_LENGTH
          then Some (concat (map (\<lambda>n. u64_store (h ! n)) [0..<SHA512_DIGEST_LENGTH div 8]))
          else None,
          sha))"

definition SHA384_Update :: "sha512_ctx \<Rightarrow> bytes \<Rightarrow> sha512_ctx" where
  "SHA384_Update sha d = SHA512_Update sha d"

definition SHA384_Final :: "bool \<Rightarrow> sha512_ctx \<Rightarrow> bytes option \<times> sha512_ctx" where
  "SHA384_Final out sha = SHA512_Final out sha"

text \<open>The context on the stack holds anything at first: \<open>ctx\<close>.\<close>

definition SHA384 :: "sha512_ctx \<Rightarrow> bytes \<Rightarrow> bytes option" where
  "SHA384 ctx d = fst (SHA384_Final True (SHA384_Update (SHA384_Init ctx) d))"

definition SHA512 :: "sha512_ctx \<Rightarrow> bytes \<Rightarrow> bytes option" where
  "SHA512 ctx d = fst (SHA512_Final True (SHA512_Update (SHA512_Init ctx) d))"

section \<open>The hash of FIPS 180-4\<close>

definition fips_compress_512 :: "u64 list \<Rightarrow> bytes \<Rightarrow> u64 list" where
  "fips_compress_512 H d =
     fips_compress
       (\<lambda>x. word_rotr 28 x XOR word_rotr 34 x XOR word_rotr 39 x)
       (\<lambda>x. word_rotr 14 x XOR word_rotr 18 x XOR word_rotr 41 x)
       (\<lambda>x. word_rotr 1 x XOR word_rotr 8 x XOR drop_bit 7 x)
       (\<lambda>x. word_rotr 19 x XOR word_rotr 61 x XOR drop_bit 6 x)
       K512 H (be_words 8 d)"

definition fips_sha512 :: "u64 list \<Rightarrow> nat \<Rightarrow> bytes \<Rightarrow> bytes" where
  "fips_sha512 iv n m =
     take n (concat (map (\<lambda>w. be_bytes 8 (unat w))
       (hash_blocks SHA512_CBLOCK fips_compress_512 iv (hash_pad SHA512_CBLOCK 16 (be_bytes 16) m))))"

section \<open>The block function\<close>

lemma ROTR_rotr: "0 < n \<Longrightarrow> n < 64 \<Longrightarrow> ROTR x n = word_rotr n x"
  using rotate_word [of "64 - n" x] by (simp add: ROTR_def or.commute)

lemma sigmas_512:
  "Sigma0_512 = (\<lambda>x. word_rotr 28 x XOR word_rotr 34 x XOR word_rotr 39 x)"
  "Sigma1_512 = (\<lambda>x. word_rotr 14 x XOR word_rotr 18 x XOR word_rotr 41 x)"
  "sigma0_512 = (\<lambda>x. word_rotr 1 x XOR word_rotr 8 x XOR drop_bit 7 x)"
  "sigma1_512 = (\<lambda>x. word_rotr 19 x XOR word_rotr 61 x XOR drop_bit 6 x)"
  by (auto simp: Sigma0_512_def Sigma1_512_def sigma0_512_def sigma1_512_def ROTR_rotr)

lemma length_K512: "length K512 = 80"
  by (simp add: K512_def)

lemma bit_le_val: "bit (of_nat (le_val d) :: 'a :: len word) n \<longleftrightarrow> n < LENGTH('a) \<and> n div 8 < length d \<and> bit (d ! (n div 8)) (n mod 8)"
proof -
  have "bit (le_val d) n \<longleftrightarrow> n div 8 < length d \<and> bit (d ! (n div 8)) (n mod 8)"
  proof (induction d arbitrary: n)
    case Nil
    then show ?case by simp
  next
    case (Cons b d)
    have le: "le_val (b # d) mod 2 ^ 8 = unat b" "le_val (b # d) div 2 ^ 8 = le_val d"
      using unat_u8_less [of b] by simp_all
    show ?case
    proof (cases "n < 8")
      case True
      have "bit (le_val (b # d)) n \<longleftrightarrow> bit (take_bit 8 (le_val (b # d))) n" using True by (simp add: bit_take_bit_iff)
      then show ?thesis using True by (simp only: take_bit_eq_mod le) (simp add: bit_unsigned_iff)
    next
      case False
      have "bit (le_val (b # d)) n \<longleftrightarrow> bit (drop_bit 8 (le_val (b # d))) (n - 8)" using False by (simp add: bit_drop_bit_eq)
      moreover have "(n - 8) div 8 = n div 8 - 1" "(n - 8) mod 8 = n mod 8" "0 < n div 8"
        using False by (simp_all add: le_div_geq le_mod_geq)
      ultimately show ?thesis by (cases "n div 8") (simp_all only: drop_bit_eq_div le Cons.IH, simp_all)
    qed
  qed
  then show ?thesis by (simp add: bit_of_nat_iff)
qed

lemma word_eq_64:
  fixes x y :: u64
  shows "list_all (\<lambda>n. bit x n = bit y n) [0..<64] \<Longrightarrow> x = y"
  by (rule bit_word_eqI) (simp add: list_all_iff)

lemma bswap8_bytes:
  assumes "length d = 8"
  shows "CRYPTO_bswap8 (of_nat (le_val d)) = of_nat (be_val d)"
proof -
  obtain a b c e f g h i where d: "d = [a, b, c, e, f, g, h, i]" using assms by (auto simp: numeral_eq_Suc length_Suc_conv)
  have be: "be_val d = le_val [i, h, g, f, e, c, b, a]" using le_val_rev [of d] by (simp add: d)
  have u: "[0..<64] = [0, 1, 2, 3, 4, 5, 6, 7, 8, 9, 10, 11, 12, 13, 14, 15, 16, 17, 18, 19, 20, 21, 22, 23, 24, 25, 26, 27, 28, 29, 30, 31, 32, 33, 34, 35, 36, 37, 38, 39, 40, 41, 42, 43, 44, 45, 46, 47, 48, 49, 50, 51, 52, 53, 54, 55, 56, 57, 58, 59, 60, 61, 62, 63]" by code_simp
  show ?thesis
    unfolding be unfolding CRYPTO_bswap8_def CRYPTO_bswap4_def Let_def d
    by (rule word_eq_64, unfold u list.pred_inject)
      (simp add: bit_le_val bit_and_iff bit_or_iff bit_push_bit_iff bit_drop_bit_eq bit_ucast_iff bit_numeral_rec del: of_nat_mult of_nat_add of_nat_numeral le_val.simps)
qed
lemma load_word: "i + 8 \<le> length d \<Longrightarrow> load_u64_be d i = of_nat (be_val (take 8 (drop i d)))"
  by (simp add: load_u64_be_def Let_def bswap8_bytes)

lemma round_512: "ROUND_00_15_512 i T1 v = sha2_step Sigma0_512 Sigma1_512 (K512 ! i) i T1 v"
  by (simp add: ROUND_00_15_512_def sha2_step_def Let_def)

lemma expand_512:
  assumes "i mod 16 = 0"
  shows "ROUND_16_80 i j = sha2_expand Sigma0_512 Sigma1_512 sigma0_512 sigma1_512 K512 (i + j)"
proof -
  have "(i + j + k) mod 16 = (j + k) mod 16" for k using assms by (metis add.assoc add.left_neutral mod_add_left_eq)
  from this [of 0] this [of 1] this [of 9] this [of 14] show ?thesis
    by (intro ext) (simp add: ROUND_16_80_def sha2_expand_def round_512)
qed

lemma expand_loop: "fold (\<lambda>i. fold (ROUND_16_80 i) [0..<16]) [16, 32, 48, 64] r =
  fold (sha2_expand Sigma0_512 Sigma1_512 sigma0_512 sigma1_512 K512) [16..<80] r"
proof -
  have inner: "fold (ROUND_16_80 i) [0..<16] r = fold (sha2_expand Sigma0_512 Sigma1_512 sigma0_512 sigma1_512 K512) [i..<i + 16] r"
    if "i mod 16 = 0" for i r
  proof -
    have "[i..<i + 16] = map (\<lambda>j. i + j) [0..<16]" using map_add_upt [of i 16] by (simp add: add.commute)
    then show ?thesis
      unfolding expand_512 [OF that] by (simp only: fold_map comp_def)
  qed
  have "[16..<80] = [16..<32] @ [32..<48] @ [48..<64] @ [64..<80 :: nat]" by code_simp
  then show ?thesis by (simp add: inner fold_append del: upt_rec_numeral)
qed

lemma sha512_block_fips:
  assumes "length H = 8" and "SHA512_CBLOCK \<le> length d"
  shows "sha512_block H d = fips_compress_512 H d"
proof -
  define M :: "u64 list" where "M = be_words 8 d"
  have load: "fold (\<lambda>i (X, v). let T1 = load_u64_be d (i * 8) in (X[i := T1], ROUND_00_15_512 i T1 v)) [0..<16] r =
      fold (sha2_load Sigma0_512 Sigma1_512 K512 M) [0..<16] r" for r
  proof (rule fold_cong)
    fix i assume "i \<in> set [0..<16]"
    then have "load_u64_be d (i * 8) = M ! i"
      using assms(2) load_word [of "i * 8" d] by (simp add: SHA512_CBLOCK_def M_def be_words_nth mult.commute)
    then show "(\<lambda>(X, v). let T1 = load_u64_be d (i * 8) in (X[i := T1], ROUND_00_15_512 i T1 v)) = sha2_load Sigma0_512 Sigma1_512 K512 M i"
      by (simp add: sha2_load_def round_512 Let_def)
  qed simp_all
  have "snd (fold (sha2_expand Sigma0_512 Sigma1_512 sigma0_512 sigma1_512 K512) [16..<80] (fold (sha2_load Sigma0_512 Sigma1_512 K512 M) [0..<16] (replicate 16 0, H))) =
      fips_rounds Sigma0_512 Sigma1_512 K512 (schedule sigma0_512 sigma1_512 M 64) 80 H"
    using sha2_rounds [of H "replicate 16 0" M 64 Sigma0_512 Sigma1_512 sigma0_512 sigma1_512 K512] assms(1)
    unfolding M_def by (simp del: upt_rec_numeral)
  then show ?thesis
    unfolding sha512_block_def load expand_loop fips_compress_512_def fips_compress_def length_K512 sigmas_512 [symmetric] M_def [symmetric]
    by (simp add: split_beta Let_def del: upt_rec_numeral)
qed

interpretation sha512: block_function SHA512_CBLOCK sha512_block_data_order sha512_block
proof
  show "sha512_block s (d @ e) = sha512_block s d" if "SHA512_CBLOCK \<le> length d" for s d e
  proof -
    have "fold (\<lambda>i (X, v). let T1 = load_u64_be (d @ e) (i * 8) in (X[i := T1], ROUND_00_15_512 i T1 v)) [0..<16] r =
        fold (\<lambda>i (X, v). let T1 = load_u64_be d (i * 8) in (X[i := T1], ROUND_00_15_512 i T1 v)) [0..<16] r" for r
      by (rule fold_cong) (use that in \<open>auto simp: SHA512_CBLOCK_def load_u64_be_def\<close>)
    then show ?thesis by (simp add: sha512_block_def)
  qed
qed (simp_all add: SHA512_CBLOCK_def)

lemma sha512_blocks:
  assumes "length H = 8"
  shows "sha512.absorb H m = hash_blocks SHA512_CBLOCK fips_compress_512 H m \<and> length (hash_blocks SHA512_CBLOCK fips_compress_512 H m) = 8"
  unfolding sha512.absorb_blocks
  by (rule hash_blocks_cong)
    (use assms in \<open>simp_all add: sha512_block_fips length_fips_compress fips_compress_512_def SHA512_CBLOCK_def\<close>)

section \<open>The context after the pieces of a message\<close>

definition sha512_absorbed :: "u64 list \<Rightarrow> sha512_ctx \<Rightarrow> bytes \<Rightarrow> bool" where
  "sha512_absorbed iv c m \<longleftrightarrow>
     sha_h c = sha512.absorb iv m \<and> sha_num c = length (sha512.rest m) \<and> length (sha_p c) = SHA512_CBLOCK \<and>
     take (sha_num c) (sha_p c) = sha512.rest m \<and>
     unat (sha_Nh c) * 2 ^ 64 + unat (sha_Nl c) = 8 * length m mod 2 ^ 128"

definition sha512_count :: "sha512_ctx \<Rightarrow> nat \<Rightarrow> sha512_ctx" where
  "sha512_count c n =
     c\<lparr>sha_Nh := sha_Nh c + (if sha_Nl c + push_bit 3 (of_nat n) < sha_Nl c then 1 else 0) + of_nat (n div 2 ^ 61),
       sha_Nl := sha_Nl c + push_bit 3 (of_nat n)\<rparr>"

lemma sha512_count:
  assumes "sha512_absorbed iv c m"
  shows "unat (sha_Nh (sha512_count c n)) * 2 ^ 64 + unat (sha_Nl (sha512_count c n)) = 8 * (length m + n) mod 2 ^ 128"
proof -
  have "unat (sha_Nh (sha512_count c n)) * 2 ^ 64 + unat (sha_Nl (sha512_count c n)) =
      (unat (sha_Nh c) * 2 ^ 64 + unat (sha_Nl c) + 8 * n) mod 2 ^ 128"
    using count_words [where 'a = 64 and w = 61, of "sha_Nh c" "sha_Nl c" n] by (simp add: sha512_count_def)
  then show ?thesis using assms by (simp add: sha512_absorbed_def mod_simps distrib_left)
qed

lemma count_sels [simp]:
  "sha_h (sha512_count c n) = sha_h c" "sha_p (sha512_count c n) = sha_p c" "sha_num (sha512_count c n) = sha_num c"
  "sha512_md_len (sha512_count c n) = sha512_md_len c"
  by (simp_all add: sha512_count_def)

text \<open>The two ways through the update function.\<close>

lemma update_short:
  assumes "d \<noteq> []" and "sha_num c \<noteq> 0" and "length d < SHA512_CBLOCK - sha_num c"
  shows "SHA512_Update c d = (sha512_count c (length d))\<lparr>sha_p := copy_to (sha_p c) (sha_num c) d, sha_num := sha_num c + length d\<rparr>"
  using assms by (simp add: SHA512_Update_def sha512_count_def Let_def)

definition sha512_fill :: "sha512_ctx \<Rightarrow> bytes \<Rightarrow> sha512_ctx \<times> bytes" where
  "sha512_fill c d =
     (if sha_num c \<noteq> 0
      then let n = SHA512_CBLOCK - sha_num c; p = copy_to (sha_p c) (sha_num c) (take n d)
           in (c\<lparr>sha_p := p, sha_num := 0, sha_h := sha512_block_data_order (sha_h c) p 1\<rparr>, drop n d)
      else (c, d))"

definition sha512_tail :: "sha512_ctx \<Rightarrow> bytes \<Rightarrow> sha512_ctx" where
  "sha512_tail c d =
     (let k = length d div SHA512_CBLOCK; r = drop (SHA512_CBLOCK * k) d; c = c\<lparr>sha_h := sha512_block_data_order (sha_h c) d k\<rparr>
      in if r \<noteq> [] then c\<lparr>sha_p := copy_to (sha_p c) 0 r, sha_num := length r\<rparr> else c)"

lemma tail_eq:
  "(case (if SHA512_CBLOCK \<le> length d
          then (c\<lparr>sha_h := sha512_block_data_order (sha_h c) d (length d div SHA512_CBLOCK)\<rparr>, drop (length d - length d mod SHA512_CBLOCK) d)
          else (c, d)) of
     (c, d) \<Rightarrow> if length d \<noteq> 0 then c\<lparr>sha_p := copy_to (sha_p c) 0 d, sha_num := length d\<rparr> else c) = sha512_tail c d"
proof (cases "SHA512_CBLOCK \<le> length d")
  case True
  then show ?thesis by (auto simp: sha512_tail_def Let_def minus_mod_eq_mult_div)
next
  case False
  then show ?thesis by (cases c) (auto simp: sha512_tail_def Let_def not_le)
qed

lemma update_long:
  assumes "d \<noteq> []" and "\<not> (sha_num c \<noteq> 0 \<and> length d < SHA512_CBLOCK - sha_num c)"
  shows "SHA512_Update c d = (case sha512_fill (sha512_count c (length d)) d of (c, d) \<Rightarrow> sha512_tail c d)"
proof -
  have count: "(if sha_Nl c + push_bit 3 (of_nat n) < sha_Nl c then c\<lparr>sha_Nh := sha_Nh c + 1\<rparr> else c)
      \<lparr>sha_Nh := sha_Nh (if sha_Nl c + push_bit 3 (of_nat n) < sha_Nl c then c\<lparr>sha_Nh := sha_Nh c + 1\<rparr> else c) + of_nat (n div 2 ^ 61),
       sha_Nl := sha_Nl c + push_bit 3 (of_nat n)\<rparr> = sha512_count c n" for n
    by (simp add: sha512_count_def)
  have "length d \<noteq> 0" using assms(1) by simp
  then show ?thesis
    unfolding SHA512_Update_def Let_def count count_sels if_not_P [OF assms(2)] if_not_P [OF \<open>length d \<noteq> 0\<close>] tail_eq
    by (simp add: sha512_fill_def Let_def)
qed

lemma sha512_absorbedD:
  assumes "sha512_absorbed iv c m"
  shows "sha_h c = sha512.absorb iv m" and "sha_num c = length (sha512.rest m)" and "length (sha_p c) = SHA512_CBLOCK"
    and "take (length (sha512.rest m)) (sha_p c) = sha512.rest m"
    and "unat (sha_Nh c) * 2 ^ 64 + unat (sha_Nl c) = 8 * length m mod 2 ^ 128"
  using assms by (auto simp: sha512_absorbed_def)

lemma fill_absorbs:
  assumes c: "sha512_absorbed iv c m" and n: "sha_num c = 0 \<or> SHA512_CBLOCK - sha_num c \<le> length d"
    and f: "sha512_fill (sha512_count c (length d)) d = (c', d')"
  shows "sha512.absorb iv (m @ d) = sha512.absorb (sha_h c') d'" and "sha512.rest (m @ d) = sha512.rest d'"
    and "sha_num c' = 0" and "length (sha_p c') = SHA512_CBLOCK"
    and "unat (sha_Nh c') * 2 ^ 64 + unat (sha_Nl c') = 8 * (length m + length d) mod 2 ^ 128"
proof -
  note abs = sha512_absorbedD [OF c]
  have num: "sha_num c < SHA512_CBLOCK" using abs sha512.rest_less [of m] by simp
  show "unat (sha_Nh c') * 2 ^ 64 + unat (sha_Nl c') = 8 * (length m + length d) mod 2 ^ 128"
    using f sha512_count [OF c, of "length d"] by (auto simp: sha512_fill_def Let_def split: if_splits)
  have "sha_num c' = 0 \<and> length (sha_p c') = SHA512_CBLOCK \<and>
      sha512.absorb (sha512.absorb iv m) (sha512.rest m @ d) = sha512.absorb (sha_h c') d' \<and>
      sha512.rest (sha512.rest m @ d) = sha512.rest d'"
  proof (cases "sha_num c = 0")
    case True
    with f abs show ?thesis by (auto simp: sha512_fill_def)
  next
    case False
    define k where "k = SHA512_CBLOCK - sha_num c"
    define p where "p = sha512.rest m @ take k d"
    have k: "k \<le> length d" using n False by (simp add: k_def)
    then have p: "copy_to (sha_p c) (sha_num c) (take k d) = p" "length p = SHA512_CBLOCK * 1"
      using abs num by (simp_all add: copy_to_def p_def k_def)
    have "c' = (sha512_count c (length d))\<lparr>sha_p := p, sha_num := 0, sha_h := sha512_block_data_order (sha_h c) p 1\<rparr> \<and> d' = drop k d"
      using f False p(1) by (simp add: sha512_fill_def Let_def k_def)
    moreover have "sha512.rest m @ d = p @ drop k d" by (simp add: p_def)
    ultimately show ?thesis
      using sha512.absorb_split(1) [OF p(2), of "sha512.absorb iv m" "drop k d"] sha512.absorb_split(2) [OF p(2), of "drop k d"] abs p(2) by simp
  qed
  then show "sha512.absorb iv (m @ d) = sha512.absorb (sha_h c') d'" and "sha512.rest (m @ d) = sha512.rest d'"
    and "sha_num c' = 0" and "length (sha_p c') = SHA512_CBLOCK"
    using sha512.absorb_rest [of iv m d] sha512.rest_rest [of m d] by simp_all
qed

lemma sha512_absorbed_update:
  assumes c: "sha512_absorbed iv c m"
  shows "sha512_absorbed iv (SHA512_Update c d) (m @ d)"
proof (cases "d = []")
  case True
  with c show ?thesis by (simp add: SHA512_Update_def)
next
  case d: False
  note abs = sha512_absorbedD [OF c]
  show ?thesis
  proof (cases "sha_num c \<noteq> 0 \<and> length d < SHA512_CBLOCK - sha_num c")
    case True
    then have s: "length (sha512.rest m @ d) < SHA512_CBLOCK" unfolding abs(2) length_append by linarith
    have "sha512.absorb iv (m @ d) = sha512.absorb iv m" "sha512.rest (m @ d) = sha512.rest m @ d"
      unfolding sha512.absorb_rest [of iv m d] sha512.rest_rest [of m d]
      by (simp_all only: sha512.absorb_short [OF s] sha512.rest_short [OF s])
    with True d abs s sha512_count [OF c, of "length d"] show ?thesis
      by (simp add: update_short sha512_absorbed_def length_copy take_copy)
  next
    case False
    obtain c' d' where f: "sha512_fill (sha512_count c (length d)) d = (c', d')" by fastforce
    have n: "sha_num c = 0 \<or> SHA512_CBLOCK - sha_num c \<le> length d" using False by linarith
    note h = fill_absorbs [OF c n f]
    have r: "sha512.rest d' = drop (SHA512_CBLOCK * (length d' div SHA512_CBLOCK)) d'"
      "sha512.absorb (sha_h c') d' = sha512_block_data_order (sha_h c') d' (length d' div SHA512_CBLOCK)"
      by (simp_all add: sha512.rest_def sha512.absorb_def)
    show ?thesis
      using h sha512.rest_less [of d'] unfolding update_long [OF d False] f split_conv sha512_tail_def Let_def r [symmetric]
      by (auto simp: sha512_absorbed_def length_copy take_copy)
  qed
qed

lemma u64_store_bytes: "u64_store t = be_bytes 8 (unat t)"
proof -
  have "be_bytes 8 v = [of_nat (v div 2 ^ 56), of_nat (v div 2 ^ 48), of_nat (v div 2 ^ 40), of_nat (v div 2 ^ 32)] @ be_bytes 4 v" for v
  proof -
    have "be_bytes 4 (v div 2 ^ 32) @ be_bytes 4 v = be_bytes 8 v"
      using be_bytes_append [of 4 "v div 2 ^ 32" 4 v] div_mult_mod_eq [of v "2 ^ 32"] by simp
    then show ?thesis by (simp add: be_bytes_4 div_mult2_eq [symmetric])
  qed
  then show ?thesis by (simp only: u64_store_def ucast_drop ucast_low [of t] be_bytes_4 append_Cons append_Nil)
qed

lemma sha512_count_bytes:
  assumes "sha512_absorbed iv c m"
  shows "u64_store (sha_Nh c) @ u64_store (sha_Nl c) = be_bytes 16 (8 * length m)"
proof -
  have "unat (sha_Nl c) mod 256 ^ 8 = unat (sha_Nl c)" using unat_less_pow [of "sha_Nl c"] by simp
  then have "unat (sha_Nh c) * 256 ^ 8 + unat (sha_Nl c) mod 256 ^ 8 = 8 * length m mod 256 ^ 16"
    using sha512_absorbedD(5) [OF assms] by simp
  then show ?thesis
    using be_bytes_append [of 8 "unat (sha_Nh c)" 8 "unat (sha_Nl c)"] be_bytes_mod [of 16 "8 * length m"] by (simp add: u64_store_bytes)
qed

lemma sha512_final_state:
  assumes c: "sha512_absorbed iv c m"
  shows "sha_h (snd (SHA512_Final out c)) = sha512.absorb iv (hash_pad SHA512_CBLOCK 16 (be_bytes 16) m)"
proof -
  note abs = sha512_absorbedD [OF c]
  define n where "n = sha_num c"
  define lb where "lb = be_bytes 16 (8 * length m)"
  have n: "n = length (sha512.rest m)" "n < 128" "length (sha_p c) = 128" "take n (sha_p c) = sha512.rest m" "n = length m mod 128"
    using abs sha512.rest_less [of m] sha512.length_rest [of m] by (simp_all add: n_def SHA512_CBLOCK_def)
  have lb: "u64_store (sha_Nh c) @ u64_store (sha_Nl c) = lb" "length lb = 16"
    using sha512_count_bytes [OF c] by (simp_all add: lb_def)
  define z where "z = (128 - (17 + length m) mod 128) mod 128"
  define tl where "tl = 0x80 # replicate z 0 @ lb"
  have nz: "z = (128 - (17 + n) mod 128) mod 128" unfolding z_def n(5) by (simp add: mod_simps)
  have h: "sha512.absorb iv (hash_pad SHA512_CBLOCK 16 (be_bytes 16) m) = sha512.absorb (sha_h c) (sha512.rest m @ tl)"
    using sha512.absorb_rest [of iv m tl] abs(1) by (simp add: hash_pad_def SHA512_CBLOCK_def tl_def z_def lb_def)
  have first: "(sha_p c)[n := 0x80] = sha512.rest m @ 0x80 # drop (Suc n) (sha_p c)"
    using n(2-4) by (simp add: upd_conv_take_nth_drop)
  have block: "sha512.absorb s x = sha512_block_data_order s x 1" if "length x = 128" for s x
    using that unfolding sha512.absorb_def by (simp add: SHA512_CBLOCK_def)
  note F = SHA512_Final_def Let_def SHA512_CBLOCK_def n_def [symmetric] lb(1)
  show ?thesis
  proof (cases "n + 1 > 112")
    case True
    define d1 where "d1 = sha512.rest m @ 0x80 # replicate (127 - n) 0"
    have d1: "length d1 = 128" "copy_to ((sha_p c)[n := 0x80]) (n + 1) (replicate (128 - (n + 1)) 0) = d1"
      using n(1-3) unfolding first by (simp_all add: d1_def copy_to_def)
    have "(17 + n) mod 128 = n - 111" using True n(2) by (simp add: le_mod_geq)
    then have z: "z = (127 - n) + 112" using True n(2) unfolding nz by simp
    have e: "sha512.rest m @ tl = d1 @ replicate 112 0 @ lb" by (simp add: tl_def d1_def z replicate_add)
    have "sha512.absorb (sha_h c) (sha512.rest m @ tl) = sha512_block_data_order (sha512_block_data_order (sha_h c) d1 1) (replicate 112 0 @ lb) 1"
      using sha512.absorb_split(1) [of d1 1 "sha_h c"] d1(1) lb(2) block [of "replicate 112 0 @ lb"]
      unfolding e by (simp add: SHA512_CBLOCK_def)
    moreover have "copy_to (copy_to d1 0 (replicate 112 0)) 112 lb = replicate 112 0 @ lb"
      using d1(1) lb(2) by (simp add: copy_to_def)
    ultimately show ?thesis
      using True d1(2) unfolding F h [unfolded SHA512_CBLOCK_def] by (simp del: One_nat_def sha512_block_data_order.simps)
  next
    case False
    then have z: "z = 111 - n" unfolding nz by (cases "n = 111") simp_all
    have "sha512.absorb (sha_h c) (sha512.rest m @ tl) = sha512_block_data_order (sha_h c) (sha512.rest m @ 0x80 # replicate (111 - n) 0 @ lb) 1"
      using block [of "sha512.rest m @ tl"] n(1) lb(2) False by (simp add: tl_def z)
    moreover have "copy_to (copy_to ((sha_p c)[n := 0x80]) (n + 1) (replicate (112 - (n + 1)) 0)) 112 lb =
        sha512.rest m @ 0x80 # replicate (111 - n) 0 @ lb"
      using n(1-3) lb(2) False Suc_diff_le [of n 111] unfolding first by (simp add: copy_to_def)
    ultimately show ?thesis
      using False unfolding F h [unfolded SHA512_CBLOCK_def] by (simp del: One_nat_def sha512_block_data_order.simps)
  qed
qed

definition sha512_iv :: "sha512_ctx \<Rightarrow> bool" where
  "sha512_iv c \<longleftrightarrow> length (sha_h c) = 8 \<and> sha_Nl c = 0 \<and> sha_Nh c = 0 \<and> sha_num c = 0 \<and> length (sha_p c) = SHA512_CBLOCK \<and>
     (sha512_md_len c = 48 \<or> sha512_md_len c = 64)"

lemma sha512_start: "sha512_iv c \<Longrightarrow> sha512_absorbed (sha_h c) c []"
  by (simp add: sha512_iv_def sha512_absorbed_def sha512.absorb_def sha512.rest_def)

lemma sha512_inits:
  assumes "length (sha_p c) = SHA512_CBLOCK"
  shows "sha512_iv (SHA512_Init c)" and "sha512_iv (SHA384_Init c)"
  using assms by (simp_all add: sha512_iv_def SHA512_Init_def SHA384_Init_def SHA384_DIGEST_LENGTH_def SHA512_DIGEST_LENGTH_def)

lemma sha512_md_len_update [simp]: "sha512_md_len (SHA512_Update c d) = sha512_md_len c"
  by (simp add: SHA512_Update_def Let_def)

lemma sha512_string:
  assumes "length (sha_h (snd (SHA512_Final True c))) = 8" and "sha512_md_len c = 48 \<or> sha512_md_len c = 64"
  shows "fst (SHA512_Final True c) =
    Some (take (sha512_md_len c) (concat (map (\<lambda>w. be_bytes 8 (unat w)) (sha_h (snd (SHA512_Final True c))))))"
proof -
  let ?h = "sha_h (snd (SHA512_Final True c))"
  let ?out = "\<lambda>k. concat (map (\<lambda>n. u64_store (?h ! n)) [0..<k])"
  have out: "?out k = take (k * 8) (concat (map (\<lambda>w. be_bytes 8 (unat w)) ?h))" if "k \<le> 8" for k
    unfolding u64_store_bytes using concat_words [of "\<lambda>w :: u64. be_bytes 8 (unat w)" 8 k ?h] that assms(1) by simp
  have "fst (SHA512_Final True c) = (if sha512_md_len c = 48 then Some (?out 6) else Some (?out 8))"
    using assms(2) unfolding SHA512_Final_def Let_def
    by (auto simp: SHA384_DIGEST_LENGTH_def SHA512_DIGEST_LENGTH_def split_beta simp del: sha512_block_data_order.simps upt_Suc upt_rec_numeral One_nat_def)
  then show ?thesis using assms(2) out [of 6] out [of 8] by (elim disjE) (simp_all del: upt_rec_numeral)
qed

text \<open>A context of the hash with initial value \<open>iv\<close> and output of \<open>n\<close> bytes, after \<open>m\<close>.\<close>

definition sha512_at :: "u64 list \<Rightarrow> nat \<Rightarrow> sha512_ctx \<Rightarrow> bytes \<Rightarrow> bool" where
  "sha512_at iv n c m \<longleftrightarrow> length iv = 8 \<and> (n = 48 \<or> n = 64) \<and> sha512_md_len c = n \<and> sha512_absorbed iv c m"

lemma sha512_at_init:
  assumes "length (sha_p c) = SHA512_CBLOCK"
  shows "sha512_at (sha_h (SHA512_Init c)) 64 (SHA512_Init c) []" and "sha512_at (sha_h (SHA384_Init c)) 48 (SHA384_Init c) []"
  using sha512_start [OF sha512_inits(1) [OF assms]] sha512_start [OF sha512_inits(2) [OF assms]]
  by (simp_all add: sha512_at_def, simp_all add: SHA512_Init_def SHA384_Init_def SHA384_DIGEST_LENGTH_def SHA512_DIGEST_LENGTH_def)

lemma sha512_at_update: "sha512_at iv n c m \<Longrightarrow> sha512_at iv n (SHA512_Update c d) (m @ d)"
  by (simp add: sha512_at_def sha512_absorbed_update)

lemma sha512_at_final:
  assumes "sha512_at iv n c m"
  shows "fst (SHA512_Final True c) = Some (fips_sha512 iv n m)"
proof -
  have c: "sha512_absorbed iv c m" using assms by (simp add: sha512_at_def)
  have "sha_h (snd (SHA512_Final True c)) = hash_blocks SHA512_CBLOCK fips_compress_512 iv (hash_pad SHA512_CBLOCK 16 (be_bytes 16) m)"
    and "length (sha_h (snd (SHA512_Final True c))) = 8"
    using sha512_blocks [of iv] assms unfolding sha512_final_state [OF c] by (simp_all add: sha512_at_def)
  with assms show ?thesis
    by (subst sha512_string) (auto simp: sha512_at_def fips_sha512_def)
qed

lemma length_fips_sha512:
  assumes "length iv = 8" and "n \<le> 64"
  shows "length (fips_sha512 iv n m) = n"
proof -
  let ?h = "hash_blocks SHA512_CBLOCK fips_compress_512 iv (hash_pad SHA512_CBLOCK 16 (be_bytes 16) m)"
  have "length ?h = 8" using sha512_blocks [OF assms(1)] by blast
  then have "length (concat (map (\<lambda>w. be_bytes 8 (unat w)) ?h)) = 64" by (simp add: length_concat comp_def sum_list_triv)
  with assms(2) show ?thesis by (simp add: fips_sha512_def)
qed

end
