(* ===== verification/Digest.thy ===== *)
theory Digest
  imports Md5 Sha1 Sha256 Sha512
begin

text \<open>
  The digest layer: the methods of \<open>fipsmodule/digest/digests.c\<close>, the contexts of
  \<open>fipsmodule/digest/digest.c\<close>, and the interface \<open>digest_methods\<close> through which the layer, HMAC and
  TLS use every hash. \<open>alloc\<close> says which requests of the allocator succeed, \<open>fresh\<close> is the contents
  of the memory it hands out for a digest.
\<close>

section \<open>The methods\<close>

datatype EVP_MD = EVP_md4 | EVP_md5 | EVP_sha1 | EVP_sha224 | EVP_sha256 | EVP_sha384 | EVP_sha512 | EVP_md5_sha1

text \<open>The memory of a context, by the type its digest gives it.\<close>

datatype md_state =
    MD4_state md32_ctx
  | MD5_state md32_ctx
  | SHA1_state md32_ctx
  | SHA256_state sha256_ctx
  | SHA512_state sha512_ctx
  | MD5_SHA1_state md32_ctx md32_ctx

fun EVP_MD_type :: "EVP_MD \<Rightarrow> nat" where
  "EVP_MD_type EVP_md4 = 257" | "EVP_MD_type EVP_md5 = 4" | "EVP_MD_type EVP_sha1 = 64"
| "EVP_MD_type EVP_sha224 = 675" | "EVP_MD_type EVP_sha256 = 672" | "EVP_MD_type EVP_sha384 = 673"
| "EVP_MD_type EVP_sha512 = 674" | "EVP_MD_type EVP_md5_sha1 = 114"

definition EVP_MD_flags :: "EVP_MD \<Rightarrow> u32" where
  "EVP_MD_flags md = 0"

fun EVP_MD_size :: "EVP_MD \<Rightarrow> nat" where
  "EVP_MD_size EVP_md4 = MD4_DIGEST_LENGTH" | "EVP_MD_size EVP_md5 = MD5_DIGEST_LENGTH"
| "EVP_MD_size EVP_sha1 = SHA_DIGEST_LENGTH" | "EVP_MD_size EVP_sha224 = SHA224_DIGEST_LENGTH"
| "EVP_MD_size EVP_sha256 = SHA256_DIGEST_LENGTH" | "EVP_MD_size EVP_sha384 = SHA384_DIGEST_LENGTH"
| "EVP_MD_size EVP_sha512 = SHA512_DIGEST_LENGTH" | "EVP_MD_size EVP_md5_sha1 = MD5_DIGEST_LENGTH + SHA_DIGEST_LENGTH"

fun EVP_MD_block_size :: "EVP_MD \<Rightarrow> nat" where
  "EVP_MD_block_size EVP_md4 = 64" | "EVP_MD_block_size EVP_md5 = 64" | "EVP_MD_block_size EVP_sha1 = 64"
| "EVP_MD_block_size EVP_sha224 = 64" | "EVP_MD_block_size EVP_sha256 = 64" | "EVP_MD_block_size EVP_sha384 = 128"
| "EVP_MD_block_size EVP_sha512 = 128" | "EVP_MD_block_size EVP_md5_sha1 = 64"

text \<open>The sizes of the context structures.\<close>

fun ctx_size :: "EVP_MD \<Rightarrow> nat" where
  "ctx_size EVP_md4 = 92" | "ctx_size EVP_md5 = 92" | "ctx_size EVP_sha1 = 96" | "ctx_size EVP_sha224 = 112"
| "ctx_size EVP_sha256 = 112" | "ctx_size EVP_sha384 = 216" | "ctx_size EVP_sha512 = 216" | "ctx_size EVP_md5_sha1 = 188"

text \<open>The functions of each method on the memory of its type. What a final function writes is \<open>None\<close> when
  the low-level function returns 0.\<close>

fun md4_init :: "md_state \<Rightarrow> md_state" where
  "md4_init s = MD4_state MD4_Init"

fun md4_update :: "md_state \<Rightarrow> bytes \<Rightarrow> md_state" where
  "md4_update (MD4_state c) d = MD4_state (MD4_Update c d)"
| "md4_update s d = s"

fun md4_final :: "md_state \<Rightarrow> bytes option \<times> md_state" where
  "md4_final (MD4_state c) = (let (out, c) = MD4_Final c in (Some out, MD4_state c))"
| "md4_final s = (None, s)"

fun md5_init :: "md_state \<Rightarrow> md_state" where
  "md5_init s = MD5_state MD5_Init"

fun md5_update :: "md_state \<Rightarrow> bytes \<Rightarrow> md_state" where
  "md5_update (MD5_state c) d = MD5_state (MD5_Update c d)"
| "md5_update s d = s"

fun md5_final :: "md_state \<Rightarrow> bytes option \<times> md_state" where
  "md5_final (MD5_state c) = (let (out, c) = MD5_Final c in (Some out, MD5_state c))"
| "md5_final s = (None, s)"

fun sha1_init :: "md_state \<Rightarrow> md_state" where
  "sha1_init s = SHA1_state SHA1_Init"

fun sha1_update :: "md_state \<Rightarrow> bytes \<Rightarrow> md_state" where
  "sha1_update (SHA1_state c) d = SHA1_state (SHA1_Update c d)"
| "sha1_update s d = s"

fun sha1_final :: "md_state \<Rightarrow> bytes option \<times> md_state" where
  "sha1_final (SHA1_state c) = (let (out, c) = SHA1_Final c in (Some out, SHA1_state c))"
| "sha1_final s = (None, s)"

fun sha224_init :: "md_state \<Rightarrow> md_state" where
  "sha224_init s = SHA256_state SHA224_Init"

fun sha224_update :: "md_state \<Rightarrow> bytes \<Rightarrow> md_state" where
  "sha224_update (SHA256_state c) d = SHA256_state (SHA224_Update c d)"
| "sha224_update s d = s"

fun sha224_final :: "md_state \<Rightarrow> bytes option \<times> md_state" where
  "sha224_final (SHA256_state c) = (let (out, c) = SHA224_Final c in (out, SHA256_state c))"
| "sha224_final s = (None, s)"

fun sha256_init :: "md_state \<Rightarrow> md_state" where
  "sha256_init s = SHA256_state SHA256_Init"

fun sha256_update :: "md_state \<Rightarrow> bytes \<Rightarrow> md_state" where
  "sha256_update (SHA256_state c) d = SHA256_state (SHA256_Update c d)"
| "sha256_update s d = s"

fun sha256_final :: "md_state \<Rightarrow> bytes option \<times> md_state" where
  "sha256_final (SHA256_state c) = (let (out, c) = SHA256_Final c in (out, SHA256_state c))"
| "sha256_final s = (None, s)"

fun sha384_init :: "md_state \<Rightarrow> md_state" where
  "sha384_init (SHA512_state c) = SHA512_state (SHA384_Init c)"
| "sha384_init s = s"

fun sha384_update :: "md_state \<Rightarrow> bytes \<Rightarrow> md_state" where
  "sha384_update (SHA512_state c) d = SHA512_state (SHA384_Update c d)"
| "sha384_update s d = s"

fun sha384_final :: "md_state \<Rightarrow> bytes option \<times> md_state" where
  "sha384_final (SHA512_state c) = (let (out, c) = SHA384_Final True c in (out, SHA512_state c))"
| "sha384_final s = (None, s)"

fun sha512_init :: "md_state \<Rightarrow> md_state" where
  "sha512_init (SHA512_state c) = SHA512_state (SHA512_Init c)"
| "sha512_init s = s"

fun sha512_update :: "md_state \<Rightarrow> bytes \<Rightarrow> md_state" where
  "sha512_update (SHA512_state c) d = SHA512_state (SHA512_Update c d)"
| "sha512_update s d = s"

fun sha512_final :: "md_state \<Rightarrow> bytes option \<times> md_state" where
  "sha512_final (SHA512_state c) = (let (out, c) = SHA512_Final True c in (out, SHA512_state c))"
| "sha512_final s = (None, s)"

fun md5_sha1_init :: "md_state \<Rightarrow> md_state" where
  "md5_sha1_init s = MD5_SHA1_state MD5_Init SHA1_Init"

fun md5_sha1_update :: "md_state \<Rightarrow> bytes \<Rightarrow> md_state" where
  "md5_sha1_update (MD5_SHA1_state c c') d = MD5_SHA1_state (MD5_Update c d) (SHA1_Update c' d)"
| "md5_sha1_update s d = s"

fun md5_sha1_final :: "md_state \<Rightarrow> bytes option \<times> md_state" where
  "md5_sha1_final (MD5_SHA1_state c c') =
     (let (out, c) = MD5_Final c; (out', c') = SHA1_Final c' in (Some (out @ out'), MD5_SHA1_state c c'))"
| "md5_sha1_final s = (None, s)"

text \<open>The pointers \<open>init\<close>, \<open>update\<close> and \<open>final\<close> of a method.\<close>

fun md_init :: "EVP_MD \<Rightarrow> md_state \<Rightarrow> md_state" where
  "md_init EVP_md4 = md4_init"
| "md_init EVP_md5 = md5_init"
| "md_init EVP_sha1 = sha1_init"
| "md_init EVP_sha224 = sha224_init"
| "md_init EVP_sha256 = sha256_init"
| "md_init EVP_sha384 = sha384_init"
| "md_init EVP_sha512 = sha512_init"
| "md_init EVP_md5_sha1 = md5_sha1_init"

fun md_update :: "EVP_MD \<Rightarrow> md_state \<Rightarrow> bytes \<Rightarrow> md_state" where
  "md_update EVP_md4 = md4_update"
| "md_update EVP_md5 = md5_update"
| "md_update EVP_sha1 = sha1_update"
| "md_update EVP_sha224 = sha224_update"
| "md_update EVP_sha256 = sha256_update"
| "md_update EVP_sha384 = sha384_update"
| "md_update EVP_sha512 = sha512_update"
| "md_update EVP_md5_sha1 = md5_sha1_update"

fun md_final :: "EVP_MD \<Rightarrow> md_state \<Rightarrow> bytes option \<times> md_state" where
  "md_final EVP_md4 = md4_final"
| "md_final EVP_md5 = md5_final"
| "md_final EVP_sha1 = sha1_final"
| "md_final EVP_sha224 = sha224_final"
| "md_final EVP_sha256 = sha256_final"
| "md_final EVP_sha384 = sha384_final"
| "md_final EVP_sha512 = sha512_final"
| "md_final EVP_md5_sha1 = md5_sha1_final"

section \<open>Contexts\<close>

text \<open>\<open>'p\<close> stands for the signing context of \<open>crypto/evp\<close>; \<open>dup\<close> is its \<open>pctx_ops->dup\<close>.\<close>

record 'p evp_md_ctx =
  digest :: "EVP_MD option"
  md_data :: "md_state option"
  pctx :: "'p option"

definition EVP_MD_CTX_init :: "'p evp_md_ctx" where
  "EVP_MD_CTX_init = \<lparr>digest = None, md_data = None, pctx = None\<rparr>"

definition EVP_MD_CTX_new :: "(nat \<Rightarrow> bool) \<Rightarrow> 'p evp_md_ctx option" where
  "EVP_MD_CTX_new alloc = (if alloc 32 then Some EVP_MD_CTX_init else None)"

definition EVP_MD_CTX_cleanup :: "'p evp_md_ctx \<Rightarrow> 'p evp_md_ctx" where
  "EVP_MD_CTX_cleanup ctx = EVP_MD_CTX_init"

definition EVP_MD_CTX_reset :: "'p evp_md_ctx \<Rightarrow> 'p evp_md_ctx" where
  "EVP_MD_CTX_reset ctx = (let ctx = EVP_MD_CTX_cleanup ctx in EVP_MD_CTX_init)"

text \<open>The result and \<open>out\<close>. The copy of the memory is the state itself.\<close>

definition EVP_MD_CTX_copy_ex ::
  "('p \<Rightarrow> 'p option) \<Rightarrow> (nat \<Rightarrow> bool) \<Rightarrow> 'p evp_md_ctx \<Rightarrow> 'p evp_md_ctx option \<Rightarrow> bool \<times> 'p evp_md_ctx" where
  "EVP_MD_CTX_copy_ex dup alloc out in_ctx =
     (case in_ctx of None \<Rightarrow> (False, out)
      | Some ic \<Rightarrow>
          if pctx ic = None \<and> digest ic = None then (False, out)
          else
            let p = (case pctx ic of None \<Rightarrow> None | Some p \<Rightarrow> dup p)
            in if pctx ic \<noteq> None \<and> p = None then (False, out)
               else if (case digest ic of None \<Rightarrow> False | Some d \<Rightarrow> digest out \<noteq> Some d \<and> \<not> alloc (ctx_size d))
               then (False, out)
               else
                 let out = EVP_MD_CTX_cleanup out;
                     out = out\<lparr>digest := digest ic, md_data := None\<rparr>;
                     out = (if digest ic \<noteq> None then out\<lparr>md_data := md_data ic\<rparr> else out)
                 in (True, out\<lparr>pctx := p\<rparr>))"

definition EVP_MD_CTX_copy where
  "EVP_MD_CTX_copy dup alloc out in_ctx = EVP_MD_CTX_copy_ex dup alloc EVP_MD_CTX_init in_ctx"

definition EVP_DigestInit_ex ::
  "(nat \<Rightarrow> bool) \<Rightarrow> (EVP_MD \<Rightarrow> md_state) \<Rightarrow> 'p evp_md_ctx \<Rightarrow> EVP_MD \<Rightarrow> bool \<times> 'p evp_md_ctx" where
  "EVP_DigestInit_ex alloc fresh ctx type =
     (if digest ctx \<noteq> Some type \<and> \<not> alloc (ctx_size type) then (False, ctx)
      else
        let ctx = (if digest ctx \<noteq> Some type then ctx\<lparr>md_data := Some (fresh type), digest := Some type\<rparr> else ctx)
        in (True, ctx\<lparr>md_data := map_option (md_init type) (md_data ctx)\<rparr>))"

definition EVP_DigestInit where
  "EVP_DigestInit alloc fresh ctx type = EVP_DigestInit_ex alloc fresh EVP_MD_CTX_init type"

text \<open>Both need a digest: with none, the code follows a null pointer and the model stands still.\<close>

definition EVP_DigestUpdate :: "'p evp_md_ctx \<Rightarrow> bytes \<Rightarrow> bool \<times> 'p evp_md_ctx" where
  "EVP_DigestUpdate ctx d =
     (case digest ctx of None \<Rightarrow> (True, ctx)
      | Some md \<Rightarrow> (True, ctx\<lparr>md_data := map_option (\<lambda>s. md_update md s d) (md_data ctx)\<rparr>))"

text \<open>The memory after \<open>OPENSSL_cleanse\<close>.\<close>

definition zero_md32 :: "nat \<Rightarrow> md32_ctx" where
  "zero_md32 n = \<lparr>ctx_h = replicate n 0, Nl = 0, Nh = 0, ctx_data = replicate HASH_CBLOCK 0, ctx_num = 0\<rparr>"

fun zero_state :: "md_state \<Rightarrow> md_state" where
  "zero_state (MD4_state c) = MD4_state (zero_md32 4)"
| "zero_state (MD5_state c) = MD5_state (zero_md32 4)"
| "zero_state (SHA1_state c) = SHA1_state (zero_md32 5)"
| "zero_state (SHA256_state c) = SHA256_state (md32_ctx.extend (zero_md32 8) \<lparr>sha256_md_len = 0\<rparr>)"
| "zero_state (SHA512_state c) = SHA512_state
     \<lparr>sha_h = replicate 8 0, sha_Nl = 0, sha_Nh = 0, sha_p = replicate SHA512_CBLOCK 0, sha_num = 0, sha512_md_len = 0\<rparr>"
| "zero_state (MD5_SHA1_state c c') = MD5_SHA1_state (zero_md32 4) (zero_md32 5)"

text \<open>The bytes written to \<open>md_out\<close>, \<open>*size\<close>, and the context; the return value is 1.\<close>

definition EVP_DigestFinal_ex :: "'p evp_md_ctx \<Rightarrow> bytes option \<times> nat \<times> 'p evp_md_ctx" where
  "EVP_DigestFinal_ex ctx =
     (case (digest ctx, md_data ctx) of
        (Some md, Some s) \<Rightarrow>
          let (out, s) = md_final md s
          in (out, EVP_MD_size md, ctx\<lparr>md_data := Some (zero_state s)\<rparr>)
      | _ \<Rightarrow> (None, 0, ctx))"

definition EVP_DigestFinal :: "'p evp_md_ctx \<Rightarrow> bytes option \<times> nat \<times> 'p evp_md_ctx" where
  "EVP_DigestFinal ctx = (let (out, size, ctx) = EVP_DigestFinal_ex ctx in (out, size, EVP_MD_CTX_cleanup ctx))"

text \<open>\<open>None\<close>: the return value 0.\<close>

definition EVP_Digest :: "(nat \<Rightarrow> bool) \<Rightarrow> (EVP_MD \<Rightarrow> md_state) \<Rightarrow> bytes \<Rightarrow> EVP_MD \<Rightarrow> (bytes option \<times> nat) option" where
  "EVP_Digest alloc fresh d type =
     (case EVP_DigestInit_ex alloc fresh (EVP_MD_CTX_init :: unit evp_md_ctx) type of
        (False, ctx) \<Rightarrow> None
      | (True, ctx) \<Rightarrow>
          let (_, ctx) = EVP_DigestUpdate ctx d; (out, size, ctx) = EVP_DigestFinal_ex ctx in Some (out, size))"

definition EVP_MD_CTX_md :: "'p evp_md_ctx option \<Rightarrow> EVP_MD option" where
  "EVP_MD_CTX_md ctx = (case ctx of None \<Rightarrow> None | Some c \<Rightarrow> digest c)"

section \<open>The interface\<close>

text \<open>The hashes of the standards.\<close>

definition md5_hash :: "bytes \<Rightarrow> bytes" where
  "md5_hash m = rfc_hash rfc1321_step 64 [0x67452301, 0xefcdab89, 0x98badcfe, 0x10325476] m"

definition sha1_hash :: "bytes \<Rightarrow> bytes" where
  "sha1_hash m = fips_sha1 [0x67452301, 0xefcdab89, 0x98badcfe, 0x10325476, 0xc3d2e1f0] m"

fun digest_hash :: "EVP_MD \<Rightarrow> bytes \<Rightarrow> bytes" where
  "digest_hash EVP_md4 m = rfc_hash rfc1320_step 48 [0x67452301, 0xefcdab89, 0x98badcfe, 0x10325476] m"
| "digest_hash EVP_md5 m = md5_hash m"
| "digest_hash EVP_sha1 m = sha1_hash m"
| "digest_hash EVP_sha224 m = fips_sha256
     [0xc1059ed8, 0x367cd507, 0x3070dd17, 0xf70e5939, 0xffc00b31, 0x68581511, 0x64f98fa7, 0xbefa4fa4] 28 m"
| "digest_hash EVP_sha256 m = fips_sha256
     [0x6a09e667, 0xbb67ae85, 0x3c6ef372, 0xa54ff53a, 0x510e527f, 0x9b05688c, 0x1f83d9ab, 0x5be0cd19] 32 m"
| "digest_hash EVP_sha384 m = fips_sha512
     [0xcbbb9d5dc1059ed8, 0x629a292a367cd507, 0x9159015a3070dd17, 0x152fecd8f70e5939,
      0x67332667ffc00b31, 0x8eb44a8768581511, 0xdb0c2e0d64f98fa7, 0x47b5481dbefa4fa4] 48 m"
| "digest_hash EVP_sha512 m = fips_sha512
     [0x6a09e667f3bcc908, 0xbb67ae8584caa73b, 0x3c6ef372fe94f82b, 0xa54ff53a5f1d36f1,
      0x510e527fade682d1, 0x9b05688c2b3e6c1f, 0x1f83d9abfb41bd6b, 0x5be0cd19137e2179] 64 m"
| "digest_hash EVP_md5_sha1 m = md5_hash m @ sha1_hash m"

text \<open>Memory of the right type, and the state of a digest after \<open>m\<close>.\<close>

fun md_ok :: "EVP_MD \<Rightarrow> md_state \<Rightarrow> bool" where
  "md_ok EVP_md4 (MD4_state c) = True"
| "md_ok EVP_md5 (MD5_state c) = True"
| "md_ok EVP_sha1 (SHA1_state c) = True"
| "md_ok EVP_sha224 (SHA256_state c) = True"
| "md_ok EVP_sha256 (SHA256_state c) = True"
| "md_ok EVP_sha384 (SHA512_state c) = (length (sha_p c) = SHA512_CBLOCK)"
| "md_ok EVP_sha512 (SHA512_state c) = (length (sha_p c) = SHA512_CBLOCK)"
| "md_ok EVP_md5_sha1 (MD5_SHA1_state c c') = True"
| "md_ok _ _ = False"

fun md_at :: "EVP_MD \<Rightarrow> md_state \<Rightarrow> bytes \<Rightarrow> bool" where
  "md_at EVP_md4 (MD4_state c) m = md4.absorbed (ctx_h MD4_Init) c m"
| "md_at EVP_md5 (MD5_state c) m = md5.absorbed (ctx_h MD5_Init) c m"
| "md_at EVP_sha1 (SHA1_state c) m = sha1.absorbed (ctx_h SHA1_Init) c m"
| "md_at EVP_sha224 (SHA256_state c) m = sha256_at (ctx_h SHA224_Init) 28 c m"
| "md_at EVP_sha256 (SHA256_state c) m = sha256_at (ctx_h SHA256_Init) 32 c m"
| "md_at EVP_sha384 (SHA512_state c) m = sha512_at (sha_h (SHA384_Init c)) 48 c m"
| "md_at EVP_sha512 (SHA512_state c) m = sha512_at (sha_h (SHA512_Init c)) 64 c m"
| "md_at EVP_md5_sha1 (MD5_SHA1_state c c') m = (md5.absorbed (ctx_h MD5_Init) c m \<and> sha1.absorbed (ctx_h SHA1_Init) c' m)"
| "md_at _ _ _ = False"

text \<open>What a digest promises: a fresh memory is initialised to the empty message, updates append,
  the final function writes the hash, and the memory can be used again.\<close>

locale digest_methods =
  fixes ok :: "'d \<Rightarrow> 's \<Rightarrow> bool" and rep :: "'d \<Rightarrow> 's \<Rightarrow> bytes \<Rightarrow> bool"
    and init :: "'d \<Rightarrow> 's \<Rightarrow> 's" and update :: "'d \<Rightarrow> 's \<Rightarrow> bytes \<Rightarrow> 's" and final :: "'d \<Rightarrow> 's \<Rightarrow> bytes option \<times> 's"
    and hash :: "'d \<Rightarrow> bytes \<Rightarrow> bytes" and md_size :: "'d \<Rightarrow> nat"
  assumes rep_init: "ok d s \<Longrightarrow> rep d (init d s) []"
    and rep_update: "rep d s m \<Longrightarrow> rep d (update d s x) (m @ x)"
    and rep_final: "rep d s m \<Longrightarrow> fst (final d s) = Some (hash d m)"
    and rep_ok: "rep d s m \<Longrightarrow> ok d s"
    and length_hash: "length (hash d m) = md_size d"
begin

lemma rep_updates: "rep d s m \<Longrightarrow> rep d (fold (\<lambda>x s. update d s x) xs s) (m @ concat xs)"
  by (induction xs arbitrary: s m) (simp, metis rep_update append.assoc concat.simps(2) fold_simps(2))

text \<open>The hash of a message is the same however it is cut into pieces.\<close>

lemma pieces: "ok d s \<Longrightarrow> fst (final d (fold (\<lambda>x s. update d s x) xs (init d s))) = Some (hash d (concat xs))"
  using rep_final [OF rep_updates [OF rep_init]] by simp

end

lemma md_at_init: "md_ok d s \<Longrightarrow> md_at d (md_init d s) []"
proof (induction d s rule: md_ok.induct)
  case (6 c)
  then show ?case using sha512_at_init(2) [of c] by (simp add: SHA384_Init_def)
next
  case (7 c)
  then show ?case using sha512_at_init(1) [of c] by (simp add: SHA512_Init_def)
qed (simp_all add: md4_start md5_start sha1_start sha256_at_init)

lemma md_at_update: "md_at d s m \<Longrightarrow> md_at d (md_update d s x) (m @ x)"
proof (induction d s m rule: md_at.induct)
  case (6 c m)
  then show ?case using sha512_at_update [of "sha_h (SHA384_Init c)" 48 c m x] by (simp add: SHA384_Init_def SHA384_Update_def)
next
  case (7 c m)
  then show ?case using sha512_at_update [of "sha_h (SHA512_Init c)" 64 c m x] by (simp add: SHA512_Init_def)
qed (simp_all add: MD4_Update_def MD5_Update_def SHA1_Update_def SHA224_Update_def md4.absorbed_update md5.absorbed_update
    sha1.absorbed_update sha256_at_update)

lemma md_at_final: "md_at d s m \<Longrightarrow> fst (md_final d s) = Some (digest_hash d m)"
proof (induction d s m rule: md_at.induct)
  case (1 c m)
  then show ?case using md4_final [of c m] by (simp add: MD4_Init_def split_beta)
next
  case (2 c m)
  then show ?case using md5_final [of c m] by (simp add: MD5_Init_def md5_hash_def split_beta)
next
  case (3 c m)
  then show ?case using sha1_final [of c m] by (simp add: SHA1_Init_def sha1_hash_def split_beta)
next
  case (4 c m)
  then show ?case using sha256_at_final [of "ctx_h SHA224_Init" 28 c m] by (simp add: SHA224_Init_def SHA224_Final_def split_beta)
next
  case (5 c m)
  then show ?case using sha256_at_final [of "ctx_h SHA256_Init" 32 c m] by (simp add: SHA256_Init_def split_beta)
next
  case (6 c m)
  then show ?case using sha512_at_final [of "sha_h (SHA384_Init c)" 48 c m] by (simp add: SHA384_Init_def SHA384_Final_def split_beta)
next
  case (7 c m)
  then show ?case using sha512_at_final [of "sha_h (SHA512_Init c)" 64 c m] by (simp add: SHA512_Init_def split_beta)
next
  case (8 c c' m)
  then show ?case using md5_final [of c m] sha1_final [of c' m] by (simp add: MD5_Init_def SHA1_Init_def md5_hash_def sha1_hash_def split_beta)
qed simp_all

lemma md_at_ok: "md_at d s m \<Longrightarrow> md_ok d s"
  by (induction d s m rule: md_at.induct) (simp_all add: sha512_at_def sha512_absorbed_def)

lemma length_digest_hash: "length (digest_hash d m) = EVP_MD_size d"
  using length_md4 [of m] length_md5 [of m] length_fips_sha1 [of m]
  by (induction d) (simp_all add: length_fips_sha256 length_fips_sha512 MD4_Init_def MD5_Init_def SHA1_Init_def md5_hash_def sha1_hash_def
      MD4_DIGEST_LENGTH_def MD5_DIGEST_LENGTH_def SHA_DIGEST_LENGTH_def SHA224_DIGEST_LENGTH_def SHA256_DIGEST_LENGTH_def
      SHA384_DIGEST_LENGTH_def SHA512_DIGEST_LENGTH_def)

interpretation md: digest_methods md_ok md_at md_init md_update md_final digest_hash EVP_MD_size
  by unfold_locales (simp_all add: md_at_init md_at_update md_at_final md_at_ok length_digest_hash)

section \<open>Contexts over the interface\<close>

text \<open>A context that can be used again, and one after \<open>m\<close>.\<close>

definition ctx_wf :: "'p evp_md_ctx \<Rightarrow> bool" where
  "ctx_wf c \<longleftrightarrow> pctx c = None \<and> (case digest c of None \<Rightarrow> True | Some d \<Rightarrow> (case md_data c of None \<Rightarrow> False | Some s \<Rightarrow> md_ok d s))"

definition ctx_at :: "EVP_MD \<Rightarrow> 'p evp_md_ctx \<Rightarrow> bytes \<Rightarrow> bool" where
  "ctx_at d c m \<longleftrightarrow> pctx c = None \<and> digest c = Some d \<and> (case md_data c of None \<Rightarrow> False | Some s \<Rightarrow> md_at d s m)"

lemma ctx_wf_init: "ctx_wf EVP_MD_CTX_init"
  by (simp add: ctx_wf_def EVP_MD_CTX_init_def)

lemma ctx_at_wf: "ctx_at d c m \<Longrightarrow> ctx_wf c"
  by (auto simp: ctx_at_def ctx_wf_def md_at_ok split: option.splits)

lemma digest_init_at:
  assumes "ctx_wf c" and "digest c = Some d \<or> alloc (ctx_size d)" and "md_ok d (fresh d)"
  shows "fst (EVP_DigestInit_ex alloc fresh c d) \<and> ctx_at d (snd (EVP_DigestInit_ex alloc fresh c d)) []"
  using assms by (auto simp: EVP_DigestInit_ex_def ctx_at_def ctx_wf_def md_at_init split: option.splits)

lemma digest_init_fails:
  "digest c \<noteq> Some d \<Longrightarrow> \<not> alloc (ctx_size d) \<Longrightarrow> EVP_DigestInit_ex alloc fresh c d = (False, c)"
  by (simp add: EVP_DigestInit_ex_def)

lemma digest_update_at:
  "ctx_at d c m \<Longrightarrow> fst (EVP_DigestUpdate c x) \<and> ctx_at d (snd (EVP_DigestUpdate c x)) (m @ x)"
  by (auto simp: EVP_DigestUpdate_def ctx_at_def md_at_update split: option.splits)

lemma zero_state_ok: "md_ok d s \<Longrightarrow> md_ok d (zero_state s)"
  by (induction d s rule: md_ok.induct) simp_all

lemma md_final_type: "md_ok d s \<Longrightarrow> zero_state (snd (md_final d s)) = zero_state s"
  by (induction d s rule: md_ok.induct) (simp_all add: split_beta)

lemma digest_final_at:
  assumes "ctx_at d c m"
  shows "\<exists>c'. EVP_DigestFinal_ex c = (Some (digest_hash d m), EVP_MD_size d, c') \<and> digest c' = Some d \<and> ctx_wf c'"
proof -
  obtain s where s: "digest c = Some d" "md_data c = Some s" "pctx c = None" "md_at d s m"
    using assms by (auto simp: ctx_at_def split: option.splits)
  moreover have "md_ok d (zero_state (snd (md_final d s)))"
    using md_at_ok [OF s(4)] by (simp add: md_final_type zero_state_ok)
  ultimately show ?thesis
    using md_at_final [OF s(4)] by (simp add: EVP_DigestFinal_ex_def split_beta ctx_wf_def)
qed

text \<open>A copy over a context of the same digest asks for no memory.\<close>

lemma digest_copy_at:
  assumes "ctx_at d i m" and "digest out = Some d \<or> alloc (ctx_size d)"
  shows "fst (EVP_MD_CTX_copy_ex dup alloc out (Some i)) \<and> ctx_at d (snd (EVP_MD_CTX_copy_ex dup alloc out (Some i))) m"
  using assms by (auto simp: EVP_MD_CTX_copy_ex_def EVP_MD_CTX_cleanup_def EVP_MD_CTX_init_def ctx_at_def)

lemma evp_digest:
  assumes "md_ok d (fresh d)"
  shows "EVP_Digest alloc fresh m d = (if alloc (ctx_size d) then Some (Some (digest_hash d m), EVP_MD_size d) else None)"
proof (cases "alloc (ctx_size d)")
  case True
  let ?r = "EVP_DigestInit_ex alloc fresh (EVP_MD_CTX_init :: unit evp_md_ctx) d"
  have i: "fst ?r" "ctx_at d (snd ?r) []"
    using digest_init_at [OF ctx_wf_init, where alloc = alloc and d = d and fresh = fresh] True assms by blast+
  have u: "ctx_at d (snd (EVP_DigestUpdate (snd ?r) m)) m"
    using digest_update_at [OF i(2), of m] by simp
  from digest_final_at [OF u] i(1) True show ?thesis
    by (auto simp: EVP_Digest_def split_beta split: prod.splits bool.splits)
next
  case False
  then show ?thesis by (simp add: EVP_Digest_def digest_init_fails EVP_MD_CTX_init_def)
qed

section \<open>Properties\<close>

text \<open>C32. Every digest method computes its hash, that of RFC 1320, RFC 1321 or FIPS 180-4, whatever the
  pieces are in which the message is given to it, and whatever its memory held before.\<close>

theorem digest_any_pieces:
  "md_ok d s \<Longrightarrow> fst (md_final d (fold (\<lambda>x s. md_update d s x) xs (md_init d s))) = Some (digest_hash d (concat xs))"
  by (rule md.pieces)

theorem digest_any_pieces_witness:
  "fst (md_final EVP_sha256 (md_update EVP_sha256 (md_update EVP_sha256 (md_init EVP_sha256 (SHA256_state SHA256_Init)) [0x61, 0x62]) [0x63])) =
    Some (digest_hash EVP_sha256 [0x61, 0x62, 0x63])"
  using digest_any_pieces [of EVP_sha256 "SHA256_state SHA256_Init" "[[0x61, 0x62], [0x63]]"] by simp

text \<open>C33. \<open>EVP_Digest\<close> gives the hash and its length, unless the memory for the digest's state is
  refused; nothing else can fail.\<close>

theorem evp_digest_exact:
  "md_ok d (fresh d) \<Longrightarrow>
     EVP_Digest alloc fresh m d = (if alloc (ctx_size d) then Some (Some (digest_hash d m), EVP_MD_size d) else None)"
  by (rule evp_digest)

theorem evp_digest_exact_witness:
  "EVP_Digest (\<lambda>n. n < 112) (\<lambda>_. SHA1_state SHA1_Init) [0x61] EVP_sha1 = Some (Some (digest_hash EVP_sha1 [0x61]), 20)"
  using evp_digest_exact [of EVP_sha1 "\<lambda>_. SHA1_state SHA1_Init" "\<lambda>n. n < 112" "[0x61]"] by (simp add: SHA_DIGEST_LENGTH_def)

end
