(* ===== verification/Hmac.thy ===== *)
theory Hmac
  imports Digest
begin

text \<open>
  HMAC, \<open>fipsmodule/hmac/hmac.c\<close>: the context of three digest contexts, keyed once and rewound for
  every message; then the function of RFC 2104 and the proof that the code computes it, for every
  digest, every key and every way of cutting the message.
\<close>

unbundle bit_operations_syntax

section \<open>The code\<close>

definition EVP_MAX_MD_SIZE :: nat where "EVP_MAX_MD_SIZE = 64"
definition EVP_MAX_MD_BLOCK_SIZE :: nat where "EVP_MAX_MD_BLOCK_SIZE = 128"

record 'p hmac_ctx =
  hmac_md :: "EVP_MD option"
  md_ctx :: "'p evp_md_ctx"
  i_ctx :: "'p evp_md_ctx"
  o_ctx :: "'p evp_md_ctx"

definition HMAC_CTX_init :: "'p hmac_ctx" where
  "HMAC_CTX_init = \<lparr>hmac_md = None, md_ctx = EVP_MD_CTX_init, i_ctx = EVP_MD_CTX_init, o_ctx = EVP_MD_CTX_init\<rparr>"

definition HMAC_CTX_new :: "(nat \<Rightarrow> bool) \<Rightarrow> 'p hmac_ctx option" where
  "HMAC_CTX_new alloc = (if alloc 104 then Some HMAC_CTX_init else None)"

text \<open>The context is cleansed: all its pointers are \<open>NULL\<close>.\<close>

definition HMAC_CTX_cleanup :: "'p hmac_ctx \<Rightarrow> 'p hmac_ctx" where
  "HMAC_CTX_cleanup ctx =
     (let ctx = ctx\<lparr>i_ctx := EVP_MD_CTX_cleanup (i_ctx ctx)\<rparr>;
          ctx = ctx\<lparr>o_ctx := EVP_MD_CTX_cleanup (o_ctx ctx)\<rparr>;
          ctx = ctx\<lparr>md_ctx := EVP_MD_CTX_cleanup (md_ctx ctx)\<rparr>
      in HMAC_CTX_init)"

definition HMAC_CTX_reset :: "'p hmac_ctx \<Rightarrow> 'p hmac_ctx" where
  "HMAC_CTX_reset ctx = (let ctx = HMAC_CTX_cleanup ctx in HMAC_CTX_init)"

text \<open>The key block: a long key is hashed in \<open>md_ctx\<close>. \<open>None\<close> is the early return.\<close>

definition hmac_key_block ::
  "(nat \<Rightarrow> bool) \<Rightarrow> (EVP_MD \<Rightarrow> md_state) \<Rightarrow> 'p hmac_ctx \<Rightarrow> bytes \<Rightarrow> EVP_MD \<Rightarrow> bytes option \<times> 'p hmac_ctx" where
  "hmac_key_block alloc fresh ctx key md =
     (let (k, ctx) =
        (if EVP_MD_block_size md < length key
         then let (ok, c) = EVP_DigestInit_ex alloc fresh (md_ctx ctx) md
              in if \<not> ok then (None, ctx\<lparr>md_ctx := c\<rparr>)
                 else let (_, c) = EVP_DigestUpdate c key; (out, size, c) = EVP_DigestFinal_ex c
                      in (map_option (take size) out, ctx\<lparr>md_ctx := c\<rparr>)
         else (Some key, ctx))
      in (map_option (\<lambda>k. k @ replicate (EVP_MAX_MD_BLOCK_SIZE - length k) 0) k, ctx))"

text \<open>One of the two keyed contexts.\<close>

definition hmac_pad_ctx ::
  "(nat \<Rightarrow> bool) \<Rightarrow> (EVP_MD \<Rightarrow> md_state) \<Rightarrow> 'p evp_md_ctx \<Rightarrow> EVP_MD \<Rightarrow> u8 \<Rightarrow> bytes \<Rightarrow> bool \<times> 'p evp_md_ctx" where
  "hmac_pad_ctx alloc fresh c md b key_block =
     (let pad = map (\<lambda>k. b XOR k) key_block;
          (ok, c) = EVP_DigestInit_ex alloc fresh c md
      in if \<not> ok then (False, c) else EVP_DigestUpdate c (take (EVP_MD_block_size md) pad))"

text \<open>\<open>key\<close> and \<open>md\<close> are \<open>None\<close> for \<open>NULL\<close>. A key with no digest at all is a null pointer in the
  code; the model returns 0.\<close>

definition HMAC_Init_ex ::
  "('p \<Rightarrow> 'p option) \<Rightarrow> (nat \<Rightarrow> bool) \<Rightarrow> (EVP_MD \<Rightarrow> md_state) \<Rightarrow> 'p hmac_ctx \<Rightarrow> bytes option \<Rightarrow> EVP_MD option \<Rightarrow>
   bool \<times> 'p hmac_ctx" where
  "HMAC_Init_ex dup alloc fresh ctx key md =
     (let md = (if md = None then hmac_md ctx else md);
          (ok, ctx) =
            (if md \<noteq> hmac_md ctx \<or> key \<noteq> None
             then case md of None \<Rightarrow> (False, ctx)
               | Some d \<Rightarrow>
                   (case hmac_key_block alloc fresh ctx (case key of None \<Rightarrow> [] | Some k \<Rightarrow> k) d of
                      (None, ctx) \<Rightarrow> (False, ctx)
                    | (Some kb, ctx) \<Rightarrow>
                        let (ok, c) = hmac_pad_ctx alloc fresh (i_ctx ctx) d 0x36 kb; ctx = ctx\<lparr>i_ctx := c\<rparr>
                        in if \<not> ok then (False, ctx)
                           else let (ok, c) = hmac_pad_ctx alloc fresh (o_ctx ctx) d 0x5c kb; ctx = ctx\<lparr>o_ctx := c\<rparr>
                                in if \<not> ok then (False, ctx) else (True, ctx\<lparr>hmac_md := md\<rparr>))
             else (True, ctx))
      in if \<not> ok then (False, ctx)
         else let (ok, c) = EVP_MD_CTX_copy_ex dup alloc (md_ctx ctx) (Some (i_ctx ctx)) in (ok, ctx\<lparr>md_ctx := c\<rparr>))"

definition HMAC_Init where
  "HMAC_Init dup alloc fresh ctx key md =
     (let ctx = (if key \<noteq> None \<and> md \<noteq> None then HMAC_CTX_init else ctx) in HMAC_Init_ex dup alloc fresh ctx key md)"

definition HMAC_Update :: "'p hmac_ctx \<Rightarrow> bytes \<Rightarrow> bool \<times> 'p hmac_ctx" where
  "HMAC_Update ctx d = (let (ok, c) = EVP_DigestUpdate (md_ctx ctx) d in (ok, ctx\<lparr>md_ctx := c\<rparr>))"

text \<open>The bytes written and \<open>*out_len\<close>, or \<open>None\<close> for the return value 0.\<close>

definition HMAC_Final ::
  "('p \<Rightarrow> 'p option) \<Rightarrow> (nat \<Rightarrow> bool) \<Rightarrow> 'p hmac_ctx \<Rightarrow> (bytes \<times> nat) option \<times> 'p hmac_ctx" where
  "HMAC_Final dup alloc ctx =
     (let (buf, i, c) = EVP_DigestFinal_ex (md_ctx ctx); ctx = ctx\<lparr>md_ctx := c\<rparr>
      in case buf of None \<Rightarrow> (None, ctx)
         | Some buf \<Rightarrow>
             let (ok, c) = EVP_MD_CTX_copy_ex dup alloc (md_ctx ctx) (Some (o_ctx ctx)); ctx = ctx\<lparr>md_ctx := c\<rparr>
             in if \<not> ok then (None, ctx)
                else let (_, c) = EVP_DigestUpdate (md_ctx ctx) (take i buf);
                         (out, out_len, c) = EVP_DigestFinal_ex c
                     in (map_option (\<lambda>out. (out, out_len)) out, ctx\<lparr>md_ctx := c\<rparr>))"

definition HMAC_size :: "'p hmac_ctx \<Rightarrow> nat option" where
  "HMAC_size ctx = map_option EVP_MD_size (hmac_md ctx)"

definition HMAC_CTX_copy_ex ::
  "('p \<Rightarrow> 'p option) \<Rightarrow> (nat \<Rightarrow> bool) \<Rightarrow> 'p hmac_ctx \<Rightarrow> 'p hmac_ctx \<Rightarrow> bool \<times> 'p hmac_ctx" where
  "HMAC_CTX_copy_ex dup alloc dest src =
     (let (ok, c) = EVP_MD_CTX_copy_ex dup alloc (i_ctx dest) (Some (i_ctx src)); dest = dest\<lparr>i_ctx := c\<rparr>
      in if \<not> ok then (False, dest)
         else let (ok, c) = EVP_MD_CTX_copy_ex dup alloc (o_ctx dest) (Some (o_ctx src)); dest = dest\<lparr>o_ctx := c\<rparr>
              in if \<not> ok then (False, dest)
                 else let (ok, c) = EVP_MD_CTX_copy_ex dup alloc (md_ctx dest) (Some (md_ctx src)); dest = dest\<lparr>md_ctx := c\<rparr>
                      in if \<not> ok then (False, dest) else (True, dest\<lparr>hmac_md := hmac_md src\<rparr>))"

definition HMAC_CTX_copy where
  "HMAC_CTX_copy dup alloc dest src = HMAC_CTX_copy_ex dup alloc HMAC_CTX_init src"

definition HMAC ::
  "(nat \<Rightarrow> bool) \<Rightarrow> (EVP_MD \<Rightarrow> md_state) \<Rightarrow> EVP_MD \<Rightarrow> bytes option \<Rightarrow> bytes \<Rightarrow> (bytes \<times> nat) option" where
  "HMAC alloc fresh evp_md key d =
     (let (ok, ctx) = HMAC_Init_ex Some alloc fresh (HMAC_CTX_init :: unit hmac_ctx) key (Some evp_md)
      in if \<not> ok then None
         else let (ok, ctx) = HMAC_Update ctx d
              in if \<not> ok then None else fst (HMAC_Final Some alloc ctx))"

section \<open>The function of RFC 2104\<close>

definition hmac_k0 :: "EVP_MD \<Rightarrow> bytes \<Rightarrow> bytes" where
  "hmac_k0 d k =
     (let k = (if EVP_MD_block_size d < length k then digest_hash d k else k)
      in k @ replicate (EVP_MD_block_size d - length k) 0)"

definition hmac_pad :: "EVP_MD \<Rightarrow> bytes \<Rightarrow> u8 \<Rightarrow> bytes" where
  "hmac_pad d k b = map (\<lambda>x. x XOR b) (hmac_k0 d k)"

definition rfc_hmac :: "EVP_MD \<Rightarrow> bytes \<Rightarrow> bytes \<Rightarrow> bytes" where
  "rfc_hmac d k m = digest_hash d (hmac_pad d k 0x5c @ digest_hash d (hmac_pad d k 0x36 @ m))"

section \<open>Keyed contexts\<close>

definition hmac_wf :: "'p hmac_ctx \<Rightarrow> bool" where
  "hmac_wf c \<longleftrightarrow> ctx_wf (md_ctx c) \<and> ctx_wf (i_ctx c) \<and> ctx_wf (o_ctx c)"

text \<open>Keyed with \<open>k\<close>, the digest contexts being usable; and, besides, after the pieces of \<open>m\<close>.\<close>

definition hmac_keyed :: "EVP_MD \<Rightarrow> bytes \<Rightarrow> 'p hmac_ctx \<Rightarrow> bool" where
  "hmac_keyed d k c \<longleftrightarrow> hmac_md c = Some d \<and> ctx_wf (md_ctx c) \<and> ctx_at d (i_ctx c) (hmac_pad d k 0x36) \<and>
     ctx_at d (o_ctx c) (hmac_pad d k 0x5c)"

definition hmac_at :: "EVP_MD \<Rightarrow> bytes \<Rightarrow> 'p hmac_ctx \<Rightarrow> bytes \<Rightarrow> bool" where
  "hmac_at d k c m \<longleftrightarrow> hmac_keyed d k c \<and> ctx_at d (md_ctx c) (hmac_pad d k 0x36 @ m)"

lemma md_size_block: "EVP_MD_size d \<le> EVP_MD_block_size d" "EVP_MD_block_size d \<le> 128" "EVP_MD_size d \<le> EVP_MAX_MD_SIZE"
  by (induction d; simp add: EVP_MAX_MD_SIZE_def MD4_DIGEST_LENGTH_def MD5_DIGEST_LENGTH_def SHA_DIGEST_LENGTH_def SHA224_DIGEST_LENGTH_def
      SHA256_DIGEST_LENGTH_def SHA384_DIGEST_LENGTH_def SHA512_DIGEST_LENGTH_def)+

text \<open>The memory the allocator hands out is of the type it is asked for.\<close>

definition fresh_ok :: "(EVP_MD \<Rightarrow> md_state) \<Rightarrow> bool" where
  "fresh_ok fresh \<longleftrightarrow> (\<forall>d. md_ok d (fresh d))"

lemma fresh_okD: "fresh_ok fresh \<Longrightarrow> md_ok d (fresh d)"
  by (simp add: fresh_ok_def)

lemma pad_of_key:
  assumes "length k \<le> EVP_MD_block_size d"
  shows "take (EVP_MD_block_size d) (map (\<lambda>x. b XOR x) (k @ replicate (EVP_MAX_MD_BLOCK_SIZE - length k) 0)) =
    map (\<lambda>x. x XOR b) (k @ replicate (EVP_MD_block_size d - length k) 0)"
  using assms md_size_block(2) [of d]
  by (simp add: EVP_MAX_MD_BLOCK_SIZE_def xor.commute min_def)

lemma key_block:
  assumes "ctx_wf (md_ctx c)" and "alloc (ctx_size d)" and "fresh_ok fresh"
  shows "\<exists>kb m'. hmac_key_block alloc fresh c key d = (Some kb, c\<lparr>md_ctx := m'\<rparr>) \<and> ctx_wf m' \<and>
    (\<forall>b. take (EVP_MD_block_size d) (map (\<lambda>x. b XOR x) kb) = hmac_pad d key b)"
proof (cases "EVP_MD_block_size d < length key")
  case False
  then have "hmac_key_block alloc fresh c key d = (Some (key @ replicate (EVP_MAX_MD_BLOCK_SIZE - length key) 0), c\<lparr>md_ctx := md_ctx c\<rparr>)"
    by (simp add: hmac_key_block_def)
  moreover have "take (EVP_MD_block_size d) (map (\<lambda>x. b XOR x) (key @ replicate (EVP_MAX_MD_BLOCK_SIZE - length key) 0)) = hmac_pad d key b" for b
    unfolding hmac_pad_def hmac_k0_def using False by (subst pad_of_key) simp_all
  ultimately show ?thesis using assms(1) by blast
next
  case True
  let ?i = "EVP_DigestInit_ex alloc fresh (md_ctx c) d"
  let ?u = "EVP_DigestUpdate (snd ?i) key"
  have i: "fst ?i" "ctx_at d (snd ?i) []"
    using digest_init_at [OF assms(1), of d alloc fresh] assms(2,3) by (simp_all add: fresh_okD)
  have u: "ctx_at d (snd ?u) key" using digest_update_at [OF i(2), of key] by simp
  from digest_final_at [OF u] obtain m' where
    f: "EVP_DigestFinal_ex (snd ?u) = (Some (digest_hash d key), EVP_MD_size d, m')" "ctx_wf m'" by blast
  let ?k = "digest_hash d key"
  have l: "length ?k \<le> EVP_MD_block_size d" using md_size_block(1) [of d] by (simp add: length_digest_hash)
  have "hmac_key_block alloc fresh c key d = (Some (?k @ replicate (EVP_MAX_MD_BLOCK_SIZE - length ?k) 0), c\<lparr>md_ctx := m'\<rparr>)"
    using True i(1) f(1) by (simp add: hmac_key_block_def split_beta Let_def length_digest_hash)
  moreover have "take (EVP_MD_block_size d) (map (\<lambda>x. b XOR x) (?k @ replicate (EVP_MAX_MD_BLOCK_SIZE - length ?k) 0)) = hmac_pad d key b" for b
    unfolding hmac_pad_def hmac_k0_def pad_of_key [OF l] using True by (simp add: Let_def)
  ultimately show ?thesis using f(2) by blast
qed

lemma pad_ctx:
  assumes "ctx_wf c" and "digest c = Some d \<or> alloc (ctx_size d)" and "fresh_ok fresh"
    and "take (EVP_MD_block_size d) (map (\<lambda>x. b XOR x) kb) = p"
  shows "fst (hmac_pad_ctx alloc fresh c d b kb) \<and> ctx_at d (snd (hmac_pad_ctx alloc fresh c d b kb)) p"
proof -
  let ?i = "EVP_DigestInit_ex alloc fresh c d"
  have i: "fst ?i" "ctx_at d (snd ?i) []"
    using digest_init_at [where alloc = alloc and fresh = fresh, OF assms(1,2)] assms(3) by (simp_all add: fresh_okD)
  with digest_update_at [OF i(2), of p] assms(4) show ?thesis by (simp add: hmac_pad_ctx_def Let_def split_beta)
qed

text \<open>Keying a context, whatever was in it; and rewinding one.\<close>

lemma hmac_init_key:
  assumes "hmac_wf c" and "alloc (ctx_size d)" and "fresh_ok fresh" and "key \<noteq> None \<or> hmac_md c \<noteq> Some d"
    and "md = Some d \<or> md = None \<and> hmac_md c = Some d"
  shows "fst (HMAC_Init_ex dup alloc fresh c key md) \<and>
    hmac_at d (case key of None \<Rightarrow> [] | Some k \<Rightarrow> k) (snd (HMAC_Init_ex dup alloc fresh c key md)) []"
proof -
  let ?k = "case key of None \<Rightarrow> [] | Some k \<Rightarrow> k"
  have wf: "ctx_wf (md_ctx c)" "ctx_wf (i_ctx c)" "ctx_wf (o_ctx c)" using assms(1) by (simp_all add: hmac_wf_def)
  from key_block [of c alloc d fresh ?k, OF wf(1) assms(2,3)] obtain kb m' where
    kb: "hmac_key_block alloc fresh c ?k d = (Some kb, c\<lparr>md_ctx := m'\<rparr>)" "ctx_wf m'"
      "take (EVP_MD_block_size d) (map (\<lambda>x. b XOR x) kb) = hmac_pad d ?k b" for b by blast
  let ?i = "hmac_pad_ctx alloc fresh (i_ctx c) d 0x36 kb"
  let ?o = "hmac_pad_ctx alloc fresh (o_ctx c) d 0x5c kb"
  have i: "fst ?i" "ctx_at d (snd ?i) (hmac_pad d ?k 0x36)"
    using pad_ctx [where alloc = alloc and b = "0x36", OF wf(2) disjI2 [OF assms(2)] assms(3) kb(3)] by blast+
  have o: "fst ?o" "ctx_at d (snd ?o) (hmac_pad d ?k 0x5c)"
    using pad_ctx [where alloc = alloc and b = "0x5c", OF wf(3) disjI2 [OF assms(2)] assms(3) kb(3)] by blast+
  let ?m = "EVP_MD_CTX_copy_ex dup alloc m' (Some (snd ?i))"
  have m: "fst ?m" "ctx_at d (snd ?m) (hmac_pad d ?k 0x36)"
    using digest_copy_at [where alloc = alloc, OF i(2) disjI2 [OF assms(2)]] by blast+
  have md: "(if md = None then hmac_md c else md) = Some d" using assms(5) by auto
  have c: "Some d \<noteq> hmac_md c \<or> key \<noteq> None" using assms(4) by auto
  have "HMAC_Init_ex dup alloc fresh c key md =
      (True, \<lparr>hmac_md = Some d, md_ctx = snd ?m, i_ctx = snd ?i, o_ctx = snd ?o\<rparr>)"
    using kb(1) i(1) o(1) m(1) unfolding HMAC_Init_ex_def Let_def md if_P [OF c]
    by (simp add: split_beta Let_def)
  with i(2) o(2) m(2) show ?thesis by (auto simp: hmac_at_def hmac_keyed_def intro: ctx_at_wf)
qed

lemma hmac_init_rewind:
  assumes "hmac_keyed d k c" and "digest (md_ctx c) = Some d \<or> alloc (ctx_size d)" and "md = None \<or> md = Some d"
  shows "fst (HMAC_Init_ex dup alloc fresh c None md) \<and> hmac_at d k (snd (HMAC_Init_ex dup alloc fresh c None md)) []"
proof -
  have k: "hmac_md c = Some d" "ctx_at d (i_ctx c) (hmac_pad d k 0x36)" "ctx_at d (o_ctx c) (hmac_pad d k 0x5c)"
    using assms(1) by (simp_all add: hmac_keyed_def)
  have md: "(if md = None then hmac_md c else md) = Some d" using assms(3) k(1) by auto
  let ?m = "EVP_MD_CTX_copy_ex dup alloc (md_ctx c) (Some (i_ctx c))"
  have m: "fst ?m" "ctx_at d (snd ?m) (hmac_pad d k 0x36)"
    using digest_copy_at [where alloc = alloc, OF k(2) assms(2)] by blast+
  have "HMAC_Init_ex dup alloc fresh c None md = (True, c\<lparr>md_ctx := snd ?m\<rparr>)"
    using m(1) k(1) unfolding HMAC_Init_ex_def Let_def md by (simp add: split_beta Let_def)
  with k m(2) show ?thesis by (auto simp: hmac_at_def hmac_keyed_def intro: ctx_at_wf)
qed

lemma hmac_update_at:
  assumes "hmac_at d k c m"
  shows "fst (HMAC_Update c x) \<and> hmac_at d k (snd (HMAC_Update c x)) (m @ x)"
proof -
  have "ctx_at d (md_ctx c) (hmac_pad d k 0x36 @ m)" using assms by (simp add: hmac_at_def)
  from digest_update_at [OF this, of x] assms show ?thesis
    by (auto simp: HMAC_Update_def split_beta hmac_at_def hmac_keyed_def intro: ctx_at_wf)
qed

lemma hmac_updates_at: "hmac_at d k c m \<Longrightarrow> hmac_at d k (fold (\<lambda>x c. snd (HMAC_Update c x)) xs c) (m @ concat xs)"
proof (induction xs arbitrary: c m)
  case (Cons x xs)
  from Cons.IH [OF conjunct2 [OF hmac_update_at [OF Cons.prems]]] show ?case by simp
qed simp

text \<open>The final function asks for no memory, and leaves a context that can be rewound without any.\<close>

lemma hmac_final_at:
  assumes "hmac_at d k c m"
  shows "\<exists>c'. HMAC_Final dup alloc c = (Some (rfc_hmac d k m, EVP_MD_size d), c') \<and> hmac_keyed d k c' \<and> digest (md_ctx c') = Some d"
proof -
  have k: "hmac_keyed d k c" and m: "ctx_at d (md_ctx c) (hmac_pad d k 0x36 @ m)" using assms by (simp_all add: hmac_at_def)
  let ?h = "digest_hash d (hmac_pad d k 0x36 @ m)"
  from digest_final_at [OF m] obtain m1 where
    f: "EVP_DigestFinal_ex (md_ctx c) = (Some ?h, EVP_MD_size d, m1)" "digest m1 = Some d" by blast
  let ?c = "EVP_MD_CTX_copy_ex dup alloc m1 (Some (o_ctx c))"
  have c: "fst ?c" "ctx_at d (snd ?c) (hmac_pad d k 0x5c)"
    using digest_copy_at [where alloc = alloc and out = m1 and i = "o_ctx c" and d = d and dup = dup] f(2) k by (auto simp: hmac_keyed_def)
  let ?u = "EVP_DigestUpdate (snd ?c) ?h"
  have u: "ctx_at d (snd ?u) (hmac_pad d k 0x5c @ ?h)" using digest_update_at [OF c(2), of ?h] by simp
  from digest_final_at [OF u] obtain m2 where
    g: "EVP_DigestFinal_ex (snd ?u) = (Some (rfc_hmac d k m), EVP_MD_size d, m2)" "digest m2 = Some d" "ctx_wf m2"
    by (auto simp: rfc_hmac_def)
  have "HMAC_Final dup alloc c = (Some (rfc_hmac d k m, EVP_MD_size d), c\<lparr>md_ctx := m2\<rparr>)"
    using f(1) c(1) g(1) unfolding HMAC_Final_def by (simp add: Let_def split_beta length_digest_hash)
  with g k show ?thesis by (simp add: hmac_keyed_def)
qed

lemma hmac_wf_init: "hmac_wf HMAC_CTX_init"
  by (simp add: hmac_wf_def HMAC_CTX_init_def ctx_wf_init)

lemma hmac_oneshot:
  assumes "alloc (ctx_size d)" and "fresh_ok fresh"
  shows "HMAC alloc fresh d key m = Some (rfc_hmac d (case key of None \<Rightarrow> [] | Some k \<Rightarrow> k) m, EVP_MD_size d)"
proof -
  let ?k = "case key of None \<Rightarrow> [] | Some k \<Rightarrow> k"
  let ?i = "HMAC_Init_ex Some alloc fresh (HMAC_CTX_init :: unit hmac_ctx) key (Some d)"
  have i: "fst ?i" "hmac_at d ?k (snd ?i) []"
    using hmac_init_key [where alloc = alloc and md = "Some d" and key = key and dup = Some and c = "HMAC_CTX_init :: unit hmac_ctx", OF hmac_wf_init assms]
    by (simp_all add: HMAC_CTX_init_def)
  have u: "fst (HMAC_Update (snd ?i) m)" "hmac_at d ?k (snd (HMAC_Update (snd ?i) m)) m"
    using hmac_update_at [OF i(2), of m] by simp_all
  from hmac_final_at [OF u(2), of Some alloc] i(1) u(1) show ?thesis by (auto simp: HMAC_def split_beta)
qed

lemma hmac_copy:
  assumes "hmac_at d k src m" and "alloc (ctx_size d)"
  shows "fst (HMAC_CTX_copy_ex dup alloc dest src) \<and> hmac_at d k (snd (HMAC_CTX_copy_ex dup alloc dest src)) m"
proof -
  note at = assms(1) [unfolded hmac_at_def hmac_keyed_def]
  have i: "fst (EVP_MD_CTX_copy_ex dup alloc x (Some (i_ctx src))) \<and> ctx_at d (snd (EVP_MD_CTX_copy_ex dup alloc x (Some (i_ctx src)))) (hmac_pad d k 0x36)"
    and o: "fst (EVP_MD_CTX_copy_ex dup alloc x (Some (o_ctx src))) \<and> ctx_at d (snd (EVP_MD_CTX_copy_ex dup alloc x (Some (o_ctx src)))) (hmac_pad d k 0x5c)"
    and m: "fst (EVP_MD_CTX_copy_ex dup alloc x (Some (md_ctx src))) \<and> ctx_at d (snd (EVP_MD_CTX_copy_ex dup alloc x (Some (md_ctx src)))) (hmac_pad d k 0x36 @ m)" for x
    by (rule digest_copy_at; use at assms(2) in blast)+
  show ?thesis
    using i [of "i_ctx dest"] o [of "o_ctx dest"] m [of "md_ctx dest"] at
    by (auto simp: HMAC_CTX_copy_ex_def split_beta Let_def hmac_at_def hmac_keyed_def intro: ctx_at_wf)
qed

section \<open>Properties\<close>

text \<open>Messages one after the other under one key: each is given in pieces, its MAC is taken, and the
  context is rewound. The results of the last two calls are collected.\<close>

primrec hmac_messages ::
  "('p \<Rightarrow> 'p option) \<Rightarrow> (nat \<Rightarrow> bool) \<Rightarrow> (EVP_MD \<Rightarrow> md_state) \<Rightarrow> 'p hmac_ctx \<Rightarrow> bytes list list \<Rightarrow> ((bytes \<times> nat) option \<times> bool) list" where
  "hmac_messages dup alloc fresh c [] = []"
| "hmac_messages dup alloc fresh c (xs # xss) =
     (let c = fold (\<lambda>x c. snd (HMAC_Update c x)) xs c;
          (mac, c) = HMAC_Final dup alloc c;
          (ok, c) = HMAC_Init_ex dup alloc fresh c None None
      in (mac, ok) # hmac_messages dup alloc fresh c xss)"

lemma hmac_messages_at:
  "hmac_at d k c [] \<Longrightarrow> hmac_messages dup alloc fresh c xss = map (\<lambda>xs. (Some (rfc_hmac d k (concat xs), EVP_MD_size d), True)) xss"
proof (induction xss arbitrary: c)
  case (Cons xs xss)
  from hmac_final_at [OF hmac_updates_at [OF Cons.prems, of xs], of dup alloc] obtain c' where
    f: "HMAC_Final dup alloc (fold (\<lambda>x c. snd (HMAC_Update c x)) xs c) = (Some (rfc_hmac d k (concat xs), EVP_MD_size d), c')"
       "hmac_keyed d k c'" "digest (md_ctx c') = Some d" by auto
  have r: "fst (HMAC_Init_ex dup alloc fresh c' None None) \<and> hmac_at d k (snd (HMAC_Init_ex dup alloc fresh c' None None)) []"
    using hmac_init_rewind [where alloc = alloc and md = None, OF f(2)] f(3) by blast
  with Cons.IH show ?case by (simp add: f(1) Let_def split_beta)
qed simp

text \<open>C34. A context keyed once computes HMAC of RFC 2104 for any number of messages, in any pieces, and
  after the keying no call can fail: the allocator may refuse every later request.\<close>

theorem hmac_any_messages:
  assumes "hmac_wf c" and "alloc (ctx_size d)" and "fresh_ok fresh"
  shows "fst (HMAC_Init_ex dup alloc fresh c (Some k) (Some d)) \<and>
    hmac_messages dup alloc' fresh' (snd (HMAC_Init_ex dup alloc fresh c (Some k) (Some d))) xss =
      map (\<lambda>xs. (Some (rfc_hmac d k (concat xs), EVP_MD_size d), True)) xss"
  using hmac_init_key [where alloc = alloc and md = "Some d" and key = "Some k", OF assms] hmac_messages_at by fastforce

definition start_state :: "EVP_MD \<Rightarrow> md_state" where
  "start_state d = (case d of EVP_md4 \<Rightarrow> MD4_state MD4_Init | EVP_md5 \<Rightarrow> MD5_state MD5_Init | EVP_sha1 \<Rightarrow> SHA1_state SHA1_Init
     | EVP_sha224 \<Rightarrow> SHA256_state SHA256_Init | EVP_sha256 \<Rightarrow> SHA256_state SHA256_Init
     | EVP_md5_sha1 \<Rightarrow> MD5_SHA1_state MD5_Init SHA1_Init
     | _ \<Rightarrow> SHA512_state \<lparr>sha_h = [], sha_Nl = 0, sha_Nh = 0, sha_p = replicate 128 0, sha_num = 0, sha512_md_len = 0\<rparr>)"

lemma fresh_ok_start: "fresh_ok start_state"
  unfolding fresh_ok_def
proof
  fix d show "md_ok d (start_state d)" by (cases d) (simp_all add: start_state_def SHA512_CBLOCK_def)
qed

theorem hmac_any_messages_witness:
  "hmac_messages Some (\<lambda>_. False) start_state
     (snd (HMAC_Init_ex Some (\<lambda>_. True) start_state (HMAC_CTX_init :: unit hmac_ctx) (Some [1, 2, 3]) (Some EVP_sha256)))
     [[[4], [5, 6]], [[7]]] =
   [(Some (rfc_hmac EVP_sha256 [1, 2, 3] [4, 5, 6], 32), True), (Some (rfc_hmac EVP_sha256 [1, 2, 3] [7], 32), True)]"
  using hmac_any_messages [where c = "HMAC_CTX_init :: unit hmac_ctx" and alloc = "\<lambda>_. True" and d = EVP_sha256 and fresh = start_state
      and dup = Some and alloc' = "\<lambda>_. False" and fresh' = start_state and k = "[1, 2, 3]" and xss = "[[[4], [5, 6]], [[7]]]",
      OF hmac_wf_init TrueI fresh_ok_start]
  by (simp add: SHA256_DIGEST_LENGTH_def)

end
