(* ===== verification/Tls_Cbc.thy ===== *)
theory Tls_Cbc
  imports ConstTime
begin

text \<open>
  The padding and the MAC of TLS CBC records in constant time, the first half of
  \<open>cipher_extra/tls_cbc.c\<close>: \<open>EVP_tls_cbc_remove_padding\<close>, which checks the padding of a decrypted
  record without branching on it, and \<open>EVP_tls_cbc_copy_mac\<close>, which copies the MAC out of a place
  it does not reveal; what each of them computes.
\<close>

unbundle bit_operations_syntax

section \<open>The code\<close>

text \<open>The mask and the length without padding; \<open>None\<close> is the return value 0.\<close>

definition EVP_tls_cbc_remove_padding :: "bytes \<Rightarrow> nat \<Rightarrow> (crypto_word_t \<times> nat) option" where
  "EVP_tls_cbc_remove_padding inp mac_size =
     (let in_len = length inp; overhead = size_add 1 mac_size
      in if overhead > in_len then None
         else
           let padding_length = (ucast (inp ! (in_len - 1)) :: u64);
               good = constant_time_ge_w (of_nat in_len) (of_nat overhead + padding_length);
               to_check = (if 256 > in_len then in_len else 256);
               good = fold (\<lambda>i good.
                        let mask = constant_time_ge_8 padding_length (of_nat i); b = inp ! (in_len - 1 - i)
                        in good AND NOT (ucast mask AND (padding_length XOR ucast b)))
                      [0..<to_check] good;
               good = constant_time_eq_w 0xff (good AND 0xff);
               padding_length = good AND (padding_length + 1)
           in Some (good, unat (of_nat in_len - padding_length)))"

text \<open>One turn of the scan: \<open>j\<close>, \<open>rotate_offset\<close>, \<open>mac_started\<close> and \<open>rotated_mac\<close>.\<close>

definition copy_mac_scan ::
  "bytes \<Rightarrow> nat \<Rightarrow> nat \<Rightarrow> nat \<Rightarrow> nat \<Rightarrow> nat \<times> u64 \<times> u8 \<times> bytes \<Rightarrow> nat \<times> u64 \<times> u8 \<times> bytes" where
  "copy_mac_scan inp md_size mac_start mac_end i = (\<lambda>(j, rotate_offset, mac_started, rotated_mac).
     let j = (if j \<ge> md_size then j - md_size else j);
         is_mac_start = constant_time_eq_w (of_nat i) (of_nat mac_start);
         mac_started = mac_started OR ucast is_mac_start;
         mac_ended = constant_time_ge_8 (of_nat i) (of_nat mac_end);
         rotated_mac = rotated_mac[j := rotated_mac ! j OR (inp ! i AND mac_started AND NOT mac_ended)];
         rotate_offset = rotate_offset OR (of_nat j AND is_mac_start)
     in (j + 1, rotate_offset, mac_started, rotated_mac))"

text \<open>The loop over the bits of \<open>rotate_offset\<close>; \<open>offset\<close> is never 0.\<close>

function copy_mac_rotate :: "nat \<Rightarrow> nat \<Rightarrow> u64 \<Rightarrow> bytes \<Rightarrow> bytes" where
  "copy_mac_rotate md_size offset rotate_offset rotated_mac =
     (if 0 < offset \<and> offset < md_size
      then
        let skip_rotate = (ucast ((rotate_offset AND 1) - 1) :: u8);
            rotated_mac_tmp =
              map (\<lambda>i. let j = (if offset + i \<ge> md_size then offset + i - md_size else offset + i)
                       in constant_time_select_8 skip_rotate (rotated_mac ! i) (rotated_mac ! j))
                [0..<md_size]
        in copy_mac_rotate md_size (2 * offset) (drop_bit 1 rotate_offset) rotated_mac_tmp
      else rotated_mac)"
  by pat_completeness auto
termination
  by (relation "measure (\<lambda>(md_size, offset, _). md_size - offset)") auto

declare copy_mac_rotate.simps [simp del]

text \<open>\<open>orig_len\<close> is the length of \<open>inp\<close>.\<close>

definition EVP_tls_cbc_copy_mac :: "nat \<Rightarrow> bytes \<Rightarrow> nat \<Rightarrow> bytes" where
  "EVP_tls_cbc_copy_mac md_size inp in_len =
     (let orig_len = length inp;
          mac_end = in_len;
          mac_start = mac_end - md_size;
          scan_start = (if orig_len > md_size + 255 + 1 then orig_len - (md_size + 255 + 1) else 0);
          (j, rotate_offset, mac_started, rotated_mac) =
            fold (copy_mac_scan inp md_size mac_start mac_end) [scan_start..<orig_len] (0, 0, 0, replicate md_size 0)
      in copy_mac_rotate md_size 1 rotate_offset rotated_mac)"

section \<open>The padding\<close>

text \<open>A record ends in a byte \<open>p\<close> and \<open>p\<close> more bytes with that value, and there is room for them
  after the MAC.\<close>

definition cbc_padding_ok :: "bytes \<Rightarrow> nat \<Rightarrow> bool" where
  "cbc_padding_ok inp mac_size \<longleftrightarrow>
     (let p = last inp in mac_size + unat p + 1 \<le> length inp \<and> drop (length inp - (unat p + 1)) inp = replicate (unat p + 1) p)"

lemma low_clear: "(g AND NOT x) AND 0xff = (0xff :: u64) \<longleftrightarrow> g AND 0xff = 0xff \<and> x AND 0xff = 0"
proof -
  have "(g AND NOT x) AND 0xff = (0xff :: u64) \<longleftrightarrow> (\<forall>n. bit (0xff :: u64) n \<longrightarrow> bit g n \<and> \<not> bit x n)"
    by (auto simp: bit_eq_iff bit_simps simp del: bit_numeral_iff)
  also have "\<dots> \<longleftrightarrow> g AND 0xff = 0xff \<and> x AND 0xff = 0"
    by (auto simp: bit_eq_iff bit_simps)
  finally show ?thesis .
qed

lemma bit_0xff: "bit (0xff :: u64) n \<longleftrightarrow> n < 8"
proof (cases "n < 64")
  case True
  then show ?thesis
    by (rule nat_below_by_eval [rotated, where P = "\<lambda>n. bit (0xff :: u64) n \<longleftrightarrow> n < 8"]) code_simp
next
  case False
  then show ?thesis using bit_imp_le_length [of "0xff :: u64" n] by auto
qed

lemma byte_check: "(ucast (mask_8 c) AND (ucast p XOR ucast b) :: u64) AND 0xff = 0 \<longleftrightarrow> (c \<longrightarrow> p = (b :: u8))"
proof -
  have m: "(ucast (0xff :: u8) :: u64) = 0xff" by simp
  have "(0xff AND (ucast p XOR ucast b) :: u64) AND 0xff = 0 \<longleftrightarrow> (\<forall>n < 8. \<not> bit (ucast p XOR ucast b :: u64) n)"
  proof -
    have "n < 64" if "n < 8" for n :: nat using that by simp
    then have "(\<forall>n. possible_bit TYPE(64 word) n \<longrightarrow> (n < 8 \<and> bit x n) \<and> n < 8 \<longleftrightarrow> False) \<longleftrightarrow> (\<forall>n < 8. \<not> bit x n)" for x :: u64
      unfolding possible_bit_word len_num0 by (simp, meson order_less_le_trans)
    then show ?thesis unfolding bit_eq_iff bit_and_iff bit_0xff bit_0_eq by (simp only: bot_apply bot_bool_def)
  qed
  also have "\<dots> \<longleftrightarrow> p = b"
    by (auto simp: bit_eq_iff bit_simps dest: bit_imp_le_length)
  finally show ?thesis by (simp add: consttime_masks m)
qed

lemma check_fold:
  "fold (\<lambda>i good. good AND NOT (ucast (mask_8 (c i)) AND (ucast p XOR ucast (b i)))) is g AND 0xff = (0xff :: u64) \<longleftrightarrow>
     g AND 0xff = 0xff \<and> (\<forall>i \<in> set is. c i \<longrightarrow> p = (b i :: u8))"
proof (induction "is" arbitrary: g)
  case (Cons i "is")
  then show ?case by (simp only: fold_simps low_clear byte_check list.set ball_simps) blast
qed simp

lemma padding_bytes:
  fixes inp :: bytes
  assumes "inp \<noteq> []" and "unat (last inp) + 1 \<le> length inp"
  shows "(\<forall>i < min 256 (length inp). i \<le> unat (last inp) \<longrightarrow> last inp = inp ! (length inp - 1 - i)) \<longleftrightarrow>
    drop (length inp - (unat (last inp) + 1)) inp = replicate (unat (last inp) + 1) (last inp)"
proof -
  define p where "p = unat (last inp)"
  have p: "p < 256" "p + 1 \<le> length inp" using assms(2) unat_u8_less [of "last inp"] by (simp_all add: p_def del: unat_u8_less)
  have "drop (length inp - (p + 1)) inp = replicate (p + 1) (last inp) \<longleftrightarrow> (\<forall>j \<le> p. inp ! (length inp - (p + 1) + j) = last inp)"
    using p(2) by (auto simp: list_eq_iff_nth_eq less_Suc_eq_le simp del: replicate.simps)
  also have "\<dots> \<longleftrightarrow> (\<forall>i \<le> p. inp ! (length inp - 1 - i) = last inp)"
  proof safe
    fix i assume h: "\<forall>j \<le> p. inp ! (length inp - (p + 1) + j) = last inp" and i: "i \<le> p"
    have "length inp - (p + 1) + (p - i) = length inp - 1 - i" using i p(2) by simp
    with h i show "inp ! (length inp - 1 - i) = last inp" by (metis diff_le_self)
  next
    fix j assume h: "\<forall>i \<le> p. inp ! (length inp - 1 - i) = last inp" and j: "j \<le> p"
    have "length inp - 1 - (p - j) = length inp - (p + 1) + j" using j p(2) by simp
    with h j show "inp ! (length inp - (p + 1) + j) = last inp" by (metis diff_le_self)
  qed
  also have "\<dots> \<longleftrightarrow> (\<forall>i < min 256 (length inp). i \<le> p \<longrightarrow> last inp = inp ! (length inp - 1 - i))"
  proof (intro iffI allI impI)
    fix i assume h: "\<forall>i < min 256 (length inp). i \<le> p \<longrightarrow> last inp = inp ! (length inp - 1 - i)" and i: "i \<le> p"
    with p have "i < min 256 (length inp)" by simp
    with h i show "inp ! (length inp - 1 - i) = last inp" by metis
  qed metis
  finally show ?thesis by (simp add: p_def)
qed

lemma remove_padding_cases:
  assumes "length inp < 2 ^ 63" and "mac_size < 2 ^ 63"
  shows "EVP_tls_cbc_remove_padding inp mac_size =
    (if length inp < mac_size + 1 then None
     else if cbc_padding_ok inp mac_size then Some (CONSTTIME_TRUE_W, length inp - (unat (last inp) + 1))
     else Some (CONSTTIME_FALSE_W, length inp))"
proof (cases "length inp < mac_size + 1")
  case True
  then show ?thesis using assms by (simp add: EVP_tls_cbc_remove_padding_def size_add_exact)
next
  case False
  define n where "n = length inp"
  define p where "p = last inp"
  have ne: "inp \<noteq> []" using False by auto
  then have last: "inp ! (n - 1) = p" by (simp add: n_def p_def last_conv_nth)
  have over: "size_add 1 mac_size = mac_size + 1" using assms(2) by (simp add: size_add_exact)
  have un: "unat (of_nat n :: u64) = n" by (rule unat_of_nat_less) (use assms(1) n_def in simp)
  have uo: "unat (of_nat (mac_size + 1) + ucast p :: u64) = mac_size + 1 + unat p"
  proof -
    have "(of_nat (mac_size + 1) + ucast p :: u64) = of_nat (mac_size + 1 + unat p)" by simp
    moreover have "mac_size + 1 + unat p < 2 ^ LENGTH(64)" using assms(2) unat_u8_less [of p] by (simp del: unat_u8_less unat_u8_le)
    ultimately show ?thesis by (simp only: unat_of_nat_less)
  qed
  have ge: "constant_time_ge_w (of_nat n) (of_nat (mac_size + 1) + ucast p) = mask_w (mac_size + 1 + unat p \<le> n)"
    unfolding ge_w word_le_nat_alt un uo by (rule refl)
  let ?check = "if 256 > n then n else 256"
  have ui: "unat (of_nat i :: u64) = i" if "i < ?check" for i
    by (rule unat_of_nat_less) (use that in \<open>simp split: if_splits\<close>)
  define good where "good = fold (\<lambda>i good. good AND NOT (ucast (constant_time_ge_8 (ucast p) (of_nat i)) AND (ucast p XOR ucast (inp ! (n - 1 - i)))))
      [0..<?check] (mask_w (mac_size + 1 + unat p \<le> n))"
  have "good = fold (\<lambda>i good. good AND NOT (ucast (mask_8 (i \<le> unat p)) AND (ucast p XOR ucast (inp ! (n - 1 - i)))))
      [0..<?check] (mask_w (mac_size + 1 + unat p \<le> n))"
    unfolding good_def by (rule fold_cong) (auto simp: masks_8 word_le_nat_alt ui)
  then have "good AND 0xff = 0xff \<longleftrightarrow> mac_size + 1 + unat p \<le> n \<and> (\<forall>i < ?check. i \<le> unat p \<longrightarrow> p = inp ! (n - 1 - i))"
    by (simp only: check_fold) (auto simp: consttime_masks)
  also have "\<dots> \<longleftrightarrow> cbc_padding_ok inp mac_size"
    using padding_bytes [OF ne] unfolding cbc_padding_ok_def Let_def n_def [symmetric] p_def [symmetric]
    by (auto simp: min_def)
  finally have ok: "good AND 0xff = 0xff \<longleftrightarrow> cbc_padding_ok inp mac_size" .
  have r: "EVP_tls_cbc_remove_padding inp mac_size =
      Some (mask_w (cbc_padding_ok inp mac_size), unat (of_nat n - (mask_w (cbc_padding_ok inp mac_size) AND (ucast p + 1))))"
  proof -
    have nf: "\<not> mac_size + 1 > n" using False by (simp add: n_def)
    have "constant_time_eq_w 0xff (good AND 0xff) = mask_w (cbc_padding_ok inp mac_size)"
      unfolding eq_w ok [symmetric] by (simp add: eq_commute [of "0xff"])
    then show ?thesis
      unfolding EVP_tls_cbc_remove_padding_def Let_def n_def [symmetric] over if_not_P [OF nf] last ge good_def [symmetric] by (simp only:)
  qed
  have "unat (of_nat n - (ucast p + 1) :: u64) = n - (unat p + 1)" if "cbc_padding_ok inp mac_size"
  proof -
    have le: "unat p + 1 \<le> n" using that by (simp add: cbc_padding_ok_def p_def n_def Let_def)
    then have "(of_nat n - (ucast p + 1) :: u64) = of_nat (n - (unat p + 1))" by (simp add: of_nat_diff)
    moreover have "n - (unat p + 1) < 2 ^ LENGTH(64)" using assms(1) n_def by simp
    ultimately show ?thesis by (simp only: unat_of_nat_less)
  qed
  then show ?thesis using False un unfolding r by (simp add: consttime_masks n_def [symmetric] p_def [symmetric])
qed

section \<open>The place of the MAC\<close>

text \<open>The MAC bytes before position \<open>n\<close>, each at its position from \<open>ss\<close> by \<open>m\<close>: byte \<open>t\<close> of the
  MAC is at \<open>(a + t) mod m\<close>.\<close>

definition rotated :: "bytes \<Rightarrow> nat \<Rightarrow> nat \<Rightarrow> nat \<Rightarrow> nat \<Rightarrow> bytes" where
  "rotated inp m ms a n = map (\<lambda>r. let i = ms + (r + m - a) mod m in if i < n then inp ! i else 0) [0..<m]"

lemma rot_index:
  fixes m ms n ss :: nat
  assumes "0 < m" and "ms \<le> n" and "n < ms + m" and "ss \<le> ms"
  shows "ms + ((n - ss) mod m + m - (ms - ss) mod m) mod m = n"
proof -
  define d where "d = n - ms"
  define e where "e = ms - ss"
  have n1: "n = ms + d" and n2: "ms = ss + e" using assms by (simp_all add: d_def e_def)
  have n: "n = ms + d" "n - ss = e + d" "d < m" using n1 n2 assms(3) by simp_all
  have lt: "e mod m < m" using assms(1) by simp
  have "((e + d) mod m + (m - e mod m)) mod m = ((e mod m + d) + (m - e mod m)) mod m"
    by (rule mod_add_cong) (simp_all add: mod_simps)
  also have "(e mod m + d) + (m - e mod m) = d + m" using lt by simp
  also have "(d + m) mod m = d" using n(3) by simp
  finally have "((e + d) mod m + m - e mod m) mod m = d" using lt by simp
  then show ?thesis unfolding n(2) e_def [symmetric] using n(1) by simp
qed

lemma rotated_step:
  assumes "0 < m" and "ss \<le> ms" and "ms \<le> n" and "n < ms + m"
  defines "a \<equiv> (ms - ss) mod m"
  shows "(rotated inp m ms a n)[(n - ss) mod m := inp ! n] = rotated inp m ms a (Suc n)"
    and "rotated inp m ms a n ! ((n - ss) mod m) = 0"
proof -
  define r where "r = (n - ss) mod m"
  have a: "a < m" and r: "r < m" using assms(1) by (simp_all add: a_def r_def)
  have i: "ms + (r + m - a) mod m = n" using rot_index [OF assms(1,3,4,2)] by (simp add: a_def r_def)
  show z: "rotated inp m ms a n ! ((n - ss) mod m) = 0"
    using i r by (simp add: rotated_def r_def [symmetric])
  show "(rotated inp m ms a n)[(n - ss) mod m := inp ! n] = rotated inp m ms a (Suc n)"
  proof (rule nth_equalityI)
    fix s assume "s < length ((rotated inp m ms a n)[(n - ss) mod m := inp ! n])"
    then have s: "s < m" by (simp add: rotated_def)
    show "(rotated inp m ms a n)[(n - ss) mod m := inp ! n] ! s = rotated inp m ms a (Suc n) ! s"
    proof (cases "s = r")
      case True
      with i r show ?thesis by (simp add: rotated_def r_def [symmetric])
    next
      case False
      have "ms + (s + m - a) mod m \<noteq> n"
      proof
        assume "ms + (s + m - a) mod m = n"
        with i have "(s + m - a) mod m = (r + m - a) mod m" by simp
        then have "(s + (m - a) + a) mod m = (r + (m - a) + a) mod m" using a by (metis Nat.diff_add_assoc less_imp_le_nat mod_add_left_eq)
        with a s r False show False by simp
      qed
      with s r False show ?thesis by (auto simp: rotated_def r_def [symmetric] less_Suc_eq)
    qed
  qed (simp add: rotated_def)
qed

lemma and_0xff: "x AND 0xff = (x :: u8)"
proof -
  have "bit (0xff :: u8) n" if "n < 8" for n
    using that by (rule nat_below_by_eval [rotated, where P = "bit (0xff :: u8)"]) code_simp
  then show ?thesis unfolding bit_eq_iff bit_and_iff by simp
qed

lemma rotated_outside:
  assumes "0 < m" and "n < ms \<or> ms + m \<le> n"
  shows "rotated inp m ms a (Suc n) = rotated inp m ms a n"
proof -
  have "ms + (r + m - a) mod m < Suc n \<longleftrightarrow> ms + (r + m - a) mod m < n" for r
    using assms mod_less_divisor [OF assms(1), of "r + m - a"] by linarith
  then show ?thesis by (simp add: rotated_def Let_def)
qed

text \<open>The scan, up to position \<open>n\<close>.\<close>

lemma scan:
  assumes m: "0 < m" and ss: "ss \<le> ms" and len: "length inp < 2 ^ 63" and me: "ms + m \<le> length inp" and n: "ss + k \<le> length inp"
  defines "a \<equiv> (ms - ss) mod m"
  shows "fold (copy_mac_scan inp m ms (ms + m)) [ss..<ss + k] (0, 0, 0, replicate m 0) =
    ((if k = 0 then 0 else (k - 1) mod m + 1), (if ms < ss + k then of_nat a else 0), mask_8 (ms < ss + k), rotated inp m ms a (ss + k))"
  using n
proof (induction k)
  case 0
  have "rotated inp m ms a ss = replicate m 0"
    using ss by (intro nth_equalityI) (simp_all add: rotated_def Let_def)
  then show ?case using ss by (simp add: consttime_masks)
next
  case (Suc k)
  let ?n = "ss + k"
  have nl: "?n < length inp" using Suc.prems by simp
  have u: "(of_nat i :: u64) = of_nat j \<longleftrightarrow> i = j" "(of_nat i :: u64) \<le> of_nat j \<longleftrightarrow> i \<le> j" if "i < 2 ^ 63" "j < 2 ^ 63" for i j
    using that unat_of_nat_less [of i, where 'a = 64] unat_of_nat_less [of j, where 'a = 64] by (auto simp: word_le_nat_alt word_unat_eq_iff)
  have j: "(if (if k = 0 then 0 else (k - 1) mod m + 1) \<ge> m then (if k = 0 then 0 else (k - 1) mod m + 1) - m
      else (if k = 0 then 0 else (k - 1) mod m + 1)) = k mod m"
  proof (cases k)
    case (Suc k')
    have "k' mod m < m" using m by simp
    then have "m \<le> Suc (k' mod m) \<longleftrightarrow> Suc (k' mod m) = m" by linarith
    then show ?thesis using Suc m by (simp add: mod_Suc)
  qed (use m in simp)
  have kn: "?n - ss = k" by simp
  have eq: "constant_time_eq_w (of_nat ?n) (of_nat ms) = mask_w (?n = ms)"
    using u [of ?n ms] nl len me m by (simp add: eq_w)
  have ge: "constant_time_ge_8 (of_nat ?n) (of_nat (ms + m)) = mask_8 (ms + m \<le> ?n)"
    using u(2) [of "ms + m" ?n] nl len me by (simp only: masks_8)
  have st: "mask_8 (ms < ?n) OR ucast (mask_w (?n = ms)) = mask_8 (ms < Suc ?n)"
    unfolding ucast_mask by (auto simp: consttime_masks bit_simps intro!: bit_eqI)
  have off: "(if ms < ?n then of_nat a else 0) OR (of_nat (k mod m) AND mask_w (?n = ms)) = (if ms < Suc ?n then of_nat a else (0 :: u64))"
    using ss by (auto simp: consttime_masks a_def less_Suc_eq)
  have upd: "(rotated inp m ms a ?n)[k mod m := rotated inp m ms a ?n ! (k mod m) OR (inp ! ?n AND mask_8 (ms < Suc ?n) AND NOT (mask_8 (ms + m \<le> ?n)))] =
      rotated inp m ms a (Suc ?n)"
  proof (cases "ms \<le> ?n \<and> ?n < ms + m")
    case True
    have "inp ! ?n AND mask_8 (ms < Suc ?n) AND NOT (mask_8 (ms + m \<le> ?n)) = inp ! ?n"
      using True by (simp add: consttime_masks and_0xff)
    then show ?thesis
      using rotated_step [OF m ss conjunct1 [OF True] conjunct2 [OF True], of inp] unfolding kn a_def [symmetric] by simp
  next
    case False
    have "inp ! ?n AND mask_8 (ms < Suc ?n) AND NOT (mask_8 (ms + m \<le> ?n)) = 0"
      using False by (auto simp: consttime_masks)
    then show ?thesis using rotated_outside [OF m, of ?n ms inp a] False by (auto simp: not_less)
  qed
  have "[ss..<ss + Suc k] = [ss..<?n] @ [?n]" by simp
  then have "fold (copy_mac_scan inp m ms (ms + m)) [ss..<ss + Suc k] (0, 0, 0, replicate m 0) =
      copy_mac_scan inp m ms (ms + m) ?n
        ((if k = 0 then 0 else (k - 1) mod m + 1), (if ms < ?n then of_nat a else 0), mask_8 (ms < ?n), rotated inp m ms a ?n)"
    using Suc by (simp only: fold_append comp_apply fold_simps)
  also have "\<dots> = (k mod m + 1, (if ms < Suc ?n then of_nat a else 0), mask_8 (ms < Suc ?n), rotated inp m ms a (Suc ?n))"
    unfolding copy_mac_scan_def split_conv Let_def j eq ge st off upd by (rule refl)
  finally show ?case by simp
qed

text \<open>The rotation by \<open>rotate_offset\<close>, bit by bit.\<close>

lemma rotate_exact:
  assumes "0 < m" and "0 < off" and "off * unat ro < m" and "length mac = m"
  shows "copy_mac_rotate m off ro mac = map (\<lambda>i. mac ! ((i + off * unat ro) mod m)) [0..<m]"
  using assms
proof (induction m off ro mac rule: copy_mac_rotate.induct)
  case (1 m off ro mac)
  show ?case
  proof (cases "off < m")
    case True
    define b where "b = unat ro mod 2"
    have ro: "unat ro = 2 * unat (drop_bit 1 ro) + b"
      unfolding b_def by (subst unat_drop_bit_eq) (simp add: drop_bit_eq_div)
    have skip: "ucast ((ro AND 1) - 1) = mask_8 (b = 0)"
    proof -
      have "b < 2 ^ LENGTH(64)" by (simp add: b_def less_le_trans [OF mod_less_divisor])
      then have "unat (of_nat b :: u64) = b" by (rule unat_of_nat_less)
      then have "(ro AND 1) = of_nat b" by (simp add: b_def word_unat_eq_iff and_one_eq unat_mod)
      moreover have "b = 0 \<or> b = 1" by (auto simp: b_def)
      moreover have "(ucast (- 1 :: u64) :: u8) = 0xff" by code_simp
      ultimately show ?thesis by (auto simp: consttime_masks)
    qed
    define tmp where "tmp = map (\<lambda>i. let j = (if off + i \<ge> m then off + i - m else off + i)
        in constant_time_select_8 (ucast ((ro AND 1) - 1)) (mac ! i) (mac ! j)) [0..<m]"
    have tmp: "tmp ! i = mac ! ((i + off * b) mod m)" if "i < m" for i
    proof -
      have "(off + i) mod m = (if off + i \<ge> m then off + i - m else off + i)" using that True by (simp add: le_mod_geq)
      moreover have "tmp ! i = (if b = 0 then mac ! i else mac ! (if off + i \<ge> m then off + i - m else off + i))"
        using that unfolding tmp_def skip select_8 by simp
      moreover have "b = 0 \<or> b = 1" by (auto simp: b_def)
      ultimately show ?thesis using that by (auto simp: add.commute)
    qed
    have "copy_mac_rotate m off ro mac = copy_mac_rotate m (2 * off) (drop_bit 1 ro) tmp"
      using True 1(3) by (subst copy_mac_rotate.simps) (simp add: tmp_def Let_def)
    also have "\<dots> = map (\<lambda>i. tmp ! ((i + 2 * off * unat (drop_bit 1 ro)) mod m)) [0..<m]"
    proof (rule 1(1) [OF conjI [OF 1(3) True] refl])
      show "2 * off * unat (drop_bit 1 ro) < m" using 1(4) unfolding ro by (simp add: algebra_simps)
    qed (use 1(2,3) in \<open>simp_all add: tmp_def\<close>)
    also have "\<dots> = map (\<lambda>i. mac ! ((i + off * unat ro) mod m)) [0..<m]"
    proof (rule map_cong)
      fix i assume "i \<in> set [0..<m]"
      let ?h = "unat (drop_bit 1 ro)"
      have "tmp ! ((i + 2 * off * ?h) mod m) = mac ! (((i + 2 * off * ?h) mod m + off * b) mod m)"
        using 1(2) by (intro tmp) simp
      also have "((i + 2 * off * ?h) mod m + off * b) mod m = (i + off * unat ro) mod m"
        unfolding ro by (simp add: mod_simps algebra_simps)
      finally show "tmp ! ((i + 2 * off * ?h) mod m) = mac ! ((i + off * unat ro) mod m)" .
    qed simp
    finally show ?thesis .
  next
    case False
    then have e: "off * unat ro = 0" using 1(3,4) by (cases "unat ro") auto
    have "map (\<lambda>i. mac ! ((i + off * unat ro) mod m)) [0..<m] = mac"
      unfolding e using 1(5) by (intro nth_equalityI) simp_all
    with False show ?thesis by (subst copy_mac_rotate.simps) simp
  qed
qed

lemma copy_mac_cut:
  assumes "0 < md_size" and "md_size \<le> in_len" and "in_len \<le> length inp" and "length inp \<le> in_len + 256" and "length inp < 2 ^ 63"
  shows "EVP_tls_cbc_copy_mac md_size inp in_len = take md_size (drop (in_len - md_size) inp)"
proof -
  define ms where "ms = in_len - md_size"
  define ss where "ss = (if length inp > md_size + 255 + 1 then length inp - (md_size + 255 + 1) else 0)"
  define a where "a = (ms - ss) mod md_size"
  have e: "in_len = ms + md_size" using assms(2) by (simp add: ms_def)
  have ss: "ss \<le> ms" using assms(4) by (auto simp: ss_def e)
  have end_: "ms + md_size \<le> length inp" using assms(3) e by simp
  have le: "ss + (length inp - ss) = length inp" using ss end_ by simp
  have a: "a < md_size" using assms(1) by (simp add: a_def)
  have ua: "unat (of_nat a :: u64) = a" by (rule unat_of_nat_less) (use a end_ assms(5) in simp)
  have "ms < length inp" using end_ assms(1) by simp
  then have f: "fold (copy_mac_scan inp md_size ms (ms + md_size)) [ss..<length inp] (0, 0, 0, replicate md_size 0) =
      ((if length inp - ss = 0 then 0 else (length inp - ss - 1) mod md_size + 1), of_nat a, mask_8 True, rotated inp md_size ms a (length inp))"
    using scan [OF assms(1) ss assms(5) end_, of "length inp - ss"] by (simp add: le a_def)
  have "EVP_tls_cbc_copy_mac md_size inp in_len = copy_mac_rotate md_size 1 (of_nat a) (rotated inp md_size ms a (length inp))"
    unfolding EVP_tls_cbc_copy_mac_def Let_def ms_def [symmetric] ss_def [symmetric] e add_diff_cancel_right'
    unfolding f split_conv by (rule refl)
  also have "\<dots> = map (\<lambda>i. rotated inp md_size ms a (length inp) ! ((i + a) mod md_size)) [0..<md_size]"
    by (subst rotate_exact) (use assms(1) a ua in \<open>simp_all add: rotated_def\<close>)
  also have "\<dots> = map (\<lambda>i. inp ! (ms + i)) [0..<md_size]"
  proof (rule map_cong)
    fix i assume "i \<in> set [0..<md_size]"
    then have i: "i < md_size" by simp
    have s: "ms + i - ss = ms - ss + i" using ss by simp
    have "(i + a) mod md_size = (ms + i - ss) mod md_size"
      unfolding s a_def mod_add_right_eq by (simp only: add.commute)
    then have "ms + ((i + a) mod md_size + md_size - a) mod md_size = ms + i"
      using rot_index [OF assms(1), of ms "ms + i" ss] ss i by (simp add: a_def)
    then show "rotated inp md_size ms a (length inp) ! ((i + a) mod md_size) = inp ! (ms + i)"
      using i end_ assms(1) by (simp add: rotated_def Let_def)
  qed simp
  also have "\<dots> = take md_size (drop (in_len - md_size) inp)"
    using end_ by (intro nth_equalityI) (simp_all add: ms_def)
  finally show ?thesis .
qed

section \<open>Properties\<close>

text \<open>C35. \<open>EVP_tls_cbc_remove_padding\<close> computes with masks what the padding rule of TLS says: it fails
  on a record too short for a MAC and one byte, and otherwise removes a valid padding with its
  length byte, or reports a bad one and leaves the record as long as it is.\<close>

theorem remove_padding_exact:
  assumes "length inp < 2 ^ 63" and "mac_size < 2 ^ 63"
  shows "EVP_tls_cbc_remove_padding inp mac_size =
    (if length inp < mac_size + 1 then None
     else if cbc_padding_ok inp mac_size then Some (CONSTTIME_TRUE_W, length inp - (unat (last inp) + 1))
     else Some (CONSTTIME_FALSE_W, length inp))"
  using assms by (rule remove_padding_cases)

theorem remove_padding_exact_witness:
  "EVP_tls_cbc_remove_padding [7, 8, 9, 2, 2, 2] 2 = Some (CONSTTIME_TRUE_W, 3) \<and>
   EVP_tls_cbc_remove_padding [7, 8, 9, 2, 1, 2] 2 = Some (CONSTTIME_FALSE_W, 6)"
proof -
  have "cbc_padding_ok [7, 8, 9, 2, 2, 2] 2" "\<not> cbc_padding_ok [7, 8, 9, 2, 1, 2] 2" by code_simp+
  then show ?thesis
    using remove_padding_exact [of "[7, 8, 9, 2, 2, 2]" 2] remove_padding_exact [of "[7, 8, 9, 2, 1, 2]" 2] by simp
qed

text \<open>C36. \<open>EVP_tls_cbc_copy_mac\<close>, which reads every byte where the MAC may be and rotates it by masks,
  copies the \<open>md_size\<close> bytes that end at \<open>in_len\<close>.\<close>

theorem copy_mac_exact:
  assumes "0 < md_size" and "md_size \<le> in_len" and "in_len \<le> length inp" and "length inp \<le> in_len + 256" and "length inp < 2 ^ 63"
  shows "EVP_tls_cbc_copy_mac md_size inp in_len = take md_size (drop (in_len - md_size) inp)"
  using assms by (rule copy_mac_cut)

theorem copy_mac_exact_witness:
  "EVP_tls_cbc_copy_mac 3 [1, 2, 3, 4, 5, 6, 7] 5 = [3, 4, 5]"
  using copy_mac_exact [of 3 5 "[1, 2, 3, 4, 5, 6, 7]"] by simp

end
