(* ===== verification/Tls_Record.thy ===== *)
theory Tls_Record
  imports Hmac Tls_Cbc
begin

text \<open>
  The constant-time MAC of a TLS CBC record, the second half of \<open>cipher_extra/tls_cbc.c\<close>:
  \<open>EVP_tls_cbc_digest_record\<close> hashes as many blocks as the longest message the public length allows,
  puts the end of the real one where it is with masks, and keeps the state of the right block; the
  proof that the result is HMAC of the header and the data without MAC and padding.
\<close>

unbundle bit_operations_syntax

section \<open>The code\<close>

definition u32toBE :: "u32 \<Rightarrow> bytes" where
  "u32toBE n = [ucast (drop_bit 24 n), ucast (drop_bit 16 n), ucast (drop_bit 8 n), ucast n]"

definition u64toBE :: "u64 \<Rightarrow> bytes" where
  "u64toBE n =
     [ucast (drop_bit 56 n), ucast (drop_bit 48 n), ucast (drop_bit 40 n), ucast (drop_bit 32 n),
      ucast (drop_bit 24 n), ucast (drop_bit 16 n), ucast (drop_bit 8 n), ucast n]"

text \<open>\<open>HASH_CTX\<close> is a union of three of the contexts.\<close>

fun tls1_transform :: "md_state \<Rightarrow> bytes \<Rightarrow> md_state" where
  "tls1_transform (SHA1_state c) block = SHA1_state (SHA1_Transform c block)"
| "tls1_transform (SHA256_state c) block = SHA256_state (SHA256_Transform c block)"
| "tls1_transform (SHA512_state c) block = SHA512_state (SHA512_Transform c block)"
| "tls1_transform s block = s"

fun tls1_final_raw :: "md_state \<Rightarrow> bytes" where
  "tls1_final_raw (SHA1_state c) =
     u32toBE (ctx_h c ! 0) @ u32toBE (ctx_h c ! 1) @ u32toBE (ctx_h c ! 2) @ u32toBE (ctx_h c ! 3) @ u32toBE (ctx_h c ! 4)"
| "tls1_final_raw (SHA256_state c) = concat (map (\<lambda>i. u32toBE (ctx_h c ! i)) [0..<8])"
| "tls1_final_raw (SHA512_state c) = concat (map (\<lambda>i. u64toBE (sha_h c ! i)) [0..<8])"
| "tls1_final_raw s = []"

definition EVP_tls_cbc_record_digest_supported :: "EVP_MD \<Rightarrow> bool" where
  "EVP_tls_cbc_record_digest_supported md \<longleftrightarrow>
     (let t = EVP_MD_type md in t = EVP_MD_type EVP_sha1 \<or> t = EVP_MD_type EVP_sha256 \<or> t = EVP_MD_type EVP_sha384)"

text \<open>\<open>md_size\<close>, \<open>md_block_size\<close>, \<open>md_block_shift\<close> and \<open>md_length_size\<close>.\<close>

definition tls1_parameters :: "EVP_MD \<Rightarrow> (nat \<times> nat \<times> nat \<times> nat) option" where
  "tls1_parameters md =
     (if md = EVP_sha1 then Some (SHA_DIGEST_LENGTH, 64, 6, 8)
      else if md = EVP_sha256 then Some (SHA256_DIGEST_LENGTH, 64, 6, 8)
      else if md = EVP_sha384 then Some (SHA384_DIGEST_LENGTH, 128, 7, 16)
      else None)"

text \<open>Block \<open>i\<close> of the last ones: \<open>k\<close> is the position of its first byte, \<open>rec_len\<close> the length of the
  record with MAC and padding.\<close>

definition cbc_block ::
  "bytes \<Rightarrow> bytes \<Rightarrow> nat \<Rightarrow> nat \<Rightarrow> nat \<Rightarrow> nat \<Rightarrow> nat \<Rightarrow> nat \<Rightarrow> bytes \<Rightarrow> nat \<Rightarrow> nat \<Rightarrow> bytes" where
  "cbc_block header d rec_len md_block_size md_length_size c index_a index_b lbytes i k =
     (let is_block_a = constant_time_eq_8 (of_nat i) (of_nat index_a);
          is_block_b = constant_time_eq_8 (of_nat i) (of_nat index_b)
      in map (\<lambda>j.
           let b = (if k + j < 13 then header ! (k + j) else if k + j < rec_len + 13 then d ! (k + j - 13) else 0);
               is_past_c = is_block_a AND constant_time_ge_8 (of_nat j) (of_nat c);
               is_past_cp1 = is_block_a AND constant_time_ge_8 (of_nat j) (of_nat (c + 1));
               b = constant_time_select_8 is_past_c 0x80 b;
               b = b AND NOT is_past_cp1;
               b = b AND (NOT is_block_b OR is_block_a);
               b = (if j \<ge> md_block_size - md_length_size
                    then constant_time_select_8 is_block_b (lbytes ! (j - (md_block_size - md_length_size))) b
                    else b)
           in b) [0..<md_block_size])"

text \<open>One turn of the last loop: the state, \<open>k\<close> and \<open>mac_out\<close>.\<close>

definition cbc_turn ::
  "(nat \<Rightarrow> nat \<Rightarrow> bytes) \<Rightarrow> nat \<Rightarrow> nat \<Rightarrow> nat \<Rightarrow> nat \<Rightarrow> md_state \<times> nat \<times> bytes \<Rightarrow> md_state \<times> nat \<times> bytes" where
  "cbc_turn block md_size md_block_size index_b i = (\<lambda>(state, k, mac_out).
     let is_block_b = constant_time_eq_8 (of_nat i) (of_nat index_b);
         state = tls1_transform state (block i k);
         raw = tls1_final_raw state;
         mac_out = map (\<lambda>j. mac_out ! j OR (raw ! j AND is_block_b)) [0..<md_size]
     in (state, k + md_block_size, mac_out))"

text \<open>\<open>d\<close> is the record with MAC and padding, \<open>data_plus_mac_size\<close> its length without the padding,
  \<open>stack\<close> what the local \<open>HASH_CTX\<close> holds at first. \<open>None\<close> is the return value 0.\<close>

definition EVP_tls_cbc_digest_record ::
  "(nat \<Rightarrow> bool) \<Rightarrow> (EVP_MD \<Rightarrow> md_state) \<Rightarrow> md_state \<Rightarrow> EVP_MD \<Rightarrow> bytes \<Rightarrow> bytes \<Rightarrow> nat \<Rightarrow> bytes \<Rightarrow> (bytes \<times> nat) option" where
  "EVP_tls_cbc_digest_record alloc fresh stack md header d data_plus_mac_size mac_secret =
     (let rec_len = length d
      in if rec_len \<ge> 1024 * 1024 then None
         else case tls1_parameters md of None \<Rightarrow> None
         | Some (md_size, md_block_size, md_block_shift, md_length_size) \<Rightarrow>
             let state = md_init md stack;
                 kVarianceBlocks = (255 + 1 + md_size + md_block_size - 1) div md_block_size + 1;
                 len = rec_len + 13;
                 max_mac_bytes = len - md_size - 1;
                 num_blocks = (max_mac_bytes + 1 + md_length_size + md_block_size - 1) div md_block_size;
                 mac_end_offset = data_plus_mac_size + 13 - md_size;
                 c = mac_end_offset mod md_block_size;
                 index_a = mac_end_offset div 2 ^ md_block_shift;
                 index_b = (mac_end_offset + md_length_size) div 2 ^ md_block_shift;
                 num_starting_blocks = (if num_blocks > kVarianceBlocks then num_blocks - kVarianceBlocks else 0);
                 k = (if num_blocks > kVarianceBlocks then md_block_size * num_starting_blocks else 0);
                 bits = 8 * mac_end_offset + 8 * md_block_size;
                 hmac_pad = mac_secret @ replicate (md_block_size - length mac_secret) 0;
                 hmac_pad = map (\<lambda>x. x XOR 0x36) (take md_block_size hmac_pad);
                 state = tls1_transform state hmac_pad;
                 lbytes = replicate (md_length_size - 4) 0 @ u32toBE (of_nat bits);
                 state = (if k > 0
                          then fold (\<lambda>i s. tls1_transform s (take md_block_size (drop (md_block_size * i - 13) d)))
                                 [1..<k div md_block_size]
                                 (tls1_transform state (header @ take (md_block_size - 13) d))
                          else state);
                 block = cbc_block header d rec_len md_block_size md_length_size c index_a index_b lbytes;
                 (state, k, mac_out) =
                   fold (cbc_turn block md_size md_block_size index_b)
                     [num_starting_blocks..<num_starting_blocks + kVarianceBlocks + 1] (state, k, replicate md_size 0)
             in case EVP_DigestInit_ex alloc fresh (EVP_MD_CTX_init :: unit evp_md_ctx) md of
                  (False, mctx) \<Rightarrow> None
                | (True, mctx) \<Rightarrow>
                    let hmac_pad = map (\<lambda>x. x XOR 0x6a) hmac_pad;
                        (_, mctx) = EVP_DigestUpdate mctx hmac_pad;
                        (_, mctx) = EVP_DigestUpdate mctx mac_out;
                        (out, md_out_size, mctx) = EVP_DigestFinal mctx
                    in map_option (\<lambda>out. (out, md_out_size)) out)"

section \<open>Raw hashing is the hash\<close>

lemma tls1_parametersD:
  assumes "tls1_parameters md = Some (sz, B, sh, L)"
  shows "md = EVP_sha1 \<or> md = EVP_sha256 \<or> md = EVP_sha384" and "sz = EVP_MD_size md" and "B = EVP_MD_block_size md"
    and "B = 2 ^ sh" and "L + 4 < B" and "8 \<le> L" and "L \<le> sz" and "20 \<le> sz" and "sz \<le> 48" and "B = 64 \<or> B = 128" and "L \<le> 16"
  using assms by (auto simp: tls1_parameters_def SHA_DIGEST_LENGTH_def SHA256_DIGEST_LENGTH_def SHA384_DIGEST_LENGTH_def split: if_splits)

lemma u32toBE_bytes: "u32toBE n = be_bytes 4 (unat n)"
  by (simp only: u32toBE_def word_be_bytes)

lemma u64toBE_bytes: "u64toBE n = be_bytes 8 (unat n)"
  using u64_store_bytes [of n] by (simp only: u64toBE_def u64_store_def)

lemma words_map: "length h = k \<Longrightarrow> concat (map (\<lambda>i. f (h ! i)) [0..<k]) = concat (map f h)"
  by (metis (no_types, lifting) map_map map_nth comp_def map_eq_conv)

text \<open>Transforming the blocks of a padded message gives the hash, before any padding of the code's own.\<close>

lemma raw_hash:
  assumes "tls1_parameters md = Some (sz, B, sh, L)" and "md_ok md stack"
  shows "take sz (tls1_final_raw (hash_blocks B tls1_transform (md_init md stack) (hash_pad B L (be_bytes L) m))) = digest_hash md m"
proof -
  note p = assms(1) [unfolded tls1_parameters_def]
  consider "md = EVP_sha1" | "md = EVP_sha256" | "md = EVP_sha384" using tls1_parametersD(1) [OF assms(1)] by blast
  then show ?thesis
  proof cases
    case 1
    let ?iv = "ctx_h SHA1_Init"
    let ?h = "hash_blocks HASH_CBLOCK fips_compress_1 ?iv (hash_pad HASH_CBLOCK 8 (be_bytes 8) m)"
    have iv: "length ?iv = 5" by (simp add: SHA1_Init_def)
    have h: "hash_blocks HASH_CBLOCK sha1_block ?iv (hash_pad HASH_CBLOCK 8 (be_bytes 8) m) = ?h" "length ?h = 5"
      using sha1_blocks [OF iv] unfolding sha1.absorb_blocks by blast+
    have "hash_blocks HASH_CBLOCK tls1_transform (SHA1_state (SHA1_Init\<lparr>ctx_h := ?iv\<rparr>)) (hash_pad HASH_CBLOCK 8 (be_bytes 8) m) =
        SHA1_state (SHA1_Init\<lparr>ctx_h := ?h\<rparr>)"
      unfolding h(1) [symmetric]
      by (rule hash_blocks_hom [where C = "\<lambda>h. SHA1_state (SHA1_Init\<lparr>ctx_h := h\<rparr>)"]) (simp add: SHA1_Transform_def HASH_TRANSFORM_def)
    then have r: "hash_blocks 64 tls1_transform (SHA1_state SHA1_Init) (hash_pad 64 8 (be_bytes 8) m) = SHA1_state (SHA1_Init\<lparr>ctx_h := ?h\<rparr>)"
      by (simp add: HASH_CBLOCK_def)
    have "tls1_final_raw (SHA1_state (SHA1_Init\<lparr>ctx_h := ?h\<rparr>)) = HASH_MAKE_STRING_1 (SHA1_Init\<lparr>ctx_h := ?h\<rparr>)"
      by (simp add: HASH_MAKE_STRING_1_def u32toBE_bytes l2c_bytes)
    also have "\<dots> = fips_sha1 ?iv m" using h(2) by (subst make_string_1) (simp_all add: fips_sha1_def)
    finally have "tls1_final_raw (SHA1_state (SHA1_Init\<lparr>ctx_h := ?h\<rparr>)) = sha1_hash m" by (simp add: sha1_hash_def SHA1_Init_def)
    moreover have "length (sha1_hash m) = 20" using length_fips_sha1 [of m] by (simp add: sha1_hash_def SHA1_Init_def)
    ultimately show ?thesis using p 1 r by (simp add: SHA_DIGEST_LENGTH_def)
  next
    case 2
    let ?iv = "ctx_h SHA256_Init"
    let ?h = "hash_blocks HASH_CBLOCK fips_compress_256 ?iv (hash_pad HASH_CBLOCK 8 (be_bytes 8) m)"
    have iv: "length ?iv = 8" by (simp add: SHA256_Init_def)
    have h: "hash_blocks HASH_CBLOCK sha256_block ?iv (hash_pad HASH_CBLOCK 8 (be_bytes 8) m) = ?h" "length ?h = 8"
      using sha256_blocks [OF iv] unfolding sha256.absorb_blocks by blast+
    have "hash_blocks HASH_CBLOCK tls1_transform (SHA256_state (SHA256_Init\<lparr>ctx_h := ?iv\<rparr>)) (hash_pad HASH_CBLOCK 8 (be_bytes 8) m) =
        SHA256_state (SHA256_Init\<lparr>ctx_h := ?h\<rparr>)"
      unfolding h(1) [symmetric]
      by (rule hash_blocks_hom [where C = "\<lambda>h. SHA256_state (SHA256_Init\<lparr>ctx_h := h\<rparr>)"]) (simp add: SHA256_Transform_def HASH_TRANSFORM_def)
    then have r: "hash_blocks 64 tls1_transform (SHA256_state SHA256_Init) (hash_pad 64 8 (be_bytes 8) m) = SHA256_state (SHA256_Init\<lparr>ctx_h := ?h\<rparr>)"
      by (simp add: HASH_CBLOCK_def)
    have "tls1_final_raw (SHA256_state (SHA256_Init\<lparr>ctx_h := ?h\<rparr>)) = concat (map (\<lambda>w. be_bytes 4 (unat w)) ?h)"
      using words_map [OF h(2), of "\<lambda>w. be_bytes 4 (unat w)"] by (simp add: u32toBE_bytes del: upt_rec_numeral)
    then show ?thesis using p 2 r by (simp add: fips_sha256_def SHA256_DIGEST_LENGTH_def SHA256_Init_def)
  next
    case 3
    obtain c where c: "stack = SHA512_state c" using assms(2) 3 by (cases stack) simp_all
    let ?c = "SHA384_Init c"
    let ?iv = "sha_h ?c"
    let ?h = "hash_blocks SHA512_CBLOCK fips_compress_512 ?iv (hash_pad SHA512_CBLOCK 16 (be_bytes 16) m)"
    have iv: "length ?iv = 8" by (simp add: SHA384_Init_def)
    have h: "hash_blocks SHA512_CBLOCK sha512_block ?iv (hash_pad SHA512_CBLOCK 16 (be_bytes 16) m) = ?h" "length ?h = 8"
      using sha512_blocks [OF iv] unfolding sha512.absorb_blocks by blast+
    have "hash_blocks SHA512_CBLOCK tls1_transform (SHA512_state (?c\<lparr>sha_h := ?iv\<rparr>)) (hash_pad SHA512_CBLOCK 16 (be_bytes 16) m) =
        SHA512_state (?c\<lparr>sha_h := ?h\<rparr>)"
      unfolding h(1) [symmetric]
      by (rule hash_blocks_hom [where C = "\<lambda>h. SHA512_state (?c\<lparr>sha_h := h\<rparr>)"]) (simp add: SHA512_Transform_def)
    then have r: "hash_blocks 128 tls1_transform (SHA512_state ?c) (hash_pad 128 16 (be_bytes 16) m) = SHA512_state (?c\<lparr>sha_h := ?h\<rparr>)"
      by (simp add: SHA512_CBLOCK_def)
    have "tls1_final_raw (SHA512_state (?c\<lparr>sha_h := ?h\<rparr>)) = concat (map (\<lambda>w. be_bytes 8 (unat w)) ?h)"
      using words_map [OF h(2), of "\<lambda>w. be_bytes 8 (unat w)"] by (simp add: u64toBE_bytes del: upt_rec_numeral)
    then show ?thesis using p 3 r c by (simp add: fips_sha512_def SHA384_DIGEST_LENGTH_def SHA384_Init_def)
  qed
qed

section \<open>The last blocks\<close>

text \<open>What is hashed after the block of the key: the message, the bit, zeros, and the length in bits
  of both.\<close>

definition cbc_stream :: "nat \<Rightarrow> nat \<Rightarrow> bytes \<Rightarrow> bytes" where
  "cbc_stream B L m = m @ 0x80 # replicate ((B - (length m + 1 + L) mod B) mod B) 0 @ be_bytes L (8 * (B + length m))"

lemma hash_pad_block: "length x = B \<Longrightarrow> hash_pad B L (be_bytes L) (x @ m) = x @ cbc_stream B L m"
proof -
  assume "length x = B"
  moreover have "(B + length m + 1 + L) mod B = (length m + 1 + L) mod B"
    using mod_add_self1 [of B "length m + 1 + L"] by (simp only: add.assoc)
  ultimately show ?thesis by (simp add: hash_pad_def cbc_stream_def)
qed

lemma stream_blocks:
  assumes "0 < B"
  shows "length m + 1 + (B - (length m + 1 + L) mod B) mod B + L = B * ((length m + L) div B + 1)"
proof -
  define q where "q = (length m + L) div B"
  define r where "r = (length m + L) mod B"
  have e: "length m + L = B * q + r" and r: "r < B" using assms by (simp_all add: q_def r_def)
  have "(length m + 1 + L) mod B = (r + 1) mod B"
  proof -
    have "length m + 1 + L = (r + 1) + B * q" using e by simp
    then show ?thesis by simp
  qed
  moreover have "(r + 1) + (B - (r + 1) mod B) mod B = B" using r assms by (cases "r + 1 = B") simp_all
  ultimately show ?thesis using e unfolding q_def [symmetric] by (simp add: algebra_simps)
qed

lemma length_stream: "0 < B \<Longrightarrow> length (cbc_stream B L m) = B * ((length m + L) div B + 1)"
  using stream_blocks [of B m L] by (simp add: cbc_stream_def)

lemma stream_nth:
  assumes "0 < B" and "p < B * (ib + 1)" and "ib = (length m + L) div B"
  shows "cbc_stream B L m ! p =
    (if p < length m then m ! p else if p = length m then 0x80
     else if p < B * (ib + 1) - L then 0 else be_bytes L (8 * (B + length m)) ! (p - (B * (ib + 1) - L)))"
proof -
  define z where "z = (B - (length m + 1 + L) mod B) mod B"
  have z: "length m + 1 + z + L = B * (ib + 1)" using stream_blocks [OF assms(1), of m L] by (simp add: z_def assms(3))
  have "cbc_stream B L m = (m @ [0x80]) @ replicate z 0 @ be_bytes L (8 * (B + length m))" by (simp add: cbc_stream_def z_def)
  moreover have T: "B * (ib + 1) - L = length m + 1 + z" using z by simp
  ultimately show ?thesis using z assms(2) unfolding T by (auto simp: nth_append)
qed

lemma of_nat_small: "i < 2 ^ 63 \<Longrightarrow> j < 2 ^ 63 \<Longrightarrow> (of_nat i :: u64) = of_nat j \<longleftrightarrow> i = j"
  "i < 2 ^ 63 \<Longrightarrow> j < 2 ^ 63 \<Longrightarrow> (of_nat i :: u64) \<le> of_nat j \<longleftrightarrow> i \<le> j"
  using unat_of_nat_less [of i, where 'a = 64] unat_of_nat_less [of j, where 'a = 64] by (auto simp: word_le_nat_alt word_unat_eq_iff)

lemma mask_8_and: "mask_8 a AND mask_8 b = mask_8 (a \<and> b)"
  by (simp add: consttime_masks)

lemma and_masks: "b AND NOT (mask_8 c) = (if c then 0 else b)" "b AND (NOT (mask_8 c) OR mask_8 d) = (if c \<and> \<not> d then 0 else b)" for b :: u8
proof -
  have "NOT (0xff :: u8) = 0" by code_simp
  then show "b AND NOT (mask_8 c) = (if c then 0 else b)" "b AND (NOT (mask_8 c) OR mask_8 d) = (if c \<and> \<not> d then 0 else b)" for b :: u8
    unfolding consttime_masks by (auto simp only: if_True if_False and_zero_eq or.left_neutral bit.compl_zero and.right_neutral bit.disj_one_left and_0xff
      simp_thms split: if_splits)
qed

text \<open>Byte \<open>j\<close> of block \<open>i\<close>, without masks.\<close>

lemma cbc_block_nth:
  assumes "j < B" and "B \<le> 128" and "i < 2 ^ 62" and "ia < 2 ^ 62" and "ib < 2 ^ 62" and "c < 128"
  shows "cbc_block header d n B L c ia ib lb i k ! j =
    (if j \<ge> B - L \<and> i = ib then lb ! (j - (B - L))
     else if i = ib \<and> i \<noteq> ia then 0
     else if i = ia \<and> c + 1 \<le> j then 0
     else if i = ia \<and> c \<le> j then 0x80
     else if k + j < 13 then header ! (k + j) else if k + j < n + 13 then d ! (k + j - 13) else 0)"
proof -
  have e: "(of_nat i :: u64) = of_nat ia \<longleftrightarrow> i = ia" "(of_nat i :: u64) = of_nat ib \<longleftrightarrow> i = ib"
    "(of_nat c :: u64) \<le> of_nat j \<longleftrightarrow> c \<le> j" "(of_nat (c + 1) :: u64) \<le> of_nat j \<longleftrightarrow> c + 1 \<le> j"
    by (rule of_nat_small; use assms in simp)+
  have "[0..<B] ! j = j" "j < length [0..<B]" using assms(1) by simp_all
  then show ?thesis
    unfolding cbc_block_def Let_def masks_8 mask_8_and and_masks select_8
    by (simp only: nth_map e) auto
qed

lemma length_cbc_block [simp]: "length (cbc_block header d n B L c ia ib lb i k) = B"
  by (simp add: cbc_block_def Let_def)

lemma cbc_block_stream:
  assumes B: "0 < B" "B \<le> 128" and L: "L \<le> B" and E: "length m = E" and small: "E < 2 ^ 60"
    and ia: "ia = E div B" and ib: "ib = (E + L) div B" and c: "c = E mod B" and i: "i \<le> ib"
    and data: "\<And>p. p < E \<Longrightarrow> (if p < 13 then header ! p else if p < n + 13 then d ! (p - 13) else 0) = m ! p"
    and lb: "lb = be_bytes L (8 * (B + E))"
  shows "cbc_block header d n B L c ia ib lb i (B * i) = take B (drop (B * i) (cbc_stream B L m))"
proof (rule nth_equalityI)
  have len: "length (cbc_stream B L m) = B * (ib + 1)" using length_stream [OF B(1), of L m] E ib by simp
  have bi: "B * (i + 1) \<le> B * (ib + 1)" using i by (intro mult_le_mono2) simp
  then have "B \<le> B * (ib + 1) - B * i" by (simp only: distrib_left mult_1_right)
  then have len': "length (take B (drop (B * i) (cbc_stream B L m))) = B"
    unfolding length_take length_drop len by (rule min_absorb2)
  show "length (cbc_block header d n B L c ia ib lb i (B * i)) = length (take B (drop (B * i) (cbc_stream B L m)))"
    unfolding len' by simp
  fix j assume "j < length (cbc_block header d n B L c ia ib lb i (B * i))"
  then have j: "j < B" by simp
  define p where "p = B * i + j"
  have p: "p < B * (ib + 1)" using j bi unfolding p_def distrib_left mult_1_right by linarith
  have Ee: "E = B * ia + c" "c < B" using B(1) by (simp_all add: ia c)
  have ibe: "E + L < B * (ib + 1)" "B * ib \<le> E + L"
    using dividend_less_times_div [OF B(1), of "E + L"] ib times_div_less_eq_dividend [of B "E + L"] by (simp_all add: ib)
  have iab: "ia \<le> ib" unfolding ia ib by (intro div_le_mono) simp
  have bnd: "i < 2 ^ 62" "ia < 2 ^ 62" "ib < 2 ^ 62"
  proof -
    have "ib \<le> E + L" by (simp add: ib)
    with small L B i iab show "i < 2 ^ 62" "ia < 2 ^ 62" "ib < 2 ^ 62" by simp_all
  qed
  have "take B (drop (B * i) (cbc_stream B L m)) ! j = cbc_stream B L m ! p" using j p len by (simp add: p_def)
  also have "\<dots> = (if p < E then m ! p else if p = E then 0x80
     else if p < B * (ib + 1) - L then 0 else lb ! (p - (B * (ib + 1) - L)))"
    using stream_nth [OF B(1) p, of m L] ib E lb by simp
  finally have Q: "take B (drop (B * i) (cbc_stream B L m)) ! j = (if p < E then m ! p else if p = E then 0x80
     else if p < B * (ib + 1) - L then 0 else lb ! (p - (B * (ib + 1) - L)))" .
  note N = cbc_block_nth [OF j B(2) bnd, of c header d n L lb "B * i", folded p_def]
  have lt: "p < E" if "i < ia"
  proof -
    have "B * (i + 1) \<le> B * ia" using that by (intro mult_le_mono2) simp
    then show ?thesis using j Ee by (simp add: p_def)
  qed
  have gt: "E < p" if "ia < i"
  proof -
    have "B * (ia + 1) \<le> B * i" using that by (intro mult_le_mono2) simp
    then show ?thesis using Ee by (simp add: p_def)
  qed
  have same: "p < E \<longleftrightarrow> j < c" "p = E \<longleftrightarrow> j = c" if "i = ia" using that Ee by (simp_all add: p_def)
  have last: "p < B * (ib + 1) - L \<longleftrightarrow> j < B - L" "p - (B * (ib + 1) - L) = j - (B - L)" if "i = ib"
  proof -
    have T: "B * (ib + 1) - L = B * ib + (B - L)" using L by simp
    show "p < B * (ib + 1) - L \<longleftrightarrow> j < B - L" "p - (B * (ib + 1) - L) = j - (B - L)"
      unfolding T by (simp_all add: p_def that)
  qed
  have early: "p < B * (ib + 1) - L" if "i < ib"
  proof -
    have "B * (i + 1) \<le> B * ib" using that by (intro mult_le_mono2) simp
    then show ?thesis using j L by (simp add: p_def)
  qed
  have room: "j < B - L" if "i = ia" "i = ib" "j \<le> c" using that Ee ibe L by simp
  have c128: "c < 128" using Ee B by simp
  consider "i < ia" | "i = ia" "i = ib" | "i = ia" "i < ib" | "ia < i" "i = ib" | "ia < i" "i < ib" using i by linarith
  then show "cbc_block header d n B L c ia ib lb i (B * i) ! j = take B (drop (B * i) (cbc_stream B L m)) ! j"
  proof cases
    case 1
    then show ?thesis using lt [OF 1] iab data [of p] by (simp add: N [OF c128] Q)
  next
    case 2
    then show ?thesis using same [OF 2(1)] last [OF 2(2)] room [OF 2] data [of p] unfolding N [OF c128] Q by auto
  next
    case 3
    then show ?thesis using same [OF 3(1)] early [OF 3(2)] data [of p] unfolding N [OF c128] Q by auto
  next
    case 4
    then show ?thesis using gt [OF 4(1)] last [OF 4(2)] unfolding N [OF c128] Q by auto
  next
    case 5
    then have "B * (ia + 2) \<le> B * ib" by (intro mult_le_mono2) simp
    then show ?thesis using ibe Ee L by (simp add: algebra_simps)
  qed
qed

section \<open>All blocks\<close>

text \<open>The public block counts leave room for the end of the data on both sides.\<close>

lemma block_counts:
  fixes n sz B L dpm :: nat
  assumes B: "0 < B" and sz: "L \<le> sz" "sz + 1 \<le> n" and dpm: "sz \<le> dpm" "dpm \<le> n" "n \<le> dpm + 256"
  defines "kv \<equiv> (255 + 1 + sz + B - 1) div B + 1"
    and "nb \<equiv> (n + 13 - sz - 1 + 1 + L + B - 1) div B"
    and "E \<equiv> dpm + 13 - sz"
  shows "B * (nb - kv) \<le> E" and "(E + L) div B \<le> (nb - kv) + kv"
proof -
  have kv: "255 + sz + B < B * kv"
    using dividend_less_times_div [OF B, of "255 + sz + B"] by (simp only: kv_def) (simp add: add.assoc)
  have "n + 13 - sz - 1 + 1 + L + B - 1 = n + 12 + L + B - sz" using sz B by simp
  then have nb: "B * nb \<le> n + 12 + L + B - sz" "n + 12 + L + B - sz < B * (nb + 1)"
    using times_div_less_eq_dividend [of B "n + 12 + L + B - sz"] dividend_less_times_div [OF B, of "n + 12 + L + B - sz"]
    by (simp_all add: nb_def)
  have "B * (nb - kv) = B * nb - B * kv" by (rule diff_mult_distrib2)
  then show "B * (nb - kv) \<le> E" using kv nb(1) sz dpm by (simp add: E_def)
  have "E + L < B * (nb + 1)" using nb(2) sz dpm B by (simp add: E_def)
  then have "(E + L) div B < nb + 1" using B by (simp add: less_mult_imp_div_less mult.commute)
  then show "(E + L) div B \<le> (nb - kv) + kv" by simp
qed

lemma turns:
  assumes block: "\<And>i. nsb \<le> i \<Longrightarrow> i \<le> ib \<Longrightarrow> block i (B * i) = take B (drop (B * i) Q)"
    and sz: "sz \<le> length (tls1_final_raw (G (Suc ib)))" and G: "\<And>i. G (Suc i) = tls1_transform (G i) (take B (drop (B * i) Q))"
    and ib: "nsb \<le> ib" "ib < nsb + t" and bnd: "nsb + t < 2 ^ 63"
  shows "\<exists>s k. fold (cbc_turn block sz B ib) [nsb..<nsb + t] (G nsb, B * nsb, replicate sz 0) = (s, k, take sz (tls1_final_raw (G (Suc ib))))"
proof -
  have turn: "cbc_turn block sz B ib i (s, k, mac) = (let s = tls1_transform s (block i k) in
      (s, k + B, map (\<lambda>j. mac ! j OR (tls1_final_raw s ! j AND mask_8 (i = ib))) [0..<sz]))" if "i < 2 ^ 63" for i s k mac
  proof -
    have "(of_nat i :: u64) = of_nat ib \<longleftrightarrow> i = ib" using of_nat_small(1) [OF that, of ib] ib bnd by simp
    then show ?thesis by (simp add: cbc_turn_def masks_8 Let_def)
  qed
  have keep: "map (\<lambda>j. mac ! j OR (raw ! j AND mask_8 False)) [0..<sz] = mac" if "length mac = sz" for mac raw :: bytes
    using that by (intro nth_equalityI) (simp_all add: consttime_masks)
  have before: "fold (cbc_turn block sz B ib) [nsb..<nsb + u] (G nsb, B * nsb, replicate sz 0) = (G (nsb + u), B * (nsb + u), replicate sz 0)"
    if "nsb + u \<le> ib" for u
    using that
  proof (induction u)
    case (Suc u)
    have "[nsb..<nsb + Suc u] = [nsb..<nsb + u] @ [nsb + u]" by simp
    moreover have "cbc_turn block sz B ib (nsb + u) (G (nsb + u), B * (nsb + u), replicate sz 0) = (G (nsb + Suc u), B * (nsb + Suc u), replicate sz 0)"
    proof -
      have i: "nsb + u < 2 ^ 63" "nsb + u \<noteq> ib" using Suc.prems ib bnd by simp_all
      have b: "tls1_transform (G (nsb + u)) (block (nsb + u) (B * (nsb + u))) = G (nsb + Suc u)"
        using block [of "nsb + u"] Suc.prems G [of "nsb + u"] by simp
      show ?thesis unfolding turn [OF i(1)] b Let_def using i(2) keep [of "replicate sz 0"] by simp
    qed
    ultimately show ?case using Suc.IH Suc.prems by (simp only: fold_append comp_apply fold_simps Suc_leD add_Suc_right)
  qed simp
  have at: "cbc_turn block sz B ib ib (G ib, B * ib, replicate sz 0) = (G (Suc ib), B * ib + B, take sz (tls1_final_raw (G (Suc ib))))"
  proof -
    have "map (\<lambda>j. replicate sz 0 ! j OR (tls1_final_raw (G (Suc ib)) ! j AND mask_8 True)) [0..<sz] = take sz (tls1_final_raw (G (Suc ib)))"
      using sz by (intro nth_equalityI) (simp_all add: consttime_masks and_0xff)
    moreover have "tls1_transform (G ib) (block ib (B * ib)) = G (Suc ib)" using block [of ib] ib G [of ib] by simp
    moreover have "ib < 2 ^ 63" using ib bnd by simp
    ultimately show ?thesis by (simp add: turn Let_def del: map_eq_conv)
  qed
  have after: "\<exists>s k. fold (cbc_turn block sz B ib) [Suc ib..<Suc ib + u] (s0, k0, mac) = (s, k, mac)"
    if "Suc ib + u \<le> nsb + t" "length mac = sz" for u s0 k0 mac
    using that
  proof (induction u)
    case (Suc u)
    then obtain s k where f: "fold (cbc_turn block sz B ib) [Suc ib..<Suc ib + u] (s0, k0, mac) = (s, k, mac)" by auto
    have "[Suc ib..<Suc ib + Suc u] = [Suc ib..<Suc ib + u] @ [Suc ib + u]" by simp
    moreover have "\<exists>s' k'. cbc_turn block sz B ib (Suc ib + u) (s, k, mac) = (s', k', mac)"
      using Suc.prems bnd keep [of mac] by (simp add: turn Let_def)
    ultimately show ?case using f by (simp only: fold_append comp_apply fold_simps)
  qed simp
  define u where "u = ib - nsb"
  define v where "v = nsb + t - Suc ib"
  have "nsb + u = ib" "Suc ib + v = nsb + t" using ib by (simp_all add: u_def v_def)
  then have e: "[nsb..<nsb + t] = [nsb..<nsb + u] @ [ib] @ [Suc ib..<Suc ib + v]"
  proof -
    have "[nsb..<nsb + t] = [nsb..<ib] @ [ib..<nsb + t]"
      using upt_add_eq_append [OF ib(1), of "nsb + t - ib"] ib(2) by (simp del: upt_Suc)
    then show ?thesis
      unfolding \<open>nsb + u = ib\<close> \<open>Suc ib + v = nsb + t\<close> upt_conv_Cons [OF ib(2)] by simp
  qed
  from after [of v "take sz (tls1_final_raw (G (Suc ib)))" "G (Suc ib)" "B * ib + B"] obtain s k where
    f: "fold (cbc_turn block sz B ib) [Suc ib..<Suc ib + v] (G (Suc ib), B * ib + B, take sz (tls1_final_raw (G (Suc ib)))) =
      (s, k, take sz (tls1_final_raw (G (Suc ib))))"
    using \<open>Suc ib + v = nsb + t\<close> sz by auto
  have "fold (cbc_turn block sz B ib) [nsb..<nsb + t] (G nsb, B * nsb, replicate sz 0) = (s, k, take sz (tls1_final_raw (G (Suc ib))))"
    unfolding e using before [of u] \<open>nsb + u = ib\<close> at f by (simp del: upt_Suc)
  then show ?thesis by blast
qed

text \<open>The blocks that hold data for any padding, hashed without masks.\<close>

lemma first_blocks:
  assumes Q: "\<And>i. i < nsb \<Longrightarrow> take B (drop (B * i) Q) = (if i = 0 then header @ take (B - 13) d else take B (drop (B * i - 13) d))"
    and G: "\<And>i. G (Suc i) = tls1_transform (G i) (take B (drop (B * i) Q))" and B: "0 < B"
  shows "(if B * nsb > 0
          then fold (\<lambda>i s. tls1_transform s (take B (drop (B * i - 13) d))) [1..<B * nsb div B]
                 (tls1_transform (G 0) (header @ take (B - 13) d))
          else G 0) = G nsb"
proof (cases nsb)
  case (Suc n)
  have "fold (\<lambda>i s. tls1_transform s (take B (drop (B * i - 13) d))) [1..<Suc k] (G 1) = G (Suc k)" if "k \<le> n" for k
    using that
  proof (induction k)
    case (Suc k)
    then show ?case using G [of "Suc k"] Q [of "Suc k"] \<open>nsb = Suc n\<close> by simp
  qed simp
  moreover have "tls1_transform (G 0) (header @ take (B - 13) d) = G 1" using G [of 0] Q [of 0] Suc by simp
  ultimately show ?thesis using Suc B by (simp del: upt_Suc)
qed simp

lemma length_field:
  assumes "v < 2 ^ 32" and "4 \<le> L"
  shows "replicate (L - 4) 0 @ u32toBE (of_nat v) = be_bytes L v"
proof (rule be_bytes_eqI)
  have "unat (of_nat v :: u32) = v" by (rule unat_of_nat_less) (use assms(1) in simp)
  moreover have "(256 :: nat) ^ 4 \<le> 256 ^ L" using assms(2) by (intro power_increasing) simp_all
  ultimately show "be_val (replicate (L - 4) 0 @ u32toBE (of_nat v)) = v mod 256 ^ L"
    using assms(1) by (simp add: u32toBE_bytes be_val_be_bytes)
qed (use assms(2) in \<open>simp add: u32toBE_bytes\<close>)

lemma digest_record_hmac:
  assumes md: "EVP_tls_cbc_record_digest_supported md" and ok: "md_ok md stack" "md_ok md (fresh md)" and alloc: "alloc (ctx_size md)"
    and header: "length header = 13" and key: "length secret \<le> EVP_MD_block_size md"
    and size: "EVP_MD_size md \<le> dpm" "dpm \<le> length d" "length d \<le> dpm + 256" "EVP_MD_size md + 1 \<le> length d" "length d < 1024 * 1024"
  shows "EVP_tls_cbc_digest_record alloc fresh stack md header d dpm secret =
    Some (rfc_hmac md secret (header @ take (dpm - EVP_MD_size md) d), EVP_MD_size md)"
proof -
  obtain sz B sh L where p: "tls1_parameters md = Some (sz, B, sh, L)"
    using md by (cases md) (simp_all add: EVP_tls_cbc_record_digest_supported_def tls1_parameters_def)
  note P = tls1_parametersD [OF p]
  have B: "0 < B" "B \<le> 128" "L \<le> B" "13 \<le> B" using P by auto
  define n where "n = length d"
  define E where "E = dpm + 13 - sz"
  define m where "m = header @ take (dpm - sz) d"
  define kv where "kv = (255 + 1 + sz + B - 1) div B + 1"
  define nb where "nb = (n + 13 - sz - 1 + 1 + L + B - 1) div B"
  define nsb where "nsb = nb - kv"
  define ia where "ia = E div B"
  define ib where "ib = (E + L) div B"
  define c where "c = E mod B"
  define Q where "Q = cbc_stream B L m"
  define pad where "pad = map (\<lambda>x. x XOR 0x36) (take B (secret @ replicate (B - length secret) 0))"
  define G where "G = (\<lambda>j. fold (\<lambda>i s. tls1_transform s (take B (drop (B * i) Q))) [0..<j] (tls1_transform (md_init md stack) pad))"
  have E: "length m = E" using header size(1,2) by (simp add: m_def E_def P(2))
  have small: "E < 2 ^ 60" "8 * E + 8 * B < 2 ^ 32" "n < 1024 * 1024" using size P(8) B(2) by (simp_all add: E_def P(2) n_def)
  have key': "length secret \<le> B" using key by (simp add: P(3))
  have pad: "pad = Hmac.hmac_pad md secret 0x36" "length pad = B"
    using key' by (simp_all add: pad_def Hmac.hmac_pad_def hmac_k0_def P(3) [symmetric])
  have counts: "B * nsb \<le> E" "ib \<le> nsb + kv"
    using block_counts [OF B(1) P(7), of n dpm] size unfolding nsb_def nb_def kv_def E_def ib_def n_def P(2) by simp_all
  have G: "G (Suc i) = tls1_transform (G i) (take B (drop (B * i) Q))" for i by (simp add: G_def)
  have len: "length Q = B * (ib + 1)" using length_stream [OF B(1), of L m] E by (simp add: Q_def ib_def)
  have first: "(if B * nsb > 0
          then fold (\<lambda>i s. tls1_transform s (take B (drop (B * i - 13) d))) [1..<B * nsb div B]
                 (tls1_transform (G 0) (header @ take (B - 13) d))
          else G 0) = G nsb"
  proof (rule first_blocks [OF _ G B(1)])
    fix i assume "i < nsb"
    then have "B * (i + 1) \<le> B * nsb" by (intro mult_le_mono2) simp
    with counts(1) have i: "B * i + B \<le> E" by simp
    then have "take B (drop (B * i) Q) = take B (drop (B * i) m)" using E by (simp add: Q_def cbc_stream_def)
    also have "\<dots> = (if i = 0 then header @ take (B - 13) d else take B (drop (B * i - 13) d))"
    proof (cases i)
      case 0
      with i B(4) show ?thesis using header by (simp add: m_def E_def min_def)
    next
      case (Suc i')
      then have "13 \<le> B * i" using B(4) by simp
      then have "B * i - 13 + B \<le> dpm - sz" "drop (B * i) m = drop (B * i - 13) (take (dpm - sz) d)"
        using i header by (simp_all add: m_def E_def)
      with Suc show ?thesis by (simp add: take_drop min_def add.commute)
    qed
    finally show "take B (drop (B * i) Q) = (if i = 0 then header @ take (B - 13) d else take B (drop (B * i - 13) d))" .
  qed
  define lb where "lb = be_bytes L (8 * (B + E))"
  have lb: "replicate (L - 4) 0 @ u32toBE (of_nat (8 * E + 8 * B)) = lb"
    using length_field [OF small(2)] P(6) by (simp add: lb_def add.commute)
  define block where "block = cbc_block header d n B L c ia ib lb"
  have blk: "block i (B * i) = take B (drop (B * i) Q)" if "i \<le> ib" for i
    unfolding block_def Q_def
  proof (rule cbc_block_stream [OF B(1-3) E small(1) ia_def ib_def c_def that _ lb_def])
    fix q assume "q < E"
    then show "(if q < 13 then header ! q else if q < n + 13 then d ! (q - 13) else 0) = m ! q"
      using header size(2) by (auto simp: m_def nth_append E_def n_def)
  qed
  have nsb_ib: "nsb \<le> ib"
  proof -
    have "nsb \<le> E div B" using counts(1) B(1) by (simp add: less_eq_div_iff_mult_less_eq mult.commute)
    then show ?thesis unfolding ib_def using div_le_mono [of E "E + L" B] by simp
  qed
  have "hash_blocks B tls1_transform (md_init md stack) (pad @ Q) = hash_blocks B tls1_transform (tls1_transform (md_init md stack) pad) Q"
    using hash_blocks_append [of pad B 1 tls1_transform "md_init md stack" Q] hash_blocks_one [OF pad(2) B(1), of tls1_transform "md_init md stack"] pad(2) B(1)
    by simp
  also have "\<dots> = G (Suc ib)" using len B(1) by (simp add: G_def hash_blocks_def del: upt_Suc)
  finally have "hash_blocks B tls1_transform (md_init md stack) (pad @ Q) = G (Suc ib)" .
  then have raw: "take sz (tls1_final_raw (G (Suc ib))) = digest_hash md (pad @ m)"
    using raw_hash [OF p ok(1), of "pad @ m"] by (simp add: hash_pad_block [OF pad(2)] Q_def)
  then have "length (take sz (tls1_final_raw (G (Suc ib)))) = sz" by (simp add: length_digest_hash P(2))
  then have sz: "sz \<le> length (tls1_final_raw (G (Suc ib)))" by simp
  have "kv \<le> 255 + sz + B + 1" by (simp add: kv_def div_le_dividend le_SucI) 
  moreover have "nsb \<le> E" using counts(1) B(1) by (metis le_trans mult_le_mono1 nat_mult_1 Suc_leI One_nat_def)
  ultimately have "nsb + (kv + 1) < 2 ^ 63"
    using small(1) P(9) B(2) by simp
  from turns [of nsb ib block B Q sz G "kv + 1", OF blk sz G nsb_ib _ this] counts(2) obtain s k where
    loop: "fold (cbc_turn block sz B ib) [nsb..<nsb + kv + 1] (G nsb, B * nsb, replicate sz 0) = (s, k, digest_hash md (pad @ m))"
    unfolding raw by (auto simp: add.assoc simp del: upt_Suc)
  define i0 where "i0 = EVP_DigestInit_ex alloc fresh (EVP_MD_CTX_init :: unit evp_md_ctx) md"
  have i0: "fst i0" "ctx_at md (snd i0) []"
    using digest_init_at [OF ctx_wf_init, where alloc = alloc and d = md and fresh = fresh] alloc ok(2) unfolding i0_def by blast+
  define opad where "opad = map (\<lambda>x. x XOR 0x6a) pad"
  have opad: "opad = Hmac.hmac_pad md secret 0x5c"
  proof -
    have "(x XOR 0x36) XOR 0x6a = x XOR (0x5c :: u8)" for x
    proof -
      have "(0x36 :: u8) XOR 0x6a = 0x5c" by code_simp
      then show ?thesis by (simp only: xor.assoc)
    qed
    then show ?thesis unfolding opad_def pad(1) Hmac.hmac_pad_def by (simp add: comp_def)
  qed
  define u1 where "u1 = snd (EVP_DigestUpdate (snd i0) opad)"
  define u2 where "u2 = snd (EVP_DigestUpdate u1 (digest_hash md (pad @ m)))"
  have "ctx_at md u1 opad" using digest_update_at [OF i0(2), of opad] by (simp add: u1_def)
  then have u2: "ctx_at md u2 (opad @ digest_hash md (pad @ m))"
    using digest_update_at [of md u1 opad "digest_hash md (pad @ m)"] by (simp add: u2_def)
  from digest_final_at [OF u2] obtain c' where
    fin: "EVP_DigestFinal_ex u2 = (Some (rfc_hmac md secret m), sz, c')"
    unfolding opad pad(1) by (auto simp: rfc_hmac_def P(2))
  have r: "EVP_tls_cbc_digest_record alloc fresh stack md header d dpm secret =
      (case i0 of (False, _) \<Rightarrow> None | (True, mctx) \<Rightarrow>
         let (_, mctx) = EVP_DigestUpdate mctx opad; (_, mctx) = EVP_DigestUpdate mctx (digest_hash md (pad @ m));
             (out, md_out_size, mctx) = EVP_DigestFinal mctx in map_option (\<lambda>out. (out, md_out_size)) out)"
  proof -
    have lim: "\<not> n \<ge> 1024 * 1024" using size(5) by (simp add: n_def)
    have k: "(if nb > kv then nb - kv else 0) = nsb" "(if nb > kv then B * nsb else 0) = B * nsb" by (simp_all add: nsb_def)
    have G0: "tls1_transform (md_init md stack) pad = G 0" by (simp add: G_def)
    show ?thesis
      unfolding EVP_tls_cbc_digest_record_def Let_def if_not_P [OF lim] p option.case prod.case n_def [symmetric] P(4) [symmetric]
      unfolding E_def [symmetric] kv_def [symmetric] nb_def [symmetric]
      unfolding ia_def [symmetric] ib_def [symmetric] c_def [symmetric] k pad_def [symmetric] lb
      unfolding G0 first block_def [symmetric] loop prod.case i0_def [symmetric] opad_def [symmetric]
      by (rule refl)
  qed
  obtain mctx where i0': "i0 = (True, mctx)" using i0(1) by (cases i0) simp
  show ?thesis
    using fin unfolding r i0' by (simp add: u2_def u1_def i0' split_beta EVP_DigestFinal_def m_def P(2))
qed

section \<open>Properties\<close>

text \<open>C37. \<open>EVP_tls_cbc_digest_record\<close>, which runs the block function the same number of times whatever
  the padding is and picks the state with masks, computes HMAC of the header and of the data
  without MAC and padding.\<close>

theorem digest_record_exact:
  assumes "EVP_tls_cbc_record_digest_supported md" and "md_ok md stack" "md_ok md (fresh md)" and "alloc (ctx_size md)"
    and "length header = 13" and "length secret \<le> EVP_MD_block_size md"
    and "EVP_MD_size md \<le> dpm" "dpm \<le> length d" "length d \<le> dpm + 256" "EVP_MD_size md + 1 \<le> length d" "length d < 1024 * 1024"
  shows "EVP_tls_cbc_digest_record alloc fresh stack md header d dpm secret =
    Some (rfc_hmac md secret (header @ take (dpm - EVP_MD_size md) d), EVP_MD_size md)"
  using assms by (rule digest_record_hmac)

theorem digest_record_exact_witness:
  "EVP_tls_cbc_digest_record (\<lambda>_. True) start_state (start_state EVP_sha256) EVP_sha256 (replicate 13 1) (replicate 64 7) 40 [1, 2, 3] =
    Some (rfc_hmac EVP_sha256 [1, 2, 3] (replicate 13 1 @ replicate 8 7), 32)"
  using digest_record_exact [of EVP_sha256 "start_state EVP_sha256" start_state "\<lambda>_. True" "replicate 13 1" "[1, 2, 3]" 40 "replicate 64 7"]
    fresh_ok_start
  by (simp add: EVP_tls_cbc_record_digest_supported_def SHA256_DIGEST_LENGTH_def fresh_ok_def)

end
