(* ===== verification/Kdf.thy ===== *)
theory Kdf
  imports Hmac
begin

text \<open>
  Key derivation over HMAC: HKDF (\<open>hkdf/hkdf.c\<close>), the TLS pseudorandom function
  (\<open>fipsmodule/tls/kdf.c\<close>) and PBKDF2 (\<open>evp/pbkdf.c\<close>); the functions of RFC 5869, RFC 5246 (with
  RFC 2246 for MD5/SHA-1) and RFC 8018, and the proofs that the code computes them.
\<close>

unbundle bit_operations_syntax

section \<open>The code\<close>

lemma md_size_pos: "0 < EVP_MD_size d"
  by (cases d) (simp_all add: MD4_DIGEST_LENGTH_def MD5_DIGEST_LENGTH_def SHA_DIGEST_LENGTH_def SHA224_DIGEST_LENGTH_def
      SHA256_DIGEST_LENGTH_def SHA384_DIGEST_LENGTH_def SHA512_DIGEST_LENGTH_def)

text \<open>A chain of \<open>HMAC_Update\<close> calls that stops at the first failure.\<close>

primrec hmac_feed :: "'p hmac_ctx \<Rightarrow> bytes list \<Rightarrow> bool \<times> 'p hmac_ctx" where
  "hmac_feed c [] = (True, c)"
| "hmac_feed c (x # xs) = (let (ok, c) = HMAC_Update c x in if ok then hmac_feed c xs else (False, c))"

definition HKDF_extract ::
  "(nat \<Rightarrow> bool) \<Rightarrow> (EVP_MD \<Rightarrow> md_state) \<Rightarrow> EVP_MD \<Rightarrow> bytes \<Rightarrow> bytes option \<Rightarrow> (bytes \<times> nat) option" where
  "HKDF_extract alloc fresh d secret salt = HMAC alloc fresh d salt secret"

text \<open>\<open>k\<close> turns are left; \<open>out\<close> is what has been written, its length the \<open>done\<close> of the code.\<close>

primrec hkdf_loop ::
  "(nat \<Rightarrow> bool) \<Rightarrow> (EVP_MD \<Rightarrow> md_state) \<Rightarrow> bytes \<Rightarrow> nat \<Rightarrow> nat \<Rightarrow> nat \<Rightarrow> nat \<Rightarrow> unit hmac_ctx \<Rightarrow> bytes \<Rightarrow> bytes \<Rightarrow> bytes option" where
  "hkdf_loop alloc fresh info out_len digest_len 0 i hmac previous out = Some out"
| "hkdf_loop alloc fresh info out_len digest_len (Suc k) i hmac previous out =
     (let ctr = of_nat (i + 1);
          (ok, hmac) =
            (if i \<noteq> 0
             then let (ok, hmac) = HMAC_Init_ex Some alloc fresh hmac None None
                  in if \<not> ok then (False, hmac) else HMAC_Update hmac (take digest_len previous)
             else (True, hmac))
      in if \<not> ok then None
         else let (ok, hmac) = hmac_feed hmac [info, [ctr]]
              in if \<not> ok then None
                 else case HMAC_Final Some alloc hmac of (None, _) \<Rightarrow> None
                   | (Some (previous, _), hmac) \<Rightarrow>
                       let todo = (if size_add (length out) digest_len > out_len then out_len - length out else digest_len)
                       in hkdf_loop alloc fresh info out_len digest_len k (i + 1) hmac previous (out @ take todo previous))"

definition HKDF_expand ::
  "(nat \<Rightarrow> bool) \<Rightarrow> (EVP_MD \<Rightarrow> md_state) \<Rightarrow> nat \<Rightarrow> EVP_MD \<Rightarrow> bytes \<Rightarrow> bytes \<Rightarrow> bytes option" where
  "HKDF_expand alloc fresh out_len d prk info =
     (let digest_len = EVP_MD_size d;
          n = size_add (size_add out_len digest_len) (2 ^ 64 - 1) div digest_len
      in if size_add out_len digest_len < out_len \<or> n > 255 then None
         else let (ok, hmac) = HMAC_Init_ex Some alloc fresh HMAC_CTX_init (Some prk) (Some d)
              in if \<not> ok then None else hkdf_loop alloc fresh info out_len digest_len n 0 hmac [] [])"

definition HKDF ::
  "(nat \<Rightarrow> bool) \<Rightarrow> (EVP_MD \<Rightarrow> md_state) \<Rightarrow> nat \<Rightarrow> EVP_MD \<Rightarrow> bytes \<Rightarrow> bytes option \<Rightarrow> bytes \<Rightarrow> bytes option" where
  "HKDF alloc fresh out_len d secret salt info =
     (case HKDF_extract alloc fresh d secret salt of None \<Rightarrow> None
      | Some (prk, prk_len) \<Rightarrow> HKDF_expand alloc fresh out_len d (take prk_len prk) info)"

text \<open>The loop of \<open>tls1_P_hash\<close> over what is left of \<open>out\<close>; \<open>seeds\<close> are label, seed1 and seed2. The outer
  \<open>None\<close> is a loop that does not end, the inner one the return value 0.\<close>

partial_function (option) p_hash_loop ::
  "(nat \<Rightarrow> bool) \<Rightarrow> nat \<Rightarrow> bytes list \<Rightarrow> unit hmac_ctx \<Rightarrow> unit hmac_ctx \<Rightarrow> unit hmac_ctx \<Rightarrow> bytes \<Rightarrow> bytes \<Rightarrow> bytes option option" where
  "p_hash_loop alloc chunk seeds ctx ctx_tmp ctx_init A1 out =
     (let (ok, ctx) = HMAC_CTX_copy_ex Some alloc ctx ctx_init;
          (ok, ctx) = (if ok then HMAC_Update ctx A1 else (False, ctx));
          (ok, ctx_tmp) = (if ok \<and> length out > chunk then HMAC_CTX_copy_ex Some alloc ctx_tmp ctx else (ok, ctx_tmp));
          (ok, ctx) = (if ok then hmac_feed ctx seeds else (False, ctx))
      in if \<not> ok then Some None
         else case HMAC_Final Some alloc ctx of (None, _) \<Rightarrow> Some None
           | (Some (hmac, len), ctx) \<Rightarrow>
               let len = (if len > length out then length out else len);
                   done = map2 (XOR) (take len out) (take len hmac);
                   out = drop len out
               in if out = [] then Some (Some done)
                  else case HMAC_Final Some alloc ctx_tmp of (None, _) \<Rightarrow> Some None
                    | (Some (A1, A1_len), ctx_tmp) \<Rightarrow>
                        Option.bind (p_hash_loop alloc chunk seeds ctx ctx_tmp ctx_init (take A1_len A1) out)
                          (\<lambda>r. Some (map_option ((@) done) r)))"

definition tls1_P_hash ::
  "(nat \<Rightarrow> bool) \<Rightarrow> (EVP_MD \<Rightarrow> md_state) \<Rightarrow> bytes \<Rightarrow> EVP_MD \<Rightarrow> bytes \<Rightarrow> bytes \<Rightarrow> bytes \<Rightarrow> bytes \<Rightarrow> bytes option option" where
  "tls1_P_hash alloc fresh out d secret label seed1 seed2 =
     (let chunk = EVP_MD_size d;
          (ok, ctx_init) = HMAC_Init_ex Some alloc fresh HMAC_CTX_init (Some secret) (Some d);
          (ok, ctx) = (if ok then HMAC_CTX_copy_ex Some alloc HMAC_CTX_init ctx_init else (False, HMAC_CTX_init));
          (ok, ctx) = (if ok then hmac_feed ctx [label, seed1, seed2] else (False, ctx))
      in if \<not> ok then Some None
         else case HMAC_Final Some alloc ctx of (None, _) \<Rightarrow> Some None
           | (Some (A1, A1_len), ctx) \<Rightarrow>
               p_hash_loop alloc chunk [label, seed1, seed2] ctx HMAC_CTX_init ctx_init (take A1_len A1) out)"

definition CRYPTO_tls1_prf ::
  "(nat \<Rightarrow> bool) \<Rightarrow> (EVP_MD \<Rightarrow> md_state) \<Rightarrow> EVP_MD \<Rightarrow> nat \<Rightarrow> bytes \<Rightarrow> bytes \<Rightarrow> bytes \<Rightarrow> bytes \<Rightarrow> bytes option option" where
  "CRYPTO_tls1_prf alloc fresh d out_len secret label seed1 seed2 =
     (if out_len = 0 then Some (Some [])
      else
        let out = replicate out_len 0
        in if d = EVP_md5_sha1
           then let secret_half = length secret - length secret div 2
                in case tls1_P_hash alloc fresh out EVP_md5 (take secret_half secret) label seed1 seed2 of
                     None \<Rightarrow> None
                   | Some None \<Rightarrow> Some None
                   | Some (Some out) \<Rightarrow>
                       tls1_P_hash alloc fresh out EVP_sha1 (take secret_half (drop (length secret - secret_half) secret)) label seed1 seed2
           else tls1_P_hash alloc fresh out d secret label seed1 seed2)"

text \<open>One block of PBKDF2 after \<open>U_1\<close>: \<open>n\<close> more turns of the inner loop; \<open>out\<close> is the block of \<open>out_key\<close>.\<close>

primrec pbkdf_turns ::
  "(nat \<Rightarrow> bool) \<Rightarrow> (EVP_MD \<Rightarrow> md_state) \<Rightarrow> nat \<Rightarrow> nat \<Rightarrow> nat \<Rightarrow> unit hmac_ctx \<Rightarrow> bytes \<Rightarrow> bytes \<Rightarrow> (bytes \<times> unit hmac_ctx) option" where
  "pbkdf_turns alloc fresh md_len todo 0 hctx digest_tmp out = Some (out, hctx)"
| "pbkdf_turns alloc fresh md_len todo (Suc n) hctx digest_tmp out =
     (let (ok, hctx) = HMAC_Init_ex Some alloc fresh hctx None None;
          (ok, hctx) = (if ok then hmac_feed hctx [take md_len digest_tmp] else (False, hctx))
      in if \<not> ok then None
         else case HMAC_Final Some alloc hctx of (None, _) \<Rightarrow> None
           | (Some (digest_tmp, _), hctx) \<Rightarrow>
               pbkdf_turns alloc fresh md_len todo n hctx digest_tmp (map2 (XOR) out (take todo digest_tmp)))"

text \<open>The loop over the blocks; \<open>None\<close> is the jump to \<open>err\<close>. A digest of length 0, which there is none of,
  would not let it end.\<close>

function pbkdf_blocks ::
  "(nat \<Rightarrow> bool) \<Rightarrow> (EVP_MD \<Rightarrow> md_state) \<Rightarrow> EVP_MD \<Rightarrow> bytes \<Rightarrow> nat \<Rightarrow> u32 \<Rightarrow> unit hmac_ctx \<Rightarrow> nat \<Rightarrow> bytes option" where
  "pbkdf_blocks alloc fresh d salt iterations i hctx key_len =
     (if key_len > 0
      then
        let md_len = EVP_MD_size d;
            todo = (if md_len > key_len then key_len else md_len);
            i_buf = [ucast (drop_bit 24 i AND 0xff), ucast (drop_bit 16 i AND 0xff), ucast (drop_bit 8 i AND 0xff), ucast (i AND 0xff)];
            (ok, hctx) = HMAC_Init_ex Some alloc fresh hctx None None;
            (ok, hctx) = (if ok then hmac_feed hctx [salt, i_buf] else (False, hctx))
        in if \<not> ok then None
           else case HMAC_Final Some alloc hctx of (None, _) \<Rightarrow> None
             | (Some (digest_tmp, _), hctx) \<Rightarrow>
                 (case pbkdf_turns alloc fresh md_len todo (iterations - 1) hctx digest_tmp (take todo digest_tmp) of None \<Rightarrow> None
                  | Some (block, hctx) \<Rightarrow>
                      map_option ((@) block) (pbkdf_blocks alloc fresh d salt iterations (i + 1) hctx (key_len - todo)))
      else Some [])"
  by pat_completeness auto
termination
  by (relation "measure (\<lambda>(alloc, fresh, d, salt, iterations, i, hctx, key_len). key_len)") (use md_size_pos in \<open>auto split: if_splits\<close>)

declare pbkdf_blocks.simps [simp del]

text \<open>The return value and \<open>out_key\<close>: with no iterations the key is written as for one, and 0 returned.\<close>

definition PKCS5_PBKDF2_HMAC ::
  "(nat \<Rightarrow> bool) \<Rightarrow> (EVP_MD \<Rightarrow> md_state) \<Rightarrow> bytes \<Rightarrow> bytes \<Rightarrow> nat \<Rightarrow> EVP_MD \<Rightarrow> nat \<Rightarrow> bool \<times> bytes option" where
  "PKCS5_PBKDF2_HMAC alloc fresh password salt iterations d key_len =
     (let (ok, hctx) = HMAC_Init_ex Some alloc fresh HMAC_CTX_init (Some password) (Some d)
      in if \<not> ok then (False, None)
         else case pbkdf_blocks alloc fresh d salt iterations 1 hctx key_len of
                None \<Rightarrow> (False, None)
              | Some out_key \<Rightarrow> (if iterations = 0 then (False, Some out_key) else (True, Some out_key)))"

definition PKCS5_PBKDF2_HMAC_SHA1 where
  "PKCS5_PBKDF2_HMAC_SHA1 alloc fresh password salt iterations key_len =
     PKCS5_PBKDF2_HMAC alloc fresh password salt iterations EVP_sha1 key_len"

section \<open>RFC 5869\<close>

primrec rfc_hkdf_t :: "EVP_MD \<Rightarrow> bytes \<Rightarrow> bytes \<Rightarrow> nat \<Rightarrow> bytes" where
  "rfc_hkdf_t d prk info 0 = []"
| "rfc_hkdf_t d prk info (Suc i) = rfc_hmac d prk (rfc_hkdf_t d prk info i @ info @ [of_nat (Suc i)])"

definition rfc_hkdf_expand :: "EVP_MD \<Rightarrow> bytes \<Rightarrow> bytes \<Rightarrow> nat \<Rightarrow> bytes" where
  "rfc_hkdf_expand d prk info L =
     take L (concat (map (rfc_hkdf_t d prk info) [1..<(L + EVP_MD_size d - 1) div EVP_MD_size d + 1]))"

lemma length_rfc_hmac [simp]: "length (rfc_hmac d k m) = EVP_MD_size d"
  by (simp add: rfc_hmac_def length_digest_hash)

lemma length_blocks:
  assumes "\<And>i. i \<in> set is \<Longrightarrow> length (f i) = n"
  shows "length (concat (map f is)) = length is * n"
  using assms by (induction "is") auto

lemma ceiling:
  fixes s L :: nat
  assumes "0 < s"
  defines "n \<equiv> (L + s - 1) div s"
  shows "L \<le> n * s" and "0 < n \<Longrightarrow> (n - 1) * s < L" and "n \<le> c \<longleftrightarrow> L \<le> c * s"
proof -
  have e: "n * s + (L + s - 1) mod s = L + s - 1" by (simp add: n_def)
  have m: "(L + s - 1) mod s < s" using assms(1) by simp
  show up: "L \<le> n * s" using e m assms(1) by linarith
  show lo: "(n - 1) * s < L" if "0 < n"
  proof -
    have "n * s = (n - 1) * s + s" using that by (metis Suc_diff_1 add.commute mult_Suc)
    then show ?thesis using e assms(1) by linarith
  qed
  show "n \<le> c \<longleftrightarrow> L \<le> c * s"
  proof
    assume "n \<le> c"
    then have "n * s \<le> c * s" by (rule mult_le_mono1)
    with up show "L \<le> c * s" by linarith
  next
    assume L: "L \<le> c * s"
    show "n \<le> c"
    proof (cases "n = 0")
      case False
      with lo L have "(n - 1) * s < c * s" by linarith
      then have "n - 1 < c" by (simp only: mult_less_cancel2)
      then show ?thesis by linarith
    qed simp
  qed
qed

lemma fst_True: "fst x \<Longrightarrow> x = (True, snd x)"
  by (cases x) simp

lemma hmac_feed_at:
  "hmac_at d k c m \<Longrightarrow> fst (hmac_feed c xs) \<and> hmac_at d k (snd (hmac_feed c xs)) (m @ concat xs)"
proof (induction xs arbitrary: c m)
  case (Cons x xs)
  have u: "fst (HMAC_Update c x)" "hmac_at d k (snd (HMAC_Update c x)) (m @ x)"
    using hmac_update_at [OF Cons.prems, of x] by simp_all
  from Cons.IH [OF u(2)] u(1) show ?case by (simp add: split_beta)
qed simp

lemma hmac_start:
  assumes "alloc (ctx_size d)" and "fresh_ok fresh"
  shows "fst (HMAC_Init_ex dup alloc fresh HMAC_CTX_init (Some k) (Some d)) \<and>
    hmac_at d k (snd (HMAC_Init_ex dup alloc fresh HMAC_CTX_init (Some k) (Some d))) []"
  using hmac_init_key [where alloc = alloc and md = "Some d" and key = "Some k", OF hmac_wf_init assms] by simp

text \<open>What one turn leaves: a context that can be rewound without memory.\<close>

definition rewindable :: "EVP_MD \<Rightarrow> bytes \<Rightarrow> 'p hmac_ctx \<Rightarrow> bool" where
  "rewindable d k c \<longleftrightarrow> hmac_keyed d k c \<and> digest (md_ctx c) = Some d"

lemma hmac_rewind:
  assumes "rewindable d k c"
  shows "fst (HMAC_Init_ex dup alloc fresh c None None) \<and> hmac_at d k (snd (HMAC_Init_ex dup alloc fresh c None None)) []"
  using assms hmac_init_rewind [where alloc = alloc and md = None] unfolding rewindable_def by blast

lemma hmac_result:
  assumes "hmac_at d k c m"
  obtains c' where "HMAC_Final dup alloc c = (Some (rfc_hmac d k m, EVP_MD_size d), c')" "rewindable d k c'"
  using hmac_final_at [OF assms, of dup alloc] unfolding rewindable_def by blast

lemma hkdf_loop_exact:
  fixes out_len d prk info
  defines "s \<equiv> EVP_MD_size d" and "T \<equiv> rfc_hkdf_t d prk info"
  assumes "out_len \<le> (i + k) * s" and "0 < k \<Longrightarrow> (i + k - 1) * s < out_len" and "out_len + s < 2 ^ 64"
    and "if i = 0 then hmac_at d prk hmac [] else rewindable d prk hmac \<and> previous = T i"
    and "out = take out_len (concat (map T [1..<i + 1]))"
  shows "hkdf_loop alloc fresh info out_len s k i hmac previous out = Some (take out_len (concat (map T [1..<i + k + 1])))"
  using assms(3-)
proof (induction k arbitrary: i hmac previous out)
  case (Suc k)
  let ?p = "if i \<noteq> 0
             then let (ok, hmac) = HMAC_Init_ex Some alloc fresh hmac None None
                  in if \<not> ok then (False, hmac) else HMAC_Update hmac (take s previous)
             else (True, hmac)"
  have p: "fst ?p \<and> hmac_at d prk (snd ?p) (T i)"
  proof (cases "i = 0")
    case True
    with Suc.prems(4) show ?thesis by (simp add: T_def)
  next
    case False
    then have r: "rewindable d prk hmac" "previous = T i" using Suc.prems(4) by simp_all
    have "length (T i) = s" using False by (cases i) (simp_all add: T_def s_def)
    then have "take s previous = T i" by (simp add: r(2))
    moreover note r' = hmac_rewind [OF r(1), of Some alloc fresh]
    moreover note hmac_update_at [OF conjunct2 [OF r'], of "T i"]
    ultimately show ?thesis using False by (simp add: split_beta)
  qed
  then obtain h where pe: "?p = (True, h)" and h: "hmac_at d prk h (T i)" using fst_True by blast
  let ?f = "hmac_feed h [info, [of_nat (i + 1)]]"
  have f: "fst ?f" "hmac_at d prk (snd ?f) (T i @ info @ [of_nat (Suc i)])"
    using hmac_feed_at [OF h, of "[info, [of_nat (i + 1)]]"] by simp_all
  from hmac_result [OF f(2)] obtain c' where
    c: "HMAC_Final Some alloc (snd ?f) = (Some (rfc_hmac d prk (T i @ info @ [of_nat (Suc i)]), EVP_MD_size d), c')" "rewindable d prk c'" .
  have t: "rfc_hmac d prk (T i @ info @ [of_nat (Suc i)]) = T (Suc i)" by (simp add: T_def)
  have lT: "length (T j) = s" if "0 < j" for j using that by (cases j) (simp_all add: T_def s_def)
  have "i * s \<le> (i + Suc k - 1) * s" by simp
  then have i: "i * s < out_len" using Suc.prems(2) by linarith
  have lo: "length (concat (map T [1..<Suc i])) = i * s" using length_blocks [of "[1..<Suc i]" T s] lT by (simp del: upt_Suc)
  then have o: "out = concat (map T [1..<Suc i])" "length out = i * s" using Suc.prems(5) i by simp_all
  have sz: "size_add (i * s) s = i * s + s" using i Suc.prems(3) by (simp add: size_add_exact)
  have "length (T (Suc i)) = s" by (simp add: T_def s_def)
  then have o': "out @ take (if size_add (length out) s > out_len then out_len - length out else s) (T (Suc i)) =
      take out_len (concat (map T [1..<Suc i + 1]))"
  proof -
    define A where "A = concat (map T [1..<Suc i])"
    have "concat (map T [1..<Suc i + 1]) = A @ T (Suc i)" by (simp add: A_def)
    then show ?thesis using i \<open>length (T (Suc i)) = s\<close> o lo unfolding A_def [symmetric] by (simp add: sz)
  qed
  note fe = fst_True [OF f(1)]
  have "hkdf_loop alloc fresh info out_len s (Suc k) i hmac previous out =
      hkdf_loop alloc fresh info out_len s k (Suc i) c' (T (Suc i))
        (out @ take (if size_add (length out) s > out_len then out_len - length out else s) (T (Suc i)))"
    by (subst hkdf_loop.simps(2), subst pe, unfold Let_def prod.case, subst fe)
      (simp only: prod.case c(1) t [unfolded Suc_eq_plus1] option.case simp_thms if_False Suc_eq_plus1)
  also have "\<dots> = Some (take out_len (concat (map T [1..<Suc i + k + 1])))"
    unfolding o' by (rule Suc.IH) (use Suc.prems(1-3) c(2) in simp_all)
  finally show ?case by simp
qed simp

lemma hkdf_expand_rfc:
  assumes "alloc (ctx_size d)" and "fresh_ok fresh" and "out_len < 2 ^ 64"
  shows "HKDF_expand alloc fresh out_len d prk info =
    (if out_len \<le> 255 * EVP_MD_size d then Some (rfc_hkdf_expand d prk info out_len) else None)"
proof -
  define s where "s = EVP_MD_size d"
  have s: "0 < s" "s \<le> 64" using md_size_pos [of d] md_size_block(3) [of d] by (simp_all add: s_def EVP_MAX_MD_SIZE_def)
  show ?thesis
  proof (cases "out_len + s < 2 ^ 64")
    case False
    then have "size_add out_len s < out_len" using size_add_overflow [of out_len s] assms(3) s(2) by simp
    moreover have "\<not> out_len \<le> 255 * s" using False s(2) by simp
    ultimately show ?thesis by (simp add: HKDF_expand_def Let_def s_def)
  next
    case True
    define n where "n = (out_len + s - 1) div s"
    have "size_add (size_add out_len s) (2 ^ 64 - 1) = out_len + s - 1"
      using True s(1) by (simp add: size_add_exact) (simp add: size_add_def mod_if)
    then have n: "size_add (size_add out_len s) (2 ^ 64 - 1) div s = n" by (simp add: n_def)
    note c = ceiling [OF s(1), of out_len, folded n_def]
    let ?h = "HMAC_Init_ex Some alloc fresh (HMAC_CTX_init :: unit hmac_ctx) (Some prk) (Some d)"
    have st: "fst ?h \<and> hmac_at d prk (snd ?h) []" by (rule hmac_start) (use assms(1,2) in simp_all)
    have "hkdf_loop alloc fresh info out_len (EVP_MD_size d) n 0 (snd ?h) [] [] =
        Some (take out_len (concat (map (rfc_hkdf_t d prk info) [1..<0 + n + 1])))"
      by (rule hkdf_loop_exact) (use c(1,2) True st in \<open>simp_all add: s_def\<close>)
    then have l: "hkdf_loop alloc fresh info out_len s n 0 (snd ?h) [] [] = Some (rfc_hkdf_expand d prk info out_len)"
      by (simp add: rfc_hkdf_expand_def n_def s_def del: upt_Suc)
    have ok: "n > 255 \<longleftrightarrow> \<not> out_len \<le> 255 * s" using c(3) [of 255] by linarith
    have ov: "\<not> size_add out_len s < out_len" using True by (simp add: size_add_exact)
    show ?thesis
      unfolding HKDF_expand_def Let_def s_def [symmetric] n ok using ov st l by (simp add: split_beta)
  qed
qed

section \<open>RFC 5246\<close>

primrec rfc_prf_a :: "EVP_MD \<Rightarrow> bytes \<Rightarrow> bytes \<Rightarrow> nat \<Rightarrow> bytes" where
  "rfc_prf_a d secret seed 0 = seed"
| "rfc_prf_a d secret seed (Suc i) = rfc_hmac d secret (rfc_prf_a d secret seed i)"

definition p_hash_from :: "EVP_MD \<Rightarrow> bytes \<Rightarrow> bytes \<Rightarrow> nat \<Rightarrow> nat \<Rightarrow> bytes" where
  "p_hash_from d secret seed i n = concat (map (\<lambda>i. rfc_hmac d secret (rfc_prf_a d secret seed i @ seed)) [i..<i + n])"

definition rfc_p_hash :: "EVP_MD \<Rightarrow> bytes \<Rightarrow> bytes \<Rightarrow> nat \<Rightarrow> bytes" where
  "rfc_p_hash d secret seed L = take L (p_hash_from d secret seed 1 ((L + EVP_MD_size d - 1) div EVP_MD_size d))"

text \<open>With MD5 and SHA-1 the secret is split in two halves that share the middle byte when the length is odd.\<close>

definition rfc_prf :: "EVP_MD \<Rightarrow> bytes \<Rightarrow> bytes \<Rightarrow> nat \<Rightarrow> bytes" where
  "rfc_prf d secret seed L =
     (if d = EVP_md5_sha1
      then let h = (length secret + 1) div 2
           in map2 (XOR) (rfc_p_hash EVP_md5 (take h secret) seed L) (rfc_p_hash EVP_sha1 (drop (length secret - h) secret) seed L)
      else rfc_p_hash d secret seed L)"

lemma zip_short: "zip xs (take (length xs) ys) = zip xs ys"
proof (induction xs arbitrary: ys)
  case (Cons x xs)
  then show ?case by (cases ys) simp_all
qed simp

lemma p_hash_from_Suc:
  "p_hash_from d k seed i (Suc n) = rfc_hmac d k (rfc_prf_a d k seed i @ seed) @ p_hash_from d k seed (Suc i) n"
  unfolding p_hash_from_def by (subst upt_conv_Cons) simp_all

lemma length_p_hash_from: "length (p_hash_from d k seed i n) = n * EVP_MD_size d"
  by (induction n arbitrary: i) (simp add: p_hash_from_def, simp add: p_hash_from_Suc)

lemma p_hash_loop_exact:
  fixes d k seeds
  defines "A \<equiv> rfc_prf_a d k (concat seeds)"
  assumes "hmac_at d k ctx_init []" and "alloc (ctx_size d)" and "length out \<le> n * EVP_MD_size d" and "out \<noteq> []"
  shows "p_hash_loop alloc (EVP_MD_size d) seeds ctx ctx_tmp ctx_init (A i) out =
    Some (Some (map2 (XOR) out (p_hash_from d k (concat seeds) i n)))"
  using assms(4,5)
proof (induction n arbitrary: i ctx ctx_tmp out)
  case (Suc n)
  let ?c = "HMAC_CTX_copy_ex Some alloc ctx ctx_init"
  have c: "fst ?c" "hmac_at d k (snd ?c) []" using hmac_copy [where alloc = alloc, OF assms(2,3)] by blast+
  let ?u = "HMAC_Update (snd ?c) (A i)"
  have u: "fst ?u" "hmac_at d k (snd ?u) (A i)" using hmac_update_at [OF c(2), of "A i"] by simp_all
  define t where "t = (if length out > EVP_MD_size d then HMAC_CTX_copy_ex Some alloc ctx_tmp (snd ?u) else (True, ctx_tmp))"
  have t: "fst t" "length out > EVP_MD_size d \<Longrightarrow> hmac_at d k (snd t) (A i)"
    using hmac_copy [where alloc = alloc, OF u(2) assms(3)] by (auto simp: t_def)
  let ?f = "hmac_feed (snd ?u) seeds"
  have f: "fst ?f" "hmac_at d k (snd ?f) (A i @ concat seeds)" using hmac_feed_at [OF u(2), of seeds] by simp_all
  let ?h = "rfc_hmac d k (A i @ concat seeds)"
  from hmac_result [OF f(2)] obtain c' where h: "HMAC_Final Some alloc (snd ?f) = (Some (?h, EVP_MD_size d), c')" .
  note e = fst_True [OF c(1)] fst_True [OF u(1)] fst_True [OF t(1)] fst_True [OF f(1)]
  have p: "p_hash_from d k (concat seeds) i (Suc n) = ?h @ p_hash_from d k (concat seeds) (Suc i) n"
    by (simp add: p_hash_from_Suc A_def)
  show ?case
  proof (cases "length out > EVP_MD_size d")
    case False
    then have "p_hash_loop alloc (EVP_MD_size d) seeds ctx ctx_tmp ctx_init (A i) out =
        Some (Some (map2 (XOR) out (take (length out) ?h)))"
      using c(1) u(1) f(1) by (subst p_hash_loop.simps) (auto simp: split_beta Let_def h)
    also have "map2 (XOR) out (take (length out) ?h) = map2 (XOR) out (?h @ p_hash_from d k (concat seeds) (Suc i) n)"
      using False by (simp add: zip_append2 zip_short)
    finally show ?thesis by (simp only: p)
  next
    case True
    from hmac_result [OF t(2) [OF True]] obtain t' where
      t': "HMAC_Final Some alloc (snd t) = (Some (A (Suc i), EVP_MD_size d), t')" by (metis A_def rfc_prf_a.simps(2))
    have lA: "length (A (Suc i)) = EVP_MD_size d" by (simp add: A_def)
    have "length (drop (EVP_MD_size d) out) \<le> n * EVP_MD_size d" "drop (EVP_MD_size d) out \<noteq> []" using Suc.prems True by simp_all
    note IH = Suc.IH [OF this, of c' t' "Suc i"]
    have "p_hash_loop alloc (EVP_MD_size d) seeds ctx ctx_tmp ctx_init (A i) out =
        Option.bind (p_hash_loop alloc (EVP_MD_size d) seeds c' t' ctx_init (A (Suc i)) (drop (EVP_MD_size d) out))
          (\<lambda>r. Some (map_option ((@) (map2 (XOR) (take (EVP_MD_size d) out) ?h)) r))"
      using True c(1) u(1) f(1) t(1) t' by (subst p_hash_loop.simps) (auto simp: split_beta Let_def h t_def lA)
    also have "\<dots> = Some (Some (map2 (XOR) out (?h @ p_hash_from d k (concat seeds) (Suc i) n)))"
      unfolding IH using True by (simp add: zip_append2)
    finally show ?thesis by (simp only: p)
  qed
qed simp

lemma take_zip_xor: "take n (map2 (XOR) xs ys) = map2 (XOR) (take n xs) (take n ys)"
  by (simp add: take_map take_zip)

lemma p_hash_exact:
  assumes "alloc (ctx_size d)" and "fresh_ok fresh" and "out \<noteq> []"
  shows "tls1_P_hash alloc fresh out d secret label seed1 seed2 =
    Some (Some (map2 (XOR) out (rfc_p_hash d secret (label @ seed1 @ seed2) (length out))))"
proof -
  let ?i = "HMAC_Init_ex Some alloc fresh (HMAC_CTX_init :: unit hmac_ctx) (Some secret) (Some d)"
  have i: "fst ?i" "hmac_at d secret (snd ?i) []"
    using hmac_start [where alloc = alloc and d = d and fresh = fresh and dup = Some and k = secret] assms(1,2) by blast+
  let ?c = "HMAC_CTX_copy_ex Some alloc (HMAC_CTX_init :: unit hmac_ctx) (snd ?i)"
  have c: "fst ?c" "hmac_at d secret (snd ?c) []" using hmac_copy [where alloc = alloc, OF i(2) assms(1)] by blast+
  let ?f = "hmac_feed (snd ?c) [label, seed1, seed2]"
  have f: "fst ?f" "hmac_at d secret (snd ?f) (label @ seed1 @ seed2)" using hmac_feed_at [OF c(2), of "[label, seed1, seed2]"] by simp_all
  let ?a = "rfc_hmac d secret (label @ seed1 @ seed2)"
  from hmac_result [OF f(2)] obtain c' where h: "HMAC_Final Some alloc (snd ?f) = (Some (?a, EVP_MD_size d), c')" .
  define n where "n = (length out + EVP_MD_size d - 1) div EVP_MD_size d"
  have "tls1_P_hash alloc fresh out d secret label seed1 seed2 =
      p_hash_loop alloc (EVP_MD_size d) [label, seed1, seed2] c' HMAC_CTX_init (snd ?i) ?a out"
    using i(1) c(1) f(1) h by (simp add: tls1_P_hash_def split_beta Let_def del: hmac_feed.simps)
  also have "\<dots> = Some (Some (map2 (XOR) out (p_hash_from d secret (label @ seed1 @ seed2) 1 n)))"
    using p_hash_loop_exact [where alloc = alloc, OF i(2) assms(1) _ assms(3), of n "[label, seed1, seed2]" c' HMAC_CTX_init 1]
      ceiling(1) [OF md_size_pos, of "length out" d] by (simp add: n_def)
  finally show ?thesis by (simp add: rfc_p_hash_def n_def zip_short)
qed

lemma length_rfc_p_hash: "length (rfc_p_hash d k seed L) = L"
  using ceiling(1) [OF md_size_pos, of L d] by (simp add: rfc_p_hash_def length_p_hash_from)

lemma xor_zeros: "length xs = n \<Longrightarrow> map2 (XOR) (replicate n 0) xs = (xs :: bytes)"
  by (intro nth_equalityI) simp_all

lemma prf_exact:
  assumes "\<And>d. alloc (ctx_size d)" and "fresh_ok fresh"
  shows "CRYPTO_tls1_prf alloc fresh d out_len secret label seed1 seed2 = Some (Some (rfc_prf d secret (label @ seed1 @ seed2) out_len))"
proof (cases "out_len = 0")
  case True
  then show ?thesis by (simp add: CRYPTO_tls1_prf_def rfc_prf_def rfc_p_hash_def Let_def)
next
  case False
  have p: "tls1_P_hash alloc fresh (replicate out_len 0) d secret label seed1 seed2 = Some (Some (rfc_p_hash d secret (label @ seed1 @ seed2) out_len))" for d secret
    using p_hash_exact [where alloc = alloc, OF assms(1,2), of "replicate out_len 0" d secret label seed1 seed2] False by (simp add: xor_zeros length_rfc_p_hash)
  have q: "tls1_P_hash alloc fresh (rfc_p_hash d' k seed out_len) d secret label seed1 seed2 =
      Some (Some (map2 (XOR) (rfc_p_hash d' k seed out_len) (rfc_p_hash d secret (label @ seed1 @ seed2) out_len)))" for d d' secret k seed
    using p_hash_exact [where alloc = alloc, OF assms(1,2), of "rfc_p_hash d' k seed out_len" d secret label seed1 seed2] False length_rfc_p_hash [of d' k seed out_len]
    by (metis length_0_conv)
  have h: "length secret - length secret div 2 = (length secret + 1) div 2" by linarith
  have t: "take ((length secret + 1) div 2) (drop (length secret - (length secret + 1) div 2) secret) =
      drop (length secret - (length secret + 1) div 2) secret" by simp
  show ?thesis using False unfolding CRYPTO_tls1_prf_def rfc_prf_def Let_def h t p by (simp add: q)
qed

section \<open>RFC 8018\<close>

primrec rfc_pbkdf_u :: "EVP_MD \<Rightarrow> bytes \<Rightarrow> bytes \<Rightarrow> nat \<Rightarrow> nat \<Rightarrow> bytes" where
  "rfc_pbkdf_u d password salt i 0 = rfc_hmac d password (salt @ be_bytes 4 i)"
| "rfc_pbkdf_u d password salt i (Suc j) = rfc_hmac d password (rfc_pbkdf_u d password salt i j)"

text \<open>\<open>U_1 XOR ... XOR U_c\<close>, the first of which is number 0 here.\<close>

definition rfc_pbkdf_f :: "EVP_MD \<Rightarrow> bytes \<Rightarrow> bytes \<Rightarrow> nat \<Rightarrow> nat \<Rightarrow> bytes" where
  "rfc_pbkdf_f d password salt c i =
     fold (\<lambda>j t. map2 (XOR) t (rfc_pbkdf_u d password salt i j)) [1..<c] (rfc_pbkdf_u d password salt i 0)"

definition pbkdf_key :: "EVP_MD \<Rightarrow> bytes \<Rightarrow> bytes \<Rightarrow> nat \<Rightarrow> nat \<Rightarrow> bytes" where
  "pbkdf_key d password salt c L =
     take L (concat (map (rfc_pbkdf_f d password salt c) [1..<(L + EVP_MD_size d - 1) div EVP_MD_size d + 1]))"

text \<open>Section 5.2 asks for a positive count and refuses a key of more than \<open>2 ^ 32 - 1\<close> blocks, so the
  number of a block always fits its four octets.\<close>

definition rfc_pbkdf2 :: "EVP_MD \<Rightarrow> bytes \<Rightarrow> bytes \<Rightarrow> nat \<Rightarrow> nat \<Rightarrow> bytes option" where
  "rfc_pbkdf2 d password salt c L =
     (if c = 0 \<or> L > (2 ^ 32 - 1) * EVP_MD_size d then None else Some (pbkdf_key d password salt c L))"

lemma length_pbkdf_u [simp]: "length (rfc_pbkdf_u d p salt i j) = EVP_MD_size d"
  by (cases j) simp_all

lemma pbkdf_turns_exact:
  fixes d p salt i
  defines "U \<equiv> rfc_pbkdf_u d p salt i"
  assumes "rewindable d p hctx"
  shows "\<exists>hctx'. pbkdf_turns alloc fresh (EVP_MD_size d) todo n hctx (U j) (take todo t) =
    Some (take todo (fold (\<lambda>j t. map2 (XOR) t (U j)) [j + 1..<j + 1 + n] t), hctx') \<and> rewindable d p hctx'"
  using assms(2)
proof (induction n arbitrary: hctx j t)
  case (Suc n)
  note r = hmac_rewind [OF Suc.prems, of Some alloc fresh]
  let ?f = "hmac_feed (snd (HMAC_Init_ex Some alloc fresh hctx None None)) [U j]"
  have l: "take (EVP_MD_size d) (U j) = U j" by (simp add: U_def)
  have f: "fst ?f" "hmac_at d p (snd ?f) (U j)" using hmac_feed_at [OF conjunct2 [OF r], of "[U j]"] by simp_all
  from hmac_result [OF f(2)] obtain c where
    h: "HMAC_Final Some alloc (snd ?f) = (Some (U (Suc j), EVP_MD_size d), c)" "rewindable d p c" by (metis U_def rfc_pbkdf_u.simps(2))
  from Suc.IH [OF h(2), of "Suc j" "map2 (XOR) t (U (Suc j))"] obtain c' where
    IH: "pbkdf_turns alloc fresh (EVP_MD_size d) todo n c (U (Suc j)) (take todo (map2 (XOR) t (U (Suc j)))) =
      Some (take todo (fold (\<lambda>j t. map2 (XOR) t (U j)) [Suc j + 1..<Suc j + 1 + n] (map2 (XOR) t (U (Suc j)))), c')" "rewindable d p c'" by blast
  have "pbkdf_turns alloc fresh (EVP_MD_size d) todo (Suc n) hctx (U j) (take todo t) =
      pbkdf_turns alloc fresh (EVP_MD_size d) todo n c (U (Suc j)) (take todo (map2 (XOR) t (U (Suc j))))"
    using r f(1) h(1) by (simp add: split_beta l take_zip_xor del: hmac_feed.simps)
  moreover have "[j + 1..<j + 1 + Suc n] = Suc j # [Suc j + 1..<Suc j + 1 + n]" by (subst upt_conv_Cons) simp_all
  ultimately show ?case using IH by (simp del: upt_Suc pbkdf_turns.simps)
qed simp

lemma counter_bytes:
  "[ucast (drop_bit 24 i AND 0xff), ucast (drop_bit 16 i AND 0xff), ucast (drop_bit 8 i AND 0xff), ucast (i AND 0xff)] =
    be_bytes 4 (unat (i :: u32))"
  using l2c_bytes [of True i] by (simp add: HOST_l2c_def)

lemma length_pbkdf_f: "length (rfc_pbkdf_f d p salt c i) = EVP_MD_size d"
proof -
  have "length t = EVP_MD_size d \<Longrightarrow> length (fold (\<lambda>j t. map2 (XOR) t (rfc_pbkdf_u d p salt i j)) js t) = EVP_MD_size d" for t js
    by (induction js arbitrary: t) simp_all
  then show ?thesis by (simp add: rfc_pbkdf_f_def)
qed

lemma pbkdf_blocks_exact:
  assumes "rewindable d p hctx" and "key_len \<le> n * EVP_MD_size d"
  shows "pbkdf_blocks alloc fresh d salt c (of_nat i) hctx key_len =
    Some (take key_len (concat (map (rfc_pbkdf_f d p salt c) [i..<i + n])))"
  using assms
proof (induction n arbitrary: i hctx key_len)
  case 0
  then show ?case by (simp add: pbkdf_blocks.simps)
next
  case (Suc n)
  show ?case
  proof (cases "key_len = 0")
    case True
    then show ?thesis by (simp add: pbkdf_blocks.simps)
  next
    case False
    define s where "s = EVP_MD_size d"
    define todo where "todo = (if s > key_len then key_len else s)"
    let ?U = "rfc_pbkdf_u d p salt i"
    note r = hmac_rewind [OF Suc.prems(1), of Some alloc fresh]
    let ?b = "be_bytes 4 i"
    have b: "be_bytes 4 (unat (of_nat i :: u32)) = ?b" using be_bytes_mod [of 4 i] by (simp add: unat_of_nat)
    let ?f = "hmac_feed (snd (HMAC_Init_ex Some alloc fresh hctx None None)) [salt, ?b]"
    have f: "fst ?f" "hmac_at d p (snd ?f) (salt @ ?b)" using hmac_feed_at [OF conjunct2 [OF r], of "[salt, ?b]"] by simp_all
    from hmac_result [OF f(2)] obtain h where
      h: "HMAC_Final Some alloc (snd ?f) = (Some (?U 0, s), h)" "rewindable d p h" by (metis rfc_pbkdf_u.simps(1) s_def)
    from pbkdf_turns_exact [OF h(2), of alloc fresh todo "c - 1" salt i 0 "?U 0"] obtain h' where
      t: "pbkdf_turns alloc fresh s todo (c - 1) h (?U 0) (take todo (?U 0)) = Some (take todo (rfc_pbkdf_f d p salt c i), h')" "rewindable d p h'"
      by (cases c) (auto simp: rfc_pbkdf_f_def s_def simp del: upt_Suc)
    have k: "key_len - todo \<le> n * s" using Suc.prems(2) by (auto simp: todo_def s_def)
    note IH = Suc.IH [OF t(2) k [unfolded s_def], of "Suc i"]
    have "pbkdf_blocks alloc fresh d salt c (of_nat i) hctx key_len =
        Some (take todo (rfc_pbkdf_f d p salt c i) @ take (key_len - todo) (concat (map (rfc_pbkdf_f d p salt c) [Suc i..<Suc i + n])))"
      using False r f(1) h(1) t(1) IH
      by (subst pbkdf_blocks.simps)
        (simp only: Let_def counter_bytes b s_def [symmetric] todo_def [symmetric] split_beta; simp add: add.commute del: hmac_feed.simps upt_Suc)
    also have "\<dots> = Some (take key_len (concat (map (rfc_pbkdf_f d p salt c) (i # [Suc i..<Suc i + n]))))"
      by (auto simp: todo_def s_def length_pbkdf_f)
    also have "i # [Suc i..<Suc i + n] = [i..<i + Suc n]" by (subst upt_conv_Cons [of i]) simp_all
    finally show ?thesis .
  qed
qed

lemma pbkdf2_exact:
  assumes "alloc (ctx_size d)" and "fresh_ok fresh"
  shows "PKCS5_PBKDF2_HMAC alloc fresh password salt iterations d key_len =
    (iterations \<noteq> 0, Some (pbkdf_key d password salt iterations key_len))"
proof -
  let ?i = "HMAC_Init_ex Some alloc fresh (HMAC_CTX_init :: unit hmac_ctx) (Some password) (Some d)"
  have i: "fst ?i" "hmac_at d password (snd ?i) []"
    using hmac_start [where alloc = alloc and d = d and fresh = fresh and dup = Some and k = password] assms by blast+
  have "rewindable d password (snd ?i)" using i(2) by (auto simp: rewindable_def hmac_at_def ctx_at_def)
  from pbkdf_blocks_exact [OF this ceiling(1) [OF md_size_pos], of alloc fresh salt iterations 1 key_len] i(1)
  show ?thesis by (simp add: PKCS5_PBKDF2_HMAC_def split_beta pbkdf_key_def add.commute del: upt_Suc)
qed

lemma pbkdf_key_zero: "pbkdf_key d password salt 0 L = pbkdf_key d password salt 1 L"
proof -
  have "rfc_pbkdf_f d password salt 0 = rfc_pbkdf_f d password salt 1" by (rule ext) (simp add: rfc_pbkdf_f_def)
  then show ?thesis by (simp only: pbkdf_key_def)
qed

text \<open>Beyond the limit the code goes on: its counter of 32 bits wraps around and the blocks repeat.\<close>

lemma pbkdf_counter_wraps:
  assumes "rewindable d p hctx" and "key_len \<le> n * EVP_MD_size d"
  shows "pbkdf_blocks alloc fresh d salt c (of_nat (2 ^ 32 + i)) hctx key_len =
    Some (take key_len (concat (map (rfc_pbkdf_f d p salt c) [i..<i + n])))"
proof -
  have "(of_nat (2 ^ 32 + i) :: u32) = of_nat i"
    by (rule word_unat_eq_iff [THEN iffD2], simp only: unat_of_nat) simp
  then show ?thesis using pbkdf_blocks_exact [OF assms, of alloc fresh salt c i] by metis
qed

section \<open>Properties\<close>

text \<open>C38. \<open>HKDF\<close> is HKDF of RFC 5869, extract and expand, for every digest and every length of the
  output: it fails exactly when more than 255 blocks are asked for.\<close>

theorem hkdf_exact:
  assumes "alloc (ctx_size d)" and "fresh_ok fresh" and "out_len < 2 ^ 64"
  shows "HKDF alloc fresh out_len d secret salt info =
    (if out_len \<le> 255 * EVP_MD_size d
     then Some (rfc_hkdf_expand d (rfc_hmac d (case salt of None \<Rightarrow> [] | Some s \<Rightarrow> s) secret) info out_len)
     else None)"
  using hkdf_expand_rfc [where alloc = alloc, OF assms] by (simp add: HKDF_def HKDF_extract_def hmac_oneshot [where alloc = alloc, OF assms(1,2)])

theorem hkdf_exact_witness:
  "HKDF (\<lambda>_. True) start_state 40 EVP_sha256 [1, 2] (Some [3]) [4] =
    Some (rfc_hkdf_expand EVP_sha256 (rfc_hmac EVP_sha256 [3] [1, 2]) [4] 40)"
  using hkdf_exact [where alloc = "\<lambda>_. True" and out_len = 40 and d = EVP_sha256 and secret = "[1, 2]" and salt = "Some [3]" and info = "[4]", OF TrueI fresh_ok_start]
  by (simp add: SHA256_DIGEST_LENGTH_def)

text \<open>C39. \<open>CRYPTO_tls1_prf\<close> returns, with the pseudorandom function of TLS 1.2 for a digest and of TLS 1.0
  for MD5 with SHA-1, whatever the lengths of secret and output.\<close>

theorem tls1_prf_exact:
  assumes "\<And>d. alloc (ctx_size d)" and "fresh_ok fresh"
  shows "CRYPTO_tls1_prf alloc fresh d out_len secret label seed1 seed2 = Some (Some (rfc_prf d secret (label @ seed1 @ seed2) out_len))"
  using assms by (rule prf_exact)

theorem tls1_prf_exact_witness:
  "CRYPTO_tls1_prf (\<lambda>_. True) start_state EVP_md5_sha1 48 [1, 2, 3] [4] [5] [6] = Some (Some (rfc_prf EVP_md5_sha1 [1, 2, 3] [4, 5, 6] 48))"
  using tls1_prf_exact [where alloc = "\<lambda>_. True", OF TrueI fresh_ok_start, of EVP_md5_sha1 48 "[1, 2, 3]" "[4]" "[5]" "[6]"] by simp

text \<open>C40. \<open>PKCS5_PBKDF2_HMAC\<close> writes the key of RFC 8018, section 5.2, for every digest, password and
  salt, every positive number of iterations and every length that section allows. With no iterations it
  writes the key for one and reports a failure.\<close>

theorem pbkdf2_hmac_exact:
  assumes "alloc (ctx_size d)" and "fresh_ok fresh"
    and "rfc_pbkdf2 d password salt (if iterations = 0 then 1 else iterations) key_len = Some key"
  shows "PKCS5_PBKDF2_HMAC alloc fresh password salt iterations d key_len = (iterations \<noteq> 0, Some key)"
  using assms(3) pbkdf2_exact [where alloc = alloc, OF assms(1,2), of password salt iterations key_len]
  by (auto simp: rfc_pbkdf2_def pbkdf_key_zero split: if_splits)

theorem pbkdf2_hmac_exact_witness:
  "\<exists>key. rfc_pbkdf2 EVP_sha1 [1] [2] 1000 24 = Some key
    \<and> PKCS5_PBKDF2_HMAC (\<lambda>_. True) start_state [1] [2] 1000 EVP_sha1 24 = (True, Some key)"
proof -
  have k: "rfc_pbkdf2 EVP_sha1 [1] [2] 1000 24 = Some (pbkdf_key EVP_sha1 [1] [2] 1000 24)"
    by (simp add: rfc_pbkdf2_def SHA_DIGEST_LENGTH_def)
  then show ?thesis
    using pbkdf2_hmac_exact [where alloc = "\<lambda>_. True" and d = EVP_sha1, OF TrueI fresh_ok_start, of "[1]" "[2]" 1000 24] by simp
qed

end
