(* ===== verification/Spec2Isabelle.thy ===== *)
theory Spec2Isabelle
  imports CBB_Safety CBB_Text Unicode Base64_Stream BER_Laws Nanopb_Safety Nanopb_Input Nanopb_Iter
    Nanopb_Message Nanopb_Wire Stack_Laws Lhash_Laws Bio_Pair_Laws Tls_Record Kdf
begin

text \<open>
  A verification library for the C code of the repository, an iOS application whose C code is
  in its pods: the foundation layers of BoringSSL (\<open>Pods/BoringSSL-GRPC/src/crypto\<close>), on which
  gRPC's TLS rests, and nanopb (\<open>Pods/nanopb\<close>), with which Firestore stores and sends its
  documents. Definitions carry the names of the C functions; source paths below are relative
  to these two directories.

  \<^bold>\<open>Conventions.\<close> Memory of a buffer is a list of bytes, a \<open>size_t\<close> that can overflow is a
  \<open>nat\<close> with \<open>size_add\<close> and \<open>size_mul\<close> modulo \<open>2 ^ 64\<close>, a value whose bits matter is a \<open>word\<close>
  of its width. A function returns the pair of its result (\<open>None\<close> or \<open>False\<close> for failure) and
  the changed state, which is also returned on failure. The allocator is a parameter that says
  which requests succeed, the contents of new memory another one; the theorems hold for all of
  them. Error-queue entries (\<open>OPENSSL_PUT_ERROR\<close>) are not part of a result.

  \<^bold>\<open>Shared theories.\<close> \<open>Prelude\<close> has the types, machine integers and byte/number conversions;
  \<open>Reader\<close> the contract of a parser that takes a prefix off its input (locales
  \<open>prefix_reader\<close> and \<open>progress_reader\<close>, with introduction rules for composed parsers);
  \<open>Qsort\<close> a reference sort for the library's \<open>qsort\<close>; \<open>Mem\<close> models \<open>mem.c\<close>.

  \<^bold>\<open>Components.\<close>

  \<^item> The byte-string reader, \<open>bytestring/cbs.c\<close>: \<open>CBS\<close> (cursor and integers) and \<open>CBS_ASN1\<close>
    (tags, lengths, elements, INTEGER and others). A \<open>CBS\<close> is the list of the bytes it points
    to. \<open>DER\<close> states the distinguished encoding rules as functions and proves that the readers
    accept exactly these encodings.
  \<^item> The byte-string builder, \<open>bytestring/cbb.c\<close>: \<open>CBB\<close> models the shared buffer and the chain
    of open children; a \<open>CBB *\<close> is its depth in the chain. \<open>CBB_Refine\<close> states the abstract
    builder (frames of contents under a length prefix) and the locale \<open>cbb_operation\<close>, that an
    operation implements an abstract one, interpreted for every operation; \<open>CBB_Safety\<close> treats
    arbitrary sequences of calls; \<open>CBB_Text\<close> the sorting of SET OF and object identifiers.
  \<^item> BER to DER, \<open>bytestring/ber.c\<close>, a client of both: \<open>BER\<close> and \<open>BER_Laws\<close>. The conversion is
    correct and complete with respect to a datatype of BER elements and their DER form by X.690,
    but for BIT STRINGs in segments, where the code departs from it, and for one element: what
    follows it is converted as well. The recursion is bounded by the code's own \<open>kMaxDepth\<close> and
    by the shrinking input.
  \<^item> Character sets, \<open>bytestring/unicode.c\<close>: \<open>Unicode\<close>.
  \<^item> Constant-time helpers, \<open>internal.h\<close>: \<open>ConstTime\<close>; base64 on top of them,
    \<open>base64/base64.c\<close>: \<open>Base64\<close>, \<open>Base64_Laws\<close> (against RFC 4648), \<open>Base64_Stream\<close> (the
    streaming interface).
  \<^item> nanopb, \<open>pb_decode.c\<close>, \<open>pb_encode.c\<close>, \<open>pb_common.c\<close>: \<open>Nanopb\<close> (streams, varints, tags,
    substreams), \<open>Nanopb_Fields\<close> (descriptors, the field iterator, scalar, bytes and string
    fields), \<open>Nanopb_Laws\<close>, \<open>Nanopb_Codec\<close> (the contract of a writer and a reader, locale
    \<open>pb_codec\<close>, interpreted for every pair), \<open>Nanopb_Safety\<close> (output, whole messages included),
    \<open>Nanopb_Input\<close> (input), \<open>Nanopb_Iter\<close> (the addresses of the fields by the descriptor table, that
    the walk arrives there, and the search of the iterator). The search loop takes fuel; the length of the
    descriptor table is enough, which is proved, and \<open>None\<close> would be a run that needs more.
  \<^item> nanopb's messages: \<open>Nanopb_Memory\<close> has the memory (bytes at addresses, the blocks of
    \<open>realloc\<close>) and what the caller provides (descriptor tables by number, the allocator, callbacks,
    extension types); \<open>Nanopb_Decode\<close> and \<open>Nanopb_Encode\<close> model the walk over a message in both
    directions with defaults, static, allocated and callback fields, unions, extensions,
    submessages, required fields and release. The mutual recursion of the C functions is cut at
    the submessage, whose decoder or encoder is a parameter until it is closed in
    \<open>pb_decode_noinit\<close> and \<open>pb_encode\<close>; these take fuel for the nesting and the loops, and a
    result \<open>None\<close> is a run that does not end within it or calls a null function pointer.
    \<open>Nanopb_Static\<close> and \<open>Nanopb_Message\<close> prove that decoding static fields returns and stays in
    the structure, with fuel for the input, the longest table and two per level of nesting; the
    structure is to hold four bytes at the start of arrays of fixed count, which the code clears.
    \<open>Nanopb_Wire\<close> states the wire format of a message as a function and proves that the encoder
    writes it, with fuel for the longest table and one per level; which fields hold something is a
    function of its own, against which the code's test for default values is proved. \<open>Nanopb_Sample\<close> has the
    message types of the concrete instances.
  \<^item> Containers: \<open>stack/stack.c\<close> in \<open>Stack\<close> and \<open>Stack_Laws\<close>, \<open>lhash/lhash.c\<close> in \<open>Lhash\<close> and
    \<open>Lhash_Laws\<close> (locale \<open>keyed_table\<close>).
  \<^item> BIO pairs, \<open>bio/pair.c\<close> with the callers in \<open>bio/bio.c\<close>: \<open>Bio_Pair\<close> and \<open>Bio_Pair_Laws\<close>.
    The copying loops and \<open>BIO_write_all\<close> are partial functions, \<open>None\<close> stands for a loop that
    does not end; the theorems say that they return.
  \<^item> Hashes: \<open>Md32\<close> is the template \<open>fipsmodule/digest/md32_common.h\<close> over its block function, with
    the contract of a block function (locales \<open>block_function\<close> and \<open>md32_function\<close>) under which a
    message may come in any pieces; \<open>Sha2\<close> the rounds of FIPS 180-4 and their form in the code;
    \<open>Sha256\<close>, \<open>Sha512\<close>, \<open>Sha1\<close> and \<open>Md5\<close> (with MD4) the portable block functions and the proofs that they
    compute the standards' hashes. \<open>Digest\<close> models \<open>digests.c\<close> and \<open>digest.c\<close>; its locale
    \<open>digest_methods\<close> is all that the theories above it use of a hash.
  \<^item> Clients of the digests: \<open>Hmac\<close> (\<open>fipsmodule/hmac/hmac.c\<close>, against RFC 2104), \<open>Kdf\<close>
    (\<open>hkdf/hkdf.c\<close>, \<open>fipsmodule/tls/kdf.c\<close>, \<open>evp/pbkdf.c\<close>, against RFC 5869, RFC 5246 and RFC 8018; the
    loop of the TLS function is a partial function that is proved to return), \<open>Tls_Cbc\<close> and
    \<open>Tls_Record\<close> (\<open>cipher_extra/tls_cbc.c\<close>: what the constant-time code for CBC records computes; its
    timing is not modelled). New memory is a parameter \<open>fresh\<close>; \<open>fresh_ok\<close> says that it has the
    type it was asked for.

  \<^bold>\<open>Properties.\<close> The numbered properties C1, C2, ... stand at the end of the theories of their
  component, each followed by a concrete instance where it has hypotheses. They are of five
  kinds: the parsers accept exactly the encodings of a reference definition; writers and readers
  are inverse to each other; an implementation refines an abstract state; no sequence of calls
  leaves a buffer or loses an error; calls return, with the result that the state calls for.

  \<^bold>\<open>Not modelled.\<close> Big-number arithmetic, elliptic curves, RSA and ciphers; assembly and processor-specific
  variants of the hashes, and the signing context a digest context may carry; X.509 and the
  template-driven ASN.1 of \<open>crypto/asn1\<close>; threads, reference counts and the error queue; the
  C++ and Objective-C code of the pods and the Swift application; generated tables. Decoding into
  allocated fields, callbacks and extensions is modelled, but the properties of whole messages
  are stated for static fields (decoder) and for static and allocated fields (encoder).
\<close>

end
